(* ===== verification/Flark_Prelude.thy ===== *)
theory Flark_Prelude
  imports Main "HOL-Library.Word"
begin

text \<open>
  Shared vocabulary of the development: bytes and byte slices as the parse crate reads them,
  the two loop shapes the crate writes over and over (advance an index while a byte
  satisfies a test, and the same backwards), UTF-8 scalar boundaries, and the generic
  facts on lists and words that the component theories use.

  A Rust \<^verbatim>\<open>&[u8]\<close> or \<^verbatim>\<open>&str\<close> is a list of HOL characters (a HOL \<open>char\<close> is one byte), a
  \<^verbatim>\<open>usize\<close> a natural number, a \<^verbatim>\<open>u32\<close> a 32-bit word and a \<^verbatim>\<open>u64\<close> a 64-bit word.
\<close>

type_synonym byte = char
type_synonym bytes = "char list"
type_synonym u32 = "32 word"
type_synonym u64 = "64 word"

named_theorems scan_simps
named_theorems bound_intros

abbreviation bval :: "byte \<Rightarrow> nat" where
  "bval b \<equiv> of_char b"

abbreviation LF :: byte where "LF \<equiv> CHR 0x0A"
abbreviation CR :: byte where "CR \<equiv> CHR 0x0D"
abbreviation TAB :: byte where "TAB \<equiv> CHR 0x09"
abbreviation BACKSLASH :: byte where "BACKSLASH \<equiv> CHR 0x5C"

text \<open>\<^verbatim>\<open>u32::MAX\<close>, used as the parent of a root record.\<close>

abbreviation U32_MAX :: u32 where
  "U32_MAX \<equiv> 4294967295"

text \<open>\<^verbatim>\<open>n as u32\<close> and \<^verbatim>\<open>w as usize\<close>.\<close>

abbreviation to_u32 :: "nat \<Rightarrow> u32" where
  "to_u32 n \<equiv> word_of_nat n"

abbreviation to_usize :: "u32 \<Rightarrow> nat" where
  "to_usize w \<equiv> unat w"

subsection \<open>Slices\<close>

text \<open>\<^verbatim>\<open>bytes.get(i)\<close> and \<^verbatim>\<open>&bytes[a..b]\<close>.\<close>

definition byte_at :: "bytes \<Rightarrow> nat \<Rightarrow> byte option" where
  "byte_at bs i = (if i < length bs then Some (bs ! i) else None)"

definition seg :: "'a list \<Rightarrow> nat \<Rightarrow> nat \<Rightarrow> 'a list" where
  "seg bs a b = take (b - a) (drop a bs)"

definition starts_with :: "bytes \<Rightarrow> bytes \<Rightarrow> bool" where
  "starts_with s p = (take (length p) s = p)"

lemma byte_at_Some [simp]: "byte_at bs i = Some b \<longleftrightarrow> i < length bs \<and> bs ! i = b"
  by (auto simp: byte_at_def)

lemma byte_at_None [simp]: "byte_at bs i = None \<longleftrightarrow> length bs \<le> i"
  by (auto simp: byte_at_def)

lemma length_seg [simp]: "length (seg bs a b) = min (b - a) (length bs - a)"
  by (simp add: seg_def)

lemma seg_same [simp]: "seg bs a a = []"
  by (simp add: seg_def)

lemma seg_full [simp]: "length bs \<le> n \<Longrightarrow> seg bs 0 n = bs"
  by (simp add: seg_def)

lemma seg_nth: "a + i < b \<Longrightarrow> a + i < length bs \<Longrightarrow> seg bs a b ! i = bs ! (a + i)"
  by (simp add: seg_def)

lemma seg_append: "a \<le> b \<Longrightarrow> b \<le> c \<Longrightarrow> seg bs a b @ seg bs b c = seg bs a c"
proof -
  assume "a \<le> b" "b \<le> c"
  then obtain m n where "b = a + m" "c = a + m + n" by (metis le_iff_add)
  then show ?thesis
    by (simp add: seg_def take_add add.commute)
qed

lemma seg_Suc: "a < b \<Longrightarrow> a < length bs \<Longrightarrow> seg bs a b = bs ! a # seg bs (Suc a) b"
proof -
  assume "a < b" "a < length bs"
  then obtain k where "b - a = Suc k" by (metis Suc_diff_Suc)
  moreover from this have "b - Suc a = k" by simp
  ultimately show ?thesis
    using \<open>a < length bs\<close> by (simp add: seg_def Cons_nth_drop_Suc [symmetric])
qed

lemma seg_snoc: "a \<le> b \<Longrightarrow> b < length bs \<Longrightarrow> seg bs a (Suc b) = seg bs a b @ [bs ! b]"
  by (simp add: seg_def Suc_diff_le take_Suc_conv_app_nth)

lemma seg_empty_iff: "seg bs a b = [] \<longleftrightarrow> b \<le> a \<or> length bs \<le> a"
  by (auto simp: seg_def)

lemma seg_prefix_suffix: "a \<le> length bs \<Longrightarrow> take a bs @ seg bs a (length bs) = bs"
  by (simp add: seg_def)

lemma set_seg: "set (seg bs a b) = {bs ! i |i. a \<le> i \<and> i < b \<and> i < length bs}" (is "?L = ?R")
proof
  show "?L \<subseteq> ?R"
    by (fastforce simp: in_set_conv_nth seg_nth)
  show "?R \<subseteq> ?L"
  proof
    fix x assume "x \<in> ?R"
    then obtain i where i: "x = bs ! i" "a \<le> i" "i < b" "i < length bs" by blast
    then have "seg bs a b ! (i - a) = x" by (simp add: seg_nth)
    moreover have "i - a < length (seg bs a b)" using i by (simp add: diff_less_mono)
    ultimately show "x \<in> ?L" by (metis nth_mem)
  qed
qed

subsection \<open>Scanning loops\<close>

text \<open>
  \<^verbatim>\<open>while i < e && test(bytes[i]) { i += 1 }\<close>, with \<open>e\<close> clamped to the slice.
  The crate always writes it with \<open>e\<close> at most the slice's length, where the clamp changes
  nothing.
\<close>

function scan_fwd :: "(byte \<Rightarrow> bool) \<Rightarrow> bytes \<Rightarrow> nat \<Rightarrow> nat \<Rightarrow> nat" where
  "scan_fwd P bs i e =
     (if i < e \<and> i < length bs \<and> P (bs ! i) then scan_fwd P bs (Suc i) e else i)"
  by pat_completeness auto
termination
  by (relation "measure (\<lambda>(P, bs, i, e). length bs - i)") auto

declare scan_fwd.simps [simp del]

text \<open>\<^verbatim>\<open>while i > lo && test(bytes[i - 1]) { i -= 1 }\<close>\<close>

fun scan_bwd :: "(byte \<Rightarrow> bool) \<Rightarrow> bytes \<Rightarrow> nat \<Rightarrow> nat \<Rightarrow> nat" where
  "scan_bwd P bs lo 0 = 0"
| "scan_bwd P bs lo (Suc i) = (if lo < Suc i \<and> i < length bs \<and> P (bs ! i) then scan_bwd P bs lo i else Suc i)"

lemma scan_fwd_stop: "e \<le> i \<Longrightarrow> scan_fwd P bs i e = i"
  by (subst scan_fwd.simps) simp

lemma scan_fwd_ge [scan_simps]: "i \<le> scan_fwd P bs i e"
proof (induction P bs i e rule: scan_fwd.induct)
  case (1 P bs i e)
  then show ?case
    by (auto simp: scan_fwd.simps [of P bs i e] intro: Suc_leD)
qed

lemma scan_fwd_le [scan_simps]: "i \<le> e \<Longrightarrow> scan_fwd P bs i e \<le> e"
proof (induction P bs i e rule: scan_fwd.induct)
  case (1 P bs i e)
  then show ?case
    by (auto simp: scan_fwd.simps [of P bs i e])
qed

lemma scan_fwd_le_length [scan_simps]: "i \<le> length bs \<Longrightarrow> scan_fwd P bs i e \<le> length bs"
proof (induction P bs i e rule: scan_fwd.induct)
  case (1 P bs i e)
  then show ?case
    by (auto simp: scan_fwd.simps [of P bs i e])
qed

lemma scan_fwd_all: "i \<le> k \<Longrightarrow> k < scan_fwd P bs i e \<Longrightarrow> P (bs ! k)"
proof (induction P bs i e rule: scan_fwd.induct)
  case (1 P bs i e)
  show ?case
  proof (cases "i < e \<and> i < length bs \<and> P (bs ! i)")
    case True
    then show ?thesis
      using "1" by (cases "i = k") (auto simp: scan_fwd.simps [of P bs i e])
  next
    case False
    then show ?thesis
      using "1.prems" by (auto simp: scan_fwd.simps [of P bs i e] split: if_splits)
  qed
qed

lemma scan_fwd_end:
  "scan_fwd P bs i e < e \<Longrightarrow> scan_fwd P bs i e < length bs \<Longrightarrow> \<not> P (bs ! scan_fwd P bs i e)"
proof (induction P bs i e rule: scan_fwd.induct)
  case (1 P bs i e)
  then show ?case
    by (cases "i < e \<and> i < length bs \<and> P (bs ! i)") (auto simp: scan_fwd.simps [of P bs i e])
qed

text \<open>The stop position is the only one with these properties.\<close>

lemma scan_fwd_unique:
  assumes "i \<le> k" "k \<le> e" "k \<le> length bs"
    and "\<And>j. i \<le> j \<Longrightarrow> j < k \<Longrightarrow> P (bs ! j)"
    and "k < e \<Longrightarrow> k < length bs \<Longrightarrow> \<not> P (bs ! k)"
  shows "scan_fwd P bs i e = k"
proof (rule antisym)
  show "scan_fwd P bs i e \<le> k"
  proof (rule ccontr)
    assume "\<not> ?thesis"
    then have gt: "k < scan_fwd P bs i e" by simp
    moreover have "scan_fwd P bs i e \<le> e" using assms by (simp add: scan_fwd_le)
    moreover have "scan_fwd P bs i e \<le> length bs" using assms by (simp add: scan_fwd_le_length)
    ultimately have "\<not> P (bs ! k)" using assms(5) by simp
    with scan_fwd_all [OF assms(1) gt] show False by simp
  qed
  show "k \<le> scan_fwd P bs i e"
  proof (rule ccontr)
    assume "\<not> ?thesis"
    then have "scan_fwd P bs i e < k" by simp
    then have "P (bs ! scan_fwd P bs i e)"
      using assms(4) scan_fwd_ge by blast
    with scan_fwd_end [of P bs i e] show False
      using \<open>scan_fwd P bs i e < k\<close> assms(2,3) by simp
  qed
qed

lemma scan_bwd_le [scan_simps]: "scan_bwd P bs lo i \<le> i"
  by (induction i) auto

lemma scan_bwd_ge [scan_simps]: "lo \<le> i \<Longrightarrow> lo \<le> scan_bwd P bs lo i"
  by (induction i) auto

lemma scan_bwd_all: "scan_bwd P bs lo i \<le> k \<Longrightarrow> k < i \<Longrightarrow> P (bs ! k)"
proof (induction i)
  case (Suc i)
  then show ?case
    by (cases "k = i") (auto split: if_splits)
qed simp

lemma scan_bwd_end:
  "lo < scan_bwd P bs lo i \<Longrightarrow> i \<le> length bs \<Longrightarrow> \<not> P (bs ! (scan_bwd P bs lo i - 1))"
  by (induction i) (auto split: if_splits)

subsection \<open>UTF-8\<close>

definition is_cont :: "byte \<Rightarrow> bool" where
  "is_cont b = (128 \<le> bval b \<and> bval b < 192)"

text \<open>The width of the scalar a lead byte opens.\<close>

definition utf8_width :: "byte \<Rightarrow> nat" where
  "utf8_width b = (if bval b < 128 then 1 else if bval b < 224 then 2 else if bval b < 240 then 3 else 4)"

text \<open>\<^verbatim>\<open>str::is_char_boundary\<close>.\<close>

definition is_char_boundary :: "bytes \<Rightarrow> nat \<Rightarrow> bool" where
  "is_char_boundary bs i = (i = 0 \<or> i = length bs \<or> (i < length bs \<and> \<not> is_cont (bs ! i)))"

text \<open>The scalar at the head of a string, as its UTF-8 bytes: \<^verbatim>\<open>s.chars().next()\<close>.\<close>

definition next_char :: "bytes \<Rightarrow> bytes option" where
  "next_char s = (case s of [] \<Rightarrow> None | b # _ \<Rightarrow> Some (take (utf8_width b) s))"

text \<open>\<^verbatim>\<open>str::from_utf8(s).is_ok()\<close>: the byte sequences of the Unicode standard's table 3-7.\<close>

definition second_ok :: "nat \<Rightarrow> byte \<Rightarrow> bool" where
  "second_ok lead b =
     (if lead = 224 then 160 \<le> bval b \<and> bval b < 192
      else if lead = 237 then 128 \<le> bval b \<and> bval b < 160
      else if lead = 240 then 144 \<le> bval b \<and> bval b < 192
      else if lead = 244 then 128 \<le> bval b \<and> bval b < 144
      else is_cont b)"

fun scalar_ok :: "bytes \<Rightarrow> bool" where
  "scalar_ok [a] = (bval a < 128)"
| "scalar_ok [a, b] = (194 \<le> bval a \<and> bval a < 224 \<and> is_cont b)"
| "scalar_ok [a, b, c] = (224 \<le> bval a \<and> bval a < 240 \<and> second_ok (bval a) b \<and> is_cont c)"
| "scalar_ok [a, b, c, d] = (240 \<le> bval a \<and> bval a < 245 \<and> second_ok (bval a) b \<and> is_cont c \<and> is_cont d)"
| "scalar_ok _ = False"

fun utf8_valid :: "bytes \<Rightarrow> bool" where
  "utf8_valid [] = True"
| "utf8_valid (b # bs) =
     (scalar_ok (b # take (utf8_width b - 1) bs) \<and> utf8_valid (drop (utf8_width b - 1) bs))"

text \<open>The scalars of a string, each as its bytes.\<close>

fun chars :: "bytes \<Rightarrow> bytes list" where
  "chars [] = []"
| "chars (b # bs) = (b # take (utf8_width b - 1) bs) # chars (drop (utf8_width b - 1) bs)"

lemma utf8_width_pos [simp]: "0 < utf8_width b" "utf8_width b \<noteq> 0"
  by (auto simp: utf8_width_def)

lemma utf8_width_le: "utf8_width b \<le> 4"
  by (simp add: utf8_width_def)

lemma scalar_ok_length: "scalar_ok (b # bs) \<Longrightarrow> length (b # bs) = utf8_width b"
  by (cases "b # bs" rule: scalar_ok.cases) (auto simp: utf8_width_def)

lemma scalar_ok_cont: "scalar_ok (b # bs) \<Longrightarrow> \<not> is_cont b \<and> (\<forall>c \<in> set bs. is_cont c)"
  by (cases "b # bs" rule: scalar_ok.cases)
     (auto simp: is_cont_def second_ok_def split: if_splits)

lemma concat_chars [simp]: "concat (chars bs) = bs"
  by (induction bs rule: chars.induct) auto

text \<open>A valid string is a scalar followed by a valid string.\<close>

lemma utf8_valid_step:
  assumes "utf8_valid bs" "bs \<noteq> []"
  obtains c rest where "bs = c @ rest" "scalar_ok c" "length c = utf8_width (hd bs)" "utf8_valid rest"
    "hd c = hd bs" "c \<noteq> []"
proof -
  from assms(2) obtain b bs' where b: "bs = b # bs'" by (cases bs) auto
  let ?c = "b # take (utf8_width b - 1) bs'"
  have "scalar_ok ?c" "utf8_valid (drop (utf8_width b - 1) bs')"
    using assms(1) b by auto
  moreover have "bs = ?c @ drop (utf8_width b - 1) bs'" using b by simp
  moreover have "length ?c = utf8_width b" using scalar_ok_length [OF calculation(1)] .
  ultimately show ?thesis
    using that [of ?c "drop (utf8_width b - 1) bs'"] b by simp
qed

lemma utf8_valid_append:
  "scalar_ok c \<Longrightarrow> c \<noteq> [] \<Longrightarrow> utf8_valid (c @ rest) = utf8_valid rest"
proof -
  assume c: "scalar_ok c" "c \<noteq> []"
  then obtain b cs where b: "c = b # cs" by (cases c) auto
  have "length cs = utf8_width b - 1" using scalar_ok_length [of b cs] c b by simp
  then show ?thesis using c b by simp
qed

lemma utf8_valid_induct [consumes 1, case_names Nil Scalar]:
  assumes "utf8_valid bs"
    and nil: "P []"
    and step: "\<And>c rest. scalar_ok c \<Longrightarrow> c \<noteq> [] \<Longrightarrow> utf8_valid rest \<Longrightarrow> P rest \<Longrightarrow> P (c @ rest)"
  shows "P bs"
  using assms(1)
proof (induction "length bs" arbitrary: bs rule: less_induct)
  case less
  show ?case
  proof (cases "bs = []")
    case True
    then show ?thesis using nil by simp
  next
    case False
    with less.prems obtain c rest where c: "bs = c @ rest" "scalar_ok c" "utf8_valid rest" "c \<noteq> []"
      by (rule utf8_valid_step)
    then have "P rest" using less.hyps [of rest] by simp
    then show ?thesis using step c by simp
  qed
qed

lemma utf8_valid_app: "utf8_valid a \<Longrightarrow> utf8_valid (a @ b) = utf8_valid b"
  by (induction rule: utf8_valid_induct) (simp_all add: utf8_valid_append)

lemma chars_append: "scalar_ok c \<Longrightarrow> c \<noteq> [] \<Longrightarrow> chars (c @ rest) = c # chars rest"
proof -
  assume c: "scalar_ok c" "c \<noteq> []"
  then obtain b cs where b: "c = b # cs" by (cases c) auto
  have "length cs = utf8_width b - 1" using scalar_ok_length [of b cs] c b by simp
  then show ?thesis using c b by simp
qed

lemma chars_app: "utf8_valid a \<Longrightarrow> chars (a @ b) = chars a @ chars b"
  by (induction rule: utf8_valid_induct) (simp_all add: chars_append)

text \<open>Splitting a valid string at a boundary gives two valid strings.\<close>

lemma boundary_split:
  assumes "utf8_valid bs" "is_char_boundary bs i"
  shows "utf8_valid (take i bs) \<and> utf8_valid (drop i bs)"
  using assms
proof (induction arbitrary: i rule: utf8_valid_induct)
  case Nil
  then show ?case by simp
next
  case (Scalar c rest)
  show ?case
  proof (cases "i < length c")
    case True
    have "i = 0"
    proof (rule ccontr)
      assume "i \<noteq> 0"
      then obtain b cs where b: "c = b # cs" using True by (cases c) auto
      then have "is_cont (c ! i)"
        using scalar_ok_cont [of b cs] Scalar.hyps True \<open>i \<noteq> 0\<close> by (auto simp: nth_Cons')
      moreover have "\<not> is_cont ((c @ rest) ! i)"
        using Scalar.prems \<open>i \<noteq> 0\<close> True by (auto simp: is_char_boundary_def)
      ultimately show False using True by (simp add: nth_append)
    qed
    then show ?thesis using Scalar.hyps by (simp add: utf8_valid_append)
  next
    case False
    have "is_char_boundary rest (i - length c)"
      using Scalar.prems False by (auto simp: is_char_boundary_def nth_append)
    then have "utf8_valid (take (i - length c) rest) \<and> utf8_valid (drop (i - length c) rest)"
      by (rule Scalar.IH)
    then show ?thesis
      using False Scalar.hyps by (simp add: utf8_valid_append)
  qed
qed

text \<open>The byte after an ASCII byte opens a scalar, and a slice between boundaries is valid.\<close>

lemma utf8_valid_hd: "utf8_valid bs \<Longrightarrow> bs \<noteq> [] \<Longrightarrow> \<not> is_cont (hd bs)"
  by (cases bs) (auto dest: scalar_ok_cont)

lemma ascii_boundary:
  assumes "utf8_valid bs" "i < length bs" "bval (bs ! i) < 128"
  shows "is_char_boundary bs i \<and> is_char_boundary bs (Suc i)"
  using assms
proof (induction arbitrary: i rule: utf8_valid_induct)
  case (Scalar c rest)
  show ?case
  proof (cases "i < length c")
    case True
    then obtain b cs where b: "c = b # cs" by (cases c) auto
    have i0: "i = 0"
    proof (rule ccontr)
      assume "i \<noteq> 0"
      then have "is_cont (c ! i)" using scalar_ok_cont [of b cs] Scalar.hyps True b by (auto simp: nth_Cons')
      then show False using Scalar.prems True by (simp add: nth_append is_cont_def)
    qed
    have "length c = 1"
      using scalar_ok_length [of b cs] Scalar.hyps Scalar.prems True b i0 by (simp add: utf8_width_def nth_append)
    then have "cs = []" using b by simp
    show ?thesis
      using i0 b \<open>cs = []\<close> Scalar.prems utf8_valid_hd [OF Scalar.hyps(3)] by (cases rest) (auto simp: is_char_boundary_def)
  next
    case False
    then have "is_char_boundary rest (i - length c) \<and> is_char_boundary rest (Suc (i - length c))"
      using Scalar.prems by (intro Scalar.IH) (auto simp: nth_append)
    then show ?thesis
      using False Scalar.prems(1) utf8_valid_hd [OF Scalar.hyps(3)] by (cases rest) (auto simp: is_char_boundary_def nth_append Suc_diff_le)
  qed
qed simp

lemma utf8_valid_seg:
  assumes "utf8_valid bs" "is_char_boundary bs i" "is_char_boundary bs j" "i \<le> j"
  shows "utf8_valid (seg bs i j)"
proof -
  have d: "utf8_valid (drop i bs)" using assms boundary_split by blast
  have "i = 0 \<or> i \<le> length bs" "j \<le> length bs" using assms(2,3) by (auto simp: is_char_boundary_def)
  then have "is_char_boundary (drop i bs) (j - i)"
    using assms(3,4) by (auto simp: is_char_boundary_def)
  then show ?thesis using boundary_split [OF d] by (simp add: seg_def)
qed

text \<open>
  Snapping an offset to a scalar boundary: \<^verbatim>\<open>while a > 0 && !s.is_char_boundary(a) { a -= 1 }\<close>
  and \<^verbatim>\<open>while b < s.len() && !s.is_char_boundary(b) { b += 1 }\<close>.
\<close>

fun floor_boundary :: "bytes \<Rightarrow> nat \<Rightarrow> nat" where
  "floor_boundary s 0 = 0"
| "floor_boundary s (Suc a) = (if is_char_boundary s (Suc a) then Suc a else floor_boundary s a)"

function ceil_boundary :: "bytes \<Rightarrow> nat \<Rightarrow> nat" where
  "ceil_boundary s b = (if b < length s \<and> \<not> is_char_boundary s b then ceil_boundary s (Suc b) else b)"
  by pat_completeness auto
termination
  by (relation "measure (\<lambda>(s, b). length s - b)") auto

declare ceil_boundary.simps [simp del]

lemma floor_boundary_le [simp]: "floor_boundary s a \<le> a"
  by (induction a) (auto intro: le_SucI)

lemma floor_boundary_boundary [simp]: "is_char_boundary s (floor_boundary s a)"
  by (induction a) (auto simp: is_char_boundary_def)

lemma floor_boundary_id [simp]: "is_char_boundary s a \<Longrightarrow> floor_boundary s a = a"
  by (cases a) auto

lemma ceil_boundary_ge [simp]: "b \<le> ceil_boundary s b"
proof (induction s b rule: ceil_boundary.induct)
  case (1 s b)
  then show ?case by (auto simp: ceil_boundary.simps [of s b] intro: Suc_leD)
qed

lemma ceil_boundary_boundary [simp]: "b \<le> length s \<Longrightarrow> is_char_boundary s (ceil_boundary s b) \<and> ceil_boundary s b \<le> length s"
proof (induction s b rule: ceil_boundary.induct)
  case (1 s b)
  then show ?case
    by (cases "b < length s \<and> \<not> is_char_boundary s b")
       (auto simp: ceil_boundary.simps [of s b] is_char_boundary_def)
qed

lemma boundary_app_head:
  assumes "scalar_ok c" "i < length c"
  shows "is_char_boundary (c @ rest) i \<longleftrightarrow> i = 0"
proof -
  obtain b cs where b: "c = b # cs" using assms(2) by (cases c) auto
  then show ?thesis
    using assms scalar_ok_cont [of b cs]
    by (cases i) (auto simp: is_char_boundary_def nth_append)
qed

lemma boundary_app_tail:
  assumes "length c \<le> i" "rest = [] \<or> \<not> is_cont (hd rest)"
  shows "is_char_boundary (c @ rest) i \<longleftrightarrow> is_char_boundary rest (i - length c) \<or> i = 0"
  using assms by (cases rest) (auto simp: is_char_boundary_def nth_append nth_Cons' split: if_splits)

lemma utf8_valid_head: "utf8_valid bs \<Longrightarrow> bs = [] \<or> \<not> is_cont (hd bs)"
  by (cases bs) (auto dest: scalar_ok_cont)

lemma floor_boundary_head: "scalar_ok c \<Longrightarrow> i < length c \<Longrightarrow> floor_boundary (c @ rest) i = 0"
  by (induction i) (auto simp: boundary_app_head)

lemma floor_boundary_tail:
  assumes "scalar_ok c" "c \<noteq> []" "utf8_valid rest" "length c \<le> i"
  shows "floor_boundary (c @ rest) i = length c + floor_boundary rest (i - length c)"
  using assms(4)
proof (induction i)
  case 0
  then show ?case using assms(2) by simp
next
  case (Suc i)
  note tl = boundary_app_tail [OF Suc.prems utf8_valid_head [OF assms(3)]]
  show ?case
  proof (cases "length c = Suc i")
    case True
    then show ?thesis using tl by (simp add: is_char_boundary_def)
  next
    case False
    then have "Suc i - length c = Suc (i - length c)" using Suc.prems by simp
    then show ?thesis using Suc False tl by simp
  qed
qed

subsection \<open>Sorted slices\<close>

text \<open>
  \<^verbatim>\<open>xs.partition_point(test)\<close> on a partitioned slice, and \<^verbatim>\<open>xs.binary_search(&x)\<close> on a
  strictly sorted one: \<open>Inl i\<close> is \<^verbatim>\<open>Ok(i)\<close>, \<open>Inr i\<close> is \<^verbatim>\<open>Err(i)\<close> with the insertion point.
\<close>

definition partition_point :: "('a \<Rightarrow> bool) \<Rightarrow> 'a list \<Rightarrow> nat" where
  "partition_point P xs = length (takeWhile P xs)"

definition binary_search :: "nat list \<Rightarrow> nat \<Rightarrow> nat + nat" where
  "binary_search xs x =
     (let p = partition_point (\<lambda>y. y < x) xs
      in if p < length xs \<and> xs ! p = x then Inl p else Inr p)"

lemma partition_point_le [simp]: "partition_point P xs \<le> length xs"
  by (simp add: partition_point_def length_takeWhile_le)

lemma partition_point_before: "k < partition_point P xs \<Longrightarrow> P (xs ! k)"
  by (metis nth_mem partition_point_def set_takeWhileD takeWhile_nth)

lemma partition_point_at: "partition_point P xs < length xs \<Longrightarrow> \<not> P (xs ! partition_point P xs)"
  unfolding partition_point_def by (rule nth_length_takeWhile)

lemma partition_point_sorted:
  assumes "sorted xs" and mono: "\<And>x y. x \<le> y \<Longrightarrow> P y \<Longrightarrow> P x" and "k < length xs"
  shows "k < partition_point P xs \<longleftrightarrow> P (xs ! k)"
proof
  assume "P (xs ! k)"
  show "k < partition_point P xs"
  proof (rule ccontr)
    assume "\<not> ?thesis"
    then have le: "partition_point P xs \<le> k" by simp
    then have "xs ! partition_point P xs \<le> xs ! k"
      using assms(1,3) by (simp add: sorted_nth_mono)
    with mono \<open>P (xs ! k)\<close> have "P (xs ! partition_point P xs)" by blast
    moreover have "partition_point P xs < length xs" using le assms(3) by simp
    ultimately show False using partition_point_at by blast
  qed
qed (rule partition_point_before)

subsection \<open>Index arithmetic\<close>

text \<open>A loop that moves an index below \<open>n\<close> up by a positive step comes closer to \<open>n\<close>.\<close>

lemma index_step [bound_intros]:
  fixes n i r w :: nat
  assumes "\<not> n \<le> i + r" "0 < w"
  shows "n - (i + r + w) < n - i"
  using assms by arith

subsection \<open>Words\<close>

lemma unat_to_u32 [simp]: "n < 4294967296 \<Longrightarrow> to_usize (to_u32 n) = n"
  by (simp add: unat_of_nat take_bit_nat_eq_self)

lemma to_u32_unat [simp]: "to_u32 (to_usize w) = w"
  by simp

lemma unat_u32_less: "to_usize w < 4294967296"
  using unsigned_less [of w] by simp

end
