(* ===== verification/Flark_Lines.thy ===== *)
theory Flark_Lines
  imports Flark_Prelude
begin

text \<open>
  \<^verbatim>\<open>native/flark_parse/src/lines.rs\<close>: the line table and the byte to UTF-16 prefix table of
  one source text. \<open>line_index_new\<close> is the one-pass construction with its ASCII fast path;
  the lemmas relate it to two reference readings of the source, the lines as they are
  written (\<open>line_spans\<close>) and the UTF-16 length of each prefix (\<open>utf16_table\<close>).
\<close>

record line_index =
  line_starts :: "nat list"
  line_ends :: "nat list"
  utf16 :: "u32 list"

text \<open>A run of ASCII other than line endings is one unit per byte.\<close>

definition breaks_run :: "byte \<Rightarrow> bool" where
  "breaks_run b = (128 \<le> bval b \<or> b = LF \<or> b = CR)"

definition line_index_done :: "bytes \<Rightarrow> u32 \<Rightarrow> nat list \<Rightarrow> nat list \<Rightarrow> u32 list \<Rightarrow> line_index" where
  "line_index_done bs count starts ends u =
     \<lparr>line_starts = starts, line_ends = ends @ [length bs], utf16 = u @ [count]\<rparr>"

function line_index_loop ::
    "bytes \<Rightarrow> nat \<Rightarrow> u32 \<Rightarrow> nat list \<Rightarrow> nat list \<Rightarrow> u32 list \<Rightarrow> line_index" where
  "line_index_loop bs i count starts ends u =
     (if length bs \<le> i then line_index_done bs count starts ends u
      else
        let run = scan_fwd (\<lambda>b. \<not> breaks_run b) bs i (length bs) - i;
            u1 = u @ map (\<lambda>k. count + word_of_nat k) [0..<run];
            count1 = count + word_of_nat run;
            i1 = i + run
        in if length bs \<le> i1 then line_index_done bs count1 starts ends u1
           else
             let b = bs ! i1;
                 width = utf8_width b;
                 units = (if width = 4 then 2 else 1);
                 u2 = u1 @ replicate width count1;
                 count2 = count1 + units
             in if b = LF then line_index_loop bs (i1 + width) count2 (starts @ [i1 + 1]) (ends @ [i1]) u2
                else if b = CR then
                  (if byte_at bs (i1 + 1) = Some LF
                   then line_index_loop bs (i1 + 1 + width) (count2 + 1) (starts @ [i1 + 2]) (ends @ [i1]) (u2 @ [count2])
                   else line_index_loop bs (i1 + width) count2 (starts @ [i1 + 1]) (ends @ [i1]) u2)
                else line_index_loop bs (i1 + width) count2 starts ends u2)"
  by pat_completeness auto
termination
  by (relation "measure (\<lambda>(bs, i, _). length bs - i)") (auto intro: bound_intros)

declare line_index_loop.simps [simp del]

definition line_index_new :: "bytes \<Rightarrow> line_index" where
  "line_index_new src = line_index_loop src 0 0 [0] [] []"

definition line_count :: "line_index \<Rightarrow> nat" where
  "line_count li = length (line_starts li)"

definition line_start :: "line_index \<Rightarrow> nat \<Rightarrow> nat" where
  "line_start li line0 = line_starts li ! min line0 (length (line_starts li) - 1)"

definition line_end :: "line_index \<Rightarrow> nat \<Rightarrow> nat" where
  "line_end li line0 = line_ends li ! min line0 (length (line_ends li) - 1)"

definition line_end_with_break :: "line_index \<Rightarrow> nat \<Rightarrow> nat \<Rightarrow> nat" where
  "line_end_with_break li line0 src_len =
     (if line0 + 1 < length (line_starts li) then line_starts li ! (line0 + 1) else src_len)"

definition line_of :: "line_index \<Rightarrow> nat \<Rightarrow> nat" where
  "line_of li byte = (case binary_search (line_starts li) byte of Inl i \<Rightarrow> i | Inr i \<Rightarrow> i - 1)"

definition u16 :: "line_index \<Rightarrow> nat \<Rightarrow> u32" where
  "u16 li byte = utf16 li ! min byte (length (utf16 li) - 1)"

subsection \<open>The reference readings\<close>

text \<open>
  Lines as written: for each line the offset where it starts and the offset where its
  content ends, the terminator being a line feed, a carriage return, or both.
\<close>

fun line_spans :: "nat \<Rightarrow> nat \<Rightarrow> bytes \<Rightarrow> (nat \<times> nat) list" where
  "line_spans s i [] = [(s, i)]"
| "line_spans s i (b # bs) =
     (if b = LF then (s, i) # line_spans (i + 1) (i + 1) bs
      else if b = CR then
        (if bs \<noteq> [] \<and> hd bs = LF then (s, i) # line_spans (i + 2) (i + 2) (tl bs)
         else (s, i) # line_spans (i + 1) (i + 1) bs)
      else line_spans s (i + 1) bs)"

text \<open>The scalar value a well-formed sequence encodes, and its length in UTF-16.\<close>

fun scalar_value :: "bytes \<Rightarrow> nat" where
  "scalar_value [a] = bval a"
| "scalar_value [a, b] = (bval a - 192) * 64 + (bval b - 128)"
| "scalar_value [a, b, c] = (bval a - 224) * 4096 + (bval b - 128) * 64 + (bval c - 128)"
| "scalar_value [a, b, c, d] =
     (bval a - 240) * 262144 + (bval b - 128) * 4096 + (bval c - 128) * 64 + (bval d - 128)"
| "scalar_value _ = 0"

definition len_utf16 :: "bytes \<Rightarrow> nat" where
  "len_utf16 c = (if scalar_value c < 65536 then 1 else 2)"

definition utf16_len :: "bytes \<Rightarrow> nat" where
  "utf16_len bs = sum_list (map len_utf16 (chars bs))"

fun utf16_table :: "nat \<Rightarrow> bytes list \<Rightarrow> nat list" where
  "utf16_table n [] = [n]"
| "utf16_table n (c # cs) = replicate (length c) n @ utf16_table (n + len_utf16 c) cs"

text \<open>A scalar takes two units exactly when it takes four bytes.\<close>

lemma len_utf16_width: "scalar_ok (b # bs) \<Longrightarrow> len_utf16 (b # bs) = (if utf8_width b = 4 then 2 else 1)"
proof (cases "b # bs" rule: scalar_ok.cases)
  case (3 a x c)
  assume "scalar_ok (b # bs)"
  moreover have "bval x < 256" "bval c < 256" by simp_all
  ultimately show ?thesis
    using 3 by (auto simp: len_utf16_def utf8_width_def is_cont_def second_ok_def split: if_splits)
next
  case (4 a x c d)
  assume "scalar_ok (b # bs)"
  then have *: "240 \<le> bval a" "bval a < 245" "second_ok (bval a) x" "is_cont c" "is_cont d"
    using 4 by simp_all
  have "65536 \<le> scalar_value [a, x, c, d]"
  proof (cases "bval a = 240")
    case True
    with * show ?thesis by (auto simp: second_ok_def is_cont_def)
  next
    case False
    with * have "1 \<le> bval a - 240" by simp
    then show ?thesis by simp
  qed
  then show ?thesis using * 4 by (auto simp: len_utf16_def utf8_width_def)
qed (auto simp: len_utf16_def utf8_width_def is_cont_def)

subsection \<open>The construction computes the reference readings\<close>

lemma line_spans_plain:
  "\<forall>x \<in> set xs. x \<noteq> LF \<and> x \<noteq> CR \<Longrightarrow> line_spans s i (xs @ ys) = line_spans s (i + length xs) ys"
  by (induction xs arbitrary: i) auto

lemma chars_ascii: "\<forall>x \<in> set xs. bval x < 128 \<Longrightarrow> chars (xs @ ys) = map (\<lambda>b. [b]) xs @ chars ys"
  by (induction xs) (auto simp: utf8_width_def)

lemma utf8_valid_ascii: "\<forall>x \<in> set xs. bval x < 128 \<Longrightarrow> utf8_valid (xs @ ys) = utf8_valid ys"
  by (induction xs) (auto simp: utf8_width_def)

lemma utf16_table_ascii:
  "\<forall>x \<in> set xs. bval x < 128 \<Longrightarrow>
   utf16_table n (map (\<lambda>b. [b]) xs @ cs) = [n..<n + length xs] @ utf16_table (n + length xs) cs"
proof (induction xs arbitrary: n)
  case (Cons x xs)
  then have "utf16_table (Suc n) (map (\<lambda>b. [b]) xs @ cs) = [Suc n..<Suc n + length xs] @ utf16_table (Suc n + length xs) cs"
    by simp
  then show ?case using Cons.prems by (simp add: len_utf16_def upt_conv_Cons del: upt_Suc)
qed simp

lemma run_split:
  fixes bs i
  defines "j \<equiv> scan_fwd (\<lambda>b. \<not> breaks_run b) bs i (length bs)"
  assumes "i \<le> length bs"
  shows "drop i bs = seg bs i j @ drop j bs"
    and "\<forall>x \<in> set (seg bs i j). bval x < 128 \<and> x \<noteq> LF \<and> x \<noteq> CR"
    and "length (seg bs i j) = j - i" and "i \<le> j" and "j \<le> length bs"
proof -
  show ij: "i \<le> j" and jl: "j \<le> length bs"
    using assms by (auto simp: scan_simps)
  then show "drop i bs = seg bs i j @ drop j bs"
    using seg_append [of i j "length bs" bs] by (simp add: seg_def)
  show "length (seg bs i j) = j - i" using jl ij by (simp add: diff_le_mono)
  show "\<forall>x \<in> set (seg bs i j). bval x < 128 \<and> x \<noteq> LF \<and> x \<noteq> CR"
  proof
    fix x assume "x \<in> set (seg bs i j)"
    then obtain k where "x = bs ! k" "i \<le> k" "k < j" by (auto simp: set_seg)
    then have "\<not> breaks_run x"
      unfolding j_def using scan_fwd_all [of i k "\<lambda>b. \<not> breaks_run b" bs "length bs"] by simp
    then show "bval x < 128 \<and> x \<noteq> LF \<and> x \<noteq> CR" by (auto simp: breaks_run_def)
  qed
qed

text \<open>What the table builder has still to append when it stands at offset \<open>i\<close>.\<close>

definition line_index_rest :: "bytes \<Rightarrow> nat \<Rightarrow> nat \<Rightarrow> nat \<Rightarrow> nat list \<Rightarrow> nat list \<Rightarrow> u32 list \<Rightarrow> line_index" where
  "line_index_rest bs s i n starts ends u =
     \<lparr>line_starts = starts @ map fst (tl (line_spans s i (drop i bs))),
      line_ends = ends @ map snd (line_spans s i (drop i bs)),
      utf16 = u @ map word_of_nat (utf16_table n (chars (drop i bs)))\<rparr>"

lemma line_spans_nonempty [simp]: "line_spans s i bs \<noteq> []"
  by (induction s i bs rule: line_spans.induct) auto

text \<open>Only the first span knows where it started.\<close>

lemma line_spans_shape: "\<exists>e t. \<forall>s. line_spans s i bs = (s, e) # t"
proof (induction bs arbitrary: i)
  case (Cons b bs)
  from Cons [of "i + 1"] obtain e t where "\<forall>s. line_spans s (i + 1) bs = (s, e) # t" by blast
  then show ?case
    by (cases "b = LF"; cases "b = CR"; cases "bs \<noteq> [] \<and> hd bs = LF") auto
qed simp

lemma line_spans_hd: "fst (hd (line_spans s i bs)) = s"
  using line_spans_shape [of i bs] by fastforce

lemma line_spans_tl_start: "tl (line_spans s i bs) = tl (line_spans s' i bs)"
  using line_spans_shape [of i bs] by fastforce

lemma line_spans_snd_start: "map snd (line_spans s i bs) = map snd (line_spans s' i bs)"
  using line_spans_shape [of i bs] by fastforce

lemma line_spans_fst: "map fst (line_spans s i bs) = s # map fst (tl (line_spans s i bs))"
  using line_spans_hd [of s i bs] by (cases "line_spans s i bs") auto

lemma line_index_rest_run:
  assumes "i \<le> length bs" and j: "j = scan_fwd (\<lambda>b. \<not> breaks_run b) bs i (length bs)"
  shows "line_index_rest bs s i n starts ends u =
         line_index_rest bs s j (n + (j - i)) starts ends (u @ map (\<lambda>k. word_of_nat n + word_of_nat k) [0..<j - i])"
proof -
  note r = run_split [OF assms(1), folded j]
  let ?xs = "seg bs i j"
  have "[n..<n + (j - i)] = map (\<lambda>k. k + n) [0..<j - i]" by (simp add: map_add_upt add.commute)
  then have m: "map word_of_nat [n..<n + (j - i)] = map (\<lambda>k. word_of_nat n + word_of_nat k :: u32) [0..<j - i]"
    by (simp add: add.commute)
  have "line_spans s i (?xs @ drop j bs) = line_spans s j (drop j bs)"
    using line_spans_plain [of ?xs s i "drop j bs"] r(2,3,4) by auto
  moreover have "utf16_table n (chars (?xs @ drop j bs)) = [n..<n + (j - i)] @ utf16_table (n + (j - i)) (chars (drop j bs))"
    using utf16_table_ascii [of ?xs n] chars_ascii [of ?xs] r(2,3) by simp
  ultimately show ?thesis
    unfolding line_index_rest_def r(1) using m by (simp add: r(1) [symmetric])
qed

lemma line_index_done_rest:
  "line_index_done bs (word_of_nat n) starts ends u = line_index_rest bs s (length bs) n starts ends u"
  by (simp add: line_index_done_def line_index_rest_def)

text \<open>One scalar that is no line ending, and a line ending.\<close>

lemma line_index_rest_scalar:
  assumes "utf8_valid (drop i bs)" "i < length bs" "128 \<le> bval (bs ! i)"
  shows "line_index_rest bs s i n starts ends u =
         line_index_rest bs s (i + utf8_width (bs ! i)) (n + (if utf8_width (bs ! i) = 4 then 2 else 1)) starts ends
           (u @ replicate (utf8_width (bs ! i)) (word_of_nat n))"
    and "i + utf8_width (bs ! i) \<le> length bs" and "utf8_valid (drop (i + utf8_width (bs ! i)) bs)"
proof -
  have ne: "drop i bs \<noteq> []" and hd: "hd (drop i bs) = bs ! i" using assms(2) by (auto simp: hd_drop_conv_nth)
  from utf8_valid_step [OF assms(1) ne] obtain c rest where
    c: "drop i bs = c @ rest" "scalar_ok c" "length c = utf8_width (bs ! i)" "utf8_valid rest" "hd c = bs ! i" "c \<noteq> []"
    using hd by metis
  have rest: "rest = drop (i + utf8_width (bs ! i)) bs"
    using c(1,3) by (metis add.commute append_eq_conv_conj drop_drop)
  have "length (drop i bs) = utf8_width (bs ! i) + length rest" using c by simp
  then show "i + utf8_width (bs ! i) \<le> length bs" using assms(2) by simp
  show "utf8_valid (drop (i + utf8_width (bs ! i)) bs)" using c(4) rest by simp
  obtain b cs where b: "c = b # cs" "b = bs ! i" using c(5,6) by (cases c) auto
  have "\<forall>x \<in> set c. x \<noteq> LF \<and> x \<noteq> CR"
    using scalar_ok_cont [of b cs] c(2) b assms(3) by (auto simp: is_cont_def)
  then have "line_spans s i (c @ rest) = line_spans s (i + utf8_width (bs ! i)) rest"
    using line_spans_plain c(3) by metis
  moreover have "utf16_table n (chars (c @ rest)) =
      replicate (utf8_width (bs ! i)) n @ utf16_table (n + (if utf8_width (bs ! i) = 4 then 2 else 1)) (chars rest)"
    using chars_append [OF c(2,6)] c(3) len_utf16_width [of b cs] c(2) b by simp
  ultimately show "line_index_rest bs s i n starts ends u =
         line_index_rest bs s (i + utf8_width (bs ! i)) (n + (if utf8_width (bs ! i) = 4 then 2 else 1)) starts ends
           (u @ replicate (utf8_width (bs ! i)) (word_of_nat n))"
    unfolding line_index_rest_def c(1) by (simp add: rest [symmetric] c(1) [symmetric])
qed

lemma ascii_head:
  assumes "i < length bs" "bval (bs ! i) < 128"
  shows "chars (drop i bs) = [bs ! i] # chars (drop (Suc i) bs)"
    and "utf8_valid (drop i bs) = utf8_valid (drop (Suc i) bs)"
    and "drop i bs = bs ! i # drop (Suc i) bs"
proof -
  show *: "drop i bs = bs ! i # drop (Suc i) bs" using assms(1) by (simp add: Cons_nth_drop_Suc)
  show "chars (drop i bs) = [bs ! i] # chars (drop (Suc i) bs)"
    "utf8_valid (drop i bs) = utf8_valid (drop (Suc i) bs)"
    using assms(2) by (simp_all add: * utf8_width_def)
qed

lemma line_index_rest_break:
  assumes "i < length bs" "bs ! i = LF \<or> (bs ! i = CR \<and> byte_at bs (i + 1) \<noteq> Some LF)"
  shows "line_index_rest bs s i n starts ends u =
         line_index_rest bs (i + 1) (i + 1) (n + 1) (starts @ [i + 1]) (ends @ [i]) (u @ [word_of_nat n])"
proof -
  have "bval (bs ! i) < 128" using assms(2) by auto
  note h = ascii_head [OF assms(1) this]
  have "\<not> (drop (Suc i) bs \<noteq> [] \<and> hd (drop (Suc i) bs) = LF) \<or> bs ! i = LF"
    using assms by (cases "Suc i < length bs") (auto simp: hd_drop_conv_nth)
  then have "line_spans s i (drop i bs) = (s, i) # line_spans (i + 1) (i + 1) (drop (Suc i) bs)"
    using assms(2) unfolding h(3) by auto
  moreover have "len_utf16 [bs ! i] = 1" using assms(2) by (auto simp: len_utf16_def)
  ultimately show ?thesis
    unfolding line_index_rest_def h(1)
    using line_spans_fst [of "i + 1" "i + 1" "drop (Suc i) bs"] by simp
qed

lemma line_index_rest_crlf:
  assumes "i < length bs" "bs ! i = CR" "byte_at bs (i + 1) = Some LF"
  shows "line_index_rest bs s i n starts ends u =
         line_index_rest bs (i + 2) (i + 2) (n + 2) (starts @ [i + 2]) (ends @ [i]) (u @ [word_of_nat n, word_of_nat (n + 1)])"
proof -
  have b: "Suc i < length bs" "bs ! Suc i = LF" using assms(3) by auto
  note h = ascii_head [OF assms(1)] and g = ascii_head [OF b(1)]
  have "line_spans s i (drop i bs) = (s, i) # line_spans (i + 2) (i + 2) (drop (i + 2) bs)"
    using assms(2) b h(3) g(3) by simp
  moreover have "len_utf16 [CR] = 1" "len_utf16 [LF] = 1" by (simp_all add: len_utf16_def)
  ultimately show ?thesis
    unfolding line_index_rest_def
    using h(1) g(1) assms(2) b line_spans_fst [of "i + 2" "i + 2" "drop (i + 2) bs"] by simp
qed

text \<open>
  The whole construction: from any offset the loop appends exactly what the reference
  readings of the rest of the source say.
\<close>

lemma line_index_loop_rest:
  assumes "utf8_valid (drop i bs)" "i \<le> length bs"
  shows "line_index_loop bs i (word_of_nat n) starts ends u = line_index_rest bs s i n starts ends u"
  using assms
proof (induction "length bs - i" arbitrary: i n starts ends u s rule: less_induct)
  case less
  define j where "j = scan_fwd (\<lambda>b. \<not> breaks_run b) bs i (length bs)"
  note r = run_split [OF less.prems(2), folded j_def]
  define m where "m = j - i"
  then have jm: "i + m = j" "j - i = m" using r(4) by simp_all
  let ?n = "n + m" and ?u = "u @ map (\<lambda>k. word_of_nat n + word_of_nat k) [0..<m]"
  have run: "line_index_rest bs s i n starts ends u = line_index_rest bs s j ?n starts ends ?u"
    using line_index_rest_run [OF less.prems(2) j_def] by (simp only: jm)
  have vj: "utf8_valid (drop j bs)"
    using less.prems(1) utf8_valid_ascii [of "seg bs i j" "drop j bs"] r(1,2) by simp
  show ?case
  proof (cases "i < length bs \<and> j < length bs")
    case False
    show ?thesis
    proof (cases "i = length bs")
      case True
      then show ?thesis
        by (simp add: line_index_loop.simps [of bs "length bs"] line_index_done_rest [of bs n starts ends u s])
    next
      case neq: False
      with False less.prems(2) r(5) have j: "i < length bs" "j = length bs" by auto
      have "line_index_loop bs i (word_of_nat n) starts ends u = line_index_done bs (word_of_nat ?n) starts ends ?u"
        using j(1) eq_imp_le [OF j(2) [symmetric]]
        by (simp add: line_index_loop.simps [of bs i] Let_def j_def [symmetric] jm)
      then show ?thesis
        using run j(2) line_index_done_rest [of bs ?n starts ends ?u s] by simp
    qed
  next
    case True
    then have il: "i < length bs" and jl: "j < length bs" by auto
    have br: "breaks_run (bs ! j)"
      using scan_fwd_end [of "\<lambda>b. \<not> breaks_run b" bs i "length bs"] jl by (simp add: j_def)
    have IH: "line_index_loop bs k (word_of_nat m) st en us = line_index_rest bs t k m st en us"
      if "j < k" "utf8_valid (drop k bs)" "k \<le> length bs" for k m st en us t
      using that il r(4) by (intro less.hyps) auto
    note unf = line_index_loop.simps [of bs i] j_def [symmetric] Let_def jm algebra_simps
    consider (brk) "bs ! j = LF \<or> (bs ! j = CR \<and> byte_at bs (j + 1) \<noteq> Some LF)"
      | (crlf) "bs ! j = CR" "byte_at bs (j + 1) = Some LF"
      | (wide) "bs ! j \<noteq> LF" "bs ! j \<noteq> CR" "128 \<le> bval (bs ! j)"
      using br by (auto simp: breaks_run_def)
    then show ?thesis
    proof cases
      case brk
      have w: "utf8_width (bs ! j) = 1" using brk by (auto simp: utf8_width_def)
      have v: "utf8_valid (drop (j + 1) bs)" using ascii_head(2) [OF jl] vj brk by auto
      have "line_index_loop bs i (word_of_nat n) starts ends u =
          line_index_loop bs (j + 1) (word_of_nat (?n + 1)) (starts @ [j + 1]) (ends @ [j]) (?u @ [word_of_nat ?n])"
        using brk il jl r(4) w by (auto simp: unf)
      then show ?thesis
        using IH [of "j + 1"] v jl run line_index_rest_break [OF jl brk] by simp
    next
      case crlf
      have w: "utf8_width (bs ! j) = 1" using crlf by (auto simp: utf8_width_def)
      have j2: "Suc j < length bs" "bs ! Suc j = LF" using crlf(2) by auto
      have v: "utf8_valid (drop (j + 2) bs)"
        using ascii_head(2) [OF jl] ascii_head(2) [OF j2(1)] vj crlf(1) j2 by auto
      have "line_index_loop bs i (word_of_nat n) starts ends u =
          line_index_loop bs (j + 2) (word_of_nat (?n + 2)) (starts @ [j + 2]) (ends @ [j]) (?u @ [word_of_nat ?n, word_of_nat (?n + 1)])"
        using crlf il jl r(4) w j2 by (auto simp: unf)
      then show ?thesis
        using IH [of "j + 2"] v j2 run line_index_rest_crlf [OF jl crlf] by simp
    next
      case wide
      note sc = line_index_rest_scalar [OF vj jl wide(3)]
      have "line_index_loop bs i (word_of_nat n) starts ends u =
          line_index_loop bs (j + utf8_width (bs ! j)) (word_of_nat (?n + (if utf8_width (bs ! j) = 4 then 2 else 1)))
            starts ends (?u @ replicate (utf8_width (bs ! j)) (word_of_nat ?n))"
        using wide il jl r(4) by (auto simp: unf)
      then show ?thesis
        using IH [of "j + utf8_width (bs ! j)"] sc run by simp
    qed
  qed
qed

lemma line_index_new_eq:
  assumes "utf8_valid src"
  shows "line_starts (line_index_new src) = map fst (line_spans 0 0 src)"
    and "line_ends (line_index_new src) = map snd (line_spans 0 0 src)"
    and "utf16 (line_index_new src) = map word_of_nat (utf16_table 0 (chars src))"
proof -
  have "line_index_new src = line_index_rest src 0 0 0 [0] [] []"
    unfolding line_index_new_def using line_index_loop_rest [of 0 src 0 "[0]" "[]" "[]" 0] assms by simp
  then show "line_starts (line_index_new src) = map fst (line_spans 0 0 src)"
    "line_ends (line_index_new src) = map snd (line_spans 0 0 src)"
    "utf16 (line_index_new src) = map word_of_nat (utf16_table 0 (chars src))"
    using line_spans_fst [of 0 0 src] by (simp_all add: line_index_rest_def)
qed

subsection \<open>Lines tile the source\<close>

definition terminator :: "bytes \<Rightarrow> bool" where
  "terminator t = (t = [LF] \<or> t = [CR] \<or> t = [CR, LF])"

definition plain :: "bytes \<Rightarrow> bool" where
  "plain t = (\<forall>b \<in> set t. b \<noteq> LF \<and> b \<noteq> CR)"

text \<open>Consecutive spans, each plain content followed by one terminator, up to the end.\<close>

fun spans_ok :: "bytes \<Rightarrow> (nat \<times> nat) list \<Rightarrow> bool" where
  "spans_ok src [] = False"
| "spans_ok src [(s, e)] = (s \<le> e \<and> e = length src \<and> plain (seg src s e))"
| "spans_ok src ((s, e) # (s', e') # r) =
     (s \<le> e \<and> e < s' \<and> s' \<le> length src \<and> plain (seg src s e) \<and> terminator (seg src e s') \<and>
      spans_ok src ((s', e') # r))"

lemma spans_ok_Cons:
  assumes "s \<le> e" "e < s'" "s' \<le> length src" "plain (seg src s e)" "terminator (seg src e s')"
    and "spans_ok src sp" "fst (hd sp) = s'"
  shows "spans_ok src ((s, e) # sp)"
  using assms by (cases sp) (auto simp: hd_def)

lemma seg_pair: "i + 1 < length src \<Longrightarrow> seg src i (i + 2) = [src ! i, src ! (i + 1)]"
  by (simp add: seg_Suc seg_def [of src "Suc (Suc i)"])

lemma seg_one: "i < length src \<Longrightarrow> seg src i (i + 1) = [src ! i]"
  by (simp add: seg_Suc)

lemma line_spans_ok:
  assumes "i \<le> length src" "s \<le> i" "plain (seg src s i)"
  shows "spans_ok src (line_spans s i (drop i src))"
  using assms
proof (induction "length src - i" arbitrary: s i rule: less_induct)
  case less
  have IH: "spans_ok src (line_spans t k (drop k src))"
    if "i < k" "k \<le> length src" "t \<le> k" "plain (seg src t k)" for t k
    using less.hyps [of k t] that by simp
  show ?case
  proof (cases "i = length src")
    case True
    then show ?thesis using less.prems by simp
  next
    case False
    with less.prems(1) have il: "i < length src" by simp
    then have d: "drop i src = src ! i # drop (i + 1) src" by (simp add: Cons_nth_drop_Suc)
    have one: "spans_ok src ((s, i) # line_spans (i + 1) (i + 1) (drop (i + 1) src))"
      if "src ! i = LF \<or> src ! i = CR"
      using IH [of "i + 1" "i + 1"] il less.prems that seg_one [OF il]
      by (intro spans_ok_Cons) (auto simp: terminator_def plain_def line_spans_hd)
    consider (lf) "src ! i = LF" | (crlf) "src ! i = CR" "i + 1 < length src" "src ! (i + 1) = LF"
      | (cr) "src ! i = CR" "\<not> (i + 1 < length src \<and> src ! (i + 1) = LF)" | (other) "src ! i \<noteq> LF" "src ! i \<noteq> CR"
      by blast
    then show ?thesis
    proof cases
      case lf
      then show ?thesis using one by (simp add: d)
    next
      case crlf
      then have "line_spans s i (drop i src) = (s, i) # line_spans (i + 2) (i + 2) (drop (i + 2) src)"
        by (simp add: d hd_drop_conv_nth flip: drop_Suc drop_drop [of 1])
           (simp add: drop_Suc [symmetric] tl_drop)
      moreover have "spans_ok src ((s, i) # line_spans (i + 2) (i + 2) (drop (i + 2) src))"
        using IH [of "i + 2" "i + 2"] less.prems crlf seg_pair [of i src]
        by (intro spans_ok_Cons) (auto simp: terminator_def plain_def line_spans_hd)
      ultimately show ?thesis by simp
    next
      case cr
      then have "line_spans s i (drop i src) = (s, i) # line_spans (i + 1) (i + 1) (drop (i + 1) src)"
        using il by (auto simp: d hd_drop_conv_nth)
      then show ?thesis using one cr by simp
    next
      case other
      have "plain (seg src s (i + 1))"
        using less.prems other seg_snoc [of s i src] il by (auto simp: plain_def)
      then show ?thesis
        using IH [of "i + 1" s] il less.prems other by (simp add: d)
    qed
  qed
qed

lemma spans_ok_nth:
  assumes "spans_ok src sp" "k < length sp"
  shows "fst (sp ! k) \<le> snd (sp ! k) \<and> snd (sp ! k) \<le> length src \<and>
         plain (seg src (fst (sp ! k)) (snd (sp ! k))) \<and>
         (Suc k < length sp \<longrightarrow> snd (sp ! k) < fst (sp ! Suc k) \<and> terminator (seg src (snd (sp ! k)) (fst (sp ! Suc k)))) \<and>
         (Suc k = length sp \<longrightarrow> snd (sp ! k) = length src)"
  using assms
proof (induction src sp arbitrary: k rule: spans_ok.induct)
  case (3 src s e s' e' r)
  then show ?case by (cases k) auto
qed auto

lemma spans_ok_sorted: "spans_ok src sp \<Longrightarrow> sorted_wrt (<) (map fst sp)"
proof (induction src sp rule: spans_ok.induct)
  case (3 src s e s' e' r)
  then show ?case by auto
qed auto

fun tile_from :: "bytes \<Rightarrow> (nat \<times> nat) list \<Rightarrow> bytes list" where
  "tile_from src [] = []"
| "tile_from src [(s, e)] = [seg src s (length src)]"
| "tile_from src ((s, e) # (s', e') # r) = seg src s s' # tile_from src ((s', e') # r)"

lemma tile_from_concat: "spans_ok src sp \<Longrightarrow> concat (tile_from src sp) = seg src (fst (hd sp)) (length src)"
proof (induction src sp rule: spans_ok.induct)
  case (3 src s e s' e' r)
  then show ?case by (auto simp: seg_append)
qed auto

lemma tile_from_nth:
  "tile_from src sp =
   map (\<lambda>k. seg src (fst (sp ! k)) (if Suc k < length sp then fst (sp ! Suc k) else length src)) [0..<length sp]"
proof (induction src sp rule: tile_from.induct)
  case (3 src s e s' e' r)
  have "[0..<length ((s, e) # (s', e') # r)] = 0 # map Suc [0..<length ((s', e') # r)]"
    by (simp add: map_Suc_upt upt_conv_Cons del: upt_Suc)
  then show ?case using 3 by (auto simp del: upt_Suc)
qed auto

lemma line_index_spans_ok: "spans_ok src (line_spans 0 0 src)"
  using line_spans_ok [of 0 src 0] by (simp add: plain_def)

lemma line_index_accessors:
  assumes "utf8_valid src" and li: "li = line_index_new src" and sp: "sp = line_spans 0 0 src"
  shows "line_count li = length sp"
    and "l < length sp \<Longrightarrow> line_start li l = fst (sp ! l)"
    and "l < length sp \<Longrightarrow> line_end li l = snd (sp ! l)"
    and "l < length sp \<Longrightarrow> line_end_with_break li l (length src) =
           (if Suc l < length sp then fst (sp ! Suc l) else length src)"
  using line_index_new_eq [OF assms(1), folded li sp]
  by (auto simp: line_count_def line_start_def line_end_def line_end_with_break_def min_absorb1)

text \<open>
  C25: The lines of a source text, each from its start through its terminator, are the whole
  text in order; a line's content holds no line feed and no carriage return; and what
  lies between a line's content and the next line is exactly one terminator, which only
  the last line lacks.
\<close>

theorem lines_tile_source:
  assumes "utf8_valid src" and li: "li = line_index_new src"
  shows "concat (map (\<lambda>l. seg src (line_start li l) (line_end_with_break li l (length src))) [0..<line_count li]) = src \<and>
         (\<forall>l < line_count li. plain (seg src (line_start li l) (line_end li l))) \<and>
         (\<forall>l. l + 1 < line_count li \<longrightarrow>
            terminator (seg src (line_end li l) (line_end_with_break li l (length src)))) \<and>
         0 < line_count li \<and> line_end li (line_count li - 1) = length src"
proof -
  define sp where "sp = line_spans 0 0 src"
  note acc = line_index_accessors [OF assms(1) li sp_def]
  have ok: "spans_ok src sp" unfolding sp_def by (rule line_index_spans_ok)
  have ne: "sp \<noteq> []" by (simp add: sp_def)
  have "map (\<lambda>l. seg src (line_start li l) (line_end_with_break li l (length src))) [0..<line_count li] = tile_from src sp"
    unfolding tile_from_nth acc(1) by (rule map_cong) (simp_all add: acc)
  moreover have "fst (hd sp) = 0" by (simp add: sp_def line_spans_hd)
  ultimately have "concat (map (\<lambda>l. seg src (line_start li l) (line_end_with_break li l (length src))) [0..<line_count li]) = src"
    using tile_from_concat [OF ok] by simp
  moreover have "\<forall>l < line_count li. plain (seg src (line_start li l) (line_end li l))"
    using spans_ok_nth [OF ok] by (simp add: acc)
  moreover have "\<forall>l. l + 1 < line_count li \<longrightarrow> terminator (seg src (line_end li l) (line_end_with_break li l (length src)))"
    using spans_ok_nth [OF ok] by (simp add: acc)
  moreover have "0 < line_count li \<and> line_end li (line_count li - 1) = length src"
    using spans_ok_nth [OF ok, of "length sp - 1"] ne by (simp add: acc)
  ultimately show ?thesis by blast
qed

lemma length_utf16_table [simp]: "length (utf16_table n cs) = Suc (length (concat cs))"
  by (induction cs arbitrary: n) auto

lemma utf16_len_append: "utf8_valid a \<Longrightarrow> utf16_len (a @ b) = utf16_len a + utf16_len b"
  by (simp add: utf16_len_def chars_app)

lemma utf16_len_scalar: "scalar_ok c \<Longrightarrow> c \<noteq> [] \<Longrightarrow> utf16_len (c @ rest) = len_utf16 c + utf16_len rest"
  by (simp add: utf16_len_def chars_append)

lemma utf16_table_nth:
  assumes "utf8_valid bs" "i \<le> length bs"
  shows "utf16_table n (chars bs) ! i = n + utf16_len (take (floor_boundary bs i) bs)"
  using assms
proof (induction arbitrary: n i rule: utf8_valid_induct)
  case Nil
  then show ?case by (simp add: utf16_len_def)
next
  case (Scalar c rest)
  show ?case
  proof (cases "i < length c")
    case True
    then show ?thesis
      using Scalar.hyps by (simp add: chars_append floor_boundary_head nth_append utf16_len_def)
  next
    case False
    then have "utf16_table (n + len_utf16 c) (chars rest) ! (i - length c)
        = n + len_utf16 c + utf16_len (take (floor_boundary rest (i - length c)) rest)"
      using Scalar.prems by (intro Scalar.IH) simp
    then show ?thesis
      using False Scalar.hyps by (simp add: chars_append floor_boundary_tail nth_append utf16_len_scalar)
  qed
qed

lemma len_utf16_le: "scalar_ok c \<Longrightarrow> c \<noteq> [] \<Longrightarrow> 0 < len_utf16 c \<and> len_utf16 c \<le> length c"
  by (cases c) (auto simp: len_utf16_width dest!: scalar_ok_length)

lemma utf16_len_le: "utf8_valid bs \<Longrightarrow> utf16_len bs \<le> length bs"
proof (induction rule: utf8_valid_induct)
  case (Scalar c rest)
  then show ?case using len_utf16_le [of c] by (simp add: utf16_len_scalar)
qed (simp add: utf16_len_def)

lemma u16_eq:
  assumes "utf8_valid src"
  shows "u16 (line_index_new src) i = word_of_nat (utf16_len (take (floor_boundary src (min i (length src))) src))"
proof -
  have "length (utf16 (line_index_new src)) = Suc (length src)"
    using line_index_new_eq(3) [OF assms] by simp
  then show ?thesis
    using line_index_new_eq(3) [OF assms] utf16_table_nth [OF assms, of "min i (length src)" 0]
    by (simp add: u16_def)
qed

lemma utf8_valid_floor: "utf8_valid src \<Longrightarrow> utf8_valid (take (floor_boundary src i) src)"
  using boundary_split floor_boundary_boundary by blast

text \<open>
  The UTF-16 offset published for a byte offset is the number of UTF-16 code units of
  the text before the scalar that byte lies in (an offset past the end counts as the end), so
  an offset inside a scalar is published as the offset of the scalar itself.
\<close>

lemma u16_counts_code_units:
  assumes "utf8_valid src" "length src < 2 ^ 32"
  shows "to_usize (u16 (line_index_new src) i) = utf16_len (take (floor_boundary src (min i (length src))) src)"
proof -
  let ?n = "utf16_len (take (floor_boundary src (min i (length src))) src)"
  have "?n \<le> length (take (floor_boundary src (min i (length src))) src)"
    by (rule utf16_len_le) (rule utf8_valid_floor [OF assms(1)])
  then have "?n < 4294967296" using assms(2) by simp
  then show ?thesis by (simp add: u16_eq [OF assms(1)])
qed

text \<open>
  The line found for a byte offset of the text is the line that holds it: it starts at or
  before the offset, and the next line, if there is one, starts after it.
\<close>

lemma line_of_holds_byte:
  assumes "utf8_valid src" and li: "li = line_index_new src"
  shows "line_of li b < line_count li \<and> line_start li (line_of li b) \<le> b \<and>
         (line_of li b + 1 < line_count li \<longrightarrow> b < line_start li (line_of li b + 1))"
proof -
  define xs where "xs = line_starts li"
  define p where "p = partition_point (\<lambda>y. y < b) xs"
  have xs: "xs = map fst (line_spans 0 0 src)"
    using line_index_new_eq(1) [OF assms(1)] by (simp add: xs_def li)
  have srt: "sorted_wrt (<) xs" unfolding xs by (rule spans_ok_sorted) (rule line_index_spans_ok)
  have x0: "xs \<noteq> []" "xs ! 0 = 0"
    using line_spans_fst [of 0 0 src] by (simp_all add: xs)
  have pl: "p \<le> length xs" by (simp add: p_def)
  have before: "k < p \<Longrightarrow> xs ! k < b" for k
    unfolding p_def by (rule partition_point_before)
  have after: "p < length xs \<Longrightarrow> b \<le> xs ! p"
    using partition_point_at [of "\<lambda>y. y < b" xs] by (simp add: p_def)
  show ?thesis
  proof (cases "p < length xs \<and> xs ! p = b")
    case True
    then have "line_of li b = p" by (simp add: line_of_def binary_search_def xs_def [symmetric] p_def [symmetric])
    then show ?thesis
      using True sorted_wrt_nth_less [OF srt, of p "Suc p"] by (auto simp: line_count_def line_start_def xs_def [symmetric])
  next
    case False
    then have lo: "line_of li b = p - 1" by (auto simp: line_of_def binary_search_def xs_def [symmetric] p_def [symmetric])
    have "p \<noteq> 0" using after x0 False by fastforce
    then show ?thesis
      using lo pl before [of "p - 1"] after False
      by (auto simp: line_count_def line_start_def xs_def [symmetric])
  qed
qed

theorem lines_tile_source_witness:
  "concat (map (\<lambda>l. seg ''a\<newline>b'' (line_start (line_index_new ''a\<newline>b'') l)
      (line_end_with_break (line_index_new ''a\<newline>b'') l (length ''a\<newline>b''))) [0..<line_count (line_index_new ''a\<newline>b'')]) = ''a\<newline>b''"
  using lines_tile_source [of "''a\<newline>b''", OF _ refl] by (simp add: utf8_width_def)

subsection \<open>Line slices\<close>

text \<open>The ends of a line's content are scalar boundaries, so the content is valid UTF-8.\<close>

lemma line_bounds:
  assumes "utf8_valid src" "k < line_count (line_index_new src)"
  shows "line_start (line_index_new src) k \<le> line_end (line_index_new src) k \<and>
         line_end (line_index_new src) k \<le> length src \<and>
         plain (seg src (line_start (line_index_new src) k) (line_end (line_index_new src) k))"
  using spans_ok_nth [OF line_index_spans_ok, of k src] line_index_accessors [OF assms(1) refl refl] assms(2) by auto

lemma line_boundaries:
  assumes "utf8_valid src" "k < line_count (line_index_new src)"
  shows "is_char_boundary src (line_start (line_index_new src) k) \<and> is_char_boundary src (line_end (line_index_new src) k)"
proof -
  let ?sp = "line_spans 0 0 src"
  note acc = line_index_accessors [OF assms(1) refl refl]
  have k: "k < length ?sp" using assms(2) acc(1) by simp
  note ok = spans_ok_nth [OF line_index_spans_ok [of src]]
  have first: "fst (?sp ! 0) = 0"
    using line_spans_fst [of 0 0 src] k by (cases ?sp) auto
  have break: "bval c < 128" if "terminator t" "c \<in> set t" for t c
    using that by (auto simp: terminator_def)
  have start: "is_char_boundary src (fst (?sp ! k))"
  proof (cases k)
    case 0
    then show ?thesis using first by (simp add: is_char_boundary_def)
  next
    case (Suc j)
    let ?i = "fst (?sp ! k) - 1"
    have j: "snd (?sp ! j) < fst (?sp ! k)" "terminator (seg src (snd (?sp ! j)) (fst (?sp ! k)))"
      "fst (?sp ! k) \<le> length src"
      using ok [of j] ok [of k] k Suc by auto
    then have "src ! ?i \<in> set (seg src (snd (?sp ! j)) (fst (?sp ! k)))" by (auto simp: set_seg intro!: exI [of _ ?i])
    then show ?thesis using break [OF j(2)] ascii_boundary [OF assms(1), of ?i] j by auto
  qed
  have "is_char_boundary src (snd (?sp ! k))"
  proof (cases "Suc k < length ?sp")
    case False
    then have "snd (?sp ! k) = length src" using ok [of k] k by auto
    then show ?thesis by (simp add: is_char_boundary_def)
  next
    case True
    have j: "snd (?sp ! k) < fst (?sp ! Suc k)" "terminator (seg src (snd (?sp ! k)) (fst (?sp ! Suc k)))"
      "fst (?sp ! Suc k) \<le> length src"
      using ok [of k] ok [of "Suc k"] k True by auto
    then have "src ! snd (?sp ! k) \<in> set (seg src (snd (?sp ! k)) (fst (?sp ! Suc k)))" by (auto simp: set_seg intro!: exI [of _ "snd (?sp ! k)"])
    then show ?thesis using break [OF j(2)] ascii_boundary [OF assms(1), of "snd (?sp ! k)"] j by auto
  qed
  then show ?thesis using start k acc by simp
qed

lemma line_slice_valid:
  assumes "utf8_valid src" "k < line_count (line_index_new src)"
  shows "utf8_valid (seg src (line_start (line_index_new src) k) (line_end (line_index_new src) k))"
  using line_boundaries [OF assms] line_bounds [OF assms] utf8_valid_seg [OF assms(1)] by blast

end
