(* ===== verification/Flark_Ast.thy ===== *)
theory Flark_Ast
  imports Flark_Prelude
begin

text \<open>
  The syntax tree the extraction reads. comrak builds it; its parser is the parameter
  \<open>comrak :: options \<Rightarrow> bytes \<Rightarrow> ast\<close> of every definition that runs it. The node kinds and the
  fields the extraction reads follow \<^verbatim>\<open>comrak/src/nodes.rs\<close> (version 0.54, vendored with
  the V4 bridge); a kind the extraction never looks into is \<open>OtherBlock\<close> or \<open>OtherInline\<close>.
  Also here: the decoding of entity references, which asks comrak to parse a reference
  alone and caches the answer.
\<close>

record line_column =
  lc_line :: nat
  lc_column :: nat

record sourcepos =
  sp_start :: line_column
  sp_end :: line_column

datatype list_type = Bullet | Ordered

datatype table_alignment = AlignNone | AlignLeft | AlignCenter | AlignRight

record node_list =
  nl_list_type :: list_type
  nl_marker_offset :: nat
  nl_padding :: nat
  nl_start :: nat
  nl_tight :: bool

record node_code_block =
  cb_fenced :: bool
  cb_fence_char :: byte
  cb_fence_length :: nat
  cb_fence_offset :: nat
  cb_literal :: bytes
  cb_closed :: bool

record node_table =
  nt_alignments :: "table_alignment list"
  nt_num_columns :: nat

record node_task_item =
  ti_symbol :: "bytes option"
  ti_symbol_sourcepos :: sourcepos

record node_code =
  nc_num_backticks :: nat
  nc_literal :: bytes

record node_link =
  lk_url :: bytes
  lk_title :: bytes

record node_heading =
  hd_level :: nat
  hd_setext :: bool

datatype node_value =
    Document
  | Paragraph
  | Heading node_heading
  | CodeBlock node_code_block
  | HtmlBlock
  | BlockQuote
  | NList node_list
  | Item node_list
  | TaskItem node_task_item
  | ThematicBreak
  | Table node_table
  | TableRow bool
  | TableCell
  | FootnoteDefinition
  | Text bytes
  | SoftBreak
  | LineBreak
  | Code node_code
  | HtmlInline bytes
  | Emph
  | Strong
  | Strikethrough
  | Link node_link
  | Image node_link
  | FootnoteReference
  | Escaped
  | Subtext
  | OtherBlock
  | OtherInline

datatype ast = Node (node_val: node_value) (node_pos: sourcepos) (node_children: "ast list")

text \<open>\<^verbatim>\<open>NodeValue::block\<close> and \<^verbatim>\<open>NodeValue::contains_inlines\<close>.\<close>

fun is_block :: "node_value \<Rightarrow> bool" where
  "is_block Document = True"
| "is_block BlockQuote = True"
| "is_block FootnoteDefinition = True"
| "is_block (NList _) = True"
| "is_block (Item _) = True"
| "is_block (CodeBlock _) = True"
| "is_block HtmlBlock = True"
| "is_block Paragraph = True"
| "is_block (Heading _) = True"
| "is_block ThematicBreak = True"
| "is_block (Table _) = True"
| "is_block (TableRow _) = True"
| "is_block TableCell = True"
| "is_block (TaskItem _) = True"
| "is_block Subtext = True"
| "is_block OtherBlock = True"
| "is_block _ = False"

fun contains_inlines :: "node_value \<Rightarrow> bool" where
  "contains_inlines Paragraph = True"
| "contains_inlines (Heading _) = True"
| "contains_inlines TableCell = True"
| "contains_inlines Subtext = True"
| "contains_inlines _ = False"

text \<open>The node and everything below it, in document order: \<^verbatim>\<open>node.descendants()\<close>.\<close>

primrec descendants :: "ast \<Rightarrow> ast list" where
  "descendants (Node v p ks) = Node v p ks # concat (map descendants ks)"

text \<open>Moving every position below a node: a mutation through the arena, as a map over the tree.\<close>

primrec map_pos :: "(sourcepos \<Rightarrow> sourcepos) \<Rightarrow> ast \<Rightarrow> ast" where
  "map_pos f (Node v p ks) = Node v (f p) (map (map_pos f) ks)"

definition set_pos :: "sourcepos \<Rightarrow> ast \<Rightarrow> ast" where
  "set_pos p n = Node (node_val n) p (node_children n)"

text \<open>Options the extraction sets; the rest stay at comrak's defaults.\<close>

record options =
  opt_table :: bool
  opt_strikethrough :: bool
  opt_tasklist :: bool
  opt_autolink :: bool
  opt_footnotes :: bool
  opt_leave_footnote_definitions :: bool
  opt_sourcepos :: bool
  opt_escaped_char_spans :: bool

definition default_options :: options where
  "default_options = \<lparr>opt_table = False, opt_strikethrough = False, opt_tasklist = False, opt_autolink = False,
     opt_footnotes = False, opt_leave_footnote_definitions = False, opt_sourcepos = False,
     opt_escaped_char_spans = False\<rparr>"

definition extraction_options :: options where
  "extraction_options = default_options\<lparr>opt_table := True, opt_strikethrough := True, opt_tasklist := True,
     opt_autolink := True, opt_footnotes := True, opt_leave_footnote_definitions := True, opt_sourcepos := True,
     opt_escaped_char_spans := True\<rparr>"

subsection \<open>Entity references\<close>

text \<open>
  What comrak makes of a reference parsed alone: the text of the only child of the only
  child of the document, and otherwise the reference itself.
\<close>

definition shown_reference :: "(options \<Rightarrow> bytes \<Rightarrow> ast) \<Rightarrow> bytes \<Rightarrow> bytes" where
  "shown_reference comrak reference =
     (case node_children (comrak default_options reference) of
        [p] \<Rightarrow> (case node_children p of
                  [t] \<Rightarrow> (case node_val t of Text shown \<Rightarrow> shown | _ \<Rightarrow> reference)
                | _ \<Rightarrow> reference)
      | _ \<Rightarrow> reference)"

text \<open>The cache of decodings, and a decoding through it.\<close>

type_synonym entities = "bytes \<rightharpoonup> bytes"

definition entities_decode :: "(options \<Rightarrow> bytes \<Rightarrow> ast) \<Rightarrow> entities \<Rightarrow> bytes \<Rightarrow> bytes \<times> entities" where
  "entities_decode comrak cache reference =
     (case cache reference of
        Some shown \<Rightarrow> (shown, cache)
      | None \<Rightarrow>
          (let shown = shown_reference comrak reference in (shown, cache(reference \<mapsto> shown))))"

definition entities_decoded_len ::
    "(options \<Rightarrow> bytes \<Rightarrow> ast) \<Rightarrow> entities \<Rightarrow> bytes \<Rightarrow> bytes \<Rightarrow> nat option \<times> entities" where
  "entities_decoded_len comrak cache reference rest =
     (case cache reference of
        Some shown \<Rightarrow> (if starts_with rest shown then Some (length shown) else None, cache)
      | None \<Rightarrow>
          (case entities_decode comrak cache reference of
             (shown, cache') \<Rightarrow> (if starts_with rest shown then Some (length shown) else None, cache')))"

text \<open>A cache that holds only what comrak says.\<close>

definition entities_ok :: "(options \<Rightarrow> bytes \<Rightarrow> ast) \<Rightarrow> entities \<Rightarrow> bool" where
  "entities_ok comrak cache = (\<forall>r shown. cache r = Some shown \<longrightarrow> shown = shown_reference comrak r)"

text \<open>The decoding as a function of the reference alone, which the rest of the model uses.\<close>

definition decoded_len :: "(bytes \<Rightarrow> bytes) \<Rightarrow> bytes \<Rightarrow> bytes \<Rightarrow> nat option" where
  "decoded_len dec reference rest =
     (if starts_with rest (dec reference) then Some (length (dec reference)) else None)"

text \<open>
  C40: The decoding cache is transparent: starting from the empty cache of a new extraction, every
  sequence of lookups returns what comrak's own parse of the reference shows, and the cache keeps
  holding only such answers.
\<close>

theorem entities_cache_transparent:
  "entities_ok comrak Map.empty \<and>
   (\<forall>cache r. entities_ok comrak cache \<longrightarrow>
      fst (entities_decode comrak cache r) = shown_reference comrak r \<and>
      entities_ok comrak (snd (entities_decode comrak cache r)) \<and>
      (\<forall>rest. fst (entities_decoded_len comrak cache r rest) = decoded_len (shown_reference comrak) r rest \<and>
              entities_ok comrak (snd (entities_decoded_len comrak cache r rest))))"
  by (auto simp: entities_ok_def entities_decode_def entities_decoded_len_def decoded_len_def Let_def
      split: option.splits)

text \<open>Two lookups of one reference on a concrete parser: the second is answered by the cache.\<close>

definition echo_parser :: "options \<Rightarrow> bytes \<Rightarrow> ast" where
  "echo_parser opts src =
     (let z = \<lparr>lc_line = 1, lc_column = 1\<rparr>; p = \<lparr>sp_start = z, sp_end = z\<rparr>
      in Node Document p [Node Paragraph p [Node (Text (if src = ''&amp;'' then ''&'' else src)) p []]])"

theorem entities_cache_transparent_witness:
  "fst (entities_decode echo_parser (snd (entities_decode echo_parser Map.empty ''&amp;'')) ''&amp;'') = ''&''"
proof -
  have "entities_ok echo_parser (snd (entities_decode echo_parser Map.empty ''&amp;''))"
    using entities_cache_transparent [of echo_parser] by blast
  then have "fst (entities_decode echo_parser (snd (entities_decode echo_parser Map.empty ''&amp;'')) ''&amp;'')
      = shown_reference echo_parser ''&amp;''"
    using entities_cache_transparent [of echo_parser] by blast
  then show ?thesis by (simp add: shown_reference_def echo_parser_def Let_def)
qed

end
