(* ===== verification/Flark_Pieces.thy ===== *)
theory Flark_Pieces
  imports Flark_Ast
begin

text \<open>
  \<^verbatim>\<open>native/flark_parse/src/text_pieces.rs\<close>: splitting a text node whose literal differs from its
  source into exact and replacement pieces, the readers that decide beforehand whether a
  window of the source could hold a literal, and the test whether a window cuts an entity
  reference. \<open>dec\<close> is the decoding of a reference (\<open>Flark_Ast\<close>). The lemmas show that the
  pieces always tile the slice and rebuild the literal; that the shortcuts change no answer is
  shown in \<open>Flark_Explains\<close>.
\<close>

record piece =
  pc_start :: nat
  pc_end :: nat
  pc_display :: "(nat \<times> nat) option"

definition MAX_SOURCE :: nat where "MAX_SOURCE = 40"
definition MAX_DISPLAY_CHARS :: nat where "MAX_DISPLAY_CHARS = 4"
definition MAX_ENTITY_LEN :: nat where "MAX_ENTITY_LEN = 34"

definition is_digit :: "byte \<Rightarrow> bool" where
  "is_digit b = (48 \<le> bval b \<and> bval b \<le> 57)"

definition is_hexdigit :: "byte \<Rightarrow> bool" where
  "is_hexdigit b = (is_digit b \<or> (65 \<le> bval b \<and> bval b \<le> 70) \<or> (97 \<le> bval b \<and> bval b \<le> 102))"

definition is_alnum :: "byte \<Rightarrow> bool" where
  "is_alnum b = (is_digit b \<or> (65 \<le> bval b \<and> bval b \<le> 90) \<or> (97 \<le> bval b \<and> bval b \<le> 122))"

subsection \<open>Entity references\<close>

text \<open>The length of the entity reference at the start of \<open>b\<close>, if there is one.\<close>

definition entity_tail :: "bytes \<Rightarrow> nat \<Rightarrow> nat \<Rightarrow> nat option" where
  "entity_tail b start i =
     (if i = start then None
      else if byte_at b i = Some (CHR '';'') then Some (i + 1) else None)"

definition entity_len :: "bytes \<Rightarrow> nat option" where
  "entity_len b =
     (if byte_at b 0 \<noteq> Some (CHR ''&'') then None
      else if byte_at b 1 = Some (CHR ''#'') then
        (let hex = (byte_at b 2 = Some (CHR ''x'') \<or> byte_at b 2 = Some (CHR ''X''));
             start = (if hex then 3 else 2)
         in entity_tail b start (scan_fwd (\<lambda>c. is_digit c \<or> (hex \<and> is_hexdigit c)) b start (start + 8)))
      else entity_tail b 1 (scan_fwd is_alnum b 1 33))"

text \<open>Whether an odd number of backslashes precedes \<open>a\<close>.\<close>

definition escaped_at :: "bytes \<Rightarrow> nat \<Rightarrow> bool" where
  "escaped_at b a = (length (takeWhile (\<lambda>c. c = BACKSLASH) (rev (take a b))) mod 2 = 1)"

definition reaches :: "bytes \<Rightarrow> nat \<Rightarrow> nat \<Rightarrow> bool" where
  "reaches src a past =
     (byte_at src a = Some (CHR ''&'') \<and>
      (case entity_len (drop a src) of Some l \<Rightarrow> past < a + l | None \<Rightarrow> False))"

definition cuts_entity :: "bytes \<Rightarrow> nat \<Rightarrow> nat \<Rightarrow> bool" where
  "cuts_entity src q r =
     (list_ex (\<lambda>a. reaches src a r \<and> \<not> (a = q \<and> r = a + 1 \<and> escaped_at src a)) [max (r - MAX_ENTITY_LEN) q..<r] \<or>
      list_ex (\<lambda>a. reaches src a q \<and> \<not> escaped_at src a) [q - MAX_ENTITY_LEN..<q])"

record entity_cover =
  ec_from :: nat
  ec_inside :: "u32 list"

definition cover_step :: "bytes \<Rightarrow> nat \<Rightarrow> nat \<Rightarrow> nat \<Rightarrow> u32 list \<Rightarrow> u32 list" where
  "cover_step src lo to a inside =
     (if byte_at src a \<noteq> Some (CHR ''&'') then inside
      else
        (case entity_len (drop a src) of
           None \<Rightarrow> inside
         | Some l \<Rightarrow> fold (\<lambda>x ins. ins[x - lo := to_u32 a + 1]) [max (a + 1) lo..<min (a + l) (to + 1)] inside))"

definition entity_cover_new :: "bytes \<Rightarrow> nat \<Rightarrow> nat \<Rightarrow> entity_cover" where
  "entity_cover_new src lo to =
     \<lparr>ec_from = lo,
      ec_inside = fold (cover_step src lo to) [lo - MAX_ENTITY_LEN..<to] (replicate (to + 1 - lo) 0)\<rparr>"

definition covering :: "entity_cover \<Rightarrow> nat \<Rightarrow> nat option" where
  "covering ec x =
     (let k = x - ec_from ec in
      if k < length (ec_inside ec) \<and> ec_inside ec ! k \<noteq> 0
      then Some (to_usize (ec_inside ec ! k - 1)) else None)"

definition cover_cuts :: "entity_cover \<Rightarrow> bytes \<Rightarrow> nat \<Rightarrow> nat \<Rightarrow> bool" where
  "cover_cuts ec src q r =
     ((case covering ec r of Some a \<Rightarrow> q \<le> a \<and> \<not> (a = q \<and> r = a + 1 \<and> escaped_at src a) | None \<Rightarrow> False) \<or>
      (case covering ec q of Some a \<Rightarrow> \<not> escaped_at src a | None \<Rightarrow> False))"

subsection \<open>Escaped pipes\<close>

text \<open>
  Whether unescaping the pipes of the slice gives the literal, without building it. A backslash
  before a pipe is dropped; before anything else it is kept together with the character after it.
\<close>

function unescapes_loop :: "bytes \<Rightarrow> bytes \<Rightarrow> nat \<Rightarrow> nat \<Rightarrow> bool" where
  "unescapes_loop s l i j =
     (if i < length s then
        (if s ! i = BACKSLASH \<and> byte_at s (i + 1) = Some (CHR ''|'') then unescapes_loop s l (i + 1) j
         else
           (let tk = (if s ! i = BACKSLASH \<and> i + 1 < length s then 1 + length (the (next_char (drop (i + 1) s))) else 1)
            in if j + tk \<le> length l \<and> seg l j (j + tk) = seg s i (i + tk)
               then unescapes_loop s l (i + tk) (j + tk) else False))
      else j = length l)"
  by pat_completeness auto
termination
  by (relation "measure (\<lambda>(s, l, i, j). length s - i)") auto

declare unescapes_loop.simps [simp del]

definition unescapes_to :: "bytes \<Rightarrow> bytes \<Rightarrow> bool" where
  "unescapes_to s l = unescapes_loop s l 0 0"

text \<open>The slice with each escaped pipe's backslash removed, scalar by scalar.\<close>

fun unescape_chars :: "bytes list \<Rightarrow> bytes" where
  "unescape_chars [] = []"
| "unescape_chars [c] = c"
| "unescape_chars (c # d # cs) =
     (if c = [BACKSLASH] then
        (if d = ''|'' then unescape_chars (d # cs) else c @ d @ unescape_chars cs)
      else c @ unescape_chars (d # cs))"

definition unescape_pipes :: "bytes \<Rightarrow> bytes" where
  "unescape_pipes s = unescape_chars (chars s)"

subsection \<open>The readers\<close>

text \<open>
  \<^verbatim>\<open>could_explain\<close>: the reads still to try are a stack of source and literal offsets, at most
  sixteen; a full stack or a spent budget answers yes.
\<close>

definition read_decoded :: "(bytes \<Rightarrow> bytes) \<Rightarrow> bytes \<Rightarrow> bytes \<Rightarrow> nat \<Rightarrow> nat \<Rightarrow> (nat \<times> nat) list" where
  "read_decoded dec s l i j =
     (if byte_at s i = Some (CHR ''&'') then
        (case entity_len (drop i s) of
           None \<Rightarrow> []
         | Some n \<Rightarrow> (case decoded_len dec (seg s i (i + n)) (drop j l) of None \<Rightarrow> [] | Some d \<Rightarrow> [(i + n, j + d)]))
      else [])"

definition read_dropped :: "bytes \<Rightarrow> nat \<Rightarrow> nat \<Rightarrow> (nat \<times> nat) list" where
  "read_dropped s i j =
     (if byte_at s i = Some CR \<or> (byte_at s i = Some BACKSLASH \<and> byte_at s (i + 1) = Some (CHR ''|''))
      then [(i + 1, j)] else [])"

fun could_loop :: "(bytes \<Rightarrow> bytes) \<Rightarrow> bytes \<Rightarrow> bytes \<Rightarrow> nat \<Rightarrow> (nat \<times> nat) list \<Rightarrow> nat \<Rightarrow> nat \<Rightarrow> bool" where
  "could_loop dec s l 0 reads i j = True"
| "could_loop dec s l (Suc budget) reads i j =
     (if length s \<le> i then
        (if j = length l then True
         else (case reads of [] \<Rightarrow> False | (i', j') # rest \<Rightarrow> could_loop dec s l budget rest i' j'))
      else
        (let pushes = read_decoded dec s l i j @ read_dropped s i j;
             reads1 = rev pushes @ reads
         in if 16 < length reads1 then True
            else if byte_at l j \<noteq> Some (s ! i) then
              (case reads1 of [] \<Rightarrow> False | (i', j') # rest \<Rightarrow> could_loop dec s l budget rest i' j')
            else could_loop dec s l budget reads1 (i + 1) (j + 1)))"

definition leading_spaces :: "bytes \<Rightarrow> nat" where
  "leading_spaces l = length (takeWhile (\<lambda>c. c = CHR '' '') l)"

definition could_explain :: "(bytes \<Rightarrow> bytes) \<Rightarrow> bytes \<Rightarrow> bytes \<Rightarrow> bool" where
  "could_explain dec s l =
     (let lead = leading_spaces l;
          budget = 4 * (length s + length l) + 64
      in if 16 < lead + 1 then True
         else could_loop dec s l budget (map (\<lambda>j. (0, j)) [1..<lead + 1]) 0 0)"

text \<open>\<^verbatim>\<open>read_ends\<close>: one read from \<open>q\<close> answers for every window it starts; \<open>None\<close> is a spent budget.\<close>

fun read_ends_loop ::
    "(bytes \<Rightarrow> bytes) \<Rightarrow> bytes \<Rightarrow> nat \<Rightarrow> bytes \<Rightarrow> nat \<Rightarrow> (nat \<times> nat) list \<Rightarrow> nat list \<Rightarrow> nat \<Rightarrow> nat \<Rightarrow> nat list option" where
  "read_ends_loop dec s limit l 0 reads ends i j = None"
| "read_ends_loop dec s limit l (Suc budget) reads ends i j =
     (let ends1 = (if j = length l \<and> i \<notin> set ends then ends @ [i] else ends) in
      if i = limit then
        (case reads of [] \<Rightarrow> Some ends1 | (i', j') # rest \<Rightarrow> read_ends_loop dec s limit l budget rest ends1 i' j')
      else
        (let decoded =
               (if byte_at s i = Some (CHR ''&'') \<and> j < length l then
                  (case entity_len (drop i s) of
                     None \<Rightarrow> []
                   | Some n \<Rightarrow>
                       if i + n \<le> limit then
                         (case decoded_len dec (seg s i (i + n)) (drop j l) of None \<Rightarrow> [] | Some d \<Rightarrow> [(i + n, j + d)])
                       else [])
                else []);
             cr = (if byte_at s i = Some CR then [(i + 1, j)] else []);
             pipe = (if byte_at s i = Some BACKSLASH \<and> i + 2 \<le> limit \<and> byte_at s (i + 1) = Some (CHR ''|'') \<and>
                        byte_at l j = Some (CHR ''|'')
                     then [(i + 2, j + 1)] else []);
             reads1 = rev (decoded @ cr @ pipe) @ reads
         in if byte_at s i = None \<or> byte_at l j \<noteq> byte_at s i then
              (case reads1 of [] \<Rightarrow> Some ends1 | (i', j') # rest \<Rightarrow> read_ends_loop dec s limit l budget rest ends1 i' j')
            else read_ends_loop dec s limit l budget reads1 ends1 (i + 1) (j + 1)))"

definition read_ends :: "(bytes \<Rightarrow> bytes) \<Rightarrow> bytes \<Rightarrow> nat \<Rightarrow> nat \<Rightarrow> bytes \<Rightarrow> nat list option" where
  "read_ends dec s q limit l =
     read_ends_loop dec s limit l (4 * (limit - q + length l) + 64)
       (map (\<lambda>j. (q, j)) [1..<leading_spaces l + 1]) [] q 0"

subsection \<open>The piece walk\<close>

text \<open>The next three characters (or the ends) agree; a source entity ends what must agree.\<close>

fun agree_loop :: "nat \<Rightarrow> bytes \<Rightarrow> bytes \<Rightarrow> bool \<Rightarrow> bool" where
  "agree_loop 0 a b pipes = True"
| "agree_loop (Suc n) a b pipes =
     (case next_char a of
        None \<Rightarrow> b = []
      | Some x \<Rightarrow>
          if entity_len a \<noteq> None then True
          else
            (let esc = (pipes \<and> x = [BACKSLASH] \<and> starts_with (drop 1 a) ''|'');
                 y = (if esc then ''|'' else x);
                 a1 = (if esc then drop 2 a else drop (length x) a)
             in case next_char b of
                  None \<Rightarrow> False
                | Some z \<Rightarrow> if y = z then agree_loop n a1 (drop (length z) b) pipes else False))"

definition agree :: "bytes \<Rightarrow> bytes \<Rightarrow> bool \<Rightarrow> bool" where
  "agree a b pipes = agree_loop 3 a b pipes"

text \<open>The offset after \<open>k\<close> more characters.\<close>

fun skip_chars :: "bytes \<Rightarrow> nat \<Rightarrow> nat \<Rightarrow> nat option" where
  "skip_chars s jj 0 = Some jj"
| "skip_chars s jj (Suc k) =
     (case next_char (drop jj s) of None \<Rightarrow> None | Some c \<Rightarrow> skip_chars s (jj + length c) k)"

text \<open>Consuming \<open>l\<close> source bytes and \<open>k\<close> literal characters: where the literal then stands.\<close>

definition try_resync :: "bytes \<Rightarrow> bytes \<Rightarrow> bool \<Rightarrow> nat \<Rightarrow> nat \<Rightarrow> nat \<times> nat \<Rightarrow> (nat \<times> nat) option" where
  "try_resync sl lit pipes i j lk =
     (case lk of (l, k) \<Rightarrow>
        if l = 0 \<and> 0 < i then None
        else if MAX_DISPLAY_CHARS < k \<or> length sl < i + l \<or> \<not> is_char_boundary sl (i + l) then None
        else
          (case skip_chars lit j k of
             None \<Rightarrow> None
           | Some jj \<Rightarrow>
               if l = 0 \<and> (\<exists>c \<in> set (seg lit j jj). c \<noteq> CHR '' '') then None
               else if agree (drop (i + l) sl) (drop jj lit) pipes then Some (l, jj) else None))"

text \<open>The pairs within reach, cheapest first.\<close>

definition resync_pairs :: "nat \<Rightarrow> (nat \<times> nat) list" where
  "resync_pairs rest =
     concat (map (\<lambda>cost. map (\<lambda>l. (l, cost - l)) [cost - MAX_DISPLAY_CHARS..<min (min cost MAX_SOURCE) rest + 1])
       [1..<min (MAX_SOURCE + MAX_DISPLAY_CHARS) (rest + MAX_DISPLAY_CHARS) + 1])"

fun first_some :: "('a \<Rightarrow> 'b option) \<Rightarrow> 'a list \<Rightarrow> 'b option" where
  "first_some f [] = None"
| "first_some f (x # xs) = (case f x of Some y \<Rightarrow> Some y | None \<Rightarrow> first_some f xs)"

definition find_resync :: "bytes \<Rightarrow> bytes \<Rightarrow> bool \<Rightarrow> nat \<Rightarrow> nat \<Rightarrow> (nat \<times> nat) option" where
  "find_resync sl lit pipes i j = first_some (try_resync sl lit pipes i j) (resync_pairs (length sl - i))"

definition flush_exact :: "nat option \<Rightarrow> nat \<Rightarrow> piece list \<Rightarrow> piece list" where
  "flush_exact exact i pieces =
     (case exact of
        None \<Rightarrow> pieces
      | Some es \<Rightarrow> pieces @ [\<lparr>pc_start = es, pc_end = i, pc_display = None\<rparr>])"

text \<open>Facts the walk's termination needs: every step consumes source or literal.\<close>

lemma next_char_bounds: "next_char s = Some c \<Longrightarrow> 0 < length c \<and> length c \<le> length s \<and> c = take (length c) s"
  by (cases s) (auto simp: next_char_def min_def)

lemma skip_chars_bounds:
  "skip_chars s jj k = Some j' \<Longrightarrow> jj + k \<le> j' \<and> (jj \<le> length s \<or> 0 < k \<longrightarrow> j' \<le> length s)"
proof (induction k arbitrary: jj)
  case (Suc k)
  then obtain c where c: "next_char (drop jj s) = Some c" "skip_chars s (jj + length c) k = Some j'"
    by (auto split: option.splits)
  have "0 < length c" "length c \<le> length s - jj" using next_char_bounds [OF c(1)] by auto
  then have "1 \<le> length c" "jj + length c \<le> length s" by linarith+
  then show ?case using Suc.IH [OF c(2)] by auto
qed simp

lemma first_some_Some: "first_some f xs = Some y \<Longrightarrow> \<exists>x \<in> set xs. f x = Some y"
  by (induction xs) (auto split: option.splits)

lemma resync_pairs_pos: "(l, k) \<in> set (resync_pairs rest) \<Longrightarrow> 0 < l + k"
  by (auto simp: resync_pairs_def)

lemma find_resync_Some:
  assumes "find_resync sl lit pipes i j = Some (l, jj)"
  obtains k where "0 < l + k" "skip_chars lit j k = Some jj" "i + l \<le> length sl" "is_char_boundary sl (i + l)"
    "l = 0 \<longrightarrow> i = 0 \<and> (\<forall>c \<in> set (seg lit j jj). c = CHR '' '')"
    "agree (drop (i + l) sl) (drop jj lit) pipes"
proof -
  from assms obtain l' k where k: "(l', k) \<in> set (resync_pairs (length sl - i))" "try_resync sl lit pipes i j (l', k) = Some (l, jj)"
    unfolding find_resync_def using first_some_Some by fastforce
  then have "l' = l" by (auto simp: try_resync_def split: if_splits option.splits)
  with k resync_pairs_pos [OF k(1)] show ?thesis
    by (intro that [of k]) (auto simp: try_resync_def split: if_splits option.splits)
qed

lemma find_resync_bounds:
  assumes "find_resync sl lit pipes i j = Some (l, jj)"
  shows "i + l \<le> length sl \<and> j \<le> jj \<and> (j < length lit \<or> jj = j) \<and> (0 < l \<or> j < jj) \<and> (j \<le> length lit \<longrightarrow> jj \<le> length lit)"
proof -
  from assms obtain k where k: "0 < l + k" "skip_chars lit j k = Some jj" "i + l \<le> length sl"
    by (rule find_resync_Some)
  show ?thesis using skip_chars_bounds [OF k(2)] k by (cases k) auto
qed

definition entity_byte :: "byte \<Rightarrow> bool" where
  "entity_byte c = (is_alnum c \<or> c = CHR ''#'')"

text \<open>The shape of a reference: an ampersand, letters, digits or a number sign, a semicolon.\<close>

lemma entity_len_shape:
  assumes "entity_len b = Some n"
  shows "3 \<le> n \<and> n \<le> MAX_ENTITY_LEN \<and> n \<le> length b \<and> b ! 0 = CHR ''&'' \<and> b ! (n - 1) = CHR '';'' \<and>
         (\<forall>k. 1 \<le> k \<and> k < n - 1 \<longrightarrow> entity_byte (b ! k))"
proof -
  obtain P start e where i: "n = scan_fwd P b start e + 1" "scan_fwd P b start e \<noteq> start" "1 \<le> start" "start \<le> e" "e \<le> 33"
    and P: "\<And>c. P c \<Longrightarrow> is_alnum c" and before: "\<And>k. 1 \<le> k \<Longrightarrow> k < start \<Longrightarrow> entity_byte (b ! k)"
    and semi: "byte_at b (scan_fwd P b start e) = Some (CHR '';'')" and amp: "b ! 0 = CHR ''&''"
  proof (cases "byte_at b 1 = Some (CHR ''#'')")
    case True
    define hex where "hex = (byte_at b 2 = Some (CHR ''x'') \<or> byte_at b 2 = Some (CHR ''X''))"
    define start :: nat where "start = (if hex then 3 else 2)"
    have "b ! 1 = CHR ''#''" "hex \<longrightarrow> b ! 2 = CHR ''x'' \<or> b ! 2 = CHR ''X''"
      using True by (auto simp: hex_def)
    then have "\<And>k. 1 \<le> k \<Longrightarrow> k < start \<Longrightarrow> entity_byte (b ! k)"
      by (auto simp: start_def entity_byte_def is_alnum_def less_Suc_eq numeral_3_eq_3 numeral_2_eq_2 split: if_splits)
    moreover have "entity_tail b start (scan_fwd (\<lambda>c. is_digit c \<or> (hex \<and> is_hexdigit c)) b start (start + 8)) = Some n"
    proof -
      have "entity_len b = (if byte_at b 0 \<noteq> Some (CHR ''&'') then None
          else entity_tail b start (scan_fwd (\<lambda>c. is_digit c \<or> (hex \<and> is_hexdigit c)) b start (start + 8)))"
        by (simp only: entity_len_def Let_def hex_def start_def True if_True simp_thms)
      then show ?thesis using assms by (simp split: if_splits)
    qed
    moreover have "b ! 0 = CHR ''&''" using assms by (auto simp: entity_len_def split: if_splits)
    ultimately show ?thesis
      by (intro that [of "\<lambda>c. is_digit c \<or> (hex \<and> is_hexdigit c)" start "start + 8"])
         (auto simp: entity_tail_def is_alnum_def is_hexdigit_def start_def split: if_splits)
  next
    case False
    then show ?thesis
      using assms by (intro that [of is_alnum 1 33]) (auto simp: entity_len_def entity_tail_def split: if_splits)
  qed
  have "start < scan_fwd P b start e" using i(2) scan_fwd_ge [of start P b e] by simp
  moreover have "scan_fwd P b start e \<le> e" using i(4) by (rule scan_fwd_le)
  moreover have "entity_byte (b ! k)" if "1 \<le> k" "k < scan_fwd P b start e" for k
    using that before P scan_fwd_all [of start k P b e] by (cases "k < start") (auto simp: entity_byte_def)
  ultimately show ?thesis using i semi amp by (auto simp: MAX_ENTITY_LEN_def)
qed

text \<open>
  An entity is one unit that displays exactly its decoding; a reference comrak does not decode
  is compared as ordinary text. The lengths of the reference and of its display.
\<close>

definition entity_step :: "(bytes \<Rightarrow> bytes) \<Rightarrow> bytes \<Rightarrow> bytes \<Rightarrow> nat \<Rightarrow> nat \<Rightarrow> (nat \<times> nat) option" where
  "entity_step dec sl lit i j =
     (case entity_len (drop i sl) of
        None \<Rightarrow> None
      | Some n \<Rightarrow>
          (let shown = dec (seg sl i (i + n))
           in if shown \<noteq> seg sl i (i + n) \<and> starts_with (drop j lit) shown
              then Some (n, length shown) else None))"

lemma entity_step_Some:
  assumes "entity_step dec sl lit i j = Some (n, d)"
  shows "entity_len (drop i sl) = Some n \<and> i + n \<le> length sl \<and> d = length (dec (seg sl i (i + n))) \<and>
         take d (drop j lit) = dec (seg sl i (i + n)) \<and> 0 < n"
proof -
  have e: "entity_len (drop i sl) = Some n" and
    r: "d = length (dec (seg sl i (i + n)))" "take d (drop j lit) = dec (seg sl i (i + n))"
    using assms by (auto simp: entity_step_def starts_with_def Let_def split: option.splits if_splits)
  then show ?thesis using entity_len_shape [OF e] by auto
qed

lemma split_measures:
  shows "entity_step dec sl lit i j = Some (n, d) \<Longrightarrow>
           length sl - (i + n) + (length lit - (j + d)) < length sl - i + (length lit - j)"
    and "Some c = next_char (drop i sl) \<Longrightarrow>
           length sl - (i + length c) + (length lit - (j + k)) < length sl - i + (length lit - j)"
    and "find_resync sl lit pipes i j = Some (l, jj) \<Longrightarrow>
           length sl - (i + l) + (length lit - jj) < length sl - i + (length lit - j)"
proof -
  assume "entity_step dec sl lit i j = Some (n, d)"
  from entity_step_Some [OF this] show "length sl - (i + n) + (length lit - (j + d)) < length sl - i + (length lit - j)"
    by auto
next
  assume "Some c = next_char (drop i sl)"
  then have "0 < length c" "length c \<le> length sl - i" using next_char_bounds [of "drop i sl" c] by auto
  then show "length sl - (i + length c) + (length lit - (j + k)) < length sl - i + (length lit - j)" by arith
next
  assume "find_resync sl lit pipes i j = Some (l, jj)"
  from find_resync_bounds [OF this] show "length sl - (i + l) + (length lit - jj) < length sl - i + (length lit - j)"
    by arith
qed

text \<open>The walk in lockstep over the source and the literal.\<close>

function split_loop ::
    "(bytes \<Rightarrow> bytes) \<Rightarrow> bytes \<Rightarrow> bytes \<Rightarrow> bool \<Rightarrow> nat \<Rightarrow> nat \<Rightarrow> nat option \<Rightarrow> piece list \<Rightarrow> (piece list) option" where
  "split_loop dec sl lit pipes i j exact pieces =
     (case entity_step dec sl lit i j of
        Some (n, d) \<Rightarrow>
          split_loop dec sl lit pipes (i + n) (j + d) None
            (flush_exact exact i pieces @ [\<lparr>pc_start = i, pc_end = i + n, pc_display = Some (j, j + d)\<rparr>])
      | None \<Rightarrow>
          (case next_char (drop i sl) of
             Some a \<Rightarrow>
               if next_char (drop j lit) = Some a then
                 split_loop dec sl lit pipes (i + length a) (j + length a)
                   (case exact of None \<Rightarrow> Some i | Some es \<Rightarrow> Some es) pieces
               else
                 (case find_resync sl lit pipes i j of
                    None \<Rightarrow> None
                  | Some (l, jj) \<Rightarrow>
                      split_loop dec sl lit pipes (i + l) jj None
                        (flush_exact exact i pieces @ [\<lparr>pc_start = i, pc_end = i + l, pc_display = Some (j, jj)\<rparr>]))
           | None \<Rightarrow>
               if next_char (drop j lit) = None then Some (flush_exact exact i pieces)
               else if 0 < i then None
               else
                 (case find_resync sl lit pipes i j of
                    None \<Rightarrow> None
                  | Some (l, jj) \<Rightarrow>
                      split_loop dec sl lit pipes (i + l) jj None
                        (flush_exact exact i pieces @ [\<lparr>pc_start = i, pc_end = i + l, pc_display = Some (j, jj)\<rparr>]))))"
  by pat_completeness auto
termination
  by (relation "measure (\<lambda>(dec, sl, lit, pipes, i, j, exact, pieces). (length sl - i) + (length lit - j))")
     (auto simp: split_measures split_measures(3) [where i = 0, simplified])

declare split_loop.simps [simp del]

text \<open>Validation: consecutive pieces, and what they display.\<close>

fun rebuild :: "bytes \<Rightarrow> bytes \<Rightarrow> nat \<Rightarrow> piece list \<Rightarrow> (nat \<times> bytes) option" where
  "rebuild sl lit cursor [] = Some (cursor, [])"
| "rebuild sl lit cursor (p # ps) =
     (if pc_start p \<noteq> cursor \<or> pc_end p < pc_start p then None
      else
        (case rebuild sl lit (pc_end p) ps of
           None \<Rightarrow> None
         | Some (c, text) \<Rightarrow>
             Some (c, (case pc_display p of None \<Rightarrow> seg sl (pc_start p) (pc_end p) | Some (a, b) \<Rightarrow> seg lit a b) @ text)))"

definition split_pieces :: "(bytes \<Rightarrow> bytes) \<Rightarrow> bytes \<Rightarrow> bytes \<Rightarrow> bool \<Rightarrow> (piece list) option" where
  "split_pieces dec sl lit pipes =
     (case split_loop dec sl lit pipes 0 0 None [] of
        None \<Rightarrow> None
      | Some pieces \<Rightarrow> if rebuild sl lit 0 pieces = Some (length sl, lit) then Some pieces else None)"

text \<open>Why a replacement piece shows what it shows.\<close>

definition piece_explained :: "(bytes \<Rightarrow> bytes) \<Rightarrow> bytes \<Rightarrow> bytes \<Rightarrow> bool \<Rightarrow> piece \<Rightarrow> bool" where
  "piece_explained dec sl lit pipes p =
     (case pc_display p of
        None \<Rightarrow> True
      | Some (a, b) \<Rightarrow>
          (let source = seg sl (pc_start p) (pc_end p); shown = seg lit a b
           in (source = [] \<and> pc_start p = 0 \<and> (\<forall>c \<in> set shown. c = CHR '' '')) \<or>
              (entity_len source = Some (length source) \<and> dec source = shown) \<or>
              (pipes \<and> source = [BACKSLASH] \<and> shown = [] \<and> starts_with (drop (pc_end p) sl) ''|'') \<or>
              (source \<noteq> [] \<and> (\<forall>c \<in> set source. c = CR) \<and> shown = [])))"

definition explains :: "(bytes \<Rightarrow> bytes) \<Rightarrow> bytes \<Rightarrow> bytes \<Rightarrow> bool \<Rightarrow> bool" where
  "explains dec sl lit pipes =
     (if sl = lit \<or> unescapes_to sl lit then True
      else if \<not> could_explain dec sl lit then False
      else
        (case split_pieces dec sl lit pipes of
           None \<Rightarrow> False
         | Some pieces \<Rightarrow> list_all (piece_explained dec sl lit pipes) pieces))"

subsection \<open>The pieces tile the slice and rebuild the literal\<close>

definition shown_by :: "bytes \<Rightarrow> bytes \<Rightarrow> piece \<Rightarrow> bytes" where
  "shown_by sl lit p = (case pc_display p of None \<Rightarrow> seg sl (pc_start p) (pc_end p) | Some (a, b) \<Rightarrow> seg lit a b)"

lemma rebuild_snoc:
  "rebuild sl lit c ps = Some (e, t) \<Longrightarrow> pc_start p = e \<Longrightarrow> e \<le> pc_end p \<Longrightarrow>
   rebuild sl lit c (ps @ [p]) = Some (pc_end p, t @ shown_by sl lit p)"
  by (induction ps arbitrary: c t) (auto simp: shown_by_def split: if_splits option.splits)

text \<open>What the walk has rebuilt when it stands at \<open>i\<close> and \<open>j\<close>, an exact piece possibly still open.\<close>

definition walk_inv :: "bytes \<Rightarrow> bytes \<Rightarrow> nat \<Rightarrow> nat \<Rightarrow> nat option \<Rightarrow> piece list \<Rightarrow> bool" where
  "walk_inv sl lit i j exact pieces =
     (i \<le> length sl \<and> j \<le> length lit \<and>
      (case exact of
         None \<Rightarrow> rebuild sl lit 0 pieces = Some (i, take j lit)
       | Some es \<Rightarrow> es \<le> i \<and> (\<exists>t. rebuild sl lit 0 pieces = Some (es, t) \<and> t @ seg sl es i = take j lit)))"

lemma walk_inv_flush:
  assumes "walk_inv sl lit i j exact pieces"
  shows "rebuild sl lit 0 (flush_exact exact i pieces) = Some (i, take j lit)"
proof (cases exact)
  case None
  then show ?thesis using assms by (simp add: walk_inv_def flush_exact_def)
next
  case (Some es)
  then obtain t where "rebuild sl lit 0 pieces = Some (es, t)" "t @ seg sl es i = take j lit" "es \<le> i"
    using assms by (auto simp: walk_inv_def)
  then show ?thesis
    using Some rebuild_snoc [of sl lit 0 pieces es t "\<lparr>pc_start = es, pc_end = i, pc_display = None\<rparr>"]
    by (simp add: flush_exact_def shown_by_def)
qed

lemma walk_inv_replace:
  assumes "walk_inv sl lit i j exact pieces" "i \<le> i'" "i' \<le> length sl" "j \<le> j'" "j' \<le> length lit"
  shows "walk_inv sl lit i' j' None (flush_exact exact i pieces @ [\<lparr>pc_start = i, pc_end = i', pc_display = Some (j, j')\<rparr>])"
proof -
  have "rebuild sl lit 0 (flush_exact exact i pieces @ [\<lparr>pc_start = i, pc_end = i', pc_display = Some (j, j')\<rparr>])
      = Some (i', take j lit @ seg lit j j')"
    using rebuild_snoc [OF walk_inv_flush [OF assms(1)], of "\<lparr>pc_start = i, pc_end = i', pc_display = Some (j, j')\<rparr>"] assms(2)
    by (simp add: shown_by_def)
  moreover have "take j lit @ seg lit j j' = take j' lit"
    using assms(4) seg_append [of 0 j j' lit] by (simp add: seg_def)
  ultimately show ?thesis using assms by (simp add: walk_inv_def)
qed

lemma walk_inv_exact:
  assumes "walk_inv sl lit i j exact pieces" "next_char (drop i sl) = Some a" "next_char (drop j lit) = Some a"
  shows "walk_inv sl lit (i + length a) (j + length a) (case exact of None \<Rightarrow> Some i | Some es \<Rightarrow> Some es) pieces"
proof -
  have "0 < length a" "length a \<le> length sl - i" "length a \<le> length lit - j"
    using next_char_bounds [OF assms(2)] next_char_bounds [OF assms(3)] by simp_all
  then have len: "i + length a \<le> length sl" "j + length a \<le> length lit" by linarith+
  have a: "seg sl i (i + length a) = a" "take (length a) (drop j lit) = a"
    using next_char_bounds [OF assms(2)] next_char_bounds [OF assms(3)] by (auto simp: seg_def)
  have t: "take (j + length a) lit = take j lit @ a" using a(2) by (simp add: take_add)
  show ?thesis
  proof (cases exact)
    case None
    then show ?thesis using assms(1) len a t by (auto simp: walk_inv_def)
  next
    case (Some es)
    then obtain u where u: "rebuild sl lit 0 pieces = Some (es, u)" "u @ seg sl es i = take j lit" "es \<le> i"
      using assms(1) by (auto simp: walk_inv_def)
    have "u @ seg sl es (i + length a) = take (j + length a) lit"
      using u(2,3) a(1) t seg_append [of es i "i + length a" sl] by (metis append.assoc le_add1)
    then show ?thesis using Some u len by (auto simp: walk_inv_def)
  qed
qed

lemma split_loop_rebuilds:
  assumes "split_loop dec sl lit pipes i j exact pieces = Some res" "walk_inv sl lit i j exact pieces"
  shows "rebuild sl lit 0 res = Some (length sl, lit)"
  using assms
proof (induction dec sl lit pipes i j exact pieces rule: split_loop.induct)
  case (1 dec sl lit pipes i j exact pieces)
  note unf = split_loop.simps [of dec sl lit pipes i j exact pieces]
  have le: "i \<le> length sl" "j \<le> length lit" using "1.prems"(2) by (auto simp: walk_inv_def)
  show ?case
  proof (cases "entity_step dec sl lit i j")
    case (Some nd)
    obtain n d where nd: "nd = (n, d)" by force
    note e = entity_step_Some [OF Some [unfolded nd]]
    have "length (take d (drop j lit)) = d" using e by (metis (no_types))
    then have "j + d \<le> length lit" using le by (simp add: min_def split: if_splits)
    then show ?thesis
      using "1.IH"(4) [OF Some [unfolded nd] refl] "1.prems" Some nd e walk_inv_replace [of sl lit i j exact pieces "i + n" "j + d"]
      by (simp add: unf)
  next
    case None
    have resync: "rebuild sl lit 0 res = Some (length sl, lit)"
      if "find_resync sl lit pipes i j = Some (l, jj)"
        "walk_inv sl lit (i + l) jj None (flush_exact exact i pieces @ [\<lparr>pc_start = i, pc_end = i + l, pc_display = Some (j, jj)\<rparr>]) \<Longrightarrow>
          rebuild sl lit 0 res = Some (length sl, lit)" for l jj
      using that(2) walk_inv_replace [OF "1.prems"(2), of "i + l" jj] find_resync_bounds [OF that(1)] le by auto
    show ?thesis
    proof (cases "next_char (drop i sl)")
      case sc: None
      then have i: "i = length sl" using le by (cases "drop i sl") (auto simp: next_char_def)
      show ?thesis
      proof (cases "next_char (drop j lit)")
        case lc: None
        then have "j = length lit" using le by (cases "drop j lit") (auto simp: next_char_def)
        moreover have "res = flush_exact exact i pieces" using "1.prems"(1) None sc lc by (simp add: unf)
        ultimately show ?thesis using i walk_inv_flush [OF "1.prems"(2)] by simp
      next
        case (Some b)
        then obtain l jj where f: "find_resync sl lit pipes i j = Some (l, jj)" "\<not> 0 < i"
          using "1.prems"(1) None sc by (auto simp: unf split: option.splits if_splits)
        have "split_loop dec sl lit pipes (i + l) jj None
            (flush_exact exact i pieces @ [\<lparr>pc_start = i, pc_end = i + l, pc_display = Some (j, jj)\<rparr>]) = Some res"
          using "1.prems"(1) None sc Some f by (simp add: unf)
        then show ?thesis using "1.IH"(1) [OF None sc _ f(2) f(1) refl] Some resync [OF f(1)] by blast
      qed
    next
      case sc: (Some a)
      show ?thesis
      proof (cases "next_char (drop j lit) = Some a")
        case True
        then show ?thesis
          using "1.IH"(2) [OF None sc True] "1.prems" None sc walk_inv_exact [OF "1.prems"(2) sc True] by (simp add: unf)
      next
        case False
        then obtain l jj where f: "find_resync sl lit pipes i j = Some (l, jj)"
          using "1.prems"(1) None sc by (auto simp: unf split: option.splits if_splits)
        have "split_loop dec sl lit pipes (i + l) jj None
            (flush_exact exact i pieces @ [\<lparr>pc_start = i, pc_end = i + l, pc_display = Some (j, jj)\<rparr>]) = Some res"
          using "1.prems"(1) None sc False f by (simp add: unf)
        then show ?thesis using "1.IH"(3) [OF None sc False f refl] resync [OF f] by blast
      qed
    qed
  qed
qed

text \<open>
  C8: Splitting a text node is right by construction: whenever the lockstep walk returns, its
  pieces follow each other from the start of the slice to its end and their displays
  concatenate to the literal, so the final validation rejects nothing the walk found.
\<close>

theorem split_pieces_tile_and_rebuild:
  "split_pieces dec sl lit pipes = split_loop dec sl lit pipes 0 0 None [] \<and>
   (\<forall>pieces. split_pieces dec sl lit pipes = Some pieces \<longrightarrow> rebuild sl lit 0 pieces = Some (length sl, lit))"
proof -
  have "walk_inv sl lit 0 0 None []" by (simp add: walk_inv_def)
  then have "rebuild sl lit 0 res = Some (length sl, lit)" if "split_loop dec sl lit pipes 0 0 None [] = Some res" for res
    using split_loop_rebuilds that by blast
  then show ?thesis by (auto simp: split_pieces_def split: option.splits)
qed

text \<open>A decoding of one reference, for concrete runs.\<close>

definition decode_amp :: "bytes \<Rightarrow> bytes" where
  "decode_amp r = (if r = ''&amp;'' then ''&'' else r)"

theorem split_pieces_tile_and_rebuild_witness:
  "\<exists>pieces. split_pieces decode_amp ''a&amp;b'' ''a&b'' False = Some pieces \<and>
     rebuild ''a&amp;b'' ''a&b'' 0 pieces = Some (length ''a&amp;b'', ''a&b'')"
proof -
  have "split_pieces decode_amp ''a&amp;b'' ''a&b'' False =
      Some [\<lparr>pc_start = 0, pc_end = 1, pc_display = None\<rparr>, \<lparr>pc_start = 1, pc_end = 6, pc_display = Some (1, 2)\<rparr>,
            \<lparr>pc_start = 6, pc_end = 7, pc_display = None\<rparr>]"
    by code_simp
  then show ?thesis using split_pieces_tile_and_rebuild [of decode_amp "''a&amp;b''" "''a&b''" False] by blast
qed

end
