(* ===== verification/Flark_Limits.thy ===== *)
theory Flark_Limits
  imports Flark_Lines Flark_Pieces
begin

text \<open>
  The two bounds \<^verbatim>\<open>native/flark_parse/src/model.rs\<close> checks before comrak is run: how many email
  addresses one line could link (\<open>email_autolink_overflow\<close>) and how many cells the rows of the
  document's tables could gain (\<open>filled_table_cells\<close>). The lemmas show that the first refuses at
  the first line of the line table over its cap, and never a line of the editor's width; that
  the second is the sum, over the lines of each run, of what each lacks of the widest possible
  delimiter row above it; and that \<open>row_cells\<close> counts the unescaped pipes and a last open cell.
\<close>

definition MAX_EMAIL_AUTOLINKS_PER_LINE :: nat where
  "MAX_EMAIL_AUTOLINKS_PER_LINE = 1024"

definition MAX_FILLED_TABLE_CELLS :: nat where
  "MAX_FILLED_TABLE_CELLS = 16384"

text \<open>\<^verbatim>\<open>usize::MAX\<close>, where a saturating sum stops.\<close>

definition USIZE_MAX :: nat where
  "USIZE_MAX = 2 ^ 64 - 1"

subsection \<open>Email addresses\<close>

text \<open>\<^verbatim>\<open>u32::from_str_radix\<close> and \<^verbatim>\<open>parse\<close> on digits of their radix: at most eight here, so none overflows.\<close>

definition digit_value :: "byte \<Rightarrow> nat" where
  "digit_value c = (if bval c \<le> 57 then bval c - 48 else if bval c \<le> 70 then bval c - 55 else bval c - 87)"

definition from_str_radix :: "nat \<Rightarrow> bytes \<Rightarrow> nat" where
  "from_str_radix radix ds = foldl (\<lambda>n c. n * radix + digit_value c) 0 ds"

text \<open>The code point the body of a reference (between \<open>&\<close> and \<open>;\<close>) names, as far as the bound reads it.\<close>

definition reference_value :: "bytes \<Rightarrow> nat option" where
  "reference_value body =
     (case body of
        c # n \<Rightarrow>
          if c = CHR ''#'' then
            (case n of
               x # h \<Rightarrow> if x = CHR ''x'' \<or> x = CHR ''X'' then Some (from_str_radix 16 h) else Some (from_str_radix 10 n)
             | [] \<Rightarrow> None)
          else if body = ''commat'' then Some 64 else None
      | [] \<Rightarrow> None)"

text \<open>What one byte adds to the at-signs and to the ASCII bytes counted so far.\<close>

definition autolink_step :: "bytes \<Rightarrow> nat \<Rightarrow> nat \<times> nat \<Rightarrow> nat \<times> nat" where
  "autolink_step line i counts =
     (case counts of (ats, ascii) \<Rightarrow>
        if line ! i = CHR ''@'' then (ats + 1, ascii + 1)
        else if line ! i = CHR ''&'' then
          (case entity_len (drop i line) of
             None \<Rightarrow> (ats, ascii + 1)
           | Some l \<Rightarrow>
               if reference_value (seg line (i + 1) (i + l - 1)) = Some 64 then (ats + 1, ascii + 1)
               else (ats, ascii + 1))
        else if bval (line ! i) < 128 then (ats, ascii + 1)
        else (ats, ascii))"

definition email_autolinks_bound :: "bytes \<Rightarrow> nat" where
  "email_autolinks_bound line =
     (case fold (autolink_step line) [0..<length line] (0, 0) of (ats, ascii) \<Rightarrow> min ats (ascii div 4))"

definition is_line_break :: "byte \<Rightarrow> bool" where
  "is_line_break c = (c = LF \<or> c = CR)"

definition break_width :: "bytes \<Rightarrow> nat \<Rightarrow> nat" where
  "break_width b i = (if b ! i = CR \<and> byte_at b (i + 1) = Some LF then 2 else 1)"

function email_overflow_loop :: "bytes \<Rightarrow> nat \<Rightarrow> nat \<Rightarrow> nat \<Rightarrow> nat option" where
  "email_overflow_loop b line start i =
     (if i < length b \<and> \<not> is_line_break (b ! i) then email_overflow_loop b line start (i + 1)
      else if MAX_EMAIL_AUTOLINKS_PER_LINE < email_autolinks_bound (seg b start i) then Some line
      else if length b \<le> i then None
      else email_overflow_loop b (line + 1) (i + break_width b i) (i + break_width b i))"
  by pat_completeness auto
termination
  by (relation "measure (\<lambda>(b, line, start, i). length b - i)") (auto simp: break_width_def)

declare email_overflow_loop.simps [simp del]

definition email_autolink_overflow :: "bytes \<Rightarrow> nat option" where
  "email_autolink_overflow src = email_overflow_loop src 0 0 0"

subsection \<open>Table cells\<close>

definition table_space :: "byte \<Rightarrow> bool" where
  "table_space c = (c = CHR '' '' \<or> c = TAB \<or> c = CHR 0x0B \<or> c = CHR 0x0C)"

text \<open>A pipe ends a cell unless a backslash precedes it.\<close>

definition ends_cell :: "bytes \<Rightarrow> nat \<Rightarrow> bool" where
  "ends_cell line i = (line ! i = CHR ''|'' \<and> (i = 0 \<or> line ! (i - 1) \<noteq> BACKSLASH))"

function cell_end :: "bytes \<Rightarrow> nat \<Rightarrow> nat" where
  "cell_end line i = (if i < length line \<and> \<not> ends_cell line i then cell_end line (i + 1) else i)"
  by pat_completeness auto
termination
  by (relation "measure (\<lambda>(line, i). length line - i)") auto

declare cell_end.simps [simp del]

lemma cell_end_ge: "i \<le> cell_end line i"
proof (induction line i rule: cell_end.induct)
  case (1 line i)
  then show ?case by (subst cell_end.simps) force
qed

function row_cells_loop :: "bytes \<Rightarrow> nat \<Rightarrow> nat \<Rightarrow> nat" where
  "row_cells_loop line i cells =
     (if i < length line then
        (let e = cell_end line i in
         if length line \<le> e then (if i < e then cells + 1 else cells)
         else row_cells_loop line (scan_fwd table_space line (e + 1) (length line)) (cells + 1))
      else cells)"
  by pat_completeness auto
termination
proof (relation "measure (\<lambda>(line, i, cells). length line - i)")
  fix line i e cells
  assume "i < length line" "e = cell_end line i"
  then have "i < scan_fwd table_space line (e + 1) (length line)"
    using scan_fwd_ge [of "e + 1" table_space line "length line"] cell_end_ge [of i line] by simp
  then show "((line, scan_fwd table_space line (e + 1) (length line), cells + 1), line, i, cells)
      \<in> measure (\<lambda>(line, i, cells). length line - i)"
    using \<open>i < length line\<close> by simp
qed simp

declare row_cells_loop.simps [simp del]

definition row_cells :: "bytes \<Rightarrow> nat" where
  "row_cells line =
     row_cells_loop line (if byte_at line 0 = Some (CHR ''|'') then scan_fwd table_space line 1 (length line) else 0) 0"

definition leads_row :: "byte \<Rightarrow> bool" where
  "leads_row c = (c = CHR '' '' \<or> c = TAB \<or> c = CHR ''>'')"

text \<open>Only pipes, colons, dashes and space, a dash among them.\<close>

definition possible_delimiter :: "bytes \<Rightarrow> bool" where
  "possible_delimiter line =
     (CHR ''-'' \<in> set line \<and>
      list_all (\<lambda>c. c = CHR ''|'' \<or> c = CHR '':'' \<or> c = CHR ''-'' \<or> table_space c) line)"

text \<open>One line of the pass: the cells filled, the columns of the run and the lines of the run.\<close>

definition filled_step :: "bytes \<Rightarrow> nat \<times> nat \<times> nat \<Rightarrow> nat \<times> nat \<times> nat" where
  "filled_step line s =
     (case s of (filled, columns, run) \<Rightarrow>
        if line = [] then (filled, 0, 0)
        else
          (let cells = row_cells line
           in (min (filled + (columns - cells)) USIZE_MAX,
               (if 0 < run \<and> possible_delimiter line then max columns cells else columns),
               run + 1)))"

function filled_loop :: "bytes \<Rightarrow> nat \<times> nat \<times> nat \<Rightarrow> nat \<Rightarrow> nat" where
  "filled_loop b s start =
     (let e = scan_fwd (\<lambda>c. \<not> is_line_break c) b start (length b);
          s1 = filled_step (seg b (scan_fwd leads_row b start e) e) s
      in if length b \<le> e then fst s1 else filled_loop b s1 (e + break_width b e))"
  by pat_completeness auto
termination
proof (relation "measure (\<lambda>(b, s, start). length b - start)")
  fix b s start e s1
  assume "e = scan_fwd (\<lambda>c. \<not> is_line_break c) b start (length b)" "\<not> length b \<le> e"
  then show "((b, s1, e + break_width b e), b, s, start) \<in> measure (\<lambda>(b, s, start). length b - start)"
    using scan_fwd_ge [of start "\<lambda>c. \<not> is_line_break c" b "length b"] by (auto simp: break_width_def)
qed simp

declare filled_loop.simps [simp del]

definition BOM :: bytes where
  "BOM = [CHR 0xEF, CHR 0xBB, CHR 0xBF]"

definition filled_table_cells :: "bytes \<Rightarrow> nat" where
  "filled_table_cells src = filled_loop src (0, 0, 0) (if starts_with src BOM then 3 else 0)"

text \<open>The refusal \<^verbatim>\<open>run\<close> decides on before it parses.\<close>

datatype refusal = AutolinkDepth nat | TableCells nat nat

definition refusal_of :: "bytes \<Rightarrow> refusal option" where
  "refusal_of src =
     (case email_autolink_overflow src of
        Some line \<Rightarrow> Some (AutolinkDepth line)
      | None \<Rightarrow>
          (let filled = filled_table_cells src; cap = max MAX_FILLED_TABLE_CELLS (length src div 2)
           in if cap < filled then Some (TableCells filled cap) else None))"

subsection \<open>The first line over the cap\<close>

text \<open>A line break ends the run of other bytes: the spans from \<open>i\<close> on.\<close>

lemma line_spans_scan:
  assumes "i \<le> length b" "e = scan_fwd (\<lambda>c. \<not> is_line_break c) b i (length b)"
  shows "line_spans s i (drop i b) =
    (s, e) # (if e < length b then line_spans (e + break_width b e) (e + break_width b e) (drop (e + break_width b e) b) else [])"
  using assms
proof (induction "length b - i" arbitrary: i)
  case 0
  then show ?case by (simp add: scan_fwd_stop)
next
  case (Suc n)
  then have i: "i < length b" by simp
  have d: "drop i b = b ! i # drop (Suc i) b" using i by (simp add: Cons_nth_drop_Suc)
  show ?case
  proof (cases "is_line_break (b ! i)")
    case False
    then have "e = scan_fwd (\<lambda>c. \<not> is_line_break c) b (Suc i) (length b)" using Suc.prems i by (simp add: scan_fwd.simps [of _ b i])
    then show ?thesis using Suc.hyps(1) [of "Suc i"] Suc.hyps(2) i d False by (simp add: is_line_break_def)
  next
    case True
    then have e: "e = i" using Suc.prems by (simp add: scan_fwd.simps [of _ b i])
    have "drop (Suc i) b \<noteq> [] \<and> hd (drop (Suc i) b) = LF \<longleftrightarrow> byte_at b (i + 1) = Some LF"
      by (auto simp: hd_drop_conv_nth byte_at_def)
    moreover have "tl (drop (Suc i) b) = drop (i + 2) b" by (simp add: drop_Suc [symmetric] tl_drop)
    ultimately show ?thesis using d True e i by (auto simp: is_line_break_def break_width_def)
  qed
qed

fun first_over :: "bytes \<Rightarrow> nat \<Rightarrow> (nat \<times> nat) list \<Rightarrow> nat option" where
  "first_over b line [] = None"
| "first_over b line ((s, e) # spans) =
     (if MAX_EMAIL_AUTOLINKS_PER_LINE < email_autolinks_bound (seg b s e) then Some line else first_over b (line + 1) spans)"

lemma email_overflow_loop_eq:
  "i \<le> length b \<Longrightarrow> email_overflow_loop b line start i = first_over b line (line_spans start i (drop i b))"
proof (induction b line start i rule: email_overflow_loop.induct)
  case (1 b line start i)
  note unf = email_overflow_loop.simps [of b line start i]
  show ?case
  proof (cases "i < length b \<and> \<not> is_line_break (b ! i)")
    case True
    then have "line_spans start i (drop i b) = line_spans start (i + 1) (drop (i + 1) b)"
      by (simp add: Cons_nth_drop_Suc [symmetric] is_line_break_def)
    then show ?thesis using "1.IH"(1) True unf by simp
  next
    case False
    then have e: "i = scan_fwd (\<lambda>c. \<not> is_line_break c) b i (length b)" by (subst scan_fwd.simps) auto
    have "i < length b \<Longrightarrow> i + break_width b i \<le> length b" by (auto simp: break_width_def)
    then show ?thesis
      using "1.IH"(2) [OF False] "1.prems" False unf line_spans_scan [OF "1.prems" e, of start] by auto
  qed
qed

lemma first_over_Some:
  "first_over b n spans = Some l \<longleftrightarrow>
   n \<le> l \<and> l - n < length spans \<and> MAX_EMAIL_AUTOLINKS_PER_LINE < email_autolinks_bound (seg b (fst (spans ! (l - n))) (snd (spans ! (l - n)))) \<and>
   (\<forall>k < l - n. \<not> MAX_EMAIL_AUTOLINKS_PER_LINE < email_autolinks_bound (seg b (fst (spans ! k)) (snd (spans ! k))))"
  (is "?L n spans \<longleftrightarrow> ?R n spans")
proof (induction spans arbitrary: n)
  case (Cons se spans)
  obtain s e where se: "se = (s, e)" by force
  show ?case
  proof (cases "MAX_EMAIL_AUTOLINKS_PER_LINE < email_autolinks_bound (seg b s e)")
    case True
    have "n \<le> l \<Longrightarrow> l - n \<noteq> 0 \<Longrightarrow> \<not> ?R n (se # spans)" using True se by (metis fst_conv neq0_conv nth_Cons_0 snd_conv)
    then show ?thesis using True se by (cases "l = n") auto
  next
    case False
    have "?R n (se # spans) \<longleftrightarrow> ?R (Suc n) spans"
    proof (cases "l - n")
      case (Suc m)
      then have "l - Suc n = m" "n \<le> l" "Suc n \<le> l" by simp_all
      then show ?thesis using Suc False se by (simp add: All_less_Suc2)
    qed (use False se in auto)
    then show ?thesis using Cons.IH [of "Suc n"] False se by simp
  qed
qed simp

text \<open>The bound counts at most a quarter of the ASCII bytes, each of which is a code unit.\<close>

lemma autolink_ascii:
  "n \<le> length line \<Longrightarrow> snd (fold (autolink_step line) [0..<n] (0, 0)) = length (filter (\<lambda>c. bval c < 128) (take n line))"
proof (induction n)
  case (Suc n)
  have "snd (autolink_step line n s) = snd s + (if bval (line ! n) < 128 then 1 else 0)" for s
    by (auto simp: autolink_step_def split: prod.splits option.splits)
  then show ?case using Suc by (simp add: take_Suc_conv_app_nth)
qed simp

lemma ascii_le_utf16: "utf8_valid bs \<Longrightarrow> length (filter (\<lambda>c. bval c < 128) bs) \<le> utf16_len bs"
proof (induction rule: utf8_valid_induct)
  case (Scalar c rest)
  then obtain b cs where c: "c = b # cs" by (cases c) auto
  have "filter (\<lambda>c. bval c < 128) cs = []"
    using scalar_ok_cont [of b cs] Scalar.hyps c by (auto simp: filter_empty_conv is_cont_def)
  then have "length (filter (\<lambda>c. bval c < 128) c) \<le> 1" using c by simp
  moreover have "0 < len_utf16 c" using len_utf16_le Scalar.hyps by blast
  ultimately show ?case using Scalar by (simp add: utf16_len_scalar)
qed simp

lemma email_autolinks_bound_le: "utf8_valid line \<Longrightarrow> email_autolinks_bound line \<le> utf16_len line div 4"
  using autolink_ascii [of "length line" line] ascii_le_utf16 [of line]
  by (auto simp: email_autolinks_bound_def split: prod.splits intro: min.coboundedI2 div_le_mono)

text \<open>
  C38: The email check refuses at exactly the first line of the line table that could link more
  addresses than the cap, and a document whose lines are at most 4,096 UTF-16 code units wide,
  the editor's widest, is never refused for its addresses.
\<close>

theorem email_autolink_overflow_first:
  assumes "utf8_valid src"
  shows "(email_autolink_overflow src = Some l \<longleftrightarrow>
          l < line_count (line_index_new src) \<and>
          MAX_EMAIL_AUTOLINKS_PER_LINE <
            email_autolinks_bound (seg src (line_start (line_index_new src) l) (line_end (line_index_new src) l)) \<and>
          (\<forall>k < l. email_autolinks_bound (seg src (line_start (line_index_new src) k) (line_end (line_index_new src) k))
                     \<le> MAX_EMAIL_AUTOLINKS_PER_LINE)) \<and>
         ((\<forall>k < line_count (line_index_new src).
              utf16_len (seg src (line_start (line_index_new src) k) (line_end (line_index_new src) k)) \<le> 4096) \<longrightarrow>
          email_autolink_overflow src = None)"
proof -
  let ?li = "line_index_new src" and ?sp = "line_spans 0 0 src"
  note acc = line_index_accessors [OF assms refl refl]
  have eq: "email_autolink_overflow src = first_over src 0 ?sp"
    using email_overflow_loop_eq [of 0 src 0 0] by (simp add: email_autolink_overflow_def)
  have some: "email_autolink_overflow src = Some l \<longleftrightarrow>
      l < line_count ?li \<and>
      MAX_EMAIL_AUTOLINKS_PER_LINE < email_autolinks_bound (seg src (line_start ?li l) (line_end ?li l)) \<and>
      (\<forall>k < l. email_autolinks_bound (seg src (line_start ?li k) (line_end ?li k)) \<le> MAX_EMAIL_AUTOLINKS_PER_LINE)" for l
    unfolding eq first_over_Some using acc by (auto simp: not_less)
  moreover have "email_autolink_overflow src = None"
    if w: "\<forall>k < line_count ?li. utf16_len (seg src (line_start ?li k) (line_end ?li k)) \<le> 4096"
  proof (rule ccontr)
    assume "email_autolink_overflow src \<noteq> None"
    then obtain m where "email_autolink_overflow src = Some m" by blast
    then have m: "m < line_count ?li" "MAX_EMAIL_AUTOLINKS_PER_LINE < email_autolinks_bound (seg src (line_start ?li m) (line_end ?li m))"
      using some by auto
    have "utf8_valid (seg src (line_start ?li m) (line_end ?li m))" using line_slice_valid [OF assms m(1)] .
    then have "email_autolinks_bound (seg src (line_start ?li m) (line_end ?li m)) \<le> 4096 div 4"
      using email_autolinks_bound_le w m(1) by (meson div_le_mono le_trans)
    then show False using m(2) by (simp add: MAX_EMAIL_AUTOLINKS_PER_LINE_def)
  qed
  ultimately show ?thesis by blast
qed

theorem email_autolink_overflow_first_witness:
  "email_autolink_overflow [CHR ''a'', CHR ''@'', LF, CHR ''b''] = None"
proof -
  let ?s = "[CHR ''a'', CHR ''@'', LF, CHR ''b'']"
  have valid: "utf8_valid ?s" by code_simp
  have "utf16_len (seg ?s (line_start (line_index_new ?s) k) (line_end (line_index_new ?s) k)) \<le> 4"
    if "k < line_count (line_index_new ?s)" for k
    using utf16_len_le [OF line_slice_valid [OF valid that]] by simp arith
  then have "\<forall>k < line_count (line_index_new ?s).
      utf16_len (seg ?s (line_start (line_index_new ?s) k) (line_end (line_index_new ?s) k)) \<le> 4096"
    by fastforce
  then show ?thesis using email_autolink_overflow_first [OF valid] by blast
qed

subsection \<open>The cells of a row\<close>

definition cell_pipes :: "bytes \<Rightarrow> nat \<Rightarrow> nat list" where
  "cell_pipes line i = filter (ends_cell line) [i..<length line]"

text \<open>Whether a cell is still open at the end of the line, read from \<open>i\<close>.\<close>

definition open_cell :: "bytes \<Rightarrow> nat \<Rightarrow> bool" where
  "open_cell line i =
     (if cell_pipes line i = [] then i < length line
      else list_ex (\<lambda>k. \<not> table_space (line ! k)) [last (cell_pipes line i) + 1..<length line])"

lemma cell_end_spec:
  "i \<le> length line \<Longrightarrow> cell_end line i \<le> length line \<and> (\<forall>k. i \<le> k \<and> k < cell_end line i \<longrightarrow> \<not> ends_cell line k) \<and>
   (cell_end line i < length line \<longrightarrow> ends_cell line (cell_end line i))"
proof (induction line i rule: cell_end.induct)
  case (1 line i)
  show ?case
  proof (cases "i < length line \<and> \<not> ends_cell line i")
    case True
    then have "cell_end line i = cell_end line (i + 1)" by (simp add: cell_end.simps [of line i])
    moreover have "\<not> ends_cell line k" if "i \<le> k" "k < cell_end line (i + 1)" for k
      using that "1.IH" True by (cases "k = i") auto
    ultimately show ?thesis using "1.IH" True by auto
  next
    case False
    then have "cell_end line i = i" by (auto simp: cell_end.simps [of line i])
    then show ?thesis using False "1.prems" by auto
  qed
qed

lemma filter_upt_skip: "i \<le> j \<Longrightarrow> j \<le> n \<Longrightarrow> (\<And>k. i \<le> k \<Longrightarrow> k < j \<Longrightarrow> \<not> P k) \<Longrightarrow> filter P [i..<n] = filter P [j..<n]"
proof -
  assume a: "i \<le> j" "j \<le> n" "\<And>k. i \<le> k \<Longrightarrow> k < j \<Longrightarrow> \<not> P k"
  then have "[i..<n] = [i..<j] @ [j..<n]" by (metis le_add_diff_inverse upt_add_eq_append)
  moreover have "filter P [i..<j] = []" using a(3) by (simp add: filter_empty_conv)
  ultimately show ?thesis by simp
qed

lemma table_space_no_pipe: "table_space (line ! k) \<Longrightarrow> \<not> ends_cell line k"
  by (auto simp: table_space_def ends_cell_def)

lemma spaces_after:
  assumes "p < length line" "i = scan_fwd table_space line (p + 1) (length line)"
  shows "p + 1 \<le> i" "i \<le> length line" "cell_pipes line (p + 1) = cell_pipes line i"
    "i < length line \<longleftrightarrow> list_ex (\<lambda>k. \<not> table_space (line ! k)) [p + 1..<length line]"
proof -
  have sp: "table_space (line ! k)" if "p + 1 \<le> k" "k < i" for k
    using that scan_fwd_all [of "p + 1" k table_space line "length line"] assms(2) by simp
  show i: "p + 1 \<le> i" "i \<le> length line"
    using assms scan_fwd_ge scan_fwd_le [of "p + 1" "length line" table_space line] by auto
  show "cell_pipes line (p + 1) = cell_pipes line i"
    unfolding cell_pipes_def using i sp table_space_no_pipe by (intro filter_upt_skip) auto
  have "i < length line \<Longrightarrow> \<not> table_space (line ! i)"
    using scan_fwd_end [of table_space line "p + 1" "length line"] assms(2) by simp
  then show "i < length line \<longleftrightarrow> list_ex (\<lambda>k. \<not> table_space (line ! k)) [p + 1..<length line]"
    using i sp by (auto simp: list_ex_iff) (meson le_less_trans not_le)
qed

lemma row_cells_loop_eq:
  "i \<le> length line \<Longrightarrow>
   row_cells_loop line i cells = cells + length (cell_pipes line i) + (if open_cell line i then 1 else 0)"
proof (induction line i cells rule: row_cells_loop.induct)
  case (1 line i cells)
  define e where "e = cell_end line i"
  note spec = cell_end_spec [OF "1.prems", folded e_def]
  have ge: "i \<le> e" using cell_end_ge e_def by simp
  have skip: "cell_pipes line i = cell_pipes line e"
    unfolding cell_pipes_def using spec ge by (intro filter_upt_skip) auto
  note unf = row_cells_loop.simps [of line i cells, folded e_def, unfolded Let_def, folded e_def]
  consider (stop) "length line \<le> i" | (last) "i < length line" "length line \<le> e" | (more) "i < length line" "e < length line"
    by linarith
  then show ?case
  proof cases
    case stop
    then show ?thesis using unf by (simp add: cell_pipes_def open_cell_def)
  next
    case last
    then have "cell_pipes line i = []" using skip by (simp add: cell_pipes_def)
    then show ?thesis using unf last by (simp add: open_cell_def)
  next
    case more
    define j where "j = scan_fwd table_space line (e + 1) (length line)"
    note sa = spaces_after [OF more(2) j_def]
    have hd: "cell_pipes line i = e # cell_pipes line j"
      using skip sa(3) spec more(2) by (simp add: cell_pipes_def upt_conv_Cons)
    have "open_cell line i = open_cell line j"
      using hd sa(4) by (simp add: open_cell_def)
    moreover have "row_cells_loop line i cells = row_cells_loop line j (cells + 1)" using more unf by (simp add: j_def)
    moreover have "row_cells_loop line j (cells + 1) = cells + 1 + length (cell_pipes line j) + (if open_cell line j then 1 else 0)"
      using "1.IH" [OF more(1) e_def] more(2) sa(2) unfolding j_def by simp
    ultimately show ?thesis using hd by simp
  qed
qed

text \<open>
  The cells counted for a table row are the pipes that end a cell (no backslash before them,
  a pipe opening the line apart) and one more when anything but space follows the last of them,
  or when a line without pipes is not empty.
\<close>

lemma row_cells_counts_pipes:
  "row_cells line =
     length (cell_pipes line 1) +
     (if byte_at line 0 \<noteq> Some (CHR ''|'') \<and> cell_pipes line 1 = []
      then (if line = [] then 0 else 1)
      else (if list_ex (\<lambda>k. \<not> table_space (line ! k)) [(if cell_pipes line 1 = [] then 0 else last (cell_pipes line 1)) + 1..<length line] then 1 else 0))"
proof (cases "byte_at line 0 = Some (CHR ''|'')")
  case True
  then have l: "0 < length line" by simp
  note sa = spaces_after [OF l refl, simplified]
  show ?thesis
    using True row_cells_loop_eq [OF sa(2), of 0] sa(3,4)
    by (simp add: row_cells_def open_cell_def)
next
  case False
  have "cell_pipes line 0 = cell_pipes line 1"
  proof (cases "line = []")
    case False
    with \<open>byte_at line 0 \<noteq> _\<close> have "\<not> ends_cell line 0" by (simp add: ends_cell_def)
    then show ?thesis using False unfolding cell_pipes_def by (intro filter_upt_skip) (auto simp: Suc_le_eq)
  qed (simp add: cell_pipes_def)
  then show ?thesis
    using False row_cells_loop_eq [of 0 line 0] by (auto simp: row_cells_def open_cell_def)
qed

subsection \<open>The cells rows lack\<close>

text \<open>The lines the pass reads, each without the leading space and quote markers its containers could own.\<close>

definition table_lines :: "bytes \<Rightarrow> bytes list" where
  "table_lines src =
     (let start = (if starts_with src BOM then 3 else 0)
      in map (\<lambda>(s, e). seg src (scan_fwd leads_row src s e) e) (line_spans start start (drop start src)))"

text \<open>
  Line \<open>j\<close> is a possible delimiter row above line \<open>k\<close> in its run: not the first line of the run,
  and no line from the one before it up to \<open>k\<close> is blank.
\<close>

definition delimiter_above :: "bytes list \<Rightarrow> nat \<Rightarrow> nat \<Rightarrow> bool" where
  "delimiter_above ls k j =
     (0 < j \<and> j < k \<and> (\<forall>m \<in> {j - 1..<k}. ls ! m \<noteq> []) \<and> possible_delimiter (ls ! j))"

definition columns_at :: "bytes list \<Rightarrow> nat \<Rightarrow> nat" where
  "columns_at ls k = Max (insert 0 ((\<lambda>j. row_cells (ls ! j)) ` {j. delimiter_above ls k j}))"

definition cells_lacking :: "bytes list \<Rightarrow> nat \<Rightarrow> nat" where
  "cells_lacking ls k = (if ls ! k = [] then 0 else columns_at ls k - row_cells (ls ! k))"

lemma filled_loop_fold:
  "start \<le> length b \<Longrightarrow>
   filled_loop b s start =
     fst (fold filled_step (map (\<lambda>(s, e). seg b (scan_fwd leads_row b s e) e) (line_spans start start (drop start b))) s)"
proof (induction b s start rule: filled_loop.induct)
  case (1 b s start)
  define e where "e = scan_fwd (\<lambda>c. \<not> is_line_break c) b start (length b)"
  note unf = filled_loop.simps [of b s start, unfolded Let_def, folded e_def]
  note sp = line_spans_scan [OF "1.prems" e_def, of start]
  have "e < length b \<Longrightarrow> e + break_width b e \<le> length b" by (auto simp: break_width_def)
  then show ?case using "1.IH" [OF e_def refl] unf sp by (cases "e < length b") auto
qed

lemma delimiter_above_finite: "finite {j. delimiter_above ls k j}"
  by (rule finite_subset [of _ "{..<k}"]) (auto simp: delimiter_above_def)

lemma columns_at_blank: "ls ! k = [] \<Longrightarrow> columns_at ls (Suc k) = 0"
proof -
  assume "ls ! k = []"
  then have "{j. delimiter_above ls (Suc k) j} = {}" by (auto simp: delimiter_above_def intro!: bexI [of _ k])
  then show ?thesis by (simp add: columns_at_def)
qed

lemma columns_at_Suc:
  assumes "ls ! k \<noteq> []"
  shows "columns_at ls (Suc k) =
    (if 0 < k \<and> ls ! (k - 1) \<noteq> [] \<and> possible_delimiter (ls ! k) then max (columns_at ls k) (row_cells (ls ! k)) else columns_at ls k)"
proof -
  have before: "m = k - 1" if "k - Suc 0 \<le> m" "m < k" for m using that by auto
  have "{j. delimiter_above ls (Suc k) j} =
      {j. delimiter_above ls k j} \<union> (if 0 < k \<and> ls ! (k - 1) \<noteq> [] \<and> possible_delimiter (ls ! k) then {k} else {})"
    using assms by (auto simp: delimiter_above_def less_Suc_eq) (metis One_nat_def before)
  then have img: "(\<lambda>j. row_cells (ls ! j)) ` {j. delimiter_above ls (Suc k) j} =
      (if 0 < k \<and> ls ! (k - 1) \<noteq> [] \<and> possible_delimiter (ls ! k) then insert (row_cells (ls ! k)) else id)
        ((\<lambda>j. row_cells (ls ! j)) ` {j. delimiter_above ls k j})"
    by simp
  have mx: "Max (insert 0 (insert c A)) = max (Max (insert 0 A)) c" if "finite A" for A and c :: nat
    using that Max_insert [of "insert 0 A" c] by (metis finite.insertI insert_commute insert_not_empty max.commute)
  show ?thesis
    unfolding columns_at_def img using mx [OF finite_imageI [OF delimiter_above_finite]] by (simp only: if_distrib id_apply split: if_split) simp
qed

lemma filled_fold:
  "k \<le> length ls \<Longrightarrow> \<exists>run. (0 < run \<longleftrightarrow> 0 < k \<and> ls ! (k - 1) \<noteq> []) \<and>
     fold filled_step (take k ls) (0, 0, 0) = (min (\<Sum>m < k. cells_lacking ls m) USIZE_MAX, columns_at ls k, run)"
proof (induction k)
  case 0
  have "{j. delimiter_above ls 0 j} = {}" by (auto simp: delimiter_above_def)
  then show ?case by (simp add: columns_at_def)
next
  case (Suc k)
  then obtain run where run: "0 < run \<longleftrightarrow> 0 < k \<and> ls ! (k - 1) \<noteq> []"
    "fold filled_step (take k ls) (0, 0, 0) = (min (\<Sum>m < k. cells_lacking ls m) USIZE_MAX, columns_at ls k, run)"
    by auto
  have step: "fold filled_step (take (Suc k) ls) (0, 0, 0) =
      filled_step (ls ! k) (min (\<Sum>m < k. cells_lacking ls m) USIZE_MAX, columns_at ls k, run)"
    using Suc.prems run(2) by (simp add: take_Suc_conv_app_nth)
  show ?case
  proof (cases "ls ! k = []")
    case True
    then show ?thesis
      unfolding step using columns_at_blank [OF True] by (auto simp: filled_step_def cells_lacking_def)
  next
    case False
    have "min (min a USIZE_MAX + b) USIZE_MAX = min (a + b) USIZE_MAX" for a b by simp
    then show ?thesis
      unfolding step using columns_at_Suc [OF False] run(1) False by (auto simp: filled_step_def cells_lacking_def Let_def)
  qed
qed

text \<open>
  The one-pass count of the cells a document's tables could gain is, up to saturation at the
  word size, the sum over its lines of what each lacks of the widest possible delimiter row
  above it in its run of non-blank lines.
\<close>

lemma filled_table_cells_sum:
  "filled_table_cells src =
     min (\<Sum>k < length (table_lines src). cells_lacking (table_lines src) k) USIZE_MAX"
proof -
  define start :: nat where "start = (if starts_with src BOM then 3 else 0)"
  have "start \<le> length src"
  proof (cases "starts_with src BOM")
    case True
    then have "length (take (length BOM) src) = length BOM" by (simp only: starts_with_def)
    then show ?thesis using True by (simp add: start_def BOM_def)
  qed (simp add: start_def)
  then have "filled_table_cells src = fst (fold filled_step (table_lines src) (0, 0, 0))"
    using filled_loop_fold [of start src "(0, 0, 0)"]
    by (simp add: filled_table_cells_def table_lines_def start_def [symmetric])
  then show ?thesis using filled_fold [of "length (table_lines src)" "table_lines src"] by auto
qed

end
