(* ===== verification/Flark_Columns.thy ===== *)
theory Flark_Columns
  imports Flark_Lines Flark_Limits
begin

text \<open>
  The column arithmetic of \<^verbatim>\<open>native/flark_parse/src/model.rs\<close>: a cursor over one physical line
  that consumes spaces and tabs by column (\<open>col_cursor\<close>), the container prefixes of a line
  (\<open>prefix_cursor\<close>), and the content span of a paragraph line (\<open>paragraph_line\<close>). The lemmas show
  that the cursor never leaves its line, that what it counts are the columns of the bytes it
  passed, and that every content span lies inside its line behind its own prefix.
\<close>

datatype container_kind = Quote | ItemContainer | Footnote

record container =
  ct_kind :: container_kind
  ct_offset :: nat
  ct_first_line :: nat
  ct_checkbox :: "(nat \<times> nat) option"

record checkbox =
  cx_start :: nat
  cx_end :: nat
  cx_symbol :: "nat \<times> nat"

record col_cursor =
  cur_line :: bytes
  cur_pos :: nat
  cur_col :: nat
  cur_virt :: nat

record line_span =
  ls_line0 :: nat
  ls_start :: nat
  ls_end :: nat
  ls_virt :: nat
  ls_prefix_start :: nat
  ls_held :: nat

subsection \<open>The cursor\<close>

definition cursor_new :: "bytes \<Rightarrow> col_cursor" where
  "cursor_new line = \<lparr>cur_line = line, cur_pos = 0, cur_col = 0, cur_virt = 0\<rparr>"

definition tab_stop :: "nat \<Rightarrow> nat" where
  "tab_stop col = (col div 4 + 1) * 4"

definition cursor_byte :: "col_cursor \<Rightarrow> byte option" where
  "cursor_byte cur = byte_at (cur_line cur) (cur_pos cur)"

lemma tab_stop_gt: "col < tab_stop col" "tab_stop col \<le> col + 4"
  by (simp_all add: tab_stop_def div_less_iff_less_mult [symmetric])

function consume_loop :: "nat \<Rightarrow> nat \<Rightarrow> col_cursor \<Rightarrow> col_cursor \<times> nat" where
  "consume_loop n got cur =
     (if got < n then
        (if 0 < cur_virt cur then consume_loop n (got + 1) (cur\<lparr>cur_virt := cur_virt cur - 1\<rparr>)
         else if cursor_byte cur = Some (CHR '' '') then
           consume_loop n (got + 1) (cur\<lparr>cur_pos := cur_pos cur + 1, cur_col := cur_col cur + 1\<rparr>)
         else if cursor_byte cur = Some TAB then
           (let stop = tab_stop (cur_col cur);
                width = stop - cur_col cur;
                tk = min width (n - got)
            in consume_loop n (got + tk)
                 (cur\<lparr>cur_pos := cur_pos cur + 1, cur_col := stop, cur_virt := width - tk\<rparr>))
         else (cur, got))
      else (cur, got))"
  by pat_completeness auto
termination
proof (relation "measure (\<lambda>(n, got, cur). n - got)")
  fix n got cur stop width tk
  assume "got < n" "stop = tab_stop (cur_col cur)" "width = stop - cur_col cur" "tk = min width (n - got)"
  then show "((n, got + tk, cur\<lparr>cur_pos := cur_pos cur + 1, cur_col := stop, cur_virt := width - tk\<rparr>), n, got, cur)
      \<in> measure (\<lambda>(n, got, cur). n - got)"
    using tab_stop_gt [of "cur_col cur"] by auto
qed auto

declare consume_loop.simps [simp del]

definition consume_columns :: "nat \<Rightarrow> col_cursor \<Rightarrow> col_cursor \<times> nat" where
  "consume_columns n cur = consume_loop n 0 cur"

definition next_col :: "byte \<Rightarrow> nat \<Rightarrow> nat" where
  "next_col b col = (if b = TAB then tab_stop col else col + 1)"

text \<open>One byte further, when there is one.\<close>

definition advance1 :: "col_cursor \<Rightarrow> col_cursor" where
  "advance1 cur =
     (case cursor_byte cur of
        None \<Rightarrow> cur
      | Some b \<Rightarrow> cur\<lparr>cur_pos := cur_pos cur + 1, cur_col := next_col b (cur_col cur)\<rparr>)"

primrec advance :: "nat \<Rightarrow> col_cursor \<Rightarrow> col_cursor" where
  "advance 0 cur = cur"
| "advance (Suc n) cur = advance n (advance1 cur)"

text \<open>\<^verbatim>\<open>while matches!(line.get(pos), Some(test))\<close>, advancing.\<close>

function advance_while :: "(byte \<Rightarrow> bool) \<Rightarrow> col_cursor \<Rightarrow> col_cursor" where
  "advance_while P cur =
     (if cur_pos cur < length (cur_line cur) \<and> P (cur_line cur ! cur_pos cur)
      then advance_while P (advance1 cur) else cur)"
  by pat_completeness auto
termination
  by (relation "measure (\<lambda>(P, cur). length (cur_line cur) - cur_pos cur)")
     (auto simp: advance1_def cursor_byte_def byte_at_def)

declare advance_while.simps [simp del]

definition is_blank :: "byte \<Rightarrow> bool" where
  "is_blank b = (b = CHR '' '' \<or> b = TAB)"

definition skip_whitespace :: "col_cursor \<Rightarrow> col_cursor" where
  "skip_whitespace cur = advance_while is_blank (cur\<lparr>cur_virt := 0\<rparr>)"

definition is_list_marker :: "byte \<Rightarrow> bool" where
  "is_list_marker b = (b \<in> {CHR ''-'', CHR ''+'', CHR ''*'', CHR ''.'', CHR '')''})"

text \<open>A list marker: up to three columns of space, digits, and the marker character.\<close>

definition skip_marker :: "col_cursor \<Rightarrow> col_cursor" where
  "skip_marker cur =
     (let c = advance_while is_digit (fst (consume_columns 3 cur))
      in case cursor_byte c of Some b \<Rightarrow> (if is_list_marker b then advance1 c else c) | None \<Rightarrow> c)"

text \<open>The rest of the line is spaces and tabs.\<close>

definition rest_blank :: "col_cursor \<Rightarrow> bool" where
  "rest_blank cur = list_all is_blank (drop (cur_pos cur) (cur_line cur))"

subsection \<open>Container prefixes\<close>

record prefix =
  px_cur :: col_cursor
  px_lazy :: bool
  px_after_checkbox :: bool
  px_prefix_start :: nat
  px_held :: nat

text \<open>The loop's state: the prefix so far, the content column, and whether the prefix start is frozen.\<close>

record prefix_state = prefix +
  px_base :: nat
  px_frozen :: bool

text \<open>A task checkbox that leads the rest of the line is skipped with the whitespace before it.\<close>

definition skip_checkbox :: "nat \<Rightarrow> (nat \<times> nat) option \<Rightarrow> col_cursor \<Rightarrow> col_cursor option" where
  "skip_checkbox ls cb cur =
     (case cb of
        None \<Rightarrow> None
      | Some (start, e) \<Rightarrow>
          (let probe = skip_whitespace cur
           in if ls + cur_pos probe = start then Some (advance (e - start) probe) else None))"

definition set_prefix_start :: "nat \<Rightarrow> prefix_state \<Rightarrow> prefix_state" where
  "set_prefix_start at st = (if px_frozen st then st else st\<lparr>px_prefix_start := at\<rparr>)"

text \<open>One quote: \<open>None\<close> is a lazy line, which leaves the loop with the cursor as it was.\<close>

definition quote_prefix :: "prefix_state \<Rightarrow> prefix_state option" where
  "quote_prefix st =
     (let at = cur_pos (px_cur st);
          cur = fst (consume_columns 3 (px_cur st))
      in if cur_virt cur = 0 \<and> cursor_byte cur = Some (CHR ''>'') then
           (let c1 = advance1 cur;
                c2 = (if cursor_byte c1 = Some (CHR '' '') then advance1 c1
                      else if cursor_byte c1 = Some TAB then
                        (let stop = tab_stop (cur_col c1)
                         in c1\<lparr>cur_pos := cur_pos c1 + 1, cur_col := stop, cur_virt := stop - cur_col c1 - 1\<rparr>)
                      else c1)
            in Some (set_prefix_start at (st\<lparr>px_cur := c2, px_base := cur_col c2 - cur_virt c2\<rparr>)))
         else None)"

definition indent_need :: "nat \<Rightarrow> col_cursor \<Rightarrow> nat" where
  "indent_need target cur = target - (cur_col cur - cur_virt cur)"

text \<open>
  An item's own line holds its marker; a later line must hold all of the indentation, and a blank
  line short of it continues the item past its whitespace, its prefix start frozen.
\<close>

definition item_indent :: "nat \<Rightarrow> container \<Rightarrow> prefix_state \<Rightarrow> prefix_state option" where
  "item_indent line0 c st =
     (let target = px_base st + ct_offset c in
      if ct_first_line c = line0 then
        (let cur = skip_marker (px_cur st)
         in Some (st\<lparr>px_cur := fst (consume_columns (indent_need target cur) cur)\<rparr>))
      else
        (let need = indent_need target (px_cur st);
             r = consume_columns need (px_cur st)
         in if snd r < need then
              (if rest_blank (px_cur st) then
                 Some ((if px_frozen st then st else st\<lparr>px_prefix_start := cur_pos (px_cur st), px_frozen := True\<rparr>)
                       \<lparr>px_cur := skip_whitespace (px_cur st)\<rparr>)
               else None)
            else Some (st\<lparr>px_cur := fst r\<rparr>)))"

definition item_checkbox :: "nat \<Rightarrow> container \<Rightarrow> prefix_state \<Rightarrow> prefix_state" where
  "item_checkbox ls c st =
     (case skip_checkbox ls (ct_checkbox c) (px_cur st) of
        None \<Rightarrow> st
      | Some cur \<Rightarrow> st\<lparr>px_cur := cur, px_after_checkbox := True\<rparr>)"

definition item_prefix :: "nat \<Rightarrow> nat \<Rightarrow> container \<Rightarrow> prefix_state \<Rightarrow> prefix_state option" where
  "item_prefix ls line0 c st =
     (case item_indent line0 c st of
        None \<Rightarrow> None
      | Some st1 \<Rightarrow>
          Some ((item_checkbox ls c (set_prefix_start (cur_pos (px_cur st)) st1))\<lparr>px_base := px_base st + ct_offset c\<rparr>))"

text \<open>The label of a footnote definition, up to and with its closing bracket.\<close>

definition skip_label :: "col_cursor \<Rightarrow> col_cursor" where
  "skip_label cur = advance1 (advance_while (\<lambda>b. b \<noteq> CHR '']'') cur)"

definition footnote_prefix :: "nat \<Rightarrow> container \<Rightarrow> prefix_state \<Rightarrow> prefix_state option" where
  "footnote_prefix line0 c st =
     (let at = cur_pos (px_cur st) in
      if ct_first_line c = line0 then
        (let cur = fst (consume_columns 3 (px_cur st));
             cur' = (if cur_virt cur = 0 \<and> cursor_byte cur = Some (CHR ''['') then
                       (let c1 = skip_label cur;
                            c2 = (if cursor_byte c1 = Some (CHR '':'') then advance1 c1 else c1)
                        in skip_whitespace c2)
                     else cur)
         in Some (set_prefix_start at (st\<lparr>px_cur := cur', px_base := cur_col cur'\<rparr>)))
      else
        (let target = px_base st + 4;
             need = indent_need target (px_cur st);
             r = consume_columns need (px_cur st)
         in if snd r < need then None
            else Some (set_prefix_start at (st\<lparr>px_cur := fst r, px_base := target\<rparr>))))"

definition container_prefix :: "nat \<Rightarrow> nat \<Rightarrow> container \<Rightarrow> prefix_state \<Rightarrow> prefix_state option" where
  "container_prefix ls line0 c st =
     (case ct_kind c of
        Quote \<Rightarrow> quote_prefix st
      | ItemContainer \<Rightarrow> item_prefix ls line0 c st
      | Footnote \<Rightarrow> footnote_prefix line0 c st)"

fun prefix_loop :: "nat \<Rightarrow> nat \<Rightarrow> container list \<Rightarrow> prefix_state \<Rightarrow> prefix_state" where
  "prefix_loop ls line0 [] st = st"
| "prefix_loop ls line0 (c # cs) st =
     (let at = cur_pos (px_cur st) in
      case container_prefix ls line0 c st of
        None \<Rightarrow> st\<lparr>px_lazy := True\<rparr>
      | Some st' \<Rightarrow>
          prefix_loop ls line0 cs
            (if \<not> px_frozen st \<and> at < cur_pos (px_cur st') then st'\<lparr>px_held := at\<rparr> else st'))"

text \<open>Where reading a line begins: past a byte order mark that opens the first line.\<close>

definition line_cursor :: "nat \<Rightarrow> bytes \<Rightarrow> col_cursor" where
  "line_cursor line0 line = (cursor_new line)\<lparr>cur_pos := if line0 = 0 \<and> starts_with line BOM then 3 else 0\<rparr>"

definition prefix_init :: "nat \<Rightarrow> bytes \<Rightarrow> prefix_state" where
  "prefix_init line0 line =
     (let cur = line_cursor line0 line
      in \<lparr>px_cur = cur, px_lazy = False, px_after_checkbox = False, px_prefix_start = cur_pos cur, px_held = cur_pos cur,
          px_base = 0, px_frozen = False\<rparr>)"

text \<open>A lazy line still holds the innermost item's checkbox, and has no prefix before its content.\<close>

definition lazy_prefix :: "nat \<Rightarrow> container list \<Rightarrow> prefix_state \<Rightarrow> prefix" where
  "lazy_prefix ls containers st =
     (let found = (if containers = [] then None else skip_checkbox ls (ct_checkbox (last containers)) (px_cur st));
          cur = (case found of None \<Rightarrow> px_cur st | Some c \<Rightarrow> c)
      in \<lparr>px_cur = cur, px_lazy = True, px_after_checkbox = px_after_checkbox st \<or> found \<noteq> None,
          px_prefix_start = cur_pos cur, px_held = cur_pos cur\<rparr>)"

definition prefix_cursor :: "line_index \<Rightarrow> nat \<Rightarrow> bytes \<Rightarrow> container list \<Rightarrow> prefix" where
  "prefix_cursor li line0 line containers =
     (let st = prefix_loop (line_start li line0) line0 containers (prefix_init line0 line)
      in if px_lazy st then lazy_prefix (line_start li line0) containers st else prefix.truncate st)"

subsection \<open>Lines\<close>

definition line_bytes :: "bytes \<Rightarrow> line_index \<Rightarrow> nat \<Rightarrow> bytes" where
  "line_bytes src li line0 = seg src (line_start li line0) (line_end li line0)"

definition trimmed_end :: "bytes \<Rightarrow> line_index \<Rightarrow> nat \<Rightarrow> nat \<Rightarrow> nat" where
  "trimmed_end src li line0 cs = scan_bwd is_blank src cs (line_end li line0)"

definition paragraph_line :: "bytes \<Rightarrow> line_index \<Rightarrow> nat \<Rightarrow> container list \<Rightarrow> line_span" where
  "paragraph_line src li line0 containers =
     (let p = prefix_cursor li line0 (line_bytes src li line0) containers;
          cur = (if \<not> px_lazy p \<and> \<not> px_after_checkbox p then skip_whitespace (px_cur p) else px_cur p);
          ls = line_start li line0;
          start = ls + cur_pos cur
      in \<lparr>ls_line0 = line0, ls_start = start, ls_end = trimmed_end src li line0 start,
          ls_virt = (if px_lazy p then cur_virt cur else 0),
          ls_prefix_start = ls + px_prefix_start p, ls_held = ls + px_held p\<rparr>)"

text \<open>A setext underline: every container matched, at most three columns in, one run of one marker.\<close>

definition setext_underline :: "bytes \<Rightarrow> line_index \<Rightarrow> nat \<Rightarrow> container list \<Rightarrow> bool" where
  "setext_underline src li line0 containers =
     (if line_count li \<le> line0 then False
      else
        (let p = prefix_cursor li line0 (line_bytes src li line0) containers;
             cur = fst (consume_columns 3 (px_cur p));
             rest = drop (cur_pos cur) (cur_line cur)
         in case rest of
              [] \<Rightarrow> False
            | marker # _ \<Rightarrow>
                \<not> px_lazy p \<and> cur_virt cur = 0 \<and> (marker = CHR ''='' \<or> marker = CHR ''-'') \<and>
                list_all is_blank (dropWhile (\<lambda>b. b = marker) rest)))"

definition marker_content_offset :: "bytes \<Rightarrow> line_index \<Rightarrow> nat \<Rightarrow> container list \<Rightarrow> nat" where
  "marker_content_offset src li line0 containers =
     (let p = prefix_cursor li line0 (line_bytes src li line0) containers;
          base = cur_col (px_cur p) - cur_virt (px_cur p);
          cur = skip_marker (px_cur p);
          marker_end = cur_col cur;
          r = consume_columns 5 cur;
          spaces = snd r;
          padding = (if rest_blank (fst r) \<or> 5 \<le> spaces \<or> spaces = 0 then 1 else spaces)
      in max (marker_end + padding - base) 2)"

subsection \<open>The contract of a cursor move\<close>

definition cursor_ok :: "col_cursor \<Rightarrow> bool" where
  "cursor_ok cur = (cur_pos cur \<le> length (cur_line cur) \<and> cur_virt cur \<le> 3 \<and> cur_virt cur \<le> cur_col cur)"

text \<open>The column after some bytes, tabs advancing to the next multiple of four.\<close>

definition columns_after :: "nat \<Rightarrow> bytes \<Rightarrow> nat" where
  "columns_after col bs = foldl (\<lambda>c b. next_col b c) col bs"

lemma columns_after_append [simp]: "columns_after col (xs @ ys) = columns_after (columns_after col xs) ys"
  by (simp add: columns_after_def)

lemma columns_after_Nil [simp]: "columns_after col [] = col"
  by (simp add: columns_after_def)

lemma columns_after_one [simp]: "columns_after col [b] = next_col b col"
  by (simp add: columns_after_def)

definition moved :: "col_cursor \<Rightarrow> col_cursor \<Rightarrow> bool" where
  "moved a b =
     (cursor_ok b \<and> cur_line b = cur_line a \<and> cur_pos a \<le> cur_pos b \<and>
      cur_col b = columns_after (cur_col a) (seg (cur_line a) (cur_pos a) (cur_pos b)))"

lemma moved_refl: "cursor_ok cur \<Longrightarrow> moved cur cur"
  by (simp add: moved_def)

lemma moved_ok: "moved a b \<Longrightarrow> cursor_ok b"
  by (simp add: moved_def)

lemma moved_trans:
  assumes "moved a b" "moved b c"
  shows "moved a c"
proof -
  have "seg (cur_line a) (cur_pos a) (cur_pos c) =
      seg (cur_line a) (cur_pos a) (cur_pos b) @ seg (cur_line a) (cur_pos b) (cur_pos c)"
    using assms seg_append [of "cur_pos a" "cur_pos b" "cur_pos c" "cur_line a"] by (simp add: moved_def)
  then have "columns_after (cur_col a) (seg (cur_line a) (cur_pos a) (cur_pos c)) = cur_col c"
    using assms by (simp add: moved_def)
  then show ?thesis using assms by (auto simp: moved_def)
qed

text \<open>
  Every operation of the cursor keeps it on its line, never moves it back, and counts the
  columns of exactly the bytes it passes.
\<close>

locale cursor_move =
  fixes move :: "col_cursor \<Rightarrow> col_cursor"
  assumes move_moves: "cursor_ok cur \<Longrightarrow> moved cur (move cur)"
begin

lemma move_ok: "cursor_ok cur \<Longrightarrow> cursor_ok (move cur)"
  using move_moves by (simp add: moved_def)

lemma move_after: "moved a b \<Longrightarrow> moved a (move b)"
  by (rule moved_trans [OF _ move_moves [OF moved_ok]])

end

locale cursor_moves = first: cursor_move f + second: cursor_move g
  for f g :: "col_cursor \<Rightarrow> col_cursor"

sublocale cursor_moves \<subseteq> both: cursor_move "\<lambda>cur. g (f cur)"
  by unfold_locales (rule second.move_after [OF first.move_moves])

lemma next_col_gt: "col < next_col b col"
  using tab_stop_gt by (simp add: next_col_def)

lemma advance1_moved:
  assumes "cursor_ok cur"
  shows "moved cur (advance1 cur)"
proof (cases "cur_pos cur < length (cur_line cur)")
  case True
  have "cur_virt cur \<le> next_col (cur_line cur ! cur_pos cur) (cur_col cur)"
    using assms next_col_gt [of "cur_col cur" "cur_line cur ! cur_pos cur"] by (simp add: cursor_ok_def)
  then show ?thesis
    using True assms by (simp add: advance1_def cursor_byte_def byte_at_def moved_def cursor_ok_def seg_Suc)
next
  case False
  then show ?thesis using assms by (simp add: advance1_def cursor_byte_def byte_at_def moved_refl)
qed

interpretation step: cursor_move advance1
  by unfold_locales (rule advance1_moved)

lemma advance_moved: "cursor_ok cur \<Longrightarrow> moved cur (advance n cur)"
proof (induction n arbitrary: cur)
  case (Suc n)
  then show ?case using step.move_moves [OF Suc.prems] Suc.IH [OF step.move_ok] moved_trans by auto
qed (simp add: moved_refl)

lemma advance_while_moved:
  "cursor_ok cur \<Longrightarrow> moved cur (advance_while P cur) \<and> cur_virt (advance_while P cur) = cur_virt cur \<and>
   (\<forall>b. cursor_byte (advance_while P cur) = Some b \<longrightarrow> \<not> P b)"
proof (induction P cur rule: advance_while.induct)
  case (1 P cur)
  show ?case
  proof (cases "cur_pos cur < length (cur_line cur) \<and> P (cur_line cur ! cur_pos cur)")
    case True
    have "cur_virt (advance1 cur) = cur_virt cur" by (simp add: advance1_def split: option.splits)
    then show ?thesis
      using "1.IH" [OF True step.move_ok [OF "1.prems"]] True moved_trans [OF step.move_moves [OF "1.prems"]]
      by (simp add: advance_while.simps [of P cur])
  next
    case False
    then have "advance_while P cur = cur" by (auto simp: advance_while.simps [of P cur])
    then show ?thesis using False "1.prems" by (auto simp: moved_refl cursor_byte_def)
  qed
qed

interpretation steps: cursor_move "advance n" for n
  by unfold_locales (rule advance_moved)

interpretation while_run: cursor_move "advance_while P" for P
  by unfold_locales (use advance_while_moved in blast)

lemma skip_whitespace_moved:
  assumes "cursor_ok cur"
  shows "moved cur (skip_whitespace cur) \<and> cur_virt (skip_whitespace cur) = 0 \<and>
         (\<forall>b. cursor_byte (skip_whitespace cur) = Some b \<longrightarrow> \<not> is_blank b)"
proof -
  have "cursor_ok (cur\<lparr>cur_virt := 0\<rparr>)" using assms by (simp add: cursor_ok_def)
  from advance_while_moved [OF this, of is_blank] show ?thesis
    by (auto simp: skip_whitespace_def moved_def)
qed

interpretation whitespace: cursor_move skip_whitespace
  by unfold_locales (use skip_whitespace_moved in blast)

subsection \<open>Consuming columns\<close>

text \<open>The column the cursor shows: a partially consumed tab ends before its stop.\<close>

definition visual_col :: "col_cursor \<Rightarrow> nat" where
  "visual_col cur = cur_col cur - cur_virt cur"

definition consumed :: "nat \<Rightarrow> nat \<Rightarrow> col_cursor \<Rightarrow> col_cursor \<times> nat \<Rightarrow> bool" where
  "consumed n got cur r =
     (moved cur (fst r) \<and> got \<le> snd r \<and> snd r \<le> n \<and> visual_col (fst r) = visual_col cur + (snd r - got) \<and>
      (snd r < n \<longrightarrow> cur_virt (fst r) = 0 \<and> (\<forall>b. cursor_byte (fst r) = Some b \<longrightarrow> \<not> is_blank b)) \<and>
      list_all is_blank (seg (cur_line cur) (cur_pos cur) (cur_pos (fst r))))"

lemma consumed_step:
  assumes "consumed n got' cur' r" "moved cur cur'" "got \<le> got'" "visual_col cur' = visual_col cur + (got' - got)"
    and "list_all is_blank (seg (cur_line cur) (cur_pos cur) (cur_pos cur'))"
  shows "consumed n got cur r"
proof -
  have "seg (cur_line cur) (cur_pos cur) (cur_pos cur') @ seg (cur_line cur) (cur_pos cur') (cur_pos (fst r)) =
      seg (cur_line cur) (cur_pos cur) (cur_pos (fst r))"
    using assms(1,2) by (intro seg_append) (auto simp: moved_def consumed_def)
  moreover have "cur_line cur' = cur_line cur" using assms(2) by (simp add: moved_def)
  ultimately have "list_all is_blank (seg (cur_line cur) (cur_pos cur) (cur_pos (fst r)))"
    using assms(1,5) by (metis consumed_def list_all_append)
  then show ?thesis using assms moved_trans by (auto simp: consumed_def)
qed

lemma consume_tab:
  assumes "cursor_ok cur" "cur_virt cur = 0" "cursor_byte cur = Some TAB" "got < n"
    and d: "width = tab_stop (cur_col cur) - cur_col cur" "tk = min width (n - got)"
      "cur' = cur\<lparr>cur_pos := cur_pos cur + 1, cur_col := tab_stop (cur_col cur), cur_virt := width - tk\<rparr>"
  shows "moved cur cur' \<and> visual_col cur' = visual_col cur + tk \<and> 0 < tk \<and> got + tk \<le> n"
proof -
  have w: "0 < width" "width \<le> 4" "width \<le> tab_stop (cur_col cur)" "tab_stop (cur_col cur) = cur_col cur + width"
    using tab_stop_gt [of "cur_col cur"] d(1) by auto
  then have tk: "0 < tk" "tk \<le> width" "got + tk \<le> n" using assms(4) d(2) by auto
  have "cur_pos cur < length (cur_line cur)" "cur_line cur ! cur_pos cur = TAB"
    using assms(3) by (auto simp: cursor_byte_def)
  then have "moved cur cur'"
    using assms(1) w tk d(3) by (auto simp: moved_def cursor_ok_def seg_Suc next_col_def)
  then show ?thesis using assms(2) w tk d(3) by (simp add: visual_col_def)
qed

lemma consume_loop_consumed:
  "cursor_ok cur \<Longrightarrow> got \<le> n \<Longrightarrow> consumed n got cur (consume_loop n got cur)"
proof (induction n got cur rule: consume_loop.induct)
  case (1 n got cur)
  note unf = consume_loop.simps [of n got cur]
  consider (stop) "\<not> got < n" | (virt) "got < n" "0 < cur_virt cur"
    | (space) "got < n" "cur_virt cur = 0" "cursor_byte cur = Some (CHR '' '')"
    | (tab) "got < n" "cur_virt cur = 0" "cursor_byte cur = Some TAB"
    | (other) "got < n" "cur_virt cur = 0" "cursor_byte cur \<noteq> Some (CHR '' '')" "cursor_byte cur \<noteq> Some TAB"
    by blast
  then show ?case
  proof cases
    case stop
    then show ?thesis using unf "1.prems" by (simp add: consumed_def moved_refl)
  next
    case virt
    let ?cur' = "cur\<lparr>cur_virt := cur_virt cur - 1\<rparr>"
    have "moved cur ?cur'" "visual_col ?cur' = visual_col cur + (got + 1 - got)"
      using "1.prems" virt by (auto simp: moved_def cursor_ok_def visual_col_def)
    then show ?thesis
      using "1.IH"(1) [OF virt moved_ok] virt unf consumed_step [of n "got + 1" ?cur' _ cur got] by simp
  next
    case space
    let ?cur' = "cur\<lparr>cur_pos := cur_pos cur + 1, cur_col := cur_col cur + 1\<rparr>"
    have "cur_pos cur < length (cur_line cur)" "cur_line cur ! cur_pos cur = CHR '' ''"
      using space by (auto simp: cursor_byte_def)
    then have "moved cur ?cur'" "visual_col ?cur' = visual_col cur + (got + 1 - got)"
        "list_all is_blank (seg (cur_line cur) (cur_pos cur) (cur_pos ?cur'))"
      using "1.prems" space(2) by (auto simp: moved_def cursor_ok_def visual_col_def seg_Suc next_col_def is_blank_def)
    then show ?thesis
      using "1.IH"(2) [OF space(1) _ space(3) moved_ok] space unf consumed_step [of n "got + 1" ?cur' _ cur got] by simp
  next
    case tab
    define width where "width = tab_stop (cur_col cur) - cur_col cur"
    define tk where "tk = min width (n - got)"
    define cur' where "cur' = cur\<lparr>cur_pos := cur_pos cur + 1, cur_col := tab_stop (cur_col cur), cur_virt := width - tk\<rparr>"
    note m = consume_tab [OF "1.prems"(1) tab(2,3,1) width_def tk_def cur'_def]
    have "list_all is_blank (seg (cur_line cur) (cur_pos cur) (cur_pos cur'))"
      using tab(3) by (auto simp: cur'_def cursor_byte_def seg_Suc is_blank_def)
    moreover have "consumed n (got + tk) cur' (consume_loop n (got + tk) cur')"
      using "1.IH"(3) [OF tab(1) _ _ tab(3) refl width_def tk_def] tab(2,3) m moved_ok [of cur cur'] unfolding cur'_def by simp
    moreover have "consume_loop n got cur = consume_loop n (got + tk) cur'"
      using tab unf by (simp add: cur'_def tk_def width_def Let_def)
    ultimately show ?thesis using m consumed_step [of n "got + tk" cur' _ cur got] by simp
  next
    case other
    then show ?thesis using unf "1.prems" by (auto simp: consumed_def moved_refl is_blank_def)
  qed
qed

lemma consume_columns_consumed: "cursor_ok cur \<Longrightarrow> consumed n 0 cur (consume_columns n cur)"
  by (simp add: consume_columns_def consume_loop_consumed)

interpretation cols: cursor_move "\<lambda>cur. fst (consume_columns n cur)" for n
  by unfold_locales (use consume_columns_consumed in \<open>auto simp: consumed_def\<close>)

interpretation marker: cursor_moves "\<lambda>cur. fst (consume_columns 3 cur)" "advance_while is_digit"
  by unfold_locales

lemma skip_marker_moved: "cursor_ok cur \<Longrightarrow> moved cur (skip_marker cur)"
  using marker.both.move_moves step.move_after by (auto simp: skip_marker_def Let_def split: option.splits)

interpretation list_marker: cursor_move skip_marker
  by unfold_locales (rule skip_marker_moved)

interpretation label: cursor_moves "advance_while (\<lambda>b. b \<noteq> CHR '']'')" advance1
  by unfold_locales

lemma skip_label_moved: "cursor_ok cur \<Longrightarrow> moved cur (skip_label cur)"
  using label.both.move_moves by (simp add: skip_label_def)

lemma skip_checkbox_moved: "cursor_ok cur \<Longrightarrow> skip_checkbox ls cb cur = Some cur' \<Longrightarrow> moved cur cur'"
  using steps.move_after [OF whitespace.move_moves] by (auto simp: skip_checkbox_def Let_def split: option.splits if_splits)

text \<open>
  Consuming columns of indentation consumes only spaces and tabs, advances the column the
  cursor shows by exactly the number it reports, at most the number asked for, and falls short
  only at a byte that is neither, with no part of a tab left over.
\<close>

lemma consume_columns_correct:
  assumes "cursor_ok cur" "consume_columns n cur = (cur', got)"
  shows "cursor_ok cur' \<and> got \<le> n \<and> visual_col cur' = visual_col cur + got \<and>
         list_all is_blank (seg (cur_line cur) (cur_pos cur) (cur_pos cur')) \<and>
         (got = n \<or> (cur_virt cur' = 0 \<and> \<not> (\<exists>b. cursor_byte cur' = Some b \<and> is_blank b)))"
  using consume_columns_consumed [OF assms(1), of n] assms(2) by (auto simp: consumed_def moved_def)

subsection \<open>Prefixes\<close>

text \<open>What matching one container does to the loop's state.\<close>

definition prefix_moves :: "prefix_state \<Rightarrow> prefix_state \<Rightarrow> bool" where
  "prefix_moves st st' =
     (moved (px_cur st) (px_cur st') \<and> px_prefix_start st' \<in> {px_prefix_start st, cur_pos (px_cur st)} \<and>
      px_held st' = px_held st \<and> px_lazy st' = px_lazy st)"

lemma quote_prefix_moves:
  assumes ok: "cursor_ok (px_cur st)" and q: "quote_prefix st = Some st'"
  shows "prefix_moves st st'"
proof -
  define c where "c = fst (consume_columns 3 (px_cur st))"
  define c1 where "c1 = advance1 c"
  have m1: "moved (px_cur st) c1" unfolding c1_def c_def by (rule step.move_after [OF cols.move_moves [OF ok]])
  have tab: "moved c1 (c1\<lparr>cur_pos := cur_pos c1 + 1, cur_col := tab_stop (cur_col c1), cur_virt := tab_stop (cur_col c1) - cur_col c1 - 1\<rparr>)"
    if "cursor_byte c1 = Some TAB"
    using that moved_ok [OF m1] tab_stop_gt [of "cur_col c1"]
    by (auto simp: moved_def cursor_ok_def cursor_byte_def seg_Suc next_col_def)
  show ?thesis
    using q m1 moved_trans [OF m1 tab] step.move_after [OF m1]
    by (auto simp: prefix_moves_def quote_prefix_def set_prefix_start_def Let_def c_def [symmetric] c1_def [symmetric] split: if_splits)
qed

lemma footnote_prefix_moves:
  assumes ok: "cursor_ok (px_cur st)" and f: "footnote_prefix line0 c st = Some st'"
  shows "prefix_moves st st'"
proof -
  have three: "moved (px_cur st) (fst (consume_columns 3 (px_cur st)))" by (rule cols.move_moves [OF ok])
  have lab: "moved (px_cur st) (skip_label (fst (consume_columns 3 (px_cur st))))"
    by (rule moved_trans [OF three skip_label_moved [OF moved_ok [OF three]]])
  show ?thesis
    using f three whitespace.move_after [OF lab] whitespace.move_after [OF step.move_after [OF lab]] cols.move_moves [OF ok]
    by (auto simp: prefix_moves_def footnote_prefix_def set_prefix_start_def Let_def split: if_splits)
qed

lemma item_indent_moves:
  assumes ok: "cursor_ok (px_cur st)" and i: "item_indent line0 c st = Some st'"
  shows "prefix_moves st st'"
proof -
  have "moved (px_cur st) (fst (consume_columns n (skip_marker (px_cur st))))" for n
    by (rule cols.move_after [OF list_marker.move_moves [OF ok]])
  then show ?thesis
    using i cols.move_moves [OF ok] whitespace.move_moves [OF ok]
    by (auto simp: prefix_moves_def item_indent_def Let_def split: if_splits)
qed

lemma item_prefix_moves:
  assumes ok: "cursor_ok (px_cur st)" and i: "item_prefix ls line0 c st = Some st'"
  shows "prefix_moves st st'"
proof -
  obtain st1 where st1: "item_indent line0 c st = Some st1"
    "st' = (item_checkbox ls c (set_prefix_start (cur_pos (px_cur st)) st1))\<lparr>px_base := px_base st + ct_offset c\<rparr>"
    using i by (auto simp: item_prefix_def split: option.splits)
  have m: "prefix_moves st st1" using item_indent_moves [OF ok st1(1)] .
  then have "moved (px_cur st) (px_cur st1)" by (simp add: prefix_moves_def)
  note box = moved_trans [OF this skip_checkbox_moved [OF moved_ok [OF this]]]
  show ?thesis
    using m st1(2) box by (auto simp: prefix_moves_def item_checkbox_def set_prefix_start_def split: option.splits)
qed

lemma container_prefix_moves:
  "cursor_ok (px_cur st) \<Longrightarrow> container_prefix ls line0 c st = Some st' \<Longrightarrow> prefix_moves st st'"
  by (cases "ct_kind c")
     (auto simp: container_prefix_def intro: quote_prefix_moves footnote_prefix_moves item_prefix_moves)

definition prefix_ok :: "col_cursor \<Rightarrow> 'a prefix_scheme \<Rightarrow> bool" where
  "prefix_ok start p = (moved start (px_cur p) \<and> px_prefix_start p \<le> cur_pos (px_cur p) \<and> px_held p \<le> cur_pos (px_cur p))"

lemma prefix_loop_ok: "prefix_ok start st \<Longrightarrow> prefix_ok start (prefix_loop ls line0 cs st)"
proof (induction ls line0 cs st rule: prefix_loop.induct)
  case (2 ls line0 c cs st)
  show ?case
  proof (cases "container_prefix ls line0 c st")
    case None
    then show ?thesis using "2.prems" by (simp add: prefix_ok_def)
  next
    case (Some st')
    have ok: "cursor_ok (px_cur st)" using "2.prems" moved_ok by (auto simp: prefix_ok_def)
    have m: "prefix_moves st st'" using container_prefix_moves [OF ok Some] .
    then have "moved start (px_cur st')" "cur_pos (px_cur st) \<le> cur_pos (px_cur st')"
      using "2.prems" moved_trans by (auto simp: prefix_ok_def prefix_moves_def moved_def)
    then have "prefix_ok start (if \<not> px_frozen st \<and> cur_pos (px_cur st) < cur_pos (px_cur st') then st'\<lparr>px_held := cur_pos (px_cur st)\<rparr> else st')"
      using m "2.prems" by (auto simp: prefix_ok_def prefix_moves_def)
    then show ?thesis using "2.IH" [OF refl Some] Some by (simp add: Let_def)
  qed
qed simp

lemma bom_length: "starts_with line BOM \<Longrightarrow> 3 \<le> length line"
proof -
  assume "starts_with line BOM"
  then have "length (take (length BOM) line) = length BOM" by (simp only: starts_with_def)
  then show ?thesis by (simp add: BOM_def)
qed

lemma line_cursor_ok: "cursor_ok (line_cursor line0 line)"
  using bom_length by (auto simp: cursor_ok_def line_cursor_def cursor_new_def)

lemma lazy_prefix_ok:
  assumes "moved start (px_cur st)"
  shows "prefix_ok start (lazy_prefix ls containers st)"
  using assms moved_trans [OF assms skip_checkbox_moved [OF moved_ok [OF assms]]]
  by (auto simp: lazy_prefix_def prefix_ok_def Let_def split: option.splits)

lemma prefix_cursor_ok: "prefix_ok (line_cursor line0 line) (prefix_cursor li line0 line containers)"
proof -
  define st where "st = prefix_loop (line_start li line0) line0 containers (prefix_init line0 line)"
  have "prefix_ok (line_cursor line0 line) (prefix_init line0 line)"
    by (simp add: prefix_ok_def prefix_init_def Let_def moved_refl line_cursor_ok)
  then have ok: "prefix_ok (line_cursor line0 line) st" unfolding st_def by (rule prefix_loop_ok)
  then show ?thesis
    using lazy_prefix_ok [of "line_cursor line0 line" st]
    by (simp add: prefix_cursor_def st_def [symmetric] Let_def) (simp add: prefix_ok_def prefix.truncate_def)
qed

text \<open>
  Consuming the container prefixes of a line keeps the cursor on the line, behind a byte order
  mark and the prefixes it reports, and its column is the column of the bytes consumed since,
  tabs included.
\<close>

lemma prefix_cursor_bounds:
  "cur_line (px_cur (prefix_cursor li line0 line containers)) = line \<and>
   cur_pos (line_cursor line0 line) \<le> cur_pos (px_cur (prefix_cursor li line0 line containers)) \<and>
   cur_pos (px_cur (prefix_cursor li line0 line containers)) \<le> length line \<and>
   px_prefix_start (prefix_cursor li line0 line containers) \<le> cur_pos (px_cur (prefix_cursor li line0 line containers)) \<and>
   px_held (prefix_cursor li line0 line containers) \<le> cur_pos (px_cur (prefix_cursor li line0 line containers)) \<and>
   cur_virt (px_cur (prefix_cursor li line0 line containers)) \<le> 3 \<and>
   cur_col (px_cur (prefix_cursor li line0 line containers)) =
     columns_after 0 (seg line (cur_pos (line_cursor line0 line)) (cur_pos (px_cur (prefix_cursor li line0 line containers))))"
proof -
  have "cur_line (line_cursor line0 line) = line" "cur_col (line_cursor line0 line) = 0"
    by (simp_all add: line_cursor_def cursor_new_def)
  then show ?thesis
    using prefix_cursor_ok [of line0 line li containers] by (auto simp: prefix_ok_def moved_def cursor_ok_def)
qed

subsection \<open>Paragraph lines\<close>

text \<open>What every line table of a source gives: a line's content lies in the source.\<close>

lemma line_clamp:
  assumes "utf8_valid src"
  shows "line_start (line_index_new src) l \<le> line_end (line_index_new src) l \<and> line_end (line_index_new src) l \<le> length src"
proof -
  let ?li = "line_index_new src"
  have c: "0 < line_count ?li" "length (line_ends ?li) = length (line_starts ?li)"
    using line_index_accessors(1) [OF assms refl refl] line_spans_fst [of 0 0 src] line_index_new_eq [OF assms]
    by (auto simp: line_count_def)
  have "line_start ?li l = line_start ?li (min l (line_count ?li - 1))" "line_end ?li l = line_end ?li (min l (line_count ?li - 1))"
    using c(2) by (simp_all add: line_start_def line_end_def line_count_def)
  moreover have "min l (line_count ?li - 1) < line_count ?li" using c(1) by simp
  ultimately show ?thesis using line_bounds [OF assms] by simp
qed

lemma length_line_bytes:
  "utf8_valid src \<Longrightarrow> length (line_bytes src (line_index_new src) l) = line_end (line_index_new src) l - line_start (line_index_new src) l"
  using line_clamp [of src l] by (auto simp: line_bytes_def)

lemma paragraph_line_prefix:
  assumes "utf8_valid src" and s: "s = paragraph_line src (line_index_new src) l chain"
  shows "line_start (line_index_new src) l \<le> ls_prefix_start s \<and> ls_prefix_start s \<le> ls_start s \<and>
         ls_held s \<le> ls_start s \<and> ls_start s \<le> line_end (line_index_new src) l"
proof -
  let ?li = "line_index_new src" and ?line = "line_bytes src (line_index_new src) l"
  define p where "p = prefix_cursor ?li l ?line chain"
  define cur where "cur = (if \<not> px_lazy p \<and> \<not> px_after_checkbox p then skip_whitespace (px_cur p) else px_cur p)"
  have ok: "prefix_ok (line_cursor l ?line) p" unfolding p_def by (rule prefix_cursor_ok)
  then have ck: "cursor_ok (px_cur p)" "cur_line (px_cur p) = ?line"
    by (auto simp: prefix_ok_def moved_def line_cursor_def cursor_new_def)
  have "moved (px_cur p) cur" unfolding cur_def using whitespace.move_moves [OF ck(1)] moved_refl [OF ck(1)] by simp
  then have "cur_pos (px_cur p) \<le> cur_pos cur" "cur_pos cur \<le> length ?line"
    using ck(2) by (auto simp: moved_def cursor_ok_def)
  moreover have "ls_start s = line_start ?li l + cur_pos cur" "ls_prefix_start s = line_start ?li l + px_prefix_start p"
    "ls_held s = line_start ?li l + px_held p"
    using s by (simp_all add: paragraph_line_def Let_def p_def cur_def)
  ultimately show ?thesis
    using ok length_line_bytes [OF assms(1), of l] line_clamp [OF assms(1), of l] by (auto simp: prefix_ok_def)
qed

text \<open>
  The content span of a paragraph line lies inside its physical line, after its container
  prefixes, and ends where trailing spaces and tabs begin.
\<close>

lemma paragraph_line_bounds:
  assumes "utf8_valid src" and "s = paragraph_line src (line_index_new src) l chain"
  shows "line_start (line_index_new src) l \<le> ls_prefix_start s \<and> ls_prefix_start s \<le> ls_start s \<and>
         ls_held s \<le> ls_start s \<and> ls_start s \<le> ls_end s \<and> ls_end s \<le> line_end (line_index_new src) l \<and>
         (ls_start s < ls_end s \<longrightarrow> \<not> is_blank (src ! (ls_end s - 1))) \<and>
         (\<forall>k. ls_end s \<le> k \<and> k < line_end (line_index_new src) l \<longrightarrow> is_blank (src ! k))"
proof -
  let ?e = "line_end (line_index_new src) l"
  note p = paragraph_line_prefix [OF assms]
  have e: "ls_end s = scan_bwd is_blank src (ls_start s) ?e"
    using assms(2) by (simp add: paragraph_line_def trimmed_end_def Let_def)
  have "?e \<le> length src" using line_clamp [OF assms(1)] by blast
  then show ?thesis
    using p e scan_bwd_le [of is_blank src "ls_start s" ?e] scan_bwd_ge [of "ls_start s" ?e is_blank src]
      scan_bwd_end [of "ls_start s" is_blank src ?e] scan_bwd_all [of is_blank src "ls_start s" ?e]
    by auto
qed

end
