(* ===== verification/Flark_Schema.thy ===== *)
theory Flark_Schema
  imports Flark_Prelude
begin

text \<open>
  The record layouts: \<^verbatim>\<open>native/flark_parse/src/schema.rs\<close>, the published wire format, and
  \<^verbatim>\<open>native/flark_parse/src/records.rs\<close>, the extraction's internal records. A module of word
  offsets is a record, its fields in offset order, with the list of words it occupies; a
  module of constants is a group of constants.
\<close>

text \<open>Block kinds, run kinds and alignments: \<^verbatim>\<open>schema::block_kind\<close>, \<^verbatim>\<open>schema::run_kind\<close>, \<^verbatim>\<open>schema::table_alignment\<close>.\<close>

abbreviation (input) BK_DOCUMENT :: u32 where "BK_DOCUMENT \<equiv> 0"
abbreviation (input) BK_PARAGRAPH :: u32 where "BK_PARAGRAPH \<equiv> 1"
abbreviation (input) BK_HEADING :: u32 where "BK_HEADING \<equiv> 2"
abbreviation (input) BK_CODE_BLOCK :: u32 where "BK_CODE_BLOCK \<equiv> 3"
abbreviation (input) BK_HTML_BLOCK :: u32 where "BK_HTML_BLOCK \<equiv> 4"
abbreviation (input) BK_BLOCK_QUOTE :: u32 where "BK_BLOCK_QUOTE \<equiv> 5"
abbreviation (input) BK_LIST :: u32 where "BK_LIST \<equiv> 6"
abbreviation (input) BK_ITEM :: u32 where "BK_ITEM \<equiv> 7"
abbreviation (input) BK_THEMATIC_BREAK :: u32 where "BK_THEMATIC_BREAK \<equiv> 8"
abbreviation (input) BK_TABLE :: u32 where "BK_TABLE \<equiv> 9"
abbreviation (input) BK_TABLE_ROW :: u32 where "BK_TABLE_ROW \<equiv> 10"
abbreviation (input) BK_TABLE_CELL :: u32 where "BK_TABLE_CELL \<equiv> 11"
abbreviation (input) BK_FOOTNOTE_DEFINITION :: u32 where "BK_FOOTNOTE_DEFINITION \<equiv> 12"
abbreviation (input) BK_OTHER :: u32 where "BK_OTHER \<equiv> 14"
abbreviation (input) RK_TEXT :: u32 where "RK_TEXT \<equiv> 1"
abbreviation (input) RK_EMPH :: u32 where "RK_EMPH \<equiv> 2"
abbreviation (input) RK_STRONG :: u32 where "RK_STRONG \<equiv> 3"
abbreviation (input) RK_CODE :: u32 where "RK_CODE \<equiv> 4"
abbreviation (input) RK_STRIKE :: u32 where "RK_STRIKE \<equiv> 5"
abbreviation (input) RK_LINK :: u32 where "RK_LINK \<equiv> 6"
abbreviation (input) RK_IMAGE :: u32 where "RK_IMAGE \<equiv> 7"
abbreviation (input) RK_AUTOLINK :: u32 where "RK_AUTOLINK \<equiv> 8"
abbreviation (input) RK_ESCAPE :: u32 where "RK_ESCAPE \<equiv> 9"
abbreviation (input) RK_REPLACEMENT :: u32 where "RK_REPLACEMENT \<equiv> 10"
abbreviation (input) RK_HARD_BREAK :: u32 where "RK_HARD_BREAK \<equiv> 11"
abbreviation (input) RK_SOFT_BREAK :: u32 where "RK_SOFT_BREAK \<equiv> 12"
abbreviation (input) RK_HTML_INLINE :: u32 where "RK_HTML_INLINE \<equiv> 13"
abbreviation (input) RK_FOOTNOTE_REF :: u32 where "RK_FOOTNOTE_REF \<equiv> 14"
abbreviation (input) RK_OTHER :: u32 where "RK_OTHER \<equiv> 16"
abbreviation (input) TA_NONE :: u32 where "TA_NONE \<equiv> 0"
abbreviation (input) TA_LEFT :: u32 where "TA_LEFT \<equiv> 1"
abbreviation (input) TA_CENTER :: u32 where "TA_CENTER \<equiv> 2"
abbreviation (input) TA_RIGHT :: u32 where "TA_RIGHT \<equiv> 3"

text \<open>The wire format: version and magic, record widths, and the shifts and masks of packed words.\<close>

abbreviation (input) SCHEMA_VERSION :: u32 where "SCHEMA_VERSION \<equiv> 5"
abbreviation (input) SCHEMA_MAGIC :: u32 where "SCHEMA_MAGIC \<equiv> 0x354B4C46"
abbreviation (input) WIRE_HEADER_WORDS :: nat where "WIRE_HEADER_WORDS \<equiv> 12"
abbreviation (input) WIRE_LINE_WORDS :: nat where "WIRE_LINE_WORDS \<equiv> 1"
abbreviation (input) WIRE_BLOCK_WORDS :: nat where "WIRE_BLOCK_WORDS \<equiv> 10"
abbreviation (input) WIRE_CONTENT_WORDS :: nat where "WIRE_CONTENT_WORDS \<equiv> 4"
abbreviation (input) WIRE_RUN_WORDS :: nat where "WIRE_RUN_WORDS \<equiv> 4"
abbreviation (input) WIRE_DEFINITION_WORDS :: nat where "WIRE_DEFINITION_WORDS \<equiv> 6"
abbreviation (input) WIRE_RUN_EXTRA_WORDS :: nat where "WIRE_RUN_EXTRA_WORDS \<equiv> 2"
abbreviation (input) KIND_FLAGS_FLAGS_SHIFT :: nat where "KIND_FLAGS_FLAGS_SHIFT \<equiv> 8"
abbreviation (input) VIRTUAL_SHIFT :: nat where "VIRTUAL_SHIFT \<equiv> 30"
abbreviation (input) HIDDEN_AFTER_SHIFT :: nat where "HIDDEN_AFTER_SHIFT \<equiv> 16"
abbreviation (input) RUN_FLAGS_SHIFT :: nat where "RUN_FLAGS_SHIFT \<equiv> 8"
abbreviation (input) PARENT_DISTANCE_SHIFT :: nat where "PARENT_DISTANCE_SHIFT \<equiv> 16"
abbreviation (input) KIND_MASK :: u32 where "KIND_MASK \<equiv> 0xFF"
abbreviation (input) BLOCK_FLAGS_MASK :: u32 where "BLOCK_FLAGS_MASK \<equiv> 0xFFFFFF"
abbreviation (input) LINE_MASK :: u32 where "LINE_MASK \<equiv> 0x3FFFFFFF"
abbreviation (input) VIRTUAL_MASK :: u32 where "VIRTUAL_MASK \<equiv> 0x3"
abbreviation (input) HIDDEN_MASK :: u32 where "HIDDEN_MASK \<equiv> 0xFFFF"
abbreviation (input) RUN_FLAGS_MASK :: u32 where "RUN_FLAGS_MASK \<equiv> 0xFF"
abbreviation (input) PARENT_DISTANCE_MASK :: u32 where "PARENT_DISTANCE_MASK \<equiv> 0xFFFF"
abbreviation (input) EXTRA_NONE :: u32 where "EXTRA_NONE \<equiv> 0xFFFFFFFF"

text \<open>Wire records, and each as the words it occupies.\<close>

record wire_header =
  wh_magic :: u32
  wh_version :: u32
  wh_src_bytes :: u32
  wh_src_utf16 :: u32
  wh_line_count :: u32
  wh_block_count :: u32
  wh_content_count :: u32
  wh_run_count :: u32
  wh_definition_count :: u32
  wh_run_extra_count :: u32
  wh_extra_words :: u32
  wh_string_bytes :: u32

definition wire_header_words :: "wire_header \<Rightarrow> u32 list" where
  "wire_header_words r = [wh_magic r, wh_version r, wh_src_bytes r, wh_src_utf16 r, wh_line_count r, wh_block_count r, wh_content_count r, wh_run_count r, wh_definition_count r, wh_run_extra_count r, wh_extra_words r, wh_string_bytes r]"

record wire_block =
  wb_kind_flags :: u32
  wb_parent :: u32
  wb_start :: u32
  wb_end16 :: u32
  wb_first_line :: u32
  wb_line_count :: u32
  wb_content_offset :: u32
  wb_first_run :: u32
  wb_attr :: u32
  wb_extra :: u32

definition wire_block_words :: "wire_block \<Rightarrow> u32 list" where
  "wire_block_words r = [wb_kind_flags r, wb_parent r, wb_start r, wb_end16 r, wb_first_line r, wb_line_count r, wb_content_offset r, wb_first_run r, wb_attr r, wb_extra r]"

record wire_content =
  wc_start :: u32
  wc_end16 :: u32
  wc_prefix_start :: u32
  wc_line_virtual :: u32

definition wire_content_words :: "wire_content \<Rightarrow> u32 list" where
  "wire_content_words r = [wc_start r, wc_end16 r, wc_prefix_start r, wc_line_virtual r]"

record wire_run =
  wr_start :: u32
  wr_end16 :: u32
  wr_hidden :: u32
  wr_kind_flags_parent :: u32

definition wire_run_words :: "wire_run \<Rightarrow> u32 list" where
  "wire_run_words r = [wr_start r, wr_end16 r, wr_hidden r, wr_kind_flags_parent r]"

record wire_definition =
  wd_start :: u32
  wd_end16 :: u32
  wd_label_start :: u32
  wd_label_end :: u32
  wd_dest_start :: u32
  wd_dest_end :: u32

definition wire_definition_words :: "wire_definition \<Rightarrow> u32 list" where
  "wire_definition_words r = [wd_start r, wd_end16 r, wd_label_start r, wd_label_end r, wd_dest_start r, wd_dest_end r]"

record wire_run_extra =
  wx_run :: u32
  wx_offset :: u32

definition wire_run_extra_words :: "wire_run_extra \<Rightarrow> u32 list" where
  "wire_run_extra_words r = [wx_run r, wx_offset r]"


text \<open>Values only some kinds carry, in the extras section: \<^verbatim>\<open>schema::extra\<close>.\<close>

datatype extra =
    CodeBlockExtra u32 u32
  | ItemExtra u32 u32 u32
  | TableExtra u32
  | FootnoteDefinitionExtra u32 u32
  | WideRunExtra u32 u32 u32
  | LinkExtra u32 u32 u32 u32 u32 u32 u32 u32
  | DisplayTextExtra u32 u32
  | FootnoteRefExtra u32 u32

fun extra_words :: "extra \<Rightarrow> u32 list" where
  "extra_words (CodeBlockExtra info_start info_end) = [info_start, info_end]"
| "extra_words (ItemExtra marker_end task_start task_end) = [marker_end, task_start, task_end]"
| "extra_words (TableExtra alignments) = [alignments]"
| "extra_words (FootnoteDefinitionExtra label_start label_end) = [label_start, label_end]"
| "extra_words (WideRunExtra content_start content_end parent) = [content_start, content_end, parent]"
| "extra_words (LinkExtra ds de ts te d_off d_len t_off t_len) = [ds, de, ts, te, d_off, d_len, t_off, t_len]"
| "extra_words (DisplayTextExtra offset len) = [offset, len]"
| "extra_words (FootnoteRefExtra label_start label_end) = [label_start, label_end]"


text \<open>The internal records of the extraction, \<^verbatim>\<open>records.rs\<close>: every range in bytes and in UTF-16.\<close>

record block_rec =
  bl_kind :: u32
  bl_parent :: u32
  bl_start_byte :: u32
  bl_end_byte :: u32
  bl_start_utf16 :: u32
  bl_end_utf16 :: u32
  bl_first_line :: u32
  bl_line_count :: u32
  bl_content_offset :: u32
  bl_content_count :: u32
  bl_attr0 :: u32
  bl_attr1 :: u32
  bl_attr2 :: u32
  bl_flags :: u32
  bl_marker_end_byte :: u32
  bl_marker_end_utf16 :: u32

definition block_rec_words :: "block_rec \<Rightarrow> u32 list" where
  "block_rec_words r = [bl_kind r, bl_parent r, bl_start_byte r, bl_end_byte r, bl_start_utf16 r, bl_end_utf16 r, bl_first_line r, bl_line_count r, bl_content_offset r, bl_content_count r, bl_attr0 r, bl_attr1 r, bl_attr2 r, bl_flags r, bl_marker_end_byte r, bl_marker_end_utf16 r]"

record content_rec =
  co_line :: u32
  co_start_byte :: u32
  co_start_utf16 :: u32
  co_end_byte :: u32
  co_end_utf16 :: u32
  co_virtual_leading_spaces :: u32
  co_prefix_start_byte :: u32
  co_prefix_start_utf16 :: u32

definition content_rec_words :: "content_rec \<Rightarrow> u32 list" where
  "content_rec_words r = [co_line r, co_start_byte r, co_start_utf16 r, co_end_byte r, co_end_utf16 r, co_virtual_leading_spaces r, co_prefix_start_byte r, co_prefix_start_utf16 r]"

record run_rec =
  ru_kind :: u32
  ru_block :: u32
  ru_parent :: u32
  ru_start_byte :: u32
  ru_end_byte :: u32
  ru_content_start_byte :: u32
  ru_content_end_byte :: u32
  ru_start_utf16 :: u32
  ru_end_utf16 :: u32
  ru_content_start_utf16 :: u32
  ru_content_end_utf16 :: u32
  ru_aux0 :: u32
  ru_aux1 :: u32
  ru_aux2 :: u32
  ru_aux3 :: u32
  ru_flags :: u32
  ru_destination_offset :: u32
  ru_destination_length :: u32
  ru_title_offset :: u32
  ru_title_length :: u32

definition run_rec_words :: "run_rec \<Rightarrow> u32 list" where
  "run_rec_words r = [ru_kind r, ru_block r, ru_parent r, ru_start_byte r, ru_end_byte r, ru_content_start_byte r, ru_content_end_byte r, ru_start_utf16 r, ru_end_utf16 r, ru_content_start_utf16 r, ru_content_end_utf16 r, ru_aux0 r, ru_aux1 r, ru_aux2 r, ru_aux3 r, ru_flags r, ru_destination_offset r, ru_destination_length r, ru_title_offset r, ru_title_length r]"

record definition_words_rec =
  dw_start_byte :: u32
  dw_end_byte :: u32
  dw_start_utf16 :: u32
  dw_end_utf16 :: u32
  dw_label_start_byte :: u32
  dw_label_end_byte :: u32
  dw_dest_start_byte :: u32
  dw_dest_end_byte :: u32

definition definition_words_rec_words :: "definition_words_rec \<Rightarrow> u32 list" where
  "definition_words_rec_words r = [dw_start_byte r, dw_end_byte r, dw_start_utf16 r, dw_end_utf16 r, dw_label_start_byte r, dw_label_end_byte r, dw_dest_start_byte r, dw_dest_end_byte r]"

record records_header =
  rh_magic :: u32
  rh_version :: u32
  rh_src_bytes :: u32
  rh_src_utf16 :: u32
  rh_line_count :: u32
  rh_block_count :: u32
  rh_content_count :: u32
  rh_run_count :: u32
  rh_definition_count :: u32
  rh_string_bytes :: u32
  rh_reserved :: u32

definition records_header_words :: "records_header \<Rightarrow> u32 list" where
  "records_header_words r = [rh_magic r, rh_version r, rh_src_bytes r, rh_src_utf16 r, rh_line_count r, rh_block_count r, rh_content_count r, rh_run_count r, rh_definition_count r, rh_string_bytes r, rh_reserved r]"

record line_rec =
  li_start_byte :: u32
  li_start_utf16 :: u32

definition line_rec_words :: "line_rec \<Rightarrow> u32 list" where
  "line_rec_words r = [li_start_byte r, li_start_utf16 r]"

text \<open>\<^verbatim>\<open>[0; block::WORDS]\<close> and \<^verbatim>\<open>[0; run::WORDS]\<close>.\<close>

definition zero_block :: block_rec where
  "zero_block = \<lparr>bl_kind = 0, bl_parent = 0, bl_start_byte = 0, bl_end_byte = 0, bl_start_utf16 = 0, bl_end_utf16 = 0, bl_first_line = 0, bl_line_count = 0, bl_content_offset = 0, bl_content_count = 0, bl_attr0 = 0, bl_attr1 = 0, bl_attr2 = 0, bl_flags = 0, bl_marker_end_byte = 0, bl_marker_end_utf16 = 0\<rparr>"

definition zero_run :: run_rec where
  "zero_run = \<lparr>ru_kind = 0, ru_block = 0, ru_parent = 0, ru_start_byte = 0, ru_end_byte = 0, ru_content_start_byte = 0, ru_content_end_byte = 0, ru_start_utf16 = 0, ru_end_utf16 = 0, ru_content_start_utf16 = 0, ru_content_end_utf16 = 0, ru_aux0 = 0, ru_aux1 = 0, ru_aux2 = 0, ru_aux3 = 0, ru_flags = 0, ru_destination_offset = 0, ru_destination_length = 0, ru_title_offset = 0, ru_title_length = 0\<rparr>"

end
