(* ===== verification/Flark_Buffers.thy ===== *)
theory Flark_Buffers
  imports Flark_Columns Flark_Schema
begin

text \<open>
  The derived buffers of \<^verbatim>\<open>native/flark_parse/src/model.rs\<close>: the paragraph buffer comrak reads
  definitions from and its way back to the source (\<open>line_buffer\<close>), a leaf's text for link
  repairs (\<open>leaf_text\<close>), the escaped pipes removed before inline parsing (\<open>pipe_counts\<close>, a memo
  extended on demand), and the innermost container of each line (\<open>innermost_per_line\<close>, a
  union-find over the next open line). The lemmas show that a buffer offset maps to the
  source byte it was copied from, that the pipe memo always answers the direct count, which
  is what \<open>unescape_pipes\<close> removes, and that the union-find gives each line the last
  span that covers it.
\<close>

definition has_bare_cr :: "bytes \<Rightarrow> nat \<Rightarrow> nat \<Rightarrow> bool" where
  "has_bare_cr bs lo hi = list_ex (\<lambda>i. byte_at bs i = Some CR \<and> byte_at bs (i + 1) \<noteq> Some LF) [lo..<hi]"

subsection \<open>Line buffers\<close>

record line_buffer =
  lb_text :: bytes
  lb_starts :: "nat list"

definition buffer_line :: "bytes \<Rightarrow> line_index \<Rightarrow> line_span \<Rightarrow> bytes" where
  "buffer_line src li l =
     replicate (ls_virt l) (CHR '' '') @ seg src (ls_start l) (line_end_with_break li (ls_line0 l) (length src))"

fun line_buffer_loop :: "bytes \<Rightarrow> line_index \<Rightarrow> line_span list \<Rightarrow> line_buffer \<Rightarrow> line_buffer" where
  "line_buffer_loop src li [] b = b\<lparr>lb_starts := lb_starts b @ [length (lb_text b)]\<rparr>"
| "line_buffer_loop src li (l # ls) b =
     line_buffer_loop src li ls
       \<lparr>lb_text = lb_text b @ buffer_line src li l, lb_starts = lb_starts b @ [length (lb_text b)]\<rparr>"

definition line_buffer_new :: "bytes \<Rightarrow> line_index \<Rightarrow> line_span list \<Rightarrow> line_buffer" where
  "line_buffer_new src li lines = line_buffer_loop src li lines \<lparr>lb_text = [], lb_starts = []\<rparr>"

definition buffer_line_at :: "line_buffer \<Rightarrow> nat \<Rightarrow> nat" where
  "buffer_line_at b off = min (partition_point (\<lambda>s. s \<le> off) (lb_starts b) - 1) (length (lb_starts b) - 2)"

definition buffer_byte :: "line_buffer \<Rightarrow> line_span list \<Rightarrow> nat \<Rightarrow> nat" where
  "buffer_byte b lines off =
     (let i = buffer_line_at b off
      in ls_start (lines ! i) + (off - lb_starts b ! i - ls_virt (lines ! i)))"

subsection \<open>A leaf's text\<close>

record leaf_text =
  lt_key :: "nat \<times> nat"
  lt_bytes :: bytes
  lt_offsets :: "nat list"
  lt_line_starts :: "nat list"

definition leaf_text_step :: "bytes \<Rightarrow> content_rec \<Rightarrow> leaf_text \<Rightarrow> leaf_text" where
  "leaf_text_step src r t =
     (let start = to_usize (co_start_byte r); e = to_usize (co_end_byte r)
      in t\<lparr>lt_line_starts := lt_line_starts t @ [length (lt_bytes t)],
           lt_bytes := lt_bytes t @ seg src start e @ [LF],
           lt_offsets := lt_offsets t @ [start..<e] @ [e]\<rparr>)"

definition leaf_text_new :: "bytes \<Rightarrow> content_rec list \<Rightarrow> nat \<Rightarrow> leaf_text" where
  "leaf_text_new src content lo =
     fold (leaf_text_step src) (drop lo content)
       \<lparr>lt_key = (lo, length content), lt_bytes = [], lt_offsets = [], lt_line_starts = []\<rparr>"

subsection \<open>Escaped pipes\<close>

record pipe_counts =
  pc_origin :: nat
  pc_last_was_backslash :: bool
  pc_counts :: "u32 list"

definition pipe_counts_default :: pipe_counts where
  "pipe_counts_default = \<lparr>pc_origin = 0, pc_last_was_backslash = False, pc_counts = []\<rparr>"

text \<open>One byte: a pipe after an unescaped backslash is counted; any byte after one resets the toggle.\<close>

definition pipe_step :: "byte \<Rightarrow> bool \<times> u32 \<Rightarrow> bool \<times> u32" where
  "pipe_step b s =
     (case s of (last_was_backslash, n) \<Rightarrow>
        if last_was_backslash then (False, if b = CHR ''|'' then n + 1 else n)
        else (b = BACKSLASH, n))"

function extend_counts :: "bytes \<Rightarrow> nat \<Rightarrow> pipe_counts \<Rightarrow> pipe_counts" where
  "extend_counts src hi pc =
     (if pc_origin pc + length (pc_counts pc) \<le> hi then
        (case pipe_step (src ! (pc_origin pc + length (pc_counts pc) - 1)) (pc_last_was_backslash pc, last (pc_counts pc)) of
           (lwb, n) \<Rightarrow> extend_counts src hi (pc\<lparr>pc_last_was_backslash := lwb, pc_counts := pc_counts pc @ [n]\<rparr>))
      else pc)"
  by pat_completeness auto
termination
  by (relation "measure (\<lambda>(src, hi, pc). Suc hi - (pc_origin pc + length (pc_counts pc)))") auto

declare extend_counts.simps [simp del]

definition pipes_removed :: "pipe_counts \<Rightarrow> bytes \<Rightarrow> nat \<Rightarrow> nat \<Rightarrow> nat \<Rightarrow> nat \<times> pipe_counts" where
  "pipes_removed pc src origin lo hi =
     (let pc0 = (if pc_origin pc \<noteq> origin \<or> pc_counts pc = []
                 then \<lparr>pc_origin = origin, pc_last_was_backslash = False, pc_counts = [0]\<rparr> else pc);
          hi' = max (min hi (length src)) lo;
          pc1 = extend_counts src hi' pc0
      in (to_usize (pc_counts pc1 ! (hi' - origin) - pc_counts pc1 ! (lo - origin)), pc1))"

subsection \<open>The innermost container of each line\<close>

text \<open>
  Following the links of the union-find up to a root. Every entry points at itself or further
  down the document (\<open>links_up\<close> below), so a link that is not a root is one that points up,
  which is what the loop tests.
\<close>

function open_root :: "nat list \<Rightarrow> nat \<Rightarrow> nat" where
  "open_root links l = (if l < length links \<and> l < links ! l then open_root links (links ! l) else l)"
  by pat_completeness auto
termination
  by (relation "measure (\<lambda>(links, l). length links - l)") auto

declare open_root.simps [simp del]

function compress :: "nat list \<Rightarrow> nat \<Rightarrow> nat \<Rightarrow> nat list" where
  "compress links root l =
     (if l < length links \<and> l < links ! l \<and> links ! l \<noteq> root then compress (links[l := root]) root (links ! l) else links)"
  by pat_completeness auto
termination
  by (relation "measure (\<lambda>(links, root, l). length links - l)") auto

declare compress.simps [simp del]

definition next_open :: "nat list \<Rightarrow> nat \<Rightarrow> nat \<times> nat list" where
  "next_open links l = (let root = open_root links l in (root, compress links root l))"

lemma open_root_ge: "l \<le> open_root links l"
proof (induction links l rule: open_root.induct)
  case (1 links l)
  then show ?case by (subst open_root.simps) auto
qed

lemma next_open_ge: "next_open links l = (r, links') \<Longrightarrow> l \<le> r"
  using open_root_ge by (auto simp: next_open_def Let_def)

function own_lines :: "nat \<Rightarrow> nat \<Rightarrow> nat \<Rightarrow> nat \<Rightarrow> nat option list \<Rightarrow> nat list \<Rightarrow> nat option list \<times> nat list" where
  "own_lines lines i lst line owner links =
     (if line \<le> lst \<and> line < lines then
        (case next_open (links[line := line + 1]) (line + 1) of
           (line', links') \<Rightarrow> own_lines lines i lst line' (owner[line := Some i]) links')
      else (owner, links))"
  by pat_completeness auto
termination
  by (relation "measure (\<lambda>(lines, i, lst, line, owner, links). lines - line)")
     (auto dest!: next_open_ge [OF sym] intro: diff_less_mono2)

declare own_lines.simps [simp del]

definition own_span :: "nat \<Rightarrow> nat \<times> nat \<times> nat \<Rightarrow> nat option list \<times> nat list \<Rightarrow> nat option list \<times> nat list" where
  "own_span lines span s =
     (case span of (i, first, lst) \<Rightarrow>
      case s of (owner, links) \<Rightarrow>
        if lst = USIZE_MAX then (owner, links)
        else
          (case next_open links (min first lines) of
             (line, links') \<Rightarrow> own_lines lines i lst line owner links'))"

definition innermost_per_line :: "nat \<Rightarrow> bool list \<Rightarrow> (nat \<times> nat) list \<Rightarrow> nat option list" where
  "innermost_per_line lines taken spans =
     fst (fold (own_span lines) (rev (zip [0..<length spans] spans))
       (replicate lines None, map (\<lambda>l. if l < length taken \<and> taken ! l then l + 1 else l) [0..<lines + 1]))"

subsection \<open>A buffer offset maps to the byte it was copied from\<close>

text \<open>Where each line's piece of the buffer begins.\<close>

fun piece_starts :: "nat \<Rightarrow> bytes list \<Rightarrow> nat list" where
  "piece_starts n [] = [n]"
| "piece_starts n (p # ps) = n # piece_starts (n + length p) ps"

lemma length_piece_starts [simp]: "length (piece_starts n ps) = Suc (length ps)"
  by (induction ps arbitrary: n) auto

lemma piece_starts_nth: "k \<le> length ps \<Longrightarrow> piece_starts n ps ! k = n + length (concat (take k ps))"
proof (induction ps arbitrary: n k)
  case (Cons p ps)
  then show ?case by (cases k) auto
qed simp

lemma line_buffer_loop_eq:
  "line_buffer_loop src li ls b =
     \<lparr>lb_text = lb_text b @ concat (map (buffer_line src li) ls),
      lb_starts = lb_starts b @ piece_starts (length (lb_text b)) (map (buffer_line src li) ls)\<rparr>"
  by (induction ls arbitrary: b) auto

lemma line_buffer_new_eq:
  "lb_text (line_buffer_new src li lines) = concat (map (buffer_line src li) lines)"
  "lb_starts (line_buffer_new src li lines) = piece_starts 0 (map (buffer_line src li) lines)"
  by (simp_all add: line_buffer_new_def line_buffer_loop_eq)

lemma sorted_piece_starts: "sorted (piece_starts n ps)"
proof (induction ps arbitrary: n)
  case (Cons p ps)
  have "n \<le> x" if "x \<in> set (piece_starts (n + length p) ps)" for x
    using that by (auto simp: in_set_conv_nth piece_starts_nth less_Suc_eq_le)
  then show ?case using Cons by simp
qed simp

lemma buffer_line_at_spec:
  assumes b: "b = line_buffer_new src li lines" and off: "off < length (lb_text b)"
  shows "buffer_line_at b off < length lines \<and> lb_starts b ! buffer_line_at b off \<le> off \<and>
         off < lb_starts b ! Suc (buffer_line_at b off)"
proof -
  let ?ps = "map (buffer_line src li) lines" and ?p = "partition_point (\<lambda>s. s \<le> off) (lb_starts b)"
  have s: "lb_starts b = piece_starts 0 ?ps" "lb_text b = concat ?ps" using b line_buffer_new_eq by auto
  have len: "length (lb_starts b) = Suc (length lines)" using s by simp
  have srt: "sorted (lb_starts b)" using s sorted_piece_starts by simp
  have part: "k < ?p \<longleftrightarrow> lb_starts b ! k \<le> off" if "k \<le> length lines" for k
    using partition_point_sorted [OF srt, of "\<lambda>s. s \<le> off" k] that len by force
  have "lb_starts b ! 0 = 0" using s by (cases ?ps) auto
  then have lo: "0 < ?p" using part [of 0] by simp
  have "lb_starts b ! length lines = length (concat ?ps)" using s piece_starts_nth [of "length lines" ?ps 0] by simp
  then have hi: "?p \<le> length lines" using part [of "length lines"] off s(2) by simp
  then have at: "buffer_line_at b off = ?p - 1" using lo len by (simp add: buffer_line_at_def)
  show ?thesis using part [of "?p - 1"] part [of ?p] lo hi unfolding at by auto
qed

lemma concat_nth:
  "k < length ps \<Longrightarrow> j < length (ps ! k) \<Longrightarrow> concat ps ! (length (concat (take k ps)) + j) = ps ! k ! j"
proof (induction ps arbitrary: k)
  case (Cons p ps)
  then show ?case by (cases k) (auto simp: nth_append add.assoc)
qed simp

text \<open>
  Every offset of a rebuilt paragraph buffer maps to the source byte that buffer byte was copied
  from, inside the line that holds it; an offset among the virtual spaces of a partially
  consumed tab holds a space and maps to its line's first byte.
\<close>

lemma buffer_byte_copied:
  assumes "b = line_buffer_new src li lines" "off < length (lb_text b)"
    and "\<forall>l \<in> set lines. line_end_with_break li (ls_line0 l) (length src) \<le> length src"
  shows "let i = buffer_line_at b off; l = lines ! i in
         i < length lines \<and>
         (if off - lb_starts b ! i < ls_virt l then lb_text b ! off = CHR '' '' \<and> buffer_byte b lines off = ls_start l
          else buffer_byte b lines off < line_end_with_break li (ls_line0 l) (length src) \<and>
               ls_start l \<le> buffer_byte b lines off \<and> lb_text b ! off = src ! buffer_byte b lines off)"
proof -
  let ?ps = "map (buffer_line src li) lines"
  define i where "i = buffer_line_at b off"
  define l where "l = lines ! i"
  define j where "j = off - lb_starts b ! i"
  have at: "i < length lines" "lb_starts b ! i \<le> off" "off < lb_starts b ! Suc i"
    using buffer_line_at_spec [OF assms(1,2)] i_def by auto
  have st: "lb_starts b ! i = length (concat (take i ?ps))" "lb_starts b ! Suc i = length (concat (take (Suc i) ?ps))"
    using assms(1) at(1) line_buffer_new_eq [of src li lines] by (simp_all add: piece_starts_nth)
  then have j: "j < length (buffer_line src li l)" "off = length (concat (take i ?ps)) + j"
    using at by (auto simp: j_def l_def take_Suc_conv_app_nth)
  have copied: "lb_text b ! off = buffer_line src li l ! j"
    using concat_nth [of i ?ps j] at(1) j assms(1) line_buffer_new_eq(1) [of src li lines] by (simp add: l_def)
  have "line_end_with_break li (ls_line0 l) (length src) \<le> length src" using assms(3) at(1) l_def by auto
  then have "\<not> j < ls_virt l \<Longrightarrow> ls_start l + (j - ls_virt l) < line_end_with_break li (ls_line0 l) (length src)"
    using j(1) by (auto simp: buffer_line_def)
  moreover have "\<not> j < ls_virt l \<Longrightarrow> buffer_line src li l ! j = src ! (ls_start l + (j - ls_virt l))"
    using j(1) by (auto simp: buffer_line_def nth_append seg_nth)
  moreover have "buffer_byte b lines off = ls_start l + (j - ls_virt l)"
    by (simp add: buffer_byte_def i_def [symmetric] l_def [symmetric] j_def Let_def)
  ultimately show ?thesis
    using at(1) copied by (auto simp: i_def [symmetric] l_def [symmetric] j_def [symmetric] Let_def buffer_line_def nth_append)
qed

subsection \<open>The pipe memo\<close>

text \<open>The backslashes removed from a text, read from its start.\<close>

fun removed_from :: "bool \<Rightarrow> bytes \<Rightarrow> nat" where
  "removed_from lwb [] = 0"
| "removed_from lwb (b # bs) =
     (if lwb then (if b = CHR ''|'' then 1 else 0) + removed_from False bs
      else removed_from (b = BACKSLASH) bs)"

fun toggle_after :: "bool \<Rightarrow> bytes \<Rightarrow> bool" where
  "toggle_after lwb [] = lwb"
| "toggle_after lwb (b # bs) = toggle_after (\<not> lwb \<and> b = BACKSLASH) bs"

lemma removed_snoc:
  "removed_from lwb (bs @ [b]) = removed_from lwb bs + (if toggle_after lwb bs \<and> b = CHR ''|'' then 1 else 0)"
  "toggle_after lwb (bs @ [b]) = (\<not> toggle_after lwb bs \<and> b = BACKSLASH)"
  by (induction bs arbitrary: lwb) auto

lemma removed_le: "removed_from lwb bs \<le> length bs"
  by (induction bs arbitrary: lwb) (auto intro: le_SucI)

lemma removed_append: "removed_from lwb (xs @ ys) = removed_from lwb xs + removed_from (toggle_after lwb xs) ys"
  by (induction xs arbitrary: lwb) auto

text \<open>A memo of a source: the counts of every prefix read so far, from its origin.\<close>

definition pipe_memo :: "bytes \<Rightarrow> pipe_counts \<Rightarrow> bool" where
  "pipe_memo src pc =
     (pc_counts pc \<noteq> [] \<and> pc_origin pc + length (pc_counts pc) \<le> Suc (length src) \<and>
      (\<forall>i < length (pc_counts pc). pc_counts pc ! i = to_u32 (removed_from False (seg src (pc_origin pc) (pc_origin pc + i)))) \<and>
      pc_last_was_backslash pc = toggle_after False (seg src (pc_origin pc) (pc_origin pc + (length (pc_counts pc) - 1))))"

lemma extend_counts_memo:
  "pipe_memo src pc \<Longrightarrow> hi \<le> length src \<Longrightarrow>
   pipe_memo src (extend_counts src hi pc) \<and> pc_origin (extend_counts src hi pc) = pc_origin pc \<and>
   hi < pc_origin pc + length (pc_counts (extend_counts src hi pc))"
proof (induction src hi pc rule: extend_counts.induct)
  case (1 src hi pc)
  note unf = extend_counts.simps [of src hi pc]
  let ?o = "pc_origin pc" and ?n = "length (pc_counts pc)"
  show ?case
  proof (cases "?o + ?n \<le> hi")
    case False
    then show ?thesis using "1.prems" by (simp add: unf)
  next
    case True
    have n: "0 < ?n" using "1.prems" by (simp add: pipe_memo_def)
    let ?k = "?o + (?n - 1)"
    have at: "?o + ?n - 1 = ?k" using n by linarith
    have k: "?o \<le> ?k" "?k < length src" "Suc ?k = ?o + ?n" using n True "1.prems"(2) by linarith+
    have seg: "seg src ?o (?o + ?n) = seg src ?o ?k @ [src ! ?k]"
      using seg_snoc [OF k(1,2)] unfolding k(3) .
    have lst: "last (pc_counts pc) = to_u32 (removed_from False (seg src ?o ?k))"
      using "1.prems"(1) n by (auto simp: pipe_memo_def last_conv_nth)
    obtain lwb m where lm: "pipe_step (src ! ?k) (pc_last_was_backslash pc, last (pc_counts pc)) = (lwb, m)" by force
    have m: "m = to_u32 (removed_from False (seg src ?o (?o + ?n)))" "lwb = toggle_after False (seg src ?o (?o + ?n))"
      using lm lst "1.prems"(1) unfolding seg removed_snoc
      by (auto simp: pipe_step_def pipe_memo_def split: if_splits)
    let ?pc = "pc\<lparr>pc_last_was_backslash := lwb, pc_counts := pc_counts pc @ [m]\<rparr>"
    have "pipe_memo src ?pc"
      using "1.prems" True n m by (auto simp: pipe_memo_def nth_append less_Suc_eq)
    then show ?thesis using "1.IH" [OF True lm [folded at, symmetric]] lm True "1.prems"(2) at by (simp add: unf)
  qed
qed

lemma pipes_removed_count:
  assumes "pipe_memo src pc \<or> pc = pipe_counts_default" "length src < 2 ^ 32" "origin \<le> lo" "lo \<le> length src"
  shows "fst (pipes_removed pc src origin lo hi) =
           removed_from False (seg src origin (max (min hi (length src)) lo)) - removed_from False (seg src origin lo) \<and>
         pipe_memo src (snd (pipes_removed pc src origin lo hi))"
proof -
  define pc0 where "pc0 = (if pc_origin pc \<noteq> origin \<or> pc_counts pc = []
      then \<lparr>pc_origin = origin, pc_last_was_backslash = False, pc_counts = [0]\<rparr> else pc)"
  define h where "h = max (min hi (length src)) lo"
  define pc1 where "pc1 = extend_counts src h pc0"
  have h: "lo \<le> h" "h \<le> length src" using assms(4) by (auto simp: h_def)
  have "pipe_memo src pc0" "pc_origin pc0 = origin"
    using assms by (auto simp: pc0_def pipe_memo_def pipe_counts_default_def)
  with extend_counts_memo [of src pc0 h] h
  have m1: "pipe_memo src pc1" "pc_origin pc1 = origin" "h < origin + length (pc_counts pc1)"
    by (auto simp: pc1_def)
  have at: "pc_counts pc1 ! (x - origin) = to_u32 (removed_from False (seg src origin x))" if "lo \<le> x" "x \<le> h" for x
    using m1 that assms(3) by (auto simp: pipe_memo_def)
  have le: "removed_from False (seg src origin x) < 2 ^ 32" for x
    using removed_le [of False "seg src origin x"] assms(2) by (simp add: min_def split: if_splits)
  have mono: "removed_from False (seg src origin lo) \<le> removed_from False (seg src origin h)"
    using seg_append [of origin lo h src] h assms(3) removed_append [of False "seg src origin lo" "seg src lo h"] by simp
  have eq: "pipes_removed pc src origin lo hi = (to_usize (pc_counts pc1 ! (h - origin) - pc_counts pc1 ! (lo - origin)), pc1)"
    unfolding pipes_removed_def Let_def pc1_def pc0_def h_def by (rule refl)
  then have "fst (pipes_removed pc src origin lo hi) =
      to_usize (to_u32 (removed_from False (seg src origin h)) - to_u32 (removed_from False (seg src origin lo)))"
    using at h by simp
  also have "\<dots> = removed_from False (seg src origin h) - removed_from False (seg src origin lo)"
    using mono le by (simp add: of_nat_diff [symmetric] less_imp_diff_less del: of_nat_diff)
  finally show ?thesis using m1(1) eq by (simp add: h_def)
qed

text \<open>
  The escaped-pipe memo is transparent: whatever leaf and positions it was asked about before,
  it answers the number of backslashes removed between two positions counted directly
  from the leaf's start, and stays a memo of the source.
\<close>

lemma pipes_removed_direct:
  assumes "pipe_memo src pc \<or> pc = pipe_counts_default" "length src < 2 ^ 32" "origin \<le> lo" "lo \<le> length src"
  shows "fst (pipes_removed pc src origin lo hi) =
           removed_from False (seg src origin (max (min hi (length src)) lo)) - removed_from False (seg src origin lo) \<and>
         pipe_memo src (snd (pipes_removed pc src origin lo hi))"
  by (rule pipes_removed_count [OF assms])

lemma removed_cont: "\<forall>x \<in> set xs. is_cont x \<Longrightarrow> removed_from False (xs @ rest) = removed_from False rest"
proof (induction xs)
  case (Cons x xs)
  then have "x \<noteq> BACKSLASH" by (auto simp: is_cont_def)
  then show ?case using Cons by simp
qed simp

lemma scalar_ascii: "scalar_ok (b # cs) \<Longrightarrow> bval b < 128 \<Longrightarrow> cs = []"
  using scalar_ok_length [of b cs] by (simp add: utf8_width_def)

lemma removed_scalar:
  assumes "scalar_ok c" "c \<noteq> []"
  shows "c \<noteq> [BACKSLASH] \<Longrightarrow> removed_from False (c @ rest) = removed_from False rest"
    and "removed_from True (c @ rest) = (if c = ''|'' then 1 else 0) + removed_from False rest"
proof -
  obtain b cs where b: "c = b # cs" using assms(2) by (cases c) auto
  have cont: "removed_from False (cs @ rest) = removed_from False rest"
    using removed_cont scalar_ok_cont [of b cs] assms(1) b by blast
  have "b = BACKSLASH \<Longrightarrow> cs = []" "b = CHR ''|'' \<Longrightarrow> cs = []" using scalar_ascii [of b cs] assms(1) b by auto
  then show "c \<noteq> [BACKSLASH] \<Longrightarrow> removed_from False (c @ rest) = removed_from False rest"
    and "removed_from True (c @ rest) = (if c = ''|'' then 1 else 0) + removed_from False rest"
    using b cont by auto
qed

text \<open>
  What the memo counts is what unescaping removes: unescaping a text shortens it by exactly the
  number of backslashes counted from its start.
\<close>

lemma unescape_pipes_length:
  assumes "utf8_valid s"
  shows "length (unescape_pipes s) + removed_from False s = length s"
  using assms unfolding unescape_pipes_def
proof (induction "length s" arbitrary: s rule: less_induct)
  case less
  show ?case
  proof (cases "s = []")
    case False
    obtain c r where c: "s = c @ r" "scalar_ok c" "c \<noteq> []" "utf8_valid r" using utf8_valid_step [OF less.prems False] by metis
    have IH: "length (unescape_chars (chars r)) + removed_from False r = length r" using less.hyps [of r] c by simp
    show ?thesis
    proof (cases "r = []")
      case True
      then show ?thesis using c removed_scalar(1) [OF c(2,3), of "[]"] chars_append [OF c(2,3), of "[]"]
        by (cases "c = [BACKSLASH]") auto
    next
      case False
      obtain d t where d: "r = d @ t" "scalar_ok d" "d \<noteq> []" "utf8_valid t" using utf8_valid_step [OF c(4) False] by metis
      have ch: "chars s = c # d # chars t" "chars r = d # chars t" using c d by (simp_all add: chars_append)
      have t: "length (unescape_chars (chars t)) + removed_from False t = length t"
        using less.hyps [of t] c d by simp
      show ?thesis
      proof (cases "c = [BACKSLASH]")
        case True
        then show ?thesis
          using IH c d ch t removed_scalar [OF d(2,3), of t] by (cases "d = ''|''") auto
      next
        case False
        then show ?thesis using IH c ch removed_scalar(1) [OF c(2,3) False, of r] by simp
      qed
    qed
  qed simp
qed

subsection \<open>The union-find gives each line its innermost container\<close>

text \<open>Links point up or at themselves, and skip no open line: \<open>l\<close> is open when its link is itself.\<close>

definition links_up :: "nat \<Rightarrow> nat list \<Rightarrow> bool" where
  "links_up lines links =
     (length links = lines + 1 \<and>
      (\<forall>l \<le> lines. l \<le> links ! l \<and> links ! l \<le> lines \<and> (\<forall>k. l \<le> k \<and> k < links ! l \<longrightarrow> k < links ! k)))"

lemma open_root_spec:
  "links_up lines links \<Longrightarrow> l \<le> lines \<Longrightarrow>
   l \<le> open_root links l \<and> open_root links l \<le> lines \<and> links ! open_root links l = open_root links l \<and>
   (\<forall>k. l \<le> k \<and> k < open_root links l \<longrightarrow> k < links ! k)"
proof (induction links l rule: open_root.induct)
  case (1 links l)
  have up: "l \<le> links ! l" "links ! l \<le> lines" "\<And>k. l \<le> k \<Longrightarrow> k < links ! l \<Longrightarrow> k < links ! k" "l < length links"
    using "1.prems" by (auto simp: links_up_def)
  show ?case
  proof (cases "l < links ! l")
    case True
    then have "open_root links l = open_root links (links ! l)" using up(4) by (simp add: open_root.simps [of links l])
    moreover have "k < links ! k" if "l \<le> k" "k < open_root links (links ! l)" for k
      using "1.IH" [OF conjI [OF up(4) True] "1.prems"(1) up(2)] up(3) that by (cases "k < links ! l") auto
    ultimately show ?thesis using "1.IH" [OF conjI [OF up(4) True] "1.prems"(1) up(2)] up(1) by auto
  next
    case False
    then have "open_root links l = l" by (simp add: open_root.simps [of links l])
    then show ?thesis using False up "1.prems"(2) by auto
  qed
qed

lemma links_up_update:
  assumes "links_up lines links" "l < r" "r \<le> lines" "\<And>k. l < k \<Longrightarrow> k < r \<Longrightarrow> k < links ! k"
    and "l < links ! l \<or> links ! l = l"
  shows "links_up lines (links[l := r]) \<and> (\<forall>k \<le> lines. links[l := r] ! k = k \<longleftrightarrow> links ! k = k \<and> k \<noteq> l)"
proof -
  have len: "length links = lines + 1" using assms(1) by (simp add: links_up_def)
  have "k < links[l := r] ! k" if "m \<le> lines" "m \<le> k" "k < links[l := r] ! m" for m k
    using that assms len by (cases "m = l"; cases "k = l") (auto simp: links_up_def nth_list_update)
  moreover have "m \<le> links[l := r] ! m \<and> links[l := r] ! m \<le> lines" if "m \<le> lines" for m
    using that assms len by (cases "m = l") (auto simp: links_up_def nth_list_update)
  moreover have "links[l := r] ! k = k \<longleftrightarrow> links ! k = k \<and> k \<noteq> l" if "k \<le> lines" for k
    using that assms len by (cases "k = l") (auto simp: nth_list_update)
  ultimately show ?thesis using len by (auto simp: links_up_def)
qed

lemma compress_spec:
  assumes "links_up lines links" "l \<le> root" "root \<le> lines" "links ! root = root" "\<And>k. l \<le> k \<Longrightarrow> k < root \<Longrightarrow> k < links ! k"
  shows "links_up lines (compress links root l) \<and> (\<forall>k \<le> lines. compress links root l ! k = k \<longleftrightarrow> links ! k = k)"
  using assms
proof (induction links root l rule: compress.induct)
  case (1 links root l)
  note unf = compress.simps [of links root l]
  show ?case
  proof (cases "l < length links \<and> l < links ! l \<and> links ! l \<noteq> root")
    case True
    then have "l < root" using "1.prems"(2,4) by (cases "l = root") auto
    note u = links_up_update [OF "1.prems"(1) this "1.prems"(3)]
    have u1: "links_up lines (links[l := root])" "\<And>k. k \<le> lines \<Longrightarrow> links[l := root] ! k = k \<longleftrightarrow> links ! k = k \<and> k \<noteq> l"
      using u "1.prems"(5) True by auto
    have le: "links ! l \<le> root"
    proof (rule ccontr)
      assume "\<not> ?thesis"
      moreover have "l \<le> lines" using "1.prems"(2,3) by simp
      ultimately have "root < links ! root" using "1.prems"(1,2) by (meson links_up_def not_le)
      then show False using "1.prems"(4) by simp
    qed
    have "k < links[l := root] ! k" if "links ! l \<le> k" "k < root" for k
      using that "1.prems"(5) [of k] True by (cases "k = l") (auto simp: nth_list_update)
    then show ?thesis
      using "1.IH" [OF True u1(1) le "1.prems"(3)] u1(2) "1.prems"(3,4) \<open>l < root\<close> True by (auto simp: unf nth_list_update)
  next
    case False
    then have "compress links root l = links" unfolding unf by (rule if_not_P)
    then show ?thesis using "1.prems"(1) by simp
  qed
qed

lemma next_open_spec:
  assumes "links_up lines links" "l \<le> lines" "next_open links l = (r, links')"
  shows "l \<le> r \<and> r \<le> lines \<and> links ! r = r \<and> (\<forall>k. l \<le> k \<and> k < r \<longrightarrow> links ! k \<noteq> k) \<and>
         links_up lines links' \<and> (\<forall>k \<le> lines. links' ! k = k \<longleftrightarrow> links ! k = k)"
proof -
  have r: "r = open_root links l" "links' = compress links r l" using assms(3) by (auto simp: next_open_def Let_def)
  note root = open_root_spec [OF assms(1,2), folded r(1)]
  then show ?thesis using compress_spec [OF assms(1), of l r] r(2) by fastforce
qed

lemma own_lines_spec:
  assumes "links_up lines links" "line \<le> lines" "links ! line = line" "length owner = lines"
    and "own_lines lines i lst line owner links = (owner', links')"
  shows "links_up lines links' \<and> length owner' = lines \<and>
         (\<forall>k < lines. owner' ! k = (if line \<le> k \<and> k \<le> lst \<and> links ! k = k then Some i else owner ! k)) \<and>
         (\<forall>k < lines. links' ! k = k \<longleftrightarrow> links ! k = k \<and> \<not> (line \<le> k \<and> k \<le> lst))"
  using assms
proof (induction lines i lst line owner links rule: own_lines.induct)
  case (1 lines i lst line owner links)
  note unf = own_lines.simps [of lines i lst line owner links]
  show ?case
  proof (cases "line \<le> lst \<and> line < lines")
    case False
    then show ?thesis using "1.prems" by (auto simp: unf)
  next
    case True
    have u: "links_up lines (links[line := line + 1])"
      "\<And>k. k \<le> lines \<Longrightarrow> links[line := line + 1] ! k = k \<longleftrightarrow> links ! k = k \<and> k \<noteq> line"
      using links_up_update [OF "1.prems"(1), of line "line + 1"] True "1.prems"(3) by auto
    obtain r links1 where r: "next_open (links[line := line + 1]) (line + 1) = (r, links1)" by force
    have n: "line + 1 \<le> r" "r \<le> lines" "links[line := line + 1] ! r = r"
      "\<And>k. line + 1 \<le> k \<Longrightarrow> k < r \<Longrightarrow> links[line := line + 1] ! k \<noteq> k" "links_up lines links1"
      "\<And>k. k \<le> lines \<Longrightarrow> links1 ! k = k \<longleftrightarrow> links[line := line + 1] ! k = k"
      using next_open_spec [OF u(1) _ r] True by auto
    have step: "own_lines lines i lst r (owner[line := Some i]) links1 = (owner', links')"
      using "1.prems"(5) True r by (simp add: unf)
    note IH = "1.IH" [OF True r [symmetric] n(5) n(2) _ _ step]
    have free: "links1 ! k = k \<longleftrightarrow> links ! k = k \<and> k \<noteq> line" if "k \<le> lines" for k using that n(6) u(2) by simp
    have gap: "links ! k \<noteq> k" if "line < k" "k < r" for k
      using that n(2) n(4) [of k] u(2) [of k] by auto
    have "links1 ! r = r" using n(2,3,6) by simp
    note I = IH [OF this, simplified, OF "1.prems"(4)]
    have "owner' ! k = (if line \<le> k \<and> k \<le> lst \<and> links ! k = k then Some i else owner ! k)" if "k < lines" for k
      using I that free [of k] gap [of k] True "1.prems"(3,4) n(1)
      by (cases "k = line"; cases "k < r") (auto simp: nth_list_update)
    moreover have "links' ! k = k \<longleftrightarrow> links ! k = k \<and> \<not> (line \<le> k \<and> k \<le> lst)" if "k < lines" for k
      using I that free [of k] gap [of k] True n(1) by (cases "k = line"; cases "k < r") auto
    ultimately show ?thesis using I by auto
  qed
qed

text \<open>A span covers a line it holds, unless its end is the \<^verbatim>\<open>usize::MAX\<close> of an empty block.\<close>

definition covers :: "nat \<Rightarrow> nat \<times> nat \<times> nat \<Rightarrow> bool" where
  "covers k span = (case span of (i, first, lst) \<Rightarrow> lst \<noteq> USIZE_MAX \<and> first \<le> k \<and> k \<le> lst)"

lemma own_span_spec:
  assumes "links_up lines links" "length owner = lines" "own_span lines span (owner, links) = (owner', links')"
  shows "links_up lines links' \<and> length owner' = lines \<and>
         (\<forall>k < lines. owner' ! k = (if covers k span \<and> links ! k = k then Some (fst span) else owner ! k)) \<and>
         (\<forall>k < lines. links' ! k = k \<longleftrightarrow> links ! k = k \<and> \<not> covers k span)"
proof -
  obtain i first lst where span: "span = (i, first, lst)" by (cases span)
  show ?thesis
  proof (cases "lst = USIZE_MAX")
    case True
    then show ?thesis using assms span by (auto simp: own_span_def covers_def)
  next
    case False
    obtain r links1 where r: "next_open links (min first lines) = (r, links1)" by force
    note n = next_open_spec [OF assms(1) _ r, simplified]
    have o: "own_lines lines i lst r owner links1 = (owner', links')" using assms(3) span False r by (simp add: own_span_def)
    have "links1 ! r = r" using n by blast
    from own_lines_spec [OF _ _ this assms(2) o] have I: "links_up lines links'" "length owner' = lines"
      "\<And>k. k < lines \<Longrightarrow> owner' ! k = (if r \<le> k \<and> k \<le> lst \<and> links1 ! k = k then Some i else owner ! k)"
      "\<And>k. k < lines \<Longrightarrow> links' ! k = k \<longleftrightarrow> links1 ! k = k \<and> \<not> (r \<le> k \<and> k \<le> lst)"
      using n by auto
    have "links ! k = k \<Longrightarrow> r \<le> k \<longleftrightarrow> first \<le> k" if "k < lines" for k
      using that n by (metis min_le_iff_disj not_le order_trans)
    then show ?thesis using I n False span by (auto simp: covers_def)
  qed
qed

lemma own_spans_spec:
  "links_up lines links \<Longrightarrow> length owner = lines \<Longrightarrow> k < lines \<Longrightarrow>
   fst (fold (own_span lines) spans (owner, links)) ! k =
     (if links ! k = k then (case find (covers k) spans of Some span \<Rightarrow> Some (fst span) | None \<Rightarrow> owner ! k) else owner ! k)"
proof (induction spans arbitrary: owner links)
  case (Cons span spans)
  obtain owner' links' where o: "own_span lines span (owner, links) = (owner', links')" by force
  note s = own_span_spec [OF Cons.prems(1,2) o]
  then show ?case using Cons.IH [of links' owner'] Cons.prems(3) o by (auto split: option.splits)
qed simp

lemma find_map: "find P (map f xs) = map_option f (find (\<lambda>x. P (f x)) xs)"
  by (induction xs) auto

text \<open>
  Each line is owned by the last of the spans that cover it, the innermost container, and a
  line already claimed by none, although the union-find visits every line once.
\<close>

lemma innermost_per_line_last:
  assumes "l < lines" "length taken \<le> lines"
  shows "innermost_per_line lines taken spans ! l =
    (if l < length taken \<and> taken ! l then None
     else find (\<lambda>i. snd (spans ! i) \<noteq> USIZE_MAX \<and> fst (spans ! i) \<le> l \<and> l \<le> snd (spans ! i)) (rev [0..<length spans]))"
proof -
  let ?link = "\<lambda>l. if l < length taken \<and> taken ! l then l + 1 else l"
  let ?P = "\<lambda>i. snd (spans ! i) \<noteq> USIZE_MAX \<and> fst (spans ! i) \<le> l \<and> l \<le> snd (spans ! i)"
  have nth: "map ?link [0..<lines + 1] ! k = ?link k" if "k \<le> lines" for k
    using that nth_map_upt [of k "lines + 1" 0 ?link] by simp
  have up: "links_up lines (map ?link [0..<lines + 1])"
    unfolding links_up_def
  proof (intro conjI allI impI)
    fix m k assume m: "m \<le> lines" and k: "m \<le> k \<and> k < map ?link [0..<lines + 1] ! m"
    then have "k = m" using nth [OF m] by (auto split: if_splits)
    then show "k < map ?link [0..<lines + 1] ! k" using k by simp
  qed (use nth assms(2) in \<open>auto split: if_splits\<close>)
  have zip: "zip [0..<length spans] spans = map (\<lambda>i. (i, spans ! i)) [0..<length spans]"
    by (rule nth_equalityI) auto
  have "find (covers l) (rev (zip [0..<length spans] spans)) = map_option (\<lambda>i. (i, spans ! i)) (find ?P (rev [0..<length spans]))"
    unfolding zip rev_map find_map by (simp add: covers_def split_def)
  then show ?thesis
    using own_spans_spec [OF up, of "replicate lines None" l "rev (zip [0..<length spans] spans)"] assms(1) nth [of l]
    by (auto simp: innermost_per_line_def split: option.splits)
qed

end
