(* ===== verification/Flark_Refdefs.thy ===== *)
theory Flark_Refdefs
  imports Flark_Prelude
begin

text \<open>
  \<^verbatim>\<open>native/flark_parse/src/reference_definitions.rs\<close>: link reference definitions, parsed
  from the start of a paragraph buffer by the rule comrak applies. The scanner \<^verbatim>\<open>Sc\<close> is its
  position, passed explicitly. The lemmas show that the definitions found are consecutive
  from the buffer's start, that every range lies inside its definition, and that the
  two-slot title scan finds the longest title the grammar allows.
\<close>

record definition_rec =
  def_start :: nat
  def_end :: nat
  def_label :: "nat \<times> nat"
  def_dest :: "nat \<times> nat"

record buffer_definition =
  bd_start :: nat
  bd_end :: nat
  bd_label :: "nat \<times> nat"
  bd_dest :: "nat \<times> nat"

definition MAX_LINK_LABEL_LENGTH :: nat where
  "MAX_LINK_LABEL_LENGTH = 1000"

text \<open>\<^verbatim>\<open>u8::is_ascii_punctuation\<close> and \<^verbatim>\<open>u8::is_ascii_control\<close>.\<close>

definition ispunct :: "byte \<Rightarrow> bool" where
  "ispunct b = (let n = bval b in
     (33 \<le> n \<and> n \<le> 47) \<or> (58 \<le> n \<and> n \<le> 64) \<or> (91 \<le> n \<and> n \<le> 96) \<or> (123 \<le> n \<and> n \<le> 126))"

definition is_ascii_control :: "byte \<Rightarrow> bool" where
  "is_ascii_control b = (bval b < 32 \<or> bval b = 127)"

definition isspace :: "byte \<Rightarrow> bool" where
  "isspace b = (b = CHR '' '' \<or> b = TAB \<or> b = LF \<or> b = CR)"

definition spacechar :: "byte \<Rightarrow> bool" where
  "spacechar b = (isspace b \<or> b = CHR 0x0B \<or> b = CHR 0x0C)"

definition blank :: "byte \<Rightarrow> bool" where
  "blank b = (b = CHR '' '' \<or> b = TAB)"

subsection \<open>The scanner\<close>

definition skip_spaces :: "bytes \<Rightarrow> nat \<Rightarrow> nat" where
  "skip_spaces s pos = scan_fwd blank s pos (length s)"

definition skip_line_end :: "bytes \<Rightarrow> nat \<Rightarrow> bool \<times> nat" where
  "skip_line_end s old =
     (let p1 = (if byte_at s old = Some CR then old + 1 else old);
          p2 = (if byte_at s p1 = Some LF then p1 + 1 else p1)
      in (old < p2 \<or> length s \<le> p2, p2))"

definition spnl :: "bytes \<Rightarrow> nat \<Rightarrow> nat" where
  "spnl s pos =
     (case skip_line_end s (skip_spaces s pos) of
        (True, p) \<Rightarrow> skip_spaces s p
      | (False, p) \<Rightarrow> p)"

function link_label_loop :: "bytes \<Rightarrow> nat \<Rightarrow> nat \<Rightarrow> nat \<Rightarrow> ((nat \<times> nat) \<times> nat) option" where
  "link_label_loop s start pos len =
     (if length s \<le> pos then None
      else
        let b = s ! pos in
        if b = CHR '']'' then
          (let a = scan_fwd isspace s (start + 1) pos;
               z = scan_bwd isspace s a pos
           in Some ((a, z), pos + 1))
        else if b = CHR ''['' then None
        else
          let n = (if b = BACKSLASH \<and> pos + 1 < length s \<and> ispunct (s ! (pos + 1)) then 2 else 1)
          in if len + n > MAX_LINK_LABEL_LENGTH then None
             else link_label_loop s start (pos + n) (len + n))"
  by pat_completeness auto
termination
  by (relation "measure (\<lambda>(s, start, pos, len). length s - pos)") auto

declare link_label_loop.simps [simp del]

text \<open>The trimmed label and the position after it.\<close>

definition link_label :: "bytes \<Rightarrow> nat \<Rightarrow> ((nat \<times> nat) \<times> nat) option" where
  "link_label s start =
     (if byte_at s start \<noteq> Some (CHR ''['') then None
      else link_label_loop s start (start + 1) 0)"

subsection \<open>Destinations and titles\<close>

text \<open>The pointy form: the offset after the closing bracket, or where the scan ran out.\<close>

function pointy_loop :: "bytes \<Rightarrow> nat \<Rightarrow> nat option" where
  "pointy_loop s i =
     (if i < length s then
        (let b = s ! i in
         if b = CHR ''>'' then Some (i + 1)
         else if b = BACKSLASH then pointy_loop s (i + 2)
         else if b = LF \<or> b = CR \<or> b = CHR ''<'' then None
         else pointy_loop s (i + 1))
      else Some i)"
  by pat_completeness auto
termination
  by (relation "measure (\<lambda>(s, i). length s - i)") auto

declare pointy_loop.simps [simp del]

text \<open>The bare form: where the destination stops and the parentheses still open.\<close>

function bare_loop :: "bytes \<Rightarrow> nat \<Rightarrow> nat \<Rightarrow> (nat \<times> nat) option" where
  "bare_loop s i nb_p =
     (if i < length s then
        (if s ! i = BACKSLASH \<and> i + 1 < length s \<and> ispunct (s ! (i + 1)) then bare_loop s (i + 2) nb_p
         else if s ! i = CHR ''('' then
           (if nb_p + 1 > 32 then None else bare_loop s (i + 1) (nb_p + 1))
         else if s ! i = CHR '')'' then
           (if nb_p = 0 then Some (i, nb_p) else bare_loop s (i + 1) (nb_p - 1))
         else if isspace (s ! i) \<or> (is_ascii_control (s ! i) \<and> bval (s ! i) \<noteq> 0) then
           (if i = 0 then None else Some (i, nb_p))
         else bare_loop s (i + 1) nb_p)
      else Some (i, nb_p))"
  by pat_completeness auto
termination
  by (relation "measure (\<lambda>(s, i, _). length s - i)") auto

declare bare_loop.simps [simp del]

text \<open>(destination start, destination end, bytes consumed)\<close>

definition scan_link_url :: "bytes \<Rightarrow> (nat \<times> nat \<times> nat) option" where
  "scan_link_url s =
     (if 0 < length s \<and> s ! 0 = CHR ''<'' then
        (case pointy_loop s 1 of
           None \<Rightarrow> None
         | Some i \<Rightarrow>
             if length s \<le> i \<or> i < 2 \<or> byte_at s (i - 1) \<noteq> Some (CHR ''>'') then None
             else Some (1, i - 1, i))
      else
        (case bare_loop s 0 0 of
           None \<Rightarrow> None
         | Some (i, nb_p) \<Rightarrow> if length s = 0 \<or> nb_p \<noteq> 0 then None else Some (0, i, i)))"

definition title_close :: "byte \<Rightarrow> byte option" where
  "title_close open =
     (if open = CHR 0x22 then Some (CHR 0x22)
      else if open = CHR 0x27 then Some (CHR 0x27)
      else if open = CHR ''('' then Some (CHR '')'')
      else None)"

text \<open>
  The two-slot window: \<open>here\<close> and \<open>nxt\<close> say whether the scan can stand at \<open>i\<close> and at \<open>i + 1\<close>.
\<close>

function title_loop :: "bytes \<Rightarrow> byte \<Rightarrow> byte \<Rightarrow> nat \<Rightarrow> bool \<Rightarrow> bool \<Rightarrow> nat option \<Rightarrow> nat option" where
  "title_loop s open close i here nxt best =
     (if i < length s \<and> (here \<or> nxt) then
        (let b = s ! i;
             best1 = (if here \<and> b = close then Some (i + 1) else best);
             after = (here \<and> b = BACKSLASH \<and> i + 1 < length s \<and> ispunct (s ! (i + 1)));
             nxt1 = (nxt \<or> (here \<and> b \<noteq> close \<and> \<not> (open = CHR ''('' \<and> b = CHR ''('')))
         in title_loop s open close (i + 1) nxt1 after best1)
      else best)"
  by pat_completeness auto
termination
  by (relation "measure (\<lambda>(s, _, _, i, _). length s - i)") auto

declare title_loop.simps [simp del]

definition scan_link_title :: "bytes \<Rightarrow> nat option" where
  "scan_link_title s =
     (case s of
        [] \<Rightarrow> None
      | open # _ \<Rightarrow>
          (case title_close open of
             None \<Rightarrow> None
           | Some close \<Rightarrow> title_loop s open close 1 True False None))"

subsection \<open>Definitions\<close>

text \<open>(consumed, label range, destination range)\<close>

definition parse_reference_inline :: "bytes \<Rightarrow> (nat \<times> (nat \<times> nat) \<times> (nat \<times> nat)) option" where
  "parse_reference_inline s =
     (case link_label s 0 of
        None \<Rightarrow> None
      | Some (label, p0) \<Rightarrow>
          if fst label = snd label then None
          else if byte_at s p0 \<noteq> Some (CHR '':'') then None
          else
            let p1 = spnl s (p0 + 1) in
            (case scan_link_url (drop p1 s) of
               None \<Rightarrow> None
             | Some (ds, de, matchlen) \<Rightarrow>
                 let dest = (p1 + ds, p1 + de);
                     beforetitle = p1 + matchlen;
                     p2 = spnl s beforetitle;
                     title_len = (if p2 = beforetitle then None else scan_link_title (drop p2 s));
                     p3 = (case title_len of Some n \<Rightarrow> p2 + n | None \<Rightarrow> beforetitle);
                     p4 = skip_spaces s p3;
                     e1 = skip_line_end s p4
                 in if fst e1 then Some (snd e1, label, dest)
                    else if title_len \<noteq> None then
                      (let e2 = skip_line_end s (skip_spaces s beforetitle)
                       in if fst e2 then Some (snd e2, label, dest) else None)
                    else None))"

subsection \<open>Bounds of the scanners\<close>

lemma skip_spaces_bounds [bound_intros]:
  "pos \<le> skip_spaces s pos" "pos \<le> length s \<Longrightarrow> skip_spaces s pos \<le> length s"
  by (simp_all add: skip_spaces_def scan_simps)

lemma skip_line_end_bounds:
  assumes "skip_line_end s old = (ok, p)" "old \<le> length s"
  shows "old \<le> p \<and> p \<le> length s"
  using assms by (auto simp: skip_line_end_def Let_def split: if_splits)

text \<open>A line end that was skipped is the end of the text or a terminator.\<close>

lemma skip_line_end_True:
  assumes "skip_line_end s old = (True, p)" "old \<le> length s"
  shows "p = length s \<or> (0 < p \<and> p \<le> length s \<and> (s ! (p - 1) = CR \<or> s ! (p - 1) = LF))"
  using assms by (auto simp: skip_line_end_def Let_def split: if_splits)

lemma spnl_bounds: "pos \<le> length s \<Longrightarrow> pos \<le> spnl s pos \<and> spnl s pos \<le> length s"
proof -
  assume pos: "pos \<le> length s"
  obtain ok p where p: "skip_line_end s (skip_spaces s pos) = (ok, p)" by force
  then have "skip_spaces s pos \<le> p \<and> p \<le> length s"
    using pos by (intro skip_line_end_bounds) (auto intro: bound_intros)
  then show ?thesis
    using p pos skip_spaces_bounds [of pos s] skip_spaces_bounds [of p s]
    by (auto simp: spnl_def split: bool.splits)
qed

lemma link_label_loop_bounds:
  assumes "link_label_loop s start pos len = Some ((a, z), p)" "start < pos"
  shows "start < a \<and> a \<le> z \<and> z < p \<and> p \<le> length s \<and> s ! (p - 1) = CHR '']''"
  using assms
proof (induction s start pos len rule: link_label_loop.induct)
  case (1 s start pos len)
  show ?case
  proof (cases "length s \<le> pos")
    case True
    then show ?thesis using "1.prems" by (simp add: link_label_loop.simps)
  next
    case False
    note unf = link_label_loop.simps [of s start pos len] Let_def
    show ?thesis
    proof (cases "s ! pos = CHR '']''")
      case True
      with "1.prems" False have "a = scan_fwd isspace s (start + 1) pos" "z = scan_bwd isspace s a pos" "p = pos + 1"
        by (auto simp: unf)
      then show ?thesis
        using "1.prems"(2) False True by (auto simp: scan_simps Suc_le_eq [symmetric] le_imp_less_Suc)
    next
      case notclose: False
      then show ?thesis
        using "1.prems" False "1.IH" [OF False refl notclose _ refl]
        by (auto simp: unf split: if_splits)
    qed
  qed
qed

lemma link_label_bounds:
  assumes "link_label s start = Some ((a, z), p)"
  shows "start < a \<and> a \<le> z \<and> z < p \<and> p \<le> length s \<and> s ! start = CHR ''['' \<and> s ! (p - 1) = CHR '']''"
  using assms link_label_loop_bounds [of s start "start + 1" 0 a z p]
  by (auto simp: link_label_def split: if_splits)

lemma bare_loop_bounds:
  assumes "bare_loop s i nb = Some (j, nb')" "i \<le> length s"
  shows "i \<le> j \<and> j \<le> length s"
  using assms
proof (induction s i nb rule: bare_loop.induct)
  case (1 s i nb)
  then show ?case
    by (cases "i < length s") (auto simp: bare_loop.simps [of s i nb] split: if_splits)
qed

lemma scan_link_url_bounds:
  assumes "scan_link_url s = Some (ds, de, m)"
  shows "ds \<le> de \<and> de \<le> m \<and> m \<le> length s"
  using assms bare_loop_bounds [of s 0 0]
  by (auto simp: scan_link_url_def split: if_splits option.splits prod.splits)

subsection \<open>The longest title\<close>

text \<open>
  The title grammar read as an automaton over offsets: inside the delimiters a backslash is
  either an ordinary character or escapes the punctuation after it. \<open>title_reach s open close i\<close>
  says that some reading of the text after the opening delimiter arrives at \<open>i\<close>.
\<close>

inductive title_reach :: "bytes \<Rightarrow> byte \<Rightarrow> byte \<Rightarrow> nat \<Rightarrow> bool" for s "open" close where
  title_opened: "title_reach s open close 1"
| title_plain: "title_reach s open close i \<Longrightarrow> i < length s \<Longrightarrow> s ! i \<noteq> close \<Longrightarrow>
    \<not> (open = CHR ''('' \<and> s ! i = CHR ''('') \<Longrightarrow> title_reach s open close (i + 1)"
| title_escape: "title_reach s open close i \<Longrightarrow> i + 1 < length s \<Longrightarrow> s ! i = BACKSLASH \<Longrightarrow>
    ispunct (s ! (i + 1)) \<Longrightarrow> title_reach s open close (i + 2)"

text \<open>The lengths of the titles the text can be read to open with.\<close>

definition title_ends :: "bytes \<Rightarrow> byte \<Rightarrow> byte \<Rightarrow> nat \<Rightarrow> bool" where
  "title_ends s open close n =
     (\<exists>j. title_reach s open close j \<and> j < length s \<and> s ! j = close \<and> n = j + 1)"

definition title_match :: "bytes \<Rightarrow> nat \<Rightarrow> bool" where
  "title_match s n =
     (\<exists>open close. s \<noteq> [] \<and> open = hd s \<and> title_close open = Some close \<and> title_ends s open close n)"

definition escapes_into :: "bytes \<Rightarrow> byte \<Rightarrow> byte \<Rightarrow> nat \<Rightarrow> bool" where
  "escapes_into s open close i =
     (2 \<le> i \<and> title_reach s open close (i - 1) \<and> i < length s \<and> s ! (i - 1) = BACKSLASH \<and> ispunct (s ! i))"

lemma title_reach_one [simp]: "title_reach s open close (Suc 0)"
  using title_reach.title_opened by simp

lemma title_reach_pos: "title_reach s open close i \<Longrightarrow> 1 \<le> i"
  by (induction rule: title_reach.induct) auto

lemma title_reach_Suc:
  assumes "1 \<le> i"
  shows "title_reach s open close (i + 1) \<longleftrightarrow>
         (title_reach s open close i \<and> i < length s \<and> s ! i \<noteq> close \<and> \<not> (open = CHR ''('' \<and> s ! i = CHR ''(''))
         \<or> escapes_into s open close i" (is "?L \<longleftrightarrow> ?R")
proof
  assume ?L
  then show ?R
  proof (cases rule: title_reach.cases)
    case (title_escape j)
    then have "i = j + 1" by simp
    then show ?thesis using title_escape title_reach_pos [of s "open" close j] by (auto simp: escapes_into_def)
  qed (use assms in auto)
next
  assume ?R
  then show ?L
  proof
    assume "escapes_into s open close i"
    then show ?L using title_reach.title_escape [of s "open" close "i - 1"] by (auto simp: escapes_into_def)
  qed (use title_reach.title_plain [of s "open" close i] in auto)
qed

text \<open>Once neither slot of the window is live, nothing further can be reached.\<close>

lemma title_reach_dead:
  assumes "1 \<le> i" "\<not> title_reach s open close i" "\<not> escapes_into s open close i" "i \<le> k"
  shows "\<not> title_reach s open close k"
  using assms(4)
proof (induction k rule: less_induct)
  case (less k)
  show ?case
  proof (cases "k = i")
    case True
    then show ?thesis using assms(2) by simp
  next
    case False
    then obtain j where j: "k = j + 1" "i \<le> j" using less.prems by (cases k) auto
    then have "\<not> title_reach s open close j" using less.IH by simp
    moreover have "\<not> escapes_into s open close j"
    proof (cases "j = i")
      case True
      then show ?thesis using assms(3) by simp
    next
      case False
      then show ?thesis using less.IH [of "j - 1"] j by (auto simp: escapes_into_def)
    qed
    ultimately show ?thesis using title_reach_Suc [of j s "open" close] j assms(1) by simp
  qed
qed

lemma title_loop_longest:
  assumes "1 \<le> i" "here = title_reach s open close i" "nxt = escapes_into s open close i"
  shows "(\<forall>n. title_loop s open close i here nxt best = Some n \<longrightarrow>
            (best = Some n \<and> (\<forall>m > i. \<not> title_ends s open close m)) \<or> (i < n \<and> title_ends s open close n \<and> (\<forall>m. title_ends s open close m \<longrightarrow> m \<le> n))) \<and>
         (title_loop s open close i here nxt best = None \<longrightarrow> best = None \<and> (\<forall>m > i. \<not> title_ends s open close m))"
  using assms
proof (induction s "open" close i here nxt best rule: title_loop.induct)
  case (1 s "open" close i here nxt best)
  note unf = title_loop.simps [of s "open" close i here nxt best] Let_def
  show ?case
  proof (cases "i < length s \<and> (here \<or> nxt)")
    case False
    have "\<forall>m > i. \<not> title_ends s open close m"
    proof (cases "i < length s")
      case True
      then have "\<forall>k \<ge> i. \<not> title_reach s open close k"
        using title_reach_dead [of i s "open" close] False "1.prems" by auto
      then show ?thesis unfolding title_ends_def by (metis add_le_cancel_right less_iff_succ_less_eq)
    qed (auto simp: title_ends_def)
    moreover have "title_loop s open close i here nxt best = best" using False by (subst unf) auto
    ultimately show ?thesis by auto
  next
    case True
    let ?best = "if here \<and> s ! i = close then Some (i + 1) else best"
    let ?after = "here \<and> s ! i = BACKSLASH \<and> i + 1 < length s \<and> ispunct (s ! (i + 1))"
    let ?nxt = "nxt \<or> (here \<and> s ! i \<noteq> close \<and> \<not> (open = CHR ''('' \<and> s ! i = CHR ''(''))"
    have eq: "title_loop s open close i here nxt best = title_loop s open close (i + 1) ?nxt ?after ?best"
      using True by (subst unf) (simp add: Let_def)
    have "?nxt = title_reach s open close (i + 1)"
      using title_reach_Suc [of i s "open" close] "1.prems" True by auto
    moreover have "?after = escapes_into s open close (i + 1)"
      using "1.prems" by (auto simp: escapes_into_def)
    ultimately have IH: "(\<forall>n. title_loop s open close i here nxt best = Some n \<longrightarrow>
            (?best = Some n \<and> (\<forall>m > i + 1. \<not> title_ends s open close m)) \<or> (i + 1 < n \<and> title_ends s open close n \<and> (\<forall>m. title_ends s open close m \<longrightarrow> m \<le> n))) \<and>
         (title_loop s open close i here nxt best = None \<longrightarrow> ?best = None \<and> (\<forall>m > i + 1. \<not> title_ends s open close m))"
      unfolding eq using "1.IH" [OF True refl refl refl refl] by simp
    have Mi: "title_ends s open close (i + 1) \<longleftrightarrow> here \<and> s ! i = close" using True "1.prems" by (auto simp: title_ends_def)
    have split: "(\<forall>m > i. \<not> title_ends s open close m) \<longleftrightarrow> \<not> title_ends s open close (i + 1) \<and> (\<forall>m > i + 1. \<not> title_ends s open close m)"
    proof -
      have "m > i \<longleftrightarrow> m = i + 1 \<or> m > i + 1" for m by linarith
      then show ?thesis by metis
    qed
    show ?thesis
      using IH Mi unfolding split by (fastforce simp: not_less split: if_splits)
  qed
qed

lemma title_ends_bounds: "title_ends s open close n \<Longrightarrow> 2 \<le> n \<and> n \<le> length s \<and> s ! (n - 1) = close"
  by (auto simp: title_ends_def dest: title_reach_pos)

text \<open>
  C37: The title scan returns the longest title the grammar allows at the start of the text,
  and nothing exactly when there is none: remembering only whether the next two offsets are
  reachable loses no reading.
\<close>

theorem scan_link_title_longest:
  "(\<forall>n. scan_link_title s = Some n \<longleftrightarrow> title_match s n \<and> (\<forall>m. title_match s m \<longrightarrow> m \<le> n)) \<and>
   (scan_link_title s = None \<longleftrightarrow> (\<nexists>n. title_match s n))"
proof (cases "s = [] \<or> title_close (hd s) = None")
  case True
  then have "scan_link_title s = None" by (cases s) (auto simp: scan_link_title_def)
  with True show ?thesis by (auto simp: title_match_def)
next
  case False
  then obtain close where close: "title_close (hd s) = Some close" "s \<noteq> []" by auto
  have match: "title_match s n \<longleftrightarrow> title_ends s (hd s) close n" for n
    using close by (auto simp: title_match_def)
  have scan: "scan_link_title s = title_loop s (hd s) close 1 True False None"
    using close by (cases s) (auto simp: scan_link_title_def)
  have "True = title_reach s (hd s) close 1" "False = escapes_into s (hd s) close 1"
    by (simp_all add: escapes_into_def)
  note L = title_loop_longest [OF order_refl this, of None, folded scan match]
  have gt: "title_match s n \<Longrightarrow> 1 < n" for n
    using title_ends_bounds [of s "hd s" close n] by (simp add: match)
  show ?thesis
  proof (cases "scan_link_title s")
    case None
    then show ?thesis using L gt by auto
  next
    case (Some k)
    then have "title_match s k \<and> (\<forall>m. title_match s m \<longrightarrow> m \<le> k)" using L by auto
    then show ?thesis using Some by (auto intro: antisym)
  qed
qed

theorem scan_link_title_longest_witness:
  "title_match ''(a)b'' 3 \<and> \<not> title_match ''(a)b'' 4"
proof -
  have "scan_link_title ''(a)b'' = Some 3" by code_simp
  then show ?thesis using scan_link_title_longest [of "''(a)b''"] by fastforce
qed

lemma scan_link_title_bounds:
  assumes "scan_link_title s = Some n"
  shows "2 \<le> n \<and> n \<le> length s \<and> title_close (hd s) = Some (s ! (n - 1))"
proof -
  obtain b bs where s: "s = b # bs" using assms by (cases s) (auto simp: scan_link_title_def)
  then obtain close where c: "title_close b = Some close" "title_loop s b close 1 True False None = Some n"
    using assms by (auto simp: scan_link_title_def split: option.splits)
  have "True = title_reach s b close 1" "False = escapes_into s b close 1"
    by (simp_all add: escapes_into_def)
  from title_loop_longest [OF order_refl this, of None] c(2) have "title_ends s b close n" by auto
  then show ?thesis using title_ends_bounds [of s b close n] c(1) s by auto
qed

subsection \<open>One definition, and all of them\<close>

text \<open>Where a definition can end: at the end of the buffer or just after a line terminator.\<close>

definition at_line_end :: "bytes \<Rightarrow> nat \<Rightarrow> bool" where
  "at_line_end s e = (e = length s \<or> (0 < e \<and> e \<le> length s \<and> (s ! (e - 1) = CR \<or> s ! (e - 1) = LF)))"

lemma skip_line_end_at: "skip_line_end s old = (True, p) \<Longrightarrow> old \<le> length s \<Longrightarrow> at_line_end s p"
  using skip_line_end_True [of s old p] by (auto simp: at_line_end_def)

lemma parse_reference_inline_bounds:
  assumes "parse_reference_inline s = Some (n, label, dest)"
  shows "0 < n" "n \<le> length s" "s ! 0 = CHR ''[''"
    and "0 < fst label" "fst label < snd label" "snd label < fst dest" "fst dest \<le> snd dest" "snd dest \<le> n"
    and "at_line_end s n"
proof -
  from assms obtain lab p0 where ll0: "link_label s 0 = Some (lab, p0)"
    and ne0: "fst lab \<noteq> snd lab" and colon: "p0 < length s" "s ! p0 = CHR '':''"
    by (auto simp: parse_reference_inline_def split: option.splits if_splits)
  have "lab = label"
    using assms ll0 ne0 colon
    by (auto simp: parse_reference_inline_def Let_def split: option.splits if_splits)
  with ll0 ne0 have ll: "link_label s 0 = Some (label, p0)" and ne: "fst label \<noteq> snd label" by simp_all
  note lb = link_label_bounds [of s 0 "fst label" "snd label" p0] 
  have lb: "0 < fst label \<and> fst label \<le> snd label \<and> snd label < p0 \<and> p0 \<le> length s \<and> s ! 0 = CHR ''[''"
    using lb ll by simp
  define p1 where "p1 = spnl s (Suc p0)"
  from assms ll ne colon obtain ds de m where url: "scan_link_url (drop p1 s) = Some (ds, de, m)"
    by (auto simp: parse_reference_inline_def p1_def [symmetric] Let_def split: option.splits if_splits)
  have p1: "p0 + 1 \<le> p1" "p1 \<le> length s" using spnl_bounds [of "p0 + 1" s] colon by (auto simp: p1_def)
  have ub: "ds \<le> de" "de \<le> m" "p1 + m \<le> length s"
    using scan_link_url_bounds [OF url] p1 by auto
  define bt where "bt = p1 + m"
  define p2 where "p2 = spnl s bt"
  define tl where "tl = (if p2 = bt then None else scan_link_title (drop p2 s))"
  define p3 where "p3 = (case tl of Some k \<Rightarrow> p2 + k | None \<Rightarrow> bt)"
  have p2: "bt \<le> p2" "p2 \<le> length s" using spnl_bounds [of bt s] ub by (auto simp: p2_def bt_def)
  have p3: "bt \<le> p3" "p3 \<le> length s"
    using p2 ub scan_link_title_bounds [of "drop p2 s"]
    by (auto simp: p3_def tl_def bt_def split: option.splits if_splits)
  let ?e1 = "skip_line_end s (skip_spaces s p3)" and ?e2 = "skip_line_end s (skip_spaces s bt)"
  have res: "dest = (p1 + ds, p1 + de) \<and> ((fst ?e1 \<and> n = snd ?e1) \<or> (fst ?e2 \<and> n = snd ?e2))"
    using assms ll ne colon url
    by (auto simp: parse_reference_inline_def p1_def bt_def p2_def tl_def p3_def Let_def split: if_splits option.splits)
  have le: "skip_spaces s p3 \<le> length s" "skip_spaces s bt \<le> length s" "bt \<le> skip_spaces s p3" "bt \<le> skip_spaces s bt"
    using p3 ub skip_spaces_bounds [of p3 s] skip_spaces_bounds [of bt s] by (auto simp: bt_def)
  have n: "bt \<le> n \<and> n \<le> length s \<and> at_line_end s n"
    using res le skip_line_end_bounds [of s "skip_spaces s p3"] skip_line_end_bounds [of s "skip_spaces s bt"]
      skip_line_end_at [of s "skip_spaces s p3"] skip_line_end_at [of s "skip_spaces s bt"]
    by (metis (full_types) le_trans prod.collapse)
  show "0 < n" "n \<le> length s" "s ! 0 = CHR ''[''" "0 < fst label" "fst label < snd label"
    "snd label < fst dest" "fst dest \<le> snd dest" "snd dest \<le> n" "at_line_end s n"
    using n lb p1 ub res ne by (auto simp: bt_def)
qed

text \<open>
  \<^verbatim>\<open>paragraph_definitions\<close>: definitions are taken from the start of the buffer while it
  begins with a bracket; each takes at least one byte, so the loop ends.
\<close>

function paragraph_definitions_from :: "bytes \<Rightarrow> nat \<Rightarrow> buffer_definition list" where
  "paragraph_definitions_from buffer pos =
     (if pos < length buffer \<and> buffer ! pos = CHR ''['' then
        (case parse_reference_inline (drop pos buffer) of
           Some (len, label, dest) \<Rightarrow>
             \<lparr>bd_start = pos, bd_end = pos + len,
              bd_label = (pos + fst label, pos + snd label),
              bd_dest = (pos + fst dest, pos + snd dest)\<rparr>
             # paragraph_definitions_from buffer (pos + len)
         | None \<Rightarrow> [])
      else [])"
  by pat_completeness auto
termination
  by (relation "measure (\<lambda>(buffer, pos). length buffer - pos)")
     (auto dest: parse_reference_inline_bounds(1))

declare paragraph_definitions_from.simps [simp del]

definition paragraph_definitions :: "bytes \<Rightarrow> buffer_definition list" where
  "paragraph_definitions buffer = paragraph_definitions_from buffer 0"

text \<open>
  A chain of definitions of a buffer from \<open>pos\<close>: each starts with a bracket where the one before
  it ended, holds its non-empty label and then its destination, and ends at a line end;
  after the last one the buffer does not open another definition.
\<close>

fun definition_chain :: "bytes \<Rightarrow> nat \<Rightarrow> buffer_definition list \<Rightarrow> bool" where
  "definition_chain s pos [] =
     (pos < length s \<longrightarrow> s ! pos \<noteq> CHR ''['' \<or> parse_reference_inline (drop pos s) = None)"
| "definition_chain s pos (d # ds) =
     (bd_start d = pos \<and> pos < bd_end d \<and> bd_end d \<le> length s \<and> s ! pos = CHR ''['' \<and>
      pos < fst (bd_label d) \<and> fst (bd_label d) < snd (bd_label d) \<and>
      snd (bd_label d) < fst (bd_dest d) \<and> fst (bd_dest d) \<le> snd (bd_dest d) \<and> snd (bd_dest d) \<le> bd_end d \<and>
      at_line_end s (bd_end d) \<and> definition_chain s (bd_end d) ds)"

lemma at_line_end_drop:
  assumes "at_line_end (drop pos s) e" "0 < e" "pos < length s"
  shows "at_line_end s (pos + e)"
proof (cases "e = length (drop pos s)")
  case True
  then show ?thesis using assms(3) by (simp add: at_line_end_def)
next
  case False
  then obtain k where "e = Suc k" using assms(2) by (cases e) auto
  then show ?thesis using False assms by (auto simp: at_line_end_def)
qed

lemma definition_chain_from: "definition_chain buffer pos (paragraph_definitions_from buffer pos)"
proof (induction buffer pos rule: paragraph_definitions_from.induct)
  case (1 s pos)
  note unf = paragraph_definitions_from.simps [of s pos]
  show ?case
  proof (cases "pos < length s \<and> s ! pos = CHR ''['' \<and> parse_reference_inline (drop pos s) \<noteq> None")
    case False
    then show ?thesis by (cases "parse_reference_inline (drop pos s)") (auto simp: unf)
  next
    case True
    then obtain len label dest where p: "parse_reference_inline (drop pos s) = Some (len, label, dest)" by auto
    note b = parse_reference_inline_bounds [OF p]
    have "definition_chain s (pos + len) (paragraph_definitions_from s (pos + len))"
      using True p by (intro "1.IH") auto
    moreover have "at_line_end s (pos + len)" using at_line_end_drop b True by blast
    ultimately show ?thesis using True p b by (auto simp: unf)
  qed
qed

text \<open>
  The definitions parsed from a paragraph buffer form a chain from its start: each begins
  with a bracket where the previous one ended, has a non-empty label and a destination after
  it inside the definition, and ends at a line end, and what follows the last one does not open
  another definition.
\<close>

lemma paragraph_definitions_chain: "definition_chain buffer 0 (paragraph_definitions buffer)"
  unfolding paragraph_definitions_def by (rule definition_chain_from)

end
