(* ===== verification/Flark_Extractor.thy ===== *)
theory Flark_Extractor
  imports Flark_Buffers Flark_Refdefs
begin

text \<open>
  The extraction's state and its first pass, \<^verbatim>\<open>native/flark_parse/src/model.rs\<close>: one record per
  block with its container chain (\<open>block_record\<close>, \<open>walk_blocks\<close>), the checkbox of a task item
  (\<open>task_checkbox\<close>), and the two corrections of comrak's positions made before any is read
  (\<open>reattach_split_end\<close>, \<open>reattach_setext\<close>). The lemmas show that the pass gives every
  block node one record, in document order, each after its parent, and that a
  container's chain is its enclosing containers.
\<close>

unbundle bit_operations_syntax

text \<open>A finding: its rule and, when it is confined to one leaf's runs, that leaf. Its detail text is not modelled.\<close>

record deviation =
  dv_rule :: string
  dv_leaf :: "u32 option"

record container_node =
  cn_container :: container
  cn_parent :: "nat option"
  cn_block :: nat

record extractor =
  ex_src :: bytes
  ex_li :: line_index
  ex_blocks :: "block_rec list"
  ex_content :: "content_rec list"
  ex_runs :: "run_rec list"
  ex_definitions :: "definition_rec list"
  ex_strings :: bytes
  ex_containers :: "container_node list"
  ex_collect :: bool
  ex_run_delta :: int
  ex_last_text_end :: nat
  ex_bare_cr_leaf :: "bool option"
  ex_deviations :: "deviation list"
  ex_pipes :: pipe_counts
  ex_leaf_text :: leaf_text

definition extractor_new :: "bytes \<Rightarrow> bool \<Rightarrow> extractor" where
  "extractor_new src collect =
     \<lparr>ex_src = src, ex_li = line_index_new src, ex_blocks = [], ex_content = [], ex_runs = [], ex_definitions = [],
      ex_strings = [], ex_containers = [], ex_collect = collect, ex_run_delta = 0, ex_last_text_end = 0,
      ex_bare_cr_leaf = None, ex_deviations = [], ex_pipes = pipe_counts_default,
      ex_leaf_text = \<lparr>lt_key = (0, 0), lt_bytes = [], lt_offsets = [], lt_line_starts = []\<rparr>\<rparr>"

definition dev :: "string \<Rightarrow> extractor \<Rightarrow> extractor" where
  "dev rule ex =
     (if ex_collect ex then ex\<lparr>ex_deviations := ex_deviations ex @ [\<lparr>dv_rule = rule, dv_leaf = None\<rparr>]\<rparr> else ex)"

definition push_string :: "bytes \<Rightarrow> extractor \<Rightarrow> (u32 \<times> u32) \<times> extractor" where
  "push_string s ex =
     ((to_u32 (length (ex_strings ex)), to_u32 (length s)), ex\<lparr>ex_strings := ex_strings ex @ s\<rparr>)"

text \<open>\<^verbatim>\<open>sourcepos_range\<close> and \<^verbatim>\<open>shift_columns\<close>; a signed delta saturates at column zero.\<close>

definition sourcepos_range :: "sourcepos \<Rightarrow> line_index \<Rightarrow> nat \<Rightarrow> (nat \<times> nat) option" where
  "sourcepos_range sp li src_len =
     (if lc_line (sp_start sp) = 0 \<or> lc_line (sp_end sp) = 0 then None
      else
        (let start = min (line_start li (lc_line (sp_start sp) - 1) + (lc_column (sp_start sp) - 1)) src_len;
             e = line_start li (lc_line (sp_end sp) - 1) + lc_column (sp_end sp)
         in Some (start, max (min e src_len) start)))"

definition saturating_add_signed :: "nat \<Rightarrow> int \<Rightarrow> nat" where
  "saturating_add_signed n d = nat (int n + d)"

definition shift_columns :: "int \<Rightarrow> sourcepos \<Rightarrow> sourcepos" where
  "shift_columns delta sp =
     \<lparr>sp_start = (sp_start sp)\<lparr>lc_column := saturating_add_signed (lc_column (sp_start sp)) delta\<rparr>,
      sp_end = (sp_end sp)\<lparr>lc_column := saturating_add_signed (lc_column (sp_end sp)) delta\<rparr>\<rparr>"

text \<open>A source range snapped to scalar boundaries: \<^verbatim>\<open>Extractor::slice\<close>.\<close>

definition snap :: "bytes \<Rightarrow> nat \<Rightarrow> nat \<Rightarrow> nat \<times> nat" where
  "snap src s e =
     (let a = floor_boundary src (min s (length src)); b = ceil_boundary src (min e (length src))
      in (a, max b a))"

subsection \<open>Container chains\<close>

text \<open>
  The containers above \<open>id\<close>, outermost first. A container's parent was pushed before it
  (\<open>containers_ok\<close> below), which bounds the climb.
\<close>

function chain_up :: "container_node list \<Rightarrow> nat option \<Rightarrow> container list" where
  "chain_up cs None = []"
| "chain_up cs (Some i) =
     (case cn_parent (cs ! i) of
        Some p \<Rightarrow> if p < i then chain_up cs (Some p) @ [cn_container (cs ! i)] else [cn_container (cs ! i)]
      | None \<Rightarrow> [cn_container (cs ! i)])"
  by pat_completeness auto
termination
  by (relation "measure (\<lambda>(cs, id). case id of None \<Rightarrow> 0 | Some i \<Rightarrow> Suc i)") auto

declare chain_up.simps [simp del]

definition chain :: "extractor \<Rightarrow> nat option \<Rightarrow> container list" where
  "chain ex cid = chain_up (ex_containers ex) cid"

definition para_line :: "extractor \<Rightarrow> nat \<Rightarrow> container list \<Rightarrow> line_span" where
  "para_line ex line0 cs = paragraph_line (ex_src ex) (ex_li ex) line0 cs"

definition prefix_at :: "extractor \<Rightarrow> nat \<Rightarrow> container list \<Rightarrow> prefix" where
  "prefix_at ex line0 cs = prefix_cursor (ex_li ex) line0 (line_bytes (ex_src ex) (ex_li ex) line0) cs"

subsection \<open>Corrections before the walk\<close>

text \<open>
  A paragraph a table header split, reported to end on its first line, ends on the line before
  the table: the end line derived, and the paragraph's corrected position.
\<close>

definition reattach_split_end :: "extractor \<Rightarrow> nat option \<Rightarrow> ast \<Rightarrow> ast option \<Rightarrow> nat option \<times> ast" where
  "reattach_split_end ex cid node next_sibling =
     (case (node_val node, next_sibling) of
        (Paragraph, Some table) \<Rightarrow>
          (case node_val table of
             Table _ \<Rightarrow>
               (let psp = node_pos node; tsp = node_pos table;
                    first = lc_line (sp_start psp); tline = lc_line (sp_start tsp)
                in if first = 0 \<or> lc_line (sp_end psp) \<noteq> first \<or> tline \<le> first + 1 then (None, node)
                   else
                     (let lst = tline - 2; ch = chain ex cid
                      in if \<not> list_all (\<lambda>l. l < line_count (ex_li ex) \<and> ls_start (para_line ex l ch) < ls_end (para_line ex l ch))
                               [first..<lst + 1]
                         then (None, node)
                         else
                           (Some (lst + 1),
                            set_pos (psp\<lparr>sp_end := \<lparr>lc_line = lst + 1,
                              lc_column = line_end (ex_li ex) lst - line_start (ex_li ex) lst\<rparr>\<rparr>) node)))
           | _ \<Rightarrow> (None, node))
      | _ \<Rightarrow> (None, node))"

definition count_lf :: "bytes \<Rightarrow> nat" where
  "count_lf bs = length (filter (\<lambda>b. b = LF) bs)"

text \<open>The header row of the table moved \<open>k\<close> lines down and its columns shifted.\<close>

definition move_header :: "nat \<Rightarrow> int \<Rightarrow> sourcepos \<Rightarrow> sourcepos" where
  "move_header k delta sp =
     (if lc_line (sp_start sp) = 0 then sp
      else
        (let sp' = shift_columns delta sp
         in \<lparr>sp_start = (sp_start sp')\<lparr>lc_line := lc_line (sp_start sp') + k\<rparr>,
             sp_end = (sp_end sp')\<lparr>lc_line := lc_line (sp_end sp') + k\<rparr>\<rparr>))"

definition move_table :: "nat \<Rightarrow> int \<Rightarrow> ast \<Rightarrow> ast" where
  "move_table k delta table =
     Node (node_val table)
       ((node_pos table)\<lparr>sp_start :=
          \<lparr>lc_line = lc_line (sp_start (node_pos table)) + k,
           lc_column = saturating_add_signed (lc_column (sp_start (node_pos table))) delta\<rparr>\<rparr>)
       (case node_children table of [] \<Rightarrow> [] | h # rows \<Rightarrow> map_pos (move_header k delta) h # rows)"

definition move_paragraph_end :: "nat \<Rightarrow> int \<Rightarrow> ast \<Rightarrow> ast" where
  "move_paragraph_end k delta node =
     set_pos ((node_pos node)\<lparr>sp_end :=
       \<lparr>lc_line = lc_line (sp_end (node_pos node)) + k,
        lc_column = saturating_add_signed (lc_column (sp_end (node_pos node))) delta\<rparr>\<rparr>) node"

definition content_column :: "extractor \<Rightarrow> container list \<Rightarrow> nat \<Rightarrow> int" where
  "content_column ex ch line0 = int (ls_start (para_line ex line0 ch)) - int (line_start (ex_li ex) line0)"

text \<open>The lines the definitions before a setext underline take, when the table after the paragraph split it.\<close>

definition setext_definition_lines :: "extractor \<Rightarrow> container list \<Rightarrow> sourcepos \<Rightarrow> sourcepos \<Rightarrow> nat option" where
  "setext_definition_lines ex ch psp tsp =
     (let first = lc_line (sp_start psp); tline = lc_line (sp_start tsp); l0 = first - 1
      in if first = 0 \<or> tline \<le> first \<or> tline \<noteq> lc_line (sp_end psp) + 1 then None
         else if byte_at (ex_src ex) (ls_start (para_line ex l0 ch)) \<noteq> Some (CHR ''['') then None
         else
           (let spans = map (\<lambda>l. para_line ex l ch) [l0..<min (lc_line (sp_end tsp)) (line_count (ex_li ex))];
                buffer = lb_text (line_buffer_new (ex_src ex) (ex_li ex) spans);
                defs = paragraph_definitions buffer
            in if defs = [] then None
               else
                 (let stop = bd_end (last defs); taken = take stop buffer; k = count_lf taken
                  in if k = 0 \<or> taken = [] \<or> last taken \<noteq> LF \<or> \<not> setext_underline (ex_src ex) (ex_li ex) (l0 + k) ch
                     then None else Some k)))"

definition reattach_setext :: "extractor \<Rightarrow> nat option \<Rightarrow> ast \<Rightarrow> ast option \<Rightarrow> bool \<times> ast \<times> ast option" where
  "reattach_setext ex cid node next_sibling =
     (case (node_val node, next_sibling) of
        (Paragraph, Some table) \<Rightarrow>
          (case node_val table of
             Table _ \<Rightarrow>
               (let psp = node_pos node; tsp = node_pos table; ch = chain ex cid
                in case setext_definition_lines ex ch psp tsp of
                     None \<Rightarrow> (False, node, next_sibling)
                   | Some k \<Rightarrow>
                       (let l0 = lc_line (sp_start psp) - 1;
                            newlines = lc_line (sp_start tsp) - lc_line (sp_start psp);
                            column = content_column ex ch;
                            end_delta = column (l0 + newlines - 1 + k) - column (l0 + newlines - 1);
                            header_delta = column (l0 + newlines + k) - column (l0 + newlines)
                        in (True, move_paragraph_end k end_delta node, Some (move_table k header_delta table))))
           | _ \<Rightarrow> (False, node, next_sibling))
      | _ \<Rightarrow> (False, node, next_sibling))"

subsection \<open>Task checkboxes\<close>

text \<open>The character comrak's text holds for the source at \<open>i\<close>, and where the source after it begins.\<close>

definition decoded_char :: "(bytes \<Rightarrow> bytes) \<Rightarrow> bytes \<Rightarrow> nat \<Rightarrow> nat \<Rightarrow> (bytes \<times> nat) option" where
  "decoded_char dec src i e =
     (if \<not> (i \<le> e \<and> e \<le> length src \<and> is_char_boundary src i \<and> is_char_boundary src e) then None
      else
        (let rest = seg src i e;
             plain_char = (case next_char rest of None \<Rightarrow> None | Some c \<Rightarrow> Some (c, i + length c))
         in case entity_len rest of
              None \<Rightarrow> plain_char
            | Some l \<Rightarrow>
                (let shown = dec (take l rest)
                 in if shown \<noteq> take l rest
                    then (case chars shown of [c] \<Rightarrow> Some (c, i + l) | _ \<Rightarrow> None)
                    else plain_char)))"

definition checkbox_space :: "bytes \<Rightarrow> bool" where
  "checkbox_space c = (c \<in> {[TAB], [LF], [CHR 0x0B], [CHR 0x0C], [CR], [CHR '' '']})"

lemma decoded_char_bounds: "decoded_char dec src i e = Some (c, i') \<Longrightarrow> i < i' \<and> i' \<le> e \<and> e \<le> length src"
proof -
  assume a: "decoded_char dec src i e = Some (c, i')"
  then have le: "i \<le> e" "e \<le> length src" by (auto simp: decoded_char_def split: if_splits)
  have "next_char (seg src i e) = Some c' \<Longrightarrow> 0 < length c' \<and> length c' \<le> e - i" for c'
    using next_char_bounds [of "seg src i e" c'] le by simp
  moreover have "entity_len (seg src i e) = Some l \<Longrightarrow> 0 < l \<and> l \<le> e - i" for l
    using entity_len_shape [of "seg src i e" l] le by auto
  ultimately have "i < i' \<and> i' \<le> e"
    using a le by (fastforce simp: decoded_char_def Let_def split: if_splits option.splits list.splits)
  then show ?thesis using le by simp
qed

function skip_decoded_spaces :: "(bytes \<Rightarrow> bytes) \<Rightarrow> bytes \<Rightarrow> nat \<Rightarrow> nat \<Rightarrow> nat" where
  "skip_decoded_spaces dec src i e =
     (case decoded_char dec src i e of
        None \<Rightarrow> i
      | Some (c, i') \<Rightarrow> if checkbox_space c then skip_decoded_spaces dec src i' e else i)"
  by pat_completeness auto
termination
  by (relation "measure (\<lambda>(dec, src, i, e). e - i)") (auto dest!: decoded_char_bounds)

declare skip_decoded_spaces.simps [simp del]

definition take_decoded :: "(bytes \<Rightarrow> bytes) \<Rightarrow> bytes \<Rightarrow> nat \<Rightarrow> nat \<Rightarrow> bytes \<Rightarrow> nat option" where
  "take_decoded dec src i e c =
     (case decoded_char dec src i e of None \<Rightarrow> None | Some (d, i') \<Rightarrow> if d = c then Some i' else None)"

definition scan_checkbox :: "(bytes \<Rightarrow> bytes) \<Rightarrow> bytes \<Rightarrow> nat \<Rightarrow> nat \<Rightarrow> bytes \<Rightarrow> checkbox option" where
  "scan_checkbox dec src lo e symbol =
     (let start = scan_fwd is_blank src lo e;
          i = skip_decoded_spaces dec src start e
      in case take_decoded dec src i e ''['' of
           None \<Rightarrow> None
         | Some s0 \<Rightarrow>
             (case take_decoded dec src s0 e symbol of
                None \<Rightarrow> None
              | Some s1 \<Rightarrow>
                  (case take_decoded dec src s1 e '']'' of
                     None \<Rightarrow> None
                   | Some i1 \<Rightarrow>
                       (let i2 = (if list_all is_blank (seg src i1 e) then i1
                                  else (case decoded_char dec src i1 e of
                                          None \<Rightarrow> i1
                                        | Some (c, i') \<Rightarrow> if checkbox_space c then i' else i1))
                        in Some \<lparr>cx_start = start, cx_end = i2, cx_symbol = (s0, s1)\<rparr>))))"

text \<open>The index of the first occurrence: \<^verbatim>\<open>iter().position(test)\<close>.\<close>

definition position :: "('a \<Rightarrow> bool) \<Rightarrow> 'a list \<Rightarrow> nat option" where
  "position P xs = (let p = partition_point (\<lambda>x. \<not> P x) xs in if p < length xs then Some p else None)"

text \<open>
  The checkbox opening what is left of a paragraph once its definitions are resolved: \<open>None\<close> when
  nothing is left, \<open>Some None\<close> when there is none or it is not where comrak reports it.
\<close>

definition checkbox_after_definitions ::
    "(bytes \<Rightarrow> bytes) \<Rightarrow> extractor \<Rightarrow> line_span list \<Rightarrow> bytes \<Rightarrow> sourcepos \<Rightarrow> checkbox option option" where
  "checkbox_after_definitions dec ex lines symbol claimed =
     (let src = ex_src ex; li = ex_li ex;
          buffer = line_buffer_new src li lines;
          defs = paragraph_definitions (lb_text buffer);
          after = (if defs = [] then 0 else bd_end (last defs))
      in if length (lb_text buffer) \<le> after then None
         else
           (case position (\<lambda>s. s = after) (lb_starts buffer) of
              None \<Rightarrow> None
            | Some n \<Rightarrow>
                (let line = lines ! n; le = line_end li (ls_line0 line)
                 in case scan_checkbox dec src (ls_start line) le symbol of
                      None \<Rightarrow> Some None
                    | Some cb \<Rightarrow>
                        if defs = [] \<and> CHR ''&'' \<notin> set (seg src (cx_start cb) (fst (cx_symbol cb))) \<and>
                           map_option fst (sourcepos_range claimed li (length src)) \<noteq> Some (fst (cx_symbol cb))
                        then Some None else Some (Some cb))))"

text \<open>The paragraphs before the item's first remaining child: removed when the checkbox emptied them.\<close>

function checkbox_region ::
    "(bytes \<Rightarrow> bytes) \<Rightarrow> extractor \<Rightarrow> container list \<Rightarrow> bytes \<Rightarrow> sourcepos \<Rightarrow> nat \<Rightarrow> nat \<Rightarrow> checkbox option option" where
  "checkbox_region dec ex ch symbol claimed l region_end =
     (if l < region_end then
        (let lines = takeWhile (\<lambda>s. ls_start s < ls_end s) (map (\<lambda>k. para_line ex k ch) [l..<region_end])
         in case checkbox_after_definitions dec ex lines symbol claimed of
              Some found \<Rightarrow> Some found
            | None \<Rightarrow> checkbox_region dec ex ch symbol claimed (l + max (length lines) 1) region_end)
      else None)"
  by pat_completeness auto
termination
  by (relation "measure (\<lambda>(dec, ex, ch, symbol, claimed, l, region_end). region_end - l)") auto

declare checkbox_region.simps [simp del]

definition task_checkbox ::
    "(bytes \<Rightarrow> bytes) \<Rightarrow> extractor \<Rightarrow> ast \<Rightarrow> bytes \<Rightarrow> sourcepos \<Rightarrow> container \<Rightarrow> container list \<Rightarrow> nat \<Rightarrow> checkbox option" where
  "task_checkbox dec ex node symbol claimed item ch0 last_line =
     (let ch = ch0 @ [item];
          region_end = (case node_children node of
                          [] \<Rightarrow> last_line + 1
                        | c # _ \<Rightarrow> min (lc_line (sp_start (node_pos c)) - 1) (last_line + 1))
      in case checkbox_region dec ex ch symbol claimed (ct_first_line item) region_end of
           Some found \<Rightarrow> found
         | None \<Rightarrow>
             (case node_children node of
                [] \<Rightarrow> None
              | c # _ \<Rightarrow>
                  if node_val c = Paragraph then
                    (let sp = node_pos c;
                         lines = map (\<lambda>k. para_line ex k ch) [lc_line (sp_start sp) - 1..<lc_line (sp_end sp)]
                     in case checkbox_after_definitions dec ex lines symbol claimed of None \<Rightarrow> None | Some found \<Rightarrow> found)
                  else None))"

subsection \<open>Block records\<close>

definition alignment_value :: "table_alignment \<Rightarrow> u32" where
  "alignment_value a =
     (case a of AlignNone \<Rightarrow> TA_NONE | AlignLeft \<Rightarrow> TA_LEFT | AlignCenter \<Rightarrow> TA_CENTER | AlignRight \<Rightarrow> TA_RIGHT)"

definition pack_alignments :: "table_alignment list \<Rightarrow> u32" where
  "pack_alignments as =
     fold (\<lambda>(i, a) packed. packed OR push_bit (2 * i) (alignment_value a)) (take 16 (zip [0..<length as] as)) 0"

definition flag_bit :: "bool \<Rightarrow> u32" where
  "flag_bit b = (if b then 1 else 0)"

text \<open>The label of a footnote definition on its first line, between \<open>[^\<close> and the next bracket.\<close>

definition footnote_label :: "bytes \<Rightarrow> (nat \<times> nat) option" where
  "footnote_label line =
     (case position (\<lambda>b. b = CHR ''['') line of
        None \<Rightarrow> None
      | Some o' \<Rightarrow>
          if byte_at line (o' + 1) = Some (CHR ''^'') then
            (case position (\<lambda>b. b = CHR '']'') (drop o' line) of
               None \<Rightarrow> None
             | Some c \<Rightarrow> Some (o' + 2, o' + c))
          else None)"

definition item_container :: "nat \<Rightarrow> nat \<Rightarrow> (nat \<times> nat) option \<Rightarrow> container" where
  "item_container offset first_line cb =
     \<lparr>ct_kind = ItemContainer, ct_offset = offset, ct_first_line = first_line, ct_checkbox = cb\<rparr>"

text \<open>A task item: its content column comes from the marker line, its checkbox from its first paragraph.\<close>

definition task_item_record ::
    "(bytes \<Rightarrow> bytes) \<Rightarrow> extractor \<Rightarrow> nat option \<Rightarrow> ast \<Rightarrow> node_task_item \<Rightarrow> nat \<Rightarrow> block_rec \<Rightarrow> block_rec \<times> container \<times> extractor" where
  "task_item_record dec ex cid node t first_line rec =
     (let ch = chain ex cid;
          offset = marker_content_offset (ex_src ex) (ex_li ex) first_line ch;
          item = item_container offset first_line None;
          symbol = (case ti_symbol t of None \<Rightarrow> '' '' | Some c \<Rightarrow> c);
          last_line = max (lc_line (sp_end (node_pos node)) - 1) first_line;
          rec1 = rec\<lparr>bl_kind := BK_ITEM, bl_flags := 1 OR push_bit 1 (flag_bit (ti_symbol t \<noteq> None)), bl_attr0 := to_u32 offset\<rparr>
      in case task_checkbox dec ex node symbol (ti_symbol_sourcepos t) item ch last_line of
           Some cb \<Rightarrow>
             (rec1\<lparr>bl_attr1 := to_u32 (fst (cx_symbol cb)), bl_attr2 := to_u32 (snd (cx_symbol cb))\<rparr>,
              item\<lparr>ct_checkbox := Some (cx_start cb, cx_end cb)\<rparr>, ex)
         | None \<Rightarrow> (rec1, item, dev ''task-checkbox'' ex))"

definition table_row_record :: "extractor \<Rightarrow> nat option \<Rightarrow> nat \<Rightarrow> nat \<Rightarrow> bool \<Rightarrow> block_rec \<Rightarrow> block_rec" where
  "table_row_record ex cid first_line e header rec =
     (let rec1 = rec\<lparr>bl_kind := BK_TABLE_ROW, bl_flags := flag_bit header\<rparr>
      in if header then rec1
         else
           (let p = prefix_at ex first_line (chain ex cid);
                s = min (line_start (ex_li ex) first_line + cur_pos (skip_whitespace (px_cur p))) e
            in rec1\<lparr>bl_start_byte := to_u32 s, bl_start_utf16 := u16 (ex_li ex) s\<rparr>))"

text \<open>The record and container of one node, by its kind.\<close>

definition kind_record ::
    "(bytes \<Rightarrow> bytes) \<Rightarrow> extractor \<Rightarrow> nat option \<Rightarrow> ast \<Rightarrow> nat \<Rightarrow> nat \<Rightarrow> block_rec \<Rightarrow> block_rec \<times> container option \<times> extractor" where
  "kind_record dec ex cid node first_line e rec =
     (case node_val node of
        Document \<Rightarrow> (rec\<lparr>bl_kind := BK_DOCUMENT\<rparr>, None, ex)
      | Paragraph \<Rightarrow> (rec\<lparr>bl_kind := BK_PARAGRAPH\<rparr>, None, ex)
      | Heading h \<Rightarrow> (rec\<lparr>bl_kind := BK_HEADING, bl_attr0 := to_u32 (hd_level h), bl_flags := flag_bit (hd_setext h)\<rparr>, None, ex)
      | CodeBlock c \<Rightarrow>
          (rec\<lparr>bl_kind := BK_CODE_BLOCK, bl_attr0 := (if cb_fenced c then to_u32 (cb_fence_length c) else 0),
               bl_flags := flag_bit (cb_fenced c) OR push_bit 1 (flag_bit (cb_fenced c \<and> cb_closed c))\<rparr>, None, ex)
      | HtmlBlock \<Rightarrow> (rec\<lparr>bl_kind := BK_HTML_BLOCK\<rparr>, None, ex)
      | BlockQuote \<Rightarrow>
          (rec\<lparr>bl_kind := BK_BLOCK_QUOTE\<rparr>,
           Some \<lparr>ct_kind = Quote, ct_offset = 0, ct_first_line = first_line, ct_checkbox = None\<rparr>, ex)
      | NList l \<Rightarrow>
          (rec\<lparr>bl_kind := BK_LIST, bl_attr0 := flag_bit (nl_list_type l = Ordered), bl_attr1 := to_u32 (nl_start l),
               bl_flags := flag_bit (nl_tight l)\<rparr>, None, ex)
      | Item l \<Rightarrow>
          (rec\<lparr>bl_kind := BK_ITEM, bl_attr0 := to_u32 (nl_marker_offset l + nl_padding l)\<rparr>,
           Some (item_container (nl_marker_offset l + nl_padding l) first_line None), ex)
      | TaskItem t \<Rightarrow>
          (case task_item_record dec ex cid node t first_line rec of (r, c, ex1) \<Rightarrow> (r, Some c, ex1))
      | ThematicBreak \<Rightarrow> (rec\<lparr>bl_kind := BK_THEMATIC_BREAK\<rparr>, None, ex)
      | Table t \<Rightarrow>
          (rec\<lparr>bl_kind := BK_TABLE, bl_attr0 := to_u32 (nt_num_columns t), bl_attr1 := pack_alignments (nt_alignments t)\<rparr>,
           None,
           (if list_ex (\<lambda>a. a \<noteq> AlignNone) (drop 16 (nt_alignments t)) then dev ''table-alignment-cap'' ex else ex))
      | TableRow h \<Rightarrow> (table_row_record ex cid first_line e h rec, None, ex)
      | TableCell \<Rightarrow> (rec\<lparr>bl_kind := BK_TABLE_CELL\<rparr>, None, ex)
      | FootnoteDefinition \<Rightarrow>
          (let ls = line_start (ex_li ex) first_line;
               r1 = rec\<lparr>bl_kind := BK_FOOTNOTE_DEFINITION\<rparr>
           in ((case footnote_label (line_bytes (ex_src ex) (ex_li ex) first_line) of
                  None \<Rightarrow> r1
                | Some (a, b) \<Rightarrow> r1\<lparr>bl_attr1 := to_u32 (ls + a), bl_attr2 := to_u32 (ls + b)\<rparr>),
               Some \<lparr>ct_kind = Footnote, ct_offset = 4, ct_first_line = first_line, ct_checkbox = None\<rparr>, ex))
      | _ \<Rightarrow> (rec\<lparr>bl_kind := BK_OTHER\<rparr>, None, ex))"

definition is_leaf_value :: "node_value \<Rightarrow> bool" where
  "is_leaf_value v = (contains_inlines v \<or> (case v of CodeBlock _ \<Rightarrow> True | HtmlBlock \<Rightarrow> True | ThematicBreak \<Rightarrow> True | _ \<Rightarrow> False))"

definition initial_record :: "extractor \<Rightarrow> u32 \<Rightarrow> sourcepos \<Rightarrow> nat \<times> nat \<Rightarrow> block_rec" where
  "initial_record ex parent sp rng =
     zero_block\<lparr>bl_parent := parent,
       bl_start_byte := to_u32 (fst rng), bl_end_byte := to_u32 (snd rng),
       bl_start_utf16 := u16 (ex_li ex) (fst rng), bl_end_utf16 := u16 (ex_li ex) (snd rng),
       bl_first_line := to_u32 (lc_line (sp_start sp) - 1),
       bl_line_count := (if lc_line (sp_start sp) \<le> lc_line (sp_end sp) \<and> 0 < lc_line (sp_start sp)
                         then to_u32 (lc_line (sp_end sp) - lc_line (sp_start sp) + 1) else 0)\<rparr>"

text \<open>An item also publishes where its marker's prefix ends.\<close>

definition marker_record :: "extractor \<Rightarrow> nat option \<Rightarrow> nat \<Rightarrow> container option \<Rightarrow> block_rec \<Rightarrow> block_rec" where
  "marker_record ex cid first_line container rec =
     (case container of
        Some c \<Rightarrow>
          if ct_kind c = ItemContainer then
            (let p = prefix_at ex first_line (chain ex cid @ [c\<lparr>ct_checkbox := None\<rparr>]);
                 m = line_start (ex_li ex) first_line + cur_pos (px_cur p)
             in rec\<lparr>bl_marker_end_byte := to_u32 m, bl_marker_end_utf16 := u16 (ex_li ex) m\<rparr>)
          else rec
      | None \<Rightarrow> rec)"

definition block_record ::
    "(bytes \<Rightarrow> bytes) \<Rightarrow> extractor \<Rightarrow> ast \<Rightarrow> u32 \<Rightarrow> nat option \<Rightarrow> (nat \<times> container option \<times> bool) \<times> extractor" where
  "block_record dec ex node parent cid =
     (let sp = node_pos node;
          first_line = lc_line (sp_start sp) - 1;
          rng = (case sourcepos_range sp (ex_li ex) (length (ex_src ex)) of None \<Rightarrow> (0, 0) | Some r \<Rightarrow> r)
      in case kind_record dec ex cid node first_line (snd rng) (initial_record ex parent sp rng) of
           (rec, container, ex1) \<Rightarrow>
             ((length (ex_blocks ex1), container, is_leaf_value (node_val node)),
              ex1\<lparr>ex_blocks := ex_blocks ex1 @ [marker_record ex1 cid first_line container rec]\<rparr>))"

subsection \<open>The walk\<close>

text \<open>A leaf, with its parent's value and position, which a table cell reads.\<close>

record leaf =
  lf_node :: ast
  lf_idx :: nat
  lf_container :: "nat option"
  lf_setext_definitions :: bool
  lf_split_end :: "nat option"
  lf_parent :: "(node_value \<times> sourcepos) option"

text \<open>
  The siblings still to visit under one parent: the source's stack holds the block children of
  every open parent, the next one on top, so a node's next sibling is the head of the rest
  of its frame.
\<close>

record frame =
  fr_siblings :: "ast list"
  fr_parent :: u32
  fr_container :: "nat option"
  fr_parent_node :: "(node_value \<times> sourcepos) option"

primrec node_count :: "ast \<Rightarrow> nat" where
  "node_count (Node v p ks) = Suc (sum_list (map node_count ks))"

lemma node_count_map_pos [simp]: "node_count (map_pos f n) = node_count n"
proof (induction n)
  case (Node v p ks)
  then have "sum_list (map (node_count \<circ> map_pos f) ks) = sum_list (map node_count ks)"
    by (intro arg_cong [where f = sum_list]) simp
  then show ?case by simp
qed

lemma node_count_eq: "node_count n = Suc (sum_list (map node_count (node_children n)))"
  by (cases n) simp

lemma node_count_move_table [simp]: "node_count (move_table k d t) = node_count t"
  by (cases t) (auto simp: move_table_def split: list.splits)

lemma node_count_pos [simp]: "node_count (set_pos p n) = node_count n" "node_val (set_pos p n) = node_val n"
    "node_children (set_pos p n) = node_children n"
  by (cases n; simp add: set_pos_def)+

text \<open>What the corrections leave of a node and of the siblings after it.\<close>

definition corrected :: "extractor \<Rightarrow> nat option \<Rightarrow> ast \<Rightarrow> ast list \<Rightarrow> (nat option \<times> bool) \<times> ast \<times> ast list" where
  "corrected ex cid node rest =
     (let next_sibling = (case rest of [] \<Rightarrow> None | s # _ \<Rightarrow> Some s) in
      case reattach_split_end ex cid node next_sibling of
        (split_end, node1) \<Rightarrow>
          (case reattach_setext ex cid node1 next_sibling of
             (setext, node2, sibling2) \<Rightarrow>
               ((split_end, setext), node2, (case sibling2 of None \<Rightarrow> rest | Some s \<Rightarrow> s # tl rest))))"

lemma reattach_split_end_shape:
  "reattach_split_end ex cid node nxt = (r, node') \<Longrightarrow> node_val node' = node_val node \<and> node_children node' = node_children node"
  by (auto simp: reattach_split_end_def Let_def split: node_value.splits option.splits if_splits)

lemma reattach_setext_shape:
  assumes "reattach_setext ex cid node nxt = (r, node', nxt')"
  shows "node_val node' = node_val node \<and> node_children node' = node_children node \<and>
         map_option node_count nxt' = map_option node_count nxt \<and> map_option node_val nxt' = map_option node_val nxt"
  using assms
  by (auto simp: reattach_setext_def Let_def move_paragraph_end_def split: node_value.splits option.splits if_splits list.splits)
     (simp_all add: move_table_def)

lemma corrected_shape:
  assumes "corrected ex cid node rest = (r, node', rest')"
  shows "node_val node' = node_val node \<and> node_children node' = node_children node \<and>
         map node_count rest' = map node_count rest \<and> map node_val rest' = map node_val rest"
  using assms
  by (cases rest)
     (auto simp: corrected_def Let_def split: prod.splits option.splits
       dest!: reattach_split_end_shape reattach_setext_shape)

definition push_container :: "extractor \<Rightarrow> container option \<Rightarrow> nat option \<Rightarrow> nat \<Rightarrow> nat option \<times> extractor" where
  "push_container ex container cid idx =
     (case container of
        Some c \<Rightarrow>
          (Some (length (ex_containers ex)),
           ex\<lparr>ex_containers := ex_containers ex @ [\<lparr>cn_container = c, cn_parent = cid, cn_block = idx\<rparr>]\<rparr>)
      | None \<Rightarrow> (cid, ex))"

text \<open>The children of a block that are no blocks, as leaves of the block, last first.\<close>

definition inline_leaves :: "ast \<Rightarrow> nat \<Rightarrow> nat option \<Rightarrow> leaf list" where
  "inline_leaves node idx inner =
     map (\<lambda>c. \<lparr>lf_node = c, lf_idx = idx, lf_container = inner, lf_setext_definitions = False, lf_split_end = None,
              lf_parent = Some (node_val node, node_pos node)\<rparr>)
       (filter (\<lambda>c. \<not> is_block (node_val c)) (rev (node_children node)))"

definition frames_weight :: "frame list \<Rightarrow> nat" where
  "frames_weight frames = sum_list (map (\<lambda>f. Suc (2 * sum_list (map node_count (fr_siblings f)))) frames)"

lemma walk_weight:
  assumes "fr_siblings f = n # rest"
  shows "corrected ex cid n rest = (r, node, rest') \<Longrightarrow> frames_weight (f\<lparr>fr_siblings := rest'\<rparr> # fs) < frames_weight (f # fs)"
    and "corrected ex cid n rest = (r, node, rest') \<Longrightarrow>
      frames_weight (\<lparr>fr_siblings = node_children node, fr_parent = p, fr_container = c, fr_parent_node = q\<rparr> #
        f\<lparr>fr_siblings := rest'\<rparr> # fs) < frames_weight (f # fs)"
    and "frames_weight (f\<lparr>fr_siblings := rest\<rparr> # fs) < frames_weight (f # fs)"
    and "frames_weight fs < frames_weight (f # fs)"
  using assms corrected_shape [of ex cid n rest r node rest'] by (auto simp: frames_weight_def node_count_eq [of n])

lemma walk_weight_empty: "frames_weight fs < frames_weight (f # fs)"
  by (simp add: frames_weight_def)

function walk_frames :: "(bytes \<Rightarrow> bytes) \<Rightarrow> frame list \<Rightarrow> extractor \<Rightarrow> leaf list \<Rightarrow> leaf list \<times> extractor" where
  "walk_frames dec [] ex leaves = (leaves, ex)"
| "walk_frames dec (f # fs) ex leaves =
     (case fr_siblings f of
        [] \<Rightarrow> walk_frames dec fs ex leaves
      | n # rest \<Rightarrow>
          if \<not> is_block (node_val n) then walk_frames dec (f\<lparr>fr_siblings := rest\<rparr> # fs) ex leaves
          else
            (case corrected ex (fr_container f) n rest of
               ((split_end, setext), node, rest') \<Rightarrow>
                 (case block_record dec ex node (fr_parent f) (fr_container f) of
                    ((idx, container, is_leaf), ex1) \<Rightarrow>
                      (case push_container ex1 container (fr_container f) idx of
                         (inner, ex2) \<Rightarrow>
                           if is_leaf then
                             walk_frames dec (f\<lparr>fr_siblings := rest'\<rparr> # fs) ex2
                               (leaves @ [\<lparr>lf_node = node, lf_idx = idx, lf_container = inner,
                                          lf_setext_definitions = setext, lf_split_end = split_end,
                                          lf_parent = fr_parent_node f\<rparr>])
                           else
                             walk_frames dec
                               (\<lparr>fr_siblings = node_children node, fr_parent = to_u32 idx, fr_container = inner,
                                 fr_parent_node = Some (node_val node, node_pos node)\<rparr> # f\<lparr>fr_siblings := rest'\<rparr> # fs)
                               ex2 (leaves @ inline_leaves node idx inner)))))"
  by pat_completeness auto
termination
  by (relation "measure (\<lambda>(dec, frames, ex, leaves). frames_weight frames)")
     (auto simp: walk_weight(3) walk_weight_empty intro: walk_weight(1,2) [OF _ sym])

declare walk_frames.simps [simp del]

definition walk_blocks :: "(bytes \<Rightarrow> bytes) \<Rightarrow> ast \<Rightarrow> extractor \<Rightarrow> leaf list \<times> extractor" where
  "walk_blocks dec root ex =
     (case walk_frames dec [\<lparr>fr_siblings = [root], fr_parent = U32_MAX, fr_container = None, fr_parent_node = None\<rparr>] ex [] of
        (leaves, ex1) \<Rightarrow> (sort_key lf_idx leaves, ex1))"

subsection \<open>Every block once, in document order, after its parent\<close>

text \<open>The blocks the walk visits: a node's blocks in document order, nothing below a leaf.\<close>

primrec preorder :: "ast \<Rightarrow> node_value list" where
  "preorder (Node v p ks) =
     (if is_block v then v # (if is_leaf_value v then [] else concat (map preorder ks)) else [])"

definition value_kind :: "node_value \<Rightarrow> u32" where
  "value_kind v =
     (case v of
        Document \<Rightarrow> BK_DOCUMENT | Paragraph \<Rightarrow> BK_PARAGRAPH | Heading _ \<Rightarrow> BK_HEADING | CodeBlock _ \<Rightarrow> BK_CODE_BLOCK
      | HtmlBlock \<Rightarrow> BK_HTML_BLOCK | BlockQuote \<Rightarrow> BK_BLOCK_QUOTE | NList _ \<Rightarrow> BK_LIST | Item _ \<Rightarrow> BK_ITEM
      | TaskItem _ \<Rightarrow> BK_ITEM | ThematicBreak \<Rightarrow> BK_THEMATIC_BREAK | Table _ \<Rightarrow> BK_TABLE | TableRow _ \<Rightarrow> BK_TABLE_ROW
      | TableCell \<Rightarrow> BK_TABLE_CELL | FootnoteDefinition \<Rightarrow> BK_FOOTNOTE_DEFINITION | _ \<Rightarrow> BK_OTHER)"

lemma preorder_eq:
  "preorder n = (if is_block (node_val n)
     then node_val n # (if is_leaf_value (node_val n) then [] else concat (map preorder (node_children n))) else [])"
  by (cases n) simp

lemma preorder_map_pos [simp]: "preorder (map_pos f n) = preorder n"
proof (induction n)
  case (Node v p ks)
  then have "concat (map (preorder \<circ> map_pos f) ks) = concat (map preorder ks)"
    by (intro arg_cong [where f = concat]) simp
  then show ?case by simp
qed

lemma preorder_move_table [simp]: "preorder (move_table k d t) = preorder t"
  by (cases t) (auto simp: move_table_def split: list.splits)

lemma corrected_preorder:
  assumes "corrected ex cid node rest = (r, node', rest')"
  shows "preorder node' = preorder node \<and> map preorder rest' = map preorder rest"
proof -
  have "map_option preorder nxt' = map_option preorder nxt" if "reattach_setext ex cid n nxt = (b, n', nxt')" for n nxt b n' nxt'
    using that by (auto simp: reattach_setext_def Let_def split: node_value.splits option.splits)
  then show ?thesis
    using assms corrected_shape [OF assms] unfolding preorder_eq [of node] preorder_eq [of node']
    by (cases rest) (fastforce simp: corrected_def Let_def split: prod.splits option.splits)+
qed

text \<open>An operation that only reports findings.\<close>

definition reports :: "extractor \<Rightarrow> extractor \<Rightarrow> bool" where
  "reports ex ex' = (\<exists>ds. ex' = ex\<lparr>ex_deviations := ex_deviations ex @ ds\<rparr>)"

lemma reports_refl [simp]: "reports ex ex"
  by (auto simp: reports_def intro: exI [of _ "[]"])

lemma reports_dev [simp]: "reports ex (dev rule ex)"
  by (cases "ex_collect ex") (auto simp: reports_def dev_def intro: exI [of _ "[]"])

lemma reports_fields:
  assumes "reports ex ex'"
  shows "ex_src ex' = ex_src ex" "ex_li ex' = ex_li ex" "ex_blocks ex' = ex_blocks ex" "ex_content ex' = ex_content ex"
    "ex_runs ex' = ex_runs ex" "ex_definitions ex' = ex_definitions ex" "ex_strings ex' = ex_strings ex"
    "ex_containers ex' = ex_containers ex" "ex_collect ex' = ex_collect ex"
  using assms by (auto simp: reports_def)

lemma task_item_record_keeps:
  "task_item_record dec ex cid node t fl rec = (rec', c, ex') \<Longrightarrow>
   reports ex ex' \<and> bl_parent rec' = bl_parent rec \<and> bl_kind rec' = BK_ITEM"
  by (auto simp: task_item_record_def Let_def split: option.splits)

lemma kind_record_keeps:
  assumes "kind_record dec ex cid node fl e rec = (rec', c, ex')"
  shows "reports ex ex' \<and> bl_parent rec' = bl_parent rec \<and> bl_kind rec' = value_kind (node_val node)"
proof (cases "node_val node")
  case (TaskItem t)
  then show ?thesis
    using assms task_item_record_keeps [of dec ex cid node t fl rec] by (auto simp: kind_record_def value_kind_def split: prod.splits)
next
  case (TableRow h)
  then show ?thesis using assms by (auto simp: kind_record_def value_kind_def table_row_record_def Let_def)
next
  case FootnoteDefinition
  then show ?thesis using assms by (auto simp: kind_record_def value_kind_def Let_def split: option.splits)
qed (use assms in \<open>auto simp: kind_record_def value_kind_def\<close>)

lemma marker_record_keeps [simp]:
  "bl_parent (marker_record ex cid fl c rec) = bl_parent rec" "bl_kind (marker_record ex cid fl c rec) = bl_kind rec"
  by (auto simp: marker_record_def Let_def split: option.splits)

lemma block_record_spec:
  assumes "block_record dec ex node parent cid = ((idx, container, is_leaf), ex')"
  obtains rec where "ex_blocks ex' = ex_blocks ex @ [rec]" "bl_parent rec = parent" "bl_kind rec = value_kind (node_val node)"
    "idx = length (ex_blocks ex)" "is_leaf = is_leaf_value (node_val node)"
    "ex_containers ex' = ex_containers ex" "ex_src ex' = ex_src ex" "ex_li ex' = ex_li ex" "ex_collect ex' = ex_collect ex"
    "ex_content ex' = ex_content ex" "ex_runs ex' = ex_runs ex" "ex_definitions ex' = ex_definitions ex"
proof -
  obtain rec c ex1 where k: "kind_record dec ex cid node (lc_line (sp_start (node_pos node)) - 1)
      (snd (case sourcepos_range (node_pos node) (ex_li ex) (length (ex_src ex)) of None \<Rightarrow> (0, 0) | Some r \<Rightarrow> r))
      (initial_record ex parent (node_pos node)
        (case sourcepos_range (node_pos node) (ex_li ex) (length (ex_src ex)) of None \<Rightarrow> (0, 0) | Some r \<Rightarrow> r)) = (rec, c, ex1)"
    by (metis prod_cases3)
  note keeps = kind_record_keeps [OF k]
  have "bl_parent rec = parent" using keeps by (simp add: initial_record_def)
  then show ?thesis
    using assms k keeps reports_fields [of ex ex1]
    by (intro that [of "marker_record ex1 cid (lc_line (sp_start (node_pos node)) - 1) c rec"])
       (auto simp: block_record_def Let_def)
qed

text \<open>Containers point at earlier containers and at blocks already recorded.\<close>

definition containers_ok :: "container_node list \<Rightarrow> nat \<Rightarrow> bool" where
  "containers_ok cs blocks =
     (\<forall>i < length cs. cn_block (cs ! i) < blocks \<and> (case cn_parent (cs ! i) of None \<Rightarrow> True | Some p \<Rightarrow> p < i))"

definition parents_ok :: "block_rec list \<Rightarrow> bool" where
  "parents_ok bs = (\<forall>i < length bs. bl_parent (bs ! i) = U32_MAX \<or> to_usize (bl_parent (bs ! i)) < i)"

definition valid_cid :: "extractor \<Rightarrow> nat option \<Rightarrow> bool" where
  "valid_cid ex cid = (case cid of None \<Rightarrow> True | Some i \<Rightarrow> i < length (ex_containers ex))"

definition frame_ok :: "extractor \<Rightarrow> frame \<Rightarrow> bool" where
  "frame_ok ex f =
     ((fr_parent f = U32_MAX \<or> to_usize (fr_parent f) < length (ex_blocks ex)) \<and> valid_cid ex (fr_container f))"

definition leaf_ok :: "extractor \<Rightarrow> leaf \<Rightarrow> bool" where
  "leaf_ok ex lf = (lf_idx lf < length (ex_blocks ex) \<and> valid_cid ex (lf_container lf))"

definition walk_ok :: "extractor \<Rightarrow> bool" where
  "walk_ok ex = (parents_ok (ex_blocks ex) \<and> containers_ok (ex_containers ex) (length (ex_blocks ex)))"

definition grown :: "extractor \<Rightarrow> extractor \<Rightarrow> bool" where
  "grown ex ex' =
     (length (ex_blocks ex) \<le> length (ex_blocks ex') \<and> length (ex_containers ex) \<le> length (ex_containers ex'))"

lemma grown_ok: "grown ex ex' \<Longrightarrow> frame_ok ex f \<Longrightarrow> frame_ok ex' f" "grown ex ex' \<Longrightarrow> leaf_ok ex lf \<Longrightarrow> leaf_ok ex' lf"
    "grown ex ex' \<Longrightarrow> valid_cid ex c \<Longrightarrow> valid_cid ex' c"
  by (auto simp: grown_def frame_ok_def leaf_ok_def valid_cid_def split: option.splits)

lemma grown_trans: "grown a b \<Longrightarrow> grown b c \<Longrightarrow> grown a c"
  by (auto simp: grown_def)

lemma unat_to_u32_le: "to_usize (to_u32 n) \<le> n"
  by (simp add: unat_of_nat)

lemma frame_ok_siblings [simp]: "frame_ok ex (f\<lparr>fr_siblings := s\<rparr>) = frame_ok ex f"
  by (simp add: frame_ok_def)

lemma containers_ok_snoc:
  "containers_ok cs n \<Longrightarrow> cn_block c < n \<Longrightarrow> (case cn_parent c of None \<Rightarrow> True | Some p \<Rightarrow> p < length cs) \<Longrightarrow>
   containers_ok (cs @ [c]) n"
  by (auto simp: containers_ok_def nth_append less_Suc_eq)

text \<open>One node of the walk: its record is appended, and the invariant and the indices handed on hold.\<close>

lemma walk_step:
  assumes ok: "walk_ok ex" and f: "frame_ok ex f"
    and br: "block_record dec ex node (fr_parent f) (fr_container f) = ((idx, container, is_leaf), ex1)"
    and pc: "push_container ex1 container (fr_container f) idx = (inner, ex2)"
  shows "walk_ok ex2 \<and> grown ex ex2 \<and> idx < length (ex_blocks ex2) \<and> valid_cid ex2 inner \<and> is_leaf = is_leaf_value (node_val node) \<and>
         map bl_kind (ex_blocks ex2) = map bl_kind (ex_blocks ex) @ [value_kind (node_val node)]"
proof -
  obtain rec where r: "ex_blocks ex1 = ex_blocks ex @ [rec]" "bl_parent rec = fr_parent f" "bl_kind rec = value_kind (node_val node)"
    "idx = length (ex_blocks ex)" "is_leaf = is_leaf_value (node_val node)" "ex_containers ex1 = ex_containers ex"
    using block_record_spec [OF br] by metis
  have b2: "ex_blocks ex2 = ex_blocks ex1" using pc by (auto simp: push_container_def split: option.splits)
  have "parents_ok (ex_blocks ex2)"
    using ok f r b2 by (auto simp: walk_ok_def parents_ok_def frame_ok_def nth_append less_Suc_eq)
  moreover have "containers_ok (ex_containers ex2) (length (ex_blocks ex2))"
  proof -
    have mono: "containers_ok (ex_containers ex) (length (ex_blocks ex2))"
      using ok r(1) b2 by (auto simp: walk_ok_def containers_ok_def)
    show ?thesis
      using containers_ok_snoc [OF mono] f r(1,4,6) b2 pc mono
      by (auto simp: push_container_def frame_ok_def valid_cid_def split: option.splits)
  qed
  moreover have "grown ex ex2" "valid_cid ex2 inner"
    using f r b2 pc by (auto simp: grown_def push_container_def valid_cid_def frame_ok_def split: option.splits)
  ultimately show ?thesis using r b2 by (simp add: walk_ok_def)
qed

lemma walk_frames_spec:
  assumes "walk_ok ex" "\<forall>f \<in> set frames. frame_ok ex f" "\<forall>lf \<in> set leaves. leaf_ok ex lf"
    and "walk_frames dec frames ex leaves = (leaves', ex')"
  shows "walk_ok ex' \<and> grown ex ex' \<and> (\<forall>lf \<in> set leaves'. leaf_ok ex' lf) \<and>
         map bl_kind (ex_blocks ex') =
           map bl_kind (ex_blocks ex) @ map value_kind (concat (map preorder (concat (map fr_siblings frames))))"
  using assms
proof (induction dec frames ex leaves arbitrary: leaves' ex' rule: walk_frames.induct)
  case (1 dec ex leaves)
  then show ?case by (auto simp: walk_frames.simps grown_def)
next
  case (2 dec f fs ex leaves)
  note unf = walk_frames.simps(2) [of dec f fs ex leaves]
  show ?case
  proof (cases "fr_siblings f")
    case Nil
    then show ?thesis using "2.IH"(1) [OF Nil] "2.prems" unf by simp
  next
    case (Cons n rest)
    show ?thesis
    proof (cases "is_block (node_val n)")
      case False
      then show ?thesis
        using "2.IH"(2) [OF Cons, of leaves' ex'] "2.prems" Cons unf by (simp add: frame_ok_def preorder_eq [of n])
    next
      case True
      obtain split_end setext node rest' where c: "corrected ex (fr_container f) n rest = ((split_end, setext), node, rest')"
        by (metis prod_cases4 surj_pair)
      obtain idx container is_leaf ex1 where b: "block_record dec ex node (fr_parent f) (fr_container f) = ((idx, container, is_leaf), ex1)"
        by (metis prod_cases4 surj_pair)
      obtain inner ex2 where p: "push_container ex1 container (fr_container f) idx = (inner, ex2)" by force
      have f: "frame_ok ex f" using "2.prems"(2) by simp
      note st = walk_step [OF "2.prems"(1) f b p]
      have pre: "preorder node = preorder n" "map preorder rest' = map preorder rest" "node_val node = node_val n"
        "node_children node = node_children n"
        using corrected_preorder [OF c] corrected_shape [OF c] by auto
      have ok: "\<forall>g \<in> set (f\<lparr>fr_siblings := rest'\<rparr> # fs). frame_ok ex2 g" "\<forall>lf \<in> set leaves. leaf_ok ex2 lf"
        using "2.prems"(2,3) st grown_ok by auto
      note run = "2.prems"(4) [unfolded unf, simplified Cons c b p list.case prod.case]
      show ?thesis
      proof (cases is_leaf)
        case leaf: True
        define lf where "lf = \<lparr>lf_node = node, lf_idx = idx, lf_container = inner, lf_setext_definitions = setext,
            lf_split_end = split_end, lf_parent = fr_parent_node f\<rparr>"
        have "\<forall>l \<in> set (leaves @ [lf]). leaf_ok ex2 l" using st ok(2) by (simp add: leaf_ok_def lf_def)
        then show ?thesis
          using "2.IH"(3) [OF Cons _ c [symmetric] refl refl b [symmetric] refl refl p [symmetric] leaf, of leaves' ex'] run True leaf st ok pre
            preorder_eq [of n] Cons grown_trans
          by (simp add: lf_def) blast
      next
        case inner_node: False
        have "to_usize (to_u32 idx) < length (ex_blocks ex2)" using st unat_to_u32_le [of idx] by linarith
        then have "\<forall>g \<in> set (\<lparr>fr_siblings = node_children node, fr_parent = to_u32 idx, fr_container = inner,
            fr_parent_node = Some (node_val node, node_pos node)\<rparr> # f\<lparr>fr_siblings := rest'\<rparr> # fs). frame_ok ex2 g"
          using ok(1) st by (simp add: frame_ok_def [of _ "\<lparr>fr_siblings = _, fr_parent = _, fr_container = _, fr_parent_node = _\<rparr>"])
        moreover have "\<forall>lf \<in> set (leaves @ inline_leaves node idx inner). leaf_ok ex2 lf"
          using st ok(2) by (auto simp: inline_leaves_def leaf_ok_def)
        ultimately show ?thesis
          using "2.IH"(4) [OF Cons _ c [symmetric] refl refl b [symmetric] refl refl p [symmetric] inner_node, of leaves' ex'] run True inner_node st pre
            preorder_eq [of n] Cons grown_trans
          by simp blast
      qed
    qed
  qed
qed

lemma extractor_new_ok: "walk_ok (extractor_new src collect)"
  by (simp add: walk_ok_def parents_ok_def containers_ok_def extractor_new_def)

lemma walk_blocks_spec:
  "map bl_kind (ex_blocks (snd (walk_blocks dec root (extractor_new src collect)))) = map value_kind (preorder root) \<and>
   parents_ok (ex_blocks (snd (walk_blocks dec root (extractor_new src collect)))) \<and>
   containers_ok (ex_containers (snd (walk_blocks dec root (extractor_new src collect))))
     (length (ex_blocks (snd (walk_blocks dec root (extractor_new src collect))))) \<and>
   sorted (map lf_idx (fst (walk_blocks dec root (extractor_new src collect)))) \<and>
   list_all (leaf_ok (snd (walk_blocks dec root (extractor_new src collect))))
     (fst (walk_blocks dec root (extractor_new src collect)))"
proof -
  define f where "f = \<lparr>fr_siblings = [root], fr_parent = U32_MAX, fr_container = None, fr_parent_node = None\<rparr>"
  define ex where "ex = extractor_new src collect"
  obtain leaves ex' where w: "walk_frames dec [f] ex [] = (leaves, ex')" by force
  have "\<forall>f \<in> set [f]. frame_ok ex f" by (simp add: frame_ok_def f_def valid_cid_def)
  note s = walk_frames_spec [OF extractor_new_ok [of src collect, folded ex_def] this _ w, simplified]
  have "walk_blocks dec root ex = (sort_key lf_idx leaves, ex')"
    using w by (simp add: walk_blocks_def f_def)
  moreover have "ex_blocks ex = []" by (simp add: ex_def extractor_new_def)
  ultimately show ?thesis
    using s by (simp add: ex_def [symmetric] f_def walk_ok_def list_all_iff)
qed

text \<open>
  The first pass records every block of comrak's tree exactly once, in document order and with
  its kind, each after its parent; containers point at earlier containers and at recorded
  blocks, and the leaves it hands on are sorted and name recorded blocks and containers,
  whatever positions the corrections moved.
\<close>

lemma walk_blocks_preorder:
  "map bl_kind (ex_blocks (snd (walk_blocks dec root (extractor_new src collect)))) = map value_kind (preorder root) \<and>
   parents_ok (ex_blocks (snd (walk_blocks dec root (extractor_new src collect)))) \<and>
   containers_ok (ex_containers (snd (walk_blocks dec root (extractor_new src collect))))
     (length (ex_blocks (snd (walk_blocks dec root (extractor_new src collect))))) \<and>
   sorted (map lf_idx (fst (walk_blocks dec root (extractor_new src collect)))) \<and>
   list_all (leaf_ok (snd (walk_blocks dec root (extractor_new src collect))))
     (fst (walk_blocks dec root (extractor_new src collect)))"
  by (rule walk_blocks_spec)

text \<open>With containers well formed, a chain is its parent's chain and the container itself.\<close>

lemma chain_up_parent:
  assumes "containers_ok cs n" "i < length cs"
  shows "chain_up cs (Some i) = chain_up cs (cn_parent (cs ! i)) @ [cn_container (cs ! i)]"
  using assms by (auto simp: chain_up.simps containers_ok_def split: option.splits)

end
