(* ===== verification/Flark_Runs.thy ===== *)
theory Flark_Runs
  imports Flark_Extractor "HOL-Library.Product_Lexorder"
begin

text \<open>
  What \<^verbatim>\<open>native/flark_parse/src/model.rs\<close> checks of one leaf's inline runs before it keeps them:
  that they nest and follow each other (\<open>run_problem\<close>), that they cover the leaf's content
  (\<open>uncovered_content\<close>), and what happens to a leaf that fails (\<open>settle_inlines\<close>). The lemmas
  show that the one-pass checks decide exactly the declarative conditions, and that
  after settling a leaf either publishes paintable runs or none, flagged as source only.
\<close>

unbundle bit_operations_syntax

abbreviation (input) SOURCE_ONLY :: u32 where "SOURCE_ONLY \<equiv> 0x800000"

definition INLINE_RULES :: "string list" where
  "INLINE_RULES = [''text-mismatch'', ''emph-delims'', ''strong-delims'', ''strike-delims'', ''escape-delims'', ''link-delims'',
     ''footnote-ref-delims'', ''code-delims'', ''code-literal'', ''image-delims'', ''html-inline-end'',
     ''html-inline-literal'', ''heading-content'', ''run-structure'']"

text \<open>The byte ranges of a run.\<close>

abbreviation run_s :: "run_rec \<Rightarrow> nat" where "run_s r \<equiv> to_usize (ru_start_byte r)"
abbreviation run_e :: "run_rec \<Rightarrow> nat" where "run_e r \<equiv> to_usize (ru_end_byte r)"
abbreviation run_cs :: "run_rec \<Rightarrow> nat" where "run_cs r \<equiv> to_usize (ru_content_start_byte r)"
abbreviation run_ce :: "run_rec \<Rightarrow> nat" where "run_ce r \<equiv> to_usize (ru_content_end_byte r)"
abbreviation run_p :: "run_rec \<Rightarrow> nat" where "run_p r \<equiv> to_usize (ru_parent r)"

subsection \<open>Structure\<close>

text \<open>
  The slot of a run's parent: zero for the leaf itself, \<open>i + 1\<close> for the leaf's run \<open>i\<close>;
  \<open>None\<close> when the run cannot be painted.
\<close>

definition run_slot :: "run_rec list \<Rightarrow> nat \<Rightarrow> nat \<Rightarrow> run_rec \<Rightarrow> nat option" where
  "run_slot runs first_run at r =
     (if \<not> (run_s r \<le> run_cs r \<and> run_cs r \<le> run_ce r \<and> run_ce r \<le> run_e r) then None
      else if ru_parent r = U32_MAX then Some 0
      else if run_p r < first_run \<or> at \<le> run_p r then None
      else if run_s r < run_s (runs ! run_p r) \<or> run_e (runs ! run_p r) < run_e r then None
      else Some (run_p r - first_run + 1))"

fun run_problem_loop :: "run_rec list \<Rightarrow> nat \<Rightarrow> nat \<Rightarrow> run_rec list \<Rightarrow> nat list \<Rightarrow> bool" where
  "run_problem_loop runs first_run at [] sibling_end = False"
| "run_problem_loop runs first_run at (r # rs) sibling_end =
     (case run_slot runs first_run at r of
        None \<Rightarrow> True
      | Some slot \<Rightarrow>
          if run_s r < sibling_end ! slot then True
          else run_problem_loop runs first_run (at + 1) rs (sibling_end[slot := run_e r]))"

definition run_problem :: "run_rec list \<Rightarrow> nat \<Rightarrow> bool" where
  "run_problem runs first_run =
     run_problem_loop runs first_run first_run (drop first_run runs) (replicate (length (drop first_run runs) + 1) 0)"

subsection \<open>Coverage\<close>

definition has_children :: "run_rec list \<Rightarrow> nat \<Rightarrow> bool list" where
  "has_children runs first_run =
     fold (\<lambda>r hc. if ru_parent r \<noteq> U32_MAX \<and> first_run \<le> run_p r \<and> run_p r < length runs
                  then hc[run_p r - first_run := True] else hc)
       (drop first_run runs) (replicate (length (drop first_run runs)) False)"

definition covered_spans :: "run_rec list \<Rightarrow> nat \<Rightarrow> (nat \<times> nat) list" where
  "covered_spans runs first_run =
     concat (map (\<lambda>(r, parent). if parent then [(run_s r, run_cs r), (run_ce r, run_e r)] else [(run_s r, run_e r)])
       (zip (drop first_run runs) (has_children runs first_run)))"

fun sweep_spans :: "nat \<Rightarrow> (nat \<times> nat) list \<Rightarrow> nat \<Rightarrow> (nat \<times> nat) list \<times> nat" where
  "sweep_spans x [] reach = ([], reach)"
| "sweep_spans x ((s, e) # spans) reach =
     (if s \<le> x then sweep_spans x spans (max reach e) else ((s, e) # spans, reach))"

fun sweep :: "bytes \<Rightarrow> nat list \<Rightarrow> (nat \<times> nat) list \<Rightarrow> nat \<Rightarrow> nat option" where
  "sweep src [] spans reach = None"
| "sweep src (x # xs) spans reach =
     (case sweep_spans x spans reach of
        (spans', reach') \<Rightarrow>
          if reach' \<le> x \<and> \<not> is_blank (src ! x) then Some x else sweep src xs spans' reach')"

definition content_bytes :: "content_rec list \<Rightarrow> nat list" where
  "content_bytes cs = concat (map (\<lambda>c. [to_usize (co_start_byte c)..<to_usize (co_end_byte c)]) cs)"

definition uncovered_content :: "bytes \<Rightarrow> run_rec list \<Rightarrow> content_rec list \<Rightarrow> nat \<Rightarrow> nat \<Rightarrow> nat option" where
  "uncovered_content src runs content first_run content_from =
     (if drop first_run runs = [] then None
      else sweep src (content_bytes (drop content_from content)) (sort (covered_spans runs first_run)) 0)"

text \<open>A leaf whose runs cannot be painted, or leave content uncovered, is reported.\<close>

definition report_runs :: "nat \<Rightarrow> nat \<Rightarrow> extractor \<Rightarrow> extractor" where
  "report_runs first_run content_from ex =
     (if run_problem (ex_runs ex) first_run then dev ''run-structure'' ex
      else if uncovered_content (ex_src ex) (ex_runs ex) (ex_content ex) first_run content_from \<noteq> None
      then dev ''run-structure'' ex else ex)"

text \<open>A finding about inlines is scoped to its leaf.\<close>

definition scope_deviation :: "nat \<Rightarrow> deviation \<Rightarrow> deviation" where
  "scope_deviation idx d = (if dv_rule d \<in> set INLINE_RULES then d\<lparr>dv_leaf := Some (to_u32 idx)\<rparr> else d)"

definition drop_runs :: "nat \<Rightarrow> nat \<Rightarrow> extractor \<Rightarrow> extractor" where
  "drop_runs idx first_run ex =
     ex\<lparr>ex_runs := take first_run (ex_runs ex),
        ex_blocks := (ex_blocks ex)[idx := (ex_blocks ex ! idx)\<lparr>bl_flags := bl_flags (ex_blocks ex ! idx) OR SOURCE_ONLY\<rparr>]\<rparr>"

definition settle_inlines :: "nat \<Rightarrow> nat \<Rightarrow> nat \<Rightarrow> nat \<Rightarrow> extractor \<Rightarrow> extractor" where
  "settle_inlines idx first_run first_deviation content_from ex =
     (let ex1 = report_runs first_run content_from ex;
          own = drop first_deviation (ex_deviations ex1);
          ex2 = ex1\<lparr>ex_deviations := take first_deviation (ex_deviations ex1) @ map (scope_deviation idx) own\<rparr>
      in if list_ex (\<lambda>d. dv_rule d \<in> set INLINE_RULES) own then drop_runs idx first_run ex2 else ex2)"

subsection \<open>The checks decide their conditions\<close>

text \<open>
  Runs that can be painted: each run's content lies in it, its parent is the leaf or an earlier run
  of the leaf that contains it, and it starts after every earlier sibling ends.
\<close>

definition run_nests :: "run_rec list \<Rightarrow> nat \<Rightarrow> nat \<Rightarrow> bool" where
  "run_nests runs first_run i =
     (run_s (runs ! i) \<le> run_cs (runs ! i) \<and> run_cs (runs ! i) \<le> run_ce (runs ! i) \<and> run_ce (runs ! i) \<le> run_e (runs ! i) \<and>
      (ru_parent (runs ! i) = U32_MAX \<or>
       first_run \<le> run_p (runs ! i) \<and> run_p (runs ! i) < i \<and>
       run_s (runs ! run_p (runs ! i)) \<le> run_s (runs ! i) \<and> run_e (runs ! i) \<le> run_e (runs ! run_p (runs ! i))))"

definition paintable :: "run_rec list \<Rightarrow> nat \<Rightarrow> bool" where
  "paintable runs first_run =
     (\<forall>i. first_run \<le> i \<and> i < length runs \<longrightarrow>
        run_nests runs first_run i \<and>
        (\<forall>j. first_run \<le> j \<and> j < i \<and> ru_parent (runs ! j) = ru_parent (runs ! i) \<longrightarrow> run_e (runs ! j) \<le> run_s (runs ! i)))"

lemma run_slot_Some:
  "run_slot runs first_run i (runs ! i) = Some slot \<longleftrightarrow>
   run_nests runs first_run i \<and>
   slot = (if ru_parent (runs ! i) = U32_MAX then 0 else run_p (runs ! i) - first_run + 1)"
  by (auto simp: run_slot_def run_nests_def)

text \<open>The end of the last sibling so far, in each slot.\<close>

definition slot_of :: "run_rec list \<Rightarrow> nat \<Rightarrow> nat \<Rightarrow> nat" where
  "slot_of runs first_run i = (if ru_parent (runs ! i) = U32_MAX then 0 else run_p (runs ! i) - first_run + 1)"

definition sibling_ends :: "run_rec list \<Rightarrow> nat \<Rightarrow> nat \<Rightarrow> nat list \<Rightarrow> bool" where
  "sibling_ends runs first_run at sib =
     (length sib = length runs - first_run + 1 \<and>
      (\<forall>slot < length sib. \<forall>j. first_run \<le> j \<and> j < at \<and> slot_of runs first_run j = slot \<longrightarrow> run_e (runs ! j) \<le> sib ! slot) \<and>
      (\<forall>slot < length sib. sib ! slot = 0 \<or> (\<exists>j. first_run \<le> j \<and> j < at \<and> slot_of runs first_run j = slot \<and> sib ! slot = run_e (runs ! j))))"

lemma same_slot:
  assumes "run_nests runs first_run i" "run_nests runs first_run j"
  shows "slot_of runs first_run i = slot_of runs first_run j \<longleftrightarrow> ru_parent (runs ! i) = ru_parent (runs ! j)"
proof -
  have le: "first_run \<le> run_p (runs ! k)" if "run_nests runs first_run k" "ru_parent (runs ! k) \<noteq> U32_MAX" for k
    using that by (auto simp: run_nests_def)
  show ?thesis
  proof (cases "ru_parent (runs ! i) = U32_MAX \<or> ru_parent (runs ! j) = U32_MAX")
    case False
    then have "run_p (runs ! i) - first_run = run_p (runs ! j) - first_run \<longleftrightarrow> run_p (runs ! i) = run_p (runs ! j)"
      using le [OF assms(1)] le [OF assms(2)] by auto
    then show ?thesis using False by (simp add: slot_of_def word_unat_eq_iff [of "ru_parent (runs ! i)" "ru_parent (runs ! j)"])
  qed (auto simp: slot_of_def)
qed

lemma sibling_ends_step:
  assumes "sibling_ends runs first_run at sib" "first_run \<le> at" "at < length runs" "run_nests runs first_run at"
    and "\<not> run_s (runs ! at) < sib ! slot_of runs first_run at"
  shows "sibling_ends runs first_run (at + 1) (sib[slot_of runs first_run at := run_e (runs ! at)])"
proof -
  let ?slot = "slot_of runs first_run at"
  have len: "length sib = length runs - first_run + 1" using assms(1) by (simp add: sibling_ends_def)
  have slot: "?slot < length sib" using assms(2,3,4) len by (auto simp: slot_of_def run_nests_def)
  have se: "run_s (runs ! at) \<le> run_e (runs ! at)" using assms(4) by (auto simp: run_nests_def)
  have "run_e (runs ! j) \<le> sib[?slot := run_e (runs ! at)] ! k"
    if "k < length sib" "first_run \<le> j" "j < at + 1" "slot_of runs first_run j = k" for k j
    using that assms(1,5) se slot by (cases "j = at") (fastforce simp: sibling_ends_def nth_list_update)+
  moreover have "sib[?slot := run_e (runs ! at)] ! k = 0 \<or>
      (\<exists>j. first_run \<le> j \<and> j < at + 1 \<and> slot_of runs first_run j = k \<and> sib[?slot := run_e (runs ! at)] ! k = run_e (runs ! j))"
    if "k < length sib" for k
    using that assms(1,2) slot by (cases "k = ?slot") (auto simp: sibling_ends_def nth_list_update less_Suc_eq)
  ultimately show ?thesis using len by (simp add: sibling_ends_def)
qed

lemma all_from: "at < (n :: nat) \<Longrightarrow> (\<forall>i. at \<le> i \<and> i < n \<longrightarrow> C i) \<longleftrightarrow> C at \<and> (\<forall>i. at + 1 \<le> i \<and> i < n \<longrightarrow> C i)"
  by (metis Suc_eq_plus1 Suc_leI le_less order.strict_implies_order Suc_le_lessD)

lemma run_problem_loop_spec:
  assumes "sibling_ends runs first_run at sib" "first_run \<le> at" "at \<le> length runs"
    and "\<And>j. first_run \<le> j \<Longrightarrow> j < at \<Longrightarrow> run_nests runs first_run j"
  shows "\<not> run_problem_loop runs first_run at (drop at runs) sib \<longleftrightarrow>
    (\<forall>i. at \<le> i \<and> i < length runs \<longrightarrow> run_nests runs first_run i \<and>
      (\<forall>j. first_run \<le> j \<and> j < i \<and> ru_parent (runs ! j) = ru_parent (runs ! i) \<longrightarrow> run_e (runs ! j) \<le> run_s (runs ! i)))"
    (is "_ \<longleftrightarrow> (\<forall>i. at \<le> i \<and> i < length runs \<longrightarrow> ?C i)")
  using assms
proof (induction "length runs - at" arbitrary: at sib)
  case 0
  then show ?case by simp
next
  case (Suc n)
  then have at: "at < length runs" by simp
  have split: "(\<forall>i. at \<le> i \<and> i < length runs \<longrightarrow> ?C i) \<longleftrightarrow> ?C at \<and> (\<forall>i. at + 1 \<le> i \<and> i < length runs \<longrightarrow> ?C i)"
    by (rule all_from [OF at])
  let ?slot = "slot_of runs first_run at"
  show ?case
  proof (cases "run_nests runs first_run at")
    case False
    then have "run_slot runs first_run at (runs ! at) = None" by (metis not_None_eq run_slot_Some)
    then show ?thesis using False at by (auto simp: Cons_nth_drop_Suc [symmetric])
  next
    case nests: True
    then have sl: "run_slot runs first_run at (runs ! at) = Some ?slot" by (simp add: run_slot_Some slot_of_def)
    have slot: "?slot < length sib" using Suc.prems(1,2) at nests by (auto simp: slot_of_def run_nests_def sibling_ends_def)
    have same: "slot_of runs first_run j = ?slot \<longleftrightarrow> ru_parent (runs ! j) = ru_parent (runs ! at)" if "first_run \<le> j" "j < at" for j
      using same_slot [OF Suc.prems(4) [OF that] nests] .
    show ?thesis
    proof (cases "run_s (runs ! at) < sib ! ?slot")
      case True
      then obtain j where "first_run \<le> j" "j < at" "slot_of runs first_run j = ?slot" "sib ! ?slot = run_e (runs ! j)"
        using Suc.prems(1) slot by (auto simp: sibling_ends_def)
      then have "\<not> ?C at" using same True by (metis not_le)
      then show ?thesis using True sl at split by (auto simp: Cons_nth_drop_Suc [symmetric])
    next
      case False
      have "run_e (runs ! j) \<le> sib ! ?slot" if "first_run \<le> j" "j < at" "ru_parent (runs ! j) = ru_parent (runs ! at)" for j
        using Suc.prems(1) slot same that by (auto simp: sibling_ends_def)
      then have c: "?C at" using False nests by fastforce
      have next_step: "run_problem_loop runs first_run at (drop at runs) sib =
          run_problem_loop runs first_run (at + 1) (drop (at + 1) runs) (sib[?slot := run_e (runs ! at)])"
        using sl False at by (simp add: Cons_nth_drop_Suc [symmetric])
      have "run_nests runs first_run j" if "first_run \<le> j" "j < at + 1" for j
        using that Suc.prems(4) nests by (cases "j = at") auto
      then show ?thesis
        unfolding next_step split using Suc.hyps(1) [of "at + 1"] Suc.hyps(2) sibling_ends_step [OF Suc.prems(1,2) at nests False] Suc.prems(2) at c
        by auto
    qed
  qed
qed

lemma run_problem_iff: "run_problem runs first_run \<longleftrightarrow> \<not> paintable runs first_run"
proof (cases "first_run \<le> length runs")
  case True
  have "sibling_ends runs first_run first_run (replicate (length runs - first_run + 1) 0)"
    unfolding sibling_ends_def by (auto simp del: replicate_Suc)
  from run_problem_loop_spec [OF this order_refl True] show ?thesis
    by (auto simp: run_problem_def paintable_def)
next
  case False
  then show ?thesis by (auto simp: run_problem_def paintable_def)
qed

text \<open>
  C35: The one-pass run check decides exactly whether a leaf's runs can be painted: every run's
  content inside it, every parent the leaf or an earlier run of the leaf that contains the
  run, and no run starting before an earlier sibling ends.
\<close>

theorem run_problem_decides: "run_problem runs first_run \<longleftrightarrow> \<not> paintable runs first_run"
  by (rule run_problem_iff)

subsection \<open>Coverage is decided by one sweep\<close>

lemma sweep_spans_spec:
  assumes "sorted (map fst spans)" "sweep_spans x spans reach = (spans', reach')"
  shows "(\<exists>ds. spans = ds @ spans' \<and> (\<forall>se \<in> set ds. fst se \<le> x) \<and> reach' = fold (\<lambda>se r. max r (snd se)) ds reach) \<and>
         (\<forall>se \<in> set spans'. x < fst se)"
  using assms
proof (induction spans arbitrary: reach)
  case (Cons se spans)
  obtain s e where se: "se = (s, e)" by force
  show ?case
  proof (cases "s \<le> x")
    case True
    then obtain ds where "spans = ds @ spans'" "\<forall>se \<in> set ds. fst se \<le> x" "reach' = fold (\<lambda>se r. max r (snd se)) ds (max reach e)"
      "\<forall>se \<in> set spans'. x < fst se"
      using Cons.IH [of "max reach e"] Cons.prems se by auto
    then show ?thesis using True se by (intro conjI exI [of _ "se # ds"]) auto
  next
    case False
    then have "spans' = se # spans" "reach' = reach" using Cons.prems(2) se by auto
    moreover have "\<forall>t \<in> set (se # spans). x < fst t" using False Cons.prems(1) se by force
    ultimately show ?thesis by simp
  qed
qed simp

lemma fold_max_le: "fold (\<lambda>se r. max r (snd se)) ds r \<le> (x :: nat) \<longleftrightarrow> r \<le> x \<and> (\<forall>se \<in> set ds. snd se \<le> x)"
  by (induction ds arbitrary: r) auto

text \<open>The sweep's invariant: spans passed start before \<open>x\<close>, and \<open>reach\<close> is the furthest of their ends.\<close>

lemma sweep_find:
  assumes "sorted xs" "sorted (map fst (passed @ spans))" "\<forall>se \<in> set passed. \<forall>x \<in> set xs. fst se \<le> x"
    and "reach = fold (\<lambda>se r. max r (snd se)) passed 0"
  shows "sweep src xs spans reach =
    find (\<lambda>x. \<not> is_blank (src ! x) \<and> \<not> (\<exists>se \<in> set (passed @ spans). fst se \<le> x \<and> x < snd se)) xs"
  using assms
proof (induction xs arbitrary: passed spans reach)
  case (Cons x xs)
  obtain spans' reach' where sw: "sweep_spans x spans reach = (spans', reach')" by force
  have "sorted (map fst spans)" using Cons.prems(2) by (simp add: sorted_append)
  from sweep_spans_spec [OF this sw] obtain ds where ds: "spans = ds @ spans'" "\<forall>se \<in> set ds. fst se \<le> x"
    "reach' = fold (\<lambda>se r. max r (snd se)) ds reach" "\<forall>se \<in> set spans'. x < fst se" by blast
  have r: "reach' = fold (\<lambda>se r. max r (snd se)) (passed @ ds) 0" using ds(3) Cons.prems(4) by simp
  have "reach' \<le> x \<longleftrightarrow> \<not> (\<exists>se \<in> set (passed @ spans). fst se \<le> x \<and> x < snd se)"
    unfolding r fold_max_le using ds Cons.prems(3) by (auto simp: not_less)
  moreover have "sweep src xs spans' reach' =
      find (\<lambda>x. \<not> is_blank (src ! x) \<and> \<not> (\<exists>se \<in> set ((passed @ ds) @ spans'). fst se \<le> x \<and> x < snd se)) xs"
  proof (rule Cons.IH [OF _ _ _ r])
    show "\<forall>se \<in> set (passed @ ds). \<forall>x \<in> set xs. fst se \<le> x"
      using Cons.prems(1,3) ds(2) by (auto intro: order_trans)
  qed (use Cons.prems ds(1) in auto)
  ultimately show ?case using sw ds(1) by (auto simp: conj_commute)
qed simp

text \<open>What a leaf's runs cover: a run without children all of its range, one with children its delimiters.\<close>

definition has_child :: "run_rec list \<Rightarrow> nat \<Rightarrow> nat \<Rightarrow> bool" where
  "has_child runs first_run i =
     (\<exists>j. first_run \<le> j \<and> j < length runs \<and> ru_parent (runs ! j) \<noteq> U32_MAX \<and> run_p (runs ! j) = i)"

definition covers_byte :: "run_rec list \<Rightarrow> nat \<Rightarrow> nat \<Rightarrow> bool" where
  "covers_byte runs first_run x =
     (\<exists>i. first_run \<le> i \<and> i < length runs \<and>
        (if has_child runs first_run i
         then (run_s (runs ! i) \<le> x \<and> x < run_cs (runs ! i)) \<or> (run_ce (runs ! i) \<le> x \<and> x < run_e (runs ! i))
         else run_s (runs ! i) \<le> x \<and> x < run_e (runs ! i)))"

lemma length_fold_update: "length (fold (\<lambda>r hc. if P r then hc[f r := True] else hc) rs hc) = length hc"
  by (induction rs arbitrary: hc) auto

lemma fold_update_nth:
  "k < length hc \<Longrightarrow> fold (\<lambda>r hc. if P r then hc[f r := True] else hc) rs hc ! k \<longleftrightarrow> hc ! k \<or> (\<exists>r \<in> set rs. P r \<and> f r = k)"
proof (induction rs arbitrary: hc)
  case (Cons r rs)
  then show ?case by (cases "f r = k") auto
qed simp

lemma has_children_nth:
  assumes "k < length runs - first_run"
  shows "has_children runs first_run ! k = has_child runs first_run (first_run + k)"
proof -
  have "has_children runs first_run ! k \<longleftrightarrow>
      (\<exists>r \<in> set (drop first_run runs). (ru_parent r \<noteq> U32_MAX \<and> first_run \<le> run_p r \<and> run_p r < length runs) \<and> run_p r - first_run = k)"
    unfolding has_children_def using assms by (subst fold_update_nth) auto
  also have "\<dots> \<longleftrightarrow> (\<exists>r \<in> set (drop first_run runs). ru_parent r \<noteq> U32_MAX \<and> run_p r = first_run + k)"
    using assms by auto
  also have "\<dots> \<longleftrightarrow> has_child runs first_run (first_run + k)"
  proof -
    have "set (drop first_run runs) = (\<lambda>j. runs ! j) ` {first_run..<length runs}"
      using set_seg [of runs first_run "length runs"] by (auto simp: seg_def)
    then show ?thesis unfolding has_child_def by auto
  qed
  finally show ?thesis .
qed

lemma covered_spans_iff:
  "(\<exists>se \<in> set (covered_spans runs first_run). fst se \<le> x \<and> x < snd se) \<longleftrightarrow> covers_byte runs first_run x"
proof -
  let ?g = "\<lambda>r parent. if parent then [(run_s r, run_cs r), (run_ce r, run_e r)] else [(run_s r, run_e r)]"
  have len: "length (has_children runs first_run) = length runs - first_run"
    unfolding has_children_def by (simp add: length_fold_update)
  have zip: "zip (drop first_run runs) (has_children runs first_run) =
      map (\<lambda>k. (runs ! k, has_child runs first_run k)) [first_run..<length runs]"
    by (rule nth_equalityI) (auto simp: len has_children_nth)
  have "set (covered_spans runs first_run) = (\<Union>k \<in> {first_run..<length runs}. set (?g (runs ! k) (has_child runs first_run k)))"
    unfolding covered_spans_def zip set_concat by (simp only: map_map comp_def split_def fst_conv snd_conv set_map image_image set_upt)
  then show ?thesis unfolding covers_byte_def by (fastforce split: if_splits)
qed

lemma sorted_fst: "sorted xs \<Longrightarrow> sorted (map fst xs)" for xs :: "(nat \<times> nat) list"
  by (induction xs) (auto simp: less_eq_prod_def)

text \<open>
  C36: A leaf without runs has no uncovered content to report. For a leaf with runs, when the bytes of its content
  records come in ascending order, one sweep over the sorted spans returns the first content byte that is
  neither space nor tab and that no childless run and no delimiter of a run with children covers, and nothing
  exactly when there is no such byte. That the records of a leaf are in order is a hypothesis here.
\<close>

theorem uncovered_content_first:
  assumes "sorted (content_bytes (drop content_from content))"
  shows "uncovered_content src runs content first_run content_from =
    (if drop first_run runs = [] then None
     else find (\<lambda>x. \<not> is_blank (src ! x) \<and> \<not> covers_byte runs first_run x) (content_bytes (drop content_from content)))"
proof -
  have "sorted (map fst (sort (covered_spans runs first_run)))"
    by (rule sorted_fst) simp
  from sweep_find [OF assms, of "[]" "sort (covered_spans runs first_run)" 0 src] this
  show ?thesis by (simp add: uncovered_content_def covered_spans_iff)
qed

theorem uncovered_content_first_witness:
  "let r = zero_run\<lparr>ru_parent := U32_MAX, ru_end_byte := 1\<rparr>;
       c = \<lparr>co_line = 0, co_start_byte = 0, co_start_utf16 = 0, co_end_byte = 2, co_end_utf16 = 2,
            co_virtual_leading_spaces = 0, co_prefix_start_byte = 0, co_prefix_start_utf16 = 0\<rparr>
   in uncovered_content ''ab'' [r] [c] 0 0 = find (\<lambda>x. \<not> is_blank (''ab'' ! x) \<and> \<not> covers_byte [r] 0 x) [0, 1]"
  using uncovered_content_first [of 0 "[\<lparr>co_line = 0, co_start_byte = 0, co_start_utf16 = 0, co_end_byte = 2, co_end_utf16 = 2,
            co_virtual_leading_spaces = 0, co_prefix_start_byte = 0, co_prefix_start_utf16 = 0\<rparr>]"
      "''ab''" "[zero_run\<lparr>ru_parent := U32_MAX, ru_end_byte := 1\<rparr>]" 0]
  by (simp add: content_bytes_def upt_rec Let_def)

subsection \<open>Settling a leaf\<close>

lemma dev_collect: "ex_collect ex \<Longrightarrow> dev rule ex = ex\<lparr>ex_deviations := ex_deviations ex @ [\<lparr>dv_rule = rule, dv_leaf = None\<rparr>]\<rparr>"
  by (simp add: dev_def)

lemma scope_rule: "dv_rule (scope_deviation idx d) = dv_rule d"
  by (simp add: scope_deviation_def)

lemma report_runs_cases:
  assumes "ex_collect ex"
  shows "ex_runs (report_runs first_run content_from ex) = ex_runs ex \<and> ex_blocks (report_runs first_run content_from ex) = ex_blocks ex \<and>
    (ex_deviations (report_runs first_run content_from ex) = ex_deviations ex @ [\<lparr>dv_rule = ''run-structure'', dv_leaf = None\<rparr>] \<or>
     ex_deviations (report_runs first_run content_from ex) = ex_deviations ex \<and> paintable (ex_runs ex) first_run \<and>
     uncovered_content (ex_src ex) (ex_runs ex) (ex_content ex) first_run content_from = None)"
  using assms run_problem_iff [of "ex_runs ex" first_run] by (simp add: report_runs_def dev_collect)

lemma settle_inlines_cases:
  assumes "ex_collect ex" "idx < length (ex_blocks ex)" "first_deviation \<le> length (ex_deviations ex)"
    and "ex' = settle_inlines idx first_run first_deviation content_from ex"
  shows "(ex_runs ex' = ex_runs ex \<and> ex_blocks ex' = ex_blocks ex \<and> paintable (ex_runs ex') first_run \<and>
          uncovered_content (ex_src ex) (ex_runs ex') (ex_content ex) first_run content_from = None \<and>
          list_all (\<lambda>d. dv_rule d \<notin> set INLINE_RULES) (drop first_deviation (ex_deviations ex'))) \<or>
         (ex_runs ex' = take first_run (ex_runs ex) \<and> bl_flags (ex_blocks ex' ! idx) AND SOURCE_ONLY = SOURCE_ONLY \<and>
          list_all (\<lambda>d. dv_rule d \<in> set INLINE_RULES \<longrightarrow> dv_leaf d = Some (to_u32 idx)) (drop first_deviation (ex_deviations ex')) \<and>
          list_ex (\<lambda>d. dv_rule d \<in> set INLINE_RULES) (drop first_deviation (ex_deviations ex')))"
proof -
  define ex1 where "ex1 = report_runs first_run content_from ex"
  define own where "own = drop first_deviation (ex_deviations ex1)"
  define ex2 where "ex2 = ex1\<lparr>ex_deviations := take first_deviation (ex_deviations ex1) @ map (scope_deviation idx) own\<rparr>"
  have ex': "ex' = (if list_ex (\<lambda>d. dv_rule d \<in> set INLINE_RULES) own then drop_runs idx first_run ex2 else ex2)"
    unfolding assms(4) settle_inlines_def Let_def own_def ex2_def ex1_def by (rule refl)
  note r = report_runs_cases [OF assms(1), of first_run content_from, folded ex1_def]
  have len: "first_deviation \<le> length (ex_deviations ex1)" using r assms(3) by auto
  have same: "ex_runs ex2 = ex_runs ex" "ex_blocks ex2 = ex_blocks ex" using r by (auto simp: ex2_def)
  have devs: "drop first_deviation (ex_deviations ex') = map (scope_deviation idx) own"
    using len by (auto simp: ex' drop_runs_def ex2_def)
  show ?thesis
  proof (cases "list_ex (\<lambda>d. dv_rule d \<in> set INLINE_RULES) own")
    case True
    have "(w OR SOURCE_ONLY) AND SOURCE_ONLY = SOURCE_ONLY" for w :: u32
      by (simp add: bit_eq_iff bit_simps)
    then have "ex_runs ex' = take first_run (ex_runs ex)" "bl_flags (ex_blocks ex' ! idx) AND SOURCE_ONLY = SOURCE_ONLY"
      using True assms(2) by (simp_all add: ex' drop_runs_def same)
    moreover have "list_all (\<lambda>d. dv_rule d \<in> set INLINE_RULES \<longrightarrow> dv_leaf d = Some (to_u32 idx)) (map (scope_deviation idx) own)"
      by (auto simp: list_all_iff scope_deviation_def)
    moreover have "list_ex (\<lambda>d. dv_rule d \<in> set INLINE_RULES) (map (scope_deviation idx) own)"
      using True by (simp add: list_ex_iff scope_rule)
    ultimately show ?thesis unfolding devs by blast
  next
    case False
    have "''run-structure'' \<in> set INLINE_RULES" by (simp add: INLINE_RULES_def)
    then have "\<not> (ex_deviations ex1 = ex_deviations ex @ [\<lparr>dv_rule = ''run-structure'', dv_leaf = None\<rparr>])"
      using False assms(3) by (auto simp: own_def list_ex_iff)
    then have "paintable (ex_runs ex) first_run" "uncovered_content (ex_src ex) (ex_runs ex) (ex_content ex) first_run content_from = None"
      using r by auto
    moreover have "list_all (\<lambda>d. dv_rule d \<notin> set INLINE_RULES) (map (scope_deviation idx) own)"
      using False by (simp add: list_ex_iff list_all_iff scope_rule)
    ultimately show ?thesis using False same unfolding devs by (simp add: ex')
  qed
qed

text \<open>
  C7: Settling a leaf leaves it in one of two states: its runs can be painted and leave no visible
  content uncovered, and no finding about its inlines was made; or it keeps no runs, its block
  is flagged as source only, and every finding about its inlines names it.
\<close>

theorem settle_inlines_sound:
  assumes "ex_collect ex" "idx < length (ex_blocks ex)" "first_deviation \<le> length (ex_deviations ex)"
    and "ex' = settle_inlines idx first_run first_deviation content_from ex"
  shows "(ex_runs ex' = ex_runs ex \<and> ex_blocks ex' = ex_blocks ex \<and> paintable (ex_runs ex') first_run \<and>
          uncovered_content (ex_src ex) (ex_runs ex') (ex_content ex) first_run content_from = None \<and>
          list_all (\<lambda>d. dv_rule d \<notin> set INLINE_RULES) (drop first_deviation (ex_deviations ex'))) \<or>
         (ex_runs ex' = take first_run (ex_runs ex) \<and> bl_flags (ex_blocks ex' ! idx) AND SOURCE_ONLY = SOURCE_ONLY \<and>
          list_all (\<lambda>d. dv_rule d \<in> set INLINE_RULES \<longrightarrow> dv_leaf d = Some (to_u32 idx)) (drop first_deviation (ex_deviations ex')) \<and>
          list_ex (\<lambda>d. dv_rule d \<in> set INLINE_RULES) (drop first_deviation (ex_deviations ex')))"
  by (rule settle_inlines_cases [OF assms])

theorem settle_inlines_sound_witness:
  "ex_runs (settle_inlines 0 0 0 0 ((extractor_new [] True)\<lparr>ex_blocks := [zero_block]\<rparr>)) = []"
  using settle_inlines_sound [of "(extractor_new [] True)\<lparr>ex_blocks := [zero_block]\<rparr>" 0 0 _ 0 0, OF _ _ _ refl]
  by (auto simp: extractor_new_def)

end
