(* ===== verification/Flark_Structure.thy ===== *)
theory Flark_Structure
  imports Flark_Runs
begin

text \<open>
  The block ranges of \<^verbatim>\<open>native/flark_parse/src/model.rs\<close> after the walk: a leaf's block is fitted to its
  content and runs (\<open>fit_block_to_content\<close>, \<open>trim_trailing_blank_lines\<close>, \<open>fit_block_to_runs\<close>), parents grow
  over their children (\<open>widen_parents\<close>), containers publish their empty lines
  (\<open>empty_container_lines\<close>), a container that runs into its next sibling is cut back
  (\<open>fit_overlapping_containers\<close>), and \<open>check_structure\<close> refuses what breaks the published
  invariants. The lemmas show that widening gives the least containing ranges, that fitting a
  block covers what it is fitted to, and that the structural check decides its conditions.
\<close>

subsection \<open>Growing a block\<close>

definition upd_block :: "nat \<Rightarrow> (block_rec \<Rightarrow> block_rec) \<Rightarrow> extractor \<Rightarrow> extractor" where
  "upd_block idx f ex = ex\<lparr>ex_blocks := (ex_blocks ex)[idx := f (ex_blocks ex ! idx)]\<rparr>"

definition grow_start :: "u32 \<Rightarrow> u32 \<Rightarrow> block_rec \<Rightarrow> block_rec" where
  "grow_start s s16 b = (if s < bl_start_byte b then b\<lparr>bl_start_byte := s, bl_start_utf16 := s16\<rparr> else b)"

definition grow_end :: "u32 \<Rightarrow> u32 \<Rightarrow> block_rec \<Rightarrow> block_rec" where
  "grow_end e e16 b = (if bl_end_byte b < e then b\<lparr>bl_end_byte := e, bl_end_utf16 := e16\<rparr> else b)"

definition widen_step :: "nat \<Rightarrow> block_rec list \<Rightarrow> block_rec list" where
  "widen_step i bs =
     (let b = bs ! i; p = to_usize (bl_parent b)
      in if bl_parent b = U32_MAX then bs
         else bs[p := grow_end (bl_end_byte b) (bl_end_utf16 b) (grow_start (bl_start_byte b) (bl_start_utf16 b) (bs ! p))])"

definition widen_blocks :: "block_rec list \<Rightarrow> block_rec list" where
  "widen_blocks bs = fold widen_step (rev [1..<length bs]) bs"

definition widen_parents :: "extractor \<Rightarrow> extractor" where
  "widen_parents ex = ex\<lparr>ex_blocks := widen_blocks (ex_blocks ex)\<rparr>"

subsection \<open>Content records\<close>

definition push_content :: "nat \<Rightarrow> nat \<Rightarrow> nat \<Rightarrow> nat \<Rightarrow> nat \<Rightarrow> extractor \<Rightarrow> extractor" where
  "push_content line0 cs ce0 virt prefix_start ex =
     (let ce = max ce0 cs; ps = min prefix_start cs
      in ex\<lparr>ex_content := ex_content ex @
           [\<lparr>co_line = to_u32 line0, co_start_byte = to_u32 cs, co_start_utf16 = u16 (ex_li ex) cs,
             co_end_byte = to_u32 ce, co_end_utf16 = u16 (ex_li ex) ce, co_virtual_leading_spaces = to_u32 virt,
             co_prefix_start_byte = to_u32 ps, co_prefix_start_utf16 = u16 (ex_li ex) ps\<rparr>]\<rparr>)"

text \<open>\<^verbatim>\<open>self.content.get(co..co + cn).unwrap_or(&[])\<close> for a block.\<close>

definition content_slice :: "content_rec list \<Rightarrow> block_rec \<Rightarrow> content_rec list" where
  "content_slice content b =
     (let co = to_usize (bl_content_offset b); cn = to_usize (bl_content_count b)
      in if co + cn \<le> length content then seg content co (co + cn) else [])"

subsection \<open>Empty container lines\<close>

definition claims_lines :: "u32 \<Rightarrow> bool" where
  "claims_lines k = (k \<in> {BK_PARAGRAPH, BK_HEADING, BK_CODE_BLOCK, BK_HTML_BLOCK, BK_THEMATIC_BREAK, BK_TABLE})"

definition claim_block :: "nat \<Rightarrow> block_rec \<Rightarrow> bool list \<Rightarrow> bool list" where
  "claim_block lines b claimed =
     (if claims_lines (bl_kind b) then
        (let first = to_usize (bl_first_line b); e = min (first + to_usize (bl_line_count b)) lines
         in fold (\<lambda>line c. c[line := True]) [first..<e] claimed)
      else claimed)"

definition container_line_span :: "extractor \<Rightarrow> container_node \<Rightarrow> nat \<times> nat" where
  "container_line_span ex c =
     (let b = ex_blocks ex ! cn_block c
      in (line_of (ex_li ex) (to_usize (bl_start_byte b)), line_of (ex_li ex) (to_usize (bl_end_byte b) - 1)))"

definition owned_lines :: "nat option list \<Rightarrow> nat \<Rightarrow> nat list" where
  "owned_lines inner i = filter (\<lambda>line. inner ! line = Some i) [0..<length inner]"

definition push_empty_line :: "container list \<Rightarrow> nat \<Rightarrow> nat \<Rightarrow> nat \<Rightarrow> extractor \<Rightarrow> extractor" where
  "push_empty_line ch first count line ex =
     (let p = para_line ex line ch
      in if ls_start p \<noteq> ls_end p then ex
         else push_content line (ls_start p) (ls_end p) 0
                (if ls_prefix_start p = ls_start p \<and> first \<le> line \<and> line < first + count then ls_held p else ls_prefix_start p) ex)"

text \<open>The block grows over the content records pushed for it.\<close>

definition cover_content :: "line_index \<Rightarrow> content_rec \<Rightarrow> block_rec \<Rightarrow> block_rec" where
  "cover_content li c b =
     grow_end (co_end_byte c) (u16 li (to_usize (co_end_byte c)))
       (grow_start (co_start_byte c) (u16 li (to_usize (co_start_byte c))) b)"

definition own_empty_lines :: "nat \<Rightarrow> nat list \<Rightarrow> extractor \<Rightarrow> extractor" where
  "own_empty_lines i owned ex =
     (if owned = [] then ex
      else
        (let bi = cn_block (ex_containers ex ! i); ch = chain ex (Some i); offset = length (ex_content ex);
             ex1 = upd_block bi (\<lambda>b. b\<lparr>bl_content_offset := to_u32 offset\<rparr>) ex;
             first = to_usize (bl_first_line (ex_blocks ex1 ! bi)); count = to_usize (bl_line_count (ex_blocks ex1 ! bi));
             ex2 = fold (push_empty_line ch first count) owned ex1;
             ex3 = upd_block bi (\<lambda>b. b\<lparr>bl_content_count := to_u32 (length (ex_content ex2)) - bl_content_offset b\<rparr>) ex2
         in upd_block bi (fold (cover_content (ex_li ex3)) (drop (to_usize (bl_content_offset (ex_blocks ex3 ! bi))) (ex_content ex3))) ex3))"

definition empty_container_lines :: "extractor \<Rightarrow> extractor" where
  "empty_container_lines ex =
     (let lines = line_of (ex_li ex) (length (ex_src ex)) + 1;
          claimed = fold (claim_block lines) (ex_blocks ex) (replicate lines False);
          spans = map (container_line_span ex) (ex_containers ex);
          inner = innermost_per_line lines claimed spans
      in widen_parents (fold (\<lambda>i. own_empty_lines i (owned_lines inner i)) [0..<length (ex_containers ex)] ex))"

subsection \<open>Containers that overlap\<close>

definition is_container_kind :: "u32 \<Rightarrow> bool" where
  "is_container_kind k = (k \<in> {BK_BLOCK_QUOTE, BK_LIST, BK_ITEM, BK_FOOTNOTE_DEFINITION})"

definition next_start_step :: "block_rec list \<Rightarrow> nat \<Rightarrow> u32 option list \<times> nat option list \<Rightarrow> u32 option list \<times> nat option list" where
  "next_start_step bs i st =
     (case st of (next_start, last_child) \<Rightarrow>
        (let p = bl_parent (bs ! i)
         in if p = U32_MAX then st
            else
              ((case last_child ! to_usize p of
                  Some previous \<Rightarrow> next_start[previous := Some (bl_start_byte (bs ! i))]
                | None \<Rightarrow> next_start),
               last_child[to_usize p := Some i])))"

definition next_starts :: "block_rec list \<Rightarrow> u32 option list" where
  "next_starts bs =
     fst (fold (next_start_step bs) [1..<length bs] (replicate (length bs) None, replicate (length bs + 1) None))"

definition reach_step :: "content_rec list \<Rightarrow> block_rec list \<Rightarrow> nat \<Rightarrow> u32 list \<Rightarrow> u32 list" where
  "reach_step content bs i reach =
     (let b = bs ! i;
          r1 = fold (\<lambda>c r. max r (co_end_byte c)) (content_slice content b) (reach ! i);
          r2 = (if is_container_kind (bl_kind b) then r1 else max r1 (bl_end_byte b));
          reach1 = reach[i := r2]; p = bl_parent b
      in if p = U32_MAX then reach1 else reach1[to_usize p := max (reach1 ! to_usize p) (reach1 ! i)])"

definition block_reach :: "content_rec list \<Rightarrow> block_rec list \<Rightarrow> u32 list" where
  "block_reach content bs = fold (reach_step content bs) (rev [0..<length bs]) (replicate (length bs) 0)"

definition overlap_step :: "line_index \<Rightarrow> u32 option list \<Rightarrow> u32 list \<Rightarrow> nat \<Rightarrow> block_rec list \<Rightarrow> block_rec list" where
  "overlap_step li next_start reach i bs =
     (let b = bs ! i; p = bl_parent b;
          parent_end = (if p = U32_MAX then U32_MAX else bl_end_byte (bs ! to_usize p));
          start = bl_start_byte b
      in if \<not> is_container_kind (bl_kind b) then bs
         else if (case next_start ! i of Some ns \<Rightarrow> ns < bl_end_byte b | None \<Rightarrow> False) \<or> parent_end < bl_end_byte b then
           (let e = min (max (reach ! i) start) (max parent_end start)
            in if e < bl_end_byte b then bs[i := b\<lparr>bl_end_byte := e, bl_end_utf16 := u16 li (to_usize e)\<rparr>] else bs)
         else bs)"

definition fit_overlapping_containers :: "extractor \<Rightarrow> extractor" where
  "fit_overlapping_containers ex =
     ex\<lparr>ex_blocks := fold (overlap_step (ex_li ex) (next_starts (ex_blocks ex)) (block_reach (ex_content ex) (ex_blocks ex)))
                     [1..<length (ex_blocks ex)] (ex_blocks ex)\<rparr>"

subsection \<open>The structural check\<close>

text \<open>The byte range of a block.\<close>

abbreviation blk_s :: "block_rec \<Rightarrow> nat" where "blk_s b \<equiv> to_usize (bl_start_byte b)"
abbreviation blk_e :: "block_rec \<Rightarrow> nat" where "blk_e b \<equiv> to_usize (bl_end_byte b)"
abbreviation blk_p :: "block_rec \<Rightarrow> nat" where "blk_p b \<equiv> to_usize (bl_parent b)"

fun tree_problem :: "block_rec list \<Rightarrow> nat \<Rightarrow> nat \<Rightarrow> block_rec list \<Rightarrow> (nat \<times> nat) list \<Rightarrow> nat \<Rightarrow> bool" where
  "tree_problem blocks src_len i [] sibling previous_start = False"
| "tree_problem blocks src_len i (b # bs) sibling previous_start =
     (if blk_e b < blk_s b \<or> src_len < blk_e b then True
      else if i = 0 then tree_problem blocks src_len (i + 1) bs sibling previous_start
      else if i \<le> blk_p b then True
      else if blk_s b < blk_s (blocks ! blk_p b) \<or> blk_e (blocks ! blk_p b) < blk_e b then True
      else if blk_s b < previous_start then True
      else if blk_s b < snd (sibling ! blk_p b) \<and> fst (sibling ! blk_p b) < blk_e b then True
      else tree_problem blocks src_len (i + 1) bs (sibling[blk_p b := (blk_s b, blk_e b)]) (blk_s b))"

fun content_problem :: "line_index \<Rightarrow> nat \<Rightarrow> block_rec \<Rightarrow> nat option \<Rightarrow> content_rec list \<Rightarrow> bool" where
  "content_problem li src_len b last_line [] = False"
| "content_problem li src_len b last_line (c # cs) =
     (let s = to_usize (co_start_byte c); e = to_usize (co_end_byte c); line = to_usize (co_line c);
          ps = to_usize (co_prefix_start_byte c);
          ls = line_start li line; le = line_end_with_break li line src_len
      in if e < s \<or> s < blk_s b \<or> blk_e b + 1 < e \<or> s < ls \<or> le < e \<or> ps < ls \<or> s < ps \<or>
            (case last_line of Some l \<Rightarrow> line \<le> l | None \<Rightarrow> False)
         then True else content_problem li src_len b (Some line) cs)"

fun run_block_problem :: "block_rec list \<Rightarrow> u32 \<Rightarrow> run_rec list \<Rightarrow> bool" where
  "run_block_problem blocks previous_block [] = False"
| "run_block_problem blocks previous_block (r # rs) =
     (if ru_block r < previous_block \<or> length blocks \<le> to_usize (ru_block r) then True
      else if run_s r < blk_s (blocks ! to_usize (ru_block r)) \<or> blk_e (blocks ! to_usize (ru_block r)) + 1 < run_e r then True
      else run_block_problem blocks (ru_block r) rs)"

definition structure_problem :: "extractor \<Rightarrow> string option" where
  "structure_problem ex =
     (let src_len = length (ex_src ex); blocks = ex_blocks ex
      in if tree_problem blocks src_len 0 blocks (replicate (length blocks + 1) (0, 0)) 0 then Some ''block-tree''
         else if list_ex (\<lambda>b. content_problem (ex_li ex) src_len b None (content_slice (ex_content ex) b)) blocks
         then Some ''content-structure''
         else if run_block_problem blocks 0 (ex_runs ex) then Some ''run-block''
         else None)"

definition check_structure :: "extractor \<Rightarrow> extractor" where
  "check_structure ex = (case structure_problem ex of Some rule \<Rightarrow> dev rule ex | None \<Rightarrow> ex)"

subsection \<open>Fitting a leaf's block\<close>

definition fit_range :: "line_index \<Rightarrow> nat \<Rightarrow> nat \<Rightarrow> block_rec \<Rightarrow> block_rec" where
  "fit_range li lo hi b =
     (let b1 = (if lo < blk_s b then b\<lparr>bl_start_byte := to_u32 lo, bl_start_utf16 := u16 li lo\<rparr> else b)
      in if blk_e b < hi then b1\<lparr>bl_end_byte := to_u32 hi, bl_end_utf16 := u16 li hi\<rparr> else b1)"

definition fit_block_to_runs :: "nat \<Rightarrow> nat \<Rightarrow> extractor \<Rightarrow> extractor" where
  "fit_block_to_runs idx first_run ex =
     (if length (ex_runs ex) \<le> first_run then ex
      else
        (let rs = drop first_run (ex_runs ex);
             lo = fold (\<lambda>r lo. min lo (run_s r)) rs USIZE_MAX; hi = fold (\<lambda>r hi. max hi (run_e r)) rs 0;
             bs = blk_s (ex_blocks ex ! idx); be = blk_e (ex_blocks ex ! idx)
         in if bs \<le> lo \<and> hi \<le> be then ex
            else upd_block idx (fit_range (ex_li ex) lo hi) (if CR \<notin> set (ex_src ex) then dev ''block-range'' ex else ex)))"

definition blank_line :: "extractor \<Rightarrow> container list \<Rightarrow> nat \<Rightarrow> bool" where
  "blank_line ex ch line =
     (let cur = skip_whitespace (px_cur (prefix_at ex line ch));
          ls = line_start (ex_li ex) line; le = line_end (ex_li ex) line
      in \<not> (ls + cur_pos cur < le \<and> \<not> list_all is_blank (seg (ex_src ex) (ls + cur_pos cur) le)))"

fun trim_lines :: "extractor \<Rightarrow> container list \<Rightarrow> nat \<Rightarrow> nat \<Rightarrow> nat \<Rightarrow> nat" where
  "trim_lines ex ch first_line content_line 0 = 0"
| "trim_lines ex ch first_line content_line (Suc n) =
     (if 1 < Suc n \<and> content_line < first_line + n \<and> blank_line ex ch (first_line + n)
      then trim_lines ex ch first_line content_line n else Suc n)"

text \<open>The last line a block has content for.\<close>

definition content_line :: "extractor \<Rightarrow> nat \<Rightarrow> nat" where
  "content_line ex idx =
     (let b = ex_blocks ex ! idx; co = to_usize (bl_content_offset b); cn = to_usize (bl_content_count b)
      in if cn = 0 then to_usize (bl_first_line b) else to_usize (co_line (ex_content ex ! (co + cn - 1))))"

definition trim_trailing_blank_lines :: "nat \<Rightarrow> container list \<Rightarrow> extractor \<Rightarrow> extractor" where
  "trim_trailing_blank_lines idx ch ex =
     (let b = ex_blocks ex ! idx; first_line = to_usize (bl_first_line b);
          lines = trim_lines ex ch first_line (content_line ex idx) (to_usize (bl_line_count b))
      in if lines = to_usize (bl_line_count b) then ex
         else
           (let e = line_end (ex_li ex) (first_line + lines - 1)
            in upd_block idx
                 (\<lambda>b. (let b1 = b\<lparr>bl_line_count := to_u32 lines\<rparr>
                       in if e < blk_e b1 then b1\<lparr>bl_end_byte := to_u32 e, bl_end_utf16 := u16 (ex_li ex) e\<rparr> else b1)) ex))"

text \<open>
  A block and every block above it grow over a range. A parent's index is below its child's
  (\<open>parents_ok\<close>), which bounds the climb.
\<close>

function grow_up :: "line_index \<Rightarrow> u32 \<Rightarrow> u32 \<Rightarrow> nat \<Rightarrow> block_rec list \<Rightarrow> block_rec list" where
  "grow_up li s e i bs =
     (let b = grow_end e (u16 li (to_usize e)) (grow_start s (u16 li (to_usize s)) (bs ! i));
          bs1 = bs[i := b]
      in if bl_parent b = U32_MAX \<or> i \<le> to_usize (bl_parent b) then bs1
         else grow_up li s e (to_usize (bl_parent b)) bs1)"
  by pat_completeness auto
termination
  by (relation "measure (\<lambda>(li, s, e, i, bs). i)") auto

declare grow_up.simps [simp del]

text \<open>The line count follows the last content record.\<close>

definition extend_line_count :: "u32 \<Rightarrow> block_rec \<Rightarrow> block_rec" where
  "extend_line_count last_line b =
     (if bl_first_line b \<le> last_line \<and> bl_line_count b < last_line + 1 - bl_first_line b
      then b\<lparr>bl_line_count := last_line + 1 - bl_first_line b\<rparr> else b)"

definition fit_block_to_content :: "nat \<Rightarrow> extractor \<Rightarrow> extractor" where
  "fit_block_to_content idx ex =
     (let b = ex_blocks ex ! idx; co = to_usize (bl_content_offset b); cn = to_usize (bl_content_count b)
      in if cn = 0 then ex
         else
           (let first = co_start_byte (ex_content ex ! co); lst = co_end_byte (ex_content ex ! (co + cn - 1));
                ex1 = upd_block idx (extend_line_count (co_line (ex_content ex ! (co + cn - 1)))) ex
            in if bl_start_byte b \<le> first \<and> lst \<le> bl_end_byte b then ex1
               else
                 (let ex2 = (if bl_kind b \<noteq> BK_CODE_BLOCK \<and> CR \<notin> set (ex_src ex) then dev ''block-range'' ex1 else ex1)
                  in ex2\<lparr>ex_blocks := grow_up (ex_li ex) first lst idx (ex_blocks ex2)\<rparr>)))"

subsection \<open>What every edit keeps\<close>

text \<open>
  The ranges of a block in bytes and in UTF-16 agree, and an edit of the extraction keeps the
  source, the tree and the containers, and that agreement.
\<close>

definition block_units :: "line_index \<Rightarrow> block_rec \<Rightarrow> bool" where
  "block_units li b = (bl_start_utf16 b = u16 li (blk_s b) \<and> bl_end_utf16 b = u16 li (blk_e b))"

definition units_ok :: "extractor \<Rightarrow> bool" where
  "units_ok ex = list_all (block_units (ex_li ex)) (ex_blocks ex)"

definition same_tree :: "block_rec \<Rightarrow> block_rec \<Rightarrow> bool" where
  "same_tree a b = (bl_parent a = bl_parent b \<and> bl_kind a = bl_kind b)"

definition keeps :: "extractor \<Rightarrow> extractor \<Rightarrow> bool" where
  "keeps ex ex' =
     (ex_src ex' = ex_src ex \<and> ex_li ex' = ex_li ex \<and> ex_containers ex' = ex_containers ex \<and>
      ex_collect ex' = ex_collect ex \<and> list_all2 same_tree (ex_blocks ex) (ex_blocks ex') \<and>
      (units_ok ex \<longrightarrow> units_ok ex'))"

lemma same_tree_refl [simp]: "same_tree b b" by (simp add: same_tree_def)

lemma list_all2_same_tree_refl [simp]: "list_all2 same_tree bs bs"
  by (simp add: list_all2_same)

lemma same_tree_trans: "same_tree a b \<Longrightarrow> same_tree b c \<Longrightarrow> same_tree a c" by (simp add: same_tree_def)

lemma tree_trans: "list_all2 same_tree as bs \<Longrightarrow> list_all2 same_tree bs cs \<Longrightarrow> list_all2 same_tree as cs"
  by (rule list_all2_trans [OF same_tree_trans])

lemma keeps_refl [simp, intro]: "keeps ex ex" by (simp add: keeps_def)

lemma keeps_trans [trans]: "keeps a b \<Longrightarrow> keeps b c \<Longrightarrow> keeps a c"
  by (auto simp: keeps_def intro: tree_trans)

lemma keeps_if: "keeps ex a \<Longrightarrow> keeps ex b \<Longrightarrow> keeps ex (if c then a else b)" by simp

lemma keeps_fold: "(\<And>x ex. keeps ex (f x ex)) \<Longrightarrow> keeps ex (fold f xs ex)"
  by (induction xs arbitrary: ex) (auto intro: keeps_trans)

lemma keeps_length: "keeps ex ex' \<Longrightarrow> length (ex_blocks ex') = length (ex_blocks ex)"
  by (auto simp: keeps_def dest: list_all2_lengthD)

lemma keeps_nth: "keeps ex ex' \<Longrightarrow> i < length (ex_blocks ex) \<Longrightarrow>
    bl_parent (ex_blocks ex' ! i) = bl_parent (ex_blocks ex ! i) \<and> bl_kind (ex_blocks ex' ! i) = bl_kind (ex_blocks ex ! i)"
  by (auto simp: keeps_def same_tree_def dest: list_all2_nthD)

lemma keeps_parents: "keeps ex ex' \<Longrightarrow> parents_ok (ex_blocks ex) \<Longrightarrow> parents_ok (ex_blocks ex')"
  by (simp add: parents_ok_def keeps_length keeps_nth)

lemma keeps_walk_ok: "keeps ex ex' \<Longrightarrow> walk_ok ex \<Longrightarrow> walk_ok ex'"
  by (simp add: walk_ok_def keeps_parents keeps_length) (simp add: keeps_def)

lemma keeps_chain: "keeps ex ex' \<Longrightarrow> chain ex' cid = chain ex cid"
  by (simp add: keeps_def chain_def)

lemma keeps_blocks:
  assumes "list_all2 same_tree (ex_blocks ex) bs" "list_all (block_units (ex_li ex)) (ex_blocks ex) \<Longrightarrow> list_all (block_units (ex_li ex)) bs"
  shows "keeps ex (ex\<lparr>ex_blocks := bs\<rparr>)"
  using assms by (simp add: keeps_def units_ok_def)

lemma list_all_update: "list_all P xs \<Longrightarrow> (i < length xs \<Longrightarrow> P (xs ! i) \<Longrightarrow> P y) \<Longrightarrow> list_all P (xs[i := y])"
  by (cases "i < length xs") (auto simp: list_all_length nth_list_update list_update_beyond)

lemma list_all2_update: "reflp P \<Longrightarrow> (i < length xs \<Longrightarrow> P (xs ! i) y) \<Longrightarrow> list_all2 P xs (xs[i := y])"
  by (cases "i < length xs") (auto simp: list_all2_conv_all_nth nth_list_update list_update_beyond reflp_def)

lemma reflp_same_tree: "reflp same_tree" by (simp add: reflp_def)

lemmas tree_update = list_all2_update [OF reflp_same_tree]

lemma keeps_upd_block:
  assumes "\<And>b. same_tree b (f b)" "\<And>b. block_units (ex_li ex) b \<Longrightarrow> block_units (ex_li ex) (f b)"
  shows "keeps ex (upd_block idx f ex)"
  unfolding upd_block_def using assms by (intro keeps_blocks tree_update list_all_update) auto

lemma keeps_dev [simp, intro]: "keeps ex (dev rule ex)"
  by (simp add: keeps_def dev_def units_ok_def)

lemma keeps_push_content [intro]: "keeps ex (push_content line0 cs ce virt ps ex)"
  by (simp add: keeps_def push_content_def units_ok_def Let_def)

text \<open>Growing keeps the tree and the agreement of the units.\<close>

lemma grow_same_tree [simp]: "same_tree b (grow_start s s16 b)" "same_tree b (grow_end e e16 b)"
  by (simp_all add: same_tree_def grow_start_def grow_end_def)

lemma grow_units:
  "block_units li b \<Longrightarrow> s16 = u16 li (to_usize s) \<Longrightarrow> block_units li (grow_start s s16 b)"
  "block_units li b \<Longrightarrow> e16 = u16 li (to_usize e) \<Longrightarrow> block_units li (grow_end e e16 b)"
  by (simp_all add: block_units_def grow_start_def grow_end_def)

definition covers_block :: "block_rec \<Rightarrow> block_rec \<Rightarrow> bool" where
  "covers_block a b = (bl_start_byte a \<le> bl_start_byte b \<and> bl_end_byte b \<le> bl_end_byte a)"

lemma covers_refl [simp]: "covers_block b b" by (simp add: covers_block_def)

lemma covers_trans: "covers_block a b \<Longrightarrow> covers_block b c \<Longrightarrow> covers_block a c"
  by (auto simp: covers_block_def)

lemma grow_simps [simp]:
  "bl_start_byte (grow_start s s16 b) = min s (bl_start_byte b)" "bl_end_byte (grow_start s s16 b) = bl_end_byte b"
  "bl_start_byte (grow_end e e16 b) = bl_start_byte b" "bl_end_byte (grow_end e e16 b) = max e (bl_end_byte b)"
  "bl_parent (grow_start s s16 b) = bl_parent b" "bl_parent (grow_end e e16 b) = bl_parent b"
  "bl_kind (grow_start s s16 b) = bl_kind b" "bl_kind (grow_end e e16 b) = bl_kind b"
  by (auto simp: grow_start_def grow_end_def min_def max_def)

text \<open>\<^verbatim>\<open>for i in (1..n).rev()\<close>.\<close>

lemma fold_down:
  assumes "\<And>i s. 1 \<le> i \<Longrightarrow> i < k \<Longrightarrow> P (Suc i) s \<Longrightarrow> P i (f i s)" "P (max 1 k) s"
  shows "P 1 (fold f (rev [1..<k]) s)"
  using assms
proof (induction k arbitrary: s)
  case (Suc k)
  then show ?case by (cases "k = 0") (auto simp: max_def)
qed simp

subsection \<open>Widening\<close>

definition nested :: "block_rec list \<Rightarrow> bool" where
  "nested bs = (\<forall>i. 1 \<le> i \<and> i < length bs \<and> bl_parent (bs ! i) \<noteq> U32_MAX \<longrightarrow> covers_block (bs ! blk_p (bs ! i)) (bs ! i))"

lemma widen_step_keeps:
  "list_all2 same_tree bs (widen_step i bs)" "length (widen_step i bs) = length bs"
  "list_all (block_units li) bs \<Longrightarrow> i < length bs \<Longrightarrow> list_all (block_units li) (widen_step i bs)"
proof -
  show "list_all2 same_tree bs (widen_step i bs)" "length (widen_step i bs) = length bs"
    by (auto simp: widen_step_def Let_def same_tree_def intro!: tree_update)
  assume u: "list_all (block_units li) bs" "i < length bs"
  then have "block_units li (bs ! i)" by (simp add: list_all_length)
  then have "bl_start_utf16 (bs ! i) = u16 li (blk_s (bs ! i))" "bl_end_utf16 (bs ! i) = u16 li (blk_e (bs ! i))"
    by (simp_all add: block_units_def)
  then show "list_all (block_units li) (widen_step i bs)"
    using u(1) by (auto simp: widen_step_def Let_def intro!: list_all_update grow_units)
qed

lemma widen_blocks_nested:
  assumes "parents_ok bs"
  shows "list_all2 same_tree bs (widen_blocks bs) \<and> nested (widen_blocks bs) \<and>
         (list_all (block_units li) bs \<longrightarrow> list_all (block_units li) (widen_blocks bs)) \<and>
         (\<forall>i < length bs. covers_block (widen_blocks bs ! i) (bs ! i))"
proof -
  define P where "P k ws \<longleftrightarrow> list_all2 same_tree bs ws \<and>
      (list_all (block_units li) bs \<longrightarrow> list_all (block_units li) ws) \<and> (\<forall>i < length bs. covers_block (ws ! i) (bs ! i)) \<and>
      (\<forall>i. k \<le> i \<and> i < length bs \<and> bl_parent (ws ! i) \<noteq> U32_MAX \<longrightarrow> covers_block (ws ! blk_p (ws ! i)) (ws ! i))" for k ws
  have "P 1 (fold widen_step (rev [1..<length bs]) bs)"
  proof (rule fold_down)
    fix i ws assume i: "1 \<le> i" "i < length bs" and P: "P (Suc i) ws"
    have len: "length ws = length bs" using P by (auto simp: P_def dest: list_all2_lengthD)
    have par: "bl_parent (ws ! j) = bl_parent (bs ! j)" if "j < length bs" for j
      using P that by (auto simp: P_def same_tree_def dest: list_all2_nthD)
    have "P i (widen_step i ws)" if "bl_parent (ws ! i) = U32_MAX"
    proof -
      have "widen_step i ws = ws" using that by (simp add: widen_step_def)
      moreover have "Suc i \<le> j" if "i \<le> j" "bl_parent (ws ! j) \<noteq> U32_MAX" for j
        using that \<open>bl_parent (ws ! i) = U32_MAX\<close> by (cases "i = j") auto
      ultimately show ?thesis using P unfolding P_def by simp
    qed
    moreover have "P i (widen_step i ws)" if np: "bl_parent (ws ! i) \<noteq> U32_MAX"
    proof -
      let ?p = "blk_p (ws ! i)"
      have p: "?p < i" using np assms i par [of i] by (auto simp: parents_ok_def)
      have st: "widen_step i ws ! j = (if j = ?p then grow_end (bl_end_byte (ws ! i)) (bl_end_utf16 (ws ! i))
          (grow_start (bl_start_byte (ws ! i)) (bl_start_utf16 (ws ! i)) (ws ! ?p)) else ws ! j)" if "j < length bs" for j
        using np p i len that by (auto simp: widen_step_def Let_def nth_list_update)
      have cov: "covers_block (widen_step i ws ! j) (ws ! j)" if "j < length bs" for j
        using st [OF that] by (auto simp: covers_block_def)
      have "covers_block (widen_step i ws ! blk_p (widen_step i ws ! j)) (widen_step i ws ! j)"
        if j: "i \<le> j" "j < length bs" "bl_parent (widen_step i ws ! j) \<noteq> U32_MAX" for j
      proof -
        have same: "widen_step i ws ! j = ws ! j" using st [OF j(2)] j(1) p by simp
        show ?thesis
        proof (cases "j = i")
          case True
          then show ?thesis using same st [of ?p] p i by (auto simp: covers_block_def)
        next
          case False
          have q: "blk_p (ws ! j) < length bs" using assms j par [of j] same by (auto simp: parents_ok_def)
          have "covers_block (ws ! blk_p (ws ! j)) (ws ! j)" using P j False same unfolding P_def by auto
          then show ?thesis using covers_trans [OF cov [OF q]] same by simp
        qed
      qed
      moreover have "\<forall>j < length bs. covers_block (widen_step i ws ! j) (bs ! j)"
        using P cov covers_trans unfolding P_def by blast
      moreover have "list_all2 same_tree bs (widen_step i ws)"
        using P tree_trans [OF _ widen_step_keeps(1)] unfolding P_def by simp
      moreover have "list_all (block_units li) bs \<longrightarrow> list_all (block_units li) (widen_step i ws)"
        using P widen_step_keeps(3) [of li ws i] i len unfolding P_def by simp
      ultimately show ?thesis unfolding P_def by blast
    qed
    ultimately show "P i (widen_step i ws)" by blast
  qed (auto simp: P_def)
  moreover have "length (fold widen_step (rev [1..<length bs]) bs) = length bs"
    using calculation by (auto simp: P_def dest: list_all2_lengthD)
  ultimately show ?thesis unfolding P_def widen_blocks_def nested_def by auto
qed

lemma widen_blocks_least:
  assumes "list_all2 same_tree bs us" "nested us" "\<forall>i < length bs. covers_block (us ! i) (bs ! i)"
    and "i < length bs"
  shows "covers_block (us ! i) (widen_blocks bs ! i)"
proof -
  define P where "P k ws \<longleftrightarrow> list_all2 same_tree bs ws \<and> (\<forall>i < length bs. covers_block (us ! i) (ws ! i))" for k :: nat and ws
  have "P 1 (fold widen_step (rev [1..<length bs]) bs)"
  proof (rule fold_down)
    fix i ws assume i: "1 \<le> i" "i < length bs" and P: "P (Suc i) ws"
    have len: "length ws = length bs" "length us = length bs" using P assms(1) by (auto simp: P_def dest: list_all2_lengthD)
    have "bl_parent (us ! i) = bl_parent (ws ! i)"
      using P list_all2_nthD [OF assms(1) i(2)] list_all2_nthD [of same_tree bs ws, OF _ i(2)] by (simp add: P_def same_tree_def)
    then have "bl_parent (ws ! i) = U32_MAX \<or> covers_block (us ! blk_p (ws ! i)) (us ! i)"
      using assms(2) i len unfolding nested_def by metis
    moreover have "covers_block (us ! i) (ws ! i)" using P i by (simp add: P_def)
    ultimately have up: "bl_parent (ws ! i) = U32_MAX \<or> covers_block (us ! blk_p (ws ! i)) (ws ! i)"
      using covers_trans by blast
    have "covers_block (us ! j) (widen_step i ws ! j)" if "j < length bs" for j
      using up P that len unfolding P_def
      by (cases "j = blk_p (ws ! i)") (auto simp: widen_step_def Let_def covers_block_def)
    then show "P i (widen_step i ws)"
      using P tree_trans [OF _ widen_step_keeps(1)] unfolding P_def by simp
  qed (use assms(3) in \<open>auto simp: P_def\<close>)
  then show ?thesis using assms(4) by (simp add: P_def widen_blocks_def)
qed

text \<open>
  Widening parents gives every block the least range that covers its own and its children's:
  the result is nested, covers what was there, keeps the tree and the agreement of byte and
  UTF-16 ranges, and lies inside any other nested assignment of ranges that covers the blocks.
\<close>

lemma widen_parents_least:
  assumes "parents_ok (ex_blocks ex)" "ws = ex_blocks (widen_parents ex)"
  shows "keeps ex (widen_parents ex) \<and> nested ws \<and>
         (\<forall>i < length (ex_blocks ex). covers_block (ws ! i) (ex_blocks ex ! i)) \<and>
         (\<forall>us. list_all2 same_tree (ex_blocks ex) us \<and> nested us \<and>
               (\<forall>i < length (ex_blocks ex). covers_block (us ! i) (ex_blocks ex ! i)) \<longrightarrow>
               (\<forall>i < length (ex_blocks ex). covers_block (us ! i) (ws ! i)))"
proof (intro conjI)
  note w = widen_blocks_nested [OF assms(1), of "ex_li ex"]
  show "keeps ex (widen_parents ex)" using w unfolding widen_parents_def by (intro keeps_blocks) auto
  show "nested ws" "\<forall>i < length (ex_blocks ex). covers_block (ws ! i) (ex_blocks ex ! i)"
    using w by (simp_all add: assms(2) widen_parents_def)
qed (use widen_blocks_least [of "ex_blocks ex"] assms(2) in \<open>simp add: widen_parents_def\<close>)

subsection \<open>The check decides the published structure\<close>

text \<open>The last block before \<open>i\<close> with the given parent; the root is nobody's sibling.\<close>

definition sibling_before :: "block_rec list \<Rightarrow> nat \<Rightarrow> nat \<Rightarrow> nat option" where
  "sibling_before blocks i p = find (\<lambda>j. blk_p (blocks ! j) = p) (rev [1..<i])"

text \<open>
  A block lies in the source; other than the root, it comes after its parent and inside it, starts no
  earlier than the block before it, and does not overlap its previous sibling.
\<close>

definition block_placed :: "block_rec list \<Rightarrow> nat \<Rightarrow> nat \<Rightarrow> bool" where
  "block_placed blocks src_len i =
     (blk_s (blocks ! i) \<le> blk_e (blocks ! i) \<and> blk_e (blocks ! i) \<le> src_len \<and>
      (0 < i \<longrightarrow>
         blk_p (blocks ! i) < i \<and> covers_block (blocks ! blk_p (blocks ! i)) (blocks ! i) \<and>
         (1 < i \<longrightarrow> blk_s (blocks ! (i - 1)) \<le> blk_s (blocks ! i)) \<and>
         (case sibling_before blocks i (blk_p (blocks ! i)) of
            None \<Rightarrow> True
          | Some j \<Rightarrow> blk_e (blocks ! j) \<le> blk_s (blocks ! i) \<or> blk_e (blocks ! i) \<le> blk_s (blocks ! j))))"

definition content_placed :: "line_index \<Rightarrow> nat \<Rightarrow> block_rec \<Rightarrow> content_rec \<Rightarrow> bool" where
  "content_placed li src_len b c =
     (line_start li (to_usize (co_line c)) \<le> to_usize (co_prefix_start_byte c) \<and>
      co_prefix_start_byte c \<le> co_start_byte c \<and> co_start_byte c \<le> co_end_byte c \<and>
      to_usize (co_end_byte c) \<le> line_end_with_break li (to_usize (co_line c)) src_len \<and>
      bl_start_byte b \<le> co_start_byte c \<and> to_usize (co_end_byte c) \<le> blk_e b + 1)"

definition run_placed :: "block_rec list \<Rightarrow> run_rec \<Rightarrow> bool" where
  "run_placed blocks r =
     (to_usize (ru_block r) < length blocks \<and> blk_s (blocks ! to_usize (ru_block r)) \<le> run_s r \<and>
      run_e r \<le> blk_e (blocks ! to_usize (ru_block r)) + 1)"

definition structure_ok :: "extractor \<Rightarrow> bool" where
  "structure_ok ex =
     ((\<forall>i < length (ex_blocks ex). block_placed (ex_blocks ex) (length (ex_src ex)) i) \<and>
      (\<forall>b \<in> set (ex_blocks ex).
         list_all (content_placed (ex_li ex) (length (ex_src ex)) b) (content_slice (ex_content ex) b) \<and>
         sorted_wrt (<) (map co_line (content_slice (ex_content ex) b))) \<and>
      list_all (run_placed (ex_blocks ex)) (ex_runs ex) \<and> sorted (map ru_block (ex_runs ex)))"

lemma unat_le_word: "to_usize a \<le> to_usize b \<longleftrightarrow> a \<le> b" "to_usize a < to_usize b \<longleftrightarrow> a < b"
  by (simp_all add: word_le_nat_alt word_less_nat_alt)

lemma sibling_before_Suc:
  "1 \<le> i \<Longrightarrow> sibling_before blocks (Suc i) p = (if blk_p (blocks ! i) = p then Some i else sibling_before blocks i p)"
  by (simp add: sibling_before_def)

lemma sibling_before_0 [simp]: "sibling_before blocks 0 p = None" "sibling_before blocks (Suc 0) p = None"
  by (simp_all add: sibling_before_def)

definition block_range :: "block_rec list \<Rightarrow> nat option \<Rightarrow> nat \<times> nat" where
  "block_range blocks j = (case j of None \<Rightarrow> (0, 0) | Some j \<Rightarrow> (blk_s (blocks ! j), blk_e (blocks ! j)))"

lemma all_from_split:
  fixes n :: nat
  assumes "i < n"
  shows "(\<forall>k. i \<le> k \<and> k < n \<longrightarrow> P k) \<longleftrightarrow> P i \<and> (\<forall>k. i + 1 \<le> k \<and> k < n \<longrightarrow> P k)"
proof
  assume "P i \<and> (\<forall>k. i + 1 \<le> k \<and> k < n \<longrightarrow> P k)"
  then show "\<forall>k. i \<le> k \<and> k < n \<longrightarrow> P k" by (metis Suc_eq_plus1 Suc_leI le_neq_implies_less)
qed (use assms in auto)

lemma tree_problem_iff:
  assumes "length sib = Suc (length blocks)" "\<forall>p \<le> length blocks. sib ! p = block_range blocks (sibling_before blocks i p)"
    and "prev = (if i \<le> 1 then 0 else blk_s (blocks ! (i - 1)))" "bs = drop i blocks"
  shows "tree_problem blocks src_len i bs sib prev \<longleftrightarrow> \<not> (\<forall>k. i \<le> k \<and> k < length blocks \<longrightarrow> block_placed blocks src_len k)"
  using assms
proof (induction blocks src_len i bs sib prev rule: tree_problem.induct)
  case (1 blocks src_len i sib prev)
  then show ?case by auto
next
  case (2 blocks src_len i b bs sib prev)
  have i: "i < length blocks" "b = blocks ! i" "bs = drop (Suc i) blocks"
    using "2.prems"(4) by (metis drop_eq_Nil list.distinct(1) not_le, metis nth_via_drop, metis drop_Suc list.sel(3) tl_drop)
  note split = all_from_split [OF i(1), of "block_placed blocks src_len"]
  show ?case
  proof (cases "i = 0")
    case True
    have IH: "blk_s b \<le> blk_e b \<Longrightarrow> blk_e b \<le> src_len \<Longrightarrow> tree_problem blocks src_len (i + 1) bs sib prev \<longleftrightarrow>
        \<not> (\<forall>k. i + 1 \<le> k \<and> k < length blocks \<longrightarrow> block_placed blocks src_len k)"
      by (rule "2.IH"(1)) (use "2.prems" True i in auto)
    then show ?thesis unfolding split using True i(2) by (auto simp: block_placed_def)
  next
    case False
    let ?p = "blk_p b"
    have IH: "tree_problem blocks src_len (i + 1) bs (sib[?p := (blk_s b, blk_e b)]) (blk_s b) \<longleftrightarrow>
        \<not> (\<forall>k. i + 1 \<le> k \<and> k < length blocks \<longrightarrow> block_placed blocks src_len k)"
      if "blk_s b \<le> blk_e b" "blk_e b \<le> src_len" "?p < i" "\<not> (blk_s b < blk_s (blocks ! ?p) \<or> blk_e (blocks ! ?p) < blk_e b)"
        "\<not> blk_s b < prev" "\<not> (blk_s b < snd (sib ! ?p) \<and> fst (sib ! ?p) < blk_e b)"
    proof (rule "2.IH"(2))
      show "\<forall>p \<le> length blocks. sib[?p := (blk_s b, blk_e b)] ! p = block_range blocks (sibling_before blocks (i + 1) p)"
        using "2.prems"(1,2) False i that(3) by (auto simp: sibling_before_Suc nth_list_update block_range_def)
    qed (use that "2.prems" False i in auto)
    have sib: "?p < i \<Longrightarrow> sib ! ?p = block_range blocks (sibling_before blocks i ?p)"
      using "2.prems"(2) i by simp
    have placed: "block_placed blocks src_len i \<longleftrightarrow>
       blk_s b \<le> blk_e b \<and> blk_e b \<le> src_len \<and> ?p < i \<and> \<not> (blk_s b < blk_s (blocks ! ?p) \<or> blk_e (blocks ! ?p) < blk_e b) \<and>
        \<not> blk_s b < prev \<and> \<not> (blk_s b < snd (sib ! ?p) \<and> fst (sib ! ?p) < blk_e b)"
      using False i sib "2.prems"(3)
      by (auto simp: block_placed_def covers_block_def unat_le_word [symmetric] block_range_def split: option.splits)
    show ?thesis
    proof (cases "block_placed blocks src_len i")
      case True
      then show ?thesis unfolding split using placed IH False by (simp only: tree_problem.simps) auto
    next
      case bad: False
      then show ?thesis unfolding split using placed False by auto
    qed
  qed
qed

lemma content_problem_iff:
  "content_problem li src_len b last_line cs \<longleftrightarrow>
   \<not> (list_all (content_placed li src_len b) cs \<and> sorted_wrt (<) (map (\<lambda>c. to_usize (co_line c)) cs) \<and>
      (case last_line of None \<Rightarrow> True | Some l \<Rightarrow> \<forall>c \<in> set cs. l < to_usize (co_line c)))"
proof (induction cs arbitrary: last_line)
  case (Cons c cs)
  have "content_placed li src_len b c \<longleftrightarrow>
     \<not> (to_usize (co_end_byte c) < to_usize (co_start_byte c) \<or> to_usize (co_start_byte c) < blk_s b \<or>
        blk_e b + 1 < to_usize (co_end_byte c) \<or> to_usize (co_start_byte c) < line_start li (to_usize (co_line c)) \<or>
        line_end_with_break li (to_usize (co_line c)) src_len < to_usize (co_end_byte c) \<or>
        to_usize (co_prefix_start_byte c) < line_start li (to_usize (co_line c)) \<or>
        to_usize (co_start_byte c) < to_usize (co_prefix_start_byte c))"
    unfolding content_placed_def unat_le_word [symmetric] by auto
  then show ?case
    unfolding content_problem.simps Let_def Cons.IH
    by (cases last_line) (auto dest: bspec, meson le_less_trans not_le order.strict_implies_order)
qed (simp split: option.splits)

lemma run_block_problem_iff:
  "run_block_problem blocks previous rs \<longleftrightarrow>
   \<not> (list_all (run_placed blocks) rs \<and> sorted (map ru_block rs) \<and> (\<forall>r \<in> set rs. previous \<le> ru_block r))"
proof (induction rs arbitrary: previous)
  case (Cons r rs)
  have "run_placed blocks r \<longleftrightarrow> \<not> length blocks \<le> to_usize (ru_block r) \<and>
      \<not> (run_s r < blk_s (blocks ! to_usize (ru_block r)) \<or> blk_e (blocks ! to_usize (ru_block r)) + 1 < run_e r)"
    by (auto simp: run_placed_def)
  then show ?case unfolding run_block_problem.simps Cons.IH by (auto simp: not_less intro: order_trans)
qed simp

lemma sorted_unat: "sorted_wrt (<) (map (\<lambda>c. to_usize (f c)) cs) \<longleftrightarrow> sorted_wrt (<) (map f cs)"
  by (simp add: sorted_wrt_map unat_le_word)

lemma structure_problem_iff: "structure_problem ex = None \<longleftrightarrow> structure_ok ex"
proof -
  have t: "tree_problem (ex_blocks ex) n 0 (ex_blocks ex) (replicate (length (ex_blocks ex) + 1) (0, 0)) 0 \<longleftrightarrow>
      \<not> (\<forall>k < length (ex_blocks ex). block_placed (ex_blocks ex) n k)" for n
    by (subst tree_problem_iff) (auto simp: block_range_def simp del: replicate.simps)
  show ?thesis
    unfolding structure_problem_def Let_def t content_problem_iff run_block_problem_iff sorted_unat structure_ok_def
    by (auto simp: list_ex_iff)
qed

text \<open>
  C39: The structural check reports nothing exactly when the model has the structure a host relies
  on: blocks in document order, each in the source, inside its parent and clear of its previous
  sibling; content records on their own lines, in line order, inside their block with their prefix
  before them; runs in block order and inside their block.
\<close>

theorem check_structure_decides:
  "check_structure (ex\<lparr>ex_collect := True\<rparr>) = ex\<lparr>ex_collect := True\<rparr> \<longleftrightarrow> structure_ok ex"
proof -
  have "structure_ok (ex\<lparr>ex_collect := True\<rparr>) = structure_ok ex" by (simp add: structure_ok_def)
  moreover have "dev rule (ex\<lparr>ex_collect := True\<rparr>) \<noteq> ex\<lparr>ex_collect := True\<rparr>" for rule
  proof -
    have "length (ex_deviations (dev rule (ex\<lparr>ex_collect := True\<rparr>))) \<noteq> length (ex_deviations (ex\<lparr>ex_collect := True\<rparr>))"
      by (simp add: dev_def)
    then show ?thesis by metis
  qed
  ultimately show ?thesis
    using structure_problem_iff [of "ex\<lparr>ex_collect := True\<rparr>"] by (auto simp: check_structure_def split: option.splits)
qed

subsection \<open>Fitting to content\<close>

text \<open>A block and the blocks above it.\<close>

inductive encloses :: "block_rec list \<Rightarrow> nat \<Rightarrow> nat \<Rightarrow> bool" for bs where
  self: "encloses bs i i"
| up: "bl_parent (bs ! i) \<noteq> U32_MAX \<Longrightarrow> encloses bs (blk_p (bs ! i)) j \<Longrightarrow> encloses bs i j"

inductive_simps above_iff: "encloses bs i j"

lemma above_parent: "encloses bs i j \<Longrightarrow> bl_parent (bs ! j) \<noteq> U32_MAX \<Longrightarrow> encloses bs i (blk_p (bs ! j))"
  by (induction rule: encloses.induct) (auto intro: encloses.intros)

lemma above_le: "encloses bs i j \<Longrightarrow> parents_ok bs \<Longrightarrow> i < length bs \<Longrightarrow> j \<le> i"
  by (induction rule: encloses.induct) (force simp: parents_ok_def)+

lemma above_same: "encloses bs i j \<Longrightarrow> map bl_parent bs = map bl_parent cs \<Longrightarrow> parents_ok bs \<Longrightarrow> i < length bs \<Longrightarrow> encloses cs i j"
proof (induction rule: encloses.induct)
  case (up i j)
  have "bl_parent (bs ! i) = bl_parent (cs ! i)" using up.prems(1,3) by (metis length_map nth_map)
  moreover have "blk_p (bs ! i) < length bs" using up.hyps(1) up.prems by (auto simp: parents_ok_def)
  ultimately show ?case using up by (auto intro: encloses.intros)
qed (rule encloses.self)

abbreviation grow_over :: "line_index \<Rightarrow> u32 \<Rightarrow> u32 \<Rightarrow> block_rec \<Rightarrow> block_rec" where
  "grow_over li s e b \<equiv> grow_end e (u16 li (to_usize e)) (grow_start s (u16 li (to_usize s)) b)"

lemma parents_ok_map: "map bl_parent bs = map bl_parent cs \<Longrightarrow> parents_ok bs \<Longrightarrow> parents_ok cs"
  unfolding parents_ok_def by (metis length_map nth_map)

lemma map_parent_update: "bl_parent b = bl_parent (bs ! i) \<Longrightarrow> map bl_parent (bs[i := b]) = map bl_parent bs"
  by (metis list_update_id map_update)

lemma grow_up_nth:
  assumes "parents_ok bs" "i < length bs" "j < length bs"
  shows "grow_up li s e i bs ! j = (if encloses bs i j then grow_over li s e (bs ! j) else bs ! j) \<and>
         length (grow_up li s e i bs) = length bs"
  using assms
proof (induction li s e i bs rule: grow_up.induct)
  case (1 li s e i bs)
  define bs1 where "bs1 = bs[i := grow_over li s e (bs ! i)]"
  have par: "map bl_parent bs1 = map bl_parent bs" unfolding bs1_def by (rule map_parent_update) simp
  have unf: "grow_up li s e i bs =
      (if bl_parent (bs ! i) = U32_MAX then bs1 else grow_up li s e (blk_p (bs ! i)) bs1)"
    using "1.prems"(1,2) unfolding grow_up.simps [of li s e i bs] Let_def bs1_def parents_ok_def by auto
  show ?case
  proof (cases "bl_parent (bs ! i) = U32_MAX")
    case True
    then have "encloses bs i j \<longleftrightarrow> i = j" by (auto simp: above_iff [of bs i])
    then show ?thesis using unf True "1.prems" by (auto simp: bs1_def)
  next
    case False
    then have p: "blk_p (bs ! i) < i" using "1.prems" by (auto simp: parents_ok_def)
    have ab: "encloses bs i j \<longleftrightarrow> i = j \<or> encloses bs (blk_p (bs ! i)) j" using False by (auto simp: above_iff [of bs i])
    have ab1: "encloses bs1 (blk_p (bs ! i)) j \<longleftrightarrow> encloses bs (blk_p (bs ! i)) j"
      using above_same [OF _ par] above_same [OF _ par [symmetric]] parents_ok_map [OF par [symmetric] "1.prems"(1)] "1.prems" p
      by (auto simp: bs1_def)
    have "grow_up li s e (blk_p (bs ! i)) bs1 ! j =
        (if encloses bs1 (blk_p (bs ! i)) j then grow_over li s e (bs1 ! j) else bs1 ! j) \<and>
        length (grow_up li s e (blk_p (bs ! i)) bs1) = length bs1"
      using "1.IH" [OF refl refl] False p "1.prems" parents_ok_map [OF par [symmetric] "1.prems"(1)] by (simp add: bs1_def)
    moreover have "\<not> encloses bs (blk_p (bs ! i)) i" using above_le [of bs "blk_p (bs ! i)" i] p "1.prems" by auto
    moreover have "bs1 ! j = (if j = i then grow_over li s e (bs ! i) else bs ! j)" "length bs1 = length bs"
      using "1.prems" by (auto simp: bs1_def)
    ultimately show ?thesis using unf False ab ab1 by auto
  qed
qed

lemma grow_up_keeps:
  assumes "parents_ok bs" "i < length bs"
  shows "list_all2 same_tree bs (grow_up li s e i bs)" "nested bs \<Longrightarrow> nested (grow_up li s e i bs)"
    "list_all (block_units li) bs \<Longrightarrow> list_all (block_units li) (grow_up li s e i bs)"
    "covers_block (grow_up li s e i bs ! i) (bs ! i)"
    "bl_start_byte (grow_up li s e i bs ! i) \<le> s" "e \<le> bl_end_byte (grow_up li s e i bs ! i)"
proof -
  note nth = grow_up_nth [OF assms, of _ li s e]
  have len: "length (grow_up li s e i bs) = length bs" using nth assms(2) by blast
  show "list_all2 same_tree bs (grow_up li s e i bs)"
    using nth by (auto simp: list_all2_conv_all_nth len same_tree_def)
  show "list_all (block_units li) bs \<Longrightarrow> list_all (block_units li) (grow_up li s e i bs)"
    using nth by (simp add: list_all_length len grow_units)
  show "covers_block (grow_up li s e i bs ! i) (bs ! i)" "bl_start_byte (grow_up li s e i bs ! i) \<le> s"
    "e \<le> bl_end_byte (grow_up li s e i bs ! i)"
    using nth [OF assms(2)] encloses.self [of bs i] by (auto simp: covers_block_def)
  assume n: "nested bs"
  show "nested (grow_up li s e i bs)" unfolding nested_def
  proof (intro allI impI, elim conjE)
    fix k assume k: "1 \<le> k" "k < length (grow_up li s e i bs)" "bl_parent (grow_up li s e i bs ! k) \<noteq> U32_MAX"
    let ?p = "blk_p (bs ! k)"
    have par: "bl_parent (grow_up li s e i bs ! k) = bl_parent (bs ! k)" using nth [of k] k len by auto
    then have "covers_block (bs ! ?p) (bs ! k)" "?p < length bs"
      using n k len assms(1) by (auto simp: nested_def parents_ok_def)
    then show "covers_block (grow_up li s e i bs ! blk_p (grow_up li s e i bs ! k)) (grow_up li s e i bs ! k)"
      using nth [of k] nth [of ?p] k len par above_parent [of bs i k] by (auto simp: covers_block_def min_le_iff_disj le_max_iff_disj)
  qed
qed

lemma upd_block_simps [simp]:
  "ex_src (upd_block i f ex) = ex_src ex" "ex_li (upd_block i f ex) = ex_li ex" "ex_content (upd_block i f ex) = ex_content ex"
  "ex_runs (upd_block i f ex) = ex_runs ex" "ex_containers (upd_block i f ex) = ex_containers ex"
  "ex_blocks (upd_block i f ex) = (ex_blocks ex)[i := f (ex_blocks ex ! i)]"
  by (simp_all add: upd_block_def)

lemma dev_simps [simp]:
  "ex_src (dev r ex) = ex_src ex" "ex_li (dev r ex) = ex_li ex" "ex_content (dev r ex) = ex_content ex" "ex_runs (dev r ex) = ex_runs ex"
  "ex_containers (dev r ex) = ex_containers ex" "ex_blocks (dev r ex) = ex_blocks ex" "ex_collect (dev r ex) = ex_collect ex"
  by (simp_all add: dev_def)

lemma extend_line_count_simps [simp]:
  "bl_parent (extend_line_count l b) = bl_parent b" "bl_kind (extend_line_count l b) = bl_kind b"
  "bl_start_byte (extend_line_count l b) = bl_start_byte b" "bl_end_byte (extend_line_count l b) = bl_end_byte b"
  "bl_start_utf16 (extend_line_count l b) = bl_start_utf16 b" "bl_end_utf16 (extend_line_count l b) = bl_end_utf16 b"
  by (simp_all add: extend_line_count_def)

text \<open>Changing fields other than a range keeps nesting.\<close>

lemma nested_update:
  assumes "nested bs" "bl_parent b = bl_parent (bs ! i)" "bl_start_byte b = bl_start_byte (bs ! i)" "bl_end_byte b = bl_end_byte (bs ! i)"
  shows "nested (bs[i := b])"
proof -
  have "(bs[i := b] ! j) = b \<and> j = i \<or> bs[i := b] ! j = bs ! j" for j by (metis list_update_beyond not_le nth_list_update)
  then have f: "bl_parent (bs[i := b] ! j) = bl_parent (bs ! j)" "bl_start_byte (bs[i := b] ! j) = bl_start_byte (bs ! j)"
      "bl_end_byte (bs[i := b] ! j) = bl_end_byte (bs ! j)" for j
    using assms by metis+
  show ?thesis using assms(1) unfolding nested_def covers_block_def f by simp
qed

lemma fit_block_to_content_keeps: "parents_ok (ex_blocks ex) \<Longrightarrow> idx < length (ex_blocks ex) \<Longrightarrow> keeps ex (fit_block_to_content idx ex)"
proof -
  assume a: "parents_ok (ex_blocks ex)" "idx < length (ex_blocks ex)"
  have k1: "keeps ex (upd_block idx (extend_line_count l) ex)" for l
    by (rule keeps_upd_block) (simp_all add: same_tree_def block_units_def)
  have k2: "keeps ex (ex1\<lparr>ex_blocks := grow_up (ex_li ex) s e idx (ex_blocks ex1)\<rparr>)" if k: "keeps ex ex1" for ex1 s e
  proof (rule keeps_trans [OF k])
    have "ex_li ex = ex_li ex1" using k by (simp add: keeps_def)
    then show "keeps ex1 (ex1\<lparr>ex_blocks := grow_up (ex_li ex) s e idx (ex_blocks ex1)\<rparr>)"
      using grow_up_keeps [of "ex_blocks ex1" idx] keeps_parents [OF k a(1)] keeps_length [OF k] a(2) by (intro keeps_blocks) auto
  qed
  show ?thesis
    unfolding fit_block_to_content_def Let_def by (intro keeps_if k2 k1 keeps_refl keeps_trans [OF k1 keeps_dev])
qed

text \<open>
  Fitting a block to its content makes it cover the content from its first record's start to its
  last record's end, never shrinks it, and keeps every block inside its parent.
\<close>

lemma fit_block_to_content_covers:
  assumes "parents_ok (ex_blocks ex)" "idx < length (ex_blocks ex)" "nested (ex_blocks ex)"
    and "content_slice (ex_content ex) (ex_blocks ex ! idx) = c # cs" "b = ex_blocks (fit_block_to_content idx ex) ! idx"
  shows "bl_start_byte b \<le> co_start_byte c \<and> co_end_byte (last (c # cs)) \<le> bl_end_byte b \<and>
         covers_block b (ex_blocks ex ! idx) \<and> nested (ex_blocks (fit_block_to_content idx ex))"
proof -
  let ?b = "ex_blocks ex ! idx"
  let ?co = "to_usize (bl_content_offset ?b)" and ?cn = "to_usize (bl_content_count ?b)"
  have sl: "?co + ?cn \<le> length (ex_content ex)" "seg (ex_content ex) ?co (?co + ?cn) = c # cs"
    using assms(4) by (auto simp: content_slice_def Let_def split: if_splits)
  have cn: "?cn \<noteq> 0" using sl(2) by (metis add.right_neutral list.distinct(1) seg_same)
  have len: "length (c # cs) = ?cn" using arg_cong [OF sl(2), of length] sl(1) by simp
  have fst_c: "ex_content ex ! ?co = c" using arg_cong [OF sl(2), of "\<lambda>l. l ! 0"] cn sl(1) by (simp add: seg_nth)
  have "last (c # cs) = (c # cs) ! (?cn - 1)" using len by (metis last_conv_nth list.distinct(1))
  moreover have "(c # cs) ! (?cn - 1) = ex_content ex ! (?co + (?cn - 1))"
    unfolding sl(2) [symmetric] using cn sl(1) by (intro seg_nth) auto
  ultimately have lst: "ex_content ex ! (?co + ?cn - 1) = last (c # cs)" using cn by simp
  define bs1 where "bs1 = (ex_blocks ex)[idx := extend_line_count (co_line (last (c # cs))) ?b]"
  have b1: "parents_ok bs1" "length bs1 = length (ex_blocks ex)" "nested bs1"
    unfolding bs1_def using assms(1,3) by (auto intro: parents_ok_map [OF map_parent_update [symmetric]] nested_update)
  have b1i: "bl_start_byte (bs1 ! idx) = bl_start_byte ?b" "bl_end_byte (bs1 ! idx) = bl_end_byte ?b"
    using assms(2) by (simp_all add: bs1_def)
  have blocks: "ex_blocks (fit_block_to_content idx ex) =
      (if bl_start_byte ?b \<le> co_start_byte c \<and> co_end_byte (last (c # cs)) \<le> bl_end_byte ?b then bs1
       else grow_up (ex_li ex) (co_start_byte c) (co_end_byte (last (c # cs))) idx bs1)"
    unfolding fit_block_to_content_def Let_def fst_c lst using cn by (auto simp: bs1_def)
  show ?thesis
    using grow_up_keeps [OF b1(1), where i = idx and li = "ex_li ex" and s = "co_start_byte c" and e = "co_end_byte (last (c # cs))"]
      b1 b1i assms(2)
    unfolding assms(5) blocks by (auto simp: covers_block_def)
qed

subsection \<open>Fitting to runs and trimming\<close>

lemma le_fold_min: "x \<le> fold (\<lambda>r lo. min lo (f r)) rs a \<longleftrightarrow> x \<le> a \<and> (\<forall>r \<in> set rs. x \<le> f r)" for x :: nat
  by (induction rs arbitrary: a) auto

lemma fold_max_le_iff: "fold (\<lambda>r hi. max hi (f r)) rs a \<le> x \<longleftrightarrow> a \<le> x \<and> (\<forall>r \<in> set rs. f r \<le> x)" for x :: nat
  by (induction rs arbitrary: a) auto

abbreviation first_byte :: "run_rec list \<Rightarrow> nat" where "first_byte rs \<equiv> fold (\<lambda>r lo. min lo (run_s r)) rs USIZE_MAX"
abbreviation last_byte :: "run_rec list \<Rightarrow> nat" where "last_byte rs \<equiv> fold (\<lambda>r hi. max hi (run_e r)) rs 0"

lemma run_extent:
  "r \<in> set rs \<Longrightarrow> first_byte rs \<le> run_s r \<and> run_e r \<le> last_byte rs"
  "rs \<noteq> [] \<Longrightarrow> first_byte rs < 4294967296" "last_byte rs < 4294967296"
proof -
  show r: "first_byte rs \<le> run_s r \<and> run_e r \<le> last_byte rs" if "r \<in> set rs" for r
  proof
    show "first_byte rs \<le> run_s r" using le_fold_min [of "first_byte rs" run_s rs USIZE_MAX] that by blast
    show "run_e r \<le> last_byte rs" using fold_max_le_iff [of run_e rs 0 "last_byte rs"] that by blast
  qed
  show "first_byte rs < 4294967296" if "rs \<noteq> []"
  proof -
    have "first_byte rs \<le> run_s (hd rs)" using r [of "hd rs"] that by simp
    then show ?thesis using unat_u32_less [of "ru_start_byte (hd rs)"] by linarith
  qed
  show "last_byte rs < 4294967296"
    using fold_max_le_iff [of run_e rs 0 4294967295] by (simp add: less_Suc_eq_le [symmetric] unat_u32_less)
qed

lemma fit_range_simps:
  "lo < 4294967296 \<Longrightarrow> hi < 4294967296 \<Longrightarrow>
   blk_s (fit_range li lo hi b) = min lo (blk_s b) \<and> blk_e (fit_range li lo hi b) = max hi (blk_e b) \<and>
   same_tree b (fit_range li lo hi b) \<and> (block_units li b \<longrightarrow> block_units li (fit_range li lo hi b))"
  by (auto simp: fit_range_def Let_def same_tree_def block_units_def)

lemma fit_block_to_runs_keeps: "keeps ex (fit_block_to_runs idx first_run ex)"
proof -
  have k: "keeps ex1 (upd_block idx (fit_range (ex_li ex1) (first_byte rs) (last_byte rs)) ex1)" if "rs \<noteq> []" for ex1 rs
    using fit_range_simps [OF run_extent(2) [OF that] run_extent(3)] by (intro keeps_upd_block) auto
  have li: "ex_li (if c then dev rule ex else ex) = ex_li ex" for c rule by simp
  show ?thesis
  proof (cases "length (ex_runs ex) \<le> first_run")
    case False
    then have "drop first_run (ex_runs ex) \<noteq> []" by simp
    from k [OF this, of "if c then dev rule ex else ex" for c rule, unfolded li] show ?thesis
      unfolding fit_block_to_runs_def Let_def by (intro keeps_if keeps_refl) (rule keeps_trans [OF keeps_if [OF keeps_dev keeps_refl]])
  qed (simp add: fit_block_to_runs_def)
qed

text \<open>
  Fitting a block to its runs makes its range exactly what covers its own and every run's: it
  starts at the least start and ends at the greatest end among them, so every run of the leaf
  lies inside its block.
\<close>

lemma fit_block_to_runs_covers:
  assumes "idx < length (ex_blocks ex)" "rs = drop first_run (ex_runs ex)" "rs \<noteq> []"
    and "b = ex_blocks ex ! idx" "b' = ex_blocks (fit_block_to_runs idx first_run ex) ! idx"
  shows "blk_s b' = min (blk_s b) (Min (run_s ` set rs)) \<and> blk_e b' = max (blk_e b) (Max (run_e ` set rs))"
proof -
  have "first_byte rs = Min (run_s ` set rs)"
  proof (rule antisym)
    show "Min (run_s ` set rs) \<le> first_byte rs"
      using le_fold_min [of "Min (run_s ` set rs)" run_s rs USIZE_MAX] unat_u32_less [of "ru_start_byte (hd rs)"] assms(3)
      by (auto simp: USIZE_MAX_def Min_le_iff intro!: bexI [of _ "hd rs"])
  qed (use run_extent(1) assms(3) in auto)
  moreover have "last_byte rs = Max (run_e ` set rs)"
  proof (rule antisym)
    show "last_byte rs \<le> Max (run_e ` set rs)" using fold_max_le_iff [of run_e rs 0 "Max (run_e ` set rs)"] assms(3) by simp
  qed (use run_extent(1) assms(3) in auto)
  moreover have "\<not> length (ex_runs ex) \<le> first_run" using assms(2,3) by auto
  ultimately show ?thesis
    using fit_range_simps [OF run_extent(2) [OF assms(3)] run_extent(3) [of rs], of "ex_li ex" b] assms(1)
    unfolding assms(5) fit_block_to_runs_def Let_def assms(2) [symmetric] assms(4) [symmetric]
    by (auto simp: assms(4) [symmetric])
qed

lemma trim_lines_le: "trim_lines ex ch first cl n \<le> n"
  by (induction n) (auto intro: le_SucI)

lemma trim_lines_spec:
  "trim_lines ex ch first cl n = m \<Longrightarrow>
   (\<forall>k. m \<le> k \<and> k < n \<longrightarrow> cl < first + k \<and> blank_line ex ch (first + k)) \<and>
   (0 < n \<longrightarrow> 0 < m) \<and> (1 < m \<and> cl < first + (m - 1) \<longrightarrow> \<not> blank_line ex ch (first + (m - 1)))"
proof (induction n)
  case (Suc n)
  show ?case
  proof (cases "1 < Suc n \<and> cl < first + n \<and> blank_line ex ch (first + n)")
    case True
    then have "trim_lines ex ch first cl n = m" using Suc.prems by auto
    from Suc.IH [OF this] show ?thesis using True by (auto simp: less_Suc_eq)
  next
    case False
    then have "m = Suc n" using Suc.prems by (auto split: if_splits)
    then show ?thesis using False by auto
  qed
qed simp

lemma trim_keeps: "keeps ex (trim_trailing_blank_lines idx ch ex)"
proof -
  have k: "keeps ex (upd_block idx (\<lambda>b. (let b1 = b\<lparr>bl_line_count := n\<rparr>
      in if e < blk_e b1 then b1\<lparr>bl_end_byte := to_u32 e, bl_end_utf16 := u16 (ex_li ex) e\<rparr> else b1)) ex)" for n e
  proof (rule keeps_upd_block)
    fix b :: block_rec
    have "e < 4294967296" if "e < blk_e b" using that unat_u32_less [of "bl_end_byte b"] by linarith
    then show "block_units (ex_li ex) b \<Longrightarrow> block_units (ex_li ex) (let b1 = b\<lparr>bl_line_count := n\<rparr>
      in if e < blk_e b1 then b1\<lparr>bl_end_byte := to_u32 e, bl_end_utf16 := u16 (ex_li ex) e\<rparr> else b1)"
      by (auto simp: block_units_def Let_def)
  qed (auto simp: same_tree_def Let_def)
  show ?thesis unfolding trim_trailing_blank_lines_def Let_def by (intro keeps_if keeps_refl k [unfolded Let_def])
qed

text \<open>
  Trimming a leaf's block drops exactly the blank lines after its last content line: every line
  dropped is blank behind its container prefix and lies after the content, the last line
  kept is the block's first, a content line or not blank, and the block ends with it.
\<close>

lemma trim_trailing_blank_lines_exact:
  assumes "idx < length (ex_blocks ex)" "b = ex_blocks ex ! idx" "first = to_usize (bl_first_line b)"
    and "b' = ex_blocks (trim_trailing_blank_lines idx ch ex) ! idx" "kept = to_usize (bl_line_count b')"
  shows "kept \<le> to_usize (bl_line_count b) \<and>
         (\<forall>k. kept \<le> k \<and> k < to_usize (bl_line_count b) \<longrightarrow> content_line ex idx < first + k \<and> blank_line ex ch (first + k)) \<and>
         (1 < kept \<and> content_line ex idx < first + (kept - 1) \<longrightarrow> \<not> blank_line ex ch (first + (kept - 1))) \<and>
         blk_e b' = (if kept = to_usize (bl_line_count b) then blk_e b else min (blk_e b) (line_end (ex_li ex) (first + kept - 1)))"
proof -
  define m where "m = trim_lines ex ch first (content_line ex idx) (to_usize (bl_line_count b))"
  define e where "e = line_end (ex_li ex) (first + m - 1)"
  have le: "m \<le> to_usize (bl_line_count b)" unfolding m_def by (rule trim_lines_le)
  then have m32: "to_usize (to_u32 m) = m" using unat_u32_less [of "bl_line_count b"] by simp
  have e32: "e < blk_e b \<Longrightarrow> to_usize (to_u32 e) = e" using unat_u32_less [of "bl_end_byte b"] by simp
  have blocks: "b' = (if m = to_usize (bl_line_count b) then b
      else if e < blk_e b then b\<lparr>bl_line_count := to_u32 m, bl_end_byte := to_u32 e, bl_end_utf16 := u16 (ex_li ex) e\<rparr>
      else b\<lparr>bl_line_count := to_u32 m\<rparr>)"
    unfolding assms(4) trim_trailing_blank_lines_def Let_def assms(2) [symmetric] assms(3) [symmetric] m_def [symmetric] e_def [symmetric]
    using assms(1) by (simp add: assms(2) [symmetric])
  then have kept: "kept = m" using assms(5) m32 by simp
  have "blk_e b' = (if m = to_usize (bl_line_count b) then blk_e b else min (blk_e b) e)"
    unfolding blocks using e32 by simp
  then show ?thesis
    using trim_lines_spec [OF m_def [symmetric]] le unfolding kept e_def by blast
qed

subsection \<open>Cutting containers back\<close>

text \<open>\<^verbatim>\<open>for i in 1..n\<close>.\<close>

lemma fold_up:
  assumes "\<And>i s. 1 \<le> i \<Longrightarrow> i < k \<Longrightarrow> P i s \<Longrightarrow> P (Suc i) (f i s)" "P 1 s"
  shows "P (max 1 k) (fold f [1..<k] s)"
  using assms
proof (induction k)
  case (Suc k)
  then show ?case by (cases "k = 0") (auto simp: max_def)
qed simp

definition cut_back :: "u32 option list \<Rightarrow> u32 list \<Rightarrow> block_rec list \<Rightarrow> nat \<Rightarrow> bool" where
  "cut_back next_start reach bs j =
     ((bl_parent (bs ! j) \<noteq> U32_MAX \<longrightarrow> bl_end_byte (bs ! j) \<le> max (bl_end_byte (bs ! blk_p (bs ! j))) (bl_start_byte (bs ! j))) \<and>
      (case next_start ! j of
         None \<Rightarrow> True
       | Some ns \<Rightarrow> bl_end_byte (bs ! j) \<le> ns \<or> bl_end_byte (bs ! j) \<le> max (reach ! j) (bl_start_byte (bs ! j))))"

lemma overlap_step_update:
  "\<exists>e. overlap_step li next_start reach i bs = bs[i := (bs ! i)\<lparr>bl_end_byte := e, bl_end_utf16 := u16 li (to_usize e)\<rparr>] \<and> e < bl_end_byte (bs ! i)
    \<or> overlap_step li next_start reach i bs = bs"
  by (auto simp: overlap_step_def Let_def)

lemma U32_MAX_top: "w \<le> U32_MAX" for w :: u32
  using unat_u32_less [of w] by (simp add: word_le_nat_alt)

lemma overlap_step_cut:
  assumes "i < length bs" "bl_parent (bs ! i) \<noteq> U32_MAX \<Longrightarrow> blk_p (bs ! i) \<noteq> i" "is_container_kind (bl_kind (bs ! i))"
  shows "cut_back next_start reach (overlap_step li next_start reach i bs) i"
proof -
  define b where "b = bs ! i"
  define pe where "pe = (if bl_parent b = U32_MAX then U32_MAX else bl_end_byte (bs ! blk_p b))"
  define run_in where "run_in \<longleftrightarrow> (case next_start ! i of Some ns \<Rightarrow> ns < bl_end_byte b | None \<Rightarrow> False)"
  define e where "e = min (max (reach ! i) (bl_start_byte b)) (max pe (bl_start_byte b))"
  define bs' where "bs' = overlap_step li next_start reach i bs"
  have step: "bs' = (if (run_in \<or> pe < bl_end_byte b) \<and> e < bl_end_byte b
      then bs[i := b\<lparr>bl_end_byte := e, bl_end_utf16 := u16 li (to_usize e)\<rparr>] else bs)"
    using assms(3) unfolding bs'_def overlap_step_def Let_def b_def [symmetric] pe_def [symmetric] run_in_def [symmetric] e_def [symmetric] by simp
  have same: "bl_parent (bs' ! i) = bl_parent b" "bl_start_byte (bs' ! i) = bl_start_byte b"
    "bl_end_byte (bs' ! i) = (if (run_in \<or> pe < bl_end_byte b) \<and> e < bl_end_byte b then e else bl_end_byte b)"
    using assms(1) by (simp_all add: step b_def)
  have "bl_parent b \<noteq> U32_MAX \<Longrightarrow> bl_end_byte (bs' ! blk_p b) = pe" using assms(1,2) by (simp add: step b_def pe_def)
  moreover have "bl_end_byte (bs' ! i) \<le> max pe (bl_start_byte b)"
    unfolding same e_def by (auto simp: not_less le_max_iff_disj min_le_iff_disj)
  moreover have "run_in \<Longrightarrow> bl_end_byte (bs' ! i) \<le> max (reach ! i) (bl_start_byte b)"
    unfolding same e_def by (auto simp: not_less le_max_iff_disj min_le_iff_disj)
  moreover have "\<not> run_in \<Longrightarrow> next_start ! i = Some ns \<Longrightarrow> bl_end_byte (bs' ! i) \<le> ns" for ns
  proof -
    assume "\<not> run_in" "next_start ! i = Some ns"
    then have "bl_end_byte b \<le> ns" by (simp add: run_in_def not_less)
    moreover have "bl_end_byte (bs' ! i) \<le> bl_end_byte b" unfolding same by auto
    ultimately show "bl_end_byte (bs' ! i) \<le> ns" by (rule order_trans [rotated])
  qed
  ultimately show ?thesis
    unfolding bs'_def [symmetric] cut_back_def same(1,2) by (cases run_in) (auto split: option.splits)
qed

definition shrunk :: "block_rec \<Rightarrow> block_rec \<Rightarrow> bool" where
  "shrunk b b' = (same_tree b b' \<and> bl_start_byte b' = bl_start_byte b \<and> bl_end_byte b' \<le> bl_end_byte b)"

lemma shrunk_trans: "shrunk a b \<Longrightarrow> shrunk b c \<Longrightarrow> shrunk a c"
  by (auto simp: shrunk_def same_tree_def)

lemma shrunk_list_trans: "list_all2 shrunk as bs \<Longrightarrow> list_all2 shrunk bs cs \<Longrightarrow> list_all2 shrunk as cs"
  by (rule list_all2_trans [OF shrunk_trans])

lemma overlap_fold:
  assumes "parents_ok bs"
  shows "list_all2 shrunk bs (fold (overlap_step li next_start reach) [1..<length bs] bs) \<and>
     (list_all (block_units li) bs \<longrightarrow> list_all (block_units li) (fold (overlap_step li next_start reach) [1..<length bs] bs)) \<and>
     (\<forall>j. 1 \<le> j \<and> j < length bs \<and> is_container_kind (bl_kind (bs ! j)) \<longrightarrow>
        cut_back next_start reach (fold (overlap_step li next_start reach) [1..<length bs] bs) j)"
proof -
  define P where "P i ws \<longleftrightarrow> list_all2 shrunk bs ws \<and> (list_all (block_units li) bs \<longrightarrow> list_all (block_units li) ws) \<and>
    (\<forall>j. 1 \<le> j \<and> j < i \<and> j < length bs \<and> is_container_kind (bl_kind (bs ! j)) \<longrightarrow> cut_back next_start reach ws j)" for i ws
  have "P (max 1 (length bs)) (fold (overlap_step li next_start reach) [1..<length bs] bs)"
  proof (rule fold_up)
    fix i ws assume i: "1 \<le> i" "i < length bs" and P: "P i ws"
    let ?ws = "overlap_step li next_start reach i ws"
    have len: "length ws = length bs" using P by (auto simp: P_def dest: list_all2_lengthD)
    have par: "bl_parent (ws ! j) = bl_parent (bs ! j)" "bl_kind (ws ! j) = bl_kind (bs ! j)" if "j < length bs" for j
      using P that by (auto simp: P_def shrunk_def same_tree_def dest: list_all2_nthD)
    have other: "?ws ! j = ws ! j" if "j \<noteq> i" for j using overlap_step_update [of li next_start reach i ws] that by auto
    have up: "blk_p (bs ! j) < j" if "j < length bs" "bl_parent (bs ! j) \<noteq> U32_MAX" for j
      using assms that by (auto simp: parents_ok_def)
    have "list_all2 shrunk ws ?ws" "list_all (block_units li) ws \<longrightarrow> list_all (block_units li) ?ws"
      using overlap_step_update [of li next_start reach i ws]
      by (auto simp: shrunk_def reflp_def block_units_def intro!: list_all2_update list_all_update list_all2_refl)
        (simp_all add: same_tree_def)
    then have "list_all2 shrunk bs ?ws" "list_all (block_units li) bs \<longrightarrow> list_all (block_units li) ?ws"
      using P shrunk_list_trans [of bs ws ?ws] by (auto simp: P_def)
    moreover have "cut_back next_start reach ?ws j" if j: "1 \<le> j" "j < i" "is_container_kind (bl_kind (bs ! j))" for j
    proof -
      have "cut_back next_start reach ws j" using P j i by (simp add: P_def)
      moreover have "?ws ! j = ws ! j" "bl_parent (ws ! j) \<noteq> U32_MAX \<longrightarrow> ?ws ! blk_p (ws ! j) = ws ! blk_p (ws ! j)"
        using other j up [of j] i par [of j] by auto
      ultimately show ?thesis unfolding cut_back_def by (simp only: simp_thms split: option.splits) auto
    qed
    moreover have "cut_back next_start reach ?ws i" if "is_container_kind (bl_kind (bs ! i))"
    proof (rule overlap_step_cut)
      show "bl_parent (ws ! i) \<noteq> U32_MAX \<Longrightarrow> blk_p (ws ! i) \<noteq> i" using up [of i] i par [of i] by auto
    qed (use i len par [of i] that in auto)
    ultimately show "P (Suc i) ?ws" unfolding P_def by (auto simp: less_Suc_eq)
  qed (auto simp: P_def shrunk_def intro: list_all2_refl)
  then show ?thesis unfolding P_def by auto
qed

text \<open>
  Cutting overlapping containers back only moves ends towards the start: afterwards every container
  ends inside its parent (or is empty at its start), and one that still ends past its next
  sibling's start ends no later than its own content and children reach.
\<close>

lemma fit_overlapping_containers_cuts:
  assumes "parents_ok (ex_blocks ex)" "bs = ex_blocks (fit_overlapping_containers ex)"
    and "1 \<le> j" "j < length (ex_blocks ex)" "is_container_kind (bl_kind (ex_blocks ex ! j))"
  shows "list_all2 shrunk (ex_blocks ex) bs \<and>
         (bl_parent (bs ! j) \<noteq> U32_MAX \<longrightarrow> bl_end_byte (bs ! j) \<le> max (bl_end_byte (bs ! blk_p (bs ! j))) (bl_start_byte (bs ! j))) \<and>
         (\<forall>ns. next_starts (ex_blocks ex) ! j = Some ns \<longrightarrow> ns < bl_end_byte (bs ! j) \<longrightarrow>
            bl_end_byte (bs ! j) \<le> max (block_reach (ex_content ex) (ex_blocks ex) ! j) (bl_start_byte (bs ! j)))"
proof -
  let ?next = "next_starts (ex_blocks ex)" and ?reach = "block_reach (ex_content ex) (ex_blocks ex)"
  note o = overlap_fold [OF assms(1), of "ex_li ex" ?next ?reach]
  have bs: "bs = fold (overlap_step (ex_li ex) ?next ?reach) [1..<length (ex_blocks ex)] (ex_blocks ex)"
    using assms(2) by (simp add: fit_overlapping_containers_def)
  have "cut_back ?next ?reach bs j" unfolding bs using o assms(3-5) by blast
  then show ?thesis using o unfolding cut_back_def bs [symmetric] by (auto simp: not_le)
qed

subsection \<open>Edits of the block ranges\<close>

text \<open>
  The interface the extraction's passes share: an edit keeps the source, the line table, the
  containers and the tree, and the agreement of byte and UTF-16 ranges, so whatever was
  proved of the walk still holds after it.
\<close>

locale block_edit =
  fixes edit :: "extractor \<Rightarrow> extractor"
  assumes edit_keeps: "walk_ok ex \<Longrightarrow> keeps ex (edit ex)"
begin

lemma edit_walk_ok: "walk_ok ex \<Longrightarrow> walk_ok (edit ex)"
  using edit_keeps keeps_walk_ok by blast

lemma edit_kinds: "walk_ok ex \<Longrightarrow> map bl_kind (ex_blocks (edit ex)) = map bl_kind (ex_blocks ex)"
  using edit_keeps [of ex] keeps_nth [of ex "edit ex"] keeps_length [of ex "edit ex"] by (simp add: list_eq_iff_nth_eq)

lemma edit_chain: "walk_ok ex \<Longrightarrow> chain (edit ex) cid = chain ex cid"
  using edit_keeps keeps_chain by blast

end

locale block_edits = e1: block_edit edit1 + e2: block_edit edit2
  for edit1 :: "extractor \<Rightarrow> extractor" and edit2 :: "extractor \<Rightarrow> extractor"

sublocale block_edits \<subseteq> comp: block_edit "\<lambda>ex. edit2 (edit1 ex)"
  by unfold_locales (metis e1.edit_keeps e1.edit_walk_ok e2.edit_keeps keeps_trans)

lemma widen_keeps: "walk_ok ex \<Longrightarrow> keeps ex (widen_parents ex)"
  using widen_blocks_nested [of "ex_blocks ex" "ex_li ex"] unfolding widen_parents_def walk_ok_def by (intro keeps_blocks) auto

lemma overlap_keeps: "walk_ok ex \<Longrightarrow> keeps ex (fit_overlapping_containers ex)"
proof -
  assume "walk_ok ex"
  then have o: "list_all2 shrunk (ex_blocks ex) (ex_blocks (fit_overlapping_containers ex)) \<and>
      (list_all (block_units (ex_li ex)) (ex_blocks ex) \<longrightarrow> list_all (block_units (ex_li ex)) (ex_blocks (fit_overlapping_containers ex)))"
    using overlap_fold [of "ex_blocks ex" "ex_li ex"] by (simp add: fit_overlapping_containers_def walk_ok_def)
  moreover have "shrunk a b \<Longrightarrow> same_tree a b" for a b by (simp add: shrunk_def)
  ultimately have "keeps ex (ex\<lparr>ex_blocks := ex_blocks (fit_overlapping_containers ex)\<rparr>)"
    by (intro keeps_blocks) (auto elim: list_all2_mono)
  then show ?thesis by (simp add: fit_overlapping_containers_def)
qed

lemma keeps_own_empty_lines: "keeps ex (own_empty_lines i owned ex)"
proof -
  have cover: "same_tree b (fold (cover_content li) cs b) \<and> (block_units li b \<longrightarrow> block_units li (fold (cover_content li) cs b))" for b cs li
    by (induction cs arbitrary: b) (auto simp: cover_content_def same_tree_def grow_units)
  have push: "keeps ex' (push_empty_line ch f c l ex')" for ch f c l ex'
    unfolding push_empty_line_def Let_def by (intro keeps_if keeps_refl keeps_push_content)
  have field: "keeps ex' (upd_block bi (\<lambda>b. b\<lparr>bl_content_offset := x\<rparr>) ex')" "keeps ex' (upd_block bi (\<lambda>b. b\<lparr>bl_content_count := y b\<rparr>) ex')"
    "keeps ex' (upd_block bi (fold (cover_content (ex_li ex')) cs) ex')" for bi x y ex' cs
    using cover by (auto intro!: keeps_upd_block simp: same_tree_def block_units_def)
  show ?thesis
    unfolding own_empty_lines_def Let_def
    by (intro keeps_if keeps_refl keeps_trans [OF _ field(3)] keeps_trans [OF _ field(2)] keeps_trans [OF field(1) keeps_fold] push)
qed

interpretation widening: block_edit widen_parents
  by unfold_locales (rule widen_keeps)

interpretation overlapping: block_edit fit_overlapping_containers
  by unfold_locales (rule overlap_keeps)

interpretation to_runs: block_edit "fit_block_to_runs idx first_run" for idx first_run
  by unfold_locales (rule fit_block_to_runs_keeps)

interpretation trimming: block_edit "trim_trailing_blank_lines idx ch" for idx ch
  by unfold_locales (rule trim_keeps)

interpretation owning: block_edit "\<lambda>ex. fold (\<lambda>i. own_empty_lines i (f i)) is ex" for f "is"
  by unfold_locales (rule keeps_fold [OF keeps_own_empty_lines])

interpretation structure_check: block_edit check_structure
  by unfold_locales (auto simp: check_structure_def split: option.splits)

lemma empty_container_lines_keeps: "walk_ok ex \<Longrightarrow> keeps ex (empty_container_lines ex)"
  unfolding empty_container_lines_def Let_def
  by (rule keeps_trans [OF owning.edit_keeps widening.edit_keeps [OF owning.edit_walk_ok]])

interpretation emptying: block_edit empty_container_lines
  by unfold_locales (rule empty_container_lines_keeps)

interpretation finishing: block_edits empty_container_lines fit_overlapping_containers
  by unfold_locales

end
