(* ===== verification/Flark_Place.thy ===== *)
theory Flark_Place
  imports Flark_Structure "HOL-Library.Monad_Syntax"
begin

text \<open>
  Where an inline node lies in the source, \<^verbatim>\<open>native/flark_parse/src/model.rs\<close>: a position comrak
  reports is moved past stripped definitions (\<open>shifted\<close>), past the backslashes of escaped pipes
  (\<open>pipe_shift\<close>) and by the offset the leaf's repairs carry (\<open>corrected_range\<close>); a literal comrak
  misplaced is searched for nearby (\<open>find_literal\<close>, \<open>find_explained\<close>); and once a leaf's runs are
  recorded, the delimiters of its containers are checked (\<open>check_delimiters\<close>). The iteration of
  \<open>pipe_shift\<close> is shown to end at a fixed point of its step.
\<close>

unbundle bit_operations_syntax

record shift =
  sh_lines :: "line_span list"
  sh_def_lines :: nat

record cell =
  cl_start :: nat
  cl_column_delta :: int

text \<open>\<^verbatim>\<open>bytes.get(a..b)\<close>, \<^verbatim>\<open>str::find\<close>, \<^verbatim>\<open>str::rfind\<close> of a character, and \<^verbatim>\<open>str::match_indices\<close>.\<close>

definition get_range :: "'a list \<Rightarrow> nat \<Rightarrow> nat \<Rightarrow> 'a list option" where
  "get_range bs a b = (if a \<le> b \<and> b \<le> length bs then Some (seg bs a b) else None)"

definition get_item :: "'a list \<Rightarrow> nat \<Rightarrow> 'a option" where
  "get_item xs i = (if i < length xs then Some (xs ! i) else None)"

definition rposition :: "('a \<Rightarrow> bool) \<Rightarrow> 'a list \<Rightarrow> nat option" where
  "rposition P xs = map_option (\<lambda>k. length xs - 1 - k) (position P (rev xs))"

definition find_sub :: "bytes \<Rightarrow> bytes \<Rightarrow> nat option" where
  "find_sub hay needle = find (\<lambda>i. starts_with (drop i hay) needle) [0..<length hay + 1 - length needle]"

definition contains_sub :: "bytes \<Rightarrow> bytes \<Rightarrow> bool" where
  "contains_sub hay needle = (find_sub hay needle \<noteq> None)"

function match_from :: "bytes \<Rightarrow> bytes \<Rightarrow> nat \<Rightarrow> nat list" where
  "match_from hay needle i =
     (if i + length needle \<le> length hay then
        (if starts_with (drop i hay) needle then i # match_from hay needle (i + max (length needle) 1)
         else match_from hay needle (i + 1))
      else [])"
  by pat_completeness auto
termination
  by (relation "measure (\<lambda>(hay, needle, i). Suc (length hay) - i)") auto

declare match_from.simps [simp del]

definition match_indices :: "bytes \<Rightarrow> bytes \<Rightarrow> nat list" where
  "match_indices hay needle = match_from hay needle 0"

subsection \<open>Reported positions\<close>

definition shifted :: "extractor \<Rightarrow> nat \<Rightarrow> nat \<Rightarrow> shift \<Rightarrow> nat" where
  "shifted ex line1 col0 sh =
     (let raw = min (line_start (ex_li ex) (line1 - 1) + col0) (length (ex_src ex))
      in if line1 = 0 then raw
         else
           (let n = (line1 - 1) - ls_line0 (sh_lines sh ! 0)
            in if length (sh_lines sh) \<le> n + sh_def_lines sh then raw
               else
                 (let prefix = ls_start (sh_lines sh ! n) - line_start (ex_li ex) (ls_line0 (sh_lines sh ! n));
                      content_col = col0 - prefix;
                      target = sh_lines sh ! (n + sh_def_lines sh)
                  in min (ls_start target + (content_col - ls_virt target))
                       (line_end_with_break (ex_li ex) (ls_line0 target) (length (ex_src ex))))))"

text \<open>The end of an inline literal that crosses lines and starts at \<open>s\<close>.\<close>

definition crossing_literal_end :: "extractor \<Rightarrow> nat \<Rightarrow> bytes \<Rightarrow> nat \<Rightarrow> shift option \<Rightarrow> nat option" where
  "crossing_literal_end ex s literal content_from sh =
     do {
       first \<leftarrow> position (\<lambda>b. b = LF) literal;
       lst \<leftarrow> rposition (\<lambda>b. b = LF) literal;
       head \<leftarrow> get_range (ex_src ex) s (s + first + 1);
       if head \<noteq> take (first + 1) literal then None
       else do {
         let line = line_of (ex_li ex) s + count_lf literal;
         let records = drop content_from (ex_content ex);
         r \<leftarrow> get_item records (partition_point (\<lambda>r. to_usize (co_line r) < line) records);
         if to_usize (co_line r) \<noteq> line then None
         else do {
           let start = to_usize (co_start_byte r);
           let virt = (case sh of
                         None \<Rightarrow> 0
                       | Some sh \<Rightarrow>
                           (case get_item (sh_lines sh) (partition_point (\<lambda>l. ls_line0 l < line) (sh_lines sh)) of
                              None \<Rightarrow> 0
                            | Some l \<Rightarrow> if ls_line0 l = line then ls_virt l else 0));
           let tail = drop (lst + 1) literal;
           if length tail < virt \<or> list_ex (\<lambda>b. b \<noteq> CHR '' '') (take virt tail) then None
           else do {
             let e = start + length tail - virt;
             found \<leftarrow> get_range (ex_src ex) start e;
             if found = drop virt tail then Some e else None
           }
         }
       }
     }"

text \<open>
  The fixed point of moving a byte by the escapes before it. The count never falls when the byte
  moves right (\<open>escapes_before_mono\<close> below), so a round that does not raise it has reached it.
\<close>

lemma pipes_removed_less: "fst (pipes_removed pc src origin lo hi) < 4294967296"
  by (simp add: pipes_removed_def Let_def unat_u32_less)

function pipe_loop :: "bytes \<Rightarrow> nat \<Rightarrow> nat \<Rightarrow> nat \<Rightarrow> nat \<Rightarrow> nat \<Rightarrow> pipe_counts \<Rightarrow> nat \<times> pipe_counts" where
  "pipe_loop src origin lo byte b k0 pc =
     (case pipes_removed pc src origin lo (b + 1) of
        (k, pc1) \<Rightarrow> if k0 < k then pipe_loop src origin lo byte (byte + k) k pc1 else (b, pc1))"
  by pat_completeness auto
termination
  using pipes_removed_less
  by (relation "measure (\<lambda>(src, origin, lo, byte, b, k0, pc). 4294967296 - k0)") (auto simp: split_def prod_eq_iff diff_less_mono2 less_trans)

declare pipe_loop.simps [simp del]

definition pipe_shift :: "nat \<Rightarrow> cell option \<Rightarrow> extractor \<Rightarrow> nat \<times> extractor" where
  "pipe_shift byte cell ex =
     (case cell of
        None \<Rightarrow> (byte, ex)
      | Some c \<Rightarrow>
          (let lo = max (cl_start c) (line_start (ex_li ex) (line_of (ex_li ex) (min byte (length (ex_src ex)))))
           in case pipe_loop (ex_src ex) (cl_start c) lo byte byte 0 (ex_pipes ex) of
                (b, pc) \<Rightarrow> (b, ex\<lparr>ex_pipes := pc\<rparr>)))"

definition corrected_range :: "sourcepos \<Rightarrow> cell option \<Rightarrow> shift option \<Rightarrow> extractor \<Rightarrow> (nat \<times> nat) option \<times> extractor" where
  "corrected_range sp0 cell sh ex =
     (if lc_line (sp_start sp0) = 0 \<or> lc_line (sp_end sp0) = 0 then (None, ex)
      else
        (let sp = shift_columns (case cell of None \<Rightarrow> 0 | Some c \<Rightarrow> cl_column_delta c) sp0;
             rng = (case sh of
                      Some sh \<Rightarrow>
                        Some (shifted ex (lc_line (sp_start sp)) (lc_column (sp_start sp) - 1) sh,
                              shifted ex (lc_line (sp_end sp)) (lc_column (sp_end sp)) sh)
                    | None \<Rightarrow> sourcepos_range sp (ex_li ex) (length (ex_src ex)))
         in case rng of
              None \<Rightarrow> (None, ex)
            | Some (s0, e0) \<Rightarrow>
                (case pipe_shift s0 cell ex of
                   (s, ex1) \<Rightarrow>
                     (case pipe_shift e0 cell ex1 of
                        (e', ex2) \<Rightarrow>
                          (let e = max e' s
                           in (Some (snap (ex_src ex) (nat (int s + ex_run_delta ex)) (nat (int e + ex_run_delta ex))), ex2))))))"

text \<open>The range of a node's children, \<open>(0, 0)\<close> without any.\<close>

fun children_range :: "ast list \<Rightarrow> cell option \<Rightarrow> shift option \<Rightarrow> nat option \<times> nat option \<Rightarrow> extractor \<Rightarrow> (nat option \<times> nat option) \<times> extractor" where
  "children_range [] cell sh acc ex = (acc, ex)"
| "children_range (ch # chs) cell sh acc ex =
     (case corrected_range (node_pos ch) cell sh ex of
        (Some (cs, ce), ex1) \<Rightarrow>
          children_range chs cell sh (case fst acc of None \<Rightarrow> Some cs | Some f \<Rightarrow> Some f, Some ce) ex1
      | (None, ex1) \<Rightarrow> children_range chs cell sh acc ex1)"

definition children_span :: "ast \<Rightarrow> cell option \<Rightarrow> shift option \<Rightarrow> extractor \<Rightarrow> (nat \<times> nat) \<times> extractor" where
  "children_span node cell sh ex =
     (case children_range (node_children node) cell sh (None, None) ex of
        ((Some a, Some b), ex1) \<Rightarrow> ((a, max b a), ex1)
      | (_, ex1) \<Rightarrow> ((0, 0), ex1))"

subsection \<open>Searching for a misplaced literal\<close>

definition leaf_has_bare_cr :: "u32 \<Rightarrow> extractor \<Rightarrow> bool \<times> extractor" where
  "leaf_has_bare_cr blk ex =
     (case ex_bare_cr_leaf ex of
        Some v \<Rightarrow> (v, ex)
      | None \<Rightarrow>
          (let b = ex_blocks ex ! to_usize blk; v = has_bare_cr (ex_src ex) (blk_s b) (blk_e b)
           in (v, ex\<lparr>ex_bare_cr_leaf := Some v\<rparr>)))"

text \<open>Where a search for an inline's literal begins.\<close>

definition search_from :: "extractor \<Rightarrow> nat \<Rightarrow> nat \<Rightarrow> nat" where
  "search_from ex s sibling_end = min (max (max (ex_last_text_end ex) sibling_end) (s - 4)) (length (ex_src ex))"

definition find_literal :: "extractor \<Rightarrow> bytes \<Rightarrow> nat \<Rightarrow> nat \<Rightarrow> nat \<Rightarrow> u32 \<Rightarrow> nat option" where
  "find_literal ex literal s e sibling_end blk =
     (let src = ex_src ex; block_end = blk_e (ex_blocks ex ! to_usize blk);
          lo = floor_boundary src (search_from ex s sibling_end);
          reach = lo + 8 + (e - s) + length literal;
          hi = ceil_boundary src (min (min (max block_end lo) reach) (length src))
      in case find_sub (seg src lo hi) literal of
           Some off \<Rightarrow> if off \<le> 8 + (e - s) then Some (lo + off) else None
         | None \<Rightarrow> None)"

definition MAX_WALKS :: nat where "MAX_WALKS = 256"

text \<open>The windows from one start: found, the walks spent, or the walks so far.\<close>

datatype window_search = Found nat nat | Spent | Walked nat

fun search_ends :: "(bytes \<Rightarrow> bytes) \<Rightarrow> bytes \<Rightarrow> bytes \<Rightarrow> bool \<Rightarrow> entity_cover \<Rightarrow> nat \<Rightarrow> nat list option \<Rightarrow> nat list \<Rightarrow> nat \<Rightarrow> window_search" where
  "search_ends dec src t pipes cover q readable [] walks = Walked walks"
| "search_ends dec src t pipes cover q readable (r # rs) walks =
     (if cover_cuts cover src q r then search_ends dec src t pipes cover q readable rs walks
      else if walks = MAX_WALKS then Spent
      else if (case readable of None \<Rightarrow> True | Some ends \<Rightarrow> r \<in> set ends) \<and> explains dec (seg src q r) t pipes
      then Found q r
      else search_ends dec src t pipes cover q readable rs (walks + 1))"

definition could_begin :: "bytes \<Rightarrow> byte \<Rightarrow> nat \<Rightarrow> bool" where
  "could_begin src first q =
     (first = CHR '' '' \<or>
      (case byte_at src q of Some b \<Rightarrow> b = first \<or> b = CHR ''&'' \<or> b = BACKSLASH \<or> b = CR | None \<Rightarrow> False))"

fun search_starts :: "(bytes \<Rightarrow> bytes) \<Rightarrow> bytes \<Rightarrow> bytes \<Rightarrow> bool \<Rightarrow> entity_cover \<Rightarrow> nat list \<Rightarrow> nat \<Rightarrow> nat list \<Rightarrow> nat \<Rightarrow> (nat \<times> nat) option" where
  "search_starts dec src t pipes cover ends to [] walks = None"
| "search_starts dec src t pipes cover ends to (q # qs) walks =
     (if \<not> is_char_boundary src q \<or> \<not> could_begin src (t ! 0) q then search_starts dec src t pipes cover ends to qs walks
      else
        (let longest = min (length t * 12 + 8) (to - q);
             rs = takeWhile (\<lambda>r. r \<le> q + longest) (dropWhile (\<lambda>r. r \<le> q) ends)
         in case search_ends dec src t pipes cover q (read_ends dec src q (q + longest) t) rs walks of
              Found q' r \<Rightarrow> Some (q', r)
            | Spent \<Rightarrow> None
            | Walked walks' \<Rightarrow> search_starts dec src t pipes cover ends to qs walks'))"

definition find_explained :: "(bytes \<Rightarrow> bytes) \<Rightarrow> extractor \<Rightarrow> bytes \<Rightarrow> nat \<Rightarrow> nat \<Rightarrow> nat \<Rightarrow> u32 \<Rightarrow> bool \<Rightarrow> (nat \<times> nat) option" where
  "find_explained dec ex t s e sibling_end blk pipes =
     (if t = [] \<or> 64 < length t then None
      else
        (let src = ex_src ex; block_end = blk_e (ex_blocks ex ! to_usize blk);
             lo = search_from ex s sibling_end; hi = min (max block_end lo) (length src);
             last_start = min (lo + 8 + (e - s)) hi;
             reach = min (last_start + length t * 12 + 8) hi;
             ends = filter (\<lambda>r. (src ! (r - 1) = last t \<or> src ! (r - 1) = CHR '';'' \<or> src ! (r - 1) = CR) \<and> is_char_boundary src r)
                      [lo + 1..<reach + 1]
         in search_starts dec src t pipes (entity_cover_new src lo reach) ends hi [lo..<last_start + 1] 0))"

subsection \<open>Delimiters\<close>

definition delimited :: "bytes \<Rightarrow> u32 \<Rightarrow> nat \<Rightarrow> nat \<Rightarrow> bool" where
  "delimited bs kind s e =
     (if length bs < e \<or> e \<le> s then False
      else if kind = RK_EMPH then s + 1 < e \<and> (bs ! s = CHR ''*'' \<or> bs ! s = CHR ''_'') \<and> bs ! (e - 1) = bs ! s
      else if kind = RK_STRONG then
        s + 4 \<le> e \<and> (bs ! s = CHR ''*'' \<or> bs ! s = CHR ''_'') \<and> bs ! (s + 1) = bs ! s \<and> bs ! (e - 1) = bs ! s \<and> bs ! (e - 2) = bs ! s
      else if kind = RK_STRIKE then
        (let n = (if s + 4 \<le> e \<and> bs ! s = CHR 0x7E \<and> bs ! (s + 1) = CHR 0x7E then 2 else 1)
         in s + 2 * n \<le> e \<and> bs ! s = CHR 0x7E \<and> bs ! (e - 1) = CHR 0x7E)
      else True)"

text \<open>The span of each run's children; \<open>(USIZE_MAX, 0)\<close> for a run without any.\<close>

definition child_span_step :: "nat \<Rightarrow> run_rec \<Rightarrow> (nat \<times> nat) list \<Rightarrow> (nat \<times> nat) list" where
  "child_span_step first_run r spans =
     (if ru_parent r = U32_MAX \<or> run_p r < first_run then spans
      else
        (let k = run_p r - first_run
         in spans[k := (min (fst (spans ! k)) (run_s r), max (snd (spans ! k)) (run_e r))]))"

definition child_spans :: "run_rec list \<Rightarrow> nat \<Rightarrow> (nat \<times> nat) list" where
  "child_spans runs first_run =
     fold (child_span_step first_run) (drop first_run runs) (replicate (length runs - first_run) (USIZE_MAX, 0))"

definition set_range :: "line_index \<Rightarrow> nat \<Rightarrow> nat \<Rightarrow> nat \<Rightarrow> nat \<Rightarrow> run_rec \<Rightarrow> run_rec" where
  "set_range li s e cs ce r =
     r\<lparr>ru_start_byte := to_u32 s, ru_end_byte := to_u32 e, ru_content_start_byte := to_u32 cs, ru_content_end_byte := to_u32 ce,
       ru_start_utf16 := u16 li s, ru_end_utf16 := u16 li e, ru_content_start_utf16 := u16 li cs, ru_content_end_utf16 := u16 li ce\<rparr>"

definition set_content :: "line_index \<Rightarrow> nat \<Rightarrow> nat \<Rightarrow> run_rec \<Rightarrow> run_rec" where
  "set_content li cs ce r =
     r\<lparr>ru_content_start_byte := to_u32 cs, ru_content_end_byte := to_u32 ce,
       ru_content_start_utf16 := u16 li cs, ru_content_end_utf16 := u16 li ce\<rparr>"

definition upd_run :: "nat \<Rightarrow> (run_rec \<Rightarrow> run_rec) \<Rightarrow> extractor \<Rightarrow> extractor" where
  "upd_run i f ex = ex\<lparr>ex_runs := (ex_runs ex)[i := f (ex_runs ex ! i)]\<rparr>"

definition escape_ok :: "bytes \<Rightarrow> nat \<times> nat \<Rightarrow> nat \<Rightarrow> nat \<Rightarrow> bool" where
  "escape_ok bs span a z =
     (byte_at bs a = Some BACKSLASH \<and> z = a + 2 \<and> (fst span = USIZE_MAX \<or> span = (a + 1, z)))"

definition check_escape :: "nat \<Rightarrow> nat \<times> nat \<Rightarrow> extractor \<Rightarrow> extractor" where
  "check_escape i span ex =
     (let r = ex_runs ex ! i; cs = fst span; ce = snd span
      in if escape_ok (ex_src ex) span (run_s r) (run_e r) then ex
         else if cs \<noteq> USIZE_MAX \<and> 1 \<le> cs \<and> escape_ok (ex_src ex) span (cs - 1) ce
         then upd_run i (set_range (ex_li ex) (cs - 1) ce cs ce) ex
         else dev ''escape-delims'' ex)"

definition check_footnote_ref :: "nat \<Rightarrow> extractor \<Rightarrow> extractor" where
  "check_footnote_ref i ex =
     (let s = run_s (ex_runs ex ! i); e = run_e (ex_runs ex ! i)
      in if starts_with (drop s (ex_src ex)) ''[^'' \<and> s + 3 < e \<and> byte_at (ex_src ex) (e - 1) = Some (CHR '']'') then ex
         else dev ''footnote-ref-delims'' ex)"

definition link_framed :: "bytes \<Rightarrow> u32 \<Rightarrow> nat \<Rightarrow> nat \<Rightarrow> bool" where
  "link_framed bs kind s e =
     (starts_with (drop s bs) (if kind = RK_IMAGE then ''!['' else ''['') \<and>
      0 < e \<and> (byte_at bs (e - 1) = Some (CHR '')'') \<or> byte_at bs (e - 1) = Some (CHR '']'')))"

text \<open>A framed link whose text does not end at its bracket takes its text from its children.\<close>

definition refit_link_text :: "nat \<Rightarrow> nat \<times> nat \<Rightarrow> extractor \<Rightarrow> extractor" where
  "refit_link_text i span ex =
     (let r = ex_runs ex ! i; bs = ex_src ex; opener = (if ru_kind r = RK_IMAGE then 2 else 1)
      in if link_framed bs (ru_kind r) (run_s r) (run_e r) \<and> byte_at bs (run_ce r) \<noteq> Some (CHR '']'') \<and>
            fst span \<noteq> USIZE_MAX \<and> run_s r + opener \<le> fst span \<and> byte_at bs (snd span) = Some (CHR '']'')
         then upd_run i (set_content (ex_li ex) (fst span) (snd span)) ex else ex)"

definition check_link :: "nat \<Rightarrow> nat \<times> nat \<Rightarrow> extractor \<Rightarrow> extractor" where
  "check_link i span ex =
     (let r = ex_runs ex ! i; kind = ru_kind r
      in if kind = RK_AUTOLINK then (if fst span \<noteq> USIZE_MAX then ex else dev ''link-delims'' ex)
         else
           (let ex1 = refit_link_text i span ex
            in if link_framed (ex_src ex) kind (run_s r) (run_e r) \<and>
                  byte_at (ex_src ex) (run_ce (ex_runs ex1 ! i)) = Some (CHR '']'')
               then ex1
               else dev (if kind = RK_IMAGE then ''image-delims'' else ''link-delims'') ex1))"

text \<open>How many delimiter bytes a container of this kind has around its children.\<close>

definition delimiter_width :: "bytes \<Rightarrow> u32 \<Rightarrow> nat \<times> nat \<Rightarrow> nat" where
  "delimiter_width bs kind span =
     (if kind = RK_EMPH then 1
      else if kind = RK_STRONG then 2
      else if fst span \<noteq> USIZE_MAX \<and> 2 \<le> fst span \<and> bs ! (fst span - 2) = CHR 0x7E \<and> byte_at bs (snd span + 1) = Some (CHR 0x7E)
      then 2 else 1)"

definition check_emphasis :: "nat \<Rightarrow> nat \<times> nat \<Rightarrow> extractor \<Rightarrow> extractor" where
  "check_emphasis i span ex =
     (let r = ex_runs ex ! i; kind = ru_kind r; bs = ex_src ex; cs = fst span; ce = snd span; n = delimiter_width bs kind span
      in if delimited bs kind (run_s r) (run_e r) then ex
         else if cs \<noteq> USIZE_MAX \<and> n \<le> cs \<and> delimited bs kind (cs - n) (ce + n)
         then upd_run i (set_range (ex_li ex) (cs - n) (ce + n) cs ce) ex
         else dev (if kind = RK_EMPH then ''emph-delims'' else if kind = RK_STRONG then ''strong-delims'' else ''strike-delims'') ex)"

definition check_delimiter :: "nat \<Rightarrow> (nat \<times> nat) list \<Rightarrow> nat \<Rightarrow> extractor \<Rightarrow> extractor" where
  "check_delimiter first_run spans i ex =
     (let kind = ru_kind (ex_runs ex ! i); span = spans ! (i - first_run)
      in if kind = RK_ESCAPE then check_escape i span ex
         else if kind = RK_FOOTNOTE_REF then check_footnote_ref i ex
         else if kind = RK_LINK \<or> kind = RK_IMAGE \<or> kind = RK_AUTOLINK then check_link i span ex
         else if kind = RK_EMPH \<or> kind = RK_STRONG \<or> kind = RK_STRIKE then check_emphasis i span ex
         else ex)"

definition check_delimiters :: "nat \<Rightarrow> extractor \<Rightarrow> extractor" where
  "check_delimiters first_run ex =
     fold (check_delimiter first_run (child_spans (ex_runs ex) first_run)) [first_run..<length (ex_runs ex)] ex"

subsection \<open>The fixed point of a pipe shift\<close>

text \<open>The backslashes removed between \<open>lo\<close> and \<open>hi\<close>, counted directly from the cell's start.\<close>

definition escapes_before :: "bytes \<Rightarrow> nat \<Rightarrow> nat \<Rightarrow> nat \<Rightarrow> nat" where
  "escapes_before src origin lo hi =
     removed_from False (seg src origin (max (min hi (length src)) lo)) - removed_from False (seg src origin lo)"

lemma escapes_before_mono: "origin \<le> lo \<Longrightarrow> hi \<le> hi' \<Longrightarrow> escapes_before src origin lo hi \<le> escapes_before src origin lo hi'"
proof -
  assume o: "origin \<le> lo" and le: "hi \<le> hi'"
  let ?a = "max (min hi (length src)) lo" and ?b = "max (min hi' (length src)) lo"
  have "seg src origin ?b = seg src origin ?a @ seg src ?a ?b" using o le by (intro seg_append [symmetric]) auto
  then have "removed_from False (seg src origin ?a) \<le> removed_from False (seg src origin ?b)" by (simp add: removed_append)
  then show ?thesis by (simp add: escapes_before_def diff_le_mono)
qed

lemma pipe_loop_fixed:
  assumes "pipe_memo src pc \<or> pc = pipe_counts_default" "length src < 4294967296" "origin \<le> lo" "lo \<le> length src"
    and "b = byte + k0" "k0 \<le> escapes_before src origin lo (b + 1)"
    and "\<And>b'. b' = byte + escapes_before src origin lo (b' + 1) \<Longrightarrow> b \<le> b'"
    and "pipe_loop src origin lo byte b k0 pc = (r, pc')"
  shows "r = byte + escapes_before src origin lo (r + 1) \<and> pipe_memo src pc' \<and>
         (\<forall>b'. b' = byte + escapes_before src origin lo (b' + 1) \<longrightarrow> r \<le> b')"
  using assms
proof (induction src origin lo byte b k0 pc arbitrary: r pc' rule: pipe_loop.induct)
  case (1 src origin lo byte b k0 pc)
  note unf = pipe_loop.simps [of src origin lo byte b k0 pc]
  have "length src < 2 ^ 32" using "1.prems"(2) by simp
  from pipes_removed_count [OF "1.prems"(1) this "1.prems"(3,4), of "b + 1"]
  obtain k pc1 where k: "pipes_removed pc src origin lo (b + 1) = (k, pc1)" "k = escapes_before src origin lo (b + 1)" "pipe_memo src pc1"
    by (cases "pipes_removed pc src origin lo (b + 1)") (auto simp: escapes_before_def)
  show ?case
  proof (cases "k0 < k")
    case True
    have "k \<le> escapes_before src origin lo (byte + k + 1)"
      unfolding k(2) using True k(2) "1.prems"(5) by (intro escapes_before_mono "1.prems"(3)) simp
    moreover have "byte + k \<le> b'" if fp: "b' = byte + escapes_before src origin lo (b' + 1)" for b'
    proof -
      have "escapes_before src origin lo (b + 1) \<le> escapes_before src origin lo (b' + 1)"
        using "1.prems"(7) [OF fp] by (intro escapes_before_mono "1.prems"(3)) simp
      then show ?thesis unfolding k(2) using fp by linarith
    qed
    moreover have "pipe_loop src origin lo byte (byte + k) k pc1 = (r, pc')" using "1.prems"(8) True k(1) by (simp add: unf)
    ultimately show ?thesis
      using "1.IH" [OF k(1) [symmetric] True _ "1.prems"(2-4) refl] k(3) by blast
  next
    case False
    have "pipe_loop src origin lo byte b k0 pc = (b, pc1)" using False k(1) by (simp add: unf)
    moreover have "k = k0" using False "1.prems"(6) k(2) by simp
    ultimately have "r = b" "pc' = pc1" "k = k0" using "1.prems"(8) by simp_all
    then show ?thesis using "1.prems"(5,7) k(2,3) by auto
  qed
qed

text \<open>
  C28: Moving a byte past the backslashes of escaped pipes ends at the least position that is
  the byte plus the escapes removed up to it on its line of the cell, whatever the memo was
  asked before; a round that leaves the count unchanged is the only way out of the loop.
\<close>

theorem pipe_shift_fixed_point:
  assumes "pipe_memo (ex_src ex) (ex_pipes ex) \<or> ex_pipes ex = pipe_counts_default" "length (ex_src ex) < 4294967296"
    and lo: "lo = max (cl_start c) (line_start (ex_li ex) (line_of (ex_li ex) (min byte (length (ex_src ex)))))" "lo \<le> length (ex_src ex)"
    and r: "pipe_shift byte (Some c) ex = (b, ex')"
  shows "b = byte + escapes_before (ex_src ex) (cl_start c) lo (b + 1) \<and>
         (\<forall>b'. b' = byte + escapes_before (ex_src ex) (cl_start c) lo (b' + 1) \<longrightarrow> b \<le> b') \<and>
         pipe_memo (ex_src ex') (ex_pipes ex')"
proof -
  obtain pc where l: "pipe_loop (ex_src ex) (cl_start c) lo byte byte 0 (ex_pipes ex) = (b, pc)" "ex' = ex\<lparr>ex_pipes := pc\<rparr>"
    using r by (auto simp: pipe_shift_def Let_def lo(1) split: prod.splits)
  have "cl_start c \<le> lo" using lo(1) by simp
  from pipe_loop_fixed [OF assms(1,2) this lo(2) _ _ _ l(1)] show ?thesis using l(2) by simp
qed

text \<open>Two escaped pipes before the text of a cell: the byte comrak reports at 3 is the source byte 5.\<close>

theorem pipe_shift_fixed_point_witness:
  "fst (pipe_shift 3 (Some \<lparr>cl_start = 0, cl_column_delta = 0\<rparr>)
     (extractor_new [BACKSLASH, CHR ''|'', BACKSLASH, CHR ''|'', CHR ''x'', CHR ''y''] True)) = 5"
proof -
  let ?src = "[BACKSLASH, CHR ''|'', BACKSLASH, CHR ''|'', CHR ''x'', CHR ''y'']"
  let ?ex = "extractor_new ?src True"
  have li: "line_index_new ?src = \<lparr>line_starts = [0], line_ends = [6], utf16 = [0, 1, 2, 3, 4, 5, 6]\<rparr>" by code_simp
  have lo: "line_start (ex_li ?ex) (line_of (ex_li ?ex) 3) = 0" unfolding extractor_new_def li by code_simp
  obtain b ex' where r: "pipe_shift 3 (Some \<lparr>cl_start = 0, cl_column_delta = 0\<rparr>) ?ex = (b, ex')" by force
  have "ex_src ?ex = ?src" "ex_pipes ?ex = pipe_counts_default" by (simp_all add: extractor_new_def)
  then have f: "b = 3 + escapes_before ?src 0 0 (b + 1)" "b' = 3 + escapes_before ?src 0 0 (b' + 1) \<Longrightarrow> b \<le> b'" for b'
    using pipe_shift_fixed_point [OF _ _ _ _ r, of 0] lo by (simp_all add: min_def)
  have five: "escapes_before ?src 0 0 6 = 2" "escapes_before ?src 0 0 5 = 2" "escapes_before ?src 0 0 4 = 2" by code_simp+
  have "b \<le> 5" using f(2) [of 5] five by simp
  moreover have "3 \<le> b" using f(1) by simp
  ultimately have "b = 3 \<or> b = 4 \<or> b = 5" by linarith
  then have "b = 5" using f(1) five by auto
  then show ?thesis using r by simp
qed

end
