(* ===== verification/Flark_Inlines.thy ===== *)
theory Flark_Inlines
  imports Flark_Place
begin

text \<open>
  The inline records of \<^verbatim>\<open>native/flark_parse/src/model.rs\<close>: one run per inline node, by its kind
  (\<open>inline_record\<close> and one definition per arm of its match), the walk over a leaf's inlines
  (\<open>walk_inlines\<close>) and the repairs after it (\<open>refit_containers\<close>). \<open>dec\<close> is the decoding of an
  entity reference. What the walk emits and what it leaves alone is shown in \<open>Flark_Walk\<close>.
\<close>

unbundle bit_operations_syntax

subsection \<open>Links\<close>

text \<open>Destination and title ranges after a link's closing bracket, or its label.\<close>

definition link_title_aux :: "bytes \<Rightarrow> nat \<Rightarrow> nat \<Rightarrow> run_rec \<Rightarrow> run_rec" where
  "link_title_aux bs p e r =
     (if p < e then
        (case scan_link_title (seg bs p e) of
           None \<Rightarrow> r
         | Some n \<Rightarrow>
             if 2 \<le> n then r\<lparr>ru_aux2 := to_u32 (p + 1), ru_aux3 := to_u32 (p + n - 1), ru_flags := ru_flags r OR 2\<rparr> else r)
      else r)"

definition link_aux :: "bytes \<Rightarrow> nat \<Rightarrow> nat \<Rightarrow> run_rec \<Rightarrow> run_rec" where
  "link_aux bs ce e r =
     (let p = (if ce < e \<and> bs ! ce = CHR '']'' then ce + 1 else ce)
      in if p < e \<and> bs ! p = CHR ''('' then
           (let p1 = scan_fwd spacechar bs (p + 1) e
            in case scan_link_url (seg bs p1 e) of
                 Some (ds, de, took) \<Rightarrow>
                   link_title_aux bs (scan_fwd spacechar bs (p1 + took) e) e
                     (r\<lparr>ru_aux0 := to_u32 (p1 + ds), ru_aux1 := to_u32 (p1 + de)\<rparr>)
               | None \<Rightarrow> link_title_aux bs (scan_fwd spacechar bs p1 e) e r)
         else
           (let r1 = r\<lparr>ru_flags := ru_flags r OR 1\<rparr>
            in if p < e \<and> bs ! p = CHR ''['' then
                 r1\<lparr>ru_aux0 := to_u32 (p + 1), ru_aux1 := to_u32 (scan_fwd (\<lambda>b. b \<noteq> CHR '']'') bs (p + 1) e)\<rparr>
               else r1))"

text \<open>The leaf's text, buffered once for the leaf.\<close>

definition load_leaf_text :: "u32 \<Rightarrow> extractor \<Rightarrow> extractor" where
  "load_leaf_text blk ex =
     (let lo = to_usize (bl_content_offset (ex_blocks ex ! to_usize blk))
      in if lt_key (ex_leaf_text ex) \<noteq> (lo, length (ex_content ex))
         then ex\<lparr>ex_leaf_text := leaf_text_new (ex_src ex) (ex_content ex) lo\<rparr> else ex)"

text \<open>Where the leaf's text holds the source byte \<open>ce\<close>.\<close>

definition leaf_text_base :: "extractor \<Rightarrow> nat \<Rightarrow> nat \<Rightarrow> nat" where
  "leaf_text_base ex lo ce =
     (let records = drop lo (ex_content ex); k = partition_point (\<lambda>r. to_usize (co_end_byte r) < ce) records
      in case get_item records k of
           None \<Rightarrow> length (lt_bytes (ex_leaf_text ex))
         | Some r \<Rightarrow> lt_line_starts (ex_leaf_text ex) ! k + (ce - to_usize (co_start_byte r)))"

definition skip_spacechars :: "bytes \<Rightarrow> nat \<Rightarrow> nat" where
  "skip_spacechars bs p = scan_fwd spacechar bs p (length bs)"

text \<open>A title before the closing parenthesis, with its range in the source.\<close>

definition repair_title :: "bytes \<Rightarrow> nat list \<Rightarrow> nat \<Rightarrow> ((nat \<times> nat) option \<times> nat) option" where
  "repair_title bs offsets p =
     (if byte_at bs p = Some (CHR '')'') then Some (None, p)
      else do {
        rest \<leftarrow> get_range bs p (length bs);
        n \<leftarrow> scan_link_title rest;
        a \<leftarrow> get_item offsets (p + 1);
        b \<leftarrow> get_item offsets (p + n - 1);
        Some (Some (a, b), skip_spacechars bs (p + n))
      })"

definition repair_inline_link :: "run_rec \<Rightarrow> nat \<Rightarrow> u32 \<Rightarrow> extractor \<Rightarrow> (nat option \<times> run_rec) \<times> extractor" where
  "repair_inline_link r ce blk ex0 =
     (if get_range (ex_src ex0) ce (ce + 2) \<noteq> Some ''](''  then ((None, r), ex0)
      else
        (let ex = load_leaf_text blk ex0;
             lo = to_usize (bl_content_offset (ex_blocks ex ! to_usize blk));
             base = leaf_text_base ex lo ce;
             bs = drop base (lt_bytes (ex_leaf_text ex)); offsets = drop base (lt_offsets (ex_leaf_text ex));
             p = skip_spacechars bs 2;
             found = do {
               rest \<leftarrow> get_range bs p (length bs);
               (ds, de, took) \<leftarrow> scan_link_url rest;
               d0 \<leftarrow> get_item offsets (p + ds);
               d1 \<leftarrow> get_item offsets (p + de);
               (title, p2) \<leftarrow> repair_title bs offsets (skip_spacechars bs (p + took));
               if byte_at bs p2 = Some (CHR '')'') then Some (d0, d1, title, p2) else None
             }
         in case found of
              None \<Rightarrow> ((None, r), ex)
            | Some (d0, d1, title, p2) \<Rightarrow>
                (let r1 = r\<lparr>ru_aux0 := to_u32 d0, ru_aux1 := to_u32 d1, ru_flags := ru_flags r AND NOT 3\<rparr>;
                     r2 = (case title of
                             None \<Rightarrow> r1
                           | Some (a, b) \<Rightarrow> r1\<lparr>ru_aux2 := to_u32 a, ru_aux3 := to_u32 b, ru_flags := ru_flags r1 OR 2\<rparr>)
                 in ((Some (offsets ! p2 + 1), r2), ex))))"

definition resolved_resource :: "node_link \<Rightarrow> run_rec \<Rightarrow> extractor \<Rightarrow> run_rec \<times> extractor" where
  "resolved_resource link r ex =
     (case push_string (lk_url link) ex of
        ((o1, l1), ex1) \<Rightarrow>
          (case push_string (lk_title link) ex1 of
             ((o2, l2), ex2) \<Rightarrow>
               (r\<lparr>ru_destination_offset := o1, ru_destination_length := l1, ru_title_offset := o2, ru_title_length := l2\<rparr>, ex2)))"

subsection \<open>Refitting containers\<close>

text \<open>The end of a parenthesised destination, from its opening parenthesis.\<close>

function paren_end :: "bytes \<Rightarrow> nat \<Rightarrow> nat \<Rightarrow> nat" where
  "paren_end bs p depth =
     (if p < length bs then
        (if bs ! p = BACKSLASH then paren_end bs (p + 2) depth
         else if bs ! p = CHR ''('' then paren_end bs (p + 1) (depth + 1)
         else if bs ! p = CHR '')'' then (if depth = 1 then p + 1 else paren_end bs (p + 1) (depth - 1))
         else paren_end bs (p + 1) depth)
      else p)"
  by pat_completeness auto
termination
  by (relation "measure (\<lambda>(bs, p, depth). length bs - p)") auto

declare paren_end.simps [simp del]

definition bracket_end :: "bytes \<Rightarrow> nat \<Rightarrow> nat" where
  "bracket_end bs p =
     (if byte_at bs p = Some (CHR ''('') then paren_end bs p 0
      else if byte_at bs p = Some (CHR ''['') then
        (let q = scan_fwd (\<lambda>b. b \<noteq> CHR '']'') bs p (length bs) in if q < length bs then q + 1 else q)
      else p)"

text \<open>The range a container's children give it, when its kind has one.\<close>

definition refitted :: "bytes \<Rightarrow> u32 \<Rightarrow> nat \<times> nat \<Rightarrow> (nat \<times> nat) option" where
  "refitted bs kind span =
     (let cs = fst span; ce = snd span
      in if kind = RK_EMPH \<or> kind = RK_STRONG \<or> kind = RK_STRIKE then
           (let n = delimiter_width bs kind span
            in if cs < n \<or> length bs < ce + n then None else Some (cs - n, ce + n))
         else if kind = RK_LINK \<or> kind = RK_IMAGE then
           (let opener = (if kind = RK_IMAGE then 2 else 1)
            in if cs < opener then None
               else if byte_at bs ce = Some (CHR '']'') then Some (cs - opener, min (bracket_end bs (ce + 1)) (length bs))
               else None)
         else if kind = RK_ESCAPE then (if cs < 1 then None else Some (cs - 1, ce))
         else None)"

definition clear_link :: "run_rec \<Rightarrow> run_rec" where
  "clear_link r = r\<lparr>ru_aux0 := 0, ru_aux1 := 0, ru_aux2 := 0, ru_aux3 := 0, ru_flags := ru_flags r AND NOT 3\<rparr>"

definition refit_container :: "nat \<Rightarrow> (nat \<times> nat) list \<Rightarrow> nat \<Rightarrow> extractor \<Rightarrow> extractor" where
  "refit_container first_run spans i ex =
     (let r = ex_runs ex ! i; kind = ru_kind r; bs = ex_src ex; span = spans ! (i - first_run); is_link = (kind = RK_LINK \<or> kind = RK_IMAGE)
      in if fst span = USIZE_MAX then ex
         else if run_s r \<le> fst span \<and> snd span \<le> run_e r \<and>
                 (\<not> is_link \<or> byte_at bs (run_s r) = Some (CHR ''['') \<or> byte_at bs (run_s r) = Some (CHR ''!'')) then ex
         else
           (case refitted bs kind span of
              None \<Rightarrow> ex
            | Some (ns, ne) \<Rightarrow>
                upd_run i
                  (\<lambda>r. (let r1 = set_range (ex_li ex) ns ne (fst span) (snd span) r
                        in if is_link then link_aux bs (snd span) ne (clear_link r1) else r1)) ex))"

definition refit_containers :: "nat \<Rightarrow> extractor \<Rightarrow> extractor" where
  "refit_containers first_run ex =
     fold (refit_container first_run (child_spans (ex_runs ex) first_run)) [first_run..<length (ex_runs ex)] ex"

subsection \<open>Text\<close>

text \<open>What a node's arm decides: its kind, range and content, the words of its record, and the state.\<close>

record arm =
  ar_kind :: u32
  ar_range :: "nat \<times> nat"
  ar_content :: "nat \<times> nat"
  ar_rec :: run_rec

text \<open>\<^verbatim>\<open>self.run_delta += q as isize - s as isize\<close>.\<close>

definition moved_by :: "nat \<Rightarrow> nat \<Rightarrow> extractor \<Rightarrow> extractor" where
  "moved_by q s ex = ex\<lparr>ex_run_delta := ex_run_delta ex + (int q - int s)\<rparr>"

definition trim_start_spaces :: "bytes \<Rightarrow> bytes" where
  "trim_start_spaces t = dropWhile (\<lambda>b. b = CHR '' '') t"

fun unescaped_pipes :: "bytes \<Rightarrow> bytes" where
  "unescaped_pipes [] = []"
| "unescaped_pipes [b] = [b]"
| "unescaped_pipes (a # b # bs) =
     (if a = BACKSLASH \<and> b = CHR ''|'' then CHR ''|'' # unescaped_pipes bs else a # unescaped_pipes (b # bs))"

text \<open>A literal match that cuts no reference, unless the reference decodes to the literal.\<close>

definition matches_text :: "(bytes \<Rightarrow> bytes) \<Rightarrow> bytes \<Rightarrow> bytes \<Rightarrow> nat \<Rightarrow> bool" where
  "matches_text dec src t q =
     (\<not> cuts_entity src q (q + length t) \<or>
      (case entity_len (drop q src) of Some l \<Rightarrow> dec (seg src q (q + l)) = t | None \<Rightarrow> False))"

definition find_text :: "(bytes \<Rightarrow> bytes) \<Rightarrow> extractor \<Rightarrow> bytes \<Rightarrow> nat \<Rightarrow> nat \<Rightarrow> nat \<Rightarrow> u32 \<Rightarrow> nat option" where
  "find_text dec ex t s e sibling_end blk =
     (let src = ex_src ex; block_end = blk_e (ex_blocks ex ! to_usize blk);
          lo = floor_boundary src (search_from ex s sibling_end);
          hi = ceil_boundary src (min (min (max block_end lo) (length src)) (lo + 8 + (e - s) + length t))
      in case find (\<lambda>off. matches_text dec src t (lo + off)) (match_indices (seg src lo hi) t) of
           Some off \<Rightarrow> if off \<le> 8 + (e - s) then Some (lo + off) else None
         | None \<Rightarrow> None)"

definition text_drifted :: "(bytes \<Rightarrow> bytes) \<Rightarrow> bytes \<Rightarrow> bytes \<Rightarrow> bool \<Rightarrow> bool" where
  "text_drifted dec sl t pipes =
     (let replacement_like = CHR ''&'' \<in> set sl \<or> TAB \<in> set sl \<or> contains_sub sl [BACKSLASH, CHR ''|''] \<or>
            (length sl < length t \<and> trim_start_spaces t = sl)
      in \<not> replacement_like \<or> \<not> explains dec sl t pipes)"

definition relocate_text ::
    "(bytes \<Rightarrow> bytes) \<Rightarrow> bytes \<Rightarrow> u32 \<Rightarrow> bool \<Rightarrow> nat \<Rightarrow> nat \<Rightarrow> nat \<Rightarrow> extractor \<Rightarrow> (nat \<times> nat) \<times> extractor" where
  "relocate_text dec t blk pipes sibling_end s e ex =
     (let sl = seg (ex_src ex) s e
      in if (t \<noteq> sl \<or> s < sibling_end) \<and> t \<noteq> [] \<and> t \<noteq> [LF] \<and> text_drifted dec sl t pipes then
           (case find_text dec ex t s e sibling_end blk of
              Some q \<Rightarrow> ((q, q + length t), moved_by q s ex)
            | None \<Rightarrow>
                (case find_explained dec ex t s e sibling_end blk pipes of
                   Some (q, r) \<Rightarrow> ((q, r), moved_by q s ex)
                 | None \<Rightarrow> ((s, e), ex)))
         else ((s, e), ex))"

text \<open>A range over the first bytes of a reference that decodes to the literal takes the whole reference.\<close>

definition widen_to_entity :: "(bytes \<Rightarrow> bytes) \<Rightarrow> extractor \<Rightarrow> bytes \<Rightarrow> u32 \<Rightarrow> bool \<Rightarrow> nat \<Rightarrow> nat \<Rightarrow> nat \<times> nat" where
  "widen_to_entity dec ex t parent pipes s e =
     (let src = ex_src ex;
          escaped = (0 < s \<and> src ! (s - 1) = BACKSLASH) \<or>
                    (parent \<noteq> U32_MAX \<and> ru_kind (ex_runs ex ! to_usize parent) = RK_ESCAPE)
      in if t = seg src s e \<and> \<not> escaped then
           (case entity_len (drop s src) of
              Some l \<Rightarrow> if e < s + l \<and> explains dec (seg src s (s + l)) t pipes then (s, s + l) else (s, e)
            | None \<Rightarrow> (s, e))
         else (s, e))"

definition push_piece :: "u32 \<Rightarrow> u32 \<Rightarrow> nat \<Rightarrow> nat \<Rightarrow> bytes option \<Rightarrow> extractor \<Rightarrow> extractor" where
  "push_piece blk parent s e display ex =
     (let rec0 = zero_run\<lparr>ru_block := blk, ru_parent := parent\<rparr>;
          (rec1, ex1) = (case display of
             None \<Rightarrow> (rec0\<lparr>ru_kind := RK_TEXT\<rparr>, ex)
           | Some d \<Rightarrow>
               (case push_string d ex of
                  ((off, len), ex1) \<Rightarrow> (rec0\<lparr>ru_aux0 := off, ru_aux1 := len, ru_kind := RK_REPLACEMENT\<rparr>, ex1)));
          rec2 = set_range (ex_li ex) s e s e rec1;
          rec3 = (if LF \<in> set (seg (ex_src ex) s e) then rec2\<lparr>ru_flags := ru_flags rec2 OR 256\<rparr> else rec2)
      in ex1\<lparr>ex_runs := ex_runs ex1 @ [rec3]\<rparr>)"

definition piece_display :: "bytes \<Rightarrow> piece \<Rightarrow> bytes option" where
  "piece_display t p = map_option (\<lambda>(a, b). seg t a b) (pc_display p)"

text \<open>The run of one display text: a replacement over \<open>s..e\<close>.\<close>

definition replacement_arm :: "bytes \<Rightarrow> nat \<Rightarrow> nat \<Rightarrow> run_rec \<Rightarrow> extractor \<Rightarrow> arm \<times> extractor" where
  "replacement_arm d s e r ex =
     (case push_string d ex of
        ((off, len), ex1) \<Rightarrow>
          (\<lparr>ar_kind = RK_REPLACEMENT, ar_range = (s, e), ar_content = (s, e), ar_rec = r\<lparr>ru_aux0 := off, ru_aux1 := len\<rparr>\<rparr>, ex1))"

definition text_run_arm :: "nat \<Rightarrow> nat \<Rightarrow> run_rec \<Rightarrow> arm" where
  "text_run_arm s e r = \<lparr>ar_kind = RK_TEXT, ar_range = (s, e), ar_content = (s, e), ar_rec = r\<rparr>"

text \<open>Exact ranges around the bytes that differ, or one replacement run.\<close>

definition pieces_arm :: "(bytes \<Rightarrow> bytes) \<Rightarrow> bytes \<Rightarrow> u32 \<Rightarrow> u32 \<Rightarrow> bool \<Rightarrow> nat \<Rightarrow> nat \<Rightarrow> run_rec \<Rightarrow> extractor \<Rightarrow> arm \<times> extractor" where
  "pieces_arm dec t blk parent pipes s e r ex =
     (case split_pieces dec (seg (ex_src ex) s e) t pipes of
        Some pieces \<Rightarrow>
          if 1 < length pieces then
            (let ex1 = fold (\<lambda>p. push_piece blk parent (s + pc_start p) (s + pc_end p) (piece_display t p)) (butlast pieces) ex;
                 p = last pieces
             in case piece_display t p of
                  None \<Rightarrow> (text_run_arm (s + pc_start p) (s + pc_end p) r, ex1)
                | Some d \<Rightarrow> replacement_arm d (s + pc_start p) (s + pc_end p) r ex1)
          else replacement_arm t s e r ex
      | None \<Rightarrow> replacement_arm t s e r ex)"

text \<open>Whether anything explains a literal that differs from its source.\<close>

definition text_explained :: "(bytes \<Rightarrow> bytes) \<Rightarrow> bytes \<Rightarrow> bytes \<Rightarrow> u32 \<Rightarrow> bool \<Rightarrow> extractor \<Rightarrow> bool \<times> extractor" where
  "text_explained dec sl t blk pipes ex =
     (let virtual_spaces = length sl < length t \<and> length t - length sl \<le> 3 \<and> trim_start_spaces t = sl;
          unescaped = contains_sub sl [BACKSLASH, CHR ''|''] \<and> unescaped_pipes sl = t
      in if explains dec sl t pipes \<or> unescaped \<or> virtual_spaces then (True, ex) else leaf_has_bare_cr blk ex)"

definition text_arm ::
    "(bytes \<Rightarrow> bytes) \<Rightarrow> bytes \<Rightarrow> u32 \<Rightarrow> u32 \<Rightarrow> cell option \<Rightarrow> nat \<Rightarrow> nat \<Rightarrow> nat \<Rightarrow> run_rec \<Rightarrow> extractor \<Rightarrow> arm \<times> extractor" where
  "text_arm dec t blk parent cell sibling_end s0 e0 r ex0 =
     (let pipes = (cell \<noteq> None)
      in case relocate_text dec t blk pipes sibling_end s0 e0 ex0 of
           ((s1, e1), ex1) \<Rightarrow>
             (case widen_to_entity dec ex1 t parent pipes s1 e1 of
                (s, e) \<Rightarrow>
                  (let sl = seg (ex_src ex1) s e
                   in if t = sl then (text_run_arm s e r, ex1)
                      else
                        (case text_explained dec sl t blk pipes ex1 of
                           (explained, ex2) \<Rightarrow>
                             pieces_arm dec t blk parent pipes s e r (if explained then ex2 else dev ''text-mismatch'' ex2)))))"

subsection \<open>Code spans\<close>

definition backticks :: "bytes \<Rightarrow> nat \<Rightarrow> nat \<Rightarrow> bool" where
  "backticks bs n a = (a + n \<le> length bs \<and> list_all (\<lambda>b. b = CHR 0x60) (seg bs a (a + n)))"

definition code_opener :: "bytes \<Rightarrow> nat \<Rightarrow> nat \<Rightarrow> bool" where
  "code_opener bs n a =
     (backticks bs n a \<and> (a = 0 \<or> bs ! (a - 1) \<noteq> CHR 0x60) \<and> byte_at bs (a + n) \<noteq> Some (CHR 0x60))"

text \<open>A span placed away from any opener starts at the nearest run of exactly \<open>n\<close> backticks.\<close>

definition relocate_code :: "nat \<Rightarrow> nat \<Rightarrow> nat \<Rightarrow> nat \<Rightarrow> extractor \<Rightarrow> (nat \<times> nat) \<times> extractor" where
  "relocate_code n sibling_end s e ex =
     (let bs = ex_src ex
      in if backticks bs n s then ((s, e), ex)
         else
           (let lo = max (max (ex_last_text_end ex) sibling_end) (s - 4)
            in case find (code_opener bs n) [lo..<min (lo + 8 + (e - s)) (length bs)] of
                 Some q \<Rightarrow> ((q, ceil_boundary bs (min (q + (e - s)) (length bs))), moved_by q s ex)
               | None \<Rightarrow> ((s, e), ex)))"

text \<open>The end of the next run of exactly \<open>n\<close> backticks.\<close>

function closing_run :: "bytes \<Rightarrow> nat \<Rightarrow> nat \<Rightarrow> nat option" where
  "closing_run bs n i =
     (if i < length bs then
        (if bs ! i = CHR 0x60 then
           (let j = scan_fwd (\<lambda>b. b = CHR 0x60) bs (i + 1) (length bs)
            in if j - i = n then Some j else closing_run bs n j)
         else closing_run bs n (i + 1))
      else None)"
  by pat_completeness auto
termination
proof (relation "measure (\<lambda>(bs, n, i). length bs - i)")
  fix bs n i j
  assume "i < length bs" "bs ! i = CHR 0x60" "j = scan_fwd (\<lambda>b. b = CHR 0x60) bs (i + 1) (length bs)"
  then show "((bs, n, j), bs, n, i) \<in> measure (\<lambda>(bs, n, i). length bs - i)"
    using scan_fwd_ge [of "i + 1" "\<lambda>b. b = CHR 0x60" bs "length bs"] by auto
qed auto

declare closing_run.simps [simp del]

definition closed_at :: "bytes \<Rightarrow> nat \<Rightarrow> nat \<Rightarrow> nat \<Rightarrow> bool" where
  "closed_at bs n s e =
     (s + 2 * n \<le> e \<and> e \<le> length bs \<and> list_all (\<lambda>b. b = CHR 0x60) (seg bs (e - n) e) \<and> byte_at bs e \<noteq> Some (CHR 0x60))"

definition code_end :: "bytes \<Rightarrow> nat \<Rightarrow> bool \<Rightarrow> nat \<Rightarrow> nat \<Rightarrow> nat" where
  "code_end bs n crosses s e =
     (if backticks bs n s \<and> (crosses \<or> \<not> closed_at bs n s e)
      then (case closing_run bs n (s + n) of Some e' \<Rightarrow> e' | None \<Rightarrow> e) else e)"

text \<open>\<^verbatim>\<open>str::split_whitespace\<close>, on Unicode white space, and \<^verbatim>\<open>join(" ")\<close>.\<close>

definition is_whitespace :: "bytes \<Rightarrow> bool" where
  "is_whitespace c =
     (let v = scalar_value c
      in (9 \<le> v \<and> v \<le> 13) \<or> v = 32 \<or> v = 133 \<or> v = 160 \<or> v = 5760 \<or> (8192 \<le> v \<and> v \<le> 8202) \<or>
         v = 8232 \<or> v = 8233 \<or> v = 8239 \<or> v = 8287 \<or> v = 12288)"

fun split_words :: "bytes list \<Rightarrow> bytes \<Rightarrow> bytes list" where
  "split_words [] w = (if w = [] then [] else [w])"
| "split_words (c # cs) w =
     (if is_whitespace c then (if w = [] then split_words cs [] else w # split_words cs [])
      else split_words cs (w @ c))"

fun join_spaces :: "bytes list \<Rightarrow> bytes" where
  "join_spaces [] = []"
| "join_spaces [w] = w"
| "join_spaces (w # ws) = w @ CHR '' '' # join_spaces ws"

definition split_whitespace :: "bytes \<Rightarrow> bytes list" where
  "split_whitespace s = split_words (chars s) []"

text \<open>The content the records of the leaf hold of a span that crosses lines.\<close>

definition span_parts :: "bytes \<Rightarrow> content_rec list \<Rightarrow> nat \<Rightarrow> nat \<Rightarrow> bytes list" where
  "span_parts src records cs ce =
     (let rs = takeWhile (\<lambda>r. to_usize (co_start_byte r) < ce) (drop (partition_point (\<lambda>r. to_usize (co_end_byte r) \<le> cs) records) records)
      in concat (map (\<lambda>r. (let a = max (to_usize (co_start_byte r)) cs; b = min (to_usize (co_end_byte r)) ce
                           in if a < b then [seg src a b] else [])) rs))"

definition normalized :: "bool \<Rightarrow> bytes \<Rightarrow> bytes" where
  "normalized multiline t = (if multiline then join_spaces (split_whitespace t) else t)"

definition strips_space :: "bytes \<Rightarrow> bool" where
  "strips_space u =
     (2 \<le> length u \<and> hd u = CHR '' '' \<and> last u = CHR '' '' \<and> list_ex (\<lambda>b. b \<noteq> CHR '' '') u)"

text \<open>A span whose source is not its literal: what it shows, and the finding when nothing explains it.\<close>

definition code_literal_arm ::
    "node_code \<Rightarrow> cell option \<Rightarrow> nat \<Rightarrow> nat \<Rightarrow> nat \<Rightarrow> run_rec \<Rightarrow> extractor \<Rightarrow> (nat \<times> nat) \<times> run_rec \<times> extractor" where
  "code_literal_arm c cell content_from cs ce r ex =
     (let raw = seg (ex_src ex) cs ce;
          multiline = LF \<in> set raw \<or> CR \<in> set raw;
          buffered = (if multiline then join_spaces (span_parts (ex_src ex) (drop content_from (ex_content ex)) cs ce) else raw);
          nraw = normalized multiline buffered; nlit = normalized multiline (nc_literal c);
          unescaped = (if cell \<noteq> None then unescape_pipes nraw else nraw);
          strip = (if strips_space unescaped then 1 else 0)
      in if seg unescaped strip (length unescaped - strip) \<noteq> nlit then ((cs, ce), r, dev ''code-literal'' ex)
         else
           (let rng = (cs + strip, ce - strip)
            in if unescaped = nraw then (rng, r, ex)
               else if multiline then (rng, r, dev ''code-literal'' ex)
               else
                 (case push_string (nc_literal c) ex of
                    ((off, len), ex1) \<Rightarrow> (rng, r\<lparr>ru_aux2 := off, ru_aux3 := len, ru_flags := ru_flags r OR 2\<rparr>, ex1))))"

definition code_arm ::
    "node_code \<Rightarrow> sourcepos \<Rightarrow> cell option \<Rightarrow> nat \<Rightarrow> nat \<Rightarrow> nat \<Rightarrow> nat \<Rightarrow> run_rec \<Rightarrow> extractor \<Rightarrow> arm \<times> extractor" where
  "code_arm c sp cell content_from sibling_end s0 e0 r ex0 =
     (let n = max (nc_num_backticks c) 1; r0 = r\<lparr>ru_aux0 := to_u32 n\<rparr>; bs = ex_src ex0
      in case relocate_code n sibling_end s0 e0 ex0 of
           ((s, e1), ex1) \<Rightarrow>
             (let e = code_end bs n (lc_line (sp_start sp) \<noteq> lc_line (sp_end sp)) s e1;
                  ok = s + 2 * n \<le> e \<and> list_all (\<lambda>b. b = CHR 0x60) (seg bs s (s + n)) \<and> list_all (\<lambda>b. b = CHR 0x60) (seg bs (e - n) e)
              in if \<not> ok then
                   (\<lparr>ar_kind = RK_CODE, ar_range = (s, e), ar_content = (s, e), ar_rec = r0\<rparr>, dev ''code-delims'' ex1)
                 else if seg bs (s + n) (e - n) = nc_literal c then
                   (\<lparr>ar_kind = RK_CODE, ar_range = (s, e), ar_content = (s + n, e - n), ar_rec = r0\<rparr>, ex1)
                 else
                   (case code_literal_arm c cell content_from (s + n) (e - n) r0 ex1 of
                      (rng, r1, ex2) \<Rightarrow>
                        (\<lparr>ar_kind = RK_CODE, ar_range = (s, e), ar_content = rng, ar_rec = r1\<rparr>, ex2))))"

subsection \<open>The other kinds\<close>

text \<open>A bracketed link or image: its text is its children's span, empty after the opener without any.\<close>

definition bracket_arm ::
    "u32 \<Rightarrow> nat \<Rightarrow> ast \<Rightarrow> u32 \<Rightarrow> cell option \<Rightarrow> shift option \<Rightarrow> nat \<Rightarrow> nat \<Rightarrow> run_rec \<Rightarrow> extractor \<Rightarrow> arm \<times> extractor" where
  "bracket_arm kind opener node blk cell sh s e r ex =
     (case children_span node cell sh ex of
        ((a, b), ex1) \<Rightarrow>
          (let cs = (if a = 0 \<and> b = 0 then s + opener else a); ce = (if a = 0 \<and> b = 0 then s + opener else b);
               r1 = link_aux (ex_src ex) ce e r
           in if byte_at (ex_src ex) (e - 1) \<noteq> Some (CHR '')'') then
                (case repair_inline_link r1 ce blk ex1 of
                   ((e', r2), ex2) \<Rightarrow>
                     (\<lparr>ar_kind = kind, ar_range = (s, case e' of Some x \<Rightarrow> x | None \<Rightarrow> e), ar_content = (cs, ce), ar_rec = r2\<rparr>, ex2))
              else (\<lparr>ar_kind = kind, ar_range = (s, e), ar_content = (cs, ce), ar_rec = r1\<rparr>, ex1)))"

definition link_arm ::
    "node_link \<Rightarrow> ast \<Rightarrow> u32 \<Rightarrow> cell option \<Rightarrow> shift option \<Rightarrow> nat \<Rightarrow> nat \<Rightarrow> run_rec \<Rightarrow> extractor \<Rightarrow> arm \<times> extractor" where
  "link_arm link node blk cell sh s e r0 ex0 =
     (case resolved_resource link r0 ex0 of
        (r, ex) \<Rightarrow>
          (let bs = ex_src ex
           in if s < e \<and> bs ! s = CHR ''['' then bracket_arm RK_LINK 1 node blk cell sh s e r ex
              else
                (let bracketed = s < e \<and> bs ! s = CHR ''<'' \<and> bs ! (e - 1) = CHR ''>'';
                     cs = (if bracketed then s + 1 else s); ce = (if bracketed then e - 1 else e)
                 in (\<lparr>ar_kind = RK_AUTOLINK, ar_range = (s, e), ar_content = (cs, ce),
                      ar_rec = r\<lparr>ru_aux0 := to_u32 cs, ru_aux1 := to_u32 ce\<rparr>\<rparr>, ex))))"

definition image_arm ::
    "node_link \<Rightarrow> ast \<Rightarrow> u32 \<Rightarrow> cell option \<Rightarrow> shift option \<Rightarrow> nat \<Rightarrow> nat \<Rightarrow> run_rec \<Rightarrow> extractor \<Rightarrow> arm \<times> extractor" where
  "image_arm link node blk cell sh s e r0 ex0 =
     (case resolved_resource link r0 ex0 of
        (r, ex) \<Rightarrow>
          if s < e \<and> ex_src ex ! s = CHR ''!'' then bracket_arm RK_IMAGE 2 node blk cell sh s e r ex
          else (\<lparr>ar_kind = RK_IMAGE, ar_range = (s, e), ar_content = (s, e), ar_rec = r\<rparr>, dev ''image-delims'' ex))"

definition html_arm ::
    "bytes \<Rightarrow> u32 \<Rightarrow> cell option \<Rightarrow> shift option \<Rightarrow> nat \<Rightarrow> nat \<Rightarrow> nat \<Rightarrow> nat \<Rightarrow> run_rec \<Rightarrow> extractor \<Rightarrow> arm \<times> extractor" where
  "html_arm literal blk cell sh content_from sibling_end s e r ex =
     (let arm_at = (\<lambda>s e. \<lparr>ar_kind = RK_HTML_INLINE, ar_range = (s, e), ar_content = (s, e), ar_rec = r\<rparr>)
      in if LF \<in> set literal then
           (case crossing_literal_end ex s literal content_from sh of
              Some e' \<Rightarrow> (arm_at s e', ex)
            | None \<Rightarrow> (arm_at s e, dev ''html-inline-end'' ex))
         else if cell = None \<and> seg (ex_src ex) s e \<noteq> literal then
           (case find_literal ex literal s e sibling_end blk of
              Some q \<Rightarrow> (arm_at q (q + length literal), moved_by q s ex)
            | None \<Rightarrow> (arm_at s e, dev ''html-inline-literal'' ex))
         else (arm_at s e, ex))"

text \<open>A hard break's content is the spaces before it, which stay editable.\<close>

definition line_break_content :: "extractor \<Rightarrow> nat \<Rightarrow> nat \<Rightarrow> nat \<times> nat" where
  "line_break_content ex s e =
     (let le = min (line_end (ex_li ex) (line_of (ex_li ex) s)) e
      in if s < le \<and> list_all is_blank (seg (ex_src ex) s le) then (s, le) else (e, e))"

definition strike_width :: "bytes \<Rightarrow> nat \<Rightarrow> nat \<Rightarrow> nat" where
  "strike_width bs s e = (if s + 4 \<le> e \<and> bs ! s = CHR 0x7E \<and> bs ! (s + 1) = CHR 0x7E then 2 else 1)"

text \<open>A container with \<open>n\<close> delimiter bytes on each side.\<close>

definition delimited_arm :: "u32 \<Rightarrow> nat \<Rightarrow> nat \<Rightarrow> nat \<Rightarrow> run_rec \<Rightarrow> arm" where
  "delimited_arm kind n s e r =
     \<lparr>ar_kind = kind, ar_range = (s, e), ar_content = (s + n, max (e - n) (s + n)), ar_rec = r\<rparr>"

definition plain_arm :: "u32 \<Rightarrow> nat \<Rightarrow> nat \<Rightarrow> nat \<times> nat \<Rightarrow> run_rec \<Rightarrow> arm" where
  "plain_arm kind s e c r = \<lparr>ar_kind = kind, ar_range = (s, e), ar_content = c, ar_rec = r\<rparr>"

definition escaped_arm :: "ast \<Rightarrow> cell option \<Rightarrow> shift option \<Rightarrow> nat \<Rightarrow> nat \<Rightarrow> run_rec \<Rightarrow> extractor \<Rightarrow> arm \<times> extractor" where
  "escaped_arm node cell sh s e r ex =
     (case children_span node cell sh ex of
        ((a, b), ex1) \<Rightarrow> (plain_arm RK_ESCAPE s e (if a < b then (a, b) else (min (s + 1) e, e)) r, ex1))"

definition inline_arm ::
    "(bytes \<Rightarrow> bytes) \<Rightarrow> ast \<Rightarrow> u32 \<Rightarrow> u32 \<Rightarrow> cell option \<Rightarrow> shift option \<Rightarrow> nat \<Rightarrow> nat \<Rightarrow> nat \<Rightarrow> nat \<Rightarrow> run_rec \<Rightarrow> extractor \<Rightarrow> arm \<times> extractor" where
  "inline_arm dec node blk parent cell sh content_from sibling_end s e r ex =
     (case node_val node of
        Text t \<Rightarrow> text_arm dec t blk parent cell sibling_end s e r ex
      | Emph \<Rightarrow> (delimited_arm RK_EMPH 1 s e r, ex)
      | Strong \<Rightarrow> (delimited_arm RK_STRONG 2 s e r, ex)
      | Strikethrough \<Rightarrow> (delimited_arm RK_STRIKE (strike_width (ex_src ex) s e) s e r, ex)
      | Code c \<Rightarrow> code_arm c (node_pos node) cell content_from sibling_end s e r ex
      | Link link \<Rightarrow> link_arm link node blk cell sh s e r ex
      | Image link \<Rightarrow> image_arm link node blk cell sh s e r ex
      | SoftBreak \<Rightarrow> (plain_arm RK_SOFT_BREAK s e (e, e) r, ex)
      | LineBreak \<Rightarrow> (plain_arm RK_HARD_BREAK s e (line_break_content ex s e) r, ex)
      | HtmlInline literal \<Rightarrow> html_arm literal blk cell sh content_from sibling_end s e r ex
      | FootnoteReference \<Rightarrow>
          (plain_arm RK_FOOTNOTE_REF s e (s, e)
             (if s + 3 < e then r\<lparr>ru_aux0 := to_u32 (s + 2), ru_aux1 := to_u32 (e - 1)\<rparr> else r), ex)
      | Escaped \<Rightarrow> escaped_arm node cell sh s e r ex
      | _ \<Rightarrow> (plain_arm RK_OTHER s e (s, e) r, ex))"

subsection \<open>One inline\<close>

text \<open>A break placed inside a multiline link's title starts where its preceding sibling ends.\<close>

definition repair_break :: "extractor \<Rightarrow> node_value \<Rightarrow> nat \<Rightarrow> nat \<Rightarrow> nat \<Rightarrow> nat \<times> nat" where
  "repair_break ex v sibling_end s e =
     (let sl = seg (ex_src ex) s e;
          line = line_of (ex_li ex) sibling_end; le = line_end (ex_li ex) line
      in if (v = SoftBreak \<or> v = LineBreak) \<and> LF \<notin> set sl \<and> CR \<notin> set sl \<and> 0 < sibling_end \<and> s \<le> sibling_end \<and>
            (case get_range (ex_src ex) sibling_end le of Some rest \<Rightarrow> list_all is_blank rest | None \<Rightarrow> False)
         then (sibling_end, line_end_with_break (ex_li ex) line (length (ex_src ex)))
         else (s, e))"

definition moves_text_end :: "u32 \<Rightarrow> bool" where
  "moves_text_end k = (k \<in> {RK_TEXT, RK_REPLACEMENT, RK_CODE, RK_AUTOLINK, RK_SOFT_BREAK, RK_HARD_BREAK})"

text \<open>The record of an arm: its content clamped into its range, and both in bytes and UTF-16.\<close>

definition arm_record :: "line_index \<Rightarrow> sourcepos \<Rightarrow> arm \<Rightarrow> run_rec" where
  "arm_record li sp a =
     (let rng = (if ar_kind a = RK_TEXT \<or> ar_kind a = RK_REPLACEMENT then ar_content a else ar_range a);
          s = fst rng; e = snd rng;
          cs0 = min (max (fst (ar_content a)) s) e; ce = min (max (snd (ar_content a)) s) e;
          r = set_range li s e (min cs0 ce) ce ((ar_rec a)\<lparr>ru_kind := ar_kind a\<rparr>)
      in if lc_line (sp_start sp) \<noteq> lc_line (sp_end sp) then r\<lparr>ru_flags := ru_flags r OR 256\<rparr> else r)"

definition push_arm :: "sourcepos \<Rightarrow> arm \<Rightarrow> extractor \<Rightarrow> extractor" where
  "push_arm sp a ex =
     (let e = (if ar_kind a = RK_TEXT \<or> ar_kind a = RK_REPLACEMENT then snd (ar_content a) else snd (ar_range a))
      in ex\<lparr>ex_last_text_end := (if moves_text_end (ar_kind a) then e else ex_last_text_end ex),
            ex_runs := ex_runs ex @ [arm_record (ex_li ex) sp a]\<rparr>)"

definition inline_record ::
    "(bytes \<Rightarrow> bytes) \<Rightarrow> ast \<Rightarrow> u32 \<Rightarrow> u32 \<Rightarrow> cell option \<Rightarrow> shift option \<Rightarrow> nat \<Rightarrow> nat \<Rightarrow> extractor \<Rightarrow> u32 option \<times> extractor" where
  "inline_record dec node blk parent cell sh content_from sibling_end ex =
     (case corrected_range (node_pos node) cell sh ex of
        (None, ex1) \<Rightarrow> (None, ex1)
      | (Some (s0, e0), ex1) \<Rightarrow>
          (case repair_break ex1 (node_val node) sibling_end s0 e0 of
             (s, e) \<Rightarrow>
               (case inline_arm dec node blk parent cell sh content_from sibling_end s e
                       (zero_run\<lparr>ru_block := blk, ru_parent := parent\<rparr>) ex1 of
                  (a, ex2) \<Rightarrow> (Some (to_u32 (length (ex_runs ex2))), push_arm (node_pos node) a ex2))))"

subsection \<open>The walk\<close>

text \<open>
  The inlines still to visit, next first, each with its parent's run. Slot zero of
  \<open>previous_siblings\<close> is the leaf's own children, every run has a slot for its own.
\<close>

lemma node_count_children: "sum_list (map node_count (node_children n)) < node_count n" "0 < node_count n"
  by (simp_all add: node_count_eq [of n])

function walk_inline_stack ::
    "(bytes \<Rightarrow> bytes) \<Rightarrow> u32 \<Rightarrow> cell option \<Rightarrow> shift option \<Rightarrow> nat \<Rightarrow> nat \<Rightarrow> (ast \<times> u32) list \<Rightarrow> nat option list \<Rightarrow> extractor \<Rightarrow> extractor" where
  "walk_inline_stack dec blk cell sh content_from first_run [] prev ex = ex"
| "walk_inline_stack dec blk cell sh content_from first_run ((node, parent) # stack) prev ex =
     (let slot = (if parent = U32_MAX then 0 else to_usize parent - first_run + 1);
          sibling_end = (case prev ! slot of None \<Rightarrow> 0 | Some i \<Rightarrow> run_e (ex_runs ex ! i))
      in case inline_record dec node blk parent cell sh content_from sibling_end ex of
           (Some ri, ex1) \<Rightarrow>
             (let n = length (ex_runs ex1) - first_run + 1;
                  prev1 = (take n prev @ replicate (n - length prev) None)[slot := Some (length (ex_runs ex1) - 1)]
              in walk_inline_stack dec blk cell sh content_from first_run (map (\<lambda>ch. (ch, ri)) (node_children node) @ stack) prev1 ex1)
         | (None, ex1) \<Rightarrow> walk_inline_stack dec blk cell sh content_from first_run stack prev ex1)"
  by pat_completeness auto
termination
proof (relation "measure (\<lambda>(dec, blk, cell, sh, content_from, first_run, stack, prev, ex). sum_list (map (node_count \<circ> fst) stack))")
qed (auto simp: comp_def node_count_children)

declare walk_inline_stack.simps [simp del]

definition walk_inlines :: "(bytes \<Rightarrow> bytes) \<Rightarrow> ast \<Rightarrow> u32 \<Rightarrow> cell option \<Rightarrow> shift option \<Rightarrow> extractor \<Rightarrow> extractor" where
  "walk_inlines dec leaf blk cell sh ex =
     (let b = ex_blocks ex ! to_usize blk;
          ex0 = ex\<lparr>ex_run_delta := 0, ex_bare_cr_leaf := None, ex_last_text_end := blk_s b - 8\<rparr>;
          first_run = length (ex_runs ex);
          ex1 = walk_inline_stack dec blk cell sh (to_usize (bl_content_offset b)) first_run
                  (map (\<lambda>ch. (ch, U32_MAX)) (node_children leaf)) [None] ex0;
          ex2 = (if ex_run_delta ex1 \<noteq> 0 then refit_containers first_run ex1 else ex1)
      in check_delimiters first_run ex2)"

end
