(* ===== verification/Flark_Walk.thy ===== *)
theory Flark_Walk
  imports Flark_Inlines
begin

text \<open>
  What the inline walk of \<^verbatim>\<open>native/flark_parse/src/model.rs\<close> leaves alone and what it emits. Every
  step of it appends runs, strings and findings and touches nothing else (\<open>extends\<close>); the
  runs of one leaf all name its block, and each run's parent is the leaf or an earlier
  run of the same leaf (\<open>walk_inlines_owned\<close>).
\<close>

subsection \<open>Steps that only append\<close>

text \<open>The runs a step emits satisfy \<open>P\<close>; what the leaf's repairs carry may change.\<close>

definition extends :: "(run_rec \<Rightarrow> bool) \<Rightarrow> extractor \<Rightarrow> extractor \<Rightarrow> bool" where
  "extends P ex ex' =
     (ex_src ex' = ex_src ex \<and> ex_li ex' = ex_li ex \<and> ex_blocks ex' = ex_blocks ex \<and> ex_content ex' = ex_content ex \<and>
      ex_definitions ex' = ex_definitions ex \<and> ex_containers ex' = ex_containers ex \<and> ex_collect ex' = ex_collect ex \<and>
      (\<exists>rs. ex_runs ex' = ex_runs ex @ rs \<and> list_all P rs) \<and>
      (\<exists>ds. ex_deviations ex' = ex_deviations ex @ ds) \<and> (\<exists>ss. ex_strings ex' = ex_strings ex @ ss))"

lemma extends_refl [simp, intro]: "extends P ex ex" by (simp add: extends_def)

lemma extends_trans: "extends P a b \<Longrightarrow> extends P b c \<Longrightarrow> extends P a c"
  unfolding extends_def by (elim conjE exE) (simp add: list_all_append)

lemma extends_if: "extends P ex a \<Longrightarrow> extends P ex b \<Longrightarrow> extends P ex (if c then a else b)" by simp

lemma extends_fold: "(\<And>x ex. extends P ex (f x ex)) \<Longrightarrow> extends P ex (fold f xs ex)"
  by (induction xs arbitrary: ex) (auto intro: extends_trans)

lemma extends_mono: "extends P a b \<Longrightarrow> (\<And>r. P r \<Longrightarrow> Q r) \<Longrightarrow> extends Q a b"
  unfolding extends_def by (elim conjE exE) (auto simp: list_all_iff)

lemma extends_same:
  "extends P ex ex' \<Longrightarrow> ex_src ex' = ex_src ex \<and> ex_li ex' = ex_li ex \<and> ex_blocks ex' = ex_blocks ex \<and> ex_content ex' = ex_content ex \<and>
    ex_containers ex' = ex_containers ex \<and> ex_collect ex' = ex_collect ex \<and> ex_definitions ex' = ex_definitions ex"
  by (simp add: extends_def)

lemma extends_runs:
  assumes "extends P ex ex'"
  shows "length (ex_runs ex) \<le> length (ex_runs ex') \<and> take (length (ex_runs ex)) (ex_runs ex') = ex_runs ex \<and>
         list_all P (drop (length (ex_runs ex)) (ex_runs ex'))"
  using assms by (auto simp: extends_def)

lemma extends_keeps: "extends P ex ex' \<Longrightarrow> keeps ex ex'"
  by (simp add: extends_def keeps_def units_ok_def)

text \<open>The fields a repair carries, and single appends.\<close>

lemma extends_fields [intro]:
  "extends P ex (ex\<lparr>ex_pipes := pc\<rparr>)" "extends P ex (ex\<lparr>ex_bare_cr_leaf := v\<rparr>)" "extends P ex (ex\<lparr>ex_leaf_text := lt\<rparr>)"
  "extends P ex (ex\<lparr>ex_run_delta := d\<rparr>)" "extends P ex (ex\<lparr>ex_last_text_end := n\<rparr>)"
  by (simp_all add: extends_def)

lemma extends_dev [intro]: "extends P ex (dev rule ex)"
  by (simp add: extends_def dev_def)

lemma extends_moved_by [intro]: "extends P ex (moved_by q s ex)"
  by (simp add: extends_def moved_by_def)

lemma extends_push: "P r \<Longrightarrow> extends P ex (ex\<lparr>ex_runs := ex_runs ex @ [r]\<rparr>)"
  by (simp add: extends_def)

text \<open>
  The interface of the walk's steps: a step hands back a value and a state that extends the one it was
  given, so earlier runs, blocks and content are as they were.
\<close>

locale run_step =
  fixes P :: "run_rec \<Rightarrow> bool" and step :: "extractor \<Rightarrow> 'a \<times> extractor"
  assumes step_extends: "extends P ex (snd (step ex))"
begin

lemma step_eq_extends: "step ex = (x, ex') \<Longrightarrow> extends P ex ex'"
  using step_extends [of ex] by simp

lemma step_same:
  "step ex = (x, ex') \<Longrightarrow> ex_src ex' = ex_src ex \<and> ex_li ex' = ex_li ex \<and> ex_blocks ex' = ex_blocks ex \<and> ex_content ex' = ex_content ex"
  using extends_same [OF step_eq_extends] by blast

end

text \<open>Two steps, the second on what the first hands back.\<close>

locale run_steps = s1: run_step P step1 for P :: "run_rec \<Rightarrow> bool" and step1 :: "extractor \<Rightarrow> 'a \<times> extractor" +
  fixes step2 :: "'a \<Rightarrow> extractor \<Rightarrow> 'b \<times> extractor"
  assumes step2_extends: "extends P ex (snd (step2 x ex))"

sublocale run_steps \<subseteq> seq: run_step P "\<lambda>ex. case step1 ex of (x, ex1) \<Rightarrow> step2 x ex1"
proof unfold_locales
  fix ex
  obtain x ex1 where "step1 ex = (x, ex1)" by force
  then show "extends P ex (snd (case step1 ex of (x, ex1) \<Rightarrow> step2 x ex1))"
    using extends_trans [OF s1.step_eq_extends step2_extends] by simp
qed

interpretation string_step: run_step P "push_string s" for P s
  by unfold_locales (simp add: extends_def push_string_def)

interpretation pipe_step: run_step P "pipe_shift byte cell" for P byte cell
  by unfold_locales (auto simp: pipe_shift_def Let_def split: option.splits prod.splits)

interpretation bare_cr_step: run_step P "leaf_has_bare_cr blk" for P blk
  by unfold_locales (auto simp: leaf_has_bare_cr_def Let_def split: option.splits)

lemma corrected_range_extends: "extends P ex (snd (corrected_range sp cell sh ex))"
proof -
  have "extends P ex ex2" if "pipe_shift a cell ex = (x, ex1)" "pipe_shift b cell ex1 = (y, ex2)" for a b x y ex1 ex2
    using extends_trans [OF pipe_step.step_eq_extends [OF that(1)] pipe_step.step_eq_extends [OF that(2)]] .
  then show ?thesis unfolding corrected_range_def Let_def by (auto split: option.splits prod.splits)
qed

interpretation range_step: run_step P "corrected_range sp cell sh" for P sp cell sh
  by unfold_locales (rule corrected_range_extends)

lemma children_range_extends: "extends P ex (snd (children_range chs cell sh acc ex))"
proof (induction chs arbitrary: acc ex)
  case (Cons ch chs)
  obtain rng ex1 where c: "corrected_range (node_pos ch) cell sh ex = (rng, ex1)" by force
  have "extends P ex1 (snd (children_range chs cell sh acc' ex1))" for acc' by (rule Cons.IH)
  then show ?case using extends_trans [OF range_step.step_eq_extends [OF c]] c by (auto split: option.splits)
qed simp

interpretation children_step: run_step P "children_span node cell sh" for P node cell sh
proof unfold_locales
  fix P ex
  obtain acc ex1 where c: "children_range (node_children node) cell sh (None, None) ex = (acc, ex1)"
    by (cases "children_range (node_children node) cell sh (None, None) ex") auto
  have "extends P ex ex1" using children_range_extends [of P ex "node_children node" cell sh "(None, None)"] c by simp
  then show "extends P ex (snd (children_span node cell sh ex))"
    by (auto simp: children_span_def c split: prod.splits option.splits)
qed

subsection \<open>The arms\<close>

text \<open>A run of one node: it names the leaf's block and the node's parent.\<close>

definition owned :: "u32 \<Rightarrow> u32 \<Rightarrow> run_rec \<Rightarrow> bool" where
  "owned blk parent r = (ru_block r = blk \<and> ru_parent r = parent)"

lemma owned_zero [simp]: "owned blk parent (zero_run\<lparr>ru_block := blk, ru_parent := parent\<rparr>)"
  by (simp add: owned_def)

lemma set_range_id [simp]:
  "ru_block (set_range li s e cs ce r) = ru_block r" "ru_parent (set_range li s e cs ce r) = ru_parent r"
  "ru_kind (set_range li s e cs ce r) = ru_kind r" "ru_flags (set_range li s e cs ce r) = ru_flags r"
  "ru_block (set_content li cs ce r) = ru_block r" "ru_parent (set_content li cs ce r) = ru_parent r"
  "ru_kind (set_content li cs ce r) = ru_kind r"
  by (simp_all add: set_range_def set_content_def)

lemma link_aux_id [simp]:
  "ru_block (link_aux bs ce e r) = ru_block r" "ru_parent (link_aux bs ce e r) = ru_parent r" "ru_kind (link_aux bs ce e r) = ru_kind r"
proof -
  have t: "ru_block (link_title_aux bs p e r) = ru_block r" "ru_parent (link_title_aux bs p e r) = ru_parent r"
      "ru_kind (link_title_aux bs p e r) = ru_kind r" for p r
    by (auto simp: link_title_aux_def split: option.splits)
  show "ru_block (link_aux bs ce e r) = ru_block r" "ru_parent (link_aux bs ce e r) = ru_parent r" "ru_kind (link_aux bs ce e r) = ru_kind r"
    unfolding link_aux_def Let_def by (auto simp: t split: option.splits prod.splits)
qed

text \<open>An arm's step: it extends the state and its record is still the node's.\<close>

definition arm_ok :: "u32 \<Rightarrow> u32 \<Rightarrow> extractor \<Rightarrow> arm \<times> extractor \<Rightarrow> bool" where
  "arm_ok blk parent ex res = (extends (owned blk parent) ex (snd res) \<and> owned blk parent (ar_rec (fst res)))"

lemma arm_okI: "extends (owned blk parent) ex ex' \<Longrightarrow> owned blk parent (ar_rec a) \<Longrightarrow> arm_ok blk parent ex (a, ex')"
  by (simp add: arm_ok_def)

lemma arm_ok_trans: "extends (owned blk parent) ex ex1 \<Longrightarrow> arm_ok blk parent ex1 res \<Longrightarrow> arm_ok blk parent ex res"
  by (auto simp: arm_ok_def intro: extends_trans)

lemma arm_ok_if: "(c \<Longrightarrow> arm_ok blk parent ex a) \<Longrightarrow> (\<not> c \<Longrightarrow> arm_ok blk parent ex b) \<Longrightarrow> arm_ok blk parent ex (if c then a else b)"
  by simp

lemma push_piece_extends: "extends (owned blk parent) ex (push_piece blk parent s e display ex)"
proof -
  obtain rec1 ex1 where r: "(case display of
             None \<Rightarrow> (zero_run\<lparr>ru_block := blk, ru_parent := parent\<rparr>\<lparr>ru_kind := RK_TEXT\<rparr>, ex)
           | Some d \<Rightarrow>
               (case push_string d ex of
                  ((off, len), ex1) \<Rightarrow> (zero_run\<lparr>ru_block := blk, ru_parent := parent\<rparr>\<lparr>ru_aux0 := off, ru_aux1 := len, ru_kind := RK_REPLACEMENT\<rparr>, ex1)))
      = (rec1, ex1)" by force
  then have "extends (owned blk parent) ex ex1 \<and> owned blk parent rec1"
    by (auto simp: owned_def split: option.splits prod.splits intro: string_step.step_eq_extends)
  then show ?thesis
    unfolding push_piece_def Let_def r prod.case
    by (auto intro!: extends_trans [OF _ extends_push] simp: owned_def)
qed

lemma replacement_arm_ok: "owned blk parent r \<Longrightarrow> arm_ok blk parent ex (replacement_arm d s e r ex)"
  using string_step.step_extends [of "owned blk parent" ex d]
  by (auto simp: replacement_arm_def arm_ok_def owned_def split: prod.splits)

lemma text_run_arm_ok: "owned blk parent r \<Longrightarrow> owned blk parent (ar_rec (text_run_arm s e r))"
  by (simp add: text_run_arm_def)

lemma pieces_arm_ok: "owned blk parent r \<Longrightarrow> arm_ok blk parent ex (pieces_arm dec t blk parent pipes s e r ex)"
proof -
  assume r: "owned blk parent r"
  have f: "extends (owned blk parent) ex (fold (\<lambda>p. push_piece blk parent (s + pc_start p) (s + pc_end p) (piece_display t p)) ps ex)" for ps
    by (rule extends_fold) (rule push_piece_extends)
  show ?thesis
    unfolding pieces_arm_def Let_def
    by (auto intro: replacement_arm_ok [OF r] arm_ok_trans [OF f replacement_arm_ok [OF r]] arm_okI [OF f text_run_arm_ok [OF r]]
        split: option.splits)
qed

lemma relocate_text_extends: "extends P ex (snd (relocate_text dec t blk pipes sibling_end s e ex))"
  by (auto simp: relocate_text_def Let_def split: option.splits)

interpretation explained_step: run_step P "text_explained dec sl t blk pipes" for P dec sl t blk pipes
  by unfold_locales (simp add: text_explained_def Let_def bare_cr_step.step_extends)

lemma text_arm_ok: "owned blk parent r \<Longrightarrow> arm_ok blk parent ex (text_arm dec t blk parent cell sibling_end s e r ex)"
proof -
  assume r: "owned blk parent r"
  obtain s1 e1 ex1 where l: "relocate_text dec t blk (cell \<noteq> None) sibling_end s e ex = ((s1, e1), ex1)" by (metis surj_pair)
  obtain s2 e2 where w: "widen_to_entity dec ex1 t parent (cell \<noteq> None) s1 e1 = (s2, e2)" by force
  obtain v ex2 where x: "text_explained dec (seg (ex_src ex1) s2 e2) t blk (cell \<noteq> None) ex1 = (v, ex2)" by force
  have "extends (owned blk parent) ex ex1" using relocate_text_extends [of "owned blk parent" ex dec t blk "cell \<noteq> None" sibling_end s e] l by simp
  moreover have "extends (owned blk parent) ex1 ex2" by (rule explained_step.step_eq_extends [OF x])
  ultimately show ?thesis
    unfolding text_arm_def Let_def l w x prod.case
    by (intro arm_ok_trans [OF _ arm_ok_if] arm_okI text_run_arm_ok r extends_refl)
       (auto intro!: pieces_arm_ok r intro: arm_ok_trans extends_trans)
qed

lemma relocate_code_extends: "extends P ex (snd (relocate_code n sibling_end s e ex))"
  by (auto simp: relocate_code_def Let_def split: option.splits)

lemma code_literal_arm_ok:
  "owned blk parent r \<Longrightarrow> code_literal_arm c cell content_from cs ce r ex = (rng, r', ex') \<Longrightarrow>
   extends (owned blk parent) ex ex' \<and> owned blk parent r'"
  by (auto simp: code_literal_arm_def Let_def owned_def split: if_splits prod.splits intro: string_step.step_eq_extends)

lemma code_arm_ok: "owned blk parent r \<Longrightarrow> arm_ok blk parent ex (code_arm c sp cell content_from sibling_end s e r ex)"
proof -
  assume r: "owned blk parent r"
  define n where "n = max (nc_num_backticks c) 1"
  define r0 where "r0 = r\<lparr>ru_aux0 := to_u32 n\<rparr>"
  obtain s1 e1 ex1 where l: "relocate_code n sibling_end s e ex = ((s1, e1), ex1)" by (metis surj_pair)
  have x1: "extends (owned blk parent) ex ex1" using relocate_code_extends [of "owned blk parent" ex n sibling_end s e] l by simp
  have r0: "owned blk parent r0" using r by (simp add: owned_def r0_def)
  have lit: "arm_ok blk parent ex (case code_literal_arm c cell content_from cs ce r0 ex1 of (rng, r1, ex2) \<Rightarrow>
      (\<lparr>ar_kind = RK_CODE, ar_range = se, ar_content = rng, ar_rec = r1\<rparr>, ex2))" for cs ce se
  proof -
    obtain rng r1 ex2 where k: "code_literal_arm c cell content_from cs ce r0 ex1 = (rng, r1, ex2)" by (metis surj_pair)
    show ?thesis unfolding k prod.case using code_literal_arm_ok [OF r0 k] extends_trans [OF x1] by (simp add: arm_ok_def)
  qed
  show ?thesis
    unfolding code_arm_def Let_def n_def [symmetric] r0_def [symmetric] l prod.case
    by (intro arm_ok_if lit arm_okI extends_trans [OF x1 extends_dev] x1) (simp_all add: r0)
qed

lemma repair_inline_link_ok:
  "owned blk' parent r \<Longrightarrow> repair_inline_link r ce blk ex = ((e', r'), ex') \<Longrightarrow> extends P ex ex' \<and> owned blk' parent r'"
proof -
  assume r: "owned blk' parent r" and l: "repair_inline_link r ce blk ex = ((e', r'), ex')"
  have "extends P ex (load_leaf_text blk ex)" by (auto simp: load_leaf_text_def Let_def)
  then show ?thesis
    using l r unfolding repair_inline_link_def Let_def owned_def
    by (auto split: if_splits option.splits prod.splits)
qed

lemma bracket_arm_ok: "owned blk parent r \<Longrightarrow> arm_ok blk parent ex (bracket_arm kind opener node blk cell sh s e r ex)"
proof -
  assume r: "owned blk parent r"
  obtain a b ex1 where c: "children_span node cell sh ex = ((a, b), ex1)" by (metis surj_pair)
  note x1 = children_step.step_eq_extends [OF c, of "owned blk parent"]
  have r1: "owned blk parent (link_aux (ex_src ex) ce e r)" for ce using r by (simp add: owned_def)
  show ?thesis
    unfolding bracket_arm_def c prod.case Let_def
    by (auto intro!: arm_okI extends_trans [OF x1] r1 x1 split: prod.splits
        dest!: repair_inline_link_ok [OF r1, where P = "owned blk parent"])
qed

interpretation resource: run_steps P "push_string url"
    "\<lambda>ol ex. case push_string title ex of (ol2, ex2) \<Rightarrow> ((ol, ol2), ex2)" for P url title
  by unfold_locales (auto simp: split_def string_step.step_extends)

lemma resolved_resource_ok:
  assumes "owned blk parent r" "resolved_resource link r ex = (r', ex')"
  shows "extends P ex ex' \<and> owned blk parent r'"
proof -
  have "\<exists>x. (case push_string (lk_url link) ex of (ol, ex1) \<Rightarrow> case push_string (lk_title link) ex1 of (ol2, ex2) \<Rightarrow> ((ol, ol2), ex2)) = (x, ex')"
    using assms(2) by (auto simp: resolved_resource_def split: prod.splits)
  then have "extends P ex ex'" using resource.seq.step_eq_extends by blast
  then show ?thesis using assms by (auto simp: resolved_resource_def owned_def split: prod.splits)
qed

lemma link_arm_ok: "owned blk parent r \<Longrightarrow> arm_ok blk parent ex (link_arm link node blk cell sh s e r ex)"
proof -
  assume r: "owned blk parent r"
  obtain r1 ex1 where c: "resolved_resource link r ex = (r1, ex1)" by force
  note x1 = resolved_resource_ok [OF r c, of "owned blk parent"]
  show ?thesis
    unfolding link_arm_def c prod.case Let_def
    by (intro arm_ok_trans [OF conjunct1 [OF x1] arm_ok_if] bracket_arm_ok conjunct2 [OF x1] arm_okI extends_refl)
       (use x1 in \<open>auto simp: owned_def\<close>)
qed

lemma image_arm_ok: "owned blk parent r \<Longrightarrow> arm_ok blk parent ex (image_arm link node blk cell sh s e r ex)"
proof -
  assume r: "owned blk parent r"
  obtain r1 ex1 where c: "resolved_resource link r ex = (r1, ex1)" by force
  note x1 = resolved_resource_ok [OF r c, of "owned blk parent"]
  show ?thesis
    unfolding image_arm_def c prod.case
    by (intro arm_ok_trans [OF conjunct1 [OF x1] arm_ok_if] bracket_arm_ok conjunct2 [OF x1] arm_okI extends_dev)
       (use x1 in auto)
qed

lemma html_arm_ok: "owned blk parent r \<Longrightarrow> arm_ok blk parent ex (html_arm literal blk' cell sh content_from sibling_end s e r ex)"
  unfolding html_arm_def Let_def by (auto intro!: arm_ok_if arm_okI split: option.splits)

lemma escaped_arm_ok: "owned blk parent r \<Longrightarrow> arm_ok blk parent ex (escaped_arm node cell sh s e r ex)"
  using children_step.step_extends [of "owned blk parent" ex node cell sh]
  by (auto simp: escaped_arm_def plain_arm_def arm_ok_def split: prod.splits)

lemma inline_arm_ok:
  "owned blk parent r \<Longrightarrow> arm_ok blk parent ex (inline_arm dec node blk parent cell sh content_from sibling_end s e r ex)"
  unfolding inline_arm_def
  by (cases "node_val node")
     (auto intro!: text_arm_ok code_arm_ok link_arm_ok image_arm_ok html_arm_ok escaped_arm_ok arm_okI simp: delimited_arm_def plain_arm_def owned_def)

lemma arm_record_owned: "owned blk parent (ar_rec a) \<Longrightarrow> owned blk parent (arm_record li sp a)"
  by (simp add: arm_record_def Let_def owned_def)

text \<open>One inline appends runs of its block and parent; the last of them is the node's own.\<close>

lemma inline_record_ok:
  assumes "inline_record dec node blk parent cell sh content_from sibling_end ex = (ri, ex')"
  shows "extends (owned blk parent) ex ex' \<and>
         (case ri of None \<Rightarrow> True | Some i \<Rightarrow> length (ex_runs ex) < length (ex_runs ex') \<and> i = to_u32 (length (ex_runs ex') - 1))"
proof -
  obtain rng ex1 where c: "corrected_range (node_pos node) cell sh ex = (rng, ex1)" by force
  note x1 = range_step.step_eq_extends [OF c, of "owned blk parent"]
  show ?thesis
  proof (cases rng)
    case None
    then show ?thesis using assms c x1 by (simp add: inline_record_def)
  next
    case (Some se)
    obtain s e where b: "repair_break ex1 (node_val node) sibling_end (fst se) (snd se) = (s, e)" by force
    obtain a ex2 where i: "inline_arm dec node blk parent cell sh content_from sibling_end s e (zero_run\<lparr>ru_block := blk, ru_parent := parent\<rparr>) ex1 = (a, ex2)" by force
    have ok: "extends (owned blk parent) ex1 ex2" "owned blk parent (ar_rec a)"
      using inline_arm_ok [OF owned_zero, of blk parent ex1 dec node cell sh content_from sibling_end s e] i by (simp_all add: arm_ok_def)
    have res: "ri = Some (to_u32 (length (ex_runs ex2)))" "ex' = push_arm (node_pos node) a ex2"
      using assms c b i Some by (auto simp: inline_record_def split_def)
    have "extends (owned blk parent) ex2 ex'"
      unfolding res(2) push_arm_def Let_def using arm_record_owned [OF ok(2)] by (auto simp: extends_def)
    moreover have "length (ex_runs ex') = Suc (length (ex_runs ex2))" by (simp add: res(2) push_arm_def Let_def)
    moreover have "length (ex_runs ex) \<le> length (ex_runs ex2)"
      using extends_runs [OF extends_trans [OF x1 ok(1)]] by simp
    ultimately show ?thesis using extends_trans [OF x1 extends_trans [OF ok(1)]] res(1) by simp
  qed
qed

subsection \<open>The walk\<close>

lemma walk_stack_extends: "extends (\<lambda>r. ru_block r = blk) ex (walk_inline_stack dec blk cell sh content_from first_run stack prev ex)"
proof (induction dec blk cell sh content_from first_run stack prev ex rule: walk_inline_stack.induct)
  case (1 dec blk cell sh content_from first_run prev ex)
  then show ?case by (simp add: walk_inline_stack.simps)
next
  case (2 dec blk cell sh content_from first_run node parent stack prev ex)
  let ?slot = "if parent = U32_MAX then 0 else to_usize parent - first_run + 1"
  let ?se = "case prev ! ?slot of None \<Rightarrow> 0 | Some i \<Rightarrow> run_e (ex_runs ex ! i)"
  obtain ri ex1 where i: "inline_record dec node blk parent cell sh content_from ?se ex = (ri, ex1)" by force
  have x: "extends (\<lambda>r. ru_block r = blk) ex ex1"
    using inline_record_ok [OF i] by (auto simp: owned_def elim: extends_mono)
  show ?case
  proof (cases ri)
    case None
    then show ?thesis
      using extends_trans [OF x "2.IH"(1) [OF refl refl i [symmetric] None]] i by (simp add: walk_inline_stack.simps Let_def)
  next
    case (Some k)
    then show ?thesis
      using extends_trans [OF x "2.IH"(2) [OF refl refl i [symmetric] Some refl refl]] i by (simp add: walk_inline_stack.simps Let_def)
  qed
qed

text \<open>The runs from \<open>first_run\<close> belong to one leaf, and each one's parent is the leaf or an earlier of them.\<close>

definition runs_owned :: "u32 \<Rightarrow> nat \<Rightarrow> run_rec list \<Rightarrow> bool" where
  "runs_owned blk first_run runs =
     (\<forall>i. first_run \<le> i \<and> i < length runs \<longrightarrow>
        ru_block (runs ! i) = blk \<and> (ru_parent (runs ! i) = U32_MAX \<or> first_run \<le> run_p (runs ! i) \<and> run_p (runs ! i) < i))"

lemma runs_owned_append:
  assumes "runs_owned blk first_run runs" "list_all (owned blk parent) rs"
    and "parent = U32_MAX \<or> first_run \<le> to_usize parent \<and> to_usize parent < length runs"
  shows "runs_owned blk first_run (runs @ rs)"
  unfolding runs_owned_def
proof (intro allI impI)
  fix i assume i: "first_run \<le> i \<and> i < length (runs @ rs)"
  show "ru_block ((runs @ rs) ! i) = blk \<and> (ru_parent ((runs @ rs) ! i) = U32_MAX \<or> first_run \<le> run_p ((runs @ rs) ! i) \<and> run_p ((runs @ rs) ! i) < i)"
  proof (cases "i < length runs")
    case True
    then show ?thesis using assms(1) i by (simp add: runs_owned_def nth_append)
  next
    case False
    then have "owned blk parent ((runs @ rs) ! i)" using assms(2) i by (auto simp: nth_append list_all_length)
    then show ?thesis using assms(3) False by (auto simp: owned_def)
  qed
qed

lemma walk_stack_owned:
  assumes "runs_owned blk first_run (ex_runs ex)" "first_run \<le> length (ex_runs ex)"
    and "\<forall>(node, p) \<in> set stack. p = U32_MAX \<or> first_run \<le> to_usize p \<and> to_usize p < length (ex_runs ex)"
    and "length (ex_runs (walk_inline_stack dec blk cell sh content_from first_run stack prev ex)) < 4294967296"
  shows "runs_owned blk first_run (ex_runs (walk_inline_stack dec blk cell sh content_from first_run stack prev ex))"
  using assms
proof (induction dec blk cell sh content_from first_run stack prev ex rule: walk_inline_stack.induct)
  case (1 dec blk cell sh content_from first_run prev ex)
  then show ?case by (simp add: walk_inline_stack.simps)
next
  case (2 dec blk cell sh content_from first_run node parent stack prev ex)
  let ?slot = "if parent = U32_MAX then 0 else to_usize parent - first_run + 1"
  let ?se = "case prev ! ?slot of None \<Rightarrow> 0 | Some i \<Rightarrow> run_e (ex_runs ex ! i)"
  obtain ri ex1 where i: "inline_record dec node blk parent cell sh content_from ?se ex = (ri, ex1)" by force
  note ok = inline_record_ok [OF i]
  obtain rs where rs: "ex_runs ex1 = ex_runs ex @ rs" "list_all (owned blk parent) rs" using ok by (auto simp: extends_def)
  have own1: "runs_owned blk first_run (ex_runs ex1)" unfolding rs(1) using "2.prems"(3) by (intro runs_owned_append [OF "2.prems"(1) rs(2)]) simp
  have le: "first_run \<le> length (ex_runs ex1)" "length (ex_runs ex) \<le> length (ex_runs ex1)" using "2.prems"(2) rs(1) by auto
  have st: "\<forall>(node, p) \<in> set stack. p = U32_MAX \<or> first_run \<le> to_usize p \<and> to_usize p < length (ex_runs ex1)"
    using "2.prems"(3) le(2) by (auto intro: less_le_trans)
  show ?case
  proof (cases ri)
    case None
    note unf = walk_inline_stack.simps(2) [of dec blk cell sh content_from first_run node parent stack prev ex, unfolded Let_def i None prod.case option.case]
    show ?thesis unfolding unf by (rule "2.IH"(1) [OF refl refl i [symmetric] None own1 le(1) st "2.prems"(4) [unfolded unf]])
  next
    case (Some k)
    note unf = walk_inline_stack.simps(2) [of dec blk cell sh content_from first_run node parent stack prev ex, unfolded Let_def i Some prod.case option.case]
    have "length (ex_runs ex1) < 4294967296"
      using "2.prems"(4) extends_runs [OF walk_stack_extends] unfolding unf by (meson le_less_trans)
    then have "to_usize (to_u32 (length (ex_runs ex1) - 1)) = length (ex_runs ex1) - 1" by (intro unat_to_u32) simp
    moreover have "k = to_u32 (length (ex_runs ex1) - 1)" "length (ex_runs ex) < length (ex_runs ex1)"
      using ok unfolding Some option.case by blast+
    ultimately have k: "to_usize k = length (ex_runs ex1) - 1" "length (ex_runs ex) < length (ex_runs ex1)" by simp_all
    have "\<forall>(node, p) \<in> set (map (\<lambda>ch. (ch, k)) (node_children node) @ stack). p = U32_MAX \<or> first_run \<le> to_usize p \<and> to_usize p < length (ex_runs ex1)"
      using st k "2.prems"(2) by auto
    then show ?thesis unfolding unf by (rule "2.IH"(2) [OF refl refl i [symmetric] Some refl refl own1 le(1) _ "2.prems"(4) [unfolded unf]])
  qed
qed

subsection \<open>Repairs after the walk\<close>

text \<open>A repair moves ranges of a leaf's runs: kinds, blocks, parents and everything else stay.\<close>

definition run_id :: "run_rec \<Rightarrow> u32 \<times> u32 \<times> u32" where
  "run_id r = (ru_kind r, ru_block r, ru_parent r)"

definition retouches :: "nat \<Rightarrow> extractor \<Rightarrow> extractor \<Rightarrow> bool" where
  "retouches first_run ex ex' =
     (ex_src ex' = ex_src ex \<and> ex_li ex' = ex_li ex \<and> ex_blocks ex' = ex_blocks ex \<and> ex_content ex' = ex_content ex \<and>
      ex_definitions ex' = ex_definitions ex \<and> ex_containers ex' = ex_containers ex \<and> ex_collect ex' = ex_collect ex \<and>
      ex_strings ex' = ex_strings ex \<and> map run_id (ex_runs ex') = map run_id (ex_runs ex) \<and>
      take first_run (ex_runs ex') = take first_run (ex_runs ex) \<and> (\<exists>ds. ex_deviations ex' = ex_deviations ex @ ds))"

lemma retouches_refl [simp, intro]: "retouches n ex ex" by (simp add: retouches_def)

lemma retouches_trans: "retouches n a b \<Longrightarrow> retouches n b c \<Longrightarrow> retouches n a c"
  by (auto simp: retouches_def)

lemma retouches_dev [intro]: "retouches n ex (dev rule ex)"
  by (simp add: retouches_def dev_def)

lemma retouches_if: "retouches n ex a \<Longrightarrow> retouches n ex b \<Longrightarrow> retouches n ex (if c then a else b)" by simp

lemma retouches_upd: "n \<le> i \<Longrightarrow> (\<And>r. run_id (f r) = run_id r) \<Longrightarrow> retouches n ex (upd_run i f ex)"
proof -
  assume a: "n \<le> i" "\<And>r. run_id (f r) = run_id r"
  have "map run_id ((ex_runs ex)[i := f (ex_runs ex ! i)]) = map run_id (ex_runs ex)" by (metis a(2) list_update_id map_update)
  then show ?thesis using a(1) by (simp add: retouches_def upd_run_def take_update_cancel)
qed

lemma retouches_fold:
  assumes "\<And>i ex. n \<le> i \<Longrightarrow> retouches n ex (f i ex)"
  shows "retouches n ex (fold f [n..<m] ex)"
proof -
  have "\<forall>i \<in> set is. n \<le> i \<Longrightarrow> retouches n ex (fold f is ex)" for "is"
    using assms by (induction "is" arbitrary: ex) (auto intro: retouches_trans)
  then show ?thesis by simp
qed

lemma check_delimiter_retouches: "n \<le> i \<Longrightarrow> retouches n ex (check_delimiter n spans i ex)"
proof -
  assume i: "n \<le> i"
  note upd = retouches_upd [OF i]
  have lt: "retouches n ex (refit_link_text i span ex)" for span
    unfolding refit_link_text_def Let_def by (intro retouches_if upd retouches_refl) (simp add: run_id_def)
  show ?thesis
    unfolding check_delimiter_def check_escape_def check_footnote_ref_def check_link_def check_emphasis_def Let_def
    by (intro retouches_if retouches_refl retouches_dev upd lt retouches_trans [OF lt retouches_dev]) (simp_all add: run_id_def)
qed

lemma refit_container_retouches: "n \<le> i \<Longrightarrow> retouches n ex (refit_container n spans i ex)"
  unfolding refit_container_def Let_def
  by (auto intro!: retouches_upd simp: run_id_def clear_link_def split: option.splits)

interpretation delimiters_kept: block_edit "check_delimiters first_run" for first_run
proof unfold_locales
  fix first_run ex
  have "retouches first_run ex (check_delimiters first_run ex)"
    unfolding check_delimiters_def by (rule retouches_fold) (rule check_delimiter_retouches)
  then show "keeps ex (check_delimiters first_run ex)" by (simp add: retouches_def keeps_def units_ok_def)
qed

lemma retouches_runs_owned: "retouches n ex ex' \<Longrightarrow> runs_owned blk n (ex_runs ex) \<Longrightarrow> runs_owned blk n (ex_runs ex')"
proof -
  assume r: "retouches n ex ex'" "runs_owned blk n (ex_runs ex)"
  have len: "length (ex_runs ex') = length (ex_runs ex)" using r(1) unfolding retouches_def by (metis length_map)
  have "run_id (ex_runs ex' ! i) = run_id (ex_runs ex ! i)" if "i < length (ex_runs ex)" for i
    using r(1) that len unfolding retouches_def by (metis nth_map)
  then show ?thesis using r(2) len by (auto simp: runs_owned_def run_id_def)
qed

text \<open>
  The walk of a leaf's inlines, and the repairs after it, append runs and findings and leave the rest of
  the extraction alone.
\<close>

lemma walk_inlines_frame:
  assumes "ex' = walk_inlines dec leaf blk cell sh ex"
  shows "ex_src ex' = ex_src ex \<and> ex_li ex' = ex_li ex \<and> ex_blocks ex' = ex_blocks ex \<and> ex_content ex' = ex_content ex \<and>
         ex_definitions ex' = ex_definitions ex \<and> ex_containers ex' = ex_containers ex \<and> ex_collect ex' = ex_collect ex \<and>
         (\<exists>ds. ex_deviations ex' = ex_deviations ex @ ds) \<and>
         take (length (ex_runs ex)) (ex_runs ex') = ex_runs ex \<and>
         list_all (\<lambda>r. ru_block r = blk) (drop (length (ex_runs ex)) (ex_runs ex')) \<and>
         (length (ex_runs ex') < 4294967296 \<longrightarrow> runs_owned blk (length (ex_runs ex)) (ex_runs ex'))"
proof -
  let ?n = "length (ex_runs ex)"
  let ?b = "ex_blocks ex ! to_usize blk"
  define ex0 where "ex0 = ex\<lparr>ex_run_delta := 0, ex_bare_cr_leaf := None, ex_last_text_end := blk_s ?b - 8\<rparr>"
  define ex1 where "ex1 = walk_inline_stack dec blk cell sh (to_usize (bl_content_offset ?b)) ?n
      (map (\<lambda>ch. (ch, U32_MAX)) (node_children leaf)) [None] ex0"
  define ex2 where "ex2 = (if ex_run_delta ex1 \<noteq> 0 then refit_containers ?n ex1 else ex1)"
  have ex': "ex' = check_delimiters ?n ex2" unfolding assms walk_inlines_def Let_def ex0_def [symmetric] ex1_def [symmetric] ex2_def by simp
  have x0: "extends (\<lambda>r. ru_block r = blk) ex ex0" by (simp add: extends_def ex0_def)
  have x1: "extends (\<lambda>r. ru_block r = blk) ex ex1" unfolding ex1_def using extends_trans [OF x0 walk_stack_extends] .
  have "retouches ?n ex1 ex2" unfolding ex2_def refit_containers_def
    by (auto intro!: retouches_fold refit_container_retouches)
  moreover have "retouches ?n ex2 ex'" unfolding ex' check_delimiters_def by (rule retouches_fold) (rule check_delimiter_retouches)
  ultimately have t: "retouches ?n ex1 ex'" by (rule retouches_trans)
  have len: "length (ex_runs ex') = length (ex_runs ex1)" using t unfolding retouches_def by (metis length_map)
  have "runs_owned blk ?n (ex_runs ex0)" by (auto simp: runs_owned_def ex0_def)
  then have "length (ex_runs ex1) < 4294967296 \<Longrightarrow> runs_owned blk ?n (ex_runs ex1)"
    unfolding ex1_def by (rule walk_stack_owned) (auto simp: ex0_def)
  then have "length (ex_runs ex') < 4294967296 \<longrightarrow> runs_owned blk ?n (ex_runs ex')" using retouches_runs_owned [OF t] len by simp
  moreover have "list_all (\<lambda>r. ru_block r = blk) (drop ?n (ex_runs ex'))"
  proof -
    have "map run_id (ex_runs ex') = map run_id (ex_runs ex1)" using t by (simp add: retouches_def)
    from arg_cong [OF this, of "map (\<lambda>i. fst (snd i))"]
    have "map (\<lambda>r. fst (snd (run_id r))) (ex_runs ex') = map (\<lambda>r. fst (snd (run_id r))) (ex_runs ex1)" by (simp add: comp_def)
    then have "map ru_block (drop ?n (ex_runs ex')) = map ru_block (drop ?n (ex_runs ex1))" by (simp add: run_id_def drop_map [symmetric])
    moreover have "\<forall>b \<in> set (map ru_block (drop ?n (ex_runs ex1))). b = blk" using extends_runs [OF x1] by (simp add: list_all_iff)
    ultimately show ?thesis by (metis (mono_tags, lifting) image_eqI list.set_map list_all_iff)
  qed
  moreover have "take ?n (ex_runs ex') = ex_runs ex" using t extends_runs [OF x1] by (simp add: retouches_def)
  moreover have "\<exists>ds. ex_deviations ex' = ex_deviations ex @ ds"
    using t x1 unfolding retouches_def extends_def by (elim conjE exE) simp
  ultimately show ?thesis using t extends_same [OF x1] by (simp add: retouches_def)
qed

text \<open>
  Extracting a leaf's inlines leaves every block, content record and earlier run as it was, and the
  runs it appends all name the leaf's block; each one's parent is the leaf or a run of the
  same leaf emitted before it, whatever positions the repairs moved.
\<close>

lemma walk_inlines_owned:
  assumes "ex' = walk_inlines dec leaf blk cell sh ex" "length (ex_runs ex') < 4294967296"
  shows "ex_blocks ex' = ex_blocks ex \<and> ex_content ex' = ex_content ex \<and> take (length (ex_runs ex)) (ex_runs ex') = ex_runs ex \<and>
         runs_owned blk (length (ex_runs ex)) (ex_runs ex')"
  using walk_inlines_frame [OF assms(1)] assms(2) by blast

definition inline_leaf :: ast where
  "inline_leaf =
     (let p = (\<lambda>a b. \<lparr>sp_start = \<lparr>lc_line = 1, lc_column = a\<rparr>, sp_end = \<lparr>lc_line = 1, lc_column = b\<rparr>\<rparr>)
      in Node Paragraph (p 1 3) [Node OtherInline (p 1 3) []])"

end
