(* ===== verification/Flark_Leaf.thy ===== *)
theory Flark_Leaf
  imports Flark_Walk
begin

text \<open>
  The leaves of \<^verbatim>\<open>native/flark_parse/src/model.rs\<close>: a leaf's content records by its kind, its inline
  runs and their settling (\<open>leaf_pass\<close>), the reference definitions comrak took from a leaf's start
  (\<open>strip_definitions\<close>) and those it took whole (\<open>gap_definitions\<close>).
\<close>

subsection \<open>Code blocks\<close>

text \<open>\<^verbatim>\<open>replace("\r\n", "\n").replace('\r', "\n")\<close>.\<close>

fun normalize_newlines :: "bytes \<Rightarrow> bytes" where
  "normalize_newlines [] = []"
| "normalize_newlines [b] = [if b = CR then LF else b]"
| "normalize_newlines (a # b # bs) =
     (if a = CR then (if b = LF then LF # normalize_newlines bs else LF # normalize_newlines (b # bs))
      else a # normalize_newlines (b # bs))"

definition trim_end_lf :: "bytes \<Rightarrow> bytes" where
  "trim_end_lf t = rev (dropWhile (\<lambda>b. b = LF) (rev t))"

text \<open>The info string of a fenced block: what follows the fence on its line, without the space around it.\<close>

definition info_range :: "extractor \<Rightarrow> byte \<Rightarrow> nat \<Rightarrow> container list \<Rightarrow> nat \<times> nat" where
  "info_range ex fence_char l0 ch =
     (let bs = ex_src ex; le = line_end (ex_li ex) l0;
          q0 = scan_fwd is_blank bs (line_start (ex_li ex) l0 + cur_pos (px_cur (prefix_at ex l0 ch))) le;
          q1 = scan_fwd (\<lambda>b. b = fence_char) bs q0 le;
          q = scan_fwd is_blank bs q1 le
      in (q, scan_bwd is_blank bs q le))"

definition literal_line_count :: "bytes \<Rightarrow> nat" where
  "literal_line_count lit = (if lit = [] then 0 else count_lf lit + (if last lit \<noteq> LF then 1 else 0))"

text \<open>The first and last content line; \<^verbatim>\<open>wrapping_sub\<close> makes the range empty for an empty literal.\<close>

definition code_line_range :: "node_code_block \<Rightarrow> nat \<Rightarrow> nat \<Rightarrow> nat \<Rightarrow> nat \<times> nat" where
  "code_line_range c n_lines l0 l1 =
     (let n = literal_line_count (normalize_newlines (cb_literal c));
          first = (if cb_fenced c then l0 + 1 else l0);
          lst = (if cb_fenced c \<and> cb_closed c \<and> l0 < l1 then l1 - 1
                 else if n = 0 then (if first = 0 then USIZE_MAX else first - 1)
                 else min (first + n - 1) (n_lines - 1))
      in (first, lst))"

definition push_code_line :: "nat \<Rightarrow> container list \<Rightarrow> nat \<Rightarrow> extractor \<times> bytes \<Rightarrow> extractor \<times> bytes" where
  "push_code_line remove ch line0 st =
     (case st of (ex, derived) \<Rightarrow>
        (let p = prefix_at ex line0 ch; ls = line_start (ex_li ex) line0; le = line_end (ex_li ex) line0;
             cur = fst (consume_columns remove (px_cur p)); cs = ls + cur_pos cur
         in (push_content line0 cs le (cur_virt cur) (ls + px_prefix_start p) ex,
             if ex_collect ex then derived @ replicate (cur_virt cur) (CHR '' '') @ seg (ex_src ex) cs le @ [LF] else derived)))"

definition code_block_lines :: "nat \<Rightarrow> node_code_block \<Rightarrow> nat \<Rightarrow> nat \<Rightarrow> container list \<Rightarrow> extractor \<Rightarrow> extractor" where
  "code_block_lines idx c l0 l1 ch ex =
     (let info = info_range ex (cb_fence_char c) l0 ch;
          ex0 = (if cb_fenced c then upd_block idx (\<lambda>b. b\<lparr>bl_attr1 := to_u32 (fst info), bl_attr2 := to_u32 (snd info)\<rparr>) ex else ex);
          rng = code_line_range c (line_count (ex_li ex)) l0 l1;
          remove = (if cb_fenced c then cb_fence_offset c else 4)
      in case fold (push_code_line remove ch) [fst rng..<snd rng + 1] (ex0, []) of
           (ex1, derived) \<Rightarrow>
             if ex_collect ex1 \<and> trim_end_lf derived \<noteq> trim_end_lf (normalize_newlines (cb_literal c))
             then dev ''code-content'' ex1 else ex1)"

subsection \<open>Reference definitions\<close>

definition check_split_paragraph_end :: "ast \<Rightarrow> nat \<Rightarrow> extractor \<Rightarrow> extractor" where
  "check_split_paragraph_end node e ex =
     (let ends = map (\<lambda>n. lc_line (sp_end (node_pos n))) (tl (descendants node))
      in if ends = [] \<or> fold max ends 0 \<noteq> e then dev ''split-paragraph-end'' ex else ex)"

definition check_stripped_definitions :: "nat \<Rightarrow> nat \<Rightarrow> extractor \<Rightarrow> extractor" where
  "check_stripped_definitions first_run first_definition ex =
     (if length (ex_definitions ex) \<le> first_definition then ex
      else
        (let lo = def_start (ex_definitions ex ! first_definition); hi = def_end (last (ex_definitions ex))
         in if list_ex (\<lambda>r. run_s r < hi \<and> lo < run_e r) (drop first_run (ex_runs ex))
            then dev ''definition-inline'' ex else ex))"

text \<open>One definition of a line buffer in the source, through its last line's terminator.\<close>

definition buffer_definition_line :: "line_buffer \<Rightarrow> line_span list \<Rightarrow> buffer_definition \<Rightarrow> nat" where
  "buffer_definition_line buffer lines d =
     min (partition_point (\<lambda>start. start < bd_end d) (lb_starts buffer) - 1) (length lines - 1)"

definition source_definition :: "extractor \<Rightarrow> line_buffer \<Rightarrow> line_span list \<Rightarrow> buffer_definition \<Rightarrow> definition_rec" where
  "source_definition ex buffer lines d =
     (let at = buffer_byte buffer lines
      in \<lparr>def_start = at (bd_start d),
          def_end = line_end_with_break (ex_li ex) (ls_line0 (lines ! buffer_definition_line buffer lines d)) (length (ex_src ex)),
          def_label = (at (fst (bd_label d)), at (snd (bd_label d))),
          def_dest = (at (fst (bd_dest d)), at (snd (bd_dest d)))\<rparr>)"

definition gap_blank :: "byte \<Rightarrow> bool" where
  "gap_blank b = (b = CHR '' '' \<or> b = TAB \<or> b = CR \<or> b = LF)"

text \<open>What the definitions leave of the lines is nothing, or the checkbox of the item they belong to.\<close>

definition remainder_ok :: "bytes \<Rightarrow> line_buffer \<Rightarrow> line_span list \<Rightarrow> nat \<Rightarrow> (nat \<times> nat) option \<Rightarrow> bool" where
  "remainder_ok src buffer lines tail checkbox =
     (let rest = drop (min tail (length (lb_text buffer))) (lb_text buffer);
          lead = length (takeWhile gap_blank rest);
          left = rev (dropWhile gap_blank (rev (dropWhile gap_blank rest)));
          at = buffer_byte buffer lines (tail + lead)
      in left = [] \<or>
         (LF \<notin> set left \<and>
          (case checkbox of
             None \<Rightarrow> False
           | Some (start, e) \<Rightarrow> at = start \<and> at + length left \<le> e \<and> list_all is_blank (seg src (at + length left) e))))"

definition record_buffer_definitions ::
    "line_span list \<Rightarrow> line_buffer \<Rightarrow> buffer_definition list \<Rightarrow> bool \<Rightarrow> (nat \<times> nat) option \<Rightarrow> extractor \<Rightarrow> nat \<times> extractor" where
  "record_buffer_definitions lines buffer defs exact checkbox ex =
     (let ex1 = ex\<lparr>ex_definitions := ex_definitions ex @ map (source_definition ex buffer lines) defs\<rparr>;
          n = (if defs = [] then 0 else buffer_definition_line buffer lines (last defs) + 1);
          tail = (if defs = [] then 0 else bd_end (last defs))
      in (n, if exact \<and> \<not> remainder_ok (ex_src ex) buffer lines tail checkbox then dev ''definition-gap'' ex1 else ex1))"

definition strip_definitions :: "nat \<Rightarrow> nat \<Rightarrow> container list \<Rightarrow> bool \<Rightarrow> extractor \<Rightarrow> (shift option \<times> line_span list) \<times> extractor" where
  "strip_definitions l0 l1 ch allow ex =
     (let lines = map (\<lambda>l. para_line ex l ch) [l0..<l1 + 1];
          written = (if list_ex (\<lambda>c. ct_checkbox c \<noteq> None) ch
                     then map (\<lambda>l. para_line ex l (map (\<lambda>c. c\<lparr>ct_checkbox := None\<rparr>) ch)) [l0..<l1 + 1] else lines);
          first_byte = (case written of [] \<Rightarrow> None | l # _ \<Rightarrow> byte_at (ex_src ex) (ls_start l));
          buffer = line_buffer_new (ex_src ex) (ex_li ex) written;
          defs = (if allow \<and> first_byte = Some (CHR ''['') then paragraph_definitions (lb_text buffer) else []);
          (def_lines, ex1) = (if defs = [] then (0, ex) else record_buffer_definitions written buffer defs False None ex);
          needs_geometry = 0 < def_lines \<or> list_ex (\<lambda>l. 0 < ls_virt l) written
      in ((if needs_geometry then Some \<lparr>sh_lines = written, sh_def_lines = def_lines\<rparr> else None, drop def_lines lines), ex1))"

subsection \<open>Definitions without a block\<close>

definition mark_block :: "nat \<Rightarrow> block_rec \<Rightarrow> bool list \<Rightarrow> bool list" where
  "mark_block lines b covered =
     (let fl = to_usize (bl_first_line b); n = to_usize (bl_line_count b)
      in fold (\<lambda>l c. c[l := True]) [fl..<min (fl + n) lines] covered)"

definition container_lines :: "extractor \<Rightarrow> container_node \<Rightarrow> nat \<times> nat" where
  "container_lines ex c =
     (let b = ex_blocks ex ! cn_block c; fl = to_usize (bl_first_line b); n = to_usize (bl_line_count b)
      in (fl, if fl + n = 0 then USIZE_MAX else fl + n - 1))"

text \<open>Whether the line's container is the scope or one above it; parents come first (\<open>containers_ok\<close>).\<close>

function scope_related :: "container_node list \<Rightarrow> nat option \<Rightarrow> nat option \<Rightarrow> bool" where
  "scope_related cs owner None = (owner = None)"
| "scope_related cs owner (Some i) =
     (owner = Some i \<or>
      (case cn_parent (cs ! i) of
         None \<Rightarrow> owner = None
       | Some p \<Rightarrow> if p < i then scope_related cs owner (Some p) else False))"
  by pat_completeness auto
termination
  by (relation "measure (\<lambda>(cs, owner, up). case up of None \<Rightarrow> 0 | Some i \<Rightarrow> Suc i)") auto

declare scope_related.simps [simp del]

text \<open>The uncovered non-blank lines that continue a removed paragraph, and the line after them.\<close>

function gap_lines :: "extractor \<Rightarrow> bool list \<Rightarrow> nat option list \<Rightarrow> nat option \<Rightarrow> container list \<Rightarrow> nat \<Rightarrow> line_span list \<times> nat" where
  "gap_lines ex covered owner scope ch l =
     (let sp = para_line ex l ch
      in if l < line_count (ex_li ex) \<and> \<not> covered ! l \<and> scope_related (ex_containers ex) (owner ! l) scope \<and> ls_start sp < ls_end sp
         then (case gap_lines ex covered owner scope ch (l + 1) of (spans, l') \<Rightarrow> (sp # spans, l'))
         else ([], l))"
  by pat_completeness auto
termination
  by (relation "measure (\<lambda>(ex, covered, owner, scope, ch, l). line_count (ex_li ex) - l)") auto

declare gap_lines.simps [simp del]

lemma gap_lines_le: "gap_lines ex covered owner scope ch l = (spans, l') \<Longrightarrow> l \<le> l'"
proof (induction ex covered owner scope ch l arbitrary: spans l' rule: gap_lines.induct)
  case (1 ex covered owner scope ch l)
  let ?go = "l < line_count (ex_li ex) \<and> \<not> covered ! l \<and> scope_related (ex_containers ex) (owner ! l) scope \<and>
    ls_start (para_line ex l ch) < ls_end (para_line ex l ch)"
  show ?case
  proof (cases ?go)
    case True
    obtain spans1 l1 where r: "gap_lines ex covered owner scope ch (l + 1) = (spans1, l1)" by force
    then have "l1 = l'" using "1.prems" True by (simp add: gap_lines.simps [of ex covered owner scope ch l] Let_def)
    then show ?thesis using "1.IH" [OF refl True r] by simp
  next
    case False
    then show ?thesis using "1.prems" by (auto simp: gap_lines.simps [of ex covered owner scope ch l] Let_def)
  qed
qed

definition record_gap :: "nat option \<Rightarrow> line_span list \<Rightarrow> extractor \<Rightarrow> extractor" where
  "record_gap scope lines ex =
     (let buffer = line_buffer_new (ex_src ex) (ex_li ex) lines; defs = paragraph_definitions (lb_text buffer)
      in if defs = [] then dev ''uncovered-lines'' ex
         else snd (record_buffer_definitions lines buffer defs True
                     (case scope of None \<Rightarrow> None | Some i \<Rightarrow> ct_checkbox (cn_container (ex_containers ex ! i))) ex))"

lemma record_gap_li [simp]: "ex_li (record_gap scope lines ex) = ex_li ex" "ex_containers (record_gap scope lines ex) = ex_containers ex"
  by (simp_all add: record_gap_def record_buffer_definitions_def Let_def)

function gap_loop :: "bool list \<Rightarrow> nat option list \<Rightarrow> nat \<Rightarrow> extractor \<Rightarrow> extractor" where
  "gap_loop covered owner line0 ex =
     (if line0 < line_count (ex_li ex) then
        (let scope = owner ! line0; ch = chain ex scope; span = para_line ex line0 ch
         in if covered ! line0 \<or> ls_end span \<le> ls_start span \<or> px_lazy (prefix_at ex line0 ch)
            then gap_loop covered owner (line0 + 1) ex
            else
              (case gap_lines ex covered owner scope ch (line0 + 1) of
                 (spans, l) \<Rightarrow> gap_loop covered owner l (record_gap scope (span # spans) ex)))
      else ex)"
  by pat_completeness auto
termination
  by (relation "measure (\<lambda>(covered, owner, line0, ex). line_count (ex_li ex) - line0)")
     (auto dest!: sym [of _ "gap_lines _ _ _ _ _ _"] sym [of "(_, _)" "gap_lines _ _ _ _ _ _"] gap_lines_le)

declare gap_loop.simps [simp del]

definition gap_definitions :: "leaf list \<Rightarrow> extractor \<Rightarrow> extractor" where
  "gap_definitions leaves ex =
     (let lines = line_count (ex_li ex);
          covered0 = fold (\<lambda>lf. mark_block lines (ex_blocks ex ! lf_idx lf)) leaves (replicate lines False);
          covered = fold (mark_block lines) (filter (\<lambda>b. bl_kind b = BK_TABLE) (ex_blocks ex)) covered0
      in if list_all (\<lambda>c. c) covered then ex
         else gap_loop covered (innermost_per_line lines [] (map (container_lines ex) (ex_containers ex))) 0 ex)"

subsection \<open>One leaf\<close>

definition set_bytes :: "line_index \<Rightarrow> nat \<Rightarrow> nat \<Rightarrow> block_rec \<Rightarrow> block_rec" where
  "set_bytes li s e b =
     b\<lparr>bl_start_byte := to_u32 s, bl_start_utf16 := u16 li s, bl_end_byte := to_u32 e, bl_end_utf16 := u16 li e\<rparr>"

text \<open>The lines of an HTML block, up to the block's end; then the block ends with its last line.\<close>

fun html_lines :: "container list \<Rightarrow> nat \<Rightarrow> nat \<Rightarrow> nat \<Rightarrow> nat list \<Rightarrow> extractor \<Rightarrow> extractor" where
  "html_lines ch l0 bs be [] ex = ex"
| "html_lines ch l0 bs be (line0 # lines) ex =
     (let p = prefix_at ex line0 ch; ls = line_start (ex_li ex) line0;
          cs = max (ls + cur_pos (px_cur p)) (if line0 = l0 then bs else 0);
          le = line_end (ex_li ex) line0
      in if be < cs then ex
         else html_lines ch l0 bs be lines
                (push_content line0 cs (min le (max be cs)) (cur_virt (px_cur p)) (ls + px_prefix_start p) ex))"

definition html_block_leaf :: "nat \<Rightarrow> nat \<Rightarrow> nat \<Rightarrow> container list \<Rightarrow> nat \<Rightarrow> extractor \<Rightarrow> extractor" where
  "html_block_leaf idx l0 l1 ch content_start ex =
     (let be = blk_e (ex_blocks ex ! idx);
          ex1 = html_lines ch l0 (blk_s (ex_blocks ex ! idx)) be [l0..<l1 + 1] ex
      in if length (ex_content ex1) \<le> content_start then ex1
         else
           (let le = line_end (ex_li ex1) (to_usize (co_line (last (ex_content ex1))))
            in if le < be then upd_block idx (\<lambda>b. b\<lparr>bl_end_byte := to_u32 le, bl_end_utf16 := u16 (ex_li ex1) le\<rparr>) ex1 else ex1))"

definition thematic_break_leaf :: "nat \<Rightarrow> nat \<Rightarrow> container list \<Rightarrow> extractor \<Rightarrow> extractor" where
  "thematic_break_leaf idx l0 ch ex =
     (let cs = line_start (ex_li ex) l0 + cur_pos (skip_whitespace (px_cur (prefix_at ex l0 ch)))
      in upd_block idx (set_bytes (ex_li ex) cs (trimmed_end (ex_src ex) (ex_li ex) l0 cs)) ex)"

text \<open>
  A cell of a body row inherits the header's column; the cell's own range, without the delimiter an
  implicit cell points at; and where its text ends before a closing pipe.
\<close>

definition cell_column_delta :: "extractor \<Rightarrow> (node_value \<times> sourcepos) option \<Rightarrow> nat \<Rightarrow> container list \<Rightarrow> int" where
  "cell_column_delta ex parent l0 ch =
     (case parent of
        Some (TableRow False, sp) \<Rightarrow>
          int (cur_pos (skip_whitespace (px_cur (prefix_at ex l0 ch))) + 1) - int (lc_column (sp_start sp))
      | _ \<Rightarrow> 0)"

definition cell_range :: "extractor \<Rightarrow> ast \<Rightarrow> int \<Rightarrow> nat \<Rightarrow> nat \<times> nat" where
  "cell_range ex node delta l0 =
     (let rng = (case sourcepos_range (shift_columns delta (node_pos node)) (ex_li ex) (length (ex_src ex)) of
                   None \<Rightarrow> (0, 0) | Some r \<Rightarrow> r);
          ce = min (snd rng) (line_end (ex_li ex) l0); cs = min (fst rng) ce
      in (cs, if cs < ce \<and> ex_src ex ! cs = CHR ''|'' \<and> node_children node = [] then cs else ce))"

definition cell_text :: "extractor \<Rightarrow> nat \<Rightarrow> nat \<times> nat \<Rightarrow> nat \<times> nat" where
  "cell_text ex l0 rng =
     (let bs = ex_src ex; a = scan_fwd (\<lambda>b. b = CHR '' '') bs (fst rng) (snd rng); e = snd rng
      in (a, if a < e \<and> e < line_end (ex_li ex) l0 \<and> bs ! e = CHR ''|'' \<and> is_blank (bs ! (e - 1)) then e - 1 else e))"

definition table_cell_leaf :: "(bytes \<Rightarrow> bytes) \<Rightarrow> leaf \<Rightarrow> nat \<Rightarrow> container list \<Rightarrow> extractor \<Rightarrow> extractor" where
  "table_cell_leaf dec lf l0 ch ex =
     (let delta = cell_column_delta ex (lf_parent lf) l0 ch;
          rng = cell_range ex (lf_node lf) delta l0; txt = cell_text ex l0 rng;
          ex1 = upd_block (lf_idx lf) (set_bytes (ex_li ex) (fst rng) (snd rng)) ex;
          ex2 = push_content l0 (fst txt) (snd txt) 0 (fst txt) ex1
      in walk_inlines dec (lf_node lf) (to_u32 (lf_idx lf)) (Some \<lparr>cl_start = fst rng, cl_column_delta = delta\<rparr>) None ex2)"

text \<open>The text of an ATX heading between its opening marker and its closing sequence.\<close>

definition atx_content :: "extractor \<Rightarrow> nat \<Rightarrow> line_span \<Rightarrow> nat \<times> nat" where
  "atx_content ex l0 sp =
     (let bs = ex_src ex; le = line_end (ex_li ex) l0;
          hashes = scan_fwd (\<lambda>b. b = CHR ''#'') bs (ls_start sp) (ls_end sp);
          cs = scan_fwd is_blank bs hashes le;
          q = scan_bwd (\<lambda>b. b = CHR ''#'') bs cs (ls_end sp)
      in (cs, if q < ls_end sp \<and> (q = cs \<or> is_blank (bs ! (q - 1))) then (if cs < q then q - 1 else q) else le))"

definition atx_heading_leaf :: "(bytes \<Rightarrow> bytes) \<Rightarrow> leaf \<Rightarrow> nat \<Rightarrow> container list \<Rightarrow> extractor \<Rightarrow> extractor" where
  "atx_heading_leaf dec lf l0 ch ex =
     (case children_span (lf_node lf) None None ex of
        ((span_s, span_e), ex1) \<Rightarrow>
          (let sp = para_line ex1 l0 ch; rng = atx_content ex1 l0 sp;
               ex2 = (if span_s < span_e \<and> (span_s < fst rng \<or> snd rng < span_e) then dev ''heading-content'' ex1 else ex1);
               ex3 = push_content l0 (fst rng) (snd rng) 0 (ls_prefix_start sp) ex2
           in walk_inlines dec (lf_node lf) (to_u32 (lf_idx lf)) None None ex3))"

text \<open>A paragraph directly above a table that starts on the line after it was split to make the table's header.\<close>

definition split_by_table :: "extractor \<Rightarrow> nat \<Rightarrow> nat \<Rightarrow> bool" where
  "split_by_table ex idx l1 =
     (bl_kind (ex_blocks ex ! idx) = BK_PARAGRAPH \<and>
      (case get_item (ex_blocks ex) (idx + 1) of
         None \<Rightarrow> False
       | Some b \<Rightarrow> bl_kind b = BK_TABLE \<and> to_usize (bl_first_line b) = l1 + 1))"

definition push_record :: "line_span \<Rightarrow> extractor \<Rightarrow> extractor" where
  "push_record r ex = push_content (ls_line0 r) (ls_start r) (line_end (ex_li ex) (ls_line0 r)) 0 (ls_prefix_start r) ex"

definition paragraph_leaf :: "(bytes \<Rightarrow> bytes) \<Rightarrow> leaf \<Rightarrow> nat \<Rightarrow> nat \<Rightarrow> container list \<Rightarrow> nat \<Rightarrow> extractor \<Rightarrow> extractor" where
  "paragraph_leaf dec lf l0 l1 ch first_run ex =
     (let idx = lf_idx lf; b = ex_blocks ex ! idx;
          lst = (if bl_kind b = BK_HEADING then max (l1 - 1) l0 else l1);
          split = split_by_table ex idx l1;
          led_by_checkbox = px_after_checkbox (prefix_at ex l0 ch);
          first_definition = length (ex_definitions ex)
      in case strip_definitions l0 lst ch ((\<not> split \<or> lf_setext_definitions lf) \<and> \<not> led_by_checkbox) ex of
           ((sh, records), ex1) \<Rightarrow>
             (let ex2 = fold push_record records ex1;
                  pipes = (if split then Some \<lparr>cl_start = blk_s (ex_blocks ex2 ! idx), cl_column_delta = 0\<rparr> else None);
                  ex3 = walk_inlines dec (lf_node lf) (to_u32 idx) pipes sh ex2;
                  ex4 = check_stripped_definitions first_run first_definition ex3
              in case lf_split_end lf of None \<Rightarrow> ex4 | Some e \<Rightarrow> check_split_paragraph_end (lf_node lf) e ex4))"

definition leaf_content :: "(bytes \<Rightarrow> bytes) \<Rightarrow> leaf \<Rightarrow> container list \<Rightarrow> nat \<Rightarrow> nat \<Rightarrow> extractor \<Rightarrow> extractor" where
  "leaf_content dec lf ch content_start first_run ex =
     (let sp = node_pos (lf_node lf); l0 = lc_line (sp_start sp) - 1; l1 = lc_line (sp_end sp) - 1
      in case node_val (lf_node lf) of
           CodeBlock c \<Rightarrow> code_block_lines (lf_idx lf) c l0 l1 ch ex
         | HtmlBlock \<Rightarrow> html_block_leaf (lf_idx lf) l0 l1 ch content_start ex
         | ThematicBreak \<Rightarrow> thematic_break_leaf (lf_idx lf) l0 ch ex
         | TableCell \<Rightarrow> table_cell_leaf dec lf l0 ch ex
         | Heading h \<Rightarrow> if hd_setext h then paragraph_leaf dec lf l0 l1 ch first_run ex else atx_heading_leaf dec lf l0 ch ex
         | Paragraph \<Rightarrow> paragraph_leaf dec lf l0 l1 ch first_run ex
         | _ \<Rightarrow> walk_inlines dec (lf_node lf) (to_u32 (lf_idx lf)) None None ex)"

definition has_inlines :: "node_value \<Rightarrow> bool" where
  "has_inlines v = (case v of CodeBlock _ \<Rightarrow> False | HtmlBlock \<Rightarrow> False | ThematicBreak \<Rightarrow> False | _ \<Rightarrow> True)"

definition leaf_pass :: "(bytes \<Rightarrow> bytes) \<Rightarrow> leaf \<Rightarrow> container list \<Rightarrow> extractor \<Rightarrow> extractor" where
  "leaf_pass dec lf ch ex =
     (let idx = lf_idx lf; content_start = length (ex_content ex);
          first_run = length (ex_runs ex); first_deviation = length (ex_deviations ex);
          ex1 = upd_block idx (\<lambda>b. b\<lparr>bl_content_offset := to_u32 content_start\<rparr>) ex
      in if lc_line (sp_start (node_pos (lf_node lf))) = 0 then ex1
         else
           (let ex2 = leaf_content dec lf ch content_start first_run ex1;
                ex3 = (if has_inlines (node_val (lf_node lf)) then settle_inlines idx first_run first_deviation content_start ex2 else ex2);
                ex4 = upd_block idx (\<lambda>b. b\<lparr>bl_content_count := to_u32 (length (ex_content ex3)) - to_u32 content_start\<rparr>) ex3
            in fit_block_to_runs idx first_run (trim_trailing_blank_lines idx ch (fit_block_to_content idx ex4))))"

end
