(* ===== verification/Flark_Encode.thy ===== *)
theory Flark_Encode
  imports Flark_Leaf
begin

text \<open>
  Publishing: \<^verbatim>\<open>Extractor::encode\<close> and \<^verbatim>\<open>to_bytes\<close> of \<^verbatim>\<open>native/flark_parse/src/model.rs\<close>. The internal
  records become wire records with UTF-16 offsets only, content records in block order, and one
  extras section for the values only some kinds carry; the string table closes the
  model as little-endian words. Each group of records is encoded to the wire
  records of \<open>Flark_Schema\<close>, which \<open>encode_words\<close> lays out.
\<close>

unbundle bit_operations_syntax

subsection \<open>First runs\<close>

function advance_run :: "run_rec list \<Rightarrow> nat \<Rightarrow> nat \<Rightarrow> nat" where
  "advance_run runs b r =
     (if r < length runs \<and> to_usize (ru_block (runs ! r)) < b then advance_run runs b (r + 1) else r)"
  by pat_completeness auto
termination
  by (relation "measure (\<lambda>(runs, b, r). length runs - r)") auto

declare advance_run.simps [simp del]

fun first_run_loop :: "run_rec list \<Rightarrow> nat list \<Rightarrow> nat \<Rightarrow> u32 list" where
  "first_run_loop runs [] r = []"
| "first_run_loop runs (b # bs) r = (let r' = advance_run runs b r in to_u32 r' # first_run_loop runs bs r')"

text \<open>Block \<open>b\<close> owns the runs from entry \<open>b\<close> to entry \<open>b + 1\<close>.\<close>

definition first_runs :: "run_rec list \<Rightarrow> nat \<Rightarrow> u32 list" where
  "first_runs runs nb = first_run_loop runs [0..<nb + 1] 0"

subsection \<open>Blocks and content\<close>

text \<open>What a block of its kind carries beside its record, and the flags and attribute of its record.\<close>

definition block_extra :: "line_index \<Rightarrow> block_rec \<Rightarrow> extra option" where
  "block_extra li b =
     (let k = bl_kind b; at = (\<lambda>w. u16 li (to_usize w))
      in if k = BK_CODE_BLOCK \<and> bl_flags b AND 1 \<noteq> 0 then Some (CodeBlockExtra (at (bl_attr1 b)) (at (bl_attr2 b)))
         else if k = BK_ITEM then Some (ItemExtra (bl_marker_end_utf16 b) (at (bl_attr1 b)) (at (bl_attr2 b)))
         else if k = BK_TABLE then Some (TableExtra (bl_attr1 b))
         else if k = BK_FOOTNOTE_DEFINITION then Some (FootnoteDefinitionExtra (at (bl_attr1 b)) (at (bl_attr2 b)))
         else None)"

definition wire_flags :: "block_rec \<Rightarrow> u32" where
  "wire_flags b = (if bl_kind b = BK_LIST then bl_flags b OR push_bit 1 (bl_attr0 b AND 1) else bl_flags b)"

definition wire_attr :: "block_rec \<Rightarrow> u32" where
  "wire_attr b = (if bl_kind b = BK_LIST then bl_attr1 b else bl_attr0 b)"

definition encode_content :: "content_rec \<Rightarrow> wire_content" where
  "encode_content c =
     \<lparr>wc_start = co_start_utf16 c, wc_end16 = co_end_utf16 c, wc_prefix_start = co_prefix_start_utf16 c,
      wc_line_virtual = co_line c OR push_bit VIRTUAL_SHIFT (co_virtual_leading_spaces c)\<rparr>"

definition content_overflows :: "content_rec \<Rightarrow> bool" where
  "content_overflows c = (LINE_MASK < co_line c \<or> VIRTUAL_MASK < co_virtual_leading_spaces c)"

text \<open>\<^verbatim>\<open>&self.content[co..co + cn]\<close> for a block.\<close>

definition block_content :: "content_rec list \<Rightarrow> block_rec \<Rightarrow> content_rec list" where
  "block_content content b =
     seg content (to_usize (bl_content_offset b)) (to_usize (bl_content_offset b) + to_usize (bl_content_count b))"

text \<open>The sections as they grow: the extras' words, block and content records.\<close>

record sections =
  sc_extras :: "u32 list"
  sc_blocks :: "wire_block list"
  sc_content :: "wire_content list"
  sc_overflow :: bool

definition encode_block :: "line_index \<Rightarrow> content_rec list \<Rightarrow> block_rec \<times> u32 \<Rightarrow> sections \<Rightarrow> sections" where
  "encode_block li content br sc =
     (case br of (b, first_run) \<Rightarrow>
        (let x = block_extra li b; cs = block_content content b
         in sc\<lparr>sc_extras := sc_extras sc @ (case x of None \<Rightarrow> [] | Some e \<Rightarrow> extra_words e),
               sc_blocks := sc_blocks sc @
                 [\<lparr>wb_kind_flags = bl_kind b OR push_bit KIND_FLAGS_FLAGS_SHIFT (wire_flags b), wb_parent = bl_parent b,
                   wb_start = bl_start_utf16 b, wb_end16 = bl_end_utf16 b, wb_first_line = bl_first_line b,
                   wb_line_count = bl_line_count b, wb_content_offset = to_u32 (length (sc_content sc)),
                   wb_first_run = first_run, wb_attr = wire_attr b,
                   wb_extra = (if x = None then EXTRA_NONE else to_u32 (length (sc_extras sc)))\<rparr>],
               sc_content := sc_content sc @ map encode_content cs,
               sc_overflow := sc_overflow sc \<or> list_ex content_overflows cs\<rparr>))"

definition encode_blocks :: "extractor \<Rightarrow> sections" where
  "encode_blocks ex =
     fold (encode_block (ex_li ex) (ex_content ex)) (zip (ex_blocks ex) (first_runs (ex_runs ex) (length (ex_blocks ex))))
       \<lparr>sc_extras = [], sc_blocks = [], sc_content = [], sc_overflow = False\<rparr>"

subsection \<open>Runs\<close>

abbreviation (input) WIDE :: u32 where "WIDE \<equiv> 0xFFFF"

definition run_extra :: "line_index \<Rightarrow> run_rec \<Rightarrow> extra option" where
  "run_extra li r =
     (let k = ru_kind r; at = (\<lambda>w. u16 li (to_usize w))
      in if k = RK_LINK \<or> k = RK_IMAGE \<or> k = RK_AUTOLINK then
           Some (LinkExtra (at (ru_aux0 r)) (at (ru_aux1 r)) (at (ru_aux2 r)) (at (ru_aux3 r))
                   (ru_destination_offset r) (ru_destination_length r) (ru_title_offset r) (ru_title_length r))
         else if k = RK_REPLACEMENT then Some (DisplayTextExtra (ru_aux0 r) (ru_aux1 r))
         else if k = RK_CODE \<and> ru_flags r AND 2 \<noteq> 0 then Some (DisplayTextExtra (ru_aux2 r) (ru_aux3 r))
         else if k = RK_FOOTNOTE_REF then Some (FootnoteRefExtra (at (ru_aux0 r)) (at (ru_aux1 r)))
         else None)"

definition run_before :: "run_rec \<Rightarrow> u32" where
  "run_before r = ru_content_start_utf16 r - ru_start_utf16 r"

definition run_after :: "run_rec \<Rightarrow> u32" where
  "run_after r = ru_end_utf16 r - ru_content_end_utf16 r"

definition run_distance :: "nat \<Rightarrow> run_rec \<Rightarrow> u32" where
  "run_distance i r = (if ru_parent r = U32_MAX then 0 else to_u32 i - ru_parent r)"

definition is_wide :: "nat \<Rightarrow> run_rec \<Rightarrow> bool" where
  "is_wide i r = (WIDE \<le> run_before r \<or> WIDE \<le> run_after r \<or> WIDE \<le> run_distance i r)"

definition wire_run_flags :: "nat \<Rightarrow> run_rec \<Rightarrow> u32" where
  "wire_run_flags i r =
     ((ru_flags r AND 3) OR push_bit 2 (drop_bit 8 (ru_flags r) AND 1)) OR (if is_wide i r then 8 else 0)"

definition run_extra_words :: "line_index \<Rightarrow> nat \<Rightarrow> run_rec \<Rightarrow> u32 list" where
  "run_extra_words li i r =
     (if is_wide i r then extra_words (WideRunExtra (ru_content_start_utf16 r) (ru_content_end_utf16 r) (ru_parent r)) else []) @
     (case run_extra li r of None \<Rightarrow> [] | Some e \<Rightarrow> extra_words e)"

definition encode_run :: "nat \<Rightarrow> run_rec \<Rightarrow> wire_run" where
  "encode_run i r =
     (let lead = (if is_wide i r then WIDE else run_before r); after = (if is_wide i r then WIDE else run_after r);
          distance = (if is_wide i r then WIDE else run_distance i r)
      in \<lparr>wr_start = ru_start_utf16 r, wr_end16 = ru_end_utf16 r,
          wr_hidden = lead OR push_bit HIDDEN_AFTER_SHIFT after,
          wr_kind_flags_parent =
            ru_kind r OR push_bit RUN_FLAGS_SHIFT (wire_run_flags i r) OR push_bit PARENT_DISTANCE_SHIFT distance\<rparr>)"

fun encode_runs :: "line_index \<Rightarrow> nat \<Rightarrow> run_rec list \<Rightarrow> u32 list \<Rightarrow> wire_run list \<times> wire_run_extra list \<times> u32 list" where
  "encode_runs li i [] extras = ([], [], extras)"
| "encode_runs li i (r # rs) extras =
     (let x = run_extra_words li i r
      in case encode_runs li (i + 1) rs (extras @ x) of
           (ws, ixs, extras') \<Rightarrow>
             (encode_run i r # ws,
              (if x = [] then ixs else \<lparr>wx_run = to_u32 i, wx_offset = to_u32 (length extras)\<rparr> # ixs),
              extras'))"

subsection \<open>The words\<close>

text \<open>\<^verbatim>\<open>u32::from_le_bytes\<close> and \<^verbatim>\<open>u32::to_le_bytes\<close>.\<close>

definition from_le_bytes :: "bytes \<Rightarrow> u32" where
  "from_le_bytes bs = to_u32 (foldr (\<lambda>b n. bval b + 256 * n) bs 0)"

definition to_le_bytes :: "u32 \<Rightarrow> bytes" where
  "to_le_bytes w = map (\<lambda>k. char_of (to_usize (drop_bit (8 * k) w))) [0..<4]"

function string_words :: "bytes \<Rightarrow> u32 list" where
  "string_words bs =
     (if bs = [] then [] else from_le_bytes (take 4 bs @ replicate (4 - length bs) (CHR 0x00)) # string_words (drop 4 bs))"
  by pat_completeness auto
termination
  by (relation "measure length") auto

declare string_words.simps [simp del]

definition encode_definition :: "line_index \<Rightarrow> definition_rec \<Rightarrow> wire_definition" where
  "encode_definition li d =
     \<lparr>wd_start = u16 li (def_start d), wd_end16 = u16 li (def_end d),
      wd_label_start = u16 li (fst (def_label d)), wd_label_end = u16 li (snd (def_label d)),
      wd_dest_start = u16 li (fst (def_dest d)), wd_dest_end = u16 li (snd (def_dest d))\<rparr>"

definition encode_header :: "extractor \<Rightarrow> wire_content list \<Rightarrow> wire_run_extra list \<Rightarrow> u32 list \<Rightarrow> wire_header" where
  "encode_header ex content run_extras extras =
     \<lparr>wh_magic = SCHEMA_MAGIC, wh_version = SCHEMA_VERSION, wh_src_bytes = to_u32 (length (ex_src ex)),
      wh_src_utf16 = u16 (ex_li ex) (length (ex_src ex)), wh_line_count = to_u32 (line_count (ex_li ex)),
      wh_block_count = to_u32 (length (ex_blocks ex)), wh_content_count = to_u32 (length content),
      wh_run_count = to_u32 (length (ex_runs ex)), wh_definition_count = to_u32 (length (ex_definitions ex)),
      wh_run_extra_count = to_u32 (length run_extras), wh_extra_words = to_u32 (length extras),
      wh_string_bytes = to_u32 (length (ex_strings ex))\<rparr>"

definition encode_lines :: "line_index \<Rightarrow> u32 list" where
  "encode_lines li = map (\<lambda>l. u16 li (line_start li l)) [0..<line_count li]"

definition encode_words :: "extractor \<Rightarrow> u32 list" where
  "encode_words ex =
     (let sc = encode_blocks ex
      in case encode_runs (ex_li ex) 0 (ex_runs ex) (sc_extras sc) of
           (runs, run_extras, extras) \<Rightarrow>
             wire_header_words (encode_header ex (sc_content sc) run_extras extras) @
             encode_lines (ex_li ex) @
             concat (map wire_block_words (sc_blocks sc)) @
             concat (map wire_content_words (sc_content sc)) @
             concat (map wire_run_words runs) @
             concat (map (\<lambda>d. wire_definition_words (encode_definition (ex_li ex) d)) (ex_definitions ex)) @
             concat (map wire_run_extra_words run_extras) @
             extras @
             string_words (ex_strings ex))"

text \<open>The model's words, and the findings encoding adds: packed values out of range, and content no block owns.\<close>

definition encode :: "extractor \<Rightarrow> u32 list \<times> extractor" where
  "encode ex =
     (let sc = encode_blocks ex;
          ex1 = (if sc_overflow sc then dev ''content-packing'' ex else ex);
          ex2 = (if length (sc_content sc) \<noteq> length (ex_content ex) then dev ''content-owner'' ex1 else ex1)
      in (encode_words ex, ex2))"

definition to_bytes :: "u32 list \<Rightarrow> bytes" where
  "to_bytes words = concat (map to_le_bytes words)"

subsection \<open>Bytes and words\<close>

lemma bval_char_of: "bval (char_of n) = n mod 256" for n :: nat
  by (simp add: of_char_of)

lemma to_le_bytes_eq:
  "to_le_bytes w = [char_of (to_usize w), char_of (to_usize w div 256), char_of (to_usize w div 65536), char_of (to_usize w div 16777216)]"
  by (simp add: to_le_bytes_def upt_rec drop_bit_eq_div unat_div_distrib unat_drop_bit_eq)

lemma le_bytes_value:
  "(n :: nat) < 4294967296 \<Longrightarrow>
   n mod 256 + 256 * ((n div 256) mod 256 + 256 * ((n div 65536) mod 256 + 256 * ((n div 16777216) mod 256))) = n"
proof -
  assume n: "n < 4294967296"
  have d: "n div 65536 = n div 256 div 256" "n div 16777216 = n div 256 div 256 div 256" by (simp_all add: div_mult2_eq [symmetric])
  have "n div 256 div 256 div 256 < 256" using n by (simp add: div_mult2_eq [symmetric] less_mult_imp_div_less)
  then have "(n div 256 div 256 div 256) mod 256 = n div 256 div 256 div 256" by simp
  then show ?thesis unfolding d by (metis add.commute mult_div_mod_eq)
qed

lemma digit_256: "(x :: nat) < 256 \<Longrightarrow> (x + 256 * y) mod 256 = x" "(x :: nat) < 256 \<Longrightarrow> (x + 256 * y) div 256 = y"
  by simp_all

lemma le_bytes_less:
  "(a :: nat) \<le> 255 \<Longrightarrow> b \<le> 255 \<Longrightarrow> c \<le> 255 \<Longrightarrow> d \<le> 255 \<Longrightarrow> a + 256 * (b + 256 * (c + 256 * d)) < 4294967296"
proof -
  assume le: "a \<le> 255" "b \<le> 255" "c \<le> 255" "d \<le> 255"
  define x where "x = c + 256 * d"
  define y where "y = b + 256 * x"
  have "x \<le> 65535" using le by (simp add: x_def)
  then have "y \<le> 16777215" using le by (simp add: y_def)
  then show ?thesis using le by (simp add: y_def [symmetric] x_def [symmetric])
qed

lemma from_to_le: "from_le_bytes (to_le_bytes w) = w"
proof -
  have "to_usize w < 4294967296" by (rule unat_u32_less)
  from le_bytes_value [OF this]
  have "foldr (\<lambda>b n. bval b + 256 * n) (to_le_bytes w) 0 = to_usize w" by (simp only: to_le_bytes_eq foldr.simps comp_apply id_apply bval_char_of mult_0_right add_0_right)
  then show ?thesis by (simp add: from_le_bytes_def)
qed

lemma to_from_le:
  assumes "length bs = 4"
  shows "to_le_bytes (from_le_bytes bs) = bs"
proof -
  obtain a b c d where bs: "bs = [a, b, c, d]" using assms by (auto simp: length_Suc_conv numeral_eq_Suc)
  have lt: "bval x < 256" for x :: byte by simp
  then have le: "bval x \<le> 255" for x :: byte using lt [of x] by linarith
  define n where "n = bval a + 256 * (bval b + 256 * (bval c + 256 * bval d))"
  have "n < 4294967296" unfolding n_def by (intro le_bytes_less le)
  then have u: "to_usize (from_le_bytes bs) = n" by (simp only: from_le_bytes_def bs foldr.simps comp_apply id_apply mult_0_right add_0_right n_def [symmetric] unat_to_u32)
  have m: "n mod 256 = bval a" "n div 256 = bval b + 256 * (bval c + 256 * bval d)"
    unfolding n_def by (rule digit_256 [OF lt])+
  have "n div 65536 = n div 256 div 256" "n div 16777216 = n div 256 div 256 div 256" by (simp_all add: div_mult2_eq [symmetric])
  then have m2: "n div 65536 = bval c + 256 * bval d" "n div 16777216 = bval d" unfolding m by (simp_all only: digit_256 [OF lt])
  have ch: "char_of m = x" if "m mod 256 = bval x" for x :: byte and m :: nat
    using that by (metis char_of_char char_of_mod_256)
  show ?thesis unfolding to_le_bytes_eq u unfolding bs by (simp only: ch [OF m(1)] m(2) m2 ch [OF digit_256(1) [OF lt]] char_of_char)
qed

lemma length_to_le [simp]: "length (to_le_bytes w) = 4" by (simp add: to_le_bytes_def)

lemma length_to_bytes [simp]: "length (to_bytes ws) = 4 * length ws"
  by (induction ws) (simp_all add: to_bytes_def)

lemma to_bytes_append: "to_bytes (xs @ ys) = to_bytes xs @ to_bytes ys" by (simp add: to_bytes_def)

lemma to_bytes_word: "k < length ws \<Longrightarrow> seg (to_bytes ws) (4 * k) (4 * k + 4) = to_le_bytes (ws ! k)"
proof -
  assume k: "k < length ws"
  have "ws = take k ws @ ws ! k # drop (Suc k) ws" using k by (simp add: id_take_nth_drop)
  then have "to_bytes ws = to_bytes (take k ws) @ to_le_bytes (ws ! k) @ to_bytes (drop (Suc k) ws)"
    by (metis append_Cons append_Nil to_bytes_append to_bytes_def concat.simps(2) list.simps(9))
  then show ?thesis using k by (simp add: seg_def)
qed

text \<open>
  The byte stream a host receives holds every word of the model, in order, as four
  little-endian bytes.
\<close>

lemma to_bytes_roundtrip:
  "length (to_bytes ws) = 4 * length ws \<and>
   (\<forall>k < length ws. from_le_bytes (seg (to_bytes ws) (4 * k) (4 * k + 4)) = ws ! k)"
  by (simp add: to_bytes_word from_to_le)

text \<open>
  The string table at the model's end is the strings' bytes, padded with zero bytes to a whole
  word: a host that slices the byte stream at a string's offset reads the string.
\<close>

lemma string_words_exact:
  "to_bytes (string_words s) = s @ replicate ((4 - length s mod 4) mod 4) (CHR 0x00) \<and>
   length (string_words s) = (length s + 3) div 4"
proof (induction s rule: string_words.induct)
  case (1 s)
  note unf = string_words.simps [of s]
  show ?case
  proof (cases "s = []")
    case True
    then show ?thesis by (simp add: string_words.simps [of "[]"] to_bytes_def)
  next
    case False
    let ?w = "take 4 s @ replicate (4 - length s) (CHR 0x00)"
    have w: "to_le_bytes (from_le_bytes ?w) = ?w" by (rule to_from_le) simp
    have step: "to_bytes (string_words s) = ?w @ to_bytes (string_words (drop 4 s))" using False w by (simp add: unf to_bytes_def)
    show ?thesis
    proof (cases "length s < 4")
      case short: True
      have "length s mod 4 = length s" "0 < length s" "drop 4 s = []" "take 4 s = s" using short False by auto
      moreover have "(length s + 3) div 4 = 1" using short False by (cases "length s") auto
      moreover have "string_words [] = []" by (simp add: string_words.simps [of "[]"])
      ultimately show ?thesis using step short False unf by (simp add: to_bytes_def)
    next
      case long: False
      then obtain m where m: "length s = m + 4" by (metis add.commute le_Suc_ex not_less)
      have "replicate (4 - length s) (CHR 0x00) = []" using long by simp
      then have "to_bytes (string_words s) = take 4 s @ drop 4 s @ replicate ((4 - length (drop 4 s) mod 4) mod 4) (CHR 0x00)"
        using step "1.IH" [OF False] by simp
      then show ?thesis using "1.IH" [OF False] False unf m by simp
    qed
  qed
qed

end
