(* ===== verification/Flark_Extract.thy ===== *)
theory Flark_Extract
  imports Flark_Encode Flark_Limits
begin

text \<open>
  The whole extraction, \<^verbatim>\<open>Extractor::run\<close> and \<^verbatim>\<open>Extractor::extract\<close> of \<^verbatim>\<open>native/flark_parse/src/model.rs\<close>, the passes in
  their order. \<open>comrak\<close> is the parser, a parameter.
\<close>

subsection \<open>The passes\<close>

text \<open>\<^verbatim>\<open>sort_by_key\<close> is stable; \<^verbatim>\<open>dedup_by_key\<close> keeps the first of consecutive equal keys.\<close>

fun dedup_by_key :: "('a \<Rightarrow> 'b) \<Rightarrow> 'a list \<Rightarrow> 'a list" where
  "dedup_by_key f [] = []"
| "dedup_by_key f [x] = [x]"
| "dedup_by_key f (x # y # xs) = (if f x = f y then dedup_by_key f (x # xs) else x # dedup_by_key f (y # xs))"

definition sort_definitions :: "extractor \<Rightarrow> extractor" where
  "sort_definitions ex = ex\<lparr>ex_definitions := dedup_by_key def_start (sort_key def_start (ex_definitions ex))\<rparr>"

definition leaf_step :: "(bytes \<Rightarrow> bytes) \<Rightarrow> leaf \<Rightarrow> extractor \<Rightarrow> extractor" where
  "leaf_step dec lf ex = leaf_pass dec lf (chain ex (lf_container lf)) ex"

definition leaf_passes :: "(bytes \<Rightarrow> bytes) \<Rightarrow> leaf list \<Rightarrow> extractor \<Rightarrow> extractor" where
  "leaf_passes dec leaves ex = fold (leaf_step dec) leaves ex"

definition finish_blocks :: "extractor \<Rightarrow> extractor" where
  "finish_blocks ex = check_structure (fit_overlapping_containers (empty_container_lines ex))"

text \<open>Every pass after the parse, before the model is encoded.\<close>

definition extraction :: "(bytes \<Rightarrow> bytes) \<Rightarrow> ast \<Rightarrow> bytes \<Rightarrow> bool \<Rightarrow> extractor" where
  "extraction dec root src collect =
     (case walk_blocks dec root (extractor_new src collect) of
        (leaves, ex1) \<Rightarrow>
          finish_blocks (sort_definitions (gap_definitions leaves (widen_parents (leaf_passes dec leaves ex1)))))"

text \<open>A refused document publishes its document block alone, and comrak is not run.\<close>

definition refusal_rule :: "refusal \<Rightarrow> string" where
  "refusal_rule r = (case r of AutolinkDepth _ \<Rightarrow> ''autolink-depth'' | TableCells _ _ \<Rightarrow> ''table-cells'')"

definition document_block :: "extractor \<Rightarrow> block_rec" where
  "document_block ex =
     zero_block\<lparr>bl_parent := U32_MAX, bl_end_byte := to_u32 (length (ex_src ex)),
       bl_end_utf16 := u16 (ex_li ex) (length (ex_src ex)), bl_line_count := to_u32 (line_count (ex_li ex))\<rparr>"

definition refused :: "refusal \<Rightarrow> extractor \<Rightarrow> extractor" where
  "refused r ex =
     ex\<lparr>ex_blocks := ex_blocks ex @ [document_block ex],
        ex_deviations := ex_deviations ex @ [\<lparr>dv_rule = refusal_rule r, dv_leaf = None\<rparr>]\<rparr>"

definition run_extraction :: "(options \<Rightarrow> bytes \<Rightarrow> ast) \<Rightarrow> bytes \<Rightarrow> bool \<Rightarrow> u32 list \<times> deviation list" where
  "run_extraction comrak src collect =
     (let ex = (case refusal_of src of
                  Some r \<Rightarrow> refused r (extractor_new src collect)
                | None \<Rightarrow> extraction (shown_reference comrak) (comrak extraction_options src) src collect)
      in case encode ex of (words, ex') \<Rightarrow> (words, ex_deviations ex'))"

definition extractor_extract :: "(options \<Rightarrow> bytes \<Rightarrow> ast) \<Rightarrow> bytes \<Rightarrow> deviation list + u32 list" where
  "extractor_extract comrak src =
     (case run_extraction comrak src True of
        (model, deviations) \<Rightarrow> if list_all (\<lambda>d. dv_leaf d \<noteq> None) deviations then Inr model else Inl deviations)"

definition extract_with_report :: "(options \<Rightarrow> bytes \<Rightarrow> ast) \<Rightarrow> bytes \<Rightarrow> u32 list \<times> deviation list" where
  "extract_with_report comrak src = run_extraction comrak src True"

subsection \<open>The empty document\<close>

text \<open>The extraction of no text at all, pass by pass: one document block, one empty line, nothing to report.\<close>

definition empty_doc :: ast where
  "empty_doc =
     (let z = \<lparr>lc_line = 1, lc_column = 1\<rparr>; p = \<lparr>sp_start = z, sp_end = z\<rparr> in Node Document p [])"

definition empty_document :: extractor where
  "empty_document = (extractor_new [] True)\<lparr>ex_blocks := [zero_block\<lparr>bl_parent := U32_MAX, bl_line_count := 1\<rparr>]\<rparr>"

lemma line_index_empty: "line_index_new [] = \<lparr>line_starts = [0], line_ends = [0], utf16 = [0]\<rparr>" by code_simp

lemma empty_refusal: "refusal_of [] = None"
proof -
  have "email_autolinks_bound [] = 0" by (simp add: email_autolinks_bound_def)
  then have "email_autolink_overflow [] = None" by (simp add: email_autolink_overflow_def email_overflow_loop.simps)
  moreover have "filled_table_cells [] = 0" by code_simp
  ultimately show ?thesis by (simp add: refusal_of_def)
qed

lemma empty_walk: "walk_blocks dec empty_doc (extractor_new [] True) = ([], empty_document)"
  by (simp add: walk_blocks_def walk_frames.simps empty_doc_def Let_def corrected_def block_record_def kind_record_def marker_record_def
      initial_record_def sourcepos_range_def push_container_def is_leaf_value_def empty_document_def extractor_new_def line_index_empty
      line_start_def u16_def inline_leaves_def reattach_split_end_def reattach_setext_def zero_block_def)

lemma empty_finish: "finish_blocks empty_document = empty_document"
proof -
  have "empty_container_lines empty_document = empty_document"
    by (simp add: empty_container_lines_def Let_def empty_document_def extractor_new_def widen_parents_def widen_blocks_def)
  moreover have "fit_overlapping_containers empty_document = empty_document"
    by (simp add: fit_overlapping_containers_def empty_document_def)
  moreover have "structure_problem empty_document = None"
    by (simp add: structure_problem_def empty_document_def Let_def extractor_new_def content_slice_def zero_block_def)
  ultimately show ?thesis by (simp add: finish_blocks_def check_structure_def)
qed

lemma empty_gap: "gap_definitions [] empty_document = empty_document"
proof -
  have p: "ls_start (para_line empty_document 0 []) = 0" "ls_end (para_line empty_document 0 []) = 0"
    unfolding para_line_def empty_document_def extractor_new_def line_index_empty by (simp, code_simp)+
  have n: "line_count (ex_li empty_document) = 1" "ex_containers empty_document = []"
    by (simp_all add: empty_document_def extractor_new_def line_index_empty line_count_def)
  have o: "innermost_per_line 1 [] [] ! 0 = None" by code_simp
  have "chain empty_document None = []" by (simp add: chain_def chain_up.simps)
  then have "gap_loop [False] (innermost_per_line 1 [] []) 0 empty_document = empty_document"
    using p n o by (simp add: gap_loop.simps [of _ _ 0] gap_loop.simps [of _ _ 1] gap_loop.simps [of _ _ "Suc 0"])
  moreover have "filter (\<lambda>b. bl_kind b = BK_TABLE) (ex_blocks empty_document) = []"
    by (simp add: empty_document_def zero_block_def)
  ultimately show ?thesis using n by (simp add: gap_definitions_def Let_def)
qed

lemma empty_extraction: "extraction dec empty_doc [] True = empty_document"
proof -
  have "widen_parents empty_document = empty_document" by (simp add: widen_parents_def widen_blocks_def empty_document_def)
  moreover have "sort_definitions empty_document = empty_document" by (simp add: sort_definitions_def empty_document_def extractor_new_def)
  ultimately show ?thesis by (simp add: extraction_def empty_walk leaf_passes_def empty_gap empty_finish)
qed

lemma empty_encode: "encode empty_document = ([894127174, 5, 0, 0, 1, 1, 0, 0, 0, 0, 0, 0, 0, 0, 4294967295, 0, 0, 0, 1, 0, 0, 0, 4294967295], empty_document)"
  unfolding encode_def empty_document_def extractor_new_def line_index_empty
  by code_simp

definition empty_parser :: "options \<Rightarrow> bytes \<Rightarrow> ast" where
  "empty_parser opts src = empty_doc"

lemma empty_extract:
  "extractor_extract empty_parser [] =
     Inr [894127174, 5, 0, 0, 1, 1, 0, 0, 0, 0, 0, 0, 0, 0, 4294967295, 0, 0, 0, 1, 0, 0, 0, 4294967295]"
proof -
  have "ex_deviations empty_document = []" by (simp add: empty_document_def extractor_new_def)
  then show ?thesis
    by (simp add: extractor_extract_def run_extraction_def empty_refusal empty_parser_def empty_extraction empty_encode)
qed

subsection \<open>Refusals\<close>

lemma encode_nothing: "ex_content ex = [] \<Longrightarrow> encode ex = (encode_words ex, ex)"
proof -
  assume c: "ex_content ex = []"
  have "sc_content (fold (encode_block li []) bs sc) = sc_content sc \<and> sc_overflow (fold (encode_block li []) bs sc) = sc_overflow sc" for li bs sc
  proof (induction bs arbitrary: sc)
    case (Cons br bs)
    have "sc_content (encode_block li [] br sc) = sc_content sc" "sc_overflow (encode_block li [] br sc) = sc_overflow sc"
      by (cases br, simp add: encode_block_def block_content_def seg_def Let_def)+
    then show ?case using Cons.IH [of "encode_block li [] br sc"] by simp
  qed simp
  then show ?thesis using c by (simp add: encode_def encode_blocks_def Let_def)
qed

text \<open>The words of a state that holds the document block alone.\<close>

lemma line_start_units:
  assumes "utf8_valid src" "k < length (line_spans 0 0 src)"
  shows "u16 (line_index_new src) (line_start (line_index_new src) k) = to_u32 (utf16_len (take (fst (line_spans 0 0 src ! k)) src))"
proof -
  note acc = line_index_accessors [OF assms(1) refl refl]
  have k: "k < line_count (line_index_new src)" using assms(2) by (simp add: acc)
  have le: "line_start (line_index_new src) k \<le> length src" using line_bounds [OF assms(1) k] by simp
  have "floor_boundary src (line_start (line_index_new src) k) = line_start (line_index_new src) k"
    by (rule floor_boundary_id) (use line_boundaries [OF assms(1) k] in simp)
  then show ?thesis using le acc(2) [OF assms(2)] by (simp add: u16_eq [OF assms(1)] min_absorb1)
qed

lemma source_units: "utf8_valid src \<Longrightarrow> u16 (line_index_new src) (length src) = to_u32 (utf16_len src)"
  using floor_boundary_id [of src "length src"] by (simp add: u16_eq is_char_boundary_def)

lemma document_words:
  assumes "utf8_valid src"
  shows "encode_words (refused r (extractor_new src True)) =
    [0x354B4C46, 5, to_u32 (length src), to_u32 (utf16_len src), to_u32 (length (line_spans 0 0 src)), 1, 0, 0, 0, 0, 0, 0] @
    map (\<lambda>(start, _). to_u32 (utf16_len (take start src))) (line_spans 0 0 src) @
    [0, 0xFFFFFFFF, 0, to_u32 (utf16_len src), 0, to_u32 (length (line_spans 0 0 src)), 0, 0, 0, 0xFFFFFFFF]"
proof -
  let ?ex = "refused r (extractor_new src True)"
  note acc = line_index_accessors [OF assms refl refl]
  have lines: "encode_lines (line_index_new src) = map (\<lambda>(start, _). to_u32 (utf16_len (take start src))) (line_spans 0 0 src)"
    by (rule nth_equalityI) (auto simp: encode_lines_def acc(1) line_start_units [OF assms] split: prod.splits)
  have runs: "first_runs [] (Suc 0) = [0, 0]" by (simp add: first_runs_def advance_run.simps upt_rec)
  have blocks: "encode_blocks ?ex =
      \<lparr>sc_extras = [], sc_blocks = [\<lparr>wb_kind_flags = 0, wb_parent = U32_MAX, wb_start = 0, wb_end16 = to_u32 (utf16_len src), wb_first_line = 0,
         wb_line_count = to_u32 (length (line_spans 0 0 src)), wb_content_offset = 0, wb_first_run = 0, wb_attr = 0, wb_extra = EXTRA_NONE\<rparr>],
       sc_content = [], sc_overflow = False\<rparr>"
    by (simp add: encode_blocks_def refused_def extractor_new_def runs encode_block_def Let_def block_content_def seg_def document_block_def
        zero_block_def block_extra_def wire_flags_def wire_attr_def acc(1) source_units [OF assms])
  have "wire_header_words (encode_header ?ex [] [] []) =
      [0x354B4C46, 5, to_u32 (length src), to_u32 (utf16_len src), to_u32 (length (line_spans 0 0 src)), 1, 0, 0, 0, 0, 0, 0]"
    by (simp add: wire_header_words_def encode_header_def refused_def extractor_new_def acc(1) source_units [OF assms])
  moreover have "ex_runs ?ex = []" "ex_definitions ?ex = []" "ex_strings ?ex = []" "ex_li ?ex = line_index_new src"
    by (simp_all add: refused_def extractor_new_def)
  ultimately show ?thesis by (simp add: encode_words_def blocks lines wire_block_words_def string_words.simps [of "[]"])
qed

text \<open>
  C26: A refused document is never parsed: whatever comrak is, its extraction fails with one finding about the whole
  document, which names the at-signs when they are too many and the table cells otherwise. The
  report publishes these words: the header with the source's size in bytes and in UTF-16 units, its line count, one block
  and nothing else; the UTF-16 start of every line; and a document block without parent, from the first unit
  to the last, over all lines, without content, runs or extra.
\<close>

theorem refusal_publishes_document:
  assumes "utf8_valid src" "refusal_of src \<noteq> None"
  shows "let finding = \<lparr>dv_rule = (if email_autolink_overflow src = None then ''table-cells'' else ''autolink-depth''), dv_leaf = None\<rparr>;
             bytes = to_u32 (length src); units = to_u32 (utf16_len src); lines = line_spans 0 0 src; count = to_u32 (length lines)
         in extractor_extract comrak src = Inl [finding] \<and>
            extract_with_report comrak src =
              ([0x354B4C46, 5, bytes, units, count, 1, 0, 0, 0, 0, 0, 0] @
               map (\<lambda>(start, _). to_u32 (utf16_len (take start src))) lines @
               [0, 0xFFFFFFFF, 0, units, 0, count, 0, 0, 0, 0xFFFFFFFF],
               [finding])"
proof -
  obtain r where r: "refusal_of src = Some r" using assms(2) by blast
  have rule: "refusal_rule r = (if email_autolink_overflow src = None then ''table-cells'' else ''autolink-depth'')"
    using r by (auto simp: refusal_of_def refusal_rule_def Let_def split: option.splits if_splits)
  have "ex_content (refused r (extractor_new src True)) = []" by (simp add: refused_def extractor_new_def)
  note encode_nothing [OF this]
  moreover have "ex_deviations (refused r (extractor_new src True)) = [\<lparr>dv_rule = refusal_rule r, dv_leaf = None\<rparr>]"
    by (simp add: refused_def extractor_new_def)
  ultimately have "run_extraction comrak src True =
      (encode_words (refused r (extractor_new src True)), [\<lparr>dv_rule = refusal_rule r, dv_leaf = None\<rparr>])"
    using r by (simp add: run_extraction_def)
  then show ?thesis
    unfolding Let_def rule document_words [OF assms(1)] by (simp add: extractor_extract_def extract_with_report_def)
qed

text \<open>A line of 4100 at-signs could link 1025 addresses, one more than the cap.\<close>

definition at_signs :: bytes where "at_signs = replicate 4100 (CHR ''@'')"

lemma at_signs_bound: "4100 \<le> n \<Longrightarrow> refusal_of (replicate n (CHR ''@'')) = Some (AutolinkDepth 0)"
proof -
  assume n: "4100 \<le> n"
  let ?src = "replicate n (CHR ''@'')"
  have "fold (autolink_step ?src) [0..<k] (0, 0) = (k, k)" if "k \<le> n" for k
    using that by (induction k) (simp_all add: autolink_step_def)
  then have "email_autolinks_bound ?src = min n (n div 4)" by (simp add: email_autolinks_bound_def)
  moreover have "1024 < n div 4" using div_le_mono [OF n, of 4] by simp
  ultimately have b: "MAX_EMAIL_AUTOLINKS_PER_LINE < email_autolinks_bound ?src" using n by (simp add: MAX_EMAIL_AUTOLINKS_PER_LINE_def)
  have "line_spans s i (replicate k (CHR ''@'')) = [(s, i + k)]" for s i k
    by (induction k arbitrary: i) auto
  then have "email_autolink_overflow ?src = Some 0"
    using email_overflow_loop_eq [of 0 ?src 0 0] b by (simp add: email_autolink_overflow_def)
  then show ?thesis by (simp add: refusal_of_def)
qed

lemma at_signs_refused: "refusal_of at_signs = Some (AutolinkDepth 0)"
  unfolding at_signs_def by (rule at_signs_bound) (rule order_refl)

theorem refusal_publishes_document_witness:
  "extractor_extract empty_parser at_signs = Inl [\<lparr>dv_rule = ''autolink-depth'', dv_leaf = None\<rparr>] \<and>
   take 6 (fst (extract_with_report empty_parser at_signs)) = [0x354B4C46, 5, 4100, 4100, 1, 1]"
proof -
  have "utf8_valid (replicate n (CHR ''@'') @ [])" for n using utf8_valid_ascii [of "replicate n (CHR ''@'')" "[]"] by simp
  then have v: "utf8_valid at_signs" by (simp add: at_signs_def)
  have "line_spans 0 i (replicate k (CHR ''@'')) = [(0, i + k)]" for i k by (induction k arbitrary: i) auto
  then have l: "line_spans 0 0 at_signs = [(0, 4100)]" by (simp add: at_signs_def)
  have "chars (replicate k (CHR ''@'')) = replicate k [CHR ''@'']" for k using chars_ascii [of "replicate k (CHR ''@'')" "[]"] by (simp add: map_replicate_const)
  then have u: "utf16_len at_signs = 4100" by (simp add: utf16_len_def at_signs_def len_utf16_def sum_list_replicate)
  have e: "email_autolink_overflow at_signs \<noteq> None"
    using at_signs_refused by (auto simp: refusal_of_def Let_def split: option.splits if_splits)
  have n: "length at_signs = 4100" by (simp add: at_signs_def)
  show ?thesis using refusal_publishes_document [OF v, of empty_parser] at_signs_refused e by (simp add: l u n Let_def)
qed

end
