(* ===== verification/Flark_Abi.thy ===== *)
theory Flark_Abi
  imports Flark_Extract
begin

text \<open>
  The C interface of \<^verbatim>\<open>native/flark_parse/src/lib.rs\<close>: the four exported functions over the memory a host
  sees. The lemmas give the return code of every case, what the output cells hold, and that
  freeing a buffer with the length it came with gives the allocator back exactly its words.
\<close>

abbreviation (input) PARSE_OK :: int where "PARSE_OK \<equiv> 0"
abbreviation (input) PARSE_INVALID_ARGUMENT :: int where "PARSE_INVALID_ARGUMENT \<equiv> 1"
abbreviation (input) PARSE_INVALID_UTF8 :: int where "PARSE_INVALID_UTF8 \<equiv> 2"
abbreviation (input) PARSE_PANIC :: int where "PARSE_PANIC \<equiv> 3"
abbreviation (input) PARSE_EXTRACTION_DEVIATION :: int where "PARSE_EXTRACTION_DEVIATION \<equiv> 4"

text \<open>
  The memory a host sees: the allocator's live blocks (their address and how many words each has), the
  bytes at each block, and the two out-parameter cells. An address is a natural number, zero is null.
\<close>

record host =
  ho_blocks :: "nat \<rightharpoonup> u32 list"
  ho_out :: nat
  ho_out_len :: u32

text \<open>\<^verbatim>\<open>len.div_ceil(4)\<close> in 32 bits: a quotient and its remainder, no sum that could wrap.\<close>

definition div_ceil4 :: "u32 \<Rightarrow> u32" where
  "div_ceil4 n = (if n mod 4 = 0 then n div 4 else n div 4 + 1)"

text \<open>\<^verbatim>\<open>words.len().checked_mul(4)\<close> in a \<^verbatim>\<open>usize\<close> of \<open>width\<close> bits, then \<^verbatim>\<open>u32::try_from\<close>.\<close>

definition checked_byte_length :: "nat \<Rightarrow> nat \<Rightarrow> u32 option" where
  "checked_byte_length width n =
     (if 2 ^ width \<le> n * 4 then None else if 4294967296 \<le> n * 4 then None else Some (to_u32 (n * 4)))"

text \<open>
  What \<^verbatim>\<open>catch_unwind\<close> hands back: the extraction's result, or that it panicked. A panic is an index or slice
  out of range, which the total functions of this model do not have: \<open>panics\<close> stands for the inputs on which
  one unwinds.
\<close>

datatype outcome = Returned "deviation list + u32 list" | Panicked

definition catch_extract :: "(options \<Rightarrow> bytes \<Rightarrow> ast) \<Rightarrow> (bytes \<Rightarrow> bool) \<Rightarrow> bytes \<Rightarrow> outcome" where
  "catch_extract comrak panics src = (if panics src then Panicked else Returned (extractor_extract comrak src))"

text \<open>
  \<open>fresh\<close> is the allocator's choice of an address for a buffer. \<open>src = None\<close> is a null source, \<open>out_null\<close> and
  \<open>out_len_null\<close> are null output arguments.
\<close>

definition flark_parse ::
    "nat \<Rightarrow> (options \<Rightarrow> bytes \<Rightarrow> ast) \<Rightarrow> (bytes \<Rightarrow> bool) \<Rightarrow> ((nat \<rightharpoonup> u32 list) \<Rightarrow> nat) \<Rightarrow> bytes option \<Rightarrow> u32 \<Rightarrow> bool \<Rightarrow> bool \<Rightarrow> host \<Rightarrow> int \<times> host" where
  "flark_parse width comrak panics fresh src len out_null out_len_null h0 =
     (if out_null \<or> out_len_null then (PARSE_INVALID_ARGUMENT, h0)
      else
        (let h = h0\<lparr>ho_out := 0, ho_out_len := 0\<rparr>
         in if src = None \<and> len \<noteq> 0 then (PARSE_INVALID_ARGUMENT, h)
            else
              (let bytes = (case src of None \<Rightarrow> [] | Some mem \<Rightarrow> take (to_usize len) mem)
               in if \<not> utf8_valid bytes then (PARSE_INVALID_UTF8, h)
                  else
                    (case catch_extract comrak panics bytes of
                       Returned (Inr words) \<Rightarrow>
                         (case checked_byte_length width (length words) of
                            None \<Rightarrow> (PARSE_EXTRACTION_DEVIATION, h)
                          | Some n \<Rightarrow>
                              (PARSE_OK, h\<lparr>ho_blocks := (ho_blocks h)(fresh (ho_blocks h) \<mapsto> words), ho_out := fresh (ho_blocks h), ho_out_len := n\<rparr>))
                     | Returned (Inl _) \<Rightarrow> (PARSE_EXTRACTION_DEVIATION, h)
                     | Panicked \<Rightarrow> (PARSE_PANIC, h)))))"

definition flark_parse_alloc :: "((nat \<rightharpoonup> u32 list) \<Rightarrow> nat) \<Rightarrow> u32 \<Rightarrow> host \<Rightarrow> nat \<times> host" where
  "flark_parse_alloc fresh len h =
     (fresh (ho_blocks h), h\<lparr>ho_blocks := (ho_blocks h)(fresh (ho_blocks h) \<mapsto> replicate (to_usize (div_ceil4 len)) 0)\<rparr>)"

text \<open>Freeing gives the allocator back exactly the words it handed out: a length of another block size is an error.\<close>

definition flark_parse_free :: "nat \<Rightarrow> u32 \<Rightarrow> host \<Rightarrow> host option" where
  "flark_parse_free p len h =
     (if p = 0 then Some h
      else
        (case ho_blocks h p of
           None \<Rightarrow> None
         | Some words \<Rightarrow> if length words = to_usize (div_ceil4 len) then Some (h\<lparr>ho_blocks := (ho_blocks h)(p := None)\<rparr>) else None))"

definition flark_parse_schema_version :: u32 where
  "flark_parse_schema_version = SCHEMA_VERSION"

subsection \<open>Return codes\<close>

lemma div_ceil4_exact: "to_usize (div_ceil4 n) = (to_usize n + 3) div 4"
proof -
  have m: "n mod 4 = 0 \<longleftrightarrow> to_usize n mod 4 = 0" by (simp add: word_unat_eq_iff unat_mod_distrib)
  have d: "to_usize (n div 4) = to_usize n div 4" by (simp add: unat_div_distrib)
  show ?thesis
  proof (cases "to_usize n mod 4 = 0")
    case True
    then obtain q where "to_usize n = 4 * q" by (metis dvd_def mod_0_imp_dvd)
    then show ?thesis using True m d by (simp add: div_ceil4_def)
  next
    case False
    have "to_usize n div 4 + 1 < 4294967296" using unat_u32_less [of n] by (simp add: less_mult_imp_div_less)
    then have "to_usize (n div 4 + 1) = to_usize n div 4 + 1" using d by (simp add: unat_word_ariths)
    moreover have "(to_usize n + 3) div 4 = to_usize n div 4 + 1"
      using False mult_div_mod_eq [of 4 "to_usize n"] by presburger
    ultimately show ?thesis using False m by (simp add: div_ceil4_def)
  qed
qed

lemma checked_byte_length_Some: "checked_byte_length width n = Some k \<Longrightarrow> n * 4 < 4294967296 \<and> to_usize k = n * 4"
proof -
  assume a: "checked_byte_length width n = Some k"
  then have lt: "n * 4 < 4294967296" "k = to_u32 (n * 4)" unfolding checked_byte_length_def by (simp_all split: if_splits)
  then show ?thesis by (simp only: unat_to_u32)
qed

text \<open>The text a call reads, and whether its arguments are ones it accepts.\<close>

definition call_text :: "bytes option \<Rightarrow> u32 \<Rightarrow> bytes" where
  "call_text src len = (case src of None \<Rightarrow> [] | Some mem \<Rightarrow> take (to_usize len) mem)"

definition call_accepted :: "bytes option \<Rightarrow> u32 \<Rightarrow> bool \<Rightarrow> bool \<Rightarrow> bool" where
  "call_accepted src len out_null out_len_null = (\<not> out_null \<and> \<not> out_len_null \<and> (src = None \<longrightarrow> len = 0))"

text \<open>
  Every call returns one of the five documented codes, each exactly in its case: 1 for a null
  output argument or a null source with a length, 2 for text that is not UTF-8, 3 when the
  extraction panicked, 4 when it refused or its model's length does not fit 32 bits, and 0
  otherwise. A failing call that could write its outputs leaves a null pointer and a zero length.
\<close>

lemma flark_parse_codes:
  "flark_parse width comrak panics fresh src len out_null out_len_null h =
     (let text0 = call_text src len; h0 = h\<lparr>ho_out := 0, ho_out_len := 0\<rparr>
      in if \<not> call_accepted src len out_null out_len_null
         then (PARSE_INVALID_ARGUMENT, if out_null \<or> out_len_null then h else h0)
         else if \<not> utf8_valid text0 then (PARSE_INVALID_UTF8, h0)
         else if panics text0 then (PARSE_PANIC, h0)
         else
           (case extractor_extract comrak text0 of
              Inl _ \<Rightarrow> (PARSE_EXTRACTION_DEVIATION, h0)
            | Inr words \<Rightarrow>
                if min (2 ^ width) 4294967296 \<le> 4 * length words then (PARSE_EXTRACTION_DEVIATION, h0)
                else (PARSE_OK, h0\<lparr>ho_blocks := (ho_blocks h)(fresh (ho_blocks h) \<mapsto> words), ho_out := fresh (ho_blocks h), ho_out_len := to_u32 (4 * length words)\<rparr>)))"
proof -
  have c: "checked_byte_length width n = (if min (2 ^ width) 4294967296 \<le> 4 * n then None else Some (to_u32 (4 * n)))" for n
    by (auto simp: checked_byte_length_def min_le_iff_disj mult.commute)
  show ?thesis
    unfolding flark_parse_def call_accepted_def call_text_def catch_extract_def Let_def c
    by (auto split: sum.splits option.splits)
qed

subsection \<open>Buffers\<close>

text \<open>
  C27: With an allocator that hands out non-null addresses of no live buffer, a buffer from \<open>flark_parse_alloc\<close> or
  from a successful \<open>flark_parse\<close> is freed by passing the length it came with: the word count recomputed
  from that length is the allocation's, and every other buffer stays as it was.
\<close>

theorem flark_parse_free_restores:
  assumes fresh: "ho_blocks h (fresh (ho_blocks h)) = None" "fresh (ho_blocks h) \<noteq> 0"
    and alloc: "flark_parse_alloc fresh n h = (p, h1)"
    and parse: "flark_parse width comrak panics fresh src len out_null out_len_null h = (PARSE_OK, h2)"
  shows "map_option ho_blocks (flark_parse_free p n h1) = Some (ho_blocks h) \<and>
         map_option ho_blocks (flark_parse_free (ho_out h2) (ho_out_len h2) h2) = Some (ho_blocks h)"
proof -
  have restore: "(ho_blocks h)(fresh (ho_blocks h) := None) = ho_blocks h" using fresh(1) by (metis fun_upd_triv)
  have "map_option ho_blocks (flark_parse_free p n h1) = Some (ho_blocks h)"
    using alloc fresh restore by (auto simp: flark_parse_alloc_def flark_parse_free_def)
  moreover have "map_option ho_blocks (flark_parse_free (ho_out h2) (ho_out_len h2) h2) = Some (ho_blocks h)"
  proof -
    obtain words k where w: "checked_byte_length width (length words) = Some k"
        "h2 = h\<lparr>ho_blocks := (ho_blocks h)(fresh (ho_blocks h) \<mapsto> words), ho_out := fresh (ho_blocks h), ho_out_len := k\<rparr>"
      using parse by (auto simp: flark_parse_def Let_def split: if_splits outcome.splits sum.splits option.splits)
    have "to_usize (div_ceil4 k) = length words" using checked_byte_length_Some [OF w(1)] by (simp add: div_ceil4_exact)
    then show ?thesis using w(2) fresh restore by (simp add: flark_parse_free_def)
  qed
  ultimately show ?thesis by blast
qed

text \<open>The empty document, parsed on an empty heap whose first buffer goes to address 8.\<close>

definition empty_host :: host where
  "empty_host = \<lparr>ho_blocks = Map.empty, ho_out = 7, ho_out_len = 7\<rparr>"

lemma empty_parse:
  "flark_parse 32 empty_parser (\<lambda>_. False) (\<lambda>_. 8) None 0 False False empty_host =
     (PARSE_OK, snd (flark_parse 32 empty_parser (\<lambda>_. False) (\<lambda>_. 8) None 0 False False empty_host))"
  by (simp add: flark_parse_def catch_extract_def empty_extract checked_byte_length_def)

theorem flark_parse_free_restores_witness:
  "let h2 = snd (flark_parse 32 empty_parser (\<lambda>_. False) (\<lambda>_. 8) None 0 False False empty_host)
   in map_option ho_blocks (flark_parse_free (ho_out h2) (ho_out_len h2) h2) = Some Map.empty"
proof -
  obtain p h1 where "flark_parse_alloc (\<lambda>_. 8) 5 empty_host = (p, h1)" by force
  from flark_parse_free_restores [OF _ _ this empty_parse] show ?thesis by (simp add: empty_host_def Let_def)
qed

end
