(* ===== verification/Flark_Explains.thy ===== *)
theory Flark_Explains
  imports Flark_Pieces
begin

text \<open>
  The shortcuts of \<^verbatim>\<open>native/flark_parse/src/text_pieces.rs\<close> change no answer. \<open>could_explain\<close>, the bounded reader that
  spares \<open>explains\<close> the piece walk, never rejects a window the walk would explain; the covering table
  \<open>entity_cover\<close> answers for every window of its span as the direct test \<open>cuts_entity\<close> does.
\<close>

subsection \<open>Reads\<close>

text \<open>A reading of the literal from an offset of the slice on, through the replacements \<open>could_explain\<close> knows.\<close>

inductive reads_to :: "(bytes \<Rightarrow> bytes) \<Rightarrow> bytes \<Rightarrow> bytes \<Rightarrow> nat \<Rightarrow> nat \<Rightarrow> bool" for dec s l where
  reads_end: "length s \<le> i \<Longrightarrow> reads_to dec s l i (length l)"
| reads_byte: "i < length s \<Longrightarrow> byte_at l j = Some (s ! i) \<Longrightarrow> reads_to dec s l (i + 1) (j + 1) \<Longrightarrow> reads_to dec s l i j"
| reads_branch: "i < length s \<Longrightarrow> (i', j') \<in> set (read_decoded dec s l i j @ read_dropped s i j) \<Longrightarrow> reads_to dec s l i' j' \<Longrightarrow> reads_to dec s l i j"

inductive_simps reads_to_iff: "reads_to dec s l i j"

lemma could_loop_complete:
  assumes "reads_to dec s l i j \<or> (\<exists>(i', j') \<in> set reads. reads_to dec s l i' j')"
  shows "could_loop dec s l budget reads i j"
  using assms
proof (induction budget arbitrary: reads i j)
  case (Suc budget)
  have pop: "(case rs of [] \<Rightarrow> False | (i', j') # rest \<Rightarrow> could_loop dec s l budget rest i' j')"
    if "\<exists>(i', j') \<in> set rs. reads_to dec s l i' j'" for rs
    using that by (cases rs) (auto intro!: Suc.IH)
  show ?case
  proof (cases "length s \<le> i")
    case True
    then have "j = length l \<or> (\<exists>(i', j') \<in> set reads. reads_to dec s l i' j')"
      using Suc.prems by (auto simp: reads_to_iff [of dec s l i j])
    then show ?thesis using True pop [of reads] by auto
  next
    case False
    let ?reads = "rev (read_decoded dec s l i j @ read_dropped s i j) @ reads"
    have next_read: "(byte_at l j = Some (s ! i) \<and> reads_to dec s l (i + 1) (j + 1)) \<or> (\<exists>(i', j') \<in> set ?reads. reads_to dec s l i' j')"
      using Suc.prems False by (auto simp: reads_to_iff [of dec s l i j])
    show ?thesis
    proof (cases "byte_at l j = Some (s ! i)")
      case True
      then have "could_loop dec s l budget ?reads (i + 1) (j + 1)" using next_read by (intro Suc.IH) auto
      then show ?thesis using True False by (simp add: Let_def)
    next
      case miss: False
      then have "\<exists>(i', j') \<in> set ?reads. reads_to dec s l i' j'" using next_read by blast
      from pop [OF this] show ?thesis using False miss by (simp add: Let_def)
    qed
  qed
qed simp

subsection \<open>Entities in context\<close>

lemma byte_at_append: "k < length b \<Longrightarrow> byte_at (b @ x) k = byte_at b k"
  by (simp add: byte_at_def nth_append)

lemma scan_fwd_append:
  assumes "scan_fwd P b i e < length b" "i \<le> e"
  shows "scan_fwd P (b @ x) i e = scan_fwd P b i e"
proof (rule scan_fwd_unique)
  show "i \<le> scan_fwd P b i e" "scan_fwd P b i e \<le> e" using assms by (simp_all add: scan_fwd_ge scan_fwd_le)
  show "P ((b @ x) ! j)" if "i \<le> j" "j < scan_fwd P b i e" for j using scan_fwd_all [OF that] that assms(1) by (simp add: nth_append)
  show "\<not> P ((b @ x) ! scan_fwd P b i e)" if "scan_fwd P b i e < e" using scan_fwd_end [OF that assms(1)] assms(1) by (simp add: nth_append)
qed (use assms in simp)

lemma entity_tail_append:
  assumes "entity_tail b start (scan_fwd P b start e) = Some n" "start \<le> e"
  shows "entity_tail (b @ x) start (scan_fwd P (b @ x) start e) = Some n"
proof -
  have "scan_fwd P b start e < length b" "byte_at b (scan_fwd P b start e) = Some (CHR '';'')" "n = scan_fwd P b start e + 1"
      "scan_fwd P b start e \<noteq> start"
    using assms(1) by (auto simp: entity_tail_def split: if_splits)
  then show ?thesis using scan_fwd_append [OF _ assms(2), of P b x] by (simp add: entity_tail_def byte_at_append del: byte_at_Some)
qed

lemma entity_len_append:
  assumes "entity_len b = Some n"
  shows "entity_len (b @ x) = Some n"
proof -
  have "3 \<le> length b" using entity_len_shape [OF assms] by linarith
  then have at: "byte_at (b @ x) 0 = byte_at b 0" "byte_at (b @ x) 1 = byte_at b 1" "byte_at (b @ x) 2 = byte_at b 2"
    by (auto intro!: byte_at_append)
  have amp: "byte_at b 0 = Some (CHR ''&'')" using assms by (auto simp: entity_len_def simp del: byte_at_Some split: if_splits)
  show ?thesis
  proof (cases "byte_at b 1 = Some (CHR ''#'')")
    case True
    define hex where "hex = (byte_at b 2 = Some (CHR ''x'') \<or> byte_at b 2 = Some (CHR ''X''))"
    define start :: nat where "start = (if hex then 3 else 2)"
    have eq: "entity_len y = entity_tail y start (scan_fwd (\<lambda>c. is_digit c \<or> (hex \<and> is_hexdigit c)) y start (start + 8))"
      if "byte_at y 0 = byte_at b 0" "byte_at y 1 = byte_at b 1" "byte_at y 2 = byte_at b 2" for y
      using amp True that by (simp only: entity_len_def Let_def hex_def start_def if_True simp_thms if_False)
    have "entity_tail b start (scan_fwd (\<lambda>c. is_digit c \<or> (hex \<and> is_hexdigit c)) b start (start + 8)) = Some n"
      using assms by (simp only: eq [OF refl refl refl])
    then show ?thesis unfolding eq [OF at] by (rule entity_tail_append) simp
  next
    case False
    have eq: "entity_len y = entity_tail y 1 (scan_fwd is_alnum y 1 33)" if "byte_at y 0 = byte_at b 0" "byte_at y 1 = byte_at b 1" for y
      using amp False that by (simp only: entity_len_def if_True simp_thms if_False)
    have "entity_tail b 1 (scan_fwd is_alnum b 1 33) = Some n" using assms by (simp only: eq [OF refl refl])
    then show ?thesis unfolding eq [OF at(1,2)] by (rule entity_tail_append) simp
  qed
qed

subsection \<open>The prefilter\<close>

lemma reads_exact:
  "reads_to dec s l (i + n) (j + n) \<Longrightarrow> i + n \<le> length s \<Longrightarrow> j + n \<le> length l \<Longrightarrow> seg s i (i + n) = seg l j (j + n) \<Longrightarrow> reads_to dec s l i j"
proof (induction n arbitrary: i j)
  case (Suc n)
  have "seg s i (i + Suc n) = s ! i # seg s (i + 1) (i + 1 + n)" "seg l j (j + Suc n) = l ! j # seg l (j + 1) (j + 1 + n)"
    using seg_Suc [of i "i + Suc n" s] seg_Suc [of j "j + Suc n" l] Suc.prems(2,3) by simp_all
  then have "s ! i # seg s (i + 1) (i + 1 + n) = l ! j # seg l (j + 1) (j + 1 + n)" using Suc.prems(4) by metis
  then have eq: "s ! i = l ! j" "seg s (i + 1) (i + 1 + n) = seg l (j + 1) (j + 1 + n)" by (meson list.inject)+
  have "reads_to dec s l (i + 1) (j + 1)" using Suc.prems(1-3) Suc.IH [OF _ _ _ eq(2)] by simp
  then show ?case using Suc.prems(2,3) eq(1) reads_byte [of i s l j dec] by (auto simp: byte_at_def)
qed simp

lemma reads_crs:
  "reads_to dec s l (i + n) j \<Longrightarrow> i + n \<le> length s \<Longrightarrow> \<forall>c \<in> set (seg s i (i + n)). c = CR \<Longrightarrow> reads_to dec s l i j"
proof (induction n arbitrary: i)
  case (Suc n)
  have "seg s i (i + Suc n) = s ! i # seg s (i + 1) (i + 1 + n)" using Suc.prems(2) seg_Suc [of i "i + Suc n" s] by simp
  then have cr: "s ! i = CR" "\<forall>c \<in> set (seg s (i + 1) (i + 1 + n)). c = CR" using Suc.prems(3) by simp_all
  have "reads_to dec s l (i + 1) j" using Suc.prems(1,2) Suc.IH [OF _ _ cr(2)] by simp
  then show ?case using Suc.prems(2) cr(1) reads_branch [of i s "i + 1" j dec l j] by (auto simp: read_dropped_def)
qed simp

lemma reads_entity:
  assumes "reads_to dec s l (i + n) (j + length (dec (seg s i (i + n))))" "entity_len (seg s i (i + n)) = Some n" "i + n \<le> length s"
    "starts_with (drop j l) (dec (seg s i (i + n)))"
  shows "reads_to dec s l i j"
proof -
  have "drop i s = seg s i (i + n) @ drop (i + n) s" by (simp add: seg_def) (metis add.commute append_take_drop_id drop_drop)
  then have e: "entity_len (drop i s) = Some n" using entity_len_append [OF assms(2)] by metis
  from entity_len_shape [OF this] have "i < length s" "s ! i = CHR ''&''" by auto
  then show ?thesis using assms e reads_branch [of i s "i + n" "j + length (dec (seg s i (i + n)))" dec l j] by (auto simp: read_decoded_def decoded_len_def)
qed

lemma starts_with_byte: "starts_with (drop k s) [c] \<Longrightarrow> byte_at s k = Some c"
  by (cases "k < length s") (auto simp: starts_with_def hd_drop_conv_nth [symmetric] neq_Nil_conv take_Suc)

lemma rebuild_mono: "rebuild sl lit c ps = Some (e, t) \<Longrightarrow> c \<le> e"
  by (induction ps arbitrary: c t) (force split: if_splits option.splits)+

text \<open>The pieces of an explained slice are a reading, after leading spaces the slice lacks.\<close>

lemma pieces_read:
  assumes "rebuild sl lit c ps = Some (length sl, t)" "list_all (piece_explained dec sl lit pipes) ps" "j \<le> length lit" "drop j lit = t"
  shows "\<exists>k. (0 < k \<longrightarrow> c = 0) \<and> j + k \<le> length lit \<and> (\<forall>c \<in> set (seg lit j (j + k)). c = CHR '' '') \<and> reads_to dec sl lit c (j + k)"
  using assms
proof (induction ps arbitrary: c t j)
  case Nil
  then show ?case using reads_end [of sl "length sl" dec lit] by (intro exI [of _ 0]) simp
next
  case (Cons p ps)
  obtain u where u: "rebuild sl lit (pc_end p) ps = Some (length sl, u)" "pc_start p = c" "c \<le> pc_end p" "t = shown_by sl lit p @ u"
    using Cons.prems(1) by (auto simp: shown_by_def split: if_splits option.splits)
  define n where "n = pc_end p - c"
  have e: "pc_end p = c + n" "c + n \<le> length sl" using u(3) rebuild_mono [OF u(1)] by (simp_all add: n_def)
  define m where "m = length (shown_by sl lit p)"
  have jm: "j + m \<le> length lit" "drop (j + m) lit = u" "seg lit j (j + m) = shown_by sl lit p"
  proof -
    have d: "drop j lit = shown_by sl lit p @ u" using Cons.prems(4) u(4) by simp
    then have "length (drop j lit) = m + length u" by (simp add: m_def)
    then show "j + m \<le> length lit" using Cons.prems(3) by simp
    have "drop m (drop j lit) = u" "take m (drop j lit) = shown_by sl lit p" by (simp_all add: d m_def)
    then show "drop (j + m) lit = u" "seg lit j (j + m) = shown_by sl lit p" by (simp_all add: seg_def add.commute)
  qed
  obtain k where k: "0 < k \<longrightarrow> c + n = 0" "j + m + k \<le> length lit" "\<forall>c \<in> set (seg lit (j + m) (j + m + k)). c = CHR '' ''"
      "reads_to dec sl lit (c + n) (j + m + k)"
    using Cons.IH [OF u(1) _ jm(1,2)] Cons.prems(2) e by auto
  have spaces: ?case if "c = 0" "n = 0" "\<forall>c \<in> set (shown_by sl lit p). c = CHR '' ''"
  proof -
    have "seg lit j (j + (m + k)) = shown_by sl lit p @ seg lit (j + m) (j + m + k)"
      using jm(3) seg_append [of j "j + m" "j + m + k" lit] by (simp add: add.assoc)
    then show ?thesis using that k by (intro exI [of _ "m + k"]) (auto simp: add.assoc)
  qed
  have step: ?case if "reads_to dec sl lit (c + n) (j + m) \<Longrightarrow> reads_to dec sl lit c j" "0 < n"
    using that k by (intro exI [of _ 0]) auto
  show ?case
  proof (cases "pc_display p")
    case None
    then have sh: "shown_by sl lit p = seg sl c (c + n)" using u(2) e by (simp add: shown_by_def)
    then have "m = n" using e by (simp add: m_def)
    show ?thesis
    proof (cases "n = 0")
      case True
      then show ?thesis using k \<open>m = n\<close> by auto
    next
      case False
      then show ?thesis using reads_exact [of dec sl lit c n j] e sh jm \<open>m = n\<close> by (intro step) auto
    qed
  next
    case (Some ab)
    obtain a b where ab: "ab = (a, b)" by force
    let ?src = "seg sl c (c + n)" and ?sh = "shown_by sl lit p"
    have sh: "?sh = seg lit a b" using Some ab by (simp add: shown_by_def)
    have len: "length ?src = n" using e by simp
    consider (lead) "?src = []" "c = 0" "\<forall>c \<in> set ?sh. c = CHR '' ''" | (entity) "entity_len ?src = Some n" "dec ?src = ?sh"
      | (pipe) "?src = [BACKSLASH]" "?sh = []" "starts_with (drop (c + n) sl) ''|''" | (crs) "?src \<noteq> []" "\<forall>c \<in> set ?src. c = CR" "?sh = []"
    proof -
      have "piece_explained dec sl lit pipes p" using Cons.prems(2) by simp
      then have "(?src = [] \<and> c = 0 \<and> (\<forall>c \<in> set ?sh. c = CHR '' '')) \<or> (entity_len ?src = Some n \<and> dec ?src = ?sh) \<or>
          (pipes \<and> ?src = [BACKSLASH] \<and> ?sh = [] \<and> starts_with (drop (c + n) sl) ''|'') \<or> (?src \<noteq> [] \<and> (\<forall>c \<in> set ?src. c = CR) \<and> ?sh = [])"
        unfolding piece_explained_def Some ab Let_def option.case prod.case u(2) e(1) len sh [symmetric] .
      then show ?thesis using that by blast
    qed
    then show ?thesis
    proof cases
      case lead
      then show ?thesis using len by (intro spaces) auto
    next
      case entity
      have "0 < n" using entity_len_shape [OF entity(1)] by simp
      moreover have "starts_with (drop j lit) (dec ?src)" using jm(3) entity(2) by (simp add: starts_with_def m_def seg_def)
      ultimately show ?thesis using reads_entity [of dec sl lit c n j] entity e by (intro step) (auto simp: m_def)
    next
      case pipe
      then have n: "n = 1" "m = 0" using len by (simp_all add: m_def)
      then have "sl ! c = BACKSLASH" "byte_at sl (c + 1) = Some (CHR ''|'')"
        using pipe e starts_with_byte [of "c + 1" sl] by (simp_all add: seg_Suc del: byte_at_Some)
      then show ?thesis using n e reads_branch [of c sl "c + 1" j dec lit j] by (intro step) (auto simp: read_dropped_def)
    next
      case crs
      have "0 < n" using crs(1) len by (metis gr0I length_0_conv)
      moreover have "m = 0" using crs(3) by (simp add: m_def)
      ultimately show ?thesis using reads_crs [OF _ e(2) crs(2)] by (intro step) simp_all
    qed
  qed
qed

lemma leading_spaces_ge: "k \<le> length l \<Longrightarrow> \<forall>c \<in> set (seg l 0 k). c = CHR '' '' \<Longrightarrow> k \<le> leading_spaces l"
proof -
  assume k: "k \<le> length l" "\<forall>c \<in> set (seg l 0 k). c = CHR '' ''"
  then have "takeWhile (\<lambda>c. c = CHR '' '') l = take k l @ takeWhile (\<lambda>c. c = CHR '' '') (drop k l)"
    using takeWhile_append2 [of "take k l" "\<lambda>c. c = CHR '' ''" "drop k l"] by (auto simp: seg_def)
  then show ?thesis using k(1) by (simp add: leading_spaces_def)
qed

lemma could_explain_complete:
  assumes "rebuild sl lit 0 pieces = Some (length sl, lit)" "list_all (piece_explained dec sl lit pipes) pieces"
  shows "could_explain dec sl lit"
proof -
  obtain k where k: "k \<le> length lit" "\<forall>c \<in> set (seg lit 0 k). c = CHR '' ''" "reads_to dec sl lit 0 k"
    using pieces_read [OF assms, of 0] by auto
  have "k \<le> leading_spaces lit" by (rule leading_spaces_ge [OF k(1,2)])
  then have "reads_to dec sl lit 0 0 \<or> (\<exists>(i', j') \<in> set (map (\<lambda>j. (0, j)) [1..<leading_spaces lit + 1]). reads_to dec sl lit i' j')"
    using k(3) by (cases "k = 0") (auto simp del: upt_Suc intro!: bexI [of _ k])
  then show ?thesis unfolding could_explain_def Let_def by (simp add: could_loop_complete)
qed

text \<open>
  C33: The prefilter of \<open>explains\<close> is only a shortcut: a slice holds a literal exactly when they are equal, when dropping
  the backslashes of escaped pipes makes them equal, or when the piece walk splits the slice
  into pieces that all have a known reason; no such slice is turned away by the bounded read made
  before the walk.
\<close>

theorem explains_exact:
  "explains dec sl lit pipes \<longleftrightarrow>
     sl = lit \<or> unescapes_to sl lit \<or>
     (\<exists>pieces. split_loop dec sl lit pipes 0 0 None [] = Some pieces \<and> list_all (piece_explained dec sl lit pipes) pieces)"
proof -
  have "walk_inv sl lit 0 0 None []" by (simp add: walk_inv_def)
  then have rebuilt: "rebuild sl lit 0 pieces = Some (length sl, lit)" if "split_loop dec sl lit pipes 0 0 None [] = Some pieces" for pieces
    using split_loop_rebuilds that by blast
  then have "split_pieces dec sl lit pipes = split_loop dec sl lit pipes 0 0 None []"
    by (auto simp: split_pieces_def split: option.splits)
  then show ?thesis
    using rebuilt could_explain_complete [of sl lit _ dec pipes] by (auto simp: explains_def split: option.splits)
qed

subsection \<open>The covering table\<close>

text \<open>The reference at \<open>a\<close> holds byte \<open>x\<close> strictly inside.\<close>

definition covers :: "bytes \<Rightarrow> nat \<Rightarrow> nat \<Rightarrow> bool" where
  "covers src x a \<longleftrightarrow> a < x \<and> reaches src a x"

lemma covers_near: "covers src x a \<Longrightarrow> x < a + MAX_ENTITY_LEN \<and> a < length src"
  using entity_len_shape [of "drop a src"] by (fastforce simp: covers_def reaches_def split: option.splits)

text \<open>References never overlap: none holds an ampersand after its own.\<close>

lemma covers_unique:
  assumes "covers src x a" "covers src x a'"
  shows "a = a'"
proof -
  have False if lt: "a < a'" and c: "covers src x a" "covers src x a'" for a a'
  proof -
    obtain l where l: "entity_len (drop a src) = Some l" "x < a + l" using c(1) by (auto simp: covers_def reaches_def split: option.splits)
    note shape = entity_len_shape [OF l(1)]
    let ?k = "a' - a"
    have "a' < x" "src ! a' = CHR ''&''" using c(2) by (auto simp: covers_def reaches_def)
    then have k: "1 \<le> ?k" "?k < l - 1" "drop a src ! ?k = CHR ''&''" using lt l(2) shape by auto
    then have "entity_byte (CHR ''&'')" using shape by metis
    then show False by (simp add: entity_byte_def is_alnum_def is_digit_def)
  qed
  then show ?thesis using assms by (meson linorder_neqE_nat)
qed

lemma fold_fill:
  fixes lo :: nat
  assumes "lo \<le> p" "lo \<le> x" "x - lo < length ins"
  shows "fold (\<lambda>y ins. ins[y - lo := v]) [p..<q] ins ! (x - lo) = (if p \<le> x \<and> x < q then v else ins ! (x - lo)) \<and>
         length (fold (\<lambda>y ins. ins[y - lo := v]) [p..<q] ins) = length ins"
proof (induction q)
  case (Suc q)
  show ?case
  proof (cases "p \<le> q")
    case True
    then have "q - lo = x - lo \<longleftrightarrow> q = x" using assms by auto
    then show ?thesis using Suc True assms by (auto simp: nth_list_update)
  qed (use Suc in auto)
qed simp

lemma cover_step_nth:
  assumes "lo \<le> x" "x \<le> to" "x - lo < length ins"
  shows "cover_step src lo to a ins ! (x - lo) = (if covers src x a then to_u32 a + 1 else ins ! (x - lo)) \<and>
         length (cover_step src lo to a ins) = length ins"
proof (cases "byte_at src a = Some (CHR ''&'')")
  case True
  show ?thesis
  proof (cases "entity_len (drop a src)")
    case None
    then show ?thesis using True by (simp add: cover_step_def covers_def reaches_def)
  next
    case (Some l)
    have "max (a + 1) lo \<le> x \<and> x < min (a + l) (to + 1) \<longleftrightarrow> covers src x a" using assms Some True by (auto simp: covers_def reaches_def)
    then show ?thesis using True Some fold_fill [of lo "max (a + 1) lo" x ins "to_u32 a + 1" "min (a + l) (to + 1)"] assms
      by (simp add: cover_step_def del: byte_at_Some max_less_iff_conj min_less_iff_conj max.bounded_iff)
  qed
next
  case False
  then show ?thesis by (simp add: cover_step_def covers_def reaches_def del: byte_at_Some)
qed

lemma cover_fold_nth:
  assumes "lo \<le> x" "x \<le> to" "x - lo < length ins"
  shows "fold (cover_step src lo to) as ins ! (x - lo) =
           (case find (covers src x) (rev as) of Some a \<Rightarrow> to_u32 a + 1 | None \<Rightarrow> ins ! (x - lo)) \<and>
         length (fold (cover_step src lo to) as ins) = length ins"
proof (induction as rule: rev_induct)
  case (snoc a as)
  then show ?case using cover_step_nth [OF assms(1,2), of "fold (cover_step src lo to) as ins" src a] assms(3) by simp
qed simp

lemma covering_iff:
  assumes "lo \<le> x" "x \<le> to" "length src < 4294967296"
  shows "covering (entity_cover_new src lo to) x = Some a \<longleftrightarrow> covers src x a"
proof -
  let ?as = "[lo - MAX_ENTITY_LEN..<to]" and ?ins = "replicate (to + 1 - lo) (0 :: u32)"
  let ?t = "fold (cover_step src lo to) ?as ?ins"
  have len: "x - lo < length ?ins" using assms by simp
  note nth = cover_fold_nth [OF assms(1,2) len, of src ?as]
  have small: "to_u32 b + 1 \<noteq> 0 \<and> to_usize (to_u32 b + 1 - 1) = b" if "covers src x b" for b
  proof -
    have "b + 1 < 4294967296" using covers_near [OF that] assms(3) by simp
    then have "to_usize (to_u32 (b + 1)) = b + 1" "to_usize (to_u32 b) = b" by (rule unat_to_u32, simp)
    then show ?thesis by (metis add_diff_cancel_right' add_is_0 of_nat_1 of_nat_add unsigned_0 zero_neq_one)
  qed
  have found: "find (covers src x) (rev ?as) = Some b \<longleftrightarrow> covers src x b" for b
  proof
    assume "find (covers src x) (rev ?as) = Some b"
    then show "covers src x b" by (auto simp: find_Some_iff)
  next
    assume b: "covers src x b"
    then have "b \<in> set (rev ?as)" using covers_near [OF b] assms by (auto simp: covers_def)
    then obtain c where "find (covers src x) (rev ?as) = Some c" using b by (metis find_None_iff option.exhaust)
    moreover from this have "covers src x c" by (auto simp: find_Some_iff)
    ultimately show "find (covers src x) (rev ?as) = Some b" using covers_unique b by blast
  qed
  show ?thesis
  proof (cases "find (covers src x) (rev ?as)")
    case None
    then show ?thesis using nth len found [of a] by (simp add: covering_def entity_cover_new_def Let_def)
  next
    case (Some b)
    then have "covering (entity_cover_new src lo to) x = Some b"
      using nth len small [OF found [THEN iffD1, OF Some]] by (simp add: covering_def entity_cover_new_def Let_def)
    then show ?thesis using Some found [of a] by simp
  qed
qed

text \<open>
  C34: The covering table of a span answers for every window of the span exactly as the direct search for a reference
  the window cuts, which scans up to 34 bytes before each end.
\<close>

theorem entity_cover_exact:
  assumes "lo \<le> q" "q \<le> to" "lo \<le> r" "r \<le> to" "length src < 4294967296"
  shows "cover_cuts (entity_cover_new src lo to) src q r = cuts_entity src q r"
proof -
  have c: "(case covering (entity_cover_new src lo to) x of Some a \<Rightarrow> P a | None \<Rightarrow> False) \<longleftrightarrow> (\<exists>a. covers src x a \<and> P a)"
    if "lo \<le> x" "x \<le> to" for x P
    using covering_iff [OF that assms(5)] by (cases "covering (entity_cover_new src lo to) x") (auto, metis option.inject)
  have near: "covers src x a \<longleftrightarrow> x - MAX_ENTITY_LEN \<le> a \<and> a < x \<and> reaches src a x" for x a
    using covers_near [of src x a] by (auto simp: covers_def)
  show ?thesis
    unfolding cover_cuts_def cuts_entity_def c [OF assms(1,2)] c [OF assms(3,4)] near by (auto simp: list_ex_iff)
qed

theorem entity_cover_exact_witness:
  "cover_cuts (entity_cover_new ''x&amp;y'' 0 7) ''x&amp;y'' 2 4 = cuts_entity ''x&amp;y'' 2 4"
  using entity_cover_exact [of 0 2 7 4 "''x&amp;y''"] by simp

end
