(* ===== verification/Flark_Expand.thy ===== *)
theory Flark_Expand
  imports Flark_Encode
begin

text \<open>
  Reading a published model back: \<^verbatim>\<open>expand\<close> of \<^verbatim>\<open>native/flark_parse/src/records.rs\<close>, which derives
  every byte offset from its UTF-16 offset through the source and refuses a model whose packed
  structure is inconsistent. A failure is the place it names, without the numbers of
  its message.
\<close>

unbundle bit_operations_syntax

text \<open>\<^verbatim>\<open>Result<T, String>\<close>: \<open>?\<close>, and a loop over fallible steps.\<close>

type_synonym 'a result = "string + 'a"

definition res_bind :: "'a result \<Rightarrow> ('a \<Rightarrow> 'b result) \<Rightarrow> 'b result" where
  "res_bind r f = (case r of Inl e \<Rightarrow> Inl e | Inr x \<Rightarrow> f x)"

definition guard_res :: "bool \<Rightarrow> string \<Rightarrow> 'a result \<Rightarrow> 'a result" where
  "guard_res ok what r = (if ok then r else Inl what)"

fun map_res :: "('a \<Rightarrow> 'b result) \<Rightarrow> 'a list \<Rightarrow> 'b list result" where
  "map_res f [] = Inr []"
| "map_res f (x # xs) = res_bind (f x) (\<lambda>y. res_bind (map_res f xs) (\<lambda>ys. Inr (y # ys)))"

lemma res_bind_Inr [simp]: "res_bind (Inr x) f = f x" "res_bind (Inl e) f = Inl e"
  by (simp_all add: res_bind_def)

lemma guard_res_simps [simp]: "guard_res True what r = r" "guard_res False what r = Inl what"
  by (simp_all add: guard_res_def)

lemma map_res_Inr: "(\<And>x. x \<in> set xs \<Longrightarrow> f x = Inr (g x)) \<Longrightarrow> map_res f xs = Inr (map g xs)"
  by (induction xs) auto

subsection \<open>Byte offsets\<close>

text \<open>The byte each UTF-16 unit begins, \<open>None\<close> inside a surrogate pair.\<close>

definition byte_table_step :: "bytes \<Rightarrow> nat \<times> nat \<times> u32 option list \<Rightarrow> nat \<times> nat \<times> u32 option list" where
  "byte_table_step c st = (case st of (i, unit, t) \<Rightarrow> (i + length c, unit + len_utf16 c, t[unit := Some (to_u32 i)]))"

definition byte_table :: "bytes \<Rightarrow> u32 option list" where
  "byte_table src =
     (let src16 = utf16_len src
      in (snd (snd (fold byte_table_step (chars src) (0, 0, replicate (src16 + 1) None))))[src16 := Some (to_u32 (length src))])"

definition byte_for :: "u32 option list \<Rightarrow> u32 \<Rightarrow> string \<Rightarrow> u32 result" where
  "byte_for t u what =
     (case get_item t (to_usize u) of Some (Some b) \<Rightarrow> Inr b | _ \<Rightarrow> Inl what)"

subsection \<open>The sections of a model\<close>

record layout =
  ly_nl :: nat
  ly_nb :: nat
  ly_nc :: nat
  ly_nr :: nat
  ly_nd :: nat
  ly_nx :: nat
  ly_ne :: nat
  ly_ns :: nat

definition layout_of :: "u32 list \<Rightarrow> layout" where
  "layout_of w =
     \<lparr>ly_nl = to_usize (w ! 4), ly_nb = to_usize (w ! 5), ly_nc = to_usize (w ! 6), ly_nr = to_usize (w ! 7),
      ly_nd = to_usize (w ! 8), ly_nx = to_usize (w ! 9), ly_ne = to_usize (w ! 10), ly_ns = to_usize (w ! 11)\<rparr>"

definition lines_off :: "layout \<Rightarrow> nat" where "lines_off ly = WIRE_HEADER_WORDS"
definition blocks_off :: "layout \<Rightarrow> nat" where "blocks_off ly = lines_off ly + ly_nl ly * WIRE_LINE_WORDS"
definition content_off :: "layout \<Rightarrow> nat" where "content_off ly = blocks_off ly + ly_nb ly * WIRE_BLOCK_WORDS"
definition runs_off :: "layout \<Rightarrow> nat" where "runs_off ly = content_off ly + ly_nc ly * WIRE_CONTENT_WORDS"
definition defs_off :: "layout \<Rightarrow> nat" where "defs_off ly = runs_off ly + ly_nr ly * WIRE_RUN_WORDS"
definition index_off :: "layout \<Rightarrow> nat" where "index_off ly = defs_off ly + ly_nd ly * WIRE_DEFINITION_WORDS"
definition extras_off :: "layout \<Rightarrow> nat" where "extras_off ly = index_off ly + ly_nx ly * WIRE_RUN_EXTRA_WORDS"
definition strings_off :: "layout \<Rightarrow> nat" where "strings_off ly = extras_off ly + ly_ne ly"

text \<open>One record of a section, by its word offsets.\<close>

definition wire_block_at :: "layout \<Rightarrow> u32 list \<Rightarrow> nat \<Rightarrow> wire_block" where
  "wire_block_at ly w b =
     (let f = (\<lambda>k. w ! (blocks_off ly + b * WIRE_BLOCK_WORDS + k))
      in \<lparr>wb_kind_flags = f 0, wb_parent = f 1, wb_start = f 2, wb_end16 = f 3, wb_first_line = f 4, wb_line_count = f 5,
          wb_content_offset = f 6, wb_first_run = f 7, wb_attr = f 8, wb_extra = f 9\<rparr>)"

definition wire_content_at :: "layout \<Rightarrow> u32 list \<Rightarrow> nat \<Rightarrow> wire_content" where
  "wire_content_at ly w c =
     (let f = (\<lambda>k. w ! (content_off ly + c * WIRE_CONTENT_WORDS + k))
      in \<lparr>wc_start = f 0, wc_end16 = f 1, wc_prefix_start = f 2, wc_line_virtual = f 3\<rparr>)"

definition wire_run_at :: "layout \<Rightarrow> u32 list \<Rightarrow> nat \<Rightarrow> wire_run" where
  "wire_run_at ly w i =
     (let f = (\<lambda>k. w ! (runs_off ly + i * WIRE_RUN_WORDS + k))
      in \<lparr>wr_start = f 0, wr_end16 = f 1, wr_hidden = f 2, wr_kind_flags_parent = f 3\<rparr>)"

definition wire_definition_at :: "layout \<Rightarrow> u32 list \<Rightarrow> nat \<Rightarrow> wire_definition" where
  "wire_definition_at ly w d =
     (let f = (\<lambda>k. w ! (defs_off ly + d * WIRE_DEFINITION_WORDS + k))
      in \<lparr>wd_start = f 0, wd_end16 = f 1, wd_label_start = f 2, wd_label_end = f 3, wd_dest_start = f 4, wd_dest_end = f 5\<rparr>)"

definition wire_run_extra_at :: "layout \<Rightarrow> u32 list \<Rightarrow> nat \<Rightarrow> wire_run_extra" where
  "wire_run_extra_at ly w i =
     (let f = (\<lambda>k. w ! (index_off ly + i * WIRE_RUN_EXTRA_WORDS + k)) in \<lparr>wx_run = f 0, wx_offset = f 1\<rparr>)"

definition extra_at :: "layout \<Rightarrow> u32 list \<Rightarrow> u32 \<Rightarrow> nat \<Rightarrow> string \<Rightarrow> u32 list result" where
  "extra_at ly w offset words what =
     (let o' = to_usize offset
      in if ly_ne ly < o' + words then Inl what else Inr (seg w (extras_off ly + o') (extras_off ly + o' + words)))"

definition string_in_bounds :: "layout \<Rightarrow> u32 \<Rightarrow> u32 \<Rightarrow> string \<Rightarrow> unit result" where
  "string_in_bounds ly offset len what = (if ly_ns ly < to_usize offset + to_usize len then Inl what else Inr ())"

subsection \<open>Lines, blocks and content\<close>

definition expand_line :: "u32 option list \<Rightarrow> u32 \<Rightarrow> line_rec result" where
  "expand_line t s16 = res_bind (byte_for t s16 ''line'') (\<lambda>b. Inr \<lparr>li_start_byte = b, li_start_utf16 = s16\<rparr>)"

text \<open>The first runs and content offsets of the blocks start at zero, never fall, and stay in their sections.\<close>

definition offsets_ok :: "layout \<Rightarrow> wire_block list \<Rightarrow> string option" where
  "offsets_ok ly bs =
     (let frs = map wb_first_run bs; cas = map wb_content_offset bs;
          bad = (\<lambda>n xs b. n < to_usize (xs ! b) \<or> (0 < b \<and> xs ! b < xs ! (b - 1)))
      in case find (\<lambda>b. bad (ly_nr ly) frs b \<or> bad (ly_nc ly) cas b) [0..<length bs] of
           Some b \<Rightarrow> Some (if bad (ly_nr ly) frs b then ''first run'' else ''content offset'')
         | None \<Rightarrow>
             if bs \<noteq> [] \<and> hd frs \<noteq> 0 then Some ''first runs''
             else if bs \<noteq> [] \<and> hd cas \<noteq> 0 then Some ''first content'' else None)"

definition owns_block_extra :: "u32 \<Rightarrow> u32 \<Rightarrow> bool" where
  "owns_block_extra kind flags =
     (if kind = BK_CODE_BLOCK then flags AND 1 \<noteq> 0 else kind = BK_ITEM \<or> kind = BK_TABLE \<or> kind = BK_FOOTNOTE_DEFINITION)"

text \<open>The attributes, flags and marker of a block, by its kind.\<close>

record block_attrs =
  ba_attr0 :: u32
  ba_attr1 :: u32
  ba_attr2 :: u32
  ba_flags :: u32
  ba_marker_byte :: u32
  ba_marker_utf16 :: u32

definition range_attrs :: "u32 option list \<Rightarrow> layout \<Rightarrow> u32 list \<Rightarrow> u32 \<Rightarrow> u32 \<Rightarrow> u32 \<Rightarrow> string \<Rightarrow> block_attrs result" where
  "range_attrs t ly w x attr flags what =
     res_bind (extra_at ly w x 2 what) (\<lambda>e.
     res_bind (byte_for t (e ! 0) what) (\<lambda>a.
     res_bind (byte_for t (e ! 1) what) (\<lambda>b.
       Inr \<lparr>ba_attr0 = attr, ba_attr1 = a, ba_attr2 = b, ba_flags = flags, ba_marker_byte = 0, ba_marker_utf16 = 0\<rparr>)))"

definition expand_attrs :: "u32 option list \<Rightarrow> layout \<Rightarrow> u32 list \<Rightarrow> u32 \<Rightarrow> u32 \<Rightarrow> u32 \<Rightarrow> u32 \<Rightarrow> block_attrs result" where
  "expand_attrs t ly w kind flags attr x =
     (let plain = \<lparr>ba_attr0 = attr, ba_attr1 = 0, ba_attr2 = 0, ba_flags = flags, ba_marker_byte = 0, ba_marker_utf16 = 0\<rparr>
      in if kind = BK_CODE_BLOCK \<and> flags AND 1 \<noteq> 0 then range_attrs t ly w x attr flags ''code block''
         else if kind = BK_LIST then Inr (plain\<lparr>ba_attr0 := drop_bit 1 flags AND 1, ba_attr1 := attr, ba_flags := flags AND 1\<rparr>)
         else if kind = BK_ITEM then
           res_bind (extra_at ly w x 3 ''item'') (\<lambda>e.
           res_bind (byte_for t (e ! 0) ''marker end'') (\<lambda>m.
           res_bind (byte_for t (e ! 1) ''task start'') (\<lambda>a.
           res_bind (byte_for t (e ! 2) ''task end'') (\<lambda>b.
             Inr (plain\<lparr>ba_attr1 := a, ba_attr2 := b, ba_marker_byte := m, ba_marker_utf16 := e ! 0\<rparr>)))))
         else if kind = BK_TABLE then res_bind (extra_at ly w x 1 ''table'') (\<lambda>e. Inr (plain\<lparr>ba_attr1 := e ! 0\<rparr>))
         else if kind = BK_FOOTNOTE_DEFINITION then range_attrs t ly w x attr flags ''footnote definition''
         else Inr plain)"

text \<open>\<open>next_content\<close> is the next block's content offset, or the content count.\<close>

definition expand_block :: "u32 option list \<Rightarrow> layout \<Rightarrow> u32 list \<Rightarrow> wire_block \<Rightarrow> u32 \<Rightarrow> block_rec result" where
  "expand_block t ly w wb next_content =
     (let kind = wb_kind_flags wb AND KIND_MASK;
          flags = drop_bit KIND_FLAGS_FLAGS_SHIFT (wb_kind_flags wb) AND BLOCK_FLAGS_MASK
      in guard_res (owns_block_extra kind flags = (wb_extra wb \<noteq> EXTRA_NONE)) ''block extra''
         (res_bind (expand_attrs t ly w kind flags (wb_attr wb) (wb_extra wb)) (\<lambda>a.
          res_bind (byte_for t (wb_start wb) ''block start'') (\<lambda>s.
          res_bind (byte_for t (wb_end16 wb) ''block end'') (\<lambda>e.
            Inr \<lparr>bl_kind = kind, bl_parent = wb_parent wb, bl_start_byte = s, bl_end_byte = e,
                 bl_start_utf16 = wb_start wb, bl_end_utf16 = wb_end16 wb, bl_first_line = wb_first_line wb,
                 bl_line_count = wb_line_count wb, bl_content_offset = wb_content_offset wb,
                 bl_content_count = next_content - wb_content_offset wb, bl_attr0 = ba_attr0 a, bl_attr1 = ba_attr1 a,
                 bl_attr2 = ba_attr2 a, bl_flags = ba_flags a, bl_marker_end_byte = ba_marker_byte a,
                 bl_marker_end_utf16 = ba_marker_utf16 a\<rparr>)))))"

definition expand_content :: "u32 option list \<Rightarrow> wire_content \<Rightarrow> content_rec result" where
  "expand_content t c =
     res_bind (byte_for t (wc_start c) ''content start'') (\<lambda>s.
     res_bind (byte_for t (wc_end16 c) ''content end'') (\<lambda>e.
     res_bind (byte_for t (wc_prefix_start c) ''prefix start'') (\<lambda>p.
       Inr \<lparr>co_line = wc_line_virtual c AND LINE_MASK, co_start_byte = s, co_start_utf16 = wc_start c,
            co_end_byte = e, co_end_utf16 = wc_end16 c,
            co_virtual_leading_spaces = drop_bit VIRTUAL_SHIFT (wc_line_virtual c) AND VIRTUAL_MASK,
            co_prefix_start_byte = p, co_prefix_start_utf16 = wc_prefix_start c\<rparr>)))"

subsection \<open>Runs\<close>

text \<open>The run-extra index: each entry names a later run than the one before.\<close>

fun index_loop :: "nat \<Rightarrow> u32 option \<Rightarrow> wire_run_extra list \<Rightarrow> u32 option list \<Rightarrow> u32 option list result" where
  "index_loop nr prev [] t = Inr t"
| "index_loop nr prev (x # xs) t =
     (if nr \<le> to_usize (wx_run x) \<or> (case prev of Some p \<Rightarrow> wx_run x \<le> p | None \<Rightarrow> False) then Inl ''run-extra index''
      else index_loop nr (Some (wx_run x)) xs (t[to_usize (wx_run x) := Some (wx_offset x)]))"

definition run_index :: "nat \<Rightarrow> wire_run_extra list \<Rightarrow> u32 option list result" where
  "run_index nr xs = index_loop nr None xs (replicate nr None)"

text \<open>The block that owns run \<open>i\<close>: the last whose runs begin at or before it.\<close>

function advance_owner :: "u32 list \<Rightarrow> nat \<Rightarrow> nat \<Rightarrow> nat" where
  "advance_owner frs i owner =
     (if owner + 1 < length frs \<and> to_usize (frs ! (owner + 1)) \<le> i then advance_owner frs i (owner + 1) else owner)"
  by pat_completeness auto
termination
  by (relation "measure (\<lambda>(frs, i, owner). length frs - owner)") auto

declare advance_owner.simps [simp del]

definition owns_run_extra :: "u32 \<Rightarrow> u32 \<Rightarrow> bool" where
  "owns_run_extra kind flags =
     (flags AND 8 \<noteq> 0 \<or> kind = RK_LINK \<or> kind = RK_IMAGE \<or> kind = RK_AUTOLINK \<or> kind = RK_REPLACEMENT \<or> kind = RK_FOOTNOTE_REF \<or>
      (kind = RK_CODE \<and> flags AND 2 \<noteq> 0))"

record run_place =
  rp_content_start :: u32
  rp_content_end :: u32
  rp_parent :: u32
  rp_cursor :: u32

text \<open>A run's content range and parent, from its hidden lengths and parent distance or from its wide extra.\<close>

definition expand_place :: "layout \<Rightarrow> u32 list \<Rightarrow> nat \<Rightarrow> wire_run \<Rightarrow> u32 \<Rightarrow> run_place result" where
  "expand_place ly w i wr cursor =
     (let flags = drop_bit RUN_FLAGS_SHIFT (wr_kind_flags_parent wr) AND RUN_FLAGS_MASK;
          distance = drop_bit PARENT_DISTANCE_SHIFT (wr_kind_flags_parent wr) AND PARENT_DISTANCE_MASK;
          lead = wr_hidden wr AND HIDDEN_MASK; after = drop_bit HIDDEN_AFTER_SHIFT (wr_hidden wr) AND HIDDEN_MASK
      in if flags AND 8 \<noteq> 0 then
           res_bind (extra_at ly w cursor 3 ''wide run'') (\<lambda>e.
             Inr \<lparr>rp_content_start = e ! 0, rp_content_end = e ! 1, rp_parent = e ! 2, rp_cursor = cursor + 3\<rparr>)
         else
           guard_res (\<not> (wr_end16 wr < lead + wr_start wr \<or> wr_end16 wr < after)) ''hidden lengths''
             (guard_res (distance = 0 \<or> to_usize distance \<le> i) ''parent distance''
                (Inr \<lparr>rp_content_start = wr_start wr + lead, rp_content_end = wr_end16 wr - after,
                      rp_parent = (if distance = 0 then U32_MAX else to_u32 i - distance), rp_cursor = cursor\<rparr>)))"

record run_aux =
  rx_aux :: "u32 list"
  rx_resolved :: "u32 list"

definition expand_aux :: "u32 option list \<Rightarrow> layout \<Rightarrow> u32 list \<Rightarrow> u32 \<Rightarrow> u32 \<Rightarrow> u32 \<Rightarrow> run_aux result" where
  "expand_aux t ly w kind flags cursor =
     (if kind = RK_LINK \<or> kind = RK_IMAGE \<or> kind = RK_AUTOLINK then
        res_bind (extra_at ly w cursor 8 ''link'') (\<lambda>e.
        res_bind (map_res (\<lambda>u. byte_for t u ''link range'') (take 4 e)) (\<lambda>aux.
        res_bind (string_in_bounds ly (e ! 4) (e ! 5) ''destination'') (\<lambda>_.
        res_bind (string_in_bounds ly (e ! 6) (e ! 7) ''title'') (\<lambda>_.
          Inr \<lparr>rx_aux = aux, rx_resolved = drop 4 e\<rparr>))))
      else if kind = RK_REPLACEMENT then
        res_bind (extra_at ly w cursor 2 ''replacement'') (\<lambda>e.
        res_bind (string_in_bounds ly (e ! 0) (e ! 1) ''replacement'') (\<lambda>_.
          Inr \<lparr>rx_aux = [e ! 0, e ! 1, 0, 0], rx_resolved = [0, 0, 0, 0]\<rparr>))
      else if kind = RK_CODE \<and> flags AND 2 \<noteq> 0 then
        res_bind (extra_at ly w cursor 2 ''code display'') (\<lambda>e.
        res_bind (string_in_bounds ly (e ! 0) (e ! 1) ''code display'') (\<lambda>_.
          Inr \<lparr>rx_aux = [0, 0, e ! 0, e ! 1], rx_resolved = [0, 0, 0, 0]\<rparr>))
      else if kind = RK_FOOTNOTE_REF then
        res_bind (extra_at ly w cursor 2 ''footnote reference'') (\<lambda>e.
        res_bind (byte_for t (e ! 0) ''label start'') (\<lambda>a.
        res_bind (byte_for t (e ! 1) ''label end'') (\<lambda>b.
          Inr \<lparr>rx_aux = [a, b, 0, 0], rx_resolved = [0, 0, 0, 0]\<rparr>)))
      else Inr \<lparr>rx_aux = [0, 0, 0, 0], rx_resolved = [0, 0, 0, 0]\<rparr>)"

definition expand_run :: "u32 option list \<Rightarrow> layout \<Rightarrow> u32 list \<Rightarrow> nat \<Rightarrow> nat \<Rightarrow> wire_run \<Rightarrow> u32 option \<Rightarrow> run_rec result" where
  "expand_run t ly w owner i wr index =
     (let packed = wr_kind_flags_parent wr; kind = packed AND KIND_MASK;
          flags = drop_bit RUN_FLAGS_SHIFT packed AND RUN_FLAGS_MASK
      in guard_res (owns_run_extra kind flags = (index \<noteq> None)) ''run extra''
         (res_bind (expand_place ly w i wr (case index of None \<Rightarrow> 0 | Some o' \<Rightarrow> o')) (\<lambda>p.
          res_bind (expand_aux t ly w kind flags (rp_cursor p)) (\<lambda>x.
          res_bind (byte_for t (wr_start wr) ''run start'') (\<lambda>s.
          res_bind (byte_for t (wr_end16 wr) ''run end'') (\<lambda>e.
          res_bind (byte_for t (rp_content_start p) ''run content start'') (\<lambda>cs.
          res_bind (byte_for t (rp_content_end p) ''run content end'') (\<lambda>ce.
            Inr \<lparr>ru_kind = kind, ru_block = to_u32 owner, ru_parent = rp_parent p, ru_start_byte = s, ru_end_byte = e,
                 ru_content_start_byte = cs, ru_content_end_byte = ce, ru_start_utf16 = wr_start wr, ru_end_utf16 = wr_end16 wr,
                 ru_content_start_utf16 = rp_content_start p, ru_content_end_utf16 = rp_content_end p,
                 ru_aux0 = rx_aux x ! 0, ru_aux1 = rx_aux x ! 1, ru_aux2 = rx_aux x ! 2, ru_aux3 = rx_aux x ! 3,
                 ru_flags = (flags AND 3) OR push_bit 8 (drop_bit 2 flags AND 1),
                 ru_destination_offset = rx_resolved x ! 0, ru_destination_length = rx_resolved x ! 1,
                 ru_title_offset = rx_resolved x ! 2, ru_title_length = rx_resolved x ! 3\<rparr>)))))))) "

fun expand_runs :: "u32 option list \<Rightarrow> layout \<Rightarrow> u32 list \<Rightarrow> u32 list \<Rightarrow> nat \<Rightarrow> nat \<Rightarrow> (wire_run \<times> u32 option) list \<Rightarrow> run_rec list result" where
  "expand_runs t ly w frs owner i [] = Inr []"
| "expand_runs t ly w frs owner i ((wr, index) # rs) =
     (let owner' = advance_owner frs i owner
      in res_bind (expand_run t ly w owner' i wr index) (\<lambda>r.
         res_bind (expand_runs t ly w frs owner' (i + 1) rs) (\<lambda>rs'. Inr (r # rs'))))"

definition expand_definition :: "u32 option list \<Rightarrow> wire_definition \<Rightarrow> definition_words_rec result" where
  "expand_definition t d =
     res_bind (byte_for t (wd_start d) ''definition start'') (\<lambda>s.
     res_bind (byte_for t (wd_end16 d) ''definition end'') (\<lambda>e.
     res_bind (byte_for t (wd_label_start d) ''label start'') (\<lambda>l0.
     res_bind (byte_for t (wd_label_end d) ''label end'') (\<lambda>l1.
     res_bind (byte_for t (wd_dest_start d) ''destination start'') (\<lambda>d0.
     res_bind (byte_for t (wd_dest_end d) ''destination end'') (\<lambda>d1.
       Inr \<lparr>dw_start_byte = s, dw_end_byte = e, dw_start_utf16 = wd_start d, dw_end_utf16 = wd_end16 d,
            dw_label_start_byte = l0, dw_label_end_byte = l1, dw_dest_start_byte = d0, dw_dest_end_byte = d1\<rparr>))))))"

subsection \<open>The model\<close>

definition expand_header :: "layout \<Rightarrow> bytes \<Rightarrow> records_header" where
  "expand_header ly src =
     \<lparr>rh_magic = SCHEMA_MAGIC, rh_version = SCHEMA_VERSION, rh_src_bytes = to_u32 (length src),
      rh_src_utf16 = to_u32 (utf16_len src), rh_line_count = to_u32 (ly_nl ly), rh_block_count = to_u32 (ly_nb ly),
      rh_content_count = to_u32 (ly_nc ly), rh_run_count = to_u32 (ly_nr ly), rh_definition_count = to_u32 (ly_nd ly),
      rh_string_bytes = to_u32 (ly_ns ly), rh_reserved = 0\<rparr>"

definition header_problem :: "bytes \<Rightarrow> u32 list \<Rightarrow> string option" where
  "header_problem src w =
     (if length w < WIRE_HEADER_WORDS then Some ''short header''
      else if w ! 0 \<noteq> SCHEMA_MAGIC \<or> w ! 1 \<noteq> SCHEMA_VERSION then Some ''bad magic/version''
      else if length w \<noteq> strings_off (layout_of w) + (ly_ns (layout_of w) + 3) div 4 then Some ''buffer words''
      else if to_usize (w ! 2) \<noteq> length src then Some ''src_bytes''
      else if to_usize (w ! 3) \<noteq> utf16_len src then Some ''src_utf16''
      else None)"

definition expand_sections :: "bytes \<Rightarrow> u32 list \<Rightarrow> u32 list result" where
  "expand_sections src w =
     (let ly = layout_of w; t = byte_table src; bs = map (wire_block_at ly w) [0..<ly_nb ly];
          nexts = map wb_content_offset (tl bs) @ [to_u32 (ly_nc ly)]
      in res_bind (map_res (\<lambda>l. expand_line t (w ! (lines_off ly + l))) [0..<ly_nl ly]) (\<lambda>lines.
         (case offsets_ok ly bs of
            Some what \<Rightarrow> Inl what
          | None \<Rightarrow>
              res_bind (map_res (\<lambda>(b, nc). expand_block t ly w b nc) (zip bs nexts)) (\<lambda>blocks.
              res_bind (map_res (\<lambda>c. expand_content t (wire_content_at ly w c)) [0..<ly_nc ly]) (\<lambda>content.
              res_bind (run_index (ly_nr ly) (map (wire_run_extra_at ly w) [0..<ly_nx ly])) (\<lambda>index.
              res_bind (expand_runs t ly w (map wb_first_run bs) 0 0 (zip (map (wire_run_at ly w) [0..<ly_nr ly]) index)) (\<lambda>runs.
              res_bind (map_res (\<lambda>d. expand_definition t (wire_definition_at ly w d)) [0..<ly_nd ly]) (\<lambda>defs.
                Inr (records_header_words (expand_header ly src) @ concat (map line_rec_words lines) @
                     concat (map block_rec_words blocks) @ concat (map content_rec_words content) @
                     concat (map run_rec_words runs) @ concat (map definition_words_rec_words defs) @
                     drop (strings_off ly) w))))))))) "

definition expand :: "bytes \<Rightarrow> u32 list \<Rightarrow> u32 list result" where
  "expand src w = (case header_problem src w of Some what \<Rightarrow> Inl what | None \<Rightarrow> expand_sections src w)"

end
