(* ===== verification/Flark_Offsets.thy ===== *)
theory Flark_Offsets
  imports Flark_Expand
begin

text \<open>
  The two tables between UTF-8 and UTF-16 offsets are inverse to each other at scalar boundaries:
  \<^verbatim>\<open>LineIndex::u16\<close> of \<^verbatim>\<open>lines.rs\<close>, which a published model is written with, and
  the byte table \<^verbatim>\<open>expand\<close> of \<^verbatim>\<open>records.rs\<close> builds to read it back. The packed words of a record
  come apart into the values that were packed.
\<close>

unbundle bit_operations_syntax

subsection \<open>The byte table\<close>

lemma byte_table_fold:
  assumes "utf8_valid bs" "u + utf16_len bs < length t"
  shows "\<exists>t'. fold byte_table_step (chars bs) (i, u, t) = (i + length bs, u + utf16_len bs, t') \<and> length t' = length t \<and>
           (\<forall>k < u. t' ! k = t ! k) \<and>
           (\<forall>j < length bs. is_char_boundary bs j \<longrightarrow> t' ! (u + utf16_len (take j bs)) = Some (to_u32 (i + j)))"
  using assms
proof (induction arbitrary: i u t rule: utf8_valid_induct)
  case Nil
  then show ?case by (simp add: utf16_len_def)
next
  case (Scalar c rest)
  have len: "utf16_len (c @ rest) = len_utf16 c + utf16_len rest" and pos: "0 < len_utf16 c"
    using Scalar.hyps utf16_len_scalar len_utf16_le by blast+
  have "u + len_utf16 c + utf16_len rest < length (t[u := Some (to_u32 i)])" using Scalar.prems len by simp
  from Scalar.IH [OF this, of "i + length c"] obtain t' where t': "fold byte_table_step (chars rest) (i + length c, u + len_utf16 c, t[u := Some (to_u32 i)]) =
      (i + length c + length rest, u + len_utf16 c + utf16_len rest, t')" "length t' = length t"
      "\<forall>k < u + len_utf16 c. t' ! k = t[u := Some (to_u32 i)] ! k"
      "\<forall>j < length rest. is_char_boundary rest j \<longrightarrow> t' ! (u + len_utf16 c + utf16_len (take j rest)) = Some (to_u32 (i + length c + j))"
    by auto
  have "t' ! (u + utf16_len (take j (c @ rest))) = Some (to_u32 (i + j))"
    if j: "j < length (c @ rest)" "is_char_boundary (c @ rest) j" for j
  proof (cases "j < length c")
    case True
    then have "j = 0" using j Scalar.hyps boundary_app_head by blast
    then show ?thesis using t'(3) pos len Scalar.prems by (simp add: utf16_len_def)
  next
    case False
    then have "is_char_boundary rest (j - length c)"
      using j boundary_app_tail [OF _ utf8_valid_head [OF Scalar.hyps(3)], of c j] Scalar.hyps(2) by (auto simp: is_char_boundary_def)
    moreover have "j - length c < length rest" "length c + (j - length c) = j" using False j by auto
    ultimately have "t' ! (u + len_utf16 c + utf16_len (take (j - length c) rest)) = Some (to_u32 (i + j))"
      using t'(4) by (metis add.assoc)
    then show ?thesis using False Scalar.hyps by (simp add: utf16_len_scalar add.assoc)
  qed
  moreover have "fold byte_table_step (chars (c @ rest)) (i, u, t) = (i + length (c @ rest), u + utf16_len (c @ rest), t')"
    using t'(1) Scalar.hyps len by (simp add: chars_append byte_table_step_def add.assoc)
  ultimately show ?case using t'(2,3) by (intro exI [of _ t']) auto
qed

lemma utf16_len_less:
  assumes "utf8_valid bs" "is_char_boundary bs j" "j < length bs"
  shows "utf16_len (take j bs) < utf16_len bs"
proof -
  have s: "utf8_valid (take j bs)" "utf8_valid (drop j bs)" using boundary_split [OF assms(1,2)] by auto
  have "utf16_len bs = utf16_len (take j bs) + utf16_len (drop j bs)"
    using utf16_len_append [OF s(1), of "drop j bs"] by simp
  moreover have "0 < utf16_len (drop j bs)"
  proof -
    from assms(3) s(2) obtain c rest where "drop j bs = c @ rest" "scalar_ok c" "c \<noteq> []"
      by (metis drop_eq_Nil leD utf8_valid_step)
    then show ?thesis using len_utf16_le [of c] by (simp add: utf16_len_scalar)
  qed
  ultimately show ?thesis by simp
qed

lemma byte_table_boundary:
  assumes "utf8_valid src" "is_char_boundary src j"
  shows "utf16_len (take j src) < length (byte_table src) \<and> byte_table src ! utf16_len (take j src) = Some (to_u32 j)"
proof -
  have "0 + utf16_len src < length (replicate (utf16_len src + 1) (None :: u32 option))" by simp
  from byte_table_fold [OF assms(1) this, of 0] obtain t' where t': "byte_table src = t'[utf16_len src := Some (to_u32 (length src))]"
      "length t' = Suc (utf16_len src)"
      "\<forall>j < length src. is_char_boundary src j \<longrightarrow> t' ! utf16_len (take j src) = Some (to_u32 j)"
    by (auto simp: byte_table_def)
  show ?thesis
  proof (cases "j < length src")
    case True
    then show ?thesis using t' utf16_len_less [OF assms] assms(2) by simp
  next
    case False
    then have "j = length src" using assms(2) by (auto simp: is_char_boundary_def)
    then show ?thesis using t' by simp
  qed
qed

text \<open>A byte offset at a scalar boundary, as a record holds it.\<close>

definition on_scalar :: "bytes \<Rightarrow> u32 \<Rightarrow> bool" where
  "on_scalar src b = is_char_boundary src (to_usize b)"

lemma byte_for_u16:
  assumes "utf8_valid src" "length src < 4294967296" "on_scalar src b"
  shows "byte_for (byte_table src) (u16 (line_index_new src) (to_usize b)) what = Inr b"
proof -
  have j: "to_usize b \<le> length src" "is_char_boundary src (to_usize b)" using assms(3) by (auto simp: on_scalar_def is_char_boundary_def)
  then have "u16 (line_index_new src) (to_usize b) = to_u32 (utf16_len (take (to_usize b) src))"
    by (simp add: u16_eq [OF assms(1)] min_absorb1)
  moreover have "utf16_len (take (to_usize b) src) < 4294967296"
    using utf16_len_le boundary_split [OF assms(1) j(2)] assms(2) j(1) by (metis length_take min.absorb2 order.strict_trans1 order.trans)
  ultimately show ?thesis
    using byte_table_boundary [OF assms(1) j(2)] by (simp add: byte_for_def get_item_def)
qed

subsection \<open>Packed words\<close>

text \<open>A value below \<open>2 ^ n\<close> under a field shifted past it: each comes back under its mask.\<close>

lemma fits_bit: "take_bit n (a :: u32) = a \<Longrightarrow> n \<le> k \<Longrightarrow> \<not> bit a k"
  by (metis bit_take_bit_iff not_less)

lemma pack_low:
  fixes a b :: u32
  assumes "take_bit n a = a"
  shows "take_bit n (a OR push_bit n b) = a"
proof (rule bit_word_eqI)
  fix k
  assume "k < LENGTH(32)"
  then show "bit (take_bit n (a OR push_bit n b)) k = bit a k" using fits_bit [OF assms, of k] by (auto simp: bit_simps not_less)
qed

lemma pack_high:
  fixes a b :: u32
  assumes "take_bit n a = a" "take_bit (32 - n) b = b" "n < 32"
  shows "drop_bit n (a OR push_bit n b) = b"
proof (rule bit_word_eqI)
  fix k
  assume "k < LENGTH(32)"
  have "\<not> bit a (n + k)" using fits_bit [OF assms(1)] by simp
  moreover have "bit b k \<Longrightarrow> n + k < 32" using fits_bit [OF assms(2), of k] by linarith
  ultimately show "bit (drop_bit n (a OR push_bit n b)) k = bit b k"
    by (auto simp: bit_simps)
qed

lemma fits_less: "take_bit n (a :: u32) = a \<longleftrightarrow> 32 \<le> n \<or> a < 2 ^ n"
proof -
  have "take_bit n a = a \<longleftrightarrow> take_bit n (to_usize a) = to_usize a" by (metis unsigned_take_bit_eq word_unat_eq_iff)
  also have "\<dots> \<longleftrightarrow> to_usize a < 2 ^ n" by (rule take_bit_nat_eq_self_iff)
  also have "\<dots> \<longleftrightarrow> 32 \<le> n \<or> a < 2 ^ n"
  proof (cases "32 \<le> n")
    case True
    then have "(2 :: nat) ^ 32 \<le> 2 ^ n" by (intro power_increasing) auto
    then show ?thesis using unat_u32_less [of a] True by simp
  next
    case False
    then have "to_usize (2 ^ n :: u32) = 2 ^ n"
      using unat_to_u32 [of "2 ^ n"] power_strict_increasing [of n 32 "2 :: nat"] by simp
    then show ?thesis using False by (simp add: word_less_nat_alt)
  qed
  finally show ?thesis .
qed

lemma mask_words: "(w :: u32) AND 0xFF = take_bit 8 w" "w AND 0xFFFF = take_bit 16 w" "w AND 0xFFFFFF = take_bit 24 w"
    "w AND 0x3FFFFFFF = take_bit 30 w" "w AND 0x3 = take_bit 2 w"
  by (simp_all add: take_bit_eq_mask mask_eq_exp_minus_1)

text \<open>The three packed words of a model, field by field.\<close>

lemma kind_flags_packed:
  fixes k f :: u32
  assumes "k < 256" "f < 16777216"
  shows "(k OR push_bit 8 f) AND 0xFF = k" "drop_bit 8 (k OR push_bit 8 f) AND 0xFFFFFF = f"
proof -
  have k: "take_bit 8 k = k" and f: "take_bit 24 f = f" using assms by (simp_all add: fits_less)
  show "(k OR push_bit 8 f) AND 0xFF = k" using pack_low [OF k] by (simp add: mask_words)
  show "drop_bit 8 (k OR push_bit 8 f) AND 0xFFFFFF = f" using pack_high [OF k, of f] f by (simp add: mask_words)
qed

lemma line_virtual_packed:
  fixes l v :: u32
  assumes "l \<le> 0x3FFFFFFF" "v \<le> 3"
  shows "(l OR push_bit 30 v) AND 0x3FFFFFFF = l" "drop_bit 30 (l OR push_bit 30 v) AND 3 = v"
proof -
  have "l < 0x40000000" "v < 4" using assms by unat_arith+
  then have l: "take_bit 30 l = l" and v: "take_bit 2 v = v" by (simp_all add: fits_less)
  show "(l OR push_bit 30 v) AND 0x3FFFFFFF = l" using pack_low [OF l] by (simp add: mask_words)
  show "drop_bit 30 (l OR push_bit 30 v) AND 3 = v" using pack_high [OF l, of v] v by (simp add: mask_words)
qed

lemma hidden_packed:
  fixes a b :: u32
  assumes "a \<le> 0xFFFF" "b \<le> 0xFFFF"
  shows "(a OR push_bit 16 b) AND 0xFFFF = a" "drop_bit 16 (a OR push_bit 16 b) AND 0xFFFF = b"
proof -
  have "a < 0x10000" "b < 0x10000" using assms by unat_arith+
  then have a: "take_bit 16 a = a" and b: "take_bit 16 b = b" by (simp_all add: fits_less)
  show "(a OR push_bit 16 b) AND 0xFFFF = a" using pack_low [OF a] by (simp add: mask_words)
  show "drop_bit 16 (a OR push_bit 16 b) AND 0xFFFF = b" using pack_high [OF a, of b] b by (simp add: mask_words)
qed

lemma kind_flags_parent_packed:
  fixes k f d :: u32
  assumes "k < 256" "f < 256" "d \<le> 0xFFFF"
  shows "(k OR push_bit 8 f OR push_bit 16 d) AND 0xFF = k" "drop_bit 8 (k OR push_bit 8 f OR push_bit 16 d) AND 0xFF = f"
    "drop_bit 16 (k OR push_bit 8 f OR push_bit 16 d) AND 0xFFFF = d"
proof -
  have k: "take_bit 8 k = k" and f: "take_bit 8 f = f" using assms by (simp_all add: fits_less)
  have "d < 0x10000" using assms(3) by unat_arith
  then have d: "take_bit 16 d = d" by (simp add: fits_less)
  have widen: "take_bit m w = w" if "take_bit n w = w" "n \<le> m" for n m and w :: u32
    using that by (metis min.absorb2 take_bit_take_bit)
  have d24: "take_bit (32 - 8) d = d" using widen [OF d] by simp
  let ?fd = "f OR push_bit 8 d"
  have eq: "k OR push_bit 8 f OR push_bit 16 d = k OR push_bit 8 ?fd" by (simp add: push_bit_or or.assoc)
  have fd: "take_bit 24 ?fd = ?fd"
  proof -
    have "take_bit 24 f = f" using widen [OF f, of 24] by simp
    moreover have "take_bit 24 (push_bit 8 d) = push_bit 8 d" using d by (simp add: take_bit_push_bit)
    ultimately show ?thesis by simp
  qed
  have high: "drop_bit 8 (k OR push_bit 8 ?fd) = ?fd" using pack_high [OF k, of ?fd] fd by simp
  show "(k OR push_bit 8 f OR push_bit 16 d) AND 0xFF = k" unfolding eq mask_words by (rule pack_low [OF k])
  show "drop_bit 8 (k OR push_bit 8 f OR push_bit 16 d) AND 0xFF = f" unfolding eq high mask_words by (rule pack_low [OF f])
  have "drop_bit 16 (k OR push_bit 8 ?fd) = drop_bit 8 (drop_bit 8 (k OR push_bit 8 ?fd))" by (simp add: drop_bit_drop_bit)
  also have "\<dots> = d" unfolding high by (rule pack_high [OF f d24]) simp
  finally show "drop_bit 16 (k OR push_bit 8 f OR push_bit 16 d) AND 0xFFFF = d" unfolding eq using d by (simp add: mask_words)
qed

end
