(* ===== verification/Flark_Sections.thy ===== *)
theory Flark_Sections
  imports Flark_Offsets
begin

text \<open>
  The sections of a published model: \<open>wire_model\<close> lays the wire records of \<^verbatim>\<open>schema.rs\<close> out one section after
  another, as \<^verbatim>\<open>Extractor::encode\<close> pushes them, and every reader of \<^verbatim>\<open>expand\<close> (\<^verbatim>\<open>records.rs\<close>) finds the
  record that was written. The lemmas do not look into the records: what a record
  holds is the subject of \<open>Flark_Roundtrip\<close>.
\<close>

subsection \<open>Sections of equal records\<close>

lemma length_chunks: "(\<And>x. length (f x) = n) \<Longrightarrow> length (concat (map f xs)) = length xs * n"
  by (induction xs) auto

lemma chunks_nth:
  assumes "\<And>x. length (f x) = n" "i < length xs" "k < n"
  shows "concat (map f xs) ! (i * n + k) = f (xs ! i) ! k"
  using assms(2)
proof (induction xs arbitrary: i)
  case (Cons x xs)
  then show ?case
  proof (cases i)
    case (Suc j)
    then show ?thesis using Cons assms(1) by (simp add: nth_append ac_simps)
  qed (simp add: nth_append assms)
qed simp

lemma section_nth: "length pre = off \<Longrightarrow> k < length mid \<Longrightarrow> (pre @ mid @ post) ! (off + k) = mid ! k"
  by (simp add: nth_append)

lemma section_record_nth:
  assumes "w = pre @ concat (map f xs) @ post" "length pre = off" "\<And>x. length (f x) = n" "i < length xs" "k < n"
  shows "w ! (off + i * n + k) = f (xs ! i) ! k"
proof -
  have "i * n + k < length xs * n"
  proof -
    have "i * n + n \<le> length xs * n" using assms(4) by (metis Suc_leI add.commute mult_Suc mult_le_mono1)
    then show ?thesis using assms(5) by simp
  qed
  then have "w ! (off + (i * n + k)) = concat (map f xs) ! (i * n + k)"
    unfolding assms(1) using section_nth [OF assms(2)] length_chunks [of f n xs, OF assms(3)] by auto
  then show ?thesis using chunks_nth [of f n i xs k, OF assms(3-5)] by (simp add: add.assoc)
qed

subsection \<open>A model by its sections\<close>

record wire_parts =
  wp_lines :: "u32 list"
  wp_blocks :: "wire_block list"
  wp_content :: "wire_content list"
  wp_runs :: "wire_run list"
  wp_definitions :: "wire_definition list"
  wp_index :: "wire_run_extra list"
  wp_extras :: "u32 list"
  wp_strings :: bytes

definition parts_header :: "bytes \<Rightarrow> wire_parts \<Rightarrow> wire_header" where
  "parts_header src p =
     \<lparr>wh_magic = SCHEMA_MAGIC, wh_version = SCHEMA_VERSION, wh_src_bytes = to_u32 (length src),
      wh_src_utf16 = to_u32 (utf16_len src), wh_line_count = to_u32 (length (wp_lines p)),
      wh_block_count = to_u32 (length (wp_blocks p)), wh_content_count = to_u32 (length (wp_content p)),
      wh_run_count = to_u32 (length (wp_runs p)), wh_definition_count = to_u32 (length (wp_definitions p)),
      wh_run_extra_count = to_u32 (length (wp_index p)), wh_extra_words = to_u32 (length (wp_extras p)),
      wh_string_bytes = to_u32 (length (wp_strings p))\<rparr>"

definition wire_model :: "bytes \<Rightarrow> wire_parts \<Rightarrow> u32 list" where
  "wire_model src p =
     wire_header_words (parts_header src p) @ wp_lines p @ concat (map wire_block_words (wp_blocks p)) @
     concat (map wire_content_words (wp_content p)) @ concat (map wire_run_words (wp_runs p)) @
     concat (map wire_definition_words (wp_definitions p)) @ concat (map wire_run_extra_words (wp_index p)) @
     wp_extras p @ string_words (wp_strings p)"

lemmas record_words_defs =
  wire_header_words_def wire_block_words_def wire_content_words_def wire_run_words_def wire_definition_words_def wire_run_extra_words_def

lemma record_words_length [simp]:
  "length (wire_header_words h) = 12" "length (wire_block_words b) = 10" "length (wire_content_words c) = 4"
  "length (wire_run_words r) = 4" "length (wire_definition_words d) = 6" "length (wire_run_extra_words x) = 2"
  by (simp_all add: record_words_defs)

lemma length_string_words: "length (string_words s) = (length s + 3) div 4"
proof (induction s rule: string_words.induct)
  case (1 s)
  show ?case
  proof (cases "length s < 4")
    case True
    then have "drop 4 s = []" by simp
    moreover have "s \<noteq> [] \<Longrightarrow> (length s + 3) div 4 = 1" using True by (cases "length s") auto
    ultimately show ?thesis by (cases "s = []") (auto simp: string_words.simps [of s] string_words.simps [of "[]"])
  next
    case False
    then obtain m where "length s = m + 4" by (metis add.commute le_Suc_ex not_less)
    then show ?thesis using 1 by (cases "s = []") (auto simp: string_words.simps [of s])
  qed
qed

lemma length_wire_model:
  "length (wire_model src p) = 12 + length (wp_lines p) + length (wp_blocks p) * 10 + length (wp_content p) * 4 +
     length (wp_runs p) * 4 + length (wp_definitions p) * 6 + length (wp_index p) * 2 + length (wp_extras p) +
     (length (wp_strings p) + 3) div 4"
  by (simp add: wire_model_def length_chunks length_string_words)

text \<open>The sizes a model must keep to, as the C interface checks them: its bytes are counted by 32 bits.\<close>

definition parts_fit :: "bytes \<Rightarrow> wire_parts \<Rightarrow> bool" where
  "parts_fit src p \<longleftrightarrow> 4 * length (wire_model src p) < 4294967296"

lemma parts_fit_lengths:
  assumes "parts_fit src p"
  shows "length (wp_lines p) < 4294967296" "length (wp_blocks p) < 4294967296" "length (wp_content p) < 4294967296"
    "length (wp_runs p) < 4294967296" "length (wp_definitions p) < 4294967296" "length (wp_index p) < 4294967296"
    "length (wp_extras p) < 4294967295" "length (wp_strings p) < 4294967296"
proof -
  note length_wire_model [of src p]
  moreover have "length (wp_strings p) \<le> 4 * ((length (wp_strings p) + 3) div 4)" by linarith
  moreover have "4 * length (wire_model src p) < 4294967296" using assms by (simp add: parts_fit_def)
  ultimately show "length (wp_lines p) < 4294967296" "length (wp_blocks p) < 4294967296" "length (wp_content p) < 4294967296"
    "length (wp_runs p) < 4294967296" "length (wp_definitions p) < 4294967296" "length (wp_index p) < 4294967296"
    "length (wp_extras p) < 4294967295" "length (wp_strings p) < 4294967296"
    by linarith+
qed

definition parts_layout :: "wire_parts \<Rightarrow> layout" where
  "parts_layout p =
     \<lparr>ly_nl = length (wp_lines p), ly_nb = length (wp_blocks p), ly_nc = length (wp_content p), ly_nr = length (wp_runs p),
      ly_nd = length (wp_definitions p), ly_nx = length (wp_index p), ly_ne = length (wp_extras p), ly_ns = length (wp_strings p)\<rparr>"

lemma header_nth: "k < 12 \<Longrightarrow> wire_model src p ! k = wire_header_words (parts_header src p) ! k"
  by (simp add: wire_model_def nth_append)

lemma layout_of_model: "parts_fit src p \<Longrightarrow> layout_of (wire_model src p) = parts_layout p"
  using less_trans [OF parts_fit_lengths(7) [of src p], of 4294967296]
  by (simp add: layout_of_def header_nth wire_header_words_def parts_header_def parts_layout_def parts_fit_lengths)

lemmas offset_defs = lines_off_def blocks_off_def content_off_def runs_off_def defs_off_def index_off_def extras_off_def strings_off_def

lemma header_problem_model:
  assumes "utf8_valid src" "length src < 4294967296" "parts_fit src p"
  shows "header_problem src (wire_model src p) = None"
proof -
  have u: "utf16_len src < 4294967296" using utf16_len_le [OF assms(1)] assms(2) by simp
  have "length (wire_model src p) = strings_off (parts_layout p) + (length (wp_strings p) + 3) div 4"
    by (simp add: wire_model_def length_chunks length_string_words offset_defs parts_layout_def)
  moreover have "12 \<le> length (wire_model src p)" by (simp add: wire_model_def)
  ultimately show ?thesis
    using u assms(2) by (simp add: header_problem_def layout_of_model [OF assms(3)] header_nth wire_header_words_def parts_header_def)
      (simp add: parts_layout_def)
qed

subsection \<open>Readers\<close>

lemma line_at_model: "l < length (wp_lines p) \<Longrightarrow> wire_model src p ! (lines_off ly + l) = wp_lines p ! l"
  unfolding wire_model_def lines_off_def by (rule section_nth) simp_all

lemma wire_block_at_model:
  assumes "b < length (wp_blocks p)"
  shows "wire_block_at (parts_layout p) (wire_model src p) b = wp_blocks p ! b"
proof -
  let ?pre = "wire_header_words (parts_header src p) @ wp_lines p"
  have "wire_model src p ! (blocks_off (parts_layout p) + b * 10 + k) = wire_block_words (wp_blocks p ! b) ! k" if "k < 10" for k
    by (rule section_record_nth [where pre = ?pre])
       (simp_all add: wire_model_def offset_defs parts_layout_def assms that)
  from this [of 0] this [of 1] this [of 2] this [of 3] this [of 4] this [of 5] this [of 6] this [of 7] this [of 8] this [of 9]
  show ?thesis by (simp add: wire_block_at_def wire_block_words_def)
qed

lemma wire_content_at_model:
  assumes "b < length (wp_content p)"
  shows "wire_content_at (parts_layout p) (wire_model src p) b = wp_content p ! b"
proof -
  let ?pre = "wire_header_words (parts_header src p) @ wp_lines p @ concat (map wire_block_words (wp_blocks p))"
  have "wire_model src p ! (content_off (parts_layout p) + b * 4 + k) = wire_content_words (wp_content p ! b) ! k" if "k < 4" for k
    by (rule section_record_nth [where pre = ?pre])
       (simp_all add: wire_model_def offset_defs parts_layout_def length_chunks assms that)
  from this [of 0] this [of 1] this [of 2] this [of 3]
  show ?thesis by (simp add: wire_content_at_def wire_content_words_def)
qed

lemma wire_run_at_model:
  assumes "b < length (wp_runs p)"
  shows "wire_run_at (parts_layout p) (wire_model src p) b = wp_runs p ! b"
proof -
  let ?pre = "wire_header_words (parts_header src p) @ wp_lines p @ concat (map wire_block_words (wp_blocks p)) @
     concat (map wire_content_words (wp_content p))"
  have "wire_model src p ! (runs_off (parts_layout p) + b * 4 + k) = wire_run_words (wp_runs p ! b) ! k" if "k < 4" for k
    by (rule section_record_nth [where pre = ?pre])
       (simp_all add: wire_model_def offset_defs parts_layout_def length_chunks assms that)
  from this [of 0] this [of 1] this [of 2] this [of 3]
  show ?thesis by (simp add: wire_run_at_def wire_run_words_def)
qed

lemma wire_definition_at_model:
  assumes "b < length (wp_definitions p)"
  shows "wire_definition_at (parts_layout p) (wire_model src p) b = wp_definitions p ! b"
proof -
  let ?pre = "wire_header_words (parts_header src p) @ wp_lines p @ concat (map wire_block_words (wp_blocks p)) @
     concat (map wire_content_words (wp_content p)) @ concat (map wire_run_words (wp_runs p))"
  have "wire_model src p ! (defs_off (parts_layout p) + b * 6 + k) = wire_definition_words (wp_definitions p ! b) ! k" if "k < 6" for k
    by (rule section_record_nth [where pre = ?pre])
       (simp_all add: wire_model_def offset_defs parts_layout_def length_chunks assms that)
  from this [of 0] this [of 1] this [of 2] this [of 3] this [of 4] this [of 5]
  show ?thesis by (simp add: wire_definition_at_def wire_definition_words_def)
qed

lemma wire_run_extra_at_model:
  assumes "b < length (wp_index p)"
  shows "wire_run_extra_at (parts_layout p) (wire_model src p) b = wp_index p ! b"
proof -
  let ?pre = "wire_header_words (parts_header src p) @ wp_lines p @ concat (map wire_block_words (wp_blocks p)) @
     concat (map wire_content_words (wp_content p)) @ concat (map wire_run_words (wp_runs p)) @
     concat (map wire_definition_words (wp_definitions p))"
  have "wire_model src p ! (index_off (parts_layout p) + b * 2 + k) = wire_run_extra_words (wp_index p ! b) ! k" if "k < 2" for k
    by (rule section_record_nth [where pre = ?pre])
       (simp_all add: wire_model_def offset_defs parts_layout_def length_chunks assms that)
  from this [of 0] this [of 1]
  show ?thesis by (simp add: wire_run_extra_at_def wire_run_extra_words_def)
qed

lemma model_tail:
  "drop (extras_off (parts_layout p)) (wire_model src p) = wp_extras p @ string_words (wp_strings p)"
proof -
  let ?pre = "wire_header_words (parts_header src p) @ wp_lines p @ concat (map wire_block_words (wp_blocks p)) @
     concat (map wire_content_words (wp_content p)) @ concat (map wire_run_words (wp_runs p)) @
     concat (map wire_definition_words (wp_definitions p)) @ concat (map wire_run_extra_words (wp_index p))"
  have "wire_model src p = ?pre @ wp_extras p @ string_words (wp_strings p)" "length ?pre = extras_off (parts_layout p)"
    by (simp_all add: wire_model_def offset_defs parts_layout_def length_chunks)
  then show ?thesis by (metis append_eq_conv_conj)
qed

lemma strings_model: "drop (strings_off (parts_layout p)) (wire_model src p) = string_words (wp_strings p)"
proof -
  have "drop (strings_off (parts_layout p)) (wire_model src p) = drop (length (wp_extras p)) (drop (extras_off (parts_layout p)) (wire_model src p))"
    by (simp add: strings_off_def parts_layout_def add.commute)
  then show ?thesis by (simp add: model_tail)
qed

text \<open>Words of the extras section, found at their offset.\<close>

lemma extra_at_model:
  assumes "parts_fit src p" "wp_extras p = pre @ x @ post"
  shows "extra_at (parts_layout p) (wire_model src p) (to_u32 (length pre)) (length x) what = Inr x"
proof -
  have o: "to_usize (to_u32 (length pre)) = length pre" using parts_fit_lengths(7) [OF assms(1)] assms(2) by simp
  have ne: "ly_ne (parts_layout p) = length pre + length x + length post" by (simp add: parts_layout_def assms(2))
  have "drop (extras_off (parts_layout p) + length pre) (wire_model src p) = x @ post @ string_words (wp_strings p)"
    using arg_cong [OF model_tail [of p src], of "drop (length pre)"] by (simp add: assms(2) add.commute)
  then show ?thesis by (simp add: extra_at_def seg_def o ne)
qed

text \<open>Every section, read from end to end.\<close>

lemma map_nth_upt: "(\<And>k. k < length xs \<Longrightarrow> f k = xs ! k) \<Longrightarrow> map f [0..<length xs] = xs"
  by (rule nth_equalityI) simp_all

lemma sections_read:
  "map (\<lambda>l. wire_model src p ! (lines_off ly + l)) [0..<length (wp_lines p)] = wp_lines p"
  "map (wire_block_at (parts_layout p) (wire_model src p)) [0..<length (wp_blocks p)] = wp_blocks p"
  "map (wire_content_at (parts_layout p) (wire_model src p)) [0..<length (wp_content p)] = wp_content p"
  "map (wire_run_at (parts_layout p) (wire_model src p)) [0..<length (wp_runs p)] = wp_runs p"
  "map (wire_definition_at (parts_layout p) (wire_model src p)) [0..<length (wp_definitions p)] = wp_definitions p"
  "map (wire_run_extra_at (parts_layout p) (wire_model src p)) [0..<length (wp_index p)] = wp_index p"
  by (rule map_nth_upt, erule line_at_model wire_block_at_model wire_content_at_model wire_run_at_model wire_definition_at_model
      wire_run_extra_at_model)+

lemma map_res_map: "map_res f (map g xs) = map_res (\<lambda>x. f (g x)) xs"
  by (induction xs) auto

lemma map_res_sections:
  "map_res (\<lambda>l. f1 (wire_model src p ! (lines_off ly + l))) [0..<length (wp_lines p)] = map_res f1 (wp_lines p)"
  "map_res (\<lambda>c. f2 (wire_content_at (parts_layout p) (wire_model src p) c)) [0..<length (wp_content p)] = map_res f2 (wp_content p)"
  "map_res (\<lambda>d. f3 (wire_definition_at (parts_layout p) (wire_model src p) d)) [0..<length (wp_definitions p)] = map_res f3 (wp_definitions p)"
  by (simp_all only: map_res_map [symmetric] sections_read map_res_map [of f1 "\<lambda>l. wire_model src p ! (lines_off ly + l)", symmetric])

text \<open>Expansion of a model, section by section.\<close>

lemma expand_model:
  assumes "utf8_valid src" "length src < 4294967296" "parts_fit src p"
    and "offsets_ok (parts_layout p) (wp_blocks p) = None"
    and "map_res (expand_line (byte_table src)) (wp_lines p) = Inr lines"
    and "map_res (\<lambda>(b, n). expand_block (byte_table src) (parts_layout p) (wire_model src p) b n)
           (zip (wp_blocks p) (map wb_content_offset (tl (wp_blocks p)) @ [to_u32 (length (wp_content p))])) = Inr blocks"
    and "map_res (expand_content (byte_table src)) (wp_content p) = Inr content"
    and "run_index (length (wp_runs p)) (wp_index p) = Inr index"
    and "expand_runs (byte_table src) (parts_layout p) (wire_model src p) (map wb_first_run (wp_blocks p)) 0 0 (zip (wp_runs p) index) = Inr runs"
    and "map_res (expand_definition (byte_table src)) (wp_definitions p) = Inr defs"
  shows "expand src (wire_model src p) =
         Inr (records_header_words (expand_header (parts_layout p) src) @ concat (map line_rec_words lines) @
              concat (map block_rec_words blocks) @ concat (map content_rec_words content) @
              concat (map run_rec_words runs) @ concat (map definition_words_rec_words defs) @ string_words (wp_strings p))"
proof -
  have ly: "ly_nl (parts_layout p) = length (wp_lines p)" "ly_nb (parts_layout p) = length (wp_blocks p)"
    "ly_nc (parts_layout p) = length (wp_content p)" "ly_nr (parts_layout p) = length (wp_runs p)"
    "ly_nd (parts_layout p) = length (wp_definitions p)" "ly_nx (parts_layout p) = length (wp_index p)"
    by (simp_all add: parts_layout_def)
  show ?thesis
    unfolding expand_def header_problem_model [OF assms(1-3)] expand_sections_def Let_def layout_of_model [OF assms(3)] ly
      sections_read map_res_sections strings_model
    by (simp add: assms)
qed

end
