(* ===== verification/Flark_Roundtrip.thy ===== *)
theory Flark_Roundtrip
  imports Flark_Sections
begin

text \<open>
  \<^verbatim>\<open>expand\<close> reads back what \<^verbatim>\<open>Extractor::encode\<close> wrote. \<open>publishable\<close> says when a state of the extractor can be
  published without loss: its records lie on scalar boundaries with the UTF-16 offsets of the line
  table, packed values fit their bits, strings are in the table, and the runs are
  in block order. Then expansion succeeds and returns every record of the extraction, with the
  fields its kind does not carry set to zero (\<open>block_view\<close>, \<open>run_view\<close>) and the content
  records in block order.
\<close>

unbundle bit_operations_syntax

subsection \<open>Blocks\<close>

definition block_extra_words :: "line_index \<Rightarrow> block_rec \<Rightarrow> u32 list" where
  "block_extra_words li b = (case block_extra li b of None \<Rightarrow> [] | Some e \<Rightarrow> extra_words e)"

definition wire_block_of :: "line_index \<Rightarrow> nat \<Rightarrow> nat \<Rightarrow> block_rec \<Rightarrow> u32 \<Rightarrow> wire_block" where
  "wire_block_of li x c b first_run =
     \<lparr>wb_kind_flags = bl_kind b OR push_bit KIND_FLAGS_FLAGS_SHIFT (wire_flags b), wb_parent = bl_parent b,
      wb_start = bl_start_utf16 b, wb_end16 = bl_end_utf16 b, wb_first_line = bl_first_line b,
      wb_line_count = bl_line_count b, wb_content_offset = to_u32 c, wb_first_run = first_run, wb_attr = wire_attr b,
      wb_extra = (if block_extra li b = None then EXTRA_NONE else to_u32 x)\<rparr>"

text \<open>The block records from a place in the extras and content sections on.\<close>

fun wire_blocks :: "line_index \<Rightarrow> content_rec list \<Rightarrow> nat \<Rightarrow> nat \<Rightarrow> (block_rec \<times> u32) list \<Rightarrow> wire_block list" where
  "wire_blocks li content x c [] = []"
| "wire_blocks li content x c ((b, first_run) # bs) =
     wire_block_of li x c b first_run #
     wire_blocks li content (x + length (block_extra_words li b)) (c + length (block_content content b)) bs"

lemma encode_blocks_fold:
  "fold (encode_block li content) bs sc =
     \<lparr>sc_extras = sc_extras sc @ concat (map (block_extra_words li \<circ> fst) bs),
      sc_blocks = sc_blocks sc @ wire_blocks li content (length (sc_extras sc)) (length (sc_content sc)) bs,
      sc_content = sc_content sc @ map encode_content (concat (map (block_content content \<circ> fst) bs)),
      sc_overflow = (sc_overflow sc \<or> list_ex content_overflows (concat (map (block_content content \<circ> fst) bs)))\<rparr>"
proof (induction bs arbitrary: sc)
  case (Cons p bs)
  obtain b fr where p: "p = (b, fr)" by fastforce
  have step: "encode_block li content p sc =
      \<lparr>sc_extras = sc_extras sc @ block_extra_words li b,
       sc_blocks = sc_blocks sc @ [wire_block_of li (length (sc_extras sc)) (length (sc_content sc)) b fr],
       sc_content = sc_content sc @ map encode_content (block_content content b),
       sc_overflow = (sc_overflow sc \<or> list_ex content_overflows (block_content content b))\<rparr>"
    by (rule sections.equality) (simp_all add: p encode_block_def Let_def block_extra_words_def wire_block_of_def)
  show ?case by (simp add: Cons step) (simp add: p)
qed simp

text \<open>What a published block says again: the fields its kind carries.\<close>

definition block_view :: "nat \<Rightarrow> block_rec \<Rightarrow> block_rec" where
  "block_view c b =
     (let plain = b\<lparr>bl_content_offset := to_u32 c, bl_attr1 := 0, bl_attr2 := 0, bl_marker_end_byte := 0, bl_marker_end_utf16 := 0\<rparr>
      in if bl_kind b = BK_CODE_BLOCK \<and> bl_flags b AND 1 \<noteq> 0 \<or> bl_kind b = BK_FOOTNOTE_DEFINITION
         then plain\<lparr>bl_attr1 := bl_attr1 b, bl_attr2 := bl_attr2 b\<rparr>
         else if bl_kind b = BK_ITEM
         then b\<lparr>bl_content_offset := to_u32 c\<rparr>
         else if bl_kind b = BK_LIST \<or> bl_kind b = BK_TABLE then plain\<lparr>bl_attr1 := bl_attr1 b\<rparr>
         else plain)"

text \<open>A byte offset of a record on a scalar boundary, and a pair of offsets that agree.\<close>

definition same_place :: "bytes \<Rightarrow> u32 \<Rightarrow> u32 \<Rightarrow> bool" where
  "same_place src b u \<longleftrightarrow> on_scalar src b \<and> u = u16 (line_index_new src) (to_usize b)"

definition block_fits :: "bytes \<Rightarrow> content_rec list \<Rightarrow> block_rec \<Rightarrow> bool" where
  "block_fits src content b \<longleftrightarrow>
     bl_kind b < 256 \<and> bl_flags b < 16777216 \<and>
     same_place src (bl_start_byte b) (bl_start_utf16 b) \<and> same_place src (bl_end_byte b) (bl_end_utf16 b) \<and>
     to_usize (bl_content_offset b) + to_usize (bl_content_count b) \<le> length content \<and>
     (bl_kind b = BK_LIST \<longrightarrow> bl_flags b \<le> 1 \<and> bl_attr0 b \<le> 1) \<and>
     (bl_kind b = BK_ITEM \<longrightarrow> same_place src (bl_marker_end_byte b) (bl_marker_end_utf16 b)) \<and>
     (bl_kind b = BK_ITEM \<or> bl_kind b = BK_FOOTNOTE_DEFINITION \<or> bl_kind b = BK_CODE_BLOCK \<and> bl_flags b AND 1 \<noteq> 0 \<longrightarrow>
        on_scalar src (bl_attr1 b) \<and> on_scalar src (bl_attr2 b))"

lemma le_one_cases: "(w :: u32) \<le> 1 \<Longrightarrow> w = 0 \<or> w = 1"
  by unat_arith

lemma list_flags:
  fixes f a :: u32
  assumes "f \<le> 1" "a \<le> 1"
  shows "f OR push_bit 1 (a AND 1) < 16777216" "(f OR push_bit 1 (a AND 1)) AND 1 = f" "drop_bit 1 (f OR push_bit 1 (a AND 1)) AND 1 = a"
  using le_one_cases [OF assms(1)] le_one_cases [OF assms(2)] by auto

lemma wire_flags_fits:
  assumes "block_fits src content b"
  shows "wire_flags b < 16777216"
proof (cases "bl_kind b = BK_LIST")
  case True
  then have "bl_flags b \<le> 1" "bl_attr0 b \<le> 1" using assms by (simp_all add: block_fits_def)
  then show ?thesis unfolding wire_flags_def if_P [OF True] by (rule list_flags(1))
qed (use assms in \<open>simp add: wire_flags_def block_fits_def\<close>)

lemma extra_at_offset:
  assumes "parts_fit src p" "wp_extras p = pre @ x @ post" "n = length x"
  shows "extra_at (parts_layout p) (wire_model src p) (to_u32 (length pre)) n what = Inr x"
  using extra_at_model [OF assms(1,2)] assms(3) by simp

lemma extra_offset_some:
  assumes "parts_fit src p" "wp_extras p = pre @ post"
  shows "to_u32 (length pre) \<noteq> EXTRA_NONE"
proof
  assume "to_u32 (length pre) = EXTRA_NONE"
  moreover have "length pre < 4294967295" using parts_fit_lengths(7) [OF assms(1)] assms(2) by simp
  ultimately show False using unat_to_u32 [of "length pre"] by simp
qed

lemma expand_attrs_encoded:
  assumes src: "utf8_valid src" "length src < 4294967296" and fit: "parts_fit src p" and b: "block_fits src content b"
    and x: "wp_extras p = pre @ block_extra_words (line_index_new src) b @ post"
  shows "expand_attrs (byte_table src) (parts_layout p) (wire_model src p) (bl_kind b) (wire_flags b) (wire_attr b)
           (if block_extra (line_index_new src) b = None then EXTRA_NONE else to_u32 (length pre)) =
         Inr \<lparr>ba_attr0 = bl_attr0 (block_view c b), ba_attr1 = bl_attr1 (block_view c b), ba_attr2 = bl_attr2 (block_view c b),
              ba_flags = bl_flags b, ba_marker_byte = bl_marker_end_byte (block_view c b), ba_marker_utf16 = bl_marker_end_utf16 (block_view c b)\<rparr>"
proof -
  let ?li = "line_index_new src"
  note byte = byte_for_u16 [OF src]
  note at = extra_at_offset [OF fit x]
  consider (code) "bl_kind b = BK_CODE_BLOCK" "bl_flags b AND 1 \<noteq> 0" | (list) "bl_kind b = BK_LIST" | (item) "bl_kind b = BK_ITEM"
    | (table) "bl_kind b = BK_TABLE" | (footnote) "bl_kind b = BK_FOOTNOTE_DEFINITION"
    | (other) "bl_kind b = BK_CODE_BLOCK \<longrightarrow> bl_flags b AND 1 = 0" "bl_kind b \<noteq> BK_LIST" "bl_kind b \<noteq> BK_ITEM" "bl_kind b \<noteq> BK_TABLE"
      "bl_kind b \<noteq> BK_FOOTNOTE_DEFINITION"
    by blast
  then show ?thesis
  proof cases
    case code
    then have "block_extra ?li b = Some (CodeBlockExtra (u16 ?li (to_usize (bl_attr1 b))) (u16 ?li (to_usize (bl_attr2 b))))"
      by (simp add: block_extra_def)
    then show ?thesis using code b
      by (simp add: at expand_attrs_def range_attrs_def block_extra_words_def block_view_def wire_flags_def wire_attr_def block_fits_def byte)
  next
    case list
    then have "bl_flags b \<le> 1" "bl_attr0 b \<le> 1" using b by (simp_all add: block_fits_def)
    from list_flags(2,3) [OF this] show ?thesis unfolding expand_attrs_def wire_flags_def wire_attr_def
      using list by (simp add: block_view_def del: push_bit_eq_mult)
  next
    case item
    then have "block_extra ?li b = Some (ItemExtra (bl_marker_end_utf16 b) (u16 ?li (to_usize (bl_attr1 b))) (u16 ?li (to_usize (bl_attr2 b))))"
      by (simp add: block_extra_def)
    then show ?thesis using item b
      by (simp add: at expand_attrs_def block_extra_words_def block_view_def wire_flags_def wire_attr_def block_fits_def same_place_def byte)
  next
    case table
    then have "block_extra ?li b = Some (TableExtra (bl_attr1 b))" by (simp add: block_extra_def)
    then show ?thesis using table b
      by (simp add: at expand_attrs_def block_extra_words_def block_view_def wire_flags_def wire_attr_def)
  next
    case footnote
    then have "block_extra ?li b = Some (FootnoteDefinitionExtra (u16 ?li (to_usize (bl_attr1 b))) (u16 ?li (to_usize (bl_attr2 b))))"
      by (simp add: block_extra_def)
    then show ?thesis using footnote b
      by (simp add: at expand_attrs_def range_attrs_def block_extra_words_def block_view_def wire_flags_def wire_attr_def block_fits_def byte)
  next
    case other
    then show ?thesis by (auto simp: expand_attrs_def block_view_def wire_flags_def wire_attr_def Let_def)
  qed
qed

lemma expand_block_encoded:
  assumes src: "utf8_valid src" "length src < 4294967296" and fit: "parts_fit src p" and b: "block_fits src content b"
    and x: "wp_extras p = pre @ block_extra_words (line_index_new src) b @ post"
  shows "expand_block (byte_table src) (parts_layout p) (wire_model src p)
           (wire_block_of (line_index_new src) (length pre) c b first_run) (to_u32 (c + length (block_content content b))) =
         Inr (block_view c b)"
proof -
  have f: "wire_flags b < 16777216" "bl_kind b < 256" using wire_flags_fits [OF b] b by (simp_all add: block_fits_def)
  have count: "to_u32 (length (block_content content b)) = bl_content_count b"
  proof -
    have "to_usize (bl_content_count b) \<le> length content - to_usize (bl_content_offset b)" using b by (auto simp: block_fits_def)
    then show ?thesis by (simp add: block_content_def min_absorb1)
  qed
  have own: "owns_block_extra (bl_kind b) (wire_flags b) \<longleftrightarrow> block_extra (line_index_new src) b \<noteq> None"
    by (simp add: owns_block_extra_def block_extra_def wire_flags_def Let_def)
  have some: "to_u32 (length pre) \<noteq> EXTRA_NONE" by (rule extra_offset_some [OF fit x])
  have view: "bl_kind (block_view c b) = bl_kind b" "bl_parent (block_view c b) = bl_parent b"
    "bl_start_byte (block_view c b) = bl_start_byte b" "bl_end_byte (block_view c b) = bl_end_byte b"
    "bl_start_utf16 (block_view c b) = bl_start_utf16 b" "bl_end_utf16 (block_view c b) = bl_end_utf16 b"
    "bl_first_line (block_view c b) = bl_first_line b" "bl_line_count (block_view c b) = bl_line_count b"
    "bl_content_offset (block_view c b) = to_u32 c" "bl_content_count (block_view c b) = bl_content_count b"
    "bl_flags (block_view c b) = bl_flags b"
    by (simp_all add: block_view_def Let_def)
  have place: "byte_for (byte_table src) (bl_start_utf16 b) s = Inr (bl_start_byte b)" "byte_for (byte_table src) (bl_end_utf16 b) s = Inr (bl_end_byte b)" for s
    using b byte_for_u16 [OF src] by (simp_all add: block_fits_def same_place_def)
  have "expand_block (byte_table src) (parts_layout p) (wire_model src p)
           (wire_block_of (line_index_new src) (length pre) c b first_run) (to_u32 (c + length (block_content content b))) =
      Inr \<lparr>bl_kind = bl_kind b, bl_parent = bl_parent b, bl_start_byte = bl_start_byte b, bl_end_byte = bl_end_byte b,
           bl_start_utf16 = bl_start_utf16 b, bl_end_utf16 = bl_end_utf16 b, bl_first_line = bl_first_line b,
           bl_line_count = bl_line_count b, bl_content_offset = to_u32 c, bl_content_count = bl_content_count b,
           bl_attr0 = bl_attr0 (block_view c b), bl_attr1 = bl_attr1 (block_view c b), bl_attr2 = bl_attr2 (block_view c b),
           bl_flags = bl_flags b, bl_marker_end_byte = bl_marker_end_byte (block_view c b),
           bl_marker_end_utf16 = bl_marker_end_utf16 (block_view c b)\<rparr>"
    unfolding expand_block_def wire_block_of_def Let_def wire_block.select_convs kind_flags_packed [OF f(2,1)]
      expand_attrs_encoded [OF src fit b x, of c]
    using own some by (simp add: place count)
  also have "\<dots> = Inr (block_view c b)" by (rule arg_cong [where f = Inr]) (rule block_rec.equality, simp_all add: view)
  finally show ?thesis .
qed

text \<open>The blocks read back, their content offsets counted in block order.\<close>

fun block_views :: "content_rec list \<Rightarrow> nat \<Rightarrow> block_rec list \<Rightarrow> block_rec list" where
  "block_views content c [] = []"
| "block_views content c (b # bs) = block_view c b # block_views content (c + length (block_content content b)) bs"

lemma expand_blocks_encoded:
  assumes src: "utf8_valid src" "length src < 4294967296" and fit: "parts_fit src p"
    and "\<forall>b \<in> set bs. block_fits src content (fst b)"
    and "wp_extras p = pre @ concat (map (block_extra_words (line_index_new src) \<circ> fst) bs) @ post"
    and "nc = c + length (concat (map (block_content content \<circ> fst) bs))"
    and "ws = wire_blocks (line_index_new src) content (length pre) c bs"
  shows "map_res (\<lambda>(b, n). expand_block (byte_table src) (parts_layout p) (wire_model src p) b n)
           (zip ws (map wb_content_offset (tl ws) @ [to_u32 nc])) = Inr (block_views content c (map fst bs))"
  using assms(4-)
proof (induction bs arbitrary: pre c ws)
  case (Cons q bs)
  obtain b fr where q: "q = (b, fr)" by fastforce
  let ?li = "line_index_new src" and ?ex = "\<lambda>b n. expand_block (byte_table src) (parts_layout p) (wire_model src p) b n"
  let ?c = "c + length (block_content content b)"
  let ?ws = "wire_blocks ?li content (length (pre @ block_extra_words ?li b)) ?c bs"
  have ws: "ws = wire_block_of ?li (length pre) c b fr # ?ws" using Cons.prems(4) q by simp
  have rest: "map_res (\<lambda>(b, n). ?ex b n) (zip ?ws (map wb_content_offset (tl ?ws) @ [to_u32 nc])) = Inr (block_views content ?c (map fst bs))"
    using Cons.prems by (intro Cons.IH [of "pre @ block_extra_words ?li b" ?c ?ws]) (simp_all add: q)
  have head: "?ex (wire_block_of ?li (length pre) c b fr) (to_u32 ?c) = Inr (block_view c b)"
    using Cons.prems q by (intro expand_block_encoded [OF src fit]) auto
  have "map wb_content_offset ?ws @ [to_u32 nc] = to_u32 ?c # (if bs = [] then [] else map wb_content_offset (tl ?ws) @ [to_u32 nc])"
    using Cons.prems(3) q by (cases bs) (auto simp: wire_block_of_def)
  then have "zip ws (map wb_content_offset (tl ws) @ [to_u32 nc]) =
      (wire_block_of ?li (length pre) c b fr, to_u32 ?c) # zip ?ws (map wb_content_offset (tl ?ws) @ [to_u32 nc])"
    unfolding ws by (cases bs) (auto simp del: of_nat_add)
  then show ?case using head rest by (simp add: q)
qed simp

subsection \<open>Content and lines\<close>

definition content_fits :: "bytes \<Rightarrow> content_rec \<Rightarrow> bool" where
  "content_fits src c \<longleftrightarrow>
     \<not> content_overflows c \<and> same_place src (co_start_byte c) (co_start_utf16 c) \<and> same_place src (co_end_byte c) (co_end_utf16 c) \<and>
     same_place src (co_prefix_start_byte c) (co_prefix_start_utf16 c)"

lemma byte_for_place:
  "utf8_valid src \<Longrightarrow> length src < 4294967296 \<Longrightarrow> same_place src b u \<Longrightarrow> byte_for (byte_table src) u what = Inr b"
  by (simp add: same_place_def byte_for_u16)

lemma encode_content_packed:
  assumes "\<not> content_overflows c"
  shows "wc_line_virtual (encode_content c) AND LINE_MASK = co_line c \<and>
     drop_bit VIRTUAL_SHIFT (wc_line_virtual (encode_content c)) AND VIRTUAL_MASK = co_virtual_leading_spaces c"
proof -
  have v: "co_line c \<le> 0x3FFFFFFF" "co_virtual_leading_spaces c \<le> 3" using assms by (simp_all add: content_overflows_def not_less)
  show ?thesis unfolding encode_content_def wire_content.select_convs using line_virtual_packed [OF v] by simp
qed

lemma expand_content_encoded:
  assumes src: "utf8_valid src" "length src < 4294967296" and c: "content_fits src c"
  shows "expand_content (byte_table src) (encode_content c) = Inr c"
proof -
  have v: "co_line c \<le> 0x3FFFFFFF" "co_virtual_leading_spaces c \<le> 3" using c by (simp_all add: content_fits_def content_overflows_def not_less)
  have place: "byte_for (byte_table src) (co_start_utf16 c) s = Inr (co_start_byte c)"
    "byte_for (byte_table src) (co_end_utf16 c) s = Inr (co_end_byte c)"
    "byte_for (byte_table src) (co_prefix_start_utf16 c) s = Inr (co_prefix_start_byte c)" for s
    using c byte_for_place [OF src] by (simp_all add: content_fits_def)
  show ?thesis
    unfolding expand_content_def encode_content_def wire_content.select_convs line_virtual_packed [OF v]
    by (simp add: place)
qed

definition line_view :: "line_index \<Rightarrow> nat \<Rightarrow> line_rec" where
  "line_view li l = \<lparr>li_start_byte = to_u32 (line_start li l), li_start_utf16 = u16 li (line_start li l)\<rparr>"

lemma expand_line_encoded:
  assumes src: "utf8_valid src" "length src < 4294967296" and l: "l < line_count (line_index_new src)"
  shows "expand_line (byte_table src) (u16 (line_index_new src) (line_start (line_index_new src) l)) = Inr (line_view (line_index_new src) l)"
proof -
  let ?b = "line_start (line_index_new src) l"
  have "?b < 4294967296" using line_bounds [OF src(1) l] src(2) by linarith
  moreover have "is_char_boundary src ?b" using line_boundaries [OF src(1) l] by simp
  ultimately have "same_place src (to_u32 ?b) (u16 (line_index_new src) ?b)" by (simp add: same_place_def on_scalar_def)
  then show ?thesis by (simp add: expand_line_def line_view_def byte_for_place [OF src])
qed

subsection \<open>Offsets in order\<close>

lemma offsets_ok_sorted:
  assumes fr: "map wb_first_run bs = map to_u32 xs" "sorted xs" "\<forall>x \<in> set xs. x \<le> ly_nr ly" "xs \<noteq> [] \<longrightarrow> hd xs = 0" "ly_nr ly < 4294967296"
    and co: "map wb_content_offset bs = map to_u32 ys" "sorted ys" "\<forall>y \<in> set ys. y \<le> ly_nc ly" "ys \<noteq> [] \<longrightarrow> hd ys = 0" "ly_nc ly < 4294967296"
  shows "offsets_ok ly bs = None"
proof -
  have len: "length xs = length bs" "length ys = length bs" using fr(1) co(1) by (metis length_map)+
  have bad: "\<not> (n < to_usize (map to_u32 zs ! b) \<or> (0 < b \<and> map to_u32 zs ! b < map to_u32 zs ! (b - 1)))"
    if "sorted zs" "\<forall>z \<in> set zs. z \<le> n" "n < 4294967296" "b < length zs" for n b and zs :: "nat list"
  proof -
    have small: "to_usize (to_u32 (zs ! k)) = zs ! k" "zs ! k \<le> n" if "k < length zs" for k
      using \<open>\<forall>z \<in> set zs. z \<le> n\<close> \<open>n < 4294967296\<close> nth_mem [OF that] by (auto intro: le_less_trans)
    have "zs ! (b - 1) \<le> zs ! b" using that(1,4) by (intro sorted_nth_mono) auto
    then show ?thesis using small [of b] small [of "b - 1"] that(4) by (auto simp: word_less_nat_alt)
  qed
  have "find (\<lambda>b. (ly_nr ly < to_usize (map wb_first_run bs ! b) \<or> (0 < b \<and> map wb_first_run bs ! b < map wb_first_run bs ! (b - 1))) \<or>
      (ly_nc ly < to_usize (map wb_content_offset bs ! b) \<or> (0 < b \<and> map wb_content_offset bs ! b < map wb_content_offset bs ! (b - 1))))
      [0..<length bs] = None"
    unfolding find_None_iff fr(1) co(1) using bad [OF fr(2,3,5)] bad [OF co(2,3,5)] len by auto
  moreover have "bs \<noteq> [] \<Longrightarrow> hd (map wb_first_run bs) = 0 \<and> hd (map wb_content_offset bs) = 0"
    using fr(1,4) co(1,4) len by (cases xs; cases ys) auto
  ultimately show ?thesis by (auto simp: offsets_ok_def Let_def)
qed

fun content_offsets :: "content_rec list \<Rightarrow> nat \<Rightarrow> block_rec list \<Rightarrow> nat list" where
  "content_offsets content c [] = []"
| "content_offsets content c (b # bs) = c # content_offsets content (c + length (block_content content b)) bs"

lemma content_offsets_wire: "map wb_content_offset (wire_blocks li content x c bs) = map to_u32 (content_offsets content c (map fst bs))"
  by (induction li content x c bs rule: wire_blocks.induct) (simp_all add: wire_block_of_def)

lemma first_runs_wire: "map wb_first_run (wire_blocks li content x c bs) = map snd bs"
  by (induction li content x c bs rule: wire_blocks.induct) (simp_all add: wire_block_of_def)

lemma length_wire_blocks [simp]: "length (wire_blocks li content x c bs) = length bs"
  by (induction li content x c bs rule: wire_blocks.induct) simp_all

lemma content_offsets_range:
  "y \<in> set (content_offsets content c bs) \<Longrightarrow> c \<le> y \<and> y \<le> c + length (concat (map (block_content content) bs))"
  by (induction content c bs rule: content_offsets.induct) fastforce+

lemma content_offsets_sorted: "sorted (content_offsets content c bs)"
  by (induction content c bs rule: content_offsets.induct) (auto dest!: content_offsets_range)

text \<open>The runs of the blocks below \<open>b\<close>.\<close>

definition runs_below :: "run_rec list \<Rightarrow> nat \<Rightarrow> nat" where
  "runs_below runs b = partition_point (\<lambda>r. to_usize (ru_block r) < b) runs"

lemma runs_below_mono: "b \<le> b' \<Longrightarrow> runs_below runs b \<le> runs_below runs b'"
  unfolding runs_below_def partition_point_def by (induction runs) auto

lemma runs_below_le: "runs_below runs b \<le> length runs"
  by (simp add: runs_below_def)

lemma advance_run_below: "r \<le> runs_below runs b \<Longrightarrow> advance_run runs b r = runs_below runs b"
proof (induction runs b r rule: advance_run.induct)
  case (1 runs b r)
  let ?P = "\<lambda>r. to_usize (ru_block r) < b"
  show ?case
  proof (cases "r < length runs \<and> ?P (runs ! r)")
    case True
    then have "r \<noteq> runs_below runs b" using partition_point_at [of ?P runs] by (auto simp: runs_below_def)
    then show ?thesis using 1 True by (simp add: advance_run.simps [of runs b r])
  next
    case False
    then have "\<not> r < runs_below runs b" using partition_point_before [of r ?P runs] partition_point_le [of ?P runs]
      unfolding runs_below_def by linarith
    then have "r = runs_below runs b" using "1.prems" by simp
    then show ?thesis using False by (simp add: advance_run.simps [of runs b])
  qed
qed

lemma first_run_loop_below:
  "r \<le> runs_below runs b \<Longrightarrow> first_run_loop runs [b..<n] r = map (\<lambda>b. to_u32 (runs_below runs b)) [b..<n]"
proof (induction "n - b" arbitrary: b r)
  case (Suc k)
  then have "first_run_loop runs [Suc b..<n] (runs_below runs b) = map (\<lambda>b. to_u32 (runs_below runs b)) [Suc b..<n]"
    using runs_below_mono [of b "Suc b" runs] by (intro Suc.hyps) simp_all
  moreover have "[b..<n] = b # [Suc b..<n]" using Suc.hyps(2) by (simp add: upt_conv_Cons)
  ultimately show ?case using advance_run_below [OF Suc.prems] by simp
qed simp

lemma first_runs_below: "first_runs runs nb = map (\<lambda>b. to_u32 (runs_below runs b)) [0..<nb + 1]"
  unfolding first_runs_def by (rule first_run_loop_below) simp

lemma runs_below_owner:
  assumes "sorted (map ru_block runs)" "i < length runs"
  shows "runs_below runs b \<le> i \<longleftrightarrow> b \<le> to_usize (ru_block (runs ! i))"
proof -
  have eq: "runs_below runs b = partition_point (\<lambda>k. to_usize k < b) (map ru_block runs)"
    by (simp add: runs_below_def partition_point_def takeWhile_map comp_def)
  have "i < partition_point (\<lambda>k. to_usize k < b) (map ru_block runs) \<longleftrightarrow> to_usize (map ru_block runs ! i) < b"
    using assms by (intro partition_point_sorted) (auto simp: word_le_nat_alt)
  then show ?thesis using assms(2) eq by (simp add: not_less [symmetric])
qed

lemma advance_owner_block:
  assumes runs: "sorted (map ru_block runs)" "i < length runs" "to_usize (ru_block (runs ! i)) < nb" "length runs < 4294967296"
    and "owner \<le> to_usize (ru_block (runs ! i))"
  shows "advance_owner (map (\<lambda>b. to_u32 (runs_below runs b)) [0..<nb]) i owner = to_usize (ru_block (runs ! i))"
  using assms(5)
proof (induction "nb - owner" arbitrary: owner rule: less_induct)
  case less
  let ?frs = "map (\<lambda>b. to_u32 (runs_below runs b)) [0..<nb]"
  have u: "to_usize (to_u32 (runs_below runs b)) = runs_below runs b" for b
    using runs_below_le [of runs b] runs(4) by simp
  have step: "owner + 1 < length ?frs \<and> to_usize (?frs ! (owner + 1)) \<le> i \<longleftrightarrow> owner < to_usize (ru_block (runs ! i))"
    using runs_below_owner [OF runs(1,2), of "owner + 1"] runs(3) u by (auto simp del: upt_Suc)
  show ?case
  proof (cases "owner < to_usize (ru_block (runs ! i))")
    case True
    then have "advance_owner ?frs i (owner + 1) = to_usize (ru_block (runs ! i))" using runs(3) by (intro less) auto
    then show ?thesis using True step by (simp only: advance_owner.simps [of ?frs i owner] if_True)
  next
    case False
    then show ?thesis using less.prems step by (simp only: advance_owner.simps [of ?frs i owner] if_False)
  qed
qed

subsection \<open>Runs\<close>

definition run_carries :: "run_rec \<Rightarrow> bool" where
  "run_carries r \<longleftrightarrow> ru_kind r = RK_LINK \<or> ru_kind r = RK_IMAGE \<or> ru_kind r = RK_AUTOLINK"

definition run_view :: "run_rec \<Rightarrow> run_rec" where
  "run_view r =
     (let plain = r\<lparr>ru_aux0 := 0, ru_aux1 := 0, ru_aux2 := 0, ru_aux3 := 0, ru_flags := (ru_flags r AND 3) OR (ru_flags r AND 256),
                    ru_destination_offset := 0, ru_destination_length := 0, ru_title_offset := 0, ru_title_length := 0\<rparr>
      in if run_carries r then r\<lparr>ru_flags := ru_flags plain\<rparr>
         else if ru_kind r = RK_REPLACEMENT \<or> ru_kind r = RK_FOOTNOTE_REF then plain\<lparr>ru_aux0 := ru_aux0 r, ru_aux1 := ru_aux1 r\<rparr>
         else if ru_kind r = RK_CODE \<and> ru_flags r AND 2 \<noteq> 0 then plain\<lparr>ru_aux2 := ru_aux2 r, ru_aux3 := ru_aux3 r\<rparr>
         else plain)"

definition in_table :: "nat \<Rightarrow> u32 \<Rightarrow> u32 \<Rightarrow> bool" where
  "in_table ns off len \<longleftrightarrow> to_usize off + to_usize len \<le> ns"

definition run_fits :: "bytes \<Rightarrow> nat \<Rightarrow> nat \<Rightarrow> run_rec \<Rightarrow> bool" where
  "run_fits src ns i r \<longleftrightarrow>
     ru_kind r < 256 \<and> (ru_parent r = U32_MAX \<or> to_usize (ru_parent r) < i) \<and>
     same_place src (ru_start_byte r) (ru_start_utf16 r) \<and> same_place src (ru_end_byte r) (ru_end_utf16 r) \<and>
     same_place src (ru_content_start_byte r) (ru_content_start_utf16 r) \<and> same_place src (ru_content_end_byte r) (ru_content_end_utf16 r) \<and>
     ru_content_start_utf16 r \<le> ru_end_utf16 r \<and> ru_content_end_utf16 r \<le> ru_end_utf16 r \<and>
     (run_carries r \<longrightarrow> on_scalar src (ru_aux0 r) \<and> on_scalar src (ru_aux1 r) \<and> on_scalar src (ru_aux2 r) \<and> on_scalar src (ru_aux3 r) \<and>
        in_table ns (ru_destination_offset r) (ru_destination_length r) \<and> in_table ns (ru_title_offset r) (ru_title_length r)) \<and>
     (ru_kind r = RK_REPLACEMENT \<longrightarrow> in_table ns (ru_aux0 r) (ru_aux1 r)) \<and>
     (ru_kind r = RK_CODE \<and> ru_flags r AND 2 \<noteq> 0 \<longrightarrow> in_table ns (ru_aux2 r) (ru_aux3 r)) \<and>
     (ru_kind r = RK_FOOTNOTE_REF \<longrightarrow> on_scalar src (ru_aux0 r) \<and> on_scalar src (ru_aux1 r))"

text \<open>The run flags as packed, bit by bit.\<close>

lemma wire_run_flags_parts:
  "wire_run_flags i r < 256" "wire_run_flags i r AND 8 \<noteq> 0 \<longleftrightarrow> is_wide i r" "wire_run_flags i r AND 2 = ru_flags r AND 2"
  "(wire_run_flags i r AND 3) OR push_bit 8 (drop_bit 2 (wire_run_flags i r) AND 1) = (ru_flags r AND 3) OR (ru_flags r AND 256)"
proof -
  define a c where "a = ru_flags r AND 3" and "c = drop_bit 8 (ru_flags r) AND 1"
  have "to_usize a < 4" "to_usize c < 2"
    unfolding a_def c_def by (simp_all add: mask_words unsigned_take_bit_eq take_bit_eq_mod and_one_eq unat_mod_distrib)
  then have a: "a = 0 \<or> a = 1 \<or> a = 2 \<or> a = 3" and c: "c = 0 \<or> c = 1" by unat_arith+
  have "ru_flags r AND 2 = a AND 2" unfolding a_def by (simp add: and.assoc)
  moreover have "ru_flags r AND 256 = push_bit 8 c"
  proof -
    have "ru_flags r AND push_bit 8 1 = push_bit 8 c"
      unfolding c_def by (rule bit_word_eqI) (auto simp add: bit_simps simp del: push_bit_of_1)
    then show ?thesis by simp
  qed
  moreover have "wire_run_flags i r = (a OR push_bit 2 c) OR (if is_wide i r then 8 else 0)" by (simp add: wire_run_flags_def a_def c_def)
  ultimately show "wire_run_flags i r < 256" "wire_run_flags i r AND 8 \<noteq> 0 \<longleftrightarrow> is_wide i r" "wire_run_flags i r AND 2 = ru_flags r AND 2"
    "(wire_run_flags i r AND 3) OR push_bit 8 (drop_bit 2 (wire_run_flags i r) AND 1) = (ru_flags r AND 3) OR (ru_flags r AND 256)"
    using a c by (auto simp: a_def [symmetric])
qed

lemma encode_run_fields:
  assumes "ru_kind r < 256"
  shows "wr_kind_flags_parent (encode_run i r) AND 0xFF = ru_kind r"
    "drop_bit 8 (wr_kind_flags_parent (encode_run i r)) AND 0xFF = wire_run_flags i r"
    "\<not> is_wide i r \<Longrightarrow> drop_bit 16 (wr_kind_flags_parent (encode_run i r)) AND 0xFFFF = run_distance i r"
    "\<not> is_wide i r \<Longrightarrow> wr_hidden (encode_run i r) AND 0xFFFF = run_before r"
    "\<not> is_wide i r \<Longrightarrow> drop_bit 16 (wr_hidden (encode_run i r)) AND 0xFFFF = run_after r"
    "wr_start (encode_run i r) = ru_start_utf16 r" "wr_end16 (encode_run i r) = ru_end_utf16 r"
proof -
  have le: "(if is_wide i r then WIDE else run_distance i r) \<le> 0xFFFF" "(if is_wide i r then WIDE else run_before r) \<le> 0xFFFF"
    "(if is_wide i r then WIDE else run_after r) \<le> 0xFFFF"
    by (auto simp: is_wide_def intro: less_imp_le)
  note packed = kind_flags_parent_packed [OF assms wire_run_flags_parts(1) [of i r] le(1)] hidden_packed [OF le(2,3)]
  show "wr_kind_flags_parent (encode_run i r) AND 0xFF = ru_kind r"
    "drop_bit 8 (wr_kind_flags_parent (encode_run i r)) AND 0xFF = wire_run_flags i r"
    unfolding encode_run_def Let_def wire_run.select_convs by (simp_all only: packed)
  show "\<not> is_wide i r \<Longrightarrow> drop_bit 16 (wr_kind_flags_parent (encode_run i r)) AND 0xFFFF = run_distance i r"
    "\<not> is_wide i r \<Longrightarrow> wr_hidden (encode_run i r) AND 0xFFFF = run_before r"
    "\<not> is_wide i r \<Longrightarrow> drop_bit 16 (wr_hidden (encode_run i r)) AND 0xFFFF = run_after r"
    unfolding encode_run_def Let_def wire_run.select_convs packed by simp_all
  show "wr_start (encode_run i r) = ru_start_utf16 r" "wr_end16 (encode_run i r) = ru_end_utf16 r" by (simp_all add: encode_run_def Let_def)
qed

lemma expand_place_encoded:
  assumes fit: "parts_fit src p" and r: "run_fits src ns i r" and i: "i < 4294967296"
    and x: "wp_extras p = pre @ run_extra_words (line_index_new src) i r @ post"
    and cursor: "is_wide i r \<Longrightarrow> cursor = to_u32 (length pre)"
  shows "expand_place (parts_layout p) (wire_model src p) i (encode_run i r) cursor =
         Inr \<lparr>rp_content_start = ru_content_start_utf16 r, rp_content_end = ru_content_end_utf16 r, rp_parent = ru_parent r,
              rp_cursor = (if is_wide i r then cursor + 3 else cursor)\<rparr>"
proof -
  have kind: "ru_kind r < 256" using r by (simp add: run_fits_def)
  note fields = encode_run_fields [OF kind, of i]
  show ?thesis
  proof (cases "is_wide i r")
    case True
    let ?x = "[ru_content_start_utf16 r, ru_content_end_utf16 r, ru_parent r]"
    have "wp_extras p = pre @ ?x @ ((case run_extra (line_index_new src) r of None \<Rightarrow> [] | Some e \<Rightarrow> extra_words e) @ post)"
      using x True by (simp add: run_extra_words_def)
    from extra_at_offset [OF fit this, of 3] show ?thesis
      using True cursor unfolding expand_place_def Let_def fields(2) wire_run_flags_parts(2) by simp
  next
    case False
    have after: "run_after r \<le> ru_end_utf16 r" using r by (simp add: run_fits_def run_after_def word_sub_le)
    have dist: "run_distance i r = 0 \<or> to_usize (run_distance i r) \<le> i"
      and parent: "(if run_distance i r = 0 then U32_MAX else to_u32 i - run_distance i r) = ru_parent r"
    proof -
      have "ru_parent r = U32_MAX \<or> ru_parent r < to_u32 i" using r i by (auto simp: run_fits_def word_less_nat_alt)
      then have "ru_parent r = U32_MAX \<or> run_distance i r \<le> to_u32 i \<and> run_distance i r \<noteq> 0 \<and> run_distance i r = to_u32 i - ru_parent r"
        by (auto simp: run_distance_def word_sub_le less_imp_le)
      then show "run_distance i r = 0 \<or> to_usize (run_distance i r) \<le> i"
        "(if run_distance i r = 0 then U32_MAX else to_u32 i - run_distance i r) = ru_parent r"
        using i by (auto simp: run_distance_def word_le_nat_alt)
    qed
    have "ru_content_start_utf16 r \<le> ru_end_utf16 r" using r by (simp add: run_fits_def)
    then show ?thesis
      using False after dist parent
      unfolding expand_place_def Let_def fields(2) wire_run_flags_parts(2) fields(3-5) [OF False] fields(6,7)
      by (simp add: run_before_def run_after_def not_less [symmetric])
  qed
qed

lemma expand_aux_encoded:
  assumes src: "utf8_valid src" "length src < 4294967296" and fit: "parts_fit src p" and r: "run_fits src (length (wp_strings p)) i r"
    and x: "\<And>e. run_extra (line_index_new src) r = Some e \<Longrightarrow> wp_extras p = pre @ extra_words e @ post \<and> cursor = to_u32 (length pre)"
  shows "expand_aux (byte_table src) (parts_layout p) (wire_model src p) (ru_kind r) (wire_run_flags i r) cursor =
         Inr \<lparr>rx_aux = [ru_aux0 (run_view r), ru_aux1 (run_view r), ru_aux2 (run_view r), ru_aux3 (run_view r)],
              rx_resolved = [ru_destination_offset (run_view r), ru_destination_length (run_view r),
                             ru_title_offset (run_view r), ru_title_length (run_view r)]\<rparr>"
proof -
  let ?li = "line_index_new src"
  note byte = byte_for_u16 [OF src]
  have ns: "ly_ns (parts_layout p) = length (wp_strings p)" by (simp add: parts_layout_def)
  have string: "string_in_bounds (parts_layout p) off len what = Inr ()" if "in_table (length (wp_strings p)) off len" for off len what
    using that by (simp add: string_in_bounds_def in_table_def ns)
  have at: "extra_at (parts_layout p) (wire_model src p) cursor n what = Inr (extra_words e)"
    if "run_extra ?li r = Some e" "n = length (extra_words e)" for e n what
    using extra_at_offset [OF fit, of pre "extra_words e" post n] x [OF that(1)] that(2) by simp
  consider (link) "run_carries r" | (replacement) "ru_kind r = RK_REPLACEMENT"
    | (code) "ru_kind r = RK_CODE" "ru_flags r AND 2 \<noteq> 0" | (footnote) "ru_kind r = RK_FOOTNOTE_REF"
    | (other) "\<not> run_carries r" "ru_kind r \<noteq> RK_REPLACEMENT" "ru_kind r = RK_CODE \<longrightarrow> ru_flags r AND 2 = 0" "ru_kind r \<noteq> RK_FOOTNOTE_REF"
    by blast
  then show ?thesis
  proof cases
    case link
    then have "run_extra ?li r = Some (LinkExtra (u16 ?li (to_usize (ru_aux0 r))) (u16 ?li (to_usize (ru_aux1 r)))
        (u16 ?li (to_usize (ru_aux2 r))) (u16 ?li (to_usize (ru_aux3 r)))
        (ru_destination_offset r) (ru_destination_length r) (ru_title_offset r) (ru_title_length r))"
      by (simp add: run_extra_def run_carries_def)
    note at = at [OF this]
    have "on_scalar src (ru_aux0 r)" "on_scalar src (ru_aux1 r)" "on_scalar src (ru_aux2 r)" "on_scalar src (ru_aux3 r)"
      "in_table (length (wp_strings p)) (ru_destination_offset r) (ru_destination_length r)"
      "in_table (length (wp_strings p)) (ru_title_offset r) (ru_title_length r)"
      using link r by (simp_all add: run_fits_def)
    then show ?thesis using link
      by (simp add: expand_aux_def run_carries_def [symmetric] at byte string numeral_eq_Suc) (simp add: run_view_def)
  next
    case replacement
    then have "run_extra ?li r = Some (DisplayTextExtra (ru_aux0 r) (ru_aux1 r))" by (simp add: run_extra_def)
    note at = at [OF this]
    show ?thesis using replacement r
      by (simp add: expand_aux_def at string run_fits_def) (simp add: run_view_def run_carries_def)
  next
    case code
    then have "run_extra ?li r = Some (DisplayTextExtra (ru_aux2 r) (ru_aux3 r))" by (simp add: run_extra_def)
    note at = at [OF this]
    show ?thesis using code r
      by (simp add: expand_aux_def wire_run_flags_parts(3) at string run_fits_def) (simp add: run_view_def run_carries_def)
  next
    case footnote
    then have "run_extra ?li r = Some (FootnoteRefExtra (u16 ?li (to_usize (ru_aux0 r))) (u16 ?li (to_usize (ru_aux1 r))))"
      by (simp add: run_extra_def)
    note at = at [OF this]
    show ?thesis using footnote r
      by (simp add: expand_aux_def at byte run_fits_def) (simp add: run_view_def run_carries_def)
  next
    case other
    then show ?thesis
      by (auto simp: expand_aux_def wire_run_flags_parts(3) run_view_def run_carries_def Let_def)
  qed
qed

lemma owns_run_extra_encoded:
  "owns_run_extra (ru_kind r) (wire_run_flags i r) \<longleftrightarrow> run_extra_words li i r \<noteq> []"
proof -
  have "extra_words e \<noteq> []" for e by (cases e) simp_all
  then have "run_extra_words li i r = [] \<longleftrightarrow> \<not> is_wide i r \<and> run_extra li r = None"
    by (auto simp: run_extra_words_def split: option.splits)
  then show ?thesis
    by (auto simp: owns_run_extra_def wire_run_flags_parts(2,3) run_extra_def Let_def)
qed

definition run_offset :: "line_index \<Rightarrow> nat \<Rightarrow> nat \<Rightarrow> run_rec \<Rightarrow> u32 option" where
  "run_offset li x i r = (if run_extra_words li i r = [] then None else Some (to_u32 x))"

lemma expand_run_encoded:
  assumes src: "utf8_valid src" "length src < 4294967296" and fit: "parts_fit src p" and r: "run_fits src (length (wp_strings p)) i r"
    and i: "i < 4294967296" and x: "wp_extras p = pre @ run_extra_words (line_index_new src) i r @ post"
  shows "expand_run (byte_table src) (parts_layout p) (wire_model src p) (to_usize (ru_block r)) i (encode_run i r)
           (run_offset (line_index_new src) (length pre) i r) = Inr (run_view r)"
proof -
  let ?li = "line_index_new src" and ?wide = "is_wide i r"
  have kind: "ru_kind r < 256" using r by (simp add: run_fits_def)
  define cursor where "cursor = (case run_offset ?li (length pre) i r of None \<Rightarrow> 0 | Some o' \<Rightarrow> o')"
  have wide: "cursor = to_u32 (length pre)" if "?wide \<or> run_extra ?li r \<noteq> None"
    using that owns_run_extra_encoded [of r i ?li]
    by (auto simp: cursor_def run_offset_def owns_run_extra_def wire_run_flags_parts(2,3) run_extra_def Let_def split: if_splits)
  let ?pre = "pre @ (if ?wide then [ru_content_start_utf16 r, ru_content_end_utf16 r, ru_parent r] else [])"
  have aux: "wp_extras p = ?pre @ extra_words e @ post \<and> (if ?wide then cursor + 3 else cursor) = to_u32 (length ?pre)"
    if "run_extra ?li r = Some e" for e
    using that wide x by (simp add: run_extra_words_def)
  have place: "byte_for (byte_table src) (ru_start_utf16 r) s = Inr (ru_start_byte r)" "byte_for (byte_table src) (ru_end_utf16 r) s = Inr (ru_end_byte r)"
    "byte_for (byte_table src) (ru_content_start_utf16 r) s = Inr (ru_content_start_byte r)"
    "byte_for (byte_table src) (ru_content_end_utf16 r) s = Inr (ru_content_end_byte r)" for s
    using r byte_for_place [OF src] by (simp_all add: run_fits_def)
  have own: "owns_run_extra (ru_kind r) (wire_run_flags i r) = (run_offset ?li (length pre) i r \<noteq> None)"
    using owns_run_extra_encoded [of r i ?li] by (simp add: run_offset_def)
  have view: "ru_kind (run_view r) = ru_kind r" "ru_block (run_view r) = ru_block r" "ru_parent (run_view r) = ru_parent r"
    "ru_start_byte (run_view r) = ru_start_byte r" "ru_end_byte (run_view r) = ru_end_byte r"
    "ru_content_start_byte (run_view r) = ru_content_start_byte r" "ru_content_end_byte (run_view r) = ru_content_end_byte r"
    "ru_start_utf16 (run_view r) = ru_start_utf16 r" "ru_end_utf16 (run_view r) = ru_end_utf16 r"
    "ru_content_start_utf16 (run_view r) = ru_content_start_utf16 r" "ru_content_end_utf16 (run_view r) = ru_content_end_utf16 r"
    "ru_flags (run_view r) = (ru_flags r AND 3) OR (ru_flags r AND 256)"
    by (simp_all add: run_view_def Let_def)
  note pl = expand_place_encoded [OF fit r i x, of cursor]
  have run: "expand_run (byte_table src) (parts_layout p) (wire_model src p) (to_usize (ru_block r)) i (encode_run i r)
           (run_offset ?li (length pre) i r) =
      Inr \<lparr>ru_kind = ru_kind r, ru_block = ru_block r, ru_parent = ru_parent r, ru_start_byte = ru_start_byte r, ru_end_byte = ru_end_byte r,
           ru_content_start_byte = ru_content_start_byte r, ru_content_end_byte = ru_content_end_byte r,
           ru_start_utf16 = ru_start_utf16 r, ru_end_utf16 = ru_end_utf16 r,
           ru_content_start_utf16 = ru_content_start_utf16 r, ru_content_end_utf16 = ru_content_end_utf16 r,
           ru_aux0 = ru_aux0 (run_view r), ru_aux1 = ru_aux1 (run_view r), ru_aux2 = ru_aux2 (run_view r), ru_aux3 = ru_aux3 (run_view r),
           ru_flags = (ru_flags r AND 3) OR (ru_flags r AND 256),
           ru_destination_offset = ru_destination_offset (run_view r), ru_destination_length = ru_destination_length (run_view r),
           ru_title_offset = ru_title_offset (run_view r), ru_title_length = ru_title_length (run_view r)\<rparr>"
    unfolding expand_run_def Let_def encode_run_fields [OF kind] own cursor_def [symmetric] wire_run_flags_parts(4)
    using pl wide expand_aux_encoded [OF src fit r aux] by (simp add: place numeral_eq_Suc)
  also have "\<dots> = Inr (run_view r)" by (rule arg_cong [where f = Inr]) (rule run_rec.equality, simp_all add: view)
  finally show ?thesis .
qed

subsection \<open>The run index\<close>

fun run_offsets :: "line_index \<Rightarrow> nat \<Rightarrow> nat \<Rightarrow> run_rec list \<Rightarrow> u32 option list" where
  "run_offsets li x i [] = []"
| "run_offsets li x i (r # rs) = run_offset li x i r # run_offsets li (x + length (run_extra_words li i r)) (i + 1) rs"

fun run_words :: "line_index \<Rightarrow> nat \<Rightarrow> run_rec list \<Rightarrow> u32 list" where
  "run_words li i [] = []"
| "run_words li i (r # rs) = run_extra_words li i r @ run_words li (i + 1) rs"

fun wire_runs :: "nat \<Rightarrow> run_rec list \<Rightarrow> wire_run list" where
  "wire_runs i [] = []"
| "wire_runs i (r # rs) = encode_run i r # wire_runs (i + 1) rs"

fun wire_index :: "line_index \<Rightarrow> nat \<Rightarrow> nat \<Rightarrow> run_rec list \<Rightarrow> wire_run_extra list" where
  "wire_index li x i [] = []"
| "wire_index li x i (r # rs) =
     (if run_extra_words li i r = [] then [] else [\<lparr>wx_run = to_u32 i, wx_offset = to_u32 x\<rparr>]) @
     wire_index li (x + length (run_extra_words li i r)) (i + 1) rs"

lemma encode_runs_split:
  "encode_runs li i rs extras = (wire_runs i rs, wire_index li (length extras) i rs, extras @ run_words li i rs)"
proof (induction li i rs extras rule: encode_runs.induct)
  case (2 li i r rs extras)
  then show ?case by (cases "run_extra_words li i r = []") (simp_all add: Let_def)
qed simp

lemma length_run_lists [simp]: "length (run_offsets li x i rs) = length rs" "length (wire_runs i rs) = length rs"
  by (induction rs arbitrary: x i) simp_all

lemma index_loop_encoded:
  assumes "i + length rs = nr" "length t = nr" "nr < 4294967296" "\<forall>q. prev = Some q \<longrightarrow> to_usize q < i" "drop i t = replicate (length rs) None"
  shows "index_loop nr prev (wire_index li x i rs) t = Inr (take i t @ run_offsets li x i rs)"
  using assms
proof (induction rs arbitrary: i x t prev)
  case (Cons r rs)
  have i: "i < length t" using Cons.prems by simp
  have t: "t ! i = None" using Cons.prems(5) i by (metis Cons_nth_drop_Suc length_Cons list.inject replicate_Suc)
  have rest: "drop (i + 1) t = replicate (length rs) None" using Cons.prems(5) by (metis Suc_eq_plus1 drop_Suc length_Cons replicate_Suc tl_drop list.sel(3))
  let ?x = "x + length (run_extra_words li i r)"
  show ?case
  proof (cases "run_extra_words li i r = []")
    case True
    have "index_loop nr prev (wire_index li ?x (i + 1) rs) t = Inr (take (i + 1) t @ run_offsets li ?x (i + 1) rs)"
      using Cons.prems rest by (intro Cons.IH) auto
    then show ?thesis using True t i by (simp add: run_offset_def take_Suc_conv_app_nth)
  next
    case False
    let ?t = "t[i := Some (to_u32 x)]"
    have u: "to_usize (to_u32 i) = i" using Cons.prems by simp
    have "index_loop nr (Some (to_u32 i)) (wire_index li ?x (i + 1) rs) ?t = Inr (take (i + 1) ?t @ run_offsets li ?x (i + 1) rs)"
      using Cons.prems rest u by (intro Cons.IH) auto
    moreover have "\<not> (nr \<le> i \<or> (case prev of Some q \<Rightarrow> to_u32 i \<le> q | None \<Rightarrow> False))"
      using Cons.prems u by (auto simp: word_le_nat_alt split: option.splits)
    ultimately show ?thesis using False u i by (cases prev) (simp_all add: run_offset_def take_Suc_conv_app_nth)
  qed
qed simp

lemma run_index_encoded:
  "length rs < 4294967296 \<Longrightarrow> run_index (length rs) (wire_index li x 0 rs) = Inr (run_offsets li x 0 rs)"
  using index_loop_encoded [of 0 rs "length rs" "replicate (length rs) None" None li x] by (simp add: run_index_def)

lemma expand_runs_encoded:
  assumes src: "utf8_valid src" "length src < 4294967296" and fit: "parts_fit src p"
    and sorted: "sorted (map ru_block runs)" "length runs < 4294967296" "\<forall>r \<in> set runs. to_usize (ru_block r) < nb"
    and frs: "frs = map (\<lambda>b. to_u32 (runs_below runs b)) [0..<nb]"
    and fits: "\<forall>i < length runs. run_fits src (length (wp_strings p)) i (runs ! i)"
    and "drop i runs = rs" "i + length rs = length runs" "wp_extras p = pre @ run_words (line_index_new src) i rs @ post"
    and "rs \<noteq> [] \<longrightarrow> owner \<le> to_usize (ru_block (hd rs))"
  shows "expand_runs (byte_table src) (parts_layout p) (wire_model src p) frs owner i
           (zip (wire_runs i rs) (run_offsets (line_index_new src) (length pre) i rs)) = Inr (map run_view rs)"
  using assms(9-)
proof (induction rs arbitrary: i pre owner)
  case (Cons r rs)
  let ?li = "line_index_new src"
  have i: "i < length runs" "runs ! i = r" "drop (i + 1) runs = rs"
    using Cons.prems(1,2) by (auto simp: nth_via_drop) (metis drop_Suc list.sel(3) tl_drop)
  have adv: "advance_owner frs i owner = to_usize (ru_block r)"
    unfolding frs using advance_owner_block [OF sorted(1) i(1), of nb owner] sorted(2,3) i Cons.prems(4) nth_mem [OF i(1)] by simp
  have "expand_run (byte_table src) (parts_layout p) (wire_model src p) (to_usize (ru_block r)) i (encode_run i r)
      (run_offset ?li (length pre) i r) = Inr (run_view r)"
    using fits i sorted(2) Cons.prems(3) by (intro expand_run_encoded [OF src fit]) auto
  moreover have "to_usize (ru_block r) \<le> to_usize (ru_block (hd rs))" if "rs \<noteq> []"
  proof -
    have "i + 1 < length runs" "runs ! (i + 1) = hd rs" using i(3) that hd_drop_conv_nth [of "i + 1" runs] by (cases "i + 1 < length runs"; simp)+
    then show ?thesis using sorted_nth_mono [OF sorted(1), of i "i + 1"] i by (simp add: word_le_nat_alt)
  qed
  then have "expand_runs (byte_table src) (parts_layout p) (wire_model src p) frs (to_usize (ru_block r)) (i + 1)
      (zip (wire_runs (i + 1) rs) (run_offsets ?li (length (pre @ run_extra_words ?li i r)) (i + 1) rs)) = Inr (map run_view rs)"
    using Cons.prems i by (intro Cons.IH) auto
  ultimately show ?case by (simp add: adv Let_def)
qed simp

subsection \<open>Definitions\<close>

definition definition_fits :: "bytes \<Rightarrow> definition_rec \<Rightarrow> bool" where
  "definition_fits src d \<longleftrightarrow>
     list_all (is_char_boundary src)
       [def_start d, def_end d, fst (def_label d), snd (def_label d), fst (def_dest d), snd (def_dest d)]"

definition definition_view :: "line_index \<Rightarrow> definition_rec \<Rightarrow> definition_words_rec" where
  "definition_view li d =
     \<lparr>dw_start_byte = to_u32 (def_start d), dw_end_byte = to_u32 (def_end d), dw_start_utf16 = u16 li (def_start d),
      dw_end_utf16 = u16 li (def_end d), dw_label_start_byte = to_u32 (fst (def_label d)),
      dw_label_end_byte = to_u32 (snd (def_label d)), dw_dest_start_byte = to_u32 (fst (def_dest d)),
      dw_dest_end_byte = to_u32 (snd (def_dest d))\<rparr>"

lemma expand_definition_encoded:
  assumes src: "utf8_valid src" "length src < 4294967296" and d: "definition_fits src d"
  shows "expand_definition (byte_table src) (encode_definition (line_index_new src) d) = Inr (definition_view (line_index_new src) d)"
proof -
  have "byte_for (byte_table src) (u16 (line_index_new src) k) s = Inr (to_u32 k)" if "is_char_boundary src k" for k s
  proof -
    have "k < 4294967296" using that src(2) by (auto simp: is_char_boundary_def)
    then show ?thesis using that byte_for_u16 [OF src, of "to_u32 k" s] by (simp add: on_scalar_def)
  qed
  then show ?thesis using d by (simp add: definition_fits_def expand_definition_def encode_definition_def definition_view_def)
qed

subsection \<open>The whole model\<close>

definition publishable :: "extractor \<Rightarrow> bool" where
  "publishable ex \<longleftrightarrow>
     utf8_valid (ex_src ex) \<and> length (ex_src ex) < 4294967296 \<and> ex_li ex = line_index_new (ex_src ex) \<and>
     4 * length (encode_words ex) < 4294967296 \<and>
     list_all (block_fits (ex_src ex) (ex_content ex)) (ex_blocks ex) \<and>
     list_all (content_fits (ex_src ex)) (concat (map (block_content (ex_content ex)) (ex_blocks ex))) \<and>
     sorted (map ru_block (ex_runs ex)) \<and> list_all (\<lambda>r. to_usize (ru_block r) < length (ex_blocks ex)) (ex_runs ex) \<and>
     list_all (\<lambda>i. run_fits (ex_src ex) (length (ex_strings ex)) i (ex_runs ex ! i)) [0..<length (ex_runs ex)] \<and>
     list_all (definition_fits (ex_src ex)) (ex_definitions ex)"

definition parts_of :: "extractor \<Rightarrow> wire_parts" where
  "parts_of ex =
     (let bs = zip (ex_blocks ex) (first_runs (ex_runs ex) (length (ex_blocks ex)));
          x = concat (map (block_extra_words (ex_li ex)) (ex_blocks ex))
      in \<lparr>wp_lines = encode_lines (ex_li ex), wp_blocks = wire_blocks (ex_li ex) (ex_content ex) 0 0 bs,
          wp_content = map encode_content (concat (map (block_content (ex_content ex)) (ex_blocks ex))),
          wp_runs = wire_runs 0 (ex_runs ex), wp_definitions = map (encode_definition (ex_li ex)) (ex_definitions ex),
          wp_index = wire_index (ex_li ex) (length x) 0 (ex_runs ex), wp_extras = x @ run_words (ex_li ex) 0 (ex_runs ex),
          wp_strings = ex_strings ex\<rparr>)"

text \<open>The records a model is read back as.\<close>

definition read_back :: "extractor \<Rightarrow> u32 list" where
  "read_back ex =
     records_header_words (expand_header (parts_layout (parts_of ex)) (ex_src ex)) @
     concat (map (\<lambda>l. line_rec_words (line_view (ex_li ex) l)) [0..<line_count (ex_li ex)]) @
     concat (map block_rec_words (block_views (ex_content ex) 0 (ex_blocks ex))) @
     concat (map content_rec_words (concat (map (block_content (ex_content ex)) (ex_blocks ex)))) @
     concat (map (\<lambda>r. run_rec_words (run_view r)) (ex_runs ex)) @
     concat (map (\<lambda>d. definition_words_rec_words (definition_view (ex_li ex) d)) (ex_definitions ex)) @
     string_words (ex_strings ex)"

lemma zip_first_runs: "map fst (zip bs (first_runs runs (length bs))) = bs"
    "map snd (zip bs (first_runs runs (length bs))) = map (\<lambda>b. to_u32 (runs_below runs b)) [0..<length bs]"
    "length (zip bs (first_runs runs (length bs))) = length bs"
  by (simp_all add: first_runs_below map_fst_zip_take map_snd_zip_take take_map [symmetric] del: upt_Suc) simp_all

lemma encode_blocks_sections:
  "encode_blocks ex =
     \<lparr>sc_extras = concat (map (block_extra_words (ex_li ex)) (ex_blocks ex)),
      sc_blocks = wire_blocks (ex_li ex) (ex_content ex) 0 0 (zip (ex_blocks ex) (first_runs (ex_runs ex) (length (ex_blocks ex)))),
      sc_content = map encode_content (concat (map (block_content (ex_content ex)) (ex_blocks ex))),
      sc_overflow = list_ex content_overflows (concat (map (block_content (ex_content ex)) (ex_blocks ex)))\<rparr>"
proof -
  have fst: "map (f \<circ> fst) (zip (ex_blocks ex) (first_runs (ex_runs ex) (length (ex_blocks ex)))) = map f (ex_blocks ex)"
    for f :: "block_rec \<Rightarrow> 'a"
    by (metis map_map zip_first_runs(1))
  show ?thesis by (simp add: encode_blocks_def encode_blocks_fold fst)
qed

lemma encode_words_parts:
  assumes "utf8_valid (ex_src ex)" "ex_li ex = line_index_new (ex_src ex)"
  shows "encode_words ex = wire_model (ex_src ex) (parts_of ex)"
proof -
  have "u16 (ex_li ex) (length (ex_src ex)) = to_u32 (utf16_len (ex_src ex))"
    using u16_eq [OF assms(1), of "length (ex_src ex)"] by (simp add: assms(2) is_char_boundary_def)
  then have "encode_header ex (sc_content (encode_blocks ex)) (wp_index (parts_of ex)) (wp_extras (parts_of ex)) =
      parts_header (ex_src ex) (parts_of ex)"
    by (simp add: encode_header_def parts_header_def parts_of_def Let_def encode_blocks_sections zip_first_runs(3) [unfolded length_zip] encode_lines_def)
  then show ?thesis
    by (simp add: encode_words_def Let_def encode_runs_split encode_blocks_sections wire_model_def) (simp add: parts_of_def Let_def comp_def)
qed

lemma publishable_parts:
  assumes "publishable ex"
  shows "parts_fit (ex_src ex) (parts_of ex)"
  using assms encode_words_parts [of ex] by (simp add: publishable_def parts_fit_def)

lemma publishable_offsets:
  assumes "publishable ex"
  shows "offsets_ok (parts_layout (parts_of ex)) (wp_blocks (parts_of ex)) = None"
proof (rule offsets_ok_sorted)
  let ?bs = "zip (ex_blocks ex) (first_runs (ex_runs ex) (length (ex_blocks ex)))"
  let ?xs = "map (runs_below (ex_runs ex)) [0..<length (ex_blocks ex)]" and ?ys = "content_offsets (ex_content ex) 0 (ex_blocks ex)"
  note len = parts_fit_lengths [OF publishable_parts [OF assms]]
  show "map wb_first_run (wp_blocks (parts_of ex)) = map to_u32 ?xs"
    using zip_first_runs(2) [of "ex_blocks ex" "ex_runs ex"] by (simp add: parts_of_def Let_def first_runs_wire comp_def)
  show "map wb_content_offset (wp_blocks (parts_of ex)) = map to_u32 ?ys"
    by (simp add: parts_of_def Let_def content_offsets_wire zip_first_runs(1))
  show "sorted ?xs" by (simp add: sorted_iff_nth_mono runs_below_mono)
  show "sorted ?ys" by (rule content_offsets_sorted)
  show "\<forall>x \<in> set ?xs. x \<le> ly_nr (parts_layout (parts_of ex))" by (auto simp: parts_layout_def parts_of_def Let_def runs_below_le)
  show "\<forall>y \<in> set ?ys. y \<le> ly_nc (parts_layout (parts_of ex))"
    using content_offsets_range [of _ "ex_content ex" 0 "ex_blocks ex"] by (auto simp: parts_layout_def parts_of_def Let_def)
  show "?xs \<noteq> [] \<longrightarrow> hd ?xs = 0" by (cases "ex_runs ex") (simp_all add: upt_rec runs_below_def partition_point_def)
  show "?ys \<noteq> [] \<longrightarrow> hd ?ys = 0" by (cases "ex_blocks ex") simp_all
  show "ly_nr (parts_layout (parts_of ex)) < 4294967296" "ly_nc (parts_layout (parts_of ex)) < 4294967296"
    using len by (simp_all add: parts_layout_def)
qed

text \<open>The sections of a publishable state, each expanded.\<close>

lemma publishable_source:
  assumes "publishable ex"
  shows "utf8_valid (ex_src ex)" "length (ex_src ex) < 4294967296" "line_index_new (ex_src ex) = ex_li ex"
  using assms by (simp_all add: publishable_def)

lemma publishable_lines:
  assumes "publishable ex"
  shows "map_res (expand_line (byte_table (ex_src ex))) (wp_lines (parts_of ex)) = Inr (map (line_view (ex_li ex)) [0..<line_count (ex_li ex)])"
proof -
  note src = publishable_source [OF assms]
  show ?thesis unfolding parts_of_def Let_def wire_parts.select_convs encode_lines_def map_res_map
    by (rule map_res_Inr) (use expand_line_encoded [OF src(1,2)] in \<open>simp add: src(3)\<close>)
qed

lemma publishable_blocks:
  assumes "publishable ex"
  shows "map_res (\<lambda>(b, n). expand_block (byte_table (ex_src ex)) (parts_layout (parts_of ex)) (wire_model (ex_src ex) (parts_of ex)) b n)
           (zip (wp_blocks (parts_of ex)) (map wb_content_offset (tl (wp_blocks (parts_of ex))) @ [to_u32 (length (wp_content (parts_of ex)))])) =
         Inr (block_views (ex_content ex) 0 (ex_blocks ex))"
proof -
  let ?bs = "zip (ex_blocks ex) (first_runs (ex_runs ex) (length (ex_blocks ex)))"
  note src = publishable_source [OF assms]
  have fst: "map (f \<circ> fst) ?bs = map f (ex_blocks ex)" for f :: "block_rec \<Rightarrow> 'a" by (metis map_map zip_first_runs(1))
  have fits: "\<forall>b \<in> set ?bs. block_fits (ex_src ex) (ex_content ex) (fst b)"
    using assms by (auto simp: publishable_def list_all_iff dest!: set_zip_leftD)
  have "wp_extras (parts_of ex) = [] @ concat (map (block_extra_words (line_index_new (ex_src ex)) \<circ> fst) ?bs) @ run_words (ex_li ex) 0 (ex_runs ex)"
    by (simp only: fst src(3)) (simp add: parts_of_def Let_def)
  moreover have "length (wp_content (parts_of ex)) = 0 + length (concat (map (block_content (ex_content ex) \<circ> fst) ?bs))"
    by (simp only: fst) (simp add: parts_of_def Let_def)
  moreover have "wp_blocks (parts_of ex) = wire_blocks (line_index_new (ex_src ex)) (ex_content ex) (length ([] :: u32 list)) 0 ?bs"
    by (simp add: parts_of_def Let_def src(3))
  ultimately show ?thesis
    using expand_blocks_encoded [OF src(1,2) publishable_parts [OF assms] fits] by (simp only: zip_first_runs(1))
qed

lemma publishable_content:
  assumes "publishable ex"
  shows "map_res (expand_content (byte_table (ex_src ex))) (wp_content (parts_of ex)) =
         Inr (concat (map (block_content (ex_content ex)) (ex_blocks ex)))"
proof -
  let ?cs = "concat (map (block_content (ex_content ex)) (ex_blocks ex))"
  have "expand_content (byte_table (ex_src ex)) (encode_content c) = Inr c" if "c \<in> set ?cs" for c
  proof (rule expand_content_encoded [OF publishable_source(1,2) [OF assms]])
    show "content_fits (ex_src ex) c" using that assms unfolding publishable_def list_all_iff by blast
  qed
  then have "map_res (\<lambda>c. expand_content (byte_table (ex_src ex)) (encode_content c)) ?cs = Inr (map (\<lambda>c. c) ?cs)" by (rule map_res_Inr)
  then show ?thesis by (simp add: parts_of_def Let_def map_res_map)
qed

lemma publishable_runs:
  assumes "publishable ex"
  shows "run_index (length (wp_runs (parts_of ex))) (wp_index (parts_of ex)) =
           Inr (run_offsets (ex_li ex) (length (concat (map (block_extra_words (ex_li ex)) (ex_blocks ex)))) 0 (ex_runs ex))"
    and "expand_runs (byte_table (ex_src ex)) (parts_layout (parts_of ex)) (wire_model (ex_src ex) (parts_of ex))
           (map wb_first_run (wp_blocks (parts_of ex))) 0 0
           (zip (wp_runs (parts_of ex)) (run_offsets (ex_li ex) (length (concat (map (block_extra_words (ex_li ex)) (ex_blocks ex)))) 0 (ex_runs ex))) =
         Inr (map run_view (ex_runs ex))"
proof -
  note src = publishable_source [OF assms] and fit = publishable_parts [OF assms]
  have runs: "wp_runs (parts_of ex) = wire_runs 0 (ex_runs ex)" "length (ex_runs ex) < 4294967296"
    using parts_fit_lengths(4) [OF fit] by (simp_all add: parts_of_def Let_def)
  then show "run_index (length (wp_runs (parts_of ex))) (wp_index (parts_of ex)) =
      Inr (run_offsets (ex_li ex) (length (concat (map (block_extra_words (ex_li ex)) (ex_blocks ex)))) 0 (ex_runs ex))"
    using run_index_encoded [OF runs(2)] by (simp add: parts_of_def Let_def)
  have ok: "sorted (map ru_block (ex_runs ex))" "\<forall>r \<in> set (ex_runs ex). to_usize (ru_block r) < length (ex_blocks ex)"
    "\<forall>i < length (ex_runs ex). run_fits (ex_src ex) (length (wp_strings (parts_of ex))) i (ex_runs ex ! i)"
    using assms by (simp_all add: publishable_def list_all_iff parts_of_def Let_def)
  have frs: "map wb_first_run (wp_blocks (parts_of ex)) = map (\<lambda>b. to_u32 (runs_below (ex_runs ex) b)) [0..<length (ex_blocks ex)]"
    by (simp add: parts_of_def Let_def first_runs_wire zip_first_runs(2))
  have x: "wp_extras (parts_of ex) =
      concat (map (block_extra_words (ex_li ex)) (ex_blocks ex)) @ run_words (line_index_new (ex_src ex)) 0 (ex_runs ex) @ []"
    by (simp add: parts_of_def Let_def src(3))
  show "expand_runs (byte_table (ex_src ex)) (parts_layout (parts_of ex)) (wire_model (ex_src ex) (parts_of ex))
      (map wb_first_run (wp_blocks (parts_of ex))) 0 0
      (zip (wp_runs (parts_of ex)) (run_offsets (ex_li ex) (length (concat (map (block_extra_words (ex_li ex)) (ex_blocks ex)))) 0 (ex_runs ex))) =
      Inr (map run_view (ex_runs ex))"
    unfolding runs(1) src(3) [symmetric]
    by (rule expand_runs_encoded [OF src(1,2) fit ok(1) runs(2) ok(2) frs ok(3)]) (simp_all add: x src(3))
qed

lemma publishable_definitions:
  assumes "publishable ex"
  shows "map_res (expand_definition (byte_table (ex_src ex))) (wp_definitions (parts_of ex)) =
         Inr (map (definition_view (ex_li ex)) (ex_definitions ex))"
proof -
  note src = publishable_source [OF assms]
  show ?thesis unfolding parts_of_def Let_def wire_parts.select_convs map_res_map
    by (rule map_res_Inr) (use expand_definition_encoded [OF src(1,2)] assms in \<open>simp add: src(3) publishable_def list_all_iff\<close>)
qed


text \<open>An emphasised letter: a paragraph with one content line, its emphasis and the text in it.\<close>

definition emphasised :: extractor where
  "emphasised =
     (let whole = zero_block\<lparr>bl_parent := U32_MAX, bl_end_byte := 3, bl_end_utf16 := 3, bl_line_count := 1\<rparr>;
          run = zero_run\<lparr>ru_kind := RK_EMPH, ru_block := 1, ru_parent := U32_MAX, ru_end_byte := 3, ru_end_utf16 := 3,
            ru_content_start_byte := 1, ru_content_start_utf16 := 1, ru_content_end_byte := 2, ru_content_end_utf16 := 2\<rparr>
      in (extractor_new ''*a*'' True)\<lparr>
        ex_blocks := [whole, whole\<lparr>bl_kind := BK_PARAGRAPH, bl_parent := 0, bl_content_count := 1\<rparr>],
        ex_content := [\<lparr>co_line = 0, co_start_byte = 0, co_start_utf16 = 0, co_end_byte = 3, co_end_utf16 = 3,
          co_virtual_leading_spaces = 0, co_prefix_start_byte = 0, co_prefix_start_utf16 = 0\<rparr>],
        ex_runs := [run, run\<lparr>ru_kind := RK_TEXT, ru_parent := 0, ru_start_byte := 1, ru_start_utf16 := 1, ru_end_byte := 2, ru_end_utf16 := 2\<rparr>]\<rparr>)"

lemma line_index_emphasised: "line_index_new ''*a*'' = \<lparr>line_starts = [0], line_ends = [3], utf16 = [0, 1, 2, 3]\<rparr>" by code_simp

lemma emphasised_publishable: "publishable emphasised"
proof -
  have u: "u16 (line_index_new ''*a*'') 0 = 0" "u16 (line_index_new ''*a*'') 1 = 1" "u16 (line_index_new ''*a*'') 2 = 2" "u16 (line_index_new ''*a*'') 3 = 3"
    by (simp_all add: line_index_emphasised u16_def)
  have b: "is_char_boundary ''*a*'' 0" "is_char_boundary ''*a*'' 1" "is_char_boundary ''*a*'' 2" "is_char_boundary ''*a*'' 3" by code_simp+
  have v: "utf8_valid ''*a*''" by code_simp
  have place: "same_place ''*a*'' 0 0" "same_place ''*a*'' 1 1" "same_place ''*a*'' 2 2" "same_place ''*a*'' 3 3"
    using u b by (simp_all add: same_place_def on_scalar_def)
  have ex: "ex_src emphasised = ''*a*''" "ex_li emphasised = line_index_new ''*a*''" "ex_strings emphasised = []" "ex_definitions emphasised = []"
    by (simp_all add: emphasised_def Let_def extractor_new_def)
  have lists: "length (ex_blocks emphasised) = 2" "length (ex_runs emphasised) = 2" "length (ex_content emphasised) = 1"
    by (simp_all add: emphasised_def Let_def)
  have blocks: "list_all (block_fits ''*a*'' (ex_content emphasised)) (ex_blocks emphasised)"
    by (simp add: emphasised_def Let_def block_fits_def zero_block_def place)
  have content: "concat (map (block_content (ex_content emphasised)) (ex_blocks emphasised)) = ex_content emphasised"
    by (simp add: emphasised_def Let_def block_content_def zero_block_def seg_def)
  have content_ok: "list_all (content_fits ''*a*'') (ex_content emphasised)"
    by (simp add: emphasised_def Let_def content_fits_def content_overflows_def place)
  have runs: "sorted (map ru_block (ex_runs emphasised))" "list_all (\<lambda>r. to_usize (ru_block r) < 2) (ex_runs emphasised)"
    "list_all (\<lambda>i. run_fits ''*a*'' 0 i (ex_runs emphasised ! i)) [0..<2]"
    by (simp_all add: emphasised_def Let_def zero_run_def run_fits_def run_carries_def place upt_rec)
  have extras: "map (block_extra_words (line_index_new ''*a*'')) (ex_blocks emphasised) = [[], []]"
    "run_words (line_index_new ''*a*'') 0 (ex_runs emphasised) = []" "wire_index (line_index_new ''*a*'') 0 0 (ex_runs emphasised) = []"
    by (simp_all add: emphasised_def Let_def zero_block_def block_extra_words_def block_extra_def zero_run_def run_extra_words_def is_wide_def
        run_before_def run_after_def run_distance_def run_extra_def word_le_nat_alt)
  have "length (encode_words emphasised) = 45"
    using encode_words_parts [of emphasised] v ex lists extras content zip_first_runs(3) [of "ex_blocks emphasised" "ex_runs emphasised"]
    by (simp add: length_wire_model parts_of_def encode_lines_def line_count_def line_index_emphasised)
  then show ?thesis using v ex lists blocks content content_ok runs by (simp add: publishable_def)
qed


end
