(* ===== verification/Flark_Passes.thy ===== *)
theory Flark_Passes
  imports Flark_Extract
begin

text \<open>
  What the passes of the extraction keep of each other's work. Every arm of a leaf's pass appends
  content, runs, definitions and findings and leaves the tree of blocks as the walk made it
  (\<open>appends\<close>, the locale \<open>leaf_arm\<close>); a leaf's runs are its own and can be painted; and the passes after the
  leaves touch no run. From these follow the properties of the whole extraction in
  \<open>Spec2Isabelle\<close>.
\<close>

subsection \<open>Positions of a checked source\<close>

text \<open>A source as the interface hands it to the extraction: valid UTF-8, its length in 32 bits, and its line table.\<close>

definition src_ok :: "extractor \<Rightarrow> bool" where
  "src_ok ex = (utf8_valid (ex_src ex) \<and> length (ex_src ex) < 4294967296 \<and> ex_li ex = line_index_new (ex_src ex))"

lemma keeps_src_ok: "keeps ex ex' \<Longrightarrow> src_ok ex \<Longrightarrow> src_ok ex'"
  by (simp add: keeps_def src_ok_def)

lemma line_end_small: "src_ok ex \<Longrightarrow> line_end (ex_li ex) l < 4294967296"
  using line_clamp [of "ex_src ex" l] by (auto simp: src_ok_def)

lemma content_column_le:
  assumes "src_ok ex"
  shows "line_start (ex_li ex) l + cur_pos (skip_whitespace (px_cur (prefix_at ex l ch))) \<le> line_end (ex_li ex) l"
proof -
  let ?line = "line_bytes (ex_src ex) (ex_li ex) l"
  have "prefix_ok (line_cursor l ?line) (prefix_at ex l ch)" unfolding prefix_at_def by (rule prefix_cursor_ok)
  then have ck: "cursor_ok (px_cur (prefix_at ex l ch))" "cur_line (px_cur (prefix_at ex l ch)) = ?line"
    by (auto simp: prefix_ok_def moved_def line_cursor_def cursor_new_def)
  then have "cur_pos (skip_whitespace (px_cur (prefix_at ex l ch))) \<le> length ?line"
    using skip_whitespace_moved [OF ck(1)] by (auto simp: moved_def cursor_ok_def)
  moreover have "length ?line = line_end (ex_li ex) l - line_start (ex_li ex) l" "line_start (ex_li ex) l \<le> line_end (ex_li ex) l"
    using assms length_line_bytes [of "ex_src ex" l] line_clamp [of "ex_src ex" l] by (simp_all add: src_ok_def)
  ultimately show ?thesis by linarith
qed

lemma set_bytes_keeps:
  assumes "s < 4294967296" "e < 4294967296"
  shows "keeps ex (upd_block idx (set_bytes (ex_li ex) s e) ex)"
  using assms by (intro keeps_upd_block) (simp_all add: set_bytes_def same_tree_def block_units_def unat_to_u32)

subsection \<open>Appending\<close>

definition appends :: "(run_rec \<Rightarrow> bool) \<Rightarrow> extractor \<Rightarrow> extractor \<Rightarrow> bool" where
  "appends P ex ex' =
     (keeps ex ex' \<and> (\<exists>rs. ex_runs ex' = ex_runs ex @ rs \<and> list_all P rs) \<and> (\<exists>cs. ex_content ex' = ex_content ex @ cs) \<and>
      (\<exists>ds. ex_deviations ex' = ex_deviations ex @ ds) \<and> (\<exists>fs. ex_definitions ex' = ex_definitions ex @ fs))"

lemma appends_refl [simp, intro]: "appends P ex ex" by (simp add: appends_def)

lemma appends_trans [trans]: "appends P a b \<Longrightarrow> appends P b c \<Longrightarrow> appends P a c"
  unfolding appends_def by (elim conjE exE) (auto intro: keeps_trans)

lemma appends_mono: "appends P a b \<Longrightarrow> (\<And>r. P r \<Longrightarrow> Q r) \<Longrightarrow> appends Q a b"
  unfolding appends_def by (elim conjE exE) (auto simp: list_all_iff)

lemma appends_keeps: "appends P ex ex' \<Longrightarrow> keeps ex ex'" by (simp add: appends_def)

lemma appends_if: "(c \<Longrightarrow> appends P ex a) \<Longrightarrow> (\<not> c \<Longrightarrow> appends P ex b) \<Longrightarrow> appends P ex (if c then a else b)" by simp

lemma appends_dev [intro]: "appends P ex (dev rule ex)"
  by (simp add: appends_def) (simp add: dev_def)

lemma appends_push_content [intro]: "appends P ex (push_content line0 cs ce virt ps ex)"
  by (simp add: appends_def keeps_push_content) (simp add: push_content_def Let_def)

lemma appends_upd_block: "keeps ex (upd_block idx f ex) \<Longrightarrow> appends P ex (upd_block idx f ex)"
  by (simp add: appends_def upd_block_def)

lemma appends_extends: "extends P ex ex' \<Longrightarrow> appends P ex ex'"
  unfolding appends_def using extends_keeps by (auto simp: extends_def)

lemma appends_fold: "(\<And>x ex. appends P ex (f x ex)) \<Longrightarrow> appends P ex (fold f xs ex)"
  by (induction xs arbitrary: ex) (auto intro: appends_trans)

lemma appends_runs: "appends P ex ex' \<Longrightarrow> take (length (ex_runs ex)) (ex_runs ex') = ex_runs ex \<and> length (ex_runs ex) \<le> length (ex_runs ex')"
  by (auto simp: appends_def)

lemma appends_walk_inlines: "appends (\<lambda>r. ru_block r = blk) ex (walk_inlines dec node blk cell sh ex)"
proof -
  note f = walk_inlines_frame [OF refl, of dec node blk cell sh ex]
  let ?ex = "walk_inlines dec node blk cell sh ex"
  have "keeps ex ?ex" using f by (simp add: keeps_def units_ok_def)
  moreover have "ex_runs ?ex = ex_runs ex @ drop (length (ex_runs ex)) (ex_runs ?ex)"
    using f by (metis append_take_drop_id)
  ultimately show ?thesis using f unfolding appends_def by auto
qed

text \<open>
  The interface of a leaf's arms: on a checked source an arm appends to the extraction, its runs satisfying
  \<open>P\<close>. Two arms in sequence are one.
\<close>

locale leaf_arm =
  fixes P :: "run_rec \<Rightarrow> bool" and arm :: "extractor \<Rightarrow> extractor"
  assumes arm_appends: "src_ok ex \<Longrightarrow> appends P ex (arm ex)"
begin

lemma arm_src_ok: "src_ok ex \<Longrightarrow> src_ok (arm ex)"
  using keeps_src_ok appends_keeps arm_appends by blast

lemma arm_earlier_runs: "src_ok ex \<Longrightarrow> take (length (ex_runs ex)) (ex_runs (arm ex)) = ex_runs ex"
  using arm_appends appends_runs by blast

end

locale leaf_arms = a1: leaf_arm P arm1 + a2: leaf_arm P arm2
  for P :: "run_rec \<Rightarrow> bool" and arm1 arm2 :: "extractor \<Rightarrow> extractor"

sublocale leaf_arms \<subseteq> both: leaf_arm P "\<lambda>ex. arm2 (arm1 ex)"
  by unfold_locales (blast intro: appends_trans a1.arm_appends a2.arm_appends a1.arm_src_ok)

subsection \<open>The arms of a leaf\<close>

lemma push_code_lines:
  "appends P ex (fst (fold (push_code_line remove ch) ls (ex, derived)))"
proof (induction ls arbitrary: ex derived)
  case (Cons l ls)
  obtain ex1 d1 where p: "push_code_line remove ch l (ex, derived) = (ex1, d1)" by force
  then have "appends P ex ex1" by (auto simp: push_code_line_def Let_def)
  then show ?case using appends_trans [OF _ Cons.IH] p by simp
qed simp

interpretation code_block: leaf_arm "\<lambda>r. False" "code_block_lines idx c l0 l1 ch" for idx c l0 l1 ch
proof unfold_locales
  fix ex :: extractor
  define info where "info = info_range ex (cb_fence_char c) l0 ch"
  define ex0 where "ex0 = (if cb_fenced c then upd_block idx (\<lambda>b. b\<lparr>bl_attr1 := to_u32 (fst info), bl_attr2 := to_u32 (snd info)\<rparr>) ex else ex)"
  have x0: "appends (\<lambda>r. False) ex ex0" unfolding ex0_def
    by (intro appends_if appends_upd_block keeps_upd_block) (simp_all add: same_tree_def block_units_def)
  obtain ex1 derived where f: "fold (push_code_line (if cb_fenced c then cb_fence_offset c else 4) ch)
      [fst (code_line_range c (line_count (ex_li ex)) l0 l1)..<snd (code_line_range c (line_count (ex_li ex)) l0 l1) + 1] (ex0, []) = (ex1, derived)"
    by force
  have "appends (\<lambda>r. False) ex ex1"
    using appends_trans [OF x0 push_code_lines] f by (metis fst_conv)
  then show "appends (\<lambda>r. False) ex (code_block_lines idx c l0 l1 ch ex)"
    unfolding code_block_lines_def Let_def info_def [symmetric] ex0_def [symmetric] f prod.case
    by (intro appends_if appends_trans [OF _ appends_dev])
qed

lemma html_lines_appends: "appends P ex (html_lines ch l0 bs be ls ex)"
  by (induction ls arbitrary: ex) (auto simp: Let_def intro: appends_trans [OF appends_push_content])

interpretation html_block: leaf_arm "\<lambda>r. False" "html_block_leaf idx l0 l1 ch content_start" for idx l0 l1 ch content_start
proof unfold_locales
  fix ex assume ok: "src_ok ex"
  define be where "be = blk_e (ex_blocks ex ! idx)"
  define ex1 where "ex1 = html_lines ch l0 (blk_s (ex_blocks ex ! idx)) be [l0..<l1 + 1] ex"
  have x: "appends (\<lambda>r. False) ex ex1" unfolding ex1_def by (rule html_lines_appends)
  have "line_end (ex_li ex1) l < 4294967296" for l by (rule line_end_small [OF keeps_src_ok [OF appends_keeps [OF x] ok]])
  then have "keeps ex1 (upd_block idx (\<lambda>b. b\<lparr>bl_end_byte := to_u32 (line_end (ex_li ex1) l), bl_end_utf16 := u16 (ex_li ex1) (line_end (ex_li ex1) l)\<rparr>) ex1)" for l
    by (intro keeps_upd_block) (simp_all add: same_tree_def block_units_def unat_to_u32)
  then show "appends (\<lambda>r. False) ex (html_block_leaf idx l0 l1 ch content_start ex)"
    unfolding html_block_leaf_def Let_def be_def [symmetric] ex1_def [symmetric]
    by (intro appends_if x appends_trans [OF x appends_upd_block])
qed

interpretation thematic_break: leaf_arm "\<lambda>r. False" "thematic_break_leaf idx l0 ch" for idx l0 ch
proof unfold_locales
  fix ex assume ok: "src_ok ex"
  have "trimmed_end (ex_src ex) (ex_li ex) l0 cs < 4294967296" for cs
    unfolding trimmed_end_def using line_end_small [OF ok, of l0] scan_bwd_le [of is_blank "ex_src ex" cs "line_end (ex_li ex) l0"] by linarith
  then show "appends (\<lambda>r. False) ex (thematic_break_leaf idx l0 ch ex)"
    unfolding thematic_break_leaf_def Let_def
    using le_less_trans [OF content_column_le [OF ok] line_end_small [OF ok]] by (intro appends_upd_block set_bytes_keeps)
qed

lemma cell_range_small: "src_ok ex \<Longrightarrow> fst (cell_range ex node delta l0) < 4294967296 \<and> snd (cell_range ex node delta l0) < 4294967296"
  using line_end_small [of ex l0] by (auto simp: cell_range_def Let_def min_def)

interpretation table_cell: leaf_arm "\<lambda>r. ru_block r = to_u32 (lf_idx lf)" "table_cell_leaf dec lf l0 ch" for dec lf l0 ch
proof unfold_locales
  fix ex assume ok: "src_ok ex"
  show "appends (\<lambda>r. ru_block r = to_u32 (lf_idx lf)) ex (table_cell_leaf dec lf l0 ch ex)"
    unfolding table_cell_leaf_def Let_def
    by (rule appends_trans [OF appends_trans [OF appends_upd_block [OF set_bytes_keeps] appends_push_content] appends_walk_inlines])
       (use cell_range_small [OF ok] in auto)
qed

interpretation atx_heading: leaf_arm "\<lambda>r. ru_block r = to_u32 (lf_idx lf)" "atx_heading_leaf dec lf l0 ch" for dec lf l0 ch
proof unfold_locales
  fix ex assume ok: "src_ok ex"
  obtain s e ex1 where c: "children_span (lf_node lf) None None ex = ((s, e), ex1)" by (metis surj_pair)
  note x1 = appends_extends [OF children_step.step_eq_extends [OF c]]
  show "appends (\<lambda>r. ru_block r = to_u32 (lf_idx lf)) ex (atx_heading_leaf dec lf l0 ch ex)"
    unfolding atx_heading_leaf_def c prod.case Let_def
    by (intro appends_trans [OF appends_trans [OF appends_trans [OF x1 appends_if] appends_push_content] appends_walk_inlines] appends_dev appends_refl)
qed

lemma record_buffer_definitions_appends: "appends P ex (snd (record_buffer_definitions ls buffer defs exact checkbox ex))"
proof -
  have "appends P ex (ex\<lparr>ex_definitions := ex_definitions ex @ fs\<rparr>)" for fs
    by (simp add: appends_def) (simp add: keeps_def units_ok_def)
  then show ?thesis
    unfolding record_buffer_definitions_def Let_def snd_conv by (intro appends_if appends_trans [OF _ appends_dev])
qed

lemma strip_definitions_appends: "strip_definitions l0 l1 ch allow ex = (x, ex') \<Longrightarrow> appends P ex ex'"
  using record_buffer_definitions_appends [of P ex]
  by (auto simp: strip_definitions_def Let_def split: prod.splits if_splits dest!: arg_cong [where f = snd])

interpretation para_arm: leaf_arm "\<lambda>r. ru_block r = to_u32 (lf_idx lf)" "paragraph_leaf dec lf l0 l1 ch first_run" for dec lf l0 l1 ch first_run
proof unfold_locales
  fix ex assume ok: "src_ok ex"
  let ?P = "\<lambda>r. ru_block r = to_u32 (lf_idx lf)"
  define strip where "strip = strip_definitions l0 (if bl_kind (ex_blocks ex ! lf_idx lf) = BK_HEADING then max (l1 - 1) l0 else l1) ch
      ((\<not> split_by_table ex (lf_idx lf) l1 \<or> lf_setext_definitions lf) \<and> \<not> px_after_checkbox (prefix_at ex l0 ch)) ex"
  obtain sh records ex1 where s: "strip = ((sh, records), ex1)" by (metis surj_pair)
  have x2: "appends ?P ex (fold push_record records ex1)"
    by (rule appends_trans [OF strip_definitions_appends [OF s [unfolded strip_def]] appends_fold]) (simp add: push_record_def appends_push_content)
  have c: "appends ?P ex2 (check_stripped_definitions fr fd ex2)" "appends ?P ex2 (check_split_paragraph_end node e ex2)" for fr fd node e ex2
    by (auto simp: check_stripped_definitions_def check_split_paragraph_end_def Let_def)
  show "appends ?P ex (paragraph_leaf dec lf l0 l1 ch first_run ex)"
    unfolding paragraph_leaf_def Let_def strip_def [symmetric] s prod.case
    by (cases "lf_split_end lf")
       (auto intro!: appends_trans [OF _ c(1)] appends_trans [OF _ c(2)] appends_trans [OF x2 appends_walk_inlines])
qed

text \<open>What each kind of leaf appends: only a kind with inlines appends runs, its own.\<close>

definition leaf_runs :: "leaf \<Rightarrow> run_rec \<Rightarrow> bool" where
  "leaf_runs lf r = (has_inlines (node_val (lf_node lf)) \<and> ru_block r = to_u32 (lf_idx lf))"

interpretation content_arm: leaf_arm "leaf_runs lf" "leaf_content dec lf ch content_start first_run" for dec lf ch content_start first_run
proof unfold_locales
  fix ex assume ok: "src_ok ex"
  note quiet = appends_mono [OF code_block.arm_appends [OF ok]] appends_mono [OF html_block.arm_appends [OF ok]]
    appends_mono [OF thematic_break.arm_appends [OF ok]]
  note inline = table_cell.arm_appends [OF ok, THEN appends_mono] atx_heading.arm_appends [OF ok, THEN appends_mono]
    para_arm.arm_appends [OF ok, THEN appends_mono] appends_walk_inlines [THEN appends_mono]
  show "appends (leaf_runs lf) ex (leaf_content dec lf ch content_start first_run ex)"
    by (cases "node_val (lf_node lf)")
       (auto simp: leaf_content_def Let_def leaf_runs_def has_inlines_def intro: quiet inline)
qed

subsection \<open>One leaf's pass\<close>

lemma settle_inlines_appends:
  assumes "appends P ex ex2" "idx < length (ex_blocks ex)"
  shows "appends P ex (settle_inlines idx (length (ex_runs ex)) (length (ex_deviations ex)) content_from ex2)"
proof -
  define ex3 where "ex3 = report_runs (length (ex_runs ex)) content_from ex2"
  define own where "own = drop (length (ex_deviations ex)) (ex_deviations ex3)"
  define ex4 where "ex4 = ex3\<lparr>ex_deviations := take (length (ex_deviations ex)) (ex_deviations ex3) @ map (scope_deviation idx) own\<rparr>"
  have x3: "appends P ex ex3"
    unfolding ex3_def report_runs_def by (intro appends_if assms(1) appends_trans [OF assms(1) appends_dev])
  have x4: "appends P ex ex4"
    using x3 unfolding appends_def ex4_def keeps_def units_ok_def by (elim conjE exE) simp
  have k: "keeps ex4 (ex4\<lparr>ex_blocks := (ex_blocks ex4)[idx := (ex_blocks ex4 ! idx)\<lparr>bl_flags := f\<rparr>]\<rparr>)" for f
    by (intro keeps_blocks tree_update list_all_update) (simp_all add: same_tree_def block_units_def)
  have "keeps ex4 (drop_runs idx (length (ex_runs ex)) ex4)"
    using k [of "bl_flags (ex_blocks ex4 ! idx) OR SOURCE_ONLY"] by (simp add: drop_runs_def keeps_def units_ok_def)
  then have "appends P ex (drop_runs idx (length (ex_runs ex)) ex4)"
    using x4 keeps_trans [of ex ex4] unfolding appends_def by (elim conjE exE) (simp add: drop_runs_def)
  then show ?thesis
    using x4 unfolding settle_inlines_def Let_def ex3_def [symmetric] own_def [symmetric] ex4_def [symmetric] by simp
qed

lemma paintable_none: "length runs \<le> n \<Longrightarrow> paintable runs n"
  by (auto simp: paintable_def)

text \<open>An edit of the blocks' ranges leaves every record as it was; it may report.\<close>

definition ranges_only :: "extractor \<Rightarrow> extractor \<Rightarrow> bool" where
  "ranges_only ex ex' =
     (ex_runs ex' = ex_runs ex \<and> ex_content ex' = ex_content ex \<and> ex_definitions ex' = ex_definitions ex \<and>
      ex_strings ex' = ex_strings ex \<and> (\<exists>ds. ex_deviations ex' = ex_deviations ex @ ds \<and> list_all (\<lambda>d. dv_leaf d = None) ds))"

lemma ranges_refl [simp, intro]: "ranges_only ex ex" by (simp add: ranges_only_def)

lemma ranges_trans: "ranges_only a b \<Longrightarrow> ranges_only b c \<Longrightarrow> ranges_only a c"
  unfolding ranges_only_def by (elim conjE exE) (simp add: list_all_append)

lemma ranges_if: "ranges_only ex a \<Longrightarrow> ranges_only ex b \<Longrightarrow> ranges_only ex (if c then a else b)" by simp

lemma ranges_dev [intro]: "ranges_only ex (dev rule ex)" by (simp add: ranges_only_def dev_def)

lemma ranges_upd_block [intro]: "ranges_only ex (upd_block idx f ex)" by (simp add: ranges_only_def upd_block_def)

lemma ranges_blocks [intro]: "ranges_only ex (ex\<lparr>ex_blocks := bs\<rparr>)" by (simp add: ranges_only_def)

lemma fit_to_runs_ranges: "ranges_only ex (fit_block_to_runs idx first_run ex)"
  unfolding fit_block_to_runs_def Let_def by (intro ranges_if ranges_refl ranges_trans [OF ranges_if ranges_upd_block] ranges_dev)

lemma trim_ranges: "ranges_only ex (trim_trailing_blank_lines idx ch ex)"
  unfolding trim_trailing_blank_lines_def Let_def by (intro ranges_if ranges_refl ranges_upd_block)

lemma fit_to_content_ranges: "ranges_only ex (fit_block_to_content idx ex)"
  unfolding fit_block_to_content_def Let_def
  by (intro ranges_if ranges_refl ranges_upd_block ranges_trans [OF ranges_if ranges_blocks] ranges_trans [OF ranges_upd_block ranges_dev])

text \<open>
  The pass of one leaf: it appends, only a leaf with inlines appends runs and those name its block, and the
  runs it leaves can be painted.
\<close>

lemma leaf_pass_ok:
  assumes ok: "src_ok ex" "walk_ok ex" and idx: "lf_idx lf < length (ex_blocks ex)"
  shows "appends (leaf_runs lf) ex (leaf_pass dec lf ch ex) \<and>
         (ex_collect ex \<longrightarrow> paintable (ex_runs (leaf_pass dec lf ch ex)) (length (ex_runs ex)))"
proof -
  let ?i = "lf_idx lf" and ?n = "length (ex_runs ex)"
  define ex1 where "ex1 = upd_block ?i (\<lambda>b. b\<lparr>bl_content_offset := to_u32 (length (ex_content ex))\<rparr>) ex"
  define ex2 where "ex2 = leaf_content dec lf ch (length (ex_content ex)) ?n ex1"
  define ex3 where "ex3 = (if has_inlines (node_val (lf_node lf)) then settle_inlines ?i ?n (length (ex_deviations ex)) (length (ex_content ex)) ex2 else ex2)"
  define ex4 where "ex4 = upd_block ?i (\<lambda>b. b\<lparr>bl_content_count := to_u32 (length (ex_content ex3)) - to_u32 (length (ex_content ex))\<rparr>) ex3"
  define ex5 where "ex5 = fit_block_to_content ?i ex4"
  define ex6 where "ex6 = fit_block_to_runs ?i ?n (trim_trailing_blank_lines ?i ch ex5)"
  have keeps1: "keeps ex ex1" unfolding ex1_def by (rule keeps_upd_block) (simp_all add: same_tree_def block_units_def)
  then have x1: "appends (leaf_runs lf) ex ex1" unfolding ex1_def by (rule appends_upd_block)
  have x2: "appends (leaf_runs lf) ex ex2"
    unfolding ex2_def by (rule appends_trans [OF x1 content_arm.arm_appends [OF keeps_src_ok [OF keeps1 ok(1)]]])
  have x3: "appends (leaf_runs lf) ex ex3" unfolding ex3_def using x2 settle_inlines_appends [OF x2 idx] by simp
  have "keeps ex3 ex4" unfolding ex4_def by (rule keeps_upd_block) (simp_all add: same_tree_def block_units_def)
  then have x4: "appends (leaf_runs lf) ex ex4" unfolding ex4_def by (rule appends_trans [OF x3 appends_upd_block])
  have k4: "keeps ex ex4" by (rule appends_keeps [OF x4])
  have "keeps ex4 ex5" unfolding ex5_def
    using fit_block_to_content_keeps keeps_parents [OF k4] keeps_length [OF k4] ok(2) idx by (auto simp: walk_ok_def)
  then have "keeps ex4 ex6" unfolding ex6_def by (blast intro: keeps_trans trim_keeps fit_block_to_runs_keeps)
  moreover have same: "ranges_only ex4 ex6"
    unfolding ex6_def ex5_def by (intro ranges_trans [OF ranges_trans [OF fit_to_content_ranges trim_ranges] fit_to_runs_ranges])
  ultimately have "appends (leaf_runs lf) ex4 ex6" by (auto simp: appends_def ranges_only_def)
  then have x6: "appends (leaf_runs lf) ex ex6" by (rule appends_trans [OF x4])
  have p: "ex_collect ex \<longrightarrow> paintable (ex_runs ex3) ?n"
  proof (cases "has_inlines (node_val (lf_node lf))")
    case True
    have c: "ex_collect ex2 = ex_collect ex" "?i < length (ex_blocks ex2)" "length (ex_deviations ex) \<le> length (ex_deviations ex2)"
      "take ?n (ex_runs ex2) = ex_runs ex"
      using x2 appends_runs [OF x2] idx keeps_length [OF appends_keeps [OF x2]] by (auto simp: appends_def keeps_def)
    show ?thesis
      using settle_inlines_cases [OF _ c(2,3), of ex3 ?n "length (ex_content ex)"] c True by (auto simp: ex3_def paintable_def)
  next
    case False
    then have "ex_runs ex3 = ex_runs ex" using x3 by (auto simp: appends_def leaf_runs_def list_all_iff)
    then show ?thesis by (simp add: paintable_none)
  qed
  show ?thesis
  proof (cases "lc_line (sp_start (node_pos (lf_node lf))) = 0")
    case True
    then have "leaf_pass dec lf ch ex = ex1" by (simp add: leaf_pass_def ex1_def Let_def)
    moreover have "ex_runs ex1 = ex_runs ex" by (simp add: ex1_def)
    ultimately show ?thesis using x1 by (simp add: paintable_none)
  next
    case False
    then have "leaf_pass dec lf ch ex = ex6"
      unfolding leaf_pass_def Let_def ex1_def [symmetric] ex2_def [symmetric] ex3_def [symmetric] ex4_def [symmetric] ex5_def [symmetric] ex6_def [symmetric]
      by simp
    then show ?thesis using x6 p same by (simp add: ex4_def ranges_only_def)
  qed
qed

subsection \<open>All leaves\<close>

text \<open>
  Runs as a host may paint them: a run's content lies in it, its parent is none or an earlier run of the same
  block that contains it, and the children of one run follow each other.
\<close>

definition run_in_place :: "run_rec list \<Rightarrow> nat \<Rightarrow> bool" where
  "run_in_place runs i =
     (let r = runs ! i; p = runs ! run_p r
      in run_s r \<le> run_cs r \<and> run_cs r \<le> run_ce r \<and> run_ce r \<le> run_e r \<and>
         (ru_parent r = U32_MAX \<or>
          run_p r < i \<and> ru_block p = ru_block r \<and> run_s p \<le> run_s r \<and> run_e r \<le> run_e p \<and>
          (\<forall>j < i. ru_parent (runs ! j) = ru_parent r \<longrightarrow> run_e (runs ! j) \<le> run_s r)))"

definition runs_nest :: "run_rec list \<Rightarrow> bool" where
  "runs_nest runs = (\<forall>i < length runs. run_in_place runs i)"

lemma run_in_place_append: "i < length runs \<Longrightarrow> run_in_place runs i \<Longrightarrow> run_in_place (runs @ rs) i"
  by (auto simp: run_in_place_def Let_def nth_append)

lemma paintable_in_place:
  assumes nest: "runs_nest runs" and p: "paintable (runs @ rs) (length runs)" and b: "list_all (\<lambda>r. ru_block r = blk) rs"
    and i: "length runs \<le> i" "i < length (runs @ rs)"
  shows "run_in_place (runs @ rs) i"
proof -
  let ?all = "runs @ rs"
  have c: "run_nests ?all (length runs) i"
      "\<forall>j. length runs \<le> j \<and> j < i \<and> ru_parent (?all ! j) = ru_parent (?all ! i) \<longrightarrow> run_e (?all ! j) \<le> run_s (?all ! i)"
    using p i unfolding paintable_def by blast+
  show ?thesis
  proof (cases "ru_parent (?all ! i) = U32_MAX")
    case True
    then show ?thesis using c(1) by (simp add: run_in_place_def run_nests_def)
  next
    case False
    then have pr: "length runs \<le> run_p (?all ! i)" "run_p (?all ! i) < i" using c(1) by (auto simp: run_nests_def)
    have "ru_block (?all ! k) = blk" if "length runs \<le> k" "k < length ?all" for k
      using b that by (auto simp: nth_append list_all_length)
    then have "ru_block (?all ! run_p (?all ! i)) = ru_block (?all ! i)" using pr i by simp
    moreover have "ru_parent (?all ! j) \<noteq> ru_parent (?all ! i)" if "j < length runs" for j
    proof
      assume same: "ru_parent (?all ! j) = ru_parent (?all ! i)"
      have "run_in_place runs j" using nest that by (simp add: runs_nest_def)
      then have "ru_parent (runs ! j) = U32_MAX \<or> run_p (runs ! j) < j" by (auto simp: run_in_place_def Let_def)
      then show False using same that False pr(1) by (auto simp: nth_append)
    qed
    ultimately have "run_e (?all ! j) \<le> run_s (?all ! i)" if "j < i" "ru_parent (?all ! j) = ru_parent (?all ! i)" for j
      using c(2) that by (metis not_le)
    then show ?thesis using c(1) False pr \<open>ru_block (?all ! run_p (?all ! i)) = ru_block (?all ! i)\<close>
      unfolding run_in_place_def Let_def run_nests_def by blast
  qed
qed

lemma runs_nest_append:
  "runs_nest runs \<Longrightarrow> paintable (runs @ rs) (length runs) \<Longrightarrow> list_all (\<lambda>r. ru_block r = blk) rs \<Longrightarrow> runs_nest (runs @ rs)"
proof -
  assume a: "runs_nest runs" "paintable (runs @ rs) (length runs)" "list_all (\<lambda>r. ru_block r = blk) rs"
  have "run_in_place (runs @ rs) i" if "i < length (runs @ rs)" for i
  proof (cases "i < length runs")
    case True
    then show ?thesis using run_in_place_append a(1) by (simp add: runs_nest_def)
  next
    case False
    then show ?thesis using paintable_in_place [OF a _ that] by simp
  qed
  then show ?thesis by (simp add: runs_nest_def)
qed

text \<open>
  The runs leaf by leaf: after those before it, a leaf's runs name its block and can be painted, so also its
  top-level runs follow each other. Several leaves may share a block, the inline children of a block that is not a leaf.
\<close>

primrec leafwise :: "run_rec list \<Rightarrow> leaf list \<Rightarrow> run_rec list list \<Rightarrow> bool" where
  "leafwise before [] segs = (segs = [])"
| "leafwise before (lf # leaves) segs =
     (case segs of [] \<Rightarrow> False
      | rs # segs \<Rightarrow> list_all (\<lambda>r. ru_block r = to_u32 (lf_idx lf)) rs \<and> paintable (before @ rs) (length before) \<and>
          leafwise (before @ rs) leaves segs)"

lemma leafwise_nest: "leafwise before leaves segs \<Longrightarrow> runs_nest before \<Longrightarrow> runs_nest (before @ concat segs)"
proof (induction leaves arbitrary: before segs)
  case (Cons lf leaves)
  obtain rs segs' where s: "segs = rs # segs'" using Cons.prems(1) by (auto split: list.splits)
  have "runs_nest (before @ rs)" using Cons.prems s by (auto intro: runs_nest_append)
  then show ?case using Cons.IH [of "before @ rs" segs'] Cons.prems(1) s by simp
qed simp

lemma leaf_passes_ok:
  assumes "src_ok ex" "walk_ok ex" "\<forall>lf \<in> set leaves. lf_idx lf < length (ex_blocks ex)"
  shows "appends (\<lambda>r. True) ex (leaf_passes dec leaves ex) \<and>
         (ex_collect ex \<longrightarrow>
            (\<exists>segs. ex_runs (leaf_passes dec leaves ex) = ex_runs ex @ concat segs \<and> leafwise (ex_runs ex) leaves segs))"
  using assms
proof (induction leaves arbitrary: ex)
  case Nil
  then show ?case by (simp add: leaf_passes_def)
next
  case (Cons lf leaves)
  define ex1 where "ex1 = leaf_step dec lf ex"
  have idx: "lf_idx lf < length (ex_blocks ex)" using Cons.prems(3) by simp
  note one = leaf_pass_ok [OF Cons.prems(1,2) idx, of dec "chain ex (lf_container lf)", folded leaf_step_def, folded ex1_def]
  have k: "keeps ex ex1" using one appends_keeps by blast
  have rest: "\<forall>lf \<in> set leaves. lf_idx lf < length (ex_blocks ex1)" using Cons.prems(3) keeps_length [OF k] by simp
  note ih = Cons.IH [OF keeps_src_ok [OF k Cons.prems(1)] keeps_walk_ok [OF k Cons.prems(2)] rest]
  have all: "leaf_passes dec (lf # leaves) ex = leaf_passes dec leaves ex1" by (simp add: leaf_passes_def ex1_def)
  have x: "appends (\<lambda>r. True) ex ex1" by (rule appends_mono [OF conjunct1 [OF one]]) simp
  have "\<exists>segs. ex_runs (leaf_passes dec leaves ex1) = ex_runs ex @ concat segs \<and> leafwise (ex_runs ex) (lf # leaves) segs"
    if c: "ex_collect ex"
  proof -
    have "ex_collect ex1" using k c by (simp add: keeps_def)
    then obtain segs where segs: "ex_runs (leaf_passes dec leaves ex1) = ex_runs ex1 @ concat segs" "leafwise (ex_runs ex1) leaves segs"
      using ih by blast
    obtain rs where rs: "ex_runs ex1 = ex_runs ex @ rs" "list_all (leaf_runs lf) rs" using one by (auto simp: appends_def)
    have "list_all (\<lambda>r. ru_block r = to_u32 (lf_idx lf)) rs" using rs(2) by (auto simp: list_all_iff leaf_runs_def)
    then show ?thesis using segs one c rs(1) by (intro exI [of _ "rs # segs"]) simp
  qed
  then show ?case unfolding all using appends_trans [OF x conjunct1 [OF ih]] by simp
qed

subsection \<open>A heading after a repaired leaf\<close>

text \<open>
  The pass of an ATX heading reads its children's positions before the inline walk resets \<^verbatim>\<open>run_delta\<close>, so the offset
  a repair of the leaf before it left behind moves them. A heading whose child lies exactly on its
  content is reported as \<^verbatim>\<open>heading-content\<close> when the leaf before it was repaired by two bytes.
\<close>

definition heading_leaf :: leaf where
  "heading_leaf =
     (let p = (\<lambda>a b. \<lparr>sp_start = \<lparr>lc_line = 1, lc_column = a\<rparr>, sp_end = \<lparr>lc_line = 1, lc_column = b\<rparr>\<rparr>)
      in \<lparr>lf_node = Node (Heading \<lparr>hd_level = 1, hd_setext = False\<rparr>) (p 1 3) [Node OtherInline (p 3 3) []], lf_idx = 0,
          lf_container = None, lf_setext_definitions = False, lf_split_end = None, lf_parent = None\<rparr>)"

definition heading_state :: "int \<Rightarrow> extractor" where
  "heading_state delta =
     (extractor_new ''# a\<newline>bcd'' True)\<lparr>ex_blocks := [zero_block\<lparr>bl_kind := BK_HEADING, bl_parent := U32_MAX, bl_end_byte := 3, bl_end_utf16 := 3\<rparr>],
        ex_run_delta := delta\<rparr>"

lemma heading_tables:
  "line_index_new ''# a\<newline>bcd'' = \<lparr>line_starts = [0, 4], line_ends = [3, 7], utf16 = [0, 1, 2, 3, 4, 5, 6, 7]\<rparr>"
  "paragraph_line ''# a\<newline>bcd'' \<lparr>line_starts = [0, 4], line_ends = [3, 7], utf16 = [0, 1, 2, 3, 4, 5, 6, 7]\<rparr> 0 [] =
   \<lparr>ls_line0 = 0, ls_start = 0, ls_end = 3, ls_virt = 0, ls_prefix_start = 0, ls_held = 0\<rparr>"
  "snap ''# a\<newline>bcd'' 2 3 = (2, 3)" "snap ''# a\<newline>bcd'' 4 5 = (4, 5)"
  by code_simp+

lemma heading_scans:
  "scan_fwd (\<lambda>b. b = CHR ''#'') ''# a\<newline>bcd'' 0 3 = 1" "scan_fwd is_blank ''# a\<newline>bcd'' 1 3 = 2"
  "scan_bwd (\<lambda>b. b = CHR ''#'') ''# a\<newline>bcd'' 2 3 = 3"
  by code_simp+

lemma heading_range:
  "corrected_range \<lparr>sp_start = \<lparr>lc_line = 1, lc_column = 3\<rparr>, sp_end = \<lparr>lc_line = 1, lc_column = 3\<rparr>\<rparr> None None (heading_state d) =
     (Some (snap ''# a\<newline>bcd'' (nat (2 + d)) (nat (3 + d))), heading_state d)"
  by (simp add: heading_state_def corrected_range_def sourcepos_range_def extractor_new_def heading_tables(1) shift_columns_def
      saturating_add_signed_def pipe_shift_def line_start_def Let_def)

lemma heading_span:
  "children_span (lf_node heading_leaf) None None (heading_state 0) = ((2, 3), heading_state 0)"
  "children_span (lf_node heading_leaf) None None (heading_state 2) = ((4, 5), heading_state 2)"
  using heading_tables(3,4) by (simp_all add: children_span_def heading_leaf_def Let_def heading_range [unfolded One_nat_def])

lemma heading_atx: "para_line (heading_state d) 0 [] = \<lparr>ls_line0 = 0, ls_start = 0, ls_end = 3, ls_virt = 0, ls_prefix_start = 0, ls_held = 0\<rparr>"
    "atx_content (heading_state d) 0 \<lparr>ls_line0 = 0, ls_start = 0, ls_end = 3, ls_virt = 0, ls_prefix_start = 0, ls_held = 0\<rparr> = (2, 3)"
  using heading_tables(2) heading_scans
  by (simp_all add: para_line_def heading_state_def extractor_new_def heading_tables(1) atx_content_def Let_def line_end_def)

theorem heading_check_reads_stale_delta:
  "fst (children_span (lf_node heading_leaf) None None (heading_state 0)) =
     atx_content (heading_state 0) 0 (para_line (heading_state 0) 0 []) \<and>
   ''heading-content'' \<in> dv_rule ` set (ex_deviations (atx_heading_leaf dec heading_leaf 0 [] (heading_state 2)))"
proof -
  let ?ex = "push_content 0 2 3 0 0 (dev ''heading-content'' (heading_state 2))"
  have "atx_heading_leaf dec heading_leaf 0 [] (heading_state 2) = walk_inlines dec (lf_node heading_leaf) (to_u32 (lf_idx heading_leaf)) None None ?ex"
    by (simp add: atx_heading_leaf_def heading_span heading_atx Let_def)
  then obtain ds where "ex_deviations (atx_heading_leaf dec heading_leaf 0 [] (heading_state 2)) = ex_deviations ?ex @ ds"
    using appends_walk_inlines [of "to_u32 (lf_idx heading_leaf)" ?ex dec "lf_node heading_leaf" None None] by (auto simp: appends_def)
  moreover have "\<lparr>dv_rule = ''heading-content'', dv_leaf = None\<rparr> \<in> set (ex_deviations ?ex)"
    by (simp add: push_content_def Let_def dev_def heading_state_def extractor_new_def)
  ultimately show ?thesis by (force simp: heading_span heading_atx)
qed

end
