(* ===== verification/Flark_Whole.thy ===== *)
theory Flark_Whole
  imports Flark_Passes
begin

text \<open>
  The extraction from the parse to the model: the first pass leaves the units of every block agreeing and no
  records yet, the passes after the leaves keep the tree and every run, and so the whole extraction does.
\<close>

subsection \<open>The first pass\<close>

text \<open>What each step of the first pass keeps, every walk keeps.\<close>

lemma walk_frames_inv:
  assumes step: "\<And>ex node parent cid idx container is_leaf ex1 inner ex2.
      Inv ex \<Longrightarrow> block_record dec ex node parent cid = ((idx, container, is_leaf), ex1) \<Longrightarrow>
      push_container ex1 container cid idx = (inner, ex2) \<Longrightarrow> Inv ex2"
  shows "Inv ex \<Longrightarrow> Inv (snd (walk_frames dec frames ex leaves))"
proof (induction "frames_weight frames" arbitrary: frames ex leaves rule: less_induct)
  case less
  show ?case
  proof (cases frames)
    case Nil
    then show ?thesis using less.prems by (simp add: walk_frames.simps)
  next
    case (Cons f fs)
    show ?thesis
    proof (cases "fr_siblings f")
      case Nil
      then show ?thesis using less.hyps [of fs ex leaves] less.prems Cons by (simp add: walk_frames.simps walk_weight_empty)
    next
      case sib: (Cons n rest)
      obtain split_end setext node rest' where c: "corrected ex (fr_container f) n rest = ((split_end, setext), node, rest')"
        by (metis prod_cases4 surj_pair)
      obtain idx container is_leaf ex1 where b: "block_record dec ex node (fr_parent f) (fr_container f) = ((idx, container, is_leaf), ex1)"
        by (metis prod_cases4 surj_pair)
      obtain inner ex2 where p: "push_container ex1 container (fr_container f) idx = (inner, ex2)" by force
      have "Inv ex2" by (rule step [OF less.prems b p])
      then have "Inv (snd (walk_frames dec (f\<lparr>fr_siblings := rest'\<rparr> # fs) ex2 ls))"
          "Inv (snd (walk_frames dec (\<lparr>fr_siblings = node_children node, fr_parent = to_u32 idx, fr_container = inner,
            fr_parent_node = q\<rparr> # f\<lparr>fr_siblings := rest'\<rparr> # fs) ex2 ls))" for ls q
        using less.hyps walk_weight(1,2) [OF sib c] Cons by simp_all
      moreover have "Inv (snd (walk_frames dec (f\<lparr>fr_siblings := rest\<rparr> # fs) ex leaves))"
        using less.hyps walk_weight(3) [OF sib] less.prems Cons by simp
      ultimately show ?thesis using Cons sib c b p by (simp add: walk_frames.simps)
    qed
  qed
qed

lemma kind_record_units:
  assumes "kind_record dec ex cid node fl e rec = (rec', c, ex')" "src_ok ex" "block_units (ex_li ex) rec" "e < 4294967296"
  shows "block_units (ex_li ex) rec'"
proof (cases "node_val node")
  case (TaskItem t)
  then show ?thesis
    using assms by (auto simp: kind_record_def task_item_record_def Let_def block_units_def split: prod.splits option.splits)
next
  case (TableRow h)
  let ?s = "min (line_start (ex_li ex) fl + cur_pos (skip_whitespace (px_cur (prefix_at ex fl (chain ex cid))))) e"
  have "?s < 4294967296" using assms(4) by (simp add: min_less_iff_disj)
  then show ?thesis
    using assms TableRow by (auto simp: kind_record_def table_row_record_def Let_def block_units_def unat_to_u32)
next
  case FootnoteDefinition
  then show ?thesis using assms by (auto simp: kind_record_def Let_def block_units_def split: option.splits)
qed (use assms in \<open>auto simp: kind_record_def block_units_def\<close>)

text \<open>The state of the first pass: a checked source, agreeing units, and no records but blocks and containers.\<close>

definition walking :: "bytes \<Rightarrow> bool \<Rightarrow> extractor \<Rightarrow> bool" where
  "walking src collect ex =
     (src_ok ex \<and> units_ok ex \<and> ex_src ex = src \<and> ex_collect ex = collect \<and> ex_runs ex = [] \<and> ex_content ex = [] \<and> ex_definitions ex = [])"

lemma sourcepos_range_le: "sourcepos_range sp li n = Some (s, e) \<Longrightarrow> s \<le> n \<and> e \<le> n"
  by (auto simp: sourcepos_range_def Let_def split: if_splits)

lemma walking_step:
  assumes w: "walking src collect ex" and b: "block_record dec ex node parent cid = ((idx, container, is_leaf), ex1)"
    and p: "push_container ex1 container cid idx = (inner, ex2)"
  shows "walking src collect ex2"
proof -
  define rng where "rng = (case sourcepos_range (node_pos node) (ex_li ex) (length (ex_src ex)) of None \<Rightarrow> (0, 0) | Some r \<Rightarrow> r)"
  have ok: "src_ok ex" using w by (simp add: walking_def)
  have small: "fst rng < 4294967296" "snd rng < 4294967296"
    using ok sourcepos_range_le [of "node_pos node" "ex_li ex" "length (ex_src ex)"]
    by (auto simp: rng_def src_ok_def split: option.splits)
  obtain rec c exk where k: "kind_record dec ex cid node (lc_line (sp_start (node_pos node)) - 1) (snd rng)
      (initial_record ex parent (node_pos node) rng) = (rec, c, exk)" by (metis prod_cases3)
  have "block_units (ex_li ex) (initial_record ex parent (node_pos node) rng)"
    using small by (simp add: initial_record_def block_units_def unat_to_u32)
  from kind_record_units [OF k ok this small(2)] have u: "block_units (ex_li ex) rec" .
  note r = reports_fields [OF conjunct1 [OF kind_record_keeps [OF k]]]
  have "block_units (ex_li ex) (marker_record exk cid fl c rec)" for fl
    using u by (auto simp: marker_record_def Let_def block_units_def split: option.splits)
  then have "walking src collect ex1"
    using b k w r by (auto simp: block_record_def Let_def rng_def [symmetric] walking_def src_ok_def units_ok_def)
  then show ?thesis using p by (auto simp: push_container_def walking_def src_ok_def units_ok_def split: option.splits)
qed

lemma walk_blocks_walking:
  assumes "utf8_valid src" "length src < 4294967296"
  shows "walking src collect (snd (walk_blocks dec root (extractor_new src collect)))"
proof -
  have "walking src collect (extractor_new src collect)"
    using assms by (simp add: walking_def extractor_new_def src_ok_def units_ok_def)
  then have "walking src collect (snd (walk_frames dec frames (extractor_new src collect) leaves))" for frames leaves
    by (rule walk_frames_inv [of "walking src collect", rotated]) (rule walking_step)
  then show ?thesis by (simp add: walk_blocks_def split_def)
qed

subsection \<open>The passes after the leaves\<close>

lemma record_gap_appends: "appends P ex (record_gap scope ls ex)"
  unfolding record_gap_def Let_def by (intro appends_if appends_dev record_buffer_definitions_appends)

lemma gap_loop_appends: "appends P ex (gap_loop covered owner line0 ex)"
proof (induction covered owner line0 ex rule: gap_loop.induct)
  case (1 covered owner line0 ex)
  note unf = gap_loop.simps [of covered owner line0 ex]
  let ?scope = "owner ! line0"
  let ?ch = "chain ex ?scope"
  let ?span = "para_line ex line0 ?ch"
  let ?skip = "covered ! line0 \<or> ls_end ?span \<le> ls_start ?span \<or> px_lazy (prefix_at ex line0 ?ch)"
  obtain spans l where g: "gap_lines ex covered owner ?scope ?ch (line0 + 1) = (spans, l)" by force
  show ?case
  proof (cases "line0 < line_count (ex_li ex)")
    case True
    show ?thesis
    proof (cases ?skip)
      case sk: True
      then show ?thesis unfolding unf Let_def using "1.IH"(1) [OF True refl refl refl sk] True by (simp only: if_True)
    next
      case no: False
      from "1.IH"(2) [OF True refl refl refl no g [symmetric]]
      show ?thesis unfolding unf Let_def using appends_trans [OF record_gap_appends] True no g by (simp only: if_True if_False prod.case)
    qed
  next
    case False
    then show ?thesis unfolding unf by simp
  qed
qed

lemma gap_definitions_appends: "appends (\<lambda>r. False) ex (gap_definitions leaves ex)"
  unfolding gap_definitions_def Let_def by (intro appends_if appends_refl gap_loop_appends)

lemma finish_runs: "ex_runs (finish_blocks ex) = ex_runs ex" "ex_definitions (finish_blocks ex) = ex_definitions ex"
proof -
  have e: "ex_runs (push_empty_line ch first count line ex) = ex_runs ex \<and> ex_definitions (push_empty_line ch first count line ex) = ex_definitions ex"
      for ch first count line ex
    by (simp add: push_empty_line_def push_content_def Let_def)
  have "ex_runs (fold (push_empty_line ch first count) owned ex) = ex_runs ex \<and>
      ex_definitions (fold (push_empty_line ch first count) owned ex) = ex_definitions ex" for ch first count owned ex
    by (induction owned arbitrary: ex) (simp_all add: e)
  then have o: "ex_runs (own_empty_lines i owned ex) = ex_runs ex \<and> ex_definitions (own_empty_lines i owned ex) = ex_definitions ex" for i owned ex
    by (simp add: own_empty_lines_def Let_def upd_block_def)
  have "ex_runs (fold (\<lambda>i. own_empty_lines i (f i)) is ex) = ex_runs ex \<and>
      ex_definitions (fold (\<lambda>i. own_empty_lines i (f i)) is ex) = ex_definitions ex" for f "is" ex
    by (induction "is" arbitrary: ex) (simp_all add: o)
  then have "ex_runs (empty_container_lines ex) = ex_runs ex" "ex_definitions (empty_container_lines ex) = ex_definitions ex"
    by (simp_all add: empty_container_lines_def widen_parents_def Let_def)
  then show "ex_runs (finish_blocks ex) = ex_runs ex" "ex_definitions (finish_blocks ex) = ex_definitions ex"
    by (simp_all add: finish_blocks_def fit_overlapping_containers_def check_structure_def dev_def split: option.splits)
qed

lemma finish_keeps: "walk_ok ex \<Longrightarrow> keeps ex (finish_blocks ex)"
proof -
  assume ok: "walk_ok ex"
  have k: "keeps ex (fit_overlapping_containers (empty_container_lines ex))" by (rule finishing.comp.edit_keeps [OF ok])
  show ?thesis unfolding finish_blocks_def
    by (rule keeps_trans [OF k structure_check.edit_keeps [OF keeps_walk_ok [OF k ok]]])
qed

subsection \<open>The whole extraction\<close>

lemma sort_definitions_keeps: "keeps ex (sort_definitions ex)"
  by (simp add: keeps_def sort_definitions_def units_ok_def)

lemma dedup_by_key_set: "set (dedup_by_key f xs) \<subseteq> set xs"
  by (induction f xs rule: dedup_by_key.induct) auto

lemma dedup_by_key_keys: "f ` set (dedup_by_key f xs) = f ` set xs"
  by (induction f xs rule: dedup_by_key.induct) auto

lemma dedup_by_key_strict: "sorted (map f xs) \<Longrightarrow> sorted_wrt (<) (map f (dedup_by_key f xs))" for f :: "'a \<Rightarrow> 'b :: linorder"
proof (induction f xs rule: dedup_by_key.induct)
  case (3 f x y xs)
  show ?case
  proof (cases "f x = f y")
    case True
    then show ?thesis using "3.IH"(1) "3.prems" by simp
  next
    case False
    then have "f x < f y" "sorted (map f (y # xs))" using "3.prems" by auto
    moreover have "f y \<le> k" if "k \<in> f ` set (dedup_by_key f (y # xs))" for k
      using that "3.prems" unfolding dedup_by_key_keys by auto
    ultimately show ?thesis using "3.IH"(2) [OF False] False by (auto simp: less_le_trans)
  qed
qed auto

text \<open>
  The passes of the extraction in order: from the walk's state each keeps the tree, the source and the units,
  the leaves' runs nest, and nothing after the leaves touches a run.
\<close>

lemma extraction_passes:
  assumes src: "utf8_valid src" "length src < 4294967296"
  shows "keeps (snd (walk_blocks dec root (extractor_new src collect))) (extraction dec root src collect) \<and>
         (collect \<longrightarrow> (\<exists>segs. ex_runs (extraction dec root src collect) = concat segs \<and>
            leafwise [] (fst (walk_blocks dec root (extractor_new src collect))) segs)) \<and>
         sorted_wrt (<) (map def_start (ex_definitions (extraction dec root src collect)))"
proof -
  obtain leaves ex1 where w: "walk_blocks dec root (extractor_new src collect) = (leaves, ex1)" by force
  have wk: "walking src collect ex1" using walk_blocks_walking [OF src, of collect dec root] w by simp
  then have s1: "src_ok ex1" by (simp add: walking_def)
  have spec: "walk_ok ex1" "\<forall>lf \<in> set leaves. lf_idx lf < length (ex_blocks ex1)"
    using walk_blocks_spec [of dec root src collect] w by (auto simp: walk_ok_def list_all_iff leaf_ok_def)
  define ex2 where "ex2 = leaf_passes dec leaves ex1"
  define ex3 where "ex3 = widen_parents ex2"
  define ex4 where "ex4 = gap_definitions leaves ex3"
  define ex5 where "ex5 = sort_definitions ex4"
  note l = leaf_passes_ok [OF s1 spec, of dec, folded ex2_def]
  have k2: "keeps ex1 ex2" using l appends_keeps by blast
  have k3: "keeps ex1 ex3" unfolding ex3_def by (rule keeps_trans [OF k2 widening.edit_keeps [OF keeps_walk_ok [OF k2 spec(1)]]])
  have k4: "keeps ex1 ex4" unfolding ex4_def by (rule keeps_trans [OF k3 appends_keeps [OF gap_definitions_appends]])
  have k5: "keeps ex1 ex5" unfolding ex5_def by (rule keeps_trans [OF k4 sort_definitions_keeps])
  have k6: "keeps ex1 (finish_blocks ex5)" by (rule keeps_trans [OF k5 finish_keeps [OF keeps_walk_ok [OF k5 spec(1)]]])
  have ex: "extraction dec root src collect = finish_blocks ex5"
    by (simp add: extraction_def w ex2_def ex3_def ex4_def ex5_def)
  have "ex_runs ex4 = ex_runs ex3" using gap_definitions_appends [of ex3 leaves] unfolding ex4_def appends_def by (auto simp: list_all_iff)
  then have "ex_runs ex5 = ex_runs ex2" by (simp add: ex5_def sort_definitions_def ex3_def widen_parents_def)
  moreover have "ex_runs ex1 = []" using wk by (simp add: walking_def)
  ultimately have "collect \<longrightarrow> (\<exists>segs. ex_runs ex5 = concat segs \<and> leafwise [] leaves segs)" using l wk by (auto simp: walking_def)
  moreover have "sorted_wrt (<) (map def_start (ex_definitions ex5))"
    unfolding ex5_def sort_definitions_def by (simp add: dedup_by_key_strict)
  ultimately show ?thesis unfolding ex w fst_conv snd_conv finish_runs using k6 by simp
qed

end
