(* ===== verification/Flark_Mersenne.thy ===== *)
theory Flark_Mersenne
  imports Flark_Prelude
begin

text \<open>
  The V4 engine's commitment arithmetic, \<^verbatim>\<open>flark_engine/src/mersenne61.rs\<close>: sums and products modulo the Mersenne
  prime \<open>2 ^ 61 - 1\<close> by folding the bits above the sixty-first three times instead of
  dividing. A \<^verbatim>\<open>u64\<close> is a 64-bit word and a \<^verbatim>\<open>u128\<close> a 128-bit word, so every cast is written out.
\<close>

unbundle bit_operations_syntax

type_synonym u128 = "128 word"

abbreviation to_u128 :: "u64 \<Rightarrow> u128" where "to_u128 w \<equiv> ucast w"
abbreviation to_u64 :: "u128 \<Rightarrow> u64" where "to_u64 w \<equiv> ucast w"

definition MODULUS :: u64 where
  "MODULUS = push_bit 61 1 - 1"

text \<open>One fold: the low sixty-one bits plus the rest.\<close>

definition fold61 :: "u128 \<Rightarrow> u128" where
  "fold61 v = (v AND to_u128 MODULUS) + drop_bit 61 v"

definition reduce :: "u128 \<Rightarrow> u64" where
  "reduce v =
     (let reduced = to_u64 (fold61 (fold61 (fold61 v)))
      in if MODULUS \<le> reduced then reduced - MODULUS else reduced)"

definition add_mod :: "u64 \<Rightarrow> u64 \<Rightarrow> u64" where
  "add_mod left right = reduce (to_u128 left + to_u128 right)"

definition multiply_mod :: "u64 \<Rightarrow> u64 \<Rightarrow> u64" where
  "multiply_mod left right = reduce (to_u128 left * to_u128 right)"

subsection \<open>Folding\<close>

abbreviation P61 :: nat where "P61 \<equiv> 2305843009213693951"

lemma unat_MODULUS: "unat MODULUS = P61"
  by (simp add: MODULUS_def)

lemma unat_fold61:
  assumes "unat v mod 2305843009213693952 + unat v div 2305843009213693952 < 2 ^ 128"
  shows "unat (fold61 v) = unat v mod 2305843009213693952 + unat v div 2305843009213693952"
proof -
  have "to_u128 MODULUS = mask 61" by (simp add: MODULUS_def mask_eq_exp_minus_1)
  then have "unat (v AND to_u128 MODULUS) = unat v mod 2305843009213693952"
    by (simp only: take_bit_eq_mask [symmetric] unsigned_take_bit_eq) (simp add: take_bit_eq_mod)
  moreover have "unat (drop_bit 61 v) = unat v div 2305843009213693952"
    by (simp only: unat_drop_bit_eq) (simp add: drop_bit_eq_div)
  ultimately show ?thesis using assms by (simp add: fold61_def unat_add_lem [THEN iffD1])
qed

text \<open>On numbers: what a fold keeps is the remainder, and three folds end below twice the modulus.\<close>

definition fold_nat :: "nat \<Rightarrow> nat" where
  "fold_nat n = n mod 2305843009213693952 + n div 2305843009213693952"

lemma fold_nat_mod: "fold_nat n mod P61 = n mod P61"
proof -
  have "n = fold_nat n + P61 * (n div 2305843009213693952)"
    using mult_div_mod_eq [of 2305843009213693952 n] by (simp add: fold_nat_def)
  then show ?thesis by (metis mod_mult_self2)
qed

lemma fold_nat_bounds:
  assumes "n < 2 ^ 128"
  shows "fold_nat n < 2 ^ 128" "fold_nat (fold_nat n) < 2 ^ 128" "fold_nat (fold_nat (fold_nat n)) < 2 * P61"
proof -
  have le: "fold_nat k \<le> 2305843009213693951 + k div 2305843009213693952" for k
    using mod_less_divisor [of 2305843009213693952 k] unfolding fold_nat_def by linarith
  have "n div 2305843009213693952 < 147573952589676412928"
    using assms by (simp add: less_mult_imp_div_less)
  then have a: "fold_nat n < 149879795598890106880" using le [of n] by linarith
  then have "fold_nat n div 2305843009213693952 < 66" by (simp add: less_mult_imp_div_less)
  then have b: "fold_nat (fold_nat n) < 2305843009213694017" using le [of "fold_nat n"] by linarith
  then have "fold_nat (fold_nat n) div 2305843009213693952 < 2" by (simp add: less_mult_imp_div_less)
  then show "fold_nat (fold_nat (fold_nat n)) < 2 * P61" using le [of "fold_nat (fold_nat n)"] by linarith
  show "fold_nat n < 2 ^ 128" "fold_nat (fold_nat n) < 2 ^ 128" using a b by simp_all
qed

lemma unat_fold61_fold: "unat v < 2 ^ 128 \<Longrightarrow> unat (fold61 v) = fold_nat (unat v)"
  using unat_fold61 [of v] fold_nat_bounds(1) [of "unat v"] by (simp add: fold_nat_def)

lemma reduce_mod: "unat (reduce v) = unat v mod P61"
proof -
  let ?n = "fold_nat (fold_nat (fold_nat (unat v)))"
  have v: "unat v < 2 ^ 128" using unsigned_less [of v] by simp
  note b = fold_nat_bounds [OF v]
  have "unat (fold61 (fold61 (fold61 v))) = ?n" using v b by (simp add: unat_fold61_fold)
  then have r: "unat (to_u64 (fold61 (fold61 (fold61 v)))) = ?n"
    using b(3) by (simp add: unsigned_ucast_eq take_bit_nat_eq_self)
  have m: "?n mod P61 = unat v mod P61" by (simp only: fold_nat_mod)
  show ?thesis
  proof (cases "MODULUS \<le> to_u64 (fold61 (fold61 (fold61 v)))")
    case True
    then have le: "P61 \<le> ?n" using r by (simp add: word_le_nat_alt unat_MODULUS)
    then have "unat (reduce v) = ?n - P61" using True r by (simp add: reduce_def Let_def unat_sub unat_MODULUS)
    moreover have "?n mod P61 = ?n - P61" using le b(3) by (simp add: le_mod_geq)
    ultimately show ?thesis using m by simp
  next
    case False
    then have "?n < P61" using r by (simp add: word_le_nat_alt unat_MODULUS)
    then show ?thesis using False r m by (simp add: reduce_def Let_def)
  qed
qed

lemma mod_operations:
  "unat (add_mod a b) = (unat a + unat b) mod P61" "unat (multiply_mod a b) = (unat a * unat b) mod P61"
proof -
  have a: "unat a < 18446744073709551616" "unat b < 18446744073709551616" using unsigned_less [of a] unsigned_less [of b] by simp_all
  have u: "unat (to_u128 w) = unat w" for w :: u64
    using unsigned_less [of w, where 'a = nat] by (simp add: unsigned_ucast_eq take_bit_nat_eq_self)
  have "unat a + unat b < 2 ^ 128" using a by simp
  then have "unat (to_u128 a + to_u128 b) = unat a + unat b" using u by (simp add: unat_add_lem [THEN iffD1])
  moreover have "unat a * unat b < 18446744073709551616 * 18446744073709551616" using a by (intro mult_strict_mono) simp_all
  then have "unat (to_u128 a * to_u128 b) = unat a * unat b" using u by (simp add: unat_mult_lem [THEN iffD1])
  ultimately show "unat (add_mod a b) = (unat a + unat b) mod P61" "unat (multiply_mod a b) = (unat a * unat b) mod P61"
    by (simp_all add: add_mod_def multiply_mod_def reduce_mod)
qed

text \<open>
  C32: The folded sum and product are the exact remainders: for every pair of 64-bit operands, no bit is
  lost in the 128-bit intermediate and the result is reduced below the modulus.
\<close>

theorem mersenne_exact:
  "unat (add_mod a b) = (unat a + unat b) mod P61 \<and> unat (multiply_mod a b) = (unat a * unat b) mod P61"
  by (simp add: mod_operations)

end
