(* ===== verification/Flark_Arena.thy ===== *)
theory Flark_Arena
  imports Flark_Prelude "HOL-Library.Monad_Syntax"
begin

text \<open>
  The V4 engine's node storage, \<^verbatim>\<open>flark_engine/src/storage.rs\<close>: a segmented, generation-checked arena of
  reference-counted immutable nodes, journalled candidate builds, and reclamation in bounded steps.
  This theory holds the data and every operation; the invariant and its consequences are in
  \<open>Flark_Arena_Nodes\<close>, \<open>Flark_Arena_Builds\<close> and \<open>Flark_Arena_World\<close>.

  An operation takes the arena and returns its result and the arena after it. The result is an error
  or a value; the whole is \<open>None\<close> where the code panics: an index out of range, a failed \<^verbatim>\<open>expect\<close>, an
  explicit \<^verbatim>\<open>panic!\<close>. Debug assertions are not executed in release builds and are not part of the
  model. Counters that are \<^verbatim>\<open>u32\<close> in the code are 32-bit words, so an unchecked increment wraps; a \<^verbatim>\<open>usize\<close> is
  a natural number and its checked addition is written out at 64 bits. The allocator is a parameter
  \<open>mem\<close> that grants or refuses each request.
\<close>

subsection \<open>Limits, errors, handles\<close>

definition ARENA_PAGE_BYTES :: nat where
  "ARENA_PAGE_BYTES = 4 * 1024"

definition SLOTS_PER_SEGMENT :: nat where
  "SLOTS_PER_SEGMENT = 64"

record arena_limits =
  max_slots :: nat
  max_live_payload_bytes :: nat
  max_children_per_node :: nat

definition default_limits :: arena_limits where
  "default_limits = \<lparr>max_slots = 65536, max_live_payload_bytes = 64 * 1024 * 1024, max_children_per_node = 128\<rparr>"

datatype arena_error =
    InvalidLimits | IdentityExhausted | CapacityExceeded | PayloadTooLarge | TooManyChildren
  | PayloadBudgetExceeded | ForeignArena | StaleHandle | RefCountExhausted | BuildCapacityExceeded
  | StaleBuild | BuildNotActive | EmptyBuild | OwnerNotJournalled | RootNotLatest | AllocationFailed

type_synonym 'a arena_result = "arena_error + 'a"

text \<open>\<^verbatim>\<open>ArenaId\<close> of \<^verbatim>\<open>identity.rs\<close>; an \<^verbatim>\<open>OwnedArenaRef\<close> is the same handle, counted as one reference.\<close>

record arena_id =
  id_arena :: u64
  id_slot :: u32
  id_generation :: u32

record arena_build_id =
  bid_arena :: u64
  bid_slot :: u32
  bid_generation :: u32

record arena_build_owner =
  ow_build :: arena_build_id
  ow_id :: arena_id

record candidate_seal =
  seal_id :: arena_build_id
  seal_complete :: bool

record external_payload_reservation =
  res_arena :: u64
  res_bytes :: nat

record reclaim_receipt =
  rr_transitions :: nat
  rr_nodes_reclaimed :: nat
  rr_payload_bytes_reclaimed :: nat
  rr_complete :: bool

subsection \<open>Slots, build slots, the arena\<close>

datatype slot_state = SVacant | Live | Retiring | SRetired
datatype build_state = BVacant | Active | Suspended | Sealing | Aborting | BRetired
datatype reclaim_lane = LaneBuildAbort | LaneNode

record arena_slot =
  s_generation :: u32
  s_state :: slot_state
  s_ref_count :: u32
  s_payload :: "bytes option"
  s_children :: "arena_id list option"
  s_next_free :: "u32 option"
  s_pending_next :: "u32 option"
  s_retire_child_index :: nat

definition vacant_slot :: arena_slot where
  "vacant_slot = \<lparr>s_generation = 1, s_state = SVacant, s_ref_count = 0, s_payload = None, s_children = None,
     s_next_free = None, s_pending_next = None, s_retire_child_index = 0\<rparr>"

record journal =
  b_generation :: u32
  b_state :: build_state
  b_owners :: "arena_id list"
  b_next_free :: "u32 option"
  b_pending_next :: "u32 option"
  b_seal_root :: "arena_id option"

definition vacant_build :: journal where
  "vacant_build = \<lparr>b_generation = 1, b_state = BVacant, b_owners = [], b_next_free = None,
     b_pending_next = None, b_seal_root = None\<rparr>"

record page_arena =
  identity :: u64
  limits :: arena_limits
  segments :: "arena_slot list list"
  next_unused :: nat
  free_head :: "u32 option"
  pending_head :: "u32 option"
  pending_tail :: "u32 option"
  resident_nodes :: nat
  live_payload_bytes :: nat
  reserved_external_payload_bytes :: nat
  pending_reclaims :: nat
  builds :: "journal list"
  build_free_head :: "u32 option"
  pending_build_head :: "u32 option"
  pending_build_tail :: "u32 option"
  live_builds :: nat
  pending_build_aborts :: nat
  next_reclaim_lane :: reclaim_lane

record arena_metrics =
  m_resident_nodes :: nat
  m_live_payload_bytes :: nat
  m_reserved_external_payload_bytes :: nat
  m_pending_reclaims :: nat
  m_allocated_slots :: nat
  m_live_builds :: nat
  m_pending_build_aborts :: nat

definition metrics :: "page_arena \<Rightarrow> arena_metrics" where
  "metrics a = \<lparr>m_resident_nodes = resident_nodes a, m_live_payload_bytes = live_payload_bytes a,
     m_reserved_external_payload_bytes = reserved_external_payload_bytes a,
     m_pending_reclaims = pending_reclaims a, m_allocated_slots = next_unused a,
     m_live_builds = live_builds a, m_pending_build_aborts = pending_build_aborts a\<rparr>"

text \<open>What the code asks of the allocator.\<close>

datatype alloc_request =
    Directory nat | PayloadBytes nat | ChildIds nat | Segment | BuildEntry | OwnerEntries nat
  | CacheEntry | BinSlots nat | JoinTasks nat | JoinValues nat

subsection \<open>Results\<close>

text \<open>\<^verbatim>\<open>checked_add\<close> on \<^verbatim>\<open>usize\<close> and on \<^verbatim>\<open>u32\<close>.\<close>

definition checked_add :: "nat \<Rightarrow> nat \<Rightarrow> nat option" where
  "checked_add x y = (if x + y < 2 ^ 64 then Some (x + y) else None)"

definition checked_add32 :: "u32 \<Rightarrow> u32 \<Rightarrow> u32 option" where
  "checked_add32 x y = (if unat x + unat y < 2 ^ 32 then Some (x + y) else None)"

text \<open>The operator \<^verbatim>\<open>?\<close>, after an operation that may change the arena, and after one that only reads it.\<close>

definition and_then :: "('a arena_result \<times> 's) option \<Rightarrow> ('a \<Rightarrow> 's \<Rightarrow> ('b arena_result \<times> 's) option) \<Rightarrow>
    ('b arena_result \<times> 's) option" where
  "and_then r k = (case r of None \<Rightarrow> None | Some (Inl e, s) \<Rightarrow> Some (Inl e, s) | Some (Inr x, s) \<Rightarrow> k x s)"

definition checked :: "'a arena_result option \<Rightarrow> 's \<Rightarrow> ('b arena_result \<times> 's) option \<Rightarrow> ('b arena_result \<times> 's) option" where
  "checked v s k = (case v of None \<Rightarrow> None | Some (Inl e) \<Rightarrow> Some (Inl e, s) | Some (Inr x) \<Rightarrow> k)"

definition also_ok :: "'a arena_result option \<Rightarrow> 'b arena_result option \<Rightarrow> 'b arena_result option" where
  "also_ok v k = (case v of None \<Rightarrow> None | Some (Inl e) \<Rightarrow> Some (Inl e) | Some (Inr x) \<Rightarrow> k)"

lemma result_simps [simp]:
  "and_then None k = None" "and_then (Some (Inl e, s)) k = Some (Inl e, s)" "and_then (Some (Inr x, s)) k = k x s"
  "checked None s c = None" "checked (Some (Inl e)) s c = Some (Inl e, s)" "checked (Some (Inr x)) s c = c"
  "also_ok None d = None" "also_ok (Some (Inl e)) d = Some (Inl e)" "also_ok (Some (Inr x)) d = d"
  by (simp_all add: and_then_def checked_def also_ok_def)

subsection \<open>Slot access\<close>

definition slot :: "page_arena \<Rightarrow> u32 \<Rightarrow> arena_slot option" where
  "slot a i =
     (let k = to_usize i; d = k div SLOTS_PER_SEGMENT; m = k mod SLOTS_PER_SEGMENT
      in if d < length (segments a) \<and> m < length (segments a ! d) then Some (segments a ! d ! m) else None)"

definition slot_mut :: "page_arena \<Rightarrow> u32 \<Rightarrow> (arena_slot \<Rightarrow> arena_slot) \<Rightarrow> page_arena option" where
  "slot_mut a i f =
     (let k = to_usize i; d = k div SLOTS_PER_SEGMENT; m = k mod SLOTS_PER_SEGMENT
      in if d < length (segments a) \<and> m < length (segments a ! d)
         then Some (a\<lparr>segments := (segments a)[d := (segments a ! d)[m := f (segments a ! d ! m)]]\<rparr>)
         else None)"

definition build_slot :: "page_arena \<Rightarrow> u32 \<Rightarrow> journal option" where
  "build_slot a i = (if to_usize i < length (builds a) then Some (builds a ! to_usize i) else None)"

definition build_slot_mut :: "page_arena \<Rightarrow> u32 \<Rightarrow> (journal \<Rightarrow> journal) \<Rightarrow> page_arena option" where
  "build_slot_mut a i f =
     (if to_usize i < length (builds a)
      then Some (a\<lparr>builds := (builds a)[to_usize i := f (builds a ! to_usize i)]\<rparr>) else None)"

subsection \<open>Creation\<close>

text \<open>\<^verbatim>\<open>ArenaIdentity::allocate\<close>: the process-wide counter is passed and returned.\<close>

definition identity_allocate :: "u64 \<Rightarrow> u64 option \<times> u64" where
  "identity_allocate next = (if unat next + 1 < 2 ^ 64 then (Some next, next + 1) else (None, next))"

definition arena_new :: "(alloc_request \<Rightarrow> bool) \<Rightarrow> u64 \<Rightarrow> arena_limits \<Rightarrow> page_arena arena_result \<times> u64" where
  "arena_new mem counter lim =
     (if max_slots lim = 0 \<or> max_slots lim > 2 ^ 32 - 1 then (Inl InvalidLimits, counter)
      else case identity_allocate counter of
        (None, counter) \<Rightarrow> (Inl IdentityExhausted, counter)
      | (Some ident, counter) \<Rightarrow>
          (let segment_count = (max_slots lim + (SLOTS_PER_SEGMENT - 1)) div SLOTS_PER_SEGMENT
           in if \<not> mem (Directory segment_count) then (Inl AllocationFailed, counter)
              else (Inr \<lparr>identity = ident, limits = lim, segments = [], next_unused = 0, free_head = None,
                      pending_head = None, pending_tail = None, resident_nodes = 0, live_payload_bytes = 0,
                      reserved_external_payload_bytes = 0, pending_reclaims = 0, builds = [],
                      build_free_head = None, pending_build_head = None, pending_build_tail = None,
                      live_builds = 0, pending_build_aborts = 0, next_reclaim_lane = LaneBuildAbort\<rparr>, counter)))"

subsection \<open>External payload\<close>

definition reserve_external_payload :: "page_arena \<Rightarrow> nat \<Rightarrow> external_payload_reservation arena_result \<times> page_arena" where
  "reserve_external_payload a bytes =
     (if bytes = 0 then (Inl PayloadTooLarge, a)
      else case checked_add (reserved_external_payload_bytes a) bytes of
        None \<Rightarrow> (Inl PayloadBudgetExceeded, a)
      | Some next_reserved \<Rightarrow>
          (case checked_add (live_payload_bytes a) next_reserved of
             None \<Rightarrow> (Inl PayloadBudgetExceeded, a)
           | Some next_admitted \<Rightarrow>
               if next_admitted > max_live_payload_bytes (limits a) then (Inl PayloadBudgetExceeded, a)
               else (Inr \<lparr>res_arena = identity a, res_bytes = bytes\<rparr>,
                     a\<lparr>reserved_external_payload_bytes := next_reserved\<rparr>)))"

text \<open>A failure hands the reservation back.\<close>

definition release_external_payload ::
    "page_arena \<Rightarrow> external_payload_reservation \<Rightarrow> ((arena_error \<times> external_payload_reservation) + unit) \<times> page_arena" where
  "release_external_payload a r =
     (if res_arena r \<noteq> identity a then (Inl (ForeignArena, r), a)
      else if reserved_external_payload_bytes a < res_bytes r then (Inl (StaleHandle, r), a)
      else (Inr (), a\<lparr>reserved_external_payload_bytes := reserved_external_payload_bytes a - res_bytes r\<rparr>))"

text \<open>The prefix and what remains, or nothing.\<close>

definition split_prefix :: "external_payload_reservation \<Rightarrow> nat \<Rightarrow>
    external_payload_reservation option \<times> external_payload_reservation" where
  "split_prefix r n =
     (if n = 0 \<or> n \<ge> res_bytes r then (None, r)
      else (Some \<lparr>res_arena = res_arena r, res_bytes = n\<rparr>, r\<lparr>res_bytes := res_bytes r - n\<rparr>))"

subsection \<open>Nodes\<close>

definition validate_live :: "page_arena \<Rightarrow> arena_id \<Rightarrow> unit arena_result option" where
  "validate_live a h =
     (if id_arena h \<noteq> identity a then Some (Inl ForeignArena)
      else if to_usize (id_slot h) \<ge> next_unused a then Some (Inl StaleHandle)
      else do {
        s \<leftarrow> slot a (id_slot h);
        Some (if s_generation s \<noteq> id_generation h \<or> s_state s \<noteq> Live then Inl StaleHandle else Inr ())
      })"

text \<open>The loop over the children of a new node; \<open>seen\<close> is the part of the list before the current one.\<close>

primrec child_increments :: "page_arena \<Rightarrow> arena_id list \<Rightarrow> arena_id list \<Rightarrow> arena_id list \<Rightarrow> unit arena_result option" where
  "child_increments a children seen [] = Some (Inr ())"
| "child_increments a children seen (child # rest) =
     also_ok (validate_live a child)
       (if child \<in> set seen then child_increments a children (seen @ [child]) rest
        else let increment = length (filter (\<lambda>candidate. candidate = child) children)
             in if increment \<ge> 2 ^ 32 then Some (Inl RefCountExhausted)
                else do {
                  s \<leftarrow> slot a (id_slot child);
                  case checked_add32 (s_ref_count s) (to_u32 increment) of
                    None \<Rightarrow> Some (Inl RefCountExhausted)
                  | Some _ \<Rightarrow> child_increments a children (seen @ [child]) rest
                })"

definition validate_child_ref_increments :: "page_arena \<Rightarrow> arena_id list \<Rightarrow> unit arena_result option" where
  "validate_child_ref_increments a children = child_increments a children [] children"

definition acquire_slot :: "(alloc_request \<Rightarrow> bool) \<Rightarrow> page_arena \<Rightarrow> (u32 arena_result \<times> page_arena) option" where
  "acquire_slot mem a =
     (case free_head a of
        Some index \<Rightarrow> do {
          s \<leftarrow> slot a index;
          a \<leftarrow> slot_mut (a\<lparr>free_head := s_next_free s\<rparr>) index (\<lambda>s. s\<lparr>s_next_free := None\<rparr>);
          Some (Inr index, a)
        }
      | None \<Rightarrow>
          if next_unused a \<ge> max_slots (limits a) then Some (Inl CapacityExceeded, a)
          else let index = next_unused a;
                   grow = index div SLOTS_PER_SEGMENT = length (segments a)
               in if grow \<and> \<not> mem Segment then Some (Inl AllocationFailed, a)
                  else let a = (if grow then a\<lparr>segments := segments a @ [replicate SLOTS_PER_SEGMENT vacant_slot]\<rparr> else a);
                           a = a\<lparr>next_unused := next_unused a + 1\<rparr>
                       in Some (if index < 2 ^ 32 then Inr (to_u32 index) else Inl CapacityExceeded, a))"

primrec retain_children :: "page_arena \<Rightarrow> arena_id list \<Rightarrow> page_arena option" where
  "retain_children a [] = Some a"
| "retain_children a (child # rest) = do {
     a \<leftarrow> slot_mut a (id_slot child) (\<lambda>s. s\<lparr>s_ref_count := s_ref_count s + 1\<rparr>);
     retain_children a rest
   }"

definition fill_slot :: "bytes \<Rightarrow> arena_id list \<Rightarrow> arena_slot \<Rightarrow> arena_slot" where
  "fill_slot payload children s = s\<lparr>s_state := Live, s_ref_count := 1, s_payload := Some payload,
     s_children := Some children, s_next_free := None, s_pending_next := None, s_retire_child_index := 0\<rparr>"

text \<open>The tail of \<^verbatim>\<open>allocate_owned\<close>, once every check has passed.\<close>

definition install_node :: "page_arena \<Rightarrow> u32 \<Rightarrow> nat \<Rightarrow> bytes \<Rightarrow> arena_id list \<Rightarrow> (arena_id arena_result \<times> page_arena) option" where
  "install_node a index next_payload_bytes payload children = do {
     a \<leftarrow> retain_children a children;
     a \<leftarrow> slot_mut a index (fill_slot payload children);
     s \<leftarrow> slot a index;
     Some (Inr \<lparr>id_arena = identity a, id_slot = index, id_generation = s_generation s\<rparr>,
           a\<lparr>resident_nodes := resident_nodes a + 1, live_payload_bytes := next_payload_bytes\<rparr>)
   }"

definition allocate_owned :: "(alloc_request \<Rightarrow> bool) \<Rightarrow> page_arena \<Rightarrow> bytes \<Rightarrow> arena_id list \<Rightarrow>
    (arena_id arena_result \<times> page_arena) option" where
  "allocate_owned mem a payload children =
     (if length payload > ARENA_PAGE_BYTES then Some (Inl PayloadTooLarge, a)
      else if length children > max_children_per_node (limits a) then Some (Inl TooManyChildren, a)
      else case checked_add (live_payload_bytes a) (length payload) of
        None \<Rightarrow> Some (Inl PayloadBudgetExceeded, a)
      | Some next_payload_bytes \<Rightarrow>
          (case checked_add next_payload_bytes (reserved_external_payload_bytes a) of
             None \<Rightarrow> Some (Inl PayloadBudgetExceeded, a)
           | Some next_admitted \<Rightarrow>
               if next_admitted > max_live_payload_bytes (limits a) then Some (Inl PayloadBudgetExceeded, a)
               else checked (validate_child_ref_increments a children) a
                 (if \<not> mem (PayloadBytes (length payload)) \<or> \<not> mem (ChildIds (length children))
                  then Some (Inl AllocationFailed, a)
                  else and_then (acquire_slot mem a)
                    (\<lambda>index a. install_node a index next_payload_bytes payload children))))"

definition validate_owned_retain :: "page_arena \<Rightarrow> arena_id \<Rightarrow> unit arena_result option" where
  "validate_owned_retain a h =
     also_ok (validate_live a h)
       (do {
          s \<leftarrow> slot a (id_slot h);
          Some (case checked_add32 (s_ref_count s) 1 of None \<Rightarrow> Inl RefCountExhausted | Some _ \<Rightarrow> Inr ())
        })"

definition retain_owned :: "page_arena \<Rightarrow> arena_id \<Rightarrow> (arena_id arena_result \<times> page_arena) option" where
  "retain_owned a h =
     checked (validate_owned_retain a h) a
       (do {
          a \<leftarrow> slot_mut a (id_slot h) (\<lambda>s. s\<lparr>s_ref_count := s_ref_count s + 1\<rparr>);
          Some (Inr h, a)
        })"

text \<open>Reading a live node; the payload and the child storage of one that has none panic.\<close>

definition arena_payload :: "page_arena \<Rightarrow> arena_id \<Rightarrow> bytes arena_result option" where
  "arena_payload a h = also_ok (validate_live a h)
     (do { s \<leftarrow> slot a (id_slot h); p \<leftarrow> s_payload s; Some (Inr p) })"

definition child_count :: "page_arena \<Rightarrow> arena_id \<Rightarrow> nat arena_result option" where
  "child_count a h = also_ok (validate_live a h)
     (do { s \<leftarrow> slot a (id_slot h); c \<leftarrow> s_children s; Some (Inr (length c)) })"

definition child_at :: "page_arena \<Rightarrow> arena_id \<Rightarrow> nat \<Rightarrow> arena_id arena_result option" where
  "child_at a h index = also_ok (validate_live a h)
     (do { s \<leftarrow> slot a (id_slot h); c \<leftarrow> s_children s;
           Some (if index < length c then Inr (c ! index) else Inl StaleHandle) })"

definition append_pending :: "page_arena \<Rightarrow> u32 \<Rightarrow> page_arena option" where
  "append_pending a index = do {
     a \<leftarrow> slot_mut a index (\<lambda>s. s\<lparr>s_pending_next := None\<rparr>);
     a \<leftarrow> (case pending_tail a of
            Some tail \<Rightarrow> slot_mut a tail (\<lambda>s. s\<lparr>s_pending_next := Some index\<rparr>)
          | None \<Rightarrow> Some (a\<lparr>pending_head := Some index\<rparr>));
     Some (a\<lparr>pending_tail := Some index, pending_reclaims := pending_reclaims a + 1\<rparr>)
   }"

text \<open>One reference less: the block \<^verbatim>\<open>release_owned_later\<close> and \<^verbatim>\<open>poll_reclaim\<close> have in common.\<close>

definition drop_reference :: "page_arena \<Rightarrow> u32 \<Rightarrow> page_arena option" where
  "drop_reference a index = do {
     s \<leftarrow> slot a index;
     let count = s_ref_count s - 1;
     if count = 0
     then do {
       a \<leftarrow> slot_mut a index (\<lambda>s. s\<lparr>s_ref_count := count, s_state := Retiring\<rparr>);
       append_pending a index
     }
     else slot_mut a index (\<lambda>s. s\<lparr>s_ref_count := count\<rparr>)
   }"

definition release_owned_later :: "page_arena \<Rightarrow> arena_id \<Rightarrow> (unit arena_result \<times> page_arena) option" where
  "release_owned_later a owner =
     checked (validate_live a owner) a
       (do { a \<leftarrow> drop_reference a (id_slot owner); Some (Inr (), a) })"

definition next_retiring_child :: "page_arena \<Rightarrow> u32 \<Rightarrow> arena_id option option" where
  "next_retiring_child a index = do {
     s \<leftarrow> slot a index;
     Some (case s_children s of
             None \<Rightarrow> None
           | Some c \<Rightarrow> if s_retire_child_index s < length c then Some (c ! s_retire_child_index s) else None)
   }"

definition finalize_pending_head :: "page_arena \<Rightarrow> u32 \<Rightarrow> (nat \<times> page_arena) option" where
  "finalize_pending_head a index = do {
     s \<leftarrow> slot a index;
     let next = s_pending_next s;
     let a = a\<lparr>pending_head := next\<rparr>;
     let a = (if next = None then a\<lparr>pending_tail := None\<rparr> else a);
     let reclaimed_bytes = (case s_payload s of None \<Rightarrow> 0 | Some p \<Rightarrow> length p);
     let next_generation = checked_add32 (s_generation s) 1;
     a \<leftarrow> slot_mut a index (\<lambda>s. s\<lparr>s_payload := None, s_children := None, s_ref_count := 0,
            s_pending_next := None, s_retire_child_index := 0\<rparr>);
     a \<leftarrow> (case next_generation of
            Some generation \<Rightarrow> do {
              let old_free_head = free_head a;
              a \<leftarrow> slot_mut a index (\<lambda>s. s\<lparr>s_generation := generation, s_state := SVacant, s_next_free := old_free_head\<rparr>);
              Some (a\<lparr>free_head := Some index\<rparr>)
            }
          | None \<Rightarrow> slot_mut a index (\<lambda>s. s\<lparr>s_state := SRetired, s_next_free := None\<rparr>));
     Some (reclaimed_bytes, a\<lparr>resident_nodes := resident_nodes a - 1,
       live_payload_bytes := live_payload_bytes a - reclaimed_bytes, pending_reclaims := pending_reclaims a - 1\<rparr>)
   }"

subsection \<open>Builds\<close>

definition acquire_build_slot :: "(alloc_request \<Rightarrow> bool) \<Rightarrow> page_arena \<Rightarrow> (arena_build_id arena_result \<times> page_arena) option" where
  "acquire_build_slot mem a =
     and_then
       (case build_free_head a of
          Some index \<Rightarrow> do {
            b \<leftarrow> build_slot a index;
            Some (Inr index, a\<lparr>build_free_head := b_next_free b\<rparr>)
          }
        | None \<Rightarrow>
            Some (if length (builds a) \<ge> max_slots (limits a) then (Inl BuildCapacityExceeded, a)
                  else if \<not> mem BuildEntry then (Inl AllocationFailed, a)
                  else if length (builds a) \<ge> 2 ^ 32 then (Inl BuildCapacityExceeded, a)
                  else (Inr (to_u32 (length (builds a))), a\<lparr>builds := builds a @ [vacant_build]\<rparr>)))
       (\<lambda>index a. do {
          a \<leftarrow> build_slot_mut a index (\<lambda>b. b\<lparr>b_state := Active, b_next_free := None, b_pending_next := None, b_seal_root := None\<rparr>);
          b \<leftarrow> build_slot a index;
          Some (Inr \<lparr>bid_arena = identity a, bid_slot = index, bid_generation = b_generation b\<rparr>,
                a\<lparr>live_builds := live_builds a + 1\<rparr>)
        })"

definition validate_build :: "page_arena \<Rightarrow> arena_build_id \<Rightarrow> build_state \<Rightarrow> unit arena_result" where
  "validate_build a i expected =
     (if bid_arena i \<noteq> identity a then Inl StaleBuild
      else case build_slot a (bid_slot i) of
        None \<Rightarrow> Inl StaleBuild
      | Some b \<Rightarrow>
          if b_generation b \<noteq> bid_generation i then Inl StaleBuild
          else if b_state b \<noteq> expected then Inl BuildNotActive
          else Inr ())"

definition recycle_build :: "page_arena \<Rightarrow> u32 \<Rightarrow> page_arena option" where
  "recycle_build a index = do {
     b \<leftarrow> build_slot a index;
     a \<leftarrow> (case checked_add32 (b_generation b) 1 of
            Some generation \<Rightarrow> do {
              let old_free_head = build_free_head a;
              a \<leftarrow> build_slot_mut a index (\<lambda>b. b\<lparr>b_generation := generation, b_state := BVacant,
                     b_next_free := old_free_head, b_pending_next := None, b_seal_root := None\<rparr>);
              Some (a\<lparr>build_free_head := Some index\<rparr>)
            }
          | None \<Rightarrow> build_slot_mut a index (\<lambda>b. b\<lparr>b_state := BRetired, b_next_free := None,
                     b_pending_next := None, b_seal_root := None\<rparr>));
     Some (a\<lparr>live_builds := live_builds a - 1\<rparr>)
   }"

definition append_pending_build :: "page_arena \<Rightarrow> u32 \<Rightarrow> page_arena option" where
  "append_pending_build a index = do {
     a \<leftarrow> build_slot_mut a index (\<lambda>b. b\<lparr>b_pending_next := None\<rparr>);
     a \<leftarrow> (case pending_build_tail a of
            Some tail \<Rightarrow> build_slot_mut a tail (\<lambda>b. b\<lparr>b_pending_next := Some index\<rparr>)
          | None \<Rightarrow> Some (a\<lparr>pending_build_head := Some index\<rparr>));
     Some (a\<lparr>pending_build_tail := Some index, pending_build_aborts := pending_build_aborts a + 1\<rparr>)
   }"

definition begin_abort :: "page_arena \<Rightarrow> arena_build_id \<Rightarrow> page_arena option" where
  "begin_abort a i = do {
     a \<leftarrow> build_slot_mut a (bid_slot i) (\<lambda>b. b\<lparr>b_state := Aborting, b_seal_root := None\<rparr>);
     b \<leftarrow> build_slot a (bid_slot i);
     if b_owners b = [] then recycle_build a (bid_slot i)
     else append_pending_build a (bid_slot i)
   }"

text \<open>The head of the abort queue gives up its latest owner; a build left without owners is recycled.\<close>

definition abort_one_owner :: "page_arena \<Rightarrow> page_arena option" where
  "abort_one_owner a = do {
     index \<leftarrow> pending_build_head a;
     b \<leftarrow> build_slot a index;
     owner \<leftarrow> (if b_owners b = [] then None else Some (last (b_owners b)));
     a \<leftarrow> build_slot_mut a index (\<lambda>b. b\<lparr>b_owners := butlast (b_owners b)\<rparr>);
     (r, a) \<leftarrow> release_owned_later a owner;
     if r \<noteq> Inr () then None
     else do {
       b \<leftarrow> build_slot a index;
       if b_owners b \<noteq> [] then Some a
       else do {
         let next = b_pending_next b;
         let a = a\<lparr>pending_build_head := next\<rparr>;
         let a = (if next = None then a\<lparr>pending_build_tail := None\<rparr> else a);
         recycle_build (a\<lparr>pending_build_aborts := pending_build_aborts a - 1\<rparr>) index
       }
     }
   }"

definition reserve_build_owners :: "(alloc_request \<Rightarrow> bool) \<Rightarrow> page_arena \<Rightarrow> arena_build_id \<Rightarrow> nat \<Rightarrow> unit arena_result option" where
  "reserve_build_owners mem a i additional = do {
     b \<leftarrow> build_slot a (bid_slot i);
     Some (case checked_add (length (b_owners b)) additional of
             None \<Rightarrow> Inl BuildCapacityExceeded
           | Some required \<Rightarrow>
               if required > max_slots (limits a) then Inl BuildCapacityExceeded
               else if \<not> mem (OwnerEntries additional) then Inl AllocationFailed
               else Inr ())
   }"

definition begin_build :: "(alloc_request \<Rightarrow> bool) \<Rightarrow> page_arena \<Rightarrow> (arena_build_id arena_result \<times> page_arena) option" where
  "begin_build mem a = acquire_build_slot mem a"

text \<open>A build identity stands for the session, the candidate or the seal that holds it.\<close>

definition resume_build :: "page_arena \<Rightarrow> arena_build_id \<Rightarrow> (arena_build_id arena_result \<times> page_arena) option" where
  "resume_build a i =
     checked (Some (validate_build a i Suspended)) a
       (do { a \<leftarrow> build_slot_mut a (bid_slot i) (\<lambda>b. b\<lparr>b_state := Active\<rparr>); Some (Inr i, a) })"

definition validate_seal :: "page_arena \<Rightarrow> candidate_seal \<Rightarrow> unit arena_result" where
  "validate_seal a s = (if seal_complete s then Inl StaleBuild else validate_build a (seal_id s) Sealing)"

definition abort_build :: "page_arena \<Rightarrow> arena_build_id \<Rightarrow> (unit arena_result \<times> page_arena) option" where
  "abort_build a i =
     checked (Some (validate_build a i Suspended)) a (do { a \<leftarrow> begin_abort a i; Some (Inr (), a) })"

text \<open>A failure hands the build and the root handle back.\<close>

definition begin_seal :: "page_arena \<Rightarrow> arena_build_id \<Rightarrow> arena_build_owner \<Rightarrow>
    (((arena_error \<times> arena_build_id \<times> arena_build_owner) + candidate_seal) \<times> page_arena) option" where
  "begin_seal a i root =
     (case validate_build a i Suspended of
        Inl e \<Rightarrow> Some (Inl (e, i, root), a)
      | Inr _ \<Rightarrow>
          if ow_build root \<noteq> i then Some (Inl (StaleBuild, i, root), a)
          else do {
            b \<leftarrow> build_slot a (bid_slot i);
            if b_owners b = [] then Some (Inl (EmptyBuild, i, root), a)
            else if last (b_owners b) \<noteq> ow_id root then Some (Inl (RootNotLatest, i, root), a)
            else do {
              a \<leftarrow> build_slot_mut a (bid_slot i) (\<lambda>b. b\<lparr>b_state := Sealing, b_seal_root := Some (ow_id root)\<rparr>);
              Some (Inr \<lparr>seal_id = i, seal_complete = False\<rparr>, a)
            }
          })"

text \<open>\<^verbatim>\<open>Vec::swap_remove\<close>: the last element takes the place of the one removed.\<close>

definition swap_remove :: "'a list \<Rightarrow> nat \<Rightarrow> ('a \<times> 'a list) option" where
  "swap_remove xs k = (if k < length xs then Some (xs ! k, butlast (xs[k := last xs])) else None)"

text \<open>\<^verbatim>\<open>owners.swap(last - 1, last)\<close>\<close>

definition swap_last :: "'a list \<Rightarrow> 'a list option" where
  "swap_last xs = (let l = length xs - 1 in if length xs < 2 then None else Some (xs[l - 1 := xs ! l, l := xs ! (l - 1)]))"

text \<open>
  \<^verbatim>\<open>poll_seal\<close>: the loop by its remaining fuel. The value is the transitions made and the committed root, once the
  journal holds no other owner; the seal is returned with its completion flag.
\<close>

primrec seal_loop :: "nat \<Rightarrow> page_arena \<Rightarrow> candidate_seal \<Rightarrow> nat \<Rightarrow>
    ((nat \<times> arena_id option) arena_result \<times> candidate_seal \<times> page_arena) option" where
  "seal_loop 0 a s transitions = Some (Inr (transitions, None), s, a)"
| "seal_loop (Suc fuel) a s transitions = do {
     let i = bid_slot (seal_id s);
     b \<leftarrow> build_slot a i;
     if length (b_owners b) > 1
     then do {
       (owner, rest) \<leftarrow> swap_remove (b_owners b) (length (b_owners b) - 2);
       a \<leftarrow> build_slot_mut a i (\<lambda>b. b\<lparr>b_owners := rest\<rparr>);
       (r, a) \<leftarrow> release_owned_later a owner;
       case r of
         Inl e \<Rightarrow> do {
           b \<leftarrow> build_slot a i;
           owners \<leftarrow> swap_last (b_owners b @ [owner]);
           a \<leftarrow> build_slot_mut a i (\<lambda>b. b\<lparr>b_owners := owners\<rparr>);
           Some (Inl e, s, a)
         }
       | Inr _ \<Rightarrow> seal_loop fuel a s (transitions + 1)
     }
     else case b_seal_root b of
       None \<Rightarrow> Some (Inl BuildNotActive, s, a)
     | Some root_id \<Rightarrow>
         if b_owners b = [] then Some (Inl EmptyBuild, s, a)
         else if last (b_owners b) \<noteq> root_id then Some (Inl RootNotLatest, s, a)
         else do {
           a \<leftarrow> build_slot_mut a i (\<lambda>b. b\<lparr>b_owners := butlast (b_owners b)\<rparr>);
           a \<leftarrow> recycle_build a i;
           Some (Inr (transitions + 1, Some root_id), s\<lparr>seal_complete := True\<rparr>, a)
         }
   }"

definition poll_seal :: "page_arena \<Rightarrow> candidate_seal \<Rightarrow> nat \<Rightarrow>
    ((nat \<times> arena_id option) arena_result \<times> candidate_seal \<times> page_arena) option" where
  "poll_seal a s fuel =
     (case validate_seal a s of Inl e \<Rightarrow> Some (Inl e, s, a) | Inr _ \<Rightarrow> seal_loop fuel a s 0)"

definition abort_seal :: "page_arena \<Rightarrow> candidate_seal \<Rightarrow> (unit arena_result \<times> page_arena) option" where
  "abort_seal a s =
     checked (Some (validate_seal a s)) a (do { a \<leftarrow> begin_abort a (seal_id s); Some (Inr (), a) })"

text \<open>A failure hands the root back.\<close>

definition release_committed_root :: "page_arena \<Rightarrow> arena_id \<Rightarrow> (((arena_error \<times> arena_id) + unit) \<times> page_arena) option" where
  "release_committed_root a root = do {
     (r, a) \<leftarrow> release_owned_later a root;
     Some (case r of Inl e \<Rightarrow> Inl (e, root) | Inr _ \<Rightarrow> Inr (), a)
   }"

subsection \<open>Reclamation\<close>

text \<open>One turn of the loop of \<^verbatim>\<open>poll_reclaim\<close>; it is entered only with work pending.\<close>

definition reclaim_node :: "page_arena \<Rightarrow> reclaim_receipt \<Rightarrow> (reclaim_receipt \<times> page_arena) option" where
  "reclaim_node a r = do {
     head \<leftarrow> pending_head a;
     child \<leftarrow> next_retiring_child a head;
     case child of
       Some c \<Rightarrow> do {
         a \<leftarrow> slot_mut a head (\<lambda>s. s\<lparr>s_retire_child_index := s_retire_child_index s + 1\<rparr>);
         a \<leftarrow> drop_reference a (id_slot c);
         Some (r\<lparr>rr_transitions := rr_transitions r + 1\<rparr>, a)
       }
     | None \<Rightarrow> do {
         (reclaimed, a) \<leftarrow> finalize_pending_head a head;
         Some (r\<lparr>rr_transitions := rr_transitions r + 1, rr_nodes_reclaimed := rr_nodes_reclaimed r + 1,
                 rr_payload_bytes_reclaimed := rr_payload_bytes_reclaimed r + reclaimed\<rparr>, a)
       }
   }"

definition reclaim_transition :: "page_arena \<Rightarrow> reclaim_receipt \<Rightarrow> (reclaim_receipt \<times> page_arena) option" where
  "reclaim_transition a r =
     (let build_pending = pending_build_head a \<noteq> None;
          node_pending = pending_head a \<noteq> None;
          lane = (if build_pending \<and> node_pending then next_reclaim_lane a
                  else if build_pending then LaneBuildAbort else LaneNode)
      in case lane of
           LaneBuildAbort \<Rightarrow> do {
             a \<leftarrow> abort_one_owner a;
             Some (r\<lparr>rr_transitions := rr_transitions r + 1\<rparr>, a\<lparr>next_reclaim_lane := LaneNode\<rparr>)
           }
         | LaneNode \<Rightarrow> reclaim_node (a\<lparr>next_reclaim_lane := LaneBuildAbort\<rparr>) r)"

primrec reclaim_loop :: "nat \<Rightarrow> page_arena \<Rightarrow> reclaim_receipt \<Rightarrow> (reclaim_receipt \<times> page_arena) option" where
  "reclaim_loop 0 a r = Some (r, a)"
| "reclaim_loop (Suc fuel) a r =
     (if pending_build_head a = None \<and> pending_head a = None then Some (r, a)
      else do { (r, a) \<leftarrow> reclaim_transition a r; reclaim_loop fuel a r })"

definition default_receipt :: reclaim_receipt where
  "default_receipt = \<lparr>rr_transitions = 0, rr_nodes_reclaimed = 0, rr_payload_bytes_reclaimed = 0, rr_complete = False\<rparr>"

definition poll_reclaim :: "page_arena \<Rightarrow> nat \<Rightarrow> (reclaim_receipt \<times> page_arena) option" where
  "poll_reclaim a fuel = do {
     (r, a) \<leftarrow> reclaim_loop fuel a default_receipt;
     Some (r\<lparr>rr_complete := pending_head a = None \<and> pending_build_head a = None\<rparr>, a)
   }"

subsection \<open>Build sessions\<close>

text \<open>A session borrows the arena; it is the identity of its build.\<close>

definition validate_key :: "page_arena \<Rightarrow> arena_build_id \<Rightarrow> arena_build_id \<Rightarrow> unit arena_result" where
  "validate_key a session key =
     (case validate_build a session Active of
        Inl e \<Rightarrow> Inl e
      | Inr _ \<Rightarrow> if key \<noteq> session then Inl StaleBuild else Inr ())"

definition reserve_owner_capacity :: "(alloc_request \<Rightarrow> bool) \<Rightarrow> page_arena \<Rightarrow> arena_build_id \<Rightarrow> nat \<Rightarrow> unit arena_result option" where
  "reserve_owner_capacity mem a session additional =
     also_ok (Some (validate_build a session Active)) (reserve_build_owners mem a session additional)"

definition remaining_owner_capacity :: "page_arena \<Rightarrow> arena_build_id \<Rightarrow> nat arena_result option" where
  "remaining_owner_capacity a session =
     also_ok (Some (validate_build a session Active))
       (do {
          b \<leftarrow> build_slot a (bid_slot session);
          Some (if length (b_owners b) \<le> max_slots (limits a)
                then Inr (max_slots (limits a) - length (b_owners b)) else Inl BuildCapacityExceeded)
        })"

definition session_allocate :: "(alloc_request \<Rightarrow> bool) \<Rightarrow> page_arena \<Rightarrow> arena_build_id \<Rightarrow> bytes \<Rightarrow> arena_id list \<Rightarrow>
    (arena_build_owner arena_result \<times> page_arena) option" where
  "session_allocate mem a session payload children =
     checked (Some (validate_build a session Active)) a
       (checked (reserve_build_owners mem a session 1) a
         (and_then (allocate_owned mem a payload children)
           (\<lambda>owner a. do {
              a \<leftarrow> build_slot_mut a (bid_slot session) (\<lambda>b. b\<lparr>b_owners := b_owners b @ [owner]\<rparr>);
              Some (Inr \<lparr>ow_build = session, ow_id = owner\<rparr>, a)
            })))"

definition session_retain :: "(alloc_request \<Rightarrow> bool) \<Rightarrow> page_arena \<Rightarrow> arena_build_id \<Rightarrow> arena_id \<Rightarrow>
    (arena_build_owner arena_result \<times> page_arena) option" where
  "session_retain mem a session h =
     checked (Some (validate_build a session Active)) a
       (checked (validate_owned_retain a h) a
         (checked (reserve_build_owners mem a session 1) a
           (and_then (retain_owned a h)
             (\<lambda>owner a. do {
                a \<leftarrow> build_slot_mut a (bid_slot session) (\<lambda>b. b\<lparr>b_owners := b_owners b @ [owner]\<rparr>);
                Some (Inr \<lparr>ow_build = session, ow_id = h\<rparr>, a)
              }))))"

definition validate_owner :: "page_arena \<Rightarrow> arena_build_id \<Rightarrow> arena_build_owner \<Rightarrow> unit arena_result option" where
  "validate_owner a session owner =
     also_ok (Some (validate_build a session Active))
       (if ow_build owner \<noteq> session then Some (Inl StaleBuild)
        else do {
          b \<leftarrow> build_slot a (bid_slot session);
          Some (if ow_id owner \<in> set (b_owners b) then Inr () else Inl OwnerNotJournalled)
        })"

text \<open>\<^verbatim>\<open>iter().position(...)\<close>: the first index that holds the handle.\<close>

primrec owner_position :: "'a \<Rightarrow> 'a list \<Rightarrow> nat option" where
  "owner_position x [] = None"
| "owner_position x (y # ys) = (if y = x then Some 0 else map_option Suc (owner_position x ys))"

definition session_release :: "page_arena \<Rightarrow> arena_build_id \<Rightarrow> arena_build_owner \<Rightarrow> (unit arena_result \<times> page_arena) option" where
  "session_release a session owner =
     checked (Some (validate_build a session Active)) a
       (if ow_build owner \<noteq> session then Some (Inl StaleBuild, a)
        else do {
          b \<leftarrow> build_slot a (bid_slot session);
          case owner_position (ow_id owner) (b_owners b) of
            None \<Rightarrow> Some (Inl OwnerNotJournalled, a)
          | Some k \<Rightarrow> do {
              (journal_refs, rest) \<leftarrow> swap_remove (b_owners b) k;
              a \<leftarrow> build_slot_mut a (bid_slot session) (\<lambda>b. b\<lparr>b_owners := rest\<rparr>);
              (r, a) \<leftarrow> release_owned_later a journal_refs;
              case r of
                Inl e \<Rightarrow> do {
                  a \<leftarrow> build_slot_mut a (bid_slot session) (\<lambda>b. b\<lparr>b_owners := b_owners b @ [journal_refs]\<rparr>);
                  Some (Inl e, a)
                }
              | Inr _ \<Rightarrow> Some (Inr (), a)
            }
        })"

text \<open>Dropping an unfinished session queues its build for abort.\<close>

definition session_drop :: "page_arena \<Rightarrow> arena_build_id \<Rightarrow> page_arena option" where
  "session_drop a session =
     (case validate_build a session Active of Inl _ \<Rightarrow> Some a | Inr _ \<Rightarrow> begin_abort a session)"

text \<open>\<^verbatim>\<open>suspend\<close> consumes the session: on an error it is dropped unfinished.\<close>

definition session_suspend :: "page_arena \<Rightarrow> arena_build_id \<Rightarrow> (arena_build_id arena_result \<times> page_arena) option" where
  "session_suspend a session =
     (case validate_build a session Active of
        Inl e \<Rightarrow> do { a \<leftarrow> session_drop a session; Some (Inl e, a) }
      | Inr _ \<Rightarrow> do {
          b \<leftarrow> build_slot a (bid_slot session);
          if b_owners b = [] then do { a \<leftarrow> session_drop a session; Some (Inl EmptyBuild, a) }
          else do {
            a \<leftarrow> build_slot_mut a (bid_slot session) (\<lambda>b. b\<lparr>b_state := Suspended\<rparr>);
            Some (Inr session, a)
          }
        })"

end
