(* ===== verification/Flark_Links.thy ===== *)
theory Flark_Links
  imports Flark_Prelude "HOL-Library.Multiset"
begin

text \<open>
  Intrusive lists: the arena threads its free lists and its queues through the cells of a vector, each cell
  holding the index of the next. \<open>link_chain\<close> relates a head link to the list of indices it leads through, and
  \<open>links\<close> adds that those are exactly the cells with a given property, each once. The laws here are
  what the four lists of the arena share: pushing and popping at the head, appending at the tail, and
  indifference to updates of other cells or other fields. The theory also has the law for the sum of a
  measure over a vector when one cell changes.
\<close>

primrec link_chain :: "('c \<Rightarrow> u32 option) \<Rightarrow> 'c list \<Rightarrow> u32 option \<Rightarrow> u32 list \<Rightarrow> bool" where
  "link_chain nx cs h [] \<longleftrightarrow> h = None"
| "link_chain nx cs h (i # is) \<longleftrightarrow> h = Some i \<and> link_chain nx cs (nx (cs ! unat i)) is"

text \<open>The members of the list: the indices below \<open>n\<close> that satisfy \<open>P\<close> with their cell.\<close>

definition links :: "('c \<Rightarrow> u32 option) \<Rightarrow> (u32 \<Rightarrow> 'c \<Rightarrow> bool) \<Rightarrow> 'c list \<Rightarrow> nat \<Rightarrow> u32 option \<Rightarrow> u32 list \<Rightarrow> bool" where
  "links nx P cs n h is \<longleftrightarrow>
     link_chain nx cs h is \<and> distinct is \<and> n \<le> length cs \<and>
     (\<forall>i. i \<in> set is \<longleftrightarrow> unat i < n \<and> P i (cs ! unat i))"

lemma linksD:
  assumes "links nx P cs n h is"
  shows "link_chain nx cs h is" "distinct is" "n \<le> length cs" "i \<in> set is \<longleftrightarrow> unat i < n \<and> P i (cs ! unat i)"
  using assms unfolding links_def by simp_all

lemma linksI:
  assumes "link_chain nx cs h is" "distinct is" "n \<le> length cs" "\<And>i. i \<in> set is \<longleftrightarrow> unat i < n \<and> P i (cs ! unat i)"
  shows "links nx P cs n h is"
  using assms unfolding links_def by blast

lemma unat_eq: "unat (i :: u32) = unat j \<longleftrightarrow> i = j"
  by (simp add: word_unat_eq_iff)

lemma link_chain_head: "link_chain nx cs h is \<Longrightarrow> h = (if is = [] then None else Some (hd is))"
  by (cases "is") simp_all

lemma link_chain_other:
  "i \<notin> set is \<Longrightarrow> link_chain nx (cs[unat i := c]) h is = link_chain nx cs h is"
proof (induction "is" arbitrary: h)
  case (Cons j js)
  then have "unat j \<noteq> unat i" by (auto simp: unat_eq)
  then show ?case using Cons by simp
qed simp

lemma link_chain_same:
  "nx c = nx (cs ! k) \<Longrightarrow> link_chain nx (cs[k := c]) h is = link_chain nx cs h is"
proof (induction "is" arbitrary: h)
  case (Cons j js)
  have "nx (cs[k := c] ! unat j) = nx (cs ! unat j)"
    using Cons.prems by (cases "unat j = k"; cases "k < length cs") (simp_all add: list_update_beyond)
  then show ?case using Cons.IH [OF Cons.prems] by simp
qed simp

lemma link_chain_append_cells:
  "\<forall>i\<in>set is. unat i < length cs \<Longrightarrow> link_chain nx (cs @ ds) h is = link_chain nx cs h is"
  by (induction "is" arbitrary: h) (simp_all add: nth_append)

lemma link_chain_snoc:
  assumes "link_chain nx cs h is" "is \<noteq> []" "distinct is" "unat (last is) < length cs"
    "nx c = Some j" "j \<notin> set is" "nx (cs ! unat j) = None"
  shows "link_chain nx (cs[unat (last is) := c]) h (is @ [j])"
  using assms
proof (induction "is" arbitrary: h)
  case (Cons i js)
  show ?case
  proof (cases "js = []")
    case True
    then have "unat j \<noteq> unat i" using Cons.prems by (auto simp: unat_eq)
    then show ?thesis using Cons.prems True by simp
  next
    case False
    then have "unat i \<noteq> unat (last js)"
      using Cons.prems by (auto simp: unat_eq)
    then show ?thesis using Cons False by simp
  qed
qed simp

lemma link_chain_last: "link_chain nx cs h is \<Longrightarrow> is \<noteq> [] \<Longrightarrow> nx (cs ! unat (last is)) = None"
  by (induction "is" arbitrary: h) auto

lemma links_range: "links nx P cs n h is \<Longrightarrow> i \<in> set is \<Longrightarrow> unat i < length cs"
  using linksD(3,4) [of nx P cs n h "is"] by fastforce

text \<open>A cell changes freely when its property stays and its link stays or it has not the property.\<close>

lemma links_keep:
  assumes "links nx P cs n h is" "\<And>i. unat i = k \<Longrightarrow> P i c = P i (cs ! k)"
    "nx c = nx (cs ! k) \<or> (\<forall>i. unat i = k \<longrightarrow> \<not> P i c)"
  shows "links nx P (cs[k := c]) n h is"
proof -
  note l = linksD [OF assms(1)]
  have p: "P i (cs[k := c] ! unat i) = P i (cs ! unat i)" for i :: u32
    using assms(2) [of i] by (cases "unat i = k"; cases "k < length cs") (simp_all add: list_update_beyond)
  have "link_chain nx (cs[k := c]) h is"
  proof (cases "nx c = nx (cs ! k)")
    case True
    then show ?thesis using l(1) by (simp add: link_chain_same)
  next
    case False
    then have np: "\<not> P i (cs ! k)" if "unat i = k" for i using assms(2,3) that by blast
    have "link_chain nx (cs[k := c]) g js = link_chain nx cs g js" if "\<forall>i\<in>set js. unat i \<noteq> k" for g js
      using that by (induction js arbitrary: g) simp_all
    moreover have "\<forall>i\<in>set is. unat i \<noteq> k" using np l(4) by blast
    ultimately show ?thesis using l(1) by simp
  qed
  then show ?thesis using l(2,3,4) p by (intro linksI) simp_all
qed

lemma links_cong:
  assumes "links nx P cs n h is" "\<And>i. unat i < n \<Longrightarrow> P i (cs ! unat i) = Q i (cs ! unat i)"
  shows "links nx Q cs n h is"
  using assms unfolding links_def by blast

text \<open>The cell popped may lose the property by its new content or by the new property \<open>Q\<close>.\<close>

lemma links_pop:
  assumes "links nx P cs n (Some i) is" "\<not> Q i c" "\<And>j. j \<noteq> i \<Longrightarrow> Q j = P j"
  shows "\<exists>js. is = i # js \<and> links nx Q (cs[unat i := c]) n (nx (cs ! unat i)) js"
proof -
  note l = linksD [OF assms(1)]
  obtain js where js: "is = i # js" using l(1) by (cases "is") auto
  have i: "unat i < length cs" using links_range [OF assms(1), of i] js by simp
  have "j \<in> set js \<longleftrightarrow> unat j < n \<and> Q j (cs[unat i := c] ! unat j)" for j
    using l(2) l(4) [of j] assms(2,3) js i by (cases "j = i") (simp_all add: unat_eq)
  then have "links nx Q (cs[unat i := c]) n (nx (cs ! unat i)) js"
    using l(1,2,3) js by (intro linksI) (simp_all add: link_chain_other)
  then show ?thesis using js by blast
qed

lemma links_push:
  assumes "links nx P cs n h is" "P i c" "nx c = h" "unat i < n" "\<not> P i (cs ! unat i)"
  shows "links nx P (cs[unat i := c]) n (Some i) (i # is)"
proof -
  note l = linksD [OF assms(1)]
  have i: "i \<notin> set is" "unat i < length cs" using l(3) l(4) [of i] assms by auto
  have "j \<in> set (i # is) \<longleftrightarrow> unat j < n \<and> P j (cs[unat i := c] ! unat j)" for j
    using l(4) [of j] assms i by (cases "j = i") (simp_all add: unat_eq)
  then show ?thesis using l(1,2,3) assms i by (intro linksI) (simp_all add: link_chain_other)
qed

text \<open>Appending at the tail: the new cell \<open>c\<close> gets the property with no successor, then the last cell links to it.\<close>

lemma links_enqueue_empty:
  assumes "links nx P cs n h []" "P i c" "nx c = None" "unat i < n" "\<not> P i (cs ! unat i)"
  shows "links nx P (cs[unat i := c]) n (Some i) [i]"
  using links_push [OF assms(1,2) _ assms(4,5)] linksD(1) [OF assms(1)] assms(3) by simp

lemma links_enqueue:
  assumes "links nx P cs n h is" and c: "P i c" "nx c = None" "unat i < n" "\<not> P i (cs ! unat i)"
    and ne: "is \<noteq> []" and d: "P (last is) d" "nx d = Some i"
  shows "links nx P (cs[unat i := c, unat (last is) := d]) n h (is @ [i])"
proof -
  let ?t = "last is" and ?cs = "cs[unat i := c, unat (last is) := d]"
  note l = linksD [OF assms(1)]
  have i: "i \<notin> set is" "unat i < length cs" using l(3) l(4) [of i] c by auto
  have t: "?t \<in> set is" "unat ?t < length cs" using ne links_range [OF assms(1)] by simp_all
  then have it: "unat ?t \<noteq> unat i" using i by (auto simp: unat_eq)
  have ch: "link_chain nx ?cs h (is @ [i])"
    using ne l(1,2) i c(2) d t by (intro link_chain_snoc) (simp_all add: link_chain_other)
  have "j \<in> set (is @ [i]) \<longleftrightarrow> unat j < n \<and> P j (?cs ! unat j)" for j
  proof (cases "j = i \<or> j = ?t")
    case True
    then show ?thesis using c d i t it l(4) [of ?t] by auto
  next
    case False
    then have "unat j \<noteq> unat i" "unat j \<noteq> unat ?t" by (simp_all add: unat_eq)
    then have "?cs ! unat j = cs ! unat j" by simp
    then show ?thesis using l(4) [of j] False by simp
  qed
  then show ?thesis using ch i l(2,3) by (intro linksI) simp_all
qed

lemma links_grow:
  assumes "links nx P cs n h is" "\<And>i. n \<le> unat i \<Longrightarrow> unat i < m \<Longrightarrow> \<not> P i ((cs @ ds) ! unat i)" "n \<le> m" "m \<le> length (cs @ ds)"
  shows "links nx P (cs @ ds) m h is"
proof -
  note l = linksD [OF assms(1)]
  have r: "\<forall>i\<in>set is. unat i < length cs" using links_range [OF assms(1)] by blast
  have "i \<in> set is \<longleftrightarrow> unat i < m \<and> P i ((cs @ ds) ! unat i)" for i
    using l(3) l(4) [of i] assms(2) [of i] assms(3) by (cases "unat i < n") (auto simp: nth_append)
  then show ?thesis using l(1,2) assms(4) link_chain_append_cells [OF r] by (intro linksI) simp_all
qed

lemma links_length: "links nx P cs n h is \<Longrightarrow> length is \<le> n"
proof -
  assume l: "links nx P cs n h is"
  have "unat ` set is \<subseteq> {..<n}" using linksD(4) [OF l] by auto
  then have "card (unat ` set is) \<le> n" using card_mono [of "{..<n}"] by simp
  moreover have "inj_on unat (set is)" by (simp add: inj_on_def unat_eq)
  moreover have "card (set is) = length is" using linksD(2) [OF l] distinct_card by blast
  ultimately show ?thesis by (simp add: card_image)
qed

subsection \<open>Sums over a vector\<close>

lemma sum_list_map_update:
  fixes f :: "'c \<Rightarrow> 'b :: comm_monoid_add"
  shows "k < length cs \<Longrightarrow> sum_list (map f (cs[k := c])) + f (cs ! k) = sum_list (map f cs) + f c"
proof (induction cs arbitrary: k)
  case (Cons x xs)
  then show ?case by (cases k) (auto simp: ac_simps)
qed simp

lemma sum_list_map_same:
  fixes f :: "'c \<Rightarrow> 'b :: cancel_comm_monoid_add"
  assumes "f c = f (cs ! k)"
  shows "sum_list (map f (cs[k := c])) = sum_list (map f cs)"
  using sum_list_map_update [of k cs f c] assms by (cases "k < length cs") (simp_all add: list_update_beyond)

end
