(* ===== verification/Flark_Arena_Nodes.thy ===== *)
theory Flark_Arena_Nodes
  imports Flark_Arena Flark_Links
begin

text \<open>
  The invariant of the arena's nodes and that every node operation keeps it. The references from
  outside the nodes (journal entries of builds and committed roots) are a parameter \<open>X\<close> of the
  invariant, a multiset of handles: allocating and retaining add one, releasing takes one away.
\<close>

subsection \<open>The flat view of the segments\<close>

definition slots :: "page_arena \<Rightarrow> arena_slot list" where
  "slots a = concat (segments a)"

definition segs_ok :: "page_arena \<Rightarrow> bool" where
  "segs_ok a \<longleftrightarrow> (\<forall>g\<in>set (segments a). length g = SLOTS_PER_SEGMENT)"

text \<open>The arena with its slots replaced, cut back into as many segments.\<close>

definition with_slots :: "page_arena \<Rightarrow> arena_slot list \<Rightarrow> page_arena" where
  "with_slots a xs = a\<lparr>segments := map (\<lambda>d. take SLOTS_PER_SEGMENT (drop (d * SLOTS_PER_SEGMENT) xs)) [0..<length (segments a)]\<rparr>"

lemma per_segment [simp]: "0 < SLOTS_PER_SEGMENT" by (simp add: SLOTS_PER_SEGMENT_def)

lemma concat_blocks:
  "\<forall>g\<in>set xss. length g = n \<Longrightarrow> 0 < n \<Longrightarrow>
   length (concat xss) = length xss * n \<and> (\<forall>k < length xss * n. concat xss ! k = xss ! (k div n) ! (k mod n))"
proof (induction xss)
  case (Cons x xs)
  then have IH: "length (concat xs) = length xs * n" "\<And>k. k < length xs * n \<Longrightarrow> concat xs ! k = xs ! (k div n) ! (k mod n)"
    by simp_all
  have "concat (x # xs) ! k = (x # xs) ! (k div n) ! (k mod n)" if k: "k < length (x # xs) * n" for k
  proof (cases "k < n")
    case True
    then show ?thesis using Cons.prems by (simp add: nth_append)
  next
    case False
    then have "k div n = Suc ((k - n) div n)" "k mod n = (k - n) mod n"
      using Cons.prems(2) by (simp_all add: le_div_geq le_mod_geq)
    then show ?thesis using False k Cons.prems IH(2) [of "k - n"] by (simp add: nth_append)
  qed
  then show ?case using Cons.prems IH(1) by simp
qed simp

lemma slots_length: "segs_ok a \<Longrightarrow> length (slots a) = length (segments a) * SLOTS_PER_SEGMENT"
  using concat_blocks [of "segments a" SLOTS_PER_SEGMENT] by (simp add: segs_ok_def slots_def)

lemma slots_nth:
  "segs_ok a \<Longrightarrow> k < length (slots a) \<Longrightarrow>
   k div SLOTS_PER_SEGMENT < length (segments a) \<and> k mod SLOTS_PER_SEGMENT < length (segments a ! (k div SLOTS_PER_SEGMENT)) \<and>
   segments a ! (k div SLOTS_PER_SEGMENT) ! (k mod SLOTS_PER_SEGMENT) = slots a ! k"
  using concat_blocks [of "segments a" SLOTS_PER_SEGMENT] slots_length [of a]
  by (simp add: segs_ok_def slots_def less_mult_imp_div_less)

lemma slot_flat: "segs_ok a \<Longrightarrow> slot a i = (if unat i < length (slots a) then Some (slots a ! unat i) else None)"
  using slots_nth [of a "unat i"] slots_length [of a]
  by (auto simp: slot_def Let_def segs_ok_def div_less_iff_less_mult)

lemma with_slots_flat:
  assumes "length xs = length (segments a) * SLOTS_PER_SEGMENT"
  shows "segs_ok (with_slots a xs)" "slots (with_slots a xs) = xs"
proof -
  have len: "length (take SLOTS_PER_SEGMENT (drop (d * SLOTS_PER_SEGMENT) xs)) = SLOTS_PER_SEGMENT"
    if "d < length (segments a)" for d
  proof -
    have "Suc d * SLOTS_PER_SEGMENT \<le> length xs" using that assms by (simp only: mult_le_mono1 Suc_leI)
    then show ?thesis by simp
  qed
  then show ok: "segs_ok (with_slots a xs)" by (auto simp: segs_ok_def with_slots_def)
  show "slots (with_slots a xs) = xs"
  proof (rule nth_equalityI)
    show l: "length (slots (with_slots a xs)) = length xs"
      using slots_length [OF ok] assms by (simp add: with_slots_def)
    fix k assume k: "k < length (slots (with_slots a xs))"
    then have "slots (with_slots a xs) ! k = segments (with_slots a xs) ! (k div SLOTS_PER_SEGMENT) ! (k mod SLOTS_PER_SEGMENT)"
      using slots_nth [OF ok] by simp
    also have "\<dots> = xs ! k"
    proof -
      have "k div SLOTS_PER_SEGMENT < length (segments a)" using k l assms by (simp add: less_mult_imp_div_less)
      moreover have "k div SLOTS_PER_SEGMENT * SLOTS_PER_SEGMENT \<le> length xs"
        using k l div_times_less_eq_dividend [of k SLOTS_PER_SEGMENT] by linarith
      ultimately show ?thesis by (simp add: with_slots_def)
    qed
    finally show "slots (with_slots a xs) ! k = xs ! k" .
  qed
qed

lemma with_slots_slots: "segs_ok a \<Longrightarrow> with_slots a (slots a) = a"
proof -
  assume ok: "segs_ok a"
  have "map (\<lambda>d. take SLOTS_PER_SEGMENT (drop (d * SLOTS_PER_SEGMENT) (slots a))) [0..<length (segments a)] = segments a"
  proof (rule nth_equalityI)
    fix d assume "d < length (map (\<lambda>d. take SLOTS_PER_SEGMENT (drop (d * SLOTS_PER_SEGMENT) (slots a))) [0..<length (segments a)])"
    then have d: "d < length (segments a)" by simp
    have g: "length (segments a ! d) = SLOTS_PER_SEGMENT" using d ok by (simp add: segs_ok_def)
    have le: "Suc d * SLOTS_PER_SEGMENT \<le> length (slots a)"
      using d slots_length [OF ok] by (simp only: mult_le_mono1 Suc_leI)
    have "take SLOTS_PER_SEGMENT (drop (d * SLOTS_PER_SEGMENT) (slots a)) = segments a ! d"
    proof (rule nth_equalityI)
      fix m assume "m < length (take SLOTS_PER_SEGMENT (drop (d * SLOTS_PER_SEGMENT) (slots a)))"
      then have m: "m < SLOTS_PER_SEGMENT" "d * SLOTS_PER_SEGMENT + m < length (slots a)" using le by simp_all
      then show "take SLOTS_PER_SEGMENT (drop (d * SLOTS_PER_SEGMENT) (slots a)) ! m = segments a ! d ! m"
        using slots_nth [OF ok m(2)] le by simp
    qed (use le g in simp)
    then show "map (\<lambda>d. take SLOTS_PER_SEGMENT (drop (d * SLOTS_PER_SEGMENT) (slots a))) [0..<length (segments a)] ! d = segments a ! d"
      using d by simp
  qed simp
  then show ?thesis by (simp add: with_slots_def)
qed

lemma slot_mut_flat:
  assumes ok: "segs_ok a"
  shows "slot_mut a i f = (if unat i < length (slots a) then Some (with_slots a ((slots a)[unat i := f (slots a ! unat i)])) else None)"
proof (cases "unat i < length (slots a)")
  case True
  let ?d = "unat i div SLOTS_PER_SEGMENT" and ?m = "unat i mod SLOTS_PER_SEGMENT"
  let ?b = "a\<lparr>segments := (segments a)[?d := (segments a ! ?d)[?m := f (segments a ! ?d ! ?m)]]\<rparr>"
  note n = slots_nth [OF ok True]
  have b: "segs_ok ?b" using ok n by (auto simp: segs_ok_def dest!: set_update_subset_insert [THEN subsetD])
  have "slots ?b = (slots a)[unat i := f (slots a ! unat i)]"
  proof (rule nth_equalityI)
    show len: "length (slots ?b) = length ((slots a)[unat i := f (slots a ! unat i)])"
      using slots_length [OF b] slots_length [OF ok] by simp
    fix k assume k: "k < length (slots ?b)"
    then have ka: "k < length (slots a)" using len by simp
    have eq: "k = unat i \<longleftrightarrow> k div SLOTS_PER_SEGMENT = ?d \<and> k mod SLOTS_PER_SEGMENT = ?m"
      by (metis div_mult_mod_eq)
    have "slots ?b ! k = segments ?b ! (k div SLOTS_PER_SEGMENT) ! (k mod SLOTS_PER_SEGMENT)"
      using slots_nth [OF b k] by argo
    also have "\<dots> = (slots a)[unat i := f (slots a ! unat i)] ! k"
    proof (cases "k = unat i")
      case True
      then show ?thesis using n \<open>unat i < length (slots a)\<close> by simp
    next
      case False
      then show ?thesis using slots_nth [OF ok ka] n eq
        by (cases "k div SLOTS_PER_SEGMENT = ?d") auto
    qed
    finally show "slots ?b ! k = (slots a)[unat i := f (slots a ! unat i)] ! k" .
  qed
  moreover have "with_slots ?b xs = with_slots a xs" for xs by (simp add: with_slots_def)
  ultimately have "with_slots a ((slots a)[unat i := f (slots a ! unat i)]) = ?b"
    using with_slots_slots [OF b] by metis
  then show ?thesis using n True by (simp add: slot_mut_def Let_def)
next
  case False
  then show ?thesis using slots_length [OF ok] ok
    by (auto simp: slot_mut_def Let_def segs_ok_def div_less_iff_less_mult)
qed

lemma with_slots_simps [simp]:
  "identity (with_slots a xs) = identity a" "limits (with_slots a xs) = limits a"
  "next_unused (with_slots a xs) = next_unused a" "free_head (with_slots a xs) = free_head a"
  "pending_head (with_slots a xs) = pending_head a" "pending_tail (with_slots a xs) = pending_tail a"
  "resident_nodes (with_slots a xs) = resident_nodes a" "live_payload_bytes (with_slots a xs) = live_payload_bytes a"
  "reserved_external_payload_bytes (with_slots a xs) = reserved_external_payload_bytes a"
  "pending_reclaims (with_slots a xs) = pending_reclaims a" "builds (with_slots a xs) = builds a"
  "build_free_head (with_slots a xs) = build_free_head a" "pending_build_head (with_slots a xs) = pending_build_head a"
  "pending_build_tail (with_slots a xs) = pending_build_tail a" "live_builds (with_slots a xs) = live_builds a"
  "pending_build_aborts (with_slots a xs) = pending_build_aborts a" "next_reclaim_lane (with_slots a xs) = next_reclaim_lane a"
  "length (segments (with_slots a xs)) = length (segments a)" "with_slots (with_slots a xs) ys = with_slots a ys"
  by (simp_all add: with_slots_def)

text \<open>The slots do not depend on the other fields.\<close>

lemma slots_fields [simp]:
  "slots (a\<lparr>free_head := h\<rparr>) = slots a" "slots (a\<lparr>next_unused := n\<rparr>) = slots a"
  "slots (a\<lparr>pending_head := h\<rparr>) = slots a" "slots (a\<lparr>pending_tail := h\<rparr>) = slots a"
  "slots (a\<lparr>resident_nodes := n\<rparr>) = slots a" "slots (a\<lparr>live_payload_bytes := n\<rparr>) = slots a"
  "slots (a\<lparr>reserved_external_payload_bytes := n\<rparr>) = slots a" "slots (a\<lparr>pending_reclaims := n\<rparr>) = slots a"
  "slots (a\<lparr>builds := bs\<rparr>) = slots a" "slots (a\<lparr>build_free_head := h\<rparr>) = slots a"
  "slots (a\<lparr>pending_build_head := h\<rparr>) = slots a" "slots (a\<lparr>pending_build_tail := h\<rparr>) = slots a"
  "slots (a\<lparr>live_builds := n\<rparr>) = slots a" "slots (a\<lparr>pending_build_aborts := n\<rparr>) = slots a"
  "slots (a\<lparr>next_reclaim_lane := l\<rparr>) = slots a"
  by (simp_all add: slots_def)

lemma segs_ok_fields [simp]:
  "segs_ok (a\<lparr>free_head := h\<rparr>) = segs_ok a" "segs_ok (a\<lparr>next_unused := n\<rparr>) = segs_ok a"
  "segs_ok (a\<lparr>pending_head := h\<rparr>) = segs_ok a" "segs_ok (a\<lparr>pending_tail := h\<rparr>) = segs_ok a"
  "segs_ok (a\<lparr>resident_nodes := n\<rparr>) = segs_ok a" "segs_ok (a\<lparr>live_payload_bytes := n\<rparr>) = segs_ok a"
  "segs_ok (a\<lparr>reserved_external_payload_bytes := n\<rparr>) = segs_ok a" "segs_ok (a\<lparr>pending_reclaims := n\<rparr>) = segs_ok a"
  "segs_ok (a\<lparr>builds := bs\<rparr>) = segs_ok a" "segs_ok (a\<lparr>build_free_head := h\<rparr>) = segs_ok a"
  "segs_ok (a\<lparr>pending_build_head := h\<rparr>) = segs_ok a" "segs_ok (a\<lparr>pending_build_tail := h\<rparr>) = segs_ok a"
  "segs_ok (a\<lparr>live_builds := n\<rparr>) = segs_ok a" "segs_ok (a\<lparr>pending_build_aborts := n\<rparr>) = segs_ok a"
  "segs_ok (a\<lparr>next_reclaim_lane := l\<rparr>) = segs_ok a"
  by (simp_all add: segs_ok_def)

lemma with_slots_fields [simp]:
  "with_slots (a\<lparr>free_head := h\<rparr>) xs = (with_slots a xs)\<lparr>free_head := h\<rparr>"
  "with_slots (a\<lparr>pending_head := h\<rparr>) xs = (with_slots a xs)\<lparr>pending_head := h\<rparr>"
  "with_slots (a\<lparr>pending_tail := h\<rparr>) xs = (with_slots a xs)\<lparr>pending_tail := h\<rparr>"
  "with_slots (a\<lparr>builds := bs\<rparr>) xs = (with_slots a xs)\<lparr>builds := bs\<rparr>"
  "with_slots (a\<lparr>next_reclaim_lane := l\<rparr>) xs = (with_slots a xs)\<lparr>next_reclaim_lane := l\<rparr>"
  by (simp_all add: with_slots_def)

lemma with_slots_ok [simp]:
  assumes "segs_ok a" "length xs = length (slots a)"
  shows "segs_ok (with_slots a xs)" "slots (with_slots a xs) = xs"
  using with_slots_flat [of xs a] slots_length [of a] assms by simp_all

subsection \<open>The invariant\<close>

text \<open>The handles a slot still holds a reference to: its children that retirement has not passed.\<close>

definition held :: "arena_slot \<Rightarrow> arena_id list" where
  "held s = drop (s_retire_child_index s) (case s_children s of None \<Rightarrow> [] | Some c \<Rightarrow> c)"

definition payload_len :: "arena_slot \<Rightarrow> nat" where
  "payload_len s = (case s_payload s of None \<Rightarrow> 0 | Some p \<Rightarrow> length p)"

definition resident :: "arena_slot \<Rightarrow> bool" where
  "resident s \<longleftrightarrow> s_payload s \<noteq> None"

definition slot_wf :: "arena_slot \<Rightarrow> bool" where
  "slot_wf s \<longleftrightarrow>
     (case s_state s of
        SVacant \<Rightarrow> s_payload s = None \<and> s_children s = None
      | Live \<Rightarrow> s_payload s \<noteq> None \<and> s_children s \<noteq> None \<and> s_retire_child_index s = 0 \<and> s_ref_count s \<noteq> 0
      | Retiring \<Rightarrow> s_payload s \<noteq> None \<and> s_children s \<noteq> None
      | SRetired \<Rightarrow> s_payload s = None \<and> s_children s = None \<and> s_generation s = U32_MAX)"

definition shape :: "page_arena \<Rightarrow> bool" where
  "shape a \<longleftrightarrow> segs_ok a \<and> next_unused a \<le> length (slots a) \<and> next_unused a \<le> max_slots (limits a) \<and>
     max_slots (limits a) < 2 ^ 32 \<and>
     (\<forall>k. next_unused a \<le> k \<and> k < length (slots a) \<longrightarrow> slots a ! k = vacant_slot)"

text \<open>\<open>hole\<close> is the slot an allocation has taken off the free list and not filled yet.\<close>

definition free_slot :: "u32 option \<Rightarrow> u32 \<Rightarrow> arena_slot \<Rightarrow> bool" where
  "free_slot hole i s \<longleftrightarrow> s_state s = SVacant \<and> hole \<noteq> Some i"

definition free_ok :: "u32 option \<Rightarrow> page_arena \<Rightarrow> bool" where
  "free_ok hole a \<longleftrightarrow> (\<exists>fs. links s_next_free (free_slot hole) (slots a) (next_unused a) (free_head a) fs)"

definition retiring_slot :: "u32 \<Rightarrow> arena_slot \<Rightarrow> bool" where
  "retiring_slot i s \<longleftrightarrow> s_state s = Retiring"

definition pending_ok :: "page_arena \<Rightarrow> bool" where
  "pending_ok a \<longleftrightarrow>
     (\<exists>ps. links s_pending_next retiring_slot (slots a) (next_unused a) (pending_head a) ps \<and>
           pending_tail a = (if ps = [] then None else Some (last ps)) \<and> pending_reclaims a = length ps)"

definition total_of :: "(arena_slot \<Rightarrow> 'b :: comm_monoid_add) \<Rightarrow> page_arena \<Rightarrow> 'b" where
  "total_of f a = sum_list (map f (slots a))"

definition totals_ok :: "page_arena \<Rightarrow> bool" where
  "totals_ok a \<longleftrightarrow> resident_nodes a = total_of (\<lambda>s. of_bool (resident s)) a \<and> live_payload_bytes a = total_of payload_len a"

definition live_at :: "page_arena \<Rightarrow> arena_id \<Rightarrow> bool" where
  "live_at a h \<longleftrightarrow> id_arena h = identity a \<and> unat (id_slot h) < next_unused a \<and>
     s_generation (slots a ! unat (id_slot h)) = id_generation h \<and> s_state (slots a ! unat (id_slot h)) = Live"

text \<open>All references to nodes, and the references to one slot.\<close>

definition refs :: "arena_id multiset \<Rightarrow> page_arena \<Rightarrow> arena_id multiset" where
  "refs X a = X + total_of (\<lambda>s. mset (held s)) a"

definition refs_to :: "arena_id multiset \<Rightarrow> u32 \<Rightarrow> nat" where
  "refs_to M i = size {#h \<in># M. id_slot h = i#}"

definition counted :: "arena_id multiset \<Rightarrow> page_arena \<Rightarrow> bool" where
  "counted X a \<longleftrightarrow> (\<forall>h. h \<in># refs X a \<longrightarrow> live_at a h) \<and>
     (\<forall>i. unat i < next_unused a \<and> s_state (slots a ! unat i) = Live \<longrightarrow>
          unat (s_ref_count (slots a ! unat i)) = refs_to (refs X a) i)"

text \<open>The nodes are acyclic: some rank falls along every edge.\<close>

definition ranked :: "page_arena \<Rightarrow> bool" where
  "ranked a \<longleftrightarrow> (\<exists>rank :: u32 \<Rightarrow> nat. \<forall>i. unat i < length (slots a) \<longrightarrow> (\<forall>c\<in>set (held (slots a ! unat i)). rank (id_slot c) < rank i))"

text \<open>All but the retirement queue, and all.\<close>

definition core_inv :: "u32 option \<Rightarrow> arena_id multiset \<Rightarrow> page_arena \<Rightarrow> bool" where
  "core_inv hole X a \<longleftrightarrow> shape a \<and> (\<forall>s\<in>set (slots a). slot_wf s) \<and> free_ok hole a \<and> totals_ok a \<and>
     counted X a \<and> ranked a"

definition node_inv :: "u32 option \<Rightarrow> arena_id multiset \<Rightarrow> page_arena \<Rightarrow> bool" where
  "node_inv hole X a \<longleftrightarrow> core_inv hole X a \<and> pending_ok a"

subsection \<open>Changing one slot\<close>

definition put :: "page_arena \<Rightarrow> u32 \<Rightarrow> arena_slot \<Rightarrow> page_arena" where
  "put a i s = with_slots a ((slots a)[unat i := s])"

abbreviation at :: "page_arena \<Rightarrow> u32 \<Rightarrow> arena_slot" where
  "at a i \<equiv> slots a ! unat i"

lemma shapeD:
  assumes "shape a"
  shows "segs_ok a" "next_unused a \<le> length (slots a)" "next_unused a \<le> max_slots (limits a)" "max_slots (limits a) < 2 ^ 32"
    "next_unused a \<le> k \<Longrightarrow> k < length (slots a) \<Longrightarrow> slots a ! k = vacant_slot"
  using assms unfolding shape_def by simp_all

lemma slots_put [simp]: "segs_ok a \<Longrightarrow> slots (put a i s) = (slots a)[unat i := s]" "segs_ok a \<Longrightarrow> segs_ok (put a i s)"
  by (simp_all add: put_def)

lemma put_simps [simp]:
  "identity (put a i s) = identity a" "limits (put a i s) = limits a" "next_unused (put a i s) = next_unused a"
  "free_head (put a i s) = free_head a" "pending_head (put a i s) = pending_head a" "pending_tail (put a i s) = pending_tail a"
  "resident_nodes (put a i s) = resident_nodes a" "live_payload_bytes (put a i s) = live_payload_bytes a"
  "reserved_external_payload_bytes (put a i s) = reserved_external_payload_bytes a"
  "pending_reclaims (put a i s) = pending_reclaims a" "builds (put a i s) = builds a"
  "build_free_head (put a i s) = build_free_head a" "pending_build_head (put a i s) = pending_build_head a"
  "pending_build_tail (put a i s) = pending_build_tail a" "live_builds (put a i s) = live_builds a"
  "pending_build_aborts (put a i s) = pending_build_aborts a" "next_reclaim_lane (put a i s) = next_reclaim_lane a"
  by (simp_all add: put_def)

lemma put_put [simp]: "segs_ok a \<Longrightarrow> put (put a i s) i t = put a i t"
  by (simp add: put_def)

lemma slot_at: "shape a \<Longrightarrow> unat i < next_unused a \<Longrightarrow> slot a i = Some (at a i)"
  using shapeD(1,2) [of a] by (simp add: slot_flat)

lemma slot_mut_at: "shape a \<Longrightarrow> unat i < next_unused a \<Longrightarrow> slot_mut a i f = Some (put a i (f (at a i)))"
  using shapeD(1,2) [of a] by (simp add: slot_mut_flat put_def)

lemma shape_put [simp]: "shape a \<Longrightarrow> unat i < next_unused a \<Longrightarrow> shape (put a i s)"
  unfolding shape_def by auto

lemma at_put: "shape a \<Longrightarrow> unat i < next_unused a \<Longrightarrow> at (put a i s) j = (if i = j then s else at a j)"
  using shapeD(1,2) [of a] by (simp add: unat_eq nth_list_update)

lemma wf_put: "shape a \<Longrightarrow> \<forall>s\<in>set (slots a). slot_wf s \<Longrightarrow> slot_wf s \<Longrightarrow> \<forall>s\<in>set (slots (put a i s)). slot_wf s"
  using shapeD(1) [of a] set_update_subset_insert [of "slots a" "unat i" s] by auto

lemma total_put:
  "shape a \<Longrightarrow> unat i < next_unused a \<Longrightarrow> total_of f (put a i s) + f (at a i) = total_of f a + f s"
  using shapeD(1,2) [of a] by (simp add: total_of_def sum_list_map_update)

lemma total_put_same:
  fixes f :: "arena_slot \<Rightarrow> 'b :: cancel_comm_monoid_add"
  shows "shape a \<Longrightarrow> f s = f (at a i) \<Longrightarrow> total_of f (put a i s) = total_of f a"
  using shapeD(1) [of a] by (simp add: total_of_def sum_list_map_same)

lemma links_keep_at:
  assumes "links nx P cs n h is" "P i c = P i (cs ! unat i)" "nx c = nx (cs ! unat i) \<or> \<not> P i c"
  shows "links nx P (cs[unat i := c]) n h is"
  using assms by (intro links_keep) (auto simp: unat_eq)

lemma free_put:
  assumes "free_ok hole a" "shape a" "free_slot hole i s = free_slot hole i (at a i)"
    "s_next_free s = s_next_free (at a i) \<or> \<not> free_slot hole i s"
  shows "free_ok hole (put a i s)"
proof -
  obtain fs where "links s_next_free (free_slot hole) (slots a) (next_unused a) (free_head a) fs"
    using assms(1) unfolding free_ok_def by blast
  from links_keep_at [where c = s, OF this assms(3,4)] show ?thesis
    using shapeD(1) [OF assms(2)] by (auto simp: free_ok_def)
qed

lemma pending_put:
  assumes "pending_ok a" "shape a" "retiring_slot i s = retiring_slot i (at a i)"
    "s_pending_next s = s_pending_next (at a i) \<or> \<not> retiring_slot i s"
  shows "pending_ok (put a i s)"
proof -
  obtain ps where ps: "links s_pending_next retiring_slot (slots a) (next_unused a) (pending_head a) ps"
      "pending_tail a = (if ps = [] then None else Some (last ps))" "pending_reclaims a = length ps"
    using assms(1) unfolding pending_ok_def by blast
  from links_keep_at [where c = s, OF ps(1) assms(3,4)] show ?thesis
    using shapeD(1) [OF assms(2)] ps(2,3) by (auto simp: pending_ok_def)
qed

lemma ranked_put:
  assumes "ranked a" "shape a" "set (held s) \<subseteq> set (held (at a i))"
  shows "ranked (put a i s)"
proof -
  obtain rank :: "u32 \<Rightarrow> nat" where
    rank: "\<And>j c. unat j < length (slots a) \<Longrightarrow> c \<in> set (held (at a j)) \<Longrightarrow> rank (id_slot c) < rank j"
    using assms(1) unfolding ranked_def by blast
  have "rank (id_slot c) < rank j" if "unat j < length (slots a)" "c \<in> set (held ((slots a)[unat i := s] ! unat j))" for j c
    using rank [OF that(1), of c] that assms(3) by (cases "j = i") (auto simp: unat_eq)
  then show ?thesis unfolding ranked_def using shapeD(1) [OF assms(2)] by auto
qed

lemma live_at_put:
  "shape a \<Longrightarrow> unat i < next_unused a \<Longrightarrow> s_state s = s_state (at a i) \<Longrightarrow> s_generation s = s_generation (at a i) \<Longrightarrow>
   live_at (put a i s) h = live_at a h"
  unfolding live_at_def by (simp add: at_put del: slots_put)

lemma core_invD:
  assumes "core_inv hole X a"
  shows "shape a" "\<forall>s\<in>set (slots a). slot_wf s" "free_ok hole a" "totals_ok a" "counted X a" "ranked a"
  using assms unfolding core_inv_def by simp_all

lemma node_invD:
  assumes "node_inv hole X a"
  shows "shape a" "\<forall>s\<in>set (slots a). slot_wf s" "free_ok hole a" "pending_ok a" "totals_ok a" "counted X a" "ranked a"
  using assms unfolding node_inv_def core_inv_def by simp_all

lemma node_wf: "node_inv hole X a \<Longrightarrow> unat i < next_unused a \<Longrightarrow> slot_wf (at a i)"
  using node_invD(1,2) [of hole X a] shapeD(2) [of a] by simp

lemma refs_put:
  "shape a \<Longrightarrow> unat i < next_unused a \<Longrightarrow> refs X (put a i s) + mset (held (at a i)) = refs X a + mset (held s)"
  using total_put [of a i "\<lambda>s. mset (held s)" s] by (simp add: refs_def ac_simps)

lemma refs_put_same: "shape a \<Longrightarrow> held s = held (at a i) \<Longrightarrow> refs X (put a i s) = refs X a"
  using total_put_same [of a "\<lambda>s. mset (held s)" s i] by (simp add: refs_def)

lemma refs_to_simps [simp]:
  "refs_to {#} i = 0" "refs_to (add_mset h M) i = refs_to M i + of_bool (id_slot h = i)"
  "refs_to (M + N) i = refs_to M i + refs_to N i"
  by (simp_all add: refs_to_def)

lemma refs_to_zero: "refs_to M i = 0 \<longleftrightarrow> (\<forall>h. h \<in># M \<longrightarrow> id_slot h \<noteq> i)"
  by (induction M) auto

lemma refs_add [simp]: "refs (add_mset h X) a = add_mset h (refs X a)" "refs (X + Y) a = X + refs Y a"
  by (simp_all add: refs_def)

lemma countedD:
  assumes "counted X a"
  shows "h \<in># refs X a \<Longrightarrow> live_at a h"
    "unat i < next_unused a \<Longrightarrow> s_state (at a i) = Live \<Longrightarrow> unat (s_ref_count (at a i)) = refs_to (refs X a) i"
  using assms unfolding counted_def by simp_all

lemma live_atD:
  assumes "live_at a h"
  shows "unat (id_slot h) < next_unused a" "s_state (at a (id_slot h)) = Live"
  using assms unfolding live_at_def by simp_all

subsection \<open>Counting references\<close>

text \<open>A live slot whose count alone changes.\<close>

lemma node_inv_recount:
  assumes inv: "node_inv hole X a" and i: "unat i < next_unused a" "s_state (at a i) = Live" and c: "c \<noteq> 0"
    and cnt: "counted Y (put a i ((at a i)\<lparr>s_ref_count := c\<rparr>))"
  shows "node_inv hole Y (put a i ((at a i)\<lparr>s_ref_count := c\<rparr>))"
proof -
  note d = node_invD [OF inv]
  have "slot_wf ((at a i)\<lparr>s_ref_count := c\<rparr>)" using node_wf [OF inv i(1)] i(2) c by (simp add: slot_wf_def)
  then have "\<forall>s\<in>set (slots (put a i ((at a i)\<lparr>s_ref_count := c\<rparr>))). slot_wf s" using wf_put d(1,2) by blast
  moreover have "free_ok hole (put a i ((at a i)\<lparr>s_ref_count := c\<rparr>))"
    using d by (intro free_put) (simp_all add: free_slot_def)
  moreover have "pending_ok (put a i ((at a i)\<lparr>s_ref_count := c\<rparr>))"
    using d by (intro pending_put) (simp_all add: retiring_slot_def)
  moreover have "totals_ok (put a i ((at a i)\<lparr>s_ref_count := c\<rparr>))"
    using d by (simp add: totals_ok_def total_put_same resident_def payload_len_def)
  moreover have "ranked (put a i ((at a i)\<lparr>s_ref_count := c\<rparr>))"
    using d by (intro ranked_put) (simp_all add: held_def)
  ultimately show ?thesis using d(1) i(1) cnt unfolding node_inv_def core_inv_def by simp
qed

lemma unat_inc: "unat (w :: u32) + 1 < 2 ^ 32 \<Longrightarrow> unat (w + 1) = unat w + 1"
  by (simp add: unat_add_lem [THEN iffD1])

lemma unat_dec: "(w :: u32) \<noteq> 0 \<Longrightarrow> unat (w - 1) = unat w - 1"
  by (simp add: unat_minus_one)

lemma node_inv_retain:
  assumes inv: "node_inv hole X a" and h: "live_at a h" and r: "unat (s_ref_count (at a (id_slot h))) + 1 < 2 ^ 32"
  shows "node_inv hole (add_mset h X) (put a (id_slot h) ((at a (id_slot h))\<lparr>s_ref_count := s_ref_count (at a (id_slot h)) + 1\<rparr>))"
proof (rule node_inv_recount [OF inv live_atD [OF h]])
  let ?i = "id_slot h" and ?c = "s_ref_count (at a (id_slot h)) + 1"
  let ?a = "put a ?i ((at a ?i)\<lparr>s_ref_count := ?c\<rparr>)"
  note d = node_invD [OF inv] and i = live_atD [OF h]
  have u: "unat ?c = unat (s_ref_count (at a ?i)) + 1" using r by (rule unat_inc)
  show "?c \<noteq> 0" using u by (metis add_is_0 one_neq_zero unat_0)
  have lv: "live_at ?a g = live_at a g" for g using d(1) i(1) by (simp add: live_at_put)
  have rf: "refs X ?a = refs X a" using d(1) by (simp add: refs_put_same held_def)
  show "counted (add_mset h X) ?a"
    using countedD [OF d(6)] h u lv d(1) i(1) unfolding counted_def
    by (auto simp: rf at_put simp del: slots_put)
qed

subsection \<open>Dropping a reference\<close>

text \<open>A live slot with no reference left, put at the end of the retirement queue.\<close>

definition retire_slot :: "page_arena \<Rightarrow> u32 \<Rightarrow> page_arena" where
  "retire_slot a i =
     (let b = put a i ((at a i)\<lparr>s_ref_count := 0, s_state := Retiring, s_pending_next := None\<rparr>);
          c = (case pending_tail a of
                 Some t \<Rightarrow> put b t ((at b t)\<lparr>s_pending_next := Some i\<rparr>)
               | None \<Rightarrow> b\<lparr>pending_head := Some i\<rparr>)
      in c\<lparr>pending_tail := Some i, pending_reclaims := pending_reclaims a + 1\<rparr>)"

lemma pending_tail_at:
  assumes "pending_ok a" "pending_tail a = Some t"
  shows "unat t < next_unused a" "s_state (at a t) = Retiring"
proof -
  obtain ps where ps: "links s_pending_next retiring_slot (slots a) (next_unused a) (pending_head a) ps" "t = last ps" "ps \<noteq> []"
    using assms unfolding pending_ok_def by (auto split: if_splits)
  then have "t \<in> set ps" by simp
  then show "unat t < next_unused a" "s_state (at a t) = Retiring"
    using linksD(4) [OF ps(1), of t] by (simp_all add: retiring_slot_def)
qed

lemma retire_slot_links:
  assumes sh: "shape a" and p: "pending_ok a" and i: "unat i < next_unused a" "s_state (at a i) = Live"
  shows "pending_ok (retire_slot a i)"
proof -
  let ?c = "(at a i)\<lparr>s_ref_count := 0, s_state := Retiring, s_pending_next := None\<rparr>"
  let ?b = "put a i ?c"
  note ok = shapeD(1) [OF sh]
  obtain ps where ps: "links s_pending_next retiring_slot (slots a) (next_unused a) (pending_head a) ps"
      "pending_tail a = (if ps = [] then None else Some (last ps))" "pending_reclaims a = length ps"
    using p unfolding pending_ok_def by blast
  have c: "retiring_slot i ?c" "s_pending_next ?c = None" "\<not> retiring_slot i (at a i)"
    using i(2) by (simp_all add: retiring_slot_def)
  show ?thesis
  proof (cases "ps = []")
    case True
    then have "links s_pending_next retiring_slot (slots ?b) (next_unused a) (Some i) [i]"
      using links_enqueue_empty [where nx = s_pending_next and P = retiring_slot and c = ?c, OF _ c(1,2) i(1) c(3)] ps(1) ok
      by simp
    then show ?thesis using True ps ok by (auto simp: pending_ok_def retire_slot_def Let_def intro!: exI [of _ "[i]"])
  next
    case False
    let ?t = "last ps" and ?d = "(at ?b (last ps))\<lparr>s_pending_next := Some i\<rparr>"
    have t: "unat ?t < next_unused a" "s_state (at a ?t) = Retiring" using pending_tail_at [OF p, of ?t] ps(2) False by simp_all
    then have d: "retiring_slot ?t ?d" "s_pending_next ?d = Some i"
      using sh i by (auto simp: retiring_slot_def at_put simp del: slots_put)
    have "links s_pending_next retiring_slot (slots (put ?b ?t ?d)) (next_unused a) (pending_head a) (ps @ [i])"
      using links_enqueue [OF ps(1) c(1,2) i(1) c(3) False d] ok by simp
    then show ?thesis using False ps ok by (auto simp: pending_ok_def retire_slot_def Let_def intro!: exI [of _ "ps @ [i]"])
  qed
qed

lemma core_fields [simp]:
  "core_inv hole X (a\<lparr>pending_head := h\<rparr>) = core_inv hole X a" "core_inv hole X (a\<lparr>pending_tail := h\<rparr>) = core_inv hole X a"
  "core_inv hole X (a\<lparr>pending_reclaims := n\<rparr>) = core_inv hole X a"
  by (simp_all add: core_inv_def shape_def free_ok_def totals_ok_def total_of_def counted_def refs_def live_at_def ranked_def)

lemma core_pending_next:
  assumes "core_inv hole X a" "unat t < next_unused a"
  shows "core_inv hole X (put a t ((at a t)\<lparr>s_pending_next := n\<rparr>))"
proof -
  let ?s = "(at a t)\<lparr>s_pending_next := n\<rparr>"
  note d = core_invD [OF assms(1)]
  have "slot_wf (at a t)" using d(1,2) assms(2) shapeD(2) [of a] by simp
  then have wf: "slot_wf ?s" by (simp add: slot_wf_def split: slot_state.splits)
  have lv: "live_at (put a t ?s) g = live_at a g" for g using d(1) assms(2) by (simp add: live_at_put)
  have rf: "refs X (put a t ?s) = refs X a" using d(1) by (simp add: refs_put_same held_def)
  have "counted X (put a t ?s)"
    using countedD [OF d(5)] lv d(1) assms(2) unfolding counted_def by (auto simp: rf at_put simp del: slots_put)
  moreover have "free_ok hole (put a t ?s)" using d by (intro free_put) (simp_all add: free_slot_def)
  moreover have "ranked (put a t ?s)" using d by (intro ranked_put) (simp_all add: held_def)
  ultimately show ?thesis using d wf wf_put [OF d(1,2) wf] assms(2)
    by (simp add: core_inv_def totals_ok_def total_put_same resident_def payload_len_def del: slots_put)
qed

lemma core_retire:
  assumes core: "core_inv hole (add_mset h X) a" and one: "s_ref_count (at a (id_slot h)) = 1"
  shows "core_inv hole X (put a (id_slot h) ((at a (id_slot h))\<lparr>s_ref_count := 0, s_state := Retiring, s_pending_next := None\<rparr>))"
proof -
  let ?i = "id_slot h" and ?s = "(at a (id_slot h))\<lparr>s_ref_count := 0, s_state := Retiring, s_pending_next := None\<rparr>"
  note d = core_invD [OF core]
  have h: "live_at a h" using countedD(1) [OF d(5)] by simp
  note i = live_atD [OF h]
  have w: "slot_wf (at a ?i)" using d(1,2) i shapeD(2) [of a] by simp
  then have wf: "slot_wf ?s" using i(2) by (simp add: slot_wf_def)
  have rf: "refs X (put a ?i ?s) = refs X a" using d(1) by (simp add: refs_put_same held_def)
  have "refs_to (refs (add_mset h X) a) ?i = 1" using countedD(2) [OF d(5) i] one by simp
  then have none: "id_slot g \<noteq> ?i" if "g \<in># refs X a" for g using that refs_to_zero [of "refs X a" ?i] by simp
  have "live_at (put a ?i ?s) g" if "g \<in># refs X a" for g
    using countedD(1) [OF d(5), of g] none [OF that] that d(1) i(1)
    by (simp add: live_at_def at_put del: slots_put)
  then have "counted X (put a ?i ?s)"
    using countedD(2) [OF d(5)] none d(1) i(1) unfolding counted_def by (auto simp: rf at_put simp del: slots_put)
  moreover have "free_ok hole (put a ?i ?s)" using d i by (intro free_put) (simp_all add: free_slot_def)
  moreover have "ranked (put a ?i ?s)" using d by (intro ranked_put) (simp_all add: held_def)
  ultimately show ?thesis using d wf wf_put [OF d(1,2) wf] i(1)
    by (simp add: core_inv_def totals_ok_def total_put_same resident_def payload_len_def del: slots_put)
qed

lemma node_inv_retire:
  assumes inv: "node_inv hole (add_mset h X) a" and one: "s_ref_count (at a (id_slot h)) = 1"
  shows "node_inv hole X (retire_slot a (id_slot h))"
proof -
  note d = node_invD [OF inv]
  have h: "live_at a h" using countedD(1) [OF d(6)] by simp
  note i = live_atD [OF h]
  have b: "core_inv hole X (put a (id_slot h) ((at a (id_slot h))\<lparr>s_ref_count := 0, s_state := Retiring, s_pending_next := None\<rparr>))"
    using core_retire inv one unfolding node_inv_def by blast
  have "core_inv hole X (retire_slot a (id_slot h))"
    using b core_pending_next [OF b] pending_tail_at(1) [OF d(4)]
    by (auto simp: retire_slot_def Let_def split: option.splits simp del: slots_put)
  then show ?thesis using retire_slot_links [OF d(1,4) i] unfolding node_inv_def by simp
qed

text \<open>The code of \<open>drop_reference\<close> in these terms.\<close>

definition unreferenced :: "page_arena \<Rightarrow> u32 \<Rightarrow> page_arena" where
  "unreferenced a i =
     (if s_ref_count (at a i) = 1 then retire_slot a i
      else put a i ((at a i)\<lparr>s_ref_count := s_ref_count (at a i) - 1\<rparr>))"

lemma append_pending_at:
  assumes "shape a" "pending_ok a" "unat i < next_unused a" "s_state (at a i) = Live"
  shows "append_pending (put a i ((at a i)\<lparr>s_ref_count := 0, s_state := Retiring\<rparr>)) i = Some (retire_slot a i)"
  using assms pending_tail_at [OF assms(2)] shapeD(1) [OF assms(1)]
  by (auto simp: append_pending_def retire_slot_def Let_def slot_mut_at at_put split: option.splits simp del: slots_put)

lemma drop_reference_at:
  assumes "shape a" "pending_ok a" "unat i < next_unused a" "s_state (at a i) = Live"
  shows "drop_reference a i = Some (unreferenced a i)"
  using assms append_pending_at [OF assms]
  by (auto simp: drop_reference_def unreferenced_def slot_at slot_mut_at Let_def)

lemma node_inv_unreferenced:
  assumes inv: "node_inv hole (add_mset h X) a"
  shows "node_inv hole X (unreferenced a (id_slot h))"
proof -
  let ?i = "id_slot h" and ?c = "s_ref_count (at a (id_slot h)) - 1"
  let ?b = "put a ?i ((at a ?i)\<lparr>s_ref_count := ?c\<rparr>)"
  note d = node_invD [OF inv]
  have h: "live_at a h" using countedD(1) [OF d(6)] by simp
  note i = live_atD [OF h]
  show ?thesis
  proof (cases "s_ref_count (at a ?i) = 1")
    case True
    then show ?thesis using node_inv_retire [OF inv] by (simp add: unreferenced_def)
  next
    case False
    have nz: "s_ref_count (at a ?i) \<noteq> 0" using node_wf [OF inv i(1)] i(2) by (simp add: slot_wf_def)
    have u: "unat ?c = unat (s_ref_count (at a ?i)) - 1" using nz by (rule unat_dec)
    have lv: "live_at ?b g = live_at a g" for g using d(1) i(1) by (simp add: live_at_put)
    have rf: "refs X ?b = refs X a" using d(1) by (simp add: refs_put_same held_def)
    have "counted X ?b"
      using countedD [OF d(6)] u lv d(1) i(1) unfolding counted_def by (auto simp: rf at_put simp del: slots_put)
    then show ?thesis using node_inv_recount [OF inv i] False by (simp add: unreferenced_def)
  qed
qed

subsection \<open>Retirement\<close>

text \<open>Passing a child hands its reference over.\<close>

lemma node_inv_pass_child:
  assumes inv: "node_inv hole X a" and i: "unat i < next_unused a" "s_state (at a i) = Retiring"
    and c: "held (at a i) = c # rest"
  shows "node_inv hole (add_mset c X) (put a i ((at a i)\<lparr>s_retire_child_index := s_retire_child_index (at a i) + 1\<rparr>))"
proof -
  let ?s = "(at a i)\<lparr>s_retire_child_index := s_retire_child_index (at a i) + 1\<rparr>"
  note d = node_invD [OF inv]
  have "held ?s = tl (held (at a i))" by (simp add: held_def tl_drop drop_Suc)
  then have hs: "held ?s = rest" using c by simp
  have wf: "slot_wf ?s" using node_wf [OF inv i(1)] i(2) by (simp add: slot_wf_def)
  have "add_mset c (refs X (put a i ?s)) + mset rest = refs X a + mset rest"
    using refs_put [OF d(1) i(1), of X ?s] c hs by simp
  then have rf: "refs (add_mset c X) (put a i ?s) = refs X a" by simp
  have lv: "live_at (put a i ?s) g = live_at a g" for g using d(1) i(1) by (simp add: live_at_put)
  have "counted (add_mset c X) (put a i ?s)"
    using countedD [OF d(6)] lv i d(1) unfolding counted_def rf by (auto simp: at_put simp del: slots_put)
  moreover have "free_ok hole (put a i ?s)" using d by (intro free_put) (simp_all add: free_slot_def)
  moreover have "pending_ok (put a i ?s)" using d by (intro pending_put) (simp_all add: retiring_slot_def)
  moreover have "ranked (put a i ?s)" using d hs c by (intro ranked_put) auto
  ultimately show ?thesis using d wf wf_put [OF d(1,2) wf] i(1)
    by (simp add: node_inv_def core_inv_def totals_ok_def total_put_same resident_def payload_len_def del: slots_put)
qed

text \<open>The slot after its last transition, and the arena.\<close>

definition cleared :: "arena_slot \<Rightarrow> u32 option \<Rightarrow> arena_slot" where
  "cleared s head =
     (let t = s\<lparr>s_payload := None, s_children := None, s_ref_count := 0, s_pending_next := None, s_retire_child_index := 0\<rparr>
      in case checked_add32 (s_generation s) 1 of
           Some g \<Rightarrow> t\<lparr>s_generation := g, s_state := SVacant, s_next_free := head\<rparr>
         | None \<Rightarrow> t\<lparr>s_state := SRetired, s_next_free := None\<rparr>)"

definition finalized :: "page_arena \<Rightarrow> u32 \<Rightarrow> page_arena" where
  "finalized a i = (put a i (cleared (at a i) (free_head a)))
     \<lparr>pending_head := s_pending_next (at a i),
      pending_tail := (if s_pending_next (at a i) = None then None else pending_tail a),
      free_head := (if checked_add32 (s_generation (at a i)) 1 = None then free_head a else Some i),
      resident_nodes := resident_nodes a - 1, live_payload_bytes := live_payload_bytes a - payload_len (at a i),
      pending_reclaims := pending_reclaims a - 1\<rparr>"

lemma checked_add32_None: "checked_add32 g 1 = None \<longleftrightarrow> g = U32_MAX"
proof -
  have "unat g < 2 ^ 32" using unsigned_less [of g, where 'a = nat] by simp
  moreover have "g = U32_MAX \<longleftrightarrow> unat g = 4294967295" by (simp add: word_unat_eq_iff)
  ultimately show ?thesis by (auto simp: checked_add32_def)
qed

lemma shape_fields [simp]:
  "shape (a\<lparr>pending_head := h\<rparr>) = shape a" "shape (a\<lparr>pending_tail := h\<rparr>) = shape a" "shape (a\<lparr>free_head := h\<rparr>) = shape a"
  "shape (a\<lparr>resident_nodes := n\<rparr>) = shape a" "shape (a\<lparr>live_payload_bytes := n\<rparr>) = shape a"
  "shape (a\<lparr>pending_reclaims := n\<rparr>) = shape a" "shape (a\<lparr>builds := bs\<rparr>) = shape a" "shape (a\<lparr>next_reclaim_lane := l\<rparr>) = shape a"
  by (simp_all add: shape_def)

lemma put_fields [simp]:
  "put (a\<lparr>pending_head := h\<rparr>) i s = (put a i s)\<lparr>pending_head := h\<rparr>"
  "put (a\<lparr>pending_tail := h\<rparr>) i s = (put a i s)\<lparr>pending_tail := h\<rparr>"
  "put (a\<lparr>free_head := h\<rparr>) i s = (put a i s)\<lparr>free_head := h\<rparr>"
  "put (a\<lparr>builds := bs\<rparr>) i s = (put a i s)\<lparr>builds := bs\<rparr>"
  "put (a\<lparr>next_reclaim_lane := l\<rparr>) i s = (put a i s)\<lparr>next_reclaim_lane := l\<rparr>"
  by (simp_all add: put_def)

lemma finalize_pending_head_at:
  assumes "shape a" "unat i < next_unused a"
  shows "finalize_pending_head a i = Some (payload_len (at a i), finalized a i)"
  using assms shapeD(1) [OF assms(1)]
  by (auto simp: finalize_pending_head_def finalized_def cleared_def slot_at slot_mut_at at_put payload_len_def Let_def
      split: option.splits simp del: slots_put)

lemma pending_head_at:
  assumes "pending_ok a" "pending_head a = Some i"
  shows "unat i < next_unused a" "s_state (at a i) = Retiring"
proof -
  obtain ps where ps: "links s_pending_next retiring_slot (slots a) (next_unused a) (pending_head a) ps"
    using assms unfolding pending_ok_def by blast
  then have "i \<in> set ps" using linksD(1) [OF ps] assms(2) by (cases ps) auto
  then show "unat i < next_unused a" "s_state (at a i) = Retiring"
    using linksD(4) [OF ps, of i] by (simp_all add: retiring_slot_def)
qed

lemma pending_finalized:
  assumes sh: "shape a" and p: "pending_ok a" and h: "pending_head a = Some i"
  shows "pending_ok (finalized a i)"
proof -
  obtain ps where ps: "links s_pending_next retiring_slot (slots a) (next_unused a) (Some i) ps"
      "pending_tail a = (if ps = [] then None else Some (last ps))" "pending_reclaims a = length ps"
    using p h unfolding pending_ok_def by auto
  have "\<not> retiring_slot i (cleared (at a i) (free_head a))"
    by (simp add: cleared_def Let_def retiring_slot_def split: option.splits)
  then obtain js where js: "ps = i # js"
      "links s_pending_next retiring_slot ((slots a)[unat i := cleared (at a i) (free_head a)]) (next_unused a) (s_pending_next (at a i)) js"
    using links_pop [OF ps(1)] by blast
  then have "s_pending_next (at a i) = (if js = [] then None else Some (hd js))" using link_chain_head linksD(1) by blast
  then show ?thesis using js ps(2,3) shapeD(1) [OF sh] unfolding pending_ok_def finalized_def
    by (intro exI [of _ js]) auto
qed

lemma free_finalized:
  assumes sh: "shape a" and f: "free_ok None a" and i: "unat i < next_unused a" "s_state (at a i) = Retiring"
  shows "free_ok None (finalized a i)"
proof -
  obtain fs where fs: "links s_next_free (free_slot None) (slots a) (next_unused a) (free_head a) fs"
    using f unfolding free_ok_def by blast
  have ni: "\<not> free_slot None i (at a i)" using i(2) by (simp add: free_slot_def)
  let ?s = "cleared (at a i) (free_head a)"
  show ?thesis
  proof (cases "checked_add32 (s_generation (at a i)) 1")
    case None
    then have "\<not> free_slot None i ?s" by (simp add: cleared_def Let_def free_slot_def)
    then have "links s_next_free (free_slot None) ((slots a)[unat i := ?s]) (next_unused a) (free_head a) fs"
      using links_keep_at [OF fs, of i ?s] ni by blast
    then show ?thesis using None shapeD(1) [OF sh] by (auto simp: free_ok_def finalized_def)
  next
    case (Some g)
    then have "free_slot None i ?s" "s_next_free ?s = free_head a" by (simp_all add: cleared_def Let_def free_slot_def)
    then have "links s_next_free (free_slot None) ((slots a)[unat i := ?s]) (next_unused a) (Some i) (i # fs)"
      using links_push [OF fs _ _ i(1) ni] by blast
    then show ?thesis using Some shapeD(1) [OF sh] by (auto simp: free_ok_def finalized_def)
  qed
qed

lemma node_inv_finalized:
  assumes inv: "node_inv None X a" and h: "pending_head a = Some i" and none: "held (at a i) = []"
  shows "node_inv None X (finalized a i)"
proof -
  let ?s = "cleared (at a i) (free_head a)"
  note d = node_invD [OF inv]
  note i = pending_head_at [OF d(4) h]
  have wf: "slot_wf ?s"
    by (auto simp: cleared_def Let_def slot_wf_def checked_add32_None split: option.splits)
  have hs: "held ?s = []" "payload_len ?s = 0" "\<not> resident ?s"
    by (simp_all add: cleared_def Let_def held_def payload_len_def resident_def split: option.splits)
  have res: "resident (at a i)" using node_wf [OF inv i(1)] i(2) by (simp add: slot_wf_def resident_def)
  have rf: "refs X (put a i ?s) = refs X a" using d(1) none hs by (simp add: refs_put_same)
  have ne: "s_state ?s \<noteq> Live" by (simp add: cleared_def Let_def split: option.splits)
  have "live_at (put a i ?s) g" if "g \<in># refs X a" for g
    using countedD(1) [OF d(6) that] i d(1) by (auto simp: live_at_def at_put simp del: slots_put)
  then have "counted X (put a i ?s)"
    using countedD(2) [OF d(6)] i ne d(1) unfolding counted_def rf by (auto simp: at_put simp del: slots_put)
  then have cnt: "counted X (finalized a i)"
    by (simp add: counted_def finalized_def refs_def live_at_def total_of_def)
  have "total_of payload_len (put a i ?s) = total_of payload_len a - payload_len (at a i)"
    using total_put [OF d(1) i(1), of payload_len ?s] hs(2) by linarith
  moreover have "total_of (\<lambda>s. of_bool (resident s)) (put a i ?s) = total_of (\<lambda>s. of_bool (resident s)) a - (1 :: nat)"
    using total_put [OF d(1) i(1), of "\<lambda>s. of_bool (resident s) :: nat" ?s] hs(3) res by simp
  ultimately have "totals_ok (finalized a i)"
    using d(5) by (simp add: totals_ok_def finalized_def total_of_def)
  moreover have "ranked (finalized a i)"
    using ranked_put [OF d(7,1), of ?s i] hs by (simp add: ranked_def finalized_def)
  moreover have "\<forall>s\<in>set (slots (finalized a i)). slot_wf s" using wf_put [OF d(1,2) wf] by (simp add: finalized_def)
  ultimately show ?thesis
    using cnt pending_finalized [OF d(1,4) h] free_finalized [OF d(1,3) i] shape_put [OF d(1) i(1)]
    by (simp add: node_inv_def core_inv_def) (simp add: finalized_def)
qed

subsection \<open>Allocation\<close>

lemma node_inv_take_free:
  assumes inv: "node_inv None X a" and h: "free_head a = Some i"
  shows "node_inv (Some i) X ((put a i ((at a i)\<lparr>s_next_free := None\<rparr>))\<lparr>free_head := s_next_free (at a i)\<rparr>)"
    and "unat i < next_unused a" "s_state (at a i) = SVacant"
proof -
  let ?s = "(at a i)\<lparr>s_next_free := None\<rparr>"
  let ?b = "(put a i ?s)\<lparr>free_head := s_next_free (at a i)\<rparr>"
  note d = node_invD [OF inv]
  obtain fs where fs: "links s_next_free (free_slot None) (slots a) (next_unused a) (Some i) fs"
    using d(3) h unfolding free_ok_def by auto
  have "i \<in> set fs" using linksD(1) [OF fs] by (cases fs) auto
  then show i: "unat i < next_unused a" "s_state (at a i) = SVacant"
    using linksD(4) [OF fs, of i] by (simp_all add: free_slot_def)
  obtain js where "links s_next_free (free_slot (Some i)) ((slots a)[unat i := ?s]) (next_unused a) (s_next_free (at a i)) js"
    using links_pop [OF fs, of "free_slot (Some i)" ?s] by (auto simp: free_slot_def fun_eq_iff)
  then have f: "free_ok (Some i) ?b" using shapeD(1) [OF d(1)] by (auto simp: free_ok_def)
  have wf: "slot_wf ?s" using node_wf [OF inv i(1)] i(2) by (simp add: slot_wf_def)
  have lv: "live_at (put a i ?s) g = live_at a g" for g using d(1) i(1) by (simp add: live_at_put)
  have rf: "refs X (put a i ?s) = refs X a" using d(1) by (simp add: refs_put_same held_def)
  have "counted X (put a i ?s)"
    using countedD [OF d(6)] lv i d(1) unfolding counted_def rf by (auto simp: at_put simp del: slots_put)
  then have "counted X ?b" by (simp add: counted_def refs_def live_at_def total_of_def)
  moreover have "pending_ok (put a i ?s)" using d by (intro pending_put) (simp_all add: retiring_slot_def)
  then have "pending_ok ?b" by (simp add: pending_ok_def)
  moreover have "ranked (put a i ?s)" using d by (intro ranked_put) (simp_all add: held_def)
  then have "ranked ?b" by (simp add: ranked_def)
  moreover have "totals_ok (put a i ?s)"
    using d by (simp add: totals_ok_def total_put_same resident_def payload_len_def)
  then have "totals_ok ?b" by (simp add: totals_ok_def total_of_def)
  ultimately show "node_inv (Some i) X ?b"
    using f wf_put [OF d(1,2) wf] shape_put [OF d(1) i(1)] unfolding node_inv_def core_inv_def by simp
qed

text \<open>A slot never used before, in a new segment when the last one is full.\<close>

definition fresh_segment :: "page_arena \<Rightarrow> arena_slot list list" where
  "fresh_segment a = (if next_unused a div SLOTS_PER_SEGMENT = length (segments a) then [replicate SLOTS_PER_SEGMENT vacant_slot] else [])"

definition grown_arena :: "page_arena \<Rightarrow> page_arena" where
  "grown_arena a = a\<lparr>segments := segments a @ fresh_segment a, next_unused := next_unused a + 1\<rparr>"

lemma grown_arena_simps [simp]:
  "next_unused (grown_arena a) = next_unused a + 1" "free_head (grown_arena a) = free_head a" "pending_head (grown_arena a) = pending_head a"
  "pending_tail (grown_arena a) = pending_tail a" "pending_reclaims (grown_arena a) = pending_reclaims a" "identity (grown_arena a) = identity a"
  "resident_nodes (grown_arena a) = resident_nodes a" "live_payload_bytes (grown_arena a) = live_payload_bytes a" "limits (grown_arena a) = limits a"
  "reserved_external_payload_bytes (grown_arena a) = reserved_external_payload_bytes a" "builds (grown_arena a) = builds a"
  "slots (grown_arena a) = slots a @ concat (fresh_segment a)"
  by (simp_all add: grown_arena_def slots_def)

lemma vacant_props [simp]:
  "s_state vacant_slot = SVacant" "held vacant_slot = []" "payload_len vacant_slot = 0" "\<not> resident vacant_slot" "slot_wf vacant_slot"
  by (simp_all add: vacant_slot_def held_def payload_len_def resident_def slot_wf_def)

lemma fresh_vacant: "s \<in> set (concat (fresh_segment a)) \<Longrightarrow> s = vacant_slot"
  by (auto simp: fresh_segment_def split: if_splits)

lemma fresh_nth: "k < length (concat (fresh_segment a)) \<Longrightarrow> concat (fresh_segment a) ! k = vacant_slot"
  using fresh_vacant nth_mem by blast

lemma total_grown:
  fixes f :: "arena_slot \<Rightarrow> 'z :: comm_monoid_add"
  assumes "f vacant_slot = 0"
  shows "total_of f (grown_arena a) = total_of f a"
proof -
  have "\<forall>s\<in>set ss. s = vacant_slot \<Longrightarrow> sum_list (map f ss) = 0" for ss using assms by (induction ss) auto
  then have "sum_list (map f (concat (fresh_segment a))) = 0" using fresh_vacant by blast
  then show ?thesis by (simp add: total_of_def)
qed

lemma shape_grown:
  assumes sh: "shape a" and n: "next_unused a < max_slots (limits a)"
  shows "shape (grown_arena a)"
proof -
  note s = shapeD [OF sh]
  have ok: "segs_ok (grown_arena a)" using s(1) by (auto simp: grown_arena_def fresh_segment_def segs_ok_def split: if_splits)
  have "next_unused a < length (slots a) + length (concat (fresh_segment a))"
  proof (cases "next_unused a div SLOTS_PER_SEGMENT = length (segments a)")
    case True
    then show ?thesis using s(2) by (simp add: fresh_segment_def SLOTS_PER_SEGMENT_def)
  next
    case False
    have "next_unused a div SLOTS_PER_SEGMENT \<le> length (segments a)"
      using s(2) slots_length [OF s(1)] div_le_mono [of "next_unused a" "length (segments a) * SLOTS_PER_SEGMENT" SLOTS_PER_SEGMENT]
      by simp
    then have "next_unused a div SLOTS_PER_SEGMENT < length (segments a)" using False by simp
    then show ?thesis using slots_length [OF s(1)] by (simp add: div_less_iff_less_mult)
  qed
  moreover have "slots (grown_arena a) ! k = vacant_slot" if "next_unused a \<le> k" "k < length (slots (grown_arena a))" for k
    using that s(5) [of k] fresh_nth by (simp add: nth_append)
  ultimately show ?thesis using ok n s(4) by (auto simp: shape_def)
qed

lemma node_inv_grown:
  assumes inv: "node_inv None X a" and f: "free_head a = None" and n: "next_unused a < max_slots (limits a)"
  defines "i \<equiv> to_u32 (next_unused a)"
  shows "node_inv (Some i) X (grown_arena a)" "unat i = next_unused a" "s_state (at (grown_arena a) i) = SVacant"
proof -
  note d = node_invD [OF inv]
  note sh = shape_grown [OF d(1) n]
  show u: "unat i = next_unused a"
    using n shapeD(4) [OF d(1)] by (simp add: i_def unat_of_nat take_bit_nat_eq_self)
  have old: "at (grown_arena a) j = at a j" if "unat j < next_unused a" for j
    using that shapeD(2) [OF d(1)] by (simp add: nth_append)
  have new: "at (grown_arena a) j = vacant_slot" if "next_unused a \<le> unat j" "unat j < length (slots (grown_arena a))" for j
    using that shapeD(5) [OF d(1), of "unat j"] fresh_nth by (simp add: nth_append)
  have "unat i < length (slots (grown_arena a))" using u shapeD(2) [OF sh] by simp
  then show vi: "s_state (at (grown_arena a) i) = SVacant" using new [of i] u by simp
  have ie: "j = i" if "unat j = next_unused a" for j using that u by (metis unat_eq)
  obtain fs ps where fs: "links s_next_free (free_slot None) (slots a) (next_unused a) (free_head a) fs"
    and ps: "links s_pending_next retiring_slot (slots a) (next_unused a) (pending_head a) ps"
      "pending_tail a = (if ps = [] then None else Some (last ps))" "pending_reclaims a = length ps"
    using d(3,4) unfolding free_ok_def pending_ok_def by blast
  have fs': "links s_next_free (free_slot (Some i)) (slots a) (next_unused a) (free_head a) fs"
    by (rule links_cong [OF fs]) (use u in \<open>auto simp: free_slot_def\<close>)
  have "links s_next_free (free_slot (Some i)) (slots (grown_arena a)) (next_unused a + 1) (free_head a) fs"
    unfolding grown_arena_simps by (rule links_grow [OF fs']) (use ie shapeD(2) [OF sh] in \<open>auto simp: free_slot_def less_Suc_eq_le\<close>)
  then have free: "free_ok (Some i) (grown_arena a)" by (auto simp: free_ok_def)
  have "links s_pending_next retiring_slot (slots (grown_arena a)) (next_unused a + 1) (pending_head a) ps"
    unfolding grown_arena_simps
    by (rule links_grow [OF ps(1)]) (use new shapeD(2) [OF sh] in \<open>auto simp: retiring_slot_def\<close>)
  then have pend: "pending_ok (grown_arena a)" using ps(2,3) by (auto simp: pending_ok_def)
  have rf: "refs X (grown_arena a) = refs X a" by (simp add: refs_def total_grown)
  have lv: "live_at (grown_arena a) h" if "live_at a h" for h using that old [of "id_slot h"] by (simp add: live_at_def)
  have "s_state (at (grown_arena a) j) \<noteq> Live" if "unat j = next_unused a" for j using ie [OF that] vi by simp
  then have "counted X (grown_arena a)"
    using countedD [OF d(6)] lv old unfolding counted_def rf by (auto simp: less_Suc_eq simp del: grown_arena_simps(12))
  moreover obtain rank :: "u32 \<Rightarrow> nat" where
    rank: "\<And>j c. unat j < length (slots a) \<Longrightarrow> c \<in> set (held (at a j)) \<Longrightarrow> rank (id_slot c) < rank j"
    using d(7) unfolding ranked_def by blast
  have "rank (id_slot c) < rank j" if "unat j < length (slots (grown_arena a))" "c \<in> set (held (at (grown_arena a) j))" for j c
    using that rank [of j c] fresh_nth by (auto simp: nth_append split: if_splits)
  then have "ranked (grown_arena a)" unfolding ranked_def by blast
  moreover have "totals_ok (grown_arena a)" using d(5) by (simp add: totals_ok_def total_grown)
  moreover have "\<forall>s\<in>set (slots (grown_arena a)). slot_wf s"
    using d(2) fresh_vacant [of _ a] vacant_props(5) unfolding grown_arena_simps(12) set_append by blast
  ultimately show "node_inv (Some i) X (grown_arena a)"
    unfolding node_inv_def core_inv_def using sh free pend by simp
qed

lemma acquire_slot_at:
  assumes inv: "node_inv None X a"
  shows "acquire_slot mem a =
     (case free_head a of
        Some i \<Rightarrow> Some (Inr i, (put a i ((at a i)\<lparr>s_next_free := None\<rparr>))\<lparr>free_head := s_next_free (at a i)\<rparr>)
      | None \<Rightarrow>
          if max_slots (limits a) \<le> next_unused a then Some (Inl CapacityExceeded, a)
          else if fresh_segment a \<noteq> [] \<and> \<not> mem Segment then Some (Inl AllocationFailed, a)
          else Some (Inr (to_u32 (next_unused a)), grown_arena a))"
proof (cases "free_head a")
  case None
  then show ?thesis using shapeD(4) [OF node_invD(1) [OF inv]]
    by (auto simp: acquire_slot_def Let_def grown_arena_def fresh_segment_def)
next
  case (Some i)
  then show ?thesis using node_inv_take_free(2,3) [OF inv Some] node_invD(1) [OF inv]
    by (simp add: acquire_slot_def slot_at slot_mut_at)
qed

text \<open>Retaining children, one after the other.\<close>

lemma live_at_retained:
  "shape a \<Longrightarrow> live_at a h \<Longrightarrow> live_at (put a (id_slot h) ((at a (id_slot h))\<lparr>s_ref_count := c\<rparr>)) g = live_at a g"
  using live_atD(1) [of a h] by (simp add: live_at_put)

lemma retain_children_at:
  assumes "node_inv hole X a" "\<forall>c\<in>set cs. live_at a c"
    "\<And>c. c \<in> set cs \<Longrightarrow> unat (s_ref_count (at a (id_slot c))) + refs_to (mset cs) (id_slot c) < 2 ^ 32"
  shows "\<exists>b. retain_children a cs = Some b \<and> node_inv hole (mset cs + X) b \<and>
     b = with_slots a (slots b) \<and> length (slots b) = length (slots a) \<and>
     (\<forall>i. \<exists>r. at b i = (at a i)\<lparr>s_ref_count := r\<rparr>)"
  using assms
proof (induction cs arbitrary: a X)
  case Nil
  have "\<exists>r. at a i = (at a i)\<lparr>s_ref_count := r\<rparr>" for i by (rule exI [of _ "s_ref_count (at a i)"]) simp
  then show ?case using Nil shapeD(1) [OF node_invD(1) [OF Nil(1)]] by (simp add: with_slots_slots)
next
  case (Cons c cs)
  let ?i = "id_slot c"
  let ?b = "put a ?i ((at a ?i)\<lparr>s_ref_count := s_ref_count (at a ?i) + 1\<rparr>)"
  note sh = node_invD(1) [OF Cons.prems(1)]
  have c: "live_at a c" using Cons.prems(2) by simp
  note i = live_atD [OF c]
  have one: "unat (s_ref_count (at a ?i)) + 1 < 2 ^ 32" using Cons.prems(3) [of c] by simp
  have inv: "node_inv hole (add_mset c X) ?b" using node_inv_retain [OF Cons.prems(1) c one] .
  have lv: "\<forall>d\<in>set cs. live_at ?b d" using Cons.prems(2) live_at_retained [OF sh c] by simp
  have room: "unat (s_ref_count (at ?b (id_slot d))) + refs_to (mset cs) (id_slot d) < 2 ^ 32" if "d \<in> set cs" for d
    using Cons.prems(3) [of d] that unat_inc [OF one] sh i(1) by (auto simp: at_put simp del: slots_put split: if_splits)
  obtain b where b: "retain_children ?b cs = Some b" "node_inv hole (mset cs + add_mset c X) b"
      "b = with_slots ?b (slots b)" "length (slots b) = length (slots ?b)" "\<And>i. \<exists>r. at b i = (at ?b i)\<lparr>s_ref_count := r\<rparr>"
    using Cons.IH [OF inv lv room] by blast
  have "\<exists>r. at b j = (at a j)\<lparr>s_ref_count := r\<rparr>" for j
    using b(5) [of j] sh i(1) by (auto simp: at_put simp del: slots_put split: if_splits)
  moreover have "b = with_slots a (slots b)" using b(3) by (simp add: put_def)
  ultimately show ?case using b sh i(1) shapeD(1) [OF sh] by (simp add: slot_mut_at)
qed

lemma validate_live_at:
  "shape a \<Longrightarrow> validate_live a h =
     Some (if live_at a h then Inr () else Inl (if id_arena h \<noteq> identity a then ForeignArena else StaleHandle))"
  by (auto simp: validate_live_def live_at_def slot_at)

text \<open>Live handles of one slot are equal, so counting by handle counts by slot.\<close>

lemma live_at_unique: "live_at a g \<Longrightarrow> live_at a h \<Longrightarrow> id_slot g = id_slot h \<Longrightarrow> g = h"
  by (auto simp: live_at_def intro: arena_id.equality)

lemma refs_to_live:
  "\<forall>d\<in>set cs. live_at a d \<Longrightarrow> live_at a c \<Longrightarrow> refs_to (mset cs) (id_slot c) = length (filter (\<lambda>d. d = c) cs)"
  by (induction cs) (auto dest: live_at_unique)

lemma child_increments_at:
  assumes "shape a"
  shows "\<exists>v. child_increments a cs seen rest = Some v \<and>
     (v = Inr () \<longrightarrow> (\<forall>c\<in>set rest. live_at a c \<and>
        (c \<in> set seen \<or> unat (s_ref_count (at a (id_slot c))) + length (filter (\<lambda>d. d = c) cs) < 2 ^ 32)))"
proof (induction rest arbitrary: seen)
  case (Cons c rest)
  let ?n = "length (filter (\<lambda>d. d = c) cs)"
  show ?case
  proof (cases "live_at a c")
    case False
    then show ?thesis by (simp add: validate_live_at [OF assms])
  next
    case True
    note i = live_atD [OF True]
    have u: "?n < 2 ^ 32 \<Longrightarrow> unat (to_u32 ?n) = ?n" by (simp add: unat_of_nat take_bit_nat_eq_self)
    show ?thesis
      using True Cons.IH [of "seen @ [c]"] i u
      by (auto simp: validate_live_at [OF assms] Let_def slot_at [OF assms] checked_add32_def)
  qed
qed simp

lemma validate_child_ref_increments_at:
  assumes sh: "shape a"
  obtains e where "validate_child_ref_increments a cs = Some (Inl e)"
  | "validate_child_ref_increments a cs = Some (Inr ())" "\<forall>c\<in>set cs. live_at a c"
    "\<And>c. c \<in> set cs \<Longrightarrow> unat (s_ref_count (at a (id_slot c))) + refs_to (mset cs) (id_slot c) < 2 ^ 32"
proof -
  obtain v where v: "validate_child_ref_increments a cs = Some v"
      "v = Inr () \<Longrightarrow> \<forall>c\<in>set cs. live_at a c \<and> unat (s_ref_count (at a (id_slot c))) + length (filter (\<lambda>d. d = c) cs) < 2 ^ 32"
    using child_increments_at [OF sh, of cs "[]" cs] by (auto simp: validate_child_ref_increments_def)
  show thesis
  proof (cases v)
    case (Inl e)
    then show thesis using v that(1) by simp
  next
    case (Inr u)
    then have "\<forall>c\<in>set cs. live_at a c" "\<And>c. c \<in> set cs \<Longrightarrow> unat (s_ref_count (at a (id_slot c))) + length (filter (\<lambda>d. d = c) cs) < 2 ^ 32"
      using v(2) by simp_all
    then show thesis using v(1) Inr that(2) refs_to_live [of cs a] by simp
  qed
qed

subsection \<open>Filling a slot\<close>

definition filled :: "page_arena \<Rightarrow> u32 \<Rightarrow> bytes \<Rightarrow> arena_id list \<Rightarrow> page_arena" where
  "filled a i p cs = (put a i (fill_slot p cs (at a i)))
     \<lparr>resident_nodes := resident_nodes a + 1, live_payload_bytes := live_payload_bytes a + length p\<rparr>"

definition handle :: "page_arena \<Rightarrow> u32 \<Rightarrow> arena_id" where
  "handle a i = \<lparr>id_arena = identity a, id_slot = i, id_generation = s_generation (at a i)\<rparr>"

lemma fill_slot_props [simp]:
  "s_state (fill_slot p cs s) = Live" "held (fill_slot p cs s) = cs" "payload_len (fill_slot p cs s) = length p"
  "resident (fill_slot p cs s)" "slot_wf (fill_slot p cs s)" "s_generation (fill_slot p cs s) = s_generation s"
  "s_ref_count (fill_slot p cs s) = 1"
  by (simp_all add: fill_slot_def held_def payload_len_def resident_def slot_wf_def)

lemma ranked_fill:
  assumes sh: "shape a" and r: "ranked a" and i: "unat i < next_unused a"
    and kids: "\<And>c. c \<in> set cs \<Longrightarrow> id_slot c \<noteq> i"
    and others: "\<And>c. c \<in># total_of (\<lambda>s. mset (held s)) a \<Longrightarrow> id_slot c \<noteq> i"
  shows "ranked (put a i (fill_slot p cs (at a i)))"
proof -
  let ?b = "put a i (fill_slot p cs (at a i))"
  obtain rank :: "u32 \<Rightarrow> nat" where
    rank: "\<And>j c. unat j < length (slots a) \<Longrightarrow> c \<in> set (held (at a j)) \<Longrightarrow> rank (id_slot c) < rank j"
    using r unfolding ranked_def by blast
  let ?r = "rank(i := Suc (Max (insert 0 ((\<lambda>c. rank (id_slot c)) ` set cs))))"
  have "?r (id_slot c) < ?r j" if "unat j < length (slots a)" "c \<in> set (held (at ?b j))" for j c
  proof (cases "j = i")
    case True
    then have c: "c \<in> set cs" using that(2) sh i by (simp add: at_put del: slots_put)
    then have "rank (id_slot c) \<le> Max (insert 0 ((\<lambda>c. rank (id_slot c)) ` set cs))" by (intro Max_ge) auto
    then show ?thesis using True kids [OF c] by simp
  next
    case False
    then have c: "c \<in> set (held (at a j))" using that(2) sh i by (simp add: at_put del: slots_put)
    then have "c \<in># total_of (\<lambda>s. mset (held s)) a" using that(1)
      by (auto simp: total_of_def set_mset_sum_list intro!: bexI [of _ "at a j"])
    then show ?thesis using rank [OF that(1) c] others [of c] False by simp
  qed
  then show ?thesis unfolding ranked_def using shapeD(1) [OF sh] by (intro exI [of _ ?r]) auto
qed

lemma node_inv_filled:
  assumes inv: "node_inv (Some i) (mset cs + X) a" and i: "unat i < next_unused a" "s_state (at a i) = SVacant"
  shows "node_inv None (add_mset (handle a i) X) (filled a i p cs)"
proof -
  let ?s = "fill_slot p cs (at a i)" and ?h = "handle a i"
  let ?b = "put a i ?s"
  note d = node_invD [OF inv]
  have wfi: "slot_wf (at a i)" by (rule node_wf [OF inv i(1)])
  then have old: "held (at a i) = []" "payload_len (at a i) = 0" "\<not> resident (at a i)"
    using i(2) by (simp_all add: slot_wf_def held_def payload_len_def resident_def)
  have rf: "refs X ?b = refs (mset cs + X) a"
    using refs_put [OF d(1) i(1), of X ?s] old by simp
  have none: "id_slot g \<noteq> i" if "g \<in># refs (mset cs + X) a" for g
    using countedD(1) [OF d(6) that] i(2) by (auto simp: live_at_def)
  have "live_at ?b g" if "g \<in># refs (mset cs + X) a" for g
    using countedD(1) [OF d(6) that] none [OF that] i(1) d(1) by (simp add: live_at_def at_put del: slots_put)
  moreover have "live_at ?b ?h" using i d(1) by (simp add: live_at_def handle_def at_put del: slots_put)
  moreover have "refs_to (refs (mset cs + X) a) i = 0" using none refs_to_zero by blast
  ultimately have "counted (add_mset ?h X) ?b"
    using countedD(2) [OF d(6)] i d(1) rf unfolding counted_def
    by (auto simp: at_put handle_def simp del: slots_put refs_add(2))
  then have cnt: "counted (add_mset ?h X) (filled a i p cs)"
    by (simp add: counted_def filled_def refs_def live_at_def total_of_def)
  obtain fs where fs: "links s_next_free (free_slot (Some i)) (slots a) (next_unused a) (free_head a) fs"
    using d(3) unfolding free_ok_def by blast
  have "links s_next_free (free_slot (Some i)) ((slots a)[unat i := ?s]) (next_unused a) (free_head a) fs"
    by (rule links_keep_at [OF fs]) (simp_all add: free_slot_def)
  then have "links s_next_free (free_slot None) ((slots a)[unat i := ?s]) (next_unused a) (free_head a) fs"
    by (rule links_cong)
       (use i shapeD(2) [OF d(1)] in \<open>auto simp: free_slot_def unat_eq nth_list_update\<close>)
  then have free: "free_ok None (filled a i p cs)" using shapeD(1) [OF d(1)] by (auto simp: free_ok_def filled_def)
  have "pending_ok ?b" using d i by (intro pending_put) (simp_all add: retiring_slot_def)
  then have pend: "pending_ok (filled a i p cs)" by (simp add: pending_ok_def filled_def)
  have "total_of payload_len ?b = total_of payload_len a + length p"
    using total_put [OF d(1) i(1), of payload_len ?s] old by simp
  moreover have "total_of (\<lambda>s. of_bool (resident s)) ?b = total_of (\<lambda>s. of_bool (resident s)) a + (1 :: nat)"
    using total_put [OF d(1) i(1), of "\<lambda>s. of_bool (resident s) :: nat" ?s] old by simp
  ultimately have tot: "totals_ok (filled a i p cs)" using d(5) by (simp add: totals_ok_def filled_def total_of_def)
  have "ranked ?b" using none by (intro ranked_fill d i) (auto simp: refs_def)
  then have "ranked (filled a i p cs)" by (simp add: ranked_def filled_def)
  moreover have "\<forall>s\<in>set (slots (filled a i p cs)). slot_wf s"
    using wf_put [OF d(1,2), of ?s] by (simp add: filled_def)
  moreover have "shape (filled a i p cs)" using shape_put [OF d(1) i(1)] by (simp add: filled_def)
  ultimately show ?thesis using cnt free pend tot unfolding node_inv_def core_inv_def by simp
qed

subsection \<open>How slots evolve\<close>

text \<open>
  A slot goes through its states in order within a generation, and generations grow; a live node is immutable.
\<close>

definition phase :: "slot_state \<Rightarrow> nat" where
  "phase s = (case s of SVacant \<Rightarrow> 0 | Live \<Rightarrow> 1 | Retiring \<Rightarrow> 2 | SRetired \<Rightarrow> 3)"

definition slot_evolves :: "arena_slot \<Rightarrow> arena_slot \<Rightarrow> bool" where
  "slot_evolves s t \<longleftrightarrow> s_generation s < s_generation t \<or>
     s_generation s = s_generation t \<and> phase (s_state s) \<le> phase (s_state t) \<and>
     (s_state s = Live \<and> s_state t = Live \<longrightarrow> s_payload s = s_payload t \<and> s_children s = s_children t)"

definition evolves :: "page_arena \<Rightarrow> page_arena \<Rightarrow> bool" where
  "evolves a b \<longleftrightarrow> identity a = identity b \<and> limits a = limits b \<and> next_unused a \<le> next_unused b \<and>
     (\<forall>i. unat i < next_unused a \<longrightarrow> slot_evolves (at a i) (at b i))"

lemma slot_evolves_refl [simp]: "slot_evolves s s"
  by (simp add: slot_evolves_def)

lemma slot_evolves_trans: "slot_evolves s t \<Longrightarrow> slot_evolves t u \<Longrightarrow> slot_evolves s u"
  by (auto simp: slot_evolves_def phase_def split: slot_state.splits)

lemma evolves_refl [simp]: "evolves a a"
  by (simp add: evolves_def)

lemma evolves_trans: "evolves a b \<Longrightarrow> evolves b c \<Longrightarrow> evolves a c"
  unfolding evolves_def by (simp, meson order.strict_trans2 slot_evolves_trans)

lemma evolves_put: "shape a \<Longrightarrow> unat i < next_unused a \<Longrightarrow> slot_evolves (at a i) s \<Longrightarrow> evolves a (put a i s)"
  by (simp add: evolves_def at_put del: slots_put)

lemma evolves_fields [simp]:
  "evolves a (b\<lparr>pending_head := h\<rparr>) = evolves a b" "evolves a (b\<lparr>pending_tail := h\<rparr>) = evolves a b" "evolves a (b\<lparr>free_head := h\<rparr>) = evolves a b"
  "evolves a (b\<lparr>resident_nodes := n\<rparr>) = evolves a b" "evolves a (b\<lparr>live_payload_bytes := n\<rparr>) = evolves a b"
  "evolves a (b\<lparr>pending_reclaims := n\<rparr>) = evolves a b" "evolves a (b\<lparr>builds := bs\<rparr>) = evolves a b"
  "evolves a (b\<lparr>next_reclaim_lane := l\<rparr>) = evolves a b" "evolves a (b\<lparr>reserved_external_payload_bytes := n\<rparr>) = evolves a b"
  "evolves a (b\<lparr>build_free_head := h\<rparr>) = evolves a b" "evolves a (b\<lparr>pending_build_head := h\<rparr>) = evolves a b"
  "evolves a (b\<lparr>pending_build_tail := h\<rparr>) = evolves a b" "evolves a (b\<lparr>live_builds := n\<rparr>) = evolves a b"
  "evolves a (b\<lparr>pending_build_aborts := n\<rparr>) = evolves a b"
  by (simp_all add: evolves_def)

text \<open>A handle is spent once its node is retiring or gone.\<close>

definition spent :: "page_arena \<Rightarrow> arena_id \<Rightarrow> bool" where
  "spent a h \<longleftrightarrow> id_arena h = identity a \<and> unat (id_slot h) < next_unused a \<and>
     (id_generation h < s_generation (at a (id_slot h)) \<or>
      id_generation h = s_generation (at a (id_slot h)) \<and> phase (s_state (at a (id_slot h))) \<ge> 2)"

definition node_of :: "page_arena \<Rightarrow> arena_id \<Rightarrow> bytes option \<times> arena_id list option" where
  "node_of a h = (s_payload (at a (id_slot h)), s_children (at a (id_slot h)))"

lemma spent_not_live: "spent a h \<Longrightarrow> \<not> live_at a h"
  by (auto simp: spent_def live_at_def phase_def)

lemma evolvesD:
  assumes "evolves a b" "unat i < next_unused a"
  shows "identity b = identity a" "unat i < next_unused b" "slot_evolves (at a i) (at b i)"
  using assms unfolding evolves_def by auto

lemma evolves_spent:
  assumes "evolves a b" "spent a h"
  shows "spent b h"
proof -
  note e = evolvesD [OF assms(1), of "id_slot h"]
  show ?thesis using assms(2) e by (auto simp: spent_def slot_evolves_def)
qed

lemma evolves_live:
  assumes "evolves a b" "live_at a h"
  shows "live_at b h \<and> node_of b h = node_of a h \<or> spent b h"
proof -
  note e = evolvesD [OF assms(1) live_atD(1) [OF assms(2)]]
  have "id_arena h = identity a" "s_generation (at a (id_slot h)) = id_generation h" "s_state (at a (id_slot h)) = Live"
    using assms(2) by (simp_all add: live_at_def)
  then show ?thesis using e
    by (cases "s_state (at b (id_slot h))") (auto simp: live_at_def spent_def node_of_def slot_evolves_def phase_def)
qed

end
