(* ===== verification/Flark_Arena_Steps.thy ===== *)
theory Flark_Arena_Steps
  imports Flark_Arena_Nodes
begin

text \<open>
  What each node operation of the arena does under the node invariant: it never panics, a refused request
  changes nothing, the references change by exactly the one asked for, the parts of the arena outside the
  nodes stay, slots evolve forward, and the work left to reclamation falls by one with every transition.
\<close>

definition outside :: "page_arena \<Rightarrow> _" where
  "outside a = (identity a, limits a, reserved_external_payload_bytes a, builds a, build_free_head a,
     pending_build_head a, pending_build_tail a, live_builds a, pending_build_aborts a)"

lemma outsideD:
  assumes "outside b = outside a"
  shows "identity b = identity a" "limits b = limits a" "reserved_external_payload_bytes b = reserved_external_payload_bytes a"
    "builds b = builds a" "build_free_head b = build_free_head a" "pending_build_head b = pending_build_head a"
    "pending_build_tail b = pending_build_tail a" "live_builds b = live_builds a" "pending_build_aborts b = pending_build_aborts a"
  using assms unfolding outside_def by simp_all

lemma outside_put [simp]: "outside (put a i s) = outside a" "outside (with_slots a xs) = outside a" "outside (grown_arena a) = outside a"
  by (simp_all add: outside_def grown_arena_def)

lemma outside_fields [simp]:
  "outside (a\<lparr>free_head := h\<rparr>) = outside a" "outside (a\<lparr>pending_head := h\<rparr>) = outside a" "outside (a\<lparr>pending_tail := h\<rparr>) = outside a"
  "outside (a\<lparr>resident_nodes := n\<rparr>) = outside a" "outside (a\<lparr>live_payload_bytes := n\<rparr>) = outside a"
  "outside (a\<lparr>pending_reclaims := n\<rparr>) = outside a" "outside (a\<lparr>next_reclaim_lane := l\<rparr>) = outside a"
  by (simp_all add: outside_def)

text \<open>The transitions left: one per child a resident node still holds, and one for the node.\<close>

definition slot_work :: "arena_slot \<Rightarrow> nat" where
  "slot_work s = (if resident s then Suc (length (held s)) else 0)"

definition node_work :: "page_arena \<Rightarrow> nat" where
  "node_work a = total_of slot_work a"

lemma node_work_fields [simp]:
  "node_work (a\<lparr>free_head := h\<rparr>) = node_work a" "node_work (a\<lparr>pending_head := h\<rparr>) = node_work a" "node_work (a\<lparr>pending_tail := h\<rparr>) = node_work a"
  "node_work (a\<lparr>resident_nodes := n\<rparr>) = node_work a" "node_work (a\<lparr>live_payload_bytes := n\<rparr>) = node_work a"
  "node_work (a\<lparr>pending_reclaims := n\<rparr>) = node_work a" "node_work (a\<lparr>next_reclaim_lane := l\<rparr>) = node_work a"
  "node_work (a\<lparr>builds := bs\<rparr>) = node_work a" "node_work (a\<lparr>build_free_head := h\<rparr>) = node_work a"
  "node_work (a\<lparr>pending_build_head := h\<rparr>) = node_work a" "node_work (a\<lparr>pending_build_tail := h\<rparr>) = node_work a"
  "node_work (a\<lparr>live_builds := n\<rparr>) = node_work a" "node_work (a\<lparr>pending_build_aborts := n\<rparr>) = node_work a"
  by (simp_all add: node_work_def total_of_def)

subsection \<open>Release\<close>

lemma unreferenced_frame:
  assumes sh: "shape a" and p: "pending_ok a" and i: "unat i < next_unused a" "s_state (at a i) = Live"
  shows "outside (unreferenced a i) = outside a" "evolves a (unreferenced a i)" "node_work (unreferenced a i) = node_work a"
    "live_payload_bytes (unreferenced a i) = live_payload_bytes a"
proof -
  let ?b = "put a i ((at a i)\<lparr>s_ref_count := 0, s_state := Retiring, s_pending_next := None\<rparr>)"
  let ?c = "\<lambda>t. put ?b t ((at ?b t)\<lparr>s_pending_next := Some i\<rparr>)"
  have shb: "shape ?b" using sh i by simp
  have e: "evolves a ?b" using sh i by (intro evolves_put) (simp_all add: slot_evolves_def phase_def)
  have ec: "evolves a (?c t)" if "pending_tail a = Some t" for t
    using e pending_tail_at(1) [OF p that] shb
    by (intro evolves_trans [OF e] evolves_put) (simp_all add: slot_evolves_def)
  have ed: "evolves a (put a i ((at a i)\<lparr>s_ref_count := s_ref_count (at a i) - 1\<rparr>))"
    using sh i by (intro evolves_put) (simp_all add: slot_evolves_def)
  show "outside (unreferenced a i) = outside a" "live_payload_bytes (unreferenced a i) = live_payload_bytes a"
    by (simp_all add: unreferenced_def retire_slot_def Let_def split: option.splits)
  show "evolves a (unreferenced a i)"
    using e ec ed by (auto simp: unreferenced_def retire_slot_def Let_def split: option.splits)
  have w: "node_work ?b = node_work a" "node_work (?c t) = node_work ?b" for t
    using total_put_same [OF sh, of slot_work] total_put_same [OF shb, of slot_work]
    by (simp_all add: node_work_def slot_work_def held_def resident_def del: slots_put)
  moreover have "node_work (put a i ((at a i)\<lparr>s_ref_count := s_ref_count (at a i) - 1\<rparr>)) = node_work a"
    using total_put_same [OF sh, of slot_work] by (simp add: node_work_def slot_work_def held_def resident_def)
  ultimately show "node_work (unreferenced a i) = node_work a"
    by (auto simp: unreferenced_def retire_slot_def Let_def split: option.splits simp del: slots_put)
qed

lemma drop_reference_ok:
  assumes inv: "node_inv None (add_mset h X) a"
  shows "\<exists>b. drop_reference a (id_slot h) = Some b \<and> node_inv None X b \<and> outside b = outside a \<and> evolves a b \<and>
     node_work b = node_work a \<and> live_payload_bytes b = live_payload_bytes a"
proof -
  note d = node_invD [OF inv]
  have i: "unat (id_slot h) < next_unused a" "s_state (at a (id_slot h)) = Live"
    using live_atD [of a h] countedD(1) [OF d(6), of h] by simp_all
  show ?thesis using drop_reference_at [OF d(1,4) i] node_inv_unreferenced [OF inv] unreferenced_frame [OF d(1,4) i] by blast
qed

lemma release_owned_later_ok:
  assumes inv: "node_inv None (add_mset h X) a"
  shows "\<exists>b. release_owned_later a h = Some (Inr (), b) \<and> node_inv None X b \<and> outside b = outside a \<and> evolves a b \<and>
     node_work b = node_work a \<and> live_payload_bytes b = live_payload_bytes a"
proof -
  note d = node_invD [OF inv]
  have "live_at a h" using countedD(1) [OF d(6)] by simp
  then show ?thesis using drop_reference_ok [OF inv]
    by (auto simp: release_owned_later_def validate_live_at [OF d(1)])
qed

subsection \<open>Retirement\<close>

lemma next_retiring_child_at:
  assumes "shape a" "unat i < next_unused a"
  shows "next_retiring_child a i = Some (case held (at a i) of [] \<Rightarrow> None | c # _ \<Rightarrow> Some c)"
proof -
  have "(case drop k c of [] \<Rightarrow> None | d # _ \<Rightarrow> Some d) = (if k < length c then Some (c ! k) else None)" for k and c :: "arena_id list"
    by (simp add: Cons_nth_drop_Suc [symmetric])
  then show ?thesis using assms by (simp add: next_retiring_child_def slot_at held_def split: option.splits)
qed

lemma finalized_frame:
  assumes inv: "node_inv None X a" and h: "pending_head a = Some i" and none: "held (at a i) = []"
  shows "outside (finalized a i) = outside a" "evolves a (finalized a i)" "node_work (finalized a i) + 1 = node_work a"
    "live_payload_bytes (finalized a i) + payload_len (at a i) = live_payload_bytes a"
proof -
  let ?s = "cleared (at a i) (free_head a)"
  note d = node_invD [OF inv]
  note i = pending_head_at [OF d(4) h]
  show "outside (finalized a i) = outside a" by (simp add: finalized_def)
  have "s_generation (at a i) < g" if "checked_add32 (s_generation (at a i)) 1 = Some g" for g
    using that by (auto simp: checked_add32_def word_less_nat_alt unat_inc split: if_splits)
  then have "slot_evolves (at a i) ?s"
    using i(2) by (auto simp: slot_evolves_def cleared_def Let_def phase_def split: option.splits)
  then show "evolves a (finalized a i)" using evolves_put [OF d(1) i(1)] by (simp add: finalized_def)
  have r: "resident (at a i)" using node_wf [OF inv i(1)] i(2) by (simp add: slot_wf_def resident_def)
  have s: "slot_work ?s = 0" "payload_len ?s = 0"
    by (simp_all add: slot_work_def resident_def cleared_def Let_def payload_len_def split: option.splits)
  show "node_work (finalized a i) + 1 = node_work a"
    using total_put [OF d(1) i(1), of slot_work ?s] s(1) r none by (simp add: finalized_def) (simp add: node_work_def slot_work_def)
  have "payload_len (at a i) \<le> live_payload_bytes a"
    using d(5) total_put [OF d(1) i(1), of payload_len ?s] s(2) by (simp add: totals_ok_def)
  then show "live_payload_bytes (finalized a i) + payload_len (at a i) = live_payload_bytes a" by (simp add: finalized_def)
qed

lemma reclaim_node_ok:
  assumes inv: "node_inv None X a" and h: "pending_head a = Some i"
  shows "\<exists>s b. reclaim_node a r = Some (s, b) \<and> node_inv None X b \<and> outside b = outside a \<and> evolves a b \<and>
     node_work b + 1 = node_work a \<and> rr_transitions s = rr_transitions r + 1 \<and>
     live_payload_bytes b + rr_payload_bytes_reclaimed s = live_payload_bytes a + rr_payload_bytes_reclaimed r \<and>
     rr_payload_bytes_reclaimed r \<le> rr_payload_bytes_reclaimed s"
proof -
  note d = node_invD [OF inv]
  note i = pending_head_at [OF d(4) h]
  show ?thesis
  proof (cases "held (at a i)")
    case Nil
    then show ?thesis
      using finalized_frame [OF inv h Nil] node_inv_finalized [OF inv h Nil] finalize_pending_head_at [OF d(1) i(1)] h
      by (simp add: reclaim_node_def next_retiring_child_at [OF d(1) i(1)])
  next
    case (Cons c rest)
    let ?s = "(at a i)\<lparr>s_retire_child_index := s_retire_child_index (at a i) + 1\<rparr>"
    let ?b = "put a i ?s"
    have invb: "node_inv None (add_mset c X) ?b" by (rule node_inv_pass_child [OF inv i Cons])
    obtain b where b: "drop_reference ?b (id_slot c) = Some b" "node_inv None X b" "outside b = outside ?b" "evolves ?b b"
        "node_work b = node_work ?b" "live_payload_bytes b = live_payload_bytes ?b"
      using drop_reference_ok [OF invb] by blast
    have e: "evolves a ?b" using d(1) i by (intro evolves_put) (simp_all add: slot_evolves_def)
    have "held ?s = rest" using Cons by (simp add: held_def drop_Suc tl_drop [symmetric])
    moreover have r: "resident (at a i)" using node_wf [OF inv i(1)] i(2) by (simp add: slot_wf_def resident_def)
    moreover have "resident ?s = resident (at a i)" by (simp add: resident_def)
    ultimately have "slot_work (at a i) = slot_work ?s + 1" using Cons by (simp add: slot_work_def)
    then have "node_work ?b + 1 = node_work a" using total_put [OF d(1) i(1), of slot_work ?s] by (simp add: node_work_def)
    then show ?thesis using b e evolves_trans [OF e b(4)] h Cons
      by (simp add: reclaim_node_def next_retiring_child_at [OF d(1) i(1)] slot_mut_at [OF d(1) i(1)])
  qed
qed

subsection \<open>Allocation and retention\<close>

lemma checked_add_Some: "checked_add x y = Some z \<longleftrightarrow> z = x + y \<and> z < 2 ^ 64"
  by (auto simp: checked_add_def)

text \<open>Taking a slot: refused with nothing changed, or a vacant slot that no list and no handle names.\<close>

lemma acquire_slot_ok:
  assumes inv: "node_inv None X a"
  obtains e where "acquire_slot mem a = Some (Inl e, a)"
  | i b where "acquire_slot mem a = Some (Inr i, b)" "node_inv (Some i) X b" "unat i < next_unused b"
    "s_state (at b i) = SVacant" "outside b = outside a" "evolves a b" "live_payload_bytes b = live_payload_bytes a"
    "\<And>h. live_at a h \<Longrightarrow> live_at b h \<and> at b (id_slot h) = at a (id_slot h)"
proof (cases "free_head a")
  case (Some i)
  note f = node_inv_take_free [OF inv Some]
  let ?b = "(put a i ((at a i)\<lparr>s_next_free := None\<rparr>))\<lparr>free_head := s_next_free (at a i)\<rparr>"
  note sh = node_invD(1) [OF inv]
  have "evolves a (put a i ((at a i)\<lparr>s_next_free := None\<rparr>))" using sh f by (intro evolves_put) (simp_all add: slot_evolves_def)
  moreover have "live_at ?b h \<and> at ?b (id_slot h) = at a (id_slot h)" if "live_at a h" for h
    using that f sh by (auto simp: live_at_def at_put simp del: slots_put)
  ultimately show ?thesis using that(2) [of i ?b] f sh Some by (simp add: acquire_slot_at [OF inv] at_put del: slots_put)
next
  case None
  show ?thesis
  proof (cases "max_slots (limits a) \<le> next_unused a \<or> fresh_segment a \<noteq> [] \<and> \<not> mem Segment")
    case True
    then have "\<exists>e. acquire_slot mem a = Some (Inl e, a)" using None by (auto simp: acquire_slot_at [OF inv])
    then show ?thesis using that(1) by blast
  next
    case False
    then have n: "next_unused a < max_slots (limits a)" by simp
    note g = node_inv_grown [OF inv None n] and le = shapeD(2) [OF node_invD(1) [OF inv]]
    have "evolves a (grown_arena a)" using le by (auto simp: evolves_def nth_append)
    moreover have "live_at (grown_arena a) h \<and> at (grown_arena a) (id_slot h) = at a (id_slot h)" if "live_at a h" for h
      using that le by (auto simp: live_at_def nth_append)
    ultimately show ?thesis using that(2) [of "to_u32 (next_unused a)" "grown_arena a"] g None False
      by (simp add: acquire_slot_at [OF inv])
  qed
qed

lemma install_node_ok:
  assumes inv: "node_inv (Some i) X a" and i: "unat i < next_unused a" "s_state (at a i) = SVacant"
    and cs: "\<forall>c\<in>set cs. live_at a c"
      "\<And>c. c \<in> set cs \<Longrightarrow> unat (s_ref_count (at a (id_slot c))) + refs_to (mset cs) (id_slot c) < 2 ^ 32"
  shows "\<exists>h b. install_node a i (live_payload_bytes a + length p) p cs = Some (Inr h, b) \<and>
     node_inv None (add_mset h X) b \<and> outside b = outside a \<and> evolves a b \<and> \<not> spent a h \<and> \<not> live_at a h \<and>
     live_payload_bytes b = live_payload_bytes a + length p \<and> node_of b h = (Some p, Some cs)"
proof -
  obtain b where b: "retain_children a cs = Some b" "node_inv (Some i) (mset cs + X) b" "b = with_slots a (slots b)"
      "length (slots b) = length (slots a)" "\<And>j. \<exists>r. at b j = (at a j)\<lparr>s_ref_count := r\<rparr>"
    using retain_children_at [OF inv cs] by blast
  note sh = node_invD(1) [OF inv] and shb = node_invD(1) [OF b(2)]
  have flds: "next_unused b = next_unused a" "identity b = identity a" "limits b = limits a" "outside b = outside a"
      "live_payload_bytes b = live_payload_bytes a" "resident_nodes b = resident_nodes a"
    using b(3) by (metis with_slots_simps(1-3,7,8) outside_put(2))+
  have bi: "unat i < next_unused b" "s_state (at b i) = SVacant" using i b(5) [of i] flds by auto
  have e: "evolves a b"
    unfolding evolves_def slot_evolves_def
  proof (intro conjI allI impI disjI2)
    fix j show "s_generation (at a j) = s_generation (at b j)" "phase (s_state (at a j)) \<le> phase (s_state (at b j))"
      using b(5) [of j] by auto
    show "s_payload (at a j) = s_payload (at b j)" "s_children (at a j) = s_children (at b j)" using b(5) [of j] by auto
  qed (simp_all add: flds)
  have f: "evolves b (put b i (fill_slot p cs (at b i)))"
    using bi shb by (intro evolves_put) (simp_all add: slot_evolves_def phase_def)
  let ?c = "filled b i p cs"
  have c: "evolves a ?c" using evolves_trans [OF e f] by (simp add: filled_def)
  have gen: "s_generation (at b i) = s_generation (at a i)" using b(5) [of i] by auto
  have "node_inv None (add_mset (handle b i) X) ?c" by (rule node_inv_filled [OF b(2) bi])
  moreover have "install_node a i (live_payload_bytes a + length p) p cs = Some (Inr (handle b i), ?c)"
    using b(1) bi shb flds
    by (simp add: install_node_def slot_mut_at slot_at at_put filled_def handle_def del: slots_put)
  moreover have "\<not> live_at a (handle b i)" "\<not> spent a (handle b i)"
    using i gen by (simp_all add: live_at_def spent_def handle_def phase_def)
  moreover have "node_of ?c (handle b i) = (Some p, Some cs)"
    using bi shb by (simp add: node_of_def handle_def filled_def at_put del: slots_put) (simp add: fill_slot_def)
  ultimately show ?thesis using c flds by (intro exI [of _ "handle b i"] exI [of _ ?c]) (simp add: filled_def)
qed

lemma allocate_owned_ok:
  assumes inv: "node_inv None X a"
  obtains e where "allocate_owned mem a p cs = Some (Inl e, a)"
  | h b where "allocate_owned mem a p cs = Some (Inr h, b)" "node_inv None (add_mset h X) b" "outside b = outside a"
    "evolves a b" "\<not> spent a h" "\<not> live_at a h" "live_payload_bytes b = live_payload_bytes a + length p"
    "live_payload_bytes b + reserved_external_payload_bytes a \<le> max_live_payload_bytes (limits a)"
    "node_of b h = (Some p, Some cs)" "\<forall>c\<in>set cs. live_at a c"
proof -
  note d = node_invD [OF inv]
  let ?total = "live_payload_bytes a + length p + reserved_external_payload_bytes a"
  show thesis
  proof (cases "length p > ARENA_PAGE_BYTES \<or> length cs > max_children_per_node (limits a) \<or> ?total \<ge> 2 ^ 64 \<or>
      ?total > max_live_payload_bytes (limits a)")
    case True
    then have "\<exists>e. allocate_owned mem a p cs = Some (Inl e, a)" by (auto simp: allocate_owned_def checked_add_def)
    then show thesis using that(1) by blast
  next
    case False
    then have ok: "live_payload_bytes a + length p + reserved_external_payload_bytes a \<le> max_live_payload_bytes (limits a)" by simp
    let ?bad = "\<not> mem (PayloadBytes (length p)) \<or> \<not> mem (ChildIds (length cs))"
    have eq: "allocate_owned mem a p cs = checked (validate_child_ref_increments a cs) a
        (if ?bad then Some (Inl AllocationFailed, a)
         else and_then (acquire_slot mem a) (\<lambda>index a'. install_node a' index (live_payload_bytes a + length p) p cs))"
      using False by (auto simp: allocate_owned_def checked_add_def)
    show thesis
    proof (cases rule: validate_child_ref_increments_at [OF d(1), of cs])
      case (1 e)
      then show thesis using that(1) eq by simp
    next
      case 2
      note v = this(1,2) and fits = this(3)
      show thesis
      proof (cases rule: acquire_slot_ok [OF inv, of mem])
        case (1 e)
        then show thesis using that(1) eq v(1) by (cases ?bad) simp_all
      next
        case (2 i b)
        note b = this
        have lv: "\<forall>c\<in>set cs. live_at b c" using \<open>\<forall>c\<in>set cs. live_at a c\<close> b(8) by blast
        have room: "unat (s_ref_count (at b (id_slot c))) + refs_to (mset cs) (id_slot c) < 2 ^ 32" if "c \<in> set cs" for c
          using that \<open>\<forall>c\<in>set cs. live_at a c\<close> b(8) fits by simp
        obtain h c where c: "install_node b i (live_payload_bytes b + length p) p cs = Some (Inr h, c)"
            "node_inv None (add_mset h X) c" "outside c = outside b" "evolves b c" "\<not> spent b h" "\<not> live_at b h"
            "live_payload_bytes c = live_payload_bytes b + length p" "node_of c h = (Some p, Some cs)"
          using install_node_ok [OF b(2-4) lv room] by blast
        have fresh: "\<not> spent a h" "\<not> live_at a h"
          using c(5,6) evolves_spent [OF b(6)] evolves_live [OF b(6)] by blast+
        show thesis
        proof (cases ?bad)
          case True
          then show thesis using that(1) eq v(1) by simp
        next
          case False
          then have "allocate_owned mem a p cs = Some (Inr h, c)" using eq v(1) b(1,7) c(1) by simp
          then show thesis
            using that(2) [of h c] c(2,3,7,8) b(5,7) evolves_trans [OF b(6) c(4)] fresh ok v(2) by simp
        qed
      qed
    qed
  qed
qed

lemma retain_owned_ok:
  assumes inv: "node_inv None X a"
  obtains e where "validate_owned_retain a h = Some (Inl e)"
  | b where "validate_owned_retain a h = Some (Inr ())" "retain_owned a h = Some (Inr h, b)" "node_inv None (add_mset h X) b"
    "outside b = outside a" "evolves a b" "live_payload_bytes b = live_payload_bytes a" "live_at a h"
proof -
  note sh = node_invD(1) [OF inv]
  let ?c = "s_ref_count (at a (id_slot h))"
  show thesis
  proof (cases "live_at a h \<and> unat ?c + 1 < 2 ^ 32")
    case False
    then have "\<exists>e. validate_owned_retain a h = Some (Inl e)"
      using live_atD(1) [of a h] by (auto simp: validate_owned_retain_def validate_live_at [OF sh] slot_at [OF sh] checked_add32_def)
    then show thesis using that(1) by blast
  next
    case True
    then have h: "live_at a h" and r: "unat ?c + 1 < 2 ^ 32" by blast+
    note i = live_atD [OF h]
    let ?b = "put a (id_slot h) ((at a (id_slot h))\<lparr>s_ref_count := ?c + 1\<rparr>)"
    have v: "validate_owned_retain a h = Some (Inr ())"
      using h r i by (simp add: validate_owned_retain_def validate_live_at [OF sh] slot_at [OF sh] checked_add32_def)
    have "evolves a ?b" using sh i by (intro evolves_put) (simp_all add: slot_evolves_def)
    then show thesis using that(2) [of ?b] v h node_inv_retain [OF inv h r] slot_mut_at [OF sh i(1)]
      by (simp add: retain_owned_def)
  qed
qed

subsection \<open>Reading\<close>

lemma node_of_live:
  assumes inv: "node_inv hole X a" and h: "live_at a h"
  obtains p cs where "node_of a h = (Some p, Some cs)" "arena_payload a h = Some (Inr p)" "child_count a h = Some (Inr (length cs))"
    "\<And>k. child_at a h k = Some (if k < length cs then Inr (cs ! k) else Inl StaleHandle)"
    "\<forall>c\<in>set cs. live_at a c"
proof -
  note d = node_invD [OF inv] and i = live_atD [OF h]
  obtain p cs where s: "s_payload (at a (id_slot h)) = Some p" "s_children (at a (id_slot h)) = Some cs" "s_retire_child_index (at a (id_slot h)) = 0"
    using node_wf [OF inv i(1)] i(2) by (auto simp: slot_wf_def)
  have "c \<in># refs X a" if "c \<in> set cs" for c
  proof -
    have "c \<in> set (held (at a (id_slot h)))" using that s by (simp add: held_def)
    moreover have "at a (id_slot h) \<in> set (slots a)" using i(1) shapeD(2) [OF d(1)] by simp
    ultimately show ?thesis by (auto simp: refs_def total_of_def set_mset_sum_list)
  qed
  then have "\<forall>c\<in>set cs. live_at a c" using countedD(1) [OF d(6)] by blast
  then show thesis using that [of p cs] h s
    by (simp add: node_of_def arena_payload_def child_count_def child_at_def validate_live_at [OF d(1)] slot_at [OF d(1) i(1)])
qed

end
