(* ===== verification/Flark_Arena_Builds.thy ===== *)
theory Flark_Arena_Builds
  imports Flark_Arena_Steps
begin

text \<open>
  The invariant of the arena's build journals: their free list, their abort queue, what a journal holds in
  each state, and that the operations on them keep it. The owners journalled by all builds are references
  from outside the nodes.
\<close>

subsection \<open>The invariant\<close>

abbreviation bat :: "page_arena \<Rightarrow> u32 \<Rightarrow> journal" where
  "bat a i \<equiv> builds a ! unat i"

definition bput :: "page_arena \<Rightarrow> u32 \<Rightarrow> journal \<Rightarrow> page_arena" where
  "bput a i b = a\<lparr>builds := (builds a)[unat i := b]\<rparr>"

definition build_wf :: "nat \<Rightarrow> journal \<Rightarrow> bool" where
  "build_wf limit b \<longleftrightarrow> length (b_owners b) \<le> limit \<and>
     (case b_state b of
        BVacant \<Rightarrow> b_owners b = []
      | Active \<Rightarrow> True
      | Suspended \<Rightarrow> b_owners b \<noteq> []
      | Sealing \<Rightarrow> b_owners b \<noteq> [] \<and> b_seal_root b = Some (last (b_owners b))
      | Aborting \<Rightarrow> b_owners b \<noteq> []
      | BRetired \<Rightarrow> b_owners b = [] \<and> b_generation b = U32_MAX)"

definition vacant_at :: "u32 \<Rightarrow> journal \<Rightarrow> bool" where
  "vacant_at i b \<longleftrightarrow> b_state b = BVacant"

definition aborting_at :: "u32 \<Rightarrow> journal \<Rightarrow> bool" where
  "aborting_at i b \<longleftrightarrow> b_state b = Aborting"

definition in_use :: "journal \<Rightarrow> bool" where
  "in_use b \<longleftrightarrow> b_state b \<noteq> BVacant \<and> b_state b \<noteq> BRetired"

definition bfree_ok :: "page_arena \<Rightarrow> bool" where
  "bfree_ok a \<longleftrightarrow> (\<exists>fs. links b_next_free vacant_at (builds a) (length (builds a)) (build_free_head a) fs)"

definition bpending_ok :: "page_arena \<Rightarrow> bool" where
  "bpending_ok a \<longleftrightarrow>
     (\<exists>ps. links b_pending_next aborting_at (builds a) (length (builds a)) (pending_build_head a) ps \<and>
           pending_build_tail a = (if ps = [] then None else Some (last ps)) \<and> pending_build_aborts a = length ps)"

definition bsum :: "(journal \<Rightarrow> 'b :: comm_monoid_add) \<Rightarrow> page_arena \<Rightarrow> 'b" where
  "bsum f a = sum_list (map f (builds a))"

definition build_inv :: "page_arena \<Rightarrow> bool" where
  "build_inv a \<longleftrightarrow> length (builds a) \<le> max_slots (limits a) \<and> max_slots (limits a) < 2 ^ 32 \<and>
     (\<forall>b\<in>set (builds a). build_wf (max_slots (limits a)) b) \<and>
     bfree_ok a \<and> bpending_ok a \<and> live_builds a = bsum (\<lambda>b. of_bool (in_use b)) a"

definition journal_refs :: "page_arena \<Rightarrow> arena_id multiset" where
  "journal_refs a = bsum (\<lambda>b. mset (b_owners b)) a"

text \<open>The transitions left for aborts: one per owner.\<close>

definition build_work :: "page_arena \<Rightarrow> nat" where
  "build_work a = bsum (\<lambda>b. if b_state b = Aborting then length (b_owners b) else 0) a"

text \<open>A build identity that names a build in a given state.\<close>

definition names :: "page_arena \<Rightarrow> build_state \<Rightarrow> arena_build_id \<Rightarrow> bool" where
  "names a st i \<longleftrightarrow> bid_arena i = identity a \<and> unat (bid_slot i) < length (builds a) \<and>
     b_generation (bat a (bid_slot i)) = bid_generation i \<and> b_state (bat a (bid_slot i)) = st"

lemma validate_build_names: "validate_build a i st = Inr () \<longleftrightarrow> names a st i"
  by (auto simp: validate_build_def build_slot_def names_def)

lemma build_invD:
  assumes "build_inv a"
  shows "length (builds a) \<le> max_slots (limits a)" "max_slots (limits a) < 2 ^ 32"
    "\<forall>b\<in>set (builds a). build_wf (max_slots (limits a)) b" "bfree_ok a" "bpending_ok a"
    "live_builds a = bsum (\<lambda>b. of_bool (in_use b)) a"
  using assms unfolding build_inv_def by simp_all

lemma build_wf_at: "build_inv a \<Longrightarrow> unat i < length (builds a) \<Longrightarrow> build_wf (max_slots (limits a)) (bat a i)"
  using build_invD(3) by simp

subsection \<open>Changing one build\<close>

lemma bput_simps [simp]:
  "builds (bput a i b) = (builds a)[unat i := b]" "identity (bput a i b) = identity a" "limits (bput a i b) = limits a"
  "build_free_head (bput a i b) = build_free_head a" "pending_build_head (bput a i b) = pending_build_head a"
  "pending_build_tail (bput a i b) = pending_build_tail a" "live_builds (bput a i b) = live_builds a"
  "pending_build_aborts (bput a i b) = pending_build_aborts a" "next_reclaim_lane (bput a i b) = next_reclaim_lane a"
  "pending_head (bput a i b) = pending_head a" "bput (bput a i b) i c = bput a i c"
  "reserved_external_payload_bytes (bput a i b) = reserved_external_payload_bytes a" "live_payload_bytes (bput a i b) = live_payload_bytes a"
  "node_work (bput a i b) = node_work a" "evolves a0 (bput a i b) = evolves a0 a"
  by (simp_all add: bput_def)

lemma build_slot_at: "unat i < length (builds a) \<Longrightarrow> build_slot a i = Some (bat a i)"
  by (simp add: build_slot_def)

lemma build_slot_mut_at: "unat i < length (builds a) \<Longrightarrow> build_slot_mut a i f = Some (bput a i (f (bat a i)))"
  by (simp add: build_slot_mut_def bput_def)

lemma bsum_put: "unat i < length (builds a) \<Longrightarrow> bsum f (bput a i b) + f (bat a i) = bsum f a + f b"
  by (simp add: bsum_def sum_list_map_update)

lemma bsum_put_same:
  fixes f :: "journal \<Rightarrow> 'b :: cancel_comm_monoid_add"
  shows "f b = f (bat a i) \<Longrightarrow> bsum f (bput a i b) = bsum f a"
  by (simp add: bsum_def sum_list_map_same)

lemma journal_refs_put: "unat i < length (builds a) \<Longrightarrow> journal_refs (bput a i b) + mset (b_owners (bat a i)) = journal_refs a + mset (b_owners b)"
  unfolding journal_refs_def by (rule bsum_put)

lemma journal_refs_put_same: "mset (b_owners b) = mset (b_owners (bat a i)) \<Longrightarrow> journal_refs (bput a i b) = journal_refs a"
  unfolding journal_refs_def by (rule bsum_put_same)

lemma bfree_put:
  assumes "bfree_ok a" "vacant_at i b = vacant_at i (bat a i)" "b_next_free b = b_next_free (bat a i) \<or> \<not> vacant_at i b"
  shows "bfree_ok (bput a i b)"
proof -
  obtain fs where "links b_next_free vacant_at (builds a) (length (builds a)) (build_free_head a) fs"
    using assms(1) unfolding bfree_ok_def by blast
  from links_keep_at [where c = b, OF this assms(2,3)] show ?thesis by (auto simp: bfree_ok_def)
qed

lemma bpending_put:
  assumes "bpending_ok a" "aborting_at i b = aborting_at i (bat a i)" "b_pending_next b = b_pending_next (bat a i) \<or> \<not> aborting_at i b"
  shows "bpending_ok (bput a i b)"
proof -
  obtain ps where ps: "links b_pending_next aborting_at (builds a) (length (builds a)) (pending_build_head a) ps"
      "pending_build_tail a = (if ps = [] then None else Some (last ps))" "pending_build_aborts a = length ps"
    using assms(1) unfolding bpending_ok_def by blast
  from links_keep_at [where c = b, OF ps(1) assms(2,3)] show ?thesis using ps(2,3) by (auto simp: bpending_ok_def)
qed

lemma wf_bput:
  "\<forall>b\<in>set (builds a). build_wf m b \<Longrightarrow> build_wf m b \<Longrightarrow> \<forall>b\<in>set (builds (bput a i b)). build_wf m b"
  using set_update_subset_insert [of "builds a" "unat i" b] by auto

text \<open>A change of state and owners between states that are in use and not aborting.\<close>

lemma build_inv_change:
  assumes inv: "build_inv a" and i: "unat i < length (builds a)"
    and b: "in_use (bat a i)" "b_state (bat a i) \<noteq> Aborting" "in_use b" "b_state b \<noteq> Aborting" "build_wf (max_slots (limits a)) b"
  shows "build_inv (bput a i b)"
proof -
  note d = build_invD [OF inv]
  have "bfree_ok (bput a i b)" using b by (intro bfree_put d) (auto simp: vacant_at_def in_use_def)
  moreover have "bpending_ok (bput a i b)" using b by (intro bpending_put d) (auto simp: aborting_at_def)
  ultimately show ?thesis using d wf_bput [OF d(3) b(5)] b(1,3) by (simp add: build_inv_def bsum_put_same)
qed

lemma build_work_put_same:
  "b_state b \<noteq> Aborting \<Longrightarrow> b_state (bat a i) \<noteq> Aborting \<Longrightarrow> build_work (bput a i b) = build_work a"
  unfolding build_work_def by (rule bsum_put_same) simp

subsection \<open>Recycling\<close>

text \<open>A build given back: vacant at the head of the free list under a new generation, or retired after the last one.\<close>

definition recycled :: "journal \<Rightarrow> u32 option \<Rightarrow> journal" where
  "recycled b head =
     (case checked_add32 (b_generation b) 1 of
        Some g \<Rightarrow> b\<lparr>b_generation := g, b_state := BVacant, b_next_free := head, b_pending_next := None, b_seal_root := None\<rparr>
      | None \<Rightarrow> b\<lparr>b_state := BRetired, b_next_free := None, b_pending_next := None, b_seal_root := None\<rparr>)"

definition recycle :: "page_arena \<Rightarrow> u32 \<Rightarrow> page_arena" where
  "recycle a i = (bput a i (recycled (bat a i) (build_free_head a)))
     \<lparr>build_free_head := (if checked_add32 (b_generation (bat a i)) 1 = None then build_free_head a else Some i),
      live_builds := live_builds a - 1\<rparr>"

lemma recycle_build_at: "unat i < length (builds a) \<Longrightarrow> recycle_build a i = Some (recycle a i)"
  by (simp add: recycle_build_def recycle_def recycled_def build_slot_at build_slot_mut_at Let_def split: option.splits)

lemma recycled_props [simp]:
  "\<not> in_use (recycled b h)" "b_owners (recycled b h) = b_owners b" "b_state (recycled b h) \<noteq> Aborting"
  "b_state (recycled b h) \<noteq> Active" "b_state (recycled b h) \<noteq> Suspended" "b_state (recycled b h) \<noteq> Sealing"
  by (simp_all add: recycled_def in_use_def split: option.splits)

lemma journal_refs_recycle: "journal_refs (recycle a i) = journal_refs a"
proof -
  have "journal_refs (recycle a i) = journal_refs (bput a i (recycled (bat a i) (build_free_head a)))" by (simp add: journal_refs_def bsum_def recycle_def)
  then show ?thesis by (simp add: journal_refs_put_same)
qed

lemma bfree_recycle:
  assumes f: "bfree_ok a" and i: "unat i < length (builds a)" "b_state (bat a i) \<noteq> BVacant"
  shows "bfree_ok (recycle a i)"
proof -
  obtain fs where fs: "links b_next_free vacant_at (builds a) (length (builds a)) (build_free_head a) fs"
    using f unfolding bfree_ok_def by blast
  let ?b = "recycled (bat a i) (build_free_head a)"
  have ni: "\<not> vacant_at i (bat a i)" using i(2) by (simp add: vacant_at_def)
  show ?thesis
  proof (cases "checked_add32 (b_generation (bat a i)) 1")
    case None
    then have "\<not> vacant_at i ?b" by (simp add: recycled_def vacant_at_def)
    then have "links b_next_free vacant_at ((builds a)[unat i := ?b]) (length (builds a)) (build_free_head a) fs"
      using links_keep_at [OF fs, of i ?b] ni by blast
    then show ?thesis using None by (auto simp: bfree_ok_def recycle_def)
  next
    case (Some g)
    then have "vacant_at i ?b" "b_next_free ?b = build_free_head a" by (simp_all add: recycled_def vacant_at_def)
    then have "links b_next_free vacant_at ((builds a)[unat i := ?b]) (length (builds a)) (Some i) (i # fs)"
      using links_push [OF fs _ _ i(1) ni] by blast
    then show ?thesis using Some by (auto simp: bfree_ok_def recycle_def)
  qed
qed

text \<open>The abort queue is stated apart: the build may leave it in the same step.\<close>

lemma build_inv_recycle:
  assumes "length (builds a) \<le> max_slots (limits a)" "max_slots (limits a) < 2 ^ 32"
    and wf: "\<And>k. k < length (builds a) \<Longrightarrow> k \<noteq> unat i \<Longrightarrow> build_wf (max_slots (limits a)) (builds a ! k)"
    and "bfree_ok a" "live_builds a = bsum (\<lambda>b. of_bool (in_use b)) a"
    and i: "unat i < length (builds a)" "in_use (bat a i)" "b_owners (bat a i) = []" and p: "bpending_ok (recycle a i)"
  shows "build_inv (recycle a i)"
proof -
  let ?b = "recycled (bat a i) (build_free_head a)"
  have "bsum (\<lambda>b. of_bool (in_use b)) (bput a i ?b) = bsum (\<lambda>b. of_bool (in_use b)) a - (1 :: nat)"
    using bsum_put [OF i(1), of "\<lambda>b. of_bool (in_use b) :: nat" ?b] i(2) by simp
  moreover have "build_wf (max_slots (limits a)) ?b"
    using i(3) by (auto simp: build_wf_def recycled_def checked_add32_None split: option.splits)
  then have "build_wf (max_slots (limits a)) ((builds a)[unat i := ?b] ! k)" if "k < length (builds a)" for k
    using that wf [of k] by (cases "k = unat i") simp_all
  then have "\<forall>c\<in>set ((builds a)[unat i := ?b]). build_wf (max_slots (limits a)) c"
    by (auto simp: in_set_conv_nth)
  ultimately show ?thesis
    using assms(1,2,5) bfree_recycle [OF assms(4) i(1)] i(2) p
    by (simp add: build_inv_def recycle_def bsum_def in_use_def)
qed

lemma build_inv_recycle_change:
  assumes inv: "build_inv a" and i: "unat i < length (builds a)" "in_use (bat a i)" "b_state (bat a i) \<noteq> Aborting"
    and c: "in_use c" "b_owners c = []"
  shows "build_inv (recycle (bput a i c) i)"
proof -
  note d = build_invD [OF inv]
  let ?a = "bput a i c"
  have ati: "bat ?a i = c" using i(1) by simp
  have "bfree_ok ?a" using i(2) c by (intro bfree_put d) (auto simp: vacant_at_def in_use_def)
  moreover have "bsum (\<lambda>b. of_bool (in_use b)) ?a = (bsum (\<lambda>b. of_bool (in_use b)) a :: nat)"
    using i(2) c(1) by (simp add: bsum_put_same)
  moreover have "bpending_ok (bput a i (recycled c (build_free_head a)))"
    using i(3) by (intro bpending_put d) (auto simp: aborting_at_def)
  then have "bpending_ok (recycle ?a i)" using i(1) by (simp add: bpending_ok_def recycle_def)
  ultimately show ?thesis using d i(1) c ati by (intro build_inv_recycle) simp_all
qed

subsection \<open>The abort queue\<close>

definition queued :: "page_arena \<Rightarrow> u32 \<Rightarrow> page_arena" where
  "queued a i =
     (let b = bput a i ((bat a i)\<lparr>b_state := Aborting, b_seal_root := None, b_pending_next := None\<rparr>);
          c = (case pending_build_tail a of
                 Some t \<Rightarrow> bput b t ((bat b t)\<lparr>b_pending_next := Some i\<rparr>)
               | None \<Rightarrow> b\<lparr>pending_build_head := Some i\<rparr>)
      in c\<lparr>pending_build_tail := Some i, pending_build_aborts := pending_build_aborts a + 1\<rparr>)"

lemma pending_build_tail_at:
  assumes "bpending_ok a" "pending_build_tail a = Some t"
  shows "unat t < length (builds a)" "b_state (bat a t) = Aborting"
proof -
  obtain ps where ps: "links b_pending_next aborting_at (builds a) (length (builds a)) (pending_build_head a) ps" "t = last ps" "ps \<noteq> []"
    using assms unfolding bpending_ok_def by (auto split: if_splits)
  then have "t \<in> set ps" by simp
  then show "unat t < length (builds a)" "b_state (bat a t) = Aborting"
    using linksD(4) [OF ps(1), of t] by (simp_all add: aborting_at_def)
qed

lemma pending_build_head_at:
  assumes "bpending_ok a" "pending_build_head a = Some i"
  shows "unat i < length (builds a)" "b_state (bat a i) = Aborting"
proof -
  obtain ps where ps: "links b_pending_next aborting_at (builds a) (length (builds a)) (pending_build_head a) ps"
    using assms unfolding bpending_ok_def by blast
  then have "i \<in> set ps" using linksD(1) [OF ps] assms(2) by (cases ps) auto
  then show "unat i < length (builds a)" "b_state (bat a i) = Aborting"
    using linksD(4) [OF ps, of i] by (simp_all add: aborting_at_def)
qed

lemma bpending_queued:
  assumes p: "bpending_ok a" and i: "unat i < length (builds a)" "b_state (bat a i) \<noteq> Aborting"
  shows "bpending_ok (queued a i)"
proof -
  let ?c = "(bat a i)\<lparr>b_state := Aborting, b_seal_root := None, b_pending_next := None\<rparr>"
  let ?b = "bput a i ?c"
  obtain ps where ps: "links b_pending_next aborting_at (builds a) (length (builds a)) (pending_build_head a) ps"
      "pending_build_tail a = (if ps = [] then None else Some (last ps))" "pending_build_aborts a = length ps"
    using p unfolding bpending_ok_def by blast
  have c: "aborting_at i ?c" "b_pending_next ?c = None" "\<not> aborting_at i (bat a i)"
    using i(2) by (simp_all add: aborting_at_def)
  show ?thesis
  proof (cases "ps = []")
    case True
    then have "links b_pending_next aborting_at (builds ?b) (length (builds a)) (Some i) [i]"
      using links_enqueue_empty [where nx = b_pending_next and P = aborting_at and c = ?c, OF _ c(1,2) i(1) c(3)] ps(1) by simp
    then show ?thesis using True ps by (auto simp: bpending_ok_def queued_def Let_def intro!: exI [of _ "[i]"])
  next
    case False
    let ?t = "last ps" and ?d = "(bat ?b (last ps))\<lparr>b_pending_next := Some i\<rparr>"
    have t: "unat ?t < length (builds a)" "b_state (bat a ?t) = Aborting" using pending_build_tail_at [OF p, of ?t] ps(2) False by simp_all
    then have "i \<noteq> ?t" using i(2) by auto
    then have d: "aborting_at ?t ?d" "b_pending_next ?d = Some i" using t by (simp_all add: aborting_at_def unat_eq)
    have "links b_pending_next aborting_at (builds (bput ?b ?t ?d)) (length (builds a)) (pending_build_head a) (ps @ [i])"
      using links_enqueue [OF ps(1) c(1,2) i(1) c(3) False d] by simp
    then show ?thesis using False ps by (auto simp: bpending_ok_def queued_def Let_def intro!: exI [of _ "ps @ [i]"])
  qed
qed

lemma queued_at:
  assumes p: "bpending_ok a" and i: "unat i < length (builds a)" "b_state (bat a i) \<noteq> Aborting"
  shows "length (builds (queued a i)) = length (builds a)" "identity (queued a i) = identity a" "limits (queued a i) = limits a"
    "\<exists>nx. bat (queued a i) j = (if j = i then (bat a i)\<lparr>b_state := Aborting, b_seal_root := None, b_pending_next := nx\<rparr>
       else (bat a j)\<lparr>b_pending_next := nx\<rparr>)"
proof -
  show "length (builds (queued a i)) = length (builds a)" "identity (queued a i) = identity a" "limits (queued a i) = limits a"
    by (simp_all add: queued_def Let_def split: option.splits)
  show "\<exists>nx. bat (queued a i) j = (if j = i then (bat a i)\<lparr>b_state := Aborting, b_seal_root := None, b_pending_next := nx\<rparr>
       else (bat a j)\<lparr>b_pending_next := nx\<rparr>)"
  proof (cases "pending_build_tail a")
    case None
    then show ?thesis using i
      by (intro exI [of _ "if j = i then None else b_pending_next (bat a j)"]) (simp add: queued_def Let_def unat_eq nth_list_update)
  next
    case (Some t)
    note t = pending_build_tail_at [OF p Some]
    then have ne: "t \<noteq> i" using i by auto
    then show ?thesis using i Some t
      by (intro exI [of _ "if j = i then None else if j = t then Some i else b_pending_next (bat a j)"])
         (auto simp: queued_def Let_def unat_eq nth_list_update)
  qed
qed

lemma bsum_queued:
  fixes f :: "journal \<Rightarrow> 'z :: cancel_comm_monoid_add"
  assumes i: "unat i < length (builds a)" and f: "\<And>b nx. f (b\<lparr>b_pending_next := nx\<rparr>) = f b"
  shows "bsum f (queued a i) + f (bat a i) = bsum f a + f ((bat a i)\<lparr>b_state := Aborting, b_seal_root := None\<rparr>)"
proof -
  let ?c = "(bat a i)\<lparr>b_state := Aborting, b_seal_root := None, b_pending_next := None\<rparr>"
  let ?b = "bput a i ?c"
  have t: "bsum f (bput ?b t ((bat ?b t)\<lparr>b_pending_next := Some i\<rparr>)) = bsum f ?b" for t
    by (rule bsum_put_same) (rule f)
  have "bsum f (queued a i) = bsum f ?b"
    using t by (simp add: queued_def Let_def bsum_def split: option.splits)
  moreover have "f ?c = f ((bat a i)\<lparr>b_state := Aborting, b_seal_root := None\<rparr>)" by (rule f)
  ultimately show ?thesis using bsum_put [OF i, of f ?c] by simp
qed

lemma wf_pending_next: "build_wf m (b\<lparr>b_pending_next := nx\<rparr>) = build_wf m b"
  by (simp add: build_wf_def split: build_state.splits)

lemma build_inv_queued:
  assumes inv: "build_inv a" and i: "unat i < length (builds a)" "in_use (bat a i)" "b_state (bat a i) \<noteq> Aborting" "b_owners (bat a i) \<noteq> []"
  shows "build_inv (queued a i)"
proof -
  note d = build_invD [OF inv]
  let ?c = "(bat a i)\<lparr>b_state := Aborting, b_seal_root := None, b_pending_next := None\<rparr>"
  let ?b = "bput a i ?c"
  let ?e = "\<lambda>t. bput ?b t ((bat ?b t)\<lparr>b_pending_next := Some i\<rparr>)"
  note t = pending_build_tail_at [OF d(5)]
  have fb: "bfree_ok ?b" using i by (intro bfree_put d) (auto simp: vacant_at_def in_use_def)
  have ft: "bfree_ok (?e t)" for t using fb by (rule bfree_put) (simp_all add: vacant_at_def)
  have "bfree_ok (queued a i)" using fb ft by (simp add: queued_def Let_def bfree_ok_def split: option.splits)
  moreover have "build_wf (max_slots (limits a)) ?c"
    using build_wf_at [OF inv i(1)] i(4) by (simp add: build_wf_def)
  then have wb: "\<forall>b\<in>set (builds ?b). build_wf (max_slots (limits a)) b" by (rule wf_bput [OF d(3)])
  have "\<forall>b\<in>set (builds (?e t)). build_wf (max_slots (limits a)) b" if "unat t < length (builds a)" for t
  proof -
    have "unat t < length (builds ?b)" using that by simp
    then have "build_wf (max_slots (limits a)) (bat ?b t)" using wb nth_mem by blast
    then have "build_wf (max_slots (limits a)) ((bat ?b t)\<lparr>b_pending_next := Some i\<rparr>)" by (simp only: wf_pending_next)
    then show ?thesis by (rule wf_bput [OF wb])
  qed
  then have "\<forall>b\<in>set (builds (queued a i)). build_wf (max_slots (limits a)) b"
    using wb t by (auto simp: queued_def Let_def simp del: bput_simps(1) split: option.splits)
  moreover have "bsum (\<lambda>b. of_bool (in_use b)) (queued a i) = (bsum (\<lambda>b. of_bool (in_use b)) a :: nat)"
    using bsum_queued [OF i(1), of "\<lambda>b. of_bool (in_use b) :: nat"] i(2) by (simp add: in_use_def)
  moreover have "live_builds (queued a i) = live_builds a" by (simp add: queued_def Let_def split: option.splits)
  ultimately show ?thesis
    using d bpending_queued [OF d(5) i(1,3)] queued_at(1,3) [OF d(5) i(1,3)] by (simp add: build_inv_def)
qed

subsection \<open>What build operations leave alone\<close>

definition inside :: "page_arena \<Rightarrow> _" where
  "inside a = (identity a, limits a, segments a, next_unused a, free_head a, pending_head a, pending_tail a,
     resident_nodes a, live_payload_bytes a, reserved_external_payload_bytes a, pending_reclaims a)"

lemma insideD:
  assumes "inside b = inside a"
  shows "identity b = identity a" "limits b = limits a" "slots b = slots a" "next_unused b = next_unused a"
    "live_payload_bytes b = live_payload_bytes a" "reserved_external_payload_bytes b = reserved_external_payload_bytes a"
    "pending_head b = pending_head a" "resident_nodes b = resident_nodes a"
  using assms unfolding inside_def slots_def by simp_all

lemma inside_fields [simp]:
  "inside (a\<lparr>builds := bs\<rparr>) = inside a" "inside (a\<lparr>build_free_head := h\<rparr>) = inside a" "inside (a\<lparr>pending_build_head := h\<rparr>) = inside a"
  "inside (a\<lparr>pending_build_tail := h\<rparr>) = inside a" "inside (a\<lparr>live_builds := n\<rparr>) = inside a"
  "inside (a\<lparr>pending_build_aborts := n\<rparr>) = inside a" "inside (a\<lparr>next_reclaim_lane := l\<rparr>) = inside a"
  "inside (bput a i b) = inside a" "inside (recycle a i) = inside a" "inside (queued a i) = inside a"
  by (simp_all add: inside_def bput_def recycle_def queued_def Let_def split: option.splits)

lemma inside_node_inv: "inside b = inside a \<Longrightarrow> node_inv hole X b = node_inv hole X a"
  by (simp add: inside_def node_inv_def core_inv_def shape_def segs_ok_def slots_def free_ok_def pending_ok_def totals_ok_def
      total_of_def counted_def refs_def live_at_def ranked_def)

lemma inside_evolves: "inside b = inside a \<Longrightarrow> evolves a b"
  by (simp add: inside_def evolves_def slots_def)

lemma inside_node_work: "inside b = inside a \<Longrightarrow> node_work b = node_work a"
  by (simp add: inside_def node_work_def total_of_def slots_def)

lemma outside_build_inv: "outside b = outside a \<Longrightarrow> build_inv b = build_inv a"
  by (simp add: outside_def build_inv_def bfree_ok_def bpending_ok_def bsum_def)

lemma outside_journals: "outside b = outside a \<Longrightarrow> journal_refs b = journal_refs a" "outside b = outside a \<Longrightarrow> build_work b = build_work a"
  "outside b = outside a \<Longrightarrow> names b st i = names a st i"
  by (simp_all add: outside_def journal_refs_def build_work_def bsum_def names_def)

subsection \<open>Names\<close>

lemma namesD:
  assumes "names a st i"
  shows "unat (bid_slot i) < length (builds a)" "b_state (bat a (bid_slot i)) = st" "b_generation (bat a (bid_slot i)) = bid_generation i"
    "bid_arena i = identity a"
  using assms unfolding names_def by simp_all

lemma names_unique: "names a st i \<Longrightarrow> names a st' j \<Longrightarrow> bid_slot i = bid_slot j \<Longrightarrow> i = j \<and> st = st'"
  by (auto simp: names_def intro: arena_build_id.equality)

lemma names_bput:
  "unat k < length (builds a) \<Longrightarrow> names (bput a k b) st j =
     (if bid_slot j = k then bid_arena j = identity a \<and> b_generation b = bid_generation j \<and> b_state b = st else names a st j)"
  by (simp add: names_def unat_eq nth_list_update)

text \<open>A build whose state moves on, its generation kept.\<close>

lemma names_move:
  assumes i: "names a st i" and b: "b_generation b = b_generation (bat a (bid_slot i))" "b_state b = st'"
  shows "names (bput a (bid_slot i) b) u j \<longleftrightarrow> (if j = i then u = st' else names a u j)"
proof -
  note d = namesD [OF i]
  show ?thesis
  proof (cases "bid_slot j = bid_slot i")
    case True
    have "j = i \<longleftrightarrow> bid_arena j = identity a \<and> b_generation b = bid_generation j"
      using True d(3,4) b(1) by (auto intro: arena_build_id.equality)
    moreover have "\<not> names a u j" if "j \<noteq> i" using names_unique [OF i] True that by metis
    ultimately show ?thesis using names_bput [OF d(1), of b u j] True b(2) by auto
  next
    case False
    then show ?thesis using names_bput [OF d(1), of b u j] by auto
  qed
qed

text \<open>A build that is given back: no identity names it in use any more.\<close>

lemma names_recycle:
  assumes i: "unat k < length (builds a)" and u: "u = Active \<or> u = Suspended \<or> u = Sealing"
  shows "names (recycle a k) u j \<longleftrightarrow> bid_slot j \<noteq> k \<and> names a u j"
proof -
  have "names (recycle a k) u j = names (bput a k (recycled (bat a k) (build_free_head a))) u j"
    by (simp add: names_def recycle_def)
  then show ?thesis using names_bput [OF i] u by auto
qed

lemma names_queued:
  assumes p: "bpending_ok a" and i: "unat i < length (builds a)" "b_state (bat a i) \<noteq> Aborting" and u: "u \<noteq> Aborting"
  shows "names (queued a i) u j \<longleftrightarrow> bid_slot j \<noteq> i \<and> names a u j"
proof -
  note q = queued_at [OF p i]
  obtain nx where "bat (queued a i) (bid_slot j) = (if bid_slot j = i then (bat a i)\<lparr>b_state := Aborting, b_seal_root := None, b_pending_next := nx\<rparr>
       else (bat a (bid_slot j))\<lparr>b_pending_next := nx\<rparr>)"
    using q(4) by blast
  then show ?thesis using q(1,2) u by (auto simp: names_def)
qed

subsection \<open>Operations\<close>

lemma begin_abort_at:
  assumes p: "bpending_ok a" and i: "names a st i" "st \<noteq> Aborting"
  shows "begin_abort a i = Some (if b_owners (bat a (bid_slot i)) = []
     then recycle (bput a (bid_slot i) ((bat a (bid_slot i))\<lparr>b_state := Aborting, b_seal_root := None\<rparr>)) (bid_slot i)
     else queued a (bid_slot i))"
proof -
  note d = namesD [OF i(1)]
  have "t \<noteq> bid_slot i \<and> unat t < length (builds a)" if "pending_build_tail a = Some t" for t
    using pending_build_tail_at [OF p that] d(2) i(2) by auto
  then show ?thesis using d(1)
    by (auto simp: begin_abort_def append_pending_build_def queued_def Let_def build_slot_at build_slot_mut_at recycle_build_at
        unat_eq split: option.splits)
qed

lemma begin_abort_ok:
  assumes inv: "build_inv a" and i: "names a st i" and st: "st = Active \<or> st = Suspended \<or> st = Sealing"
  shows "\<exists>b. begin_abort a i = Some b \<and> build_inv b \<and> inside b = inside a \<and> journal_refs b = journal_refs a \<and>
     (\<forall>u j. u = Active \<or> u = Suspended \<or> u = Sealing \<longrightarrow> names b u j = (j \<noteq> i \<and> names a u j))"
proof -
  note d = build_invD [OF inv] and n = namesD [OF i]
  let ?k = "bid_slot i"
  have na: "st \<noteq> Aborting" and use: "in_use (bat a ?k)" using st n(2) by (auto simp: in_use_def)
  have slot_eq: "(bid_slot j \<noteq> ?k \<and> names a u j) = (j \<noteq> i \<and> names a u j)" for u j
    using names_unique [OF i, of u j] by auto
  show ?thesis
  proof (cases "b_owners (bat a ?k) = []")
    case True
    let ?c = "(bat a ?k)\<lparr>b_state := Aborting, b_seal_root := None\<rparr>"
    let ?b = "recycle (bput a ?k ?c) ?k"
    have "build_inv ?b" using use n na True by (intro build_inv_recycle_change [OF inv]) (simp_all add: in_use_def)
    moreover have "journal_refs ?b = journal_refs a" by (simp add: journal_refs_recycle journal_refs_put_same)
    moreover have "names ?b u j = (j \<noteq> i \<and> names a u j)" if "u = Active \<or> u = Suspended \<or> u = Sealing" for u j
      using names_recycle [of ?k "bput a ?k ?c" u j] names_move [OF i, of ?c Aborting u j] that slot_eq n(1) by auto
    ultimately show ?thesis using begin_abort_at [OF d(5) i na] True by simp
  next
    case False
    have "build_inv (queued a ?k)" using use n na False by (intro build_inv_queued [OF inv]) simp_all
    moreover have "journal_refs (queued a ?k) = journal_refs a"
      using bsum_queued [OF n(1), of "\<lambda>b. mset (b_owners b)"] by (simp add: journal_refs_def)
    moreover have "names (queued a ?k) u j = (j \<noteq> i \<and> names a u j)" if "u = Active \<or> u = Suspended \<or> u = Sealing" for u j
      using names_queued [OF d(5) n(1), of u j] that slot_eq n(2) na by auto
    ultimately show ?thesis using begin_abort_at [OF d(5) i na] False by simp
  qed
qed

definition activated :: "journal \<Rightarrow> journal" where
  "activated b = b\<lparr>b_state := Active, b_next_free := None, b_pending_next := None, b_seal_root := None\<rparr>"

definition build_handle :: "page_arena \<Rightarrow> u32 \<Rightarrow> arena_build_id" where
  "build_handle a k = \<lparr>bid_arena = identity a, bid_slot = k, bid_generation = b_generation (bat a k)\<rparr>"

lemma activated_props [simp]:
  "b_state (activated b) = Active" "b_owners (activated b) = b_owners b" "in_use (activated b)" "b_generation (activated b) = b_generation b"
  by (simp_all add: activated_def in_use_def)

text \<open>From the free list.\<close>

lemma build_inv_reuse:
  assumes inv: "build_inv a" and h: "build_free_head a = Some k"
  defines "b \<equiv> (bput a k (activated (bat a k)))\<lparr>build_free_head := b_next_free (bat a k), live_builds := live_builds a + 1\<rparr>"
  shows "build_inv b" "unat k < length (builds a)" "b_state (bat a k) = BVacant" "b_owners (bat a k) = []"
proof -
  note d = build_invD [OF inv]
  obtain fs where fs: "links b_next_free vacant_at (builds a) (length (builds a)) (Some k) fs"
    using d(4) h unfolding bfree_ok_def by auto
  have "k \<in> set fs" using linksD(1) [OF fs] by (cases fs) auto
  then show k: "unat k < length (builds a)" "b_state (bat a k) = BVacant"
    using linksD(4) [OF fs, of k] by (simp_all add: vacant_at_def)
  show o: "b_owners (bat a k) = []" using build_wf_at [OF inv k(1)] k(2) by (simp add: build_wf_def)
  obtain js where "links b_next_free vacant_at ((builds a)[unat k := activated (bat a k)]) (length (builds a)) (b_next_free (bat a k)) js"
    using links_pop [OF fs, of vacant_at "activated (bat a k)"] by (auto simp: vacant_at_def)
  then have "bfree_ok b" by (auto simp: bfree_ok_def b_def)
  moreover have "bpending_ok (bput a k (activated (bat a k)))" using k(2) by (intro bpending_put d) (auto simp: aborting_at_def)
  then have "bpending_ok b" by (simp add: bpending_ok_def b_def)
  moreover have "build_wf (max_slots (limits a)) (activated (bat a k))" using o by (simp add: build_wf_def)
  then have "\<forall>c\<in>set (builds (bput a k (activated (bat a k)))). build_wf (max_slots (limits a)) c" by (rule wf_bput [OF d(3)])
  moreover have "bsum (\<lambda>b. of_bool (in_use b)) (bput a k (activated (bat a k))) = bsum (\<lambda>b. of_bool (in_use b)) a + (1 :: nat)"
    using bsum_put [OF k(1), of "\<lambda>b. of_bool (in_use b) :: nat" "activated (bat a k)"] k(2) by (simp add: in_use_def)
  ultimately show "build_inv b" using d by (simp add: build_inv_def b_def bsum_def)
qed

text \<open>A new journal at the end of the vector.\<close>

lemma build_inv_new:
  assumes inv: "build_inv a" and n: "length (builds a) < max_slots (limits a)"
  defines "b \<equiv> a\<lparr>builds := builds a @ [activated vacant_build], live_builds := live_builds a + 1\<rparr>"
  shows "build_inv b"
proof -
  note d = build_invD [OF inv]
  obtain fs where fs: "links b_next_free vacant_at (builds a) (length (builds a)) (build_free_head a) fs"
    using d(4) unfolding bfree_ok_def by blast
  obtain ps where ps: "links b_pending_next aborting_at (builds a) (length (builds a)) (pending_build_head a) ps"
      "pending_build_tail a = (if ps = [] then None else Some (last ps))" "pending_build_aborts a = length ps"
    using d(5) unfolding bpending_ok_def by blast
  have "links b_next_free vacant_at (builds a @ [activated vacant_build]) (length (builds a) + 1) (build_free_head a) fs"
    by (rule links_grow [OF fs]) (auto simp: vacant_at_def less_Suc_eq)
  then have "bfree_ok b" by (auto simp: bfree_ok_def b_def)
  moreover have "links b_pending_next aborting_at (builds a @ [activated vacant_build]) (length (builds a) + 1) (pending_build_head a) ps"
    by (rule links_grow [OF ps(1)]) (auto simp: aborting_at_def less_Suc_eq)
  then have "bpending_ok b" using ps(2,3) by (auto simp: bpending_ok_def b_def)
  moreover have "build_wf (max_slots (limits a)) (activated vacant_build)" by (simp add: build_wf_def vacant_build_def)
  ultimately show ?thesis using d n by (auto simp: build_inv_def b_def bsum_def)
qed

lemma acquire_build_slot_at:
  assumes inv: "build_inv a"
  shows "acquire_build_slot mem a =
     (case build_free_head a of
        Some k \<Rightarrow> Some (Inr (build_handle a k),
          (bput a k (activated (bat a k)))\<lparr>build_free_head := b_next_free (bat a k), live_builds := live_builds a + 1\<rparr>)
      | None \<Rightarrow>
          Some (if max_slots (limits a) \<le> length (builds a) then (Inl BuildCapacityExceeded, a)
            else if \<not> mem BuildEntry then (Inl AllocationFailed, a)
            else (Inr \<lparr>bid_arena = identity a, bid_slot = to_u32 (length (builds a)), bid_generation = 1\<rparr>,
                  a\<lparr>builds := builds a @ [activated vacant_build], live_builds := live_builds a + 1\<rparr>)))"
proof (cases "build_free_head a")
  case None
  have u: "unat (to_u32 (length (builds a))) = length (builds a)" if "length (builds a) < 2 ^ 32"
    using that by (simp add: unat_of_nat take_bit_nat_eq_self)
  show ?thesis using None u build_invD(1,2) [OF inv]
    by (auto simp: acquire_build_slot_def build_slot_at build_slot_mut_at bput_def activated_def vacant_build_def)
next
  case (Some k)
  then show ?thesis using build_inv_reuse(2) [OF inv Some]
    by (simp add: acquire_build_slot_def build_slot_at build_slot_mut_at build_handle_def)
       (simp add: bput_def activated_def)
qed

lemma acquire_build_slot_ok:
  assumes inv: "build_inv a"
  obtains e where "acquire_build_slot mem a = Some (Inl e, a)"
  | i b where "acquire_build_slot mem a = Some (Inr i, b)" "build_inv b" "inside b = inside a" "journal_refs b = journal_refs a"
    "\<And>u j. u = Active \<or> u = Suspended \<or> u = Sealing \<Longrightarrow> names b u j = (if j = i then u = Active else names a u j)"
    "\<And>u. u = Active \<or> u = Suspended \<or> u = Sealing \<Longrightarrow> \<not> names a u i"
proof (cases "build_free_head a")
  case (Some k)
  note r = build_inv_reuse [OF inv Some]
  let ?b = "(bput a k (activated (bat a k)))\<lparr>build_free_head := b_next_free (bat a k), live_builds := live_builds a + 1\<rparr>"
  have v: "names a BVacant (build_handle a k)" using r by (simp add: names_def build_handle_def)
  have nm: "names ?b u j = (if j = build_handle a k then u = Active else names a u j)" for u j
  proof -
    have "names ?b u j = names (bput a (bid_slot (build_handle a k)) (activated (bat a k))) u j"
      by (simp add: names_def build_handle_def)
    then show ?thesis using names_move [OF v, of "activated (bat a k)" Active u j] by (simp add: build_handle_def)
  qed
  have "journal_refs ?b = journal_refs a" using r(3,4) by (simp add: journal_refs_def bsum_def sum_list_map_same)
  moreover have "\<not> names a u (build_handle a k)" if "u = Active \<or> u = Suspended \<or> u = Sealing" for u using v that by (auto simp: names_def)
  ultimately show ?thesis using that(2) [of "build_handle a k" ?b] r(1) nm Some by (simp add: acquire_build_slot_at [OF inv])
next
  case None
  show ?thesis
  proof (cases "max_slots (limits a) \<le> length (builds a) \<or> \<not> mem BuildEntry")
    case True
    then have "\<exists>e. acquire_build_slot mem a = Some (Inl e, a)" using None by (auto simp: acquire_build_slot_at [OF inv])
    then show ?thesis using that(1) by blast
  next
    case False
    let ?i = "\<lparr>bid_arena = identity a, bid_slot = to_u32 (length (builds a)), bid_generation = 1\<rparr>"
    let ?b = "a\<lparr>builds := builds a @ [activated vacant_build], live_builds := live_builds a + 1\<rparr>"
    have u: "unat (to_u32 (length (builds a))) = length (builds a)"
      using build_invD(1,2) [OF inv] by (simp add: unat_of_nat take_bit_nat_eq_self)
    have nm: "names ?b v j = (if j = ?i then v = Active else names a v j)" for v j
    proof (cases "unat (bid_slot j) < length (builds a)")
      case True
      then show ?thesis using u by (auto simp: names_def nth_append)
    next
      case out: False
      show ?thesis
      proof (cases "unat (bid_slot j) = length (builds a)")
        case True
        then have "bid_slot j = to_u32 (length (builds a))" using u by (metis unat_eq)
        then show ?thesis using True u
          by (auto simp: names_def vacant_build_def intro: arena_build_id.equality)
      next
        case False
        then show ?thesis using out u by (auto simp: names_def)
      qed
    qed
    have "journal_refs ?b = journal_refs a" by (simp add: journal_refs_def bsum_def vacant_build_def)
    moreover have "\<not> names a v ?i" for v using u by (simp add: names_def)
    ultimately show ?thesis using that(2) [of ?i ?b] build_inv_new [OF inv] nm None False
      by (simp add: acquire_build_slot_at [OF inv])
  qed
qed

end
