(* ===== verification/Flark_Arena_World.thy ===== *)
theory Flark_Arena_World
  imports Flark_Arena_Builds
begin

text \<open>
  The arena as its clients see it: the invariant of nodes and builds together, every public operation
  under it, and the transition system of an arena with the capabilities its clients hold: the open session,
  suspended builds, seals, committed roots and external reservations. Rust's moves make these
  capabilities linear, so a step uses one that is held and takes it away.
\<close>

definition arena_inv :: "arena_id multiset \<Rightarrow> page_arena \<Rightarrow> bool" where
  "arena_inv R a \<longleftrightarrow> node_inv None (R + journal_refs a) a \<and> build_inv a \<and>
     live_payload_bytes a + reserved_external_payload_bytes a \<le> max_live_payload_bytes (limits a)"

lemma arena_invD:
  assumes "arena_inv R a"
  shows "node_inv None (R + journal_refs a) a" "build_inv a"
    "live_payload_bytes a + reserved_external_payload_bytes a \<le> max_live_payload_bytes (limits a)"
  using assms unfolding arena_inv_def by simp_all

lemma arena_inv_builds:
  assumes "arena_inv R a" "inside b = inside a" "build_inv b" "S + journal_refs b = R + journal_refs a"
  shows "arena_inv S b"
  using assms inside_node_inv [OF assms(2), of None "R + journal_refs a"] insideD [OF assms(2)]
  by (simp add: arena_inv_def)

subsection \<open>Journals\<close>

text \<open>A journal whose owners change, its state and its generation kept.\<close>

lemma journal_change:
  assumes inv: "build_inv a" and i: "names a st i" "st \<noteq> BVacant" "st \<noteq> BRetired" "st \<noteq> Aborting"
    and wf: "build_wf (max_slots (limits a)) ((bat a (bid_slot i))\<lparr>b_owners := os\<rparr>)"
  defines "b \<equiv> bput a (bid_slot i) ((bat a (bid_slot i))\<lparr>b_owners := os\<rparr>)"
  shows "build_inv b" "inside b = inside a" "names b u j = names a u j" "build_work b = build_work a"
    "journal_refs b + mset (b_owners (bat a (bid_slot i))) = journal_refs a + mset os"
    "b_owners (bat b (bid_slot i)) = os" "b_seal_root (bat b (bid_slot i)) = b_seal_root (bat a (bid_slot i))"
proof -
  note n = namesD [OF i(1)]
  show "build_inv b" unfolding b_def using n i wf by (intro build_inv_change [OF inv]) (auto simp: in_use_def)
  show "inside b = inside a" by (simp add: b_def)
  show "names b u j = names a u j"
    unfolding b_def using names_move [OF i(1), of "(bat a (bid_slot i))\<lparr>b_owners := os\<rparr>" st u j] n(2) i(1) names_unique [OF i(1), of u i] by auto
  show "build_work b = build_work a" unfolding b_def using n(2) i(4) by (intro build_work_put_same) simp_all
  show "journal_refs b + mset (b_owners (bat a (bid_slot i))) = journal_refs a + mset os"
    using journal_refs_put [OF n(1), of "(bat a (bid_slot i))\<lparr>b_owners := os\<rparr>"] by (simp add: b_def)
  show "b_owners (bat b (bid_slot i)) = os" "b_seal_root (bat b (bid_slot i)) = b_seal_root (bat a (bid_slot i))"
    using n(1) by (simp_all add: b_def)
qed

text \<open>A journal that changes its state, with its owners kept.\<close>

lemma journal_state:
  assumes inv: "build_inv a" and i: "names a st i" "st \<noteq> BVacant" "st \<noteq> BRetired" "st \<noteq> Aborting"
    and c: "b_state c = st'" "b_owners c = b_owners (bat a (bid_slot i))" "b_generation c = b_generation (bat a (bid_slot i))"
      "st' \<noteq> BVacant" "st' \<noteq> BRetired" "st' \<noteq> Aborting" "build_wf (max_slots (limits a)) c"
  shows "build_inv (bput a (bid_slot i) c)" "inside (bput a (bid_slot i) c) = inside a"
    "names (bput a (bid_slot i) c) u j = (if j = i then u = st' else names a u j)"
    "build_work (bput a (bid_slot i) c) = build_work a" "journal_refs (bput a (bid_slot i) c) = journal_refs a"
proof -
  note n = namesD [OF i(1)]
  show "build_inv (bput a (bid_slot i) c)" using n i c by (intro build_inv_change [OF inv]) (auto simp: in_use_def)
  show "inside (bput a (bid_slot i) c) = inside a" by simp
  show "names (bput a (bid_slot i) c) u j = (if j = i then u = st' else names a u j)"
    using names_move [OF i(1), of c st' u j] c by simp
  show "build_work (bput a (bid_slot i) c) = build_work a" using n(2) i(4) c by (intro build_work_put_same) simp_all
  show "journal_refs (bput a (bid_slot i) c) = journal_refs a" using c(2) by (intro journal_refs_put_same) simp
qed

lemma swap_remove_mset: "k < length xs \<Longrightarrow> add_mset (xs ! k) (mset (butlast (xs[k := last xs]))) = mset xs"
proof -
  assume k: "k < length xs"
  then have ne: "xs \<noteq> []" by auto
  show ?thesis
  proof (cases "k = length xs - 1")
    case True
    then have "xs[k := last xs] = xs" "xs ! k = last xs" using ne by (simp_all add: last_conv_nth)
    then show ?thesis using ne by (metis append_butlast_last_id mset_append add_mset_add_single mset_single_iff_right mset.simps(1,2))
  next
    case False
    let ?ys = "xs[k := last xs]"
    have "last ?ys = last xs" using False ne k by (simp add: last_conv_nth)
    then have "mset ?ys = add_mset (last xs) (mset (butlast ?ys))"
      using ne by (metis append_butlast_last_id list_update_nonempty mset_append add_mset_add_single mset.simps(1,2))
    moreover have "mset ?ys + {#xs ! k#} = mset xs + {#last xs#}" using k by (simp add: mset_update)
    ultimately show ?thesis by simp
  qed
qed

lemma swap_remove_last:
  assumes "2 \<le> length xs"
  shows "butlast (xs[length xs - 2 := last xs]) \<noteq> []" "last (butlast (xs[length xs - 2 := last xs])) = last xs"
proof -
  let ?ys = "butlast (xs[length xs - 2 := last xs])"
  have l: "length ?ys = length xs - 1" by simp
  then show ne: "?ys \<noteq> []" using assms by (metis diff_is_0_eq length_0_conv not_less_eq_eq numeral_2_eq_2 One_nat_def)
  have "length ?ys - 1 = length xs - 2" using l by linarith
  then have "last ?ys = ?ys ! (length xs - 2)" using last_conv_nth [OF ne] by simp
  also have "\<dots> = xs[length xs - 2 := last xs] ! (length xs - 2)" using assms by (intro nth_butlast) simp
  finally show "last ?ys = last xs" using assms by simp
qed

lemma owner_position_Some: "owner_position x xs = Some k \<Longrightarrow> k < length xs \<and> xs ! k = x"
  by (induction xs arbitrary: k) (auto split: if_splits)

subsection \<open>Sessions\<close>

text \<open>What every operation keeps or does to the arena, apart from its own result.\<close>

definition kept :: "arena_id multiset \<Rightarrow> page_arena \<Rightarrow> page_arena \<Rightarrow> bool" where
  "kept R a b \<longleftrightarrow> arena_inv R b \<and> evolves a b \<and> reserved_external_payload_bytes b = reserved_external_payload_bytes a"

lemma kept_refl: "arena_inv R a \<Longrightarrow> kept R a a"
  by (simp add: kept_def)

lemma kept_trans: "kept R a b \<Longrightarrow> kept S b c \<Longrightarrow> kept S a c"
  using evolves_trans by (auto simp: kept_def)

lemma kept_builds:
  assumes "arena_inv R a" "inside b = inside a" "build_inv b" "S + journal_refs b = R + journal_refs a"
  shows "kept S a b"
  using arena_inv_builds [OF assms] inside_evolves [OF assms(2)] insideD(6) [OF assms(2)] by (simp add: kept_def)

lemma reserve_build_owners_ok:
  assumes i: "names a Active i"
  obtains e where "reserve_build_owners mem a i n = Some (Inl e)"
  | "reserve_build_owners mem a i n = Some (Inr ())" "length (b_owners (bat a (bid_slot i))) + n \<le> max_slots (limits a)"
  using namesD(1) [OF i] by (cases "reserve_build_owners mem a i n = Some (Inr ())")
     (auto simp: reserve_build_owners_def build_slot_at checked_add_def split: option.splits if_splits)

text \<open>Journalling a reference in hand.\<close>

lemma journal_push:
  assumes nodes: "node_inv None (add_mset h (R + journal_refs a)) a" and inv: "build_inv a"
    and pay: "live_payload_bytes a + reserved_external_payload_bytes a \<le> max_live_payload_bytes (limits a)"
    and i: "names a Active i" and room: "length (b_owners (bat a (bid_slot i))) + 1 \<le> max_slots (limits a)"
  defines "b \<equiv> bput a (bid_slot i) ((bat a (bid_slot i))\<lparr>b_owners := b_owners (bat a (bid_slot i)) @ [h]\<rparr>)"
  shows "build_slot_mut a (bid_slot i) (\<lambda>b. b\<lparr>b_owners := b_owners b @ [h]\<rparr>) = Some b" "arena_inv R b" "inside b = inside a"
    "names b u j = names a u j" "b_owners (bat b (bid_slot i)) = b_owners (bat a (bid_slot i)) @ [h]"
proof -
  let ?os = "b_owners (bat a (bid_slot i)) @ [h]"
  note n = namesD [OF i]
  have wf: "build_wf (max_slots (limits a)) ((bat a (bid_slot i))\<lparr>b_owners := ?os\<rparr>)" using room n(2) by (simp add: build_wf_def)
  note j = journal_change [OF inv i _ _ _ wf, folded b_def, simplified]
  show "build_slot_mut a (bid_slot i) (\<lambda>b. b\<lparr>b_owners := b_owners b @ [h]\<rparr>) = Some b"
    using n(1) by (simp add: build_slot_mut_at b_def)
  have "journal_refs b = add_mset h (journal_refs a)" using j(5) by simp
  then show "arena_inv R b"
    using nodes inside_node_inv [OF j(2)] j(1) pay insideD [OF j(2)] by (simp add: arena_inv_def)
  show "inside b = inside a" "names b u j = names a u j" "b_owners (bat b (bid_slot i)) = ?os" by (fact j)+
qed

lemma session_allocate_ok:
  assumes inv: "arena_inv R a" and i: "names a Active i"
  obtains e where "session_allocate mem a i p cs = Some (Inl e, a)"
  | h b where "session_allocate mem a i p cs = Some (Inr \<lparr>ow_build = i, ow_id = h\<rparr>, b)" "kept R a b"
    "\<And>u j. names b u j = names a u j" "b_owners (bat b (bid_slot i)) = b_owners (bat a (bid_slot i)) @ [h]"
    "\<not> spent a h" "\<not> live_at a h" "live_at b h" "node_of b h = (Some p, Some cs)"
proof -
  note d = arena_invD [OF inv]
  have v: "validate_build a i Active = Inr ()" using i by (simp add: validate_build_names)
  show thesis
  proof (cases rule: reserve_build_owners_ok [OF i, of mem 1])
    case (1 e)
    then show thesis using that(1) v by (simp add: session_allocate_def)
  next
    case 2
    note room = this
    show thesis
    proof (cases rule: allocate_owned_ok [OF d(1), of mem p cs])
      case (1 e)
      then show thesis using that(1) v room(1) by (simp add: session_allocate_def)
    next
      case (2 h b)
      note o = outsideD [OF 2(3)]
      have ib: "names b Active i" using i outside_journals(3) [OF 2(3)] by simp
      let ?c = "bput b (bid_slot i) ((bat b (bid_slot i))\<lparr>b_owners := b_owners (bat b (bid_slot i)) @ [h]\<rparr>)"
      note p = journal_push [of h R b i, OF _ _ _ ib]
      have nb: "node_inv None (add_mset h (R + journal_refs b)) b" using 2(2) outside_journals(1) [OF 2(3)] by simp
      have bb: "build_inv b" using d(2) outside_build_inv [OF 2(3)] by simp
      have pay: "live_payload_bytes b + reserved_external_payload_bytes b \<le> max_live_payload_bytes (limits b)" using 2(8) o by simp
      have rm: "length (b_owners (bat b (bid_slot i))) + 1 \<le> max_slots (limits b)" using room(2) o by simp
      note c = p [OF nb bb pay rm]
      have "session_allocate mem a i p cs = Some (Inr \<lparr>ow_build = i, ow_id = h\<rparr>, ?c)"
        using v room(1) 2(1) c(1) by (simp add: session_allocate_def)
      moreover have "kept R a ?c" using c(2) 2(4) o by (simp add: kept_def)
      moreover have "live_at b h" using countedD(1) [OF node_invD(6) [OF 2(2)]] by simp
      then have "live_at ?c h" "node_of ?c h = node_of b h" using insideD [OF c(3)] by (simp_all add: live_at_def node_of_def)
      ultimately show thesis using that(2) [of h ?c] c(4,5) 2(5,6,9) o outside_journals(3) [OF 2(3)] by simp
    qed
  qed
qed

lemma session_retain_ok:
  assumes inv: "arena_inv R a" and i: "names a Active i"
  obtains e where "session_retain mem a i h = Some (Inl e, a)"
  | b where "session_retain mem a i h = Some (Inr \<lparr>ow_build = i, ow_id = h\<rparr>, b)" "kept R a b"
    "\<And>u j. names b u j = names a u j" "b_owners (bat b (bid_slot i)) = b_owners (bat a (bid_slot i)) @ [h]" "live_at a h"
proof -
  note d = arena_invD [OF inv]
  have v: "validate_build a i Active = Inr ()" using i by (simp add: validate_build_names)
  show thesis
  proof (cases rule: retain_owned_ok [OF d(1), of h])
    case (1 e)
    then show thesis using that(1) v by (simp add: session_retain_def)
  next
    case (2 b)
    show thesis
    proof (cases rule: reserve_build_owners_ok [OF i, of mem 1])
      case (1 e)
      then show thesis using that(1) v 2(1) by (simp add: session_retain_def)
    next
      case room: 2
      note o = outsideD [OF 2(4)]
      have ib: "names b Active i" using i outside_journals(3) [OF 2(4)] by simp
      let ?c = "bput b (bid_slot i) ((bat b (bid_slot i))\<lparr>b_owners := b_owners (bat b (bid_slot i)) @ [h]\<rparr>)"
      have nb: "node_inv None (add_mset h (R + journal_refs b)) b" using 2(3) outside_journals(1) [OF 2(4)] by simp
      have bb: "build_inv b" using d(2) outside_build_inv [OF 2(4)] by simp
      have pay: "live_payload_bytes b + reserved_external_payload_bytes b \<le> max_live_payload_bytes (limits b)" using d(3) 2(6) o by simp
      have rm: "length (b_owners (bat b (bid_slot i))) + 1 \<le> max_slots (limits b)" using room(2) o by simp
      note c = journal_push [OF nb bb pay ib rm]
      have "session_retain mem a i h = Some (Inr \<lparr>ow_build = i, ow_id = h\<rparr>, ?c)"
        using v room(1) 2(1,2) c(1) by (simp add: session_retain_def)
      moreover have "kept R a ?c" using c(2) 2(5) o by (simp add: kept_def)
      ultimately show thesis using that(2) [of ?c] c(4,5) 2(7) o outside_journals(3) [OF 2(4)] by simp
    qed
  qed
qed

text \<open>Taking an owner out of a journal and releasing it.\<close>

lemma release_in_hand:
  assumes nodes: "node_inv None (add_mset h (R + journal_refs a)) a" and inv: "build_inv a"
    and pay: "live_payload_bytes a + reserved_external_payload_bytes a \<le> max_live_payload_bytes (limits a)"
  shows "\<exists>b. release_owned_later a h = Some (Inr (), b) \<and> kept R a b \<and> outside b = outside a \<and> node_work b = node_work a"
proof -
  obtain b where b: "release_owned_later a h = Some (Inr (), b)" "node_inv None (R + journal_refs a) b" "outside b = outside a" "evolves a b"
      "node_work b = node_work a" "live_payload_bytes b = live_payload_bytes a"
    using release_owned_later_ok [OF nodes] by blast
  have "arena_inv R b"
    using b(2,6) inv pay outside_build_inv [OF b(3)] outside_journals(1) [OF b(3)] outsideD [OF b(3)] by (simp add: arena_inv_def)
  then show ?thesis using b outsideD(3) [OF b(3)] by (auto simp: kept_def)
qed

lemma journal_release:
  assumes inv: "arena_inv R a" and i: "names a st i" "st \<noteq> BVacant" "st \<noteq> BRetired" "st \<noteq> Aborting"
    and h: "add_mset h (mset os) = mset (b_owners (bat a (bid_slot i)))"
    and wf: "build_wf (max_slots (limits a)) ((bat a (bid_slot i))\<lparr>b_owners := os\<rparr>)"
  shows "\<exists>b. release_owned_later (bput a (bid_slot i) ((bat a (bid_slot i))\<lparr>b_owners := os\<rparr>)) h = Some (Inr (), b) \<and>
     kept R a b \<and> (\<forall>u j. names b u j = names a u j) \<and> bat b (bid_slot i) = (bat a (bid_slot i))\<lparr>b_owners := os\<rparr>"
proof -
  let ?c = "bput a (bid_slot i) ((bat a (bid_slot i))\<lparr>b_owners := os\<rparr>)"
  note d = arena_invD [OF inv]
  note j = journal_change [OF d(2) i wf]
  have o: "journal_refs a = add_mset h (journal_refs ?c)" using j(5) h by (metis add_mset_add_single add.assoc add.commute add_left_cancel)
  have nodes: "node_inv None (add_mset h (R + journal_refs ?c)) ?c" using d(1) o inside_node_inv [OF j(2)] by simp
  obtain b where b: "release_owned_later ?c h = Some (Inr (), b)" "kept R ?c b" "outside b = outside ?c"
    using release_in_hand [OF nodes j(1)] d(3) insideD [OF j(2)] by auto
  have "kept R a b" using b(2) evolves_trans [OF inside_evolves [OF j(2)]] insideD(6) [OF j(2)] by (auto simp: kept_def)
  moreover have "bat b (bid_slot i) = (bat a (bid_slot i))\<lparr>b_owners := os\<rparr>"
    using outsideD(4) [OF b(3)] namesD(1) [OF i(1)] by simp
  ultimately show ?thesis using b(1) outside_journals(3) [OF b(3)] j(3) by auto
qed

lemma owner_position_None: "owner_position x xs = None \<longleftrightarrow> x \<notin> set xs"
  by (induction xs) auto

lemma session_release_owned:
  assumes inv: "arena_inv R a" and i: "names a Active i" and h: "h \<in> set (b_owners (bat a (bid_slot i)))"
  obtains b where "session_release a i \<lparr>ow_build = i, ow_id = h\<rparr> = Some (Inr (), b)" "kept R a b" "\<And>u j. names b u j = names a u j"
    "mset (b_owners (bat a (bid_slot i))) = add_mset h (mset (b_owners (bat b (bid_slot i))))"
proof -
  note d = arena_invD [OF inv] and n = namesD [OF i]
  let ?os = "b_owners (bat a (bid_slot i))"
  have v: "validate_build a i Active = Inr ()" using i by (simp add: validate_build_names)
  obtain k where k: "owner_position h ?os = Some k" using h owner_position_None by fastforce
  note p = owner_position_Some [OF k]
  let ?r = "butlast (?os[k := last ?os])"
  have m: "add_mset h (mset ?r) = mset ?os" using swap_remove_mset [of k ?os] p by simp
  have "length ?r \<le> length ?os" by simp
  then have wf: "build_wf (max_slots (limits a)) ((bat a (bid_slot i))\<lparr>b_owners := ?r\<rparr>)"
    using build_wf_at [OF d(2) n(1)] n(2) by (simp add: build_wf_def)
  obtain b where b: "release_owned_later (bput a (bid_slot i) ((bat a (bid_slot i))\<lparr>b_owners := ?r\<rparr>)) h = Some (Inr (), b)"
      "kept R a b" "\<And>u j. names b u j = names a u j" "bat b (bid_slot i) = (bat a (bid_slot i))\<lparr>b_owners := ?r\<rparr>"
    using journal_release [OF inv i _ _ _ m wf] by auto
  have "session_release a i \<lparr>ow_build = i, ow_id = h\<rparr> = Some (Inr (), b)"
    using v n(1) k p b(1) by (simp add: session_release_def build_slot_at build_slot_mut_at swap_remove_def)
  then show thesis using that b(2-4) m by simp
qed

lemma session_release_ok:
  assumes inv: "arena_inv R a" and i: "names a Active i"
  obtains e where "session_release a i ow = Some (Inl e, a)"
  | b where "session_release a i ow = Some (Inr (), b)" "kept R a b" "\<And>u j. names b u j = names a u j"
    "mset (b_owners (bat a (bid_slot i))) = add_mset (ow_id ow) (mset (b_owners (bat b (bid_slot i))))"
proof (cases "ow_build ow = i \<and> ow_id ow \<in> set (b_owners (bat a (bid_slot i)))")
  case False
  have "validate_build a i Active = Inr ()" using i by (simp add: validate_build_names)
  then have "\<exists>e. session_release a i ow = Some (Inl e, a)"
    using False namesD(1) [OF i] by (auto simp: session_release_def build_slot_at iffD2 [OF owner_position_None])
  then show thesis using that(1) by blast
next
  case True
  then have ow: "ow = \<lparr>ow_build = i, ow_id = ow_id ow\<rparr>" by (simp add: arena_build_owner.equality)
  show thesis by (rule session_release_owned [OF inv i, of "ow_id ow"]) (use True that(2) ow in auto)
qed

lemma session_drop_ok:
  assumes inv: "arena_inv R a" and i: "names a Active i"
  shows "\<exists>b. session_drop a i = Some b \<and> kept R a b \<and>
     (\<forall>u j. u = Active \<or> u = Suspended \<or> u = Sealing \<longrightarrow> names b u j = (j \<noteq> i \<and> names a u j))"
  using begin_abort_ok [OF arena_invD(2) [OF inv] i] i kept_builds [OF inv]
  by (fastforce simp: session_drop_def validate_build_names [THEN iffD2])

lemma session_suspend_ok:
  assumes inv: "arena_inv R a" and i: "names a Active i"
  obtains b where "session_suspend a i = Some (Inl EmptyBuild, b)" "kept R a b" "b_owners (bat a (bid_slot i)) = []"
    "\<And>u j. u = Active \<or> u = Suspended \<or> u = Sealing \<Longrightarrow> names b u j = (j \<noteq> i \<and> names a u j)"
  | b where "session_suspend a i = Some (Inr i, b)" "kept R a b" "b_owners (bat a (bid_slot i)) \<noteq> []"
    "\<And>u j. names b u j = (if j = i then u = Suspended else names a u j)"
    "b_owners (bat b (bid_slot i)) = b_owners (bat a (bid_slot i))"
proof -
  note d = arena_invD [OF inv] and n = namesD [OF i]
  have v: "validate_build a i Active = Inr ()" using i by (simp add: validate_build_names)
  show thesis
  proof (cases "b_owners (bat a (bid_slot i)) = []")
    case True
    obtain b where b: "session_drop a i = Some b" "kept R a b"
        "\<And>u j. u = Active \<or> u = Suspended \<or> u = Sealing \<Longrightarrow> names b u j = (j \<noteq> i \<and> names a u j)"
      using session_drop_ok [OF inv i] by blast
    then have "session_suspend a i = Some (Inl EmptyBuild, b)" using v n(1) True by (simp add: session_suspend_def build_slot_at)
    then show thesis using that(1) b(2,3) True by blast
  next
    case False
    let ?c = "(bat a (bid_slot i))\<lparr>b_state := Suspended\<rparr>"
    have wf: "build_wf (max_slots (limits a)) ?c" using build_wf_at [OF d(2) n(1)] False by (simp add: build_wf_def)
    note j = journal_state [where c = ?c, OF d(2) i _ _ _ refl _ _ _ _ _ wf]
    have "kept R a (bput a (bid_slot i) ?c)" using j by (intro kept_builds [OF inv]) simp_all
    then show thesis using that(2) [of "bput a (bid_slot i) ?c"] v n(1) False j(3)
      by (simp add: session_suspend_def build_slot_at build_slot_mut_at)
  qed
qed

lemma resume_build_ok:
  assumes inv: "arena_inv R a" and i: "names a Suspended i"
  shows "\<exists>b. resume_build a i = Some (Inr i, b) \<and> kept R a b \<and> (\<forall>u j. names b u j = (if j = i then u = Active else names a u j))"
proof -
  note d = arena_invD [OF inv] and n = namesD [OF i]
  let ?c = "(bat a (bid_slot i))\<lparr>b_state := Active\<rparr>"
  have v: "validate_build a i Suspended = Inr ()" using i by (simp add: validate_build_names)
  have wf: "build_wf (max_slots (limits a)) ?c" using build_wf_at [OF d(2) n(1)] by (simp add: build_wf_def)
  note j = journal_state [where c = ?c, OF d(2) i _ _ _ refl _ _ _ _ _ wf]
  have "kept R a (bput a (bid_slot i) ?c)" using j by (intro kept_builds [OF inv]) simp_all
  then show ?thesis using v n(1) j(3) by (simp add: resume_build_def build_slot_mut_at)
qed

lemma abort_build_ok:
  assumes inv: "arena_inv R a" and i: "names a Suspended i"
  shows "\<exists>b. abort_build a i = Some (Inr (), b) \<and> kept R a b \<and>
     (\<forall>u j. u = Active \<or> u = Suspended \<or> u = Sealing \<longrightarrow> names b u j = (j \<noteq> i \<and> names a u j))"
  using begin_abort_ok [OF arena_invD(2) [OF inv] i] i kept_builds [OF inv]
  by (fastforce simp: abort_build_def validate_build_names [THEN iffD2])

subsection \<open>Seals\<close>

lemma begin_seal_ok:
  assumes inv: "arena_inv R a" and i: "names a Suspended i"
  obtains e where "begin_seal a i ow = Some (Inl (e, i, ow), a)"
  | b where "begin_seal a i ow = Some (Inr \<lparr>seal_id = i, seal_complete = False\<rparr>, b)" "kept R a b"
    "\<And>u j. names b u j = (if j = i then u = Sealing else names a u j)" "ow_id ow = last (b_owners (bat a (bid_slot i)))"
    "b_owners (bat b (bid_slot i)) = b_owners (bat a (bid_slot i))"
proof -
  note d = arena_invD [OF inv] and n = namesD [OF i]
  let ?os = "b_owners (bat a (bid_slot i))" and ?c = "(bat a (bid_slot i))\<lparr>b_state := Sealing, b_seal_root := Some (ow_id ow)\<rparr>"
  have v: "validate_build a i Suspended = Inr ()" using i by (simp add: validate_build_names)
  have ne: "?os \<noteq> []" using build_wf_at [OF d(2) n(1)] n(2) by (simp add: build_wf_def)
  show thesis
  proof (cases "ow_build ow = i \<and> last ?os = ow_id ow")
    case False
    then have "\<exists>e. begin_seal a i ow = Some (Inl (e, i, ow), a)" using v n(1) ne by (auto simp: begin_seal_def build_slot_at)
    then show thesis using that(1) by blast
  next
    case True
    have wf: "build_wf (max_slots (limits a)) ?c" using build_wf_at [OF d(2) n(1)] ne True by (simp add: build_wf_def)
    note j = journal_state [where c = ?c, OF d(2) i _ _ _ refl _ _ _ _ _ wf]
    have "kept R a (bput a (bid_slot i) ?c)" using j by (intro kept_builds [OF inv]) simp_all
    moreover have "begin_seal a i ow = Some (Inr \<lparr>seal_id = i, seal_complete = False\<rparr>, bput a (bid_slot i) ?c)"
      using v n(1) ne True by (simp add: begin_seal_def build_slot_at build_slot_mut_at)
    moreover have "names (bput a (bid_slot i) ?c) u j' = (if j' = i then u = Sealing else names a u j')" for u j'
      using j(3) by simp
    moreover have "b_owners (bat (bput a (bid_slot i) ?c) (bid_slot i)) = ?os" using n(1) by simp
    ultimately show thesis using that(2) True by metis
  qed
qed

lemma seal_commit:
  assumes inv: "arena_inv R a" and i: "names a Sealing i" and o: "b_owners (bat a (bid_slot i)) = [h]"
  defines "b \<equiv> recycle (bput a (bid_slot i) ((bat a (bid_slot i))\<lparr>b_owners := []\<rparr>)) (bid_slot i)"
  shows "kept (add_mset h R) a b"
    "u = Active \<or> u = Suspended \<or> u = Sealing \<Longrightarrow> names b u j = (j \<noteq> i \<and> names a u j)"
proof -
  note d = arena_invD [OF inv] and n = namesD [OF i]
  let ?k = "bid_slot i"
  let ?c = "(bat a ?k)\<lparr>b_owners := []\<rparr>"
  have "build_inv b" unfolding b_def using n by (intro build_inv_recycle_change [OF d(2)]) (simp_all add: in_use_def)
  moreover have "journal_refs (bput a ?k ?c) + {#h#} = journal_refs a" using journal_refs_put [OF n(1), of ?c] o by simp
  then have "add_mset h R + journal_refs b = R + journal_refs a" by (simp add: b_def journal_refs_recycle)
  ultimately show "kept (add_mset h R) a b" by (intro kept_builds [OF inv]) (simp_all add: b_def)
  have "(bid_slot j \<noteq> ?k \<and> names a u j) = (j \<noteq> i \<and> names a u j)" using names_unique [OF i, of u j] by auto
  then show "names b u j = (j \<noteq> i \<and> names a u j)" if "u = Active \<or> u = Suspended \<or> u = Sealing"
    using names_recycle [of ?k "bput a ?k ?c" u j] names_move [OF i, of ?c Sealing u j] n that unfolding b_def by auto
qed

text \<open>The identities of builds in use, as they were but for one.\<close>

definition gives_back :: "page_arena \<Rightarrow> arena_build_id \<Rightarrow> page_arena \<Rightarrow> bool" where
  "gives_back a i b \<longleftrightarrow> (\<forall>u j. u = Active \<or> u = Suspended \<or> u = Sealing \<longrightarrow> names b u j = (j \<noteq> i \<and> names a u j))"

definition same_names :: "page_arena \<Rightarrow> page_arena \<Rightarrow> bool" where
  "same_names a b \<longleftrightarrow> (\<forall>u j. names b u j = names a u j)"

lemma same_gives_back: "same_names a b \<Longrightarrow> gives_back b i c \<Longrightarrow> gives_back a i c"
  by (simp add: same_names_def gives_back_def)

lemma same_names_trans: "same_names a b \<Longrightarrow> same_names b c \<Longrightarrow> same_names a c"
  by (simp add: same_names_def)

lemma seal_loop_ok:
  assumes "arena_inv R a" "names a Sealing (seal_id s)"
  shows "\<exists>b. kept (if fuel < length (b_owners (bat a (bid_slot (seal_id s)))) then R
          else add_mset (last (b_owners (bat a (bid_slot (seal_id s))))) R) a b \<and>
     (if fuel < length (b_owners (bat a (bid_slot (seal_id s))))
      then seal_loop fuel a s t = Some (Inr (t + fuel, None), s, b) \<and> same_names a b \<and>
        length (b_owners (bat b (bid_slot (seal_id s)))) = length (b_owners (bat a (bid_slot (seal_id s)))) - fuel
      else seal_loop fuel a s t = Some (Inr (t + length (b_owners (bat a (bid_slot (seal_id s)))),
          Some (last (b_owners (bat a (bid_slot (seal_id s)))))), s\<lparr>seal_complete := True\<rparr>, b) \<and>
        gives_back a (seal_id s) b)"
  using assms
proof (induction fuel arbitrary: a t)
  case 0
  have "b_owners (bat a (bid_slot (seal_id s))) \<noteq> []"
    using build_wf_at [OF arena_invD(2) [OF 0(1)] namesD(1) [OF 0(2)]] namesD(2) [OF 0(2)] by (simp add: build_wf_def)
  then show ?case using kept_refl [OF 0(1)] by (simp add: same_names_def)
next
  case (Suc fuel)
  let ?i = "seal_id s" and ?k = "bid_slot (seal_id s)"
  let ?os = "b_owners (bat a (bid_slot (seal_id s)))"
  note d = arena_invD [OF Suc.prems(1)] and n = namesD [OF Suc.prems(2)]
  have wfa: "?os \<noteq> []" "b_seal_root (bat a ?k) = Some (last ?os)" "length ?os \<le> max_slots (limits a)"
    using build_wf_at [OF d(2) n(1)] n(2) by (simp_all add: build_wf_def)
  show ?case
  proof (cases "length ?os > 1")
    case True
    let ?m = "length ?os - 2"
    let ?r = "butlast (?os[?m := last ?os])"
    have m: "add_mset (?os ! ?m) (mset ?r) = mset ?os" using swap_remove_mset [of ?m ?os] True by simp
    have l: "?r \<noteq> []" "last ?r = last ?os" using swap_remove_last [of ?os] True by simp_all
    have len: "length ?r = length ?os - 1" by simp
    have wf: "build_wf (max_slots (limits a)) ((bat a ?k)\<lparr>b_owners := ?r\<rparr>)"
      using l wfa n(2) by (simp add: build_wf_def)
    obtain b where b: "release_owned_later (bput a ?k ((bat a ?k)\<lparr>b_owners := ?r\<rparr>)) (?os ! ?m) = Some (Inr (), b)"
        "kept R a b" "\<And>u j. names b u j = names a u j" "bat b ?k = (bat a ?k)\<lparr>b_owners := ?r\<rparr>"
      using journal_release [OF Suc.prems _ _ _ m wf] by auto
    have "?m < length ?os" using True by linarith
    then have st: "seal_loop (Suc fuel) a s t = seal_loop fuel b s (t + 1)"
      using n(1) True b(1) by (simp add: build_slot_at build_slot_mut_at swap_remove_def Let_def)
    have ob: "b_owners (bat b ?k) = ?r" using b(4) by simp
    have ib: "arena_inv R b" "names b Sealing ?i" using b(2,3) Suc.prems(2) by (simp_all add: kept_def)
    note IH = Suc.IH [OF ib, of "t + 1", unfolded ob len l(2)]
    have sn: "same_names a b" using b(3) by (simp add: same_names_def)
    show ?thesis
    proof (cases "Suc fuel < length ?os")
      case less: True
      then have "fuel < length ?os - 1" by linarith
      then obtain c where c: "kept R b c" "seal_loop fuel b s (t + 1) = Some (Inr (t + 1 + fuel, None), s, c)" "same_names b c"
          "length (b_owners (bat c ?k)) = length ?os - 1 - fuel"
        using IH by auto
      then show ?thesis using less st kept_trans [OF b(2) c(1)] same_names_trans [OF sn c(3)] by (intro exI [of _ c]) simp
    next
      case enough: False
      then have "\<not> fuel < length ?os - 1" by linarith
      then obtain c where c: "kept (add_mset (last ?os) R) b c" "gives_back b ?i c"
          "seal_loop fuel b s (t + 1) = Some (Inr (t + 1 + (length ?os - 1), Some (last ?os)), s\<lparr>seal_complete := True\<rparr>, c)"
        using IH by auto
      then show ?thesis using enough st True kept_trans [OF b(2) c(1)] same_gives_back [OF sn c(2)] by (intro exI [of _ c]) simp
    qed
  next
    case False
    then have "length ?os = 1" using wfa(1) by (cases ?os) auto
    then obtain h where h: "?os = [h]" by (cases ?os) auto
    let ?b = "recycle (bput a ?k ((bat a ?k)\<lparr>b_owners := []\<rparr>)) ?k"
    note c = seal_commit [OF Suc.prems h]
    have "seal_loop (Suc fuel) a s t = Some (Inr (t + 1, Some h), s\<lparr>seal_complete := True\<rparr>, ?b)"
      using n(1) h wfa(2) by (simp add: build_slot_at build_slot_mut_at recycle_build_at Let_def)
    then show ?thesis using c h by (intro exI [of _ ?b]) (simp add: gives_back_def)
  qed
qed

lemma poll_seal_ok:
  assumes inv: "arena_inv R a" and i: "names a Sealing i"
  defines "os \<equiv> b_owners (bat a (bid_slot i))"
  obtains b where "fuel < length os" "poll_seal a \<lparr>seal_id = i, seal_complete = False\<rparr> fuel =
      Some (Inr (fuel, None), \<lparr>seal_id = i, seal_complete = False\<rparr>, b)" "kept R a b" "same_names a b"
      "length (b_owners (bat b (bid_slot i))) = length os - fuel"
  | b where "length os \<le> fuel" "poll_seal a \<lparr>seal_id = i, seal_complete = False\<rparr> fuel =
      Some (Inr (length os, Some (last os)), \<lparr>seal_id = i, seal_complete = True\<rparr>, b)" "kept (add_mset (last os) R) a b" "gives_back a i b"
proof -
  let ?s = "\<lparr>seal_id = i, seal_complete = False\<rparr>"
  have v: "validate_seal a ?s = Inr ()" using i by (simp add: validate_seal_def validate_build_names)
  have si: "names a Sealing (seal_id ?s)" using i by simp
  show thesis
    using seal_loop_ok [OF inv si, of fuel 0] that v unfolding os_def
    by (cases "fuel < length (b_owners (bat a (bid_slot i)))") (auto simp: poll_seal_def not_less)
qed

lemma abort_seal_ok:
  assumes inv: "arena_inv R a" and i: "names a Sealing i"
  shows "\<exists>b. abort_seal a \<lparr>seal_id = i, seal_complete = False\<rparr> = Some (Inr (), b) \<and> kept R a b \<and> gives_back a i b"
proof -
  obtain b where b: "begin_abort a i = Some b" "build_inv b" "inside b = inside a" "journal_refs b = journal_refs a" "gives_back a i b"
    using begin_abort_ok [OF arena_invD(2) [OF inv] i] unfolding gives_back_def by blast
  have "validate_build a i Sealing = Inr ()" using i by (simp add: validate_build_names)
  then show ?thesis using b kept_builds [OF inv b(3,2)] by (simp add: abort_seal_def validate_seal_def)
qed

lemma release_committed_root_ok:
  assumes inv: "arena_inv (add_mset h R) a"
  shows "\<exists>b. release_committed_root a h = Some (Inr (), b) \<and> kept R a b \<and> same_names a b"
proof -
  note d = arena_invD [OF inv]
  have "node_inv None (add_mset h (R + journal_refs a)) a" using d(1) by simp
  then obtain b where b: "release_owned_later a h = Some (Inr (), b)" "kept R a b" "outside b = outside a"
    using release_in_hand [OF _ d(2,3)] by blast
  have "same_names a b" using outside_journals(3) [OF b(3)] by (simp add: same_names_def)
  then show ?thesis using b(1,2) by (simp add: release_committed_root_def)
qed

subsection \<open>Reclamation\<close>

definition work :: "page_arena \<Rightarrow> nat" where
  "work a = node_work a + build_work a"

text \<open>The head of the abort queue after its latest owner is gone.\<close>

lemma abort_pop_some:
  assumes inv: "build_inv a" and h: "pending_build_head a = Some k" and ne: "butlast (b_owners (bat a k)) \<noteq> []"
  defines "c \<equiv> (bat a k)\<lparr>b_owners := butlast (b_owners (bat a k))\<rparr>"
  shows "build_inv (bput a k c)" "build_work (bput a k c) + 1 = build_work a"
proof -
  note d = build_invD [OF inv]
  note k = pending_build_head_at [OF d(5) h]
  have wf: "build_wf (max_slots (limits a)) c" using build_wf_at [OF inv k(1)] k(2) ne by (auto simp: build_wf_def c_def)
  have "bfree_ok (bput a k c)" by (intro bfree_put d) (simp_all add: vacant_at_def c_def)
  moreover have "bpending_ok (bput a k c)" by (intro bpending_put d) (simp_all add: aborting_at_def c_def)
  moreover have "bsum (\<lambda>b. of_bool (in_use b)) (bput a k c) = (bsum (\<lambda>b. of_bool (in_use b)) a :: nat)"
    by (rule bsum_put_same) (simp add: in_use_def c_def)
  ultimately show "build_inv (bput a k c)" using d wf_bput [OF d(3) wf] by (simp add: build_inv_def)
  have "length (b_owners (bat a k)) = length (butlast (b_owners (bat a k))) + 1" using ne by (cases "b_owners (bat a k)") auto
  then show "build_work (bput a k c) + 1 = build_work a"
    using bsum_put [OF k(1), of "\<lambda>b. if b_state b = Aborting then length (b_owners b) else 0" c] k(2)
    by (simp add: build_work_def c_def)
qed

definition dequeued :: "page_arena \<Rightarrow> u32 \<Rightarrow> page_arena" where
  "dequeued a k = recycle ((bput a k ((bat a k)\<lparr>b_owners := []\<rparr>))
     \<lparr>pending_build_head := b_pending_next (bat a k),
      pending_build_tail := (if b_pending_next (bat a k) = None then None else pending_build_tail a),
      pending_build_aborts := pending_build_aborts a - 1\<rparr>) k"

lemma abort_pop_last:
  assumes inv: "build_inv a" and h: "pending_build_head a = Some k" and one: "b_owners (bat a k) = [g]"
  shows "build_inv (dequeued a k)" "build_work (dequeued a k) + 1 = build_work a" "journal_refs a = add_mset g (journal_refs (dequeued a k))"
    "u \<noteq> BVacant \<Longrightarrow> u \<noteq> BRetired \<Longrightarrow> u \<noteq> Aborting \<Longrightarrow> names (dequeued a k) u j = names a u j"
proof -
  note d = build_invD [OF inv]
  note k = pending_build_head_at [OF d(5) h]
  let ?c = "(bat a k)\<lparr>b_owners := []\<rparr>"
  let ?n = "b_pending_next (bat a k)"
  define b where "b = (bput a k ?c)\<lparr>pending_build_head := ?n,
      pending_build_tail := (if ?n = None then None else pending_build_tail a), pending_build_aborts := pending_build_aborts a - 1\<rparr>"
  have dq: "dequeued a k = recycle b k" by (simp add: dequeued_def b_def)
  have ck: "bat b k = ?c" "unat k < length (builds b)" "builds b = builds (bput a k ?c)" using k(1) by (simp_all add: b_def)
  obtain ps where ps: "links b_pending_next aborting_at (builds a) (length (builds a)) (Some k) ps"
      "pending_build_tail a = (if ps = [] then None else Some (last ps))" "pending_build_aborts a = length ps"
    using d(5) h unfolding bpending_ok_def by auto
  let ?r = "recycled ?c (build_free_head a)"
  have nr: "\<not> aborting_at k ?r" by (simp add: aborting_at_def)
  obtain js where js: "ps = k # js"
      "links b_pending_next aborting_at ((builds a)[unat k := ?r]) (length (builds a)) ?n js"
    using links_pop [where Q = aborting_at and c = ?r, OF ps(1) nr] by blast
  have hn: "?n = (if js = [] then None else Some (hd js))" using link_chain_head linksD(1) [OF js(2)] by blast
  have pend: "bpending_ok (recycle b k)"
    unfolding bpending_ok_def using js ps(2,3) hn k(1) by (intro exI [of _ js]) (auto simp: recycle_def b_def)
  have "bfree_ok (bput a k ?c)" by (intro bfree_put d) (simp_all add: vacant_at_def)
  then have "bfree_ok b" by (simp add: bfree_ok_def b_def)
  moreover have "live_builds b = bsum (\<lambda>b. of_bool (in_use b)) b"
    using d(6) bsum_put_same [of "\<lambda>b. of_bool (in_use b) :: nat" ?c a k] by (simp add: bsum_def b_def in_use_def)
  ultimately show "build_inv (dequeued a k)" unfolding dq
    using d ck k pend by (intro build_inv_recycle) (simp_all add: b_def in_use_def)
  have "build_work (recycle b k) = bsum (\<lambda>b. if b_state b = Aborting then length (b_owners b) else 0) (bput a k ?r)"
    using k(1) by (simp add: build_work_def recycle_def bsum_def b_def)
  then show "build_work (dequeued a k) + 1 = build_work a" unfolding dq
    using bsum_put [OF k(1), of "\<lambda>b. if b_state b = Aborting then length (b_owners b) else 0" ?r] k(2) one
    by (simp add: build_work_def)
  have "journal_refs b = journal_refs (bput a k ?c)" by (simp add: journal_refs_def bsum_def b_def)
  then show "journal_refs a = add_mset g (journal_refs (dequeued a k))"
    unfolding dq journal_refs_recycle using journal_refs_put [OF k(1), of ?c] one by simp
  show "names (dequeued a k) u j = names a u j" if "u \<noteq> BVacant" "u \<noteq> BRetired" "u \<noteq> Aborting"
  proof -
    have r: "b_state ?r = BVacant \<or> b_state ?r = BRetired" by (simp add: recycled_def split: option.splits)
    have "names (recycle b k) u j = names (bput a k ?r) u j" using k(1) by (simp add: names_def recycle_def b_def)
    then show ?thesis unfolding dq using names_bput [OF k(1), of ?r u j] that r k(2) by (auto simp: names_def)
  qed
qed

lemma tail_update: "(if c then a\<lparr>pending_build_tail := None\<rparr> else a) = a\<lparr>pending_build_tail := (if c then None else pending_build_tail a)\<rparr>"
  by (cases c) (simp_all add: page_arena.equality)

lemma work_fields: "outside b = outside a \<Longrightarrow> node_work b = node_work a \<Longrightarrow> work b = work a"
  using outside_journals(2) [of b a] by (simp add: work_def)

text \<open>One abort transition: it always finds an owner and releases it, and what is left shrinks by one.\<close>

lemma abort_one_owner_ok:
  assumes inv: "arena_inv R a" and h: "pending_build_head a = Some k"
  shows "\<exists>b. abort_one_owner a = Some b \<and> kept R a b \<and> work b + 1 = work a \<and> live_payload_bytes b = live_payload_bytes a \<and>
     (\<forall>u j. u = Active \<or> u = Suspended \<or> u = Sealing \<longrightarrow> names b u j = names a u j)"
proof -
  note d = arena_invD [OF inv]
  note k = pending_build_head_at [OF build_invD(5) [OF d(2)] h]
  let ?os = "b_owners (bat a k)"
  let ?c = "(bat a k)\<lparr>b_owners := butlast (b_owners (bat a k))\<rparr>"
  let ?a = "bput a k ?c"
  have ne: "?os \<noteq> []" using build_wf_at [OF d(2) k(1)] k(2) by (simp add: build_wf_def)
  have "mset ?os = add_mset (last ?os) (mset (butlast ?os))" using ne by (metis append_butlast_last_id mset_append add_mset_add_single mset.simps(1,2))
  then have oa: "journal_refs a = add_mset (last ?os) (journal_refs ?a)" using journal_refs_put [OF k(1), of ?c] by simp
  have na: "node_inv None (add_mset (last ?os) (R + journal_refs ?a)) ?a" using d(1) oa inside_node_inv [of ?a a] by simp
  obtain b where b: "release_owned_later ?a (last ?os) = Some (Inr (), b)" "node_inv None (R + journal_refs ?a) b" "outside b = outside ?a"
      "evolves ?a b" "node_work b = node_work ?a" "live_payload_bytes b = live_payload_bytes ?a"
    using release_owned_later_ok [OF na] by blast
  note o = outsideD [OF b(3)]
  have bk: "bat b k = ?c" "unat k < length (builds b)" using o(4) k(1) by simp_all
  have start: "abort_one_owner a = (if butlast ?os \<noteq> [] then Some b else
      recycle_build (b\<lparr>pending_build_head := b_pending_next (bat a k),
        pending_build_tail := (if b_pending_next (bat a k) = None then None else pending_build_tail a),
        pending_build_aborts := pending_build_aborts a - 1\<rparr>) k)"
    using h k(1) ne b(1) bk o by (simp add: abort_one_owner_def build_slot_at build_slot_mut_at Let_def tail_update)
  have ev: "evolves a b" using b(4) evolves_trans inside_evolves [of ?a a] by (metis inside_fields(8))
  show ?thesis
  proof (cases "butlast ?os = []")
    case False
    note p = abort_pop_some [OF d(2) h False]
    have "arena_inv R b"
      using b(2,6) p(1) d(3) outside_build_inv [OF b(3)] outside_journals(1) [OF b(3)] o by (simp add: arena_inv_def)
    moreover have "work b + 1 = work a" using work_fields [OF b(3,5)] p(2) by (simp add: work_def)
    moreover have "names b u j = names a u j" for u j
      using outside_journals(3) [OF b(3)] names_bput [OF k(1), of ?c u j] by (auto simp: names_def)
    ultimately show ?thesis using start False ev b(6) o(3) by (simp add: kept_def)
  next
    case True
    then obtain g where one: "?os = [g]" using ne by (metis append_butlast_last_id append_Nil)
    note p = abort_pop_last [OF d(2) h one]
    define e where "e = b\<lparr>pending_build_head := b_pending_next (bat a k),
        pending_build_tail := (if b_pending_next (bat a k) = None then None else pending_build_tail a),
        pending_build_aborts := pending_build_aborts a - 1\<rparr>"
    have out: "outside (recycle e k) = outside (dequeued a k)"
      using o k(1) one by (simp add: outside_def recycle_def dequeued_def e_def)
    have ins: "inside (recycle e k) = inside b" by (simp add: e_def)
    have ab: "abort_one_owner a = Some (recycle e k)" using start True bk(2) by (simp add: e_def recycle_build_at)
    have "journal_refs ?a = journal_refs (dequeued a k)" using p(3) oa one by simp
    then have "arena_inv R (recycle e k)"
      using b(2,6) p(1) d(3) outside_build_inv [OF out] outside_journals(1) [OF out] inside_node_inv [OF ins] insideD [OF ins] o
      by (simp add: arena_inv_def)
    moreover have "evolves a (recycle e k)" using ev inside_evolves [OF ins] evolves_trans by blast
    moreover have "work (recycle e k) + 1 = work a"
      using outside_journals(2) [OF out] p(2) inside_node_work [OF ins] b(5) by (simp add: work_def)
    moreover have "names (recycle e k) u j = names a u j" if "u = Active \<or> u = Suspended \<or> u = Sealing" for u j
      using outside_journals(3) [OF out] p(4) [of u j] that by auto
    moreover have "live_payload_bytes (recycle e k) = live_payload_bytes a" using insideD(5) [OF ins] b(6) by simp
    moreover have "reserved_external_payload_bytes (recycle e k) = reserved_external_payload_bytes a" using insideD(6) [OF ins] o(3) by simp
    ultimately show ?thesis using ab by (auto simp: kept_def)
  qed
qed

definition keeps_names :: "page_arena \<Rightarrow> page_arena \<Rightarrow> bool" where
  "keeps_names a b \<longleftrightarrow> (\<forall>u j. u = Active \<or> u = Suspended \<or> u = Sealing \<longrightarrow> names b u j = names a u j)"

lemma keeps_names_refl: "keeps_names a a"
  by (simp add: keeps_names_def)

lemma keeps_names_trans: "keeps_names a b \<Longrightarrow> keeps_names b c \<Longrightarrow> keeps_names a c"
  by (simp add: keeps_names_def)

lemma keeps_names_same: "same_names a b \<Longrightarrow> keeps_names a b"
  by (simp add: keeps_names_def same_names_def)

definition idle :: "page_arena \<Rightarrow> bool" where
  "idle a \<longleftrightarrow> pending_head a = None \<and> pending_build_head a = None"

text \<open>What one transition does, and what a number of them do.\<close>

definition reclaims :: "arena_id multiset \<Rightarrow> nat \<Rightarrow> page_arena \<Rightarrow> reclaim_receipt \<Rightarrow> page_arena \<Rightarrow> reclaim_receipt \<Rightarrow> bool" where
  "reclaims R n a r b s \<longleftrightarrow> kept R a b \<and> keeps_names a b \<and> work b + n = work a \<and> rr_transitions s = rr_transitions r + n \<and>
     live_payload_bytes b + rr_payload_bytes_reclaimed s = live_payload_bytes a + rr_payload_bytes_reclaimed r"

lemma reclaims_refl: "arena_inv R a \<Longrightarrow> reclaims R 0 a r a r"
  by (simp add: reclaims_def kept_refl keeps_names_refl)

lemma reclaims_trans: "reclaims R m a r b s \<Longrightarrow> reclaims R n b s c t \<Longrightarrow> reclaims R (m + n) a r c t"
  using kept_trans [of R a b R c] keeps_names_trans [of a b c] by (simp add: reclaims_def)

lemma arena_inv_lane: "arena_inv R (a\<lparr>next_reclaim_lane := l\<rparr>) = arena_inv R a"
  using inside_node_inv [of "a\<lparr>next_reclaim_lane := l\<rparr>" a None] outside_build_inv [of "a\<lparr>next_reclaim_lane := l\<rparr>" a]
    outside_journals(1) [of "a\<lparr>next_reclaim_lane := l\<rparr>" a] by (simp add: arena_inv_def)

lemma lane_frame:
  "work (a\<lparr>next_reclaim_lane := l\<rparr>) = work a" "keeps_names (a\<lparr>next_reclaim_lane := l\<rparr>) b = keeps_names a b"
  "keeps_names a (b\<lparr>next_reclaim_lane := l\<rparr>) = keeps_names a b" "evolves (a\<lparr>next_reclaim_lane := l\<rparr>) b = evolves a b"
  by (simp_all add: work_def build_work_def bsum_def keeps_names_def names_def evolves_def)

lemma reclaim_transition_ok:
  assumes inv: "arena_inv R a" and busy: "\<not> idle a"
  shows "\<exists>s b. reclaim_transition a r = Some (s, b) \<and> reclaims R 1 a r b s"
proof -
  note d = arena_invD [OF inv]
  have abort: ?thesis if k: "pending_build_head a = Some k" and lane: "pending_head a = None \<or> next_reclaim_lane a = LaneBuildAbort" for k
  proof -
    obtain b where b: "abort_one_owner a = Some b" "kept R a b" "work b + 1 = work a" "live_payload_bytes b = live_payload_bytes a" "keeps_names a b"
      using abort_one_owner_ok [OF inv k] unfolding keeps_names_def by blast
    let ?b = "b\<lparr>next_reclaim_lane := LaneNode\<rparr>" and ?s = "r\<lparr>rr_transitions := rr_transitions r + 1\<rparr>"
    have "reclaim_transition a r = Some (?s, ?b)" using k lane b(1) by (auto simp: reclaim_transition_def Let_def)
    moreover have "reclaims R 1 a r ?b ?s" using b by (simp add: reclaims_def kept_def arena_inv_lane lane_frame)
    ultimately show ?thesis by blast
  qed
  have node: ?thesis if k: "pending_head a = Some k" and lane: "pending_build_head a = None \<or> next_reclaim_lane a = LaneNode" for k
  proof -
    let ?a = "a\<lparr>next_reclaim_lane := LaneBuildAbort\<rparr>"
    have n: "node_inv None (R + journal_refs a) ?a" using d(1) inside_node_inv [of ?a a] by simp
    have k': "pending_head ?a = Some k" using k by simp
    obtain s b where b: "reclaim_node ?a r = Some (s, b)" "node_inv None (R + journal_refs a) b" "outside b = outside ?a" "evolves ?a b"
        "node_work b + 1 = node_work ?a" "rr_transitions s = rr_transitions r + 1"
        "live_payload_bytes b + rr_payload_bytes_reclaimed s = live_payload_bytes ?a + rr_payload_bytes_reclaimed r"
        "rr_payload_bytes_reclaimed r \<le> rr_payload_bytes_reclaimed s"
      using reclaim_node_ok [OF n k'] by blast
    have o: "outside b = outside a" using b(3) by simp
    have "reclaim_transition a r = Some (s, b)" using k lane b(1) by (auto simp: reclaim_transition_def Let_def)
    moreover have "live_payload_bytes b \<le> live_payload_bytes a" using b(7,8) by simp
    then have "arena_inv R b"
      using b(2) d outside_build_inv [OF o] outside_journals(1) [OF o] outsideD [OF o] by (simp add: arena_inv_def)
    moreover have "work b + 1 = work a" using b(5) outside_journals(2) [OF o] by (simp add: work_def)
    moreover have "keeps_names a b" using outside_journals(3) [OF o] by (simp add: keeps_names_def)
    ultimately show ?thesis using b outsideD(3) [OF o] by (auto simp: reclaims_def kept_def lane_frame)
  qed
  show ?thesis
    using busy abort node by (cases "pending_build_head a"; cases "pending_head a"; cases "next_reclaim_lane a") (auto simp: idle_def)
qed

lemma reclaim_loop_ok:
  assumes "arena_inv R a"
  shows "\<exists>s b n. reclaim_loop fuel a r = Some (s, b) \<and> reclaims R n a r b s \<and> n \<le> fuel \<and> (n < fuel \<longrightarrow> idle b)"
  using assms
proof (induction fuel arbitrary: a r)
  case 0
  then show ?case using reclaims_refl by auto
next
  case (Suc fuel)
  show ?case
  proof (cases "idle a")
    case True
    then have "reclaim_loop (Suc fuel) a r = Some (r, a)" by (simp add: idle_def)
    then show ?thesis using reclaims_refl [OF Suc.prems] True by (metis zero_le)
  next
    case False
    obtain s b where t: "reclaim_transition a r = Some (s, b)" "reclaims R 1 a r b s"
      using reclaim_transition_ok [OF Suc.prems False] by blast
    then have "arena_inv R b" by (simp add: reclaims_def kept_def)
    then obtain s' b' n where l: "reclaim_loop fuel b s = Some (s', b')" "reclaims R n b s b' s'" "n \<le> fuel" "n < fuel \<longrightarrow> idle b'"
      using Suc.IH by blast
    have "reclaim_loop (Suc fuel) a r = Some (s', b')" using False t(1) l(1) by (auto simp: idle_def)
    then show ?thesis using reclaims_trans [OF t(2) l(2)] l(3,4) by (intro exI [of _ s'] exI [of _ b'] exI [of _ "1 + n"]) auto
  qed
qed

lemma idle_of_no_work: "arena_inv R a \<Longrightarrow> work a = 0 \<Longrightarrow> idle a"
  using reclaim_transition_ok [of R a default_receipt] by (auto simp: reclaims_def)

lemma poll_reclaim_ok:
  assumes inv: "arena_inv R a"
  shows "\<exists>r b n. poll_reclaim a fuel = Some (r, b) \<and> kept R a b \<and> keeps_names a b \<and> n \<le> fuel \<and> work b + n = work a \<and>
     rr_transitions r = n \<and> rr_complete r = idle b \<and> (rr_complete r \<or> n = fuel) \<and>
     live_payload_bytes b + rr_payload_bytes_reclaimed r = live_payload_bytes a"
proof -
  obtain s b n where l: "reclaim_loop fuel a default_receipt = Some (s, b)" "reclaims R n a default_receipt b s" "n \<le> fuel" "n < fuel \<longrightarrow> idle b"
    using reclaim_loop_ok [OF inv] by blast
  then show ?thesis
    by (intro exI [of _ "s\<lparr>rr_complete := idle b\<rparr>"] exI [of _ b] exI [of _ n])
       (auto simp: poll_reclaim_def idle_def reclaims_def default_receipt_def)
qed

subsection \<open>Nothing leaks\<close>

lemma not_retiring:
  assumes inv: "node_inv hole X a" and p: "pending_head a = None" and i: "unat i < next_unused a"
  shows "s_state (at a i) \<noteq> Retiring"
proof -
  obtain ps where ps: "links s_pending_next retiring_slot (slots a) (next_unused a) None ps"
    using node_invD(4) [OF inv] p unfolding pending_ok_def by auto
  then have "ps = []" using linksD(1) [OF ps] by (cases ps) auto
  then show ?thesis using linksD(4) [OF ps, of i] i by (auto simp: retiring_slot_def)
qed

lemma live_referenced:
  assumes inv: "node_inv None {#} a" and p: "pending_head a = None" and i: "unat i < next_unused a" "s_state (at a i) = Live"
  shows "\<exists>j h. unat j < next_unused a \<and> s_state (at a j) = Live \<and> h \<in> set (held (at a j)) \<and> id_slot h = i"
proof -
  note d = node_invD [OF inv]
  have "unat (s_ref_count (at a i)) \<noteq> 0" using node_wf [OF inv i(1)] i(2) by (simp add: slot_wf_def unat_eq_zero)
  then have "refs_to (refs {#} a) i \<noteq> 0" using countedD(2) [OF d(6) i] by simp
  then obtain h where h: "h \<in># refs {#} a" "id_slot h = i" using refs_to_zero [of "refs {#} a" i] by auto
  then obtain s where s: "s \<in> set (slots a)" "h \<in> set (held s)" by (auto simp: refs_def total_of_def set_mset_sum_list)
  then obtain k where k: "k < length (slots a)" "slots a ! k = s" by (auto simp: in_set_conv_nth)
  have kn: "k < next_unused a" using shapeD(5) [OF d(1), of k] k s(2) by (cases "k < next_unused a") auto
  define j where "j = (to_u32 k)"
  have uj: "unat j = k" using kn shapeD(3,4) [OF d(1)] by (simp add: j_def unat_of_nat take_bit_nat_eq_self)
  have "s_state (at a j) \<noteq> Retiring" using not_retiring [OF inv p, of j] kn uj by simp
  moreover have "slot_wf (at a j)" using node_wf [OF inv, of j] kn uj by simp
  ultimately have "s_state (at a j) = Live" using s(2) k uj by (cases "s_state s") (auto simp: slot_wf_def held_def)
  then show ?thesis using kn uj k s(2) h(2) by (intro exI [of _ j] exI [of _ h]) simp
qed

lemma nothing_resident:
  assumes inv: "node_inv None {#} a" and p: "pending_head a = None"
  shows "resident_nodes a = 0 \<and> live_payload_bytes a = 0"
proof -
  note d = node_invD [OF inv]
  obtain rank :: "u32 \<Rightarrow> nat" where
    rank: "\<And>j c. unat j < length (slots a) \<Longrightarrow> c \<in> set (held (at a j)) \<Longrightarrow> rank (id_slot c) < rank j"
    using d(7) unfolding ranked_def by blast
  have up: "\<exists>j. unat j < next_unused a \<and> s_state (at a j) = Live \<and> rank i < rank j"
    if "unat i < next_unused a" "s_state (at a i) = Live" for i
    using live_referenced [OF inv p that] rank shapeD(2) [OF d(1)] by (metis order.strict_trans2)
  let ?L = "{i. unat i < next_unused a \<and> s_state (at a i) = Live}"
  have none: "?L = {}"
  proof (rule ccontr)
    assume "?L \<noteq> {}"
    then have "Max (rank ` ?L) \<in> rank ` ?L" by (intro Max_in) simp_all
    then obtain i where i: "i \<in> ?L" "rank i = Max (rank ` ?L)" by auto
    obtain j where j: "j \<in> ?L" "rank i < rank j" using up [of i] i(1) by auto
    have "rank j \<le> Max (rank ` ?L)" using j(1) by (intro Max_ge) auto
    then show False using j(2) i(2) by simp
  qed
  have empty: "s_payload s = None" if m: "s \<in> set (slots a)" for s
  proof -
    obtain k where k: "k < length (slots a)" "slots a ! k = s" using m by (auto simp: in_set_conv_nth)
    show ?thesis
    proof (cases "k < next_unused a")
      case True
      then have u: "unat (to_u32 k) = k" using shapeD(3,4) [OF d(1)] by (simp add: unat_of_nat take_bit_nat_eq_self)
      have "to_u32 k \<notin> ?L" using none by blast
      then have "s_state s \<noteq> Live" using True u k by simp
      moreover have "s_state s \<noteq> Retiring" using not_retiring [OF inv p, of "to_u32 k"] True u k by simp
      ultimately show ?thesis using d(2) m by (cases "s_state s") (auto simp: slot_wf_def)
    next
      case False
      then show ?thesis using shapeD(5) [OF d(1), of k] k by (simp add: vacant_slot_def)
    qed
  qed
  then have "\<forall>s\<in>set (slots a). \<not> resident s \<and> payload_len s = 0" by (simp add: resident_def payload_len_def)
  then have "total_of (\<lambda>s. of_bool (resident s)) a = (0 :: nat)" "total_of payload_len a = 0"
    unfolding total_of_def by (auto simp: sum_list_eq_0_iff)
  then show ?thesis using d(5) by (simp add: totals_ok_def)
qed

end
