(* ===== verification/Flark_Arena_System.thy ===== *)
theory Flark_Arena_System
  imports Flark_Arena_World
begin

text \<open>
  The transition system of one arena and its clients. A world is the arena with the capabilities that are
  out: the session that borrows it, the suspended builds, the seals, the committed roots and the external
  reservations. A step calls one public operation on capabilities that are held; while a session is open it
  has the only borrow of the arena. The allocator may refuse any request of any step. The theory proves the
  invariant for every reachable world and draws from it what the arena promises.
\<close>

record world =
  w_arena :: page_arena
  w_session :: "arena_build_id option"
  w_suspended :: "arena_build_id set"
  w_seals :: "arena_build_id set"
  w_roots :: "arena_id multiset"
  w_reservations :: "external_payload_reservation multiset"

abbreviation open_seal :: "arena_build_id \<Rightarrow> candidate_seal" where
  "open_seal i \<equiv> \<lparr>seal_id = i, seal_complete = False\<rparr>"

inductive arena_step :: "world \<Rightarrow> world \<Rightarrow> bool" where
  begin_ok: "w_session w = None \<Longrightarrow> begin_build mem (w_arena w) = Some (Inr i, b) \<Longrightarrow>
    arena_step w (w\<lparr>w_arena := b, w_session := Some i\<rparr>)"
| begin_err: "w_session w = None \<Longrightarrow> begin_build mem (w_arena w) = Some (Inl e, b) \<Longrightarrow> arena_step w (w\<lparr>w_arena := b\<rparr>)"
| resume_ok: "w_session w = None \<Longrightarrow> i \<in> w_suspended w \<Longrightarrow> resume_build (w_arena w) i = Some (Inr j, b) \<Longrightarrow>
    arena_step w (w\<lparr>w_arena := b, w_session := Some j, w_suspended := w_suspended w - {i}\<rparr>)"
| resume_err: "w_session w = None \<Longrightarrow> i \<in> w_suspended w \<Longrightarrow> resume_build (w_arena w) i = Some (Inl e, b) \<Longrightarrow>
    arena_step w (w\<lparr>w_arena := b, w_suspended := w_suspended w - {i}\<rparr>)"
| allocate: "w_session w = Some i \<Longrightarrow> session_allocate mem (w_arena w) i p cs = Some (r, b) \<Longrightarrow> arena_step w (w\<lparr>w_arena := b\<rparr>)"
| retain: "w_session w = Some i \<Longrightarrow> session_retain mem (w_arena w) i h = Some (r, b) \<Longrightarrow> arena_step w (w\<lparr>w_arena := b\<rparr>)"
| release: "w_session w = Some i \<Longrightarrow> session_release (w_arena w) i ow = Some (r, b) \<Longrightarrow> arena_step w (w\<lparr>w_arena := b\<rparr>)"
| suspend_ok: "w_session w = Some i \<Longrightarrow> session_suspend (w_arena w) i = Some (Inr j, b) \<Longrightarrow>
    arena_step w (w\<lparr>w_arena := b, w_session := None, w_suspended := insert j (w_suspended w)\<rparr>)"
| suspend_err: "w_session w = Some i \<Longrightarrow> session_suspend (w_arena w) i = Some (Inl e, b) \<Longrightarrow>
    arena_step w (w\<lparr>w_arena := b, w_session := None\<rparr>)"
| drop_session: "w_session w = Some i \<Longrightarrow> session_drop (w_arena w) i = Some b \<Longrightarrow> arena_step w (w\<lparr>w_arena := b, w_session := None\<rparr>)"
| abort: "w_session w = None \<Longrightarrow> i \<in> w_suspended w \<Longrightarrow> abort_build (w_arena w) i = Some (r, b) \<Longrightarrow>
    arena_step w (w\<lparr>w_arena := b, w_suspended := w_suspended w - {i}\<rparr>)"
| seal_ok: "w_session w = None \<Longrightarrow> i \<in> w_suspended w \<Longrightarrow> begin_seal (w_arena w) i ow = Some (Inr s, b) \<Longrightarrow>
    arena_step w (w\<lparr>w_arena := b, w_suspended := w_suspended w - {i}, w_seals := insert (seal_id s) (w_seals w)\<rparr>)"
| seal_err: "w_session w = None \<Longrightarrow> i \<in> w_suspended w \<Longrightarrow> begin_seal (w_arena w) i ow = Some (Inl (e, j, ow'), b) \<Longrightarrow>
    arena_step w (w\<lparr>w_arena := b, w_suspended := insert j (w_suspended w - {i})\<rparr>)"
| poll_more: "w_session w = None \<Longrightarrow> i \<in> w_seals w \<Longrightarrow> poll_seal (w_arena w) (open_seal i) fuel = Some (Inr (n, None), s, b) \<Longrightarrow>
    arena_step w (w\<lparr>w_arena := b\<rparr>)"
| poll_commit: "w_session w = None \<Longrightarrow> i \<in> w_seals w \<Longrightarrow> poll_seal (w_arena w) (open_seal i) fuel = Some (Inr (n, Some root), s, b) \<Longrightarrow>
    arena_step w (w\<lparr>w_arena := b, w_seals := w_seals w - {i}, w_roots := add_mset root (w_roots w)\<rparr>)"
| poll_err: "w_session w = None \<Longrightarrow> i \<in> w_seals w \<Longrightarrow> poll_seal (w_arena w) (open_seal i) fuel = Some (Inl e, s, b) \<Longrightarrow>
    arena_step w (w\<lparr>w_arena := b\<rparr>)"
| seal_abort: "w_session w = None \<Longrightarrow> i \<in> w_seals w \<Longrightarrow> abort_seal (w_arena w) (open_seal i) = Some (r, b) \<Longrightarrow>
    arena_step w (w\<lparr>w_arena := b, w_seals := w_seals w - {i}\<rparr>)"
| release_root_ok: "w_session w = None \<Longrightarrow> h \<in># w_roots w \<Longrightarrow> release_committed_root (w_arena w) h = Some (Inr (), b) \<Longrightarrow>
    arena_step w (w\<lparr>w_arena := b, w_roots := w_roots w - {#h#}\<rparr>)"
| release_root_err: "w_session w = None \<Longrightarrow> h \<in># w_roots w \<Longrightarrow> release_committed_root (w_arena w) h = Some (Inl (e, g), b) \<Longrightarrow>
    arena_step w (w\<lparr>w_arena := b, w_roots := add_mset g (w_roots w - {#h#})\<rparr>)"
| reclaim: "w_session w = None \<Longrightarrow> poll_reclaim (w_arena w) fuel = Some (receipt, b) \<Longrightarrow> arena_step w (w\<lparr>w_arena := b\<rparr>)"
| reserve_ok: "w_session w = None \<Longrightarrow> reserve_external_payload (w_arena w) n = (Inr x, b) \<Longrightarrow>
    arena_step w (w\<lparr>w_arena := b, w_reservations := add_mset x (w_reservations w)\<rparr>)"
| reserve_err: "w_session w = None \<Longrightarrow> reserve_external_payload (w_arena w) n = (Inl e, b) \<Longrightarrow> arena_step w (w\<lparr>w_arena := b\<rparr>)"
| unreserve_ok: "w_session w = None \<Longrightarrow> x \<in># w_reservations w \<Longrightarrow> release_external_payload (w_arena w) x = (Inr (), b) \<Longrightarrow>
    arena_step w (w\<lparr>w_arena := b, w_reservations := w_reservations w - {#x#}\<rparr>)"
| unreserve_err: "w_session w = None \<Longrightarrow> x \<in># w_reservations w \<Longrightarrow> release_external_payload (w_arena w) x = (Inl (e, y), b) \<Longrightarrow>
    arena_step w (w\<lparr>w_arena := b, w_reservations := add_mset y (w_reservations w - {#x#})\<rparr>)"
| split_ok: "x \<in># w_reservations w \<Longrightarrow> split_prefix x n = (Some y, z) \<Longrightarrow>
    arena_step w (w\<lparr>w_reservations := add_mset y (add_mset z (w_reservations w - {#x#}))\<rparr>)"
| split_none: "x \<in># w_reservations w \<Longrightarrow> split_prefix x n = (None, z) \<Longrightarrow>
    arena_step w (w\<lparr>w_reservations := add_mset z (w_reservations w - {#x#})\<rparr>)"

text \<open>A world starts with a new arena and nothing out.\<close>

definition fresh_world :: "page_arena \<Rightarrow> world" where
  "fresh_world a = \<lparr>w_arena = a, w_session = None, w_suspended = {}, w_seals = {}, w_roots = {#}, w_reservations = {#}\<rparr>"

definition arena_reachable :: "world \<Rightarrow> bool" where
  "arena_reachable w \<longleftrightarrow> (\<exists>mem counter lim a next. arena_new mem counter lim = (Inr a, next) \<and> arena_step\<^sup>*\<^sup>* (fresh_world a) w)"

text \<open>Every capability that is out names its build in its state, and no build in use is without one.\<close>

definition world_inv :: "world \<Rightarrow> bool" where
  "world_inv w \<longleftrightarrow> arena_inv (w_roots w) (w_arena w) \<and>
     (\<forall>i. names (w_arena w) Active i \<longleftrightarrow> w_session w = Some i) \<and>
     (\<forall>i. names (w_arena w) Suspended i \<longleftrightarrow> i \<in> w_suspended w) \<and>
     (\<forall>i. names (w_arena w) Sealing i \<longleftrightarrow> i \<in> w_seals w) \<and>
     (\<forall>x. x \<in># w_reservations w \<longrightarrow> res_arena x = identity (w_arena w)) \<and>
     reserved_external_payload_bytes (w_arena w) = sum_mset (image_mset res_bytes (w_reservations w))"

subsection \<open>The invariant\<close>

lemma worldD:
  assumes "world_inv w"
  shows "arena_inv (w_roots w) (w_arena w)" "names (w_arena w) Active i \<longleftrightarrow> w_session w = Some i"
    "names (w_arena w) Suspended i \<longleftrightarrow> i \<in> w_suspended w" "names (w_arena w) Sealing i \<longleftrightarrow> i \<in> w_seals w"
    "x \<in># w_reservations w \<Longrightarrow> res_arena x = identity (w_arena w)"
    "reserved_external_payload_bytes (w_arena w) = sum_mset (image_mset res_bytes (w_reservations w))"
  using assms unfolding world_inv_def by simp_all

definition moves :: "world \<Rightarrow> world \<Rightarrow> bool" where
  "moves w v \<longleftrightarrow> world_inv v \<and> evolves (w_arena w) (w_arena v)"

lemma movesI:
  assumes w: "world_inv w" and k: "kept (w_roots v) (w_arena w) (w_arena v)" and r: "w_reservations v = w_reservations w"
    and n: "\<And>i. names (w_arena v) Active i \<longleftrightarrow> w_session v = Some i" "\<And>i. names (w_arena v) Suspended i \<longleftrightarrow> i \<in> w_suspended v"
      "\<And>i. names (w_arena v) Sealing i \<longleftrightarrow> i \<in> w_seals v"
  shows "moves w v"
  using worldD(5,6) [OF w] k r n unfolding moves_def world_inv_def kept_def evolves_def by simp

lemma moves_keep:
  assumes w: "world_inv w" and k: "kept (w_roots w) (w_arena w) b" and n: "keeps_names (w_arena w) b"
  shows "moves w (w\<lparr>w_arena := b\<rparr>)"
  using worldD(2-4) [OF w] k n by (intro movesI [OF w]) (simp_all add: keeps_names_def)

lemma moves_same: "world_inv w \<Longrightarrow> moves w (w\<lparr>w_arena := w_arena w\<rparr>)"
  by (rule moves_keep [OF _ kept_refl [OF worldD(1)] keeps_names_refl])

text \<open>Steps while a session is open.\<close>

lemma session_step:
  assumes w: "world_inv w" and i: "w_session w = Some i"
  shows "session_allocate mem (w_arena w) i p cs = Some (r, b) \<Longrightarrow> moves w (w\<lparr>w_arena := b\<rparr>)"
    and "session_retain mem (w_arena w) i h = Some (r', b) \<Longrightarrow> moves w (w\<lparr>w_arena := b\<rparr>)"
    and "session_release (w_arena w) i ow = Some (r'', b) \<Longrightarrow> moves w (w\<lparr>w_arena := b\<rparr>)"
proof -
  have n: "names (w_arena w) Active i" using worldD(2) [OF w] i by simp
  note inv = worldD(1) [OF w]
  note same = keeps_names_same [unfolded same_names_def]
  show "moves w (w\<lparr>w_arena := b\<rparr>)" if "session_allocate mem (w_arena w) i p cs = Some (r, b)"
    using session_allocate_ok [OF inv n, of mem p cs] that moves_same [OF w] moves_keep [OF w] same
    by (metis option.inject prod.inject)
  show "moves w (w\<lparr>w_arena := b\<rparr>)" if "session_retain mem (w_arena w) i h = Some (r', b)"
    using session_retain_ok [OF inv n, of mem h] that moves_same [OF w] moves_keep [OF w] same
    by (metis option.inject prod.inject)
  show "moves w (w\<lparr>w_arena := b\<rparr>)" if "session_release (w_arena w) i ow = Some (r'', b)"
    using session_release_ok [OF inv n, of ow] that moves_same [OF w] moves_keep [OF w] same
    by (metis option.inject prod.inject)
qed

lemma close_session:
  assumes w: "world_inv w" and i: "w_session w = Some i" and k: "kept (w_roots w) (w_arena w) b" and g: "gives_back (w_arena w) i b"
  shows "moves w (w\<lparr>w_arena := b, w_session := None\<rparr>)"
proof (rule movesI [OF w])
  note n = worldD(2-4) [OF w]
  have "names (w_arena w) Active i" using n i by simp
  then have "\<not> names (w_arena w) Suspended i" "\<not> names (w_arena w) Sealing i" by (auto simp: names_def)
  then show "names (w_arena (w\<lparr>w_arena := b, w_session := None\<rparr>)) Active j \<longleftrightarrow> w_session (w\<lparr>w_arena := b, w_session := None\<rparr>) = Some j"
    "names (w_arena (w\<lparr>w_arena := b, w_session := None\<rparr>)) Suspended j \<longleftrightarrow> j \<in> w_suspended (w\<lparr>w_arena := b, w_session := None\<rparr>)"
    "names (w_arena (w\<lparr>w_arena := b, w_session := None\<rparr>)) Sealing j \<longleftrightarrow> j \<in> w_seals (w\<lparr>w_arena := b, w_session := None\<rparr>)" for j
    using g n i by (auto simp: gives_back_def)
qed (use k in simp_all)

text \<open>A build in use has one state.\<close>

lemma names_state: "names a u i \<Longrightarrow> names a v i \<Longrightarrow> u = v"
  by (simp add: names_def)

lemma world_apart:
  assumes "world_inv w"
  shows "w_session w = Some i \<Longrightarrow> i \<notin> w_suspended w \<and> i \<notin> w_seals w" "i \<in> w_suspended w \<Longrightarrow> i \<notin> w_seals w \<and> w_session w \<noteq> Some i"
    "i \<in> w_seals w \<Longrightarrow> i \<notin> w_suspended w \<and> w_session w \<noteq> Some i"
  using worldD(2-4) [OF assms] names_state [of "w_arena w"] by (metis build_state.distinct)+

lemma suspended_step:
  assumes w: "world_inv w" and s: "w_session w = None" and i: "i \<in> w_suspended w"
  shows "resume_build (w_arena w) i = Some (Inr j, b) \<Longrightarrow>
      moves w (w\<lparr>w_arena := b, w_session := Some j, w_suspended := w_suspended w - {i}\<rparr>)"
    and "\<exists>j b. resume_build (w_arena w) i = Some (Inr j, b)"
    and "abort_build (w_arena w) i = Some (r, b) \<Longrightarrow> moves w (w\<lparr>w_arena := b, w_suspended := w_suspended w - {i}\<rparr>)"
    and "begin_seal (w_arena w) i ow = Some (Inr t, b) \<Longrightarrow>
      moves w (w\<lparr>w_arena := b, w_suspended := w_suspended w - {i}, w_seals := insert (seal_id t) (w_seals w)\<rparr>)"
    and "begin_seal (w_arena w) i ow = Some (Inl (e, i', ow'), b) \<Longrightarrow>
      moves w (w\<lparr>w_arena := b, w_suspended := insert i' (w_suspended w - {i})\<rparr>)"
proof -
  note n = worldD(2-4) [OF w] and inv = worldD(1) [OF w] and ap = world_apart(2) [OF w i]
  have ni: "names (w_arena w) Suspended i" using n i by simp
  obtain c where c: "resume_build (w_arena w) i = Some (Inr i, c)" "kept (w_roots w) (w_arena w) c"
      "\<And>u j. names c u j = (if j = i then u = Active else names (w_arena w) u j)"
    using resume_build_ok [OF inv ni] by blast
  then show "\<exists>j b. resume_build (w_arena w) i = Some (Inr j, b)" by blast
  show "moves w (w\<lparr>w_arena := b, w_session := Some j, w_suspended := w_suspended w - {i}\<rparr>)"
    if "resume_build (w_arena w) i = Some (Inr j, b)"
    using that c s n i ap by (intro movesI [OF w]) auto
  obtain d where d: "abort_build (w_arena w) i = Some (Inr (), d)" "kept (w_roots w) (w_arena w) d"
      "\<And>u j. u = Active \<or> u = Suspended \<or> u = Sealing \<Longrightarrow> names d u j = (j \<noteq> i \<and> names (w_arena w) u j)"
    using abort_build_ok [OF inv ni] by blast
  show "moves w (w\<lparr>w_arena := b, w_suspended := w_suspended w - {i}\<rparr>)" if "abort_build (w_arena w) i = Some (r, b)"
    using that d s n i ap by (intro movesI [OF w]) auto
  show "moves w (w\<lparr>w_arena := b, w_suspended := w_suspended w - {i}, w_seals := insert (seal_id t) (w_seals w)\<rparr>)"
    if "begin_seal (w_arena w) i ow = Some (Inr t, b)"
  proof (cases rule: begin_seal_ok [OF inv ni, of ow])
    case (2 c)
    then show ?thesis using that s n i ap by (intro movesI [OF w]) auto
  qed (use that in simp)
  show "moves w (w\<lparr>w_arena := b, w_suspended := insert i' (w_suspended w - {i})\<rparr>)"
    if "begin_seal (w_arena w) i ow = Some (Inl (e, i', ow'), b)"
  proof (cases rule: begin_seal_ok [OF inv ni, of ow])
    case (1 e)
    then show ?thesis using that n i kept_refl [OF inv] by (intro movesI [OF w]) auto
  qed (use that in simp)
qed

lemma seal_step:
  assumes w: "world_inv w" and s: "w_session w = None" and i: "i \<in> w_seals w"
  shows "poll_seal (w_arena w) (open_seal i) fuel = Some (Inr (n, None), t, b) \<Longrightarrow> moves w (w\<lparr>w_arena := b\<rparr>)"
    and "poll_seal (w_arena w) (open_seal i) fuel = Some (Inr (n, Some h), t, b) \<Longrightarrow>
      moves w (w\<lparr>w_arena := b, w_seals := w_seals w - {i}, w_roots := add_mset h (w_roots w)\<rparr>)"
    and "poll_seal (w_arena w) (open_seal i) fuel \<noteq> Some (Inl e, t, b)"
    and "abort_seal (w_arena w) (open_seal i) = Some (r, b) \<Longrightarrow> moves w (w\<lparr>w_arena := b, w_seals := w_seals w - {i}\<rparr>)"
proof -
  note nm = worldD(2-4) [OF w] and inv = worldD(1) [OF w] and ap = world_apart(3) [OF w i]
  have ni: "names (w_arena w) Sealing i" using nm i by simp
  note p = poll_seal_ok [OF inv ni, of fuel]
  show "moves w (w\<lparr>w_arena := b\<rparr>)" if "poll_seal (w_arena w) (open_seal i) fuel = Some (Inr (n, None), t, b)"
  proof (cases rule: p)
    case (1 c)
    then show ?thesis using that moves_keep [OF w _ keeps_names_same] by simp
  qed (use that in simp)
  show "moves w (w\<lparr>w_arena := b, w_seals := w_seals w - {i}, w_roots := add_mset h (w_roots w)\<rparr>)"
    if "poll_seal (w_arena w) (open_seal i) fuel = Some (Inr (n, Some h), t, b)"
  proof (cases rule: p)
    case (2 c)
    then show ?thesis using that nm ap i by (intro movesI [OF w]) (auto simp: gives_back_def)
  qed (use that in simp)
  show "poll_seal (w_arena w) (open_seal i) fuel \<noteq> Some (Inl e, t, b)"
    by (cases rule: p) simp_all
  show "moves w (w\<lparr>w_arena := b, w_seals := w_seals w - {i}\<rparr>)" if "abort_seal (w_arena w) (open_seal i) = Some (r, b)"
    using abort_seal_ok [OF inv ni] that nm ap i by (intro movesI [OF w]) (auto simp: gives_back_def)
qed

lemma moves_reserved:
  assumes w: "world_inv w" and v: "w_session v = w_session w" "w_suspended v = w_suspended w" "w_seals v = w_seals w" "w_roots v = w_roots w"
    and a: "w_arena v = (w_arena w)\<lparr>reserved_external_payload_bytes := n\<rparr>"
    and le: "live_payload_bytes (w_arena w) + n \<le> max_live_payload_bytes (limits (w_arena w))"
    and r: "\<And>x. x \<in># w_reservations v \<Longrightarrow> res_arena x = identity (w_arena w)" "n = sum_mset (image_mset res_bytes (w_reservations v))"
  shows "moves w v"
proof -
  let ?b = "(w_arena w)\<lparr>reserved_external_payload_bytes := n\<rparr>"
  note inv = arena_invD [OF worldD(1) [OF w]]
  have "node_inv None X ?b = node_inv None X (w_arena w)" for X
    by (simp add: node_inv_def core_inv_def shape_def free_ok_def pending_ok_def totals_ok_def total_of_def counted_def refs_def live_at_def ranked_def)
  moreover have "build_inv ?b = build_inv (w_arena w)" by (simp add: build_inv_def bfree_ok_def bpending_ok_def bsum_def)
  moreover have "journal_refs ?b = journal_refs (w_arena w)" by (simp add: journal_refs_def bsum_def)
  ultimately have "arena_inv (w_roots w) ?b" using inv le by (simp add: arena_inv_def)
  moreover have "names ?b u i = names (w_arena w) u i" for u i by (simp add: names_def)
  ultimately show ?thesis using worldD(2-4) [OF w] v a r unfolding moves_def world_inv_def by simp
qed

lemma moves_reservations:
  assumes w: "world_inv w" and x: "x \<in># w_reservations w"
    and ys: "\<And>y. y \<in># ys \<Longrightarrow> res_arena y = res_arena x" "sum_mset (image_mset res_bytes ys) = res_bytes x"
  shows "moves w (w\<lparr>w_reservations := ys + (w_reservations w - {#x#})\<rparr>)"
proof -
  obtain M where M: "w_reservations w = add_mset x M" using x by (metis insert_DiffM)
  then have "arena_inv (w_roots w) (w_arena w)" "reserved_external_payload_bytes (w_arena w) = res_bytes x + sum_mset (image_mset res_bytes M)"
      "res_arena x = identity (w_arena w)" "\<And>y. y \<in># M \<Longrightarrow> res_arena y = identity (w_arena w)"
    using worldD(1,5,6) [OF w] by simp_all
  then show ?thesis using worldD(2-4) [OF w] ys M unfolding moves_def world_inv_def by auto
qed

lemma reservation_step:
  assumes w: "world_inv w"
  shows "reserve_external_payload (w_arena w) n = (Inr x, b) \<Longrightarrow>
      moves w (w\<lparr>w_arena := b, w_reservations := add_mset x (w_reservations w)\<rparr>)"
    and "reserve_external_payload (w_arena w) n = (Inl e, b) \<Longrightarrow> b = w_arena w"
    and "x \<in># w_reservations w \<Longrightarrow> release_external_payload (w_arena w) x = (Inr (), b) \<Longrightarrow>
      moves w (w\<lparr>w_arena := b, w_reservations := w_reservations w - {#x#}\<rparr>)"
    and "x \<in># w_reservations w \<Longrightarrow> release_external_payload (w_arena w) x \<noteq> (Inl e', b)"
proof -
  note inv = arena_invD [OF worldD(1) [OF w]] and r = worldD(5,6) [OF w]
  show "moves w (w\<lparr>w_arena := b, w_reservations := add_mset x (w_reservations w)\<rparr>)" if "reserve_external_payload (w_arena w) n = (Inr x, b)"
    using that r by (intro moves_reserved [OF w, where n = "reserved_external_payload_bytes (w_arena w) + n"])
      (auto simp: reserve_external_payload_def checked_add_def split: if_splits)
  show "b = w_arena w" if "reserve_external_payload (w_arena w) n = (Inl e, b)"
    using that by (auto simp: reserve_external_payload_def split: if_splits option.splits)
  have x: "res_arena x = identity (w_arena w)" "res_bytes x \<le> reserved_external_payload_bytes (w_arena w)"
      "sum_mset (image_mset res_bytes (w_reservations w - {#x#})) = reserved_external_payload_bytes (w_arena w) - res_bytes x"
    if x: "x \<in># w_reservations w"
  proof -
    obtain M where M: "w_reservations w = add_mset x M" using x by (metis insert_DiffM)
    then show "res_arena x = identity (w_arena w)" "res_bytes x \<le> reserved_external_payload_bytes (w_arena w)"
      "sum_mset (image_mset res_bytes (w_reservations w - {#x#})) = reserved_external_payload_bytes (w_arena w) - res_bytes x"
      using r by simp_all
  qed
  show "moves w (w\<lparr>w_arena := b, w_reservations := w_reservations w - {#x#}\<rparr>)"
    if "x \<in># w_reservations w" "release_external_payload (w_arena w) x = (Inr (), b)"
    using that x [OF that(1)] inv(3) r(1) by (intro moves_reserved [OF w, where n = "reserved_external_payload_bytes (w_arena w) - res_bytes x"])
      (auto simp: release_external_payload_def dest: in_diffD split: if_splits)
  show "release_external_payload (w_arena w) x \<noteq> (Inl e', b)" if "x \<in># w_reservations w"
    using x [OF that] by (simp add: release_external_payload_def)
qed

text \<open>Every step keeps the invariant and lets slots only evolve.\<close>

lemma arena_step_moves: "arena_step w v \<Longrightarrow> world_inv w \<Longrightarrow> moves w v"
proof (induction rule: arena_step.induct)
  case (begin_ok w mem i b)
  note n = worldD(2-4) [OF begin_ok(3)] and inv = worldD(1) [OF begin_ok(3)]
  show ?case
  proof (cases rule: acquire_build_slot_ok [OF arena_invD(2) [OF inv], of mem])
    case (2 j c)
    moreover have "kept (w_roots w) (w_arena w) c" using 2 by (intro kept_builds [OF inv]) simp_all
    moreover have "j \<notin> w_suspended w" "j \<notin> w_seals w" using 2(6) n by auto
    ultimately show ?thesis using begin_ok(1,2) n by (intro movesI [OF begin_ok(3)]) (auto simp: begin_build_def)
  qed (use begin_ok in \<open>simp add: begin_build_def\<close>)
next
  case (begin_err w mem e b)
  have "b = w_arena w"
    using begin_err(2) acquire_build_slot_ok [OF arena_invD(2) [OF worldD(1) [OF begin_err(3)]], of mem]
    by (metis begin_build_def option.inject prod.inject sum.distinct(1))
  then show ?case using moves_same [OF begin_err(3)] by simp
next
  case (resume_ok w i j b)
  then show ?case using suspended_step(1) by blast
next
  case (resume_err w i e b)
  then show ?case using suspended_step(2) [OF resume_err(4,1,2)] by auto
next
  case (allocate w i mem p cs r b)
  then show ?case using session_step(1) by blast
next
  case (retain w i mem h r b)
  then show ?case using session_step(2) by blast
next
  case (release w i ow r b)
  then show ?case using session_step(3) by blast
next
  case (suspend_ok w i j b)
  note n = worldD(2-4) [OF suspend_ok(3)] and inv = worldD(1) [OF suspend_ok(3)]
  have i: "names (w_arena w) Active i" using n suspend_ok(1) by simp
  show ?case
  proof (cases rule: session_suspend_ok [OF inv i])
    case (2 c)
    then show ?thesis using suspend_ok(1,2) n world_apart(1) [OF suspend_ok(3,1)] by (intro movesI [OF suspend_ok(3)]) auto
  qed (use suspend_ok in simp)
next
  case (suspend_err w i e b)
  note inv = worldD(1) [OF suspend_err(3)]
  have i: "names (w_arena w) Active i" using worldD(2) [OF suspend_err(3)] suspend_err(1) by simp
  show ?case
  proof (cases rule: session_suspend_ok [OF inv i])
    case (1 c)
    then have "gives_back (w_arena w) i c" by (simp add: gives_back_def)
    then show ?thesis using 1 suspend_err close_session by simp
  qed (use suspend_err in simp)
next
  case (drop_session w i b)
  note inv = worldD(1) [OF drop_session(3)]
  have i: "names (w_arena w) Active i" using worldD(2) [OF drop_session(3)] drop_session(1) by simp
  obtain c where c: "session_drop (w_arena w) i = Some c" "kept (w_roots w) (w_arena w) c" "gives_back (w_arena w) i c"
    using session_drop_ok [OF inv i] unfolding gives_back_def by blast
  then show ?case using drop_session close_session by simp
next
  case (abort w i r b)
  then show ?case using suspended_step(3) by blast
next
  case (seal_ok w i ow s b)
  then show ?case using suspended_step(4) by blast
next
  case (seal_err w i ow e j ow' b)
  then show ?case using suspended_step(5) by blast
next
  case (poll_more w i fuel n s b)
  then show ?case using seal_step(1) by blast
next
  case (poll_commit w i fuel n root s b)
  then show ?case using seal_step(2) by blast
next
  case (poll_err w i fuel e s b)
  then show ?case using seal_step(3) by blast
next
  case (seal_abort w i r b)
  then show ?case using seal_step(4) by blast
next
  case (release_root_ok w h b)
  obtain M where M: "w_roots w = add_mset h M" using release_root_ok(2) by (metis insert_DiffM)
  then have "arena_inv (add_mset h M) (w_arena w)" using worldD(1) [OF release_root_ok(4)] by simp
  then obtain c where c: "release_committed_root (w_arena w) h = Some (Inr (), c)" "kept M (w_arena w) c" "same_names (w_arena w) c"
    using release_committed_root_ok by blast
  then show ?case using release_root_ok M worldD(2-4) [OF release_root_ok(4)]
    by (intro movesI [OF release_root_ok(4)]) (auto simp: same_names_def)
next
  case (release_root_err w h e g b)
  obtain M where "w_roots w = add_mset h M" using release_root_err(2) by (metis insert_DiffM)
  then have "arena_inv (add_mset h M) (w_arena w)" using worldD(1) [OF release_root_err(4)] by simp
  then show ?case using release_committed_root_ok [of h M "w_arena w"] release_root_err(3) by auto
next
  case (reclaim w fuel receipt b)
  have "kept (w_roots w) (w_arena w) b" "keeps_names (w_arena w) b"
    using poll_reclaim_ok [OF worldD(1) [OF reclaim(3)], of fuel] reclaim(2) by auto
  then show ?case by (rule moves_keep [OF reclaim(3)])
next
  case (reserve_ok w n x b)
  then show ?case using reservation_step(1) by blast
next
  case (reserve_err w n e b)
  then show ?case using reservation_step(2) moves_same by metis
next
  case (unreserve_ok w x b)
  then show ?case using reservation_step(3) by blast
next
  case (unreserve_err w x e y b)
  then show ?case using reservation_step(4) by blast
next
  case (split_ok x w n y z)
  have yz: "res_arena y = res_arena x" "res_arena z = res_arena x" "res_bytes y + res_bytes z = res_bytes x"
    using split_ok(2) by (auto simp: split_prefix_def split: if_splits)
  show ?case using moves_reservations [OF split_ok(3,1), of "{#y, z#}"] yz by fastforce
next
  case (split_none x w n z)
  have "z = x" using split_none(2) by (simp add: split_prefix_def split: if_splits)
  then show ?case using moves_reservations [OF split_none(3,1), of "{#x#}"] by simp
qed

lemma fresh_world_inv:
  assumes "arena_new mem counter lim = (Inr a, next)"
  shows "world_inv (fresh_world a)"
proof -
  have a: "identity a = counter" "limits a = lim" "segments a = []" "next_unused a = 0" "free_head a = None" "pending_head a = None"
      "pending_tail a = None" "resident_nodes a = 0" "live_payload_bytes a = 0" "reserved_external_payload_bytes a = 0" "pending_reclaims a = 0"
      "builds a = []" "build_free_head a = None" "pending_build_head a = None" "pending_build_tail a = None" "live_builds a = 0"
      "pending_build_aborts a = 0" "max_slots lim < 2 ^ 32"
    using assms by (auto simp: arena_new_def identity_allocate_def Let_def split: if_splits)
  have none: "links nx P [] 0 None []" for nx :: "'c \<Rightarrow> u32 option" and P by (simp add: links_def)
  have "node_inv None {#} a"
    using a none [of s_next_free "free_slot None"] none [of s_pending_next retiring_slot]
    by (auto simp: node_inv_def core_inv_def shape_def segs_ok_def slots_def free_ok_def pending_ok_def totals_ok_def total_of_def counted_def
        refs_def ranked_def intro!: exI [of _ "[]"])
  moreover have "build_inv a"
    using a none [of b_next_free vacant_at] none [of b_pending_next aborting_at]
    by (auto simp: build_inv_def bfree_ok_def bpending_ok_def bsum_def intro!: exI [of _ "[]"])
  ultimately show ?thesis using a
    by (simp add: world_inv_def fresh_world_def arena_inv_def journal_refs_def bsum_def names_def)
qed

lemma reachable_inv: "arena_reachable w \<Longrightarrow> world_inv w"
proof -
  assume "arena_reachable w"
  then obtain mem counter lim a "next" where a: "arena_new mem counter lim = (Inr a, next)" and s: "arena_step\<^sup>*\<^sup>* (fresh_world a) w"
    unfolding arena_reachable_def by blast
  show ?thesis using s
  proof (induction rule: rtranclp_induct)
    case base
    show ?case by (rule fresh_world_inv [OF a])
  next
    case (step v w)
    then show ?case using arena_step_moves moves_def by blast
  qed
qed

lemma reachable_step: "arena_reachable w \<Longrightarrow> arena_step\<^sup>*\<^sup>* w v \<Longrightarrow> arena_reachable v"
  unfolding arena_reachable_def by (meson rtranclp_trans)

subsection \<open>Handles over time\<close>

text \<open>
  What a client may rely on when it keeps handles across steps: a store in which every step leaves the content of a
  live handle or spends it, and never revives a spent one.
\<close>

locale handle_store =
  fixes live :: "'s \<Rightarrow> 'h \<Rightarrow> bool" and content :: "'s \<Rightarrow> 'h \<Rightarrow> 'c" and over :: "'s \<Rightarrow> 'h \<Rightarrow> bool" and step :: "'s \<Rightarrow> 's \<Rightarrow> bool"
  assumes over_dead: "over s h \<Longrightarrow> \<not> live s h"
    and step_over: "step s t \<Longrightarrow> over s h \<Longrightarrow> over t h"
    and step_live: "step s t \<Longrightarrow> live s h \<Longrightarrow> live t h \<and> content t h = content s h \<or> over t h"
begin

lemma run_over: "step\<^sup>*\<^sup>* s t \<Longrightarrow> over s h \<Longrightarrow> over t h"
  by (induction rule: rtranclp_induct) (auto dest: step_over)

lemma run_live: "step\<^sup>*\<^sup>* s t \<Longrightarrow> live s h \<Longrightarrow> live t h \<and> content t h = content s h \<or> over t h"
  by (induction rule: rtranclp_induct) (auto dest: step_over step_live)

lemma run_dead: "step\<^sup>*\<^sup>* s t \<Longrightarrow> step\<^sup>*\<^sup>* t u \<Longrightarrow> live s h \<Longrightarrow> \<not> live t h \<Longrightarrow> \<not> live u h"
  using run_live run_over over_dead by blast

end

interpretation handles: handle_store "\<lambda>w. live_at (w_arena w)" "\<lambda>w. node_of (w_arena w)" "\<lambda>w. spent (w_arena w)"
  "\<lambda>w v. arena_reachable w \<and> arena_step w v"
proof (unfold_locales, goal_cases)
  case (1 s h)
  then show ?case by (rule spent_not_live)
next
  case (2 s t h)
  then show ?case using arena_step_moves reachable_inv evolves_spent unfolding moves_def by blast
next
  case (3 s t h)
  then show ?case using arena_step_moves reachable_inv evolves_live unfolding moves_def by blast
qed

lemma reachable_run:
  assumes "arena_reachable w" "arena_step\<^sup>*\<^sup>* w v"
  shows "(\<lambda>w v. arena_reachable w \<and> arena_step w v)\<^sup>*\<^sup>* w v"
  using assms(2)
proof (induction rule: rtranclp_induct)
  case (step x y)
  then show ?case using reachable_step [OF assms(1) step(1)] by (simp add: rtranclp.rtrancl_into_rtrancl)
qed simp

lemma reachable_nodes: "arena_reachable w \<Longrightarrow> node_inv None (w_roots w + journal_refs (w_arena w)) (w_arena w)"
  using arena_invD(1) [OF worldD(1) [OF reachable_inv]] .

lemma read_node:
  assumes "arena_reachable w" "live_at (w_arena w) h"
  shows "arena_payload (w_arena w) h = Some (Inr (the (fst (node_of (w_arena w) h))))"
    "child_count (w_arena w) h = Some (Inr (length (the (snd (node_of (w_arena w) h)))))"
    "child_at (w_arena w) h k = Some (if k < length (the (snd (node_of (w_arena w) h)))
       then Inr (the (snd (node_of (w_arena w) h)) ! k) else Inl StaleHandle)"
  using node_of_live [OF reachable_nodes [OF assms(1)] assms(2)] by (metis fst_conv snd_conv option.sel)+

subsection \<open>An example\<close>

text \<open>An arena for two nodes, a build with one node of two bytes, its session suspended and sealed or dropped.\<close>

definition demo_limits :: arena_limits where
  "demo_limits = \<lparr>max_slots = 2, max_live_payload_bytes = 16, max_children_per_node = 2\<rparr>"

definition demo_new :: page_arena where
  "demo_new = \<lparr>identity = 1, limits = demo_limits, segments = [], next_unused = 0, free_head = None, pending_head = None,
     pending_tail = None, resident_nodes = 0, live_payload_bytes = 0, reserved_external_payload_bytes = 0, pending_reclaims = 0,
     builds = [], build_free_head = None, pending_build_head = None, pending_build_tail = None, live_builds = 0,
     pending_build_aborts = 0, next_reclaim_lane = LaneBuildAbort\<rparr>"

definition demo_build :: arena_build_id where
  "demo_build = \<lparr>bid_arena = 1, bid_slot = 0, bid_generation = 1\<rparr>"

definition demo_root :: arena_id where
  "demo_root = \<lparr>id_arena = 1, id_slot = 0, id_generation = 1\<rparr>"

definition demo_owner :: arena_build_owner where
  "demo_owner = \<lparr>ow_build = demo_build, ow_id = demo_root\<rparr>"

definition demo_open :: page_arena where
  "demo_open = demo_new\<lparr>builds := [vacant_build\<lparr>b_state := Active\<rparr>], live_builds := 1\<rparr>"

definition demo_full :: page_arena where
  "demo_full = demo_open\<lparr>segments := [(replicate SLOTS_PER_SEGMENT vacant_slot)[0 := fill_slot ''ab'' [] vacant_slot]], next_unused := 1,
     resident_nodes := 1, live_payload_bytes := 2, builds := [vacant_build\<lparr>b_state := Active, b_owners := [demo_root]\<rparr>]\<rparr>"

definition demo_suspended :: page_arena where
  "demo_suspended = demo_full\<lparr>builds := [vacant_build\<lparr>b_state := Suspended, b_owners := [demo_root]\<rparr>]\<rparr>"

definition demo_sealing :: page_arena where
  "demo_sealing = demo_full\<lparr>builds := [vacant_build\<lparr>b_state := Sealing, b_owners := [demo_root], b_seal_root := Some demo_root\<rparr>]\<rparr>"

definition demo_aborting :: page_arena where
  "demo_aborting = demo_full\<lparr>builds := [vacant_build\<lparr>b_state := Aborting, b_owners := [demo_root]\<rparr>],
     pending_build_head := Some 0, pending_build_tail := Some 0, pending_build_aborts := 1\<rparr>"

lemmas demo_defs = demo_limits_def demo_new_def demo_build_def demo_root_def demo_owner_def demo_open_def demo_full_def demo_suspended_def demo_sealing_def demo_aborting_def

lemma demo_new: "arena_new (\<lambda>_. True) 1 demo_limits = (Inr demo_new, 2)"
  by (simp add: demo_defs arena_new_def identity_allocate_def SLOTS_PER_SEGMENT_def)

lemma demo_begin: "begin_build (\<lambda>_. True) demo_new = Some (Inr demo_build, demo_open)"
  by (simp add: demo_defs begin_build_def acquire_build_slot_def build_slot_def build_slot_mut_def vacant_build_def)

lemma demo_allocate: "session_allocate (\<lambda>_. True) demo_open demo_build ''ab'' [] = Some (Inr demo_owner, demo_full)"
  by (simp add: demo_defs session_allocate_def validate_build_def build_slot_def build_slot_mut_def reserve_build_owners_def checked_add_def
      vacant_build_def allocate_owned_def ARENA_PAGE_BYTES_def validate_child_ref_increments_def acquire_slot_def install_node_def
      slot_mut_def slot_def SLOTS_PER_SEGMENT_def Let_def fill_slot_def vacant_slot_def)

lemma demo_suspend:
  "session_suspend demo_full demo_build = Some (Inr demo_build, demo_suspended)"
  by (simp add: demo_defs session_suspend_def validate_build_def build_slot_def build_slot_mut_def vacant_build_def)

lemma demo_seal:
  "begin_seal demo_suspended demo_build demo_owner =
     Some (Inr \<lparr>seal_id = demo_build, seal_complete = False\<rparr>, demo_sealing)"
  by (simp add: demo_defs begin_seal_def validate_build_def build_slot_def build_slot_mut_def vacant_build_def)

lemma demo_drop: "session_drop demo_full demo_build = Some demo_aborting"
  by (simp add: demo_defs session_drop_def validate_build_def begin_abort_def append_pending_build_def build_slot_def build_slot_mut_def vacant_build_def)

lemma demo_live: "validate_live demo_full demo_root = Some (Inr ())" "validate_live demo_suspended demo_root = Some (Inr ())"
  by (simp_all add: demo_defs validate_live_def slot_def SLOTS_PER_SEGMENT_def fill_slot_def vacant_slot_def)

lemma demo_work: "work demo_aborting = 2"
  by (simp add: demo_defs work_def node_work_def build_work_def bsum_def total_of_def slots_def SLOTS_PER_SEGMENT_def slot_work_def
      fill_slot_def vacant_slot_def vacant_build_def resident_def held_def numeral_eq_Suc)

lemma demo_reachable_open: "arena_reachable ((fresh_world demo_open)\<lparr>w_session := Some demo_build\<rparr>)"
proof -
  have "arena_step (fresh_world demo_new) ((fresh_world demo_new)\<lparr>w_arena := demo_open, w_session := Some demo_build\<rparr>)"
    using demo_begin by (intro arena_step.begin_ok) (simp_all add: fresh_world_def)
  then have "arena_step\<^sup>*\<^sup>* (fresh_world demo_new) ((fresh_world demo_open)\<lparr>w_session := Some demo_build\<rparr>)"
    by (simp add: fresh_world_def r_into_rtranclp)
  then show ?thesis using demo_new unfolding arena_reachable_def by blast
qed

lemma demo_reachable_full: "arena_reachable ((fresh_world demo_full)\<lparr>w_session := Some demo_build\<rparr>)"
proof -
  have "arena_step ((fresh_world demo_open)\<lparr>w_session := Some demo_build\<rparr>) ((fresh_world demo_full)\<lparr>w_session := Some demo_build\<rparr>)"
    using arena_step.allocate [of "(fresh_world demo_open)\<lparr>w_session := Some demo_build\<rparr>" demo_build "\<lambda>_. True" "''ab''" "[]" _ demo_full] demo_allocate
    by (simp add: fresh_world_def)
  then show ?thesis using reachable_step [OF demo_reachable_open] by blast
qed

lemma demo_step_suspend:
  "arena_step ((fresh_world demo_full)\<lparr>w_session := Some demo_build\<rparr>) ((fresh_world demo_suspended)\<lparr>w_suspended := {demo_build}\<rparr>)"
  using arena_step.suspend_ok [of "(fresh_world demo_full)\<lparr>w_session := Some demo_build\<rparr>" demo_build demo_build demo_suspended] demo_suspend
  by (simp add: fresh_world_def)

lemma demo_reachable_sealing: "arena_reachable ((fresh_world demo_sealing)\<lparr>w_seals := {demo_build}\<rparr>)"
proof -
  have "arena_step ((fresh_world demo_suspended)\<lparr>w_suspended := {demo_build}\<rparr>) ((fresh_world demo_sealing)\<lparr>w_seals := {demo_build}\<rparr>)"
    using arena_step.seal_ok [of "(fresh_world demo_suspended)\<lparr>w_suspended := {demo_build}\<rparr>" demo_build demo_owner _ demo_sealing] demo_seal
    by (simp add: fresh_world_def)
  then show ?thesis using reachable_step [OF demo_reachable_full] demo_step_suspend by (meson r_into_rtranclp rtranclp.rtrancl_into_rtrancl)
qed

lemma demo_reachable_aborting: "arena_reachable (fresh_world demo_aborting)"
proof -
  have "arena_step ((fresh_world demo_full)\<lparr>w_session := Some demo_build\<rparr>) (fresh_world demo_aborting)"
    using arena_step.drop_session [of "(fresh_world demo_full)\<lparr>w_session := Some demo_build\<rparr>" demo_build demo_aborting] demo_drop
    by (simp add: fresh_world_def)
  then show ?thesis using reachable_step [OF demo_reachable_full] by blast
qed

subsection \<open>Properties\<close>

text \<open>
  C9: In every reachable world the arena is consistent: each live node is counted exactly as often as builds, committed roots and
  other nodes refer to it, every reference is to a live node, the free lists and the queues hold exactly the slots
  and builds in their state, and each capability that is out names its build.
\<close>

theorem arena_reachable_sound:
  assumes "arena_reachable w"
  shows "world_inv w"
  by (rule reachable_inv [OF assms])

lemma session_no_panic:
  assumes inv: "arena_inv R a" and i: "names a Active i"
  shows "session_allocate mem a i p cs \<noteq> None" "session_retain mem a i h \<noteq> None" "session_release a i ow \<noteq> None"
    "session_suspend a i \<noteq> None" "session_drop a i \<noteq> None"
proof -
  show "session_allocate mem a i p cs \<noteq> None" by (cases rule: session_allocate_ok [OF inv i, of mem p cs]) simp_all
  show "session_retain mem a i h \<noteq> None" by (cases rule: session_retain_ok [OF inv i, of mem h]) simp_all
  show "session_release a i ow \<noteq> None" by (cases rule: session_release_ok [OF inv i, of ow]) simp_all
  show "session_suspend a i \<noteq> None" by (cases rule: session_suspend_ok [OF inv i]) simp_all
  show "session_drop a i \<noteq> None" using session_drop_ok [OF inv i] by auto
qed

lemma session_read_no_panic:
  assumes "names a Active i"
  shows "reserve_owner_capacity mem a i additional \<noteq> None" "remaining_owner_capacity a i \<noteq> None" "validate_owner a i ow \<noteq> None"
  using namesD(1) [OF assms]
  by (simp_all add: reserve_owner_capacity_def reserve_build_owners_def remaining_owner_capacity_def validate_owner_def also_ok_def
      build_slot_at split: sum.split)

lemma build_no_panic:
  assumes inv: "arena_inv R a"
  shows "begin_build mem a \<noteq> None" "names a Suspended i \<Longrightarrow> resume_build a i \<noteq> None" "names a Suspended i \<Longrightarrow> abort_build a i \<noteq> None"
    "names a Suspended i \<Longrightarrow> begin_seal a i ow \<noteq> None" "names a Sealing i \<Longrightarrow> poll_seal a (open_seal i) fuel \<noteq> None"
    "names a Sealing i \<Longrightarrow> abort_seal a (open_seal i) \<noteq> None"
proof -
  show "begin_build mem a \<noteq> None"
    by (cases rule: acquire_build_slot_ok [OF arena_invD(2) [OF inv], of mem]) (simp_all add: begin_build_def)
  show "resume_build a i \<noteq> None" "abort_build a i \<noteq> None" if "names a Suspended i"
    using resume_build_ok [OF inv that] abort_build_ok [OF inv that] by auto
  show "begin_seal a i ow \<noteq> None" if "names a Suspended i" by (cases rule: begin_seal_ok [OF inv that, of ow]) simp_all
  show "poll_seal a (open_seal i) fuel \<noteq> None" if "names a Sealing i" by (cases rule: poll_seal_ok [OF inv that, of fuel]) simp_all
  show "abort_seal a (open_seal i) \<noteq> None" if "names a Sealing i" using abort_seal_ok [OF inv that] by auto
qed

lemma read_no_panic:
  assumes "arena_reachable w"
  shows "arena_payload (w_arena w) h \<noteq> None" "child_count (w_arena w) h \<noteq> None" "child_at (w_arena w) h k \<noteq> None"
proof -
  have sh: "shape (w_arena w)" using node_invD(1) [OF reachable_nodes [OF assms]] .
  show "arena_payload (w_arena w) h \<noteq> None" "child_count (w_arena w) h \<noteq> None" "child_at (w_arena w) h k \<noteq> None"
    using read_node [OF assms, of h] by (cases "live_at (w_arena w) h";
      simp add: arena_payload_def child_count_def child_at_def validate_live_at [OF sh])+
qed

theorem arena_reachable_sound_witness:
  "arena_reachable ((fresh_world demo_sealing)\<lparr>w_seals := {demo_build}\<rparr>) \<and> world_inv ((fresh_world demo_sealing)\<lparr>w_seals := {demo_build}\<rparr>)"
  using arena_reachable_sound [OF demo_reachable_sealing] demo_reachable_sealing by blast


text \<open>
  C12: In a reachable world none of these operations panics: no index is out of range, no queue head is missing,
  and no owner taken from a journal has become invalid. On the arena: \<^verbatim>\<open>begin_build\<close>, \<^verbatim>\<open>poll_reclaim\<close>, and for any handle
  \<^verbatim>\<open>payload\<close>, \<^verbatim>\<open>child_count\<close>, \<^verbatim>\<open>child_at\<close>. On the open session: \<^verbatim>\<open>reserve_owner_capacity\<close>, \<^verbatim>\<open>remaining_owner_capacity\<close>,
  \<^verbatim>\<open>validate_owner\<close>, \<^verbatim>\<open>allocate\<close>, \<^verbatim>\<open>retain\<close>, \<^verbatim>\<open>release\<close>, \<^verbatim>\<open>suspend\<close> and its drop. On a suspended build: \<^verbatim>\<open>resume_build\<close>, \<^verbatim>\<open>abort_build\<close>,
  \<^verbatim>\<open>begin_seal\<close>. On a seal: \<^verbatim>\<open>poll_seal\<close>, \<^verbatim>\<open>abort_seal\<close>. On a committed root: \<^verbatim>\<open>release_committed_root\<close>. The others of the
  interface (\<^verbatim>\<open>new\<close>, the external payload, \<^verbatim>\<open>validate_seal\<close>, \<^verbatim>\<open>validate_key\<close>) contain nothing that can panic; what dropping a
  capability unfinished asserts is its holder's duty.
\<close>

theorem arena_never_panics:
  assumes "arena_reachable w"
  shows "begin_build mem (w_arena w) \<noteq> None \<and> poll_reclaim (w_arena w) fuel \<noteq> None \<and>
    (w_session w = Some i \<longrightarrow> session_allocate mem (w_arena w) i p cs \<noteq> None \<and> session_retain mem (w_arena w) i h \<noteq> None \<and>
       session_release (w_arena w) i ow \<noteq> None \<and> session_suspend (w_arena w) i \<noteq> None \<and> session_drop (w_arena w) i \<noteq> None \<and>
       reserve_owner_capacity mem (w_arena w) i additional \<noteq> None \<and> remaining_owner_capacity (w_arena w) i \<noteq> None \<and>
       validate_owner (w_arena w) i ow \<noteq> None) \<and>
    (j \<in> w_suspended w \<longrightarrow> resume_build (w_arena w) j \<noteq> None \<and> abort_build (w_arena w) j \<noteq> None \<and> begin_seal (w_arena w) j ow \<noteq> None) \<and>
    (l \<in> w_seals w \<longrightarrow> poll_seal (w_arena w) (open_seal l) fuel \<noteq> None \<and> abort_seal (w_arena w) (open_seal l) \<noteq> None) \<and>
    (g \<in># w_roots w \<longrightarrow> release_committed_root (w_arena w) g \<noteq> None) \<and>
    arena_payload (w_arena w) h \<noteq> None \<and> child_count (w_arena w) h \<noteq> None \<and> child_at (w_arena w) h k \<noteq> None"
proof -
  note w = reachable_inv [OF assms]
  note n = worldD(2-4) [OF w] and inv = worldD(1) [OF w]
  have "release_committed_root (w_arena w) g \<noteq> None" if "g \<in># w_roots w"
  proof -
    obtain M where "w_roots w = add_mset g M" using \<open>g \<in># w_roots w\<close> by (metis insert_DiffM)
    then show ?thesis using release_committed_root_ok [of g M "w_arena w"] inv by auto
  qed
  moreover have "poll_reclaim (w_arena w) fuel \<noteq> None" using poll_reclaim_ok [OF inv, of fuel] by auto
  ultimately show ?thesis using session_no_panic [OF inv] session_read_no_panic [of "w_arena w"] build_no_panic [OF inv] read_no_panic [OF assms] n by simp
qed

theorem arena_never_panics_witness:
  "session_allocate (\<lambda>_. False) demo_full demo_build ''x'' [demo_root] \<noteq> None \<and> session_release demo_full demo_build demo_owner \<noteq> None \<and>
   validate_owner demo_full demo_build demo_owner \<noteq> None \<and> reserve_owner_capacity (\<lambda>_. False) demo_full demo_build 1 \<noteq> None \<and>
   remaining_owner_capacity demo_full demo_build \<noteq> None \<and>
   poll_seal demo_sealing (open_seal demo_build) 5 \<noteq> None \<and> abort_seal demo_sealing (open_seal demo_build) \<noteq> None"
  using arena_never_panics [OF demo_reachable_full, of "\<lambda>_. False" 5 demo_build "''x''" "[demo_root]" demo_root demo_owner 1 demo_build demo_build demo_root 0]
    arena_never_panics [OF demo_reachable_sealing, of "\<lambda>_. True" 5 demo_build "[]" "[]" demo_root demo_owner 1 demo_build demo_build demo_root 0]
  by (simp add: fresh_world_def)


text \<open>
  C11: A handle reads the same payload and the same children for as long as its node lives, and once the node is retired no
  later step makes the handle valid again, whatever reuses its slot.
\<close>

theorem stale_handles_stay_dead:
  assumes "arena_reachable w" "arena_step\<^sup>*\<^sup>* w v" "validate_live (w_arena w) h = Some (Inr ())"
  shows "(arena_payload (w_arena v) h = arena_payload (w_arena w) h \<and> child_at (w_arena v) h k = child_at (w_arena w) h k) \<or>
     (\<forall>x. arena_step\<^sup>*\<^sup>* v x \<longrightarrow> validate_live (w_arena x) h = Some (Inl StaleHandle))"
proof -
  have sh: "shape (w_arena x)" if "arena_reachable x" for x using node_invD(1) [OF reachable_nodes [OF that]] .
  note v = reachable_step [OF assms(1,2)]
  have l: "live_at (w_arena w) h" using assms(3) validate_live_at [OF sh [OF assms(1)]] by (simp split: if_splits)
  then have "live_at (w_arena v) h \<and> node_of (w_arena v) h = node_of (w_arena w) h \<or> spent (w_arena v) h"
    using handles.run_live [OF reachable_run [OF assms(1,2)]] by blast
  moreover have "validate_live (w_arena x) h = Some (Inl StaleHandle)" if "spent (w_arena v) h" "arena_step\<^sup>*\<^sup>* v x" for x
  proof -
    have "spent (w_arena x) h" using handles.run_over [OF reachable_run [OF v that(2)] that(1)] .
    then show ?thesis using spent_not_live validate_live_at [OF sh [OF reachable_step [OF v that(2)]]] by (auto simp: spent_def)
  qed
  ultimately show ?thesis using read_node [OF assms(1) l] read_node [OF v, of h] by auto
qed

theorem stale_handles_stay_dead_witness:
  "(arena_payload demo_suspended demo_root = arena_payload demo_full demo_root \<and> child_at demo_suspended demo_root 0 = child_at demo_full demo_root 0) \<or>
   (\<forall>x. arena_step\<^sup>*\<^sup>* ((fresh_world demo_suspended)\<lparr>w_suspended := {demo_build}\<rparr>) x \<longrightarrow> validate_live (w_arena x) demo_root = Some (Inl StaleHandle))"
  using stale_handles_stay_dead [OF demo_reachable_full r_into_rtranclp [of arena_step, OF demo_step_suspend], of demo_root 0] demo_live(1)
  by (simp add: fresh_world_def)


text \<open>
  Reclamation is bounded and makes progress: a poll with any fuel returns, spends at most its fuel, stops early only when nothing is
  pending, accounts for every payload byte it frees, and completes whenever the fuel covers the work that is left.
\<close>

lemma poll_reclaim_completes:
  assumes "arena_reachable w"
  shows "\<exists>r b. poll_reclaim (w_arena w) fuel = Some (r, b) \<and> rr_transitions r \<le> fuel \<and> (rr_complete r \<or> rr_transitions r = fuel) \<and>
     (work (w_arena w) \<le> fuel \<longrightarrow> rr_complete r) \<and> work b + rr_transitions r = work (w_arena w) \<and>
     live_payload_bytes b + rr_payload_bytes_reclaimed r = live_payload_bytes (w_arena w)"
proof -
  obtain r b n where p: "poll_reclaim (w_arena w) fuel = Some (r, b)" "kept (w_roots w) (w_arena w) b" "n \<le> fuel" "work b + n = work (w_arena w)"
      "rr_transitions r = n" "rr_complete r = idle b" "rr_complete r \<or> n = fuel"
      "live_payload_bytes b + rr_payload_bytes_reclaimed r = live_payload_bytes (w_arena w)"
    using poll_reclaim_ok [OF worldD(1) [OF reachable_inv [OF assms]], of fuel] by blast
  have "rr_complete r" if "work (w_arena w) \<le> fuel"
  proof (rule ccontr)
    assume "\<not> rr_complete r"
    then have "work b = 0" using that p(3,4,7) by simp
    then show False using idle_of_no_work [of "w_roots w" b] p(2,6) \<open>\<not> rr_complete r\<close> by (simp add: kept_def)
  qed
  then show ?thesis using p by auto
qed

text \<open>Without a build in use there are no owners.\<close>

lemma no_builds:
  assumes inv: "build_inv a" and none: "\<And>i. unat i < length (builds a) \<Longrightarrow> \<not> in_use (bat a i)"
  shows "journal_refs a = {#}" "live_builds a = 0"
proof -
  have all: "\<not> in_use b" "b_owners b = []" if m: "b \<in> set (builds a)" for b
  proof -
    obtain k where k: "k < length (builds a)" "b = builds a ! k" using m by (auto simp: in_set_conv_nth)
    have u: "unat (to_u32 k) = k" using k(1) build_invD(1,2) [OF inv] by (simp add: unat_of_nat take_bit_nat_eq_self)
    show nu: "\<not> in_use b" using none [of "to_u32 k"] u k by simp
    show "b_owners b = []" using build_invD(3) [OF inv] m nu by (cases "b_state b") (auto simp: build_wf_def in_use_def)
  qed
  have "\<forall>b\<in>set bs. b_owners b = [] \<Longrightarrow> (\<Sum>b\<leftarrow>bs. mset (b_owners b)) = {#}" for bs by (induction bs) auto
  then show "journal_refs a = {#}" unfolding journal_refs_def bsum_def using all(2) by blast
  have "\<forall>b\<in>set bs. \<not> in_use b \<Longrightarrow> (\<Sum>b\<leftarrow>bs. of_bool (in_use b)) = (0 :: nat)" for bs by (induction bs) auto
  then show "live_builds a = 0" using build_invD(6) [OF inv] all(1) by (simp add: bsum_def)
qed

text \<open>
  C10: Nothing leaks: once no session, suspended build, seal or committed root is out, a poll with fuel for the work that is left completes and leaves
  the arena without a node, a payload byte or a build, however the nodes were shared.
\<close>

theorem poll_reclaim_drains:
  assumes "arena_reachable w" "w_session w = None" "w_suspended w = {}" "w_seals w = {}" "w_roots w = {#}" "work (w_arena w) \<le> fuel"
  shows "\<exists>r b. poll_reclaim (w_arena w) fuel = Some (r, b) \<and> rr_complete r \<and>
     resident_nodes b = 0 \<and> live_payload_bytes b = 0 \<and> live_builds b = 0"
proof -
  note w = reachable_inv [OF assms(1)]
  obtain r b n where p: "poll_reclaim (w_arena w) fuel = Some (r, b)" "kept (w_roots w) (w_arena w) b" "keeps_names (w_arena w) b" "n \<le> fuel"
      "work b + n = work (w_arena w)" "rr_complete r = idle b" "rr_complete r \<or> n = fuel"
    using poll_reclaim_ok [OF worldD(1) [OF w], of fuel] by blast
  have inv: "arena_inv {#} b" using p(2) assms(5) by (simp add: kept_def)
  have idle: "idle b" using idle_of_no_work [OF inv] p(5,6,7) assms(6) by (cases "rr_complete r") auto
  have nm: "\<not> names b u i" if "u = Active \<or> u = Suspended \<or> u = Sealing" for u i
    using p(3) worldD(2-4) [OF w] assms(2-4) that by (auto simp: keeps_names_def)
  obtain ps where ps: "links b_pending_next aborting_at (builds b) (length (builds b)) None ps"
    using build_invD(5) [OF arena_invD(2) [OF inv]] idle by (auto simp: bpending_ok_def idle_def)
  have "ps = []" using linksD(1) [OF ps] by (cases ps) auto
  then have na: "b_state (bat b i) \<noteq> Aborting" if "unat i < length (builds b)" for i
    using linksD(4) [OF ps, of i] that by (auto simp: aborting_at_def)
  have "\<not> in_use (bat b i)" if i: "unat i < length (builds b)" for i
  proof -
    have "names b (b_state (bat b i)) (build_handle b i)" using i by (simp add: names_def build_handle_def)
    then show ?thesis using nm [of "b_state (bat b i)"] na [OF i] by (cases "b_state (bat b i)") (auto simp: in_use_def)
  qed
  then have "journal_refs b = {#}" "live_builds b = 0" using no_builds [OF arena_invD(2) [OF inv]] by blast+
  then have "resident_nodes b = 0 \<and> live_payload_bytes b = 0"
    using nothing_resident [of b] arena_invD(1) [OF inv] idle by (simp add: idle_def)
  then show ?thesis using p(1,6) idle \<open>live_builds b = 0\<close> by blast
qed

theorem poll_reclaim_drains_witness:
  "\<exists>r b. poll_reclaim demo_aborting 2 = Some (r, b) \<and> rr_complete r \<and> resident_nodes b = 0 \<and> live_payload_bytes b = 0 \<and> live_builds b = 0"
  using poll_reclaim_drains [OF demo_reachable_aborting, of 2] demo_work by (simp add: fresh_world_def)


text \<open>
  C31: The hard limits hold in every reachable world: live and reserved payload together stay within the budget, and the nodes,
  the builds and the owners of each build within the slot limit.
\<close>

theorem arena_limits_hold:
  assumes "arena_reachable w"
  shows "live_payload_bytes (w_arena w) + reserved_external_payload_bytes (w_arena w) \<le> max_live_payload_bytes (limits (w_arena w)) \<and>
     resident_nodes (w_arena w) \<le> max_slots (limits (w_arena w)) \<and> live_builds (w_arena w) \<le> max_slots (limits (w_arena w)) \<and>
     (b \<in> set (builds (w_arena w)) \<longrightarrow> length (b_owners b) \<le> max_slots (limits (w_arena w)))"
proof -
  let ?a = "w_arena w"
  note inv = arena_invD [OF worldD(1) [OF reachable_inv [OF assms]]]
  note d = node_invD [OF inv(1)] and e = build_invD [OF inv(2)]
  have le: "sum_list (map (\<lambda>x. of_bool (P x)) xs) \<le> length xs" for P and xs :: "'z list" by (induction xs) auto
  have "resident_nodes ?a = sum_list (map (\<lambda>s. of_bool (resident s)) (take (next_unused ?a) (slots ?a) @ drop (next_unused ?a) (slots ?a)))"
    using d(5) by (simp add: totals_ok_def total_of_def)
  also have "\<dots> = sum_list (map (\<lambda>s. of_bool (resident s)) (take (next_unused ?a) (slots ?a)))"
  proof -
    have "\<not> resident s" if "s \<in> set (drop (next_unused ?a) (slots ?a))" for s
      using that shapeD(5) [OF d(1)] by (auto simp: in_set_conv_nth)
    then have "\<forall>x\<in>set (map (\<lambda>s. of_bool (resident s)) (drop (next_unused ?a) (slots ?a))). x = (0 :: nat)" by auto
    then show ?thesis using sum_list_eq_0_iff by (metis (no_types, lifting) add.right_neutral map_append sum_list_append)
  qed
  also have "\<dots> \<le> next_unused ?a" using le [of resident "take (next_unused ?a) (slots ?a)"] by simp
  finally have "resident_nodes ?a \<le> max_slots (limits ?a)" using shapeD(3) [OF d(1)] by simp
  moreover have "live_builds ?a \<le> max_slots (limits ?a)"
    using e(1,6) le [of in_use "builds ?a"] by (simp add: bsum_def)
  ultimately show ?thesis using inv(3) e(3) by (auto simp: build_wf_def)
qed

theorem arena_limits_hold_witness:
  "live_payload_bytes demo_sealing + reserved_external_payload_bytes demo_sealing \<le> 16 \<and> resident_nodes demo_sealing \<le> 2"
  using arena_limits_hold [OF demo_reachable_sealing] by (simp add: fresh_world_def) (simp add: demo_defs)


text \<open>
  C29: A seal with fuel for its journal commits: the poll releases every other owner, hands out exactly the root that was
  selected, still live, and uses one transition per owner.
\<close>

theorem poll_seal_commits:
  assumes "arena_reachable w" "i \<in> w_seals w" "build_slot (w_arena w) (bid_slot i) = Some j" "length (b_owners j) \<le> fuel"
  shows "\<exists>b root. poll_seal (w_arena w) (open_seal i) fuel =
       Some (Inr (length (b_owners j), Some root), \<lparr>seal_id = i, seal_complete = True\<rparr>, b) \<and>
     b_seal_root j = Some root \<and> validate_live b root = Some (Inr ()) \<and> node_of b root = node_of (w_arena w) root"
proof -
  note w = reachable_inv [OF assms(1)]
  note inv = worldD(1) [OF w]
  have i: "names (w_arena w) Sealing i" using worldD(4) [OF w] assms(2) by simp
  have j: "j = bat (w_arena w) (bid_slot i)" using assms(3) namesD(1) [OF i] by (simp add: build_slot_at)
  have wf: "b_owners j \<noteq> []" "b_seal_root j = Some (last (b_owners j))"
    using build_wf_at [OF arena_invD(2) [OF inv] namesD(1) [OF i]] namesD(2) [OF i] j by (simp_all add: build_wf_def)
  show ?thesis
  proof (cases rule: poll_seal_ok [OF inv i, of fuel])
    case (1 b)
    then show ?thesis using assms(4) j by simp
  next
    case (2 b)
    let ?h = "last (b_owners j)"
    have ab: "arena_inv (add_mset ?h (w_roots w)) b" and ev: "evolves (w_arena w) b" using 2(3) j by (simp_all add: kept_def)
    note n = node_invD [OF arena_invD(1) [OF ab]]
    have lb: "live_at b ?h" using countedD(1) [OF n(6)] by simp
    have "?h \<in># journal_refs (w_arena w)"
    proof -
      have "bat (w_arena w) (bid_slot i) \<in> set (builds (w_arena w))" using namesD(1) [OF i] by simp
      then show ?thesis using wf(1) j unfolding journal_refs_def bsum_def set_mset_sum_list
        by (auto intro!: bexI [of _ "bat (w_arena w) (bid_slot i)"])
    qed
    then have "live_at (w_arena w) ?h" using countedD(1) [OF node_invD(6) [OF arena_invD(1) [OF inv]], of ?h] by (simp add: refs_def)
    then have "node_of b ?h = node_of (w_arena w) ?h" using evolves_live [OF ev] spent_not_live lb by blast
    then show ?thesis using 2(2) wf(2) j lb validate_live_at [OF n(1), of ?h] by auto
  qed
qed

theorem poll_seal_commits_witness:
  "\<exists>b. poll_seal demo_sealing (open_seal demo_build) 1 =
     Some (Inr (1, Some demo_root), \<lparr>seal_id = demo_build, seal_complete = True\<rparr>, b) \<and> validate_live b demo_root = Some (Inr ())"
proof -
  have b: "build_slot demo_sealing (bid_slot demo_build) =
      Some (vacant_build\<lparr>b_state := Sealing, b_owners := [demo_root], b_seal_root := Some demo_root\<rparr>)"
    by (simp add: demo_defs build_slot_def)
  show ?thesis
    using poll_seal_commits [OF demo_reachable_sealing, of demo_build "vacant_build\<lparr>b_state := Sealing, b_owners := [demo_root], b_seal_root := Some demo_root\<rparr>" 1] b
    by (auto simp: fresh_world_def)
qed


text \<open>
  C30: Allocation: a refused request leaves the arena as it was; a granted one returns a handle that was never valid before, that the
  journal now owns last, and that reads back the payload and the children it was given.
\<close>

theorem session_allocate_reads_back:
  assumes "arena_reachable w" "w_session w = Some i" "session_allocate mem (w_arena w) i p cs = Some (r, b)"
  shows "case r of Inl e \<Rightarrow> b = w_arena w
     | Inr ow \<Rightarrow> ow_build ow = i \<and> validate_live (w_arena w) (ow_id ow) = Some (Inl StaleHandle) \<and>
         arena_payload b (ow_id ow) = Some (Inr p) \<and> child_count b (ow_id ow) = Some (Inr (length cs)) \<and>
         (\<forall>k. child_at b (ow_id ow) k = Some (if k < length cs then Inr (cs ! k) else Inl StaleHandle)) \<and>
         (\<exists>j. build_slot b (bid_slot i) = Some j \<and> b_owners j \<noteq> [] \<and> last (b_owners j) = ow_id ow)"
proof -
  note w = reachable_inv [OF assms(1)]
  note inv = worldD(1) [OF w]
  have i: "names (w_arena w) Active i" using worldD(2) [OF w] assms(2) by simp
  have rb: "arena_reachable (w\<lparr>w_arena := b\<rparr>)"
    using assms reachable_step arena_step.allocate by (meson r_into_rtranclp)
  show ?thesis
  proof (cases rule: session_allocate_ok [OF inv i, of mem p cs])
    case (1 e)
    then show ?thesis using assms(3) by simp
  next
    case (2 h c)
    then have r: "r = Inr \<lparr>ow_build = i, ow_id = h\<rparr>" "c = b" using assms(3) by simp_all
    have "id_arena h = identity b" "identity b = identity (w_arena w)" using 2(2,7) r by (simp_all add: live_at_def kept_def evolves_def)
    then have "validate_live (w_arena w) h = Some (Inl StaleHandle)"
      using 2(6) validate_live_at [OF node_invD(1) [OF reachable_nodes [OF assms(1)]]] by simp
    moreover have "names b Active i" using 2(3) r i by simp
    ultimately show ?thesis using 2(4,7,8) r read_node [OF rb, of h] by (simp add: build_slot_at namesD(1))
  qed
qed

theorem session_allocate_reads_back_witness:
  "validate_live demo_open demo_root = Some (Inl StaleHandle) \<and> arena_payload demo_full demo_root = Some (Inr ''ab'') \<and>
   child_count demo_full demo_root = Some (Inr 0)"
  using session_allocate_reads_back [OF demo_reachable_open, of demo_build "\<lambda>_. True" "''ab''" "[]" "Inr demo_owner" demo_full] demo_allocate
  by (simp add: fresh_world_def) (simp add: demo_owner_def)


end
