(* ===== verification/Flark_Sequence.thy ===== *)
theory Flark_Sequence
  imports Flark_Arena_System
begin

text \<open>
  The V4 engine's persistent measured sequence, \<^verbatim>\<open>flark_engine/src/measured_sequence.rs\<close>: a balanced tree
  of arena nodes whose branches carry a summary, a leaf count and a height. This theory holds the data, the node
  decoder and the read-only routing; the mutations are in \<open>Flark_Sequence_Edit\<close>, and the theories after it
  prove what they do.

  The trait \<^verbatim>\<open>SequenceSpec\<close> is a record of its functions, passed to every operation. Every \<^verbatim>\<open>u64\<close> and \<^verbatim>\<open>u16\<close> of this file is added
  with a check, so they are natural numbers with the bound written at each addition. An operation runs on a state
  (the inspection receipt, with a node cache where the code has one) and returns an error or a value with the
  state after it, or \<open>None\<close> where the code panics or does not return.
\<close>

subsection \<open>Running with a state\<close>

type_synonym ('t, 'e, 'a) seq_run = "'t \<Rightarrow> (('e + 'a) \<times> 't) option"

text \<open>The operator \<^verbatim>\<open>?\<close> and what follows it.\<close>

definition seq_do :: "('t, 'e, 'a) seq_run \<Rightarrow> ('a \<Rightarrow> ('t, 'e, 'b) seq_run) \<Rightarrow> ('t, 'e, 'b) seq_run" where
  "seq_do m k t = (case m t of None \<Rightarrow> None | Some (Inl e, t') \<Rightarrow> Some (Inl e, t') | Some (Inr x, t') \<Rightarrow> k x t')"

definition seq_ok :: "'a \<Rightarrow> ('t, 'e, 'a) seq_run" where
  "seq_ok x t = Some (Inr x, t)"

definition seq_err :: "'e \<Rightarrow> ('t, 'e, 'a) seq_run" where
  "seq_err e t = Some (Inl e, t)"

definition seq_result :: "'e + 'a \<Rightarrow> ('t, 'e, 'a) seq_run" where
  "seq_result r t = Some (r, t)"

text \<open>A checked update of the state: \<^verbatim>\<open>x = x.checked_add(n).ok_or(e)?\<close>\<close>

definition seq_update :: "'e \<Rightarrow> ('t \<Rightarrow> 't option) \<Rightarrow> ('t, 'e, unit) seq_run" where
  "seq_update e f t = (case f t of None \<Rightarrow> Some (Inl e, t) | Some t' \<Rightarrow> Some (Inr (), t'))"

text \<open>Running on a part of the state.\<close>

definition seq_on_fst :: "('t, 'e, 'a) seq_run \<Rightarrow> ('t \<times> 'u, 'e, 'a) seq_run" where
  "seq_on_fst m t = (case m (fst t) of None \<Rightarrow> None | Some (r, t') \<Rightarrow> Some (r, t', snd t))"

lemma seq_simps [simp]:
  "seq_do (seq_ok x) k t = k x t" "seq_do (seq_err e) k t = Some (Inl e, t)"
  "seq_ok x t = Some (Inr x, t)" "seq_err e t = Some (Inl e, t)" "seq_result r t = Some (r, t)"
  by (simp_all add: seq_do_def seq_ok_def seq_err_def seq_result_def)

lemma seq_do_mono [partial_function_mono]:
  assumes "\<And>t. mono_option (\<lambda>f. m f t)" "\<And>x t. mono_option (\<lambda>f. k f x t)"
  shows "mono_option (\<lambda>f. seq_do (m f) (\<lambda>x. k f x) t)"
proof -
  have "seq_do (m f) (k f) t = Option.bind (m f t) (\<lambda>(r, u). case r of Inl e \<Rightarrow> Some (Inl e, u) | Inr x \<Rightarrow> k f x u)" for f
    by (simp add: seq_do_def split: option.splits sum.splits)
  moreover have "mono_option (\<lambda>f. Option.bind (m f t) (\<lambda>(r, u). case r of Inl e \<Rightarrow> Some (Inl e, u) | Inr x \<Rightarrow> k f x u))"
  proof (rule bind_mono [OF assms(1)])
    show "mono_option (\<lambda>f. case y of (r, u) \<Rightarrow> (case r of Inl e \<Rightarrow> Some (Inl e, u) | Inr x \<Rightarrow> k f x u))" for y
      by (cases y; cases "fst y") (auto intro: assms(2) option.const_mono)
  qed
  ultimately show ?thesis by simp
qed

subsection \<open>Measures, receipts and the specification of a sequence\<close>

definition MAX_SEQUENCE_BIN_SLOTS :: nat where
  "MAX_SEQUENCE_BIN_SLOTS = 64"

definition AVL_MIN_LEAVES_BY_HEIGHT :: "nat list" where
  "AVL_MIN_LEAVES_BY_HEIGHT =
    [0, 1, 2, 3, 5, 8, 13, 21, 34, 55, 89, 144, 233, 377, 610, 987, 1597, 2584, 4181, 6765, 10946, 17711, 28657,
     46368, 75025, 121393, 196418, 317811, 514229, 832040, 1346269, 2178309, 3524578, 5702887, 9227465, 14930352,
     24157817, 39088169, 63245986, 102334155, 165580141, 267914296, 433494437, 701408733, 1134903170, 1836311903,
     2971215073, 4807526976, 7778742049, 12586269025, 20365011074, 32951280099, 53316291173, 86267571272,
     139583862445, 225851433717, 365435296162, 591286729879, 956722026041, 1548008755920, 2504730781961,
     4052739537881, 6557470319842, 10610209857723, 17167680177565, 27777890035288, 44945570212853, 72723460248141,
     117669030460994, 190392490709135, 308061521170129, 498454011879264, 806515533049393, 1304969544928657,
     2111485077978050, 3416454622906707, 5527939700884757, 8944394323791464, 14472334024676221, 23416728348467685,
     37889062373143906, 61305790721611591, 99194853094755497, 160500643816367088, 259695496911122585,
     420196140727489673, 679891637638612258, 1100087778366101931, 1779979416004714189, 2880067194370816120,
     4660046610375530309, 7540113804746346429, 12200160415121876738]"

definition MAX_SEQUENCE_AVL_HEIGHT :: nat where
  "MAX_SEQUENCE_AVL_HEIGHT = length AVL_MIN_LEAVES_BY_HEIGHT - 1"

definition MAX_SEQUENCE_BUILDER_OWNER_RESERVATION :: nat where
  "MAX_SEQUENCE_BUILDER_OWNER_RESERVATION = MAX_SEQUENCE_BIN_SLOTS + MAX_SEQUENCE_AVL_HEIGHT + 8"

record 's sequence_measure =
  sm_summary :: 's
  sm_leaves :: nat
  sm_height :: nat

record spec_inspection =
  payload_bytes_inspected :: nat
  spec_items_hashed :: nat

definition charge_payload_bytes :: "nat \<Rightarrow> spec_inspection \<Rightarrow> spec_inspection option" where
  "charge_payload_bytes bytes i =
     map_option (\<lambda>n. i\<lparr>payload_bytes_inspected := n\<rparr>) (checked_add (payload_bytes_inspected i) bytes)"

definition charge_hashed_items :: "nat \<Rightarrow> spec_inspection \<Rightarrow> spec_inspection option" where
  "charge_hashed_items items i = map_option (\<lambda>n. i\<lparr>spec_items_hashed := n\<rparr>) (checked_add (spec_items_hashed i) items)"

record inspection_receipt =
  node_headers_decoded :: nat
  summary_combinations :: nat
  ir_spec :: spec_inspection
  maximum_node_headers_decoded :: "nat option"
  node_header_limit_exhausted :: bool

definition default_inspection :: inspection_receipt where
  "default_inspection = \<lparr>node_headers_decoded = 0, summary_combinations = 0,
     ir_spec = \<lparr>payload_bytes_inspected = 0, spec_items_hashed = 0\<rparr>, maximum_node_headers_decoded = None,
     node_header_limit_exhausted = False\<rparr>"

definition with_node_header_limit :: "nat \<Rightarrow> inspection_receipt option" where
  "with_node_header_limit maximum =
     (if maximum = 0 then None else Some (default_inspection\<lparr>maximum_node_headers_decoded := Some maximum\<rparr>))"

text \<open>
  \<^verbatim>\<open>SequenceSpec\<close>, with \<open>from_arena\<close> for its \<^verbatim>\<open>From<ArenaError>\<close>. \<open>encode_branch\<close> takes the page it writes to and returns it written.
\<close>

record ('s, 'e) sequence_spec =
  leaf_summary :: "bytes \<Rightarrow> (spec_inspection, 'e, 's option) seq_run"
  branch_measure :: "bytes \<Rightarrow> (spec_inspection, 'e, 's sequence_measure option) seq_run"
  encode_branch :: "'s sequence_measure \<Rightarrow> (bytes, 'e, nat) seq_run"
  spec_combine :: "'s \<Rightarrow> 's \<Rightarrow> 'e + 's"
  invalid :: "string \<Rightarrow> 'e"
  from_arena :: "arena_error \<Rightarrow> 'e"

text \<open>The page a branch is encoded to.\<close>

definition zero_page :: bytes where
  "zero_page = replicate ARENA_PAGE_BYTES (CHR 0x00)"

datatype node_header_kind = HeaderLeaf | HeaderBranch arena_id arena_id

record 's node_header =
  nh_measure :: "'s sequence_measure"
  nh_kind :: node_header_kind

datatype 's node_kind = NodeLeaf | NodeBranch arena_id "'s sequence_measure" arena_id "'s sequence_measure"

record 's decoded_node =
  dn_measure :: "'s sequence_measure"
  dn_kind :: "'s node_kind"

record 's located_leaf =
  ll_id :: arena_id
  ll_ordinal :: nat
  ll_summary :: 's
  ll_prefix :: "'s option"

datatype partition_direction = Forward | Reverse

record 's located_partition =
  lp_id :: arena_id
  lp_ordinal :: nat
  lp_summary :: 's
  lp_accumulated :: "'s option"

datatype visit_control = Continue | Stop

record visit_receipt =
  leaves_visited :: nat
  visitor_stopped :: bool

record 's pending_subtree =
  ps_id :: arena_id
  ps_expected :: "'s sequence_measure"
  ps_ordinal :: nat
  ps_prefix :: "'s option"

subsection \<open>Measures\<close>

text \<open>\<^verbatim>\<open>partition_point\<close> on the sorted table.\<close>

definition maximum_avl_height :: "nat \<Rightarrow> nat" where
  "maximum_avl_height leaves =
     (if leaves = 0 then 0 else length (takeWhile (\<lambda>minimum. minimum \<le> leaves) AVL_MIN_LEAVES_BY_HEIGHT) - 1)"

definition validate_measure :: "('s, 'e) sequence_spec \<Rightarrow> 's sequence_measure \<Rightarrow> bool \<Rightarrow> 'e + unit" where
  "validate_measure sp m leaf =
     (if leaf then
        if sm_leaves m \<noteq> 1 \<or> sm_height m \<noteq> 1 then Inl (invalid sp ''sequence leaf measure is invalid'') else Inr ()
      else if sm_leaves m < 2 \<or> sm_height m < 2 then Inl (invalid sp ''sequence branch measure is empty or scalar'')
      else if sm_height m > MAX_SEQUENCE_AVL_HEIGHT \<or> sm_height m > maximum_avl_height (sm_leaves m)
      then Inl (invalid sp ''sequence branch height is impossible for its leaf count'')
      else Inr ())"

definition count_combination :: "('s, 'e) sequence_spec \<Rightarrow> string \<Rightarrow> (inspection_receipt, 'e, unit) seq_run" where
  "count_combination sp message = seq_update (invalid sp message)
     (\<lambda>i. map_option (\<lambda>n. i\<lparr>summary_combinations := n\<rparr>) (checked_add (summary_combinations i) 1))"

definition abs_diff :: "nat \<Rightarrow> nat \<Rightarrow> nat" where
  "abs_diff x y = (if x \<le> y then y - x else x - y)"

definition combine_measures :: "('s, 'e) sequence_spec \<Rightarrow> 's sequence_measure \<Rightarrow> 's sequence_measure \<Rightarrow>
    (inspection_receipt, 'e, 's sequence_measure) seq_run" where
  "combine_measures sp left right =
     seq_do (seq_result (validate_measure sp left (sm_leaves left = 1))) (\<lambda>_.
     seq_do (seq_result (validate_measure sp right (sm_leaves right = 1))) (\<lambda>_.
     if abs_diff (sm_height left) (sm_height right) > 1 then seq_err (invalid sp ''sequence branch is not AVL balanced'')
     else
       seq_do (count_combination sp ''sequence summary combination count overflow'') (\<lambda>_.
       seq_do (seq_result (spec_combine sp (sm_summary left) (sm_summary right))) (\<lambda>summary.
       case checked_add (sm_leaves left) (sm_leaves right) of
         None \<Rightarrow> seq_err (invalid sp ''sequence leaf count overflow'')
       | Some leaves \<Rightarrow>
           if max (sm_height left) (sm_height right) + 1 \<ge> 2 ^ 16 then seq_err (invalid sp ''sequence height overflow'')
           else let measure = \<lparr>sm_summary = summary, sm_leaves = leaves,
                      sm_height = max (sm_height left) (sm_height right) + 1\<rparr>
                in seq_do (seq_result (validate_measure sp measure False)) (\<lambda>_. seq_ok measure)))))"

subsection \<open>Nodes\<close>

text \<open>A result of the arena, its error converted.\<close>

definition of_arena :: "('s, 'e) sequence_spec \<Rightarrow> 'a arena_result option \<Rightarrow> ('t, 'e, 'a) seq_run" where
  "of_arena sp r t = (case r of None \<Rightarrow> None | Some (Inl e) \<Rightarrow> Some (Inl (from_arena sp e), t) | Some (Inr x) \<Rightarrow> Some (Inr x, t))"

text \<open>A call of the specification, on its own counters.\<close>

definition inspect_spec :: "(spec_inspection, 'e, 'a) seq_run \<Rightarrow> (inspection_receipt, 'e, 'a) seq_run" where
  "inspect_spec m i = (case m (ir_spec i) of None \<Rightarrow> None | Some (r, s) \<Rightarrow> Some (r, i\<lparr>ir_spec := s\<rparr>))"

definition header_of :: "('s, 'e) sequence_spec \<Rightarrow> page_arena \<Rightarrow> arena_id \<Rightarrow> 's option \<Rightarrow> 's sequence_measure option \<Rightarrow>
    (inspection_receipt, 'e, 's node_header) seq_run" where
  "header_of sp a h leaf branch =
     (case (leaf, branch) of
        (Some _, Some _) \<Rightarrow> seq_err (invalid sp ''sequence node encoding is ambiguous'')
      | (Some summary, None) \<Rightarrow>
          seq_do (of_arena sp (child_count a h)) (\<lambda>n.
            if n \<noteq> 0 then seq_err (invalid sp ''sequence leaf owns children'')
            else seq_ok \<lparr>nh_measure = \<lparr>sm_summary = summary, sm_leaves = 1, sm_height = 1\<rparr>, nh_kind = HeaderLeaf\<rparr>)
      | (None, Some m) \<Rightarrow>
          seq_do (seq_result (validate_measure sp m False)) (\<lambda>_.
          seq_do (of_arena sp (child_count a h)) (\<lambda>n.
            if n \<noteq> 2 then seq_err (invalid sp ''sequence branch has the wrong child count'')
            else seq_do (of_arena sp (child_at a h 0)) (\<lambda>left.
                 seq_do (of_arena sp (child_at a h 1)) (\<lambda>right.
                 seq_ok \<lparr>nh_measure = m, nh_kind = HeaderBranch left right\<rparr>))))
      | (None, None) \<Rightarrow> seq_err (invalid sp ''unknown sequence node encoding''))"

text \<open>\<^verbatim>\<open>sequence_node_header\<close>: past the budget check, and whole.\<close>

definition decode_header :: "('s, 'e) sequence_spec \<Rightarrow> page_arena \<Rightarrow> arena_id \<Rightarrow> (inspection_receipt, 'e, 's node_header) seq_run" where
  "decode_header sp a h =
     seq_do (of_arena sp (arena_payload a h)) (\<lambda>payload.
     seq_do (seq_update (invalid sp ''sequence header inspection count overflow'')
       (\<lambda>i. map_option (\<lambda>n. i\<lparr>node_headers_decoded := n\<rparr>) (checked_add (node_headers_decoded i) 1))) (\<lambda>_.
     seq_do (seq_update (invalid sp ''sequence payload inspection count overflow'')
       (\<lambda>i. map_option (\<lambda>s. i\<lparr>ir_spec := s\<rparr>) (charge_payload_bytes (length payload) (ir_spec i)))) (\<lambda>_.
     seq_do (inspect_spec (leaf_summary sp payload)) (\<lambda>leaf.
     seq_do (inspect_spec (branch_measure sp payload)) (\<lambda>branch.
     header_of sp a h leaf branch)))))"

definition budget_spent :: "inspection_receipt \<Rightarrow> bool" where
  "budget_spent i = (case maximum_node_headers_decoded i of None \<Rightarrow> False | Some maximum \<Rightarrow> node_headers_decoded i \<ge> maximum)"

definition sequence_node_header :: "('s, 'e) sequence_spec \<Rightarrow> page_arena \<Rightarrow> arena_id \<Rightarrow> (inspection_receipt, 'e, 's node_header) seq_run" where
  "sequence_node_header sp a h i =
     (if budget_spent i
      then seq_err (invalid sp ''sequence node-header inspection limit exhausted'') (i\<lparr>node_header_limit_exhausted := True\<rparr>)
      else decode_header sp a h i)"

text \<open>The walk-scoped cache: a vector sorted by key.\<close>

type_synonym 's node_cache = "((u64 \<times> u32 \<times> u32) \<times> 's node_header) list"

definition cache_key :: "arena_id \<Rightarrow> u64 \<times> u32 \<times> u32" where
  "cache_key h = (id_arena h, id_slot h, id_generation h)"

definition key_less :: "u64 \<times> u32 \<times> u32 \<Rightarrow> u64 \<times> u32 \<times> u32 \<Rightarrow> bool" where
  "key_less k m = (case (k, m) of ((a, b, c), (d, e, f)) \<Rightarrow> a < d \<or> a = d \<and> (b < e \<or> b = e \<and> c < f))"

definition cache_get :: "'s node_cache \<Rightarrow> arena_id \<Rightarrow> 's node_header option" where
  "cache_get c h = map_of c (cache_key h)"

definition cache_insert :: "(alloc_request \<Rightarrow> bool) \<Rightarrow> ('s, 'e) sequence_spec \<Rightarrow> 's node_cache \<Rightarrow> arena_id \<Rightarrow> 's node_header \<Rightarrow> 'e + 's node_cache" where
  "cache_insert mem sp c h header =
     (if map_of c (cache_key h) \<noteq> None then Inr c
      else if \<not> mem CacheEntry then Inl (invalid sp ''sequence node cache reservation failed'')
      else let index = length (takeWhile (\<lambda>e. key_less (fst e) (cache_key h)) c)
           in Inr (take index c @ (cache_key h, header) # drop index c))"

type_synonym 's read_state = "inspection_receipt \<times> 's node_cache option"

definition sequence_node_header_shared :: "(alloc_request \<Rightarrow> bool) \<Rightarrow> ('s, 'e) sequence_spec \<Rightarrow> page_arena \<Rightarrow> arena_id \<Rightarrow>
    ('s read_state, 'e, 's node_header) seq_run" where
  "sequence_node_header_shared mem sp a h t =
     (case Option.bind (snd t) (\<lambda>c. cache_get c h) of
        Some header \<Rightarrow> seq_ok header t
      | None \<Rightarrow>
          seq_do (seq_on_fst (sequence_node_header sp a h)) (\<lambda>header t.
            case snd t of
              None \<Rightarrow> seq_ok header t
            | Some c \<Rightarrow> (case cache_insert mem sp c h header of
                           Inl e \<Rightarrow> seq_err e t | Inr c' \<Rightarrow> seq_ok header (fst t, Some c'))) t)"

definition sequence_node_shared :: "(alloc_request \<Rightarrow> bool) \<Rightarrow> ('s, 'e) sequence_spec \<Rightarrow> page_arena \<Rightarrow> arena_id \<Rightarrow>
    ('s read_state, 'e, 's decoded_node) seq_run" where
  "sequence_node_shared mem sp a h =
     seq_do (sequence_node_header_shared mem sp a h) (\<lambda>header.
     case nh_kind header of
       HeaderLeaf \<Rightarrow> seq_ok \<lparr>dn_measure = nh_measure header, dn_kind = NodeLeaf\<rparr>
     | HeaderBranch left right \<Rightarrow>
         seq_do (sequence_node_header_shared mem sp a left) (\<lambda>lh.
         seq_do (sequence_node_header_shared mem sp a right) (\<lambda>rh.
         seq_do (seq_on_fst (combine_measures sp (nh_measure lh) (nh_measure rh))) (\<lambda>expected.
         if nh_measure header \<noteq> expected
         then seq_err (invalid sp ''sequence branch measure does not match its children'')
         else seq_ok \<lparr>dn_measure = nh_measure header,
                dn_kind = NodeBranch left (nh_measure lh) right (nh_measure rh)\<rparr>))))"

text \<open>Without a cache.\<close>

definition uncached :: "('s read_state, 'e, 'a) seq_run \<Rightarrow> (inspection_receipt, 'e, 'a) seq_run" where
  "uncached m i = (case m (i, None) of None \<Rightarrow> None | Some (r, t) \<Rightarrow> Some (r, fst t))"

definition sequence_node :: "('s, 'e) sequence_spec \<Rightarrow> page_arena \<Rightarrow> arena_id \<Rightarrow> (inspection_receipt, 'e, 's decoded_node) seq_run" where
  "sequence_node sp a h = uncached (sequence_node_shared (\<lambda>_. True) sp a h)"

subsection \<open>Summaries of a range\<close>

definition checked_sub :: "nat \<Rightarrow> nat \<Rightarrow> nat option" where
  "checked_sub x y = (if y \<le> x then Some (x - y) else None)"

partial_function (option) measured_sequence_range_summary_inner ::
    "('s, 'e) sequence_spec \<Rightarrow> page_arena \<Rightarrow> arena_id \<Rightarrow> 's sequence_measure \<Rightarrow> nat \<Rightarrow> nat \<Rightarrow> nat \<Rightarrow>
     inspection_receipt \<Rightarrow> (('e + 's option) \<times> inspection_receipt) option" where
  "measured_sequence_range_summary_inner sp a h expected start range_start range_end i =
     (case checked_add start (sm_leaves expected) of
        None \<Rightarrow> seq_err (invalid sp ''sequence summary boundary overflow'') i
      | Some stop \<Rightarrow>
          if range_end \<le> start \<or> range_start \<ge> stop then seq_ok None i
          else if range_start \<le> start \<and> stop \<le> range_end then seq_ok (Some (sm_summary expected)) i
          else
            seq_do (sequence_node sp a h) (\<lambda>node i.
            if dn_measure node \<noteq> expected then seq_err (invalid sp ''sequence child measure changed during range summary'') i
            else case dn_kind node of
              NodeLeaf \<Rightarrow> seq_err (invalid sp ''sequence partial range terminated inside a leaf'') i
            | NodeBranch left left_measure right right_measure \<Rightarrow>
                (case checked_add start (sm_leaves left_measure) of
                   None \<Rightarrow> seq_err (invalid sp ''sequence summary boundary overflow'') i
                 | Some right_start \<Rightarrow>
                     seq_do (measured_sequence_range_summary_inner sp a left left_measure start range_start range_end) (\<lambda>l.
                     seq_do (measured_sequence_range_summary_inner sp a right right_measure right_start range_start range_end) (\<lambda>r i.
                     case l of
                       None \<Rightarrow> seq_ok r i
                     | Some x \<Rightarrow>
                         (case r of
                            None \<Rightarrow> seq_ok (Some x) i
                          | Some y \<Rightarrow>
                              seq_do (count_combination sp ''sequence summary combination count overflow'') (\<lambda>_.
                              seq_do (seq_result (spec_combine sp x y)) (\<lambda>z. seq_ok (Some z))) i))) i)) i)"

definition measured_sequence_range_summary :: "('s, 'e) sequence_spec \<Rightarrow> page_arena \<Rightarrow> arena_id \<Rightarrow> nat \<Rightarrow> nat \<Rightarrow>
    (inspection_receipt, 'e, 's option) seq_run" where
  "measured_sequence_range_summary sp a root range_start range_end =
     (if range_start > range_end then seq_err (invalid sp ''sequence summary range is reversed'')
      else if range_start = range_end then seq_ok None
      else
        seq_do (sequence_node sp a root) (\<lambda>node.
        if range_end > sm_leaves (dn_measure node) then seq_err (invalid sp ''sequence summary range exceeds its root'')
        else measured_sequence_range_summary_inner sp a root (dn_measure node) 0 range_start range_end))"

text \<open>A \<^verbatim>\<open>MeasuredSequenceRef\<close> is the handle of its root, if it has one.\<close>

definition summary_shared :: "(alloc_request \<Rightarrow> bool) \<Rightarrow> ('s, 'e) sequence_spec \<Rightarrow> page_arena \<Rightarrow> arena_id option \<Rightarrow>
    ('s read_state, 'e, 's sequence_measure option) seq_run" where
  "summary_shared mem sp a root =
     (case root of
        None \<Rightarrow> seq_ok None
      | Some h \<Rightarrow> seq_do (sequence_node_shared mem sp a h) (\<lambda>node. seq_ok (Some (dn_measure node))))"

definition ref_range_summary :: "('s, 'e) sequence_spec \<Rightarrow> page_arena \<Rightarrow> arena_id option \<Rightarrow> nat \<Rightarrow> nat \<Rightarrow>
    (inspection_receipt, 'e, 's option) seq_run" where
  "ref_range_summary sp a root range_start range_end =
     (case root of
        Some h \<Rightarrow> measured_sequence_range_summary sp a h range_start range_end
      | None \<Rightarrow> if range_end \<le> range_start then seq_ok None
                else seq_err (invalid sp ''nonempty range requested from empty sequence''))"

subsection \<open>Locating a leaf\<close>

text \<open>The summary before the right child: \<^verbatim>\<open>None\<close> is the empty one.\<close>

definition extend_prefix :: "('s, 'e) sequence_spec \<Rightarrow> 's option \<Rightarrow> 's \<Rightarrow> (inspection_receipt, 'e, 's) seq_run" where
  "extend_prefix sp prefix summary =
     (case prefix of
        None \<Rightarrow> seq_ok summary
      | Some p \<Rightarrow> seq_do (count_combination sp ''sequence summary combination count overflow'')
                    (\<lambda>_. seq_result (spec_combine sp p summary)))"

text \<open>The descents: the loop \<^verbatim>\<open>for _ in 0..height\<close> by its remaining turns.\<close>

primrec locate_index_loop :: "(alloc_request \<Rightarrow> bool) \<Rightarrow> ('s, 'e) sequence_spec \<Rightarrow> page_arena \<Rightarrow> nat \<Rightarrow> nat \<Rightarrow> arena_id \<Rightarrow>
    's sequence_measure \<Rightarrow> nat \<Rightarrow> 's option \<Rightarrow> ('s read_state, 'e, 's located_leaf option) seq_run" where
  "locate_index_loop mem sp a leaf_index 0 h expected index prefix =
     seq_err (invalid sp ''sequence descent exceeded its AVL height'')"
| "locate_index_loop mem sp a leaf_index (Suc turns) h expected index prefix =
     seq_do (sequence_node_shared mem sp a h) (\<lambda>node.
     if dn_measure node \<noteq> expected then seq_err (invalid sp ''sequence child measure changed during descent'')
     else case dn_kind node of
       NodeLeaf \<Rightarrow>
         if index \<noteq> 0 then seq_err (invalid sp ''sequence leaf routing retained a nonzero index'')
         else seq_ok (Some \<lparr>ll_id = h, ll_ordinal = leaf_index, ll_summary = sm_summary (dn_measure node), ll_prefix = prefix\<rparr>)
     | NodeBranch left left_measure right right_measure \<Rightarrow>
         if index < sm_leaves left_measure
         then locate_index_loop mem sp a leaf_index turns left left_measure index prefix
         else case checked_sub index (sm_leaves left_measure) of
           None \<Rightarrow> seq_err (invalid sp ''sequence index underflow'')
         | Some rest \<Rightarrow>
             seq_do (seq_on_fst (extend_prefix sp prefix (sm_summary left_measure))) (\<lambda>p.
             locate_index_loop mem sp a leaf_index turns right right_measure rest (Some p)))"

definition locate_leaf_with_prefix_shared :: "(alloc_request \<Rightarrow> bool) \<Rightarrow> ('s, 'e) sequence_spec \<Rightarrow> page_arena \<Rightarrow> arena_id option \<Rightarrow>
    nat \<Rightarrow> ('s read_state, 'e, 's located_leaf option) seq_run" where
  "locate_leaf_with_prefix_shared mem sp a root leaf_index =
     (case root of
        None \<Rightarrow> seq_ok None
      | Some h \<Rightarrow>
          seq_do (sequence_node_shared mem sp a h) (\<lambda>node.
          if leaf_index \<ge> sm_leaves (dn_measure node) then seq_ok None
          else locate_index_loop mem sp a leaf_index (sm_height (dn_measure node)) h (dn_measure node) leaf_index None))"

definition locate_leaf_with_prefix :: "('s, 'e) sequence_spec \<Rightarrow> page_arena \<Rightarrow> arena_id option \<Rightarrow> nat \<Rightarrow>
    (inspection_receipt, 'e, 's located_leaf option) seq_run" where
  "locate_leaf_with_prefix sp a root leaf_index = uncached (locate_leaf_with_prefix_shared (\<lambda>_. True) sp a root leaf_index)"

definition additive_at :: "('s \<Rightarrow> nat) \<Rightarrow> 's \<Rightarrow> 's \<Rightarrow> 's \<Rightarrow> bool" where
  "additive_at metric left right whole =
     (case checked_add (metric left) (metric right) of None \<Rightarrow> False | Some both \<Rightarrow> both = metric whole)"

primrec locate_metric_loop :: "(alloc_request \<Rightarrow> bool) \<Rightarrow> ('s, 'e) sequence_spec \<Rightarrow> page_arena \<Rightarrow> ('s \<Rightarrow> nat) \<Rightarrow> nat \<Rightarrow> arena_id \<Rightarrow>
    's sequence_measure \<Rightarrow> nat \<Rightarrow> nat \<Rightarrow> 's option \<Rightarrow> ('s read_state, 'e, 's located_leaf option) seq_run" where
  "locate_metric_loop mem sp a metric 0 h expected local_position ordinal prefix =
     seq_err (invalid sp ''sequence metric descent exceeded its AVL height'')"
| "locate_metric_loop mem sp a metric (Suc turns) h expected local_position ordinal prefix =
     seq_do (sequence_node_shared mem sp a h) (\<lambda>node.
     if dn_measure node \<noteq> expected then seq_err (invalid sp ''sequence child measure changed during metric descent'')
     else case dn_kind node of
       NodeLeaf \<Rightarrow>
         let leaf_metric = metric (sm_summary (dn_measure node)) in
         if leaf_metric = 0 \<or> local_position \<ge> leaf_metric
         then seq_err (invalid sp ''sequence metric descent reached an invalid leaf'')
         else seq_ok (Some \<lparr>ll_id = h, ll_ordinal = ordinal, ll_summary = sm_summary (dn_measure node), ll_prefix = prefix\<rparr>)
     | NodeBranch left left_measure right right_measure \<Rightarrow>
         if \<not> additive_at metric (sm_summary left_measure) (sm_summary right_measure) (sm_summary (dn_measure node))
         then seq_err (invalid sp ''sequence metric projection is not additive'')
         else if local_position < metric (sm_summary left_measure)
         then locate_metric_loop mem sp a metric turns left left_measure local_position ordinal prefix
         else case checked_sub local_position (metric (sm_summary left_measure)) of
           None \<Rightarrow> seq_err (invalid sp ''sequence metric position underflow'')
         | Some rest \<Rightarrow>
             (case checked_add ordinal (sm_leaves left_measure) of
                None \<Rightarrow> seq_err (invalid sp ''sequence ordinal overflow'')
              | Some right_ordinal \<Rightarrow>
                  seq_do (seq_on_fst (extend_prefix sp prefix (sm_summary left_measure))) (\<lambda>p.
                  locate_metric_loop mem sp a metric turns right right_measure rest right_ordinal (Some p))))"

definition locate_leaf_containing_metric_shared :: "(alloc_request \<Rightarrow> bool) \<Rightarrow> ('s, 'e) sequence_spec \<Rightarrow> page_arena \<Rightarrow>
    arena_id option \<Rightarrow> nat \<Rightarrow> ('s \<Rightarrow> nat) \<Rightarrow> ('s read_state, 'e, 's located_leaf option) seq_run" where
  "locate_leaf_containing_metric_shared mem sp a root position metric =
     (case root of
        None \<Rightarrow> seq_ok None
      | Some h \<Rightarrow>
          seq_do (sequence_node_shared mem sp a h) (\<lambda>node.
          if position \<ge> metric (sm_summary (dn_measure node)) then seq_ok None
          else locate_metric_loop mem sp a metric (sm_height (dn_measure node)) h (dn_measure node) position 0 None))"

definition locate_leaf_containing_metric :: "('s, 'e) sequence_spec \<Rightarrow> page_arena \<Rightarrow> arena_id option \<Rightarrow> nat \<Rightarrow> ('s \<Rightarrow> nat) \<Rightarrow>
    (inspection_receipt, 'e, 's located_leaf option) seq_run" where
  "locate_leaf_containing_metric sp a root position metric =
     uncached (locate_leaf_containing_metric_shared (\<lambda>_. True) sp a root position metric)"

subsection \<open>A monotone partition\<close>

text \<open>
  \<^verbatim>\<open>locate_leaf_by_monotone_summary_inner\<close>: the state is the read state and what has been accumulated. The predicate
  is a pure function of the summary.
\<close>

type_synonym 's partition_state = "'s read_state \<times> 's option"

definition partition_candidate :: "('s, 'e) sequence_spec \<Rightarrow> partition_direction \<Rightarrow> 's \<Rightarrow> ('s partition_state, 'e, 's) seq_run" where
  "partition_candidate sp direction summary t =
     (case snd t of
        None \<Rightarrow> seq_ok summary t
      | Some acc \<Rightarrow>
          seq_do (seq_on_fst (seq_on_fst (count_combination sp ''sequence partition combination count overflow'')))
            (\<lambda>_. seq_result (case direction of Forward \<Rightarrow> spec_combine sp acc summary | Reverse \<Rightarrow> spec_combine sp summary acc)) t)"

text \<open>Whether to descend: a covered subtree that does not cross is taken whole.\<close>

definition partition_test :: "('s, 'e) sequence_spec \<Rightarrow> partition_direction \<Rightarrow> ('s \<Rightarrow> 'e + bool) \<Rightarrow> bool \<Rightarrow> 's \<Rightarrow>
    ('s partition_state, 'e, bool) seq_run" where
  "partition_test sp direction predicate fully_covered summary =
     (if fully_covered
      then seq_do (partition_candidate sp direction summary) (\<lambda>candidate.
           seq_do (seq_result (predicate candidate)) (\<lambda>crossed t.
           if crossed then seq_ok True t else seq_ok False (fst t, Some candidate)))
      else seq_ok True)"

partial_function (option) locate_leaf_by_monotone_summary_inner ::
    "(alloc_request \<Rightarrow> bool) \<Rightarrow> ('s, 'e) sequence_spec \<Rightarrow> page_arena \<Rightarrow> nat \<Rightarrow> nat \<Rightarrow> partition_direction \<Rightarrow> ('s \<Rightarrow> 'e + bool) \<Rightarrow>
     arena_id \<Rightarrow> 's sequence_measure \<Rightarrow> nat \<Rightarrow> 's partition_state \<Rightarrow> (('e + 's located_partition option) \<times> 's partition_state) option" where
  "locate_leaf_by_monotone_summary_inner mem sp a range_start range_end direction predicate h expected start t =
     (case checked_add start (sm_leaves expected) of
        None \<Rightarrow> seq_err (invalid sp ''sequence partition boundary overflow'') t
      | Some stop \<Rightarrow>
          if range_end \<le> start \<or> range_start \<ge> stop then seq_ok None t
          else
            let fully_covered = (range_start \<le> start \<and> stop \<le> range_end) in
            seq_do (partition_test sp direction predicate fully_covered (sm_summary expected)) (\<lambda>descend t.
            if \<not> descend then seq_ok None t
            else
              seq_do (seq_on_fst (sequence_node_shared mem sp a h)) (\<lambda>node t.
              if dn_measure node \<noteq> expected then seq_err (invalid sp ''sequence child measure changed during summary partition'') t
              else case dn_kind node of
                NodeLeaf \<Rightarrow>
                  if \<not> fully_covered then seq_err (invalid sp ''sequence summary partition terminated inside a leaf'') t
                  else seq_ok (Some \<lparr>lp_id = h, lp_ordinal = start, lp_summary = sm_summary expected, lp_accumulated = snd t\<rparr>) t
              | NodeBranch left left_measure right right_measure \<Rightarrow>
                  (case checked_add start (sm_leaves left_measure) of
                     None \<Rightarrow> seq_err (invalid sp ''sequence partition boundary overflow'') t
                   | Some right_start \<Rightarrow>
                       if direction = Forward then
                         seq_do (locate_leaf_by_monotone_summary_inner mem sp a range_start range_end direction predicate
                                   left left_measure start) (\<lambda>found t.
                         if found \<noteq> None then seq_ok found t
                         else locate_leaf_by_monotone_summary_inner mem sp a range_start range_end direction predicate
                                right right_measure right_start t) t
                       else
                         seq_do (locate_leaf_by_monotone_summary_inner mem sp a range_start range_end direction predicate
                                   right right_measure right_start) (\<lambda>found t.
                         if found \<noteq> None then seq_ok found t
                         else locate_leaf_by_monotone_summary_inner mem sp a range_start range_end direction predicate
                                left left_measure start t) t)) t) t)"

text \<open>The cell of \<^verbatim>\<open>accumulated\<close> lives for one call.\<close>

definition partitioning :: "('s partition_state, 'e, 'a) seq_run \<Rightarrow> ('s read_state, 'e, 'a) seq_run" where
  "partitioning m t = (case m (t, None) of None \<Rightarrow> None | Some (r, u) \<Rightarrow> Some (r, fst u))"

definition locate_leaf_by_monotone_summary_shared :: "(alloc_request \<Rightarrow> bool) \<Rightarrow> ('s, 'e) sequence_spec \<Rightarrow> page_arena \<Rightarrow>
    arena_id option \<Rightarrow> nat \<Rightarrow> nat \<Rightarrow> partition_direction \<Rightarrow> ('s \<Rightarrow> 'e + bool) \<Rightarrow>
    ('s read_state, 'e, 's located_partition option) seq_run" where
  "locate_leaf_by_monotone_summary_shared mem sp a root range_start range_end direction predicate =
     (if range_start > range_end then seq_err (invalid sp ''sequence partition range is reversed'')
      else if range_start = range_end then seq_ok None
      else case root of
        None \<Rightarrow> seq_err (invalid sp ''nonempty partition requested from empty sequence'')
      | Some h \<Rightarrow>
          seq_do (sequence_node_shared mem sp a h) (\<lambda>node.
          if range_end > sm_leaves (dn_measure node) then seq_err (invalid sp ''sequence partition range exceeds its root'')
          else partitioning (locate_leaf_by_monotone_summary_inner mem sp a range_start range_end direction predicate
                               h (dn_measure node) 0)))"

definition locate_leaf_by_monotone_summary :: "('s, 'e) sequence_spec \<Rightarrow> page_arena \<Rightarrow> arena_id option \<Rightarrow> nat \<Rightarrow> nat \<Rightarrow>
    partition_direction \<Rightarrow> ('s \<Rightarrow> 'e + bool) \<Rightarrow> (inspection_receipt, 'e, 's located_partition option) seq_run" where
  "locate_leaf_by_monotone_summary sp a root range_start range_end direction predicate =
     uncached (locate_leaf_by_monotone_summary_shared (\<lambda>_. True) sp a root range_start range_end direction predicate)"

subsection \<open>Visiting leaves in order\<close>

text \<open>
  The visitor is a function on a state of its own. The fixed array of deferred right siblings with its length is a stack.
\<close>

definition call_visitor :: "('s located_leaf \<Rightarrow> 'v \<Rightarrow> ('e + visit_control) \<times> 'v) \<Rightarrow> 's located_leaf \<Rightarrow>
    (inspection_receipt \<times> 'v, 'e, visit_control) seq_run" where
  "call_visitor visitor leaf t = (case visitor leaf (snd t) of (r, v) \<Rightarrow> Some (r, fst t, v))"

partial_function (option) visit_loop :: "('s, 'e) sequence_spec \<Rightarrow> page_arena \<Rightarrow> ('s \<Rightarrow> nat) \<Rightarrow>
    ('s located_leaf \<Rightarrow> 'v \<Rightarrow> ('e + visit_control) \<times> 'v) \<Rightarrow> 's pending_subtree list \<Rightarrow> 's pending_subtree \<Rightarrow> nat option \<Rightarrow> nat \<Rightarrow>
    inspection_receipt \<times> 'v \<Rightarrow> (('e + visit_receipt) \<times> inspection_receipt \<times> 'v) option" where
  "visit_loop sp a metric visitor pending current local_position visited t =
     seq_do (seq_on_fst (sequence_node sp a (ps_id current))) (\<lambda>node t.
     if dn_measure node \<noteq> ps_expected current then seq_err (invalid sp ''sequence child measure changed during ordered visit'') t
     else case dn_kind node of
       NodeLeaf \<Rightarrow>
         let leaf_metric = metric (sm_summary (dn_measure node)) in
         if leaf_metric = 0 \<or> (case local_position of None \<Rightarrow> False | Some position \<Rightarrow> position \<ge> leaf_metric)
         then seq_err (invalid sp ''sequence ordered visit reached an invalid leaf'') t
         else (case checked_add visited 1 of
                 None \<Rightarrow> seq_err (invalid sp ''sequence leaf visit count overflow'') t
               | Some visited \<Rightarrow>
                   seq_do (call_visitor visitor \<lparr>ll_id = ps_id current, ll_ordinal = ps_ordinal current,
                       ll_summary = sm_summary (dn_measure node), ll_prefix = ps_prefix current\<rparr>) (\<lambda>control t.
                   if control = Stop then seq_ok \<lparr>leaves_visited = visited, visitor_stopped = True\<rparr> t
                   else case pending of
                     [] \<Rightarrow> seq_ok \<lparr>leaves_visited = visited, visitor_stopped = False\<rparr> t
                   | following # rest \<Rightarrow> visit_loop sp a metric visitor rest following None visited t) t)
     | NodeBranch left left_measure right right_measure \<Rightarrow>
         if \<not> additive_at metric (sm_summary left_measure) (sm_summary right_measure) (sm_summary (dn_measure node))
         then seq_err (invalid sp ''sequence ordered-visit metric is not additive'') t
         else (case checked_add (ps_ordinal current) (sm_leaves left_measure) of
                 None \<Rightarrow> seq_err (invalid sp ''sequence ordinal overflow'') t
               | Some right_ordinal \<Rightarrow>
                   seq_do (seq_on_fst (extend_prefix sp (ps_prefix current) (sm_summary left_measure))) (\<lambda>p t.
                   let second = \<lparr>ps_id = right, ps_expected = right_measure, ps_ordinal = right_ordinal, ps_prefix = Some p\<rparr>;
                       first = current\<lparr>ps_id := left, ps_expected := left_measure\<rparr>;
                       left_metric = metric (sm_summary left_measure)
                   in if (case local_position of None \<Rightarrow> False | Some position \<Rightarrow> position \<ge> left_metric)
                      then visit_loop sp a metric visitor pending second
                             (map_option (\<lambda>position. position - left_metric) local_position) visited t
                      else if length pending \<ge> MAX_SEQUENCE_AVL_HEIGHT
                      then seq_err (invalid sp ''sequence ordered visit exceeded its AVL stack'') t
                      else visit_loop sp a metric visitor (second # pending) first local_position visited t) t)) t"

definition visit_leaves_from_metric :: "('s, 'e) sequence_spec \<Rightarrow> page_arena \<Rightarrow> arena_id option \<Rightarrow> nat \<Rightarrow> ('s \<Rightarrow> nat) \<Rightarrow>
    ('s located_leaf \<Rightarrow> 'v \<Rightarrow> ('e + visit_control) \<times> 'v) \<Rightarrow> (inspection_receipt \<times> 'v, 'e, visit_receipt) seq_run" where
  "visit_leaves_from_metric sp a root position metric visitor =
     (case root of
        None \<Rightarrow>
          if position = 0 then seq_ok \<lparr>leaves_visited = 0, visitor_stopped = False\<rparr>
          else seq_err (invalid sp ''nonzero metric position requested from empty sequence'')
      | Some h \<Rightarrow>
          seq_do (seq_on_fst (sequence_node sp a h)) (\<lambda>node.
          let whole = metric (sm_summary (dn_measure node)) in
          if whole = 0 then seq_err (invalid sp ''sequence visitor metric is empty for a nonempty root'')
          else if position > whole then seq_err (invalid sp ''sequence visitor metric position exceeds its root'')
          else if position = whole then seq_ok \<lparr>leaves_visited = 0, visitor_stopped = False\<rparr>
          else visit_loop sp a metric visitor []
                 \<lparr>ps_id = h, ps_expected = dn_measure node, ps_ordinal = 0, ps_prefix = None\<rparr> (Some position) 0))"

end
