(* ===== verification/Flark_Green.thy ===== *)
theory Flark_Green
  imports Flark_Sequence Flark_Mersenne
begin

text \<open>
  The event and page codec of the V4 engine's recursive green storage, \<^verbatim>\<open>flark_engine/src/recursive_green/codec.rs\<close>: the packed
  events of a document, their summaries with the polynomial commitment, and the pages of the measured sequence that stores them.

  An encoder runs on the output slice and its cursor, a decoder on the cursor into its input. Every \<^verbatim>\<open>u64\<close>, \<^verbatim>\<open>u32\<close>, \<^verbatim>\<open>u16\<close> and \<^verbatim>\<open>u8\<close> of a
  value is a natural number below its bound, every \<^verbatim>\<open>i64\<close> an integer, with the check written at each addition that has one; the lanes of a
  commitment are 64-bit words. The digest \<^verbatim>\<open>blake3\<close> is a parameter: a function from the hashed bytes to its thirty-two bytes.
\<close>

subsection \<open>Errors\<close>

text \<open>\<^verbatim>\<open>M11RecursiveGreenError\<close>, less the errors of the document and its source, which the codec never makes.\<close>

datatype green_error =
    ZeroFuel | PollLimitExceeded | InvalidState | InputClosed | EventAlreadyPending | InvalidEvent | IncompleteCoverage | InvalidPoint
  | WrongRuntime | SourceAuthorityMismatch | CounterOverflow | Corrupt string | GreenArena arena_error

type_synonym 'a green_result = "green_error + 'a"

text \<open>The operator \<^verbatim>\<open>?\<close> on a result.\<close>

definition and_ok :: "'a green_result \<Rightarrow> ('a \<Rightarrow> 'b green_result) \<Rightarrow> 'b green_result" where
  "and_ok r f = (case r of Inl e \<Rightarrow> Inl e | Inr x \<Rightarrow> f x)"

lemma and_ok_simps [simp]: "and_ok (Inl e) f = Inl e" "and_ok (Inr x) f = f x"
  by (simp_all add: and_ok_def)

lemma and_ok_Inr: "and_ok r f = Inr y \<longleftrightarrow> (\<exists>x. r = Inr x \<and> f x = Inr y)"
  by (cases r) simp_all

definition ok_or :: "'a option \<Rightarrow> green_error \<Rightarrow> 'a green_result" where
  "ok_or r e = (case r of None \<Rightarrow> Inl e | Some x \<Rightarrow> Inr x)"

lemma ok_or_simps [simp]: "ok_or None e = Inl e" "ok_or (Some x) e = Inr x" "ok_or r e = Inr y \<longleftrightarrow> r = Some y"
  by (simp_all add: ok_or_def split: option.splits)

subsection \<open>Values of an event\<close>

definition GREEN_EVENTS_PER_PAGE_MAX :: nat where "GREEN_EVENTS_PER_PAGE_MAX = 512"
definition PROPERTY_CHUNK_MAX_BYTES :: nat where "PROPERTY_CHUNK_MAX_BYTES = 32"
definition CLOSE_FACTS_MAX_BYTES :: nat where "CLOSE_FACTS_MAX_BYTES = 64"

text \<open>A frame identity, a kind and a fact tag are nonzero.\<close>

definition frame_id_new :: "nat \<Rightarrow> nat option" where
  "frame_id_new v = (if v = 0 then None else Some v)"

definition kind_new :: "nat \<Rightarrow> nat option" where
  "kind_new v = (if v = 0 then None else Some v)"

definition fact_tag_new :: "nat \<Rightarrow> nat option" where
  "fact_tag_new v = (if v = 0 then None else Some v)"

record source_metric =
  mt_bytes :: nat
  mt_utf16 :: nat

definition source_metric_new :: "nat \<Rightarrow> nat \<Rightarrow> source_metric option" where
  "source_metric_new bytes utf16 =
     (if bytes < utf16 \<or> (bytes = 0) \<noteq> (utf16 = 0) then None else Some \<lparr>mt_bytes = bytes, mt_utf16 = utf16\<rparr>)"

definition metric_is_empty :: "source_metric \<Rightarrow> bool" where
  "metric_is_empty m = (mt_bytes m = 0)"

text \<open>A property chunk and close facts: the bytes of the array up to its length.\<close>

record fact_bytes =
  fact_tag :: nat
  as_bytes :: bytes

definition property_chunk_new :: "nat \<Rightarrow> bytes \<Rightarrow> fact_bytes green_result" where
  "property_chunk_new tag bytes =
     (if bytes = [] \<or> length bytes > PROPERTY_CHUNK_MAX_BYTES then Inl InvalidEvent else Inr \<lparr>fact_tag = tag, as_bytes = bytes\<rparr>)"

definition close_facts_new :: "nat \<Rightarrow> bytes \<Rightarrow> fact_bytes green_result" where
  "close_facts_new tag bytes =
     (if bytes = [] \<or> length bytes > CLOSE_FACTS_MAX_BYTES then Inl InvalidEvent else Inr \<lparr>fact_tag = tag, as_bytes = bytes\<rparr>)"

datatype row_edit_capability = Contiguous | Unavailable

record row_editable =
  cr_capability :: row_edit_capability
  cr_start :: source_metric
  cr_end :: source_metric

definition cached_row_editable_new :: "row_edit_capability \<Rightarrow> source_metric \<Rightarrow> source_metric \<Rightarrow> row_editable option" where
  "cached_row_editable_new c start finish =
     (if mt_bytes start > mt_bytes finish \<or> mt_utf16 start > mt_utf16 finish then None
      else Some \<lparr>cr_capability = c, cr_start = start, cr_end = finish\<rparr>)"

datatype coverage_part = PartContent | PartContainerMarker | PartBlockMarker | PartGap | PartTerminal

definition part_code :: "coverage_part \<Rightarrow> nat" where
  "part_code p = (case p of PartContent \<Rightarrow> 1 | PartContainerMarker \<Rightarrow> 2 | PartBlockMarker \<Rightarrow> 3 | PartGap \<Rightarrow> 4 | PartTerminal \<Rightarrow> 5)"

definition part_decode :: "nat \<Rightarrow> coverage_part green_result" where
  "part_decode v =
     (if v = 1 then Inr PartContent else if v = 2 then Inr PartContainerMarker else if v = 3 then Inr PartBlockMarker
      else if v = 4 then Inr PartGap else if v = 5 then Inr PartTerminal else Inl (Corrupt ''unknown coverage part''))"

datatype logical_action =
    ActionNone | ActionIdentity | CanonicalText | PartialTab nat nat | ActionHiddenUpstream | CanonicalNewline

definition logical_action_validate :: "logical_action \<Rightarrow> nat \<Rightarrow> unit green_result" where
  "logical_action_validate action physical_owner_depth =
     (case action of
        PartialTab target_owner_depth remaining_spaces \<Rightarrow>
          if \<not> (1 \<le> remaining_spaces \<and> remaining_spaces \<le> 3) \<or> target_owner_depth > physical_owner_depth then Inl InvalidEvent else Inr ()
      | _ \<Rightarrow> Inr ())"

record closed_child =
  cc_ends_blank :: bool
  cc_loose_if_nonlast :: bool
  cc_loose_if_last :: bool

record child_fold =
  had_child :: bool
  any_nonlast_child_ends_blank :: bool
  last_child_ends_blank :: bool
  list_loose_before_last :: bool
  last_item_loose_if_nonlast :: bool
  last_item_loose_if_last :: bool

definition child_fold_default :: child_fold where
  "child_fold_default = \<lparr>had_child = False, any_nonlast_child_ends_blank = False, last_child_ends_blank = False,
     list_loose_before_last = False, last_item_loose_if_nonlast = False, last_item_loose_if_last = False\<rparr>"

definition child_fold_push :: "child_fold \<Rightarrow> closed_child \<Rightarrow> child_fold" where
  "child_fold_push f child =
     (let f = (if had_child f
               then f\<lparr>any_nonlast_child_ends_blank := any_nonlast_child_ends_blank f \<or> last_child_ends_blank f,
                      list_loose_before_last := list_loose_before_last f \<or> last_item_loose_if_nonlast f\<rparr>
               else f)
      in f\<lparr>had_child := True, last_child_ends_blank := cc_ends_blank child, last_item_loose_if_nonlast := cc_loose_if_nonlast child,
           last_item_loose_if_last := cc_loose_if_last child\<rparr>)"

definition child_fold_followed_by :: "child_fold \<Rightarrow> child_fold \<Rightarrow> child_fold" where
  "child_fold_followed_by f suffix =
     (if \<not> had_child f then suffix
      else if \<not> had_child suffix then f
      else \<lparr>had_child = True,
            any_nonlast_child_ends_blank = any_nonlast_child_ends_blank f \<or> last_child_ends_blank f \<or> any_nonlast_child_ends_blank suffix,
            last_child_ends_blank = last_child_ends_blank suffix,
            list_loose_before_last = list_loose_before_last f \<or> last_item_loose_if_nonlast f \<or> list_loose_before_last suffix,
            last_item_loose_if_nonlast = last_item_loose_if_nonlast suffix,
            last_item_loose_if_last = last_item_loose_if_last suffix\<rparr>)"

definition list_is_tight :: "child_fold \<Rightarrow> bool" where
  "list_is_tight f = (\<not> (list_loose_before_last f \<or> last_item_loose_if_last f))"

datatype logical_atom =
    AtomNone | AtomIdentity | TabToSpaces nat nat | HiddenUpstream | LfToLf | CrLfToLf | LoneCrToLf | NulToReplacement

definition logical_metric :: "logical_atom \<Rightarrow> source_metric \<Rightarrow> source_metric" where
  "logical_metric atom physical =
     (case atom of
        AtomNone \<Rightarrow> \<lparr>mt_bytes = 0, mt_utf16 = 0\<rparr>
      | HiddenUpstream \<Rightarrow> \<lparr>mt_bytes = 0, mt_utf16 = 0\<rparr>
      | AtomIdentity \<Rightarrow> physical
      | TabToSpaces _ spaces \<Rightarrow> \<lparr>mt_bytes = spaces, mt_utf16 = spaces\<rparr>
      | LfToLf \<Rightarrow> \<lparr>mt_bytes = 1, mt_utf16 = 1\<rparr>
      | CrLfToLf \<Rightarrow> \<lparr>mt_bytes = 1, mt_utf16 = 1\<rparr>
      | LoneCrToLf \<Rightarrow> \<lparr>mt_bytes = 1, mt_utf16 = 1\<rparr>
      | NulToReplacement \<Rightarrow> \<lparr>mt_bytes = 3, mt_utf16 = 1\<rparr>)"

datatype packed_event =
    PackedEnter nat nat
  | PackedProperty fact_bytes
  | PackedCoverage source_metric nat coverage_part logical_atom
  | PackedRetypeOpen nat nat "fact_bytes option"
  | PackedExit nat nat "fact_bytes option" bool closed_child

definition validate_atom :: "logical_atom \<Rightarrow> source_metric \<Rightarrow> unit green_result" where
  "validate_atom atom physical =
     (let valid = (case atom of
         AtomNone \<Rightarrow> True | AtomIdentity \<Rightarrow> True | HiddenUpstream \<Rightarrow> True
       | TabToSpaces _ spaces \<Rightarrow> physical = \<lparr>mt_bytes = 1, mt_utf16 = 1\<rparr> \<and> 1 \<le> spaces \<and> spaces \<le> 3
       | LfToLf \<Rightarrow> physical = \<lparr>mt_bytes = 1, mt_utf16 = 1\<rparr>
       | LoneCrToLf \<Rightarrow> physical = \<lparr>mt_bytes = 1, mt_utf16 = 1\<rparr>
       | NulToReplacement \<Rightarrow> physical = \<lparr>mt_bytes = 1, mt_utf16 = 1\<rparr>
       | CrLfToLf \<Rightarrow> physical = \<lparr>mt_bytes = 2, mt_utf16 = 2\<rparr>)
      in if valid then Inr () else Inl (Corrupt ''invalid logical atom geometry''))"

definition is_renderable_row_kind :: "nat \<Rightarrow> bool" where
  "is_renderable_row_kind kind = (kind \<in> {5, 6, 7, 8, 12, 13, 14, 15})"

subsection \<open>Writing and reading\<close>

unbundle bit_operations_syntax

type_synonym green_writer = "(bytes \<times> nat, green_error, unit) seq_run"

type_synonym 'a green_reader = "bytes \<Rightarrow> (nat, green_error, 'a) seq_run"

text \<open>\<^verbatim>\<open>to_le_bytes\<close> and \<^verbatim>\<open>from_le_bytes\<close> of an unsigned integer of any width.\<close>

definition le_bytes :: "nat \<Rightarrow> nat \<Rightarrow> bytes" where
  "le_bytes width v = map (\<lambda>k. char_of (v div 256 ^ k)) [0..<width]"

definition of_le_bytes :: "bytes \<Rightarrow> nat" where
  "of_le_bytes bs = foldr (\<lambda>b n. bval b + 256 * n) bs 0"

definition write_bytes :: "bytes \<Rightarrow> green_writer" where
  "write_bytes bs t =
     (case checked_add (snd t) (length bs) of
        None \<Rightarrow> Some (Inl CounterOverflow, t)
      | Some finish \<Rightarrow>
          if finish > length (fst t) then Some (Inl (Corrupt ''recursive-green encoding exceeds page''), t)
          else Some (Inr (), take (snd t) (fst t) @ bs @ drop finish (fst t), finish))"

definition read_bytes :: "nat \<Rightarrow> bytes green_reader" where
  "read_bytes len input c =
     (case checked_add c len of
        None \<Rightarrow> Some (Inl CounterOverflow, c)
      | Some finish \<Rightarrow>
          if finish > length input then Some (Inl (Corrupt ''recursive-green payload is truncated''), c)
          else Some (Inr (take len (drop c input)), finish))"

definition write_u8 :: "nat \<Rightarrow> green_writer" where "write_u8 v = write_bytes [char_of v]"
definition write_u16 :: "nat \<Rightarrow> green_writer" where "write_u16 v = write_bytes (le_bytes 2 v)"
definition write_u32 :: "nat \<Rightarrow> green_writer" where "write_u32 v = write_bytes (le_bytes 4 v)"
definition write_u64 :: "nat \<Rightarrow> green_writer" where "write_u64 v = write_bytes (le_bytes 8 v)"

definition write_i64 :: "int \<Rightarrow> green_writer" where
  "write_i64 v = write_bytes (le_bytes 8 (nat (v mod 2 ^ 64)))"

lemma drop_seven [termination_simp]: "drop_bit 7 (v :: nat) = v div 128"
  by (simp add: drop_bit_eq_div)

fun var_u64_len :: "nat \<Rightarrow> nat" where
  "var_u64_len v = (if v \<ge> 0x80 then var_u64_len (drop_bit 7 v) + 1 else 1)"

fun write_var_u64 :: "nat \<Rightarrow> green_writer" where
  "write_var_u64 v =
     (let byte = v AND 0x7F; rest = drop_bit 7 v in
      if rest \<noteq> 0 then seq_do (write_u8 (byte OR 0x80)) (\<lambda>_. write_var_u64 rest) else write_u8 byte)"

definition read_u8 :: "nat green_reader" where
  "read_u8 input = seq_do (read_bytes 1 input) (\<lambda>bs. seq_ok (of_le_bytes bs))"

definition read_u16 :: "nat green_reader" where
  "read_u16 input = seq_do (read_bytes 2 input) (\<lambda>bs. seq_ok (of_le_bytes bs))"

definition read_u32 :: "nat green_reader" where
  "read_u32 input = seq_do (read_bytes 4 input) (\<lambda>bs. seq_ok (of_le_bytes bs))"

definition read_u64 :: "nat green_reader" where
  "read_u64 input = seq_do (read_bytes 8 input) (\<lambda>bs. seq_ok (of_le_bytes bs))"

definition to_i64 :: "nat \<Rightarrow> int" where
  "to_i64 n = (if n < 2 ^ 63 then int n else int n - 2 ^ 64)"

definition read_i64 :: "int green_reader" where
  "read_i64 input = seq_do (read_bytes 8 input) (\<lambda>bs. seq_ok (to_i64 (of_le_bytes bs)))"

text \<open>The loop of \<^verbatim>\<open>read_var_u64\<close> from an index on.\<close>

function read_var_from :: "bytes \<Rightarrow> nat \<Rightarrow> nat \<Rightarrow> (nat, green_error, nat) seq_run" where
  "read_var_from input index v =
     (if index \<ge> 10 then seq_err (Corrupt ''recursive-green varint is unterminated'')
      else seq_do (read_u8 input) (\<lambda>byte.
        if index = 9 \<and> byte > 1 then seq_err (Corrupt ''recursive-green varint overflows u64'')
        else let v' = v OR push_bit (index * 7) (byte AND 0x7F) in
          if byte AND 0x80 = 0 then
            if var_u64_len v' \<noteq> index + 1 then seq_err (Corrupt ''recursive-green varint is not minimally encoded'')
            else seq_ok v'
          else read_var_from input (index + 1) v'))"
  by pat_completeness auto
termination by (relation "measure (\<lambda>(input, index, v). 10 - index)") auto

definition read_var_u64 :: "nat green_reader" where
  "read_var_u64 input = read_var_from input 0 0"

definition read_var_u32 :: "nat green_reader" where
  "read_var_u32 input = seq_do (read_var_u64 input) (\<lambda>v.
     if v < 2 ^ 32 then seq_ok v else seq_err (Corrupt ''recursive-green varint overflows u32''))"

definition read_var_u16 :: "nat green_reader" where
  "read_var_u16 input = seq_do (read_var_u64 input) (\<lambda>v.
     if v < 2 ^ 16 then seq_ok v else seq_err (Corrupt ''recursive-green varint overflows u16''))"

definition decode_frame :: "nat \<Rightarrow> nat green_result" where
  "decode_frame v = ok_or (frame_id_new v) (Corrupt ''zero frame id'')"

definition decode_kind :: "nat \<Rightarrow> nat green_result" where
  "decode_kind v = ok_or (kind_new v) (Corrupt ''zero kind'')"

definition decode_tag :: "nat \<Rightarrow> nat green_result" where
  "decode_tag v = ok_or (fact_tag_new v) (Corrupt ''zero fact tag'')"

definition decode_metric :: "nat \<Rightarrow> nat \<Rightarrow> source_metric green_result" where
  "decode_metric bytes utf16 =
     ok_or (Option.bind (source_metric_new bytes utf16) (\<lambda>m. if metric_is_empty m then None else Some m)) (Corrupt ''invalid source metric'')"

subsection \<open>Events\<close>

definition atom_extra_len :: "logical_atom \<Rightarrow> nat" where
  "atom_extra_len atom = (case atom of TabToSpaces target_owner_depth _ \<Rightarrow> 1 + var_u64_len target_owner_depth | _ \<Rightarrow> 0)"

definition packed_event_len :: "packed_event \<Rightarrow> nat" where
  "packed_event_len event =
     (case event of
        PackedEnter frame kind \<Rightarrow> 1 + var_u64_len frame + var_u64_len kind
      | PackedProperty p \<Rightarrow> 4 + length (as_bytes p)
      | PackedCoverage physical owner_depth _ atom \<Rightarrow>
          3 + var_u64_len (mt_bytes physical) + var_u64_len (mt_utf16 physical) + var_u64_len owner_depth + atom_extra_len atom
      | PackedRetypeOpen frame kind p \<Rightarrow>
          2 + var_u64_len frame + var_u64_len kind + (case p of None \<Rightarrow> 0 | Some p \<Rightarrow> 3 + length (as_bytes p))
      | PackedExit frame final_kind close _ _ \<Rightarrow>
          4 + var_u64_len frame + var_u64_len final_kind + (case close of None \<Rightarrow> 0 | Some facts \<Rightarrow> 3 + length (as_bytes facts)))"

definition encode_property :: "fact_bytes \<Rightarrow> green_writer" where
  "encode_property p =
     seq_do (write_u16 (fact_tag p)) (\<lambda>_. seq_do (write_u8 (length (as_bytes p))) (\<lambda>_. write_bytes (as_bytes p)))"

definition encode_close :: "fact_bytes \<Rightarrow> green_writer" where
  "encode_close facts =
     seq_do (write_u16 (fact_tag facts)) (\<lambda>_. seq_do (write_u8 (length (as_bytes facts))) (\<lambda>_. write_bytes (as_bytes facts)))"

definition atom_tag :: "logical_atom \<Rightarrow> nat" where
  "atom_tag atom = (case atom of AtomNone \<Rightarrow> 0 | AtomIdentity \<Rightarrow> 1 | TabToSpaces _ _ \<Rightarrow> 2 | HiddenUpstream \<Rightarrow> 3 | LfToLf \<Rightarrow> 4
     | CrLfToLf \<Rightarrow> 5 | LoneCrToLf \<Rightarrow> 6 | NulToReplacement \<Rightarrow> 7)"

definition encode_atom :: "logical_atom \<Rightarrow> green_writer" where
  "encode_atom atom =
     seq_do (write_u8 (atom_tag atom)) (\<lambda>_.
       case atom of TabToSpaces target_owner_depth spaces \<Rightarrow> seq_do (write_var_u64 target_owner_depth) (\<lambda>_. write_u8 spaces)
       | _ \<Rightarrow> seq_ok ())"

definition encode_packed_event :: "packed_event \<Rightarrow> green_writer" where
  "encode_packed_event event =
     (case event of
        PackedEnter frame kind \<Rightarrow>
          seq_do (write_u8 1) (\<lambda>_. seq_do (write_var_u64 frame) (\<lambda>_. write_var_u64 kind))
      | PackedProperty p \<Rightarrow> seq_do (write_u8 2) (\<lambda>_. encode_property p)
      | PackedCoverage physical owner_depth part atom \<Rightarrow>
          seq_do (seq_result (validate_atom atom physical)) (\<lambda>_.
          seq_do (write_u8 3) (\<lambda>_.
          seq_do (write_var_u64 (mt_bytes physical)) (\<lambda>_.
          seq_do (write_var_u64 (mt_utf16 physical)) (\<lambda>_.
          seq_do (write_var_u64 owner_depth) (\<lambda>_.
          seq_do (write_u8 (part_code part)) (\<lambda>_.
          encode_atom atom))))))
      | PackedRetypeOpen frame kind p \<Rightarrow>
          seq_do (write_u8 4) (\<lambda>_.
          seq_do (write_var_u64 frame) (\<lambda>_.
          seq_do (write_var_u64 kind) (\<lambda>_.
          seq_do (write_u8 (of_bool (p \<noteq> None))) (\<lambda>_.
          case p of None \<Rightarrow> seq_ok () | Some p \<Rightarrow> encode_property p))))
      | PackedExit frame final_kind close last_line_blank child \<Rightarrow>
          seq_do (write_u8 5) (\<lambda>_.
          seq_do (write_var_u64 frame) (\<lambda>_.
          seq_do (write_var_u64 final_kind) (\<lambda>_.
          seq_do (write_u8 (of_bool (close \<noteq> None))) (\<lambda>_.
          seq_do (case close of None \<Rightarrow> seq_ok () | Some close \<Rightarrow> encode_close close) (\<lambda>_.
          seq_do (write_u8 (of_bool last_line_blank)) (\<lambda>_.
          write_u8 (of_bool (cc_ends_blank child) OR push_bit 1 (of_bool (cc_loose_if_nonlast child))
            OR push_bit 2 (of_bool (cc_loose_if_last child))))))))))"

definition decode_property :: "fact_bytes green_reader" where
  "decode_property input =
     seq_do (seq_do (read_u16 input) (\<lambda>v. seq_result (decode_tag v))) (\<lambda>tag.
     seq_do (read_u8 input) (\<lambda>len.
     seq_do (read_bytes len input) (\<lambda>bytes.
     case property_chunk_new tag bytes of Inl _ \<Rightarrow> seq_err (Corrupt ''invalid property chunk'') | Inr p \<Rightarrow> seq_ok p)))"

definition decode_close :: "fact_bytes green_reader" where
  "decode_close input =
     seq_do (seq_do (read_u16 input) (\<lambda>v. seq_result (decode_tag v))) (\<lambda>tag.
     seq_do (read_u8 input) (\<lambda>len.
     seq_do (read_bytes len input) (\<lambda>bytes.
     case close_facts_new tag bytes of Inl _ \<Rightarrow> seq_err (Corrupt ''invalid close facts'') | Inr p \<Rightarrow> seq_ok p)))"

definition decode_atom :: "logical_atom green_reader" where
  "decode_atom input =
     seq_do (read_u8 input) (\<lambda>tag.
       if tag = 0 then seq_ok AtomNone
       else if tag = 1 then seq_ok AtomIdentity
       else if tag = 2 then
         seq_do (read_var_u32 input) (\<lambda>target_owner_depth.
         seq_do (read_u8 input) (\<lambda>spaces. seq_ok (TabToSpaces target_owner_depth spaces)))
       else if tag = 3 then seq_ok HiddenUpstream
       else if tag = 4 then seq_ok LfToLf
       else if tag = 5 then seq_ok CrLfToLf
       else if tag = 6 then seq_ok LoneCrToLf
       else if tag = 7 then seq_ok NulToReplacement
       else seq_err (Corrupt ''unknown logical atom''))"

definition read_frame_kind :: "(nat \<times> nat) green_reader" where
  "read_frame_kind input =
     seq_do (seq_do (read_var_u64 input) (\<lambda>v. seq_result (decode_frame v))) (\<lambda>frame.
     seq_do (seq_do (read_var_u16 input) (\<lambda>v. seq_result (decode_kind v))) (\<lambda>kind.
     seq_ok (frame, kind)))"

definition read_flag :: "string \<Rightarrow> bool green_reader" where
  "read_flag message input =
     seq_do (read_u8 input) (\<lambda>flag. if flag = 0 then seq_ok False else if flag = 1 then seq_ok True else seq_err (Corrupt message))"

definition optionally :: "bool \<Rightarrow> 'a green_reader \<Rightarrow> 'a option green_reader" where
  "optionally present reader input = (if present then seq_do (reader input) (\<lambda>x. seq_ok (Some x)) else seq_ok None)"

text \<open>The arms of \<^verbatim>\<open>decode_packed_event\<close> with more than one part.\<close>

definition decode_coverage :: "packed_event green_reader" where
  "decode_coverage input =
     seq_do (read_var_u64 input) (\<lambda>bytes.
     seq_do (read_var_u64 input) (\<lambda>utf16.
     seq_do (seq_result (decode_metric bytes utf16)) (\<lambda>physical.
     seq_do (read_var_u32 input) (\<lambda>owner_depth.
     seq_do (seq_do (read_u8 input) (\<lambda>v. seq_result (part_decode v))) (\<lambda>part.
     seq_do (decode_atom input) (\<lambda>atom.
     seq_do (seq_result (validate_atom atom physical)) (\<lambda>_.
     seq_ok (PackedCoverage physical owner_depth part atom))))))))"

definition decode_retype :: "packed_event green_reader" where
  "decode_retype input =
     seq_do (read_frame_kind input) (\<lambda>fk.
     seq_do (read_flag ''invalid retype property flag'' input) (\<lambda>present.
     seq_do (optionally present decode_property input) (\<lambda>p.
     seq_ok (PackedRetypeOpen (fst fk) (snd fk) p))))"

definition decode_exit :: "packed_event green_reader" where
  "decode_exit input =
     seq_do (read_frame_kind input) (\<lambda>fk.
     seq_do (read_flag ''invalid close-facts flag'' input) (\<lambda>present.
     seq_do (optionally present decode_close input) (\<lambda>close.
     seq_do (read_flag ''invalid last-line-blank flag'' input) (\<lambda>last_line_blank.
     seq_do (read_u8 input) (\<lambda>flags.
     if flags AND 0xF8 \<noteq> 0 then seq_err (Corrupt ''invalid closed-child flags'')
     else seq_ok (PackedExit (fst fk) (snd fk) close last_line_blank
       \<lparr>cc_ends_blank = flags AND 1 \<noteq> 0, cc_loose_if_nonlast = flags AND 2 \<noteq> 0, cc_loose_if_last = flags AND 4 \<noteq> 0\<rparr>))))))"

definition decode_packed_event :: "packed_event green_reader" where
  "decode_packed_event input =
     seq_do (read_u8 input) (\<lambda>tag.
       if tag = 1 then seq_do (read_frame_kind input) (\<lambda>fk. seq_ok (PackedEnter (fst fk) (snd fk)))
       else if tag = 2 then seq_do (decode_property input) (\<lambda>p. seq_ok (PackedProperty p))
       else if tag = 3 then decode_coverage input
       else if tag = 4 then decode_retype input
       else if tag = 5 then decode_exit input
       else seq_err (Corrupt ''unknown recursive-green event tag''))"

subsection \<open>The commitment to an event stream\<close>

definition COMMITMENT_LANES :: nat where "COMMITMENT_LANES = 4"

definition COMMITMENT_BASES :: "u64 list" where
  "COMMITMENT_BASES = [0x0a09e667f3bcc909, 0x1b67ae8584caa73b, 0x1c6ef372fe94f82b, 0x154ff53a5f1d36f1]"

definition MAX_PACKED_EVENT_BYTES :: nat where
  "MAX_PACKED_EVENT_BYTES = 17 + 3 + CLOSE_FACTS_MAX_BYTES"

record green_commitment =
  gc_hash :: "u64 list"
  gc_factor :: "u64 list"

definition commitment_empty :: green_commitment where
  "commitment_empty = \<lparr>gc_hash = replicate COMMITMENT_LANES 0, gc_factor = replicate COMMITMENT_LANES 1\<rparr>"

definition event_domain :: bytes where
  "event_domain = ''flark.recursive-green.event.v1'' @ [CHR 0x00]"

definition commitment_for_event :: "(bytes \<Rightarrow> bytes) \<Rightarrow> packed_event \<Rightarrow> green_commitment green_result option" where
  "commitment_for_event blake3 event =
     (case encode_packed_event event (replicate MAX_PACKED_EVENT_BYTES (CHR 0x00), 0) of
        None \<Rightarrow> None
      | Some (Inl e, _) \<Rightarrow> Some (Inl e)
      | Some (Inr _, encoded, cursor) \<Rightarrow>
          if cursor \<noteq> packed_event_len event then Some (Inl (Corrupt ''recursive-green canonical event length changed''))
          else let digest = blake3 (event_domain @ take cursor encoded) in
            Some (Inr \<lparr>gc_hash = map (\<lambda>lane. word_of_nat (of_le_bytes (take 8 (drop (lane * 8) digest))) mod (MODULUS - 1) + 1)
                         [0..<COMMITMENT_LANES],
                       gc_factor = COMMITMENT_BASES\<rparr>))"

definition commitment_is_valid :: "green_commitment \<Rightarrow> bool" where
  "commitment_is_valid c =
     (\<forall>lane\<in>set [0..<COMMITMENT_LANES]. gc_hash c ! lane < MODULUS \<and> gc_factor c ! lane \<noteq> 0 \<and> gc_factor c ! lane < MODULUS)"

definition commitment_from_lanes :: "u64 list \<Rightarrow> u64 list \<Rightarrow> green_commitment green_result" where
  "commitment_from_lanes hash factor =
     (let c = \<lparr>gc_hash = hash, gc_factor = factor\<rparr>
      in if commitment_is_valid c then Inr c else Inl (Corrupt ''recursive-green commitment lane is invalid''))"

definition commitment_combine :: "green_commitment \<Rightarrow> green_commitment \<Rightarrow> green_commitment" where
  "commitment_combine c right =
     \<lparr>gc_hash = map (\<lambda>lane. add_mod (multiply_mod (gc_hash c ! lane) (gc_factor right ! lane)) (gc_hash right ! lane)) [0..<COMMITMENT_LANES],
      gc_factor = map (\<lambda>lane. multiply_mod (gc_factor c ! lane) (gc_factor right ! lane)) [0..<COMMITMENT_LANES]\<rparr>"

definition commitment_checksum :: "green_commitment \<Rightarrow> bytes" where
  "commitment_checksum c = concat (map (\<lambda>v. le_bytes 8 (unat v)) (gc_hash c))"

subsection \<open>Summaries\<close>

record open_witness =
  gw_frame :: nat
  gw_kind :: nat
  gw_ordinal :: nat

record green_summary =
  gs_physical_bytes :: nat
  gs_physical_utf16 :: nat
  gs_logical_bytes :: nat
  gs_logical_utf16 :: nat
  gs_events :: nat
  gs_enters :: nat
  gs_row_exits :: nat
  gs_event_bytes :: nat
  gs_commitment :: green_commitment
  gs_max_frame :: nat
  gs_balance :: int
  gs_minimum_prefix :: int
  gs_minimum_closed :: "int option"
  gs_oldest_open :: "open_witness option"
  gs_children :: child_fold

definition summary_empty :: green_summary where
  "summary_empty = \<lparr>gs_physical_bytes = 0, gs_physical_utf16 = 0, gs_logical_bytes = 0, gs_logical_utf16 = 0, gs_events = 0, gs_enters = 0,
     gs_row_exits = 0, gs_event_bytes = 0, gs_commitment = commitment_empty, gs_max_frame = 0, gs_balance = 0, gs_minimum_prefix = 0,
     gs_minimum_closed = None, gs_oldest_open = None, gs_children = child_fold_default\<rparr>"

text \<open>\<^verbatim>\<open>i64::checked_add\<close> and the checked negation.\<close>

definition checked_add_i64 :: "int \<Rightarrow> int \<Rightarrow> int option" where
  "checked_add_i64 x y = (if - (2 ^ 63) \<le> x + y \<and> x + y < 2 ^ 63 then Some (x + y) else None)"

definition checked_add_green :: "nat \<Rightarrow> nat \<Rightarrow> nat green_result" where
  "checked_add_green left right = ok_or (checked_add left right) CounterOverflow"

definition unmatched_closes :: "green_summary \<Rightarrow> nat green_result" where
  "unmatched_closes s =
     (if gs_minimum_prefix s > 0 then Inl (Corrupt ''positive minimum structural prefix'')
      else if gs_minimum_prefix s = - (2 ^ 63) then Inl CounterOverflow
      else Inr (nat (- gs_minimum_prefix s)))"

definition unmatched_opens :: "green_summary \<Rightarrow> nat green_result" where
  "unmatched_opens s =
     and_ok (unmatched_closes s) (\<lambda>closes.
       let opens = gs_balance s + int closes in
       if opens < 0 \<or> opens \<ge> 2 ^ 64 then Inl (Corrupt ''negative unmatched open count'') else Inr (nat opens))"

definition validate_summary :: "green_summary \<Rightarrow> unit green_result" where
  "validate_summary s =
     (if gs_physical_bytes s < gs_physical_utf16 s \<or> gs_logical_bytes s < gs_logical_utf16 s \<or> gs_enters s > gs_events s \<or>
         (gs_enters s = 0) \<noteq> (gs_max_frame s = 0) \<or> (gs_events s = 0) \<noteq> (gs_event_bytes s = 0) \<or> gs_event_bytes s < gs_events s \<or>
         \<not> commitment_is_valid (gs_commitment s) \<or> gs_events s = 0 \<and> s \<noteq> summary_empty
      then Inl (Corrupt ''invalid recursive-green metric summary'')
      else and_ok (unmatched_opens s) (\<lambda>opens.
        if (opens = 0) \<noteq> (gs_oldest_open s = None) then Inl (Corrupt ''open witness differs from structural balance'')
        else if (case gs_oldest_open s of None \<Rightarrow> False | Some w \<Rightarrow> gw_ordinal w \<ge> gs_events s)
        then Inl (Corrupt ''open witness is outside its event range'')
        else if gs_minimum_closed s = None \<and> gs_children s \<noteq> child_fold_default
        then Inl (Corrupt ''child fold exists without a closed structural depth'')
        else Inr ()))"

text \<open>The parts of \<^verbatim>\<open>checked_followed_by\<close>: the open witness, the closed depth, and the children at that depth.\<close>

definition followed_oldest :: "green_summary \<Rightarrow> green_summary \<Rightarrow> nat \<Rightarrow> open_witness option green_result" where
  "followed_oldest s right left_survivors =
     (if left_survivors \<noteq> 0 then Inr (gs_oldest_open s)
      else case gs_oldest_open right of
        None \<Rightarrow> Inr None
      | Some w \<Rightarrow> and_ok (checked_add_green (gw_ordinal w) (gs_events s)) (\<lambda>n. Inr (Some (w\<lparr>gw_ordinal := n\<rparr>))))"

definition shifted_closed :: "green_summary \<Rightarrow> green_summary \<Rightarrow> int option green_result" where
  "shifted_closed s right =
     (case gs_minimum_closed right of
        None \<Rightarrow> Inr None
      | Some depth \<Rightarrow> and_ok (ok_or (checked_add_i64 (gs_balance s) depth) CounterOverflow) (\<lambda>d. Inr (Some d)))"

definition least_depth :: "int option \<Rightarrow> int option \<Rightarrow> int option" where
  "least_depth left right =
     (case (left, right) of (None, y) \<Rightarrow> y | (Some x, None) \<Rightarrow> Some x | (Some x, Some y) \<Rightarrow> Some (min x y))"

definition outermost_children :: "green_summary \<Rightarrow> green_summary \<Rightarrow> int option \<Rightarrow> child_fold" where
  "outermost_children s right shifted =
     (let least = least_depth (gs_minimum_closed s) shifted in
      if gs_minimum_closed s = least
      then if shifted = least then child_fold_followed_by (gs_children s) (gs_children right) else gs_children s
      else if shifted = least then gs_children right else child_fold_default)"

definition checked_followed_by :: "green_summary \<Rightarrow> green_summary \<Rightarrow> green_summary green_result" where
  "checked_followed_by s right =
     and_ok (validate_summary s) (\<lambda>_.
     and_ok (validate_summary right) (\<lambda>_.
     and_ok (unmatched_opens s) (\<lambda>left_opens.
     and_ok (unmatched_closes right) (\<lambda>right_closes.
     and_ok (followed_oldest s right (left_opens - min left_opens right_closes)) (\<lambda>oldest_open.
     and_ok (ok_or (checked_add_i64 (gs_balance s) (gs_balance right)) CounterOverflow) (\<lambda>balance.
     and_ok (ok_or (checked_add_i64 (gs_balance s) (gs_minimum_prefix right)) CounterOverflow) (\<lambda>shifted_right_minimum.
     and_ok (shifted_closed s right) (\<lambda>shifted.
     and_ok (checked_add_green (gs_physical_bytes s) (gs_physical_bytes right)) (\<lambda>physical_bytes.
     and_ok (checked_add_green (gs_physical_utf16 s) (gs_physical_utf16 right)) (\<lambda>physical_utf16.
     and_ok (checked_add_green (gs_logical_bytes s) (gs_logical_bytes right)) (\<lambda>logical_bytes.
     and_ok (checked_add_green (gs_logical_utf16 s) (gs_logical_utf16 right)) (\<lambda>logical_utf16.
     and_ok (checked_add_green (gs_events s) (gs_events right)) (\<lambda>events.
     and_ok (checked_add_green (gs_enters s) (gs_enters right)) (\<lambda>enters.
     and_ok (checked_add_green (gs_row_exits s) (gs_row_exits right)) (\<lambda>row_exits.
     and_ok (checked_add_green (gs_event_bytes s) (gs_event_bytes right)) (\<lambda>event_bytes.
     let summary = \<lparr>gs_physical_bytes = physical_bytes, gs_physical_utf16 = physical_utf16, gs_logical_bytes = logical_bytes,
           gs_logical_utf16 = logical_utf16, gs_events = events, gs_enters = enters, gs_row_exits = row_exits, gs_event_bytes = event_bytes,
           gs_commitment = commitment_combine (gs_commitment s) (gs_commitment right),
           gs_max_frame = max (gs_max_frame s) (gs_max_frame right),
           gs_balance = balance, gs_minimum_prefix = min (gs_minimum_prefix s) shifted_right_minimum,
           gs_minimum_closed = least_depth (gs_minimum_closed s) shifted, gs_oldest_open = oldest_open,
           gs_children = outermost_children s right shifted\<rparr>
     in and_ok (validate_summary summary) (\<lambda>_. Inr summary)))))))))))))))))"

definition packed_event_summary :: "(bytes \<Rightarrow> bytes) \<Rightarrow> packed_event \<Rightarrow> green_summary green_result option" where
  "packed_event_summary blake3 event =
     (case commitment_for_event blake3 event of
        None \<Rightarrow> None
      | Some (Inl e) \<Rightarrow> Some (Inl e)
      | Some (Inr commitment) \<Rightarrow>
          let s = summary_empty\<lparr>gs_events := 1, gs_event_bytes := packed_event_len event, gs_commitment := commitment\<rparr> in
          Some (and_ok (case event of
              PackedEnter frame kind \<Rightarrow>
                Inr (s\<lparr>gs_enters := 1, gs_max_frame := frame, gs_balance := 1,
                       gs_oldest_open := Some \<lparr>gw_frame = frame, gw_kind = kind, gw_ordinal = 0\<rparr>\<rparr>)
            | PackedCoverage physical _ _ atom \<Rightarrow>
                if metric_is_empty physical then Inl (Corrupt ''empty packed coverage atom'')
                else and_ok (validate_atom atom physical) (\<lambda>_.
                  let logical = logical_metric atom physical in
                  Inr (s\<lparr>gs_physical_bytes := mt_bytes physical, gs_physical_utf16 := mt_utf16 physical,
                         gs_logical_bytes := mt_bytes logical, gs_logical_utf16 := mt_utf16 logical\<rparr>))
            | PackedExit _ final_kind _ _ child \<Rightarrow>
                Inr (s\<lparr>gs_row_exits := of_bool (is_renderable_row_kind final_kind), gs_balance := -1, gs_minimum_prefix := -1,
                       gs_minimum_closed := Some (-1), gs_children := child_fold_push (gs_children s) child\<rparr>)
            | _ \<Rightarrow> Inr s) (\<lambda>s. and_ok (validate_summary s) (\<lambda>_. Inr s))))"

subsection \<open>Pages\<close>

definition GREEN_LEAF_MAGIC :: bytes where "GREEN_LEAF_MAGIC = ''RGL1''"
definition GREEN_BRANCH_MAGIC :: bytes where "GREEN_BRANCH_MAGIC = ''RGB1''"
definition GREEN_SCHEMA :: nat where "GREEN_SCHEMA = 4"
definition COMMITMENT_BYTES :: nat where "COMMITMENT_BYTES = COMMITMENT_LANES * 2 * 8"
definition GREEN_SUMMARY_BYTES :: nat where "GREEN_SUMMARY_BYTES = 100 + 16 + COMMITMENT_BYTES"
definition GREEN_LEAF_HEADER_BYTES :: nat where "GREEN_LEAF_HEADER_BYTES = 4 + 4 + 2 + 2 + GREEN_SUMMARY_BYTES"
definition GREEN_BRANCH_BYTES :: nat where "GREEN_BRANCH_BYTES = 4 + 4 + 8 + 2 + GREEN_SUMMARY_BYTES"

text \<open>Writing and reading a run of words.\<close>

primrec write_lanes :: "u64 list \<Rightarrow> green_writer" where
  "write_lanes [] = seq_ok ()"
| "write_lanes (v # vs) = seq_do (write_u64 (unat v)) (\<lambda>_. write_lanes vs)"

primrec read_lanes :: "nat \<Rightarrow> u64 list green_reader" where
  "read_lanes 0 input = seq_ok []"
| "read_lanes (Suc n) input = seq_do (read_u64 input) (\<lambda>v. seq_do (read_lanes n input) (\<lambda>vs. seq_ok (word_of_nat v # vs)))"

definition encode_event_commitment :: "green_commitment \<Rightarrow> green_writer" where
  "encode_event_commitment c = seq_do (write_lanes (gc_hash c)) (\<lambda>_. write_lanes (gc_factor c))"

definition decode_event_commitment :: "green_commitment green_reader" where
  "decode_event_commitment input =
     seq_do (read_lanes COMMITMENT_LANES input) (\<lambda>hash.
     seq_do (read_lanes COMMITMENT_LANES input) (\<lambda>factor.
     seq_result (commitment_from_lanes hash factor)))"

definition encode_child_fold :: "child_fold \<Rightarrow> nat" where
  "encode_child_fold f = of_bool (had_child f) OR push_bit 1 (of_bool (any_nonlast_child_ends_blank f))
     OR push_bit 2 (of_bool (last_child_ends_blank f)) OR push_bit 3 (of_bool (list_loose_before_last f))
     OR push_bit 4 (of_bool (last_item_loose_if_nonlast f)) OR push_bit 5 (of_bool (last_item_loose_if_last f))"

definition decode_child_fold :: "nat \<Rightarrow> child_fold green_result" where
  "decode_child_fold flags =
     (if flags AND 0xC0 \<noteq> 0 then Inl (Corrupt ''invalid child-fold flags'')
      else Inr \<lparr>had_child = flags AND 1 \<noteq> 0, any_nonlast_child_ends_blank = flags AND 2 \<noteq> 0, last_child_ends_blank = flags AND 4 \<noteq> 0,
        list_loose_before_last = flags AND 8 \<noteq> 0, last_item_loose_if_nonlast = flags AND 16 \<noteq> 0,
        last_item_loose_if_last = flags AND 32 \<noteq> 0\<rparr>)"

definition encode_summary :: "green_summary \<Rightarrow> green_writer" where
  "encode_summary s =
     seq_do (seq_result (validate_summary s)) (\<lambda>_.
     seq_do (write_u64 (gs_physical_bytes s)) (\<lambda>_.
     seq_do (write_u64 (gs_physical_utf16 s)) (\<lambda>_.
     seq_do (write_u64 (gs_logical_bytes s)) (\<lambda>_.
     seq_do (write_u64 (gs_logical_utf16 s)) (\<lambda>_.
     seq_do (write_u64 (gs_events s)) (\<lambda>_.
     seq_do (write_u64 (gs_enters s)) (\<lambda>_.
     seq_do (write_u64 (gs_row_exits s)) (\<lambda>_.
     seq_do (write_u64 (gs_event_bytes s)) (\<lambda>_.
     seq_do (encode_event_commitment (gs_commitment s)) (\<lambda>_.
     seq_do (write_u64 (gs_max_frame s)) (\<lambda>_.
     seq_do (write_i64 (gs_balance s)) (\<lambda>_.
     seq_do (write_i64 (gs_minimum_prefix s)) (\<lambda>_.
     seq_do (write_i64 (case gs_minimum_closed s of None \<Rightarrow> - (2 ^ 63) | Some d \<Rightarrow> d)) (\<lambda>_.
     seq_do (write_u8 (of_bool (gs_oldest_open s \<noteq> None))) (\<lambda>_.
     let witness = (case gs_oldest_open s of None \<Rightarrow> \<lparr>gw_frame = 1, gw_kind = 1, gw_ordinal = 0\<rparr> | Some w \<Rightarrow> w) in
     seq_do (write_u64 (gw_frame witness)) (\<lambda>_.
     seq_do (write_u16 (gw_kind witness)) (\<lambda>_.
     seq_do (write_u64 (gw_ordinal witness)) (\<lambda>_.
     write_u8 (encode_child_fold (gs_children s))))))))))))))))))))"

definition decode_summary :: "green_summary green_reader" where
  "decode_summary input =
     seq_do (read_u64 input) (\<lambda>physical_bytes.
     seq_do (read_u64 input) (\<lambda>physical_utf16.
     seq_do (read_u64 input) (\<lambda>logical_bytes.
     seq_do (read_u64 input) (\<lambda>logical_utf16.
     seq_do (read_u64 input) (\<lambda>events.
     seq_do (read_u64 input) (\<lambda>enters.
     seq_do (read_u64 input) (\<lambda>row_exits.
     seq_do (read_u64 input) (\<lambda>event_bytes.
     seq_do (decode_event_commitment input) (\<lambda>commitment.
     seq_do (read_u64 input) (\<lambda>max_frame.
     seq_do (read_i64 input) (\<lambda>balance.
     seq_do (read_i64 input) (\<lambda>minimum_prefix.
     seq_do (read_i64 input) (\<lambda>closed.
     let minimum_closed = (if closed = - (2 ^ 63) then None else Some closed) in
     seq_do (read_u8 input) (\<lambda>witness_present.
     seq_do (read_u64 input) (\<lambda>witness_frame.
     seq_do (read_u16 input) (\<lambda>witness_kind.
     seq_do (read_u64 input) (\<lambda>witness_ordinal.
     seq_do (seq_do (read_u8 input) (\<lambda>flags. seq_result (decode_child_fold flags))) (\<lambda>children.
     seq_do (if witness_present = 0 then seq_ok None
             else if witness_present = 1 then
               seq_do (seq_result (decode_frame witness_frame)) (\<lambda>frame.
               seq_do (seq_result (decode_kind witness_kind)) (\<lambda>kind.
               seq_ok (Some \<lparr>gw_frame = frame, gw_kind = kind, gw_ordinal = witness_ordinal\<rparr>)))
             else seq_err (Corrupt ''invalid open-witness flag'')) (\<lambda>oldest_open.
     let summary = \<lparr>gs_physical_bytes = physical_bytes, gs_physical_utf16 = physical_utf16, gs_logical_bytes = logical_bytes,
           gs_logical_utf16 = logical_utf16, gs_events = events, gs_enters = enters, gs_row_exits = row_exits, gs_event_bytes = event_bytes,
           gs_commitment = commitment, gs_max_frame = max_frame, gs_balance = balance, gs_minimum_prefix = minimum_prefix,
           gs_minimum_closed = minimum_closed, gs_oldest_open = oldest_open, gs_children = children\<rparr>
     in seq_do (seq_result (validate_summary summary)) (\<lambda>_. seq_ok summary))))))))))))))))))))"

definition encode_leaf_header :: "nat \<Rightarrow> nat \<Rightarrow> green_summary \<Rightarrow> bytes \<Rightarrow> (unit green_result \<times> bytes) option" where
  "encode_leaf_header events data_bytes s page =
     (if events = 0 \<or> data_bytes = 0 \<or> events > GREEN_EVENTS_PER_PAGE_MAX
      then Some (Inl (Corrupt ''invalid recursive-green leaf shape''), page)
      else case (seq_do (seq_result (validate_summary s)) (\<lambda>_.
           seq_do (write_bytes GREEN_LEAF_MAGIC) (\<lambda>_.
           seq_do (write_u32 GREEN_SCHEMA) (\<lambda>_.
           seq_do (write_u16 events) (\<lambda>_.
           seq_do (if data_bytes < 2 ^ 16 then write_u16 data_bytes else seq_err CounterOverflow) (\<lambda>_.
           seq_do (encode_summary s) (\<lambda>_ t.
           if snd t \<noteq> GREEN_LEAF_HEADER_BYTES then seq_err (Corrupt ''recursive-green leaf header size changed'') t else seq_ok () t)))))))
           (page, 0) of
        None \<Rightarrow> None | Some (r, out, _) \<Rightarrow> Some (r, out))"

record decoded_green_leaf =
  dg_events :: nat
  dg_summary :: green_summary
  dg_event_bytes :: bytes

text \<open>The loop over the events of a leaf.\<close>

primrec fold_events :: "(bytes \<Rightarrow> bytes) \<Rightarrow> bytes \<Rightarrow> nat \<Rightarrow> green_summary \<Rightarrow> (nat, green_error, green_summary) seq_run" where
  "fold_events blake3 input 0 observed = seq_ok observed"
| "fold_events blake3 input (Suc n) observed =
     seq_do (decode_packed_event input) (\<lambda>event t.
       case packed_event_summary blake3 event of
         None \<Rightarrow> None
       | Some r \<Rightarrow> seq_do (seq_result (and_ok r (checked_followed_by observed))) (\<lambda>observed. fold_events blake3 input n observed) t)"

text \<open>The header of a leaf, from the cursor past its magic.\<close>

definition decode_leaf_header :: "(nat \<times> nat \<times> green_summary) green_reader" where
  "decode_leaf_header payload =
     seq_do (read_u32 payload) (\<lambda>schema.
     if schema \<noteq> GREEN_SCHEMA then seq_err (Corrupt ''recursive-green leaf schema changed'')
     else
       seq_do (read_u16 payload) (\<lambda>events.
       seq_do (read_u16 payload) (\<lambda>data_bytes.
       seq_do (decode_summary payload) (\<lambda>claimed t.
       if t \<noteq> GREEN_LEAF_HEADER_BYTES \<or> events = 0 \<or> events > GREEN_EVENTS_PER_PAGE_MAX \<or>
          length payload \<noteq> GREEN_LEAF_HEADER_BYTES + data_bytes
       then seq_err (Corrupt ''invalid recursive-green leaf metadata'') t
       else seq_ok (events, data_bytes, claimed) t))))"

text \<open>A run of a reader from a cursor, without the cursor it ends at.\<close>

definition starting_at :: "nat \<Rightarrow> (nat, 'e, 'a) seq_run \<Rightarrow> ('t, 'e, 'a \<times> nat) seq_run" where
  "starting_at c m t = (case m c of None \<Rightarrow> None | Some (Inl e, _) \<Rightarrow> Some (Inl e, t) | Some (Inr x, finish) \<Rightarrow> Some (Inr (x, finish), t))"

definition decode_leaf :: "(bytes \<Rightarrow> bytes) \<Rightarrow> bytes \<Rightarrow> (spec_inspection, green_error, decoded_green_leaf option) seq_run" where
  "decode_leaf blake3 payload =
     (if take 4 payload \<noteq> GREEN_LEAF_MAGIC then seq_ok None
      else if length payload < GREEN_LEAF_HEADER_BYTES then seq_err (Corrupt ''recursive-green leaf is truncated'')
      else
        seq_do (seq_update CounterOverflow (charge_payload_bytes (length payload))) (\<lambda>_.
        seq_do (starting_at 4 (decode_leaf_header payload)) (\<lambda>((events, data_bytes, claimed), cursor).
        let event_bytes = drop cursor payload in
        seq_do (starting_at 0 (fold_events blake3 event_bytes events summary_empty)) (\<lambda>(observed, event_cursor).
        seq_do (seq_update CounterOverflow (charge_hashed_items events)) (\<lambda>_.
        if event_cursor \<noteq> length event_bytes \<or> observed \<noteq> claimed then seq_err (Corrupt ''recursive-green leaf summary mismatch'')
        else seq_ok (Some \<lparr>dg_events = events, dg_summary = observed, dg_event_bytes = event_bytes\<rparr>))))))"

subsection \<open>The specification of the sequence\<close>

definition green_leaf_summary :: "(bytes \<Rightarrow> bytes) \<Rightarrow> bytes \<Rightarrow> (spec_inspection, green_error, green_summary option) seq_run" where
  "green_leaf_summary blake3 payload =
     seq_do (decode_leaf blake3 payload) (\<lambda>leaf. seq_ok (map_option dg_summary leaf))"

text \<open>The measure a branch carries, from the cursor past its magic.\<close>

definition decode_branch_measure :: "green_summary sequence_measure green_reader" where
  "decode_branch_measure payload =
     seq_do (read_u32 payload) (\<lambda>schema.
     if schema \<noteq> GREEN_SCHEMA then seq_err (Corrupt ''recursive-green branch schema changed'')
     else
       seq_do (read_u64 payload) (\<lambda>leaves.
       seq_do (read_u16 payload) (\<lambda>height.
       seq_do (decode_summary payload) (\<lambda>summary t.
       if t \<noteq> length payload \<or> leaves < 2 \<or> height < 2 then seq_err (Corrupt ''invalid recursive-green branch metadata'') t
       else seq_ok \<lparr>sm_summary = summary, sm_leaves = leaves, sm_height = height\<rparr> t))))"

definition green_branch_measure :: "bytes \<Rightarrow> (spec_inspection, green_error, green_summary sequence_measure option) seq_run" where
  "green_branch_measure payload =
     (if take 4 payload \<noteq> GREEN_BRANCH_MAGIC then seq_ok None
      else if length payload \<noteq> GREEN_BRANCH_BYTES then seq_err (Corrupt ''recursive-green branch length changed'')
      else
        seq_do (seq_update CounterOverflow (charge_payload_bytes (length payload))) (\<lambda>_.
        seq_do (starting_at 4 (decode_branch_measure payload)) (\<lambda>(m, _). seq_ok (Some m))))"

definition green_encode_branch :: "green_summary sequence_measure \<Rightarrow> (bytes, green_error, nat) seq_run" where
  "green_encode_branch m output =
     (case (seq_do (seq_result (validate_summary (sm_summary m))) (\<lambda>_.
        seq_do (write_bytes GREEN_BRANCH_MAGIC) (\<lambda>_.
        seq_do (write_u32 GREEN_SCHEMA) (\<lambda>_.
        seq_do (write_u64 (sm_leaves m)) (\<lambda>_.
        seq_do (write_u16 (sm_height m)) (\<lambda>_.
        seq_do (encode_summary (sm_summary m)) (\<lambda>_ t.
        if snd t \<noteq> GREEN_BRANCH_BYTES then seq_err (Corrupt ''recursive-green branch size changed'') t else seq_ok (snd t) t)))))))
        (output, 0) of
      None \<Rightarrow> None | Some (r, out, _) \<Rightarrow> Some (r, out))"

text \<open>\<^verbatim>\<open>RecursiveGreenSpec\<close>.\<close>

definition green_spec :: "(bytes \<Rightarrow> bytes) \<Rightarrow> (green_summary, green_error) sequence_spec" where
  "green_spec blake3 = \<lparr>leaf_summary = green_leaf_summary blake3, branch_measure = green_branch_measure, encode_branch = green_encode_branch,
     spec_combine = checked_followed_by, invalid = Corrupt, from_arena = GreenArena\<rparr>"

subsection \<open>Row geometry in close facts\<close>

definition ROW_EDITABLE_TRAILER_MAGIC :: bytes where "ROW_EDITABLE_TRAILER_MAGIC = ''RGEO''"
definition ROW_EDITABLE_TRAILER_VERSION_V1 :: nat where "ROW_EDITABLE_TRAILER_VERSION_V1 = 1"
definition ROW_EDITABLE_TRAILER_VERSION :: nat where "ROW_EDITABLE_TRAILER_VERSION = 2"
definition ROW_EDITABLE_TRAILER_V1_BYTES :: nat where "ROW_EDITABLE_TRAILER_V1_BYTES = 24"
definition ROW_EDITABLE_TRAILER_V2_MIN_BYTES :: nat where "ROW_EDITABLE_TRAILER_V2_MIN_BYTES = 11"

definition u32_coordinate :: "nat \<Rightarrow> nat green_result" where
  "u32_coordinate v = (if v < 2 ^ 32 then Inr v else Inl InvalidEvent)"

text \<open>\<^verbatim>\<open>try_fold\<close> of the coordinates' lengths.\<close>

primrec trailer_len :: "nat list \<Rightarrow> nat \<Rightarrow> nat green_result" where
  "trailer_len [] bytes = Inr bytes"
| "trailer_len (v # vs) bytes = and_ok (ok_or (checked_add bytes (var_u64_len v)) CounterOverflow) (trailer_len vs)"

primrec write_vars :: "nat list \<Rightarrow> green_writer" where
  "write_vars [] = seq_ok ()"
| "write_vars (v # vs) = seq_do (write_var_u64 v) (\<lambda>_. write_vars vs)"

definition capability_code :: "row_edit_capability \<Rightarrow> nat" where
  "capability_code c = (case c of Contiguous \<Rightarrow> 1 | Unavailable \<Rightarrow> 2)"

text \<open>The trailer after the semantic bytes; the debug assertions on its length are left out.\<close>

definition write_trailer :: "row_edit_capability \<Rightarrow> nat list \<Rightarrow> nat \<Rightarrow> green_writer" where
  "write_trailer capability coordinates trailer_bytes =
     seq_do (write_bytes ROW_EDITABLE_TRAILER_MAGIC) (\<lambda>_.
     seq_do (write_u8 ROW_EDITABLE_TRAILER_VERSION) (\<lambda>_.
     seq_do (write_u8 (capability_code capability)) (\<lambda>_.
     seq_do (write_vars coordinates) (\<lambda>_.
     if trailer_bytes < 2 ^ 8 then write_u8 trailer_bytes else seq_err CounterOverflow))))"

definition new_with_cached_row_editable :: "nat \<Rightarrow> bytes \<Rightarrow> row_editable \<Rightarrow> fact_bytes green_result option" where
  "new_with_cached_row_editable tag semantic cached =
     (case and_ok (u32_coordinate (mt_bytes (cr_start cached))) (\<lambda>a.
           and_ok (u32_coordinate (mt_utf16 (cr_start cached))) (\<lambda>b.
           and_ok (u32_coordinate (mt_bytes (cr_end cached))) (\<lambda>c.
           and_ok (u32_coordinate (mt_utf16 (cr_end cached))) (\<lambda>d.
           and_ok (trailer_len [a, b, c, d] 7) (\<lambda>trailer_bytes.
           and_ok (ok_or (checked_add (length semantic) trailer_bytes) CounterOverflow) (\<lambda>needed.
           if needed > CLOSE_FACTS_MAX_BYTES then Inl InvalidEvent else Inr ([a, b, c, d], trailer_bytes, needed))))))) of
        Inl e \<Rightarrow> Some (Inl e)
      | Inr (coordinates, trailer_bytes, needed) \<Rightarrow>
          let bytes = semantic @ replicate (CLOSE_FACTS_MAX_BYTES - length semantic) (CHR 0x00) in
          case write_trailer (cr_capability cached) coordinates trailer_bytes (bytes, length semantic) of
            None \<Rightarrow> None
          | Some (Inl e, _) \<Rightarrow> Some (Inl e)
          | Some (Inr _, bytes, _) \<Rightarrow> Some (close_facts_new tag (take needed bytes)))"

definition capability_decode :: "nat \<Rightarrow> row_edit_capability green_result" where
  "capability_decode v =
     (if v = 1 then Inr Contiguous else if v = 2 then Inr Unavailable else Inl (Corrupt ''invalid cached row-editable capability''))"

definition cached_metric :: "nat \<Rightarrow> nat \<Rightarrow> source_metric green_result" where
  "cached_metric bytes utf16 = ok_or (source_metric_new bytes utf16) (Corrupt ''invalid cached row-editable metric'')"

text \<open>A metric of the first version, at an offset of the trailer, and of the second, at the cursor.\<close>

definition read_metric_v1 :: "bytes \<Rightarrow> nat \<Rightarrow> source_metric green_result" where
  "read_metric_v1 trailer offset =
     cached_metric (of_le_bytes (take 4 (drop offset trailer))) (of_le_bytes (take 4 (drop (offset + 4) trailer)))"

definition read_metric_v2 :: "source_metric green_reader" where
  "read_metric_v2 trailer =
     seq_do (read_var_u64 trailer) (\<lambda>bytes.
     seq_do (read_var_u64 trailer) (\<lambda>utf16.
     if bytes \<ge> 2 ^ 32 \<or> utf16 \<ge> 2 ^ 32 then seq_err (Corrupt ''cached row-editable metric exceeds its contract width'')
     else seq_result (cached_metric bytes utf16)))"

definition trailer_metrics_v1 :: "bytes \<Rightarrow> (source_metric \<times> source_metric) green_result" where
  "trailer_metrics_v1 trailer =
     (if length trailer \<noteq> ROW_EDITABLE_TRAILER_V1_BYTES \<or> bval (trailer ! 6) \<noteq> (0 :: nat) \<or> bval (trailer ! 7) \<noteq> (0 :: nat)
      then Inl (Corrupt ''invalid cached row-editable v1 trailer'')
      else and_ok (read_metric_v1 trailer 8) (\<lambda>start. and_ok (read_metric_v1 trailer 16) (\<lambda>finish. Inr (start, finish))))"

definition trailer_metrics_v2 :: "bytes \<Rightarrow> (source_metric \<times> source_metric) green_result option" where
  "trailer_metrics_v2 trailer =
     (if length trailer < ROW_EDITABLE_TRAILER_V2_MIN_BYTES \<or> bval (last trailer) \<noteq> length trailer
      then Some (Inl (Corrupt ''invalid cached row-editable v2 trailer''))
      else case seq_do (read_metric_v2 trailer) (\<lambda>start. seq_do (read_metric_v2 trailer) (\<lambda>finish cursor.
             if cursor + 1 \<noteq> length trailer then seq_err (Corrupt ''cached row-editable v2 trailer has trailing bytes'') cursor
             else seq_ok (start, finish) cursor)) 6 of
        None \<Rightarrow> None | Some (r, _) \<Rightarrow> Some r)"

definition cached_row_editable :: "fact_bytes \<Rightarrow> nat \<Rightarrow> (bytes \<times> row_editable) option green_result option" where
  "cached_row_editable facts semantic_end =
     (let bytes = as_bytes facts; trailer = drop semantic_end bytes in
      if semantic_end \<ge> length bytes then Some (Inr None)
      else if length trailer < 6 \<or> take 4 trailer \<noteq> ROW_EDITABLE_TRAILER_MAGIC then Some (Inr None)
      else case capability_decode (bval (trailer ! 5)) of
        Inl e \<Rightarrow> Some (Inl e)
      | Inr capability \<Rightarrow>
          (case (if bval (trailer ! 4) = ROW_EDITABLE_TRAILER_VERSION_V1 then Some (trailer_metrics_v1 trailer)
                 else if bval (trailer ! 4) = ROW_EDITABLE_TRAILER_VERSION then trailer_metrics_v2 trailer
                 else Some (Inl (Corrupt ''invalid cached row-editable trailer version''))) of
             None \<Rightarrow> None
           | Some (Inl e) \<Rightarrow> Some (Inl e)
           | Some (Inr (start, finish)) \<Rightarrow>
               if mt_bytes start > mt_bytes finish \<or> mt_utf16 start > mt_utf16 finish
               then Some (Inl (Corrupt ''cached row-editable bounds are reversed''))
               else Some (Inr (Some (take semantic_end bytes, \<lparr>cr_capability = capability, cr_start = start, cr_end = finish\<rparr>)))))"

definition carries_trailer :: "bytes \<Rightarrow> nat \<Rightarrow> nat \<Rightarrow> bool" where
  "carries_trailer bytes semantic_bytes version \<longleftrightarrow>
     semantic_bytes + 4 < length bytes \<and> take 4 (drop semantic_bytes bytes) = ROW_EDITABLE_TRAILER_MAGIC \<and>
     bval (bytes ! (semantic_bytes + 4)) = version"

definition split_cached_row_editable :: "fact_bytes \<Rightarrow> (bytes \<times> row_editable) option green_result option" where
  "split_cached_row_editable facts =
     (let bytes = as_bytes facts; trailer_bytes = bval (last bytes) in
      if bytes \<noteq> [] \<and> trailer_bytes \<ge> ROW_EDITABLE_TRAILER_V2_MIN_BYTES \<and> trailer_bytes \<le> length bytes \<and>
         carries_trailer bytes (length bytes - trailer_bytes) ROW_EDITABLE_TRAILER_VERSION
      then cached_row_editable facts (length bytes - trailer_bytes)
      else case checked_sub (length bytes) ROW_EDITABLE_TRAILER_V1_BYTES of
        None \<Rightarrow> Some (Inr None)
      | Some semantic_bytes \<Rightarrow>
          if \<not> carries_trailer bytes semantic_bytes ROW_EDITABLE_TRAILER_VERSION_V1 then Some (Inr None)
          else cached_row_editable facts semantic_bytes)"

end
