(* ===== verification/Flark_Green_Codec.thy ===== *)
theory Flark_Green_Codec
  imports Flark_Green
begin

text \<open>
  The codec of \<^verbatim>\<open>recursive_green/codec.rs\<close> reads back what it writes: integers, varints, events, summaries and page headers. An encoder
  emits the bytes of a value at its cursor; a decoder parses them wherever they stand; and what a decoder of events accepts is exactly
  what the encoder emits.
\<close>

unbundle bit_operations_syntax

subsection \<open>Bytes of an integer\<close>

lemma of_le_simps [simp]: "of_le_bytes [] = 0" "of_le_bytes (b # bs) = bval b + 256 * of_le_bytes bs"
  by (simp_all add: of_le_bytes_def)

lemma of_le_less: "of_le_bytes bs < 256 ^ length bs"
proof (induction bs)
  case (Cons b bs)
  have "bval b < (256 :: nat)" by simp
  then have "bval b + 256 * of_le_bytes bs < 256 * (of_le_bytes bs + 1)" by simp
  also have "\<dots> \<le> 256 * 256 ^ length bs" using Cons by (intro mult_le_mono2) simp
  finally show ?case by simp
qed simp

lemma length_le_bytes [simp]: "length (le_bytes w v) = w"
  by (simp add: le_bytes_def)

lemma le_bytes_Suc: "le_bytes (Suc w) v = char_of v # le_bytes w (v div 256)"
  by (simp add: le_bytes_def upt_rec [of 0] map_Suc_upt [symmetric] div_mult2_eq del: upt_Suc)

lemma le_bytes_0 [simp]: "le_bytes 0 v = []"
  by (simp add: le_bytes_def)

lemma of_le_le: "of_le_bytes (le_bytes w v) = v mod 256 ^ w"
proof (induction w arbitrary: v)
  case (Suc w)
  have "of_le_bytes (le_bytes (Suc w) v) = v mod 256 + 256 * (v div 256 mod 256 ^ w)"
    by (simp add: le_bytes_Suc Suc)
  also have "\<dots> = v mod 256 ^ Suc w" by (simp add: mod_mult2_eq)
  finally show ?case .
qed simp

lemma le_of_le: "le_bytes (length bs) (of_le_bytes bs) = bs"
proof (induction bs)
  case (Cons b bs)
  have "(bval b + 256 * n) div 256 = n" for n :: nat by simp
  moreover have "char_of (bval b + 256 * n) = b" for n :: nat
    using char_of_mod_256 [of "bval b + 256 * n", symmetric] by simp
  ultimately show ?case using Cons by (simp add: le_bytes_Suc)
qed simp

subsection \<open>Emitting and parsing\<close>

definition emits :: "green_writer \<Rightarrow> bytes \<Rightarrow> bool" where
  "emits w bs \<longleftrightarrow> (\<forall>out c. c + length bs \<le> length out \<longrightarrow> length out < 2 ^ 64 \<longrightarrow>
     w (out, c) = Some (Inr (), take c out @ bs @ drop (c + length bs) out, c + length bs))"

lemma emitsD:
  "emits w bs \<Longrightarrow> c + length bs \<le> length out \<Longrightarrow> length out < 2 ^ 64 \<Longrightarrow>
   w (out, c) = Some (Inr (), take c out @ bs @ drop (c + length bs) out, c + length bs)"
  by (simp add: emits_def)

lemma emits_bytes: "emits (write_bytes bs) bs"
  by (simp add: emits_def write_bytes_def checked_add_def)

lemma emits_do:
  assumes "emits w bs" "emits v cs"
  shows "emits (seq_do w (\<lambda>_. v)) (bs @ cs)"
  unfolding emits_def
proof (intro allI impI)
  fix out :: bytes and c
  assume l: "c + length (bs @ cs) \<le> length out" "length out < 2 ^ 64"
  let ?out = "take c out @ bs @ drop (c + length bs) out"
  have "length ?out = length out" using l by simp
  then have "v (?out, c + length bs) = Some (Inr (), take (c + length bs) ?out @ cs @ drop (c + length bs + length cs) ?out, c + length bs + length cs)"
    using l by (intro emitsD [OF assms(2)]) simp_all
  moreover have "take (c + length bs) ?out = take c out @ bs" "drop (c + length bs + length cs) ?out = drop (c + length bs + length cs) out"
    using l by (simp_all add: add.commute add.left_commute)
  ultimately show "seq_do w (\<lambda>_. v) (out, c) = Some (Inr (), take c out @ (bs @ cs) @ drop (c + length (bs @ cs)) out, c + length (bs @ cs))"
    using l by (simp add: seq_do_def emitsD [OF assms(1)] add.assoc)
qed

lemma emits_ok [simp]: "emits (seq_ok ()) []"
  by (simp add: emits_def)

lemma emits_result: "emits w bs \<Longrightarrow> r = Inr () \<Longrightarrow> emits (seq_do (seq_result r) (\<lambda>_. w)) bs"
  by (simp add: emits_def seq_do_def)

definition parses :: "'a green_reader \<Rightarrow> bytes \<Rightarrow> 'a \<Rightarrow> bool" where
  "parses r bs x \<longleftrightarrow> (\<forall>pre post. length (pre @ bs @ post) < 2 ^ 64 \<longrightarrow> r (pre @ bs @ post) (length pre) = Some (Inr x, length pre + length bs))"

lemma parsesD:
  "parses r bs x \<Longrightarrow> length (pre @ bs @ post) < 2 ^ 64 \<Longrightarrow> r (pre @ bs @ post) (length pre) = Some (Inr x, length pre + length bs)"
  unfolding parses_def by blast

lemma parses_bytes: "parses (read_bytes (length bs)) bs bs"
  by (simp add: parses_def read_bytes_def checked_add_def)

lemma parses_do:
  assumes "parses r a x" "parses (k x) b y" "c = a @ b"
  shows "parses (\<lambda>input. seq_do (r input) (\<lambda>x. k x input)) c y"
  unfolding parses_def assms(3)
proof (intro allI impI)
  fix pre post :: bytes
  assume l: "length (pre @ (a @ b) @ post) < 2 ^ 64"
  have "r (pre @ a @ b @ post) (length pre) = Some (Inr x, length pre + length a)"
    using parsesD [OF assms(1), of pre "b @ post"] l by simp
  moreover have "k x (pre @ a @ b @ post) (length pre + length a) = Some (Inr y, length pre + length a + length b)"
    using parsesD [OF assms(2), of "pre @ a" post] l by simp
  ultimately show "seq_do (r (pre @ (a @ b) @ post)) (\<lambda>x. k x (pre @ (a @ b) @ post)) (length pre) = Some (Inr y, length pre + length (a @ b))"
    by (simp add: seq_do_def)
qed

lemmas parses_seq = parses_do [OF _ _ refl]

lemma parses_cons: "parses r [c] x \<Longrightarrow> parses (k x) b y \<Longrightarrow> parses (\<lambda>input. seq_do (r input) (\<lambda>x. k x input)) (c # b) y"
  by (rule parses_do [where a = "[c]"]) simp_all

lemma parses_end: "parses r a x \<Longrightarrow> parses (k x) [] y \<Longrightarrow> parses (\<lambda>input. seq_do (r input) (\<lambda>x. k x input)) a y"
  by (rule parses_do [where b = "[]"]) simp_all

lemma parses_ok [simp]: "x = y \<Longrightarrow> parses (\<lambda>input. seq_ok x) [] y"
  by (simp add: parses_def)

lemma parses_result: "r = Inr x \<Longrightarrow> parses (k x) b y \<Longrightarrow> parses (\<lambda>input. seq_do (seq_result r) (\<lambda>x. k x input)) b y"
  by (simp add: parses_def seq_do_def)

lemma parses_last: "parses r a x \<Longrightarrow> f x = y \<Longrightarrow> parses (\<lambda>input. seq_do (r input) (\<lambda>x. seq_ok (f x))) a y"
  by (rule parses_do [of r a x "\<lambda>x input. seq_ok (f x)" "[]"]) simp_all

lemma parses_last_result: "parses r a x \<Longrightarrow> f x = Inr y \<Longrightarrow> parses (\<lambda>input. seq_do (r input) (\<lambda>x. seq_result (f x))) a y"
  by (rule parses_do [of r a x "\<lambda>x input. seq_result (f x)" "[]"]) (simp_all add: parses_def)

subsection \<open>Words\<close>

lemma emits_words:
  "emits (write_u8 v) [char_of v]" "emits (write_u16 v) (le_bytes 2 v)" "emits (write_u32 v) (le_bytes 4 v)" "emits (write_u64 v) (le_bytes 8 v)"
  "emits (write_i64 i) (le_bytes 8 (nat (i mod 2 ^ 64)))"
  by (simp_all add: write_u8_def write_u16_def write_u32_def write_u64_def write_i64_def emits_bytes)

lemma parses_word: "length bs = n \<Longrightarrow> of_le_bytes bs = v \<Longrightarrow> parses (\<lambda>input. seq_do (read_bytes n input) (\<lambda>bs. seq_ok (of_le_bytes bs))) bs v"
  by (rule parses_last) (use parses_bytes [of bs] in simp_all)

lemma parses_u8: "v < 256 \<Longrightarrow> parses read_u8 [char_of v] v"
  unfolding read_u8_def by (rule parses_word) simp_all

lemma parses_u16: "v < 2 ^ 16 \<Longrightarrow> parses read_u16 (le_bytes 2 v) v"
  unfolding read_u16_def by (rule parses_word) (simp_all add: of_le_le)

lemma parses_u32: "v < 2 ^ 32 \<Longrightarrow> parses read_u32 (le_bytes 4 v) v"
  unfolding read_u32_def by (rule parses_word) (simp_all add: of_le_le)

lemma parses_u64: "v < 2 ^ 64 \<Longrightarrow> parses read_u64 (le_bytes 8 v) v"
  unfolding read_u64_def by (rule parses_word) (simp_all add: of_le_le)

lemma to_i64_mod: "- (2 ^ 63) \<le> i \<Longrightarrow> i < 2 ^ 63 \<Longrightarrow> to_i64 (nat (i mod 2 ^ 64)) = i"
proof -
  assume i: "- (2 ^ 63) \<le> i" "i < 2 ^ 63"
  have "i mod 2 ^ 64 = (if 0 \<le> i then i else i + 2 ^ 64)"
    using i mod_pos_pos_trivial [of "i + 2 ^ 64" "2 ^ 64"] by (simp add: mod_pos_pos_trivial)
  then show ?thesis using i by (auto simp: to_i64_def)
qed

lemma parses_i64:
  assumes "- (2 ^ 63) \<le> i" "i < 2 ^ 63"
  shows "parses read_i64 (le_bytes 8 (nat (i mod 2 ^ 64))) i"
proof -
  have n: "nat (i mod 2 ^ 64) < 256 ^ 8" by (simp add: nat_less_iff)
  have "to_i64 (of_le_bytes (le_bytes 8 (nat (i mod 2 ^ 64)))) = i"
    unfolding of_le_le mod_less [OF n] by (rule to_i64_mod [OF assms])
  then show ?thesis unfolding read_i64_def using parses_bytes [of "le_bytes 8 (nat (i mod 2 ^ 64))"]
    by (intro parses_last [where x = "le_bytes 8 (nat (i mod 2 ^ 64))"]) simp_all
qed

subsection \<open>Varints\<close>

lemma and_seven: "v AND 127 = v mod 128" for v :: nat
  using take_bit_eq_mask [of 7 v] by (simp add: take_bit_eq_mod mask_eq_exp_minus_1)

lemma or_disjoint: "x < 2 ^ k \<Longrightarrow> x OR push_bit k y = x + y * 2 ^ k" for x y :: nat
proof -
  assume x: "x < 2 ^ k"
  have "\<not> bit x n" if "k \<le> n" for n
    using x that by (simp add: bit_iff_odd) (metis div_less even_zero order_less_le_trans one_le_numeral power_increasing)
  then have "x AND push_bit k y = 0" by (intro bit_eqI) (auto simp: bit_and_iff bit_push_bit_iff)
  then show ?thesis by (simp add: push_bit_eq_mult flip: disjunctive_add_eq_or)
qed

lemma or_high: "x < 128 \<Longrightarrow> x OR 128 = x + 128" for x :: nat
  using or_disjoint [of x 7 1] by simp

lemma and_field: "x AND push_bit k (mask m) = push_bit k (take_bit m (drop_bit k x))" for x :: nat
  by (rule bit_eqI) (auto simp: bit_simps)

lemma and_high: "x < 256 \<Longrightarrow> x AND 128 = 0 \<longleftrightarrow> x < 128" "x < 256 \<Longrightarrow> x AND 248 = 0 \<longleftrightarrow> x < 8"
  "x < 256 \<Longrightarrow> x AND 192 = 0 \<longleftrightarrow> x < 64" for x :: nat
  using and_field [of x 7 1] and_field [of x 3 5] and_field [of x 6 2]
  by (auto simp: mask_eq_exp_minus_1 push_bit_eq_mult take_bit_eq_mod drop_bit_eq_div)

fun var_bytes :: "nat \<Rightarrow> bytes" where
  "var_bytes v = (if v \<ge> 128 then char_of (v mod 128 + 128) # var_bytes (v div 128) else [char_of v])"

declare var_u64_len.simps [simp del] write_var_u64.simps [simp del] read_var_from.simps [simp del] var_bytes.simps [simp del]

lemma var_len: "var_u64_len v = (if v \<ge> 128 then var_u64_len (v div 128) + 1 else 1)"
  by (subst var_u64_len.simps) (simp add: drop_seven)

lemma length_var_bytes [simp]: "length (var_bytes v) = var_u64_len v"
  by (induction v rule: var_bytes.induct) (subst var_bytes.simps, subst var_len, simp)

lemma emits_var: "emits (write_var_u64 v) (var_bytes v)"
proof (induction v rule: var_bytes.induct)
  case (1 v)
  have d: "v div 128 \<noteq> 0 \<longleftrightarrow> 128 \<le> v" by auto
  have o: "(v mod 128) OR 128 = v mod 128 + 128" by (rule or_high) simp
  show ?case
  proof (cases "128 \<le> v")
    case True
    then show ?thesis using emits_do [OF emits_words(1) 1 [OF True], of "v mod 128 + 128"] d o
      by (subst write_var_u64.simps, subst var_bytes.simps) (simp add: Let_def and_seven drop_seven)
  next
    case False
    then show ?thesis using emits_words(1) [of v] d
      by (subst write_var_u64.simps, subst var_bytes.simps) (simp add: Let_def and_seven drop_seven)
  qed
qed

text \<open>A varint from an index on: \<open>w\<close> is what is left of the value.\<close>

lemma var_shift: "0 < w \<or> k = 0 \<Longrightarrow> acc < 2 ^ (7 * k) \<Longrightarrow> var_u64_len (acc + w * 2 ^ (7 * k)) = k + var_u64_len w"
proof (induction k arbitrary: acc w)
  case (Suc k)
  have e: "acc + w * 2 ^ (7 * Suc k) = acc mod 128 + 128 * (acc div 128 + w * 2 ^ (7 * k))"
    by (simp add: power_add algebra_simps mult_div_mod_eq)
  have a: "acc div 128 < 2 ^ (7 * k)" using Suc.prems(2) by (simp add: less_mult_imp_div_less power_add mult.commute)
  have "128 \<le> w * 2 ^ (7 * Suc k)" using Suc.prems(1) by (simp add: power_add)
  then have "128 \<le> acc + w * 2 ^ (7 * Suc k)" by simp
  then have "var_u64_len (acc + w * 2 ^ (7 * Suc k)) = var_u64_len (acc div 128 + w * 2 ^ (7 * k)) + 1"
    unfolding e by (subst var_len) (simp add: add.commute)
  then show ?case using Suc.IH [of w "acc div 128"] Suc.prems(1) a by simp
qed simp

lemma parses_var_from:
  "acc < 2 ^ (7 * k) \<Longrightarrow> 0 < w \<or> k = 0 \<Longrightarrow> acc + w * 2 ^ (7 * k) < 2 ^ 64 \<Longrightarrow>
   parses (\<lambda>input. read_var_from input k acc) (var_bytes w) (acc + w * 2 ^ (7 * k))"
proof (induction w arbitrary: k acc rule: var_bytes.induct)
  case (1 w)
  have k: "k < 10"
  proof (rule ccontr)
    assume "\<not> k < 10"
    then have "(2 :: nat) ^ 64 \<le> 2 ^ (7 * k)" by (intro power_increasing) simp_all
    moreover have "0 < w" using 1(3) \<open>\<not> k < 10\<close> by auto
    ultimately have "2 ^ 64 \<le> w * 2 ^ (7 * k)" by (metis One_nat_def Suc_leI mult_le_mono mult_1)
    then show False using 1(4) by linarith
  qed
  have nine: "w < 2" if "k = 9" using 1(4) that by simp
  show ?case
  proof (cases "128 \<le> w")
    case True
    let ?b = "w mod 128 + 128" and ?acc = "acc + (w mod 128) * 2 ^ (7 * k)"
    have b: "?b < 256" by simp
    have a: "?acc < 2 ^ (7 * (k + 1))"
    proof -
      have "?acc < (w mod 128 + 1) * 2 ^ (7 * k)" using 1(2) by simp
      also have "\<dots> \<le> 128 * 2 ^ (7 * k)" by (intro mult_le_mono1) (simp add: Suc_leI)
      finally show ?thesis by (simp add: power_add)
    qed
    have e: "?acc + w div 128 * 2 ^ (7 * (k + 1)) = acc + w * 2 ^ (7 * k)"
    proof -
      have "w * q = w mod 128 * q + 128 * (w div 128 * q)" for q :: nat
        using add_mult_distrib [of "w mod 128" "128 * (w div 128)" q] by (simp add: mult.assoc)
      from this [of "2 ^ (7 * k)"] show ?thesis by (simp add: power_add mult.left_commute)
    qed
    have rest: "parses (\<lambda>input. read_var_from input (k + 1) ?acc) (var_bytes (w div 128)) (acc + w * 2 ^ (7 * k))"
      using 1(1) [OF True a] 1(4) True unfolding e by simp
    have o: "acc OR push_bit (k * 7) (?b AND 127) = ?acc"
      using or_disjoint [OF 1(2), of "w mod 128"] by (simp add: and_seven mult.commute)
    have n: "\<not> (k = 9 \<and> 1 < ?b)" "?b AND 128 \<noteq> 0" "\<not> 10 \<le> k" using nine True k and_high(1) [OF b] by auto
    show ?thesis
      apply (subst read_var_from.simps, subst var_bytes.simps)
      apply (simp only: if_P [OF True] if_not_P [OF n(3)])
      apply (rule parses_do [OF parses_u8 [OF b], where b = "var_bytes (w div 128)"])
       apply (simp only: if_not_P [OF n(1)] Let_def o if_not_P [OF n(2)])
       apply (rule rest)
      by simp
  next
    case False
    then have b: "w < 256" by simp
    have o: "acc OR push_bit (k * 7) (w AND 127) = acc + w * 2 ^ (7 * k)"
      using or_disjoint [OF 1(2), of "w mod 128"] False by (simp add: and_seven mult.commute)
    have n: "\<not> (k = 9 \<and> 1 < w)" "w AND 128 = 0" "\<not> 10 \<le> k" using nine False k and_high(1) [OF b] by auto
    have l: "var_u64_len (acc + w * 2 ^ (7 * k)) = k + 1" using var_shift [OF 1(3,2)] var_len [of w] False by simp
    show ?thesis
      apply (subst read_var_from.simps, subst var_bytes.simps)
      apply (simp only: if_not_P [OF False] if_not_P [OF n(3)])
      apply (rule parses_do [OF parses_u8 [OF b], where b = "[]"])
       apply (simp only: if_not_P [OF n(1)] Let_def o if_P [OF n(2)] l simp_thms if_False)
       apply simp
      by simp
  qed
qed

lemma parses_var: "v < 2 ^ 64 \<Longrightarrow> parses read_var_u64 (var_bytes v) v"
  using parses_var_from [of 0 0 v] by (simp add: read_var_u64_def [abs_def])

lemma parses_var32: "v < 2 ^ 32 \<Longrightarrow> parses read_var_u32 (var_bytes v) v"
  unfolding read_var_u32_def by (rule parses_do [OF parses_var, where b = "[]"]) simp_all

lemma parses_var16: "v < 2 ^ 16 \<Longrightarrow> parses read_var_u16 (var_bytes v) v"
  unfolding read_var_u16_def by (rule parses_do [OF parses_var, where b = "[]"]) simp_all

subsection \<open>Events\<close>

text \<open>The values the types of an event allow, less the empty coverage and the atoms the validation refuses.\<close>

definition fact_ok :: "nat \<Rightarrow> fact_bytes \<Rightarrow> bool" where
  "fact_ok most p \<longleftrightarrow> 0 < fact_tag p \<and> fact_tag p < 2 ^ 16 \<and> as_bytes p \<noteq> [] \<and> length (as_bytes p) \<le> most"

definition metric_ok :: "source_metric \<Rightarrow> bool" where
  "metric_ok m \<longleftrightarrow> 0 < mt_utf16 m \<and> mt_utf16 m \<le> mt_bytes m \<and> mt_bytes m < 2 ^ 64"

definition frame_kind_ok :: "nat \<Rightarrow> nat \<Rightarrow> bool" where
  "frame_kind_ok frame kind \<longleftrightarrow> 0 < frame \<and> frame < 2 ^ 64 \<and> 0 < kind \<and> kind < 2 ^ 16"

definition event_ok :: "packed_event \<Rightarrow> bool" where
  "event_ok event \<longleftrightarrow> (case event of
       PackedEnter frame kind \<Rightarrow> frame_kind_ok frame kind
     | PackedProperty p \<Rightarrow> fact_ok PROPERTY_CHUNK_MAX_BYTES p
     | PackedCoverage physical owner_depth part atom \<Rightarrow>
         metric_ok physical \<and> owner_depth < 2 ^ 32 \<and> validate_atom atom physical = Inr () \<and>
         (case atom of TabToSpaces depth _ \<Rightarrow> depth < 2 ^ 32 | _ \<Rightarrow> True)
     | PackedRetypeOpen frame kind p \<Rightarrow>
         frame_kind_ok frame kind \<and> (case p of None \<Rightarrow> True | Some p \<Rightarrow> fact_ok PROPERTY_CHUNK_MAX_BYTES p)
     | PackedExit frame kind close _ _ \<Rightarrow>
         frame_kind_ok frame kind \<and> (case close of None \<Rightarrow> True | Some p \<Rightarrow> fact_ok CLOSE_FACTS_MAX_BYTES p))"

definition fact_code :: "fact_bytes \<Rightarrow> bytes" where
  "fact_code p = le_bytes 2 (fact_tag p) @ [char_of (length (as_bytes p))] @ as_bytes p"

definition atom_code :: "logical_atom \<Rightarrow> bytes" where
  "atom_code atom = [char_of (atom_tag atom)] @
     (case atom of TabToSpaces depth spaces \<Rightarrow> var_bytes depth @ [char_of spaces] | _ \<Rightarrow> [])"

definition child_code :: "closed_child \<Rightarrow> nat" where
  "child_code child = of_bool (cc_ends_blank child) OR push_bit 1 (of_bool (cc_loose_if_nonlast child))
     OR push_bit 2 (of_bool (cc_loose_if_last child))"

text \<open>The canonical bytes of an event.\<close>

definition event_code :: "packed_event \<Rightarrow> bytes" where
  "event_code event = (case event of
       PackedEnter frame kind \<Rightarrow> [char_of (1 :: nat)] @ var_bytes frame @ var_bytes kind
     | PackedProperty p \<Rightarrow> [char_of (2 :: nat)] @ fact_code p
     | PackedCoverage physical owner_depth part atom \<Rightarrow>
         [char_of (3 :: nat)] @ var_bytes (mt_bytes physical) @ var_bytes (mt_utf16 physical) @ var_bytes owner_depth @
         [char_of (part_code part)] @ atom_code atom
     | PackedRetypeOpen frame kind p \<Rightarrow>
         [char_of (4 :: nat)] @ var_bytes frame @ var_bytes kind @ [char_of (of_bool (p \<noteq> None) :: nat)] @ (case p of None \<Rightarrow> [] | Some p \<Rightarrow> fact_code p)
     | PackedExit frame kind close blank child \<Rightarrow>
         [char_of (5 :: nat)] @ var_bytes frame @ var_bytes kind @ [char_of (of_bool (close \<noteq> None) :: nat)] @
         (case close of None \<Rightarrow> [] | Some p \<Rightarrow> fact_code p) @ [char_of (of_bool blank :: nat)] @ [char_of (child_code child)])"

lemma length_event_code: "length (event_code event) = packed_event_len event"
  by (auto simp: event_code_def packed_event_len_def fact_code_def atom_code_def atom_extra_len_def
      split: packed_event.splits option.splits logical_atom.splits)

lemma emits_fact: "emits (encode_property p) (fact_code p)" "emits (encode_close p) (fact_code p)"
  unfolding encode_property_def encode_close_def fact_code_def by (intro emits_do emits_words emits_bytes)+

lemma emits_atom: "emits (encode_atom atom) (atom_code atom)"
  unfolding encode_atom_def atom_code_def
  by (intro emits_do emits_words) (auto intro: emits_do emits_words emits_var split: logical_atom.splits)

lemma emits_event:
  assumes "event_ok event"
  shows "emits (encode_packed_event event) (event_code event)"
proof (cases event)
  case (PackedCoverage physical owner_depth part atom)
  then show ?thesis using assms unfolding encode_packed_event_def event_code_def PackedCoverage packed_event.case
    by (intro emits_result emits_do emits_words emits_var emits_atom) (simp add: event_ok_def)
next
  case (PackedRetypeOpen frame kind p)
  then show ?thesis unfolding encode_packed_event_def event_code_def PackedRetypeOpen packed_event.case
    by (intro emits_do emits_words emits_var) (auto intro: emits_fact split: option.splits)
next
  case (PackedExit frame kind close blank child)
  then show ?thesis unfolding encode_packed_event_def event_code_def PackedExit packed_event.case child_code_def
    by (intro emits_do emits_words emits_var) (auto intro: emits_fact split: option.splits)
qed (simp_all only: encode_packed_event_def event_code_def packed_event.case, (intro emits_do emits_words emits_var emits_fact)+)

lemma parses_nonzero:
  "0 < v \<Longrightarrow> v < 2 ^ 16 \<Longrightarrow> parses (\<lambda>input. seq_do (read_u16 input) (\<lambda>v. seq_result (decode_tag v))) (le_bytes 2 v) v"
  "0 < v \<Longrightarrow> v < 2 ^ 64 \<Longrightarrow> parses (\<lambda>input. seq_do (read_var_u64 input) (\<lambda>v. seq_result (decode_frame v))) (var_bytes v) v"
  "0 < v \<Longrightarrow> v < 2 ^ 16 \<Longrightarrow> parses (\<lambda>input. seq_do (read_var_u16 input) (\<lambda>v. seq_result (decode_kind v))) (var_bytes v) v"
  by (rule parses_last_result [OF parses_u16] parses_last_result [OF parses_var] parses_last_result [OF parses_var16];
      simp add: decode_tag_def fact_tag_new_def decode_frame_def frame_id_new_def decode_kind_def kind_new_def)+

lemma parses_property: "fact_ok PROPERTY_CHUNK_MAX_BYTES p \<Longrightarrow> parses decode_property (fact_code p) p"
  unfolding decode_property_def [abs_def] fact_code_def fact_ok_def
  by (rule parses_seq [OF parses_nonzero(1)], simp, simp, rule parses_seq [OF parses_u8], simp add: PROPERTY_CHUNK_MAX_BYTES_def,
      rule parses_end [OF parses_bytes]) (auto simp: property_chunk_new_def)

lemma parses_close: "fact_ok CLOSE_FACTS_MAX_BYTES p \<Longrightarrow> parses decode_close (fact_code p) p"
  unfolding decode_close_def [abs_def] fact_code_def fact_ok_def
  by (rule parses_seq [OF parses_nonzero(1)], simp, simp, rule parses_seq [OF parses_u8], simp add: CLOSE_FACTS_MAX_BYTES_def,
      rule parses_end [OF parses_bytes]) (auto simp: close_facts_new_def)

lemma parses_frame_kind:
  "frame_kind_ok frame kind \<Longrightarrow> parses read_frame_kind (var_bytes frame @ var_bytes kind) (frame, kind)"
  unfolding read_frame_kind_def [abs_def] frame_kind_ok_def
  by (rule parses_seq [OF parses_nonzero(2)], simp, simp, rule parses_end [OF parses_nonzero(3)]) simp_all

lemma parses_flag: "parses (read_flag message) [char_of (of_bool b :: nat)] b"
  unfolding read_flag_def [abs_def]
  by (rule parses_end [OF parses_u8]) auto

lemma parses_optionally:
  "parses (optionally False r) [] None" "parses r bs x \<Longrightarrow> parses (optionally True r) bs (Some x)"
  unfolding optionally_def [abs_def] by (simp_all add: parses_last)

lemma parses_atom:
  assumes "case atom of TabToSpaces depth spaces \<Rightarrow> depth < 2 ^ 32 \<and> spaces < 256 | _ \<Rightarrow> True"
  shows "parses decode_atom (atom_code atom) atom"
  unfolding decode_atom_def [abs_def] atom_code_def
proof (rule parses_seq [OF parses_u8], goal_cases)
  case 1
  then show ?case by (cases atom) (simp_all add: atom_tag_def)
next
  case 2
  show ?case
  proof (cases atom)
    case (TabToSpaces depth spaces)
    then show ?thesis using assms
      by (simp add: atom_tag_def) (rule parses_seq [OF parses_var32], simp, rule parses_last [OF parses_u8], simp_all)
  qed (simp_all add: atom_tag_def)
qed

lemma child_bits:
  "child_code child < 256" "child_code child AND 248 = 0" "(child_code child AND 1 \<noteq> 0) = cc_ends_blank child"
  "(child_code child AND 2 \<noteq> 0) = cc_loose_if_nonlast child" "(child_code child AND 4 \<noteq> 0) = cc_loose_if_last child"
  by (cases "cc_ends_blank child"; cases "cc_loose_if_nonlast child"; cases "cc_loose_if_last child"; simp add: child_code_def)+

lemma parses_part: "parses (\<lambda>input. seq_do (read_u8 input) (\<lambda>v. seq_result (part_decode v))) [char_of (part_code part)] part"
  by (rule parses_last_result [OF parses_u8]) (cases part; simp add: part_code_def part_decode_def)+

lemma validate_atom_spaces: "validate_atom (TabToSpaces depth spaces) physical = Inr () \<Longrightarrow> spaces < 256"
  by (auto simp: validate_atom_def Let_def split: if_splits)

lemma parses_metric:
  "metric_ok m \<Longrightarrow> decode_metric (mt_bytes m) (mt_utf16 m) = Inr m"
  by (simp add: metric_ok_def decode_metric_def source_metric_new_def metric_is_empty_def)

lemma parses_event:
  assumes "event_ok event"
  shows "parses decode_packed_event (event_code event) event"
proof (cases event)
  case (PackedEnter frame kind)
  then show ?thesis using assms unfolding decode_packed_event_def [abs_def] event_code_def PackedEnter packed_event.case
    by (intro parses_seq [OF parses_u8]) (simp_all add: event_ok_def parses_last [OF parses_frame_kind])
next
  case (PackedProperty p)
  then show ?thesis using assms unfolding decode_packed_event_def [abs_def] event_code_def PackedProperty packed_event.case
    by (intro parses_seq [OF parses_u8]) (simp_all add: event_ok_def parses_last [OF parses_property])
next
  case (PackedCoverage physical owner_depth part atom)
  have ok: "metric_ok physical" "owner_depth < 2 ^ 32" "validate_atom atom physical = Inr ()"
    "mt_bytes physical < 2 ^ 64" "mt_utf16 physical < 2 ^ 64"
    using assms by (simp_all add: event_ok_def PackedCoverage metric_ok_def)
  have at: "case atom of TabToSpaces depth spaces \<Rightarrow> depth < 2 ^ 32 \<and> spaces < 256 | _ \<Rightarrow> True"
    using assms validate_atom_spaces by (auto simp: event_ok_def PackedCoverage split: logical_atom.splits)
  show ?thesis unfolding decode_packed_event_def [abs_def] event_code_def PackedCoverage packed_event.case
    apply (rule parses_seq [OF parses_u8], simp, simp)
    apply (unfold decode_coverage_def)
    apply (rule parses_seq [OF parses_var [OF ok(4)]], rule parses_seq [OF parses_var [OF ok(5)]])
    apply (rule parses_result [OF parses_metric [OF ok(1)]])
    apply (rule parses_seq [OF parses_var32 [OF ok(2)]], rule parses_cons [OF parses_part])
    by (rule parses_end [OF parses_atom [OF at]], rule parses_result [OF ok(3)]) simp_all
next
  case (PackedRetypeOpen frame kind p)
  have ok: "frame_kind_ok frame kind" "parses (optionally (p \<noteq> None) decode_property) (case p of None \<Rightarrow> [] | Some p \<Rightarrow> fact_code p) p"
    using assms by (auto simp: event_ok_def PackedRetypeOpen parses_optionally parses_property split: option.splits)
  show ?thesis unfolding decode_packed_event_def [abs_def] event_code_def PackedRetypeOpen packed_event.case
    apply (rule parses_seq [OF parses_u8], simp, simp del: not_None_eq split del: split_of_bool)
    apply (unfold decode_retype_def)
    apply (rule parses_do [OF parses_frame_kind [OF ok(1)], OF _ append_assoc [symmetric]], rule parses_cons [OF parses_flag])
    by (rule parses_last [OF ok(2)]) simp
next
  case (PackedExit frame kind close blank child)
  have ok: "frame_kind_ok frame kind" "parses (optionally (close \<noteq> None) decode_close) (case close of None \<Rightarrow> [] | Some p \<Rightarrow> fact_code p) close"
    using assms by (auto simp: event_ok_def PackedExit parses_optionally parses_close split: option.splits)
  show ?thesis unfolding decode_packed_event_def [abs_def] event_code_def PackedExit packed_event.case
    apply (rule parses_seq [OF parses_u8], simp, simp del: not_None_eq split del: split_of_bool)
    apply (unfold decode_exit_def)
    apply (rule parses_do [OF parses_frame_kind [OF ok(1)], OF _ append_assoc [symmetric]], rule parses_cons [OF parses_flag])
    apply (rule parses_seq [OF ok(2)], rule parses_cons [OF parses_flag])
    by (rule parses_end [OF parses_u8 [OF child_bits(1)]], simp only: child_bits fst_conv snd_conv simp_thms if_False, simp)
qed

subsection \<open>Canonical encodings\<close>

text \<open>The bytes between two cursors.\<close>

definition consumes :: "bytes \<Rightarrow> nat \<Rightarrow> nat \<Rightarrow> bytes \<Rightarrow> bool" where
  "consumes input c c' bs \<longleftrightarrow> c' = c + length bs \<and> c' \<le> length input \<and> take (length bs) (drop c input) = bs"

lemma consumes_append: "consumes input c d a \<Longrightarrow> consumes input d e b \<Longrightarrow> consumes input c e (a @ b)"
  by (auto simp: consumes_def take_add add.commute)

lemma consumes_cons: "consumes input c d [x] \<Longrightarrow> consumes input d e b \<Longrightarrow> consumes input c e (x # b)"
  using consumes_append [of input c d "[x]"] by simp

lemma seq_do_Inr: "seq_do m k t = Some (Inr y, u) \<longleftrightarrow> (\<exists>x t'. m t = Some (Inr x, t') \<and> k x t' = Some (Inr y, u))"
  by (auto simp: seq_do_def split: option.splits sum.splits)

lemma read_bytes_Inr: "read_bytes n input c = Some (Inr bs, c') \<longleftrightarrow> consumes input c c' bs \<and> length bs = n \<and> c' < 2 ^ 64"
  by (auto simp: read_bytes_def consumes_def checked_add_def split: option.splits if_splits)

lemma read_u8_Inr: "read_u8 input c = Some (Inr v, c') \<longleftrightarrow> v < 256 \<and> consumes input c c' [char_of v] \<and> c' < 2 ^ 64"
proof -
  have "(\<exists>bs. consumes input c c' bs \<and> length bs = 1 \<and> v = of_le_bytes bs) \<longleftrightarrow> v < 256 \<and> consumes input c c' [char_of v]"
    by (auto simp: length_Suc_conv intro!: exI [of _ "[char_of v]"])
  then show ?thesis by (auto simp: read_u8_def seq_do_Inr read_bytes_Inr)
qed

lemma read_u16_Inr: "read_u16 input c = Some (Inr v, c') \<Longrightarrow> v < 2 ^ 16 \<and> consumes input c c' (le_bytes 2 v)"
proof -
  assume "read_u16 input c = Some (Inr v, c')"
  then obtain bs where bs: "consumes input c c' bs" "length bs = 2" "v = of_le_bytes bs" by (auto simp: read_u16_def seq_do_Inr read_bytes_Inr)
  then show ?thesis using of_le_less [of bs] le_of_le [of bs] by simp
qed

lemma var_len_le: "v < 2 ^ (7 * k) \<Longrightarrow> 0 < k \<Longrightarrow> var_u64_len v \<le> k"
proof (induction k arbitrary: v)
  case (Suc k)
  show ?case
  proof (cases "128 \<le> v")
    case True
    have "v < 128 * 2 ^ (7 * k)" using Suc.prems by (simp add: power_add)
    then have "v div 128 < 2 ^ (7 * k)" by (simp add: less_mult_imp_div_less mult.commute)
    moreover have "0 < k" using True Suc.prems by (cases k) simp_all
    ultimately show ?thesis using Suc.IH [of "v div 128"] True by (subst var_len) simp
  qed (subst var_len, simp)
qed simp

lemma var_step: "128 \<le> v \<Longrightarrow> var_u64_len v = var_u64_len (v div 128) + 1 \<and> var_bytes v = char_of (v mod 128 + 128) # var_bytes (v div 128)"
  by (subst var_len, subst var_bytes.simps) simp

lemma read_var_from_Inr:
  "acc < 2 ^ (7 * k) \<Longrightarrow> read_var_from input k acc c = Some (Inr v, c') \<Longrightarrow>
   \<exists>w. v = acc + w * 2 ^ (7 * k) \<and> v < 2 ^ 64 \<and> consumes input c c' (var_bytes w) \<and> var_u64_len v = k + var_u64_len w"
proof (induction "10 - k" arbitrary: k acc c)
  case 0
  then show ?case by (simp add: read_var_from.simps)
next
  case (Suc n)
  then have k: "\<not> 10 \<le> k" by simp
  obtain b d where b: "b < 256" "consumes input c d [char_of b]" "\<not> (k = 9 \<and> 1 < b)"
    and r: "(let v' = acc OR push_bit (k * 7) (b AND 127) in
         if b AND 128 = 0 then
           if var_u64_len v' \<noteq> k + 1 then seq_err (Corrupt ''recursive-green varint is not minimally encoded'') else seq_ok v'
         else read_var_from input (k + 1) v') d = Some (Inr v, c')"
    using Suc.prems(2) k by (subst (asm) read_var_from.simps) (auto simp: seq_do_Inr read_u8_Inr split: if_splits)
  let ?acc = "acc + (b mod 128) * 2 ^ (7 * k)"
  have o: "acc OR push_bit (k * 7) (b AND 127) = ?acc"
    using or_disjoint [OF Suc.prems(1), of "b mod 128"] by (simp add: and_seven mult.commute)
  have a: "?acc < 2 ^ (7 * (k + 1))"
  proof -
    have "?acc < (b mod 128 + 1) * 2 ^ (7 * k)" using Suc.prems(1) by simp
    also have "\<dots> \<le> 128 * 2 ^ (7 * k)" by (intro mult_le_mono1) (simp add: Suc_leI)
    finally show ?thesis by (simp add: power_add)
  qed
  show ?case
  proof (cases "b < 128")
    case True
    then have v: "v = ?acc" "c' = d" "var_u64_len v = k + 1" using r o and_high(1) [OF b(1)] by (auto simp: Let_def split: if_splits)
    have "v < 2 ^ 64"
    proof (cases "k = 9")
      case True
      then show ?thesis using v Suc.prems(1) b(3) by (auto simp: not_less le_Suc_eq)
    next
      case False
      then have "(2 :: nat) ^ (7 * (k + 1)) \<le> 2 ^ 64" using k by (intro power_increasing) auto
      then show ?thesis using a v(1) by linarith
    qed
    moreover have "var_bytes b = [char_of b]" "var_u64_len b = 1" using True var_len [of b] var_bytes.simps [of b] by simp_all
    ultimately show ?thesis using True v b(2) by (intro exI [of _ b]) simp
  next
    case False
    then have "read_var_from input (k + 1) ?acc d = Some (Inr v, c')" using r o and_high(1) [OF b(1)] by (simp add: Let_def)
    then obtain w where w: "v = ?acc + w * 2 ^ (7 * (k + 1))" "v < 2 ^ 64" "consumes input d c' (var_bytes w)" "var_u64_len v = k + 1 + var_u64_len w"
      using Suc.hyps(1) [OF _ a] Suc.hyps(2) by fastforce
    have "w \<noteq> 0"
    proof
      assume "w = 0"
      then have "var_u64_len v \<le> k + 1" using var_len_le [OF a] w(1) by simp
      then show False using w(4) by (subst (asm) (2) var_len) (simp split: if_splits)
    qed
    let ?w = "b mod 128 + 128 * w"
    have m: "b mod 128 = b - 128" using False b(1) by (simp add: le_mod_geq)
    have e: "128 \<le> ?w" "?w div 128 = w" "?w mod 128 + 128 = b"
      using \<open>w \<noteq> 0\<close> by (simp_all add: trans_le_add2) (use m False in linarith)
    have "var_bytes ?w = char_of b # var_bytes w" "var_u64_len ?w = var_u64_len w + 1"
      using var_step [OF e(1)] unfolding e(2,3) by blast+
    moreover have "v = acc + ?w * 2 ^ (7 * k)" using w(1) by (simp add: power_add algebra_simps)
    ultimately show ?thesis using w consumes_cons [OF b(2) w(3)] by (intro exI [of _ ?w]) simp
  qed
qed

lemma read_var_Inr: "read_var_u64 input c = Some (Inr v, c') \<Longrightarrow> v < 2 ^ 64 \<and> consumes input c c' (var_bytes v)"
  using read_var_from_Inr [of 0 0 input c v c'] by (auto simp: read_var_u64_def)

lemma read_var32_Inr: "read_var_u32 input c = Some (Inr v, c') \<Longrightarrow> v < 2 ^ 32 \<and> consumes input c c' (var_bytes v)"
  by (auto simp: read_var_u32_def seq_do_Inr split: if_splits dest: read_var_Inr)

lemma read_var16_Inr: "read_var_u16 input c = Some (Inr v, c') \<Longrightarrow> v < 2 ^ 16 \<and> consumes input c c' (var_bytes v)"
  by (auto simp: read_var_u16_def seq_do_Inr split: if_splits dest: read_var_Inr)

lemma seq_result_Inr: "seq_result r t = Some (Inr x, u) \<longleftrightarrow> r = Inr x \<and> u = t"
  by auto

lemma decode_fact_Inr:
  "decode_property input c = Some (Inr p, c') \<Longrightarrow> fact_ok PROPERTY_CHUNK_MAX_BYTES p \<and> consumes input c c' (fact_code p)"
  "decode_close input c = Some (Inr p, c') \<Longrightarrow> fact_ok CLOSE_FACTS_MAX_BYTES p \<and> consumes input c c' (fact_code p)"
  by (auto simp: decode_property_def decode_close_def seq_do_Inr decode_tag_def fact_tag_new_def property_chunk_new_def close_facts_new_def
      read_bytes_Inr read_u8_Inr fact_ok_def fact_code_def split: if_splits sum.splits dest!: read_u16_Inr)
    (blast intro: consumes_append consumes_cons)+

lemma decode_atom_Inr:
  "decode_atom input c = Some (Inr atom, c') \<Longrightarrow>
   consumes input c c' (atom_code atom) \<and> (case atom of TabToSpaces depth _ \<Rightarrow> depth < 2 ^ 32 | _ \<Rightarrow> True)"
  by (auto simp: decode_atom_def seq_do_Inr read_u8_Inr atom_code_def atom_tag_def split: if_splits dest!: read_var32_Inr)
    (blast intro: consumes_append consumes_cons)

lemma read_frame_kind_Inr:
  "read_frame_kind input c = Some (Inr fk, c') \<Longrightarrow>
   frame_kind_ok (fst fk) (snd fk) \<and> consumes input c c' (var_bytes (fst fk) @ var_bytes (snd fk))"
  by (auto simp: read_frame_kind_def seq_do_Inr decode_frame_def decode_kind_def frame_id_new_def kind_new_def frame_kind_ok_def
      split: if_splits dest!: read_var_Inr read_var16_Inr intro: consumes_append)

lemma read_flag_Inr: "read_flag m input c = Some (Inr b, c') \<Longrightarrow> consumes input c c' [char_of (of_bool b :: nat)]"
  by (auto simp: read_flag_def seq_do_Inr read_u8_Inr split: if_splits)

lemma optionally_Inr:
  "optionally present r input c = Some (Inr x, c') \<Longrightarrow> (\<And>y. r input c = Some (Inr y, c') \<Longrightarrow> P y \<and> consumes input c c' (f y)) \<Longrightarrow> c \<le> length input \<Longrightarrow>
   (present \<longleftrightarrow> x \<noteq> None) \<and> (case x of None \<Rightarrow> True | Some y \<Rightarrow> P y) \<and> consumes input c c' (case x of None \<Rightarrow> [] | Some y \<Rightarrow> f y)"
  by (auto simp: optionally_def seq_do_Inr consumes_def split: if_splits)

lemma consumes_le: "consumes input c c' bs \<Longrightarrow> c' \<le> length input"
  by (simp add: consumes_def)

lemma decode_metric_Inr: "decode_metric m n = Inr x \<Longrightarrow> m < 2 ^ 64 \<Longrightarrow> metric_ok x \<and> mt_bytes x = m \<and> mt_utf16 x = n"
  by (auto simp: decode_metric_def source_metric_new_def metric_is_empty_def metric_ok_def split: if_splits)

lemma part_decode_Inr: "part_decode v = Inr p \<Longrightarrow> v = part_code p"
  by (auto simp: part_decode_def part_code_def split: if_splits)

lemma less_8: "n < 8 \<Longrightarrow> n \<in> {0, 1, 2, 3, 4, 5, 6, 7}" for n :: nat
  by auto

lemma child_code_of:
  "flags < 8 \<Longrightarrow> child_code \<lparr>cc_ends_blank = flags AND 1 \<noteq> 0, cc_loose_if_nonlast = flags AND 2 \<noteq> 0, cc_loose_if_last = flags AND 4 \<noteq> 0\<rparr> = flags"
  by (drule less_8) (auto simp: child_code_def)

lemma decode_coverage_Inr:
  "decode_coverage input d = Some (Inr event, c') \<Longrightarrow> consumes input c d [char_of (3 :: nat)] \<Longrightarrow>
   event_ok event \<and> consumes input c c' (event_code event)"
  by (auto simp: decode_coverage_def seq_do_Inr read_u8_Inr event_ok_def event_code_def
      dest!: read_var_Inr read_var32_Inr decode_atom_Inr decode_metric_Inr part_decode_Inr)
    (blast intro: consumes_append consumes_cons)

lemma decode_retype_Inr:
  assumes "decode_retype input d = Some (Inr event, c')" and t: "consumes input c d [char_of (4 :: nat)]"
  shows "event_ok event \<and> consumes input c c' (event_code event)"
proof -
  obtain fk e present f p where fk: "read_frame_kind input d = Some (Inr fk, e)"
    and fl: "read_flag ''invalid retype property flag'' input e = Some (Inr present, f)"
    and p: "optionally present decode_property input f = Some (Inr p, c')" and ev: "event = PackedRetypeOpen (fst fk) (snd fk) p"
    using assms(1) by (auto simp: decode_retype_def seq_do_Inr)
  note s = read_frame_kind_Inr [OF fk] read_flag_Inr [OF fl]
  have o: "(present \<longleftrightarrow> p \<noteq> None) \<and> (case p of None \<Rightarrow> True | Some y \<Rightarrow> fact_ok PROPERTY_CHUNK_MAX_BYTES y) \<and>
      consumes input f c' (case p of None \<Rightarrow> [] | Some y \<Rightarrow> fact_code y)"
    by (rule optionally_Inr [OF p _ consumes_le [OF s(2)]]) (rule decode_fact_Inr(1))
  have present: "present = (p \<noteq> None)" using o by blast
  have "consumes input c c' (char_of (4 :: nat) # (var_bytes (fst fk) @ var_bytes (snd fk)) @ char_of (of_bool (p \<noteq> None) :: nat) #
      (case p of None \<Rightarrow> [] | Some p \<Rightarrow> fact_code p))"
    by (rule consumes_cons [OF t], rule consumes_append, rule conjunct2 [OF s(1)], rule consumes_cons, rule s(2) [unfolded present]) (use o in simp)
  then show ?thesis using s o ev by (simp add: event_ok_def event_code_def del: not_None_eq split del: split_of_bool)
qed

lemma decode_exit_Inr:
  assumes "decode_exit input d = Some (Inr event, c')" and t: "consumes input c d [char_of (5 :: nat)]"
  shows "event_ok event \<and> consumes input c c' (event_code event)"
proof -
  obtain fk e present f close g blank h and flags :: nat where fk: "read_frame_kind input d = Some (Inr fk, e)"
    and fl: "read_flag ''invalid close-facts flag'' input e = Some (Inr present, f)"
    and p: "optionally present decode_close input f = Some (Inr close, g)"
    and b: "read_flag ''invalid last-line-blank flag'' input g = Some (Inr blank, h)"
    and u: "flags < 256" "flags AND 248 = 0" "consumes input h c' [char_of flags]"
    and ev: "event = PackedExit (fst fk) (snd fk) close blank
       \<lparr>cc_ends_blank = flags AND 1 \<noteq> 0, cc_loose_if_nonlast = flags AND 2 \<noteq> 0, cc_loose_if_last = flags AND 4 \<noteq> 0\<rparr>"
    using assms(1) unfolding decode_exit_def seq_do_Inr read_u8_Inr
    by (elim exE conjE) (simp split: if_splits del: One_nat_def)
  note s = read_frame_kind_Inr [OF fk] read_flag_Inr [OF fl] read_flag_Inr [OF b]
  have o: "(present \<longleftrightarrow> close \<noteq> None) \<and> (case close of None \<Rightarrow> True | Some y \<Rightarrow> fact_ok CLOSE_FACTS_MAX_BYTES y) \<and>
      consumes input f g (case close of None \<Rightarrow> [] | Some y \<Rightarrow> fact_code y)"
    by (rule optionally_Inr [OF p _ consumes_le [OF s(2)]]) (rule decode_fact_Inr(2))
  have present: "present = (close \<noteq> None)" using o by blast
  have "consumes input c c' (char_of (5 :: nat) # (var_bytes (fst fk) @ var_bytes (snd fk)) @ char_of (of_bool (close \<noteq> None) :: nat) #
      (case close of None \<Rightarrow> [] | Some p \<Rightarrow> fact_code p) @ char_of (of_bool blank :: nat) # [char_of flags])"
    by (rule consumes_cons [OF t], rule consumes_append, rule conjunct2 [OF s(1)], rule consumes_cons, rule s(2) [unfolded present], rule consumes_append,
        use o in blast, rule consumes_cons, rule s(3), rule u(3))
  moreover have "flags < 8" using and_high(2) [OF u(1)] u(2) by simp
  ultimately show ?thesis using s o unfolding ev event_ok_def event_code_def packed_event.case child_code_of [OF \<open>flags < 8\<close>]
    by (simp del: not_None_eq split del: split_of_bool)
qed

lemma decode_event_Inr:
  assumes "decode_packed_event input c = Some (Inr event, c')"
  shows "event_ok event \<and> consumes input c c' (event_code event)"
proof -
  obtain tag :: nat and d where t: "consumes input c d [char_of tag]" and r: "(if tag = 1 then seq_do (read_frame_kind input) (\<lambda>fk. seq_ok (PackedEnter (fst fk) (snd fk)))
       else if tag = 2 then seq_do (decode_property input) (\<lambda>p. seq_ok (PackedProperty p))
       else if tag = 3 then decode_coverage input
       else if tag = 4 then decode_retype input
       else if tag = 5 then decode_exit input
       else seq_err (Corrupt ''unknown recursive-green event tag'')) d = Some (Inr event, c')"
    using assms unfolding decode_packed_event_def seq_do_Inr [of "read_u8 input"] read_u8_Inr by blast
  consider "tag = 1" | "tag = 2" | "tag = 3" | "tag = 4" | "tag = 5" using r by (auto split: if_splits)
  then show ?thesis
  proof cases
    case 1
    then show ?thesis using r t
      by (auto simp: seq_do_Inr event_ok_def event_code_def dest!: read_frame_kind_Inr intro: consumes_cons)
  next
    case 2
    then show ?thesis using r t
      by (auto simp: seq_do_Inr event_ok_def event_code_def dest!: decode_fact_Inr(1) intro: consumes_cons)
  qed (use r t decode_coverage_Inr decode_retype_Inr decode_exit_Inr in auto)
qed

lemma consumes_parses:
  assumes "parses r bs x" "consumes input c c' bs" "length input < 2 ^ 64"
  shows "r input c = Some (Inr x, c')"
proof -
  have i: "input = take c input @ bs @ drop c' input" "length (take c input) = c"
    using assms(2) by (auto simp: consumes_def min_def) (metis append_take_drop_id drop_drop add.commute)
  show ?thesis using parsesD [OF assms(1), of "take c input" "drop c' input"] i assms(2,3) by (simp add: consumes_def)
qed

subsection \<open>Runs that end\<close>

text \<open>Nothing in the codec panics.\<close>

definition ends :: "('t, 'e, 'a) seq_run \<Rightarrow> bool" where
  "ends m \<longleftrightarrow> (\<forall>t. m t \<noteq> None)"

named_theorems ends_intros

lemma ends_do [ends_intros]: "ends m \<Longrightarrow> (\<And>x. ends (k x)) \<Longrightarrow> ends (seq_do m k)"
  by (auto simp: ends_def seq_do_def split: option.splits sum.splits)

lemma ends_basic [ends_intros]: "ends (seq_ok x)" "ends (seq_err e)" "ends (seq_result r)" "ends (seq_update e f)"
  by (auto simp: ends_def seq_update_def split: option.splits)

lemma ends_if [ends_intros]: "(b \<Longrightarrow> ends m) \<Longrightarrow> (\<not> b \<Longrightarrow> ends m') \<Longrightarrow> ends (if b then m else m')"
  by simp

lemma ends_test [ends_intros]: "(\<And>t. ends (m t)) \<Longrightarrow> (\<And>t. ends (m' t)) \<Longrightarrow> ends (\<lambda>t. if b t then m t t else m' t t)"
  by (simp add: ends_def)

lemma ends_bytes [ends_intros]: "ends (write_bytes bs)" "ends (read_bytes n input)"
  by (auto simp: ends_def write_bytes_def read_bytes_def split: option.splits)

lemma ends_words [ends_intros]:
  "ends (write_u8 v)" "ends (write_u16 v)" "ends (write_u32 v)" "ends (write_u64 v)" "ends (write_i64 i)"
  "ends (read_u8 input)" "ends (read_u16 input)" "ends (read_u32 input)" "ends (read_u64 input)" "ends (read_i64 input)"
  unfolding write_u8_def write_u16_def write_u32_def write_u64_def write_i64_def read_u8_def read_u16_def read_u32_def read_u64_def read_i64_def
  by (intro ends_intros)+

lemma ends_write_var [ends_intros]: "ends (write_var_u64 v)"
  by (induction v rule: write_var_u64.induct) (subst write_var_u64.simps, auto simp: Let_def intro: ends_intros)

lemma ends_read_var_from: "ends (read_var_from input k v)"
proof (induction input k v rule: read_var_from.induct)
  case (1 input k v)
  show ?case by (subst read_var_from.simps, unfold Let_def, intro ends_intros) (use 1 in \<open>simp_all add: Let_def\<close>)
qed

lemma ends_read_var [ends_intros]: "ends (read_var_u64 input)" "ends (read_var_u32 input)" "ends (read_var_u16 input)"
  unfolding read_var_u32_def read_var_u16_def read_var_u64_def by (intro ends_intros ends_read_var_from)+

lemma ends_encode_event: "ends (encode_packed_event event)"
  by (auto simp: encode_packed_event_def encode_property_def encode_close_def encode_atom_def split: packed_event.splits option.splits logical_atom.splits
      intro!: ends_intros)

lemma ends_decode_parts [ends_intros]:
  "ends (decode_property input)" "ends (decode_close input)" "ends (decode_atom input)" "ends (read_frame_kind input)" "ends (read_flag m input)"
  "ends (r input) \<Longrightarrow> ends (optionally b r input)"
  unfolding decode_property_def decode_close_def decode_atom_def read_frame_kind_def read_flag_def optionally_def
  by (intro ends_intros; (simp split: sum.split)?; (intro ends_intros allI impI conjI)?)+

lemma ends_decode_event: "ends (decode_packed_event input)"
  unfolding decode_packed_event_def decode_coverage_def decode_retype_def decode_exit_def by (intro ends_intros)

end
