(* ===== verification/Flark_Green_Pages.thy ===== *)
theory Flark_Green_Pages
  imports Flark_Green_Codec
begin

text \<open>
  The summary, branch and leaf pages of the green codec: what is encoded decodes again, and a decoded summary is valid.
\<close>

unbundle bit_operations_syntax

subsection \<open>Summaries\<close>

text \<open>The bounds of the fields of a summary; the least \<^verbatim>\<open>i64\<close> is not a closed depth.\<close>

definition witness_ok :: "open_witness \<Rightarrow> bool" where
  "witness_ok w \<longleftrightarrow> frame_kind_ok (gw_frame w) (gw_kind w) \<and> gw_ordinal w < 2 ^ 64"

definition is_i64 :: "int \<Rightarrow> bool" where
  "is_i64 i \<longleftrightarrow> - (2 ^ 63) \<le> i \<and> i < 2 ^ 63"

definition fields_ok :: "green_summary \<Rightarrow> bool" where
  "fields_ok s \<longleftrightarrow> (\<forall>n\<in>{gs_physical_bytes s, gs_physical_utf16 s, gs_logical_bytes s, gs_logical_utf16 s, gs_events s, gs_enters s, gs_row_exits s,
       gs_event_bytes s, gs_max_frame s}. n < 2 ^ 64) \<and>
     length (gc_hash (gs_commitment s)) = COMMITMENT_LANES \<and> length (gc_factor (gs_commitment s)) = COMMITMENT_LANES \<and>
     is_i64 (gs_balance s) \<and> is_i64 (gs_minimum_prefix s) \<and>
     (case gs_minimum_closed s of None \<Rightarrow> True | Some d \<Rightarrow> is_i64 d \<and> d \<noteq> - (2 ^ 63)) \<and>
     (case gs_oldest_open s of None \<Rightarrow> True | Some w \<Rightarrow> witness_ok w)"

definition i64_code :: "int \<Rightarrow> bytes" where
  "i64_code i = le_bytes 8 (nat (i mod 2 ^ 64))"

definition lanes_code :: "u64 list \<Rightarrow> bytes" where
  "lanes_code vs = concat (map (\<lambda>v. le_bytes 8 (unat v)) vs)"

definition closed_value :: "int option \<Rightarrow> int" where
  "closed_value c = (case c of None \<Rightarrow> - (2 ^ 63) | Some d \<Rightarrow> d)"

definition witness_value :: "open_witness option \<Rightarrow> open_witness" where
  "witness_value w = (case w of None \<Rightarrow> \<lparr>gw_frame = 1, gw_kind = 1, gw_ordinal = 0\<rparr> | Some w \<Rightarrow> w)"

definition summary_code :: "green_summary \<Rightarrow> bytes" where
  "summary_code s = le_bytes 8 (gs_physical_bytes s) @ le_bytes 8 (gs_physical_utf16 s) @ le_bytes 8 (gs_logical_bytes s) @
     le_bytes 8 (gs_logical_utf16 s) @ le_bytes 8 (gs_events s) @ le_bytes 8 (gs_enters s) @ le_bytes 8 (gs_row_exits s) @
     le_bytes 8 (gs_event_bytes s) @ (lanes_code (gc_hash (gs_commitment s)) @ lanes_code (gc_factor (gs_commitment s))) @
     le_bytes 8 (gs_max_frame s) @ i64_code (gs_balance s) @ i64_code (gs_minimum_prefix s) @ i64_code (closed_value (gs_minimum_closed s)) @
     [char_of (of_bool (gs_oldest_open s \<noteq> None) :: nat)] @ le_bytes 8 (gw_frame (witness_value (gs_oldest_open s))) @
     le_bytes 2 (gw_kind (witness_value (gs_oldest_open s))) @ le_bytes 8 (gw_ordinal (witness_value (gs_oldest_open s))) @
     [char_of (encode_child_fold (gs_children s))]"

lemma length_lanes_code [simp]: "length (lanes_code vs) = 8 * length vs"
  by (induction vs) (simp_all add: lanes_code_def)

lemma length_summary_code: "fields_ok s \<Longrightarrow> length (summary_code s) = GREEN_SUMMARY_BYTES"
  by (simp add: summary_code_def fields_ok_def i64_code_def GREEN_SUMMARY_BYTES_def COMMITMENT_BYTES_def COMMITMENT_LANES_def)

lemma emits_lanes: "emits (write_lanes vs) (lanes_code vs)"
proof (induction vs)
  case (Cons v vs)
  then show ?case unfolding write_lanes.simps lanes_code_def list.map concat.simps by (intro emits_do emits_words)
qed (simp only: write_lanes.simps lanes_code_def list.map concat.simps emits_ok)

lemma emits_summary: "validate_summary s = Inr () \<Longrightarrow> emits (encode_summary s) (summary_code s)"
  unfolding encode_summary_def summary_code_def Let_def encode_event_commitment_def i64_code_def closed_value_def [symmetric] witness_value_def [symmetric]
  by (intro emits_result emits_do emits_words emits_lanes)

lemma parses_lanes: "length vs = n \<Longrightarrow> parses (read_lanes n) (lanes_code vs) vs"
proof (induction n arbitrary: vs)
  case (Suc n)
  then obtain v ws where vs: "vs = v # ws" "length ws = n" by (auto simp: length_Suc_conv)
  have v: "unat v < 2 ^ 64" using unsigned_less [of v, where 'a = nat] by simp
  show ?case unfolding vs(1) lanes_code_def list.map concat.simps read_lanes.simps [abs_def]
    by (rule parses_seq [OF parses_u64 [OF v]], rule parses_end [OF Suc.IH [OF vs(2), unfolded lanes_code_def]]) simp
qed (simp only: length_0_conv read_lanes.simps [abs_def] lanes_code_def list.map concat.simps parses_ok)

lemma parses_commitment:
  "commitment_is_valid c \<Longrightarrow> length (gc_hash c) = COMMITMENT_LANES \<Longrightarrow> length (gc_factor c) = COMMITMENT_LANES \<Longrightarrow>
   parses decode_event_commitment (lanes_code (gc_hash c) @ lanes_code (gc_factor c)) c"
  unfolding decode_event_commitment_def [abs_def]
  by (rule parses_seq [OF parses_lanes], assumption, rule parses_last_result [OF parses_lanes], assumption) (cases c, simp add: commitment_from_lanes_def)

lemma child_fold_bits:
  "encode_child_fold f < 256" "decode_child_fold (encode_child_fold f) = Inr f"
  by (cases f; simp add: encode_child_fold_def decode_child_fold_def split: if_splits)+

lemma parses_fields:
  "is_i64 i \<Longrightarrow> parses read_i64 (i64_code i) i"
  unfolding is_i64_def i64_code_def by (rule parses_i64) simp_all

lemma parses_summary:
  assumes v: "validate_summary s = Inr ()" and f: "fields_ok s"
  shows "parses decode_summary (summary_code s) s"
proof -
  let ?w = "witness_value (gs_oldest_open s)"
  have n: "gs_physical_bytes s < 2 ^ 64" "gs_physical_utf16 s < 2 ^ 64" "gs_logical_bytes s < 2 ^ 64" "gs_logical_utf16 s < 2 ^ 64"
    "gs_events s < 2 ^ 64" "gs_enters s < 2 ^ 64" "gs_row_exits s < 2 ^ 64" "gs_event_bytes s < 2 ^ 64" "gs_max_frame s < 2 ^ 64"
    using f by (simp_all add: fields_ok_def)
  have c: "commitment_is_valid (gs_commitment s)" using v by (auto simp: validate_summary_def split: if_splits)
  have l: "length (gc_hash (gs_commitment s)) = COMMITMENT_LANES" "length (gc_factor (gs_commitment s)) = COMMITMENT_LANES"
    using f by (simp_all add: fields_ok_def)
  have w: "gw_frame ?w < 2 ^ 64" "gw_kind ?w < 2 ^ 16" "gw_ordinal ?w < 2 ^ 64" "0 < gw_frame ?w" "0 < gw_kind ?w"
    using f by (auto simp: fields_ok_def witness_value_def witness_ok_def frame_kind_ok_def split: option.splits)
  have i: "is_i64 (gs_balance s)" "is_i64 (gs_minimum_prefix s)" "is_i64 (closed_value (gs_minimum_closed s))"
    using f by (auto simp: fields_ok_def closed_value_def is_i64_def split: option.splits)
  have m: "(if closed_value (gs_minimum_closed s) = - (2 ^ 63) then None else Some (closed_value (gs_minimum_closed s))) = gs_minimum_closed s"
    using f by (auto simp: fields_ok_def closed_value_def split: option.splits)
  have o: "parses (\<lambda>input. if (of_bool (gs_oldest_open s \<noteq> None) :: nat) = 0 then seq_ok None
      else if (of_bool (gs_oldest_open s \<noteq> None) :: nat) = 1 then
        seq_do (seq_result (decode_frame (gw_frame ?w))) (\<lambda>frame.
        seq_do (seq_result (decode_kind (gw_kind ?w))) (\<lambda>kind.
        seq_ok (Some \<lparr>gw_frame = frame, gw_kind = kind, gw_ordinal = gw_ordinal ?w\<rparr>)))
      else seq_err (Corrupt ''invalid open-witness flag'')) [] (gs_oldest_open s)"
  proof (cases "gs_oldest_open s")
    case (Some x)
    then show ?thesis using w
      by (simp add: witness_value_def parses_def seq_do_def decode_frame_def decode_kind_def frame_id_new_def kind_new_def)
  qed (simp add: parses_def)
  have children: "parses (\<lambda>input. seq_do (read_u8 input) (\<lambda>flags. seq_result (decode_child_fold flags)))
      [char_of (encode_child_fold (gs_children s))] (gs_children s)"
    by (rule parses_last_result [OF parses_u8 [OF child_fold_bits(1)]]) (rule child_fold_bits(2))
  show ?thesis unfolding decode_summary_def [abs_def] summary_code_def Let_def
    apply (rule parses_seq [OF parses_u64 [OF n(1)]], rule parses_seq [OF parses_u64 [OF n(2)]], rule parses_seq [OF parses_u64 [OF n(3)]],
        rule parses_seq [OF parses_u64 [OF n(4)]], rule parses_seq [OF parses_u64 [OF n(5)]], rule parses_seq [OF parses_u64 [OF n(6)]],
        rule parses_seq [OF parses_u64 [OF n(7)]], rule parses_seq [OF parses_u64 [OF n(8)]])
    apply (rule parses_seq [OF parses_commitment [OF c l]], rule parses_seq [OF parses_u64 [OF n(9)]])
    apply (rule parses_seq [OF parses_fields [OF i(1)]], rule parses_seq [OF parses_fields [OF i(2)]], rule parses_seq [OF parses_fields [OF i(3)]])
    apply (rule parses_seq [OF parses_u8], simp, rule parses_seq [OF parses_u64 [OF w(1)]], rule parses_seq [OF parses_u16 [OF w(2)]],
        rule parses_seq [OF parses_u64 [OF w(3)]])
    apply (rule parses_end [OF children])
    apply (rule parses_end [OF o])
    unfolding m by (rule parses_result) (use v in \<open>cases s, simp\<close>)+
qed

lemma ends_summary [ends_intros]: "ends (encode_summary s)" "ends (decode_summary input)"
proof -
  have w: "ends (write_lanes vs)" for vs by (induction vs) (simp_all only: write_lanes.simps ends_intros)
  have r: "ends (read_lanes n input)" for n by (induction n) (simp_all only: read_lanes.simps ends_intros)
  show "ends (encode_summary s)" "ends (decode_summary input)"
    unfolding encode_summary_def decode_summary_def encode_event_commitment_def decode_event_commitment_def Let_def
    by (intro ends_intros w r)+
qed

lemma decode_summary_valid: "decode_summary input c = Some (Inr s, c') \<Longrightarrow> validate_summary s = Inr ()"
  by (auto simp: decode_summary_def seq_do_Inr Let_def)

subsection \<open>Branches\<close>

definition branch_code :: "green_summary sequence_measure \<Rightarrow> bytes" where
  "branch_code m = GREEN_BRANCH_MAGIC @ le_bytes 4 GREEN_SCHEMA @ le_bytes 8 (sm_leaves m) @ le_bytes 2 (sm_height m) @ summary_code (sm_summary m)"

lemma green_sizes [simp]: "GREEN_SUMMARY_BYTES = 180" "GREEN_BRANCH_BYTES = 198" "GREEN_LEAF_HEADER_BYTES = 192" "length GREEN_BRANCH_MAGIC = 4"
  "length GREEN_LEAF_MAGIC = 4" "ARENA_PAGE_BYTES = 4096"
  by (simp_all add: GREEN_SUMMARY_BYTES_def GREEN_BRANCH_BYTES_def GREEN_LEAF_HEADER_BYTES_def COMMITMENT_BYTES_def COMMITMENT_LANES_def
      GREEN_BRANCH_MAGIC_def GREEN_LEAF_MAGIC_def ARENA_PAGE_BYTES_def)

lemma length_branch_code: "fields_ok (sm_summary m) \<Longrightarrow> length (branch_code m) = GREEN_BRANCH_BYTES"
  by (simp add: branch_code_def length_summary_code)

lemma seq_do_assoc: "seq_do (seq_do m k) l = seq_do m (\<lambda>x. seq_do (k x) l)"
  by (rule ext) (simp add: seq_do_def split: option.splits sum.splits prod.splits)

lemma seq_do_run: "m t = Some (Inr x, u) \<Longrightarrow> seq_do m k t = k x u"
  by (simp add: seq_do_def)

lemma seq_result_ok: "r = Inr x \<Longrightarrow> seq_do (seq_result r) k = k x"
  by (rule ext) (simp add: seq_do_def)

lemma encode_branch_page:
  assumes v: "validate_summary (sm_summary m) = Inr ()" and f: "fields_ok (sm_summary m)"
  shows "green_encode_branch m zero_page = Some (Inr GREEN_BRANCH_BYTES, branch_code m @ drop GREEN_BRANCH_BYTES zero_page)"
proof -
  let ?w = "seq_do (write_bytes GREEN_BRANCH_MAGIC) (\<lambda>_. seq_do (write_u32 GREEN_SCHEMA) (\<lambda>_. seq_do (write_u64 (sm_leaves m)) (\<lambda>_.
    seq_do (write_u16 (sm_height m)) (\<lambda>_. encode_summary (sm_summary m)))))"
  have "emits ?w (branch_code m)" unfolding branch_code_def by (intro emits_do emits_bytes emits_words emits_summary v)
  then have w: "?w (zero_page, 0) = Some (Inr (), branch_code m @ drop GREEN_BRANCH_BYTES zero_page, GREEN_BRANCH_BYTES)"
    using emitsD [of ?w "branch_code m" 0 zero_page] length_branch_code [OF f] by (simp add: zero_page_def)
  have "green_encode_branch m zero_page = (case seq_do ?w (\<lambda>_ t. if snd t \<noteq> GREEN_BRANCH_BYTES
      then seq_err (Corrupt ''recursive-green branch size changed'') t else seq_ok (snd t) t) (zero_page, 0) of
      None \<Rightarrow> None | Some (r, out, _) \<Rightarrow> Some (r, out))"
    by (simp only: green_encode_branch_def seq_do_assoc seq_result_ok [OF v])
  also have "\<dots> = Some (Inr GREEN_BRANCH_BYTES, branch_code m @ drop GREEN_BRANCH_BYTES zero_page)"
    by (simp only: seq_do_run [of ?w "(zero_page, 0)", OF w]) simp
  finally show ?thesis .
qed

lemma starting_at_Inr: "m c = Some (Inr x, c') \<Longrightarrow> starting_at c m t = Some (Inr (x, c'), t)"
  by (simp add: starting_at_def)

lemma ends_starting_at [ends_intros]: "ends m \<Longrightarrow> ends (starting_at c m)"
  by (auto simp: ends_def starting_at_def split: option.splits sum.splits prod.splits)

lemma decode_branch_page:
  assumes v: "validate_summary (sm_summary m) = Inr ()" and f: "fields_ok (sm_summary m)"
    and m: "2 \<le> sm_leaves m" "sm_leaves m < 2 ^ 64" "2 \<le> sm_height m" "sm_height m < 2 ^ 16"
  shows "decode_branch_measure (branch_code m) 4 = Some (Inr m, GREEN_BRANCH_BYTES)"
proof -
  let ?p = "branch_code m"
  have len: "length ?p = GREEN_BRANCH_BYTES" by (rule length_branch_code [OF f])
  have ls: "length (summary_code (sm_summary m)) = 180" using length_summary_code [OF f] by simp
  have a: "read_u32 ?p 4 = Some (Inr GREEN_SCHEMA, 8)"
    using parsesD [OF parses_u32 [of GREEN_SCHEMA], of GREEN_BRANCH_MAGIC] by (simp add: branch_code_def GREEN_SCHEMA_def ls)
  have b: "read_u64 ?p 8 = Some (Inr (sm_leaves m), 16)"
    using parsesD [OF parses_u64 [OF m(2)], of "GREEN_BRANCH_MAGIC @ le_bytes 4 GREEN_SCHEMA"] by (simp add: branch_code_def ls)
  have c: "read_u16 ?p 16 = Some (Inr (sm_height m), 18)"
    using parsesD [OF parses_u16 [OF m(4)], of "GREEN_BRANCH_MAGIC @ le_bytes 4 GREEN_SCHEMA @ le_bytes 8 (sm_leaves m)"]
    by (simp add: branch_code_def ls)
  have d: "decode_summary ?p 18 = Some (Inr (sm_summary m), 198)"
    using parsesD [OF parses_summary [OF v f], of "GREEN_BRANCH_MAGIC @ le_bytes 4 GREEN_SCHEMA @ le_bytes 8 (sm_leaves m) @ le_bytes 2 (sm_height m)" "[]"]
    by (simp add: branch_code_def ls)
  show ?thesis using m len by (simp add: decode_branch_measure_def seq_do_def a b c d)
qed

text \<open>The branch a page carries does not depend on the counters, and no leaf page is a branch page.\<close>

lemma seq_update_Inr: "seq_update e f t = Some (Inr x, u) \<longleftrightarrow> f t = Some u \<and> x = ()"
  by (auto simp: seq_update_def split: option.splits)

lemma starting_at_Inr_iff: "starting_at c m t = Some (Inr y, u) \<longleftrightarrow> u = t \<and> m c = Some (Inr (fst y), snd y)"
  by (cases y) (auto simp: starting_at_def split: option.splits sum.splits prod.splits)

lemma green_branch_Inr:
  "green_branch_measure p i = Some (Inr (Some m), j) \<longleftrightarrow> take 4 p = GREEN_BRANCH_MAGIC \<and> length p = GREEN_BRANCH_BYTES \<and>
     charge_payload_bytes (length p) i = Some j \<and> (\<exists>c. decode_branch_measure p 4 = Some (Inr m, c))"
  by (auto simp: green_branch_measure_def seq_do_Inr seq_update_Inr starting_at_Inr_iff split: prod.splits)

lemma green_branch_None: "green_branch_measure p i = Some (Inr None, j) \<longleftrightarrow> take 4 p \<noteq> GREEN_BRANCH_MAGIC \<and> i = j"
  by (auto simp: green_branch_measure_def seq_do_Inr seq_update_Inr starting_at_Inr_iff split: prod.splits)

lemma magics_differ: "GREEN_LEAF_MAGIC \<noteq> GREEN_BRANCH_MAGIC"
  by (simp add: GREEN_LEAF_MAGIC_def GREEN_BRANCH_MAGIC_def)

lemma ends_branch_measure: "ends (green_branch_measure p)" "green_encode_branch m page \<noteq> None"
proof -
  show "ends (green_branch_measure p)" unfolding green_branch_measure_def decode_branch_measure_def
    by (intro ends_intros; (simp only: split_beta)?; (intro ends_intros)?)
  have "ends (seq_do (seq_result (validate_summary (sm_summary m))) (\<lambda>_. seq_do (write_bytes GREEN_BRANCH_MAGIC) (\<lambda>_.
      seq_do (write_u32 GREEN_SCHEMA) (\<lambda>_. seq_do (write_u64 (sm_leaves m)) (\<lambda>_. seq_do (write_u16 (sm_height m)) (\<lambda>_.
      seq_do (encode_summary (sm_summary m)) (\<lambda>_ t.
        if snd t \<noteq> GREEN_BRANCH_BYTES then seq_err (Corrupt ''recursive-green branch size changed'') t else seq_ok (snd t) t)))))))"
    by (intro ends_intros)
  then show "green_encode_branch m page \<noteq> None" unfolding green_encode_branch_def ends_def by (auto split: option.splits)
qed

end
