(* ===== verification/Flark_Green_Summary.thy ===== *)
theory Flark_Green_Summary
  imports Flark_Green_Pages
begin

text \<open>
  The algebra of green summaries, \<^verbatim>\<open>checked_followed_by\<close>: on the summaries that can arise it is a checked addition, exact unless a counter
  overflows, and associative below \<open>2 ^ 63\<close> events.
\<close>

unbundle bit_operations_syntax

subsection \<open>Commitments\<close>

lemma combine_lanes:
  assumes "lane < COMMITMENT_LANES"
  shows "unat (gc_hash (commitment_combine c d) ! lane) =
      (unat (gc_hash c ! lane) * unat (gc_factor d ! lane) + unat (gc_hash d ! lane)) mod P61"
    and "unat (gc_factor (commitment_combine c d) ! lane) = (unat (gc_factor c ! lane) * unat (gc_factor d ! lane)) mod P61"
  using assms by (simp_all add: commitment_combine_def mod_operations mod_simps)

lemma length_combine [simp]:
  "length (gc_hash (commitment_combine c d)) = COMMITMENT_LANES" "length (gc_factor (commitment_combine c d)) = COMMITMENT_LANES"
  by (simp_all add: commitment_combine_def)

lemma valid_lanes:
  "commitment_is_valid c \<longleftrightarrow> (\<forall>lane<COMMITMENT_LANES. unat (gc_hash c ! lane) < P61 \<and> unat (gc_factor c ! lane) \<noteq> 0 \<and> unat (gc_factor c ! lane) < P61)"
  by (auto simp: commitment_is_valid_def word_less_nat_alt unat_MODULUS unat_eq_zero)

lemma commitment_eqI:
  fixes c d :: green_commitment
  assumes "\<And>lane. lane < COMMITMENT_LANES \<Longrightarrow> unat (gc_hash c ! lane) = unat (gc_hash d ! lane)"
    and "\<And>lane. lane < COMMITMENT_LANES \<Longrightarrow> unat (gc_factor c ! lane) = unat (gc_factor d ! lane)"
    and "length (gc_hash c) = COMMITMENT_LANES" "length (gc_hash d) = COMMITMENT_LANES" "length (gc_factor c) = COMMITMENT_LANES"
      "length (gc_factor d) = COMMITMENT_LANES"
  shows "c = d"
proof -
  have "gc_hash c = gc_hash d" "gc_factor c = gc_factor d" using assms by (auto intro!: nth_equalityI simp: word_unat_eq_iff)
  then show ?thesis by (rule green_commitment.equality) simp
qed

lemma lane_assoc:
  "((h * f + k) mod p * g + l) mod p = (h * (f * g mod p) + (k * g + l) mod p) mod p" for p :: nat
proof -
  have "((h * f + k) mod p * g + l) mod p = ((h * f + k) * g + l) mod p"
    by (rule mod_add_cong [OF mod_mult_left_eq refl])
  also have "\<dots> = (h * (f * g) + (k * g + l)) mod p" by (simp add: algebra_simps)
  also have "\<dots> = (h * (f * g mod p) + (k * g + l) mod p) mod p"
    by (rule mod_add_cong [symmetric, OF mod_mult_right_eq mod_mod_trivial])
  finally show ?thesis .
qed

lemma combine_assoc: "commitment_combine (commitment_combine c d) e = commitment_combine c (commitment_combine d e)"
  by (rule commitment_eqI) (simp_all only: combine_lanes lane_assoc length_combine mod_mult_left_eq mod_mult_right_eq mult.assoc)

lemma combine_valid:
  "commitment_is_valid (commitment_combine c d) \<longleftrightarrow> (\<forall>lane<COMMITMENT_LANES. (unat (gc_factor c ! lane) * unat (gc_factor d ! lane)) mod P61 \<noteq> 0)"
  by (auto simp: valid_lanes combine_lanes)

lemma combine_valid_parts:
  assumes "commitment_is_valid (commitment_combine (commitment_combine c d) e)"
  shows "commitment_is_valid (commitment_combine c d)" "commitment_is_valid (commitment_combine d e)"
proof -
  have right: "(a * b mod p * c) mod p = 0" if "(b * c) mod p = 0" for a b c p :: nat
  proof -
    have "(a * b mod p * c) mod p = (a * (b * c mod p)) mod p" by (simp only: mod_mult_left_eq mod_mult_right_eq mult.assoc)
    then show ?thesis using that by simp
  qed
  have parts: "(a * b) mod p \<noteq> 0 \<and> (b * c) mod p \<noteq> 0" if "(a * b mod p * c) mod p \<noteq> 0" for a b c p :: nat
  proof
    show "(a * b) mod p \<noteq> 0"
    proof
      assume "(a * b) mod p = 0"
      then show False using that by (simp only: mult_0 mod_0)
    qed
  qed (use that right [of b c p a] in argo)
  have "(unat (gc_factor c ! lane) * unat (gc_factor d ! lane)) mod P61 \<noteq> 0 \<and> (unat (gc_factor d ! lane) * unat (gc_factor e ! lane)) mod P61 \<noteq> 0"
    if l: "lane < COMMITMENT_LANES" for lane
    proof (rule parts)
    show "(unat (gc_factor c ! lane) * unat (gc_factor d ! lane)) mod P61 * unat (gc_factor e ! lane) mod P61 \<noteq> 0"
      using assms l unfolding combine_valid combine_lanes(2) [OF l, of c d, symmetric] by blast
  qed
  then show "commitment_is_valid (commitment_combine c d)" "commitment_is_valid (commitment_combine d e)"
    unfolding combine_valid by blast+
qed

subsection \<open>Children\<close>

lemma followed_by_assoc: "child_fold_followed_by (child_fold_followed_by f g) h = child_fold_followed_by f (child_fold_followed_by g h)"
  by (auto simp: child_fold_followed_by_def)

lemma followed_by_default [simp]: "child_fold_followed_by child_fold_default f = f"
  by (simp add: child_fold_followed_by_def child_fold_default_def)

subsection \<open>Valid summaries\<close>

lemma validate_iff:
  "validate_summary s = Inr () \<longleftrightarrow> gs_physical_utf16 s \<le> gs_physical_bytes s \<and> gs_logical_utf16 s \<le> gs_logical_bytes s \<and>
     gs_enters s \<le> gs_events s \<and> (gs_enters s = 0 \<longleftrightarrow> gs_max_frame s = 0) \<and> (gs_events s = 0 \<longleftrightarrow> gs_event_bytes s = 0) \<and>
     gs_events s \<le> gs_event_bytes s \<and> commitment_is_valid (gs_commitment s) \<and> (gs_events s = 0 \<longrightarrow> s = summary_empty) \<and>
     gs_minimum_prefix s \<le> 0 \<and> gs_minimum_prefix s \<noteq> - (2 ^ 63) \<and> gs_minimum_prefix s \<le> gs_balance s \<and>
     gs_balance s - gs_minimum_prefix s < 2 ^ 64 \<and> (gs_balance s = gs_minimum_prefix s \<longleftrightarrow> gs_oldest_open s = None) \<and>
     (\<forall>w. gs_oldest_open s = Some w \<longrightarrow> gw_ordinal w < gs_events s) \<and> (gs_minimum_closed s = None \<longrightarrow> gs_children s = child_fold_default)"
  by (auto simp: validate_summary_def unmatched_opens_def unmatched_closes_def Let_def and_ok_Inr not_less split: if_splits option.splits)

text \<open>The summaries that can arise: valid, within their types, no deeper than they have events.\<close>

definition sound :: "green_summary \<Rightarrow> bool" where
  "sound s \<longleftrightarrow> validate_summary s = Inr () \<and>
     (\<forall>n\<in>{gs_physical_bytes s, gs_physical_utf16 s, gs_logical_bytes s, gs_logical_utf16 s, gs_events s, gs_enters s, gs_row_exits s,
        gs_event_bytes s, gs_max_frame s}. n < 2 ^ 64) \<and>
     length (gc_hash (gs_commitment s)) = COMMITMENT_LANES \<and> length (gc_factor (gs_commitment s)) = COMMITMENT_LANES \<and>
     is_i64 (gs_balance s) \<and> is_i64 (gs_minimum_prefix s) \<and> (\<forall>d. gs_minimum_closed s = Some d \<longrightarrow> is_i64 d) \<and>
     (\<forall>w. gs_oldest_open s = Some w \<longrightarrow> witness_ok w) \<and>
     \<bar>gs_balance s\<bar> \<le> int (gs_events s) \<and> - int (gs_events s) \<le> gs_minimum_prefix s \<and>
     (\<forall>d. gs_minimum_closed s = Some d \<longrightarrow> \<bar>d\<bar> \<le> int (gs_events s))"

definition shift_witness :: "nat \<Rightarrow> open_witness \<Rightarrow> open_witness" where
  "shift_witness n w = w\<lparr>gw_ordinal := gw_ordinal w + n\<rparr>"

definition later :: "green_summary \<Rightarrow> int option \<Rightarrow> int option" where
  "later s c = map_option (\<lambda>d. gs_balance s + d) c"

text \<open>The combination of two summaries without its overflow checks.\<close>

definition joined :: "green_summary \<Rightarrow> green_summary \<Rightarrow> green_summary" where
  "joined s r = \<lparr>gs_physical_bytes = gs_physical_bytes s + gs_physical_bytes r, gs_physical_utf16 = gs_physical_utf16 s + gs_physical_utf16 r,
     gs_logical_bytes = gs_logical_bytes s + gs_logical_bytes r, gs_logical_utf16 = gs_logical_utf16 s + gs_logical_utf16 r,
     gs_events = gs_events s + gs_events r, gs_enters = gs_enters s + gs_enters r, gs_row_exits = gs_row_exits s + gs_row_exits r,
     gs_event_bytes = gs_event_bytes s + gs_event_bytes r, gs_commitment = commitment_combine (gs_commitment s) (gs_commitment r),
     gs_max_frame = max (gs_max_frame s) (gs_max_frame r), gs_balance = gs_balance s + gs_balance r,
     gs_minimum_prefix = min (gs_minimum_prefix s) (gs_balance s + gs_minimum_prefix r),
     gs_minimum_closed = least_depth (gs_minimum_closed s) (later s (gs_minimum_closed r)),
     gs_oldest_open = (if - gs_minimum_prefix r < gs_balance s - gs_minimum_prefix s then gs_oldest_open s
       else map_option (shift_witness (gs_events s)) (gs_oldest_open r)),
     gs_children = outermost_children s r (later s (gs_minimum_closed r))\<rparr>"

lemma joined_counts [simp]:
  "gs_physical_bytes (joined s r) = gs_physical_bytes s + gs_physical_bytes r" "gs_physical_utf16 (joined s r) = gs_physical_utf16 s + gs_physical_utf16 r"
  "gs_logical_bytes (joined s r) = gs_logical_bytes s + gs_logical_bytes r" "gs_logical_utf16 (joined s r) = gs_logical_utf16 s + gs_logical_utf16 r"
  "gs_events (joined s r) = gs_events s + gs_events r" "gs_enters (joined s r) = gs_enters s + gs_enters r"
  "gs_row_exits (joined s r) = gs_row_exits s + gs_row_exits r" "gs_event_bytes (joined s r) = gs_event_bytes s + gs_event_bytes r"
  "gs_commitment (joined s r) = commitment_combine (gs_commitment s) (gs_commitment r)"
  "gs_max_frame (joined s r) = max (gs_max_frame s) (gs_max_frame r)" "gs_balance (joined s r) = gs_balance s + gs_balance r"
  by (simp_all add: joined_def)

lemma joined_prefix: "gs_minimum_prefix (joined s r) = min (gs_minimum_prefix s) (gs_balance s + gs_minimum_prefix r)"
  by (simp add: joined_def)

text \<open>What the checks ask.\<close>

definition room :: "green_summary \<Rightarrow> green_summary \<Rightarrow> bool" where
  "room s r \<longleftrightarrow> gs_physical_bytes s + gs_physical_bytes r < 2 ^ 64 \<and> gs_physical_utf16 s + gs_physical_utf16 r < 2 ^ 64 \<and>
     gs_logical_bytes s + gs_logical_bytes r < 2 ^ 64 \<and> gs_logical_utf16 s + gs_logical_utf16 r < 2 ^ 64 \<and>
     gs_events s + gs_events r < 2 ^ 64 \<and> gs_enters s + gs_enters r < 2 ^ 64 \<and> gs_row_exits s + gs_row_exits r < 2 ^ 64 \<and>
     gs_event_bytes s + gs_event_bytes r < 2 ^ 64 \<and> is_i64 (gs_balance s + gs_balance r) \<and> is_i64 (gs_balance s + gs_minimum_prefix r) \<and>
     (\<forall>d. gs_minimum_closed r = Some d \<longrightarrow> is_i64 (gs_balance s + d))"

lemma checked_add_ok: "checked_add_green x y = Inr z \<longleftrightarrow> x + y < 2 ^ 64 \<and> z = x + y"
  by (auto simp: checked_add_green_def checked_add_def ok_or_def)

lemma checked_add_i64_ok: "checked_add_i64 x y = Some z \<longleftrightarrow> is_i64 (x + y) \<and> z = x + y"
  by (auto simp: checked_add_i64_def is_i64_def)

lemma shifted_closed_ok:
  "shifted_closed s r = Inr c \<longleftrightarrow> (\<forall>d. gs_minimum_closed r = Some d \<longrightarrow> is_i64 (gs_balance s + d)) \<and> c = later s (gs_minimum_closed r)"
  by (auto simp: shifted_closed_def later_def and_ok_Inr checked_add_i64_ok split: option.splits)

lemma opens_closes:
  assumes "validate_summary s = Inr ()"
  shows "unmatched_opens s = Inr (nat (gs_balance s - gs_minimum_prefix s))" "unmatched_closes s = Inr (nat (- gs_minimum_prefix s))"
  using assms unfolding validate_iff by (simp_all add: unmatched_opens_def unmatched_closes_def Let_def)

lemma oldest_ok:
  assumes "validate_summary s = Inr ()" "validate_summary r = Inr ()" "gs_events s + gs_events r < 2 ^ 64"
  shows "followed_oldest s r (nat (gs_balance s - gs_minimum_prefix s) - min (nat (gs_balance s - gs_minimum_prefix s)) (nat (- gs_minimum_prefix r))) =
    Inr (if - gs_minimum_prefix r < gs_balance s - gs_minimum_prefix s then gs_oldest_open s
       else map_option (shift_witness (gs_events s)) (gs_oldest_open r))"
proof -
  have s: "gs_minimum_prefix s \<le> gs_balance s" "gs_minimum_prefix r \<le> 0" using assms(1,2) by (simp_all add: validate_iff)
  then have "nat (gs_balance s - gs_minimum_prefix s) - min (nat (gs_balance s - gs_minimum_prefix s)) (nat (- gs_minimum_prefix r)) \<noteq> 0 \<longleftrightarrow>
      - gs_minimum_prefix r < gs_balance s - gs_minimum_prefix s" by auto
  moreover have "gw_ordinal w + gs_events s < 2 ^ 64" if "gs_oldest_open r = Some w" for w
    using assms(2,3) that by (fastforce simp: validate_iff)
  ultimately show ?thesis
    by (auto simp: followed_oldest_def and_ok_def shift_witness_def checked_add_green_def checked_add_def split: option.splits)
qed

text \<open>\<^verbatim>\<open>checked_followed_by\<close> is the unchecked combination where there is room and the commitment stays valid.\<close>

lemma followed_by_ok:
  assumes "validate_summary s = Inr ()" "validate_summary r = Inr ()"
  shows "checked_followed_by s r = Inr u \<longleftrightarrow> room s r \<and> validate_summary (joined s r) = Inr () \<and> u = joined s r"
proof -
  let ?old = "followed_oldest s r (nat (gs_balance s - gs_minimum_prefix s) - min (nat (gs_balance s - gs_minimum_prefix s)) (nat (- gs_minimum_prefix r)))"
  show ?thesis
  proof (cases "gs_events s + gs_events r < 2 ^ 64")
    case True
    show ?thesis
      unfolding checked_followed_by_def assms opens_closes [OF assms(1)] opens_closes [OF assms(2)] and_ok_simps oldest_ok [OF assms True]
      by (auto simp: and_ok_Inr checked_add_ok checked_add_i64_ok shifted_closed_ok room_def joined_def Let_def)
  next
    case False
    then show ?thesis
      unfolding checked_followed_by_def assms opens_closes [OF assms(1)] opens_closes [OF assms(2)] and_ok_simps
      by (auto simp: and_ok_Inr checked_add_ok checked_add_i64_ok shifted_closed_ok room_def Let_def)
  qed
qed

subsection \<open>Closed depths and their children\<close>

lemma later_simps [simp]: "later s None = None" "later s (Some d) = Some (gs_balance s + d)" "later s c = None \<longleftrightarrow> c = None"
  by (simp_all add: later_def)

lemma least_depth_simps [simp]:
  "least_depth None c = c" "least_depth c None = c" "least_depth (Some x) (Some y) = Some (min x y)" "least_depth c d = None \<longleftrightarrow> c = None \<and> d = None"
  by (auto simp: least_depth_def split: option.splits)

text \<open>The pair of a closed depth and its children.\<close>

definition at_depth :: "int option \<times> child_fold \<Rightarrow> int option \<times> child_fold \<Rightarrow> int option \<times> child_fold" where
  "at_depth p q = (least_depth (fst p) (fst q),
     if fst p = least_depth (fst p) (fst q)
     then if fst q = least_depth (fst p) (fst q) then child_fold_followed_by (snd p) (snd q) else snd p
     else if fst q = least_depth (fst p) (fst q) then snd q else child_fold_default)"

lemma at_depth_cases:
  "at_depth (None, f) (None, g) = (None, child_fold_followed_by f g)" "at_depth (None, f) (Some e, g) = (Some e, g)"
  "at_depth (Some d, f) (None, g) = (Some d, f)"
  "at_depth (Some d, f) (Some e, g) = (if d = e then (Some d, child_fold_followed_by f g) else if d < e then (Some d, f) else (Some e, g))"
  by (auto simp: at_depth_def)

lemma at_depth_assoc: "at_depth (at_depth (c, f) (d, g)) (e, h) = at_depth (c, f) (at_depth (d, g) (e, h))"
  by (cases c; cases d; cases e; simp add: at_depth_cases followed_by_assoc)

lemma at_depth_shift:
  "at_depth (map_option ((+) b) c, f) (map_option ((+) b) d, g) = (map_option ((+) b) (fst (at_depth (c, f) (d, g))), snd (at_depth (c, f) (d, g)))"
  by (cases c; cases d; auto simp: at_depth_cases)

lemma joined_depth:
  "(gs_minimum_closed (joined s r), gs_children (joined s r)) =
   at_depth (gs_minimum_closed s, gs_children s) (later s (gs_minimum_closed r), gs_children r)"
  by (simp add: joined_def at_depth_def outermost_children_def Let_def)

lemma joined_depth_assoc:
  "gs_minimum_closed (joined (joined s r) t) = gs_minimum_closed (joined s (joined r t))"
  "gs_children (joined (joined s r) t) = gs_children (joined s (joined r t))"
proof -
  have l: "later u c = map_option ((+) (gs_balance u)) c" for u c by (cases c) simp_all
  have b: "later (joined s r) c = later s (later r c)" for c by (cases c) (simp_all add: joined_def)
  have parts: "gs_minimum_closed (joined r t) = fst (at_depth (gs_minimum_closed r, gs_children r) (later r (gs_minimum_closed t), gs_children t))"
    "gs_children (joined r t) = snd (at_depth (gs_minimum_closed r, gs_children r) (later r (gs_minimum_closed t), gs_children t))"
    by (simp_all flip: joined_depth)
  have "(gs_minimum_closed (joined (joined s r) t), gs_children (joined (joined s r) t)) =
      (gs_minimum_closed (joined s (joined r t)), gs_children (joined s (joined r t)))"
    unfolding joined_depth [of "joined s r" t] joined_depth [of s "joined r t"] joined_depth [of s r] at_depth_assoc b
    using parts at_depth_shift [of "gs_balance s" "gs_minimum_closed r" "gs_children r" "later r (gs_minimum_closed t)" "gs_children t"]
    by (simp add: l)
  then show "gs_minimum_closed (joined (joined s r) t) = gs_minimum_closed (joined s (joined r t))"
    "gs_children (joined (joined s r) t) = gs_children (joined s (joined r t))" by simp_all
qed

subsection \<open>Open witnesses\<close>

lemma shift_shift [simp]: "shift_witness m (shift_witness n w) = shift_witness (n + m) w"
  by (simp add: shift_witness_def)

lemma joined_oldest_assoc:
  assumes "gs_minimum_prefix s \<le> gs_balance s" "gs_minimum_prefix r \<le> gs_balance r" "gs_minimum_prefix r \<le> 0" "gs_minimum_prefix t \<le> 0"
  shows "gs_oldest_open (joined (joined s r) t) = gs_oldest_open (joined s (joined r t))"
  using assms by (simp add: joined_def option.map_comp comp_def add.commute min_def) linarith?

lemma joined_assoc:
  assumes "sound s" "sound r" "sound t"
  shows "joined (joined s r) t = joined s (joined r t)"
proof -
  have o: "gs_oldest_open (joined (joined s r) t) = gs_oldest_open (joined s (joined r t))"
    using assms by (intro joined_oldest_assoc) (simp_all add: sound_def validate_iff)
  have "gs_minimum_prefix (joined (joined s r) t) = gs_minimum_prefix (joined s (joined r t))" by (simp add: joined_def min_def)
  then show ?thesis
    using o joined_depth_assoc [of s r t] by (intro green_summary.equality) (simp_all add: combine_assoc add.assoc max.assoc)
qed

subsection \<open>What a combination keeps\<close>

lemma commitment_empty_twice: "commitment_combine commitment_empty commitment_empty = commitment_empty"
proof (rule commitment_eqI)
  fix lane
  assume l: "lane < COMMITMENT_LANES"
  show "unat (gc_hash (commitment_combine commitment_empty commitment_empty) ! lane) = unat (gc_hash commitment_empty ! lane)"
    "unat (gc_factor (commitment_combine commitment_empty commitment_empty) ! lane) = unat (gc_factor commitment_empty ! lane)"
    unfolding combine_lanes [OF l] using l by (simp_all add: commitment_empty_def)
qed (simp_all add: commitment_empty_def)

lemma joined_empty: "joined summary_empty summary_empty = summary_empty"
  by (simp add: joined_def summary_empty_def commitment_empty_twice outermost_children_def Let_def)

lemma soundD:
  assumes "sound s"
  shows "validate_summary s = Inr ()" "\<bar>gs_balance s\<bar> \<le> int (gs_events s)" "- int (gs_events s) \<le> gs_minimum_prefix s"
    "gs_minimum_closed s = Some d \<Longrightarrow> \<bar>d\<bar> \<le> int (gs_events s)" "gs_minimum_prefix s \<le> 0" "gs_minimum_prefix s \<le> gs_balance s"
    "gs_events s \<le> gs_event_bytes s" "gs_enters s \<le> gs_events s"
  using assms by (auto simp: sound_def validate_iff)

lemma joined_valid:
  assumes s: "sound s" "sound r" and c: "commitment_is_valid (commitment_combine (gs_commitment s) (gs_commitment r))"
    and few: "gs_events s + gs_events r < 2 ^ 63"
  shows "validate_summary (joined s r) = Inr ()"
proof -
  note v = soundD(1) [OF s(1), unfolded validate_iff] soundD(1) [OF s(2), unfolded validate_iff]
  note b = soundD(2,3,5,6) [OF s(1)] soundD(2,3,5,6) [OF s(2)]
  have e: "joined s r = summary_empty" if "gs_events s = 0" "gs_events r = 0" using v that joined_empty by auto
  have ow: "gs_oldest_open s = Some w \<Longrightarrow> gw_ordinal w < gs_events s" "gs_oldest_open r = Some w \<Longrightarrow> gw_ordinal w < gs_events r"
    "gs_balance s = gs_minimum_prefix s \<longleftrightarrow> gs_oldest_open s = None" "gs_balance r = gs_minimum_prefix r \<longleftrightarrow> gs_oldest_open r = None" for w
    using v by blast+
  have o: "gw_ordinal w < gs_events s + gs_events r" if "gs_oldest_open (joined s r) = Some w" for w
    using that ow by (auto simp: joined_def shift_witness_def trans_less_add1 split: if_splits)
  have p: "min (gs_minimum_prefix s) (gs_balance s + gs_minimum_prefix r) \<noteq> - (2 ^ 63)"
    "gs_balance s + gs_balance r - min (gs_minimum_prefix s) (gs_balance s + gs_minimum_prefix r) < 2 ^ 64"
    "min (gs_minimum_prefix s) (gs_balance s + gs_minimum_prefix r) \<le> gs_balance s + gs_balance r"
    using b few by (auto simp: min_def)
  have q: "gs_balance (joined s r) = gs_minimum_prefix (joined s r) \<longleftrightarrow> gs_oldest_open (joined s r) = None"
    using ow(3,4) b by (auto simp: joined_def min_def)
  have d: "gs_minimum_closed (joined s r) = None \<Longrightarrow> gs_children (joined s r) = child_fold_default"
    using v by (simp add: joined_def outermost_children_def Let_def)
  have zs: "gs_enters s = 0 \<longleftrightarrow> gs_max_frame s = 0" "gs_enters r = 0 \<longleftrightarrow> gs_max_frame r = 0"
    "gs_events s = 0 \<longleftrightarrow> gs_event_bytes s = 0" "gs_events r = 0 \<longleftrightarrow> gs_event_bytes r = 0"
    using v by blast+
  have z: "(gs_enters s + gs_enters r = 0) = (max (gs_max_frame s) (gs_max_frame r) = 0)"
    "(gs_events s + gs_events r = 0) = (gs_event_bytes s + gs_event_bytes r = 0)"
    using zs by (auto simp: max_def)
  have n: "gs_physical_utf16 s \<le> gs_physical_bytes s" "gs_physical_utf16 r \<le> gs_physical_bytes r" "gs_logical_utf16 s \<le> gs_logical_bytes s"
    "gs_logical_utf16 r \<le> gs_logical_bytes r" "gs_enters s \<le> gs_events s" "gs_enters r \<le> gs_events r"
    "gs_events s \<le> gs_event_bytes s" "gs_events r \<le> gs_event_bytes r"
    using v by blast+
  have y: "gs_events s + gs_events r = 0 \<longrightarrow> joined s r = summary_empty" using e by simp
  show ?thesis unfolding validate_iff using q o d y
  proof (intro conjI, goal_cases)
    case 9
    then show ?case using b by (simp add: joined_prefix min_le_iff_disj)
  qed (use n c p z in \<open>simp_all add: joined_prefix add_mono\<close>)
qed

lemma joined_sound:
  assumes s: "sound s" "sound r" and j: "checked_followed_by s r = Inr u"
  shows "sound u" "gs_events u = gs_events s + gs_events r"
proof -
  have m: "room s r" "validate_summary (joined s r) = Inr ()" "u = joined s r"
    using j followed_by_ok [OF soundD(1) [OF s(1)] soundD(1) [OF s(2)]] by simp_all
  note b = soundD(2,3,5,6) [OF s(1)] soundD(2,3,5,6) [OF s(2)]
  have w: "witness_ok w" if "gs_oldest_open (joined s r) = Some w" for w
  proof -
    have "witness_ok (shift_witness (gs_events s) x)" if x: "gs_oldest_open r = Some x" for x
    proof -
      have "gw_ordinal x < gs_events r" "witness_ok x" using x s(2) by (auto simp: sound_def validate_iff)
      moreover have "gs_events s + gs_events r < 2 ^ 64" using m(1) by (simp add: room_def)
      ultimately show ?thesis by (simp add: witness_ok_def shift_witness_def)
    qed
    then show ?thesis using that s(1) by (auto simp: joined_def sound_def split: if_splits)
  qed
  have d: "is_i64 d \<and> \<bar>d\<bar> \<le> int (gs_events s + gs_events r)" if "gs_minimum_closed (joined s r) = Some d" for d
  proof -
    have x: "is_i64 x \<and> \<bar>x\<bar> \<le> int (gs_events s)" if "gs_minimum_closed s = Some x" for x
      using that s(1) soundD(4) [OF s(1)] by (auto simp: sound_def)
    have y: "is_i64 (gs_balance s + y) \<and> \<bar>y\<bar> \<le> int (gs_events r)" if "gs_minimum_closed r = Some y" for y
      using that m(1) soundD(4) [OF s(2)] by (auto simp: room_def)
    show ?thesis
      using that x y b by (cases "gs_minimum_closed s"; cases "gs_minimum_closed r"; fastforce simp: joined_def min_def split: if_splits)
  qed
  have i: "is_i64 (gs_balance (joined s r))" "is_i64 (gs_minimum_prefix (joined s r))"
    using m(1) s by (auto simp: room_def sound_def joined_def min_def)
  have n: "\<bar>gs_balance (joined s r)\<bar> \<le> int (gs_events (joined s r))" "- int (gs_events (joined s r)) \<le> gs_minimum_prefix (joined s r)"
    using b by (auto simp: joined_def min_def)
  have f: "gs_max_frame (joined s r) < 2 ^ 64" using s by (simp add: sound_def joined_def max_def)
  show "sound u" unfolding m(3) sound_def
    using m(1,2) w d i n f by (simp add: room_def)
  show "gs_events u = gs_events s + gs_events r" by (simp add: m(3) joined_def)
qed

end
