(* ===== verification/Flark_Sequence_Trees.thy ===== *)
theory Flark_Sequence_Trees
  imports Flark_Sequence
begin

text \<open>
  The abstract sequence: balanced trees over handles and summaries, the height table of \<^verbatim>\<open>measured_sequence.rs\<close> against them, and
  the relation between a tree and the arena that stores it.
\<close>

subsection \<open>Trees\<close>

datatype 's seq_tree = TLeaf arena_id 's | TBranch arena_id 's "'s seq_tree" "'s seq_tree"

primrec troot :: "'s seq_tree \<Rightarrow> arena_id" where
  "troot (TLeaf h s) = h"
| "troot (TBranch h s l r) = h"

primrec tsum :: "'s seq_tree \<Rightarrow> 's" where
  "tsum (TLeaf h s) = s"
| "tsum (TBranch h s l r) = s"

primrec tleaves :: "'s seq_tree \<Rightarrow> (arena_id \<times> 's) list" where
  "tleaves (TLeaf h s) = [(h, s)]"
| "tleaves (TBranch h s l r) = tleaves l @ tleaves r"

primrec theight :: "'s seq_tree \<Rightarrow> nat" where
  "theight (TLeaf h s) = 1"
| "theight (TBranch h s l r) = max (theight l) (theight r) + 1"

primrec tbalanced :: "'s seq_tree \<Rightarrow> bool" where
  "tbalanced (TLeaf h s) = True"
| "tbalanced (TBranch h s l r) = (tbalanced l \<and> tbalanced r \<and> theight l \<le> theight r + 1 \<and> theight r \<le> theight l + 1)"

abbreviation tcount :: "'s seq_tree \<Rightarrow> nat" where
  "tcount t \<equiv> length (tleaves t)"

definition measure_of :: "'s seq_tree \<Rightarrow> 's sequence_measure" where
  "measure_of t = \<lparr>sm_summary = tsum t, sm_leaves = tcount t, sm_height = theight t\<rparr>"

lemma measure_of_simps [simp]:
  "sm_summary (measure_of t) = tsum t" "sm_leaves (measure_of t) = tcount t" "sm_height (measure_of t) = theight t"
  by (simp_all add: measure_of_def)

lemma tleaves_nonempty [simp]: "tleaves t \<noteq> []"
  by (induction t) auto

lemma tcount_pos [simp]: "0 < tcount t"
  by simp

lemma theight_pos [simp]: "0 < theight t"
  by (induction t) auto

lemma tcount_branch: "2 \<le> tcount (TBranch h s l r)"
proof -
  have "1 \<le> tcount l" "1 \<le> tcount r" by (simp_all add: Suc_leI)
  then show ?thesis by simp
qed

lemma tcount_one: "tcount t = 1 \<longleftrightarrow> (\<exists>h s. t = TLeaf h s)"
proof (cases t)
  case (TBranch h s l r)
  then show ?thesis using tcount_branch [of h s l r] by auto
qed simp

lemma theight_one: "theight t = 1 \<longleftrightarrow> (\<exists>h s. t = TLeaf h s)"
  by (cases t) (auto simp: max_def split: if_splits)

subsection \<open>The height table\<close>

text \<open>The fewest leaves of a balanced tree of a height.\<close>

fun fewest :: "nat \<Rightarrow> nat" where
  "fewest 0 = 0"
| "fewest (Suc 0) = 1"
| "fewest (Suc (Suc 0)) = 2"
| "fewest (Suc (Suc (Suc n))) = fewest (Suc (Suc n)) + fewest (Suc n)"

lemma fewest_pos: "0 < n \<Longrightarrow> 0 < fewest n"
  by (induction n rule: fewest.induct) auto

lemma fewest_step: "fewest n < fewest (Suc n)"
  by (induction n rule: fewest.induct) (auto simp: fewest_pos)

lemma fewest_strict: "strict_mono fewest"
  using fewest_step by (simp add: strict_mono_Suc_iff)

lemma fewest_le_iff: "fewest m \<le> fewest n \<longleftrightarrow> m \<le> n"
  using fewest_strict by (simp add: strict_mono_less_eq)

lemma table_length: "length AVL_MIN_LEAVES_BY_HEIGHT = 93"
  by (simp add: AVL_MIN_LEAVES_BY_HEIGHT_def)

lemma max_height [simp]: "MAX_SEQUENCE_AVL_HEIGHT = 92"
  by (simp add: MAX_SEQUENCE_AVL_HEIGHT_def table_length)

text \<open>The recurrence, from one entry of the table to the next two.\<close>

primrec series :: "nat \<Rightarrow> nat \<Rightarrow> nat \<Rightarrow> nat list" where
  "series x y 0 = []"
| "series x y (Suc n) = x # series y (x + y) n"

lemma series_fewest: "series (fewest (Suc k)) (fewest (Suc (Suc k))) n = map (\<lambda>j. fewest (Suc (k + j))) [0..<n]"
proof (induction n arbitrary: k)
  case (Suc n)
  have "[0..<Suc n] = 0 # map Suc [0..<n]" by (simp add: map_Suc_upt upt_conv_Cons del: upt_Suc)
  moreover have "fewest (Suc k) + fewest (Suc (Suc k)) = fewest (Suc (Suc (Suc k)))" by simp
  ultimately show ?case using Suc.IH [of "Suc k"] by (simp del: fewest.simps upt_Suc)
qed simp

lemma series_numeral: "series x y (numeral k) = x # series y (x + y) (pred_numeral k)"
  by (simp add: numeral_eq_Suc)

lemma table_series: "AVL_MIN_LEAVES_BY_HEIGHT = 0 # series 1 2 92"
  by (simp add: AVL_MIN_LEAVES_BY_HEIGHT_def series_numeral)

lemma table_fewest: "k < 93 \<Longrightarrow> AVL_MIN_LEAVES_BY_HEIGHT ! k = fewest k"
  using series_fewest [of 0 92] unfolding table_series by (cases k) (simp_all add: nth_append del: upt_Suc)

text \<open>No balanced tree of the next height has a leaf count that fits \<^verbatim>\<open>u64\<close>.\<close>

lemma fewest_93: "2 ^ 64 < fewest 93"
proof -
  have "fewest 93 = fewest 92 + fewest 91" using fewest.simps(4) [of 90] by (simp del: fewest.simps)
  moreover have "fewest 92 = 12200160415121876738" "fewest 91 = 7540113804746346429"
    using table_fewest [of 92] table_fewest [of 91] by (simp_all add: AVL_MIN_LEAVES_BY_HEIGHT_def)
  ultimately show ?thesis by simp
qed

lemma length_takeWhile_sorted: "sorted xs \<Longrightarrow> k < length xs \<Longrightarrow> k < length (takeWhile (\<lambda>x. x \<le> n) xs) \<longleftrightarrow> xs ! k \<le> n"
proof (induction xs arbitrary: k)
  case (Cons x xs)
  show ?case
  proof (cases k)
    case (Suc j)
    then have "x \<le> xs ! j" using Cons.prems nth_mem [of j xs] by simp
    then have "\<not> x \<le> n \<Longrightarrow> \<not> xs ! j \<le> n" by simp
    then show ?thesis using Cons Suc by auto
  qed simp
qed simp

lemma maximum_avl_height_le: "0 < n \<Longrightarrow> n < 2 ^ 64 \<Longrightarrow> k \<le> maximum_avl_height n \<longleftrightarrow> fewest k \<le> n"
proof -
  assume n: "0 < n" "n < 2 ^ 64"
  let ?w = "length (takeWhile (\<lambda>x. x \<le> n) AVL_MIN_LEAVES_BY_HEIGHT)"
  have srt: "sorted AVL_MIN_LEAVES_BY_HEIGHT"
    by (simp add: sorted_iff_nth_mono table_length table_fewest fewest_le_iff)
  have lt: "k < ?w \<longleftrightarrow> fewest k \<le> n" if "k < 93" for k
    using length_takeWhile_sorted [OF srt, of k n] that table_fewest [OF that] by (simp add: table_length)
  have "0 < ?w" using lt [of 0] by simp
  moreover have "maximum_avl_height n = ?w - 1" using n by (simp add: maximum_avl_height_def)
  ultimately have m: "k \<le> maximum_avl_height n \<longleftrightarrow> k < ?w" by linarith
  show ?thesis
  proof (cases "k < 93")
    case False
    then have "fewest 93 \<le> fewest k" by (simp add: fewest_le_iff)
    moreover have "?w \<le> 93" using length_takeWhile_le [of _ AVL_MIN_LEAVES_BY_HEIGHT] by (simp add: table_length)
    ultimately show ?thesis using False fewest_93 n m by simp
  qed (use lt m in simp)
qed

lemma fewest_tcount: "tbalanced t \<Longrightarrow> fewest (theight t) \<le> tcount t"
proof (induction t)
  case (TBranch h s l r)
  then have l: "fewest (theight l) \<le> tcount l" and r: "fewest (theight r) \<le> tcount r"
    and b: "theight l \<le> theight r + 1" "theight r \<le> theight l + 1" by simp_all
  have step: "fewest (Suc n) \<le> fewest n + fewest m" if n: "0 < n" "0 < m" "n \<le> m + 1" for n m
  proof (cases "n = 1")
    case False
    then obtain k where k: "n = Suc (Suc k)" using n(1) by (cases n rule: fewest.cases) auto
    then have "fewest (Suc k) \<le> fewest m" using n by (simp add: fewest_le_iff)
    then show ?thesis using k by simp
  qed (use n fewest_pos [of m] in \<open>simp add: numeral_2_eq_2\<close>)
  show ?case
  proof (cases "theight r \<le> theight l")
    case True
    then have "fewest (theight (TBranch h s l r)) = fewest (Suc (theight l))" by (simp add: max_def)
    then show ?thesis using step [of "theight l" "theight r"] b l r by simp
  next
    case False
    then have "fewest (theight (TBranch h s l r)) = fewest (Suc (theight r))" by (simp add: max_def)
    then show ?thesis using step [of "theight r" "theight l"] b l r by simp
  qed
qed simp

text \<open>Every leaf count from the fewest to the most has a balanced tree.\<close>

lemma fewest_most: "fewest (Suc (Suc n)) \<le> 2 ^ n + 1"
proof (induction n rule: fewest.induct)
  case (4 n)
  have "1 \<le> (2 :: nat) ^ n" by simp
  then show ?case using 4 by (simp, linarith)
qed (simp_all add: numeral_eq_Suc)

lemma balanced_tree_exists:
  "0 < h \<Longrightarrow> fewest h \<le> n \<Longrightarrow> n \<le> 2 ^ (h - 1) \<Longrightarrow> \<exists>t :: 's seq_tree. tbalanced t \<and> theight t = h \<and> tcount t = n"
proof (induction h arbitrary: n rule: less_induct)
  case (less h)
  have single: "\<exists>t :: 's seq_tree. tbalanced t \<and> theight t = 1 \<and> tcount t = 1"
    by (rule exI [of _ "TLeaf undefined undefined"]) simp
  consider "h = 1" | "h = 2" | k where "h = Suc (Suc (Suc k))"
    using less.prems(1) by (cases h rule: fewest.cases) auto
  then show ?case
  proof cases
    case 1
    then show ?thesis using less.prems single by simp
  next
    case 2
    obtain t :: "'s seq_tree" where t: "tbalanced t" "theight t = 1" "tcount t = 1" using single by blast
    have "n = 2" using 2 less.prems by (simp add: numeral_2_eq_2)
    then show ?thesis using 2 t by (intro exI [of _ "TBranch undefined undefined t t"]) simp
  next
    case (3 k)
    let ?low = "Suc (Suc k)"
    have low: "fewest ?low \<le> 2 ^ Suc k" "fewest (Suc k) \<le> 2 ^ k"
      using fewest_most [of k] fewest_step [of "Suc k"] one_le_power [of "2 :: nat" k] unfolding power_Suc by linarith+
    define l where "l = min (n - fewest (Suc k)) (2 ^ Suc k)"
    define r where "r = n - l"
    have n: "fewest ?low + fewest (Suc k) \<le> n" "n \<le> 2 ^ Suc (Suc k)" using less.prems 3 by simp_all
    have l: "fewest ?low \<le> l" "l \<le> 2 ^ Suc k" using n low by (auto simp: l_def)
    have r: "fewest (Suc k) \<le> r" "r \<le> 2 ^ Suc k" "l + r = n" using n low by (auto simp: l_def r_def)
    obtain tl :: "'s seq_tree" where tl: "tbalanced tl" "theight tl = ?low" "tcount tl = l"
      using less.IH [of ?low l] l 3 by auto
    have "\<exists>t :: 's seq_tree. tbalanced t \<and> (theight t = ?low \<or> theight t = Suc k) \<and> tcount t = r"
    proof (cases "r \<le> 2 ^ k")
      case True
      then show ?thesis using less.IH [of "Suc k" r] r 3 by auto
    next
      case False
      then have "fewest ?low \<le> r" using fewest_most [of k] by simp
      then show ?thesis using less.IH [of ?low r] r 3 by auto
    qed
    then obtain tr :: "'s seq_tree" where tr: "tbalanced tr" "theight tr = ?low \<or> theight tr = Suc k" "tcount tr = r" by blast
    show ?thesis
      by (rule exI [of _ "TBranch undefined undefined tl tr"]) (use tl tr r(3) 3 in auto)
  qed
qed

lemma theight_maximum: "tbalanced t \<Longrightarrow> tcount t < 2 ^ 64 \<Longrightarrow> theight t \<le> maximum_avl_height (tcount t)"
  using maximum_avl_height_le [of "tcount t"] fewest_tcount by simp

lemma maximum_le_92: "n < 2 ^ 64 \<Longrightarrow> maximum_avl_height n \<le> 92"
  using maximum_avl_height_le [of n "Suc 92"] fewest_93 by (cases "n = 0") (auto simp: maximum_avl_height_def)

text \<open>
  C24: The height table is exact: for every leaf count that fits 64 bits, the height it admits is the greatest height of a balanced
  tree with that many leaves, so no valid tree is rejected and no impossible one accepted.
\<close>

theorem maximum_avl_height_exact:
  assumes "0 < n" "n < 2 ^ 64"
  shows "(\<exists>t :: 's seq_tree. tbalanced t \<and> tcount t = n \<and> theight t = maximum_avl_height n) \<and>
     (\<forall>t :: 's seq_tree. tbalanced t \<and> tcount t = n \<longrightarrow> theight t \<le> maximum_avl_height n)"
proof
  let ?h = "maximum_avl_height n"
  note m = maximum_avl_height_le [OF assms]
  have h: "0 < ?h" using m [of 1] assms(1) by (simp add: Suc_le_eq)
  have "fewest ?h \<le> n" "n < fewest (Suc ?h)" using m [of ?h] m [of "Suc ?h"] by auto
  moreover have "fewest (Suc ?h) \<le> 2 ^ (?h - 1) + 1" using fewest_most [of "?h - 1"] h by simp
  ultimately show "\<exists>t :: 's seq_tree. tbalanced t \<and> tcount t = n \<and> theight t = ?h"
    using balanced_tree_exists [of ?h n] h by auto
  show "\<forall>t :: 's seq_tree. tbalanced t \<and> tcount t = n \<longrightarrow> theight t \<le> ?h" using theight_maximum assms by blast
qed

theorem maximum_avl_height_exact_witness:
  "\<exists>t :: unit seq_tree. tbalanced t \<and> tcount t = 12 \<and> theight t = 5"
proof -
  have "maximum_avl_height 12 = 5" by (simp add: maximum_avl_height_def AVL_MIN_LEAVES_BY_HEIGHT_def)
  then show ?thesis using maximum_avl_height_exact [of 12, where 's = unit] by simp
qed

end
