(* ===== verification/Flark_Sequence_Reads.thy ===== *)
theory Flark_Sequence_Reads
  imports Flark_Sequence_Trees
begin

text \<open>
  What a stored tree is, the laws a specification has to satisfy, and the correctness of every read of
  \<^verbatim>\<open>measured_sequence.rs\<close>: each returns what the list of leaves says, or refuses because a counter or the
  configured budget is exhausted, and never panics or runs on.
\<close>

subsection \<open>Runs with a postcondition\<close>

text \<open>The run returns; an error satisfies \<open>E\<close>, a value \<open>Q\<close>, both with the state after it.\<close>

definition runs :: "('e \<Rightarrow> 't \<Rightarrow> bool) \<Rightarrow> ('t, 'e, 'a) seq_run \<Rightarrow> 't \<Rightarrow> ('a \<Rightarrow> 't \<Rightarrow> bool) \<Rightarrow> bool" where
  "runs E m t Q \<longleftrightarrow> (\<exists>r u. m t = Some (r, u) \<and> (case r of Inl e \<Rightarrow> E e u | Inr x \<Rightarrow> Q x u))"

lemma runsE:
  assumes "runs E m t Q"
  obtains (err) e u where "m t = Some (Inl e, u)" "E e u" | (ok) x u where "m t = Some (Inr x, u)" "Q x u"
proof -
  obtain r u where "m t = Some (r, u)" "case r of Inl e \<Rightarrow> E e u | Inr x \<Rightarrow> Q x u" using assms unfolding runs_def by blast
  then show thesis using err ok by (cases r) simp_all
qed

lemma runsI: "m t = Some (Inl e, u) \<Longrightarrow> E e u \<Longrightarrow> runs E m t Q" "m t = Some (Inr x, u) \<Longrightarrow> Q x u \<Longrightarrow> runs E m t Q"
  by (simp_all add: runs_def)

lemma runs_conseq:
  assumes "runs E m t Q" "\<And>x u. m t = Some (Inr x, u) \<Longrightarrow> Q x u \<Longrightarrow> Q' x u" "\<And>e u. m t = Some (Inl e, u) \<Longrightarrow> E e u \<Longrightarrow> E' e u"
  shows "runs E' m t Q'"
  using assms(1) by (cases rule: runsE) (use assms(2,3) in \<open>auto intro: runsI\<close>)

lemma runs_mono: "runs E m t Q \<Longrightarrow> (\<And>x u. Q x u \<Longrightarrow> Q' x u) \<Longrightarrow> runs E m t Q'"
  by (rule runs_conseq)

lemma runs_do_iff: "runs E (seq_do m k) t Q \<longleftrightarrow> runs E m t (\<lambda>x u. runs E (k x) u Q)"
proof (cases "m t")
  case (Some p)
  then show ?thesis by (cases p; cases "fst p") (simp_all add: runs_def seq_do_def)
qed (simp add: runs_def seq_do_def)

text \<open>The same for a result, to unfold a recursive operation at its state.\<close>

definition returns :: "('e \<Rightarrow> 't \<Rightarrow> bool) \<Rightarrow> (('e + 'a) \<times> 't) option \<Rightarrow> ('a \<Rightarrow> 't \<Rightarrow> bool) \<Rightarrow> bool" where
  "returns E x Q \<longleftrightarrow> (\<exists>r u. x = Some (r, u) \<and> (case r of Inl e \<Rightarrow> E e u | Inr x \<Rightarrow> Q x u))"

lemma runs_do: "runs E m t (\<lambda>x u. runs E (k x) u Q) \<Longrightarrow> runs E (seq_do m k) t Q"
  by (simp add: runs_do_iff)

lemma runs_returns: "runs E m t Q \<longleftrightarrow> returns E (m t) Q"
  by (simp add: runs_def returns_def)

lemma returns_simps [simp]:
  "returns E (Some (Inr x, t)) Q \<longleftrightarrow> Q x t" "returns E (Some (Inl e, t)) Q \<longleftrightarrow> E e t"
  "returns E (seq_do m k t) Q \<longleftrightarrow> runs E m t (\<lambda>x u. returns E (k x u) Q)"
  using runs_do_iff [of E m k t Q] by (simp_all add: runs_returns) (simp_all add: returns_def)

lemma runs_bind:
  assumes "runs E m t P" "\<And>x u. P x u \<Longrightarrow> runs E (k x) u Q"
  shows "runs E (seq_do m k) t Q"
  by (rule runs_do) (rule runs_mono [OF assms])

lemma runs_simps [simp]:
  "runs E (seq_ok x) t Q \<longleftrightarrow> Q x t" "runs E (seq_err e) t Q \<longleftrightarrow> E e t"
  "runs E (seq_result (Inr x)) t Q \<longleftrightarrow> Q x t" "runs E (seq_result (Inl e)) t Q \<longleftrightarrow> E e t"
  by (simp_all add: runs_def)

lemma runs_at: "m t = m' t \<Longrightarrow> runs E m t Q = runs E m' t Q"
  by (simp add: runs_def)

lemma runs_update: "E e t \<Longrightarrow> (\<And>u. f t = Some u \<Longrightarrow> Q () u) \<Longrightarrow> runs E (seq_update e f) t Q"
  by (cases "f t") (simp_all add: runs_def seq_update_def)

lemma runs_on_fst:
  "runs (\<lambda>e u. E e (u, snd t)) m (fst t) (\<lambda>x u. Q x (u, snd t)) \<Longrightarrow> runs E (seq_on_fst m) t Q"
  by (erule runsE) (simp_all add: runs_def seq_on_fst_def)

lemma runs_of_arena [simp]: "runs E (of_arena sp (Some (Inr x))) t Q \<longleftrightarrow> Q x t"
  by (simp add: runs_def of_arena_def)

lemma runs_inspect_spec:
  "runs (\<lambda>e s. E e (i\<lparr>ir_spec := s\<rparr>)) m (ir_spec i) (\<lambda>x s. Q x (i\<lparr>ir_spec := s\<rparr>)) \<Longrightarrow> runs E (inspect_spec m) i Q"
  by (erule runsE) (simp_all add: runs_def inspect_spec_def)

lemma runs_uncached:
  "runs (\<lambda>e u. E e (fst u)) m (i, None) (\<lambda>x u. Q x (fst u)) \<Longrightarrow> runs E (uncached m) i Q"
  by (erule runsE) (simp_all add: runs_def uncached_def)

subsection \<open>Stored trees\<close>

definition is_leaf :: "('s, 'e) sequence_spec \<Rightarrow> bytes \<Rightarrow> 's \<Rightarrow> bool" where
  "is_leaf sp p s \<longleftrightarrow> (\<exists>i j. leaf_summary sp p i = Some (Inr (Some s), j))"

definition is_branch :: "('s, 'e) sequence_spec \<Rightarrow> bytes \<Rightarrow> 's sequence_measure \<Rightarrow> bool" where
  "is_branch sp p m \<longleftrightarrow> (\<exists>i j. branch_measure sp p i = Some (Inr (Some m), j))"

text \<open>A tree is stored: its nodes are live, decode to its measures, and are balanced.\<close>

primrec holds :: "('s, 'e) sequence_spec \<Rightarrow> page_arena \<Rightarrow> 's seq_tree \<Rightarrow> bool" where
  "holds sp a (TLeaf h s) = (live_at a h \<and> (\<exists>p. node_of a h = (Some p, Some []) \<and> is_leaf sp p s))"
| "holds sp a (TBranch h s l r) =
     (live_at a h \<and> (\<exists>p. node_of a h = (Some p, Some [troot l, troot r]) \<and> is_branch sp p (measure_of (TBranch h s l r))) \<and>
      holds sp a l \<and> holds sp a r \<and> spec_combine sp (tsum l) (tsum r) = Inr s \<and>
      theight l \<le> theight r + 1 \<and> theight r \<le> theight l + 1 \<and> tcount l + tcount r < 2 ^ 64)"

lemma holds_live: "holds sp a t \<Longrightarrow> live_at a (troot t)"
  by (cases t) auto

lemma holds_balanced: "holds sp a t \<Longrightarrow> tbalanced t"
  by (induction t) auto

lemma holds_count: "holds sp a t \<Longrightarrow> tcount t < 2 ^ 64"
  by (cases t) auto

lemma holds_height: "holds sp a t \<Longrightarrow> theight t \<le> 92" "holds sp a t \<Longrightarrow> theight t \<le> maximum_avl_height (tcount t)"
  using theight_maximum [of t] maximum_le_92 [of "tcount t"] holds_balanced [of sp a t] holds_count [of sp a t] by auto

text \<open>A handle stores one tree.\<close>

lemma holds_evolves:
  assumes "holds sp a t" "evolves a b" "arena_inv R b" "live_at b (troot t)"
  shows "holds sp b t"
  using assms(1,4)
proof (induction t)
  case (TLeaf h s)
  then have "node_of b h = node_of a h" using evolves_live [OF assms(2), of h] spent_not_live by auto
  then show ?case using TLeaf by simp
next
  case (TBranch h s l r)
  then have n: "node_of b h = node_of a h" using evolves_live [OF assms(2), of h] spent_not_live by auto
  obtain p where p: "node_of b h = (Some p, Some [troot l, troot r])" using TBranch.prems n by auto
  have "live_at b (troot l) \<and> live_at b (troot r)"
    by (rule node_of_live [OF arena_invD(1) [OF assms(3)], of h]) (use TBranch.prems(2) p in auto)
  then show ?case using TBranch n by auto
qed

definition theader :: "'s seq_tree \<Rightarrow> 's node_header" where
  "theader t = \<lparr>nh_measure = measure_of t,
     nh_kind = (case t of TLeaf _ _ \<Rightarrow> HeaderLeaf | TBranch _ _ l r \<Rightarrow> HeaderBranch (troot l) (troot r))\<rparr>"

definition tnode :: "'s seq_tree \<Rightarrow> 's decoded_node" where
  "tnode t = \<lparr>dn_measure = measure_of t,
     dn_kind = (case t of TLeaf _ _ \<Rightarrow> NodeLeaf | TBranch _ _ l r \<Rightarrow> NodeBranch (troot l) (measure_of l) (troot r) (measure_of r))\<rparr>"

lemma tnode_simps [simp]: "dn_measure (tnode t) = measure_of t" "dn_kind (tnode (TLeaf h s)) = NodeLeaf"
  "dn_kind (tnode (TBranch h s l r)) = NodeBranch (troot l) (measure_of l) (troot r) (measure_of r)" "nh_measure (theader t) = measure_of t"
  by (simp_all add: tnode_def theader_def)

subsection \<open>The laws of a specification\<close>

text \<open>Errors of a decode that succeeds with other counters: the specification ran out of its own.\<close>

definition charge_refusal :: "('s, 'e) sequence_spec \<Rightarrow> 'e \<Rightarrow> bool" where
  "charge_refusal sp e \<longleftrightarrow>
     (\<exists>p i j x i' j'. leaf_summary sp p i = Some (Inl e, j) \<and> leaf_summary sp p i' = Some (Inr (Some x), j')) \<or>
     (\<exists>p i j x i' j'. branch_measure sp p i = Some (Inl e, j) \<and> branch_measure sp p i' = Some (Inr (Some x), j'))"

definition read_messages :: "string list" where
  "read_messages =
    [''sequence node-header inspection limit exhausted'', ''sequence header inspection count overflow'',
     ''sequence payload inspection count overflow'', ''sequence summary combination count overflow'',
     ''sequence partition combination count overflow'', ''sequence node cache reservation failed'']"

definition read_refusal :: "('s, 'e) sequence_spec \<Rightarrow> 'e \<Rightarrow> bool" where
  "read_refusal sp e \<longleftrightarrow> charge_refusal sp e \<or> (\<exists>m. m \<in> set read_messages \<and> e = invalid sp m)"

text \<open>The summaries of a list of leaves, combined from the left.\<close>

definition combine_next :: "('s, 'e) sequence_spec \<Rightarrow> 's option \<Rightarrow> 's \<Rightarrow> 's option" where
  "combine_next sp acc s = Option.bind acc (\<lambda>u. case spec_combine sp u s of Inl _ \<Rightarrow> None | Inr v \<Rightarrow> Some v)"

primrec fold_summaries :: "('s, 'e) sequence_spec \<Rightarrow> 's list \<Rightarrow> 's option" where
  "fold_summaries sp [] = None"
| "fold_summaries sp (x # xs) = foldl (combine_next sp) (Some x) xs"

definition summaries :: "'s seq_tree \<Rightarrow> 's list" where
  "summaries t = map snd (tleaves t)"

lemma summaries_simps [simp]: "summaries (TLeaf h s) = [s]" "summaries (TBranch h s l r) = summaries l @ summaries r"
  "length (summaries t) = tcount t" "summaries t \<noteq> []" "k < tcount t \<Longrightarrow> summaries t ! k = snd (tleaves t ! k)"
  by (simp_all add: summaries_def)

text \<open>The leaf at an index, with the summary of the leaves before it.\<close>

definition located_at :: "('s, 'e) sequence_spec \<Rightarrow> 's list \<Rightarrow> 's seq_tree \<Rightarrow> nat \<Rightarrow> nat \<Rightarrow> 's located_leaf" where
  "located_at sp earlier t k ordinal = \<lparr>ll_id = fst (tleaves t ! k), ll_ordinal = ordinal, ll_summary = snd (tleaves t ! k),
     ll_prefix = fold_summaries sp (earlier @ take k (summaries t))\<rparr>"

lemma located_at_branch:
  "k < tcount l \<Longrightarrow> located_at sp earlier (TBranch h s l r) k n = located_at sp earlier l k n"
  "located_at sp earlier (TBranch h s l r) (tcount l + k) n = located_at sp (earlier @ summaries l) r k n"
  by (simp_all add: located_at_def nth_append)

text \<open>The leaf that holds a position of a metric.\<close>

definition holds_position :: "('s \<Rightarrow> nat) \<Rightarrow> 's list \<Rightarrow> nat \<Rightarrow> nat \<Rightarrow> bool" where
  "holds_position metric xs position k \<longleftrightarrow> k < length xs \<and>
     sum_list (map metric (take k xs)) \<le> position \<and> position < sum_list (map metric (take (Suc k) xs))"

lemma holds_position_left: "holds_position metric xs p k \<Longrightarrow> holds_position metric (xs @ ys) p k"
  by (auto simp: holds_position_def)

lemma holds_position_right:
  "holds_position metric ys (p - sum_list (map metric xs)) k \<Longrightarrow> sum_list (map metric xs) \<le> p \<Longrightarrow>
   holds_position metric (xs @ ys) p (length xs + k)"
  by (auto simp: holds_position_def)

lemma fold_summaries_snoc: "xs \<noteq> [] \<Longrightarrow> fold_summaries sp (xs @ [y]) = combine_next sp (fold_summaries sp xs) y"
  by (cases xs) simp_all

lemma combine_next_Some: "combine_next sp acc y = Some w \<longleftrightarrow> (\<exists>u. acc = Some u \<and> spec_combine sp u y = Inr w)"
  by (cases acc) (auto simp: combine_next_def split: sum.splits)

text \<open>The leaves of a subtree that starts at \<open>start\<close>, cut to a range.\<close>

definition part :: "'a list \<Rightarrow> nat \<Rightarrow> nat \<Rightarrow> nat \<Rightarrow> 'a list" where
  "part xs start range_start range_end = drop (range_start - start) (take (range_end - start) xs)"

lemma part_append: "part (xs @ ys) start rs re = part xs start rs re @ part ys (start + length xs) rs re"
  by (cases "re - start < length xs") (simp_all add: part_def min_def diff_diff_left [symmetric] del: diff_diff_left)

lemma part_none: "re \<le> start \<or> start + length xs \<le> rs \<Longrightarrow> part xs start rs re = []"
  by (auto simp: part_def)

lemma part_all: "rs \<le> start \<Longrightarrow> start + length xs \<le> re \<Longrightarrow> part xs start rs re = xs"
  by (simp add: part_def)

lemma part_map: "part (map f xs) start rs re = map f (part xs start rs re)"
  by (simp add: part_def take_map drop_map)

lemma part_infix: "\<exists>p q. xs = p @ part xs start rs re @ q"
  by (metis append_take_drop_id part_def take_drop drop_drop append.assoc)

subsection \<open>Caches\<close>

lemma cache_key_eq [simp]: "cache_key g = cache_key h \<longleftrightarrow> g = h"
  by (auto simp: cache_key_def intro: arena_id.equality)

lemma map_of_insert_at:
  assumes "map_of c k = None"
  shows "map_of (take n c @ (k, v) # drop n c) k' = (if k' = k then Some v else map_of c k')"
proof -
  have "map_of c x = (case map_of (take n c) x of None \<Rightarrow> map_of (drop n c) x | y \<Rightarrow> y)" for x
    by (metis append_take_drop_id map_of_append map_add_def)
  then show ?thesis using assms by (auto simp: map_add_def split: option.splits if_splits)
qed

lemma cache_insert_lookup:
  "cache_insert mem sp c h x = Inr c' \<Longrightarrow> map_of c (cache_key h) = None \<Longrightarrow>
     map_of c' k = (if k = cache_key h then Some x else map_of c k)"
  using map_of_insert_at [of c "cache_key h" _ x k] by (auto simp: cache_insert_def Let_def split: if_splits)

text \<open>The headers a cache holds are those of the stored trees.\<close>

definition cache_sound :: "('s, 'e) sequence_spec \<Rightarrow> page_arena \<Rightarrow> 's read_state \<Rightarrow> bool" where
  "cache_sound sp a t \<longleftrightarrow>
     (\<forall>c u x. snd t = Some c \<longrightarrow> holds sp a u \<longrightarrow> map_of c (cache_key (troot u)) = Some x \<longrightarrow> x = theader u)"

lemma cache_sound_none [simp]: "cache_sound sp a (i, None)"
  by (simp add: cache_sound_def)

lemma cache_sound_snd: "cache_sound sp a t \<Longrightarrow> snd u = snd t \<Longrightarrow> cache_sound sp a u"
  by (simp add: cache_sound_def)

subsection \<open>The interface\<close>

text \<open>
  What the code asks of \<^verbatim>\<open>SequenceSpec\<close>. \<open>good\<close> holds of every summary that can arise; the weight of a summary adds up, and below
  the limit the partial operation \<^verbatim>\<open>combine\<close> is associative and a branch decodes as it was encoded.
\<close>

locale measured_spec =
  fixes sp :: "('s, 'e) sequence_spec" and good :: "'s \<Rightarrow> bool" and weight :: "'s \<Rightarrow> nat" and limit :: nat
  assumes total: "leaf_summary sp p i \<noteq> None" "branch_measure sp p i \<noteq> None" "encode_branch sp m page \<noteq> None"
    and leaf_stable: "is_leaf sp p s \<Longrightarrow> leaf_summary sp p i = Some (Inr q, j) \<Longrightarrow> q = Some s"
    and branch_stable: "is_branch sp p m \<Longrightarrow> branch_measure sp p i = Some (Inr q', j) \<Longrightarrow> q' = Some m"
    and leaf_not_branch: "is_leaf sp p s \<Longrightarrow> branch_measure sp p i = Some (Inr None, i)"
    and branch_not_leaf: "is_branch sp p m \<Longrightarrow> leaf_summary sp p i = Some (Inr None, i)"
    and encode_decode: "good (sm_summary m) \<Longrightarrow> weight (sm_summary m) < limit \<Longrightarrow> 2 \<le> sm_leaves m \<Longrightarrow> sm_leaves m < 2 ^ 64 \<Longrightarrow> 2 \<le> sm_height m \<Longrightarrow> sm_height m < 2 ^ 16 \<Longrightarrow>
      encode_branch sp m zero_page = Some (Inr n, page) \<Longrightarrow> 0 < n \<and> n \<le> length page \<and> is_branch sp (take n page) m"
    and good_leaf: "is_leaf sp p s \<Longrightarrow> good s"
    and good_combine: "good x \<Longrightarrow> good y \<Longrightarrow> spec_combine sp x y = Inr s \<Longrightarrow> good s"
    and weight_combine: "good x \<Longrightarrow> good y \<Longrightarrow> spec_combine sp x y = Inr s \<Longrightarrow> weight s = weight x + weight y"
    and assoc_right: "good x \<Longrightarrow> good y \<Longrightarrow> good z \<Longrightarrow> spec_combine sp x y = Inr u \<Longrightarrow> spec_combine sp u z = Inr s \<Longrightarrow> weight s < limit \<Longrightarrow>
      \<exists>v. spec_combine sp y z = Inr v \<and> spec_combine sp x v = Inr s"
    and assoc_left: "good x \<Longrightarrow> good y \<Longrightarrow> good z \<Longrightarrow> spec_combine sp y z = Inr v \<Longrightarrow> spec_combine sp x v = Inr s \<Longrightarrow> weight s < limit \<Longrightarrow>
      \<exists>u. spec_combine sp x y = Inr u \<and> spec_combine sp u z = Inr s"
begin

definition small :: "'s \<Rightarrow> bool" where
  "small s \<longleftrightarrow> weight s < limit"

lemma small_parts: "good x \<Longrightarrow> good y \<Longrightarrow> spec_combine sp x y = Inr s \<Longrightarrow> small s \<Longrightarrow> small x \<and> small y"
  using weight_combine [of x y s] by (simp add: small_def)

lemmas small_assoc = assoc_right [folded small_def] assoc_left [folded small_def]

lemma holds_good: "holds sp a t \<Longrightarrow> good (tsum t)"
  by (induction t) (auto intro: good_leaf good_combine)

lemma validate_held: "holds sp a t \<Longrightarrow> validate_measure sp (measure_of t) (tcount t = 1) = Inr ()"
proof (cases t)
  case (TBranch h s l r)
  assume "holds sp a t"
  moreover have "2 \<le> tcount t" "2 \<le> theight t" using tcount_branch [of h s l r] TBranch theight_pos [of l] by (simp_all add: Suc_le_eq less_max_iff_disj del: theight_pos)
  ultimately show ?thesis using holds_height [of sp a t] by (simp add: validate_measure_def del: length_greater_0_conv)
qed (simp add: validate_measure_def)

lemma leaves_good: "holds sp a t \<Longrightarrow> s \<in> snd ` set (tleaves t) \<Longrightarrow> good s"
  by (induction t) (auto intro: good_leaf)

abbreviation refusing :: "'e \<Rightarrow> 't \<Rightarrow> bool" where
  "refusing \<equiv> \<lambda>e _. read_refusal sp e"

lemma refusing_message: "m \<in> set read_messages \<Longrightarrow> read_refusal sp (invalid sp m)"
  by (auto simp: read_refusal_def)

lemma runs_leaf_summary: "is_leaf sp p s \<Longrightarrow> runs refusing (leaf_summary sp p) i (\<lambda>x _. x = Some s)"
proof -
  assume l: "is_leaf sp p s"
  obtain r j where r: "leaf_summary sp p i = Some (r, j)" using total(1) [of p i] by auto
  show ?thesis
  proof (cases r)
    case (Inl e)
    then have "charge_refusal sp e" using r l unfolding charge_refusal_def is_leaf_def by blast
    then show ?thesis using r Inl by (simp add: runs_def read_refusal_def)
  qed (use r l leaf_stable in \<open>simp add: runs_def\<close>)
qed

lemma runs_branch_measure: "is_branch sp p m \<Longrightarrow> runs refusing (branch_measure sp p) i (\<lambda>x _. x = Some m)"
proof -
  assume b: "is_branch sp p m"
  obtain r j where r: "branch_measure sp p i = Some (r, j)" using total(2) [of p i] by auto
  show ?thesis
  proof (cases r)
    case (Inl e)
    then have "charge_refusal sp e" using r b unfolding charge_refusal_def is_branch_def by blast
    then show ?thesis using r Inl by (simp add: runs_def read_refusal_def)
  qed (use r b branch_stable in \<open>simp add: runs_def\<close>)
qed

lemma runs_header_parts:
  assumes p: "arena_payload a h = Some (Inr p)"
    and d: "(\<exists>s. is_leaf sp p s \<and> leaf = Some s \<and> branch = None) \<or> (\<exists>m. is_branch sp p m \<and> leaf = None \<and> branch = Some m)"
    and k: "\<And>i. runs refusing (header_of sp a h leaf branch) i Q"
  shows "runs refusing (sequence_node_header sp a h) i Q"
proof -
  have leaf: "runs refusing (inspect_spec (leaf_summary sp p)) i (\<lambda>x _. x = leaf)" for i
    using d runs_leaf_summary branch_not_leaf by (intro runs_inspect_spec) (auto simp: runs_def)
  have branch: "runs refusing (inspect_spec (branch_measure sp p)) i (\<lambda>x _. x = branch)" for i
    using d runs_branch_measure leaf_not_branch by (intro runs_inspect_spec) (auto simp: runs_def)
  show ?thesis
  proof (cases "budget_spent i")
    case True
    then show ?thesis by (simp add: runs_def sequence_node_header_def refusing_message read_messages_def)
  next
    case False
    have "runs refusing (decode_header sp a h) i Q"
      unfolding decode_header_def runs_do_iff p runs_of_arena
      by (intro runs_update runs_mono [OF leaf] runs_mono [OF branch]) (use k in \<open>simp_all add: refusing_message read_messages_def\<close>)
    then show ?thesis using False by (simp add: runs_def sequence_node_header_def)
  qed
qed

lemma runs_header:
  assumes inv: "arena_inv R a" and t: "holds sp a t"
  shows "runs refusing (sequence_node_header sp a (troot t)) i (\<lambda>x _. x = theader t)"
proof -
  note live = holds_live [OF t]
  show ?thesis
  proof (cases t)
    case (TLeaf h s)
    then obtain p where p: "node_of a h = (Some p, Some [])" "is_leaf sp p s" using t by auto
    have "arena_payload a h = Some (Inr p) \<and> child_count a h = Some (Inr 0)"
      by (rule node_of_live [OF arena_invD(1) [OF inv] live]) (use p TLeaf in auto)
    then show ?thesis using p TLeaf
      by (intro runs_header_parts [where leaf = "Some s" and branch = None])
        (auto simp: header_of_def theader_def measure_of_def runs_do_iff)
  next
    case (TBranch h s l r)
    then obtain p where p: "node_of a h = (Some p, Some [troot l, troot r])" "is_branch sp p (measure_of t)" using t by auto
    have c: "arena_payload a h = Some (Inr p) \<and> child_count a h = Some (Inr 2) \<and> child_at a h 0 = Some (Inr (troot l)) \<and>
        child_at a h 1 = Some (Inr (troot r))"
      by (rule node_of_live [OF arena_invD(1) [OF inv] live]) (use p TBranch in auto)
    have v: "validate_measure sp (measure_of t) False = Inr ()"
      using validate_held [OF t] tcount_branch [of h s l r] TBranch by simp
    show ?thesis using p c v TBranch
      by (intro runs_header_parts [where leaf = None and branch = "Some (measure_of t)"])
        (auto simp: header_of_def theader_def runs_do_iff)
  qed
qed

subsection \<open>Nodes\<close>

lemma runs_header_shared:
  assumes inv: "arena_inv R a" and u: "holds sp a u" and t: "cache_sound sp a t"
  shows "runs refusing (sequence_node_header_shared mem sp a (troot u)) t (\<lambda>x t'. x = theader u \<and> cache_sound sp a t')"
proof (cases "Option.bind (snd t) (\<lambda>c. cache_get c (troot u))")
  case (Some x)
  then have "x = theader u" using t u by (auto simp: bind_eq_Some_conv cache_get_def cache_sound_def)
  then show ?thesis using Some t by (simp add: runs_def sequence_node_header_shared_def)
next
  case None
  let ?store = "\<lambda>header (t :: 's read_state). case snd t of None \<Rightarrow> seq_ok header t
     | Some c \<Rightarrow> (case cache_insert mem sp c (troot u) header of Inl e \<Rightarrow> seq_err e t | Inr c' \<Rightarrow> seq_ok header (fst t, Some c'))"
  have "runs refusing (seq_on_fst (sequence_node_header sp a (troot u))) t
      (\<lambda>x t'. x = theader u \<and> snd t' = snd t \<and> (\<forall>v. holds sp a v \<longrightarrow> troot v = troot u \<longrightarrow> theader v = x))"
  proof (rule runs_on_fst, rule runs_conseq [OF runs_header [OF inv u]])
    fix x j assume x: "sequence_node_header sp a (troot u) (fst t) = Some (Inr x, j)" "x = theader u"
    have "theader v = x" if "holds sp a v" "troot v = troot u" for v
      using runs_header [OF inv that(1), of "fst t"] x that(2) by (simp add: runs_def)
    then show "x = theader u \<and> snd (j, snd t) = snd t \<and> (\<forall>v. holds sp a v \<longrightarrow> troot v = troot u \<longrightarrow> theader v = x)"
      using x(2) by simp
  qed
  then have "runs refusing (seq_do (seq_on_fst (sequence_node_header sp a (troot u))) ?store) t (\<lambda>x t'. x = theader u \<and> cache_sound sp a t')"
  proof (rule runs_bind)
    fix x and t' :: "'s read_state"
    assume x: "x = theader u \<and> snd t' = snd t \<and> (\<forall>v. holds sp a v \<longrightarrow> troot v = troot u \<longrightarrow> theader v = x)"
    show "runs refusing (?store x) t' (\<lambda>x t'. x = theader u \<and> cache_sound sp a t')"
    proof (cases "snd t'")
      case None
      then show ?thesis using x t by (simp add: runs_def cache_sound_def)
    next
      case (Some c)
      then have c: "map_of c (cache_key (troot u)) = None" using \<open>Option.bind _ _ = None\<close> x by (simp add: cache_get_def)
      have "cache_sound sp a (fst t', Some c')" if "cache_insert mem sp c (troot u) x = Inr c'" for c'
      proof -
        have st: "snd t = Some c" using Some x by simp
        show ?thesis using x t cache_insert_lookup [OF that c] unfolding cache_sound_def st by (auto split: if_splits)
      qed
      then show ?thesis using Some x c
        by (auto simp: runs_def cache_insert_def refusing_message read_messages_def Let_def split: sum.splits)
    qed
  qed
  then show ?thesis using None by (simp add: runs_def sequence_node_header_shared_def)
qed

lemma runs_count:
  "m \<in> set read_messages \<Longrightarrow> (\<And>u. Q () u) \<Longrightarrow> runs refusing (count_combination sp m) i Q"
  unfolding count_combination_def by (rule runs_update) (simp_all add: refusing_message)

lemma runs_combine:
  assumes h: "holds sp a l" "holds sp a r" "spec_combine sp (tsum l) (tsum r) = Inr s"
    and b: "theight l \<le> theight r + 1" "theight r \<le> theight l + 1" "tcount l + tcount r < 2 ^ 64"
  shows "runs refusing (combine_measures sp (measure_of l) (measure_of r)) i (\<lambda>x _. x = measure_of (TBranch h s l r))"
proof -
  let ?t = "TBranch h s l r"
  have "tbalanced ?t" using h b holds_balanced by auto
  then have "theight ?t \<le> 92" "theight ?t \<le> maximum_avl_height (tcount ?t)"
    using theight_maximum [of ?t] maximum_le_92 [of "tcount ?t"] b by auto
  moreover have "2 \<le> tcount ?t" "2 \<le> theight ?t"
    using tcount_branch [of h s l r] theight_pos [of l] by (simp_all add: Suc_le_eq less_max_iff_disj del: theight_pos)
  ultimately have v: "validate_measure sp (measure_of ?t) False = Inr ()" "max (theight l) (theight r) + 1 < 2 ^ 16"
    by (auto simp: validate_measure_def simp del: length_greater_0_conv)
  have m: "\<lparr>sm_summary = s, sm_leaves = tcount l + tcount r, sm_height = Suc (max (theight l) (theight r))\<rparr> = measure_of ?t"
    by (simp add: measure_of_def)
  have ad: "\<not> 1 < abs_diff (theight l) (theight r)" using b by (auto simp: abs_diff_def)
  have c: "checked_add (tcount l) (tcount r) = Some (tcount l + tcount r)" using b by (simp add: checked_add_def)
  show ?thesis unfolding combine_measures_def measure_of_simps validate_held [OF h(1)] validate_held [OF h(2)] if_not_P [OF ad] h(3)
    using v(1) [folded m] v(2) c by (auto simp: runs_do_iff Let_def measure_of_def read_messages_def intro!: runs_count)
qed

lemma runs_node_shared:
  assumes inv: "arena_inv R a" and u: "holds sp a u" and t: "cache_sound sp a t"
  shows "runs refusing (sequence_node_shared mem sp a (troot u)) t (\<lambda>x t'. x = tnode u \<and> cache_sound sp a t')"
  unfolding sequence_node_shared_def
proof (rule runs_bind [OF runs_header_shared [OF inv u t]])
  fix x t1 assume x: "x = theader u \<and> cache_sound sp a t1"
  show "runs refusing (case nh_kind x of HeaderLeaf \<Rightarrow> seq_ok \<lparr>dn_measure = nh_measure x, dn_kind = NodeLeaf\<rparr>
     | HeaderBranch left right \<Rightarrow>
         seq_do (sequence_node_header_shared mem sp a left) (\<lambda>lh.
         seq_do (sequence_node_header_shared mem sp a right) (\<lambda>rh.
         seq_do (seq_on_fst (combine_measures sp (nh_measure lh) (nh_measure rh))) (\<lambda>expected.
         if nh_measure x \<noteq> expected then seq_err (invalid sp ''sequence branch measure does not match its children'')
         else seq_ok \<lparr>dn_measure = nh_measure x, dn_kind = NodeBranch left (nh_measure lh) right (nh_measure rh)\<rparr>))))
     t1 (\<lambda>x t'. x = tnode u \<and> cache_sound sp a t')"
  proof (cases u)
    case (TLeaf h s)
    then show ?thesis using x by (simp add: theader_def tnode_def)
  next
    case (TBranch h s l r)
    have c: "holds sp a l" "holds sp a r" "spec_combine sp (tsum l) (tsum r) = Inr s" "theight l \<le> theight r + 1" "theight r \<le> theight l + 1"
      "tcount l + tcount r < 2 ^ 64" using u TBranch by simp_all
    have k: "nh_kind x = HeaderBranch (troot l) (troot r)" using x TBranch by (simp add: theader_def)
    show ?thesis unfolding k node_header_kind.case
    proof (rule runs_bind [OF runs_header_shared [OF inv c(1)]], use x in simp)
      fix lh t2 assume lh: "lh = theader l \<and> cache_sound sp a t2"
      show "runs refusing (seq_do (sequence_node_header_shared mem sp a (troot r)) (\<lambda>rh.
         seq_do (seq_on_fst (combine_measures sp (nh_measure lh) (nh_measure rh))) (\<lambda>expected.
         if nh_measure x \<noteq> expected then seq_err (invalid sp ''sequence branch measure does not match its children'')
         else seq_ok \<lparr>dn_measure = nh_measure x, dn_kind = NodeBranch (troot l) (nh_measure lh) (troot r) (nh_measure rh)\<rparr>)))
        t2 (\<lambda>x t'. x = tnode u \<and> cache_sound sp a t')"
      proof (rule runs_bind [OF runs_header_shared [OF inv c(2)]], use lh in simp)
        fix rh t3 assume rh: "rh = theader r \<and> cache_sound sp a t3"
        have "runs refusing (seq_on_fst (combine_measures sp (measure_of l) (measure_of r))) t3 (\<lambda>y t'. y = measure_of u \<and> cache_sound sp a t')"
          using rh TBranch by (intro runs_on_fst runs_mono [OF runs_combine [OF c, where h = h]]) (auto intro: cache_sound_snd)
        then show "runs refusing (seq_do (seq_on_fst (combine_measures sp (nh_measure lh) (nh_measure rh))) (\<lambda>expected.
           if nh_measure x \<noteq> expected then seq_err (invalid sp ''sequence branch measure does not match its children'')
           else seq_ok \<lparr>dn_measure = nh_measure x, dn_kind = NodeBranch (troot l) (nh_measure lh) (troot r) (nh_measure rh)\<rparr>))
          t3 (\<lambda>x t'. x = tnode u \<and> cache_sound sp a t')"
          using x lh rh TBranch by (auto simp: tnode_def elim!: runs_bind)
      qed
    qed
  qed
qed

lemma runs_node:
  assumes "arena_inv R a" "holds sp a u"
  shows "runs refusing (sequence_node sp a (troot u)) i (\<lambda>x _. x = tnode u)"
  unfolding sequence_node_def by (rule runs_uncached) (rule runs_mono [OF runs_node_shared [OF assms]], simp_all)

subsection \<open>Summaries\<close>

lemma fold_good: "(\<And>s. s \<in> set xs \<Longrightarrow> good s) \<Longrightarrow> fold_summaries sp xs = Some u \<Longrightarrow> good u"
proof (induction xs arbitrary: u rule: rev_induct)
  case (snoc y xs)
  show ?case
  proof (cases "xs = []")
    case False
    then obtain v where "fold_summaries sp xs = Some v" "spec_combine sp v y = Inr u"
      using snoc.prems(2) by (auto simp: fold_summaries_snoc combine_next_Some)
    then show ?thesis using snoc.IH [of v] snoc.prems(1) good_combine [of v y u] by simp
  qed (use snoc in simp)
qed simp

lemma fold_append:
  assumes "\<And>s. s \<in> set xs \<union> set ys \<Longrightarrow> good s" "xs \<noteq> []" "ys \<noteq> []" "fold_summaries sp (xs @ ys) = Some w" "small w"
  shows "\<exists>u v. fold_summaries sp xs = Some u \<and> fold_summaries sp ys = Some v \<and> spec_combine sp u v = Inr w \<and> small u \<and> small v"
  using assms
proof (induction ys arbitrary: w rule: rev_induct)
  case (snoc y ys)
  obtain x where x: "fold_summaries sp (xs @ ys) = Some x" "spec_combine sp x y = Inr w"
    using snoc.prems by (auto simp: fold_summaries_snoc combine_next_Some simp flip: append_assoc)
  have gx: "good x" "good y" using fold_good [OF _ x(1)] snoc.prems(1) by auto
  note sm = small_parts [OF gx x(2) snoc.prems(5)]
  show ?case
  proof (cases "ys = []")
    case True
    then show ?thesis using x sm by simp
  next
    case False
    obtain u v where uv: "fold_summaries sp xs = Some u" "fold_summaries sp ys = Some v" "spec_combine sp u v = Inr x" "small u"
      using snoc.IH [OF _ snoc.prems(2) False x(1)] snoc.prems(1) sm by auto
    have g: "good u" "good v" using fold_good [OF _ uv(1)] fold_good [OF _ uv(2)] snoc.prems(1) by auto
    obtain z where z: "spec_combine sp v y = Inr z" "spec_combine sp u z = Inr w"
      using small_assoc(1) [OF g gx(2) uv(3) x(2) snoc.prems(5)] by blast
    then have "small z" using small_parts [OF g(1) good_combine [OF g(2) gx(2) z(1)] z(2) snoc.prems(5)] by blast
    then show ?thesis using uv z False by (simp add: fold_summaries_snoc combine_next_def)
  qed
qed simp

lemma fold_join:
  assumes "\<And>s. s \<in> set xs \<union> set ys \<Longrightarrow> good s" "fold_summaries sp xs = Some u" "fold_summaries sp ys = Some v"
    "spec_combine sp u v = Inr w" "small w"
  shows "fold_summaries sp (xs @ ys) = Some w"
  using assms
proof (induction ys arbitrary: v w rule: rev_induct)
  case (snoc y ys)
  have ne: "xs \<noteq> []" using snoc.prems(2) by auto
  show ?case
  proof (cases "ys = []")
    case True
    then show ?thesis using snoc.prems ne by (simp add: fold_summaries_snoc combine_next_def)
  next
    case False
    obtain z where z: "fold_summaries sp ys = Some z" "spec_combine sp z y = Inr v"
      using snoc.prems(3) False by (auto simp: fold_summaries_snoc combine_next_Some)
    have g: "good u" "good z" "good y"
      using fold_good [OF _ snoc.prems(2)] fold_good [OF _ z(1)] snoc.prems(1) by auto
    obtain x where x: "spec_combine sp u z = Inr x" "spec_combine sp x y = Inr w"
      using small_assoc(2) [OF g z(2) snoc.prems(4,5)] by blast
    have "small x" using small_parts [OF good_combine [OF g(1,2) x(1)] g(3) x(2) snoc.prems(5)] by blast
    then have "fold_summaries sp (xs @ ys) = Some x" using snoc.IH [OF _ snoc.prems(2) z(1) x(1)] snoc.prems(1) by auto
    then show ?thesis using x ne by (simp add: fold_summaries_snoc combine_next_def flip: append_assoc)
  qed
qed simp

text \<open>Any run of leaves between others has a summary.\<close>

lemma fold_infix:
  assumes g: "\<And>s. s \<in> set xs \<Longrightarrow> good s" and w: "fold_summaries sp xs = Some w" "small w" and xs: "xs = p @ ys @ q" "ys \<noteq> []"
  shows "\<exists>v. fold_summaries sp ys = Some v \<and> small v"
proof -
  have "\<exists>v. fold_summaries sp (ys @ q) = Some v \<and> small v"
    using w xs fold_append [of p "ys @ q" w] g by (cases "p = []") auto
  then obtain v where "fold_summaries sp (ys @ q) = Some v" "small v" by blast
  then show ?thesis using xs fold_append [of ys q v] g by (cases "q = []") auto
qed

lemma summaries_good: "holds sp a t \<Longrightarrow> s \<in> set (summaries t) \<Longrightarrow> good s"
  using leaves_good by (auto simp: summaries_def)

lemma held_small: "holds sp a (TBranch h s l r) \<Longrightarrow> small s \<Longrightarrow> small (tsum l) \<and> small (tsum r)"
  using small_parts [of "tsum l" "tsum r" s] holds_good [of a l] holds_good [of a r] by simp

lemma fold_held: "holds sp a t \<Longrightarrow> small (tsum t) \<Longrightarrow> fold_summaries sp (summaries t) = Some (tsum t)"
proof (induction t)
  case (TBranch h s l r)
  note h = TBranch.prems(1)
  have "fold_summaries sp (summaries l) = Some (tsum l)" "fold_summaries sp (summaries r) = Some (tsum r)"
    using TBranch held_small [OF h] by simp_all
  then have "fold_summaries sp (summaries l @ summaries r) = Some s"
    using fold_join [of "summaries l" "summaries r" "tsum l" "tsum r" s] summaries_good [of a l] summaries_good [of a r] TBranch.prems by auto
  then show ?case by (simp add: summaries_def)
qed (simp add: summaries_def)

lemma fold_part:
  assumes "holds sp a t" "small (tsum t)" "part (summaries t) start rs re \<noteq> []"
  shows "\<exists>v. fold_summaries sp (part (summaries t) start rs re) = Some v \<and> small v"
proof -
  obtain p q where "summaries t = p @ part (summaries t) start rs re @ q" using part_infix by blast
  then show ?thesis using fold_infix [OF _ fold_held [OF assms(1,2)] assms(2)] summaries_good [OF assms(1)] assms(3) by metis
qed

subsection \<open>Ranges\<close>

lemma runs_range_inner:
  assumes inv: "arena_inv R a"
  shows "holds sp a t \<Longrightarrow> small (tsum t) \<Longrightarrow> start + tcount t < 2 ^ 64 \<Longrightarrow>
    runs refusing (measured_sequence_range_summary_inner sp a (troot t) (measure_of t) start rs re) i
      (\<lambda>x _. x = fold_summaries sp (part (summaries t) start rs re))"
proof (induction t arbitrary: start i)
  case (TLeaf h s)
  have "re \<le> start \<or> start + 1 \<le> rs \<or> rs \<le> start \<and> start + 1 \<le> re" by auto
  then show ?case using TLeaf.prems
    by (subst runs_returns, subst measured_sequence_range_summary_inner.simps)
      (auto simp: checked_add_def summaries_def part_none part_all)
next
  case (TBranch h s l r)
  let ?t = "TBranch h s l r"
  have c: "holds sp a l" "holds sp a r" using TBranch.prems(1) by simp_all
  have sm: "small (tsum l)" "small (tsum r)" using held_small [OF TBranch.prems(1)] TBranch.prems(2) by simp_all
  have bd: "start + tcount l < 2 ^ 64" "start + tcount l + tcount r < 2 ^ 64" using TBranch.prems(3) by simp_all
  have sums: "summaries ?t = summaries l @ summaries r" "length (summaries l) = tcount l" "length (summaries ?t) = tcount l + tcount r"
    by (simp_all add: summaries_def)
  let ?l = "part (summaries l) start rs re" and ?r = "part (summaries r) (start + tcount l) rs re"
  have cut: "part (summaries ?t) start rs re = ?l @ ?r" using sums by (simp add: part_append)
  have both: "\<exists>x y z. fold_summaries sp ?l = Some x \<and> fold_summaries sp ?r = Some y \<and> spec_combine sp x y = Inr z \<and>
      fold_summaries sp (?l @ ?r) = Some z" if ne: "?l \<noteq> []" "?r \<noteq> []"
  proof -
    obtain z where z: "fold_summaries sp (?l @ ?r) = Some z" "small z"
      using fold_part [OF TBranch.prems(1), of start rs re] TBranch.prems(2) cut ne by auto
    have "good x" if "x \<in> set ?l \<union> set ?r" for x
      using that summaries_good [OF c(1)] summaries_good [OF c(2)] by (auto simp: part_def dest!: in_set_dropD in_set_takeD)
    then show ?thesis using fold_append [OF _ ne z] z by blast
  qed
  show ?case
  proof (cases "re \<le> start \<or> start + (tcount l + tcount r) \<le> rs \<or> rs \<le> start \<and> start + (tcount l + tcount r) \<le> re")
    case True
    then show ?thesis using bd fold_held [OF TBranch.prems(1)] TBranch.prems(2) sums
      by (subst runs_returns, subst measured_sequence_range_summary_inner.simps)
        (auto simp: checked_add_def part_none part_all add.assoc)
  next
    case False
    then have nf: "\<not> (re \<le> start \<or> start + (tcount l + tcount r) \<le> rs)" "\<not> (rs \<le> start \<and> start + (tcount l + tcount r) \<le> re)" by auto
    have "runs refusing (measured_sequence_range_summary_inner sp a (troot l) (measure_of l) start rs re) i (\<lambda>x _. x = fold_summaries sp ?l)"
      "runs refusing (measured_sequence_range_summary_inner sp a (troot r) (measure_of r) (start + tcount l) rs re) i (\<lambda>x _. x = fold_summaries sp ?r)" for i
      using TBranch.IH c sm bd by simp_all
    note sub = this
    have fin: "returns refusing (case fold_summaries sp ?l of None \<Rightarrow> seq_ok (fold_summaries sp ?r) u
        | Some x \<Rightarrow> (case fold_summaries sp ?r of None \<Rightarrow> seq_ok (Some x) u
           | Some y \<Rightarrow> seq_do (count_combination sp ''sequence summary combination count overflow'')
                (\<lambda>_. seq_do (seq_result (spec_combine sp x y)) (\<lambda>z. seq_ok (Some z))) u)) (\<lambda>x _. x = fold_summaries sp (?l @ ?r))" for u
    proof (cases "?l = [] \<or> ?r = []")
      case True
      then show ?thesis by (auto split: option.splits)
    next
      case False
      then obtain x y z where "fold_summaries sp ?l = Some x" "fold_summaries sp ?r = Some y" "spec_combine sp x y = Inr z"
        "fold_summaries sp (?l @ ?r) = Some z" using both by blast
      then show ?thesis by (auto simp: read_messages_def intro!: runs_count)
    qed
    have add: "checked_add start (tcount ?t) = Some (start + (tcount l + tcount r))" "checked_add start (tcount l) = Some (start + tcount l)"
      using bd by (simp_all add: checked_add_def)
    show ?thesis
      apply (subst runs_returns, subst measured_sequence_range_summary_inner.simps)
      apply (simp only: measure_of_simps add option.case if_not_P [OF nf(1)] if_not_P [OF nf(2)] returns_simps cut)
      apply (rule runs_mono [OF runs_node [OF inv TBranch.prems(1)]])
      using fin by (auto simp: add intro!: runs_mono [OF sub(1)] runs_mono [OF sub(2)])
  qed
qed

lemma runs_range:
  assumes inv: "arena_inv R a" and t: "holds sp a t" "small (tsum t)" and b: "rs \<le> re" "re \<le> tcount t"
  shows "runs refusing (measured_sequence_range_summary sp a (troot t) rs re) i
     (\<lambda>x _. x = fold_summaries sp (take (re - rs) (drop rs (summaries t))))"
proof -
  have "part (summaries t) 0 rs re = take (re - rs) (drop rs (summaries t))" by (simp add: part_def drop_take)
  then show ?thesis
    using b runs_range_inner [OF inv t, of 0 rs re] holds_count [OF t(1)]
    by (cases "rs = re") (auto simp: measured_sequence_range_summary_def intro!: runs_bind [OF runs_node [OF inv t(1)]])
qed

subsection \<open>Locating\<close>

lemma runs_extend:
  assumes l: "holds sp a l" "small (tsum l)" and b: "\<And>s. s \<in> set earlier \<Longrightarrow> good s"
    and v: "fold_summaries sp (earlier @ summaries l) = Some v" "small v"
  shows "runs refusing (extend_prefix sp (fold_summaries sp earlier) (tsum l)) i (\<lambda>x _. x = v)"
proof (cases "earlier = []")
  case True
  then show ?thesis using v fold_held [OF l] by (simp add: extend_prefix_def)
next
  case False
  then obtain u where "fold_summaries sp earlier = Some u" "spec_combine sp u (tsum l) = Inr v"
    using fold_append [of earlier "summaries l" v] b summaries_good [OF l(1)] v fold_held [OF l] by auto
  then show ?thesis by (auto simp: extend_prefix_def runs_do_iff read_messages_def intro!: runs_count)
qed

text \<open>What a descent keeps: the summaries before the subtree and its own combine.\<close>

definition descends :: "page_arena \<Rightarrow> 's list \<Rightarrow> 's seq_tree \<Rightarrow> bool" where
  "descends a earlier t \<longleftrightarrow> holds sp a t \<and> small (tsum t) \<and> (\<forall>s\<in>set earlier. good s) \<and>
     (\<exists>v. fold_summaries sp (earlier @ summaries t) = Some v \<and> small v)"

lemma descends_root: "holds sp a t \<Longrightarrow> small (tsum t) \<Longrightarrow> descends a [] t"
  by (simp add: descends_def fold_held)

lemma descends_branch:
  assumes "descends a earlier (TBranch h s l r)"
  shows "descends a earlier l" "descends a (earlier @ summaries l) r"
    "runs refusing (extend_prefix sp (fold_summaries sp earlier) (tsum l)) i (\<lambda>x _. Some x = fold_summaries sp (earlier @ summaries l))"
proof -
  have t: "holds sp a (TBranch h s l r)" "small s" and b: "\<forall>s\<in>set earlier. good s" using assms by (simp_all add: descends_def)
  have c: "holds sp a l" "holds sp a r" "small (tsum l)" "small (tsum r)" using t held_small [OF t] by simp_all
  obtain v where v: "fold_summaries sp (earlier @ summaries l @ summaries r) = Some v" "small v" using assms by (auto simp: descends_def)
  have g: "\<forall>s\<in>set (earlier @ summaries l @ summaries r). good s" using b c summaries_good by auto
  obtain w where w: "fold_summaries sp (earlier @ summaries l) = Some w" "small w"
    using fold_append [of "earlier @ summaries l" "summaries r" v] g v by auto
  show "descends a earlier l" using c b w by (auto simp: descends_def)
  show "descends a (earlier @ summaries l) r" using c g v by (auto simp: descends_def)
  show "runs refusing (extend_prefix sp (fold_summaries sp earlier) (tsum l)) i (\<lambda>x _. Some x = fold_summaries sp (earlier @ summaries l))"
    using runs_mono [OF runs_extend [OF c(1,3) _ w]] b w by auto
qed

lemma runs_on_read: "runs refusing m (fst t) (\<lambda>x _. P x) \<Longrightarrow> cache_sound sp a t \<Longrightarrow>
    runs refusing (seq_on_fst m) t (\<lambda>x u. P x \<and> cache_sound sp a u)"
  by (rule runs_on_fst, erule runs_mono) (auto intro: cache_sound_snd)

lemma runs_locate_index:
  assumes inv: "arena_inv R a"
  shows "descends a earlier t \<Longrightarrow> theight t \<le> turns \<Longrightarrow> index < tcount t \<Longrightarrow> cache_sound sp a u \<Longrightarrow>
    runs refusing (locate_index_loop mem sp a n turns (troot t) (measure_of t) index (fold_summaries sp earlier)) u
      (\<lambda>x u. x = Some (located_at sp earlier t index n) \<and> cache_sound sp a u)"
proof (induction t arbitrary: earlier turns index u)
  case (TLeaf h s)
  then obtain k where k: "turns = Suc k" by (cases turns) auto
  have h: "holds sp a (TLeaf h s)" using TLeaf.prems(1) by (simp add: descends_def)
  show ?case unfolding k locate_index_loop.simps
    by (rule runs_bind [OF runs_node_shared [OF inv h TLeaf.prems(4)]]) (use TLeaf.prems(3) in \<open>simp add: located_at_def\<close>)
next
  case (TBranch h s l r)
  then obtain k where k: "turns = Suc k" "theight l \<le> k" "theight r \<le> k" by (cases turns) auto
  have h: "holds sp a (TBranch h s l r)" using TBranch.prems(1) by (simp add: descends_def)
  note d = descends_branch [OF TBranch.prems(1)]
  show ?case unfolding k locate_index_loop.simps
  proof (rule runs_bind [OF runs_node_shared [OF inv h TBranch.prems(4)]], goal_cases)
    case (1 x u)
    show ?case
    proof (cases "index < tcount l")
      case True
      then show ?thesis using 1 TBranch.IH(1) [OF d(1) k(2) True] by (simp add: located_at_branch)
    next
      case False
      let ?rest = "index - tcount l"
      have i: "index = tcount l + ?rest" "?rest < tcount r" using False TBranch.prems(3) by auto
      have "runs refusing (seq_do (seq_on_fst (extend_prefix sp (fold_summaries sp earlier) (tsum l))) (\<lambda>p.
          locate_index_loop mem sp a n k (troot r) (measure_of r) ?rest (Some p))) u
          (\<lambda>x u. x = Some (located_at sp (earlier @ summaries l) r ?rest n) \<and> cache_sound sp a u)"
        by (rule runs_bind [OF runs_on_read [OF d(3)]]) (use 1 TBranch.IH(2) [OF d(2) k(3) i(2)] in auto)
      then show ?thesis using 1 False located_at_branch(2) [of sp earlier h s l r ?rest n] i(1) by (simp add: checked_sub_def)
    qed
  qed
qed

lemma runs_locate_shared:
  assumes inv: "arena_inv R a" and t: "holds sp a t" "small (tsum t)" and u: "cache_sound sp a u"
  shows "runs refusing (locate_leaf_with_prefix_shared mem sp a (Some (troot t)) n) u
     (\<lambda>x u. x = (if n < tcount t then Some (located_at sp [] t n n) else None) \<and> cache_sound sp a u)"
  unfolding locate_leaf_with_prefix_shared_def option.case
  by (rule runs_bind [OF runs_node_shared [OF inv t(1) u]])
    (use runs_locate_index [OF inv descends_root [OF t], of "theight t" n] in auto)

subsection \<open>Metrics\<close>

definition additive_metric :: "('s \<Rightarrow> nat) \<Rightarrow> bool" where
  "additive_metric metric \<longleftrightarrow> (\<forall>s. good s \<longrightarrow> metric s < 2 ^ 64) \<and>
     (\<forall>x y s. good x \<longrightarrow> good y \<longrightarrow> spec_combine sp x y = Inr s \<longrightarrow> metric s = metric x + metric y)"

lemma metric_held: "additive_metric metric \<Longrightarrow> holds sp a t \<Longrightarrow> metric (tsum t) = sum_list (map metric (summaries t))"
proof (induction t)
  case (TBranch h s l r)
  then have "good (tsum l)" "good (tsum r)" "spec_combine sp (tsum l) (tsum r) = Inr s" using holds_good [of a l] holds_good [of a r] by simp_all
  then show ?case using TBranch by (simp add: additive_metric_def)
qed simp

lemma additive_held:
  assumes "additive_metric metric" "holds sp a (TBranch h s l r)"
  shows "additive_at metric (tsum l) (tsum r) s" "metric s = metric (tsum l) + metric (tsum r)"
  using assms metric_held [OF assms] metric_held [of metric a l] metric_held [of metric a r] holds_good [OF assms(2)]
  by (auto simp: additive_at_def checked_add_def additive_metric_def)

lemma runs_locate_metric:
  assumes inv: "arena_inv R a" and m: "additive_metric metric"
  shows "descends a earlier t \<Longrightarrow> theight t \<le> turns \<Longrightarrow> position < metric (tsum t) \<Longrightarrow> cache_sound sp a u \<Longrightarrow>
    ordinal + tcount t < 2 ^ 64 \<Longrightarrow>
    runs refusing (locate_metric_loop mem sp a metric turns (troot t) (measure_of t) position ordinal (fold_summaries sp earlier)) u
      (\<lambda>x u. \<exists>k. holds_position metric (summaries t) position k \<and> x = Some (located_at sp earlier t k (ordinal + k)) \<and> cache_sound sp a u)"
proof (induction t arbitrary: earlier turns position ordinal u)
  case (TLeaf h s)
  then obtain k where k: "turns = Suc k" by (cases turns) auto
  have h: "holds sp a (TLeaf h s)" using TLeaf.prems(1) by (simp add: descends_def)
  show ?case unfolding k locate_metric_loop.simps
    by (rule runs_bind [OF runs_node_shared [OF inv h TLeaf.prems(4)]])
      (use TLeaf.prems(3) in \<open>auto simp: located_at_def holds_position_def Let_def intro!: exI [of _ 0]\<close>)
next
  case (TBranch h s l r)
  then obtain k where k: "turns = Suc k" "theight l \<le> k" "theight r \<le> k" by (cases turns) auto
  have h: "holds sp a (TBranch h s l r)" using TBranch.prems(1) by (simp add: descends_def)
  have ml: "metric (tsum l) = sum_list (map metric (summaries l))" using metric_held [OF m, of a l] h by simp
  note d = descends_branch [OF TBranch.prems(1)] and ad = additive_held [OF m h]
  show ?case unfolding k locate_metric_loop.simps
  proof (rule runs_bind [OF runs_node_shared [OF inv h TBranch.prems(4)]], goal_cases)
    case (1 x u)
    show ?case
    proof (cases "position < metric (tsum l)")
      case True
      have "runs refusing (locate_metric_loop mem sp a metric k (troot l) (measure_of l) position ordinal (fold_summaries sp earlier)) u
        (\<lambda>x u. \<exists>k. holds_position metric (summaries l) position k \<and> x = Some (located_at sp earlier l k (ordinal + k)) \<and> cache_sound sp a u)"
        using TBranch.IH(1) [OF d(1) k(2) True] 1 TBranch.prems(5) by simp
      then show ?thesis using 1 True ad(1)
        by (auto simp: located_at_branch intro: holds_position_left elim!: runs_mono)
          (metis holds_position_def holds_position_left located_at_branch(1) summaries_simps(3))
    next
      case False
      let ?rest = "position - metric (tsum l)"
      have p: "?rest < metric (tsum r)" "ordinal + tcount l + tcount r < 2 ^ 64" "ordinal + tcount l < 2 ^ 64"
        using False TBranch.prems(3,5) ad(2) by auto
      have "runs refusing (seq_do (seq_on_fst (extend_prefix sp (fold_summaries sp earlier) (tsum l))) (\<lambda>p.
          locate_metric_loop mem sp a metric k (troot r) (measure_of r) ?rest (ordinal + tcount l) (Some p))) u
          (\<lambda>x u. \<exists>k. holds_position metric (summaries r) ?rest k \<and> x = Some (located_at sp (earlier @ summaries l) r k (ordinal + tcount l + k)) \<and> cache_sound sp a u)"
        by (rule runs_bind [OF runs_on_read [OF d(3)]]) (use 1 TBranch.IH(2) [OF d(2) k(3) p(1) _ p(2)] in auto)
      then have "runs refusing (seq_do (seq_on_fst (extend_prefix sp (fold_summaries sp earlier) (tsum l))) (\<lambda>p.
          locate_metric_loop mem sp a metric k (troot r) (measure_of r) ?rest (ordinal + tcount l) (Some p))) u
          (\<lambda>x u. \<exists>k. holds_position metric (summaries (TBranch h s l r)) position k \<and>
             x = Some (located_at sp earlier (TBranch h s l r) k (ordinal + k)) \<and> cache_sound sp a u)"
      proof (rule runs_mono, elim exE conjE, goal_cases)
        case (1 x u j)
        have "holds_position metric (summaries l @ summaries r) position (tcount l + j)"
          using holds_position_right [of metric "summaries r" position "summaries l" j] 1 False ml by simp
        then show ?case using 1 located_at_branch(2) [of sp earlier h s l r j] by (intro exI [of _ "tcount l + j"]) (simp add: add.assoc)
      qed
      then show ?thesis using 1 False ad(1) p by (simp add: checked_sub_def checked_add_def)
    qed
  qed
qed

end

end
