(* ===== verification/Flark_Sequence_Edit.thy ===== *)
theory Flark_Sequence_Edit
  imports Flark_Sequence
begin

text \<open>
  The mutations of \<^verbatim>\<open>flark_engine/src/measured_sequence.rs\<close>: branches, the atomic join, split and splice, the resumable join and
  the resumable builder, and the typed seal. A mutation runs on the arena and the mutation receipt; the session is the identity of its build.
  A typed root is the owner it wraps: the drop guards only assert that a capability is not lost.
\<close>

subsection \<open>The state of a mutation\<close>

record mutation_receipt =
  mr_inspection :: inspection_receipt
  leaves_adopted :: nat
  branches_allocated :: nat
  branch_payload_bytes :: nat
  nodes_visited :: nat
  leaves_reused :: nat
  committed_leaves_retained :: nat
  leaves_deleted :: nat
  maximum_atomic_height :: nat
  maximum_live_bins :: nat
  maximum_join_tasks :: nat
  maximum_join_values :: nat
  reserved_owner_slots :: nat
  reserved_scratch_bytes :: nat

definition default_mutation_receipt :: mutation_receipt where
  "default_mutation_receipt = \<lparr>mr_inspection = default_inspection, leaves_adopted = 0, branches_allocated = 0,
     branch_payload_bytes = 0, nodes_visited = 0, leaves_reused = 0, committed_leaves_retained = 0, leaves_deleted = 0,
     maximum_atomic_height = 0, maximum_live_bins = 0, maximum_join_tasks = 0, maximum_join_values = 0,
     reserved_owner_slots = 0, reserved_scratch_bytes = 0\<rparr>"

type_synonym edit_state = "page_arena \<times> mutation_receipt"

type_synonym ('e, 'a) edit = "(edit_state, 'e, 'a) seq_run"

text \<open>Reading the arena on the receipt's inspection; a call that reads the arena; a call that changes it; a change of the receipt.\<close>

definition inspecting :: "(page_arena \<Rightarrow> (inspection_receipt, 'e, 'a) seq_run) \<Rightarrow> ('e, 'a) edit" where
  "inspecting m t = (case m (fst t) (mr_inspection (snd t)) of
     None \<Rightarrow> None | Some (r, i) \<Rightarrow> Some (r, fst t, (snd t)\<lparr>mr_inspection := i\<rparr>))"

definition reading :: "('s, 'e) sequence_spec \<Rightarrow> (page_arena \<Rightarrow> 'a arena_result option) \<Rightarrow> ('e, 'a) edit" where
  "reading sp f t = of_arena sp (f (fst t)) t"

definition changing :: "('s, 'e) sequence_spec \<Rightarrow> (page_arena \<Rightarrow> ('a arena_result \<times> page_arena) option) \<Rightarrow> ('e, 'a) edit" where
  "changing sp f t = (case f (fst t) of
     None \<Rightarrow> None
   | Some (Inl e, a) \<Rightarrow> Some (Inl (from_arena sp e), a, snd t)
   | Some (Inr x, a) \<Rightarrow> Some (Inr x, a, snd t))"

definition noting :: "(mutation_receipt \<Rightarrow> mutation_receipt) \<Rightarrow> ('e, unit) edit" where
  "noting f t = Some (Inr (), fst t, f (snd t))"

definition counting :: "'e \<Rightarrow> (mutation_receipt \<Rightarrow> nat option) \<Rightarrow> (nat \<Rightarrow> mutation_receipt \<Rightarrow> mutation_receipt) \<Rightarrow> ('e, unit) edit" where
  "counting e next store = seq_update e (\<lambda>t. map_option (\<lambda>n. (fst t, store n (snd t))) (next (snd t)))"

definition visit_node :: "('s, 'e) sequence_spec \<Rightarrow> ('e, unit) edit" where
  "visit_node sp = counting (invalid sp ''sequence visit count overflow'') (\<lambda>r. checked_add (nodes_visited r) 1)
     (\<lambda>n r. r\<lparr>nodes_visited := n\<rparr>)"

definition check_owner :: "('s, 'e) sequence_spec \<Rightarrow> arena_build_id \<Rightarrow> arena_build_owner \<Rightarrow> ('e, unit) edit" where
  "check_owner sp session owner = reading sp (\<lambda>a. validate_owner a session owner)"

definition node_of_owner :: "('s, 'e) sequence_spec \<Rightarrow> arena_build_owner \<Rightarrow> ('e, 's decoded_node) edit" where
  "node_of_owner sp owner = inspecting (\<lambda>a. sequence_node sp a (ow_id owner))"

subsection \<open>Branches\<close>

definition owner_height :: "('s, 'e) sequence_spec \<Rightarrow> arena_build_id \<Rightarrow> arena_build_owner \<Rightarrow> ('e, nat) edit" where
  "owner_height sp session owner =
     seq_do (check_owner sp session owner) (\<lambda>_.
     seq_do (node_of_owner sp owner) (\<lambda>node. seq_ok (sm_height (dn_measure node))))"

text \<open>The page \<^verbatim>\<open>encode_branch\<close> has written, cut to the length it returned.\<close>

definition encoded_branch :: "('s, 'e) sequence_spec \<Rightarrow> 's sequence_measure \<Rightarrow> ('e, bytes) edit" where
  "encoded_branch sp m t =
     (case encode_branch sp m zero_page of
        None \<Rightarrow> None
      | Some (Inl e, _) \<Rightarrow> Some (Inl e, t)
      | Some (Inr len, page) \<Rightarrow>
          if len = 0 \<or> len > length page then Some (Inl (invalid sp ''sequence branch encoding length is invalid''), t)
          else Some (Inr (take len page), t))"

definition make_branch :: "(alloc_request \<Rightarrow> bool) \<Rightarrow> ('s, 'e) sequence_spec \<Rightarrow> arena_build_id \<Rightarrow> arena_build_owner \<Rightarrow>
    arena_build_owner \<Rightarrow> ('e, arena_build_owner) edit" where
  "make_branch mem sp session left right =
     seq_do (check_owner sp session left) (\<lambda>_.
     seq_do (check_owner sp session right) (\<lambda>_.
     seq_do (node_of_owner sp left) (\<lambda>left_node.
     seq_do (node_of_owner sp right) (\<lambda>right_node.
     seq_do (inspecting (\<lambda>_. combine_measures sp (dn_measure left_node) (dn_measure right_node))) (\<lambda>m.
     seq_do (encoded_branch sp m) (\<lambda>payload.
     seq_do (changing sp (\<lambda>a. session_allocate mem a session payload [ow_id left, ow_id right])) (\<lambda>parent.
     seq_do (changing sp (\<lambda>a. session_release a session left)) (\<lambda>_.
     seq_do (changing sp (\<lambda>a. session_release a session right)) (\<lambda>_.
     seq_do (counting (invalid sp ''sequence branch count overflow'') (\<lambda>r. checked_add (branches_allocated r) 1)
       (\<lambda>n r. r\<lparr>branches_allocated := n\<rparr>)) (\<lambda>_.
     seq_do (counting (invalid sp ''sequence branch byte count overflow'')
       (\<lambda>r. checked_add (branch_payload_bytes r) (length payload)) (\<lambda>n r. r\<lparr>branch_payload_bytes := n\<rparr>)) (\<lambda>_.
     seq_ok parent)))))))))))"

text \<open>Both children retained, then the branch released: the end of \<^verbatim>\<open>decompose_branch\<close>, which \<^verbatim>\<open>split_owned_atomic\<close> repeats.\<close>

definition take_children :: "(alloc_request \<Rightarrow> bool) \<Rightarrow> ('s, 'e) sequence_spec \<Rightarrow> arena_build_id \<Rightarrow> arena_build_owner \<Rightarrow>
    arena_id \<Rightarrow> arena_id \<Rightarrow> ('e, arena_build_owner \<times> arena_build_owner) edit" where
  "take_children mem sp session node left right =
     seq_do (changing sp (\<lambda>a. session_retain mem a session left)) (\<lambda>l.
     seq_do (changing sp (\<lambda>a. session_retain mem a session right)) (\<lambda>r.
     seq_do (changing sp (\<lambda>a. session_release a session node)) (\<lambda>_.
     seq_ok (l, r))))"

definition decompose_branch :: "(alloc_request \<Rightarrow> bool) \<Rightarrow> ('s, 'e) sequence_spec \<Rightarrow> arena_build_id \<Rightarrow> arena_build_owner \<Rightarrow>
    ('e, arena_build_owner \<times> arena_build_owner) edit" where
  "decompose_branch mem sp session node =
     seq_do (check_owner sp session node) (\<lambda>_.
     seq_do (visit_node sp) (\<lambda>_.
     seq_do (node_of_owner sp node) (\<lambda>decoded.
     case dn_kind decoded of
       NodeLeaf \<Rightarrow> seq_err (invalid sp ''expected a sequence branch'')
     | NodeBranch left _ right _ \<Rightarrow> take_children mem sp session node left right)))"

subsection \<open>Joining\<close>

text \<open>\<^verbatim>\<open>saturating_add(1)\<close> on \<^verbatim>\<open>u16\<close>.\<close>

definition one_above :: "nat \<Rightarrow> nat" where
  "one_above h = min (h + 1) (2 ^ 16 - 1)"

definition balance_owned_atomic :: "(alloc_request \<Rightarrow> bool) \<Rightarrow> ('s, 'e) sequence_spec \<Rightarrow> arena_build_id \<Rightarrow> arena_build_owner \<Rightarrow>
    arena_build_owner \<Rightarrow> ('e, arena_build_owner) edit" where
  "balance_owned_atomic mem sp session left right =
     seq_do (owner_height sp session left) (\<lambda>left_height.
     seq_do (owner_height sp session right) (\<lambda>right_height.
     if left_height > one_above right_height then
       seq_do (decompose_branch mem sp session left) (\<lambda>(left_left, left_right).
       seq_do (owner_height sp session left_right) (\<lambda>inner_height.
       seq_do (owner_height sp session left_left) (\<lambda>outer_height.
       if inner_height > outer_height then
         seq_do (decompose_branch mem sp session left_right) (\<lambda>(pivot_left, pivot_right).
         seq_do (make_branch mem sp session left_left pivot_left) (\<lambda>next_left.
         seq_do (make_branch mem sp session pivot_right right) (\<lambda>next_right.
         make_branch mem sp session next_left next_right)))
       else
         seq_do (make_branch mem sp session left_right right) (\<lambda>next_right.
         make_branch mem sp session left_left next_right))))
     else if right_height > one_above left_height then
       seq_do (decompose_branch mem sp session right) (\<lambda>(right_left, right_right).
       seq_do (owner_height sp session right_left) (\<lambda>inner_height.
       seq_do (owner_height sp session right_right) (\<lambda>outer_height.
       if inner_height > outer_height then
         seq_do (decompose_branch mem sp session right_left) (\<lambda>(pivot_left, pivot_right).
         seq_do (make_branch mem sp session left pivot_left) (\<lambda>next_left.
         seq_do (make_branch mem sp session pivot_right right_right) (\<lambda>next_right.
         make_branch mem sp session next_left next_right)))
       else
         seq_do (make_branch mem sp session left right_left) (\<lambda>next_left.
         make_branch mem sp session next_left right_right))))
     else make_branch mem sp session left right))"

partial_function (option) join_owned_atomic :: "(alloc_request \<Rightarrow> bool) \<Rightarrow> ('s, 'e) sequence_spec \<Rightarrow> arena_build_id \<Rightarrow>
    arena_build_owner \<Rightarrow> arena_build_owner \<Rightarrow> edit_state \<Rightarrow> (('e + arena_build_owner) \<times> edit_state) option" where
  "join_owned_atomic mem sp session left right t =
     seq_do (visit_node sp) (\<lambda>_.
     seq_do (owner_height sp session left) (\<lambda>left_height.
     seq_do (owner_height sp session right) (\<lambda>right_height.
     seq_do (noting (\<lambda>r. r\<lparr>maximum_atomic_height := max (maximum_atomic_height r) (max left_height right_height)\<rparr>)) (\<lambda>_ t.
     if left_height > one_above right_height then
       seq_do (decompose_branch mem sp session left) (\<lambda>oi.
       seq_do (join_owned_atomic mem sp session (snd oi) right) (\<lambda>joined.
       balance_owned_atomic mem sp session (fst oi) joined)) t
     else if right_height > one_above left_height then
       seq_do (decompose_branch mem sp session right) (\<lambda>io.
       seq_do (join_owned_atomic mem sp session left (fst io)) (\<lambda>joined.
       balance_owned_atomic mem sp session joined (snd io))) t
     else make_branch mem sp session left right t)))) t"

definition concat_owned_atomic :: "(alloc_request \<Rightarrow> bool) \<Rightarrow> ('s, 'e) sequence_spec \<Rightarrow> arena_build_id \<Rightarrow>
    arena_build_owner option \<Rightarrow> arena_build_owner option \<Rightarrow> ('e, arena_build_owner option) edit" where
  "concat_owned_atomic mem sp session left right =
     (case (left, right) of
        (None, x) \<Rightarrow> seq_ok x
      | (Some x, None) \<Rightarrow> seq_ok (Some x)
      | (Some l, Some r) \<Rightarrow> seq_do (join_owned_atomic mem sp session l r) (\<lambda>joined. seq_ok (Some joined)))"

definition concat_measured_sequence_build_roots_atomic :: "(alloc_request \<Rightarrow> bool) \<Rightarrow> ('s, 'e) sequence_spec \<Rightarrow> arena_build_id \<Rightarrow>
    arena_build_owner option \<Rightarrow> arena_build_owner option \<Rightarrow> ('e, arena_build_owner option) edit" where
  "concat_measured_sequence_build_roots_atomic mem sp session left right = concat_owned_atomic mem sp session left right"

subsection \<open>Splitting and splicing\<close>

partial_function (option) split_owned_atomic :: "(alloc_request \<Rightarrow> bool) \<Rightarrow> ('s, 'e) sequence_spec \<Rightarrow> arena_build_id \<Rightarrow>
    arena_build_owner \<Rightarrow> nat \<Rightarrow> edit_state \<Rightarrow> (('e + arena_build_owner option \<times> arena_build_owner option) \<times> edit_state) option" where
  "split_owned_atomic mem sp session node leaf_index t =
     seq_do (visit_node sp) (\<lambda>_.
     seq_do (check_owner sp session node) (\<lambda>_.
     seq_do (node_of_owner sp node) (\<lambda>decoded t.
     if leaf_index = 0 then seq_ok (None, Some node) t
     else if leaf_index = sm_leaves (dn_measure decoded) then seq_ok (Some node, None) t
     else if leaf_index > sm_leaves (dn_measure decoded) then seq_err (invalid sp ''sequence split is out of range'') t
     else case dn_kind decoded of
       NodeLeaf \<Rightarrow> seq_err (invalid sp ''sequence split reached a scalar leaf'') t
     | NodeBranch left left_measure right _ \<Rightarrow>
         seq_do (take_children mem sp session node left right) (\<lambda>lr t.
         if leaf_index < sm_leaves left_measure then
           seq_do (split_owned_atomic mem sp session (fst lr) leaf_index) (\<lambda>pm.
           seq_do (concat_owned_atomic mem sp session (snd pm) (Some (snd lr))) (\<lambda>suffix.
           seq_ok (fst pm, suffix))) t
         else if leaf_index = sm_leaves left_measure then seq_ok (Some (fst lr), Some (snd lr)) t
         else
           seq_do (split_owned_atomic mem sp session (snd lr) (leaf_index - sm_leaves left_measure)) (\<lambda>ms.
           seq_do (concat_owned_atomic mem sp session (Some (fst lr)) (fst ms)) (\<lambda>prefix.
           seq_ok (prefix, snd ms))) t) t))) t"

definition reserve_owners :: "(alloc_request \<Rightarrow> bool) \<Rightarrow> ('s, 'e) sequence_spec \<Rightarrow> arena_build_id \<Rightarrow> nat \<Rightarrow> ('e, unit) edit" where
  "reserve_owners mem sp session wanted =
     seq_do (reading sp (\<lambda>a. remaining_owner_capacity a session)) (\<lambda>remaining.
     let reservation = min wanted remaining in
     seq_do (reading sp (\<lambda>a. reserve_owner_capacity mem a session reservation)) (\<lambda>_.
     noting (\<lambda>r. r\<lparr>reserved_owner_slots := max (reserved_owner_slots r) reservation\<rparr>)))"

text \<open>A committed root is its handle, \<open>None\<close> once transferred.\<close>

definition retain_committed_measured_sequence_root_with_measure :: "(alloc_request \<Rightarrow> bool) \<Rightarrow> ('s, 'e) sequence_spec \<Rightarrow> arena_build_id \<Rightarrow>
    arena_id option \<Rightarrow> ('e, arena_build_owner \<times> 's sequence_measure) edit" where
  "retain_committed_measured_sequence_root_with_measure mem sp session root =
     (case root of
        None \<Rightarrow> seq_err (invalid sp ''committed sequence root was transferred'')
      | Some h \<Rightarrow>
          seq_do (inspecting (\<lambda>a. sequence_node sp a h)) (\<lambda>node.
          seq_do (reserve_owners mem sp session 1) (\<lambda>_.
          seq_do (changing sp (\<lambda>a. session_retain mem a session h)) (\<lambda>owner.
          seq_do (counting (invalid sp ''retained leaf count overflow'')
            (\<lambda>r. checked_add (committed_leaves_retained r) (sm_leaves (dn_measure node))) (\<lambda>n r. r\<lparr>committed_leaves_retained := n\<rparr>)) (\<lambda>_.
          seq_ok (owner, dn_measure node))))))"

definition retain_committed_measured_sequence_root :: "(alloc_request \<Rightarrow> bool) \<Rightarrow> ('s, 'e) sequence_spec \<Rightarrow> arena_build_id \<Rightarrow>
    arena_id option \<Rightarrow> ('e, arena_build_owner) edit" where
  "retain_committed_measured_sequence_root mem sp session root =
     seq_do (retain_committed_measured_sequence_root_with_measure mem sp session root) (\<lambda>om. seq_ok (fst om))"

definition optional_owner_measure :: "('s, 'e) sequence_spec \<Rightarrow> arena_build_id \<Rightarrow> arena_build_owner option \<Rightarrow>
    ('e, 's sequence_measure option) edit" where
  "optional_owner_measure sp session owner =
     (case owner of
        None \<Rightarrow> seq_ok None
      | Some x \<Rightarrow> seq_do (check_owner sp session x) (\<lambda>_.
                   seq_do (node_of_owner sp x) (\<lambda>node. seq_ok (Some (dn_measure node)))))"

definition count_reused :: "('s, 'e) sequence_spec \<Rightarrow> nat \<Rightarrow> ('e, unit) edit" where
  "count_reused sp n = counting (invalid sp ''reused leaf count overflow'') (\<lambda>r. checked_add (leaves_reused r) n)
     (\<lambda>n r. r\<lparr>leaves_reused := n\<rparr>)"

text \<open>The part of the splice after its reservation.\<close>

definition splice_owned :: "(alloc_request \<Rightarrow> bool) \<Rightarrow> ('s, 'e) sequence_spec \<Rightarrow> arena_build_id \<Rightarrow> arena_build_owner \<Rightarrow> nat \<Rightarrow>
    nat \<Rightarrow> nat \<Rightarrow> arena_build_owner option \<Rightarrow> ('e, arena_build_owner option) edit" where
  "splice_owned mem sp session base base_leaves range_start range_end replacement =
     seq_do (split_owned_atomic mem sp session base range_start) (\<lambda>(prefix, tail).
     seq_do (case tail of
               Some owner \<Rightarrow> split_owned_atomic mem sp session owner (range_end - range_start)
             | None \<Rightarrow> if range_start = base_leaves \<and> range_end \<le> range_start then seq_ok (None, None)
                       else seq_err (invalid sp ''sequence splice lost its suffix'')) (\<lambda>(deleted, suffix).
     seq_do (case deleted of
               Some owner \<Rightarrow> changing sp (\<lambda>a. session_release a session owner)
             | None \<Rightarrow> seq_ok ()) (\<lambda>_.
     seq_do (concat_owned_atomic mem sp session prefix replacement) (\<lambda>with_replacement.
     concat_owned_atomic mem sp session with_replacement suffix))))"

definition splice_measured_sequence_build_root_atomic :: "(alloc_request \<Rightarrow> bool) \<Rightarrow> ('s, 'e) sequence_spec \<Rightarrow> arena_build_id \<Rightarrow>
    arena_build_owner \<Rightarrow> nat \<Rightarrow> nat \<Rightarrow> arena_build_owner option \<Rightarrow> ('e, arena_build_owner option) edit" where
  "splice_measured_sequence_build_root_atomic mem sp session base range_start range_end replacement =
     seq_do (check_owner sp session base) (\<lambda>_.
     seq_do (node_of_owner sp base) (\<lambda>base_node.
     let base_leaves = sm_leaves (dn_measure base_node); base_height = sm_height (dn_measure base_node) in
     if range_start > range_end \<or> range_end > base_leaves then seq_err (invalid sp ''sequence splice range is invalid'')
     else
       seq_do (optional_owner_measure sp session replacement) (\<lambda>replacement_measure.
       let replacement_leaves = (case replacement_measure of None \<Rightarrow> 0 | Some m \<Rightarrow> sm_leaves m);
           deleted_leaves = range_end - range_start
       in case Option.bind (checked_sub base_leaves deleted_leaves) (\<lambda>leaves. checked_add leaves replacement_leaves) of
         None \<Rightarrow> seq_err (invalid sp ''sequence splice leaf count overflow'')
       | Some target_leaves \<Rightarrow>
           seq_do (noting (\<lambda>r. r\<lparr>maximum_atomic_height := max (maximum_atomic_height r) base_height\<rparr>)) (\<lambda>_.
           if deleted_leaves = 0 \<and> replacement = None then
             seq_do (count_reused sp base_leaves) (\<lambda>_. seq_ok (Some base))
           else
             let splice_height = max base_height (case replacement_measure of None \<Rightarrow> 0 | Some m \<Rightarrow> sm_height m) in
             seq_do (reserve_owners mem sp session (splice_height * 8 + 16)) (\<lambda>_.
             seq_do (splice_owned mem sp session base base_leaves range_start range_end replacement) (\<lambda>root.
             seq_do (case root of
                       None \<Rightarrow> seq_ok 0
                     | Some owner \<Rightarrow> seq_do (node_of_owner sp owner) (\<lambda>node. seq_ok (sm_leaves (dn_measure node)))) (\<lambda>observed_target.
             if observed_target \<noteq> target_leaves then seq_err (invalid sp ''sequence splice produced the wrong leaf count'')
             else
               seq_do (counting (invalid sp ''deleted leaf count overflow'') (\<lambda>r. checked_add (leaves_deleted r) deleted_leaves)
                 (\<lambda>n r. r\<lparr>leaves_deleted := n\<rparr>)) (\<lambda>_.
               seq_do (count_reused sp (base_leaves - deleted_leaves)) (\<lambda>_.
               seq_ok root)))))))))"

definition splice_measured_sequence_atomic :: "(alloc_request \<Rightarrow> bool) \<Rightarrow> ('s, 'e) sequence_spec \<Rightarrow> arena_build_id \<Rightarrow>
    arena_id option \<Rightarrow> nat \<Rightarrow> nat \<Rightarrow> arena_build_owner option \<Rightarrow> ('e, arena_build_owner option) edit" where
  "splice_measured_sequence_atomic mem sp session base range_start range_end replacement =
     seq_do (retain_committed_measured_sequence_root mem sp session base) (\<lambda>owner.
     splice_measured_sequence_build_root_atomic mem sp session owner range_start range_end replacement)"

end
