(* ===== verification/Flark_Sequence_Owners.thy ===== *)
theory Flark_Sequence_Owners
  imports Flark_Sequence_Reads Flark_Sequence_Edit
begin

text \<open>
  What a mutation of a sequence holds while it runs: the trees whose roots its session owns. The theory describes each call of the session on
  that state, with the errors that remain possible, and the two building blocks of every mutation, \<^verbatim>\<open>make_branch\<close> and \<^verbatim>\<open>decompose_branch\<close>.
\<close>

subsection \<open>Errors of the session\<close>

definition resource_errors :: "arena_error set" where
  "resource_errors = {CapacityExceeded, PayloadTooLarge, TooManyChildren, PayloadBudgetExceeded, RefCountExhausted,
     BuildCapacityExceeded, AllocationFailed}"

lemma resource_simps [simp]:
  "CapacityExceeded \<in> resource_errors" "PayloadTooLarge \<in> resource_errors" "TooManyChildren \<in> resource_errors"
  "PayloadBudgetExceeded \<in> resource_errors" "RefCountExhausted \<in> resource_errors" "BuildCapacityExceeded \<in> resource_errors"
  "AllocationFailed \<in> resource_errors"
  by (simp_all add: resource_errors_def)

lemma reserve_error: "reserve_build_owners mem a i n = Some (Inl e) \<Longrightarrow> e \<in> resource_errors"
  by (auto simp: reserve_build_owners_def bind_eq_Some_conv split: option.splits if_splits)

lemma live_validate: "shape a \<Longrightarrow> live_at a h \<Longrightarrow> validate_live a h = Some (Inr ())"
  by (simp add: validate_live_at)

lemma retain_error:
  assumes "shape a" "live_at a h" "validate_owned_retain a h = Some (Inl e)"
  shows "e \<in> resource_errors"
  using assms(3) by (auto simp: validate_owned_retain_def live_validate [OF assms(1,2)] bind_eq_Some_conv split: option.splits)

lemma child_increments_error:
  assumes sh: "shape a"
  shows "\<forall>c\<in>set rest. live_at a c \<Longrightarrow> child_increments a cs seen rest = Some (Inl e) \<Longrightarrow> e \<in> resource_errors"
proof (induction rest arbitrary: seen)
  case (Cons c rest)
  then show ?case
    by (auto simp: live_validate [OF sh] Let_def bind_eq_Some_conv split: if_splits option.splits)
qed simp

lemma acquire_error: "acquire_slot mem a = Some (Inl e, b) \<Longrightarrow> e \<in> resource_errors"
  by (auto simp: acquire_slot_def Let_def bind_eq_Some_conv split: option.splits if_splits)

lemma allocate_error:
  assumes inv: "node_inv None X a" and c: "\<forall>c\<in>set cs. live_at a c" and e: "allocate_owned mem a p cs = Some (Inl e, b)"
  shows "e \<in> resource_errors"
proof -
  note sh = node_invD(1) [OF inv]
  have v: "validate_child_ref_increments a cs = Some (Inl e') \<Longrightarrow> e' \<in> resource_errors" for e'
    using child_increments_error [OF sh, of cs cs "[]"] c by (simp add: validate_child_ref_increments_def)
  have n: "install_node b' ix n p cs \<noteq> Some (Inl e', c')" for b' ix n e' c' by (auto simp: install_node_def bind_eq_Some_conv)
  show ?thesis using e v acquire_error [of mem a] n
    by (auto simp: allocate_owned_def checked_def and_then_def split: if_splits option.splits sum.splits prod.splits)
qed

lemma session_retain_error:
  assumes inv: "arena_inv R a" and i: "names a Active i" and h: "live_at a h" and e: "session_retain mem a i h = Some (Inl e, b)"
  shows "e \<in> resource_errors"
proof -
  note sh = node_invD(1) [OF arena_invD(1) [OF inv]]
  have v: "validate_build a i Active = Inr ()" using i by (simp add: validate_build_names)
  have n: "retain_owned a h = Some (Inl e', c) \<Longrightarrow> e' \<in> resource_errors" for e' c
    using retain_error [OF sh h] by (auto simp: retain_owned_def checked_def bind_eq_Some_conv split: option.splits sum.splits)
  show ?thesis using e v retain_error [OF sh h] reserve_error [of mem a i 1] n
    by (auto simp: session_retain_def checked_def and_then_def bind_eq_Some_conv split: option.splits sum.splits prod.splits)
qed

lemma session_allocate_error:
  assumes inv: "arena_inv R a" and i: "names a Active i" and c: "\<forall>c\<in>set cs. live_at a c" and e: "session_allocate mem a i p cs = Some (Inl e, b)"
  shows "e \<in> resource_errors"
proof -
  have v: "validate_build a i Active = Inr ()" using i by (simp add: validate_build_names)
  show ?thesis using e v reserve_error [of mem a i 1] allocate_error [OF arena_invD(1) [OF inv] c, of mem p]
    by (auto simp: session_allocate_def checked_def and_then_def bind_eq_Some_conv split: option.splits sum.splits prod.splits)
qed

subsection \<open>Errors of a mutation\<close>

definition edit_messages :: "string list" where
  "edit_messages = [''sequence visit count overflow'', ''sequence branch count overflow'', ''sequence branch byte count overflow'',
     ''sequence leaf count overflow'', ''sequence splice leaf count overflow'', ''reused leaf count overflow'',
     ''deleted leaf count overflow'', ''retained leaf count overflow'']"

text \<open>
  A mutation fails closed: a read refuses, a counter is full, the summaries do not combine or encode, or the arena is out of a resource.
\<close>

definition edit_refusal :: "('s, 'e) sequence_spec \<Rightarrow> 'e \<Rightarrow> bool" where
  "edit_refusal sp e \<longleftrightarrow> read_refusal sp e \<or> (\<exists>m. m \<in> set edit_messages \<and> e = invalid sp m) \<or>
     (\<exists>x y. spec_combine sp x y = Inl e) \<or> (\<exists>m page. encode_branch sp m zero_page = Some (Inl e, page)) \<or>
     (\<exists>f. f \<in> resource_errors \<and> e = from_arena sp f)"

lemma edit_refusalI:
  "read_refusal sp e \<Longrightarrow> edit_refusal sp e" "m \<in> set edit_messages \<Longrightarrow> edit_refusal sp (invalid sp m)"
  "spec_combine sp x y = Inl e \<Longrightarrow> edit_refusal sp e" "encode_branch sp bm zero_page = Some (Inl e, page) \<Longrightarrow> edit_refusal sp e"
  "f \<in> resource_errors \<Longrightarrow> edit_refusal sp (from_arena sp f)"
  unfolding edit_refusal_def by blast+

subsection \<open>Trees in hand\<close>

definition own :: "arena_build_id \<Rightarrow> 's seq_tree \<Rightarrow> arena_build_owner" where
  "own i t = \<lparr>ow_build = i, ow_id = troot t\<rparr>"

lemma own_id [simp]: "ow_id (own i t) = troot t"
  by (simp add: own_def)

text \<open>The session owns the roots of the trees \<open>T\<close>, which are stored, and the handles \<open>F\<close> besides.\<close>

definition has :: "('s, 'e) sequence_spec \<Rightarrow> arena_id multiset \<Rightarrow> arena_build_id \<Rightarrow> page_arena \<Rightarrow> 's seq_tree multiset \<Rightarrow> arena_id multiset \<Rightarrow> bool" where
  "has sp R i a T F \<longleftrightarrow> arena_inv R a \<and> names a Active i \<and>
     mset (b_owners (bat a (bid_slot i))) = image_mset troot T + F \<and> (\<forall>t. t \<in># T \<longrightarrow> holds sp a t)"

lemma hasD:
  assumes "has sp R i a T F"
  shows "arena_inv R a" "names a Active i" "mset (b_owners (bat a (bid_slot i))) = image_mset troot T + F" "t \<in># T \<Longrightarrow> holds sp a t"
  using assms by (simp_all add: has_def)

text \<open>How far the arena has moved since a mutation began.\<close>

definition since :: "arena_id multiset \<Rightarrow> page_arena \<Rightarrow> page_arena \<Rightarrow> bool" where
  "since R a b \<longleftrightarrow> kept R a b \<and> (\<forall>u j. names b u j = names a u j)"

lemma since_refl: "arena_inv R a \<Longrightarrow> since R a a"
  by (simp add: since_def kept_refl)

lemma since_trans: "since R a b \<Longrightarrow> since R b c \<Longrightarrow> since R a c"
  by (auto simp: since_def intro: kept_trans)

lemma sinceI: "kept R a b \<Longrightarrow> (\<And>u j. names b u j = names a u j) \<Longrightarrow> since R a b"
  by (simp add: since_def)

lemma journal_live:
  assumes inv: "arena_inv R a" and i: "names a Active i" and h: "h \<in> set (b_owners (bat a (bid_slot i)))"
  shows "live_at a h"
proof -
  have "bat a (bid_slot i) \<in> set (builds a)" using namesD(1) [OF i] by simp
  then have "h \<in># journal_refs a" using h unfolding journal_refs_def bsum_def set_mset_sum_list
    by (auto intro!: bexI [of _ "bat a (bid_slot i)"])
  then show ?thesis using countedD(1) [OF node_invD(6) [OF arena_invD(1) [OF inv]], of h] by (simp add: refs_def)
qed

lemma has_live: "has sp R i a T F \<Longrightarrow> h \<in># image_mset troot T + F \<Longrightarrow> live_at a h"
  using journal_live hasD by (metis set_mset_mset)

text \<open>After a call: whatever tree was stored and has an owned root is stored still.\<close>

lemma has_step:
  assumes h: "has sp R i a S G" and s: "since R a b" and o: "mset (b_owners (bat b (bid_slot i))) = image_mset troot T + F"
    and t: "\<And>t. t \<in># T \<Longrightarrow> holds sp a t"
  shows "has sp R i b T F"
proof -
  have inv: "arena_inv R b" and ev: "evolves a b" and i: "names b Active i"
    using s hasD(2) [OF h] by (simp_all add: since_def kept_def)
  have "holds sp b t" if "t \<in># T" for t
  proof -
    have "troot t \<in># mset (b_owners (bat b (bid_slot i)))" unfolding o using that by simp
    then have "live_at b (troot t)" using journal_live [OF inv i] by simp
    then show ?thesis using holds_evolves [OF t [OF that] ev inv] by blast
  qed
  then show ?thesis using inv i o by (simp add: has_def)
qed

subsection \<open>Calls\<close>

lemma runs_inspecting:
  "runs (\<lambda>e j. E e (fst t, (snd t)\<lparr>mr_inspection := j\<rparr>)) (m (fst t)) (mr_inspection (snd t)) (\<lambda>x j. Q x (fst t, (snd t)\<lparr>mr_inspection := j\<rparr>)) \<Longrightarrow>
   runs E (inspecting m) t Q"
  by (erule runsE) (simp_all add: runs_def inspecting_def)

lemma runs_reading: "f (fst t) = Some (Inr x) \<Longrightarrow> Q x t \<Longrightarrow> runs E (reading sp f) t Q"
  by (simp add: runs_def reading_def of_arena_def)

lemma runs_reading_err: "f (fst t) = Some (Inl e) \<Longrightarrow> E (from_arena sp e) t \<Longrightarrow> runs E (reading sp f) t Q"
  by (simp add: runs_def reading_def of_arena_def)

lemma runs_noting [simp]: "runs E (noting f) t Q \<longleftrightarrow> Q () (fst t, f (snd t))"
  by (simp add: runs_def noting_def)

lemma runs_counting: "E e t \<Longrightarrow> (\<And>n. Q () (fst t, store n (snd t))) \<Longrightarrow> runs E (counting e next store) t Q"
  unfolding counting_def by (rule runs_update) auto

lemma runs_changing: "f (fst t) = Some (Inr x, b) \<Longrightarrow> Q x (b, snd t) \<Longrightarrow> runs E (changing sp f) t Q"
  by (simp add: runs_def changing_def)

lemma runs_changing_err: "f (fst t) = Some (Inl e, b) \<Longrightarrow> E (from_arena sp e) (b, snd t) \<Longrightarrow> runs E (changing sp f) t Q"
  by (simp add: runs_def changing_def)

lemma validate_owner_has:
  assumes "has sp R i a T F" "h \<in># image_mset troot T + F"
  shows "validate_owner a i \<lparr>ow_build = i, ow_id = h\<rparr> = Some (Inr ())"
proof -
  have "validate_build a i Active = Inr ()" using hasD(2) [OF assms(1)] by (simp add: validate_build_names)
  moreover have "h \<in> set (b_owners (bat a (bid_slot i)))" using assms hasD(3) [OF assms(1)] by (metis set_mset_mset)
  ultimately show ?thesis using namesD(1) [OF hasD(2) [OF assms(1)]] by (simp add: validate_owner_def build_slot_at)
qed

context measured_spec
begin

text \<open>The error predicate of a mutation that began in \<open>a0\<close>.\<close>

abbreviation spoils :: "arena_id multiset \<Rightarrow> page_arena \<Rightarrow> 'e \<Rightarrow> edit_state \<Rightarrow> bool" where
  "spoils R a0 \<equiv> \<lambda>e u. edit_refusal sp e \<and> since R a0 (fst u)"

lemma runs_check_owner:
  "has sp R i (fst u) T F \<Longrightarrow> t \<in># T \<Longrightarrow> Q () u \<Longrightarrow> runs E (check_owner sp i (own i t)) u Q"
  unfolding check_owner_def own_def by (rule runs_reading) (auto intro: validate_owner_has)

lemma runs_node_of_owner:
  assumes h: "has sp R i (fst u) T F" and t: "t \<in># T" and s: "since R a0 (fst u)"
  shows "runs (spoils R a0) (node_of_owner sp (own i t)) u (\<lambda>x v. x = tnode t \<and> fst v = fst u)"
  unfolding node_of_owner_def own_id
  by (rule runs_inspecting, rule runs_conseq [OF runs_node [OF hasD(1) [OF h] hasD(4) [OF h t]]]) (use s in \<open>auto intro: edit_refusalI\<close>)

lemma runs_owner_height:
  assumes h: "has sp R i (fst u) T F" and t: "t \<in># T" and s: "since R a0 (fst u)"
  shows "runs (spoils R a0) (owner_height sp i (own i t)) u (\<lambda>x v. x = theight t \<and> fst v = fst u)"
  unfolding owner_height_def
  by (rule runs_do, rule runs_check_owner [OF h t], rule runs_bind [OF runs_node_of_owner [OF assms]]) simp

lemma runs_visit_node_count: "since R a0 (fst u) \<Longrightarrow> runs (spoils R a0) (visit_node sp) u (\<lambda>_ v. fst v = fst u)"
  unfolding visit_node_def by (rule runs_counting) (auto simp: edit_messages_def intro: edit_refusalI)

lemma runs_retain:
  assumes h: "has sp R i (fst u) T F" and s: "since R a0 (fst u)" and t: "holds sp (fst u) t"
  shows "runs (spoils R a0) (changing sp (\<lambda>a. session_retain mem a i (troot t))) u
    (\<lambda>x v. x = own i t \<and> since R a0 (fst v) \<and> has sp R i (fst v) (add_mset t T) F)"
proof (cases rule: session_retain_ok [OF hasD(1,2) [OF h], of mem "troot t"])
  case (1 e)
  then have "e \<in> resource_errors" using session_retain_error [OF hasD(1,2) [OF h] holds_live [OF t]] by blast
  then show ?thesis using s 1 by (intro runs_changing_err [of _ _ e "fst u"]) (auto intro: edit_refusalI)
next
  case (2 b)
  have sb: "since R (fst u) b" using 2 by (simp add: since_def)
  have "has sp R i b (add_mset t T) F"
    by (rule has_step [OF h sb]) (use 2(4) t hasD(3,4) [OF h] in auto)
  then show ?thesis using since_trans [OF s sb] 2(1) by (intro runs_changing [of _ _ "own i t" b]) (simp_all add: own_def)
qed

lemma runs_release:
  assumes h: "has sp R i (fst u) (add_mset t T) F" and s: "since R a0 (fst u)"
  shows "runs (spoils R a0) (changing sp (\<lambda>a. session_release a i (own i t))) u
    (\<lambda>_ v. since R a0 (fst v) \<and> has sp R i (fst v) T F)"
proof -
  have "troot t \<in> set (b_owners (bat (fst u) (bid_slot i)))" using hasD(3) [OF h] by (metis add_mset_add_single image_mset_add_mset set_mset_mset union_iff union_single_eq_member)
  then show ?thesis
  proof (rule session_release_owned [OF hasD(1,2) [OF h]], goal_cases)
    case (1 b)
    have sb: "since R (fst u) b" using 1 by (simp add: since_def)
    have "has sp R i b T F" by (rule has_step [OF h sb]) (use 1(4) hasD(3,4) [OF h] in auto)
    then show ?case using since_trans [OF s sb] 1(1) by (intro runs_changing [of _ _ "()" b]) (auto simp: own_def)
  qed
qed

lemma raw_take_children:
  assumes h: "has sp R i (fst u) (add_mset (TBranch g s l r) T) F" and s: "since R a0 (fst u)"
  shows "runs (spoils R a0) (take_children mem sp i (own i (TBranch g s l r)) (troot l) (troot r)) u
    (\<lambda>x v. x = (own i l, own i r) \<and> since R a0 (fst v) \<and> has sp R i (fst v) (add_mset l (add_mset r T)) F)"
  unfolding take_children_def
proof (rule runs_bind [OF runs_retain [OF h s, of l]], goal_cases)
  case 1
  then show ?case using hasD(4) [OF h, of "TBranch g s l r"] by simp
next
  case (2 x v)
  then have h2: "has sp R i (fst v) (add_mset l (add_mset (TBranch g s l r) T)) F" and s2: "since R a0 (fst v)" by simp_all
  show ?case
  proof (rule runs_bind [OF runs_retain [OF h2 s2, of r]], goal_cases)
    case 1
    then show ?case using hasD(4) [OF h2, of "TBranch g s l r"] by simp
  next
    case (2 y w)
    then have "has sp R i (fst w) (add_mset (TBranch g s l r) (add_mset l (add_mset r T))) F" "since R a0 (fst w)"
      by (simp_all add: add_mset_commute)
    from runs_release [OF this] show ?case
      by (rule runs_bind) (use \<open>x = _ \<and> _\<close> 2 in simp)
  qed
qed

text \<open>The trees in hand, together within the limit of the specification.\<close>

definition load :: "'s seq_tree multiset \<Rightarrow> nat" where
  "load T = (\<Sum>t\<in>#T. weight (tsum t))"

lemma load_simps [simp]: "load {#} = 0" "load (add_mset t T) = weight (tsum t) + load T" "load (S + T) = load S + load T"
  by (simp_all add: load_def)

definition held :: "arena_id multiset \<Rightarrow> arena_build_id \<Rightarrow> page_arena \<Rightarrow> 's seq_tree multiset \<Rightarrow> arena_id multiset \<Rightarrow> bool" where
  "held R i a T F \<longleftrightarrow> has sp R i a T F \<and> load T < limit"

lemma heldD:
  assumes "held R i a T F"
  shows "has sp R i a T F" "load T < limit" "t \<in># T \<Longrightarrow> holds sp a t"
  using assms hasD(4) [of sp R i a T F] by (simp_all add: held_def)

lemma load_branch: "holds sp a (TBranch g s l r) \<Longrightarrow> load (add_mset (TBranch g s l r) T) = load (add_mset l (add_mset r T))"
  using weight_combine [of "tsum l" "tsum r" s] holds_good [of a l] holds_good [of a r] by simp

lemma runs_take_children:
  assumes d: "held R i (fst u) (add_mset (TBranch g s l r) T) F" and s: "since R a0 (fst u)"
  shows "runs (spoils R a0) (take_children mem sp i (own i (TBranch g s l r)) (troot l) (troot r)) u
    (\<lambda>x v. x = (own i l, own i r) \<and> since R a0 (fst v) \<and> held R i (fst v) (add_mset l (add_mset r T)) F)"
proof -
  note h = heldD(1) [OF d]
  have "load (add_mset l (add_mset r T)) < limit"
    using load_branch [OF heldD(3) [OF d, of "TBranch g s l r"]] heldD(2) [OF d] by simp
  then show ?thesis unfolding held_def using raw_take_children [OF h s] by simp
qed
lemma runs_decompose:
  assumes d: "held R i (fst u) (add_mset (TBranch g s l r) T) F" and s: "since R a0 (fst u)"
  shows "runs (spoils R a0) (decompose_branch mem sp i (own i (TBranch g s l r))) u
    (\<lambda>x v. x = (own i l, own i r) \<and> since R a0 (fst v) \<and> held R i (fst v) (add_mset l (add_mset r T)) F)"
  unfolding decompose_branch_def
  apply (rule runs_do, rule runs_check_owner [OF heldD(1) [OF d]], simp)
  apply (rule runs_bind [OF runs_visit_node_count [OF s]])
  apply (rule runs_bind [OF runs_node_of_owner [of R i _ "add_mset (TBranch g s l r) T" F "TBranch g s l r" a0]])
  using heldD(1) [OF d] d s runs_take_children by auto

lemma measure_of_anywhere: "measure_of (TBranch g s l r) = measure_of (TBranch h s l r)"
  by (simp add: measure_of_def)

lemma runs_combine_measures:
  assumes h: "holds sp a l" "holds sp a r" and b: "theight l \<le> theight r + 1" "theight r \<le> theight l + 1"
  shows "runs (\<lambda>e _. edit_refusal sp e) (combine_measures sp (measure_of l) (measure_of r)) i
    (\<lambda>x _. \<exists>s. spec_combine sp (tsum l) (tsum r) = Inr s \<and> tcount l + tcount r < 2 ^ 64 \<and> (\<forall>g. x = measure_of (TBranch g s l r)))"
proof (cases "(\<exists>s. spec_combine sp (tsum l) (tsum r) = Inr s) \<and> tcount l + tcount r < 2 ^ 64")
  case True
  then obtain s where s: "spec_combine sp (tsum l) (tsum r) = Inr s" and c: "tcount l + tcount r < 2 ^ 64" by blast
  show ?thesis
  proof (rule runs_conseq [OF runs_combine [OF h s b c, where h = undefined]], goal_cases)
    case (1 x v)
    have "x = measure_of (TBranch g s l r)" for g by (rule trans [OF 1(2) measure_of_anywhere])
    then show ?case using s c by blast
  qed (rule edit_refusalI(1))
next
  case False
  have ad: "\<not> 1 < abs_diff (theight l) (theight r)" using b by (auto simp: abs_diff_def)
  have m: "edit_refusal sp (invalid sp ''sequence summary combination count overflow'')" "edit_refusal sp (invalid sp ''sequence leaf count overflow'')"
    by (rule edit_refusalI(1), rule refusing_message, simp add: read_messages_def) (rule edit_refusalI(2), simp add: edit_messages_def)
  have "runs (\<lambda>e _. edit_refusal sp e) (count_combination sp ''sequence summary combination count overflow'') i Q" if "\<And>u. Q () u" for i Q
    unfolding count_combination_def by (rule runs_update) (use that m in auto)
  note cnt = this
  have ov: "\<not> tcount l + tcount r < 2 ^ 64" if "spec_combine sp (tsum l) (tsum r) = Inr s" for s using False that by blast
  show ?thesis unfolding combine_measures_def measure_of_simps validate_held [OF h(1)] validate_held [OF h(2)] if_not_P [OF ad]
  proof (simp only: runs_do_iff runs_simps, rule cnt, goal_cases)
    case (1 u)
    show ?case using m ov by (cases "spec_combine sp (tsum l) (tsum r)") (auto simp: checked_add_def intro: edit_refusalI)
  qed
qed

lemma runs_encoded:
  assumes s: "since R a0 (fst u)" and g: "good (sm_summary m)" "weight (sm_summary m) < limit" "2 \<le> sm_leaves m" "sm_leaves m < 2 ^ 64" "2 \<le> sm_height m" "sm_height m < 2 ^ 16"
  shows "runs (spoils R a0) (encoded_branch sp m) u (\<lambda>p v. v = u \<and> is_branch sp p m)"
proof -
  obtain r page where e: "encode_branch sp m zero_page = Some (r, page)" using total(3) [of m zero_page] by auto
  show ?thesis
  proof (cases r)
    case (Inl x)
    then show ?thesis using e s by (auto simp: runs_def encoded_branch_def intro: edit_refusalI)
  next
    case (Inr n)
    then show ?thesis using e encode_decode [OF g] by (simp add: runs_def encoded_branch_def)
  qed
qed

lemma runs_allocate:
  assumes h: "has sp R i (fst u) T F" and s: "since R a0 (fst u)" and lr: "l \<in># T" "r \<in># T" and p: "is_branch sp p (measure_of (TBranch g x l r))"
    and t: "spec_combine sp (tsum l) (tsum r) = Inr x" "theight l \<le> theight r + 1" "theight r \<le> theight l + 1" "tcount l + tcount r < 2 ^ 64"
  shows "runs (spoils R a0) (changing sp (\<lambda>a. session_allocate mem a i p [troot l, troot r])) u
    (\<lambda>y v. \<exists>g. y = own i (TBranch g x l r) \<and> since R a0 (fst v) \<and> has sp R i (fst v) (add_mset (TBranch g x l r) T) F)"
proof (cases rule: session_allocate_ok [OF hasD(1,2) [OF h], of mem p "[troot l, troot r]"])
  case (1 e)
  have "\<forall>c\<in>set [troot l, troot r]. live_at (fst u) c" using has_live [OF h] lr by auto
  then have "e \<in> resource_errors" using session_allocate_error [OF hasD(1,2) [OF h]] 1 by blast
  then show ?thesis using s 1 by (intro runs_changing_err [of _ _ e "fst u"]) (auto intro: edit_refusalI)
next
  case (2 k b)
  have sb: "since R (fst u) b" using 2 by (simp add: since_def)
  have ev: "evolves (fst u) b" and inv: "arena_inv R b" using 2(2) by (simp_all add: kept_def)
  have own: "mset (b_owners (bat b (bid_slot i))) = image_mset troot T + add_mset k F" using 2(4) hasD(3) [OF h] by simp
  have hb: "has sp R i b T (add_mset k F)" by (rule has_step [OF h sb own hasD(4) [OF h]])
  have "is_branch sp p (measure_of (TBranch k x l r))" using p by (simp add: measure_of_def)
  then have "holds sp b (TBranch k x l r)" using 2(7,8) t hasD(4) [OF hb] lr by auto
  then have "has sp R i b (add_mset (TBranch k x l r) T) F" using hb by (auto simp: has_def)
  then show ?thesis using since_trans [OF s sb] 2(1)
    by (intro runs_changing [of _ _ "own i (TBranch k x l r)" b]) (auto simp: own_def)
qed

text \<open>A new branch over two trees of nearly the same height.\<close>

lemma runs_make_branch:
  assumes d: "held R i (fst u) (add_mset l (add_mset r T)) F" and s: "since R a0 (fst u)"
    and b: "theight l \<le> theight r + 1" "theight r \<le> theight l + 1"
  shows "runs (spoils R a0) (make_branch mem sp i (own i l) (own i r)) u
    (\<lambda>x v. \<exists>g s. x = own i (TBranch g s l r) \<and> since R a0 (fst v) \<and> held R i (fst v) (add_mset (TBranch g s l r) T) F)"
proof -
  note h = heldD(1) [OF d]
  let ?T = "add_mset l (add_mset r T)"
  have hl: "holds sp (fst u) l" "holds sp (fst u) r" using hasD(4) [OF h] by simp_all
  have cm: "runs (spoils R a0) (inspecting (\<lambda>_. combine_measures sp (measure_of l) (measure_of r))) v
      (\<lambda>x w. fst w = fst u \<and> (\<exists>s. spec_combine sp (tsum l) (tsum r) = Inr s \<and> tcount l + tcount r < 2 ^ 64 \<and> (\<forall>g. x = measure_of (TBranch g s l r))))"
    if "fst v = fst u" for v
    by (rule runs_inspecting, rule runs_conseq [OF runs_combine_measures [OF hl b]]) (use that s in auto)
  have fin: "runs (spoils R a0) (seq_do (counting (invalid sp ''sequence branch count overflow'') (\<lambda>r. checked_add (branches_allocated r) 1)
       (\<lambda>n r. r\<lparr>branches_allocated := n\<rparr>)) (\<lambda>_.
     seq_do (counting (invalid sp ''sequence branch byte count overflow'')
       (\<lambda>r. checked_add (branch_payload_bytes r) (length p)) (\<lambda>n r. r\<lparr>branch_payload_bytes := n\<rparr>)) (\<lambda>_.
     seq_ok y))) v (\<lambda>x w. x = y \<and> fst w = fst v)" if "since R a0 (fst v)" for v p y
    by (intro runs_do runs_counting) (use that in \<open>auto simp: edit_messages_def intro!: edit_refusalI(2) runs_counting\<close>)
  have good_s: "good s" if "spec_combine sp (tsum l) (tsum r) = Inr s" for s using that good_combine holds_good hl by blast
  have stays: "held R i a (add_mset (TBranch g x l r) T) F" if "has sp R i a (add_mset (TBranch g x l r) T) F" for a g x
    using that heldD(2) [OF d] load_branch [of a g x l r T] hasD(4) [OF that, of "TBranch g x l r"] by (simp add: held_def)
  have rel: "runs (spoils R a0) (seq_do (changing sp (\<lambda>a. session_release a i (own i l))) (\<lambda>_.
       seq_do (changing sp (\<lambda>a. session_release a i (own i r))) (\<lambda>_. k))) v (\<lambda>x w. x = y \<and> since R a0 (fst w) \<and> has sp R i (fst w) (add_mset n T) F)"
    if k: "\<And>w. since R a0 (fst w) \<Longrightarrow> runs (spoils R a0) k w (\<lambda>x z. x = y \<and> fst z = fst w)"
      and v: "since R a0 (fst v)" "has sp R i (fst v) (add_mset n ?T) F" for v y n k
  proof (rule runs_bind [OF runs_release [of R i v l "add_mset r (add_mset n T)" F a0]], goal_cases)
    case (3 x w)
    note w = this
    show ?case
    proof (rule runs_bind [OF runs_release [of R i w r "add_mset n T" F a0]], goal_cases)
      case (3 x z)
      then show ?case by (intro runs_mono [OF k]) auto
    qed (use w in simp_all)
  qed (use v in \<open>simp_all add: add_mset_commute\<close>)
  show ?thesis unfolding make_branch_def own_id
  proof (rule runs_do, rule runs_check_owner [OF h], simp, rule runs_do, rule runs_check_owner [OF h], simp,
      rule runs_bind [OF runs_node_of_owner [OF h _ s]], simp, elim conjE, rule runs_bind [OF runs_node_of_owner [of R i _ ?T F r a0]],
      goal_cases)
    case (4 x v y w)
    then have e: "dn_measure x = measure_of l" "dn_measure y = measure_of r" "fst w = fst u" by simp_all
    show ?case unfolding e
    proof (rule runs_bind [OF cm [OF e(3)]], elim conjE exE, goal_cases)
      case (1 m z x)
      note m = this
      have g: "good (sm_summary m)" "weight (sm_summary m) < limit" "2 \<le> sm_leaves m" "sm_leaves m < 2 ^ 64" "2 \<le> sm_height m" "sm_height m < 2 ^ 16"
        using good_s m(2,3) weight_combine [OF holds_good [OF hl(1)] holds_good [OF hl(2)] m(2)] heldD(2) [OF d] tcount_branch [of undefined x l r] holds_height(1) [OF hl(1)] holds_height(1) [OF hl(2)] theight_pos [of l]
        by (auto simp: m(4) [rule_format, of undefined] less_max_iff_disj le_max_iff_disj Suc_le_eq)
      show ?case
      proof (rule runs_bind [OF runs_encoded [OF _ g]], goal_cases)
        case (2 p z')
        have p: "is_branch sp p (measure_of (TBranch undefined x l r))" using 2 m(4) by metis
        have hz: "has sp R i (fst z') ?T F" "since R a0 (fst z')" using 2 m(1) h s by simp_all
        show ?case
        proof (rule runs_bind [OF runs_allocate [OF hz _ _ p m(2) b m(3)]], goal_cases)
          case (3 y v)
          then obtain g where g: "y = own i (TBranch g x l r)" "since R a0 (fst v)" "has sp R i (fst v) (add_mset (TBranch g x l r) ?T) F" by blast
          show ?case by (rule runs_mono [OF rel [OF fin g(2,3)]]) (use g(1) stays [of _ g x] in auto)
        qed simp_all
      qed (use m(1) s in simp)
    qed
  qed (use h s in simp_all)
qed

end

end
