(* ===== verification/Flark_Sequence_Joins.thy ===== *)
theory Flark_Sequence_Joins
  imports Flark_Sequence_Owners
begin

text \<open>
  The join, split and splice of \<^verbatim>\<open>measured_sequence.rs\<close> on the trees a session owns. Every mutation ends: it returns the root of a
  balanced tree over the expected leaves, or an error of \<open>edit_refusal\<close>, and never panics. The session gives up what it consumed.
\<close>

lemma add_mset_rotate: "add_mset a (add_mset b (add_mset c M)) = add_mset b (add_mset c (add_mset a M))"
  by (simp add: add_mset_commute)

lemma add_mset_last: "add_mset a (add_mset b (add_mset c M)) = add_mset c (add_mset a (add_mset b M))"
  by (simp add: add_mset_commute)

lemma add_mset_fourth: "add_mset a (add_mset b (add_mset c (add_mset d M))) = add_mset d (add_mset a (add_mset b (add_mset c M)))"
  by (simp add: add_mset_commute)

subsection \<open>Optional trees\<close>

text \<open>The empty sequence has no root.\<close>

definition oleaves :: "'s seq_tree option \<Rightarrow> (arena_id \<times> 's) list" where
  "oleaves t = (case t of None \<Rightarrow> [] | Some t \<Rightarrow> tleaves t)"

definition omset :: "'s seq_tree option \<Rightarrow> 's seq_tree multiset" where
  "omset t = (case t of None \<Rightarrow> {#} | Some t \<Rightarrow> {#t#})"

lemma optional_simps [simp]: "oleaves None = []" "oleaves (Some t) = tleaves t" "omset None = {#}" "omset (Some t) = {#t#}"
  by (simp_all add: oleaves_def omset_def)

context measured_spec
begin

subsection \<open>Steps of a mutation\<close>

lemma after_height:
  assumes h: "held R i (fst u) T F" and s: "since R a0 (fst u)" and t: "t \<in># T"
    and k: "\<And>v. since R a0 (fst v) \<Longrightarrow> held R i (fst v) T F \<Longrightarrow> runs (spoils R a0) (k (theight t)) v Q"
  shows "runs (spoils R a0) (seq_do (owner_height sp i (own i t)) k) u Q"
  by (rule runs_bind [OF runs_owner_height [OF heldD(1) [OF h] t s]]) (use k h s in auto)

lemma after_make:
  assumes h: "held R i (fst u) M F" and s: "since R a0 (fst u)" and m: "M = add_mset l (add_mset r T)"
    and b: "theight l \<le> theight r + 1" "theight r \<le> theight l + 1"
    and k: "\<And>v g x. since R a0 (fst v) \<Longrightarrow> held R i (fst v) (add_mset (TBranch g x l r) T) F \<Longrightarrow>
      runs (spoils R a0) (k (own i (TBranch g x l r))) v Q"
  shows "runs (spoils R a0) (seq_do (make_branch mem sp i (own i l) (own i r)) k) u Q"
  by (rule runs_bind [OF runs_make_branch [OF h [unfolded m] s b]]) (use k in auto)

lemma make_last:
  assumes h: "held R i (fst u) M F" and s: "since R a0 (fst u)" and m: "M = add_mset l (add_mset r T)"
    and b: "theight l \<le> theight r + 1" "theight r \<le> theight l + 1"
    and k: "\<And>v g x. since R a0 (fst v) \<Longrightarrow> held R i (fst v) (add_mset (TBranch g x l r) T) F \<Longrightarrow> Q (own i (TBranch g x l r)) v"
  shows "runs (spoils R a0) (make_branch mem sp i (own i l) (own i r)) u Q"
  by (rule runs_mono [OF runs_make_branch [OF h [unfolded m] s b]]) (use k in auto)

lemma after_decompose:
  assumes h: "held R i (fst u) M F" and s: "since R a0 (fst u)" and m: "M = add_mset (TBranch g x l r) T"
    and k: "\<And>v. since R a0 (fst v) \<Longrightarrow> held R i (fst v) (add_mset l (add_mset r T)) F \<Longrightarrow>
      runs (spoils R a0) (k (own i l, own i r)) v Q"
  shows "runs (spoils R a0) (seq_do (decompose_branch mem sp i (own i (TBranch g x l r))) k) u Q"
  by (rule runs_bind [OF runs_decompose [OF h [unfolded m] s]]) (use k in auto)

lemma tall_branch: "1 < theight t \<Longrightarrow> \<exists>g x l r. t = TBranch g x l r"
  by (cases t) auto

lemma above_held: "holds sp a t \<Longrightarrow> one_above (theight t) = theight t + 1"
  using holds_height(1) [of sp a t] by (simp add: one_above_def)

text \<open>The root of a tree over the leaves \<open>ls\<close>, of a height in \<open>H\<close>, that the session now owns beside the trees \<open>T\<close>.\<close>

definition yields :: "arena_id multiset \<Rightarrow> arena_build_id \<Rightarrow> page_arena \<Rightarrow> (arena_id \<times> 's) list \<Rightarrow> nat set \<Rightarrow> 's seq_tree multiset \<Rightarrow>
    arena_id multiset \<Rightarrow> arena_build_owner \<Rightarrow> edit_state \<Rightarrow> bool" where
  "yields R i a0 ls H T F x v \<longleftrightarrow> (\<exists>t. x = own i t \<and> tleaves t = ls \<and> theight t \<in> H \<and> since R a0 (fst v) \<and> held R i (fst v) (add_mset t T) F)"

lemma yieldsI:
  "since R a0 (fst v) \<Longrightarrow> held R i (fst v) (add_mset t T) F \<Longrightarrow> tleaves t = ls \<Longrightarrow> theight t \<in> H \<Longrightarrow> yields R i a0 ls H T F (own i t) v"
  by (auto simp: yields_def)

lemma yields_mono: "yields R i a0 ls H T F x v \<Longrightarrow> ls = ls' \<Longrightarrow> H \<subseteq> H' \<Longrightarrow> yields R i a0 ls' H' T F x v"
  by (auto simp: yields_def)

text \<open>A join is about as tall as its taller side; balancing sides of nearly one height adds exactly one.\<close>

definition join_heights :: "'s seq_tree \<Rightarrow> 's seq_tree \<Rightarrow> nat set" where
  "join_heights l r = {max (theight l) (theight r) .. max (theight l) (theight r) + 1}"

definition balance_heights :: "'s seq_tree \<Rightarrow> 's seq_tree \<Rightarrow> nat set" where
  "balance_heights l r = (if theight l \<le> theight r + 1 \<and> theight r \<le> theight l + 1 then {max (theight l) (theight r) + 1} else join_heights l r)"

subsection \<open>Balancing\<close>

lemma runs_balance_left:
  assumes h: "held R i (fst u) (add_mset l (add_mset r T)) F" and s: "since R a0 (fst u)" and d: "theight l = theight r + 2"
  shows "runs (spoils R a0) (balance_owned_atomic mem sp i (own i l) (own i r)) u (yields R i a0 (tleaves l @ tleaves r) (balance_heights l r) T F)"
proof -
  have hl: "holds sp (fst u) l" "holds sp (fst u) r" using heldD(3) [OF h] by simp_all
  note up = above_held [OF hl(1)] above_held [OF hl(2)]
  obtain g x ll lr where l: "l = TBranch g x ll lr" using tall_branch [of l] d by auto
  note b = holds_balanced [OF hl(1), unfolded l tbalanced.simps] d [unfolded l theight.simps]
  have gt: "one_above (theight r) < theight l" using d up by simp
  note start = after_height [OF h [unfolded l] s] gt [unfolded l] and decomposed = after_decompose [OF _ _ refl]
  show ?thesis
  proof (cases "theight ll < theight lr")
    case True
    then obtain g' x' pl pr where lr: "lr = TBranch g' x' pl pr" using tall_branch [of lr] b theight_pos [of r] by fastforce
    note c = b [unfolded lr tbalanced.simps theight.simps] True [unfolded lr theight.simps]
    show ?thesis unfolding balance_owned_atomic_def l
      apply (rule start(1), simp, rule after_height, assumption, assumption, simp, simp only: start(2) if_True)
      apply (rule decomposed, assumption, assumption, simp only: prod.case)
      apply (rule after_height, assumption, assumption, simp, rule after_height, assumption, assumption, simp)
      apply (simp only: True [unfolded lr] if_True lr)
      apply (rule after_decompose, assumption, assumption, rule add_mset_commute, simp only: prod.case)
      apply (rule after_make [OF _ _ add_mset_last], assumption, assumption, (use c in linarith)+)
      apply (rule after_make [OF _ _ add_mset_rotate], assumption, assumption, (use c in linarith)+)
      apply (rule make_last [OF _ _ add_mset_commute], assumption, assumption, (use c in \<open>simp; linarith\<close>)+)
      by (rule yieldsI, assumption, assumption) (use c in \<open>(simp add: balance_heights_def join_heights_def; linarith?)+\<close>)
  next
    case False
    show ?thesis unfolding balance_owned_atomic_def l
      apply (rule start(1), simp, rule after_height, assumption, assumption, simp, simp only: start(2) if_True)
      apply (rule decomposed, assumption, assumption, simp only: prod.case)
      apply (rule after_height, assumption, assumption, simp, rule after_height, assumption, assumption, simp)
      apply (simp only: False if_False)
      apply (rule after_make [OF _ _ add_mset_rotate], assumption, assumption, (use b False in linarith)+)
      apply (rule make_last [OF _ _ add_mset_commute], assumption, assumption, (use b False in \<open>simp; linarith\<close>)+)
      by (rule yieldsI, assumption, assumption) (use b False in \<open>(simp add: balance_heights_def join_heights_def; linarith?)+\<close>)
  qed
qed

lemma runs_balance_right:
  assumes h: "held R i (fst u) (add_mset l (add_mset r T)) F" and s: "since R a0 (fst u)" and d: "theight r = theight l + 2"
  shows "runs (spoils R a0) (balance_owned_atomic mem sp i (own i l) (own i r)) u (yields R i a0 (tleaves l @ tleaves r) (balance_heights l r) T F)"
proof -
  have hl: "holds sp (fst u) l" "holds sp (fst u) r" using heldD(3) [OF h] by simp_all
  note up = above_held [OF hl(1)] above_held [OF hl(2)]
  obtain g x rl rr where r: "r = TBranch g x rl rr" using tall_branch [of r] d by auto
  note b = holds_balanced [OF hl(2), unfolded r tbalanced.simps] d [unfolded r theight.simps]
  have gt: "\<not> one_above (theight r) < theight l" "one_above (theight l) < theight r" using d up by simp_all
  note start = after_height [OF h [unfolded r] s] gt [unfolded r] and decomposed = after_decompose [OF _ _ add_mset_commute]
  show ?thesis
  proof (cases "theight rr < theight rl")
    case True
    then obtain g' x' pl pr where rl: "rl = TBranch g' x' pl pr" using tall_branch [of rl] b theight_pos [of l] by fastforce
    note c = b [unfolded rl tbalanced.simps theight.simps] True [unfolded rl theight.simps]
    show ?thesis unfolding balance_owned_atomic_def r
      apply (rule start(1), simp, rule after_height, assumption, assumption, simp, simp only: start(2,3) if_True if_False)
      apply (rule decomposed, assumption, assumption, simp only: prod.case)
      apply (rule after_height, assumption, assumption, simp, rule after_height, assumption, assumption, simp)
      apply (simp only: True [unfolded rl] if_True rl)
      apply (rule after_decompose [OF _ _ refl], assumption, assumption, simp only: prod.case)
      apply (rule after_make [OF _ _ add_mset_fourth], assumption, assumption, (use c in linarith)+)
      apply (rule after_make [OF _ _ add_mset_rotate], assumption, assumption, (use c in linarith)+)
      apply (rule make_last [OF _ _ add_mset_commute], assumption, assumption, (use c in \<open>simp; linarith\<close>)+)
      by (rule yieldsI, assumption, assumption) (use c in \<open>(simp add: balance_heights_def join_heights_def; linarith?)+\<close>)
  next
    case False
    show ?thesis unfolding balance_owned_atomic_def r
      apply (rule start(1), simp, rule after_height, assumption, assumption, simp, simp only: start(2,3) if_True if_False)
      apply (rule decomposed, assumption, assumption, simp only: prod.case)
      apply (rule after_height, assumption, assumption, simp, rule after_height, assumption, assumption, simp)
      apply (simp only: False if_False)
      apply (rule after_make [OF _ _ add_mset_last], assumption, assumption, (use b False in linarith)+)
      apply (rule make_last [OF _ _ refl], assumption, assumption, (use b False in \<open>simp; linarith\<close>)+)
      by (rule yieldsI, assumption, assumption) (use b False in \<open>(simp add: balance_heights_def join_heights_def; linarith?)+\<close>)
  qed
qed

lemma runs_balance:
  assumes h: "held R i (fst u) (add_mset l (add_mset r T)) F" and s: "since R a0 (fst u)"
    and d: "theight l \<le> theight r + 2" "theight r \<le> theight l + 2"
  shows "runs (spoils R a0) (balance_owned_atomic mem sp i (own i l) (own i r)) u (yields R i a0 (tleaves l @ tleaves r) (balance_heights l r) T F)"
proof -
  have hl: "holds sp (fst u) l" "holds sp (fst u) r" using heldD(3) [OF h] by simp_all
  note up = above_held [OF hl(1)] above_held [OF hl(2)]
  consider "theight l \<le> theight r + 1" "theight r \<le> theight l + 1" | "theight l = theight r + 2" | "theight r = theight l + 2"
    using d by linarith
  then show ?thesis
  proof cases
    case 1
    show ?thesis unfolding balance_owned_atomic_def
      apply (rule after_height [OF h s], simp, rule after_height, assumption, assumption, simp)
      using 1 by (auto simp: up balance_heights_def intro!: make_last [OF _ _ refl] yieldsI)
  qed (rule runs_balance_left [OF h s] runs_balance_right [OF h s], assumption)+
qed

subsection \<open>Joining\<close>

lemma after_visit:
  assumes h: "held R i (fst u) T F" and s: "since R a0 (fst u)"
    and k: "\<And>v. since R a0 (fst v) \<Longrightarrow> held R i (fst v) T F \<Longrightarrow> runs (spoils R a0) (k ()) v Q"
  shows "runs (spoils R a0) (seq_do (visit_node sp) k) u Q"
  by (rule runs_bind [OF runs_visit_node_count [OF s]]) (use k h s in auto)

lemma after_noting:
  assumes h: "held R i (fst u) T F" and s: "since R a0 (fst u)"
    and k: "\<And>v. since R a0 (fst v) \<Longrightarrow> held R i (fst v) T F \<Longrightarrow> runs (spoils R a0) (k ()) v Q"
  shows "runs (spoils R a0) (seq_do (noting f) k) u Q"
  by (rule runs_bind [of _ _ _ "\<lambda>_ v. fst v = fst u"]) (use k h s in auto)

lemma after_yield:
  assumes j: "runs (spoils R a0) m u (yields R i a0 ls H T F)"
    and k: "\<And>t v. since R a0 (fst v) \<Longrightarrow> held R i (fst v) (add_mset t T) F \<Longrightarrow> tleaves t = ls \<Longrightarrow> theight t \<in> H \<Longrightarrow>
      runs (spoils R a0) (k (own i t)) v Q"
  shows "runs (spoils R a0) (seq_do m k) u Q"
  by (rule runs_bind [OF j]) (use k in \<open>auto simp: yields_def\<close>)

lemma runs_join:
  assumes "held R i (fst u) (add_mset l (add_mset r T)) F" "since R a0 (fst u)"
  shows "runs (spoils R a0) (join_owned_atomic mem sp i (own i l) (own i r)) u (yields R i a0 (tleaves l @ tleaves r) (join_heights l r) T F)"
  using assms
proof (induction "theight l + theight r" arbitrary: l r u T rule: less_induct)
  case less
  have hl: "holds sp (fst u) l" "holds sp (fst u) r" using heldD(3) [OF less.prems(1)] by simp_all
  note up = above_held [OF hl(1)] above_held [OF hl(2)]
  consider "theight l \<le> theight r + 1" "theight r \<le> theight l + 1" | "theight l > theight r + 1" | "theight r > theight l + 1"
    by linarith
  then show ?case
  proof cases
    case 1
    show ?thesis
      apply (subst runs_returns, subst join_owned_atomic.simps, subst runs_returns [symmetric])
      apply (rule after_visit [OF less.prems])
      apply (rule after_height, assumption, assumption, simp, rule after_height, assumption, assumption, simp)
      apply (rule after_noting, assumption, assumption)
      using 1 by (auto simp: up join_heights_def intro!: make_last [OF _ _ refl] yieldsI)
  next
    case 2
    then obtain g x ll lr where l: "l = TBranch g x ll lr" using tall_branch [of l] by auto
    note b = holds_balanced [OF hl(1), unfolded l tbalanced.simps] 2 [unfolded l theight.simps]
    have gt: "one_above (theight r) < theight l" using 2 up by simp
    have ih: "runs (spoils R a0) (join_owned_atomic mem sp i (own i lr) (own i r)) v (yields R i a0 (tleaves lr @ tleaves r) (join_heights lr r) N F)"
      if "held R i (fst v) (add_mset lr (add_mset r N)) F" "since R a0 (fst v)" for v N
      by (rule less.hyps [OF _ that]) (simp add: l)
    show ?thesis unfolding l
      apply (subst runs_returns, subst join_owned_atomic.simps, subst runs_returns [symmetric])
      apply (rule after_visit [OF less.prems [unfolded l]])
      apply (rule after_height, assumption, assumption, simp, rule after_height, assumption, assumption, simp)
      apply (rule after_noting, assumption, assumption)
      apply (simp only: gt [unfolded l] if_True)
      apply (rule after_decompose [OF _ _ refl], assumption, assumption, simp only: prod.sel)
      apply (rule after_yield [OF ih [of _ "add_mset ll T"]], simp add: add_mset_commute, assumption)
      apply (rule runs_mono, rule runs_balance, subst add_mset_commute, assumption, assumption, (use b in \<open>simp add: join_heights_def; linarith\<close>)+)
      by (erule yields_mono) (use b in \<open>auto simp: balance_heights_def join_heights_def\<close>)
  next
    case 3
    then obtain g x rl rr where r: "r = TBranch g x rl rr" using tall_branch [of r] by auto
    note b = holds_balanced [OF hl(2), unfolded r tbalanced.simps] 3 [unfolded r theight.simps]
    have gt: "\<not> one_above (theight r) < theight l" "one_above (theight l) < theight r" using 3 up by simp_all
    have ih: "runs (spoils R a0) (join_owned_atomic mem sp i (own i l) (own i rl)) v (yields R i a0 (tleaves l @ tleaves rl) (join_heights l rl) N F)"
      if "held R i (fst v) (add_mset l (add_mset rl N)) F" "since R a0 (fst v)" for v N
      by (rule less.hyps [OF _ that]) (simp add: r)
    show ?thesis unfolding r
      apply (subst runs_returns, subst join_owned_atomic.simps, subst runs_returns [symmetric])
      apply (rule after_visit [OF less.prems [unfolded r]])
      apply (rule after_height, assumption, assumption, simp, rule after_height, assumption, assumption, simp)
      apply (rule after_noting, assumption, assumption)
      apply (simp only: gt [unfolded r] if_True if_False)
      apply (rule after_decompose [OF _ _ add_mset_commute], assumption, assumption, simp only: prod.sel)
      apply (rule after_yield [OF ih [of _ "add_mset rr T"]], simp add: add_mset_commute, assumption)
      apply (rule runs_mono, rule runs_balance, assumption, assumption, (use b in \<open>simp add: join_heights_def; linarith\<close>)+)
      by (erule yields_mono) (use b in \<open>auto simp: balance_heights_def join_heights_def\<close>)
  qed
qed

definition yields_optional :: "arena_id multiset \<Rightarrow> arena_build_id \<Rightarrow> page_arena \<Rightarrow> (arena_id \<times> 's) list \<Rightarrow> 's seq_tree multiset \<Rightarrow>
    arena_id multiset \<Rightarrow> arena_build_owner option \<Rightarrow> edit_state \<Rightarrow> bool" where
  "yields_optional R i a0 ls T F x v \<longleftrightarrow> (\<exists>t. x = map_option (own i) t \<and> oleaves t = ls \<and> since R a0 (fst v) \<and> held R i (fst v) (omset t + T) F)"

lemma yields_optionalI:
  "since R a0 (fst v) \<Longrightarrow> held R i (fst v) M F \<Longrightarrow> M = omset t + T \<Longrightarrow> x = map_option (own i) t \<Longrightarrow> oleaves t = ls \<Longrightarrow>
   yields_optional R i a0 ls T F x v"
  by (auto simp: yields_optional_def)

lemma after_optional:
  assumes j: "runs (spoils R a0) m u (yields_optional R i a0 ls T F)"
    and k: "\<And>t v. since R a0 (fst v) \<Longrightarrow> held R i (fst v) (omset t + T) F \<Longrightarrow> oleaves t = ls \<Longrightarrow>
      runs (spoils R a0) (k (map_option (own i) t)) v Q"
  shows "runs (spoils R a0) (seq_do m k) u Q"
  by (rule runs_bind [OF j]) (use k in \<open>auto simp: yields_optional_def\<close>)

lemma runs_concat:
  assumes h: "held R i (fst u) M F" and s: "since R a0 (fst u)" and m: "M = omset l + (omset r + T)"
  shows "runs (spoils R a0) (concat_owned_atomic mem sp i (map_option (own i) l) (map_option (own i) r)) u
    (yields_optional R i a0 (oleaves l @ oleaves r) T F)"
proof -
  have none: "yields_optional R i a0 (oleaves r) T F (map_option (own i) r) u" if "l = None"
    by (rule yields_optionalI [OF s h]) (use m that in simp_all)
  have some: "yields_optional R i a0 (oleaves l) T F (map_option (own i) l) u" if "r = None"
    by (rule yields_optionalI [OF s h]) (use m that in simp_all)
  have ?thesis if lr: "l = Some x" "r = Some y" for x y unfolding concat_owned_atomic_def lr option.map option.case prod.case
    by (intro after_yield [OF runs_join [OF _ s, of i x y T F]]) (use h m lr in \<open>auto simp: add_mset_commute intro: yields_optionalI [where t = "Some _"]\<close>)
  then show ?thesis using none some by (cases l; cases r) (simp_all add: concat_owned_atomic_def)
qed

subsection \<open>Splitting\<close>

definition splits_at :: "arena_id multiset \<Rightarrow> arena_build_id \<Rightarrow> page_arena \<Rightarrow> (arena_id \<times> 's) list \<Rightarrow> nat \<Rightarrow> 's seq_tree multiset \<Rightarrow>
    arena_id multiset \<Rightarrow> arena_build_owner option \<times> arena_build_owner option \<Rightarrow> edit_state \<Rightarrow> bool" where
  "splits_at R i a0 ls n T F x v \<longleftrightarrow> (\<exists>p q. x = (map_option (own i) p, map_option (own i) q) \<and> oleaves p = take n ls \<and> oleaves q = drop n ls \<and>
     since R a0 (fst v) \<and> held R i (fst v) (omset p + (omset q + T)) F)"

lemma splits_atI:
  "since R a0 (fst v) \<Longrightarrow> held R i (fst v) M F \<Longrightarrow> M = omset p + (omset q + T) \<Longrightarrow> oleaves p = take n ls \<Longrightarrow> oleaves q = drop n ls \<Longrightarrow>
   splits_at R i a0 ls n T F (map_option (own i) p, map_option (own i) q) v"
  by (auto simp: splits_at_def)

lemma after_split:
  assumes j: "runs (spoils R a0) m u (splits_at R i a0 ls n T F)"
    and k: "\<And>p q v. since R a0 (fst v) \<Longrightarrow> held R i (fst v) (omset p + (omset q + T)) F \<Longrightarrow> oleaves p = take n ls \<Longrightarrow> oleaves q = drop n ls \<Longrightarrow>
      runs (spoils R a0) (k (map_option (own i) p, map_option (own i) q)) v Q"
  shows "runs (spoils R a0) (seq_do m k) u Q"
  by (rule runs_bind [OF j]) (use k in \<open>auto simp: splits_at_def\<close>)

lemma after_check:
  assumes h: "held R i (fst u) T F" and t: "t \<in># T" and k: "runs E (k ()) u Q"
  shows "runs E (seq_do (check_owner sp i (own i t)) k) u Q"
  by (rule runs_do, rule runs_check_owner [OF heldD(1) [OF h] t]) (rule k)

lemma after_node:
  assumes h: "held R i (fst u) T F" and s: "since R a0 (fst u)" and t: "t \<in># T"
    and k: "\<And>v. since R a0 (fst v) \<Longrightarrow> held R i (fst v) T F \<Longrightarrow> runs (spoils R a0) (k (tnode t)) v Q"
  shows "runs (spoils R a0) (seq_do (node_of_owner sp (own i t)) k) u Q"
  by (rule runs_bind [OF runs_node_of_owner [OF heldD(1) [OF h] t s]]) (use k h s in auto)

lemma runs_split_end:
  assumes h: "held R i (fst u) (add_mset t T) F" "since R a0 (fst u)" and n: "n = 0 \<or> n = tcount t"
  shows "runs (spoils R a0) (split_owned_atomic mem sp i (own i t) n) u (splits_at R i a0 (tleaves t) n T F)"
proof -
  have k: "splits_at R i a0 (tleaves t) 0 T F (None, Some (own i t)) v" "splits_at R i a0 (tleaves t) (tcount t) T F (Some (own i t), None) v"
    if "since R a0 (fst v)" "held R i (fst v) (add_mset t T) F" for v
    using splits_atI [OF that, of None "Some t"] splits_atI [OF that, of "Some t" None] by simp_all
  show ?thesis
    apply (subst runs_returns, subst split_owned_atomic.simps, subst runs_returns [symmetric])
    apply (rule after_visit [OF h], rule after_check, assumption, simp, rule after_node, assumption, assumption, simp)
    using n k by (auto simp: runs_def)
qed

lemma runs_split_left:
  assumes j: "runs (spoils R a0) m u (splits_at R i a0 (tleaves l) n (add_mset r T) F)" and n: "n < tcount l"
  shows "runs (spoils R a0) (seq_do m (\<lambda>pm. seq_do (concat_owned_atomic mem sp i (snd pm) (Some (own i r))) (\<lambda>suffix. seq_ok (fst pm, suffix)))) u
    (splits_at R i a0 (tleaves l @ tleaves r) n T F)"
proof (rule after_split [OF j], goal_cases)
  case (1 p q v)
  have c: "runs (spoils R a0) (concat_owned_atomic mem sp i (map_option (own i) q) (Some (own i r))) v
      (yields_optional R i a0 (oleaves q @ tleaves r) (omset p + T) F)"
    using runs_concat [OF 1(2,1), where l = q and r = "Some r" and T = "omset p + T"] by (simp add: ac_simps)
  show ?case unfolding prod.sel
    by (rule after_optional [OF c], simp only: runs_simps, rule splits_atI, assumption, assumption) (use 1 n in \<open>simp_all add: ac_simps\<close>)
qed

lemma runs_split_right:
  assumes j: "runs (spoils R a0) m u (splits_at R i a0 (tleaves r) (n - tcount l) (add_mset l T) F)" and n: "tcount l < n"
  shows "runs (spoils R a0) (seq_do m (\<lambda>ms. seq_do (concat_owned_atomic mem sp i (Some (own i l)) (fst ms)) (\<lambda>prefix. seq_ok (prefix, snd ms)))) u
    (splits_at R i a0 (tleaves l @ tleaves r) n T F)"
proof (rule after_split [OF j], goal_cases)
  case (1 p q v)
  have c: "runs (spoils R a0) (concat_owned_atomic mem sp i (Some (own i l)) (map_option (own i) p)) v
      (yields_optional R i a0 (tleaves l @ oleaves p) (omset q + T) F)"
    using runs_concat [OF 1(2,1), where l = "Some l" and r = p and T = "omset q + T"] by (simp add: ac_simps)
  show ?case unfolding prod.sel
    by (rule after_optional [OF c], simp only: runs_simps, rule splits_atI, assumption, assumption) (use 1 n in \<open>simp_all add: ac_simps\<close>)
qed

lemma runs_split:
  assumes "held R i (fst u) (add_mset t T) F" "since R a0 (fst u)" "n \<le> tcount t"
  shows "runs (spoils R a0) (split_owned_atomic mem sp i (own i t) n) u (splits_at R i a0 (tleaves t) n T F)"
  using assms
proof (induction t arbitrary: u n T)
  case (TLeaf g x)
  then have "n = 0 \<or> n = tcount (TLeaf g x)" by auto
  then show ?case by (rule runs_split_end [OF TLeaf.prems(1,2)])
next
  case (TBranch g x l r)
  have parts: "runs (spoils R a0) (\<lambda>t. if n < tcount l then
      seq_do (split_owned_atomic mem sp i (own i l) n) (\<lambda>pm.
        seq_do (concat_owned_atomic mem sp i (snd pm) (Some (own i r))) (\<lambda>suffix. seq_ok (fst pm, suffix))) t
    else if n = tcount l then seq_ok (Some (own i l), Some (own i r)) t
    else seq_do (split_owned_atomic mem sp i (own i r) (n - tcount l)) (\<lambda>ms.
        seq_do (concat_owned_atomic mem sp i (Some (own i l)) (fst ms)) (\<lambda>prefix. seq_ok (prefix, snd ms))) t) v
    (splits_at R i a0 (tleaves (TBranch g x l r)) n T F)"
    if v: "since R a0 (fst v)" "held R i (fst v) (add_mset l (add_mset r T)) F" for v
  proof -
    consider "n < tcount l" | "n = tcount l" | "tcount l < n" by linarith
    then show ?thesis
    proof cases
      case 1
      then show ?thesis using runs_split_left [OF TBranch.IH(1) [OF v(2,1)] 1] by (simp add: less_imp_le)
    next
      case 2
      then show ?thesis using splits_atI [OF v, of "Some l" "Some r" T n] by (simp add: runs_def seq_ok_def add_mset_commute)
    next
      case 3
      then show ?thesis using runs_split_right [OF TBranch.IH(2) [of v "add_mset l T"] 3] v TBranch.prems(3) by (simp add: add_mset_commute)
    qed
  qed
  show ?case
  proof (cases "n = 0 \<or> n = tcount (TBranch g x l r)")
    case False
    then have n: "n \<noteq> 0" "n \<noteq> tcount (TBranch g x l r)" "\<not> tcount (TBranch g x l r) < n" using TBranch.prems(3) by auto
    show ?thesis
      apply (subst runs_returns, subst split_owned_atomic.simps, subst runs_returns [symmetric])
      apply (rule after_visit [OF TBranch.prems(1,2)], rule after_check, assumption, simp, rule after_node, assumption, assumption, simp)
      apply (simp only: tnode_simps measure_of_simps n if_False node_kind.case)
      by (rule runs_bind [OF runs_take_children], assumption, assumption, elim conjE) (simp only: prod.sel parts)
  qed (rule runs_split_end [OF TBranch.prems(1,2)])
qed

subsection \<open>Splicing\<close>

lemma after_release:
  assumes h: "held R i (fst u) M F" and s: "since R a0 (fst u)" and m: "M = omset t + T"
    and k: "\<And>v. since R a0 (fst v) \<Longrightarrow> held R i (fst v) T F \<Longrightarrow> runs (spoils R a0) (k ()) v Q"
  shows "runs (spoils R a0) (seq_do (case map_option (own i) t of
       Some owner \<Rightarrow> changing sp (\<lambda>a. session_release a i owner) | None \<Rightarrow> seq_ok ()) k) u Q"
proof (cases t)
  case (Some x)
  then have d: "held R i (fst u) (add_mset x T) F" using h m by simp
  from runs_release [OF heldD(1) [OF d] s] show ?thesis unfolding Some option.map option.case
    by (rule runs_bind) (use k heldD(2) [OF d] in \<open>auto simp: held_def\<close>)
qed (use h s m k in \<open>simp add: runs_do_iff\<close>)

lemma runs_splice_owned:
  assumes h: "held R i (fst u) (add_mset t (omset rep + T)) F" and s: "since R a0 (fst u)" and n: "rs \<le> re" "re \<le> tcount t"
  shows "runs (spoils R a0) (splice_owned mem sp i (own i t) (tcount t) rs re (map_option (own i) rep)) u
    (yields_optional R i a0 (take rs (tleaves t) @ oleaves rep @ drop re (tleaves t)) T F)"
  unfolding splice_owned_def
proof (rule after_split [OF runs_split [OF h s]], goal_cases)
  case (2 p q v)
  note pq = 2(3,4)
  let ?tail = "case map_option (own i) q of Some owner \<Rightarrow> split_owned_atomic mem sp i owner (re - rs)
     | None \<Rightarrow> if rs = tcount t \<and> re \<le> rs then seq_ok (None, None) else seq_err (invalid sp ''sequence splice lost its suffix'')"
  have j: "runs (spoils R a0) ?tail v (splits_at R i a0 (oleaves q) (re - rs) (omset p + (omset rep + T)) F)"
  proof (cases q)
    case None
    then have "rs = tcount t" "re \<le> rs" using 2(4) n by auto
    then show ?thesis using None splits_atI [OF 2(1,2), of None None] by (simp add: ac_simps)
  next
    case (Some x)
    then have "re - rs \<le> tcount x" using 2(4) n by simp
    then show ?thesis using Some runs_split [of R i v x "omset p + (omset rep + T)" F a0 "re - rs"] 2(1,2) by simp
  qed
  show ?case unfolding prod.case
  proof (rule after_split [OF j], simp only: prod.case, rule after_release, assumption, assumption, rule refl, goal_cases)
    case (1 d e w z)
    show ?case
    proof (rule after_optional [OF runs_concat [OF 1(6,5), where l = p and r = rep and T = "omset e + T"]], goal_cases)
      case (2 c x)
      show ?case
        by (rule runs_mono [OF runs_concat [OF 2(2,1), where l = c and r = e and T = T]]) (use 2(3) 1(4) pq n in \<open>simp_all add: ac_simps\<close>)
    qed (simp add: ac_simps)
  qed
qed (use n in simp)

lemma reserve_live:
  assumes "has sp R i a T F"
  shows "(\<exists>n. remaining_owner_capacity a i = Some (Inr n)) \<or> remaining_owner_capacity a i = Some (Inl BuildCapacityExceeded)"
    and "reserve_owner_capacity mem a i k = Some (Inr ()) \<or> (\<exists>e. e \<in> resource_errors \<and> reserve_owner_capacity mem a i k = Some (Inl e))"
proof -
  have v: "validate_build a i Active = Inr ()" and b: "build_slot a (bid_slot i) = Some (bat a (bid_slot i))"
    using hasD(2) [OF assms] namesD(1) [OF hasD(2) [OF assms]] by (simp_all add: validate_build_names build_slot_at)
  show "(\<exists>n. remaining_owner_capacity a i = Some (Inr n)) \<or> remaining_owner_capacity a i = Some (Inl BuildCapacityExceeded)"
    using v b by (simp add: remaining_owner_capacity_def also_ok_def)
  show "reserve_owner_capacity mem a i k = Some (Inr ()) \<or> (\<exists>e. e \<in> resource_errors \<and> reserve_owner_capacity mem a i k = Some (Inl e))"
    using v b by (auto simp: reserve_owner_capacity_def also_ok_def reserve_build_owners_def split: option.splits)
qed

lemma runs_reading_resource:
  "f (fst u) = Some (Inl e) \<Longrightarrow> e \<in> resource_errors \<Longrightarrow> since R a0 (fst u) \<Longrightarrow> runs (spoils R a0) (reading sp f) u Q"
  by (rule runs_reading_err) (auto intro: edit_refusalI(5))

lemma runs_reserve:
  assumes h: "held R i (fst u) T F" and s: "since R a0 (fst u)"
  shows "runs (spoils R a0) (reserve_owners mem sp i n) u (\<lambda>_ v. fst v = fst u)"
  unfolding reserve_owners_def Let_def
proof (rule runs_bind [of _ _ _ "\<lambda>_ v. v = u"], goal_cases)
  case 1
  then show ?case using reserve_live(1) [OF heldD(1) [OF h]] s by (auto intro: runs_reading runs_reading_resource)
next
  case (2 m v)
  then show ?case using reserve_live(2) [OF heldD(1) [OF h], of mem "min n m"] s
    by (intro runs_bind [of _ _ _ "\<lambda>_ v. v = u"]) (auto intro: runs_reading runs_reading_resource)
qed

lemma after_reserve:
  assumes h: "held R i (fst u) T F" and s: "since R a0 (fst u)"
    and k: "\<And>v. since R a0 (fst v) \<Longrightarrow> held R i (fst v) T F \<Longrightarrow> runs (spoils R a0) (k ()) v Q"
  shows "runs (spoils R a0) (seq_do (reserve_owners mem sp i n) k) u Q"
  by (rule runs_bind [OF runs_reserve [OF h s]]) (use h s k in auto)

lemma after_counting:
  assumes h: "held R i (fst u) T F" and s: "since R a0 (fst u)" and m: "m \<in> set edit_messages"
    and k: "\<And>v. since R a0 (fst v) \<Longrightarrow> held R i (fst v) T F \<Longrightarrow> runs (spoils R a0) (k ()) v Q"
  shows "runs (spoils R a0) (seq_do (counting (invalid sp m) f g) k) u Q"
  by (rule runs_do, rule runs_counting) (use h s m k in \<open>auto intro: edit_refusalI\<close>)

lemma after_measure:
  assumes h: "held R i (fst u) M F" and s: "since R a0 (fst u)" and m: "omset t \<subseteq># M"
    and k: "\<And>v. since R a0 (fst v) \<Longrightarrow> held R i (fst v) M F \<Longrightarrow> runs (spoils R a0) (k (map_option measure_of t)) v Q"
  shows "runs (spoils R a0) (seq_do (optional_owner_measure sp i (map_option (own i) t)) k) u Q"
proof (cases t)
  case (Some x)
  then have x: "x \<in># M" using m by simp
  have "runs (spoils R a0) (optional_owner_measure sp i (Some (own i x))) u (\<lambda>y v. y = Some (measure_of x) \<and> fst v = fst u)"
    unfolding optional_owner_measure_def option.case
    by (rule after_check [OF h x], rule runs_bind [OF runs_node_of_owner [OF heldD(1) [OF h] x s]]) simp
  then show ?thesis unfolding Some option.map by (rule runs_bind) (use h s k Some in auto)
qed (use h s k in \<open>simp add: optional_owner_measure_def runs_do_iff\<close>)

lemma runs_if: "(b \<Longrightarrow> runs E m t Q) \<Longrightarrow> (\<not> b \<Longrightarrow> runs E m' t Q) \<Longrightarrow> runs E (if b then m else m') t Q"
  by simp

lemma after_observed:
  assumes h: "held R i (fst u) (omset t + T) F" and s: "since R a0 (fst u)"
    and k: "\<And>v. since R a0 (fst v) \<Longrightarrow> held R i (fst v) (omset t + T) F \<Longrightarrow> runs (spoils R a0) (k (length (oleaves t))) v Q"
  shows "runs (spoils R a0) (seq_do (case map_option (own i) t of None \<Rightarrow> seq_ok 0
     | Some owner \<Rightarrow> seq_do (node_of_owner sp owner) (\<lambda>node. seq_ok (sm_leaves (dn_measure node)))) k) u Q"
proof (cases t)
  case (Some x)
  have "runs (spoils R a0) (seq_do (node_of_owner sp (own i x)) (\<lambda>node. seq_ok (sm_leaves (dn_measure node)))) u
      (\<lambda>y v. y = tcount x \<and> fst v = fst u)"
    by (rule runs_bind [OF runs_node_of_owner [OF heldD(1) [OF h] _ s]]) (simp_all add: Some)
  then show ?thesis unfolding Some option.map option.case by (rule runs_bind) (use h s k Some in auto)
qed (use h s k in \<open>simp add: runs_do_iff\<close>)

lemma runs_splice_build_root:
  assumes h: "held R i (fst u) (add_mset t (omset rep + T)) F" and s: "since R a0 (fst u)" and n: "rs \<le> re" "re \<le> tcount t"
  shows "runs (spoils R a0) (splice_measured_sequence_build_root_atomic mem sp i (own i t) rs re (map_option (own i) rep)) u
    (yields_optional R i a0 (take rs (tleaves t) @ oleaves rep @ drop re (tleaves t)) T F)"
proof -
  let ?ls = "take rs (tleaves t) @ oleaves rep @ drop re (tleaves t)"
  have counts: "(case map_option measure_of rep of None \<Rightarrow> 0 | Some m \<Rightarrow> sm_leaves m) = length (oleaves rep)" by (cases rep) simp_all
  have target: "Option.bind (checked_sub (tcount t) (re - rs)) (\<lambda>leaves. checked_add leaves (length (oleaves rep))) =
      (if length ?ls < 2 ^ 64 then Some (length ?ls) else None)"
  proof -
    have "length ?ls = tcount t - (re - rs) + length (oleaves rep)" "re - rs \<le> tcount t" using n by simp_all
    then show ?thesis by (simp only: checked_sub_def checked_add_def bind.bind_lunit if_True)
  qed
  have valid: "\<not> (re < rs \<or> tcount t < re)" using n by auto
  show ?thesis unfolding splice_measured_sequence_build_root_atomic_def Let_def
  proof (rule after_check [OF h], simp, rule after_node [OF h s], simp, simp only: tnode_simps measure_of_simps if_not_P [OF valid],
      rule after_measure [where t = rep], assumption, assumption, simp, simp only: counts target, goal_cases)
    case (1 v w)
    show ?case
    proof (cases "length ?ls < 2 ^ 64")
      case False
      have "runs (spoils R a0) (seq_err (invalid sp ''sequence splice leaf count overflow'')) w Q" for Q
        using 1(3) by (simp add: edit_messages_def edit_refusalI(2))
      then show ?thesis unfolding if_not_P [OF False] option.case .
    next
      case True
      show ?thesis unfolding if_P [OF True] option.case
        apply (rule after_noting [OF 1(4,3)])
        apply (rule runs_if)
        subgoal unfolding count_reused_def
          apply (elim conjE, rule after_counting, assumption, assumption, simp add: edit_messages_def)
          using n by (auto intro!: yields_optionalI [where t = "Some t"])
        apply (rule after_reserve, assumption, assumption)
        apply (rule after_optional [OF runs_splice_owned [OF _ _ n]], assumption, assumption)
        apply (rule after_observed, assumption, assumption)
        apply (simp only: simp_thms if_False, unfold count_reused_def)
        apply (rule after_counting, assumption, assumption, simp add: edit_messages_def)
        apply (rule after_counting, assumption, assumption, simp add: edit_messages_def)
        by (auto intro: yields_optionalI)
    qed
  qed
qed

lemma runs_retain_committed:
  assumes h: "held R i (fst u) T F" and s: "since R a0 (fst u)" and t: "holds sp (fst u) t" and w: "load (add_mset t T) < limit"
  shows "runs (spoils R a0) (retain_committed_measured_sequence_root_with_measure mem sp i (Some (troot t))) u
    (\<lambda>x v. x = (own i t, measure_of t) \<and> since R a0 (fst v) \<and> held R i (fst v) (add_mset t T) F)"
  unfolding retain_committed_measured_sequence_root_with_measure_def option.case
proof (rule runs_bind [of _ _ _ "\<lambda>x v. x = tnode t \<and> fst v = fst u"], goal_cases)
  case 1
  show ?case
    by (rule runs_inspecting, rule runs_conseq [OF runs_node [OF hasD(1) [OF heldD(1) [OF h]] t]]) (use s in \<open>auto intro: edit_refusalI\<close>)
next
  case (2 x v)
  then have v: "held R i (fst v) T F" "since R a0 (fst v)" "holds sp (fst v) t" using h s t by simp_all
  show ?case
  proof (rule runs_bind [OF runs_reserve [OF v(1,2)]], goal_cases)
    case (1 y z)
    then have z: "has sp R i (fst z) T F" "since R a0 (fst z)" "holds sp (fst z) t" using v heldD(1) by auto
    show ?case
    proof (rule runs_bind [OF runs_retain [OF z]], elim conjE, goal_cases)
      case (1 y q)
      have q: "held R i (fst q) (add_mset t T) F" using 1(3) w by (simp add: held_def)
      show ?case by (rule after_counting [OF q 1(2)]) (use 1 2 in \<open>simp_all add: edit_messages_def\<close>)
    qed
  qed
qed

lemma runs_splice:
  assumes h: "held R i (fst u) (omset rep + T) F" and s: "since R a0 (fst u)" and t: "holds sp (fst u) t"
    and w: "load (add_mset t (omset rep + T)) < limit" and n: "rs \<le> re" "re \<le> tcount t"
  shows "runs (spoils R a0) (splice_measured_sequence_atomic mem sp i (Some (troot t)) rs re (map_option (own i) rep)) u
    (yields_optional R i a0 (take rs (tleaves t) @ oleaves rep @ drop re (tleaves t)) T F)"
  unfolding splice_measured_sequence_atomic_def retain_committed_measured_sequence_root_def
  by (rule runs_bind [where P = "\<lambda>x v. x = own i t \<and> since R a0 (fst v) \<and> held R i (fst v) (add_mset t (omset rep + T)) F"],
      rule runs_bind [OF runs_retain_committed [OF h s t w]]) (use runs_splice_build_root [OF _ _ n] in auto)

text \<open>What a committed root stored before a mutation it stores after it.\<close>

lemma committed_holds:
  assumes "since R a b" "h \<in># R" "holds sp a t" "troot t = h"
  shows "holds sp b t"
proof -
  have inv: "arena_inv R b" and ev: "evolves a b" using assms(1) by (simp_all add: since_def kept_def)
  have "live_at b h" using countedD(1) [OF node_invD(6) [OF arena_invD(1) [OF inv]], of h] assms(2) by (simp add: refs_def)
  then show ?thesis using holds_evolves [OF assms(3) ev inv] assms(4) by simp
qed

end

end
