(* ===== verification/Flark_Sequence_Walks.thy ===== *)
theory Flark_Sequence_Walks
  imports Flark_Sequence_Reads
begin

text \<open>
  The two walks of \<^verbatim>\<open>measured_sequence.rs\<close> that touch many leaves: the ordered visit from a position, and the partition by a
  monotone predicate in either direction.
\<close>

subsection \<open>Ordered visits\<close>

text \<open>What a visitor sees of a list of leaves, and the receipt it leaves.\<close>

primrec visit_list :: "('s located_leaf \<Rightarrow> 'v \<Rightarrow> ('e + visit_control) \<times> 'v) \<Rightarrow> 's located_leaf list \<Rightarrow> nat \<Rightarrow> 'v \<Rightarrow>
    ('e + visit_receipt) \<times> 'v" where
  "visit_list visitor [] visited v = (Inr \<lparr>leaves_visited = visited, visitor_stopped = False\<rparr>, v)"
| "visit_list visitor (x # xs) visited v =
     (case visitor x v of
        (Inl e, v) \<Rightarrow> (Inl e, v)
      | (Inr Stop, v) \<Rightarrow> (Inr \<lparr>leaves_visited = visited + 1, visitor_stopped = True\<rparr>, v)
      | (Inr Continue, v) \<Rightarrow> visit_list visitor xs (visited + 1) v)"

text \<open>All leaves of a subtree from an index on, located.\<close>

definition located_from :: "('s, 'e) sequence_spec \<Rightarrow> 's list \<Rightarrow> 's seq_tree \<Rightarrow> nat \<Rightarrow> nat \<Rightarrow> 's located_leaf list" where
  "located_from sp earlier t ordinal k = map (\<lambda>j. located_at sp earlier t j (ordinal + j)) [k..<tcount t]"

lemma map_plus_upt: "map ((+) n) [i..<j] = [n + i..<n + j]"
  by (induction j) auto

lemma located_from_left:
  assumes "k \<le> tcount l"
  shows "located_from sp earlier (TBranch h s l r) ordinal k =
    located_from sp earlier l ordinal k @ located_from sp (earlier @ summaries l) r (ordinal + tcount l) 0"
proof -
  have "[k..<tcount l + tcount r] = [k..<tcount l] @ map ((+) (tcount l)) [0..<tcount r]"
    using map_plus_upt [of "tcount l" 0 "tcount r"] upt_add_eq_append [OF assms, of "tcount r"] by simp
  then show ?thesis
    using located_at_branch(2) [of sp earlier h s l r] by (simp add: located_from_def located_at_branch(1) add.assoc)
qed

lemma located_from_right:
  "located_from sp earlier (TBranch h s l r) ordinal (tcount l + k) = located_from sp (earlier @ summaries l) r (ordinal + tcount l) k"
proof -
  have "[tcount l + k..<tcount l + tcount r] = map ((+) (tcount l)) [k..<tcount r]"
    by (simp add: map_plus_upt)
  then show ?thesis using located_at_branch(2) [of sp earlier h s l r] by (simp add: located_from_def add.assoc)
qed

lemma sum_take_le: "sum_list (map f (take k xs)) \<le> (sum_list (map f xs) :: nat)"
  by (metis append_take_drop_id le_add1 map_append sum_list_append)

lemma holds_position_append:
  assumes "holds_position metric (xs @ ys) p k"
  shows "p < sum_list (map metric xs) \<Longrightarrow> holds_position metric xs p k"
    and "sum_list (map metric xs) \<le> p \<Longrightarrow> length xs \<le> k \<and> holds_position metric ys (p - sum_list (map metric xs)) (k - length xs)"
proof -
  have h: "k < length xs + length ys" "sum_list (map metric (take k xs)) + sum_list (map metric (take (k - length xs) ys)) \<le> p"
      "p < sum_list (map metric (take (Suc k) xs)) + sum_list (map metric (take (Suc k - length xs) ys))"
    using assms by (auto simp: holds_position_def)
  show "holds_position metric xs p k" if "p < sum_list (map metric xs)"
    using h that by (cases "k < length xs") (auto simp: holds_position_def)
  show "length xs \<le> k \<and> holds_position metric ys (p - sum_list (map metric xs)) (k - length xs)" if "sum_list (map metric xs) \<le> p"
    using h that sum_take_le [of metric "Suc k" xs] by (cases "k < length xs") (auto simp: holds_position_def Suc_diff_le)
qed

lemma holds_position_exists: "p < sum_list (map metric xs) \<Longrightarrow> \<exists>k. holds_position metric xs p k"
proof (induction xs arbitrary: p)
  case (Cons x xs)
  show ?case
  proof (cases "p < metric x")
    case False
    then obtain k where "holds_position metric xs (p - metric x) k" using Cons.IH [of "p - metric x"] Cons.prems
      by (metis le_add_diff_inverse linorder_not_less nat_add_left_cancel_less list.simps(9) sum_list.Cons)
    then show ?thesis using holds_position_right [of metric xs p "[x]" k] False by (intro exI [of _ "Suc k"]) simp
  qed (auto simp: holds_position_def intro!: exI [of _ 0])
qed simp

lemma holds_position_unique:
  assumes "holds_position metric xs p j" "holds_position metric xs p k"
  shows "j = k"
proof -
  have "\<not> j < k" if "holds_position metric xs p j" "holds_position metric xs p k" for j k
  proof
    assume "j < k"
    then have "take (Suc j) (take k xs) = take (Suc j) xs" by (simp add: min_def)
    then have "sum_list (map metric (take (Suc j) xs)) \<le> sum_list (map metric (take k xs))" using sum_take_le by metis
    then show False using that by (auto simp: holds_position_def)
  qed
  then show ?thesis using assms by (meson linorder_neqE_nat)
qed

text \<open>A subtree that waits on the stack.\<close>

record 's waiting =
  wt_tree :: "'s seq_tree"
  wt_earlier :: "'s list"
  wt_ordinal :: nat

definition subtree_of :: "('s, 'e) sequence_spec \<Rightarrow> 's waiting \<Rightarrow> 's pending_subtree" where
  "subtree_of sp w = \<lparr>ps_id = troot (wt_tree w), ps_expected = measure_of (wt_tree w), ps_ordinal = wt_ordinal w,
     ps_prefix = fold_summaries sp (wt_earlier w)\<rparr>"

definition waiting_leaves :: "('s, 'e) sequence_spec \<Rightarrow> 's waiting list \<Rightarrow> 's located_leaf list" where
  "waiting_leaves sp ws = concat (map (\<lambda>w. located_from sp (wt_earlier w) (wt_tree w) (wt_ordinal w) 0) ws)"

text \<open>The stack never grows past the height that is left.\<close>

primrec stacked :: "'s waiting list \<Rightarrow> bool" where
  "stacked [] = True"
| "stacked (w # ws) = (theight (wt_tree w) + length ws \<le> 92 \<and> stacked ws)"

context measured_spec
begin

definition visitable :: "page_arena \<Rightarrow> 's waiting \<Rightarrow> bool" where
  "visitable a w \<longleftrightarrow> descends a (wt_earlier w) (wt_tree w) \<and> wt_ordinal w + tcount (wt_tree w) < 2 ^ 64"

text \<open>An error of the visit is a refusal, or the visitor's own on the leaf it reached.\<close>

abbreviation visit_ends :: "('s located_leaf \<Rightarrow> 'v \<Rightarrow> ('e + visit_control) \<times> 'v) \<Rightarrow> 's located_leaf list \<Rightarrow> nat \<Rightarrow> 'v \<Rightarrow>
    (('e + visit_receipt) \<times> inspection_receipt \<times> 'v) option \<Rightarrow> bool" where
  "visit_ends visitor xs visited v result \<equiv>
     returns (\<lambda>e u. read_refusal sp e \<or> visit_list visitor xs visited v = (Inl e, snd u)) result
       (\<lambda>x u. visit_list visitor xs visited v = (Inr x, snd u))"

lemma runs_visit_node:
  assumes "arena_inv R a" "holds sp a t"
  shows "runs (\<lambda>e u. read_refusal sp e \<or> P e u) (seq_on_fst (sequence_node sp a (troot t))) u (\<lambda>x u'. x = tnode t \<and> snd u' = snd u)"
  by (rule runs_on_fst, rule runs_conseq [OF runs_node [OF assms]]) auto

lemma visit_loop_ends:
  assumes inv: "arena_inv R a" and m: "additive_metric metric" and pos: "\<And>s. good s \<Longrightarrow> 0 < metric s"
  shows "visitable a w \<Longrightarrow> (\<forall>x\<in>set ws. visitable a x) \<Longrightarrow> stacked (w # ws) \<Longrightarrow>
    (case position of None \<Rightarrow> k = 0 | Some p \<Rightarrow> holds_position metric (summaries (wt_tree w)) p k) \<Longrightarrow>
    visited + (tcount (wt_tree w) - k) + length (waiting_leaves sp ws) < 2 ^ 64 \<Longrightarrow>
    visit_ends visitor (located_from sp (wt_earlier w) (wt_tree w) (wt_ordinal w) k @ waiting_leaves sp ws) visited (snd u)
      (visit_loop sp a metric visitor (map (subtree_of sp) ws) (subtree_of sp w) position visited u)"
proof (induction "size (wt_tree w) + sum_list (map (size \<circ> wt_tree) ws)" arbitrary: w ws position k visited u rule: less_induct)
  case less
  obtain t earlier ordinal where w: "w = \<lparr>wt_tree = t, wt_earlier = earlier, wt_ordinal = ordinal\<rparr>" by (cases w) auto
  have d: "descends a earlier t" and ord: "ordinal + tcount t < 2 ^ 64" using less.prems(1) w by (simp_all add: visitable_def)
  have h: "holds sp a t" using d by (simp add: descends_def)
  note vn = runs_visit_node [OF inv h]
  show ?case
  proof (cases t)
    case (TLeaf hd s)
    have k0: "k = 0" using less.prems(4) w TLeaf by (auto simp: holds_position_def split: option.splits)
    have lm: "\<not> (metric s = 0 \<or> (case position of None \<Rightarrow> False | Some p \<Rightarrow> metric s \<le> p))"
      using pos [of s] holds_good [OF h] less.prems(4) w TLeaf by (auto simp: holds_position_def split: option.splits)
    let ?x = "located_at sp earlier t 0 ordinal"
    have x: "located_from sp earlier t ordinal 0 = [?x]" using TLeaf by (simp add: located_from_def)
    have lx: "\<lparr>ll_id = hd, ll_ordinal = ordinal, ll_summary = s, ll_prefix = fold_summaries sp earlier\<rparr> = ?x"
      using TLeaf by (simp add: located_at_def)
    have ca: "checked_add visited 1 = Some (visited + 1)" using less.prems(5) w TLeaf k0 by (simp add: checked_add_def)
    have rest: "visit_ends visitor (waiting_leaves sp ws) (Suc visited) (snd v)
        (case map (subtree_of sp) ws of [] \<Rightarrow> seq_ok \<lparr>leaves_visited = Suc visited, visitor_stopped = False\<rparr> v
         | next # rest \<Rightarrow> visit_loop sp a metric visitor rest next None (Suc visited) v)" for v
    proof (cases ws)
      case (Cons y ys)
      have "visit_ends visitor (located_from sp (wt_earlier y) (wt_tree y) (wt_ordinal y) 0 @ waiting_leaves sp ys) (Suc visited) (snd v)
          (visit_loop sp a metric visitor (map (subtree_of sp) ys) (subtree_of sp y) None (Suc visited) v)"
        by (rule less.hyps) (use less.prems w TLeaf Cons k0 in \<open>auto simp: waiting_leaves_def located_from_def\<close>)
      then show ?thesis using Cons by (simp add: waiting_leaves_def)
    qed (simp add: waiting_leaves_def)
    show ?thesis
      apply (subst visit_loop.simps)
      apply (simp only: w subtree_of_def waiting.simps pending_subtree.simps returns_simps)
      apply (rule runs_mono [OF vn])
      using TLeaf lm ca rest [of "(_, _)"] x k0 lx
      by (auto simp: Let_def runs_returns call_visitor_def split: prod.splits sum.splits visit_control.splits)
  next
    case (TBranch hd s l r)
    note b = descends_branch [OF d [unfolded TBranch]] and ad = additive_held [OF m h [unfolded TBranch]]
    have hl: "holds sp a l" "holds sp a r" using h TBranch by simp_all
    note ml = metric_held [OF m hl(1)]
    let ?second = "\<lparr>wt_tree = r, wt_earlier = earlier @ summaries l, wt_ordinal = ordinal + tcount l\<rparr>"
    let ?first = "\<lparr>wt_tree = l, wt_earlier = earlier, wt_ordinal = ordinal\<rparr>"
    have vis: "visitable a ?first" "visitable a ?second" using b ord TBranch by (simp_all add: visitable_def)
    have ca: "checked_add ordinal (tcount l) = Some (ordinal + tcount l)" using ord TBranch by (simp add: checked_add_def)
    have ex: "runs (\<lambda>e u. read_refusal sp e \<or> P e u) (seq_on_fst (extend_prefix sp (fold_summaries sp earlier) (tsum l))) u
        (\<lambda>x u'. Some x = fold_summaries sp (earlier @ summaries l) \<and> snd u' = snd u)" for P and u :: "inspection_receipt \<times> 'a"
      by (rule runs_on_fst, rule runs_conseq [OF b(3)]) auto
    have len: "length (waiting_leaves sp (?second # ws)) = tcount r + length (waiting_leaves sp ws)"
      by (simp add: waiting_leaves_def located_from_def)
    have right: "visit_ends visitor (located_from sp earlier t ordinal k @ waiting_leaves sp ws) visited (snd v)
        (visit_loop sp a metric visitor (map (subtree_of sp) ws) (subtree_of sp ?second)
          (map_option (\<lambda>p. p - metric (tsum l)) position) visited v)"
      if p: "position = Some p" "metric (tsum l) \<le> p" for v p
    proof -
      have k: "tcount l \<le> k" "holds_position metric (summaries r) (p - metric (tsum l)) (k - tcount l)"
        using holds_position_append(2) [of metric "summaries l" "summaries r" p k] less.prems(4) w TBranch p ml by auto
      have e: "located_from sp earlier t ordinal k = located_from sp (earlier @ summaries l) r (ordinal + tcount l) (k - tcount l)"
        using located_from_right [of sp earlier hd s l r ordinal "k - tcount l"] k TBranch by simp
      have "visit_ends visitor (located_from sp (wt_earlier ?second) (wt_tree ?second) (wt_ordinal ?second) (k - tcount l) @ waiting_leaves sp ws)
          visited (snd v) (visit_loop sp a metric visitor (map (subtree_of sp) ws) (subtree_of sp ?second) (Some (p - metric (tsum l))) visited v)"
        by (rule less.hyps) (use less.prems w TBranch vis k in auto)
      then show ?thesis using e p by simp
    qed
    have left: "visit_ends visitor (located_from sp earlier t ordinal k @ waiting_leaves sp ws) visited (snd v)
        (visit_loop sp a metric visitor (subtree_of sp ?second # map (subtree_of sp) ws) (subtree_of sp ?first) position visited v)"
      if p: "case position of None \<Rightarrow> True | Some p \<Rightarrow> p < metric (tsum l)" for v
    proof -
      have kp: "case position of None \<Rightarrow> k = 0 | Some p \<Rightarrow> holds_position metric (summaries l) p k"
        using less.prems(4) w TBranch p ml holds_position_append(1) [of metric "summaries l" "summaries r" _ k] by (cases position) auto
      then have k: "k \<le> tcount l" by (auto simp: holds_position_def split: option.splits)
      have "visit_ends visitor (located_from sp (wt_earlier ?first) (wt_tree ?first) (wt_ordinal ?first) k @ waiting_leaves sp (?second # ws))
          visited (snd v) (visit_loop sp a metric visitor (map (subtree_of sp) (?second # ws)) (subtree_of sp ?first) position visited v)"
        by (rule less.hyps) (use less.prems w TBranch vis kp k len in \<open>auto simp del: length_greater_0_conv split: option.splits\<close>)
      then show ?thesis using located_from_left [OF k, of sp earlier hd s r ordinal] TBranch by (simp add: waiting_leaves_def)
    qed
    have room: "\<not> 92 \<le> length ws" using less.prems(3) w TBranch by simp
    have flat: "subtree_of sp ?second = \<lparr>ps_id = troot r, ps_expected = measure_of r, ps_ordinal = ordinal + tcount l,
        ps_prefix = fold_summaries sp (earlier @ summaries l)\<rparr>"
      "subtree_of sp ?first = \<lparr>ps_id = troot l, ps_expected = measure_of l, ps_ordinal = ordinal, ps_prefix = fold_summaries sp earlier\<rparr>"
      by (simp_all add: subtree_of_def)
    show ?thesis
      apply (subst visit_loop.simps)
      apply (simp only: w subtree_of_def waiting.simps pending_subtree.simps returns_simps)
      apply (rule runs_mono [OF vn])
      apply (simp add: TBranch ad ca)
      apply (rule runs_mono [OF ex])
      using right [unfolded flat] left [unfolded flat] TBranch room by (auto simp: Let_def split: option.splits)
  qed
qed

lemma visit_ends_from:
  assumes inv: "arena_inv R a" and t: "holds sp a t" "small (tsum t)" and m: "additive_metric metric" and pos: "\<And>s. good s \<Longrightarrow> 0 < metric s"
    and k: "holds_position metric (summaries t) position k"
  shows "visit_ends visitor (located_from sp [] t 0 k) 0 (snd u) (visit_leaves_from_metric sp a (Some (troot t)) position metric visitor u)"
proof -
  have lt: "position < metric (tsum t)" using k metric_held [OF m t(1)] sum_take_le [of metric "Suc k" "summaries t"] by (simp add: holds_position_def)
  let ?w = "\<lparr>wt_tree = t, wt_earlier = [], wt_ordinal = 0\<rparr>"
  have "visit_ends visitor (located_from sp [] t 0 k) 0 (snd v)
      (visit_loop sp a metric visitor [] \<lparr>ps_id = troot t, ps_expected = measure_of t, ps_ordinal = 0, ps_prefix = None\<rparr> (Some position) 0 v)" for v
    using visit_loop_ends [OF inv m pos, where w = ?w and ws = "[]" and position = "Some position" and k = k and visited = 0 and u = v] descends_root [OF t] holds_count [OF t(1)] holds_height(1) [OF t(1)] k
    by (simp add: visitable_def waiting_leaves_def subtree_of_def)
  then show ?thesis unfolding visit_leaves_from_metric_def option.case returns_simps
    using lt by (intro runs_mono [OF runs_visit_node [OF inv t(1)]]) (auto simp: Let_def)
qed

end

subsection \<open>Monotone partitions\<close>

text \<open>The leaves taken so far, extended in the direction of the walk.\<close>

definition grow :: "partition_direction \<Rightarrow> 'a list \<Rightarrow> 'a list \<Rightarrow> 'a list" where
  "grow direction taken xs = (case direction of Forward \<Rightarrow> taken @ xs | Reverse \<Rightarrow> xs @ taken)"

lemma grow_list_simps [simp]: "grow Forward taken xs = taken @ xs" "grow Reverse taken xs = xs @ taken" "grow d taken [] = taken" "grow d [] xs = xs"
  by (cases d; simp add: grow_def)+

text \<open>The part of a range that is before leaf \<open>n\<close> in the direction of the walk.\<close>

definition taken_before :: "partition_direction \<Rightarrow> 'a list \<Rightarrow> nat \<Rightarrow> nat \<Rightarrow> nat \<Rightarrow> nat \<Rightarrow> 'a list" where
  "taken_before direction xs start rs re n =
     (case direction of Forward \<Rightarrow> part xs start rs n | Reverse \<Rightarrow> part xs start (Suc n) re)"

context measured_spec
begin

definition not_crossed :: "('s \<Rightarrow> bool) \<Rightarrow> 's list \<Rightarrow> bool" where
  "not_crossed p taken \<longleftrightarrow> (\<forall>s. fold_summaries sp taken = Some s \<longrightarrow> \<not> p s)"

definition crosses :: "('s \<Rightarrow> bool) \<Rightarrow> 's list \<Rightarrow> bool" where
  "crosses p taken \<longleftrightarrow> (\<exists>s. fold_summaries sp taken = Some s \<and> p s)"

text \<open>The leaf the walk stops at, in a subtree that begins at leaf \<open>start\<close>.\<close>

definition stops_at :: "partition_direction \<Rightarrow> ('s \<Rightarrow> bool) \<Rightarrow> 's list \<Rightarrow> 's seq_tree \<Rightarrow> nat \<Rightarrow> nat \<Rightarrow> nat \<Rightarrow> 's located_partition \<Rightarrow> bool" where
  "stops_at d p taken t start rs re x \<longleftrightarrow> (\<exists>k. k < tcount t \<and> rs \<le> start + k \<and> start + k < re \<and>
     (let visited = grow d taken (taken_before d (summaries t) start rs re (start + k)); s = snd (tleaves t ! k)
      in x = \<lparr>lp_id = fst (tleaves t ! k), lp_ordinal = start + k, lp_summary = s, lp_accumulated = fold_summaries sp visited\<rparr> \<and>
         not_crossed p visited \<and> crosses p (grow d visited [s])))"

definition partition_post :: "page_arena \<Rightarrow> partition_direction \<Rightarrow> ('s \<Rightarrow> bool) \<Rightarrow> 's list \<Rightarrow> 's seq_tree \<Rightarrow> nat \<Rightarrow> nat \<Rightarrow> nat \<Rightarrow>
    's located_partition option \<Rightarrow> 's partition_state \<Rightarrow> bool" where
  "partition_post a d p taken t start rs re r u \<longleftrightarrow> cache_sound sp a (fst u) \<and>
     (case r of
        None \<Rightarrow> snd u = fold_summaries sp (grow d taken (part (summaries t) start rs re)) \<and>
                not_crossed p (grow d taken (part (summaries t) start rs re))
      | Some x \<Rightarrow> stops_at d p taken t start rs re x)"

text \<open>The leaves taken and those of the range in the subtree combine.\<close>

definition combinable :: "'s list \<Rightarrow> bool" where
  "combinable xs \<longleftrightarrow> (\<forall>s\<in>set xs. good s) \<and> (xs = [] \<or> (\<exists>w. fold_summaries sp xs = Some w \<and> small w))"

lemma combinable_append:
  assumes "combinable (xs @ ys)"
  shows "combinable xs" "combinable ys"
proof -
  have g: "\<forall>s\<in>set xs. good s" "\<forall>s\<in>set ys. good s" using assms by (auto simp: combinable_def)
  have "xs \<noteq> [] \<Longrightarrow> ys \<noteq> [] \<Longrightarrow> \<exists>u v. fold_summaries sp xs = Some u \<and> fold_summaries sp ys = Some v \<and> small u \<and> small v"
    using assms fold_append [of xs ys] by (fastforce simp: combinable_def)
  then show "combinable xs" "combinable ys" using assms g by (cases "xs = []"; cases "ys = []"; force simp: combinable_def)+
qed

lemma not_crossed_empty [simp]: "not_crossed p []"
  by (simp add: not_crossed_def)

lemma runs_candidate:
  assumes t: "holds sp a t" "small (tsum t)" and c: "combinable (grow d taken (summaries t))"
    and u: "snd u = fold_summaries sp taken" "cache_sound sp a (fst u)"
  shows "runs refusing (partition_candidate sp d (tsum t)) u
     (\<lambda>x v. fold_summaries sp (grow d taken (summaries t)) = Some x \<and> snd v = snd u \<and> cache_sound sp a (fst v))"
proof (cases "taken = []")
  case True
  then show ?thesis using u fold_held [OF t] by (simp add: runs_def partition_candidate_def)
next
  case False
  have g: "grow d taken (summaries t) \<noteq> []" by (cases d) auto
  then obtain w where w: "fold_summaries sp (grow d taken (summaries t)) = Some w" "small w" "\<forall>s\<in>set (grow d taken (summaries t)). good s"
    using c by (auto simp: combinable_def)
  obtain x where x: "fold_summaries sp taken = Some x"
      "(case d of Forward \<Rightarrow> spec_combine sp x (tsum t) | Reverse \<Rightarrow> spec_combine sp (tsum t) x) = Inr w"
    using fold_append [of taken "summaries t" w] fold_append [of "summaries t" taken w] w False fold_held [OF t] by (cases d) auto
  have "runs refusing (seq_on_fst (seq_on_fst (count_combination sp ''sequence partition combination count overflow''))) u
      (\<lambda>_ v. snd v = snd u \<and> cache_sound sp a (fst v))"
    using u(2) by (auto simp: read_messages_def intro!: runs_on_fst runs_count intro: cache_sound_snd)
  then show ?thesis using x w u
    by (subst runs_returns) (auto simp: partition_candidate_def elim!: runs_mono)
qed

lemma stops_at_left:
  assumes "stops_at d p (case d of Forward \<Rightarrow> taken | Reverse \<Rightarrow> grow d taken (part (summaries r) (start + tcount l) rs re)) l start rs re x"
  shows "stops_at d p taken (TBranch h s l r) start rs re x"
proof -
  have e: "grow d taken (taken_before d (summaries l @ summaries r) start rs re (start + k)) =
      grow d (case d of Forward \<Rightarrow> taken | Reverse \<Rightarrow> grow d taken (part (summaries r) (start + tcount l) rs re))
        (taken_before d (summaries l) start rs re (start + k))" if "k < tcount l" "rs \<le> start + k" for k
    using that by (cases d) (simp_all add: taken_before_def part_append part_none, simp add: part_def)
  obtain k where "k < tcount l" "rs \<le> start + k" "start + k < re"
    "let visited = grow d (case d of Forward \<Rightarrow> taken | Reverse \<Rightarrow> grow d taken (part (summaries r) (start + tcount l) rs re))
          (taken_before d (summaries l) start rs re (start + k)); s = snd (tleaves l ! k)
     in x = \<lparr>lp_id = fst (tleaves l ! k), lp_ordinal = start + k, lp_summary = s, lp_accumulated = fold_summaries sp visited\<rparr> \<and>
        not_crossed p visited \<and> crosses p (grow d visited [s])"
    using assms unfolding stops_at_def by blast
  then show ?thesis unfolding stops_at_def
    by (intro exI [of _ k]) (simp add: e [symmetric] nth_append Let_def)
qed

lemma stops_at_right:
  assumes "stops_at d p (case d of Forward \<Rightarrow> grow d taken (part (summaries l) start rs re) | Reverse \<Rightarrow> taken) r (start + tcount l) rs re x"
  shows "stops_at d p taken (TBranch h s l r) start rs re x"
proof -
  have e: "grow d taken (taken_before d (summaries l @ summaries r) start rs re (start + tcount l + k)) =
      grow d (case d of Forward \<Rightarrow> grow d taken (part (summaries l) start rs re) | Reverse \<Rightarrow> taken)
        (taken_before d (summaries r) (start + tcount l) rs re (start + tcount l + k))" if "start + tcount l + k < re" for k
    using that by (cases d) (simp_all add: taken_before_def part_append part_none, simp add: part_def)
  obtain k where "k < tcount r" "rs \<le> start + tcount l + k" "start + tcount l + k < re"
    "let visited = grow d (case d of Forward \<Rightarrow> grow d taken (part (summaries l) start rs re) | Reverse \<Rightarrow> taken)
          (taken_before d (summaries r) (start + tcount l) rs re (start + tcount l + k)); s = snd (tleaves r ! k)
     in x = \<lparr>lp_id = fst (tleaves r ! k), lp_ordinal = start + tcount l + k, lp_summary = s, lp_accumulated = fold_summaries sp visited\<rparr> \<and>
        not_crossed p visited \<and> crosses p (grow d visited [s])"
    using assms unfolding stops_at_def by blast
  then show ?thesis unfolding stops_at_def
    by (intro exI [of _ "tcount l + k"]) (simp add: e [symmetric] nth_append Let_def add.assoc [symmetric])
qed

lemma part_single: "part [s] start rs re = (if rs \<le> start \<and> start < re then [s] else [])"
  by (cases "re - start") (auto simp: part_def)

text \<open>One subtree: the test of a covered one, then the descent.\<close>

lemma runs_partition_node:
  assumes "arena_inv R a" "holds sp a t" "cache_sound sp a (fst u)"
  shows "runs refusing (seq_on_fst (sequence_node_shared mem sp a (troot t))) u
    (\<lambda>x v. x = tnode t \<and> snd v = snd u \<and> cache_sound sp a (fst v))"
  by (rule runs_on_fst, rule runs_mono [OF runs_node_shared [OF assms]]) auto

lemma runs_test:
  assumes t: "holds sp a t" "small (tsum t)" and c: "combinable (grow d taken (summaries t))"
    and u: "snd u = fold_summaries sp taken" "cache_sound sp a (fst u)"
  shows "runs refusing (partition_test sp d (\<lambda>s. Inr (p s)) True (tsum t)) u
     (\<lambda>go v. cache_sound sp a (fst v) \<and>
        (if go then snd v = fold_summaries sp taken \<and> crosses p (grow d taken (summaries t))
         else snd v = fold_summaries sp (grow d taken (summaries t)) \<and> not_crossed p (grow d taken (summaries t))))"
  unfolding partition_test_def if_True
proof (rule runs_bind [OF runs_candidate [OF assms]], goal_cases)
  case (1 x v)
  then show ?case using u(1) by (cases "p x") (simp_all add: runs_do_iff runs_returns crosses_def not_crossed_def)
qed

lemma runs_partition:
  assumes inv: "arena_inv R a"
  shows "holds sp a t \<Longrightarrow> small (tsum t) \<Longrightarrow> start + tcount t < 2 ^ 64 \<Longrightarrow>
    combinable (grow d taken (part (summaries t) start rs re)) \<Longrightarrow> not_crossed p taken \<Longrightarrow>
    snd u = fold_summaries sp taken \<Longrightarrow> cache_sound sp a (fst u) \<Longrightarrow>
    runs refusing (locate_leaf_by_monotone_summary_inner mem sp a rs re d (\<lambda>s. Inr (p s)) (troot t) (measure_of t) start) u
      (partition_post a d p taken t start rs re)"
proof (induction t arbitrary: start taken u)
  case (TLeaf h s)
  let ?t = "TLeaf h s"
  have add: "checked_add start (tcount ?t) = Some (start + 1)" using TLeaf.prems(3) by (simp add: checked_add_def)
  show ?case
  proof (cases "rs \<le> start \<and> start < re")
    case False
    then have dj: "re \<le> start \<or> start + 1 \<le> rs" by auto
    show ?thesis using TLeaf.prems dj
      apply (subst runs_returns, subst locate_leaf_by_monotone_summary_inner.simps)
      apply (simp only: measure_of_simps add option.case if_P [OF dj] seq_simps returns_simps)
      by (auto simp: partition_post_def part_single)
  next
    case True
    then have nd: "\<not> (re \<le> start \<or> start + 1 \<le> rs)" "(rs \<le> start \<and> start + 1 \<le> re) = True" by auto
    have pt: "part (summaries ?t) start rs re = summaries ?t" using True by (simp add: part_single)
    have c: "combinable (grow d taken (summaries ?t))" using TLeaf.prems(4) pt by simp
    have st: "stops_at d p taken ?t start rs re \<lparr>lp_id = h, lp_ordinal = start, lp_summary = s, lp_accumulated = fold_summaries sp taken\<rparr>"
      if "crosses p (grow d taken [s])"
      using that True TLeaf.prems(5) unfolding stops_at_def
      by (intro exI [of _ 0]) (cases d, simp_all add: taken_before_def part_single)
    show ?thesis
      apply (subst runs_returns, subst locate_leaf_by_monotone_summary_inner.simps)
      apply (simp only: add option.case if_not_P [OF nd(1)] nd(2) Let_def returns_simps measure_of_simps)
      apply (rule runs_mono [OF runs_test [OF TLeaf.prems(1,2) c TLeaf.prems(6,7)]])
      apply (auto simp: partition_post_def pt split: if_splits)
      apply (rule runs_mono [OF runs_partition_node [OF inv TLeaf.prems(1), unfolded troot.simps]])
      using st True by (auto simp: partition_post_def part_single)
  qed
next
  case (TBranch h s l r)
  let ?t = "TBranch h s l r"
  have hl: "holds sp a l" "holds sp a r" using TBranch.prems(1) by simp_all
  have sm: "small (tsum l)" "small (tsum r)" using held_small [OF TBranch.prems(1)] TBranch.prems(2) by simp_all
  have bd: "start + tcount l < 2 ^ 64" "start + tcount l + tcount r < 2 ^ 64" using TBranch.prems(3) by simp_all
  have add: "checked_add start (tcount ?t) = Some (start + tcount ?t)" "checked_add start (tcount l) = Some (start + tcount l)"
    using bd by (simp_all add: checked_add_def)
  let ?l = "part (summaries l) start rs re" and ?r = "part (summaries r) (start + tcount l) rs re"
  have cut: "part (summaries ?t) start rs re = ?l @ ?r" by (simp add: part_append)
  have comb: "combinable (grow d taken (?l @ ?r))" using TBranch.prems(4) cut by simp
  have forward: "returns refusing (seq_do (locate_leaf_by_monotone_summary_inner mem sp a rs re d (\<lambda>s. Inr (p s)) (troot l) (measure_of l) start)
      (\<lambda>found t. if found \<noteq> None then seq_ok found t
         else locate_leaf_by_monotone_summary_inner mem sp a rs re d (\<lambda>s. Inr (p s)) (troot r) (measure_of r) (start + tcount l) t) v)
      (partition_post a d p taken ?t start rs re)" if d: "d = Forward" and v: "snd v = fold_summaries sp taken" "cache_sound sp a (fst v)" for v
    unfolding returns_simps
  proof (rule runs_mono [OF TBranch.IH(1) [OF hl(1) sm(1) bd(1) _ TBranch.prems(5) v]], goal_cases)
    case 1
    then show ?case using combinable_append(1) [of "taken @ ?l" ?r] comb d by simp
  next
    case (2 x w)
    show ?case
    proof (cases x)
      case None
      then have "runs refusing (locate_leaf_by_monotone_summary_inner mem sp a rs re d (\<lambda>s. Inr (p s)) (troot r) (measure_of r) (start + tcount l)) w
          (partition_post a d p (taken @ ?l) r (start + tcount l) rs re)"
        using 2 d comb by (intro TBranch.IH(2) [OF hl(2) sm(2) bd(2)]) (auto simp: partition_post_def)
      then show ?thesis using None d cut stops_at_right [of d p taken l start rs re r _ h s]
        by (auto simp: partition_post_def runs_returns [symmetric] split: option.splits elim!: runs_mono)
    next
      case (Some y)
      then show ?thesis using 2 d stops_at_left [of d p taken r start l rs re y h s] by (auto simp: partition_post_def)
    qed
  qed
  have backward: "returns refusing (seq_do (locate_leaf_by_monotone_summary_inner mem sp a rs re d (\<lambda>s. Inr (p s)) (troot r) (measure_of r) (start + tcount l))
      (\<lambda>found t. if found \<noteq> None then seq_ok found t
         else locate_leaf_by_monotone_summary_inner mem sp a rs re d (\<lambda>s. Inr (p s)) (troot l) (measure_of l) start t) v)
      (partition_post a d p taken ?t start rs re)" if d: "d = Reverse" and v: "snd v = fold_summaries sp taken" "cache_sound sp a (fst v)" for v
    unfolding returns_simps
  proof (rule runs_mono [OF TBranch.IH(2) [OF hl(2) sm(2) bd(2) _ TBranch.prems(5) v]], goal_cases)
    case 1
    then show ?case using combinable_append(2) [of ?l "?r @ taken"] comb d by simp
  next
    case (2 x w)
    show ?case
    proof (cases x)
      case None
      then have "runs refusing (locate_leaf_by_monotone_summary_inner mem sp a rs re d (\<lambda>s. Inr (p s)) (troot l) (measure_of l) start) w
          (partition_post a d p (?r @ taken) l start rs re)"
        using 2 d comb by (intro TBranch.IH(1) [OF hl(1) sm(1) bd(1)]) (auto simp: partition_post_def)
      then show ?thesis using None d cut stops_at_left [of d p taken r start l rs re _ h s]
        by (auto simp: partition_post_def runs_returns [symmetric] split: option.splits elim!: runs_mono)
    next
      case (Some y)
      then show ?thesis using 2 d stops_at_right [of d p taken l start rs re r y h s] by (auto simp: partition_post_def)
    qed
  qed
  have descend: "returns refusing (seq_do (seq_on_fst (sequence_node_shared mem sp a (troot ?t))) (\<lambda>node t.
      if dn_measure node \<noteq> measure_of ?t then seq_err (invalid sp ''sequence child measure changed during summary partition'') t
      else case dn_kind node of
        NodeLeaf \<Rightarrow>
          if \<not> covered then seq_err (invalid sp ''sequence summary partition terminated inside a leaf'') t
          else seq_ok (Some \<lparr>lp_id = troot ?t, lp_ordinal = start, lp_summary = tsum ?t, lp_accumulated = snd t\<rparr>) t
      | NodeBranch left left_measure right right_measure \<Rightarrow>
          (case checked_add start (sm_leaves left_measure) of
             None \<Rightarrow> seq_err (invalid sp ''sequence partition boundary overflow'') t
           | Some right_start \<Rightarrow>
               if d = Forward then
                 seq_do (locate_leaf_by_monotone_summary_inner mem sp a rs re d (\<lambda>s. Inr (p s)) left left_measure start) (\<lambda>found t.
                 if found \<noteq> None then seq_ok found t
                 else locate_leaf_by_monotone_summary_inner mem sp a rs re d (\<lambda>s. Inr (p s)) right right_measure right_start t) t
               else
                 seq_do (locate_leaf_by_monotone_summary_inner mem sp a rs re d (\<lambda>s. Inr (p s)) right right_measure right_start) (\<lambda>found t.
                 if found \<noteq> None then seq_ok found t
                 else locate_leaf_by_monotone_summary_inner mem sp a rs re d (\<lambda>s. Inr (p s)) left left_measure start t) t)) v)
      (partition_post a d p taken ?t start rs re)" if v: "snd v = fold_summaries sp taken" "cache_sound sp a (fst v)" for v covered
    unfolding returns_simps(3)
    by (rule runs_mono [OF runs_partition_node [OF inv TBranch.prems(1) v(2)]])
      (use forward backward v in \<open>cases d; simp add: add del: returns_simps(3)\<close>)
  show ?case
  proof (cases "re \<le> start \<or> start + tcount ?t \<le> rs")
    case True
    then show ?thesis using TBranch.prems part_none [of re start "summaries ?t" rs]
      apply (subst runs_returns, subst locate_leaf_by_monotone_summary_inner.simps)
      apply (simp only: add option.case measure_of_simps if_P [OF True] seq_simps returns_simps)
      by (auto simp: partition_post_def)
  next
    case False
    show ?thesis
    proof (cases "rs \<le> start \<and> start + tcount ?t \<le> re")
      case True
      then have pt: "part (summaries ?t) start rs re = summaries ?t" using part_all [of rs start "summaries ?t" re] by simp
      have c: "combinable (grow d taken (summaries ?t))" using TBranch.prems(4) pt by simp
      have tr: "(rs \<le> start \<and> start + tcount ?t \<le> re) = True" using True by simp
      show ?thesis
        apply (subst runs_returns, subst locate_leaf_by_monotone_summary_inner.simps)
        apply (simp only: add option.case measure_of_simps if_not_P [OF False] tr Let_def returns_simps(3))
        apply (rule runs_mono [OF runs_test [OF TBranch.prems(1,2) c TBranch.prems(6,7)]])
        subgoal for go v
          using descend [of v True, unfolded returns_simps(3)] pt by (cases go) (auto simp: partition_post_def)
        done
    next
      case part: False
      have tr: "(rs \<le> start \<and> start + tcount ?t \<le> re) = False" using part by simp
      show ?thesis
        apply (subst runs_returns, subst locate_leaf_by_monotone_summary_inner.simps)
        apply (simp only: add option.case measure_of_simps if_not_P [OF False] tr Let_def returns_simps(3) partition_test_def if_False runs_simps)
        using descend [of u False, unfolded returns_simps(3)] TBranch.prems(6,7) by simp
    qed
  qed
qed

end

end
