(* ===== verification/Flark_Sequence_Calls.thy ===== *)
theory Flark_Sequence_Calls
  imports Flark_Sequence_Joins Flark_Sequence_Walks
begin

text \<open>
  The public calls of \<^verbatim>\<open>measured_sequence.rs\<close> on a stored tree, each from the lemmas of its loop.
\<close>

lemma runs_partitioning:
  "runs (\<lambda>e u. E e (fst u)) m (t, None) (\<lambda>x u. Q x (fst u)) \<Longrightarrow> runs E (partitioning m) t Q"
  by (erule runsE) (simp_all add: runs_def partitioning_def)

context measured_spec
begin

lemma runs_locate_leaf:
  assumes inv: "arena_inv R a" and t: "holds sp a t" "small (tsum t)"
  shows "runs refusing (locate_leaf_with_prefix sp a (Some (troot t)) n) i
     (\<lambda>x _. x = (if n < tcount t then Some (located_at sp [] t n n) else None))"
  unfolding locate_leaf_with_prefix_def
  by (rule runs_uncached, rule runs_mono [OF runs_locate_shared [OF inv t]]) simp_all

lemma runs_locate_containing:
  assumes inv: "arena_inv R a" and t: "holds sp a t" "small (tsum t)" and m: "additive_metric metric"
  shows "runs refusing (locate_leaf_containing_metric sp a (Some (troot t)) position metric) i
     (\<lambda>x _. if position < metric (tsum t)
        then \<exists>k. holds_position metric (summaries t) position k \<and> x = Some (located_at sp [] t k k) else x = None)"
  unfolding locate_leaf_containing_metric_def locate_leaf_containing_metric_shared_def option.case
proof (rule runs_uncached, rule runs_bind [OF runs_node_shared [OF inv t(1) cache_sound_none]], goal_cases)
  case (1 x u)
  show ?case
  proof (cases "position < metric (tsum t)")
    case True
    have "runs refusing (locate_metric_loop mem sp a metric (theight t) (troot t) (measure_of t) position 0 (fold_summaries sp [])) u
      (\<lambda>x u. \<exists>k. holds_position metric (summaries t) position k \<and> x = Some (located_at sp [] t k (0 + k)) \<and> cache_sound sp a u)" for mem
      by (rule runs_locate_metric [OF inv m, where earlier = "[]"]) (use 1 True holds_count [OF t(1)] descends_root [OF t] in simp_all)
    from this [of "\<lambda>_. True"]
    have "runs refusing (locate_metric_loop (\<lambda>_. True) sp a metric (theight t) (troot t) (measure_of t) position 0 None) u
      (\<lambda>x u. \<exists>k. holds_position metric (summaries t) position k \<and> x = Some (located_at sp [] t k k))"
      unfolding fold_summaries.simps add_0 by (rule runs_mono) blast
    then show ?thesis using 1 True by simp
  qed (use 1 in simp)
qed

lemma runs_partition_leaf:
  assumes inv: "arena_inv R a" and t: "holds sp a t" "small (tsum t)" and b: "rs < re" "re \<le> tcount t"
  shows "runs refusing (locate_leaf_by_monotone_summary sp a (Some (troot t)) rs re d (\<lambda>s. Inr (p s))) i
     (\<lambda>x _. case x of None \<Rightarrow> not_crossed p (part (summaries t) 0 rs re) | Some y \<Rightarrow> stops_at d p [] t 0 rs re y)"
proof -
  have g: "\<forall>s\<in>set (summaries t). good s" using leaves_good [OF t(1)] by (auto simp: summaries_def)
  have f: "fold_summaries sp (summaries t) = Some (tsum t)" by (rule fold_held [OF t])
  obtain xs ys where xy: "summaries t = xs @ part (summaries t) 0 rs re @ ys" using part_infix [of "summaries t"] by blast
  have "combinable (xs @ part (summaries t) 0 rs re @ ys)" using g f t(2) unfolding xy [symmetric] by (auto simp: combinable_def)
  then have c: "combinable (grow d [] (part (summaries t) 0 rs re))" using combinable_append by (metis grow_list_simps(4))
  have nc: "not_crossed p []" by (simp add: not_crossed_def)
  show ?thesis unfolding locate_leaf_by_monotone_summary_def locate_leaf_by_monotone_summary_shared_def
    using b
  proof (simp, intro runs_uncached runs_bind [OF runs_node_shared [OF inv t(1) cache_sound_none]], goal_cases)
    case (1 x u)
    have "runs refusing (locate_leaf_by_monotone_summary_inner mem sp a rs re d (\<lambda>s. Inr (p s)) (troot t) (measure_of t) 0) (u, None)
        (partition_post a d p [] t 0 rs re)" for mem
      by (rule runs_partition [OF inv]) (use 1 t c nc holds_count [OF t(1)] in simp_all)
    then have "runs refusing (partitioning (locate_leaf_by_monotone_summary_inner mem sp a rs re d (\<lambda>s. Inr (p s)) (troot t) (measure_of t) 0)) u
        (\<lambda>x _. case x of None \<Rightarrow> not_crossed p (part (summaries t) 0 rs re) | Some y \<Rightarrow> stops_at d p [] t 0 rs re y)" for mem
      by (intro runs_partitioning, rule runs_mono) (auto simp: partition_post_def split: option.splits)
    from this [of "\<lambda>_. True"] show ?case using 1 b by simp
  qed
qed

end

end
