(* ===== verification/Flark_Sequence_Builder.thy ===== *)
theory Flark_Sequence_Builder
  imports Flark_Sequence_Edit
begin

text \<open>
  The resumable join and the resumable builder of \<^verbatim>\<open>flark_engine/src/measured_sequence.rs\<close>, which a caller polls one
  allocation at a time, and its typed seals and committed roots. A poll runs on the arena, the receipt and the structure polled, and keeps
  whatever it had changed when it fails. A typed root is the owner it wraps, a typed seal the arena's seal while it is armed.
\<close>

subsection \<open>Vectors\<close>

text \<open>
  A \<^verbatim>\<open>Vec\<close> with its capacity, because the code checks that it stays what was reserved. A push on a full one grows it
  as the standard library does.
\<close>

record 'a vector =
  items :: "'a list"
  capacity :: nat

definition vec_push :: "'a \<Rightarrow> 'a vector \<Rightarrow> 'a vector" where
  "vec_push x v = \<lparr>items = items v @ [x],
     capacity = (if length (items v) < capacity v then capacity v else max 4 (max (2 * capacity v) (length (items v) + 1)))\<rparr>"

definition vec_pop :: "'a vector \<Rightarrow> ('a \<times> 'a vector) option" where
  "vec_pop v = (if items v = [] then None else Some (last (items v), v\<lparr>items := butlast (items v)\<rparr>))"

text \<open>
  What the allocator and the compiler fix: the capacity an empty vector has after \<^verbatim>\<open>try_reserve_exact\<close>, and the sizes in bytes of
  an element of the bins, of the tasks and of the values.
\<close>

record scratch_layout =
  reserved_room :: "nat \<Rightarrow> nat"
  option_bytes :: nat
  task_bytes :: nat
  owner_bytes :: nat

definition saturating_mul :: "nat \<Rightarrow> nat \<Rightarrow> nat" where
  "saturating_mul x y = min (x * y) (2 ^ 64 - 1)"

definition saturating_sum :: "nat \<Rightarrow> nat \<Rightarrow> nat" where
  "saturating_sum x y = min (x + y) (2 ^ 64 - 1)"

subsection \<open>Running on a structure beside the arena\<close>

text \<open>A check of the structure, a change of it, and an operation that reads it first.\<close>

definition ensuring :: "'e \<Rightarrow> ('u \<Rightarrow> bool) \<Rightarrow> ('t \<times> 'u, 'e, unit) seq_run" where
  "ensuring e p t = (if p (snd t) then Some (Inr (), t) else Some (Inl e, t))"

definition altering :: "('u \<Rightarrow> 'u) \<Rightarrow> ('t \<times> 'u, 'e, unit) seq_run" where
  "altering f t = Some (Inr (), fst t, f (snd t))"

definition seeing :: "('u \<Rightarrow> ('t \<times> 'u, 'e, 'a) seq_run) \<Rightarrow> ('t \<times> 'u, 'e, 'a) seq_run" where
  "seeing k t = k (snd t) t"

subsection \<open>The resumable join\<close>

datatype sequence_progress = ProgressPending | ProgressComplete

datatype join_task =
    TaskJoin arena_build_owner arena_build_owner
  | TaskBalance arena_build_owner arena_build_owner
  | TaskBalanceWithLeft arena_build_owner
  | TaskBalanceWithRight arena_build_owner
  | TaskMakeBranch arena_build_owner arena_build_owner
  | TaskMakeBranchWithLeft arena_build_owner
  | TaskMakeBranchWithRight arena_build_owner
  | TaskMakeBranchFromValues

record sequence_join =
  sj_tasks :: "join_task vector"
  sj_values :: "arena_build_owner vector"
  sj_task_capacity :: nat
  sj_value_capacity :: nat

type_synonym ('e, 'a) join_run = "(edit_state \<times> sequence_join, 'e, 'a) seq_run"

definition join_scratch_bytes :: "scratch_layout \<Rightarrow> sequence_join \<Rightarrow> nat" where
  "join_scratch_bytes ly j = saturating_sum (saturating_mul (capacity (sj_tasks j)) (task_bytes ly))
     (saturating_mul (capacity (sj_values j)) (owner_bytes ly))"

definition note_join :: "scratch_layout \<Rightarrow> sequence_join \<Rightarrow> mutation_receipt \<Rightarrow> mutation_receipt" where
  "note_join ly j r = r\<lparr>maximum_join_tasks := max (maximum_join_tasks r) (length (items (sj_tasks j))),
     maximum_join_values := max (maximum_join_values r) (length (items (sj_values j))),
     reserved_scratch_bytes := max (reserved_scratch_bytes r) (join_scratch_bytes ly j)\<rparr>"

definition record_join :: "scratch_layout \<Rightarrow> ('e, unit) join_run" where
  "record_join ly = seeing (\<lambda>j. seq_on_fst (noting (note_join ly j)))"

definition join_try_new :: "(alloc_request \<Rightarrow> bool) \<Rightarrow> scratch_layout \<Rightarrow> ('s, 'e) sequence_spec \<Rightarrow> ('e, sequence_join) edit" where
  "join_try_new mem ly sp =
     (let task_slots = MAX_SEQUENCE_AVL_HEIGHT + 4 in
      if \<not> mem (JoinTasks task_slots) then seq_err (invalid sp ''sequence join task reservation failed'')
      else if \<not> mem (JoinValues 2) then seq_err (invalid sp ''sequence join value reservation failed'')
      else let join = \<lparr>sj_tasks = \<lparr>items = [], capacity = reserved_room ly task_slots\<rparr>,
             sj_values = \<lparr>items = [], capacity = reserved_room ly 2\<rparr>,
             sj_task_capacity = reserved_room ly task_slots, sj_value_capacity = reserved_room ly 2\<rparr>
        in seq_do (noting (note_join ly join)) (\<lambda>_. seq_ok join))"

definition require_fixed_capacity :: "('s, 'e) sequence_spec \<Rightarrow> ('e, unit) join_run" where
  "require_fixed_capacity sp = ensuring (invalid sp ''sequence join scratch capacity changed'')
     (\<lambda>j. capacity (sj_tasks j) = sj_task_capacity j \<and> capacity (sj_values j) = sj_value_capacity j)"

definition require_idle :: "('s, 'e) sequence_spec \<Rightarrow> ('e, unit) join_run" where
  "require_idle sp =
     seq_do (require_fixed_capacity sp) (\<lambda>_.
     ensuring (invalid sp ''sequence join is already active'') (\<lambda>j. items (sj_tasks j) = [] \<and> items (sj_values j) = []))"

definition push_task :: "('s, 'e) sequence_spec \<Rightarrow> join_task \<Rightarrow> ('e, unit) join_run" where
  "push_task sp task =
     seq_do (ensuring (invalid sp ''sequence join exceeded its task bound'') (\<lambda>j. length (items (sj_tasks j)) < sj_task_capacity j)) (\<lambda>_.
     altering (\<lambda>j. j\<lparr>sj_tasks := vec_push task (sj_tasks j)\<rparr>))"

definition push_value :: "('s, 'e) sequence_spec \<Rightarrow> arena_build_owner \<Rightarrow> ('e, unit) join_run" where
  "push_value sp owner =
     seq_do (ensuring (invalid sp ''sequence join exceeded its value bound'') (\<lambda>j. length (items (sj_values j)) < sj_value_capacity j)) (\<lambda>_.
     altering (\<lambda>j. j\<lparr>sj_values := vec_push owner (sj_values j)\<rparr>))"

text \<open>The last value, or the error; \<^verbatim>\<open>take_root\<close> pops under its own message.\<close>

definition pop_value_or :: "'e \<Rightarrow> ('e, arena_build_owner) join_run" where
  "pop_value_or e t = (case vec_pop (sj_values (snd t)) of
     None \<Rightarrow> Some (Inl e, t) | Some (x, v) \<Rightarrow> Some (Inr x, fst t, (snd t)\<lparr>sj_values := v\<rparr>))"

definition pop_value :: "('s, 'e) sequence_spec \<Rightarrow> ('e, arena_build_owner) join_run" where
  "pop_value sp = pop_value_or (invalid sp ''sequence join continuation lost its value'')"

definition join_begin :: "scratch_layout \<Rightarrow> ('s, 'e) sequence_spec \<Rightarrow> arena_build_id \<Rightarrow> arena_build_owner \<Rightarrow> arena_build_owner \<Rightarrow>
    ('e, unit) join_run" where
  "join_begin ly sp session left right =
     seq_do (require_idle sp) (\<lambda>_.
     seq_do (seq_on_fst (check_owner sp session left)) (\<lambda>_.
     seq_do (seq_on_fst (check_owner sp session right)) (\<lambda>_.
     seq_do (seq_on_fst (owner_height sp session left)) (\<lambda>left_height.
     seq_do (seq_on_fst (owner_height sp session right)) (\<lambda>right_height.
     if max left_height right_height > MAX_SEQUENCE_AVL_HEIGHT then seq_err (invalid sp ''sequence join exceeds its height bound'')
     else seq_do (push_task sp (TaskJoin left right)) (\<lambda>_. record_join ly))))))"

definition schedule_join :: "(alloc_request \<Rightarrow> bool) \<Rightarrow> ('s, 'e) sequence_spec \<Rightarrow> arena_build_id \<Rightarrow> arena_build_owner \<Rightarrow>
    arena_build_owner \<Rightarrow> ('e, unit) join_run" where
  "schedule_join mem sp session left right =
     seq_do (seq_on_fst (visit_node sp)) (\<lambda>_.
     seq_do (seq_on_fst (owner_height sp session left)) (\<lambda>left_height.
     seq_do (seq_on_fst (owner_height sp session right)) (\<lambda>right_height.
     if left_height > one_above right_height then
       seq_do (seq_on_fst (decompose_branch mem sp session left)) (\<lambda>(outer, inner).
       seq_do (push_task sp (TaskBalanceWithLeft outer)) (\<lambda>_.
       push_task sp (TaskJoin inner right)))
     else if right_height > one_above left_height then
       seq_do (seq_on_fst (decompose_branch mem sp session right)) (\<lambda>(inner, outer).
       seq_do (push_task sp (TaskBalanceWithRight outer)) (\<lambda>_.
       push_task sp (TaskJoin left inner)))
     else push_task sp (TaskMakeBranch left right))))"

definition schedule_balance :: "(alloc_request \<Rightarrow> bool) \<Rightarrow> ('s, 'e) sequence_spec \<Rightarrow> arena_build_id \<Rightarrow> arena_build_owner \<Rightarrow>
    arena_build_owner \<Rightarrow> ('e, unit) join_run" where
  "schedule_balance mem sp session left right =
     seq_do (seq_on_fst (owner_height sp session left)) (\<lambda>left_height.
     seq_do (seq_on_fst (owner_height sp session right)) (\<lambda>right_height.
     if left_height > one_above right_height then
       seq_do (seq_on_fst (decompose_branch mem sp session left)) (\<lambda>(left_left, left_right).
       seq_do (seq_on_fst (owner_height sp session left_right)) (\<lambda>inner_height.
       seq_do (seq_on_fst (owner_height sp session left_left)) (\<lambda>outer_height.
       if inner_height > outer_height then
         seq_do (seq_on_fst (decompose_branch mem sp session left_right)) (\<lambda>(pivot_left, pivot_right).
         seq_do (push_task sp TaskMakeBranchFromValues) (\<lambda>_.
         seq_do (push_task sp (TaskMakeBranch pivot_right right)) (\<lambda>_.
         push_task sp (TaskMakeBranch left_left pivot_left))))
       else
         seq_do (push_task sp (TaskMakeBranchWithLeft left_left)) (\<lambda>_.
         push_task sp (TaskMakeBranch left_right right)))))
     else if right_height > one_above left_height then
       seq_do (seq_on_fst (decompose_branch mem sp session right)) (\<lambda>(right_left, right_right).
       seq_do (seq_on_fst (owner_height sp session right_left)) (\<lambda>inner_height.
       seq_do (seq_on_fst (owner_height sp session right_right)) (\<lambda>outer_height.
       if inner_height > outer_height then
         seq_do (seq_on_fst (decompose_branch mem sp session right_left)) (\<lambda>(pivot_left, pivot_right).
         seq_do (push_task sp TaskMakeBranchFromValues) (\<lambda>_.
         seq_do (push_task sp (TaskMakeBranch pivot_right right_right)) (\<lambda>_.
         push_task sp (TaskMakeBranch left pivot_left))))
       else
         seq_do (push_task sp (TaskMakeBranchWithRight right_right)) (\<lambda>_.
         push_task sp (TaskMakeBranch left right_left)))))
     else push_task sp (TaskMakeBranch left right)))"

text \<open>A branch over two owners, whose owner becomes a value.\<close>

definition branch_value :: "(alloc_request \<Rightarrow> bool) \<Rightarrow> ('s, 'e) sequence_spec \<Rightarrow> arena_build_id \<Rightarrow> arena_build_owner \<Rightarrow>
    arena_build_owner \<Rightarrow> ('e, unit) join_run" where
  "branch_value mem sp session left right =
     seq_do (seq_on_fst (make_branch mem sp session left right)) (\<lambda>branch. push_value sp branch)"

fun execute_task :: "(alloc_request \<Rightarrow> bool) \<Rightarrow> ('s, 'e) sequence_spec \<Rightarrow> arena_build_id \<Rightarrow> join_task \<Rightarrow> ('e, unit) join_run" where
  "execute_task mem sp session (TaskJoin left right) = schedule_join mem sp session left right"
| "execute_task mem sp session (TaskBalance left right) = schedule_balance mem sp session left right"
| "execute_task mem sp session (TaskBalanceWithLeft left) = seq_do (pop_value sp) (\<lambda>right. push_task sp (TaskBalance left right))"
| "execute_task mem sp session (TaskBalanceWithRight right) = seq_do (pop_value sp) (\<lambda>left. push_task sp (TaskBalance left right))"
| "execute_task mem sp session (TaskMakeBranch left right) = branch_value mem sp session left right"
| "execute_task mem sp session (TaskMakeBranchWithLeft left) = seq_do (pop_value sp) (\<lambda>right. branch_value mem sp session left right)"
| "execute_task mem sp session (TaskMakeBranchWithRight right) = seq_do (pop_value sp) (\<lambda>left. branch_value mem sp session left right)"
| "execute_task mem sp session TaskMakeBranchFromValues =
     seq_do (pop_value sp) (\<lambda>right. seq_do (pop_value sp) (\<lambda>left. branch_value mem sp session left right))"

definition join_done :: "sequence_join \<Rightarrow> bool" where
  "join_done j \<longleftrightarrow> items (sj_tasks j) = [] \<and> length (items (sj_values j)) = 1"

definition join_poll :: "(alloc_request \<Rightarrow> bool) \<Rightarrow> scratch_layout \<Rightarrow> ('s, 'e) sequence_spec \<Rightarrow> arena_build_id \<Rightarrow>
    ('e, sequence_progress) join_run" where
  "join_poll mem ly sp session =
     seq_do (require_fixed_capacity sp) (\<lambda>_. seeing (\<lambda>j.
     case vec_pop (sj_tasks j) of
       None \<Rightarrow> if length (items (sj_values j)) = 1 then seq_ok ProgressComplete
               else seq_err (invalid sp ''sequence join has no complete value'')
     | Some (task, rest) \<Rightarrow>
         seq_do (altering (\<lambda>j. j\<lparr>sj_tasks := rest\<rparr>)) (\<lambda>_.
         seq_do (execute_task mem sp session task) (\<lambda>_.
         seq_do (require_fixed_capacity sp) (\<lambda>_.
         seq_do (record_join ly) (\<lambda>_.
         seeing (\<lambda>j. seq_ok (if join_done j then ProgressComplete else ProgressPending))))))))"

definition join_take_root :: "('s, 'e) sequence_spec \<Rightarrow> ('e, arena_build_owner) join_run" where
  "join_take_root sp =
     seq_do (ensuring (invalid sp ''sequence join is incomplete'') join_done) (\<lambda>_.
     pop_value_or (invalid sp ''sequence join lost its root''))"

subsection \<open>The resumable builder\<close>

record sequence_reduction =
  sr_next_bin :: nat
  sr_root :: "arena_build_owner option"
  sr_joining :: bool

record sequence_builder =
  sb_build :: arena_build_id
  sb_bins :: "arena_build_owner option vector"
  sb_bin_capacity :: nat
  sb_carry :: "(arena_build_owner \<times> nat) option"
  sb_reduction :: "sequence_reduction option"
  sb_join :: sequence_join
  sb_poisoned :: bool

type_synonym ('e, 'a) build_run = "(edit_state \<times> sequence_builder, 'e, 'a) seq_run"

definition on_join :: "('e, 'a) join_run \<Rightarrow> ('e, 'a) build_run" where
  "on_join m t = (case m (fst t, sb_join (snd t)) of
     None \<Rightarrow> None | Some (r, e, j) \<Rightarrow> Some (r, e, (snd t)\<lparr>sb_join := j\<rparr>))"

definition live_bins :: "sequence_builder \<Rightarrow> nat" where
  "live_bins b = length (filter (\<lambda>bin. bin \<noteq> None) (items (sb_bins b))) + (if sb_carry b = None then 0 else 1)"

definition note_builder :: "scratch_layout \<Rightarrow> sequence_builder \<Rightarrow> mutation_receipt \<Rightarrow> mutation_receipt" where
  "note_builder ly b r = note_join ly (sb_join b)
     (r\<lparr>maximum_live_bins := max (maximum_live_bins r) (live_bins b),
        reserved_scratch_bytes := max (reserved_scratch_bytes r)
          (saturating_sum (saturating_mul (capacity (sb_bins b)) (option_bytes ly)) (join_scratch_bytes ly (sb_join b)))\<rparr>)"

definition record_scratch :: "scratch_layout \<Rightarrow> ('e, unit) build_run" where
  "record_scratch ly = seeing (\<lambda>b. seq_on_fst (noting (note_builder ly b)))"

definition builder_try_new :: "(alloc_request \<Rightarrow> bool) \<Rightarrow> scratch_layout \<Rightarrow> ('s, 'e) sequence_spec \<Rightarrow> arena_build_id \<Rightarrow>
    ('e, sequence_builder) edit" where
  "builder_try_new mem ly sp session =
     seq_do (reserve_owners mem sp session MAX_SEQUENCE_BUILDER_OWNER_RESERVATION) (\<lambda>_.
     if \<not> mem (BinSlots MAX_SEQUENCE_BIN_SLOTS) then seq_err (invalid sp ''sequence bin reservation failed'')
     else seq_do (join_try_new mem ly sp) (\<lambda>join.
       let builder = \<lparr>sb_build = session, sb_bins = \<lparr>items = [], capacity = reserved_room ly MAX_SEQUENCE_BIN_SLOTS\<rparr>,
             sb_bin_capacity = reserved_room ly MAX_SEQUENCE_BIN_SLOTS, sb_carry = None, sb_reduction = None,
             sb_join = join, sb_poisoned = False\<rparr>
       in seq_do (noting (note_builder ly builder)) (\<lambda>_. seq_ok builder)))"

definition require_session :: "('s, 'e) sequence_spec \<Rightarrow> arena_build_id \<Rightarrow> ('e, unit) build_run" where
  "require_session sp session =
     seq_do (ensuring (invalid sp ''sequence builder is poisoned'') (\<lambda>b. \<not> sb_poisoned b)) (\<lambda>_.
     seq_do (seeing (\<lambda>b. seq_on_fst (reading sp (\<lambda>a. Some (validate_key a session (sb_build b)))))) (\<lambda>_.
     ensuring (invalid sp ''sequence bin capacity changed'') (\<lambda>b. capacity (sb_bins b) = sb_bin_capacity b)))"

definition begin_push :: "scratch_layout \<Rightarrow> ('s, 'e) sequence_spec \<Rightarrow> arena_build_id \<Rightarrow> arena_build_owner \<Rightarrow> ('e, unit) build_run" where
  "begin_push ly sp session leaf =
     seq_do (require_session sp session) (\<lambda>_.
     seq_do (ensuring (invalid sp ''sequence operation is already active'') (\<lambda>b. sb_carry b = None \<and> sb_reduction b = None)) (\<lambda>_.
     seq_do (seq_on_fst (check_owner sp session leaf)) (\<lambda>_.
     seq_do (seq_on_fst (node_of_owner sp leaf)) (\<lambda>node.
     case dn_kind node of
       NodeBranch _ _ _ _ \<Rightarrow> seq_err (invalid sp ''sequence input is not a leaf'')
     | NodeLeaf \<Rightarrow>
         seq_do (seq_on_fst (counting (invalid sp ''sequence leaf count overflow'') (\<lambda>r. checked_add (leaves_adopted r) 1)
           (\<lambda>n r. r\<lparr>leaves_adopted := n\<rparr>))) (\<lambda>_.
         seq_do (altering (\<lambda>b. b\<lparr>sb_carry := Some (leaf, 0)\<rparr>)) (\<lambda>_.
         record_scratch ly))))))"

text \<open>The closure of a poll: the builder is poisoned while it runs and stays so when it fails.\<close>

definition poisoning :: "('e, 'a) build_run \<Rightarrow> ('e, 'a) build_run" where
  "poisoning m =
     seq_do (altering (\<lambda>b. b\<lparr>sb_poisoned := True\<rparr>)) (\<lambda>_.
     seq_do m (\<lambda>x.
     seq_do (altering (\<lambda>b. b\<lparr>sb_poisoned := False\<rparr>)) (\<lambda>_. seq_ok x)))"

definition set_bin :: "nat \<Rightarrow> arena_build_owner option \<Rightarrow> sequence_builder \<Rightarrow> sequence_builder" where
  "set_bin level x b = b\<lparr>sb_bins := (sb_bins b)\<lparr>items := (items (sb_bins b))[level := x]\<rparr>\<rparr>"

text \<open>The carry placed at its level, or merged with the bin there; an index out of range panics.\<close>

definition place_carry :: "(alloc_request \<Rightarrow> bool) \<Rightarrow> scratch_layout \<Rightarrow> ('s, 'e) sequence_spec \<Rightarrow> arena_build_id \<Rightarrow> arena_build_owner \<Rightarrow>
    nat \<Rightarrow> ('e, sequence_progress) build_run" where
  "place_carry mem ly sp session owner level =
     seq_do (seq_on_fst (check_owner sp session owner)) (\<lambda>_. seeing (\<lambda>b.
     if level = length (items (sb_bins b)) then
       if length (items (sb_bins b)) \<ge> MAX_SEQUENCE_BIN_SLOTS then seq_err (invalid sp ''sequence exceeded its u64 leaf domain'')
       else seq_do (altering (\<lambda>b. b\<lparr>sb_bins := vec_push (Some owner) (sb_bins b)\<rparr>)) (\<lambda>_.
            seq_do (record_scratch ly) (\<lambda>_. seq_ok ProgressComplete))
     else if level > length (items (sb_bins b)) then (\<lambda>_. None)
     else case items (sb_bins b) ! level of
       None \<Rightarrow> seq_do (altering (set_bin level (Some owner))) (\<lambda>_.
               seq_do (record_scratch ly) (\<lambda>_. seq_ok ProgressComplete))
     | Some left \<Rightarrow>
         seq_do (altering (set_bin level None)) (\<lambda>_.
         seq_do (seq_on_fst (make_branch mem sp session left owner)) (\<lambda>branch.
         seq_do (altering (\<lambda>b. b\<lparr>sb_carry := Some (branch, level + 1)\<rparr>)) (\<lambda>_.
         seq_do (record_scratch ly) (\<lambda>_. seq_ok ProgressPending))))))"

definition poll_push :: "(alloc_request \<Rightarrow> bool) \<Rightarrow> scratch_layout \<Rightarrow> ('s, 'e) sequence_spec \<Rightarrow> arena_build_id \<Rightarrow>
    ('e, sequence_progress) build_run" where
  "poll_push mem ly sp session =
     seq_do (require_session sp session) (\<lambda>_.
     seq_do (ensuring (invalid sp ''sequence finalization already started'') (\<lambda>b. sb_reduction b = None)) (\<lambda>_.
     seeing (\<lambda>b. case sb_carry b of
       None \<Rightarrow> seq_ok ProgressComplete
     | Some (owner, level) \<Rightarrow>
         seq_do (altering (\<lambda>b. b\<lparr>sb_carry := None\<rparr>)) (\<lambda>_. poisoning (place_carry mem ly sp session owner level)))))"

text \<open>The bins from the highest, without the empty ones; the first gives the root.\<close>

definition begin_finish :: "scratch_layout \<Rightarrow> ('s, 'e) sequence_spec \<Rightarrow> arena_build_id \<Rightarrow> ('e, unit) build_run" where
  "begin_finish ly sp session =
     seq_do (require_session sp session) (\<lambda>_.
     seq_do (ensuring (invalid sp ''sequence push is still pending'') (\<lambda>b. sb_carry b = None)) (\<lambda>_.
     seq_do (ensuring (invalid sp ''sequence finalization already started'') (\<lambda>b. sb_reduction b = None)) (\<lambda>_.
     seq_do (altering (\<lambda>b. b\<lparr>sb_bins := (sb_bins b)\<lparr>items := filter (\<lambda>bin. bin \<noteq> None) (rev (items (sb_bins b)))\<rparr>\<rparr>)) (\<lambda>_.
     seeing (\<lambda>b. case items (sb_bins b) of
       Some root # _ \<Rightarrow>
         seq_do (altering (\<lambda>b. (set_bin 0 None b)\<lparr>sb_reduction := Some \<lparr>sr_next_bin = 1, sr_root = Some root, sr_joining = False\<rparr>\<rparr>)) (\<lambda>_.
         record_scratch ly)
     | _ \<Rightarrow> seq_err (invalid sp ''cannot finish an empty sequence''))))))"

definition set_reduction :: "sequence_reduction \<Rightarrow> sequence_builder \<Rightarrow> sequence_builder" where
  "set_reduction d b = b\<lparr>sb_reduction := Some d\<rparr>"

text \<open>A poll of the join in progress.\<close>

definition poll_joining :: "(alloc_request \<Rightarrow> bool) \<Rightarrow> scratch_layout \<Rightarrow> ('s, 'e) sequence_spec \<Rightarrow> arena_build_id \<Rightarrow>
    ('e, sequence_progress) build_run" where
  "poll_joining mem ly sp session =
     seq_do (on_join (join_poll mem ly sp session)) (\<lambda>progress.
     seq_do (if progress = ProgressComplete then
               seq_do (on_join (join_take_root sp)) (\<lambda>root. seeing (\<lambda>b.
               case sb_reduction b of
                 None \<Rightarrow> seq_err (invalid sp ''sequence reduction disappeared'')
               | Some d \<Rightarrow> altering (set_reduction (d\<lparr>sr_root := Some root, sr_joining := False\<rparr>))))
             else seq_ok ()) (\<lambda>_.
     seq_do (record_scratch ly) (\<lambda>_. seq_ok ProgressPending)))"

text \<open>The next bin joined to the root; an index out of range panics.\<close>

definition poll_reducing :: "scratch_layout \<Rightarrow> ('s, 'e) sequence_spec \<Rightarrow> arena_build_id \<Rightarrow> ('e, sequence_progress) build_run" where
  "poll_reducing ly sp session = seeing (\<lambda>b.
     case sb_reduction b of
       None \<Rightarrow> seq_err (invalid sp ''sequence finalization has not started'')
     | Some d \<Rightarrow>
         if sr_next_bin d = length (items (sb_bins b)) then seq_ok ProgressComplete
         else case sr_root d of
           None \<Rightarrow> seq_err (invalid sp ''sequence reduction lost its root'')
         | Some left \<Rightarrow>
             seq_do (altering (set_reduction (d\<lparr>sr_root := None\<rparr>))) (\<lambda>_.
             if sr_next_bin d > length (items (sb_bins b)) then (\<lambda>_. None)
             else case items (sb_bins b) ! sr_next_bin d of
               None \<Rightarrow> seq_err (invalid sp ''sequence reduction lost a bin root'')
             | Some right \<Rightarrow>
                 seq_do (altering (\<lambda>b. set_reduction (d\<lparr>sr_root := None, sr_next_bin := sr_next_bin d + 1\<rparr>) (set_bin (sr_next_bin d) None b))) (\<lambda>_.
                 seq_do (on_join (join_begin ly sp session left right)) (\<lambda>_.
                 seq_do (altering (set_reduction (d\<lparr>sr_root := None, sr_next_bin := sr_next_bin d + 1, sr_joining := True\<rparr>))) (\<lambda>_.
                 seq_do (record_scratch ly) (\<lambda>_. seq_ok ProgressPending))))))"

definition poll_finish :: "(alloc_request \<Rightarrow> bool) \<Rightarrow> scratch_layout \<Rightarrow> ('s, 'e) sequence_spec \<Rightarrow> arena_build_id \<Rightarrow>
    ('e, sequence_progress) build_run" where
  "poll_finish mem ly sp session =
     seq_do (require_session sp session) (\<lambda>_. seeing (\<lambda>b.
     case sb_reduction b of
       None \<Rightarrow> seq_err (invalid sp ''sequence finalization has not started'')
     | Some d \<Rightarrow> poisoning (if sr_joining d then poll_joining mem ly sp session else poll_reducing ly sp session)))"

definition builder_take_root :: "('s, 'e) sequence_spec \<Rightarrow> arena_build_id \<Rightarrow> ('e, arena_build_owner) build_run" where
  "builder_take_root sp session =
     seq_do (require_session sp session) (\<lambda>_. seeing (\<lambda>b.
     case sb_reduction b of
       None \<Rightarrow> seq_err (invalid sp ''sequence finalization has not started'')
     | Some d \<Rightarrow>
         if sr_next_bin d \<noteq> length (items (sb_bins b)) \<or> sr_joining d then seq_err (invalid sp ''sequence finalization is incomplete'')
         else poisoning (
           seq_do (altering (\<lambda>b. b\<lparr>sb_reduction := None\<rparr>)) (\<lambda>_.
           case sr_root d of
             None \<Rightarrow> seq_err (invalid sp ''sequence finalization lost its root'')
           | Some owner \<Rightarrow>
               seq_do (seq_on_fst (check_owner sp session owner)) (\<lambda>_.
               seq_do (altering (\<lambda>b. b\<lparr>sb_bins := (sb_bins b)\<lparr>items := []\<rparr>\<rparr>)) (\<lambda>_.
               seq_ok owner))))))"

subsection \<open>Typed seals and committed roots\<close>

text \<open>A build root read while its build is active; a failed seal hands the build and the root back.\<close>

definition build_root_ref :: "page_arena \<Rightarrow> arena_build_id \<Rightarrow> arena_build_owner \<Rightarrow> arena_id option arena_result option" where
  "build_root_ref a session root = also_ok (validate_owner a session root) (Some (Inr (Some (ow_id root))))"

definition begin_measured_sequence_seal :: "page_arena \<Rightarrow> arena_build_id \<Rightarrow> arena_build_owner \<Rightarrow>
    (((arena_error \<times> arena_build_id \<times> arena_build_owner) + candidate_seal option) \<times> page_arena) option" where
  "begin_measured_sequence_seal a build root =
     map_option (\<lambda>(r, a). (case r of Inl failure \<Rightarrow> Inl failure | Inr seal \<Rightarrow> Inr (Some seal), a)) (begin_seal a build root)"

definition poll_measured_sequence_seal :: "page_arena \<Rightarrow> candidate_seal option \<Rightarrow> nat \<Rightarrow>
    ((nat \<times> arena_id option) arena_result \<times> candidate_seal option \<times> page_arena) option" where
  "poll_measured_sequence_seal a s fuel =
     (case s of
        None \<Rightarrow> Some (Inl StaleBuild, None, a)
      | Some seal \<Rightarrow> (case poll_seal a seal fuel of
          None \<Rightarrow> None
        | Some (Inl e, seal', a') \<Rightarrow> Some (Inl e, Some seal', a')
        | Some (Inr (transitions, root), seal', a') \<Rightarrow>
            Some (Inr (transitions, root), if root = None then Some seal' else None, a')))"

text \<open>A failed abort hands the seal back; once validated it must not fail.\<close>

definition abort_measured_sequence_seal :: "page_arena \<Rightarrow> candidate_seal option \<Rightarrow>
    (((arena_error \<times> candidate_seal option) + unit) \<times> page_arena) option" where
  "abort_measured_sequence_seal a s =
     (case s of
        None \<Rightarrow> Some (Inl (StaleBuild, None), a)
      | Some seal \<Rightarrow> (case validate_seal a seal of
          Inl e \<Rightarrow> Some (Inl (e, Some seal), a)
        | Inr _ \<Rightarrow> (case abort_seal a seal of
            Some (Inr _, a') \<Rightarrow> Some (Inr (), a')
          | _ \<Rightarrow> None)))"

text \<open>A committed root is its handle while it is owned; releasing one that was transferred panics.\<close>

definition release_measured_sequence_root :: "page_arena \<Rightarrow> arena_id option \<Rightarrow>
    (((arena_error \<times> arena_id option) + unit) \<times> page_arena) option" where
  "release_measured_sequence_root a root =
     (case root of
        None \<Rightarrow> None
      | Some h \<Rightarrow> map_option (\<lambda>(r, a). (case r of Inl (e, h) \<Rightarrow> Inl (e, Some h) | Inr u \<Rightarrow> Inr u, a)) (release_committed_root a h))"

end
