(* ===== verification/Flark_Sequence_Polls.thy ===== *)
theory Flark_Sequence_Polls
  imports Flark_Sequence_Joins Flark_Sequence_Builder
begin

text \<open>
  The resumable join of \<^verbatim>\<open>measured_sequence.rs\<close> on the trees a session owns. Its tasks are a stack machine: a task run on any stack leaves
  the tasks below it alone and puts one tree on the values, after a number of polls bounded by the height of the trees.
\<close>

subsection \<open>Polling\<close>

text \<open>
  A number of polls of the join is enough to come to \<open>Q\<close>, or one of them fails, whatever happens to the receipt between them; every poll
  is made on an arena that has only moved as a mutation moves it.
\<close>

primrec settles :: "arena_id multiset \<Rightarrow> page_arena \<Rightarrow> ('e \<Rightarrow> edit_state \<times> sequence_join \<Rightarrow> bool) \<Rightarrow> ('e, sequence_progress) join_run \<Rightarrow> nat \<Rightarrow>
    edit_state \<times> sequence_join \<Rightarrow> (edit_state \<times> sequence_join \<Rightarrow> bool) \<Rightarrow> bool" where
  "settles R a0 E poll 0 t Q = Q t"
| "settles R a0 E poll (Suc n) t Q = (Q t \<or> (since R a0 (fst (fst t)) \<and>
     runs E poll t (\<lambda>_ u. \<forall>r. settles R a0 E poll n ((fst (fst u), r), snd u) Q)))"

lemma settles_now: "Q t \<Longrightarrow> settles R a0 E poll n t Q"
  by (cases n) simp_all

lemma settles_more: "settles R a0 E poll n t Q \<Longrightarrow> settles R a0 E poll (n + m) t Q"
proof (induction n arbitrary: t)
  case (Suc n)
  then have "Q t \<or> (since R a0 (fst (fst t)) \<and> runs E poll t (\<lambda>_ u. \<forall>r. settles R a0 E poll (n + m) ((fst (fst u), r), snd u) Q))"
    unfolding settles.simps by (elim disjE conjE) (blast, intro disjI2 conjI, assumption, erule runs_mono, blast)
  then show ?case by simp
qed (simp add: settles_now)

lemma settles_mono: "settles R a0 E poll n t Q \<Longrightarrow> (\<And>u. Q u \<Longrightarrow> Q' u) \<Longrightarrow> settles R a0 E poll n t Q'"
proof (induction n arbitrary: t)
  case (Suc n)
  then have "Q' t \<or> (since R a0 (fst (fst t)) \<and> runs E poll t (\<lambda>_ u. \<forall>r. settles R a0 E poll n ((fst (fst u), r), snd u) Q'))"
    unfolding settles.simps by (elim disjE conjE) (blast, intro disjI2 conjI, assumption, erule runs_mono, blast)
  then show ?case by simp
qed simp

lemma settles_le: "settles R a0 E poll n t Q \<Longrightarrow> n \<le> m \<Longrightarrow> settles R a0 E poll m t Q"
  using settles_more [of R a0 E poll n t Q "m - n"] by simp

lemma settles_trans: "settles R a0 E poll n t P \<Longrightarrow> (\<And>u. P u \<Longrightarrow> settles R a0 E poll m u Q) \<Longrightarrow> settles R a0 E poll (n + m) t Q"
proof (induction n arbitrary: t)
  case (Suc n)
  show ?case
  proof (cases "P t")
    case True
    have "settles R a0 E poll (m + Suc n) t Q" by (rule settles_more [OF Suc.prems(2) [OF True]])
    then show ?thesis by (simp only: add.commute)
  next
    case False
    then have i: "since R a0 (fst (fst t))" and r: "runs E poll t (\<lambda>_ u. \<forall>r. settles R a0 E poll n ((fst (fst u), r), snd u) P)"
      using Suc.prems(1) by simp_all
    have "runs E poll t (\<lambda>_ u. \<forall>r. settles R a0 E poll (n + m) ((fst (fst u), r), snd u) Q)"
      by (rule runs_mono [OF r]) (use Suc.IH Suc.prems(2) in blast)
    then show ?thesis using i by simp
  qed
qed simp

text \<open>A number of polls is enough to be told that the work is complete, in a state of \<open>Q\<close>.\<close>

primrec completes :: "('e \<Rightarrow> 't \<Rightarrow> bool) \<Rightarrow> ('t, 'e, sequence_progress) seq_run \<Rightarrow> nat \<Rightarrow> 't \<Rightarrow> ('t \<Rightarrow> bool) \<Rightarrow> bool" where
  "completes E poll 0 t Q = False"
| "completes E poll (Suc n) t Q = runs E poll t (\<lambda>p u. if p = ProgressComplete then Q u else completes E poll n u Q)"

lemma completes_mono: "completes E poll n t Q \<Longrightarrow> (\<And>u. Q u \<Longrightarrow> Q' u) \<Longrightarrow> completes E poll n t Q'"
proof (induction n arbitrary: t)
  case (Suc n)
  show ?case unfolding completes.simps
    by (rule runs_mono [OF Suc.prems(1) [unfolded completes.simps]]) (use Suc.IH Suc.prems(2) in \<open>auto split: if_splits\<close>)
qed simp

lemma completes_le: "completes E poll n t Q \<Longrightarrow> n \<le> m \<Longrightarrow> completes E poll m t Q"
proof (induction n arbitrary: t m)
  case (Suc n)
  obtain k where k: "m = Suc k" "n \<le> k" using Suc.prems(2) by (cases m) auto
  show ?case unfolding k(1) completes.simps
    by (rule runs_mono [OF Suc.prems(1) [unfolded completes.simps]]) (use Suc.IH k(2) in \<open>auto split: if_splits\<close>)
qed simp

subsection \<open>Running beside the arena\<close>

lemma runs_seeing [simp]: "runs E (seeing k) t Q \<longleftrightarrow> runs E (k (snd t)) t Q"
  by (simp add: runs_def seeing_def)

lemma runs_altering [simp]: "runs E (altering f) t Q \<longleftrightarrow> Q () (fst t, f (snd t))"
  by (simp add: runs_def altering_def)

lemma runs_ensuring [simp]: "runs E (ensuring e p) t Q \<longleftrightarrow> (if p (snd t) then Q () t else E e t)"
  by (cases t) (simp add: runs_def ensuring_def)

text \<open>An operation on the arena, then the rest.\<close>

lemma beside:
  assumes "runs (\<lambda>e u. E e (u, s)) m u P" "\<And>x v. P x v \<Longrightarrow> runs E (k x) (v, s) Q"
  shows "runs E (seq_do (seq_on_fst m) k) (u, s) Q"
  by (rule runs_do, rule runs_on_fst) (use runs_mono [OF assms(1), of "\<lambda>x v. runs E (k x) (v, s) Q"] assms(2) in simp)

lemma beside_noting: "runs E (k ()) ((fst u, f (snd u)), s) Q \<Longrightarrow> runs E (seq_do (seq_on_fst (noting f)) k) (u, s) Q"
  by (rule beside [where P = "\<lambda>_ v. v = (fst u, f (snd u))"]) simp_all

subsection \<open>The state of the join\<close>

text \<open>The join with its capacities as they were reserved.\<close>

definition join_at :: "nat \<Rightarrow> nat \<Rightarrow> join_task list \<Rightarrow> arena_build_owner list \<Rightarrow> sequence_join" where
  "join_at c d ts vs = \<lparr>sj_tasks = \<lparr>items = ts, capacity = c\<rparr>, sj_values = \<lparr>items = vs, capacity = d\<rparr>, sj_task_capacity = c, sj_value_capacity = d\<rparr>"

lemma join_at_simps [simp]:
  "items (sj_tasks (join_at c d ts vs)) = ts" "items (sj_values (join_at c d ts vs)) = vs"
  "capacity (sj_tasks (join_at c d ts vs)) = c" "capacity (sj_values (join_at c d ts vs)) = d"
  "sj_task_capacity (join_at c d ts vs) = c" "sj_value_capacity (join_at c d ts vs) = d"
  "join_done (join_at c d ts vs) \<longleftrightarrow> ts = [] \<and> length vs = 1"
  by (simp_all add: join_at_def join_done_def)

lemma vec_simps [simp]:
  "length xs < c \<Longrightarrow> vec_push x \<lparr>items = xs, capacity = c\<rparr> = \<lparr>items = xs @ [x], capacity = c\<rparr>"
  "vec_pop \<lparr>items = xs @ [x], capacity = c\<rparr> = Some (x, \<lparr>items = xs, capacity = c\<rparr>)"
  "vec_pop \<lparr>items = [], capacity = c\<rparr> = None"
  by (simp_all add: vec_push_def vec_pop_def)

lemma join_at_update [simp]:
  "(join_at c d ts vs)\<lparr>sj_tasks := \<lparr>items = ts', capacity = c\<rparr>\<rparr> = join_at c d ts' vs"
  "(join_at c d ts vs)\<lparr>sj_values := \<lparr>items = vs', capacity = d\<rparr>\<rparr> = join_at c d ts vs'"
  "sj_tasks (join_at c d ts vs) = \<lparr>items = ts, capacity = c\<rparr>" "sj_values (join_at c d ts vs) = \<lparr>items = vs, capacity = d\<rparr>"
  by (simp_all add: join_at_def)

lemma runs_fixed [simp]: "runs E (require_fixed_capacity sp) (u, join_at c d ts vs) Q \<longleftrightarrow> Q () (u, join_at c d ts vs)"
  by (simp add: require_fixed_capacity_def)

lemma runs_push_task [simp]:
  "length ts < c \<Longrightarrow> runs E (push_task sp x) (u, join_at c d ts vs) Q \<longleftrightarrow> Q () (u, join_at c d (ts @ [x]) vs)"
  by (simp add: push_task_def runs_do_iff)

lemma runs_push_value [simp]:
  "length vs < d \<Longrightarrow> runs E (push_value sp x) (u, join_at c d ts vs) Q \<longleftrightarrow> Q () (u, join_at c d ts (vs @ [x]))"
  by (simp add: push_value_def runs_do_iff)

lemma runs_pop_value [simp]: "runs E (pop_value_or e) (u, join_at c d ts (vs @ [x])) Q \<longleftrightarrow> Q x (u, join_at c d ts vs)"
  "runs E (pop_value_or e) (u, join_at c d ts [x]) Q \<longleftrightarrow> Q x (u, join_at c d ts [])"
  using vec_simps(2) [of "[]" x d] by (simp_all add: pop_value_or_def runs_def)

lemma runs_record_join: "(\<And>v. fst v = fst u \<Longrightarrow> Q () (v, j)) \<Longrightarrow> runs E (record_join ly) (u, j) Q"
  unfolding record_join_def by simp (rule runs_on_fst, simp)

text \<open>A poll runs the last task.\<close>

lemma runs_poll_task:
  assumes "runs E (execute_task mem sp i x) (u, join_at c d ts vs)
     (\<lambda>_ t. \<exists>ts vs. snd t = join_at c d ts vs \<and> (\<forall>v p. fst v = fst (fst t) \<longrightarrow> (p = ProgressComplete \<longleftrightarrow> join_done (snd t)) \<longrightarrow> Q p (v, snd t)))"
  shows "runs E (join_poll mem ly sp i) (u, join_at c d (ts @ [x]) vs) Q"
proof -
  have "runs E (seq_do (execute_task mem sp i x) (\<lambda>_. seq_do (require_fixed_capacity sp) (\<lambda>_. seq_do (record_join ly) (\<lambda>_.
      seeing (\<lambda>j. seq_ok (if join_done j then ProgressComplete else ProgressPending)))))) (u, join_at c d ts vs) Q"
  proof (rule runs_bind [OF assms], elim exE conjE, goal_cases)
    case (1 y t ts' vs')
    then obtain w where t: "t = (w, join_at c d ts' vs')" by (cases t) simp
    show ?case unfolding t
      by (rule runs_do, simp, rule runs_do, rule runs_record_join) (use 1(2) t in auto)
  qed
  then show ?thesis by (simp add: join_poll_def runs_do_iff)
qed

text \<open>The rest of the polls after a task.\<close>

definition goes_on :: "arena_id multiset \<Rightarrow> page_arena \<Rightarrow> ('e \<Rightarrow> edit_state \<times> sequence_join \<Rightarrow> bool) \<Rightarrow> ('e, sequence_progress) join_run \<Rightarrow> nat \<Rightarrow>
    nat \<Rightarrow> nat \<Rightarrow> (edit_state \<times> sequence_join \<Rightarrow> bool) \<Rightarrow> edit_state \<times> sequence_join \<Rightarrow> bool" where
  "goes_on R a0 E poll n c d Q t \<longleftrightarrow> (\<exists>ts vs. snd t = join_at c d ts vs \<and> (\<forall>r. settles R a0 E poll n ((fst (fst t), r), snd t) Q))"

lemma goes_onI: "(\<And>v. fst v = fst w \<Longrightarrow> settles R a0 E poll n (v, join_at c d ts vs) Q) \<Longrightarrow> goes_on R a0 E poll n c d Q (w, join_at c d ts vs)"
  unfolding goes_on_def by (rule exI [of _ ts], rule exI [of _ vs]) simp

lemma settles_task:
  assumes "since R a0 (fst u)" "runs E (execute_task mem sp i x) (u, join_at c d ts vs) (\<lambda>_. goes_on R a0 E (join_poll mem ly sp i) n c d Q)"
  shows "settles R a0 E (join_poll mem ly sp i) (Suc n) (u, join_at c d (ts @ [x]) vs) Q"
proof -
  have "runs E (join_poll mem ly sp i) (u, join_at c d (ts @ [x]) vs)
      (\<lambda>_ t. \<forall>r. settles R a0 E (join_poll mem ly sp i) n ((fst (fst t), r), snd t) Q)"
    by (rule runs_poll_task, rule runs_mono [OF assms(2)]) (auto simp: goes_on_def)
  then show ?thesis using assms(1) by simp
qed

lemmas settles_task1 = settles_task [where n = 0, folded One_nat_def]

lemma runs_pop_two: "runs E (pop_value_or e) (u, join_at c d ts [x, y]) Q \<longleftrightarrow> Q y (u, join_at c d ts [x])"
  using runs_pop_value(1) [of E e u c d ts "[x]" y Q] by simp

context measured_spec
begin

abbreviation jspoils :: "arena_id multiset \<Rightarrow> page_arena \<Rightarrow> 'e \<Rightarrow> edit_state \<times> 'x \<Rightarrow> bool" where
  "jspoils R a0 \<equiv> \<lambda>e t. spoils R a0 e (fst t)"

lemma beside_height:
  assumes h: "held R i (fst u) T F" and s: "since R a0 (fst u)" and t: "t \<in># T"
    and k: "\<And>v. since R a0 (fst v) \<Longrightarrow> held R i (fst v) T F \<Longrightarrow> runs (jspoils R a0) (k (theight t)) (v, j) Q"
  shows "runs (jspoils R a0) (seq_do (seq_on_fst (owner_height sp i (own i t))) k) (u, j) Q"
  by (rule beside [where P = "\<lambda>x v. x = theight t \<and> fst v = fst u"])
    (use runs_owner_height [OF heldD(1) [OF h] t s] k h s in auto)

lemma beside_decompose:
  assumes h: "held R i (fst u) M F" and s: "since R a0 (fst u)" and m: "M = add_mset (TBranch g x l r) T"
    and k: "\<And>v. since R a0 (fst v) \<Longrightarrow> held R i (fst v) (add_mset l (add_mset r T)) F \<Longrightarrow>
      runs (jspoils R a0) (k (own i l, own i r)) (v, j) Q"
  shows "runs (jspoils R a0) (seq_do (seq_on_fst (decompose_branch mem sp i (own i (TBranch g x l r)))) k) (u, j) Q"
  by (rule beside [where P = "\<lambda>x v. x = (own i l, own i r) \<and> since R a0 (fst v) \<and> held R i (fst v) (add_mset l (add_mset r T)) F"])
    (use runs_decompose [OF h [unfolded m] s] k in auto)

lemma beside_make:
  assumes h: "held R i (fst u) M F" and s: "since R a0 (fst u)" and m: "M = add_mset l (add_mset r T)"
    and b: "theight l \<le> theight r + 1" "theight r \<le> theight l + 1"
    and k: "\<And>v g x. since R a0 (fst v) \<Longrightarrow> held R i (fst v) (add_mset (TBranch g x l r) T) F \<Longrightarrow>
      runs (jspoils R a0) (k (own i (TBranch g x l r))) (v, j) Q"
  shows "runs (jspoils R a0) (seq_do (seq_on_fst (make_branch mem sp i (own i l) (own i r))) k) (u, j) Q"
  by (rule beside [where P = "\<lambda>y v. \<exists>g x. y = own i (TBranch g x l r) \<and> since R a0 (fst v) \<and> held R i (fst v) (add_mset (TBranch g x l r) T) F"])
    (use runs_make_branch [OF h [unfolded m] s b] k in auto)

lemma beside_visit:
  assumes h: "held R i (fst u) T F" and s: "since R a0 (fst u)"
    and k: "\<And>v. since R a0 (fst v) \<Longrightarrow> held R i (fst v) T F \<Longrightarrow> runs (jspoils R a0) (k ()) (v, j) Q"
  shows "runs (jspoils R a0) (seq_do (seq_on_fst (visit_node sp)) k) (u, j) Q"
  by (rule beside [where P = "\<lambda>_ v. fst v = fst u"]) (use runs_visit_node_count [OF s] k h s in auto)

subsection \<open>The tasks\<close>

text \<open>A tree over the leaves \<open>ls\<close>, of a height in \<open>H\<close>, has become the last value, and the tasks \<open>ts\<close> are left.\<close>

definition joined :: "arena_id multiset \<Rightarrow> arena_build_id \<Rightarrow> page_arena \<Rightarrow> nat \<Rightarrow> nat \<Rightarrow> (arena_id \<times> 's) list \<Rightarrow> nat set \<Rightarrow> 's seq_tree multiset \<Rightarrow>
    arena_id multiset \<Rightarrow> join_task list \<Rightarrow> arena_build_owner list \<Rightarrow> edit_state \<times> sequence_join \<Rightarrow> bool" where
  "joined R i a0 c d ls H T F ts vs t \<longleftrightarrow> (\<exists>x v. t = (v, join_at c d ts (vs @ [own i x])) \<and> tleaves x = ls \<and> theight x \<in> H \<and>
     since R a0 (fst v) \<and> held R i (fst v) (add_mset x T) F)"

lemma joinedI:
  "since R a0 (fst v) \<Longrightarrow> held R i (fst v) M F \<Longrightarrow> M = add_mset x T \<Longrightarrow> tleaves x = ls \<Longrightarrow> theight x \<in> H \<Longrightarrow>
   joined R i a0 c d ls H T F ts vs (v, join_at c d ts (vs @ [own i x]))"
  by (auto simp: joined_def)

lemma joinedE:
  assumes "joined R i a0 c d ls H T F ts vs t"
  obtains x v where "t = (v, join_at c d ts (vs @ [own i x]))" "tleaves x = ls" "theight x \<in> H" "since R a0 (fst v)" "held R i (fst v) (add_mset x T) F"
  using assms by (auto simp: joined_def)

abbreviation settling :: "(alloc_request \<Rightarrow> bool) \<Rightarrow> scratch_layout \<Rightarrow> arena_build_id \<Rightarrow> arena_id multiset \<Rightarrow> page_arena \<Rightarrow> nat \<Rightarrow>
    edit_state \<times> sequence_join \<Rightarrow> (edit_state \<times> sequence_join \<Rightarrow> bool) \<Rightarrow> bool" where
  "settling mem ly i R a0 \<equiv> settles R a0 (jspoils R a0) (join_poll mem ly sp i)"

lemma settles_joined:
  assumes j: "settling mem ly i R a0 n t (joined R i a0 c d ls H T F ts vs)"
    and k: "\<And>x v. since R a0 (fst v) \<Longrightarrow> held R i (fst v) (add_mset x T) F \<Longrightarrow> tleaves x = ls \<Longrightarrow> theight x \<in> H \<Longrightarrow>
      settling mem ly i R a0 m (v, join_at c d ts (vs @ [own i x])) Q"
  shows "settling mem ly i R a0 (n + m) t Q"
  by (rule settles_trans [OF j], erule joinedE) (use k in simp)

lemma joined_mono: "joined R i a0 c d ls H T F ts vs t \<Longrightarrow> ls = ls' \<Longrightarrow> H \<subseteq> H' \<Longrightarrow> joined R i a0 c d ls' H' T F ts vs t"
  by (auto simp: joined_def)

lemma runs_branch_value:
  assumes h: "held R i (fst u) M F" and s: "since R a0 (fst u)" and m: "M = add_mset l (add_mset r T)"
    and b: "theight l \<le> theight r + 1" "theight r \<le> theight l + 1" and n: "length vs < d"
  shows "runs (jspoils R a0) (branch_value mem sp i (own i l) (own i r)) (u, join_at c d ts vs)
     (\<lambda>_. goes_on R a0 (jspoils R a0) (join_poll mem ly sp i) 0 c d (joined R i a0 c d (tleaves l @ tleaves r) {max (theight l) (theight r) + 1} T F ts vs))"
  unfolding branch_value_def
  by (rule beside_make [OF h s m b]) (use n in \<open>auto intro!: goes_onI joinedI [OF _ _ refl]\<close>)

lemma settles_make:
  assumes "held R i (fst u) M F" "since R a0 (fst u)" "M = add_mset l (add_mset r T)" "theight l \<le> theight r + 1" "theight r \<le> theight l + 1"
    and n: "length vs < d" "1 < d"
  shows "settling mem ly i R a0 1 (u, join_at c d (ts @ [TaskMakeBranch (own i l) (own i r)]) vs)
      (joined R i a0 c d (tleaves l @ tleaves r) {max (theight l) (theight r) + 1} T F ts vs)"
    and "settling mem ly i R a0 1 (u, join_at c d (ts @ [TaskMakeBranchWithLeft (own i l)]) [own i r])
      (joined R i a0 c d (tleaves l @ tleaves r) {max (theight l) (theight r) + 1} T F ts [])"
    and "settling mem ly i R a0 1 (u, join_at c d (ts @ [TaskMakeBranchWithRight (own i r)]) [own i l])
      (joined R i a0 c d (tleaves l @ tleaves r) {max (theight l) (theight r) + 1} T F ts [])"
    and "settling mem ly i R a0 1 (u, join_at c d (ts @ [TaskMakeBranchFromValues]) [own i l, own i r])
      (joined R i a0 c d (tleaves l @ tleaves r) {max (theight l) (theight r) + 1} T F ts [])"
  by - (rule settles_task1 [OF assms(2)], simp only: execute_task.simps pop_value_def runs_do_iff runs_pop_two runs_pop_value(2),
    rule runs_branch_value [OF assms(1-5)], use n in simp)+

text \<open>The branches of a double and of a single rotation.\<close>

lemma settles_double:
  assumes h: "held R i (fst u) M F" and s: "since R a0 (fst u)" and m: "M = add_mset a (add_mset b (add_mset p (add_mset q T)))"
    and l: "theight a \<le> theight b + 1" "theight b \<le> theight a + 1" and r: "theight p \<le> theight q + 1" "theight q \<le> theight p + 1"
    and e: "max (theight a) (theight b) \<le> max (theight p) (theight q) + 1" "max (theight p) (theight q) \<le> max (theight a) (theight b) + 1"
    and d: "1 < d"
  shows "settling mem ly i R a0 3
     (u, join_at c d (ts @ [TaskMakeBranchFromValues, TaskMakeBranch (own i p) (own i q), TaskMakeBranch (own i a) (own i b)]) [])
     (joined R i a0 c d (tleaves a @ tleaves b @ tleaves p @ tleaves q) {max (max (theight a) (theight b)) (max (theight p) (theight q)) + 2} T F ts [])"
proof -
  have three: "(3 :: nat) = 1 + (1 + 1)" by simp
  have t: "ts @ [x, y, z] = (ts @ [x, y]) @ [z]" "ts @ [x, y] = (ts @ [x]) @ [y]" for x y z :: join_task by simp_all
  show ?thesis unfolding three t(1)
  proof (rule settles_joined [OF settles_make(1) [OF h s m l]], use d in simp, use d in simp, goal_cases)
    case (1 x v)
    have x: "add_mset x (add_mset p (add_mset q T)) = add_mset p (add_mset q (add_mset x T))" by (rule add_mset_rotate)
    show ?case unfolding t(2) append_Nil
    proof (rule settles_joined [OF settles_make(1) [OF 1(2,1) x r]], use d in simp, use d in simp, goal_cases)
      case (1 y w)
      note xy = 1 and x = \<open>tleaves x = _\<close> \<open>theight x \<in> _\<close>
      show ?case unfolding append_Cons append_Nil
        by (rule settles_mono [OF settles_make(4) [OF 1(2,1) add_mset_commute _ _ _ d, of "[]"]])
          (use xy x e d in \<open>auto elim!: joined_mono\<close>)
    qed
  qed
qed

lemma settles_single:
  assumes h: "held R i (fst u) M F" and s: "since R a0 (fst u)" and m: "M = add_mset a (add_mset b (add_mset p T))"
    and l: "theight a \<le> theight b + 1" "theight b \<le> theight a + 1"
    and e: "theight p \<le> max (theight a) (theight b) + 2" "max (theight a) (theight b) \<le> theight p" and d: "1 < d"
  shows "settling mem ly i R a0 3 (u, join_at c d (ts @ [TaskMakeBranchWithLeft (own i p), TaskMakeBranch (own i a) (own i b)]) [])
     (joined R i a0 c d (tleaves p @ tleaves a @ tleaves b) {max (theight p) (max (theight a) (theight b) + 1) + 1} T F ts [])"
    and "settling mem ly i R a0 3 (u, join_at c d (ts @ [TaskMakeBranchWithRight (own i p), TaskMakeBranch (own i a) (own i b)]) [])
     (joined R i a0 c d (tleaves a @ tleaves b @ tleaves p) {max (theight p) (max (theight a) (theight b) + 1) + 1} T F ts [])"
proof -
  have two: "(3 :: nat) = 1 + 2" by simp
  have t: "ts @ [x, y] = (ts @ [x]) @ [y]" for x y :: join_task by simp
  show "settling mem ly i R a0 3 (u, join_at c d (ts @ [TaskMakeBranchWithLeft (own i p), TaskMakeBranch (own i a) (own i b)]) [])
     (joined R i a0 c d (tleaves p @ tleaves a @ tleaves b) {max (theight p) (max (theight a) (theight b) + 1) + 1} T F ts [])"
    unfolding two t
  proof (rule settles_joined [OF settles_make(1) [OF h s m l]], use d in simp, use d in simp, goal_cases)
    case (1 x v)
    show ?case unfolding append_Nil
      by (rule settles_le [OF settles_mono [OF settles_make(2) [OF 1(2,1) add_mset_commute _ _ _ d, of "[]"]], where m = 2])
        (use 1 e d in \<open>auto elim!: joined_mono\<close>)
  qed
  show "settling mem ly i R a0 3 (u, join_at c d (ts @ [TaskMakeBranchWithRight (own i p), TaskMakeBranch (own i a) (own i b)]) [])
     (joined R i a0 c d (tleaves a @ tleaves b @ tleaves p) {max (theight p) (max (theight a) (theight b) + 1) + 1} T F ts [])"
    unfolding two t
  proof (rule settles_joined [OF settles_make(1) [OF h s m l]], use d in simp, use d in simp, goal_cases)
    case (1 x v)
    show ?case unfolding append_Nil
      by (rule settles_le [OF settles_mono [OF settles_make(3) [OF 1(2,1) refl _ _ _ d, of "[]"]], where m = 2])
        (use 1 e d in \<open>auto elim!: joined_mono simp: max_def split: if_splits\<close>)
  qed
qed

text \<open>Balancing two trees takes four polls at most.\<close>

lemma settles_balance_left:
  assumes h: "held R i (fst u) (add_mset l (add_mset r T)) F" and s: "since R a0 (fst u)" and e: "theight l = theight r + 2"
    and n: "length ts + 3 \<le> c" "1 < d"
  shows "settling mem ly i R a0 4 (u, join_at c d (ts @ [TaskBalance (own i l) (own i r)]) [])
     (joined R i a0 c d (tleaves l @ tleaves r) (balance_heights l r) T F ts [])"
proof -
  have hl: "holds sp (fst u) l" "holds sp (fst u) r" using heldD(3) [OF h] by simp_all
  note up = above_held [OF hl(1)] above_held [OF hl(2)]
  obtain g x ll lr where l: "l = TBranch g x ll lr" using tall_branch [of l] e by auto
  note b = holds_balanced [OF hl(1), unfolded l tbalanced.simps] e [unfolded l theight.simps]
  have gt: "one_above (theight r) < theight l" using e up by simp
  have four: "(4 :: nat) = Suc 3" by simp
  note start = beside_height [OF h [unfolded l] s] gt [unfolded l] and decomposed = beside_decompose [OF _ _ refl]
  show ?thesis
  proof (cases "theight ll < theight lr")
    case True
    then obtain g' x' pl pr where lr: "lr = TBranch g' x' pl pr" using tall_branch [of lr] b theight_pos [of r] by fastforce
    note c = b [unfolded lr tbalanced.simps theight.simps] True [unfolded lr theight.simps]
    have f: "theight ll = theight r" "theight pl \<le> theight r" "theight pr \<le> theight r" "theight r \<le> theight pl + 1" "theight r \<le> theight pr + 1"
        "theight pl \<le> theight pr + 1" "theight pr \<le> theight pl + 1" using c by linarith+
    show ?thesis unfolding l four
      apply (rule settles_task [OF s], simp only: execute_task.simps schedule_balance_def)
      apply (rule start(1), simp, rule beside_height, assumption, assumption, simp, simp only: start(2) if_True)
      apply (rule decomposed, assumption, assumption, simp only: prod.case)
      apply (rule beside_height, assumption, assumption, simp, rule beside_height, assumption, assumption, simp)
      apply (simp only: True [unfolded lr] if_True lr)
      apply (rule beside_decompose, assumption, assumption, rule add_mset_commute, simp only: prod.case)
      using n apply (simp add: runs_do_iff del: One_nat_def)
      apply (rule goes_onI, rule settles_mono)
       apply (rule settles_double [where M = "add_mset pl (add_mset pr (add_mset ll (add_mset r T)))" and a = ll and b = pl and p = pr and q = r and T = T])
      by (simp, simp, simp add: add_mset_commute, (use f in \<open>(simp; fail)\<close>)+, use n in simp, erule joined_mono, simp, use f in \<open>simp add: balance_heights_def join_heights_def max_def\<close>)
  next
    case False
    have f: "theight ll = theight r + 1" "theight r \<le> theight lr" "theight lr \<le> theight r + 1" using b False by linarith+
    show ?thesis unfolding l four
      apply (rule settles_task [OF s], simp only: execute_task.simps schedule_balance_def)
      apply (rule start(1), simp, rule beside_height, assumption, assumption, simp, simp only: start(2) if_True)
      apply (rule decomposed, assumption, assumption, simp only: prod.case)
      apply (rule beside_height, assumption, assumption, simp, rule beside_height, assumption, assumption, simp)
      apply (simp only: False if_False)
      using n apply (simp add: runs_do_iff del: One_nat_def)
      apply (rule goes_onI, rule settles_mono)
       apply (rule settles_single(1) [where M = "add_mset ll (add_mset lr (add_mset r T))" and p = ll and a = lr and b = r and T = T])
      by (simp, simp, simp add: add_mset_commute, (use f in \<open>(simp; fail)\<close>)+, use n in simp, erule joined_mono, simp, use f in \<open>simp add: balance_heights_def join_heights_def max_def\<close>)
  qed
qed

lemma settles_balance_right:
  assumes h: "held R i (fst u) (add_mset l (add_mset r T)) F" and s: "since R a0 (fst u)" and e: "theight r = theight l + 2"
    and n: "length ts + 3 \<le> c" "1 < d"
  shows "settling mem ly i R a0 4 (u, join_at c d (ts @ [TaskBalance (own i l) (own i r)]) [])
     (joined R i a0 c d (tleaves l @ tleaves r) (balance_heights l r) T F ts [])"
proof -
  have hl: "holds sp (fst u) l" "holds sp (fst u) r" using heldD(3) [OF h] by simp_all
  note up = above_held [OF hl(1)] above_held [OF hl(2)]
  obtain g x rl rr where r: "r = TBranch g x rl rr" using tall_branch [of r] e by auto
  note b = holds_balanced [OF hl(2), unfolded r tbalanced.simps] e [unfolded r theight.simps]
  have gt: "\<not> one_above (theight r) < theight l" "one_above (theight l) < theight r" using e up by simp_all
  have four: "(4 :: nat) = Suc 3" by simp
  note start = beside_height [OF h [unfolded r] s] gt [unfolded r] and decomposed = beside_decompose [OF _ _ add_mset_commute]
  show ?thesis
  proof (cases "theight rr < theight rl")
    case True
    then obtain g' x' pl pr where rl: "rl = TBranch g' x' pl pr" using tall_branch [of rl] b theight_pos [of l] by fastforce
    note c = b [unfolded rl tbalanced.simps theight.simps] True [unfolded rl theight.simps]
    have f: "theight rr = theight l" "theight pl \<le> theight l" "theight pr \<le> theight l" "theight l \<le> theight pl + 1" "theight l \<le> theight pr + 1"
        "theight pl \<le> theight pr + 1" "theight pr \<le> theight pl + 1" using c by linarith+
    show ?thesis unfolding r four
      apply (rule settles_task [OF s], simp only: execute_task.simps schedule_balance_def)
      apply (rule start(1), simp, rule beside_height, assumption, assumption, simp, simp only: start(2,3) if_True if_False)
      apply (rule decomposed, assumption, assumption, simp only: prod.case)
      apply (rule beside_height, assumption, assumption, simp, rule beside_height, assumption, assumption, simp)
      apply (simp only: True [unfolded rl] if_True rl)
      apply (rule beside_decompose [OF _ _ refl], assumption, assumption, simp only: prod.case)
      using n apply (simp add: runs_do_iff del: One_nat_def)
      apply (rule goes_onI, rule settles_mono)
       apply (rule settles_double [where M = "add_mset pl (add_mset pr (add_mset rr (add_mset l T)))" and a = l and b = pl and p = pr and q = rr and T = T])
      by (simp, simp, simp add: add_mset_commute, (use f in \<open>(simp; fail)\<close>)+, use n in simp, erule joined_mono, simp, use f in \<open>simp add: balance_heights_def join_heights_def max_def\<close>)
  next
    case False
    have f: "theight rr = theight l + 1" "theight l \<le> theight rl" "theight rl \<le> theight l + 1" using b False by linarith+
    show ?thesis unfolding r four
      apply (rule settles_task [OF s], simp only: execute_task.simps schedule_balance_def)
      apply (rule start(1), simp, rule beside_height, assumption, assumption, simp, simp only: start(2,3) if_True if_False)
      apply (rule decomposed, assumption, assumption, simp only: prod.case)
      apply (rule beside_height, assumption, assumption, simp, rule beside_height, assumption, assumption, simp)
      apply (simp only: False if_False)
      using n apply (simp add: runs_do_iff del: One_nat_def)
      apply (rule goes_onI, rule settles_mono)
       apply (rule settles_single(2) [where M = "add_mset rl (add_mset rr (add_mset l T))" and p = rr and a = l and b = rl and T = T])
      by (simp, simp, simp add: add_mset_commute, (use f in \<open>(simp; fail)\<close>)+, use n in simp, erule joined_mono, simp, use f in \<open>simp add: balance_heights_def join_heights_def max_def\<close>)
  qed
qed

lemma settles_balance:
  assumes h: "held R i (fst u) (add_mset l (add_mset r T)) F" and s: "since R a0 (fst u)"
    and e: "theight l \<le> theight r + 2" "theight r \<le> theight l + 2" and n: "length ts + 3 \<le> c" "1 < d"
  shows "settling mem ly i R a0 4 (u, join_at c d (ts @ [TaskBalance (own i l) (own i r)]) [])
     (joined R i a0 c d (tleaves l @ tleaves r) (balance_heights l r) T F ts [])"
proof -
  have hl: "holds sp (fst u) l" "holds sp (fst u) r" using heldD(3) [OF h] by simp_all
  note up = above_held [OF hl(1)] above_held [OF hl(2)]
  have two: "(2 :: nat) = Suc 1" by simp
  consider "theight l \<le> theight r + 1" "theight r \<le> theight l + 1" | "theight l = theight r + 2" | "theight r = theight l + 2"
    using e by linarith
  then show ?thesis
  proof cases
    case 1
    have "settling mem ly i R a0 2 (u, join_at c d (ts @ [TaskBalance (own i l) (own i r)]) [])
      (joined R i a0 c d (tleaves l @ tleaves r) (balance_heights l r) T F ts [])" unfolding two
      apply (rule settles_task [OF s], simp only: execute_task.simps schedule_balance_def)
      apply (rule beside_height [OF h s], simp, rule beside_height, assumption, assumption, simp)
      using 1 n apply (simp add: up del: One_nat_def)
      apply (rule goes_onI, rule settles_mono, rule settles_make(1) [where l = l and r = r and T = T and F = F and M = "add_mset l (add_mset r T)"])
      using 1 n by (simp_all add: balance_heights_def)
    then show ?thesis by (rule settles_le) simp
  qed (rule settles_balance_left [OF h s _ n] settles_balance_right [OF h s _ n], assumption)+
qed

text \<open>A balance whose one side was a value takes five.\<close>

lemma settles_rebalance:
  assumes h: "held R i (fst v) (add_mset p (add_mset q T)) F" and s: "since R a0 (fst v)"
    and e: "theight p \<le> theight q + 2" "theight q \<le> theight p + 2" and n: "length ts + 3 \<le> c" "1 < d"
  shows "settling mem ly i R a0 5 (v, join_at c d (ts @ [TaskBalanceWithLeft (own i p)]) [own i q])
      (joined R i a0 c d (tleaves p @ tleaves q) (balance_heights p q) T F ts [])"
    and "settling mem ly i R a0 5 (v, join_at c d (ts @ [TaskBalanceWithRight (own i q)]) [own i p])
      (joined R i a0 c d (tleaves p @ tleaves q) (balance_heights p q) T F ts [])"
proof -
  have five: "(5 :: nat) = Suc 4" by simp
  have "settling mem ly i R a0 4 (w, join_at c d (ts @ [TaskBalance (own i p) (own i q)]) [])
      (joined R i a0 c d (tleaves p @ tleaves q) (balance_heights p q) T F ts [])" if "fst w = fst v" for w
    by (rule settles_balance [OF _ _ e n]) (use h s that in simp_all)
  note balance = goes_onI [OF this]
  show "settling mem ly i R a0 5 (v, join_at c d (ts @ [TaskBalanceWithLeft (own i p)]) [own i q])
      (joined R i a0 c d (tleaves p @ tleaves q) (balance_heights p q) T F ts [])"
    unfolding five using n balance by (intro settles_task [OF s]) (simp add: pop_value_def runs_do_iff)
  show "settling mem ly i R a0 5 (v, join_at c d (ts @ [TaskBalanceWithRight (own i q)]) [own i p])
      (joined R i a0 c d (tleaves p @ tleaves q) (balance_heights p q) T F ts [])"
    unfolding five using n balance by (intro settles_task [OF s]) (simp add: pop_value_def runs_do_iff)
qed

subsection \<open>The join\<close>

text \<open>A join of trees of different heights, from the join of its inner part.\<close>

lemma settles_join_left:
  assumes h: "held R i (fst u) (add_mset (TBranch g x ll lr) (add_mset r T)) F" and s: "since R a0 (fst u)" and big: "theight (TBranch g x ll lr) > theight r + 1"
    and n: "length ts + 3 \<le> c" "1 < d"
    and inner: "\<And>v. held R i (fst v) (add_mset lr (add_mset r (add_mset ll T))) F \<Longrightarrow> since R a0 (fst v) \<Longrightarrow>
      settling mem ly i R a0 k (v, join_at c d ((ts @ [TaskBalanceWithLeft (own i ll)]) @ [TaskJoin (own i lr) (own i r)]) [])
        (joined R i a0 c d (tleaves lr @ tleaves r) (join_heights lr r) (add_mset ll T) F (ts @ [TaskBalanceWithLeft (own i ll)]) [])"
  shows "settling mem ly i R a0 (k + 6) (u, join_at c d (ts @ [TaskJoin (own i (TBranch g x ll lr)) (own i r)]) [])
      (joined R i a0 c d (tleaves (TBranch g x ll lr) @ tleaves r) (join_heights (TBranch g x ll lr) r) T F ts [])"
proof -
  have hl: "holds sp (fst u) (TBranch g x ll lr)" "holds sp (fst u) r" by (rule heldD(3) [OF h], simp)+
  note up = above_held [OF hl(1)] above_held [OF hl(2)]
  note b = holds_balanced [OF hl(1), unfolded tbalanced.simps] big [unfolded theight.simps]
  have gt: "one_above (theight r) < theight (TBranch g x ll lr)" using big up by simp_all
  let ?J = "joined R i a0 c d (tleaves (TBranch g x ll lr) @ tleaves r) (join_heights (TBranch g x ll lr) r) T F ts []"
  have after: "settling mem ly i R a0 5 (v, join_at c d (ts @ [TaskBalanceWithLeft (own i ll)]) [own i y]) ?J"
    if y: "since R a0 (fst v)" "held R i (fst v) (add_mset y (add_mset ll T)) F" "tleaves y = tleaves lr @ tleaves r" "theight y \<in> join_heights lr r" for v y
  proof -
    have q: "theight ll \<le> theight y + 2" "theight y \<le> theight ll + 2" "balance_heights ll y \<subseteq> join_heights (TBranch g x ll lr) r"
      using b y(4) by (auto simp: balance_heights_def join_heights_def)
    have "held R i (fst v) (add_mset ll (add_mset y T)) F" using y(2) by (simp add: add_mset_commute)
    from settles_rebalance(1) [OF this y(1) q(1,2) n] show ?thesis
      by (rule settles_mono) (use y(3) q(3) in \<open>auto elim!: joined_mono\<close>)
  qed
  have "settling mem ly i R a0 (Suc (k + 5)) (u, join_at c d (ts @ [TaskJoin (own i (TBranch g x ll lr)) (own i r)]) []) ?J"
  proof (rule settles_task [OF s], simp only: execute_task.simps schedule_join_def, rule beside_visit [OF h s],
      rule beside_height, assumption, assumption, simp, rule beside_height, assumption, assumption, simp, simp only: gt if_True,
      rule beside_decompose [OF _ _ refl], assumption, assumption, goal_cases)
    case (1 v1 v2 v3 v)
    have "goes_on R a0 (jspoils R a0) (join_poll mem ly sp i) (k + 5) c d ?J (v, join_at c d ((ts @ [TaskBalanceWithLeft (own i ll)]) @ [TaskJoin (own i lr) (own i r)]) [])"
      by (rule goes_onI, rule settles_joined, rule inner) (use 1(7,8) after in \<open>simp_all add: add_mset_commute\<close>)
    then show ?case using n by (simp add: runs_do_iff)
  qed
  then show ?thesis by (simp add: add.commute)
qed

lemma settles_join_right:
  assumes h: "held R i (fst u) (add_mset l (add_mset (TBranch g x rl rr) T)) F" and s: "since R a0 (fst u)" and big: "theight (TBranch g x rl rr) > theight l + 1"
    and n: "length ts + 3 \<le> c" "1 < d"
    and inner: "\<And>v. held R i (fst v) (add_mset l (add_mset rl (add_mset rr T))) F \<Longrightarrow> since R a0 (fst v) \<Longrightarrow>
      settling mem ly i R a0 k (v, join_at c d ((ts @ [TaskBalanceWithRight (own i rr)]) @ [TaskJoin (own i l) (own i rl)]) [])
        (joined R i a0 c d (tleaves l @ tleaves rl) (join_heights l rl) (add_mset rr T) F (ts @ [TaskBalanceWithRight (own i rr)]) [])"
  shows "settling mem ly i R a0 (k + 6) (u, join_at c d (ts @ [TaskJoin (own i l) (own i (TBranch g x rl rr))]) [])
      (joined R i a0 c d (tleaves l @ tleaves (TBranch g x rl rr)) (join_heights l (TBranch g x rl rr)) T F ts [])"
proof -
  have hl: "holds sp (fst u) l" "holds sp (fst u) (TBranch g x rl rr)" by (rule heldD(3) [OF h], simp)+
  note up = above_held [OF hl(1)] above_held [OF hl(2)]
  note b = holds_balanced [OF hl(2), unfolded tbalanced.simps] big [unfolded theight.simps]
  have gt: "\<not> one_above (theight (TBranch g x rl rr)) < theight l" "one_above (theight l) < theight (TBranch g x rl rr)" using big up by simp_all
  let ?J = "joined R i a0 c d (tleaves l @ tleaves (TBranch g x rl rr)) (join_heights l (TBranch g x rl rr)) T F ts []"
  have after: "settling mem ly i R a0 5 (v, join_at c d (ts @ [TaskBalanceWithRight (own i rr)]) [own i y]) ?J"
    if y: "since R a0 (fst v)" "held R i (fst v) (add_mset y (add_mset rr T)) F" "tleaves y = tleaves l @ tleaves rl" "theight y \<in> join_heights l rl" for v y
  proof -
    have q: "theight y \<le> theight rr + 2" "theight rr \<le> theight y + 2" "balance_heights y rr \<subseteq> join_heights l (TBranch g x rl rr)"
      using b y(4) by (auto simp: balance_heights_def join_heights_def)
    have "held R i (fst v) (add_mset y (add_mset rr T)) F" using y(2) by (simp add: add_mset_commute)
    from settles_rebalance(2) [OF this y(1) q(1,2) n] show ?thesis
      by (rule settles_mono) (use y(3) q(3) in \<open>auto elim!: joined_mono\<close>)
  qed
  have "settling mem ly i R a0 (Suc (k + 5)) (u, join_at c d (ts @ [TaskJoin (own i l) (own i (TBranch g x rl rr))]) []) ?J"
  proof (rule settles_task [OF s], simp only: execute_task.simps schedule_join_def, rule beside_visit [OF h s],
      rule beside_height, assumption, assumption, simp, rule beside_height, assumption, assumption, simp, simp only: gt if_True if_False,
      rule beside_decompose [OF _ _ add_mset_commute], assumption, assumption, goal_cases)
    case (1 v1 v2 v3 v)
    have "goes_on R a0 (jspoils R a0) (join_poll mem ly sp i) (k + 5) c d ?J (v, join_at c d ((ts @ [TaskBalanceWithRight (own i rr)]) @ [TaskJoin (own i l) (own i rl)]) [])"
      by (rule goes_onI, rule settles_joined, rule inner) (use 1(7,8) after in \<open>simp_all add: add_mset_commute\<close>)
    then show ?case using n by (simp add: runs_do_iff)
  qed
  then show ?thesis by (simp add: add.commute)
qed

lemma settles_join:
  assumes "held R i (fst u) (add_mset l (add_mset r T)) F" "since R a0 (fst u)" and "length ts + max (theight l) (theight r) + 3 \<le> c" "1 < d"
  shows "settling mem ly i R a0 (6 * max (theight l) (theight r) + 2) (u, join_at c d (ts @ [TaskJoin (own i l) (own i r)]) [])
     (joined R i a0 c d (tleaves l @ tleaves r) (join_heights l r) T F ts [])"
  using assms(1-3)
proof (induction "theight l + theight r" arbitrary: l r u T ts rule: less_induct)
  case less
  have hl: "holds sp (fst u) l" "holds sp (fst u) r" using heldD(3) [OF less.prems(1)] by simp_all
  note up = above_held [OF hl(1)] above_held [OF hl(2)] and d = \<open>1 < d\<close>
  have two: "(2 :: nat) = Suc 1" by simp
  consider "theight l \<le> theight r + 1" "theight r \<le> theight l + 1" | "theight l > theight r + 1" | "theight r > theight l + 1"
    by linarith
  then show ?case
  proof cases
    case 1
    have "settling mem ly i R a0 2 (u, join_at c d (ts @ [TaskJoin (own i l) (own i r)]) [])
      (joined R i a0 c d (tleaves l @ tleaves r) (join_heights l r) T F ts [])" unfolding two
      apply (rule settles_task [OF less.prems(2)], simp only: execute_task.simps schedule_join_def)
      apply (rule beside_visit [OF less.prems(1,2)])
      apply (rule beside_height, assumption, assumption, simp, rule beside_height, assumption, assumption, simp)
      using 1 less.prems(3) apply (simp add: up del: One_nat_def)
      apply (rule goes_onI, rule settles_mono, rule settles_make(1) [where l = l and r = r and T = T and F = F and M = "add_mset l (add_mset r T)"])
      using 1 d by (auto elim!: joined_mono simp: join_heights_def)
    then show ?thesis by (rule settles_le) simp
  next
    case 2
    then obtain g x ll lr where l: "l = TBranch g x ll lr" using tall_branch [of l] by auto
    have m: "max (theight lr) (theight r) + 1 \<le> max (theight l) (theight r)" using 2 unfolding l by simp
    have "settling mem ly i R a0 (6 * max (theight lr) (theight r) + 2 + 6) (u, join_at c d (ts @ [TaskJoin (own i l) (own i r)]) [])
      (joined R i a0 c d (tleaves l @ tleaves r) (join_heights l r) T F ts [])" unfolding l
    proof (rule settles_join_left, goal_cases)
      case (6 v)
      show ?case by (rule less.hyps [OF _ 6]) (use less.prems(3) m in \<open>simp_all add: l\<close>)
    qed (use less.prems 2 d in \<open>simp_all add: l\<close>)
    then show ?thesis by (rule settles_le) (use m in simp)
  next
    case 3
    then obtain g x rl rr where r: "r = TBranch g x rl rr" using tall_branch [of r] by auto
    have m: "max (theight l) (theight rl) + 1 \<le> max (theight l) (theight r)" using 3 unfolding r by simp
    have "settling mem ly i R a0 (6 * max (theight l) (theight rl) + 2 + 6) (u, join_at c d (ts @ [TaskJoin (own i l) (own i r)]) [])
      (joined R i a0 c d (tleaves l @ tleaves r) (join_heights l r) T F ts [])" unfolding r
    proof (rule settles_join_right, goal_cases)
      case (6 v)
      show ?case by (rule less.hyps [OF _ 6]) (use less.prems(3) m in \<open>simp_all add: r\<close>)
    qed (use less.prems 3 d in \<open>simp_all add: r\<close>)
    then show ?thesis by (rule settles_le) (use m in simp)
  qed
qed

end

end
