(* ===== verification/Flark_Sequence_Builds.thy ===== *)
theory Flark_Sequence_Builds
  imports Flark_Sequence_Polls
begin

text \<open>
  The resumable builder of \<^verbatim>\<open>measured_sequence.rs\<close> on the trees a session owns. Its bins are the digits of a binary counter: the bin at a
  level is empty or holds a perfect tree of that level, and the bins read from the highest hold the leaves pushed, in their order.
\<close>

subsection \<open>Bins\<close>

primrec bin_trees :: "'s seq_tree option list \<Rightarrow> 's seq_tree list" where
  "bin_trees [] = []"
| "bin_trees (x # xs) = (case x of None \<Rightarrow> [] | Some t \<Rightarrow> [t]) @ bin_trees xs"

lemma bin_trees_append [simp]: "bin_trees (xs @ ys) = bin_trees xs @ bin_trees ys"
  by (induction xs) simp_all

lemma bin_trees_replicate [simp]: "bin_trees (replicate n None) = []"
  by (induction n) simp_all

lemma bin_trees_rev: "bin_trees (rev xs) = rev (bin_trees xs)"
  by (induction xs) (auto split: option.splits)

lemma bin_trees_filter: "filter (\<lambda>b. b \<noteq> None) (map (map_option f) xs) = map (\<lambda>t. Some (f t)) (bin_trees xs)"
  by (induction xs) (auto split: option.splits)

text \<open>A perfect tree of a level, and bins that hold only such trees, from a level up.\<close>

definition perfect :: "nat \<Rightarrow> 's seq_tree \<Rightarrow> bool" where
  "perfect k t \<longleftrightarrow> tcount t = 2 ^ k \<and> theight t = k + 1"

lemma perfect_leaf [simp]: "perfect 0 (TLeaf h s)"
  by (simp add: perfect_def)

lemma perfect_branch: "perfect k l \<Longrightarrow> perfect k r \<Longrightarrow> perfect (Suc k) (TBranch h s l r)"
  by (simp add: perfect_def)

primrec bins_ok :: "nat \<Rightarrow> 's seq_tree option list \<Rightarrow> bool" where
  "bins_ok k [] = True"
| "bins_ok k (x # xs) = ((\<forall>t. x = Some t \<longrightarrow> perfect k t) \<and> bins_ok (Suc k) xs)"

lemma bins_ok_low: "bins_ok k (replicate n None @ xs) = bins_ok (k + n) xs"
  by (induction n arbitrary: k) simp_all

definition bin_leaves :: "'s seq_tree option list \<Rightarrow> (arena_id \<times> 's) list" where
  "bin_leaves xs = concat (map tleaves (rev (bin_trees xs)))"

lemma bin_leaves_simps [simp]:
  "bin_leaves [] = []" "bin_leaves (None # xs) = bin_leaves xs" "bin_leaves (Some t # xs) = bin_leaves xs @ tleaves t"
  "bin_leaves (replicate n None @ xs) = bin_leaves xs"
  by (simp_all add: bin_leaves_def)

subsection \<open>The state of the builder\<close>

definition builder_at :: "arena_build_id \<Rightarrow> nat \<Rightarrow> arena_build_owner option list \<Rightarrow> (arena_build_owner \<times> nat) option \<Rightarrow>
    sequence_reduction option \<Rightarrow> sequence_join \<Rightarrow> bool \<Rightarrow> sequence_builder" where
  "builder_at i e bs cy rd j p = \<lparr>sb_build = i, sb_bins = \<lparr>items = bs, capacity = e\<rparr>, sb_bin_capacity = e, sb_carry = cy, sb_reduction = rd,
     sb_join = j, sb_poisoned = p\<rparr>"

lemma builder_at_simps [simp]:
  "sb_build (builder_at i e bs cy rd j p) = i" "sb_bins (builder_at i e bs cy rd j p) = \<lparr>items = bs, capacity = e\<rparr>"
  "sb_bin_capacity (builder_at i e bs cy rd j p) = e" "sb_carry (builder_at i e bs cy rd j p) = cy"
  "sb_reduction (builder_at i e bs cy rd j p) = rd" "sb_join (builder_at i e bs cy rd j p) = j" "sb_poisoned (builder_at i e bs cy rd j p) = p"
  "(builder_at i e bs cy rd j p)\<lparr>sb_poisoned := p'\<rparr> = builder_at i e bs cy rd j p'"
  "(builder_at i e bs cy rd j p)\<lparr>sb_carry := cy'\<rparr> = builder_at i e bs cy' rd j p"
  "(builder_at i e bs cy rd j p)\<lparr>sb_reduction := rd'\<rparr> = builder_at i e bs cy rd' j p"
  "(builder_at i e bs cy rd j p)\<lparr>sb_join := j'\<rparr> = builder_at i e bs cy rd j' p"
  "(builder_at i e bs cy rd j p)\<lparr>sb_bins := \<lparr>items = bs', capacity = e\<rparr>\<rparr> = builder_at i e bs' cy rd j p"
  "set_bin k x (builder_at i e bs cy rd j p) = builder_at i e (bs[k := x]) cy rd j p"
  "set_reduction d (builder_at i e bs cy rd j p) = builder_at i e bs cy (Some d) j p"
  by (simp_all add: builder_at_def set_bin_def set_reduction_def)

lemma runs_record: "(\<And>v. fst v = fst u \<Longrightarrow> Q () (v, b)) \<Longrightarrow> runs E (record_scratch ly) (u, b) Q"
  unfolding record_scratch_def by simp (rule runs_on_fst, simp)

lemma runs_then_record:
  "(\<And>v. fst v = fst u \<Longrightarrow> runs E (k ()) (v, b) Q) \<Longrightarrow> runs E (seq_do (record_scratch ly) k) (u, b) Q"
  by (rule runs_do, rule runs_record) simp

lemma runs_on_join: "runs (\<lambda>e t. E e (fst t, b\<lparr>sb_join := snd t\<rparr>)) m (u, sb_join b) (\<lambda>x t. Q x (fst t, b\<lparr>sb_join := snd t\<rparr>)) \<Longrightarrow> runs E (on_join m) (u, b) Q"
  by (erule runsE) (auto simp: runs_def on_join_def)

lemma runs_poisoning:
  assumes "runs E m (u, builder_at i e bs cy rd j True) (\<lambda>x t. Q x (fst t, (snd t)\<lparr>sb_poisoned := False\<rparr>))"
  shows "runs E (poisoning m) (u, builder_at i e bs cy rd j False) Q"
  unfolding poisoning_def by (simp add: runs_do_iff assms)

lemma runs_session:
  assumes "names (fst u) Active i" and k: "Q () (u, builder_at i e bs cy rd j False)"
  shows "runs E (require_session sp i) (u, builder_at i e bs cy rd j False) Q"
proof -
  have "validate_build (fst u) i Active = Inr ()" using assms(1) by (simp add: validate_build_names)
  then have "validate_key (fst u) i i = Inr ()" by (simp add: validate_key_def)
  then show ?thesis unfolding require_session_def
    by (simp add: runs_do_iff) (rule runs_on_fst, rule runs_reading, use k in simp_all)
qed

context measured_spec
begin

lemma after_session:
  assumes "held R i (fst u) M F" and "runs E (k ()) (u, builder_at i e bs cy rd j False) Q"
  shows "runs E (seq_do (require_session sp i) k) (u, builder_at i e bs cy rd j False) Q"
  by (rule runs_do, rule runs_session) (use assms hasD(2) [OF heldD(1)] in auto)

lemma beside_check:
  assumes h: "held R i (fst u) T F" and t: "t \<in># T" and k: "runs (\<lambda>e t. E e (fst t)) (k ()) (u, b) Q"
  shows "runs (\<lambda>e t. E e (fst t)) (seq_do (seq_on_fst (check_owner sp i (own i t))) k) (u, b) Q"
  by (rule beside [where P = "\<lambda>_ v. v = u"]) (use runs_check_owner [OF heldD(1) [OF h] t] k in auto)

lemma beside_node:
  assumes h: "held R i (fst u) T F" and s: "since R a0 (fst u)" and t: "t \<in># T"
    and k: "\<And>v. since R a0 (fst v) \<Longrightarrow> held R i (fst v) T F \<Longrightarrow> runs (jspoils R a0) (k (tnode t)) (v, b) Q"
  shows "runs (jspoils R a0) (seq_do (seq_on_fst (node_of_owner sp (own i t))) k) (u, b) Q"
  by (rule beside [where P = "\<lambda>x v. x = tnode t \<and> fst v = fst u"])
    (use runs_node_of_owner [OF heldD(1) [OF h] t s] k h s in auto)

subsection \<open>Pushing\<close>

lemma runs_begin_push:
  assumes h: "held R i (fst u) (add_mset (TLeaf g x) M) F" and s: "since R a0 (fst u)"
    and k: "\<And>v. since R a0 (fst v) \<Longrightarrow> held R i (fst v) (add_mset (TLeaf g x) M) F \<Longrightarrow>
      Q () (v, builder_at i e bs (Some (own i (TLeaf g x), 0)) None j False)"
  shows "runs (jspoils R a0) (begin_push ly sp i (own i (TLeaf g x))) (u, builder_at i e bs None None j False) Q"
  unfolding begin_push_def
proof (rule after_session [OF h], simp add: runs_do_iff [of _ "ensuring _ _"], rule beside_check [OF h], simp,
    rule beside_node [OF h s], simp, simp, goal_cases)
  case (1 v)
  show ?case
    by (rule beside [where P = "\<lambda>_ w. fst w = fst v"], rule runs_counting)
      (use 1 k in \<open>auto simp: edit_messages_def runs_do_iff intro!: edit_refusalI(2) runs_record\<close>)
qed

lemma runs_poll_push:
  assumes "held R i (fst u) M F" "x \<in># M"
    and "runs (jspoils R a0) (place_carry mem ly sp i (own i x) level) (u, builder_at i e bs None None j True)
      (\<lambda>p t. Q p (fst t, (snd t)\<lparr>sb_poisoned := False\<rparr>))"
  shows "runs (jspoils R a0) (poll_push mem ly sp i) (u, builder_at i e bs (Some (own i x, level)) None j False) Q"
  unfolding poll_push_def by (rule after_session [OF assms(1)], simp add: runs_do_iff, rule runs_poisoning, rule assms(3))

text \<open>What the bins hold after a push, over the trees \<open>T\<close> beside them.\<close>

definition pushed :: "arena_id multiset \<Rightarrow> arena_build_id \<Rightarrow> page_arena \<Rightarrow> nat \<Rightarrow> sequence_join \<Rightarrow> (arena_id \<times> 's) list \<Rightarrow> 's seq_tree multiset \<Rightarrow>
    arena_id multiset \<Rightarrow> edit_state \<times> sequence_builder \<Rightarrow> bool" where
  "pushed R i a0 e j ls T F t \<longleftrightarrow> (\<exists>B v. t = (v, builder_at i e (map (map_option (own i)) B) None None j False) \<and>
     bins_ok 0 B \<and> bin_leaves B = ls \<and> since R a0 (fst v) \<and> held R i (fst v) (mset (bin_trees B) + T) F)"

lemma pushedI:
  "since R a0 (fst v) \<Longrightarrow> held R i (fst v) M F \<Longrightarrow> M = mset (bin_trees B) + T \<Longrightarrow> bins_ok 0 B \<Longrightarrow> bin_leaves B = ls \<Longrightarrow>
   bs = map (map_option (own i)) B \<Longrightarrow> pushed R i a0 e j ls T F (v, builder_at i e bs None None j False)"
  by (auto simp: pushed_def)

lemma completes_push:
  assumes "held R i (fst u) (add_mset x (mset (bin_trees D) + T)) F" "since R a0 (fst u)" "bins_ok k D" "perfect k x" and e: "64 \<le> e"
  shows "completes (jspoils R a0) (poll_push mem ly sp i) (length D + 1)
     (u, builder_at i e (map (map_option (own i)) (replicate k None @ D)) (Some (own i x, k)) None j False)
     (pushed R i a0 e j (bin_leaves D @ tleaves x) T F)"
  using assms(1-4)
proof (induction D arbitrary: u k x)
  case Nil
  have h: "held R i (fst u) (add_mset x T) F" using Nil.prems(1) by simp
  have "2 ^ k < (2 :: nat) ^ 64" using holds_count [OF heldD(3) [OF h, of x]] Nil.prems(4) by (simp add: perfect_def)
  then have k: "k < 64" by (rule power_less_imp_less_exp [rotated]) simp
  show ?case
    apply simp
    apply (rule runs_poll_push [OF h], simp, unfold place_carry_def, rule beside_check [OF h], simp)
    using k e apply (simp add: runs_do_iff MAX_SEQUENCE_BIN_SLOTS_def)
    apply (rule runs_record, simp)
    apply (rule pushedI [where B = "replicate k None @ [Some x]"])
    using h Nil.prems by (simp_all add: bins_ok_low)
next
  case (Cons y D)
  show ?case
  proof (cases y)
    case None
    have h: "held R i (fst u) (add_mset x (mset (bin_trees D) + T)) F" using Cons.prems(1) None by simp
    show ?thesis
      apply (simp add: None)
      apply (rule runs_poll_push [OF h], simp, unfold place_carry_def, rule beside_check [OF h], simp)
      apply (simp add: runs_do_iff nth_append list_update_append)
      apply (rule runs_record, simp)
      apply (rule pushedI [where B = "replicate k None @ Some x # D"])
      using h Cons.prems None by (simp_all add: bins_ok_low)
  next
    case (Some l)
    have h: "held R i (fst u) (add_mset x (add_mset l (mset (bin_trees D) + T))) F" using Cons.prems(1) Some by simp
    have p: "perfect k l" "theight l \<le> theight x + 1" "theight x \<le> theight l + 1" using Cons.prems(3,4) Some by (simp_all add: perfect_def)
    show ?thesis
      apply (simp add: Some)
      apply (rule runs_poll_push [OF h], simp, unfold place_carry_def, rule beside_check [OF h], simp)
      apply (simp add: runs_do_iff [of _ "altering _"] nth_append list_update_append)
      apply (rule beside_make [OF h Cons.prems(2) add_mset_commute p(2,3)])
      apply (simp add: runs_do_iff [of _ "altering _"])
      apply (rule runs_then_record, simp)
      subgoal for v g z va
        using Cons.IH [of va "TBranch g z l x" "Suc k"] Cons.prems(3,4) p(1) Some by (simp add: perfect_branch replicate_app_Cons_same if_bool_eq_conj)
      done
  qed
qed

subsection \<open>Finishing\<close>

text \<open>The root so far, and the bins from \<open>n\<close> on that are not joined to it yet.\<close>

abbreviation finishing :: "arena_build_id \<Rightarrow> nat \<Rightarrow> nat \<Rightarrow> 's seq_tree list \<Rightarrow> arena_build_owner option \<Rightarrow> bool \<Rightarrow> sequence_join \<Rightarrow> sequence_builder" where
  "finishing i e n xs y w j \<equiv> builder_at i e (replicate n None @ map (\<lambda>t. Some (own i t)) xs) None
     (Some \<lparr>sr_next_bin = n, sr_root = y, sr_joining = w\<rparr>) j False"

lemma runs_begin_finish:
  assumes h: "held R i (fst u) M F" and t: "rev (bin_trees D) = x # xs"
    and k: "\<And>v. fst v = fst u \<Longrightarrow> Q () (v, finishing i e 1 xs (Some (own i x)) False j)"
  shows "runs E (begin_finish ly sp i) (u, builder_at i e (map (map_option (own i)) D) None None j False) Q"
proof -
  have "filter (\<lambda>b. b \<noteq> None) (rev (map (map_option (own i)) D)) = map (\<lambda>t. Some (own i t)) (x # xs)"
    using bin_trees_filter [of "own i" "rev D"] t by (simp add: rev_map [symmetric] bin_trees_rev)
  then show ?thesis unfolding begin_finish_def
    by (intro after_session [OF h]) (use k in \<open>simp add: runs_do_iff runs_record\<close>)
qed

lemma runs_poll_finish:
  assumes "names (fst u) Active i"
    and "runs (jspoils R a0) (if w then poll_joining mem ly sp i else poll_reducing ly sp i)
      (u, builder_at i e bs None (Some \<lparr>sr_next_bin = n, sr_root = y, sr_joining = w\<rparr>) j True) (\<lambda>p t. Q p (fst t, (snd t)\<lparr>sb_poisoned := False\<rparr>))"
  shows "runs (jspoils R a0) (poll_finish mem ly sp i) (u, builder_at i e bs None (Some \<lparr>sr_next_bin = n, sr_root = y, sr_joining = w\<rparr>) j False) Q"
  unfolding poll_finish_def
  by (rule runs_do, rule runs_session [OF assms(1)], simp split del: if_split, rule runs_poisoning, rule assms(2))

end

text \<open>What a poll of the join reports, and what it leaves alone once it is done.\<close>

abbreviation fixed_room :: "sequence_join \<Rightarrow> bool" where
  "fixed_room j \<equiv> capacity (sj_tasks j) = sj_task_capacity j \<and> capacity (sj_values j) = sj_value_capacity j"

lemma join_poll_progress:
  assumes "join_poll mem ly sp i t = Some (Inr p, u)"
  shows "p = ProgressComplete \<longleftrightarrow> join_done (snd u)" "fixed_room (snd u)"
  using assms by (auto simp: join_poll_def require_fixed_capacity_def record_join_def seq_do_def seeing_def ensuring_def altering_def
      seq_on_fst_def noting_def vec_pop_def join_done_def split: option.splits sum.splits prod.splits if_splits)

lemma join_poll_done: "join_done (snd t) \<Longrightarrow> fixed_room (snd t) \<Longrightarrow> join_poll mem ly sp i t = Some (Inr ProgressComplete, t)"
  by (simp add: join_poll_def require_fixed_capacity_def seq_do_def seeing_def ensuring_def vec_pop_def join_done_def)

lemma settles_done:
  assumes "settles R a0 E (join_poll mem ly sp i) n ((a, r), j) Q" "join_done j" "fixed_room j"
  shows "\<exists>r. Q ((a, r), j)"
  using assms(1)
proof (induction n arbitrary: r)
  case (Suc n)
  show ?case
  proof (cases "Q ((a, r), j)")
    case False
    then have "runs E (join_poll mem ly sp i) ((a, r), j) (\<lambda>_ u. \<forall>r. settles R a0 E (join_poll mem ly sp i) n ((fst (fst u), r), snd u) Q)"
      using Suc.prems by simp
    then have "settles R a0 E (join_poll mem ly sp i) n ((a, r), j) Q"
      using assms(2,3) by (simp add: runs_def join_poll_done)
    then show ?thesis by (rule Suc.IH)
  qed blast
qed auto

lemma runs_with: "runs E m t Q \<Longrightarrow> (\<And>x u. m t = Some (Inr x, u) \<Longrightarrow> Q x u \<Longrightarrow> Q' x u) \<Longrightarrow> runs E m t Q'"
  by (erule runsE) (simp_all add: runs_def)

context measured_spec
begin

text \<open>The polls of the join in progress, one by one, then those after it.\<close>

lemma completes_joining:
  assumes i: "names a0 Active i"
    and k: "\<And>y v. since R a0 (fst v) \<Longrightarrow> held R i (fst v) (add_mset y T) F \<Longrightarrow> tleaves y = ls \<Longrightarrow> theight y \<in> H \<Longrightarrow>
      completes (jspoils R a0) (poll_finish mem ly sp i) m
        (v, builder_at i e bs None (Some \<lparr>sr_next_bin = n', sr_root = Some (own i y), sr_joining = False\<rparr>) (join_at c d [] []) False) Q"
    and j: "settling mem ly i R a0 n (u, j) (joined R i a0 c d ls H T F [] [])" "\<not> join_done j"
  shows "completes (jspoils R a0) (poll_finish mem ly sp i) (n + m)
      (u, builder_at i e bs None (Some \<lparr>sr_next_bin = n', sr_root = None, sr_joining = True\<rparr>) j False) Q"
  using j
proof (induction n arbitrary: u j)
  case 0
  then show ?case by (auto elim!: joinedE)
next
  case (Suc n)
  let ?J = "joined R i a0 c d ls H T F [] []" and ?b = "\<lambda>j. builder_at i e bs None (Some \<lparr>sr_next_bin = n', sr_root = None, sr_joining = True\<rparr>) j True"
  have "\<not> ?J (u, j)" using Suc.prems(2) by (auto elim!: joinedE)
  then have s: "since R a0 (fst u)"
    and r: "runs (jspoils R a0) (join_poll mem ly sp i) (u, j) (\<lambda>_ t. \<forall>r. settling mem ly i R a0 n ((fst (fst t), r), snd t) ?J)"
    using Suc.prems(1) by simp_all
  show ?case unfolding add_Suc completes.simps
  proof (rule runs_poll_finish, use i s in \<open>simp add: since_def\<close>, simp only: if_True, unfold poll_joining_def, rule runs_do, rule runs_on_join,
      rule runs_with [of "\<lambda>e t. jspoils R a0 e (fst t, (?b j)\<lparr>sb_join := snd t\<rparr>)" _ _ "\<lambda>_ t. \<forall>r. settling mem ly i R a0 n ((fst (fst t), r), snd t) ?J"], use r in simp, goal_cases)
    case (1 p t)
    note p = join_poll_progress [OF 1(1)] and k1 = 1(2)
    obtain a q j' where t: "t = ((a, q), j')" by (metis surj_pair)
    show ?case
    proof (cases "join_done j'")
      case True
      obtain r' where "?J ((a, r'), j')" using settles_done [of R a0 _ mem ly sp i n a q j' ?J] k1 p(2) True t by auto
      then obtain y where y: "j' = join_at c d [] [own i y]" "since R a0 a" "held R i a (add_mset y T) F" "tleaves y = ls" "theight y \<in> H"
        by (auto elim!: joinedE)
      have "completes (jspoils R a0) (poll_finish mem ly sp i) (n + m)
        (v, builder_at i e bs None (Some \<lparr>sr_next_bin = n', sr_root = Some (own i y), sr_joining = False\<rparr>) (join_at c d [] []) False) Q" if "fst v = a" for v
        by (rule completes_le [OF k [of v y]]) (use y that in simp_all)
      note k = this
      show ?thesis using p(1) True
        apply (simp add: t y(1) runs_do_iff)
        apply (rule runs_on_join)
        apply (simp add: join_take_root_def runs_do_iff)
        apply (rule runs_record)
        using k by simp
    next
      case False
      then show ?thesis using p(1) k1
        apply (simp add: t runs_do_iff)
        apply (rule runs_record)
        using Suc.IH by auto
    qed
  qed
qed

lemma runs_idle: "runs E (require_idle sp) (u, join_at c d [] []) Q \<longleftrightarrow> Q () (u, join_at c d [] [])"
  by (simp add: require_idle_def runs_do_iff)

text \<open>A join begins on the root so far and the next bin.\<close>

lemma runs_join_begin:
  assumes h: "held R i (fst u) M F" and s: "since R a0 (fst u)" and m: "l \<in># M" "r \<in># M" and c: "0 < c"
    and k: "\<And>v. since R a0 (fst v) \<Longrightarrow> held R i (fst v) M F \<Longrightarrow> Q () (v, join_at c d [TaskJoin (own i l) (own i r)] [])"
  shows "runs (jspoils R a0) (join_begin ly sp i (own i l) (own i r)) (u, join_at c d [] []) Q"
proof -
  have b: "theight l \<le> 92" "theight r \<le> 92" using holds_height(1) heldD(3) [OF h] m by blast+
  show ?thesis unfolding join_begin_def
    apply (rule runs_do, simp only: runs_idle)
    apply (rule beside_check [OF h m(1)], rule beside_check [OF h m(2)])
    apply (rule beside_height [OF h s m(1)], rule beside_height, assumption, assumption, rule m(2))
    using b c apply (auto simp: runs_do_iff not_less intro!: runs_record_join k)
    done
qed

definition finished :: "arena_id multiset \<Rightarrow> arena_build_id \<Rightarrow> page_arena \<Rightarrow> nat \<Rightarrow> nat \<Rightarrow> sequence_join \<Rightarrow> (arena_id \<times> 's) list \<Rightarrow> 's seq_tree multiset \<Rightarrow>
    arena_id multiset \<Rightarrow> edit_state \<times> sequence_builder \<Rightarrow> bool" where
  "finished R i a0 e n j ls T F t \<longleftrightarrow> (\<exists>y v. t = (v, finishing i e n [] (Some (own i y)) False j) \<and> tleaves y = ls \<and>
     since R a0 (fst v) \<and> held R i (fst v) (add_mset y T) F)"

lemma finishedI:
  "tleaves y = ls \<Longrightarrow> since R a0 (fst v) \<Longrightarrow> held R i (fst v) (add_mset y T) F \<Longrightarrow>
   finished R i a0 e n j ls T F (v, finishing i e n [] (Some (own i y)) False j)"
  by (auto simp: finished_def)

lemma completes_reducing:
  assumes c: "96 \<le> c" "1 < d"
    and "held R i (fst u) (add_mset x (mset xs + T)) F" "since R a0 (fst u)"
  shows "completes (jspoils R a0) (poll_finish mem ly sp i) (length xs * 555 + 1)
      (u, finishing i e n xs (Some (own i x)) False (join_at c d [] []))
      (finished R i a0 e (n + length xs) (join_at c d [] []) (tleaves x @ concat (map tleaves xs)) T F)"
  using assms(3,4)
proof (induction xs arbitrary: u x n)
  case Nil
  then show ?case
    by (simp, intro runs_poll_finish) (use hasD(2) [OF heldD(1) [OF Nil.prems(1)]] finishedI [OF refl, of R a0 u i x T F e n "join_at c d [] []"] in
      \<open>auto simp: poll_reducing_def\<close>)
next
  case (Cons z xs)
  let ?b = "\<lambda>j. builder_at i e (replicate (Suc n) None @ map (\<lambda>t. Some (own i t)) xs) None
     (Some \<lparr>sr_next_bin = Suc n, sr_root = None, sr_joining = True\<rparr>) j False"
  let ?Q = "finished R i a0 e (n + length (z # xs)) (join_at c d [] []) (tleaves x @ concat (map tleaves (z # xs))) T F"
  have h: "held R i (fst u) (add_mset x (add_mset z (mset xs + T))) F" using Cons.prems(1) by simp
  have rest: "completes (jspoils R a0) (poll_finish mem ly sp i) (length xs * 555 + 555) (v, ?b (join_at c d [TaskJoin (own i x) (own i z)] [])) ?Q"
    if v: "since R a0 (fst v)" "held R i (fst v) (add_mset x (add_mset z (mset xs + T))) F" for v
  proof -
    have b: "theight x \<le> 92" "theight z \<le> 92" using heldD(3) [OF v(2), THEN holds_height(1)] by simp_all
    have j: "settling mem ly i R a0 554 (v, join_at c d [TaskJoin (own i x) (own i z)] [])
        (joined R i a0 c d (tleaves x @ tleaves z) (join_heights x z) (mset xs + T) F [] [])"
      by (rule settles_le [OF settles_join [of R i v x z "mset xs + T" F a0 "[]" c d mem ly, simplified append_Nil list.size add_0_left]]) (use v b c in simp_all)
    have i: "names a0 Active i" using v(1) hasD(2) [OF heldD(1) [OF v(2)]] by (simp add: since_def)
    have "completes (jspoils R a0) (poll_finish mem ly sp i) (554 + (length xs * 555 + 1)) (v, ?b (join_at c d [TaskJoin (own i x) (own i z)] [])) ?Q"
    proof (rule completes_joining [OF i _ j], goal_cases)
      case (1 y v)
      show ?case using Cons.IH [OF 1(2,1), of "Suc n"] 1(3) by simp
    qed simp
    then show ?thesis by (rule completes_le) simp
  qed
  have l: "length (z # xs) * 555 + 1 = Suc (length xs * 555 + 555)" by simp
  show ?case unfolding l completes.simps
    apply (rule runs_poll_finish)
    using hasD(2) [OF heldD(1) [OF h]] apply simp
    apply (simp add: poll_reducing_def runs_do_iff [of _ "altering _"] nth_append list_update_append)
    apply (rule runs_do, rule runs_on_join)
    apply simp
    apply (rule runs_join_begin [OF h Cons.prems(2)])
    using c apply simp_all
    apply (simp add: runs_do_iff [of _ "altering _"])
    apply (rule runs_then_record)
    using rest by (simp add: replicate_app_Cons_same)
qed

text \<open>The root that remains is handed out.\<close>

lemma runs_const: "runs E (\<lambda>t. Some (Inr x, t)) t Q \<longleftrightarrow> Q x t"
  by (simp add: runs_def)

lemma runs_take_root:
  assumes h: "held R i (fst u) M F" and y: "y \<in># M"
    and k: "\<And>v t. fst v = fst u \<Longrightarrow> Q (own i y) (v, t)"
  shows "runs (jspoils R a0) (builder_take_root sp i) (u, finishing i e n [] (Some (own i y)) False j) Q"
  unfolding builder_take_root_def
proof (rule after_session [OF h], simp, rule runs_poisoning, simp add: runs_do_iff [of _ "altering _"], rule beside_check [OF h y])
qed (simp add: runs_do_iff runs_const k)

subsection \<open>Leaves and a new builder\<close>

text \<open>The page of a leaf becomes a node that the session owns.\<close>

lemma runs_allocate_leaf:
  assumes h: "has sp R i (fst u) T F" and s: "since R a0 (fst u)" and p: "is_leaf sp p x"
    and k: "\<And>g v. since R (fst u) (fst v) \<Longrightarrow> has sp R i (fst v) (add_mset (TLeaf g x) T) F \<Longrightarrow> node_of (fst v) g = (Some p, Some []) \<Longrightarrow>
      Q (own i (TLeaf g x)) v"
  shows "runs (spoils R a0) (changing sp (\<lambda>a. session_allocate mem a i p [])) u Q"
proof (cases rule: session_allocate_ok [OF hasD(1,2) [OF h], of mem p "[]"])
  case (1 e)
  have "e \<in> resource_errors" by (rule session_allocate_error [OF hasD(1,2) [OF h], of "[]"]) (use 1 in auto)
  then show ?thesis using s 1 by (intro runs_changing_err [of _ _ e "fst u"]) (auto intro: edit_refusalI)
next
  case (2 g b)
  have sb: "since R (fst u) b" using 2 by (simp add: since_def)
  have own: "mset (b_owners (bat b (bid_slot i))) = image_mset troot T + add_mset g F" using 2(4) hasD(3) [OF h] by simp
  have hb: "has sp R i b T (add_mset g F)" by (rule has_step [OF h sb own hasD(4) [OF h]])
  have "holds sp b (TLeaf g x)" using 2(7,8) p by simp
  then have "has sp R i b (add_mset (TLeaf g x) T) F" using hb by (auto simp: has_def)
  from k [of "(b, snd u)" g, simplified, OF sb this] show ?thesis
    using 2(1,8) by (intro runs_changing [of _ _ "own i (TLeaf g x)" b]) (simp_all add: own_def)
qed

end

text \<open>What a build may refuse beside what a mutation may: room for its own vectors.\<close>

definition scratch_messages :: "string list" where
  "scratch_messages = [''sequence bin reservation failed'', ''sequence join task reservation failed'', ''sequence join value reservation failed'']"

definition build_refusal :: "('s, 'e) sequence_spec \<Rightarrow> 'e \<Rightarrow> bool" where
  "build_refusal sp e \<longleftrightarrow> edit_refusal sp e \<or> (\<exists>m\<in>set scratch_messages. e = invalid sp m)"

context measured_spec
begin

lemma runs_builder_new:
  assumes h: "held R i (fst u) T F" and s: "since R a0 (fst u)" and ly: "\<And>n. n \<le> reserved_room ly n"
    and k: "\<And>v e c d. fst v = fst u \<Longrightarrow> 64 \<le> e \<Longrightarrow> 96 \<le> c \<Longrightarrow> 1 < d \<Longrightarrow> Q (builder_at i e [] None None (join_at c d [] []) False) v"
  shows "runs (\<lambda>e u. build_refusal sp e \<and> since R a0 (fst u)) (builder_try_new mem ly sp i) u Q"
proof -
  have m: "build_refusal sp (invalid sp m)" if "m \<in> set scratch_messages" for m using that by (auto simp: build_refusal_def)
  have c: "96 \<le> reserved_room ly 96" "64 \<le> reserved_room ly 64" "1 < reserved_room ly 2" using ly [of 96] ly [of 64] ly [of 2] by simp_all
  have e: "runs (\<lambda>e u. build_refusal sp e \<and> since R a0 (fst u)) (reserve_owners mem sp i n) u P" if "\<And>v. fst v = fst u \<Longrightarrow> P () v" for n P
    by (rule runs_conseq [OF runs_reserve [OF h s]]) (use that in \<open>auto simp: build_refusal_def\<close>)
  show ?thesis unfolding builder_try_new_def join_try_new_def Let_def
    apply (rule runs_do, rule e)
    using s c k m by (simp add: runs_do_iff scratch_messages_def MAX_SEQUENCE_BIN_SLOTS_def builder_at_def [symmetric] join_at_def [symmetric])
qed

end

end
