(* ===== verification/Flark_Green_Spec.thy ===== *)
theory Flark_Green_Spec
  imports Flark_Green_Summary Flark_Sequence_Calls Flark_Sequence_Builds
begin

text \<open>
  The green pages as the specification of a measured sequence: \<^verbatim>\<open>RecursiveGreenSpec\<close> satisfies the laws the sequence relies on, so every
  theorem about the sequence holds of the stored green tree.
\<close>

subsection \<open>Events and their summaries\<close>

lemma var_len_bounds:
  "v < 2 ^ 64 \<Longrightarrow> var_u64_len v \<le> 10" "v < 2 ^ 32 \<Longrightarrow> var_u64_len v \<le> 5" "v < 2 ^ 16 \<Longrightarrow> var_u64_len v \<le> 3"
  using var_len_le [of v 10] var_len_le [of v 5] var_len_le [of v 3] by simp_all

lemma var_len_pos: "0 < var_u64_len v"
  by (subst var_len) simp

text \<open>Every event fits the buffer its digest is taken from.\<close>

lemma event_len_bound:
  assumes "event_ok event"
  shows "0 < packed_event_len event" "packed_event_len event \<le> MAX_PACKED_EVENT_BYTES"
proof -
  have frame: "var_u64_len f \<le> 10 \<and> var_u64_len k \<le> 3" if "frame_kind_ok f k" for f k
    using that var_len_bounds by (simp add: frame_kind_ok_def)
  have metric: "var_u64_len (mt_bytes m) \<le> 10 \<and> var_u64_len (mt_utf16 m) \<le> 10" if "metric_ok m" for m
    using that var_len_bounds(1) by (auto simp: metric_ok_def)
  have extra: "atom_extra_len atom \<le> 6" if "case atom of TabToSpaces d _ \<Rightarrow> d < 2 ^ 32 | _ \<Rightarrow> True" for atom
    using that var_len_bounds(2) by (auto simp: atom_extra_len_def split: logical_atom.splits)
  show "0 < packed_event_len event" by (cases event) (simp_all add: packed_event_len_def)
  show "packed_event_len event \<le> MAX_PACKED_EVENT_BYTES"
  proof (cases event)
    case (PackedEnter f k)
    then show ?thesis using assms frame [of f k] by (simp add: event_ok_def packed_event_len_def MAX_PACKED_EVENT_BYTES_def CLOSE_FACTS_MAX_BYTES_def)
  next
    case (PackedProperty p)
    then show ?thesis using assms
      by (simp add: event_ok_def fact_ok_def packed_event_len_def MAX_PACKED_EVENT_BYTES_def CLOSE_FACTS_MAX_BYTES_def PROPERTY_CHUNK_MAX_BYTES_def)
  next
    case (PackedCoverage m d part atom)
    then show ?thesis using assms metric [of m] var_len_bounds(2) [of d] extra [of atom]
      by (simp add: event_ok_def packed_event_len_def MAX_PACKED_EVENT_BYTES_def CLOSE_FACTS_MAX_BYTES_def)
  next
    case (PackedRetypeOpen f k p)
    then show ?thesis using assms frame [of f k]
      by (auto simp: event_ok_def fact_ok_def packed_event_len_def MAX_PACKED_EVENT_BYTES_def CLOSE_FACTS_MAX_BYTES_def PROPERTY_CHUNK_MAX_BYTES_def
          split: option.splits)
  next
    case (PackedExit f k close blank child)
    then show ?thesis using assms frame [of f k]
      by (auto simp: event_ok_def fact_ok_def packed_event_len_def MAX_PACKED_EVENT_BYTES_def CLOSE_FACTS_MAX_BYTES_def split: option.splits)
  qed
qed

definition event_commitment :: "(bytes \<Rightarrow> bytes) \<Rightarrow> packed_event \<Rightarrow> green_commitment" where
  "event_commitment blake3 event =
     (let digest = blake3 (event_domain @ event_code event) in
      \<lparr>gc_hash = map (\<lambda>lane. word_of_nat (of_le_bytes (take 8 (drop (lane * 8) digest))) mod (MODULUS - 1) + 1) [0..<COMMITMENT_LANES],
       gc_factor = COMMITMENT_BASES\<rparr>)"

lemma commitment_for_event_ok:
  assumes "event_ok event"
  shows "commitment_for_event blake3 event = Some (Inr (event_commitment blake3 event))"
proof -
  have "length (event_code event) \<le> MAX_PACKED_EVENT_BYTES" using event_len_bound(2) [OF assms] by (simp add: length_event_code)
  moreover have "MAX_PACKED_EVENT_BYTES < 2 ^ 64" by (simp add: MAX_PACKED_EVENT_BYTES_def CLOSE_FACTS_MAX_BYTES_def)
  ultimately show ?thesis
    using emitsD [OF emits_event [OF assms], of 0 "replicate MAX_PACKED_EVENT_BYTES (CHR 0x00)"]
    by (simp add: commitment_for_event_def event_commitment_def length_event_code Let_def)
qed

lemma unat_lane: "unat (w mod (MODULUS - 1) + 1 :: u64) = unat w mod (P61 - 1) + 1"
proof -
  have m: "unat (MODULUS - 1) = P61 - 1" by (simp add: MODULUS_def)
  have "unat (w mod (MODULUS - 1)) = unat w mod (P61 - 1)" by (simp only: unat_mod_distrib m)
  moreover have "unat w mod (P61 - 1) < P61 - 1" by simp
  ultimately have "unat (w mod (MODULUS - 1)) + unat (1 :: u64) < 2 ^ LENGTH(64)" by simp
  then have "unat (w mod (MODULUS - 1) + 1) = unat (w mod (MODULUS - 1)) + unat (1 :: u64)" by (rule unat_add_lem [THEN iffD1])
  then show ?thesis by (simp only: unat_mod_distrib m unsigned_1)
qed

lemma event_commitment_valid:
  "commitment_is_valid (event_commitment blake3 event)" "length (gc_hash (event_commitment blake3 event)) = COMMITMENT_LANES"
  "length (gc_factor (event_commitment blake3 event)) = COMMITMENT_LANES"
proof -
  have l: "n mod (P61 - 1) + 1 < P61" for n :: nat using mod_less_divisor [of "P61 - 1" n] by simp
  have b: "\<forall>lane<COMMITMENT_LANES. unat (COMMITMENT_BASES ! lane) \<noteq> 0 \<and> unat (COMMITMENT_BASES ! lane) < P61"
  proof (intro allI impI)
    fix lane
    assume "lane < COMMITMENT_LANES"
    then have "lane = 0 \<or> lane = 1 \<or> lane = 2 \<or> lane = 3" by (auto simp: COMMITMENT_LANES_def)
    then show "unat (COMMITMENT_BASES ! lane) \<noteq> 0 \<and> unat (COMMITMENT_BASES ! lane) < P61"
      by (auto simp: COMMITMENT_BASES_def)
  qed
  show "commitment_is_valid (event_commitment blake3 event)"
    unfolding valid_lanes using b l by (simp add: event_commitment_def Let_def unat_lane)
  show "length (gc_hash (event_commitment blake3 event)) = COMMITMENT_LANES" "length (gc_factor (event_commitment blake3 event)) = COMMITMENT_LANES"
    by (simp_all add: event_commitment_def Let_def COMMITMENT_BASES_def COMMITMENT_LANES_def)
qed

definition event_summary :: "(bytes \<Rightarrow> bytes) \<Rightarrow> packed_event \<Rightarrow> green_summary" where
  "event_summary blake3 event =
     (let s = summary_empty\<lparr>gs_events := 1, gs_event_bytes := packed_event_len event, gs_commitment := event_commitment blake3 event\<rparr> in
      case event of
        PackedEnter frame kind \<Rightarrow>
          s\<lparr>gs_enters := 1, gs_max_frame := frame, gs_balance := 1,
            gs_oldest_open := Some \<lparr>gw_frame = frame, gw_kind = kind, gw_ordinal = 0\<rparr>\<rparr>
      | PackedCoverage physical _ _ atom \<Rightarrow>
          s\<lparr>gs_physical_bytes := mt_bytes physical, gs_physical_utf16 := mt_utf16 physical,
            gs_logical_bytes := mt_bytes (logical_metric atom physical), gs_logical_utf16 := mt_utf16 (logical_metric atom physical)\<rparr>
      | PackedExit _ final_kind _ _ child \<Rightarrow>
          s\<lparr>gs_row_exits := of_bool (is_renderable_row_kind final_kind), gs_balance := -1, gs_minimum_prefix := -1,
            gs_minimum_closed := Some (-1), gs_children := child_fold_push (gs_children s) child\<rparr>
      | _ \<Rightarrow> s)"

lemma logical_metric_ok:
  "metric_ok m \<Longrightarrow> validate_atom atom m = Inr () \<Longrightarrow> mt_utf16 (logical_metric atom m) \<le> mt_bytes (logical_metric atom m) \<and>
   mt_bytes (logical_metric atom m) < 2 ^ 64 \<and> mt_utf16 (logical_metric atom m) < 2 ^ 64"
  by (cases atom) (auto simp: logical_metric_def metric_ok_def validate_atom_def split: if_splits)

lemma event_summary_valid:
  assumes "event_ok event"
  shows "validate_summary (event_summary blake3 event) = Inr ()"
  using assms event_len_bound(1) [OF assms] event_commitment_valid(1) [of blake3 event] unfolding validate_iff
  by (cases event) (simp_all add: event_summary_def summary_empty_def event_ok_def metric_ok_def frame_kind_ok_def Let_def logical_metric_ok)

lemma event_summary_sound:
  assumes "event_ok event"
  shows "sound (event_summary blake3 event)" "gs_events (event_summary blake3 event) = 1"
proof -
  have len: "packed_event_len event < 18446744073709551616" using event_len_bound(2) [OF assms] by (simp add: MAX_PACKED_EVENT_BYTES_def CLOSE_FACTS_MAX_BYTES_def)
  show "gs_events (event_summary blake3 event) = 1" by (cases event) (simp_all add: event_summary_def Let_def)
  have l: "mt_utf16 (logical_metric atom m) < 18446744073709551616 \<and> mt_bytes (logical_metric atom m) < 18446744073709551616"
    if "event = PackedCoverage m d part atom" for m d part atom
    using assms that logical_metric_ok [of m atom] by (simp add: event_ok_def)
  show "sound (event_summary blake3 event)" unfolding sound_def
    using assms len l event_summary_valid [OF assms, of blake3] event_commitment_valid(2,3) [of blake3 event]
    by (cases event) (auto simp: event_summary_def summary_empty_def event_ok_def metric_ok_def frame_kind_ok_def Let_def is_i64_def witness_ok_def)
qed

lemma packed_event_summary_ok:
  assumes "event_ok event"
  shows "packed_event_summary blake3 event = Some (Inr (event_summary blake3 event))"
proof -
  have v: "validate_summary (event_summary blake3 event) = Inr ()" by (rule event_summary_valid [OF assms])
  have c: "\<not> metric_is_empty m \<and> validate_atom atom m = Inr ()" if "event = PackedCoverage m d part atom" for m d part atom
    using assms that by (simp add: event_ok_def metric_ok_def metric_is_empty_def)
  show ?thesis
    unfolding packed_event_summary_def commitment_for_event_ok [OF assms] option.case sum.case Let_def
    using v c by (cases event) (simp_all add: event_summary_def Let_def)
qed

subsection \<open>Leaves\<close>

lemma ends_fold_events [ends_intros]: "ends (fold_events blake3 input n s)"
proof (induction n arbitrary: s)
  case (Suc n)
  have "ends (\<lambda>t. case packed_event_summary blake3 event of None \<Rightarrow> None
      | Some r \<Rightarrow> seq_do (seq_result (and_ok r (checked_followed_by s))) (\<lambda>observed. fold_events blake3 input n observed) t)" for event
  proof -
    have "packed_event_summary blake3 event \<noteq> None"
      using ends_encode_event [of event] by (auto simp: packed_event_summary_def commitment_for_event_def ends_def Let_def split: option.splits sum.splits)
    then obtain r where "packed_event_summary blake3 event = Some r" by blast
    moreover have "ends (seq_do (seq_result (and_ok r (checked_followed_by s))) (\<lambda>observed. fold_events blake3 input n observed))"
      by (intro ends_intros Suc)
    ultimately show ?thesis by (simp add: ends_def)
  qed
  then show ?case unfolding fold_events.simps by (intro ends_do ends_decode_event)
qed (simp only: fold_events.simps ends_intros)

lemma sound_empty: "sound summary_empty"
proof -
  have "commitment_is_valid commitment_empty" by (simp add: valid_lanes commitment_empty_def)
  then show ?thesis by (simp add: sound_def validate_iff) (simp add: summary_empty_def is_i64_def commitment_empty_def)
qed

lemma fold_events_sound:
  "sound s \<Longrightarrow> fold_events blake3 input n s c = Some (Inr u, c') \<Longrightarrow> sound u \<and> gs_events u = gs_events s + n"
proof (induction n arbitrary: s c)
  case (Suc n)
  obtain event d r v where e: "decode_packed_event input c = Some (Inr event, d)" "packed_event_summary blake3 event = Some r"
      "and_ok r (checked_followed_by s) = Inr v" "fold_events blake3 input n v d = Some (Inr u, c')"
    using Suc.prems(2) by (auto simp: seq_do_Inr split: option.splits)
  have ok: "event_ok event" using decode_event_Inr [OF e(1)] by blast
  have "checked_followed_by s (event_summary blake3 event) = Inr v"
    using e(2,3) unfolding packed_event_summary_ok [OF ok, of blake3] by auto
  note j = joined_sound [OF Suc.prems(1) event_summary_sound(1) [OF ok] this]
  then show ?case using Suc.IH [OF j(1) e(4)] event_summary_sound(2) [OF ok, of blake3] by simp
qed simp

text \<open>What a leaf page decodes to, whatever the counters.\<close>

definition leaf_reads :: "(bytes \<Rightarrow> bytes) \<Rightarrow> bytes \<Rightarrow> green_summary \<Rightarrow> bool" where
  "leaf_reads blake3 p s \<longleftrightarrow> take 4 p = GREEN_LEAF_MAGIC \<and> (\<exists>events data_bytes cursor.
     decode_leaf_header p 4 = Some (Inr (events, data_bytes, s), cursor) \<and> events \<noteq> 0 \<and>
     fold_events blake3 (drop cursor p) events summary_empty 0 = Some (Inr s, length (drop cursor p)))"

lemma leaf_Inr:
  "green_leaf_summary blake3 p i = Some (Inr (Some s), j) \<Longrightarrow> leaf_reads blake3 p s"
  by (auto simp: green_leaf_summary_def decode_leaf_def leaf_reads_def seq_do_Inr starting_at_Inr_iff Let_def decode_leaf_header_def
      split: if_splits prod.splits) 

lemma green_leaf_None: "green_leaf_summary blake3 p i = Some (Inr None, j) \<longleftrightarrow> take 4 p \<noteq> GREEN_LEAF_MAGIC \<and> i = j"
  by (auto simp: green_leaf_summary_def decode_leaf_def seq_do_Inr seq_update_Inr starting_at_Inr_iff Let_def split: prod.splits)

lemma leaf_reads_once: "leaf_reads blake3 p s \<Longrightarrow> leaf_reads blake3 p u \<Longrightarrow> s = u"
  by (auto simp: leaf_reads_def)

lemma leaf_reads_sound:
  assumes "leaf_reads blake3 p s"
  shows "sound s \<and> gs_events s \<noteq> 0"
proof -
  obtain n d c where f: "n \<noteq> 0" "fold_events blake3 d n summary_empty 0 = Some (Inr s, c)"
    using assms unfolding leaf_reads_def by blast
  show ?thesis using fold_events_sound [OF sound_empty f(2)] f(1) by simp
qed

lemma ends_leaf: "ends (green_leaf_summary blake3 p)"
  unfolding green_leaf_summary_def decode_leaf_def decode_leaf_header_def Let_def
  by (intro ends_intros; (simp only: split_beta)?; (intro ends_intros)?; (simp only: split_beta)?; (intro ends_intros)?)

subsection \<open>The laws\<close>

definition green_good :: "green_summary \<Rightarrow> bool" where
  "green_good s \<longleftrightarrow> sound s \<and> gs_events s \<noteq> 0"

lemma sound_fields:
  assumes "sound s" "gs_events s < 2 ^ 63"
  shows "fields_ok s"
  using assms soundD(4) [OF assms(1)] by (fastforce simp: fields_ok_def sound_def split: option.splits)

text \<open>No deeper than there are events, so only the counters can overflow.\<close>

definition shallow :: "green_summary \<Rightarrow> bool" where
  "shallow s \<longleftrightarrow> \<bar>gs_balance s\<bar> \<le> int (gs_events s) \<and> - int (gs_events s) \<le> gs_minimum_prefix s \<and> gs_minimum_prefix s \<le> 0 \<and>
     (\<forall>d. gs_minimum_closed s = Some d \<longrightarrow> \<bar>d\<bar> \<le> int (gs_events s))"

lemma sound_shallow: "sound s \<Longrightarrow> shallow s"
  using soundD(2-5) [of s] by (auto simp: shallow_def)

lemma joined_shallow:
  assumes "shallow s" "shallow r"
  shows "shallow (joined s r)"
proof -
  have "\<bar>d\<bar> \<le> int (gs_events s) + int (gs_events r)" if d: "gs_minimum_closed (joined s r) = Some d" for d
  proof -
    have "least_depth (gs_minimum_closed s) (later s (gs_minimum_closed r)) = Some d" using d by (simp add: joined_def)
    moreover have "\<bar>gs_balance s + y\<bar> \<le> int (gs_events s) + int (gs_events r)" if "gs_minimum_closed r = Some y" for y
      using that assms by (fastforce simp: shallow_def)
    moreover have "\<bar>x\<bar> \<le> int (gs_events s) + int (gs_events r)" if "gs_minimum_closed s = Some x" for x
      using that assms by (fastforce simp: shallow_def)
    ultimately show ?thesis by (cases "gs_minimum_closed s"; cases "gs_minimum_closed r") (auto simp: min_def split: if_splits)
  qed
  moreover have "gs_minimum_prefix (joined s r) \<le> 0" "- (int (gs_events s) + int (gs_events r)) \<le> gs_minimum_prefix (joined s r)"
    "\<bar>gs_balance s + gs_balance r\<bar> \<le> int (gs_events s) + int (gs_events r)"
    using assms by (auto simp: joined_prefix shallow_def min_def)
  ultimately show ?thesis by (simp add: shallow_def)
qed

definition counts :: "green_summary \<Rightarrow> nat list" where
  "counts s = [gs_physical_bytes s, gs_physical_utf16 s, gs_logical_bytes s, gs_logical_utf16 s, gs_events s, gs_enters s, gs_row_exits s, gs_event_bytes s]"

lemma room_counts:
  assumes "shallow s" "shallow r" "gs_events s + gs_events r < 2 ^ 63"
  shows "room s r \<longleftrightarrow> list_all2 (\<lambda>m n. m + n < 2 ^ 64) (counts s) (counts r)"
proof -
  have "is_i64 (gs_balance s + gs_balance r)" "is_i64 (gs_balance s + gs_minimum_prefix r)"
    "\<And>d. gs_minimum_closed r = Some d \<Longrightarrow> is_i64 (gs_balance s + d)"
    using assms by (fastforce simp: shallow_def is_i64_def)+
  then show ?thesis by (simp add: room_def counts_def)
qed

lemma room_parts:
  assumes s: "sound s" "sound r" "sound t" and few: "gs_events s + gs_events r + gs_events t < 2 ^ 63"
  shows "room r t \<and> room s (joined r t) \<longleftrightarrow> room s r \<and> room (joined s r) t"
proof -
  note h = s [THEN sound_shallow]
  have e: "gs_events r + gs_events t < 2 ^ 63" "gs_events s + gs_events (joined r t) < 2 ^ 63" "gs_events s + gs_events r < 2 ^ 63"
    "gs_events (joined s r) + gs_events t < 2 ^ 63" using few by simp_all
  show ?thesis
    unfolding room_counts [OF h(2,3) e(1)] room_counts [OF h(1) joined_shallow [OF h(2,3)] e(2)] room_counts [OF h(1,2) e(3)]
      room_counts [OF joined_shallow [OF h(1,2)] h(3) e(4)]
    by (auto simp: counts_def)
qed

text \<open>Below \<open>2 ^ 63\<close> events two summaries combine exactly when there is room and the commitments combine.\<close>

lemma followed_iff:
  assumes "sound s" "sound r" "gs_events s + gs_events r < 2 ^ 63"
  shows "checked_followed_by s r = Inr u \<longleftrightarrow>
    room s r \<and> commitment_is_valid (commitment_combine (gs_commitment s) (gs_commitment r)) \<and> u = joined s r"
proof -
  have "commitment_is_valid (gs_commitment (joined s r))" if "validate_summary (joined s r) = Inr ()"
    using that by (simp only: validate_iff)
  then show ?thesis
    using followed_by_ok [OF soundD(1) [OF assms(1)] soundD(1) [OF assms(2)]] joined_valid [OF assms(1,2) _ assms(3)] by auto
qed

lemma green_assoc:
  assumes g: "sound x" "sound y" "sound z" and few: "gs_events x + gs_events y + gs_events z < 2 ^ 63"
  shows "(\<exists>u. checked_followed_by x y = Inr u \<and> checked_followed_by u z = Inr s) \<longleftrightarrow>
    (\<exists>v. checked_followed_by y z = Inr v \<and> checked_followed_by x v = Inr s)"
proof -
  let ?c = "\<lambda>x y. commitment_is_valid (commitment_combine (gs_commitment x) (gs_commitment y))"
  have xy: "gs_events x + gs_events y < 2 ^ 63" and yz: "gs_events y + gs_events z < 2 ^ 63"
    and l: "gs_events (joined x y) + gs_events z < 2 ^ 63" and r: "gs_events x + gs_events (joined y z) < 2 ^ 63" using few by simp_all
  have j: "sound (joined x y)" if "checked_followed_by x y = Inr u" for u
    using joined_sound(1) [OF g(1,2) that] that followed_iff [OF g(1,2) xy] by simp
  have k: "sound (joined y z)" if "checked_followed_by y z = Inr v" for v
    using joined_sound(1) [OF g(2,3) that] that followed_iff [OF g(2,3) yz] by simp
  have left: "(\<exists>u. checked_followed_by x y = Inr u \<and> checked_followed_by u z = Inr s) \<longleftrightarrow>
      room x y \<and> ?c x y \<and> room (joined x y) z \<and> ?c (joined x y) z \<and> s = joined (joined x y) z"
    using followed_iff [OF g(1,2) xy] j followed_iff [OF _ g(3) l] by metis
  have right: "(\<exists>v. checked_followed_by y z = Inr v \<and> checked_followed_by x v = Inr s) \<longleftrightarrow>
      room y z \<and> ?c y z \<and> room x (joined y z) \<and> ?c x (joined y z) \<and> s = joined x (joined y z)"
    using followed_iff [OF g(2,3) yz] k followed_iff [OF g(1) _ r] by metis
  have c: "?c x y \<and> ?c (joined x y) z \<longleftrightarrow> ?c y z \<and> ?c x (joined y z)"
    using combine_valid_parts [of "gs_commitment x" "gs_commitment y" "gs_commitment z"] by (auto simp: combine_assoc)
  show ?thesis unfolding left right using room_parts [OF g few] c joined_assoc [OF g] by metis
qed

lemma green_fields [simp]:
  "leaf_summary (green_spec blake3) = green_leaf_summary blake3" "branch_measure (green_spec blake3) = green_branch_measure"
  "encode_branch (green_spec blake3) = green_encode_branch" "spec_combine (green_spec blake3) = checked_followed_by"
  "invalid (green_spec blake3) = Corrupt" "from_arena (green_spec blake3) = GreenArena"
  by (simp_all add: green_spec_def)

lemma green_is_leaf: "is_leaf (green_spec blake3) p s \<Longrightarrow> leaf_reads blake3 p s"
  by (auto simp: is_leaf_def dest: leaf_Inr)

lemma green_is_branch:
  "is_branch (green_spec blake3) p m \<longleftrightarrow> take 4 p = GREEN_BRANCH_MAGIC \<and> length p = GREEN_BRANCH_BYTES \<and>
     (\<exists>c. decode_branch_measure p 4 = Some (Inr m, c))"
proof -
  have "\<exists>i j. charge_payload_bytes n i = Some j" if "n < 2 ^ 64" for n
    using that by (rule_tac exI [of _ "\<lparr>payload_bytes_inspected = 0, spec_items_hashed = 0\<rparr>"]) (simp add: charge_payload_bytes_def checked_add_def)
  then show ?thesis by (auto simp: is_branch_def green_branch_Inr)
qed

lemma green_total:
  "leaf_summary (green_spec blake3) p i \<noteq> None" "branch_measure (green_spec blake3) p i \<noteq> None" "encode_branch (green_spec blake3) m page \<noteq> None"
  using ends_leaf ends_branch_measure(1) ends_branch_measure(2) by (simp_all add: ends_def)

lemma green_decides:
  "is_leaf (green_spec blake3) p s \<Longrightarrow> leaf_summary (green_spec blake3) p i = Some (Inr q, j) \<Longrightarrow> q = Some s"
  "is_branch (green_spec blake3) p m \<Longrightarrow> branch_measure (green_spec blake3) p i = Some (Inr q', j) \<Longrightarrow> q' = Some m"
  "is_leaf (green_spec blake3) p s \<Longrightarrow> branch_measure (green_spec blake3) p i = Some (Inr None, i)"
  "is_branch (green_spec blake3) p m \<Longrightarrow> leaf_summary (green_spec blake3) p i = Some (Inr None, i)"
proof -
  show "is_leaf (green_spec blake3) p s \<Longrightarrow> leaf_summary (green_spec blake3) p i = Some (Inr q, j) \<Longrightarrow> q = Some s"
    by (cases q) (auto dest!: green_is_leaf leaf_Inr dest: leaf_reads_once simp: green_leaf_None leaf_reads_def)
  show "is_branch (green_spec blake3) p m \<Longrightarrow> branch_measure (green_spec blake3) p i = Some (Inr q', j) \<Longrightarrow> q' = Some m"
    by (cases q') (auto simp: green_is_branch green_branch_Inr green_branch_None)
  show "is_leaf (green_spec blake3) p s \<Longrightarrow> branch_measure (green_spec blake3) p i = Some (Inr None, i)"
    using magics_differ by (auto dest!: green_is_leaf simp: leaf_reads_def green_branch_None)
  show "is_branch (green_spec blake3) p m \<Longrightarrow> leaf_summary (green_spec blake3) p i = Some (Inr None, i)"
    using magics_differ by (auto simp: green_is_branch green_leaf_None)
qed

lemma green_encode_decode:
  assumes g: "green_good (sm_summary m)" "gs_events (sm_summary m) < 2 ^ 63"
    and b: "2 \<le> sm_leaves m" "sm_leaves m < 2 ^ 64" "2 \<le> sm_height m" "sm_height m < 2 ^ 16"
    and e: "encode_branch (green_spec blake3) m zero_page = Some (Inr n, page)"
  shows "0 < n \<and> n \<le> length page \<and> is_branch (green_spec blake3) (take n page) m"
proof -
  have v: "validate_summary (sm_summary m) = Inr ()" and f: "fields_ok (sm_summary m)"
    using g soundD(1) sound_fields by (auto simp: green_good_def)
  have "n = GREEN_BRANCH_BYTES" "page = branch_code m @ drop GREEN_BRANCH_BYTES zero_page"
    using e encode_branch_page [OF v f] by simp_all
  moreover have "take 4 (branch_code m) = GREEN_BRANCH_MAGIC" by (simp add: branch_code_def)
  ultimately show ?thesis
    using decode_branch_page [OF v f b] length_branch_code [OF f] by (simp add: green_is_branch)
qed

lemma green_good_combine:
  assumes "green_good x" "green_good y" "spec_combine (green_spec blake3) x y = Inr s"
  shows "green_good s" "gs_events s = gs_events x + gs_events y"
  using assms joined_sound [of x y s] by (simp_all add: green_good_def)

lemma green_good_leaf: "is_leaf (green_spec blake3) p s \<Longrightarrow> green_good s"
  unfolding green_good_def by (rule leaf_reads_sound [OF green_is_leaf])

lemma green_assoc_spec:
  assumes g: "green_good x" "green_good y" "green_good z" and few: "gs_events s < 2 ^ 63"
  shows "spec_combine (green_spec blake3) x y = Inr u \<Longrightarrow> spec_combine (green_spec blake3) u z = Inr s \<Longrightarrow>
      \<exists>v. spec_combine (green_spec blake3) y z = Inr v \<and> spec_combine (green_spec blake3) x v = Inr s"
    and "spec_combine (green_spec blake3) y z = Inr v \<Longrightarrow> spec_combine (green_spec blake3) x v = Inr s \<Longrightarrow>
      \<exists>u. spec_combine (green_spec blake3) x y = Inr u \<and> spec_combine (green_spec blake3) u z = Inr s"
proof -
  have h: "sound x" "sound y" "sound z" using g by (simp_all add: green_good_def)
  show "\<exists>v. spec_combine (green_spec blake3) y z = Inr v \<and> spec_combine (green_spec blake3) x v = Inr s"
    if a: "spec_combine (green_spec blake3) x y = Inr u" "spec_combine (green_spec blake3) u z = Inr s"
  proof -
    have "gs_events x + gs_events y + gs_events z < 2 ^ 63"
      using few green_good_combine [OF g(1,2) a(1)] green_good_combine(2) [OF _ g(3) a(2)] by simp
    then show ?thesis using green_assoc [OF h, of s] a by auto
  qed
  show "\<exists>u. spec_combine (green_spec blake3) x y = Inr u \<and> spec_combine (green_spec blake3) u z = Inr s"
    if a: "spec_combine (green_spec blake3) y z = Inr v" "spec_combine (green_spec blake3) x v = Inr s"
  proof -
    have "gs_events x + gs_events y + gs_events z < 2 ^ 63"
      using few green_good_combine [OF g(2,3) a(1)] green_good_combine(2) [OF g(1) _ a(2)] by simp
    then show ?thesis using green_assoc [OF h, of s] a by auto
  qed
qed

interpretation green: measured_spec "green_spec blake3" green_good gs_events "2 ^ 63" for blake3
  by unfold_locales (fact green_total | (rule green_decides green_good_combine green_good_leaf; assumption)
    | (rule green_encode_decode; assumption) | (rule green_assoc_spec(1); assumption) | (rule green_assoc_spec(2); assumption))+

end
