(* ===== verification/Flark_Green_Leaves.thy ===== *)
theory Flark_Green_Leaves
  imports Flark_Green_Spec
begin

text \<open>
  The leaf pages of the green sequence: the header and the events a leaf is packed with decode to the same events under the summary they
  combine to.
\<close>

subsection \<open>The events of a leaf\<close>

text \<open>The summary of a list of events, from the left.\<close>

primrec events_summary :: "(bytes \<Rightarrow> bytes) \<Rightarrow> packed_event list \<Rightarrow> green_summary \<Rightarrow> green_summary green_result" where
  "events_summary blake3 [] s = Inr s"
| "events_summary blake3 (e # es) s = and_ok (checked_followed_by s (event_summary blake3 e)) (events_summary blake3 es)"

definition events_code :: "packed_event list \<Rightarrow> bytes" where
  "events_code es = concat (map event_code es)"

lemma events_code_simps [simp]: "events_code [] = []" "events_code (e # es) = event_code e @ events_code es"
  by (simp_all add: events_code_def)

lemma parses_events:
  "\<forall>e\<in>set es. event_ok e \<Longrightarrow> events_summary blake3 es s = Inr u \<Longrightarrow> parses (\<lambda>input. fold_events blake3 input (length es) s) (events_code es) u"
proof (induction es arbitrary: s)
  case (Cons e es)
  then obtain v where v: "checked_followed_by s (event_summary blake3 e) = Inr v" "events_summary blake3 es v = Inr u"
    by (auto simp: and_ok_Inr)
  have "parses (\<lambda>input t. case packed_event_summary blake3 e of None \<Rightarrow> None
      | Some r \<Rightarrow> seq_do (seq_result (and_ok r (checked_followed_by s))) (\<lambda>observed. fold_events blake3 input (length es) observed) t)
      (events_code es) u"
    using Cons.IH [OF _ v(2)] Cons.prems(1) packed_event_summary_ok [of e blake3]
    by (simp add: parses_result v(1))
  moreover have "parses decode_packed_event (event_code e) e" using Cons.prems(1) by (simp add: parses_event)
  ultimately have "parses (\<lambda>input. seq_do (decode_packed_event input) (\<lambda>event t. case packed_event_summary blake3 event of None \<Rightarrow> None
      | Some r \<Rightarrow> seq_do (seq_result (and_ok r (checked_followed_by s))) (\<lambda>observed. fold_events blake3 input (length es) observed) t))
      (event_code e @ events_code es) u"
    by (rule parses_seq [rotated])
  then show ?case by (simp add: events_code_simps)
qed simp

lemma events_summary_sound:
  "sound s \<Longrightarrow> \<forall>e\<in>set es. event_ok e \<Longrightarrow> events_summary blake3 es s = Inr u \<Longrightarrow> sound u \<and> gs_events u = gs_events s + length es"
proof (induction es arbitrary: s)
  case (Cons e es)
  then obtain v where v: "checked_followed_by s (event_summary blake3 e) = Inr v" "events_summary blake3 es v = Inr u"
    by (auto simp: and_ok_Inr)
  then show ?case using Cons joined_sound [OF Cons.prems(1) _ v(1)] event_summary_sound [of e blake3] by simp
qed simp

subsection \<open>The page of a leaf\<close>

definition leaf_header_code :: "nat \<Rightarrow> nat \<Rightarrow> green_summary \<Rightarrow> bytes" where
  "leaf_header_code events data_bytes s = GREEN_LEAF_MAGIC @ le_bytes 4 GREEN_SCHEMA @ le_bytes 2 events @ le_bytes 2 data_bytes @ summary_code s"

lemma length_leaf_header: "fields_ok s \<Longrightarrow> length (leaf_header_code events data_bytes s) = GREEN_LEAF_HEADER_BYTES"
  by (simp add: leaf_header_code_def length_summary_code)

lemma encode_leaf_on:
  assumes v: "validate_summary s = Inr ()" and f: "fields_ok s" and n: "0 < events" "events \<le> GREEN_EVENTS_PER_PAGE_MAX" "0 < data_bytes" "data_bytes < 2 ^ 16"
    and p: "length page = ARENA_PAGE_BYTES"
  shows "encode_leaf_header events data_bytes s page =
    Some (Inr (), leaf_header_code events data_bytes s @ drop GREEN_LEAF_HEADER_BYTES page)"
proof -
  let ?w = "seq_do (write_bytes GREEN_LEAF_MAGIC) (\<lambda>_. seq_do (write_u32 GREEN_SCHEMA) (\<lambda>_. seq_do (write_u16 events) (\<lambda>_.
    seq_do (write_u16 data_bytes) (\<lambda>_. encode_summary s))))"
  have "emits ?w (leaf_header_code events data_bytes s)" unfolding leaf_header_code_def by (intro emits_do emits_bytes emits_words emits_summary v)
  then have w: "?w (page, 0) = Some (Inr (), leaf_header_code events data_bytes s @ drop GREEN_LEAF_HEADER_BYTES page, GREEN_LEAF_HEADER_BYTES)"
    using emitsD [of ?w "leaf_header_code events data_bytes s" 0 page] length_leaf_header [OF f] by (simp add: p)
  have "encode_leaf_header events data_bytes s page = (case seq_do ?w (\<lambda>_ t. if snd t \<noteq> GREEN_LEAF_HEADER_BYTES
      then seq_err (Corrupt ''recursive-green leaf header size changed'') t else seq_ok () t) (page, 0) of
      None \<Rightarrow> None | Some (r, out, _) \<Rightarrow> Some (r, out))"
    using n by (simp only: encode_leaf_header_def seq_do_assoc seq_result_ok [OF v] if_True) simp
  also have "\<dots> = Some (Inr (), leaf_header_code events data_bytes s @ drop GREEN_LEAF_HEADER_BYTES page)"
    by (simp only: seq_do_run [of ?w "(page, 0)", OF w]) simp
  finally show ?thesis .
qed

lemmas encode_leaf_page = encode_leaf_on [where page = zero_page, unfolded zero_page_def length_replicate, OF _ _ _ _ _ _ refl, folded zero_page_def]

lemma decode_leaf_header_page:
  assumes v: "validate_summary s = Inr ()" and f: "fields_ok s" and n: "0 < events" "events \<le> GREEN_EVENTS_PER_PAGE_MAX" "length data < 2 ^ 16"
  shows "decode_leaf_header (leaf_header_code events (length data) s @ data) 4 = Some (Inr (events, length data, s), GREEN_LEAF_HEADER_BYTES)"
proof -
  let ?p = "leaf_header_code events (length data) s @ data"
  have m: "events < 2 ^ 16" using n(2) by (simp add: GREEN_EVENTS_PER_PAGE_MAX_def)
  have ls: "length (summary_code s) = 180" using length_summary_code [OF f] by simp
  have a: "read_u32 ?p 4 = Some (Inr GREEN_SCHEMA, 8)"
    using parsesD [OF parses_u32 [of GREEN_SCHEMA], of GREEN_LEAF_MAGIC] n(3) by (simp add: leaf_header_code_def GREEN_SCHEMA_def ls)
  have b: "read_u16 ?p 8 = Some (Inr events, 10)"
    using parsesD [OF parses_u16 [OF m], of "GREEN_LEAF_MAGIC @ le_bytes 4 GREEN_SCHEMA"] n(3) by (simp add: leaf_header_code_def ls)
  have c: "read_u16 ?p 10 = Some (Inr (length data), 12)"
    using parsesD [OF parses_u16 [OF n(3)], of "GREEN_LEAF_MAGIC @ le_bytes 4 GREEN_SCHEMA @ le_bytes 2 events"] n(3)
    by (simp add: leaf_header_code_def ls)
  have d: "decode_summary ?p 12 = Some (Inr s, 192)"
    using parsesD [OF parses_summary [OF v f], of "GREEN_LEAF_MAGIC @ le_bytes 4 GREEN_SCHEMA @ le_bytes 2 events @ le_bytes 2 (length data)" data] n(3)
    by (simp add: leaf_header_code_def ls)
  show ?thesis using n length_leaf_header [OF f] by (simp add: decode_leaf_header_def seq_do_def a b c d)
qed

text \<open>The events of a leaf, as the packer may put them on one page.\<close>

definition leaf_ok :: "packed_event list \<Rightarrow> bool" where
  "leaf_ok es \<longleftrightarrow> es \<noteq> [] \<and> (\<forall>e\<in>set es. event_ok e) \<and> length es \<le> GREEN_EVENTS_PER_PAGE_MAX \<and> length (events_code es) < 2 ^ 16"

definition leaf_page :: "packed_event list \<Rightarrow> green_summary \<Rightarrow> bytes" where
  "leaf_page es s = leaf_header_code (length es) (length (events_code es)) s @ events_code es"

lemma leaf_ok_fields:
  assumes "leaf_ok es" "events_summary blake3 es summary_empty = Inr s"
  shows "sound s" "gs_events s = length es" "fields_ok s"
proof -
  show "sound s" "gs_events s = length es"
    using events_summary_sound [OF sound_empty _ assms(2)] assms(1) by (simp_all add: leaf_ok_def summary_empty_def)
  then show "fields_ok s" using assms(1) by (intro sound_fields) (simp_all add: leaf_ok_def GREEN_EVENTS_PER_PAGE_MAX_def)
qed

lemma decode_leaf_page:
  assumes l: "leaf_ok es" "events_summary blake3 es summary_empty = Inr s"
    and c: "charge_payload_bytes (length (leaf_page es s)) i = Some j" "charge_hashed_items (length es) j = Some k"
  shows "decode_leaf blake3 (leaf_page es s) i = Some (Inr (Some \<lparr>dg_events = length es, dg_summary = s, dg_event_bytes = events_code es\<rparr>), k)"
proof -
  note f = leaf_ok_fields [OF l]
  have n: "length es \<noteq> 0" "length es \<le> GREEN_EVENTS_PER_PAGE_MAX" "length (events_code es) < 2 ^ 16" using l(1) by (simp_all add: leaf_ok_def)
  have h: "decode_leaf_header (leaf_page es s) 4 = Some (Inr (length es, length (events_code es), s), GREEN_LEAF_HEADER_BYTES)"
    unfolding leaf_page_def using decode_leaf_header_page [OF soundD(1) [OF f(1)] f(3) _ n(2,3)] n(1) by simp
  have d: "drop GREEN_LEAF_HEADER_BYTES (leaf_page es s) = events_code es"
    using length_leaf_header [OF f(3)] by (simp add: leaf_page_def)
  have e: "fold_events blake3 (events_code es) (length es) summary_empty 0 = Some (Inr s, length (events_code es))"
    using parsesD [OF parses_events [OF _ l(2)], of "[]" "[]"] l(1) n(3) by (simp add: leaf_ok_def)
  have t: "take 4 (leaf_page es s) = GREEN_LEAF_MAGIC" by (simp add: leaf_page_def leaf_header_code_def)
  have g: "\<not> length (leaf_page es s) < GREEN_LEAF_HEADER_BYTES" using length_leaf_header [OF f(3)] by (simp add: leaf_page_def)
  have k: "length (leaf_page es s) - GREEN_LEAF_HEADER_BYTES = length (events_code es)"
    using length_leaf_header [OF f(3)] by (simp add: leaf_page_def)
  show ?thesis unfolding decode_leaf_def if_not_P [OF g] Let_def
    using t c by (simp add: seq_do_def seq_update_def starting_at_def h e d [unfolded green_sizes] k [unfolded green_sizes])
qed

lemma leaf_page_is_leaf:
  assumes "leaf_ok es" "events_summary blake3 es summary_empty = Inr s"
  shows "is_leaf (green_spec blake3) (leaf_page es s) s"
proof -
  let ?i = "\<lparr>payload_bytes_inspected = 0, spec_items_hashed = 0\<rparr>"
  let ?n = "length (leaf_page es s)"
  have "?n < 2 ^ 64" "length es < 2 ^ 64"
    using assms(1) length_leaf_header [OF leaf_ok_fields(3) [OF assms]] by (simp_all add: leaf_page_def leaf_ok_def GREEN_EVENTS_PER_PAGE_MAX_def)
  then have "charge_payload_bytes ?n ?i = Some (?i\<lparr>payload_bytes_inspected := ?n\<rparr>)"
    "charge_hashed_items (length es) (?i\<lparr>payload_bytes_inspected := ?n\<rparr>) = Some (?i\<lparr>payload_bytes_inspected := ?n, spec_items_hashed := length es\<rparr>)"
    by (simp_all add: charge_payload_bytes_def charge_hashed_items_def checked_add_def)
  from decode_leaf_page [OF assms this] show ?thesis unfolding is_leaf_def green_fields
    by (intro exI [of _ ?i] exI [of _ "?i\<lparr>payload_bytes_inspected := ?n, spec_items_hashed := length es\<rparr>"])
      (simp add: green_leaf_summary_def seq_do_def)
qed

subsection \<open>An example\<close>

text \<open>A leaf that opens one frame, under a hash of zeros.\<close>

definition demo_hash :: "bytes \<Rightarrow> bytes" where
  "demo_hash input = replicate 32 (CHR 0x00)"

definition demo_event :: packed_event where
  "demo_event = PackedEnter 1 5"

definition demo_summary :: green_summary where
  "demo_summary = joined summary_empty (event_summary demo_hash demo_event)"

lemma demo_event_ok: "event_ok demo_event" "packed_event_len demo_event = 3" "event_code demo_event = [CHR 0x01, CHR 0x01, CHR 0x05]"
proof -
  show "event_ok demo_event" by (simp add: demo_event_def event_ok_def frame_kind_ok_def)
  show "packed_event_len demo_event = 3" by (simp add: demo_event_def packed_event_len_def var_len)
  show "event_code demo_event = [CHR 0x01, CHR 0x01, CHR 0x05]"
    unfolding demo_event_def by (subst event_code_def, simp, subst var_bytes.simps, subst (2) var_bytes.simps, simp add: char_of_def bit_0)
qed

lemma demo_leaf: "leaf_ok [demo_event]" "events_summary demo_hash [demo_event] summary_empty = Inr demo_summary"
proof -
  show "leaf_ok [demo_event]" using demo_event_ok by (simp add: leaf_ok_def GREEN_EVENTS_PER_PAGE_MAX_def)
  let ?s = "event_summary demo_hash demo_event"
  have s: "sound ?s" "gs_events ?s = 1" using event_summary_sound [OF demo_event_ok(1)] by simp_all
  have "unat (gc_factor (gs_commitment ?s) ! lane) mod P61 \<noteq> 0" if "lane < COMMITMENT_LANES" for lane
    using soundD(1) [OF s(1)] that by (simp add: validate_iff valid_lanes)
  then have c: "commitment_is_valid (commitment_combine (gs_commitment summary_empty) (gs_commitment ?s))"
    by (simp add: combine_valid summary_empty_def commitment_empty_def)
  have "room summary_empty ?s"
    using s by (auto simp: room_def summary_empty_def sound_def validate_iff is_i64_def)
  then have "checked_followed_by summary_empty ?s = Inr demo_summary"
    using followed_iff [OF sound_empty s(1)] c s(2) by (simp add: demo_summary_def) (simp add: summary_empty_def)
  then show "events_summary demo_hash [demo_event] summary_empty = Inr demo_summary" by (simp add: and_ok_def)
qed

lemma demo_good: "green_good demo_summary" "gs_events demo_summary = 1"
  using leaf_ok_fields [OF demo_leaf] by (simp_all add: green_good_def)

end
