(* ===== verification/Flark_Green_Rows.thy ===== *)
theory Flark_Green_Rows
  imports Flark_Green_Leaves
begin

text \<open>
  What the green codec writes it reads again: events, the measure of a branch, the events of a leaf and the geometry of a row in close
  facts.
\<close>

subsection \<open>Events\<close>

text \<open>
  C19: An event written at a cursor with room for it reads back as the same event and the cursor past it, and nothing outside its bytes
  changes.
\<close>

theorem packed_event_round_trip:
  assumes "event_ok event" "c + packed_event_len event \<le> length page" "length page < 2 ^ 64"
  shows "\<exists>written. encode_packed_event event (page, c) = Some (Inr (), written, c + packed_event_len event) \<and>
    decode_packed_event written c = Some (Inr event, c + packed_event_len event) \<and> length written = length page \<and>
    take c written = take c page \<and> drop (c + packed_event_len event) written = drop (c + packed_event_len event) page"
proof -
  let ?n = "packed_event_len event" and ?w = "take c page @ event_code event @ drop (c + packed_event_len event) page"
  have e: "encode_packed_event event (page, c) = Some (Inr (), ?w, c + ?n)"
    using emitsD [OF emits_event [OF assms(1)], of c page] assms(2,3) by (simp add: length_event_code)
  have l: "length ?w = length page" "length (take c page) = c" using assms(2) by (simp_all add: length_event_code)
  have d: "decode_packed_event ?w c = Some (Inr event, c + ?n)"
    using parsesD [OF parses_event [OF assms(1)], of "take c page" "drop (c + ?n) page"] l assms(3) by (simp add: length_event_code)
  show ?thesis using e d l(1) assms(2) by (intro exI [of _ ?w]) (simp add: length_event_code)
qed

theorem packed_event_round_trip_witness:
  "\<exists>written. encode_packed_event (PackedEnter 300 5) (replicate 8 (CHR 0x00), 1) = Some (Inr (), written, 5) \<and>
    decode_packed_event written 1 = Some (Inr (PackedEnter 300 5), 5) \<and> length written = 8"
proof -
  have n: "packed_event_len (PackedEnter 300 5) = 4" by (simp add: packed_event_len_def var_len)
  show ?thesis using packed_event_round_trip [of "PackedEnter 300 5" 1 "replicate 8 (CHR 0x00)"]
    by (auto simp: n event_ok_def frame_kind_ok_def)
qed

text \<open>
  C18: The decoder accepts exactly the canonical bytes of the events the encoder is asked for: no event has two encodings, and whatever it
  decodes is within the contract of its kind.
\<close>

theorem packed_event_canonical:
  assumes "length input < 2 ^ 64"
  shows "decode_packed_event input c = Some (Inr event, c') \<longleftrightarrow>
    event_ok event \<and> c' = c + packed_event_len event \<and> c' \<le> length input \<and> take (packed_event_len event) (drop c input) = event_code event"
  using decode_event_Inr [of input c event c'] consumes_parses [OF parses_event _ assms, of event c c']
  by (auto simp: consumes_def length_event_code)

theorem packed_event_canonical_witness:
  "decode_packed_event [CHR 0x01, CHR 0x83, CHR 0x00, CHR 0x05] 0 \<noteq> Some (Inr (PackedEnter 3 5), 4)"
proof -
  have "event_code (PackedEnter 3 5) = [CHR 0x01, CHR 0x03, CHR 0x05]"
    by (subst event_code_def, simp, subst var_bytes.simps, subst (2) var_bytes.simps, simp add: char_of_def bit_0)
  then show ?thesis
    using packed_event_canonical [of "[CHR 0x01, CHR 0x83, CHR 0x00, CHR 0x05]" 0 "PackedEnter 3 5" 4] length_event_code [of "PackedEnter 3 5"]
    by simp
qed

subsection \<open>Pages\<close>

text \<open>
  C21: The page the sequence stores a branch in, cut to the length the encoder reports, carries exactly the measure it was given, for every
  summary that can arise below \<open>2 ^ 63\<close> events.
\<close>

theorem branch_page_round_trip:
  assumes "green_good (sm_summary m)" "gs_events (sm_summary m) < 2 ^ 63" "2 \<le> sm_leaves m" "sm_leaves m < 2 ^ 64" "2 \<le> sm_height m"
    "sm_height m < 2 ^ 16" "payload_bytes_inspected i + GREEN_BRANCH_BYTES < 2 ^ 64"
  shows "\<exists>page. green_encode_branch m zero_page = Some (Inr GREEN_BRANCH_BYTES, page) \<and>
    green_branch_measure (take GREEN_BRANCH_BYTES page) i =
      Some (Inr (Some m), i\<lparr>payload_bytes_inspected := payload_bytes_inspected i + GREEN_BRANCH_BYTES\<rparr>)"
proof -
  have v: "validate_summary (sm_summary m) = Inr ()" and f: "fields_ok (sm_summary m)"
    using assms(1,2) soundD(1) sound_fields by (auto simp: green_good_def)
  have b: "take GREEN_BRANCH_BYTES (branch_code m @ drop GREEN_BRANCH_BYTES zero_page) = branch_code m"
    using length_branch_code [OF f] by simp
  have "charge_payload_bytes (length (branch_code m)) i = Some (i\<lparr>payload_bytes_inspected := payload_bytes_inspected i + GREEN_BRANCH_BYTES\<rparr>)"
    using assms(7) length_branch_code [OF f] by (simp add: charge_payload_bytes_def checked_add_def)
  moreover have "take 4 (branch_code m) = GREEN_BRANCH_MAGIC" by (simp add: branch_code_def)
  ultimately have "green_branch_measure (branch_code m) i =
      Some (Inr (Some m), i\<lparr>payload_bytes_inspected := payload_bytes_inspected i + GREEN_BRANCH_BYTES\<rparr>)"
    using decode_branch_page [OF v f assms(3-6)] length_branch_code [OF f] by (simp add: green_branch_Inr del: green_sizes)
  then show ?thesis using encode_branch_page [OF v f] b by (intro exI [of _ "branch_code m @ drop GREEN_BRANCH_BYTES zero_page"]) simp
qed

theorem branch_page_round_trip_witness:
  "\<exists>page. green_encode_branch \<lparr>sm_summary = demo_summary, sm_leaves = 2, sm_height = 2\<rparr> zero_page = Some (Inr 198, page) \<and>
    green_branch_measure (take 198 page) \<lparr>payload_bytes_inspected = 0, spec_items_hashed = 0\<rparr> =
      Some (Inr (Some \<lparr>sm_summary = demo_summary, sm_leaves = 2, sm_height = 2\<rparr>), \<lparr>payload_bytes_inspected = 198, spec_items_hashed = 0\<rparr>)"
  using branch_page_round_trip [of "\<lparr>sm_summary = demo_summary, sm_leaves = 2, sm_height = 2\<rparr>" "\<lparr>payload_bytes_inspected = 0, spec_items_hashed = 0\<rparr>"]
    demo_good by simp

text \<open>
  C20: A leaf page of events within their contract, packed under the summary they combine to, decodes to those bytes, their number and that
  summary, and charges the inspection for both.
\<close>

theorem leaf_page_round_trip:
  assumes "leaf_ok es" "events_summary blake3 es summary_empty = Inr s"
    and "charge_payload_bytes (GREEN_LEAF_HEADER_BYTES + length (events_code es)) i = Some j" "charge_hashed_items (length es) j = Some k"
  shows "\<exists>page. encode_leaf_header (length es) (length (events_code es)) s zero_page = Some (Inr (), page) \<and>
    decode_leaf blake3 (take GREEN_LEAF_HEADER_BYTES page @ events_code es) i =
      Some (Inr (Some \<lparr>dg_events = length es, dg_summary = s, dg_event_bytes = events_code es\<rparr>), k)"
proof -
  note f = leaf_ok_fields [OF assms(1,2)]
  obtain e where "e \<in> set es" "event_ok e" using assms(1) by (cases es) (auto simp: leaf_ok_def)
  then have n: "0 < length (events_code es)"
    using event_len_bound(1) [of e] by (auto simp: events_code_def length_event_code [symmetric])
  have "encode_leaf_header (length es) (length (events_code es)) s zero_page =
      Some (Inr (), leaf_header_code (length es) (length (events_code es)) s @ drop GREEN_LEAF_HEADER_BYTES zero_page)"
    using assms(1) n by (intro encode_leaf_page [OF soundD(1) [OF f(1)] f(3)]) (simp_all add: leaf_ok_def)
  moreover have "length (leaf_page es s) = GREEN_LEAF_HEADER_BYTES + length (events_code es)"
    using length_leaf_header [OF f(3)] by (simp add: leaf_page_def)
  moreover have "decode_leaf blake3 (leaf_page es s) i =
      Some (Inr (Some \<lparr>dg_events = length es, dg_summary = s, dg_event_bytes = events_code es\<rparr>), k)"
    using decode_leaf_page [OF assms(1,2)] assms(3,4) calculation(2) by simp
  ultimately show ?thesis using length_leaf_header [OF f(3)] by (auto simp: leaf_page_def)
qed

theorem leaf_page_round_trip_witness:
  "\<exists>page. encode_leaf_header 1 3 demo_summary zero_page = Some (Inr (), page) \<and>
    decode_leaf demo_hash (take 192 page @ [CHR 0x01, CHR 0x01, CHR 0x05]) \<lparr>payload_bytes_inspected = 0, spec_items_hashed = 0\<rparr> =
      Some (Inr (Some \<lparr>dg_events = 1, dg_summary = demo_summary, dg_event_bytes = [CHR 0x01, CHR 0x01, CHR 0x05]\<rparr>),
        \<lparr>payload_bytes_inspected = 195, spec_items_hashed = 1\<rparr>)"
  using leaf_page_round_trip [OF demo_leaf, of "\<lparr>payload_bytes_inspected = 0, spec_items_hashed = 0\<rparr>"
      "\<lparr>payload_bytes_inspected = 195, spec_items_hashed = 0\<rparr>" "\<lparr>payload_bytes_inspected = 195, spec_items_hashed = 1\<rparr>"]
  by (simp add: numeral_3_eq_3 demo_event_ok(3) charge_payload_bytes_def charge_hashed_items_def checked_add_def)

subsection \<open>Summaries\<close>

text \<open>
  C17: The summaries of pages combine associatively below \<open>2 ^ 63\<close> events, checks, overflows and the commitment included: grouping the
  leaves in another way neither changes the summary nor makes a combination fail.
\<close>

theorem green_summary_associative:
  assumes "sound x" "sound y" "sound z" "gs_events x + gs_events y + gs_events z < 2 ^ 63"
  shows "(\<exists>u. checked_followed_by x y = Inr u \<and> checked_followed_by u z = Inr s) \<longleftrightarrow>
    (\<exists>v. checked_followed_by y z = Inr v \<and> checked_followed_by x v = Inr s)"
  by (rule green_assoc [OF assms])

theorem green_summary_associative_witness:
  "(\<exists>u. checked_followed_by summary_empty demo_summary = Inr u \<and> checked_followed_by u demo_summary = Inr summary_empty) \<longleftrightarrow>
   (\<exists>v. checked_followed_by demo_summary demo_summary = Inr v \<and> checked_followed_by summary_empty v = Inr summary_empty)"
proof -
  have "sound demo_summary" "gs_events demo_summary = 1" "gs_events summary_empty = 0"
    using demo_good by (simp_all add: green_good_def summary_empty_def)
  then show ?thesis using green_summary_associative [OF sound_empty, of demo_summary demo_summary] by simp
qed

subsection \<open>The geometry of a row\<close>

definition row_ok :: "row_editable \<Rightarrow> bool" where
  "row_ok r \<longleftrightarrow> cached_row_editable_new (cr_capability r) (cr_start r) (cr_end r) = Some r \<and>
     (\<forall>m\<in>{cr_start r, cr_end r}. source_metric_new (mt_bytes m) (mt_utf16 m) = Some m)"

lemma emits_vars: "emits (write_vars vs) (concat (map var_bytes vs))"
proof (induction vs)
  case (Cons v vs)
  show ?case unfolding write_vars.simps list.map concat.simps by (intro emits_do emits_var Cons)
qed (simp only: write_vars.simps list.map concat.simps emits_ok)

definition trailer_code :: "row_edit_capability \<Rightarrow> nat list \<Rightarrow> bytes" where
  "trailer_code capability vs = ROW_EDITABLE_TRAILER_MAGIC @ [char_of ROW_EDITABLE_TRAILER_VERSION] @ [char_of (capability_code capability)] @
     concat (map var_bytes vs) @ [char_of (7 + sum_list (map var_u64_len vs))]"

lemma length_vars [simp]: "length (concat (map var_bytes vs)) = sum_list (map var_u64_len vs)"
  by (induction vs) simp_all

lemma length_trailer: "length (trailer_code capability vs) = 7 + sum_list (map var_u64_len vs)"
  by (simp add: trailer_code_def ROW_EDITABLE_TRAILER_MAGIC_def)

lemma emits_trailer:
  "7 + sum_list (map var_u64_len vs) < 256 \<Longrightarrow> emits (write_trailer capability vs (7 + sum_list (map var_u64_len vs))) (trailer_code capability vs)"
  unfolding write_trailer_def trailer_code_def by (intro emits_do emits_bytes emits_words emits_vars) (simp add: emits_words)

lemma trailer_len_Inr: "trailer_len vs n = Inr m \<Longrightarrow> m = n + sum_list (map var_u64_len vs)"
  by (induction vs arbitrary: n) (fastforce simp: and_ok_Inr ok_or_def checked_add_def split: if_splits)+

definition coordinates :: "row_editable \<Rightarrow> nat list" where
  "coordinates r = [mt_bytes (cr_start r), mt_utf16 (cr_start r), mt_bytes (cr_end r), mt_utf16 (cr_end r)]"

text \<open>What the constructor returns.\<close>

lemma new_with_row_Inr:
  assumes "new_with_cached_row_editable tag semantic r = Some (Inr facts)"
  shows "facts = \<lparr>fact_tag = tag, as_bytes = semantic @ trailer_code (cr_capability r) (coordinates r)\<rparr>"
    and "\<forall>v\<in>set (coordinates r). v < 2 ^ 32" and "length semantic + length (trailer_code (cr_capability r) (coordinates r)) \<le> 64"
proof -
  let ?n = "7 + sum_list (map var_u64_len (coordinates r))" and ?out = "semantic @ replicate (CLOSE_FACTS_MAX_BYTES - length semantic) (CHR 0x00)"
  let ?t = "trailer_code (cr_capability r) (coordinates r)"
  obtain coords trailer_bytes needed where c: "coords = coordinates r" "trailer_len coords 7 = Inr trailer_bytes" "needed = length semantic + trailer_bytes"
      "needed \<le> CLOSE_FACTS_MAX_BYTES" "\<forall>v\<in>set coords. v < 2 ^ 32"
      "(case write_trailer (cr_capability r) coords trailer_bytes (?out, length semantic) of None \<Rightarrow> None | Some (Inl e, _) \<Rightarrow> Some (Inl e)
        | Some (Inr _, bytes, _) \<Rightarrow> Some (close_facts_new tag (take needed bytes))) = Some (Inr facts)"
    using assms by (auto simp: new_with_cached_row_editable_def and_ok_Inr u32_coordinate_def coordinates_def ok_or_def checked_add_def
        simp del: trailer_len.simps split: sum.splits if_splits option.splits)
  have n: "trailer_bytes = ?n" using trailer_len_Inr c(1,2) by blast
  have len: "length semantic + length ?t \<le> 64" "7 + sum_list (map var_u64_len (coordinates r)) < 256" "length ?out = 64"
    using c(3,4) n by (simp_all add: length_trailer CLOSE_FACTS_MAX_BYTES_def)
  have "write_trailer (cr_capability r) (coordinates r) ?n (?out, length semantic) =
      Some (Inr (), take (length semantic) ?out @ ?t @ drop (length semantic + length ?t) ?out, length semantic + length ?t)"
    by (rule emitsD [OF emits_trailer [OF len(2)]]) (use len in simp_all)
  then have "close_facts_new tag (take needed (semantic @ ?t @ drop (length semantic + length ?t) ?out)) = Inr facts"
    using c(1,6) unfolding n by simp
  moreover have "needed = length (semantic @ ?t)" using c(3) n by (simp add: length_trailer)
  ultimately show "facts = \<lparr>fact_tag = tag, as_bytes = semantic @ ?t\<rparr>" by (auto simp: close_facts_new_def split: if_splits)
  show "\<forall>v\<in>set (coordinates r). v < 2 ^ 32" "length semantic + length ?t \<le> 64" using c(1,5) len(1) by simp_all
qed

lemma parses_metric_v2:
  assumes "source_metric_new (mt_bytes m) (mt_utf16 m) = Some m" "mt_bytes m < 2 ^ 32" "mt_utf16 m < 2 ^ 32"
  shows "parses read_metric_v2 (var_bytes (mt_bytes m) @ var_bytes (mt_utf16 m)) m"
  unfolding read_metric_v2_def [abs_def]
  by (rule parses_seq [OF parses_var], use assms in simp, rule parses_end [OF parses_var])
    (use assms in \<open>simp_all add: cached_metric_def ok_or_def parses_def\<close>)

text \<open>The trailer of a row is read back.\<close>

lemma trailer_reads:
  assumes r: "row_ok r" and b: "\<forall>v\<in>set (coordinates r). v < 2 ^ 32" and l: "length (trailer_code (cr_capability r) (coordinates r)) \<le> 64"
  shows "trailer_metrics_v2 (trailer_code (cr_capability r) (coordinates r)) = Some (Inr (cr_start r, cr_end r))"
proof -
  let ?t = "trailer_code (cr_capability r) (coordinates r)"
  define pre where "pre = ROW_EDITABLE_TRAILER_MAGIC @ [char_of ROW_EDITABLE_TRAILER_VERSION] @ [char_of (capability_code (cr_capability r))]"
  let ?code = "\<lambda>m. var_bytes (mt_bytes m) @ var_bytes (mt_utf16 m)"
  let ?z = "[char_of (7 + sum_list (map var_u64_len (coordinates r)))]"
  have t: "?t = pre @ ?code (cr_start r) @ ?code (cr_end r) @ ?z" by (simp add: trailer_code_def coordinates_def pre_def)
  have m: "parses read_metric_v2 (?code (cr_start r)) (cr_start r)" "parses read_metric_v2 (?code (cr_end r)) (cr_end r)"
    using r b by (auto simp: row_ok_def coordinates_def intro!: parses_metric_v2)
  have p6: "length pre = 6" by (simp add: pre_def ROW_EDITABLE_TRAILER_MAGIC_def)
  have tl: "length (pre @ ?code (cr_start r) @ ?code (cr_end r) @ ?z) < 2 ^ 64" using l unfolding t by simp
  have a: "read_metric_v2 ?t 6 = Some (Inr (cr_start r), 6 + length (?code (cr_start r)))"
    using parsesD [OF m(1) tl] unfolding t p6 .
  have e: "read_metric_v2 ?t (6 + length (?code (cr_start r))) = Some (Inr (cr_end r), 6 + length (?code (cr_start r)) + length (?code (cr_end r)))"
    using parsesD [OF m(2), of "pre @ ?code (cr_start r)" ?z] tl p6 unfolding t by (simp add: add.assoc)
  have n: "length ?t = 7 + sum_list (map var_u64_len (coordinates r))" by (rule length_trailer)
  have v: "bval (last ?t) = length ?t" using l n by (simp add: t)
  have v1: "1 \<le> var_u64_len x" for x using var_len_pos [of x] by simp
  have g: "\<not> (length ?t < ROW_EDITABLE_TRAILER_V2_MIN_BYTES \<or> bval (last ?t) \<noteq> length ?t)"
    using v n v1 [of "mt_bytes (cr_start r)"] v1 [of "mt_utf16 (cr_start r)"] v1 [of "mt_bytes (cr_end r)"] v1 [of "mt_utf16 (cr_end r)"]
    by (simp add: ROW_EDITABLE_TRAILER_V2_MIN_BYTES_def coordinates_def)
  have f: "6 + length (?code (cr_start r)) + length (?code (cr_end r)) + 1 = length ?t" using n by (simp add: coordinates_def)
  show ?thesis unfolding trailer_metrics_v2_def if_not_P [OF g]
    using a e f by (simp add: seq_do_def)
qed

text \<open>
  C22: Close facts built with a row's geometry give back the semantic bytes and that geometry, however many of their own last bytes look like
  a trailer.
\<close>

theorem row_trailer_round_trip:
  assumes "row_ok r" "new_with_cached_row_editable tag semantic r = Some (Inr facts)"
  shows "split_cached_row_editable facts = Some (Inr (Some (semantic, r)))"
proof -
  let ?t = "trailer_code (cr_capability r) (coordinates r)"
  note f = new_with_row_Inr [OF assms(2)]
  have l: "length ?t \<le> 64" using f(3) by simp
  note v2 = trailer_reads [OF assms(1) f(2) l]
  have b: "as_bytes facts = semantic @ ?t" using f(1) by simp
  have n: "bval (last ?t) = length ?t" "11 \<le> length ?t" "?t \<noteq> []"
    using v2 by (auto simp: trailer_metrics_v2_def trailer_code_def ROW_EDITABLE_TRAILER_V2_MIN_BYTES_def split: if_splits)
  have h: "take 4 ?t = ROW_EDITABLE_TRAILER_MAGIC" "bval (?t ! 4) = ROW_EDITABLE_TRAILER_VERSION" "bval (?t ! 5) = capability_code (cr_capability r)"
    by (auto simp: trailer_code_def ROW_EDITABLE_TRAILER_MAGIC_def ROW_EDITABLE_TRAILER_VERSION_def capability_code_def nth_append split: row_edit_capability.splits)
  have d: "mt_bytes (cr_start r) \<le> mt_bytes (cr_end r)" "mt_utf16 (cr_start r) \<le> mt_utf16 (cr_end r)"
    using assms(1) by (auto simp: row_ok_def cached_row_editable_new_def split: if_splits)
  have k: "capability_decode (capability_code (cr_capability r)) = Inr (cr_capability r)"
    by (cases "cr_capability r") (simp_all add: capability_decode_def capability_code_def)
  have c: "cached_row_editable facts (length semantic) = Some (Inr (Some (semantic, r)))"
    using n h d k v2 by (simp add: cached_row_editable_def b Let_def ROW_EDITABLE_TRAILER_VERSION_V1_def ROW_EDITABLE_TRAILER_VERSION_def)
  have "carries_trailer (semantic @ ?t) (length semantic) ROW_EDITABLE_TRAILER_VERSION"
    using n(2) h by (simp add: carries_trailer_def nth_append)
  then show ?thesis using n c by (simp add: split_cached_row_editable_def b Let_def ROW_EDITABLE_TRAILER_V2_MIN_BYTES_def)
qed

theorem row_trailer_round_trip_witness:
  "\<exists>facts. new_with_cached_row_editable 9 ''ab'' \<lparr>cr_capability = Contiguous, cr_start = \<lparr>mt_bytes = 2, mt_utf16 = 2\<rparr>,
      cr_end = \<lparr>mt_bytes = 7, mt_utf16 = 5\<rparr>\<rparr> = Some (Inr facts) \<and>
    split_cached_row_editable facts = Some (Inr (Some (''ab'', \<lparr>cr_capability = Contiguous, cr_start = \<lparr>mt_bytes = 2, mt_utf16 = 2\<rparr>,
      cr_end = \<lparr>mt_bytes = 7, mt_utf16 = 5\<rparr>\<rparr>)))"
proof -
  let ?r = "\<lparr>cr_capability = Contiguous, cr_start = \<lparr>mt_bytes = 2, mt_utf16 = 2\<rparr>, cr_end = \<lparr>mt_bytes = 7, mt_utf16 = 5\<rparr>\<rparr>"
  let ?out = "''ab'' @ replicate (CLOSE_FACTS_MAX_BYTES - 2) (CHR 0x00)"
  have v: "var_u64_len 2 = 1" "var_u64_len 7 = 1" "var_u64_len 5 = 1" by (subst var_len, simp)+
  have w: "write_trailer Contiguous [2, 2, 7, 5] 11 (?out, length ''ab'') = Some (Inr (), take 2 ?out @ trailer_code Contiguous [2, 2, 7, 5] @ drop 13 ?out, 13)"
    using emitsD [OF emits_trailer [of "[2, 2, 7, 5]" Contiguous], of "length ''ab''" ?out] by (simp add: v length_trailer CLOSE_FACTS_MAX_BYTES_def)
  have "\<exists>facts. new_with_cached_row_editable 9 ''ab'' ?r = Some (Inr facts)"
    using w by (simp add: new_with_cached_row_editable_def u32_coordinate_def and_ok_def ok_or_def checked_add_def v CLOSE_FACTS_MAX_BYTES_def
        close_facts_new_def Let_def trailer_code_def ROW_EDITABLE_TRAILER_MAGIC_def)
  moreover have "row_ok ?r" by (simp add: row_ok_def cached_row_editable_new_def source_metric_new_def)
  ultimately show ?thesis using row_trailer_round_trip [of ?r 9 "''ab''"] by blast
qed

end
