(* ===== verification/Flark_Green_Tree.thy ===== *)
theory Flark_Green_Tree
  imports Flark_Green_Leaves Flark_Arena_System
begin

text \<open>
  The green tree in the arena: what every read and the splice of the measured sequence do on it, for the pages of the green codec.
\<close>

subsection \<open>Stored green trees\<close>

definition green_stored :: "(bytes \<Rightarrow> bytes) \<Rightarrow> page_arena \<Rightarrow> green_summary seq_tree \<Rightarrow> bool" where
  "green_stored blake3 a t \<longleftrightarrow> holds (green_spec blake3) a t \<and> gs_events (tsum t) < 2 ^ 63"

text \<open>How a read of a stored tree refuses: a counter is full, or the budget of the inspection is spent.\<close>

definition green_refusal :: "green_error \<Rightarrow> bool" where
  "green_refusal e \<longleftrightarrow> e = CounterOverflow \<or> (\<exists>m\<in>set read_messages. e = Corrupt m)"

lemma leaf_refuses:
  assumes "leaf_reads blake3 p s" "green_leaf_summary blake3 p i = Some (Inl e, j)"
  shows "e = CounterOverflow"
proof -
  obtain events data_bytes cursor where r: "take 4 p = GREEN_LEAF_MAGIC" "decode_leaf_header p 4 = Some (Inr (events, data_bytes, s), cursor)"
      "fold_events blake3 (drop cursor p) events summary_empty 0 = Some (Inr s, length (drop cursor p))"
      "\<not> length p < GREEN_LEAF_HEADER_BYTES"
    using assms(1) unfolding leaf_reads_def by (auto simp: decode_leaf_header_def seq_do_Inr split: if_splits)
  show ?thesis
    using assms(2) r(1) unfolding green_leaf_summary_def decode_leaf_def if_not_P [OF r(4)] Let_def
    by (auto simp: seq_do_def seq_update_def starting_at_def r(2,3) split: option.splits)
qed

lemma branch_refuses:
  assumes "is_branch (green_spec blake3) p m" "green_branch_measure p i = Some (Inl e, j)"
  shows "e = CounterOverflow"
proof -
  obtain c where r: "take 4 p = GREEN_BRANCH_MAGIC" "length p = GREEN_BRANCH_BYTES" "decode_branch_measure p 4 = Some (Inr m, c)"
    using assms(1) by (auto simp: green_is_branch)
  show ?thesis using assms(2) r(1,2)
    by (auto simp: green_branch_measure_def seq_do_def seq_update_def starting_at_def r(3) split: option.splits)
qed

lemma green_refusalI: "read_refusal (green_spec blake3) e \<Longrightarrow> green_refusal e"
proof -
  have "e = CounterOverflow" if "charge_refusal (green_spec blake3) e"
    using that leaf_refuses leaf_Inr branch_refuses unfolding charge_refusal_def is_branch_def green_fields by blast
  then show "read_refusal (green_spec blake3) e \<Longrightarrow> green_refusal e" by (auto simp: read_refusal_def green_refusal_def)
qed

lemma green_storedD:
  assumes "green_stored blake3 a t"
  shows "holds (green_spec blake3) a t" "green.small (tsum t)"
  using assms unfolding green_stored_def green.small_def by blast+

lemma green_runs:
  "runs (\<lambda>e _. read_refusal (green_spec blake3) e) m i Q \<Longrightarrow> (\<And>x u. Q x u \<Longrightarrow> P x u) \<Longrightarrow> runs (\<lambda>e _. green_refusal e) m i P"
  by (erule runs_conseq) (auto intro: green_refusalI)

text \<open>The counts of a summary, which a position of the tree is measured in.\<close>

definition green_metrics :: "(green_summary \<Rightarrow> nat) set" where
  "green_metrics = {gs_events, gs_physical_bytes, gs_physical_utf16, gs_logical_bytes, gs_logical_utf16, gs_enters, gs_row_exits, gs_event_bytes}"

lemma green_additive: "metric \<in> green_metrics \<Longrightarrow> green.additive_metric blake3 metric"
  unfolding green.additive_metric_def green_fields
proof (intro conjI allI impI)
  assume m: "metric \<in> green_metrics"
  show "metric s < 2 ^ 64" if "green_good s" for s using that m unfolding green_metrics_def green_good_def sound_def by blast
  show "metric s = metric x + metric y" if "green_good x" "green_good y" "checked_followed_by x y = Inr s" for x y s
  proof -
    have "s = joined x y" using that followed_by_ok [OF soundD(1) soundD(1)] by (auto simp: green_good_def)
    then show ?thesis using m by (auto simp: green_metrics_def)
  qed
qed

subsection \<open>An example\<close>

text \<open>An arena for two nodes with one build, which owns one leaf page.\<close>

definition green_limits :: arena_limits where
  "green_limits = \<lparr>max_slots = 2, max_live_payload_bytes = 8192, max_children_per_node = 2\<rparr>"

definition green_page :: bytes where
  "green_page = leaf_page [demo_event] demo_summary"

definition green_full :: page_arena where
  "green_full = demo_open\<lparr>limits := green_limits, segments := [(replicate SLOTS_PER_SEGMENT vacant_slot)[0 := fill_slot green_page [] vacant_slot]],
     next_unused := 1, resident_nodes := 1, live_payload_bytes := 195, builds := [vacant_build\<lparr>b_state := Active, b_owners := [demo_root]\<rparr>]\<rparr>"

definition green_world :: world where
  "green_world = (fresh_world green_full)\<lparr>w_session := Some demo_build\<rparr>"

definition green_leaf :: "green_summary seq_tree" where
  "green_leaf = TLeaf demo_root demo_summary"

lemma length_green_page: "length green_page = 195"
  using length_leaf_header [OF leaf_ok_fields(3) [OF demo_leaf]] demo_event_ok(3) by (simp add: green_page_def leaf_page_def)

lemma green_world_reachable: "arena_reachable green_world"
proof -
  let ?new = "demo_new\<lparr>limits := green_limits\<rparr>" and ?open = "demo_open\<lparr>limits := green_limits\<rparr>"
  have a: "arena_new (\<lambda>_. True) 1 green_limits = (Inr ?new, 2)"
    by (simp add: green_limits_def demo_defs arena_new_def identity_allocate_def SLOTS_PER_SEGMENT_def)
  have b: "begin_build (\<lambda>_. True) ?new = Some (Inr demo_build, ?open)"
    by (simp add: green_limits_def demo_defs begin_build_def acquire_build_slot_def build_slot_def build_slot_mut_def vacant_build_def)
  have c: "session_allocate (\<lambda>_. True) ?open demo_build green_page [] = Some (Inr demo_owner, green_full)"
    using length_green_page
    by (simp add: green_full_def green_limits_def demo_defs session_allocate_def validate_build_def build_slot_def build_slot_mut_def reserve_build_owners_def
        checked_add_def vacant_build_def allocate_owned_def ARENA_PAGE_BYTES_def validate_child_ref_increments_def acquire_slot_def install_node_def
        slot_mut_def slot_def SLOTS_PER_SEGMENT_def Let_def fill_slot_def vacant_slot_def)
  have "arena_step (fresh_world ?new) ((fresh_world ?open)\<lparr>w_session := Some demo_build\<rparr>)"
    using arena_step.begin_ok [of "fresh_world ?new" "\<lambda>_. True" demo_build ?open] b by (simp add: fresh_world_def)
  moreover have "arena_step ((fresh_world ?open)\<lparr>w_session := Some demo_build\<rparr>) green_world"
    using arena_step.allocate [of "(fresh_world ?open)\<lparr>w_session := Some demo_build\<rparr>" demo_build "\<lambda>_. True" green_page "[]" _ green_full] c
    by (simp add: fresh_world_def green_world_def)
  ultimately show ?thesis using a unfolding arena_reachable_def by (meson r_into_rtranclp rtranclp.rtrancl_into_rtrancl)
qed

lemma green_leaf_stored: "green_stored demo_hash (w_arena green_world) green_leaf"
proof -
  have "live_at green_full demo_root \<and> node_of green_full demo_root = (Some green_page, Some [])"
    by (simp add: live_at_def node_of_def green_full_def demo_defs slots_def SLOTS_PER_SEGMENT_def fill_slot_def vacant_slot_def)
  moreover have "is_leaf (green_spec demo_hash) green_page demo_summary" unfolding green_page_def by (rule leaf_page_is_leaf [OF demo_leaf])
  ultimately show ?thesis using demo_good by (simp add: green_stored_def green_leaf_def green_world_def fresh_world_def)
qed

subsection \<open>Reads\<close>

text \<open>
  C15: A range summary of a stored green tree is the combination of exactly the leaves of the range, in order; the only errors are a full
  counter and a spent inspection budget.
\<close>

theorem green_range_exact:
  assumes "arena_reachable w" "green_stored blake3 (w_arena w) t" "rs \<le> re" "re \<le> tcount t"
  shows "runs (\<lambda>e _. green_refusal e) (ref_range_summary (green_spec blake3) (w_arena w) (Some (troot t)) rs re) i
    (\<lambda>x _. x = fold_summaries (green_spec blake3) (take (re - rs) (drop rs (summaries t))))"
  unfolding ref_range_summary_def option.case
  by (rule green_runs [OF green.runs_range [OF worldD(1) [OF reachable_inv [OF assms(1)]] green_storedD [OF assms(2)] assms(3,4)]])

theorem green_range_exact_witness:
  "runs (\<lambda>e _. green_refusal e) (ref_range_summary (green_spec demo_hash) (w_arena green_world) (Some (troot green_leaf)) 0 1) default_inspection
    (\<lambda>x _. x = Some demo_summary)"
  using green_range_exact [OF green_world_reachable green_leaf_stored, of 0 1 default_inspection] by (simp add: green_leaf_def)

text \<open>
  C14: Locating a position of the tree, in events, bytes, UTF-16 units, frames or rows, finds the one leaf that holds it, with its index and
  the summary of everything before it, and nothing exactly past the end.
\<close>

theorem green_locate_exact:
  assumes "arena_reachable w" "green_stored blake3 (w_arena w) t" "metric \<in> green_metrics"
  shows "runs (\<lambda>e _. green_refusal e) (locate_leaf_containing_metric (green_spec blake3) (w_arena w) (Some (troot t)) position metric) i
    (\<lambda>x _. if position < metric (tsum t)
       then \<exists>k. holds_position metric (summaries t) position k \<and> x = Some (located_at (green_spec blake3) [] t k k) else x = None)"
  by (rule green_runs [OF green.runs_locate_containing [OF worldD(1) [OF reachable_inv [OF assms(1)]] green_storedD [OF assms(2)]
        green_additive [OF assms(3)]]])

theorem green_locate_exact_witness:
  "runs (\<lambda>e _. green_refusal e) (locate_leaf_containing_metric (green_spec demo_hash) (w_arena green_world) (Some (troot green_leaf)) 0 gs_events)
     default_inspection (\<lambda>x _. x = Some (located_at (green_spec demo_hash) [] green_leaf 0 0))"
proof -
  have "gs_events \<in> green_metrics" by (simp add: green_metrics_def)
  from green_locate_exact [OF green_world_reachable green_leaf_stored this, of 0 default_inspection]
  show ?thesis by (rule runs_mono) (auto simp: green_leaf_def demo_good holds_position_def)
qed

text \<open>
  C13: An ordered visit from an event calls the visitor on exactly the leaves from the one that holds the event, in order and each with its
  prefix, until the visitor stops or fails, and its receipt counts them.
\<close>

theorem green_visit_in_order:
  assumes "arena_reachable w" "green_stored blake3 (w_arena w) t" "holds_position gs_events (summaries t) position k"
  shows "case visit_leaves_from_metric (green_spec blake3) (w_arena w) (Some (troot t)) position gs_events visitor (i, v) of
      None \<Rightarrow> False
    | Some (Inl e, _, v') \<Rightarrow> green_refusal e \<or> visit_list visitor (located_from (green_spec blake3) [] t 0 k) 0 v = (Inl e, v')
    | Some (Inr x, _, v') \<Rightarrow> visit_list visitor (located_from (green_spec blake3) [] t 0 k) 0 v = (Inr x, v')"
proof -
  have m: "green.additive_metric blake3 gs_events" by (rule green_additive) (simp add: green_metrics_def)
  have p: "\<And>s. green_good s \<Longrightarrow> 0 < gs_events s" by (simp add: green_good_def)
  have "returns (\<lambda>e u. read_refusal (green_spec blake3) e \<or> visit_list visitor (located_from (green_spec blake3) [] t 0 k) 0 v = (Inl e, snd u))
      (visit_leaves_from_metric (green_spec blake3) (w_arena w) (Some (troot t)) position gs_events visitor (i, v))
      (\<lambda>x u. visit_list visitor (located_from (green_spec blake3) [] t 0 k) 0 v = (Inr x, snd u))"
    using green.visit_ends_from [OF worldD(1) [OF reachable_inv [OF assms(1)]] green_storedD [OF assms(2)] m p assms(3), of visitor "(i, v)"] by simp
  then obtain r u where r: "visit_leaves_from_metric (green_spec blake3) (w_arena w) (Some (troot t)) position gs_events visitor (i, v) = Some (r, u)"
      "case r of Inl e \<Rightarrow> read_refusal (green_spec blake3) e \<or> visit_list visitor (located_from (green_spec blake3) [] t 0 k) 0 v = (Inl e, snd u)
       | Inr x \<Rightarrow> visit_list visitor (located_from (green_spec blake3) [] t 0 k) 0 v = (Inr x, snd u)"
    unfolding returns_def by blast
  show ?thesis unfolding r(1) option.case using r(2) green_refusalI by (cases u) (auto split: sum.splits)
qed

theorem green_visit_in_order_witness:
  "case visit_leaves_from_metric (green_spec demo_hash) (w_arena green_world) (Some (troot green_leaf)) 0 gs_events
      (\<lambda>x v. (Inr Continue, v @ [ll_ordinal x])) (default_inspection, []) of
      None \<Rightarrow> False | Some (Inl e, _, v') \<Rightarrow> green_refusal e | Some (Inr x, _, v') \<Rightarrow> x = \<lparr>leaves_visited = 1, visitor_stopped = False\<rparr> \<and> v' = [0]"
proof -
  have "holds_position gs_events (summaries green_leaf) 0 0" by (simp add: holds_position_def green_leaf_def demo_good)
  from green_visit_in_order [OF green_world_reachable green_leaf_stored this,
      where visitor = "\<lambda>x v. (Inr Continue, v @ [ll_ordinal x])" and i = default_inspection and v = "[]"]
  show ?thesis by (auto simp: green_leaf_def located_from_def located_at_def split: option.splits sum.splits)
qed

text \<open>
  C16: The monotone partition stops at the first leaf of the range, in its direction, with which the accumulated summary satisfies the
  predicate, having tested no earlier accumulation positive; it finds none when the summary of the whole range does not.
\<close>

theorem green_partition_first:
  assumes "arena_reachable w" "green_stored blake3 (w_arena w) t" "rs < re" "re \<le> tcount t"
  shows "runs (\<lambda>e _. green_refusal e) (locate_leaf_by_monotone_summary (green_spec blake3) (w_arena w) (Some (troot t)) rs re d (\<lambda>s. Inr (p s))) i
    (\<lambda>x _. case x of
       None \<Rightarrow> \<forall>s. fold_summaries (green_spec blake3) (part (summaries t) 0 rs re) = Some s \<longrightarrow> \<not> p s
     | Some y \<Rightarrow> \<exists>k<tcount t. rs \<le> k \<and> k < re \<and> (let visited = taken_before d (summaries t) 0 rs re k; s = snd (tleaves t ! k) in
         y = \<lparr>lp_id = fst (tleaves t ! k), lp_ordinal = k, lp_summary = s, lp_accumulated = fold_summaries (green_spec blake3) visited\<rparr> \<and>
         (\<forall>u. fold_summaries (green_spec blake3) visited = Some u \<longrightarrow> \<not> p u) \<and>
         (\<exists>u. fold_summaries (green_spec blake3) (grow d visited [s]) = Some u \<and> p u)))"
  by (rule green_runs [OF green.runs_partition_leaf [OF worldD(1) [OF reachable_inv [OF assms(1)]] green_storedD [OF assms(2)] assms(3,4)]])
    (auto simp: green.not_crossed_def green.crosses_def green.stops_at_def Let_def split: option.splits)

theorem green_partition_first_witness:
  "runs (\<lambda>e _. green_refusal e) (locate_leaf_by_monotone_summary (green_spec demo_hash) (w_arena green_world) (Some (troot green_leaf)) 0 1 Forward
      (\<lambda>s. Inr (0 < gs_events s))) default_inspection
    (\<lambda>x _. x = Some \<lparr>lp_id = demo_root, lp_ordinal = 0, lp_summary = demo_summary, lp_accumulated = None\<rparr>)"
proof -
  have n: "(0 :: nat) < 1" "1 \<le> tcount green_leaf" by (simp_all add: green_leaf_def)
  from green_partition_first [OF green_world_reachable green_leaf_stored n, of Forward "\<lambda>s. 0 < gs_events s" default_inspection]
  show ?thesis by (rule runs_mono) (auto simp: green_leaf_def demo_good part_def taken_before_def split: option.splits)
qed

subsection \<open>The splice\<close>

text \<open>The handles a build session owns.\<close>

definition owners :: "page_arena \<Rightarrow> arena_build_id \<Rightarrow> arena_id multiset" where
  "owners a i = mset (b_owners (bat a (bid_slot i)))"

text \<open>
  C2: A splice of a committed green tree with a tree of the session yields, in the session, a balanced stored tree whose leaves are the
  base's before the range, the replacement's, and the base's after it, all shared; it consumes the replacement, or fails without a panic.
  Either way every committed tree is still stored as it was. The base and the replacement together hold fewer than \<open>2 ^ 63\<close> events.
\<close>

theorem green_splice_exact:
  fixes rep :: "green_summary seq_tree option" and base :: "green_summary seq_tree"
  assumes "arena_reachable w" "w_session w = Some i" "green_stored blake3 (w_arena w) base" "\<forall>r. rep = Some r \<longrightarrow> green_stored blake3 (w_arena w) r"
    and "owners (w_arena w) i = image_mset troot (omset rep) + F" and few: "gs_events (tsum base) + (\<Sum>r\<in>#omset rep. gs_events (tsum r)) < 2 ^ 63"
    and "rs \<le> re" "re \<le> tcount base"
  shows "\<exists>r b receipt'. splice_measured_sequence_atomic mem (green_spec blake3) i (Some (troot base)) rs re (map_option (own i) rep) (w_arena w, receipt) =
      Some (r, b, receipt') \<and>
    (\<forall>c\<in>#w_roots w. \<forall>y. troot y = c \<longrightarrow> green_stored blake3 (w_arena w) y \<longrightarrow> green_stored blake3 b y) \<and>
    (case r of Inl e \<Rightarrow> edit_refusal (green_spec blake3) e
     | Inr x \<Rightarrow> \<exists>t. x = map_option (own i) t \<and> oleaves t = take rs (tleaves base) @ oleaves rep @ drop re (tleaves base) \<and>
         (\<forall>y. t = Some y \<longrightarrow> green_stored blake3 b y) \<and> owners b i = image_mset troot (omset t) + F)"
proof -
  let ?a = "w_arena w"
  note inv = worldD(1) [OF reachable_inv [OF assms(1)]]
  have i: "names ?a Active i" using worldD(2) [OF reachable_inv [OF assms(1)]] assms(2) by simp
  have h: "green.held blake3 (w_roots w) i (fst (?a, receipt)) (omset rep + {#}) F"
    unfolding green.held_def green.load_def
    using inv i assms(4,5) few by (cases rep) (auto simp: has_def owners_def green_stored_def)
  have l: "green.load (add_mset base (omset rep + {#})) < 2 ^ 63"
    using few unfolding green.load_def by simp
  have s: "since (w_roots w) ?a (fst (?a, receipt))" using since_refl [OF inv] by simp
  have "holds (green_spec blake3) (fst (?a, receipt)) base" using green_storedD [OF assms(3)] by simp
  note splice = green.runs_splice [OF h s this l assms(7,8)]
  have keep: "\<forall>c\<in>#w_roots w. \<forall>y. troot y = c \<longrightarrow> green_stored blake3 ?a y \<longrightarrow> green_stored blake3 b y" if "since (w_roots w) ?a b" for b
    using green.committed_holds [OF that] by (auto simp: green_stored_def)
  show ?thesis
  proof (rule runsE [OF splice, of mem], goal_cases)
    case (1 e u)
    then show ?case using keep [of "fst u"] by (cases u) auto
  next
    case (2 x u)
    then obtain t where t: "x = map_option (own i) t" "oleaves t = take rs (tleaves base) @ oleaves rep @ drop re (tleaves base)"
        "since (w_roots w) ?a (fst u)" "green.held blake3 (w_roots w) i (fst u) (omset t + {#}) F"
      unfolding green.yields_optional_def by blast
    have "green_stored blake3 (fst u) y" if "t = Some y" for y
      using green.heldD(2,3) [OF t(4)] that unfolding green.load_def by (simp add: green_stored_def)
    moreover have "owners (fst u) i = image_mset troot (omset t) + F" using green.heldD(1) [OF t(4)] by (simp add: has_def owners_def)
    ultimately show ?case using 2 t keep [of "fst u"] by (cases u) auto
  qed
qed

theorem green_splice_exact_witness:
  "\<exists>r b receipt'. splice_measured_sequence_atomic (\<lambda>_. True) (green_spec demo_hash) demo_build (Some (troot green_leaf)) 0 1 None
      (w_arena green_world, default_mutation_receipt) = Some (r, b, receipt') \<and>
    (case r of Inl e \<Rightarrow> edit_refusal (green_spec demo_hash) e | Inr x \<Rightarrow> x = None \<and> owners b demo_build = {#demo_root#})"
proof -
  have s: "w_session green_world = Some demo_build" by (simp add: green_world_def)
  have o: "owners (w_arena green_world) demo_build = image_mset troot (omset None) + {#demo_root#}"
    by (simp add: owners_def green_world_def fresh_world_def green_full_def demo_build_def)
  have f: "gs_events (tsum green_leaf) + (\<Sum>r\<in>#omset None. gs_events (tsum r)) < 2 ^ 63" by (simp add: green_leaf_def demo_good)
  have n: "(1 :: nat) \<le> tcount green_leaf" by (simp add: green_leaf_def)
  have p: "\<forall>r. None = Some r \<longrightarrow> green_stored demo_hash (w_arena green_world) r" by simp
  have e: "take 0 (tleaves green_leaf) @ oleaves None @ drop 1 (tleaves green_leaf) = []" by (simp add: green_leaf_def)
  from green_splice_exact [OF green_world_reachable s green_leaf_stored p o f le0 n, of "\<lambda>_. True" default_mutation_receipt]
  obtain r b receipt' where r: "splice_measured_sequence_atomic (\<lambda>_. True) (green_spec demo_hash) demo_build (Some (troot green_leaf)) 0 1 None
      (w_arena green_world, default_mutation_receipt) = Some (r, b, receipt')"
    "case r of Inl e \<Rightarrow> edit_refusal (green_spec demo_hash) e
     | Inr x \<Rightarrow> \<exists>t. x = map_option (own demo_build) t \<and> oleaves t = [] \<and> (\<forall>y. t = Some y \<longrightarrow> green_stored demo_hash b y) \<and>
         owners b demo_build = image_mset troot (omset t) + {#demo_root#}"
    unfolding e option.map by blast
  have "x = None \<and> owners b demo_build = {#demo_root#}" if k: "r = Inr x" for x
  proof -
    obtain t :: "green_summary seq_tree option" where t: "x = map_option (own demo_build) t" "oleaves t = []" "owners b demo_build = image_mset troot (omset t) + {#demo_root#}"
      using r(2) unfolding k sum.case by blast
    then have "t = None" by (cases t) auto
    then show ?thesis using t by simp
  qed
  then show ?thesis using r by (intro exI [of _ r] exI [of _ b] exI [of _ receipt']) (auto split: sum.splits)
qed

end
