(* ===== verification/Flark_Green_Packing.thy ===== *)
theory Flark_Green_Packing
  imports Flark_Green Flark_Sequence_Builder
begin

text \<open>
  \<^verbatim>\<open>build_replacement_pages\<close> and \<^verbatim>\<open>push_replacement_page\<close> of \<^verbatim>\<open>flark_engine/src/recursive_green/splice.rs\<close>: events are packed into pages, each page becomes a
  leaf of the resumable builder, and the builder is polled until it has the root of a tree over them.
\<close>

text \<open>\<^verbatim>\<open>while poll()? != Complete {}\<close>; a loop that does not end has no value.\<close>

partial_function (option) poll_until :: "('t, 'e, sequence_progress) seq_run \<Rightarrow> ('t, 'e, unit) seq_run" where
  "poll_until poll t =
     (case poll t of
        None \<Rightarrow> None
      | Some (r, u) \<Rightarrow>
          (case r of Inl e \<Rightarrow> Some (Inl e, u)
           | Inr progress \<Rightarrow> if progress = ProgressComplete then Some (Inr (), u) else poll_until poll u))"

text \<open>The page being filled: \<^verbatim>\<open>page\<close>, \<^verbatim>\<open>page_len\<close>, \<^verbatim>\<open>page_events\<close> and \<^verbatim>\<open>page_summary\<close>.\<close>

record page_draft =
  dr_page :: bytes
  dr_len :: nat
  dr_events :: nat
  dr_summary :: green_summary

definition empty_draft :: page_draft where
  "empty_draft = \<lparr>dr_page = zero_page, dr_len = GREEN_LEAF_HEADER_BYTES, dr_events = 0, dr_summary = summary_empty\<rparr>"

type_synonym 'a pack_run = "((edit_state \<times> sequence_builder) \<times> page_draft, green_error, 'a) seq_run"

text \<open>The slice of the page panics when it is out of range.\<close>

definition push_replacement_page :: "(alloc_request \<Rightarrow> bool) \<Rightarrow> scratch_layout \<Rightarrow> (bytes \<Rightarrow> bytes) \<Rightarrow> arena_build_id \<Rightarrow> page_draft \<Rightarrow>
    (green_error, unit) build_run" where
  "push_replacement_page mem ly blake3 session d t =
     (case encode_leaf_header (dr_events d) (dr_len d - GREEN_LEAF_HEADER_BYTES) (dr_summary d) (dr_page d) of
        None \<Rightarrow> None
      | Some (Inl e, _) \<Rightarrow> Some (Inl e, t)
      | Some (Inr _, page) \<Rightarrow>
          if dr_len d > length page then None
          else
            seq_do (seq_on_fst (changing (green_spec blake3) (\<lambda>a. session_allocate mem a session (take (dr_len d) page) []))) (\<lambda>leaf.
            seq_do (begin_push ly (green_spec blake3) session leaf) (\<lambda>_.
            poll_until (poll_push mem ly (green_spec blake3) session))) t)"

text \<open>One event written at the end of the page.\<close>

definition append_event :: "(bytes \<Rightarrow> bytes) \<Rightarrow> packed_event \<Rightarrow> page_draft \<Rightarrow> page_draft green_result option" where
  "append_event blake3 event d =
     (case packed_event_summary blake3 event of
        None \<Rightarrow> None
      | Some r \<Rightarrow>
          (case and_ok r (checked_followed_by (dr_summary d)) of
             Inl e \<Rightarrow> Some (Inl e)
           | Inr s \<Rightarrow>
               (case encode_packed_event event (dr_page d, dr_len d) of
                  None \<Rightarrow> None
                | Some (Inl e, _) \<Rightarrow> Some (Inl e)
                | Some (Inr _, page, len) \<Rightarrow>
                    Some (if dr_events d + 1 < 2 ^ 16
                          then Inr \<lparr>dr_page = page, dr_len = len, dr_events = dr_events d + 1, dr_summary = s\<rparr>
                          else Inl CounterOverflow))))"

definition page_holds :: "nat \<Rightarrow> page_draft \<Rightarrow> bool" where
  "page_holds event_len d = (case checked_add (dr_len d) event_len of None \<Rightarrow> False | Some next \<Rightarrow> next \<le> ARENA_PAGE_BYTES)"

definition pack_event :: "(alloc_request \<Rightarrow> bool) \<Rightarrow> scratch_layout \<Rightarrow> (bytes \<Rightarrow> bytes) \<Rightarrow> arena_build_id \<Rightarrow> packed_event \<Rightarrow> unit pack_run" where
  "pack_event mem ly blake3 session event =
     (let event_len = packed_event_len event in
      seq_do (seeing (\<lambda>d.
        if dr_events d > 0 \<and> (dr_events d \<ge> GREEN_EVENTS_PER_PAGE_MAX \<or> \<not> page_holds event_len d) then
          seq_do (seq_on_fst (push_replacement_page mem ly blake3 session d)) (\<lambda>_. altering (\<lambda>_. empty_draft))
        else seq_ok ())) (\<lambda>_.
      seq_do (ensuring (Corrupt ''recursive-green replacement event exceeds one storage page'') (page_holds event_len)) (\<lambda>_.
      seeing (\<lambda>d. case append_event blake3 event d of
          None \<Rightarrow> (\<lambda>_. None)
        | Some (Inl e) \<Rightarrow> seq_err e
        | Some (Inr d') \<Rightarrow> altering (\<lambda>_. d')))))"

primrec pack_events :: "(alloc_request \<Rightarrow> bool) \<Rightarrow> scratch_layout \<Rightarrow> (bytes \<Rightarrow> bytes) \<Rightarrow> arena_build_id \<Rightarrow> packed_event list \<Rightarrow> unit pack_run" where
  "pack_events mem ly blake3 session [] = seq_ok ()"
| "pack_events mem ly blake3 session (event # events) =
     seq_do (pack_event mem ly blake3 session event) (\<lambda>_. pack_events mem ly blake3 session events)"

text \<open>A run on a structure of its own, dropped at the end.\<close>

definition with_local :: "'u \<Rightarrow> ('t \<times> 'u, 'e, 'a) seq_run \<Rightarrow> ('t, 'e, 'a) seq_run" where
  "with_local x m t = (case m (t, x) of None \<Rightarrow> None | Some (r, u) \<Rightarrow> Some (r, fst u))"

definition build_replacement_pages :: "(alloc_request \<Rightarrow> bool) \<Rightarrow> scratch_layout \<Rightarrow> (bytes \<Rightarrow> bytes) \<Rightarrow> arena_build_id \<Rightarrow> packed_event list \<Rightarrow>
    (green_error, arena_build_owner) edit" where
  "build_replacement_pages mem ly blake3 session events =
     (let sp = green_spec blake3 in
      seq_do (builder_try_new mem ly sp session) (\<lambda>builder.
      with_local builder (with_local empty_draft (
        seq_do (pack_events mem ly blake3 session events) (\<lambda>_.
        seq_do (ensuring InvalidEvent (\<lambda>d. dr_events d \<noteq> 0)) (\<lambda>_.
        seq_do (seeing (\<lambda>d. seq_on_fst (push_replacement_page mem ly blake3 session d))) (\<lambda>_.
        seq_do (seq_on_fst (begin_finish ly sp session)) (\<lambda>_.
        seq_do (seq_on_fst (poll_until (poll_finish mem ly sp session))) (\<lambda>_.
        seq_on_fst (builder_take_root sp session))))))))))"

end
