(* ===== verification/Flark_Green_Packed.thy ===== *)
theory Flark_Green_Packed
  imports Flark_Green_Packing Flark_Sequence_Builds Flark_Green_Tree
begin

text \<open>
  Packing events into a new tree of the session: every page that is pushed holds the next events, the builder keeps the pages in their
  order, and the loops that poll it end.
\<close>

subsection \<open>Polling to the end\<close>

lemma runs_poll_until: "completes E poll n t Q \<Longrightarrow> runs E (poll_until poll) t (\<lambda>_. Q)"
proof (induction n arbitrary: t)
  case (Suc n)
  from Suc.prems[unfolded completes.simps] show ?case
    by (cases rule: runsE) (use Suc.IH in \<open>auto simp: runs_def poll_until.simps [of poll t] split: if_splits\<close>)
qed simp

lemma runs_with_local: "runs (\<lambda>e u. E e (fst u)) m (t, x) (\<lambda>y u. Q y (fst u)) \<Longrightarrow> runs E (with_local x m) t Q"
  by (erule runsE) (simp_all add: runs_def with_local_def)

subsection \<open>The page being filled\<close>

lemma events_summary_snoc:
  "events_summary blake3 (es @ [e]) s = and_ok (events_summary blake3 es s) (\<lambda>u. checked_followed_by u (event_summary blake3 e))"
proof (induction es arbitrary: s)
  case Nil
  then show ?case by (cases "checked_followed_by s (event_summary blake3 e)") simp_all
next
  case (Cons d es)
  then show ?case by (cases "checked_followed_by s (event_summary blake3 d)") simp_all
qed

lemma events_code_snoc: "events_code (es @ [e]) = events_code es @ event_code e"
  by (simp add: events_code_def)

definition drafted :: "(bytes \<Rightarrow> bytes) \<Rightarrow> packed_event list \<Rightarrow> page_draft \<Rightarrow> bool" where
  "drafted blake3 es d \<longleftrightarrow> (\<forall>e\<in>set es. event_ok e) \<and> events_summary blake3 es summary_empty = Inr (dr_summary d) \<and>
     length es \<le> GREEN_EVENTS_PER_PAGE_MAX \<and> dr_events d = length es \<and> dr_len d = GREEN_LEAF_HEADER_BYTES + length (events_code es) \<and>
     dr_len d \<le> ARENA_PAGE_BYTES \<and>
     dr_page d = take GREEN_LEAF_HEADER_BYTES zero_page @ events_code es @ drop (dr_len d) zero_page"

lemma drafted_empty: "drafted blake3 [] empty_draft"
  using replicate_add [of 192 3904 "CHR 0x00"] by (simp add: drafted_def empty_draft_def zero_page_def ARENA_PAGE_BYTES_def)

lemma drafted_append:
  assumes d: "drafted blake3 es d" and e: "event_ok e" and h: "page_holds (packed_event_len e) d" and n: "length es < GREEN_EVENTS_PER_PAGE_MAX"
  shows "(\<exists>f x y. append_event blake3 e d = Some (Inl f) \<and> checked_followed_by x y = Inl f) \<or>
    (\<exists>d'. append_event blake3 e d = Some (Inr d') \<and> drafted blake3 (es @ [e]) d')"
proof (cases "checked_followed_by (dr_summary d) (event_summary blake3 e)")
  case (Inl f)
  then show ?thesis using packed_event_summary_ok [OF e, of blake3] by (auto simp: append_event_def)
next
  case (Inr s)
  let ?c = "event_code e"
  have len: "dr_len d + length ?c \<le> ARENA_PAGE_BYTES"
    using h by (simp add: page_holds_def length_event_code checked_add_def split: if_splits)
  have p: "length (dr_page d) = ARENA_PAGE_BYTES" using d by (auto simp: drafted_def zero_page_def)
  have "encode_packed_event e (dr_page d, dr_len d) =
      Some (Inr (), take (dr_len d) (dr_page d) @ ?c @ drop (dr_len d + length ?c) (dr_page d), dr_len d + length ?c)"
    by (rule emitsD [OF emits_event [OF e]]) (use len p in \<open>simp_all add: ARENA_PAGE_BYTES_def\<close>)
  moreover have "take (dr_len d) (dr_page d) @ ?c @ drop (dr_len d + length ?c) (dr_page d) =
      take GREEN_LEAF_HEADER_BYTES zero_page @ events_code (es @ [e]) @ drop (dr_len d + length ?c) zero_page"
    using d len by (simp add: drafted_def events_code_snoc zero_page_def min_absorb2)
  ultimately show ?thesis
    using d e len n packed_event_summary_ok [OF e, of blake3] Inr
    by (auto simp: append_event_def drafted_def events_summary_snoc events_code_snoc GREEN_EVENTS_PER_PAGE_MAX_def add.assoc)
qed

text \<open>An event fits an empty page.\<close>

lemma page_holds_empty: "event_ok e \<Longrightarrow> page_holds (packed_event_len e) empty_draft"
  using event_len_bound(2) [of e]
  by (simp add: page_holds_def empty_draft_def checked_add_def ARENA_PAGE_BYTES_def MAX_PACKED_EVENT_BYTES_def CLOSE_FACTS_MAX_BYTES_def)

lemma drafted_leaf: "drafted blake3 es d \<Longrightarrow> es \<noteq> [] \<Longrightarrow> leaf_ok es"
  by (auto simp: drafted_def leaf_ok_def ARENA_PAGE_BYTES_def)

lemma drafted_header:
  assumes d: "drafted blake3 es d" and n: "es \<noteq> []"
  shows "\<exists>page. encode_leaf_header (dr_events d) (dr_len d - GREEN_LEAF_HEADER_BYTES) (dr_summary d) (dr_page d) = Some (Inr (), page) \<and>
    \<not> length page < dr_len d \<and> take (dr_len d) page = leaf_page es (dr_summary d)"
proof -
  note l = drafted_leaf [OF d n]
  have s: "events_summary blake3 es summary_empty = Inr (dr_summary d)" using d by (simp add: drafted_def)
  note f = leaf_ok_fields [OF l s]
  obtain e where "e \<in> set es" "event_ok e" using l by (cases es) (auto simp: leaf_ok_def)
  then have c: "0 < length (events_code es)" using event_len_bound(1) [of e] by (auto simp: events_code_def length_event_code [symmetric])
  have len: "dr_len d = GREEN_LEAF_HEADER_BYTES + length (events_code es)" "dr_len d \<le> ARENA_PAGE_BYTES"
    and page: "dr_page d = take GREEN_LEAF_HEADER_BYTES zero_page @ events_code es @ drop (dr_len d) zero_page" and ev: "dr_events d = length es"
    using d by (simp_all add: drafted_def)
  have p: "length (dr_page d) = ARENA_PAGE_BYTES" using len by (simp add: page zero_page_def)
  have "encode_leaf_header (length es) (length (events_code es)) (dr_summary d) (dr_page d) =
      Some (Inr (), leaf_header_code (length es) (length (events_code es)) (dr_summary d) @ drop GREEN_LEAF_HEADER_BYTES (dr_page d))"
    using l c by (intro encode_leaf_on [OF soundD(1) [OF f(1)] f(3) _ _ _ _ p]) (simp_all add: leaf_ok_def)
  moreover have "drop GREEN_LEAF_HEADER_BYTES (dr_page d) = events_code es @ drop (dr_len d) zero_page"
    using len by (simp add: page zero_page_def ARENA_PAGE_BYTES_def)
  ultimately show ?thesis using length_leaf_header [OF f(3)] len ev by (simp add: leaf_page_def zero_page_def)
qed

subsection \<open>The leaves pushed so far\<close>

text \<open>The leaves as stored, each a page of its events.\<close>

definition stores_events :: "(bytes \<Rightarrow> bytes) \<Rightarrow> page_arena \<Rightarrow> (arena_id \<times> green_summary) list \<Rightarrow> packed_event list list \<Rightarrow> bool" where
  "stores_events blake3 a = list_all2 (\<lambda>x es. leaf_ok es \<and> events_summary blake3 es summary_empty = Inr (snd x) \<and>
     live_at a (fst x) \<and> node_of a (fst x) = (Some (leaf_page es (snd x)), Some []))"

lemma stores_events_kept:
  assumes "stores_events blake3 a ls ess" "since R a b" "\<And>x. x \<in> set ls \<Longrightarrow> live_at b (fst x)"
  shows "stores_events blake3 b ls ess"
proof -
  have ev: "evolves a b" using assms(2) by (simp add: since_def kept_def)
  show ?thesis using assms(1,3) unfolding stores_events_def
    by (elim list.rel_mono_strong) (use evolves_live [OF ev] spent_not_live in fastforce)
qed

lemma leaves_live: "holds sp a t \<Longrightarrow> x \<in> set (tleaves t) \<Longrightarrow> live_at a (fst x)"
  by (induction t) auto

lemma bin_leaves_tree: "x \<in> set (bin_leaves B) \<Longrightarrow> \<exists>t\<in>set (bin_trees B). x \<in> set (tleaves t)"
  by (auto simp: bin_leaves_def)

lemma bin_leaves_live:
  "green.held blake3 R i a (mset (bin_trees B) + T) F \<Longrightarrow> x \<in> set (bin_leaves B) \<Longrightarrow> live_at a (fst x)"
  using bin_leaves_tree [of x B] green.heldD(3) [of blake3 R i a "mset (bin_trees B) + T" F] leaves_live by fastforce

lemma bins_load:
  assumes "green.held blake3 R i a (mset (bin_trees B)) F"
  shows "green.load (mset (bin_trees B)) = sum_list (map (gs_events \<circ> snd) (bin_leaves B))"
proof -
  have m: "green.additive_metric blake3 gs_events" by (rule green_additive) (simp add: green_metrics_def)
  have t: "gs_events (tsum t) = sum_list (map (gs_events \<circ> snd) (tleaves t))" if "t \<in> set (bin_trees B)" for t
    using green.metric_held [OF m, of a t] green.heldD(3) [OF assms] that by (simp add: summaries_def)
  have "green.load (mset ts) = sum_list (map (gs_events \<circ> snd) (concat (map tleaves (rev ts))))"
    if "\<And>t. t \<in> set ts \<Longrightarrow> gs_events (tsum t) = sum_list (map (gs_events \<circ> snd) (tleaves t))" for ts :: "green_summary seq_tree list"
    using that by (induction ts) (simp_all add: green.load_def)
  then show ?thesis using t by (simp add: bin_leaves_def)
qed

lemma stored_count: "stores_events blake3 a ls ess \<Longrightarrow> sum_list (map (gs_events \<circ> snd) ls) = length (concat ess)"
  unfolding stores_events_def
proof (induction rule: list_all2_induct)
  case (Cons x ls es ess)
  then show ?case using leaf_ok_fields(2) [of es blake3 "snd x"] by simp
qed simp

definition packed :: "(bytes \<Rightarrow> bytes) \<Rightarrow> arena_id multiset \<Rightarrow> arena_build_id \<Rightarrow> page_arena \<Rightarrow> nat \<Rightarrow> sequence_join \<Rightarrow> arena_id multiset \<Rightarrow>
    packed_event list list \<Rightarrow> edit_state \<times> sequence_builder \<Rightarrow> bool" where
  "packed blake3 R i a0 e j F ess t \<longleftrightarrow> (\<exists>B v. t = (v, builder_at i e (map (map_option (own i)) B) None None j False) \<and> bins_ok 0 B \<and>
     since R a0 (fst v) \<and> green.held blake3 R i (fst v) (mset (bin_trees B)) F \<and> stores_events blake3 (fst v) (bin_leaves B) ess)"

abbreviation pack_spoils :: "(bytes \<Rightarrow> bytes) \<Rightarrow> arena_id multiset \<Rightarrow> page_arena \<Rightarrow> green_error \<Rightarrow> edit_state \<times> 'x \<Rightarrow> bool" where
  "pack_spoils blake3 R a0 \<equiv> \<lambda>e t. edit_refusal (green_spec blake3) e \<and> since R a0 (fst (fst t))"

lemma spoils_since:
  "runs (pack_spoils blake3 R a1) m t Q \<Longrightarrow> since R a0 a1 \<Longrightarrow> (\<And>x u. Q x u \<Longrightarrow> Q' x u) \<Longrightarrow> runs (pack_spoils blake3 R a0) m t Q'"
  by (erule runs_conseq) (auto intro: since_trans)

text \<open>A full page becomes the last leaf.\<close>

lemma runs_push_page:
  assumes p: "packed blake3 R i a0 e j F ess t" and d: "drafted blake3 es d" "es \<noteq> []" and n: "length (concat (ess @ [es])) < 2 ^ 63" and e: "64 \<le> e"
  shows "runs (pack_spoils blake3 R a0) (push_replacement_page mem ly blake3 i d) t (\<lambda>_. packed blake3 R i a0 e j F (ess @ [es]))"
proof -
  let ?sp = "green_spec blake3" and ?s = "dr_summary d"
  obtain B v where t: "t = (v, builder_at i e (map (map_option (own i)) B) None None j False)" "bins_ok 0 B" "since R a0 (fst v)"
      and h: "green.held blake3 R i (fst v) (mset (bin_trees B)) F" and st: "stores_events blake3 (fst v) (bin_leaves B) ess"
    using p by (auto simp: packed_def)
  let ?b = "builder_at i e (map (map_option (own i)) B) None None j False"
  obtain page where page: "encode_leaf_header (dr_events d) (dr_len d - GREEN_LEAF_HEADER_BYTES) ?s (dr_page d) = Some (Inr (), page)"
      "\<not> length page < dr_len d" "take (dr_len d) page = leaf_page es ?s" using drafted_header [OF d] by blast
  have l: "leaf_ok es" "events_summary blake3 es summary_empty = Inr ?s" using d drafted_leaf by (auto simp: drafted_def)
  have step: "push_replacement_page mem ly blake3 i d t =
      seq_do (seq_on_fst (changing ?sp (\<lambda>a. session_allocate mem a i (leaf_page es ?s) []))) (\<lambda>leaf.
      seq_do (begin_push ly ?sp i leaf) (\<lambda>_. poll_until (poll_push mem ly ?sp i))) t"
    using page by (simp add: push_replacement_page_def)
  have ev: "gs_events ?s = length es" using leaf_ok_fields(2) [OF l] .
  have pushing: "runs (pack_spoils blake3 R a0) (seq_do (begin_push ly ?sp i (own i (TLeaf g ?s))) (\<lambda>_. poll_until (poll_push mem ly ?sp i)))
      (u, ?b) (\<lambda>_. packed blake3 R i a0 e j F (ess @ [es]))"
    if s: "since R (fst v) (fst u)" and hh: "has ?sp R i (fst u) (add_mset (TLeaf g ?s) (mset (bin_trees B))) F"
      and nd: "node_of (fst u) g = (Some (leaf_page es ?s), Some [])" for g u
  proof -
    have load: "green.load (add_mset (TLeaf g ?s) (mset (bin_trees B))) < 2 ^ 63"
      using n bins_load [OF h] stored_count [OF st] ev by (simp add: green.load_def)
    have hu: "green.held blake3 R i (fst u) (add_mset (TLeaf g ?s) (mset (bin_trees B))) F" using hh load unfolding green.held_def by blast
    note inv = hasD(1) [OF hh]
    have lv: "live_at (fst u) (fst x)" if "x \<in> set (bin_leaves B @ [(g, ?s)])" for x
      using that bin_leaves_live [of blake3 R i "fst u" B "{#TLeaf g ?s#}" F x] hu hasD(4) [OF hh, of "TLeaf g ?s"] by auto
    have "stores_events blake3 (fst u) (bin_leaves B) ess" by (rule stores_events_kept [OF st s]) (use lv in simp)
    then have stu: "stores_events blake3 (fst u) (bin_leaves B @ [(g, ?s)]) (ess @ [es])"
      unfolding stores_events_def by (rule list_all2_appendI) (use l nd lv [of "(g, ?s)"] in simp)
    have fin: "packed blake3 R i a0 e j F (ess @ [es]) z" if z: "green.pushed blake3 R i (fst u) e j (bin_leaves B @ [(g, ?s)]) {#} F z" for z
    proof -
      obtain C y where c: "z = (y, builder_at i e (map (map_option (own i)) C) None None j False)" "bins_ok 0 C"
          "bin_leaves C = bin_leaves B @ [(g, ?s)]" "since R (fst u) (fst y)" "green.held blake3 R i (fst y) (mset (bin_trees C) + {#}) F"
        using z unfolding green.pushed_def by blast
      have "stores_events blake3 (fst y) (bin_leaves C) (ess @ [es])"
        by (rule stores_events_kept [OF stu [folded c(3)] c(4)]) (rule bin_leaves_live [OF c(5)])
      then show ?thesis unfolding packed_def using c since_trans [OF t(3) since_trans [OF s c(4)]] by auto
    qed
    show ?thesis
    proof (rule spoils_since [where Q = "\<lambda>_. green.pushed blake3 R i (fst u) e j (bin_leaves B @ [(g, ?s)]) {#} F", OF _ since_trans [OF t(3) s]], rule runs_do, rule green.runs_begin_push [OF hu since_refl [OF inv]], goal_cases)
      case (1 w)
      show ?case
        by (rule runs_poll_until, rule green.completes_push [where k = 0 and T = "{#}" and D = B and x = "TLeaf g ?s" and F = F, unfolded replicate_0 append_Nil tleaves.simps])
          (use 1 t(2) e in simp_all)
    qed (use fin in simp)
  qed
  have "runs (pack_spoils blake3 R a0) (seq_do (seq_on_fst (changing ?sp (\<lambda>a. session_allocate mem a i (leaf_page es ?s) []))) (\<lambda>leaf.
      seq_do (begin_push ly ?sp i leaf) (\<lambda>_. poll_until (poll_push mem ly ?sp i)))) t (\<lambda>_. packed blake3 R i a0 e j F (ess @ [es]))"
    unfolding t(1)
    by (rule runs_do, rule runs_on_fst, simp only: fst_conv snd_conv,
        rule green.runs_allocate_leaf [OF green.heldD(1) [OF h] t(3) leaf_page_is_leaf [OF l]], rule pushing)
  then show ?thesis by (simp add: runs_def step)
qed

subsection \<open>Packing\<close>

text \<open>The events so far: those pushed, then those on the page.\<close>

definition packing :: "(bytes \<Rightarrow> bytes) \<Rightarrow> arena_id multiset \<Rightarrow> arena_build_id \<Rightarrow> page_arena \<Rightarrow> nat \<Rightarrow> sequence_join \<Rightarrow> arena_id multiset \<Rightarrow>
    packed_event list \<Rightarrow> (edit_state \<times> sequence_builder) \<times> page_draft \<Rightarrow> bool" where
  "packing blake3 R i a0 e j F es t \<longleftrightarrow> (\<exists>ess cur. packed blake3 R i a0 e j F ess (fst t) \<and> drafted blake3 cur (snd t) \<and> es = concat ess @ cur \<and>
     (es \<noteq> [] \<longrightarrow> cur \<noteq> []))"

abbreviation packing_spoils :: "(bytes \<Rightarrow> bytes) \<Rightarrow> arena_id multiset \<Rightarrow> page_arena \<Rightarrow> green_error \<Rightarrow> (edit_state \<times> 'y) \<times> 'x \<Rightarrow> bool" where
  "packing_spoils blake3 R a0 \<equiv> \<lambda>e t. edit_refusal (green_spec blake3) e \<and> since R a0 (fst (fst (fst t)))"

lemma packed_since: "packed blake3 R i a0 e j F ess t \<Longrightarrow> since R a0 (fst (fst t))"
  by (auto simp: packed_def)

lemma runs_append:
  assumes p: "packed blake3 R i a0 e j F ess t" and d: "drafted blake3 cur d" and v: "event_ok ev" and h: "page_holds (packed_event_len ev) d"
    and n: "length cur < GREEN_EVENTS_PER_PAGE_MAX" and k: "\<And>d'. drafted blake3 (cur @ [ev]) d' \<Longrightarrow> Q () (t, d')"
  shows "runs (packing_spoils blake3 R a0) (case append_event blake3 ev d of
      None \<Rightarrow> (\<lambda>_. None) | Some (Inl e) \<Rightarrow> seq_err e | Some (Inr d') \<Rightarrow> altering (\<lambda>_. d')) (t, d) Q"
  using drafted_append [OF d v h n]
proof (elim disjE exE conjE, goal_cases)
  case (1 f x y)
  then show ?case using packed_since [OF p] edit_refusalI(3) [of "green_spec blake3" x y f] by simp
next
  case (2 d')
  then show ?case using k by simp
qed

lemma runs_pack_event:
  assumes p: "packing blake3 R i a0 e j F es t" and v: "event_ok ev" and n: "length es < 2 ^ 63" and e: "64 \<le> e"
  shows "runs (packing_spoils blake3 R a0) (pack_event mem ly blake3 i ev) t (\<lambda>_. packing blake3 R i a0 e j F (es @ [ev]))"
proof -
  obtain u d ess cur where t: "t = (u, d)" "packed blake3 R i a0 e j F ess u" "drafted blake3 cur d" "es = concat ess @ cur"
    using p unfolding packing_def by (metis prod.collapse)
  have ev: "dr_events d = length cur" using t(3) by (simp add: drafted_def)
  let ?full = "dr_events d > 0 \<and> (dr_events d \<ge> GREEN_EVENTS_PER_PAGE_MAX \<or> \<not> page_holds (packed_event_len ev) d)"
  have fits: "length cur < GREEN_EVENTS_PER_PAGE_MAX \<and> page_holds (packed_event_len ev) d" if "\<not> ?full"
  proof (cases "cur = []")
    case True
    then have "d = empty_draft" using t(3)
      by (cases d) (use drafted_empty [of blake3] in \<open>simp add: drafted_def empty_draft_def\<close>)
    then show ?thesis using page_holds_empty [OF v] True by (simp add: GREEN_EVENTS_PER_PAGE_MAX_def)
  qed (use that ev in simp)
  have pk: "packing blake3 R i a0 e j F (concat ess' @ cur' @ [ev]) (u', d')"
    if "packed blake3 R i a0 e j F ess' u'" "drafted blake3 (cur' @ [ev]) d'" for u' ess' cur' d'
    using that by (auto simp: packing_def)
  show ?thesis
  proof (cases ?full)
    case False
    note f = fits [OF False]
    show ?thesis unfolding pack_event_def Let_def t(1)
      by (rule runs_do, simp only: runs_seeing snd_conv if_not_P [OF False], simp add: runs_do_iff f, rule runs_append [OF t(2,3) v])
        (use f pk t(2,4) in auto)
  next
    case True
    then have c: "cur \<noteq> []" using ev by auto
    have n': "length (concat (ess @ [cur])) < 2 ^ 63" using n t(4) by simp
    have push: "runs (packing_spoils blake3 R a0) (seq_on_fst (push_replacement_page mem ly blake3 i d)) (u, d)
        (\<lambda>_ w. packed blake3 R i a0 e j F (ess @ [cur]) (fst w))"
      by (rule runs_on_fst) (use runs_push_page [OF t(2,3) c n' e] in simp)
    show ?thesis unfolding pack_event_def Let_def t(1)
    proof (rule runs_do, simp only: runs_seeing snd_conv True if_True simp_thms, rule runs_bind [OF push], goal_cases)
      case (1 x w)
      then show ?case using page_holds_empty [OF v] pk [OF 1, of "[]"]
        by (simp add: runs_do_iff) (rule runs_append [OF 1 drafted_empty v], auto simp: GREEN_EVENTS_PER_PAGE_MAX_def t(4))
    qed
  qed
qed

lemma runs_pack_events:
  assumes "packing blake3 R i a0 e j F es t" and "\<forall>ev\<in>set evs. event_ok ev" and "length es + length evs < 2 ^ 63" and e: "64 \<le> e"
  shows "runs (packing_spoils blake3 R a0) (pack_events mem ly blake3 i evs) t (\<lambda>_. packing blake3 R i a0 e j F (es @ evs))"
  using assms(1-3)
proof (induction evs arbitrary: es t)
  case (Cons ev evs)
  show ?case unfolding pack_events.simps
  proof (rule runs_bind [OF runs_pack_event [OF Cons.prems(1) _ _ e]], goal_cases)
    case (3 x u)
    then show ?case using Cons.IH [OF 3] Cons.prems(2,3) by simp
  qed (use Cons.prems in simp_all)
qed simp

subsection \<open>The pages of the tree\<close>

text \<open>All the events of a page, read one after the other.\<close>

primrec read_events :: "nat \<Rightarrow> packed_event list green_reader" where
  "read_events 0 input = seq_ok []"
| "read_events (Suc n) input = seq_do (decode_packed_event input) (\<lambda>e. seq_do (read_events n input) (\<lambda>es. seq_ok (e # es)))"

lemma parses_read_events: "\<forall>e\<in>set es. event_ok e \<Longrightarrow> parses (read_events (length es)) (events_code es) es"
proof (induction es)
  case (Cons e es)
  have "parses (\<lambda>input. seq_do (read_events (length es) input) (\<lambda>es. seq_ok (e # es))) (events_code es) (e # es)"
    by (rule parses_last [where x = es]) (use Cons in simp_all)
  then have "parses (\<lambda>input. seq_do (decode_packed_event input) (\<lambda>e. seq_do (read_events (length es) input) (\<lambda>es. seq_ok (e # es))))
      (event_code e @ events_code es) (e # es)"
    by (rule parses_seq [rotated]) (use Cons.prems in \<open>simp add: parses_event\<close>)
  then show ?case by (simp add: events_code_simps)
qed (simp add: parses_def)

text \<open>A stored leaf whose payload decodes to its summary and to these events.\<close>

definition leaf_decodes :: "(bytes \<Rightarrow> bytes) \<Rightarrow> page_arena \<Rightarrow> arena_id \<times> green_summary \<Rightarrow> packed_event list \<Rightarrow> bool" where
  "leaf_decodes blake3 a x es \<longleftrightarrow> (\<exists>p leaf i.
     arena_payload a (fst x) = Some (Inr p) \<and>
     decode_leaf blake3 p \<lparr>payload_bytes_inspected = 0, spec_items_hashed = 0\<rparr> = Some (Inr (Some leaf), i) \<and> dg_summary leaf = snd x \<and>
     read_events (dg_events leaf) (dg_event_bytes leaf) 0 = Some (Inr es, length (dg_event_bytes leaf)))"

lemma stores_decodes:
  assumes "shape a" "stores_events blake3 a ls ess"
  shows "list_all2 (leaf_decodes blake3 a) ls ess"
  using assms(2) unfolding stores_events_def
proof (rule list_all2_mono)
  fix x :: "arena_id \<times> green_summary" and es
  assume a: "leaf_ok es \<and> events_summary blake3 es summary_empty = Inr (snd x) \<and> live_at a (fst x) \<and> node_of a (fst x) = (Some (leaf_page es (snd x)), Some [])"
  let ?i = "\<lparr>payload_bytes_inspected = 0, spec_items_hashed = 0\<rparr>" and ?n = "length (leaf_page es (snd x))"
  have l: "leaf_ok es" "events_summary blake3 es summary_empty = Inr (snd x)" using a by simp_all
  have "?n < 2 ^ 64" "length es < 2 ^ 64"
    using l(1) length_leaf_header [OF leaf_ok_fields(3) [OF l]] by (simp_all add: leaf_page_def leaf_ok_def GREEN_EVENTS_PER_PAGE_MAX_def)
  then have "charge_payload_bytes ?n ?i = Some (?i\<lparr>payload_bytes_inspected := ?n\<rparr>)"
    "charge_hashed_items (length es) (?i\<lparr>payload_bytes_inspected := ?n\<rparr>) = Some (?i\<lparr>payload_bytes_inspected := ?n, spec_items_hashed := length es\<rparr>)"
    by (simp_all add: charge_payload_bytes_def charge_hashed_items_def checked_add_def)
  note d = decode_leaf_page [OF l this]
  have "read_events (length es) (events_code es) 0 = Some (Inr es, length (events_code es))"
    using parsesD [OF parses_read_events, of es "[]" "[]"] l(1) by (simp add: leaf_ok_def)
  moreover have "arena_payload a (fst x) = Some (Inr (leaf_page es (snd x)))"
    using a live_atD(1) [of a "fst x"] by (simp add: arena_payload_def also_ok_def validate_live_at [OF assms(1)] node_of_def slot_at [OF assms(1)])
  ultimately show "leaf_decodes blake3 a x es" using d unfolding leaf_decodes_def by fastforce
qed

subsection \<open>The whole build\<close>

lemma on_fst_do: "seq_on_fst (seq_do m k) = seq_do (seq_on_fst m) (\<lambda>x. seq_on_fst (k x))"
  by (rule ext) (auto simp: seq_on_fst_def seq_do_def split: option.splits sum.splits prod.splits)

lemma runs_finishing:
  assumes p: "packed blake3 R i a0 e (join_at c d [] []) F ess t" "concat ess \<noteq> []" and c: "96 \<le> c" "1 < d"
  shows "runs (packing_spoils blake3 R a0)
    (seq_do (seq_on_fst (begin_finish ly (green_spec blake3) i)) (\<lambda>_.
     seq_do (seq_on_fst (poll_until (poll_finish mem ly (green_spec blake3) i))) (\<lambda>_.
     seq_on_fst (builder_take_root (green_spec blake3) i)))) (t, x)
    (\<lambda>x z. \<exists>y. x = own i y \<and> since R a0 (fst (fst (fst z))) \<and> green.held blake3 R i (fst (fst (fst z))) {#y#} F \<and>
       stores_events blake3 (fst (fst (fst z))) (tleaves y) ess)"
    (is "runs _ _ _ ?Q")
proof -
  let ?sp = "green_spec blake3"
  obtain B v where t: "t = (v, builder_at i e (map (map_option (own i)) B) None None (join_at c d [] []) False)" "since R a0 (fst v)"
      and h: "green.held blake3 R i (fst v) (mset (bin_trees B)) F" and st: "stores_events blake3 (fst v) (bin_leaves B) ess"
    using p(1) by (auto simp: packed_def)
  obtain y ys where b: "rev (bin_trees B) = y # ys"
    using st p(2) by (cases "rev (bin_trees B)") (auto simp: bin_leaves_def stores_events_def)
  have m: "mset (bin_trees B) = add_mset y (mset ys + {#})" using arg_cong [OF b, of mset] by simp
  have l: "bin_leaves B = tleaves y @ concat (map tleaves ys)" by (simp add: bin_leaves_def b)
  note inv = hasD(1) [OF green.heldD(1) [OF h]]
  let ?a = "fst v" and ?n = "1 + length ys"
  have fin: "?Q (own i z) ((u, s), x)" if "since R ?a (fst u)" "green.held blake3 R i (fst u) {#z#} F" "tleaves z = tleaves y @ concat (map tleaves ys)" for z u s
  proof -
    have "stores_events blake3 (fst u) (tleaves z) ess"
      by (rule stores_events_kept [OF st [unfolded l, folded that(3)] that(1)])
        (use leaves_live green.heldD(3) [OF that(2), of z] in auto)
    then show ?thesis using that since_trans [OF t(2)] by auto
  qed
  have root: "runs (pack_spoils blake3 R ?a) (builder_take_root ?sp i) s (\<lambda>r s. ?Q r (s, x))"
    if f: "green.finished blake3 R i ?a e ?n (join_at c d [] []) (tleaves y @ concat (map tleaves ys)) {#} F s" for s
  proof -
    obtain z u where z: "s = (u, builder_at i e (replicate ?n None) None (Some \<lparr>sr_next_bin = ?n, sr_root = Some (own i z), sr_joining = False\<rparr>)
          (join_at c d [] []) False)" "tleaves z = tleaves y @ concat (map tleaves ys)" "since R ?a (fst u)" "green.held blake3 R i (fst u) {#z#} F"
      using f unfolding green.finished_def append_Nil2 list.map by blast
    show ?thesis unfolding z(1)
      by (rule green.runs_take_root [OF z(4), unfolded list.map append_Nil2]) (use fin z in auto)
  qed
  have "runs (pack_spoils blake3 R ?a) (seq_do (begin_finish ly ?sp i) (\<lambda>_.
     seq_do (poll_until (poll_finish mem ly ?sp i)) (\<lambda>_. builder_take_root ?sp i))) t (\<lambda>r s. ?Q r (s, x))"
    unfolding t(1)
  proof (rule runs_do, rule green.runs_begin_finish [OF h b], rule runs_bind [OF runs_poll_until [OF green.completes_reducing [where T = "{#}" and F = F and x = y and xs = ys and R = R and ?a0.0 = ?a and n = 1, OF c]]], goal_cases)
    case (1 u)
    then show ?case using h unfolding m by simp
  next
    case (2 u)
    then show ?case using since_refl [OF inv] by simp
  next
    case (3 u r s)
    then show ?case using root by simp
  qed
  note pack = spoils_since [OF this t(2)]
  show ?thesis unfolding on_fst_do [symmetric] by (rule runs_on_fst, simp only: fst_conv snd_conv, rule pack) simp
qed

lemma runs_build_pages:
  fixes F :: "arena_id multiset"
  assumes h: "green.held blake3 R i (fst u) {#} F" and ly: "\<And>n. n \<le> reserved_room ly n"
    and ev: "\<forall>e\<in>set evs. event_ok e" "evs \<noteq> []" "length evs < 2 ^ 63"
  shows "runs (\<lambda>e t. build_refusal (green_spec blake3) e \<and> since R (fst u) (fst t)) (build_replacement_pages mem ly blake3 i evs) u
    (\<lambda>x t. \<exists>y ess. x = own i y \<and> since R (fst u) (fst t) \<and> green.held blake3 R i (fst t) {#y#} F \<and> concat ess = evs \<and>
       stores_events blake3 (fst t) (tleaves y) ess)"
    (is "runs ?E _ _ ?Q")
proof -
  let ?sp = "green_spec blake3" and ?a = "fst u"
  note inv = hasD(1) [OF green.heldD(1) [OF h]]
  have weak: "runs (\<lambda>e t. ?E e (fst (fst t))) m t P" if "runs (packing_spoils blake3 R ?a) m t P" for m t P
    using that by (rule runs_conseq) (auto simp: build_refusal_def)
  show ?thesis unfolding build_replacement_pages_def Let_def
  proof (rule runs_do, rule green.runs_builder_new [OF h since_refl [OF inv] ly], rule runs_with_local, rule runs_with_local, rule weak, goal_cases)
    case (1 v e c d)
    let ?j = "join_at c d [] []"
    have "packed blake3 R i ?a e ?j F [] (v, builder_at i e [] None None ?j False)"
      unfolding packed_def using 1(1) h since_refl [OF inv] by (intro exI [of _ "[]"] exI [of _ v]) (simp add: stores_events_def)
    then have p: "packing blake3 R i ?a e ?j F [] ((v, builder_at i e [] None None ?j False), empty_draft)"
      unfolding packing_def by (intro exI [of _ "[]"]) (simp add: drafted_empty)
    show ?case
    proof (rule runs_bind [OF runs_pack_events [OF p ev(1) _ 1(2)]], use ev(3) in simp, goal_cases)
      case (1 x t)
      then obtain w d' ess cur where t: "t = (w, d')" "packed blake3 R i ?a e ?j F ess w" "drafted blake3 cur d'" "evs = concat ess @ cur" "cur \<noteq> []"
        using ev(2) unfolding packing_def by (metis append_Nil prod.collapse)
      have n: "length (concat (ess @ [cur])) < 2 ^ 63" "dr_events d' \<noteq> 0" using ev(3) t(3-5) by (simp_all add: drafted_def)
      have push: "runs (packing_spoils blake3 R ?a) (seq_on_fst (push_replacement_page mem ly blake3 i d')) (w, d')
          (\<lambda>_ z. packed blake3 R i ?a e ?j F (ess @ [cur]) (fst z))"
        by (rule runs_on_fst) (use runs_push_page [OF t(2,3,5) n(1) \<open>64 \<le> e\<close>] in simp)
      show ?case unfolding t(1)
        apply (simp add: runs_do_iff [of _ "ensuring _ _"] n(2))
        apply (rule impI, rule runs_do, simp, rule runs_mono [OF push])
        subgoal for x z
          by (rule runs_mono [OF runs_finishing [of blake3 R i ?a e c d F "ess @ [cur]" "fst z" ly mem "snd z", unfolded prod.collapse]])
            (use t(4,5) \<open>96 \<le> c\<close> \<open>1 < d\<close> in \<open>auto intro!: exI [of _ "ess @ [cur]"]\<close>)
        done
    qed
  qed
qed

text \<open>
  C23: Packing a nonempty list of events ends, without a panic: in an open session it either refuses, for want of a resource or because two
  summaries do not combine, or hands out the root of a balanced tree that the session now owns besides what it owned. The payloads of the
  tree's leaves, read in order, decode under their summaries to exactly the events, in their order. Either way every
  committed tree is still stored as it was. The events are within their contract and fewer than \<open>2 ^ 63\<close>, and a vector has at least the capacity reserved.
\<close>

theorem build_replacement_pages_exact:
  assumes "arena_reachable w" "w_session w = Some i" "\<forall>n. n \<le> reserved_room ly n"
    and "\<forall>e\<in>set events. event_ok e" "events \<noteq> []" "length events < 2 ^ 63"
  shows "\<exists>r b receipt'. build_replacement_pages mem ly blake3 i events (w_arena w, receipt) = Some (r, b, receipt') \<and>
    (\<forall>c\<in>#w_roots w. \<forall>y. troot y = c \<longrightarrow> green_stored blake3 (w_arena w) y \<longrightarrow> green_stored blake3 b y) \<and>
    (case r of Inl e \<Rightarrow> build_refusal (green_spec blake3) e
     | Inr x \<Rightarrow> \<exists>t pages. x = own i t \<and> green_stored blake3 b t \<and> owners b i = add_mset (troot t) (owners (w_arena w) i) \<and>
         concat pages = events \<and> list_all2 (leaf_decodes blake3 b) (tleaves t) pages)"
proof -
  let ?a = "w_arena w"
  note inv = worldD(1) [OF reachable_inv [OF assms(1)]]
  have i: "names ?a Active i" using worldD(2) [OF reachable_inv [OF assms(1)]] assms(2) by simp
  have h: "green.held blake3 (w_roots w) i (fst (?a, receipt)) {#} (owners ?a i)"
    unfolding green.held_def using inv i by (simp add: has_def owners_def)
  have keep: "\<forall>c\<in>#w_roots w. \<forall>y. troot y = c \<longrightarrow> green_stored blake3 ?a y \<longrightarrow> green_stored blake3 b y" if "since (w_roots w) ?a b" for b
    using green.committed_holds [OF that] by (auto simp: green_stored_def)
  show ?thesis
  proof (rule runsE [OF runs_build_pages [OF h assms(3) [rule_format] assms(4-6), of mem]], goal_cases)
    case (1 e u)
    then show ?case using keep [of "fst u"] by (cases u) auto
  next
    case (2 x u)
    then obtain t ess where t: "x = own i t" "since (w_roots w) ?a (fst u)" "green.held blake3 (w_roots w) i (fst u) {#t#} (owners ?a i)"
        "concat ess = events" "stores_events blake3 (fst u) (tleaves t) ess" by auto
    have sh: "shape (fst u)" using node_invD(1) [OF arena_invD(1) [OF hasD(1) [OF green.heldD(1) [OF t(3)]]]] .
    have "green_stored blake3 (fst u) t"
      using green.heldD(2) [OF t(3)] green.heldD(3) [OF t(3), of t] by (simp add: green_stored_def green.load_def)
    moreover have "owners (fst u) i = add_mset (troot t) (owners ?a i)" using hasD(3) [OF green.heldD(1) [OF t(3)]] by (simp add: owners_def)
    ultimately show ?case using 2(1) t(1,4) keep [OF t(2)] stores_decodes [OF sh t(5)] by (cases u) auto
  qed
qed

theorem build_replacement_pages_exact_witness:
  "\<exists>r b receipt'. build_replacement_pages (\<lambda>_. True) \<lparr>reserved_room = id, option_bytes = 56, task_bytes = 88, owner_bytes = 40\<rparr> demo_hash demo_build
      [demo_event, demo_event] (w_arena green_world, default_mutation_receipt) = Some (r, b, receipt') \<and>
    (case r of Inl e \<Rightarrow> build_refusal (green_spec demo_hash) e
     | Inr x \<Rightarrow> \<exists>t pages. x = own demo_build t \<and> concat pages = [demo_event, demo_event] \<and> list_all2 (leaf_decodes demo_hash b) (tleaves t) pages)"
proof -
  have s: "w_session green_world = Some demo_build" by (simp add: green_world_def)
  from build_replacement_pages_exact [OF green_world_reachable s, where events = "[demo_event, demo_event]" and mem = "\<lambda>_. True" and
      ly = "\<lparr>reserved_room = id, option_bytes = 56, task_bytes = 88, owner_bytes = 40\<rparr>" and ?blake3.0 = demo_hash and receipt = default_mutation_receipt]
  show ?thesis using demo_event_ok(1) by (simp, elim exE conjE) (auto split: sum.splits)
qed

end
