(* ===== verification/Spec2Isabelle.thy ===== *)
theory Spec2Isabelle
  imports Flark_Abi Flark_Explains Flark_Roundtrip Flark_Whole Flark_Mersenne Flark_Arena_System Flark_Green_Rows Flark_Green_Tree Flark_Green_Packed
begin

text \<open>
  A verification of flark's Markdown parse crate, \<^verbatim>\<open>native/flark_parse/src\<close>, and of the node storage of its V4 engine with the
  persistent sequence and the page codec on it, \<^verbatim>\<open>legacy/v4/flark/native/comrak_bridge/crates/flark_engine/src\<close>.

  \<^bold>\<open>The program.\<close> A host hands the crate a UTF-8 text through a C interface (\<^verbatim>\<open>lib.rs\<close>). The text is refused
  when it would overflow comrak's stack or tables; otherwise comrak, a third-party parser,
  parses it, and the extractor (\<^verbatim>\<open>model.rs\<close>) walks comrak's tree and derives what an editor paints: one
  record per block, one per line of content, one per inline run, and the link definitions
  comrak dropped, each as a range of the source in bytes and in UTF-16 units. comrak's positions are
  often wrong, so the extractor corrects them, checks what it derived against the source, publishes a leaf
  without runs when its runs do not hold, and refuses a model whose structure does not hold. The
  records are packed into 32-bit words (\<^verbatim>\<open>schema.rs\<close>) and handed to the host; \<^verbatim>\<open>records.rs\<close> reads them back.

  \<^bold>\<open>The theories,\<close> each named after what it models, in the order of the code:
  \<^item> \<open>Flark_Prelude\<close>: bytes, slices, the scanning loops, UTF-8, words.
  \<^item> \<open>Flark_Lines\<close>, \<^verbatim>\<open>lines.rs\<close>: \<open>line_index_new\<close> and the queries of the line table. The lines tile the source; the UTF-16
    table counts code units; a byte's line holds it.
  \<^item> \<open>Flark_Refdefs\<close>, \<^verbatim>\<open>reference_definitions.rs\<close>: link definitions at the start of a paragraph. Definitions
    follow each other; the title scan is the longest match of its grammar.
  \<^item> \<open>Flark_Ast\<close>: comrak's tree as the extraction reads it, and the cache of decoded entity
    references, which is transparent. \<open>Flark_Pieces\<close> and \<open>Flark_Explains\<close>, \<^verbatim>\<open>text_pieces.rs\<close>: a text node that differs from its
    source, split into pieces that tile the source and rebuild the literal; the prefilter and the covering
    table before it change no answer.
  \<^item> \<open>Flark_Limits\<close>, \<open>Flark_Columns\<close>, \<open>Flark_Buffers\<close>, \<^verbatim>\<open>model.rs\<close>: the bounds checked before the parse, the column cursor and
    container prefixes, and the derived buffers with their memo and union-find.
  \<^item> \<open>Flark_Schema\<close>, \<^verbatim>\<open>schema.rs\<close> and \<^verbatim>\<open>records.rs\<close>: the wire and internal records.
  \<^item> \<open>Flark_Extractor\<close>, \<open>Flark_Runs\<close>, \<open>Flark_Structure\<close>, \<open>Flark_Place\<close>, \<open>Flark_Inlines\<close>, \<open>Flark_Walk\<close>, \<open>Flark_Leaf\<close>, \<^verbatim>\<open>model.rs\<close>: the
    extractor's state (the record \<open>extractor\<close>, threaded through every operation), the walk over the
    blocks, the checks of a leaf's runs, the block ranges, the placement of inlines, one
    definition per arm of the inline match and of the leaf match.
  \<^item> \<open>Flark_Extract\<close>, \<open>Flark_Passes\<close>, \<open>Flark_Whole\<close>: \<^verbatim>\<open>Extractor::run\<close> and \<^verbatim>\<open>extract\<close>, the passes in order, and what
    each keeps of the others' work.
  \<^item> \<open>Flark_Encode\<close>, \<open>Flark_Expand\<close>, \<open>Flark_Offsets\<close>, \<open>Flark_Sections\<close>, \<open>Flark_Roundtrip\<close>: packing a model into words,
    expanding it again, and that the second undoes the first.
  \<^item> \<open>Flark_Abi\<close>, \<^verbatim>\<open>lib.rs\<close>: the exported functions over the host's memory.

  \<^bold>\<open>The V4 engine's storage\<close> keeps persistent nodes in slots of a segmented arena. A handle is a slot with a generation; a
  node counts its references, which are edges of other nodes, entries of a build's journal, and
  committed roots. A build allocates and retains through a session, is suspended and resumed, and ends sealed,
  which commits its latest owner and releases the others one at a time, or aborted. Unreferenced nodes and aborted journals
  wait in queues that \<^verbatim>\<open>poll_reclaim\<close> empties a bounded number of steps at a time.
  \<^item> \<open>Flark_Mersenne\<close>, \<^verbatim>\<open>mersenne61.rs\<close>: sums and products modulo a Mersenne prime by folding are exact.
  \<^item> \<open>Flark_Arena\<close>, \<^verbatim>\<open>storage.rs\<close>: the arena's data and every operation, in the order of the code. \<open>Flark_Links\<close>: intrusive lists
    in a vector, as the free lists and the queues are kept.
  \<^item> \<open>Flark_Arena_Nodes\<close>, \<open>Flark_Arena_Steps\<close>: the invariant of the nodes (exact counts, exact lists, no cycle, exact totals) and what each
    node operation does under it. \<open>Flark_Arena_Builds\<close>, \<open>Flark_Arena_World\<close>: the same for journals, seals and reclamation.
  \<^item> \<open>Flark_Arena_System\<close>: the transition system of an arena and the capabilities its clients hold; the invariant by rule induction, and
    from it that nothing panics, stale handles stay dead, limits hold, seals commit, and reclamation finishes and leaves
    nothing behind.

  \<^bold>\<open>The V4 measured sequence\<close> is a persistent AVL tree of pages in the arena; a specification says how pages decode, how a branch is
  encoded and how summaries combine. The green tree, a document's parse as a stream of events, is its instance.
  \<^item> \<open>Flark_Sequence\<close>, \<open>Flark_Sequence_Edit\<close>, \<^verbatim>\<open>measured_sequence.rs\<close>: \<open>sequence_node\<close>, the caches, range summaries, the descents by index and by
    metric, the partition and the visit; then \<open>make_branch\<close>, \<open>join_owned_atomic\<close>, \<open>split_owned_atomic\<close> and the splice, on the arena and
    the receipt. The recursions are bounded by the tree, not by fuel: that they return is part of what is proved.
  \<^item> \<open>Flark_Sequence_Trees\<close>: the trees of pages and the height table. \<open>Flark_Sequence_Reads\<close>, \<open>Flark_Sequence_Walks\<close>: a calculus of runs with
    postconditions, what it means that the arena stores a tree, and every read against the list of its leaves.
    \<open>Flark_Sequence_Owners\<close>, \<open>Flark_Sequence_Joins\<close>: what a build session owns, and every mutation. \<open>Flark_Sequence_Calls\<close>: the public calls.
  \<^item> \<open>Flark_Sequence_Builder\<close>, \<^verbatim>\<open>measured_sequence.rs\<close>: the resumable join, a stack of tasks and of values, and the resumable builder, a
    binary counter of trees, each polled one step at a time; the typed seals and roots. \<open>Flark_Sequence_Polls\<close>: every poll of a join
    lowers a count of work, bounded by the heights, and the join leaves the tree the two make. \<open>Flark_Sequence_Builds\<close>: the same of the builder.
  \<^item> \<open>Flark_Green\<close>, \<^verbatim>\<open>recursive_green/codec.rs\<close>: events, their variable-length codec, the commitment, the summary and
    \<open>checked_followed_by\<close>, leaf and branch pages, row trailers, and \<open>green_spec\<close>. BLAKE3, a library, is the parameter \<open>blake3\<close>, of
    which nothing is assumed.
  \<^item> \<open>Flark_Green_Codec\<close>, \<open>Flark_Green_Pages\<close>, \<open>Flark_Green_Leaves\<close>, \<open>Flark_Green_Rows\<close>: what is written reads back, and what is read is
    canonical. \<open>Flark_Green_Summary\<close>: the algebra of summaries. It is associative below \<open>2 ^ 63\<close> events; past
    that the depth counters, which are \<^verbatim>\<open>i64\<close>, may overflow in one grouping only. \<open>Flark_Green_Spec\<close>: \<open>green_spec\<close> satisfies the laws of
    the sequence. \<open>Flark_Green_Tree\<close>: the reads and the splice on a stored green tree.
  \<^item> \<open>Flark_Green_Packing\<close>, \<^verbatim>\<open>recursive_green/splice.rs\<close>: \<open>build_replacement_pages\<close>, which packs events into pages and pages into a
    tree. \<open>Flark_Green_Packed\<close>: the tree's pages decode to the events, in order.

  \<^bold>\<open>How the code is rendered.\<close> A \<^verbatim>\<open>usize\<close> is a natural number and a \<^verbatim>\<open>u32\<close> a 32-bit word, with every cast written out
  (\<open>to_u32\<close>, \<open>to_usize\<close>); a slice is \<open>seg\<close>; a loop is a recursive function, or a partial one that is proved to return, so no definition has fuel,
  and where the source tests \<^verbatim>\<open>!=\<close> the model may test \<open><\<close> when the lemmas show the value only grows. A finding is
  its rule and its leaf; the texts of findings and of errors are left out. In the arena a panic is the
  value \<open>None\<close>, an error the left of a sum, and the only fuel is the one the code's polls take. comrak is
  the parameter \<open>comrak\<close>, the decoding of one entity reference \<open>dec\<close>; nothing is assumed of either.

  \<^bold>\<open>Interfaces.\<close> The locales \<open>cursor_move\<close> (a step of the column cursor), \<open>block_edit\<close> (a pass that keeps the tree),
  \<open>run_step\<close> (a step of the inline walk), \<open>leaf_arm\<close> (an arm of the leaf match), \<open>handle_store\<close> (handles kept across steps) and
  \<open>measured_spec\<close> (what the sequence asks of its pages) state what their clients rely on; each is interpreted on every operation of the model that claims it.

  \<^bold>\<open>Properties of the whole,\<close> in this theory: a model that is returned is sound; the blocks are comrak's tree;
  UTF-16 and byte ranges agree; the runs nest; definitions are in order.

  \<^bold>\<open>Not modelled.\<close> comrak itself (not part of the sources); the detail texts of findings; out-of-range
  indexing, which would panic (a panic of the extraction is a parameter of \<open>flark_parse\<close>); the allocator, of
  which \<open>flark_parse_free_restores\<close> assumes fresh addresses; reuse of a scratch vector between leaves; the
  command-line tools, spikes, and the Dart packages; the retired V3 bridge, V4 parser and V4 runtime, and of the V4 engine the
  source replica, the builders and queries over the green tree and the reference indexes. Of the splices of the green tree, all but the
  packing of events into pages; of the codec, the conversions of other modules' errors. Of the arena, debug assertions, formatting and the spare capacity of vectors are left out.
\<close>

unbundle bit_operations_syntax

section \<open>Properties of the whole extraction\<close>

text \<open>A document of one paragraph, for the concrete instances below.\<close>

definition one_paragraph :: ast where
  "one_paragraph =
     (let p = \<lparr>sp_start = \<lparr>lc_line = 1, lc_column = 1\<rparr>, sp_end = \<lparr>lc_line = 1, lc_column = 1\<rparr>\<rparr>
      in Node Document p [Node Paragraph p [Node (Text ''a'') p []]])"

text \<open>
  C5: Whatever comrak's positions are and whatever the passes repair, the extraction publishes exactly
  the blocks of comrak's tree, in document order and with their kinds, each after its parent,
  and its containers are the ones the walk found.
\<close>

theorem extraction_keeps_tree:
  assumes "utf8_valid src" "length src < 4294967296"
  shows "map bl_kind (ex_blocks (extraction dec root src collect)) = map value_kind (preorder root) \<and>
         parents_ok (ex_blocks (extraction dec root src collect)) \<and>
         containers_ok (ex_containers (extraction dec root src collect)) (length (ex_blocks (extraction dec root src collect)))"
proof -
  let ?w = "snd (walk_blocks dec root (extractor_new src collect))" and ?ex = "extraction dec root src collect"
  have k: "keeps ?w ?ex" using extraction_passes [OF assms] by blast
  have w: "walk_ok ?w" using walk_blocks_spec [of dec root src collect] by (simp add: walk_ok_def)
  have "map bl_kind (ex_blocks ?ex) = map bl_kind (ex_blocks ?w)"
    using keeps_nth [OF k] keeps_length [OF k] by (simp add: list_eq_iff_nth_eq)
  then show ?thesis using walk_blocks_spec [of dec root src collect] keeps_walk_ok [OF k w] by (simp add: walk_ok_def)
qed

theorem extraction_keeps_tree_witness:
  "map bl_kind (ex_blocks (extraction (\<lambda>r. r) one_paragraph ''a'' True)) = [BK_DOCUMENT, BK_PARAGRAPH]"
  using extraction_keeps_tree [of "''a''" "\<lambda>r. r" one_paragraph True]
  by (simp add: utf8_width_def one_paragraph_def value_kind_def is_leaf_value_def Let_def)

text \<open>
  C6: Every published block is a range of the source twice over: through every repair, its UTF-16 offsets are
  those of its byte offsets in the line table.
\<close>

theorem extraction_units_agree:
  assumes "utf8_valid src" "length src < 4294967296" "b \<in> set (ex_blocks (extraction dec root src collect))"
  shows "bl_start_utf16 b = u16 (line_index_new src) (to_usize (bl_start_byte b)) \<and>
         bl_end_utf16 b = u16 (line_index_new src) (to_usize (bl_end_byte b))"
proof -
  let ?w = "snd (walk_blocks dec root (extractor_new src collect))"
  have w: "walking src collect ?w" by (rule walk_blocks_walking [OF assms(1,2)])
  have "keeps ?w (extraction dec root src collect)" using extraction_passes [OF assms(1,2)] by blast
  then have "units_ok (extraction dec root src collect) \<and> ex_li (extraction dec root src collect) = line_index_new src"
    using w by (simp add: keeps_def walking_def src_ok_def)
  then show ?thesis using assms(3) by (simp add: units_ok_def list_all_iff block_units_def)
qed

theorem extraction_units_agree_witness:
  "bl_end_utf16 (hd (ex_blocks (extraction (\<lambda>r. r) empty_doc [] True))) =
     u16 (line_index_new []) (to_usize (bl_end_byte (hd (ex_blocks (extraction (\<lambda>r. r) empty_doc [] True)))))"
  using extraction_units_agree [of "[]" "hd (ex_blocks (extraction (\<lambda>r. r) empty_doc [] True))" "\<lambda>r. r" empty_doc True]
  by (simp add: empty_extraction empty_document_def)

text \<open>
  C4: The runs of the whole document can be painted, after every repair of comrak's positions. Each run's content lies
  in it, and its parent is none or an earlier run of the same block that contains it. The runs come leaf by leaf in
  the order of the walk; those of one leaf name its block, have their parents among themselves, and no run of a leaf starts
  before an earlier one of that leaf with the same parent ends, the runs without parent included.
\<close>

theorem extraction_runs_nest:
  assumes "utf8_valid src" "length src < 4294967296"
  shows "runs_nest (ex_runs (extraction dec root src True)) \<and>
         (\<exists>segs. ex_runs (extraction dec root src True) = concat segs \<and>
            leafwise [] (fst (walk_blocks dec root (extractor_new src True))) segs)"
  using extraction_passes [OF assms, of dec root True] leafwise_nest [of "[]"] by (auto simp: runs_nest_def)

theorem extraction_runs_nest_witness:
  "runs_nest (ex_runs (extraction (\<lambda>r. r) one_paragraph ''a'' True)) \<and>
   (\<exists>segs. ex_runs (extraction (\<lambda>r. r) one_paragraph ''a'' True) = concat segs \<and>
      leafwise [] (fst (walk_blocks (\<lambda>r. r) one_paragraph (extractor_new ''a'' True))) segs)"
  by (rule extraction_runs_nest) (simp_all add: utf8_width_def)

text \<open>
  The published definitions are in source order, no two at one place.
\<close>

lemma extraction_definitions_ordered:
  assumes "utf8_valid src" "length src < 4294967296"
  shows "sorted_wrt (<) (map def_start (ex_definitions (extraction dec root src collect)))"
  using extraction_passes [OF assms, of dec root collect] by blast

text \<open>Encoding reports only; when every finding it hands back is scoped, it reported nothing.\<close>

lemma encode_scoped:
  assumes "ex_collect ex" "list_all (\<lambda>d. dv_leaf d \<noteq> None) (ex_deviations (snd (encode ex)))"
  shows "list_all (\<lambda>d. dv_leaf d \<noteq> None) (ex_deviations ex) \<and> \<not> sc_overflow (encode_blocks ex) \<and>
         length (sc_content (encode_blocks ex)) = length (ex_content ex)"
  using assms by (auto simp: encode_def Let_def dev_def split: if_splits)

lemma check_structure_scoped:
  assumes "ex_collect ex" "list_all (\<lambda>d. dv_leaf d \<noteq> None) (ex_deviations (check_structure ex))"
  shows "structure_ok (check_structure ex)"
  using assms structure_problem_iff [of ex] by (auto simp: check_structure_def dev_def split: option.splits)

text \<open>
  C1: A model the extraction returns is sound: the document was not refused, the words are the encoding of
  the passes' result, its blocks, content and runs satisfy the structure a host relies on (\<open>structure_ok\<close>), and the published
  content records are those of the blocks' slices, as many as there are records: none is lost, and
  each one's line and virtual spaces are the bits of its packed word, uncut.
\<close>

theorem extract_ok_sound:
  assumes src: "utf8_valid src" "length src < 4294967296"
    and ok: "extractor_extract comrak src = Inr words"
    and ex: "ex = extraction (shown_reference comrak) (comrak extraction_options src) src True"
  shows "refusal_of src = None \<and> words = encode_words ex \<and> structure_ok ex \<and>
         sc_content (encode_blocks ex) = map encode_content (concat (map (block_content (ex_content ex)) (ex_blocks ex))) \<and>
         length (concat (map (block_content (ex_content ex)) (ex_blocks ex))) = length (ex_content ex) \<and>
         (\<forall>c \<in> set (concat (map (block_content (ex_content ex)) (ex_blocks ex))).
            wc_line_virtual (encode_content c) AND LINE_MASK = co_line c \<and>
            drop_bit VIRTUAL_SHIFT (wc_line_virtual (encode_content c)) AND VIRTUAL_MASK = co_virtual_leading_spaces c)"
proof -
  have no: "refusal_of src = None"
  proof (rule ccontr)
    assume "refusal_of src \<noteq> None"
    then obtain r where "refusal_of src = Some r" by blast
    moreover have "ex_deviations (snd (encode (refused r e))) \<noteq> [] \<and> \<not> list_all (\<lambda>d. dv_leaf d \<noteq> None) (ex_deviations (snd (encode (refused r e))))" for r e
      by (simp add: encode_def Let_def refused_def dev_def)
    ultimately show False using ok by (auto simp: extractor_extract_def run_extraction_def split_def Let_def split: if_splits)
  qed
  then have run: "run_extraction comrak src True = (encode_words ex, ex_deviations (snd (encode ex)))"
    unfolding run_extraction_def ex by (simp add: split_def) (simp add: encode_def Let_def)
  then have all: "words = encode_words ex" "list_all (\<lambda>d. dv_leaf d \<noteq> None) (ex_deviations (snd (encode ex)))"
    using ok by (auto simp: extractor_extract_def split: if_splits)
  let ?w = "snd (walk_blocks (shown_reference comrak) (comrak extraction_options src) (extractor_new src True))"
  have "keeps ?w ex" "walking src True ?w" unfolding ex using extraction_passes [OF src] walk_blocks_walking [OF src] by blast+
  then have collect: "ex_collect ex" by (simp add: keeps_def walking_def)
  obtain e0 where e0: "ex = check_structure e0" unfolding ex extraction_def finish_blocks_def by (auto simp: split_def)
  then have "ex_collect e0" using collect by (auto simp: check_structure_def split: option.splits)
  then have "structure_ok ex" unfolding e0 using check_structure_scoped encode_scoped [OF collect all(2)] e0 by blast
  moreover note encode_scoped [OF collect all(2)]
  ultimately show ?thesis
    using no all(1) by (auto simp: encode_blocks_sections list_ex_iff encode_content_packed)
qed

theorem extract_ok_sound_witness:
  "structure_ok (extraction (shown_reference empty_parser) (empty_parser extraction_options []) [] True)"
  using extract_ok_sound [OF _ _ empty_extract refl] by simp

end
